(* ===== verification/Prelude.thy ===== *)
theory Prelude
  imports Main "HOL-Library.Word" "HOL-Library.Monad_Syntax"
begin

text \<open>
  Shared vocabulary of the development: digit strings and their value, the ripple loop that
  the number classes of the compiler and of the run time share, the contract of a digit adder
  and of a four-valued logic as locales, and a few facts on two's complement representation,
  list update and option-valued code that the component theories use.

  Convention: a result of type \<open>'a option\<close> is \<open>None\<close> exactly where the C++ code stops
  (a failed assert, an out-of-range access, a trapping machine instruction).
\<close>

named_theorems value_simps \<open>equations that compute the numeric value of a bit string\<close>
named_theorems defined_simps \<open>facts about strings without unknown bits\<close>

section \<open>Option-valued code\<close>

text \<open>An assert of the C++ code: the rest only runs when the condition holds.\<close>

definition assert_opt :: "bool \<Rightarrow> unit option" where
  "assert_opt b = (if b then Some () else None)"

lemma assert_opt_simps [simp]:
  "assert_opt True = Some ()"
  "assert_opt False = None"
  by (simp_all add: assert_opt_def)

lemma assert_opt_eq_Some [simp]: "assert_opt b = Some u \<longleftrightarrow> b"
  by (simp add: assert_opt_def)

section \<open>List update by index\<close>

lemma take_Suc_update:
  "i < length xs \<Longrightarrow> take (Suc i) (xs[i := v]) = take i xs @ [v]"
  by (simp add: take_Suc_conv_app_nth)

lemma drop_Suc_update: "drop (Suc i) (xs[i := v]) = drop (Suc i) xs"
  by simp

lemma list_update_split:
  "i < length xs \<Longrightarrow> xs[i := v] = take i xs @ [v] @ drop (Suc i) xs"
  by (simp add: upd_conv_take_nth_drop)

lemma list_all_take: "list_all P xs \<Longrightarrow> list_all P (take n xs)"
  by (auto simp: list_all_iff dest: in_set_takeD)

lemma list_all_drop: "list_all P xs \<Longrightarrow> list_all P (drop n xs)"
  by (auto simp: list_all_iff dest: in_set_dropD)

lemma list_all_replicate [simp]: "list_all P (replicate n x) \<longleftrightarrow> n = 0 \<or> P x"
  by (induction n) auto

lemma list_all_nthD: "list_all P xs \<Longrightarrow> i < length xs \<Longrightarrow> P (xs ! i)"
  by (simp add: list_all_length)

lemma list_all_update: "list_all P xs \<Longrightarrow> P v \<Longrightarrow> list_all P (xs[i := v])"
  by (auto simp: list_all_iff dest!: set_update_subset_insert [THEN subsetD])

section \<open>Two's complement\<close>

text \<open>The signed range of \<open>n\<close> bits, and the fact that a value in it is determined by its
  residue.\<close>

definition in_signed :: "nat \<Rightarrow> int \<Rightarrow> bool" where
  "in_signed n x \<longleftrightarrow> - (2 ^ n) \<le> 2 * x \<and> 2 * x < 2 ^ n"

lemma mod_unique_range:
  fixes a b m :: int
  assumes "a mod m = b mod m" "\<bar>a - b\<bar> < m"
  shows "a = b"
proof -
  from assms(1) have "m dvd a - b" by (simp add: mod_eq_dvd_iff)
  with assms(2) have "a - b = 0"
    using zdvd_not_zless [of "\<bar>a - b\<bar>" m] by auto
  then show ?thesis by simp
qed

lemma in_signed_unique:
  assumes "in_signed n a" "in_signed n b" "a mod 2 ^ n = b mod 2 ^ n"
  shows "a = b"
proof (rule mod_unique_range [OF assms(3)])
  show "\<bar>a - b\<bar> < 2 ^ n" using assms(1,2) by (auto simp: in_signed_def abs_less_iff)
qed

lemma in_signed_mono: "in_signed n x \<Longrightarrow> n \<le> m \<Longrightarrow> in_signed m x"
  unfolding in_signed_def
  using power_increasing [of n m "2 :: int"] by linarith

lemma pow2_Suc_pred: "0 < n \<Longrightarrow> (2 :: int) ^ n = 2 * 2 ^ (n - 1)"
  by (cases n) simp_all

text \<open>Arithmetic on the part of a number above bit \<open>r\<close> is arithmetic on the whole, modulo the width.\<close>

lemma mod_low_high:
  fixes a x :: int
  assumes "0 \<le> a" "a < 2 ^ r" "r \<le> n"
  shows "a + 2 ^ r * (x mod 2 ^ (n - r)) = (a + 2 ^ r * x) mod 2 ^ n"
proof -
  have n: "(2 :: int) ^ n = 2 ^ r * 2 ^ (n - r)" using assms(3) by (simp flip: power_add)
  have "(a + 2 ^ r * x) mod 2 ^ n = 2 ^ r * ((a + 2 ^ r * x) div 2 ^ r mod 2 ^ (n - r)) +
      (a + 2 ^ r * x) mod 2 ^ r"
    unfolding n by (rule zmod_zmult2_eq) simp
  also have "(a + 2 ^ r * x) div 2 ^ r = x" using assms(1,2) by simp
  also have "(a + 2 ^ r * x) mod 2 ^ r = a" using assms(1,2) by simp
  finally show ?thesis by simp
qed

lemma in_signed_mult:
  assumes "in_signed n x" "in_signed m y" "0 < n" "0 < m"
  shows "in_signed (n + m) (x * y)"
proof -
  have "\<bar>x\<bar> \<le> 2 ^ (n - 1)" "\<bar>y\<bar> \<le> 2 ^ (m - 1)"
    using assms pow2_Suc_pred [of n] pow2_Suc_pred [of m] by (auto simp: in_signed_def abs_le_iff)
  then have "\<bar>x * y\<bar> \<le> 2 ^ (n - 1) * 2 ^ (m - 1)"
    unfolding abs_mult by (rule mult_mono) auto
  moreover have "(2 :: int) ^ (n + m) = 4 * (2 ^ (n - 1) * 2 ^ (m - 1))"
    using assms(3,4) pow2_Suc_pred [of n] pow2_Suc_pred [of m] by (simp add: power_add)
  moreover have "(0 :: int) < 2 ^ (n - 1) * 2 ^ (m - 1)" by simp
  ultimately show ?thesis unfolding in_signed_def by linarith
qed

section \<open>Digit strings\<close>

text \<open>
  The loop \<^verbatim>\<open>for (idx = 0 ; idx < n ; idx += 1) val[idx] = add_with_carry(a[idx], b[idx], carry)\<close>,
  least significant digit first, over two strings of the same length.
\<close>

fun ripple :: "('d \<Rightarrow> 'd \<Rightarrow> 'c \<Rightarrow> 'd \<times> 'c) \<Rightarrow> 'd list \<Rightarrow> 'd list \<Rightarrow> 'c \<Rightarrow> 'd list \<times> 'c" where
  "ripple addc (a # as) (b # bs) c =
     (let (s, c1) = addc a b c; (ss, c2) = ripple addc as bs c1 in (s # ss, c2))"
| "ripple addc _ _ c = ([], c)"

lemma ripple_Nil [simp]: "ripple addc [] bs c = ([], c)" "ripple addc as [] c = ([], c)"
  by (simp, cases as, simp_all)

lemma ripple_length:
  "length as = length bs \<Longrightarrow> length (fst (ripple addc as bs c)) = length as"
  by (induction as bs arbitrary: c rule: list_induct2) (simp_all add: split_beta Let_def)

lemma ripple_append:
  "length as = length bs \<Longrightarrow>
   ripple addc (as @ as') (bs @ bs') c =
     (let (ss, c1) = ripple addc as bs c; (ss', c2) = ripple addc as' bs' c1 in (ss @ ss', c2))"
  by (induction as bs arbitrary: c rule: list_induct2) (auto split: prod.splits)

text \<open>What a digit adder promises: base \<open>B\<close>, digit value \<open>dv\<close>, carry value \<open>cv\<close>, on the
  digits and carries that are proper (\<open>ok\<close>, \<open>okc\<close>).\<close>

locale digit_adder =
  fixes dv :: "'d \<Rightarrow> int" and B :: int and ok :: "'d \<Rightarrow> bool"
    and cv :: "'c \<Rightarrow> int" and okc :: "'c \<Rightarrow> bool"
    and addc :: "'d \<Rightarrow> 'd \<Rightarrow> 'c \<Rightarrow> 'd \<times> 'c"
  assumes base_pos: "1 < B"
    and digit_range: "ok d \<Longrightarrow> 0 \<le> dv d \<and> dv d < B"
    and addc_value: "ok a \<Longrightarrow> ok b \<Longrightarrow> okc c \<Longrightarrow> addc a b c = (s, c') \<Longrightarrow>
        dv s + B * cv c' = dv a + dv b + cv c"
    and addc_ok: "ok a \<Longrightarrow> ok b \<Longrightarrow> okc c \<Longrightarrow> addc a b c = (s, c') \<Longrightarrow> ok s \<and> okc c'"
begin

lemma string_range: "list_all ok ds \<Longrightarrow> 0 \<le> horner_sum dv B ds \<and> horner_sum dv B ds < B ^ length ds"
proof (induction ds)
  case Nil
  then show ?case by simp
next
  case (Cons d ds)
  then have d: "0 \<le> dv d" "dv d < B" and IH: "0 \<le> horner_sum dv B ds"
    "horner_sum dv B ds < B ^ length ds"
    using digit_range by auto
  from IH(2) have "B * (horner_sum dv B ds + 1) \<le> B * B ^ length ds"
    using base_pos by (intro mult_left_mono) auto
  then have "B * horner_sum dv B ds + B \<le> B * B ^ length ds"
    by (simp add: algebra_simps)
  with d IH(1) show ?case using base_pos by simp
qed

lemma ripple_ok:
  "length as = length bs \<Longrightarrow> list_all ok as \<Longrightarrow> list_all ok bs \<Longrightarrow> okc c \<Longrightarrow>
   ripple addc as bs c = (ss, c') \<Longrightarrow> list_all ok ss \<and> okc c'"
proof (induction as bs arbitrary: c c' ss rule: list_induct2)
  case (Cons a as b bs)
  obtain s c1 where s: "addc a b c = (s, c1)" by (cases "addc a b c")
  obtain ss1 c2 where ss1: "ripple addc as bs c1 = (ss1, c2)" by (cases "ripple addc as bs c1")
  have ok1: "ok s \<and> okc c1" using addc_ok [OF _ _ _ s] Cons.prems by auto
  have "list_all ok ss1 \<and> okc c2"
    by (rule Cons.IH [OF _ _ _ ss1]) (use Cons.prems ok1 in auto)
  with ok1 Cons.prems(4) s ss1 show ?case by auto
qed simp

theorem ripple_value:
  "length as = length bs \<Longrightarrow> list_all ok as \<Longrightarrow> list_all ok bs \<Longrightarrow> okc c \<Longrightarrow>
   ripple addc as bs c = (ss, c') \<Longrightarrow>
   horner_sum dv B ss + B ^ length as * cv c' = horner_sum dv B as + horner_sum dv B bs + cv c"
proof (induction as bs arbitrary: c c' ss rule: list_induct2)
  case (Cons a as b bs)
  obtain s c1 where s: "addc a b c = (s, c1)" by (cases "addc a b c")
  obtain ss1 c2 where ss1: "ripple addc as bs c1 = (ss1, c2)" by (cases "ripple addc as bs c1")
  have v: "dv s + B * cv c1 = dv a + dv b + cv c"
    using addc_value [OF _ _ _ s] Cons.prems by auto
  have "okc c1" using addc_ok [OF _ _ _ s] Cons.prems by auto
  then have "horner_sum dv B ss1 + B ^ length as * cv c2 =
      horner_sum dv B as + horner_sum dv B bs + cv c1"
    by (intro Cons.IH [OF _ _ _ ss1]) (use Cons.prems in auto)
  moreover have "c2 = c'" using Cons.prems s ss1 by auto
  ultimately have IH: "horner_sum dv B ss1 + B ^ length as * cv c' =
      horner_sum dv B as + horner_sum dv B bs + cv c1"
    by simp
  have "horner_sum dv B ss = dv s + B * horner_sum dv B ss1"
    using Cons.prems s ss1 by auto
  then have "horner_sum dv B ss + B * B ^ length as * cv c' =
      dv s + B * (horner_sum dv B ss1 + B ^ length as * cv c')"
    by (simp add: algebra_simps)
  also have "\<dots> = dv s + B * (horner_sum dv B as + horner_sum dv B bs + cv c1)"
    by (simp only: IH)
  finally show ?case using v by (simp add: algebra_simps)
qed simp

text \<open>Dropping the final carry is reduction modulo \<open>B ^ n\<close>.\<close>

corollary ripple_mod:
  assumes "length as = length bs" "list_all ok as" "list_all ok bs" "okc c"
  shows "horner_sum dv B (fst (ripple addc as bs c)) =
     (horner_sum dv B as + horner_sum dv B bs + cv c) mod B ^ length as"
proof -
  obtain ss c' where r: "ripple addc as bs c = (ss, c')" by (cases "ripple addc as bs c")
  have len: "length ss = length as" using ripple_length [OF assms(1), of addc c] r by simp
  have "list_all ok ss" using ripple_ok [OF assms r] by simp
  then have "0 \<le> horner_sum dv B ss" "horner_sum dv B ss < B ^ length as"
    using string_range [of ss] len by auto
  then show ?thesis
    using ripple_value [OF assms r, symmetric] r by simp
qed

end

section \<open>Four-valued logic\<close>

text \<open>
  The four-valued bit type of Verilog: \<open>zero\<close>, \<open>one\<close>, an unknown \<open>x\<close> and a high
  impedance \<open>z\<close>. The contract is the truth tables of the language; the consequences are the
  algebraic laws and that no operation guesses: a result already known with unknown operands
  stays the same when the operands become known.
\<close>

locale four_valued =
  fixes zero one x z :: 'b
    and neg :: "'b \<Rightarrow> 'b" and conj disj exor :: "'b \<Rightarrow> 'b \<Rightarrow> 'b"
  assumes exhaust: "b = zero \<or> b = one \<or> b = x \<or> b = z"
    and different: "distinct [zero, one, x, z]"
    and neg_table: "neg b = (if b = zero then one else if b = one then zero else x)"
    and conj_table: "conj a b = (if a = zero \<or> b = zero then zero
        else if a = one \<and> b = one then one else x)"
    and disj_table: "disj a b = (if a = one \<or> b = one then one
        else if a = zero \<and> b = zero then zero else x)"
    and exor_table: "exor a b = (if {a, b} \<subseteq> {zero, one}
        then (if a = b then zero else one) else x)"
begin

definition known :: "'b \<Rightarrow> bool" where
  "known b \<longleftrightarrow> b = zero \<or> b = one"

definition refines :: "'b \<Rightarrow> 'b \<Rightarrow> bool" where
  "refines b c \<longleftrightarrow> known b \<longrightarrow> c = b"

lemmas tables = neg_table conj_table disj_table exor_table

lemma conj_commute: "conj a b = conj b a"
  by (auto simp: conj_table)

lemma disj_commute: "disj a b = disj b a"
  by (auto simp: disj_table)

lemma exor_commute: "exor a b = exor b a"
  by (auto simp: exor_table)

lemma conj_assoc: "conj (conj a b) c = conj a (conj b c)"
  using different by (auto simp: conj_table)

lemma disj_assoc: "disj (disj a b) c = disj a (disj b c)"
  using different by (auto simp: disj_table)

lemma de_morgan_conj: "neg (conj a b) = disj (neg a) (neg b)"
  using different by (auto simp: tables)

lemma de_morgan_disj: "neg (disj a b) = conj (neg a) (neg b)"
  using different by (auto simp: tables)

lemma neg_neg_known: "known b \<Longrightarrow> neg (neg b) = b"
  using different by (auto simp: tables known_def)

lemma never_z: "neg a \<noteq> z" "conj a b \<noteq> z" "disj a b \<noteq> z" "exor a b \<noteq> z"
  using different by (auto simp: tables)

lemma neg_refines: "refines a a' \<Longrightarrow> refines (neg a) (neg a')"
  using different by (auto simp: refines_def known_def tables)

lemma conj_refines: "refines a a' \<Longrightarrow> refines b b' \<Longrightarrow> refines (conj a b) (conj a' b')"
  using different by (auto simp: refines_def known_def conj_table split: if_splits)

lemma disj_refines: "refines a a' \<Longrightarrow> refines b b' \<Longrightarrow> refines (disj a b) (disj a' b')"
  using different by (auto simp: refines_def known_def disj_table split: if_splits)

lemma exor_refines: "refines a a' \<Longrightarrow> refines b b' \<Longrightarrow> refines (exor a b) (exor a' b')"
  using different by (auto simp: refines_def known_def exor_table split: if_splits)

end

end
