(* ===== verification/Verinum.thy ===== *)
theory Verinum
  imports Prelude
begin

text \<open>
  The compiler's number class (verinum.h, verinum.cc): the four-valued bit \<open>V\<close> with its
  operators, the number record, its constructors, bit access, predicates, width casts and
  the conversions to native integers. A number is a little-endian list of bits with four
  flags; the C++ member \<^verbatim>\<open>nbits_\<close> is the length of the list.
\<close>

section \<open>Bits\<close>

datatype V = V0 | V1 | Vx | Vz

fun V_index :: "V \<Rightarrow> nat" where
  "V_index V0 = 0"
| "V_index V1 = 1"
| "V_index Vx = 2"
| "V_index Vz = 3"

lemma V_index_inject [simp]: "V_index a = V_index b \<longleftrightarrow> a = b"
  by (cases a; cases b) simp_all

text \<open>The comparison operators of the C++ enumeration compare the enumerator values.\<close>

instantiation V :: linorder
begin

definition less_eq_V :: "V \<Rightarrow> V \<Rightarrow> bool" where
  "less_eq_V a b \<longleftrightarrow> V_index a \<le> V_index b"

definition less_V :: "V \<Rightarrow> V \<Rightarrow> bool" where
  "less_V a b \<longleftrightarrow> V_index a < V_index b"

instance
proof
  fix a b c :: V
  show "(a < b) = (a \<le> b \<and> \<not> b \<le> a)" by (auto simp: less_eq_V_def less_V_def)
  show "a \<le> a" by (simp add: less_eq_V_def)
  show "a \<le> b \<Longrightarrow> b \<le> c \<Longrightarrow> a \<le> c" by (simp add: less_eq_V_def)
  show "a \<le> b \<Longrightarrow> b \<le> a \<Longrightarrow> a = b" using V_index_inject by (simp add: less_eq_V_def)
  show "a \<le> b \<or> b \<le> a" by (auto simp: less_eq_V_def)
qed

end

definition bit4_z2x :: "V \<Rightarrow> V" where
  "bit4_z2x b = (if V_index b < 2 then b else Vx)"

fun V_not :: "V \<Rightarrow> V" where
  "V_not V0 = V1"
| "V_not V1 = V0"
| "V_not _ = Vx"

definition V_or :: "V \<Rightarrow> V \<Rightarrow> V" where
  "V_or l r = (if l = V1 then V1 else if r = V1 then V1
     else if l \<noteq> V0 then Vx else if r \<noteq> V0 then Vx else V0)"

definition V_and :: "V \<Rightarrow> V \<Rightarrow> V" where
  "V_and l r = (if l = V0 then V0 else if r = V0 then V0
     else if l \<noteq> V1 then Vx else if r \<noteq> V1 then Vx else V1)"

definition V_xor :: "V \<Rightarrow> V \<Rightarrow> V" where
  "V_xor l r = (if l = V0 then bit4_z2x r else if r = V0 then bit4_z2x l
     else if l = V1 \<and> r = V1 then V0 else Vx)"

section \<open>Numbers\<close>

record verinum =
  vbits :: "V list"
  has_len :: bool
  has_sign :: bool
  is_single :: bool
  string_flag :: bool

abbreviation len :: "verinum \<Rightarrow> nat" where
  "len v \<equiv> length (vbits v)"

subsection \<open>Constructors\<close>

definition verinum_nil :: verinum where
  "verinum_nil = \<lparr>vbits = [], has_len = False, has_sign = False, is_single = False,
     string_flag = False\<rparr>"

definition verinum_bits :: "V list \<Rightarrow> bool \<Rightarrow> verinum" where
  "verinum_bits bs h = \<lparr>vbits = bs, has_len = h, has_sign = False, is_single = False,
     string_flag = False\<rparr>"

definition verinum_fill :: "V \<Rightarrow> nat \<Rightarrow> bool \<Rightarrow> verinum" where
  "verinum_fill val n h = verinum_bits (replicate n val) h"

text \<open>The loop that peels \<open>val & 1\<close> off and shifts \<open>val\<close> right by one. On an unsigned type
  and on a two's complement signed type with an arithmetic shift it is \<open>div 2\<close>.\<close>

fun int_bits :: "nat \<Rightarrow> int \<Rightarrow> V list" where
  "int_bits 0 val = []"
| "int_bits (Suc n) val = (if odd val then V1 else V0) # int_bits n (val div 2)"

definition verinum_uint64 :: "64 word \<Rightarrow> nat \<Rightarrow> verinum" where
  "verinum_uint64 val n = verinum_bits (int_bits n (uint val)) True"

text \<open>C++ signed division by two rounds towards zero.\<close>

definition half_trunc :: "int \<Rightarrow> int" where
  "half_trunc t = (if t < 0 then - ((- t) div 2) else t div 2)"

function width_loop :: "int \<Rightarrow> nat \<Rightarrow> nat" where
  "width_loop tmp n = (if tmp \<noteq> 0 then width_loop (half_trunc tmp) (n + 1) else n)"
  by pat_completeness auto
termination
  by (relation "measure (\<lambda>(tmp, n). nat \<bar>tmp\<bar>)") (auto simp: half_trunc_def)

declare width_loop.simps [simp del]

definition verinum_int64 :: "64 word \<Rightarrow> verinum" where
  "verinum_int64 that =
     (let t = sint that;
          tmp = (if t < 0 then half_trunc (t + 1) else half_trunc t);
          nbits = width_loop tmp 1 + 1
      in (verinum_bits (int_bits nbits t) False)\<lparr>has_sign := True\<rparr>)"

text \<open>The resizing copy constructor. With no bit to copy and a fill taken from the bit below,
  the C++ code reads before the start of the array.\<close>

definition verinum_copy :: "verinum \<Rightarrow> nat \<Rightarrow> verinum option" where
  "verinum_copy that nbits =
     (let copy = min nbits (len that);
          low = take copy (vbits that);
          fill = (if copy < nbits
                  then (if has_sign that \<or> is_single that
                        then (if copy = 0 then None
                              else Some (replicate (nbits - copy) (low ! (copy - 1))))
                        else Some (replicate (nbits - copy) V0))
                  else Some [])
      in map_option (\<lambda>hi. \<lparr>vbits = low @ hi, has_len = True, has_sign = has_sign that,
           is_single = False,
           string_flag = (string_flag that \<and> len that = nbits)\<rparr>) fill)"

text \<open>The scan \<^verbatim>\<open>while ((top > 0) && (bits_[top] == s)) top -= 1\<close>.\<close>

fun skip_down :: "V list \<Rightarrow> V \<Rightarrow> nat \<Rightarrow> nat" where
  "skip_down bs s 0 = 0"
| "skip_down bs s (Suc t) = (if bs ! Suc t = s then skip_down bs s t else Suc t)"

definition signed_trim :: "verinum \<Rightarrow> verinum option" where
  "signed_trim v = (if len v = 0 then None else
     (let sign = vbits v ! (len v - 1);
          t0 = skip_down (vbits v) sign (len v - 1);
          t1 = (if vbits v ! t0 \<noteq> sign then t0 + 1 else t0);
          tlen = t1 + 1
      in Some (if tlen < len v then v\<lparr>vbits := take tlen (vbits v)\<rparr> else v)))"

subsection \<open>Bit access\<close>

definition get :: "verinum \<Rightarrow> nat \<Rightarrow> V option" where
  "get v idx = (if idx < len v then Some (vbits v ! idx) else None)"

definition set_bit :: "verinum \<Rightarrow> nat \<Rightarrow> V \<Rightarrow> verinum option" where
  "set_bit v idx val = (if idx < len v then Some (v\<lparr>vbits := (vbits v)[idx := val]\<rparr>) else None)"

fun set_loop :: "V list \<Rightarrow> nat \<Rightarrow> V list \<Rightarrow> V list" where
  "set_loop bs off [] = bs"
| "set_loop bs off (b # rest) = set_loop (bs[off := b]) (Suc off) rest"

definition set_vec :: "verinum \<Rightarrow> nat \<Rightarrow> verinum \<Rightarrow> verinum option" where
  "set_vec v off val = (if off + len val \<le> len v
     then Some (v\<lparr>vbits := set_loop (vbits v) off (vbits val)\<rparr>) else None)"

definition sign_bit :: "verinum \<Rightarrow> V option" where
  "sign_bit v = (if has_sign v then get v (len v - 1) else Some V0)"

subsection \<open>Predicates\<close>

definition is_defined :: "verinum \<Rightarrow> bool" where
  "is_defined v \<longleftrightarrow> list_all (\<lambda>b. b \<noteq> Vx \<and> b \<noteq> Vz) (vbits v)"

definition is_zero :: "verinum \<Rightarrow> bool" where
  "is_zero v \<longleftrightarrow> list_all (\<lambda>b. b = V0) (vbits v)"

definition is_negative :: "verinum \<Rightarrow> bool option" where
  "is_negative v = (if len v = 0 then None
     else Some (vbits v ! (len v - 1) = V1 \<and> has_sign v))"

text \<open>Comparison for sorting: shorter numbers first, then bit by bit from the top.\<close>

fun before_loop :: "V list \<Rightarrow> V list \<Rightarrow> nat \<Rightarrow> bool" where
  "before_loop bs cs 0 = False"
| "before_loop bs cs (Suc i) =
     (if bs ! i < cs ! i then True else if bs ! i > cs ! i then False else before_loop bs cs i)"

definition is_before :: "verinum \<Rightarrow> verinum \<Rightarrow> bool" where
  "is_before v that = (if len that > len v then True else if len that < len v then False
     else before_loop (vbits v) (vbits that) (len v))"

fun sig_signed :: "V list \<Rightarrow> V \<Rightarrow> nat \<Rightarrow> nat" where
  "sig_signed bs s (Suc (Suc n)) = (if bs ! n = s then sig_signed bs s (Suc n) else Suc (Suc n))"
| "sig_signed bs s n = n"

fun sig_unsigned :: "V list \<Rightarrow> nat \<Rightarrow> nat" where
  "sig_unsigned bs (Suc (Suc n)) =
     (if bs ! Suc n = V0 then sig_unsigned bs (Suc n) else Suc (Suc n))"
| "sig_unsigned bs n = n"

definition significant_bits :: "verinum \<Rightarrow> nat option" where
  "significant_bits v =
     (if has_sign v
      then (if len v = 0 then None
            else Some (sig_signed (vbits v) (vbits v ! (len v - 1)) (len v)))
      else Some (sig_unsigned (vbits v) (len v)))"

definition cast_to_int2 :: "verinum \<Rightarrow> verinum" where
  "cast_to_int2 v = v\<lparr>vbits := map (\<lambda>b. if b = Vx \<or> b = Vz then V0 else b) (vbits v)\<rparr>"

subsection \<open>Width\<close>

text \<open>The padding bit that \<open>pad_to_width\<close> and \<open>cast_to_width\<close> choose from the top bit.\<close>

definition pad_bit :: "verinum \<Rightarrow> V" where
  "pad_bit that =
     (let pad = vbits that ! (len that - 1);
          pad1 = (if pad = V1 \<and> \<not> has_sign that \<and> \<not> is_single that then V0 else pad)
      in if has_len that \<and> \<not> has_sign that \<and> \<not> is_single that
         then (if pad1 = Vx then V0 else if pad1 = Vz then V0 else pad1)
         else pad1)"

definition cast_to_width :: "verinum \<Rightarrow> nat \<Rightarrow> verinum option" where
  "cast_to_width that width =
     (if has_len that \<and> len that = width then Some that
      else if len that \<ge> width then verinum_copy that width
      else if len that = 0 then Some ((verinum_fill V0 width True)\<lparr>has_sign := has_sign that\<rparr>)
      else Some ((verinum_bits (vbits that @ replicate (width - len that) (pad_bit that)) True)
             \<lparr>has_sign := has_sign that\<rparr>))"

definition trim_vnum :: "verinum \<Rightarrow> verinum" where
  "trim_vnum that =
     (if has_len that then that
      else if len that < 2 then that
      else let top0 = len that - 1 in
        if has_sign that
        then (let sign = vbits that ! top0;
                  top1 = skip_down (vbits that) sign top0;
                  top2 = (if vbits that ! top1 \<noteq> sign then top1 + 1 else top1);
                  tlen = top2 + 1
              in (verinum_bits (take tlen (vbits that)) False)\<lparr>has_sign := True\<rparr>)
        else (let top = skip_down (vbits that) V0 top0
              in if top + 1 = len that then that
                 else let tlen = (if vbits that ! top = V0 then top + 1 else top + 2)
                      in verinum_bits (take tlen (vbits that)) False))"

subsection \<open>Native integers\<close>

text \<open>\<open>as_unsigned\<close>, \<open>as_ulong\<close> and \<open>as_ulong64\<close> are one loop at three widths: the mask
  runs out after the last bit of the native type, and a one bit beyond it saturates.\<close>

fun as_uint_loop :: "V list \<Rightarrow> 'w::len word \<Rightarrow> 'w word \<Rightarrow> 'w word" where
  "as_uint_loop [] msk val = val"
| "as_uint_loop (b # bs) msk val =
     (if b = V1
      then (if msk = 0 then not msk else as_uint_loop bs (push_bit 1 msk) (or val msk))
      else as_uint_loop bs (push_bit 1 msk) val)"

definition as_unsigned :: "verinum \<Rightarrow> 32 word" where
  "as_unsigned v = (if len v = 0 then 0 else if \<not> is_defined v then 0
     else as_uint_loop (vbits v) 1 0)"

definition as_ulong :: "verinum \<Rightarrow> 64 word" where
  "as_ulong v = (if len v = 0 then 0 else if \<not> is_defined v then 0
     else as_uint_loop (vbits v) 1 0)"

definition as_ulong64 :: "verinum \<Rightarrow> 64 word" where
  "as_ulong64 v = (if len v = 0 then 0 else if \<not> is_defined v then 0
     else as_uint_loop (vbits v) 1 0)"

fun as_long_neg :: "V list \<Rightarrow> 64 word \<Rightarrow> 64 word \<Rightarrow> 64 word" where
  "as_long_neg [] msk val = val"
| "as_long_neg (b # bs) msk val =
     as_long_neg bs (or (push_bit 1 msk) 1) (if b = V0 then and val msk else val)"

fun as_long_pos :: "V list \<Rightarrow> 64 word \<Rightarrow> 64 word \<Rightarrow> 64 word" where
  "as_long_pos [] msk val = val"
| "as_long_pos (b # bs) msk val =
     as_long_pos bs (push_bit 1 msk) (if b = V1 then or val msk else val)"

text \<open>\<open>IVLLBITS\<close> is 63 with a 64 bit long. The second component says whether the truncation
  warning is printed.\<close>

definition as_long_warn :: "verinum \<Rightarrow> 64 word \<times> bool" where
  "as_long_warn v = (if len v = 0 then (0, False) else if \<not> is_defined v then (0, False)
     else let top = min (len v) 63 in
       if has_sign v \<and> vbits v ! (len v - 1) = V1
       then (as_long_neg (take top (vbits v)) (not 1) (- 1),
             V0 \<in> set (drop top (vbits v)))
       else (as_long_pos (take top (vbits v)) 1 0,
             V1 \<in> set (drop top (vbits v))))"

definition as_long :: "verinum \<Rightarrow> 64 word" where
  "as_long v = fst (as_long_warn v)"


section \<open>The value of a number\<close>

text \<open>The specification: what integer a bit string denotes, unsigned and in two's complement,
  and what a number denotes by its own sign flag. A bit that is not one counts as zero.\<close>

definition bitv :: "V \<Rightarrow> int" where
  "bitv b = of_bool (b = V1)"

definition uval :: "V list \<Rightarrow> int" where
  "uval bs = horner_sum bitv 2 bs"

definition sval :: "V list \<Rightarrow> int" where
  "sval bs = (if bs \<noteq> [] \<and> last bs = V1 then uval bs - 2 ^ length bs else uval bs)"

definition vval :: "verinum \<Rightarrow> int" where
  "vval v = (if has_sign v then sval (vbits v) else uval (vbits v))"

abbreviation known :: "V \<Rightarrow> bool" where
  "known b \<equiv> b = V0 \<or> b = V1"

lemma bitv_simps [simp]: "bitv V0 = 0" "bitv V1 = 1" "bitv Vx = 0" "bitv Vz = 0"
  by (simp_all add: bitv_def)

lemma uval_simps [simp, value_simps]:
  "uval [] = 0"
  "uval (b # bs) = bitv b + 2 * uval bs"
  by (simp_all add: uval_def)

lemma uval_append [value_simps]: "uval (bs @ cs) = uval bs + 2 ^ length bs * uval cs"
  by (simp add: uval_def horner_sum_append)

lemma uval_bools: "uval bs = horner_sum of_bool 2 (map (\<lambda>b. b = V1) bs)"
  by (induction bs) (simp_all add: bitv_def)

lemma uval_nonneg [simp]: "0 \<le> uval bs"
  unfolding uval_bools by (rule horner_sum_nonnegative)

lemma uval_less: "uval bs < 2 ^ length bs"
  unfolding uval_bools
  using horner_sum_of_bool_2_less [of "map (\<lambda>b. b = V1) bs", where ?'a = int] by simp

lemma uval_replicate [simp]:
  "uval (replicate n V0) = 0"
  "uval (replicate n V1) = 2 ^ n - 1"
  by (induction n) simp_all

lemma bit_uval: "bit (uval bs) i \<longleftrightarrow> i < length bs \<and> bs ! i = V1"
  unfolding uval_bools by (auto simp: bit_horner_sum_bit_iff)

lemma uval_take: "uval (take n bs) = uval bs mod 2 ^ n"
proof -
  have "uval (take n bs) = take_bit n (uval bs)"
    by (rule bit_eqI) (auto simp: bit_uval bit_take_bit_iff)
  then show ?thesis by (simp add: take_bit_eq_mod)
qed

lemma uval_drop: "uval (drop n bs) = uval bs div 2 ^ n"
proof -
  have "uval (drop n bs) = drop_bit n (uval bs)"
    by (rule bit_eqI) (auto simp: bit_uval bit_drop_bit_eq ac_simps)
  then show ?thesis by (simp add: drop_bit_eq_div)
qed

lemma uval_zero_iff: "uval bs = 0 \<longleftrightarrow> V1 \<notin> set bs"
proof
  assume "uval bs = 0"
  then show "V1 \<notin> set bs" using bit_uval [of bs] by (auto simp: in_set_conv_nth)
next
  assume "V1 \<notin> set bs"
  then show "uval bs = 0"
    by (induction bs) (auto simp: bitv_def)
qed

lemma uval_last:
  assumes "bs \<noteq> []"
  shows "last bs = V1 \<longleftrightarrow> 2 ^ (length bs - 1) \<le> uval bs"
proof -
  let ?n = "length bs - 1"
  have bs: "bs = butlast bs @ [last bs]" using assms by simp
  have u: "uval bs = uval (butlast bs) + 2 ^ ?n * bitv (last bs)"
    by (subst bs) (simp add: uval_append)
  show ?thesis using u uval_less [of "butlast bs"] uval_nonneg [of "butlast bs"]
    by (cases "last bs") auto
qed

lemma uval_inject:
  "list_all known bs \<Longrightarrow> list_all known cs \<Longrightarrow> length bs = length cs \<Longrightarrow>
   uval bs = uval cs \<Longrightarrow> bs = cs"
proof -
  assume k: "list_all known bs" "list_all known cs" "length bs = length cs" "uval bs = uval cs"
  show "bs = cs"
  proof (rule nth_equalityI [OF k(3)])
    fix i assume i: "i < length bs"
    have "bs ! i = V1 \<longleftrightarrow> cs ! i = V1" using bit_uval [of bs i] bit_uval [of cs i] k(3,4) i by simp
    moreover have "known (bs ! i)" "known (cs ! i)" using k i by (auto simp: list_all_length)
    ultimately show "bs ! i = cs ! i" by auto
  qed
qed

lemma sval_mod: "sval bs mod 2 ^ length bs = uval bs"
  using uval_less [of bs] by (simp add: sval_def)

lemma sval_range:
  assumes "bs \<noteq> []"
  shows "in_signed (length bs) (sval bs)"
proof -
  have p: "(2 :: int) ^ length bs = 2 * 2 ^ (length bs - 1)" "0 \<le> (2 :: int) ^ (length bs - 1)"
    using pow2_Suc_pred [of "length bs"] assms by simp_all
  show ?thesis
  proof (cases "last bs = V1")
    case True
    then have "sval bs = uval bs - 2 ^ length bs" "2 ^ (length bs - 1) \<le> uval bs"
      using assms uval_last [OF assms] by (simp_all add: sval_def)
    then show ?thesis unfolding in_signed_def using p uval_less [of bs] by linarith
  next
    case False
    then have "sval bs = uval bs" "uval bs < 2 ^ (length bs - 1)"
      using uval_last [OF assms] by (simp_all add: sval_def)
    then show ?thesis unfolding in_signed_def using p uval_nonneg [of bs] by linarith
  qed
qed

lemma sval_eqI:
  assumes "bs \<noteq> []" "in_signed (length bs) x" "uval bs = x mod 2 ^ length bs"
  shows "sval bs = x"
  by (rule in_signed_unique [OF sval_range [OF assms(1)] assms(2)]) (simp add: sval_mod assms(3))

lemma sval_last: "last bs = V1 \<Longrightarrow> bs \<noteq> [] \<Longrightarrow> sval bs < 0"
  using uval_less [of bs] by (simp add: sval_def)

lemma vval_mod: "vval v mod 2 ^ len v = uval (vbits v)"
  using uval_less [of "vbits v"] by (simp add: vval_def sval_mod)

subsection \<open>Extending a number by its sign bit\<close>

lemma sval_extend:
  assumes "bs \<noteq> []" "s = last bs"
  shows "sval (bs @ replicate k s) = sval bs"
proof (rule sval_eqI)
  show "bs @ replicate k s \<noteq> []" using assms by simp
  show "in_signed (length (bs @ replicate k s)) (sval bs)"
    by (rule in_signed_mono [OF sval_range [OF assms(1)]]) simp
  let ?m = "2 ^ length (bs @ replicate k s) :: int"
  have "uval (bs @ replicate k s) = sval bs + (if s = V1 then ?m else 0)"
  proof (cases "s = V1")
    case True
    with assms show ?thesis by (simp add: uval_append sval_def power_add algebra_simps)
  next
    case False
    then have "uval (replicate k s) = 0" by (simp add: uval_zero_iff)
    with False assms show ?thesis by (simp add: uval_append sval_def)
  qed
  then have "sval bs = uval (bs @ replicate k s) - (if s = V1 then ?m else 0)" by simp
  moreover have "uval (bs @ replicate k s) mod ?m = uval (bs @ replicate k s)"
    by (rule mod_pos_pos_trivial) (use uval_less [of "bs @ replicate k s"] uval_nonneg in auto)
  ultimately show "uval (bs @ replicate k s) = sval bs mod ?m"
    by (cases "s = V1") (simp_all del: length_append length_replicate)
qed

lemma sign_bit_last:
  "sign_bit v = Some s \<Longrightarrow> has_sign v \<Longrightarrow> vbits v \<noteq> [] \<and> s = last (vbits v)"
  by (cases "vbits v = []") (auto simp: sign_bit_def get_def last_conv_nth)

lemma uval_extend:
  assumes "sign_bit v = Some s"
  shows "uval (vbits v @ replicate k s) = vval v mod 2 ^ (len v + k)"
proof (cases "has_sign v")
  case True
  then have s: "vbits v \<noteq> []" "s = last (vbits v)"
    using sign_bit_last [OF assms] by auto
  have "sval (vbits v @ replicate k s) mod 2 ^ (len v + k) = uval (vbits v @ replicate k s)"
    using sval_mod [of "vbits v @ replicate k s"] by simp
  with True sval_extend [OF s] show ?thesis by (simp add: vval_def)
next
  case False
  with assms have "s = V0" by (simp add: sign_bit_def)
  moreover have "uval (vbits v) mod 2 ^ (len v + k) = uval (vbits v)"
    using uval_less [of "vbits v"] by (intro mod_pos_pos_trivial)
      (auto simp: power_add intro: less_le_trans mult_left_mono [of 1, simplified])
  ultimately show ?thesis using False by (simp add: vval_def uval_append)
qed

subsection \<open>Definedness\<close>

lemma is_defined_known: "is_defined v \<longleftrightarrow> list_all known (vbits v)"
proof -
  have "(b \<noteq> Vx \<and> b \<noteq> Vz) = known b" for b by (cases b) simp_all
  then show ?thesis by (simp add: is_defined_def)
qed

lemma is_zero_uval: "is_defined v \<Longrightarrow> is_zero v \<longleftrightarrow> uval (vbits v) = 0"
  by (auto simp: is_defined_known is_zero_def uval_zero_iff list_all_iff)

lemma is_negative_vval:
  assumes "is_defined v" "is_negative v = Some n"
  shows "n \<longleftrightarrow> vval v < 0"
proof -
  from assms(2) have ne: "vbits v \<noteq> []" by (auto simp: is_negative_def split: if_splits)
  with assms(2) have n: "n \<longleftrightarrow> last (vbits v) = V1 \<and> has_sign v"
    by (auto simp: is_negative_def last_conv_nth)
  show ?thesis
  proof (cases n)
    case True
    with n ne show ?thesis by (simp add: vval_def sval_last)
  next
    case False
    with n ne show ?thesis by (auto simp: vval_def sval_def not_less)
  qed
qed

subsection \<open>Constructors from native integers\<close>

lemma int_bits_length [simp]: "length (int_bits n t) = n"
  by (induction n t rule: int_bits.induct) simp_all

lemma int_bits_known [simp]: "list_all known (int_bits n t)"
  by (induction n t rule: int_bits.induct) simp_all

lemma uval_int_bits [value_simps]: "uval (int_bits n t) = t mod 2 ^ n"
proof (induction n t rule: int_bits.induct)
  case (2 n t)
  have "t mod (2 * 2 ^ n) = 2 * (t div 2 mod 2 ^ n) + t mod 2"
    by (simp add: zmod_zmult2_eq)
  with 2 show ?case by (auto simp: odd_iff_mod_2_eq_one)
qed simp

lemma sval_int_bits: "0 < n \<Longrightarrow> in_signed n t \<Longrightarrow> sval (int_bits n t) = t"
  by (rule sval_eqI) (auto simp: uval_int_bits simp flip: length_greater_0_conv)

lemma half_trunc_abs: "\<bar>half_trunc t\<bar> = \<bar>t\<bar> div 2"
  by (simp add: half_trunc_def)

lemma width_loop_bound: "n \<le> width_loop t n \<and> \<bar>t\<bar> < 2 ^ (width_loop t n - n)"
proof (induction t n rule: width_loop.induct)
  case (1 t n)
  show ?case
  proof (cases "t = 0")
    case True
    then show ?thesis by (simp add: width_loop.simps)
  next
    case False
    let ?w = "width_loop (half_trunc t) (n + 1)"
    have IH: "n + 1 \<le> ?w" "\<bar>t\<bar> div 2 < 2 ^ (?w - (n + 1))"
      using 1 [OF False] by (auto simp: half_trunc_abs)
    then have "\<bar>t\<bar> < 2 * 2 ^ (?w - (n + 1))" by linarith
    also have "\<dots> = 2 ^ (?w - n)"
      using IH(1) by (simp flip: power_Suc add: Suc_diff_le)
    finally show ?thesis using False IH(1) by (simp add: width_loop.simps [of t n])
  qed
qed

lemma verinum_int64_value: "vval (verinum_int64 w) = sint w"
proof -
  let ?t = "sint w"
  let ?tmp = "if ?t < 0 then half_trunc (?t + 1) else half_trunc ?t"
  let ?u = "if ?t < 0 then - ?t - 1 else ?t"
  let ?m = "width_loop ?tmp 1"
  have "\<bar>?tmp\<bar> = ?u div 2" by (simp add: half_trunc_abs)
  with width_loop_bound [of 1 ?tmp] have m: "1 \<le> ?m" "?u div 2 < 2 ^ (?m - 1)" by auto
  then have "?u < 2 * 2 ^ (?m - 1)" by linarith
  then have "?u < 2 ^ ?m" using pow2_Suc_pred [of ?m] m(1) by simp
  then have "in_signed (?m + 1) ?t" by (auto simp: in_signed_def split: if_splits)
  then have "sval (int_bits (?m + 1) ?t) = ?t" by (intro sval_int_bits) auto
  then show ?thesis by (simp add: verinum_int64_def Let_def vval_def verinum_bits_def)
qed

lemma verinum_uint64_value: "vval (verinum_uint64 w n) = uint w mod 2 ^ n"
  by (simp add: verinum_uint64_def vval_def verinum_bits_def uval_int_bits)


subsection \<open>Trimming\<close>

lemma skip_down_le: "skip_down bs s t \<le> t"
  by (induction t) auto

lemma skip_down_above: "skip_down bs s t < j \<Longrightarrow> j \<le> t \<Longrightarrow> bs ! j = s"
  by (induction t) (auto split: if_splits simp: le_Suc_eq)

lemma skip_down_stop: "skip_down bs s t = 0 \<or> bs ! skip_down bs s t \<noteq> s"
  by (induction t) auto

text \<open>The number of bits that keeps one copy of the sign, as both trimming routines find it.\<close>

definition sign_width :: "V list \<Rightarrow> nat" where
  "sign_width bs = (let r = skip_down bs (last bs) (length bs - 1)
     in (if bs ! r \<noteq> last bs then r + 1 else r) + 1)"

lemma sign_width_split:
  assumes "bs \<noteq> []"
  shows "0 < sign_width bs" "sign_width bs \<le> length bs" "bs ! (sign_width bs - 1) = last bs"
    "bs = take (sign_width bs) bs @ replicate (length bs - sign_width bs) (last bs)"
    "sign_width bs = 1 \<or> bs ! (sign_width bs - 2) \<noteq> last bs"
proof -
  let ?s = "last bs" and ?n = "length bs"
  let ?r = "skip_down bs ?s (?n - 1)"
  have le: "?r \<le> ?n - 1" by (rule skip_down_le)
  have rn: "?r < ?n" by (rule le_less_trans [OF le]) (use assms in simp)
  have top: "bs ! (?n - 1) = ?s" using assms by (simp add: last_conv_nth)
  have above: "\<And>j. ?r < j \<Longrightarrow> j < ?n \<Longrightarrow> bs ! j = ?s"
    using skip_down_above [of bs ?s "?n - 1"] by simp
  have stop: "?r = 0 \<or> bs ! ?r \<noteq> ?s" by (rule skip_down_stop)
  have rlt: "bs ! ?r \<noteq> ?s \<Longrightarrow> ?r < ?n - 1" using le top by (metis le_neq_implies_less)
  show g1: "0 < sign_width bs" by (simp add: sign_width_def Let_def)
  show g2: "sign_width bs \<le> ?n"
    using rlt rn by (auto simp: sign_width_def Let_def Suc_le_eq less_diff_conv)
  show "bs ! (sign_width bs - 1) = ?s"
    using rlt above by (auto simp: sign_width_def Let_def)
  show "sign_width bs = 1 \<or> bs ! (sign_width bs - 2) \<noteq> ?s"
    using stop by (auto simp: sign_width_def Let_def)
  have "\<And>j. sign_width bs \<le> j \<Longrightarrow> j < ?n \<Longrightarrow> bs ! j = ?s"
    using above stop by (auto simp: sign_width_def Let_def split: if_splits)
  then have "drop (sign_width bs) bs = replicate (?n - sign_width bs) ?s"
    by (intro nth_equalityI) auto
  then show "bs = take (sign_width bs) bs @ replicate (?n - sign_width bs) ?s"
    by (metis append_take_drop_id)
qed

lemma sval_sign_width: "bs \<noteq> [] \<Longrightarrow> sval (take (sign_width bs) bs) = sval bs"
proof -
  assume ne: "bs \<noteq> []"
  note sw = sign_width_split [OF ne]
  have t: "take (sign_width bs) bs \<noteq> []" using sw(1) ne by simp
  have "last bs = last (take (sign_width bs) bs)"
    using sw(1-3) t by (simp add: last_conv_nth)
  from sval_extend [OF t this, of "length bs - sign_width bs"] sw(4) show ?thesis by metis
qed

lemma uval_top_zeros: "(\<And>j. t \<le> j \<Longrightarrow> j < length bs \<Longrightarrow> bs ! j = V0) \<Longrightarrow> uval (take t bs) = uval bs"
proof -
  assume z: "\<And>j. t \<le> j \<Longrightarrow> j < length bs \<Longrightarrow> bs ! j = V0"
  have "bit (uval (take t bs)) i = bit (uval bs) i" for i
    using z by (cases "i < t") (auto simp: bit_uval)
  then show ?thesis by (intro bit_eqI) simp
qed

lemma trim_vnum_signed:
  "\<not> has_len v \<Longrightarrow> 2 \<le> len v \<Longrightarrow> has_sign v \<Longrightarrow>
   trim_vnum v = (verinum_bits (take (sign_width (vbits v)) (vbits v)) False)\<lparr>has_sign := True\<rparr>"
proof -
  assume a: "\<not> has_len v" "2 \<le> len v" "has_sign v"
  then have "last (vbits v) = vbits v ! (len v - 1)" by (subst last_conv_nth) auto
  with a show ?thesis by (simp add: trim_vnum_def sign_width_def Let_def)
qed

lemma trim_vnum_vval: "vval (trim_vnum v) = vval v"
proof (cases "has_len v \<or> len v < 2")
  case True
  then show ?thesis by (auto simp: trim_vnum_def)
next
  case False
  then have ne: "vbits v \<noteq> []" by auto
  show ?thesis
  proof (cases "has_sign v")
    case True
    with False have t: "trim_vnum v =
        (verinum_bits (take (sign_width (vbits v)) (vbits v)) False)\<lparr>has_sign := True\<rparr>"
      by (intro trim_vnum_signed) auto
    show ?thesis unfolding t using True sval_sign_width [OF ne]
      by (simp add: vval_def verinum_bits_def)
  next
    case F: False
    let ?bs = "vbits v" and ?r = "skip_down (vbits v) V0 (len v - 1)"
    have z: "\<And>j. ?r < j \<Longrightarrow> j < len v \<Longrightarrow> ?bs ! j = V0"
      using skip_down_above [of ?bs V0 "len v - 1"] by simp
    have "uval (take (?r + 2) ?bs) = uval ?bs" by (rule uval_top_zeros) (use z in auto)
    moreover have "?bs ! ?r = V0 \<Longrightarrow> uval (take (?r + 1) ?bs) = uval ?bs"
      by (rule uval_top_zeros) (use z in auto)
    ultimately show ?thesis
      using False F by (simp add: trim_vnum_def Let_def vval_def verinum_bits_def)
  qed
qed

lemma trim_vnum_flags:
  "has_len (trim_vnum v) = has_len v" "has_sign (trim_vnum v) = has_sign v"
  "has_len v \<Longrightarrow> trim_vnum v = v"
  by (simp_all add: trim_vnum_def Let_def verinum_bits_def)

lemma trim_vnum_take: "\<exists>t. vbits (trim_vnum v) = take t (vbits v) \<and> (0 < len v \<longrightarrow> 0 < t)"
proof (cases "has_len v \<or> len v < 2")
  case True
  then have "vbits (trim_vnum v) = take (len v) (vbits v)" by (auto simp: trim_vnum_def)
  then show ?thesis by blast
next
  case False
  show ?thesis
  proof (cases "has_sign v")
    case True
    with False show ?thesis
      using trim_vnum_signed [of v] sign_width_split(1) [of "vbits v"]
      by (auto simp: verinum_bits_def)
  next
    case F: False
    let ?r = "skip_down (vbits v) V0 (len v - 1)"
    have "vbits (trim_vnum v) \<in> (\<lambda>t. take t (vbits v)) ` {len v, Suc ?r, Suc (Suc ?r)}"
      using False F by (simp add: trim_vnum_def Let_def verinum_bits_def)
    then obtain t where "t \<in> {len v, Suc ?r, Suc (Suc ?r)}" "vbits (trim_vnum v) = take t (vbits v)"
      by blast
    then show ?thesis by (intro exI [of _ t]) auto
  qed
qed

lemma trim_vnum_len: "0 < len v \<Longrightarrow> 0 < len (trim_vnum v)"
  using trim_vnum_take [of v] by auto

lemma trim_vnum_defined: "is_defined v \<Longrightarrow> is_defined (trim_vnum v)"
  using trim_vnum_take [of v] by (auto simp: is_defined_def list_all_take)

subsection \<open>Width casts\<close>

lemma pad_bit_sign:
  assumes "is_defined v" "0 < len v" "\<not> is_single v"
  shows "sign_bit v = Some (pad_bit v)"
proof -
  have "known (vbits v ! (len v - 1))"
    using assms(1,2) by (simp add: is_defined_known list_all_length)
  with assms show ?thesis by (auto simp: sign_bit_def get_def pad_bit_def Let_def)
qed

lemma cast_to_width_value:
  assumes "is_defined v" "0 < len v" "is_single v \<longrightarrow> w \<le> len v"
  shows "\<exists>r. cast_to_width v w = Some r \<and> len r = w \<and> has_len r \<and> has_sign r = has_sign v \<and>
    is_defined r \<and> uval (vbits r) = vval v mod 2 ^ w"
proof (cases "w \<le> len v")
  case True
  then have "uval (take w (vbits v)) = vval v mod 2 ^ w"
    using vval_mod [of v] by (metis uval_take mod_mod_cancel le_imp_power_dvd)
  moreover have "list_all known (take w (vbits v))"
    using assms(1) by (auto simp: is_defined_known list_all_iff dest: in_set_takeD)
  ultimately show ?thesis using True assms
    by (auto simp: cast_to_width_def verinum_copy_def Let_def min_def is_defined_known)
next
  case False
  let ?k = "w - len v"
  have ns: "\<not> is_single v" using assms(3) False by simp
  have u: "uval (vbits v @ replicate ?k (pad_bit v)) = vval v mod 2 ^ w"
    using uval_extend [OF pad_bit_sign [OF assms(1,2) ns], of ?k] False by simp
  have "known (pad_bit v)"
  proof -
    have "known (vbits v ! (len v - 1))"
      using assms(1,2) by (simp add: is_defined_known list_all_length)
    then show ?thesis
      using pad_bit_sign [OF assms(1,2) ns] by (auto simp: sign_bit_def get_def split: if_splits)
  qed
  with assms False u show ?thesis
    by (auto simp: cast_to_width_def verinum_bits_def is_defined_known list_all_iff)
qed

subsection \<open>Native integers\<close>

lemma or_disjoint_word:
  fixes val :: "'w::len word"
  assumes "uint val < 2 ^ k" "k < LENGTH('w)"
  shows "uint (or val (2 ^ k)) = uint val + 2 ^ k"
proof -
  have "and val (2 ^ k) = 0"
  proof (rule bit_eqI)
    fix i
    have "take_bit k (uint val) = uint val"
      using assms(1) by (simp add: take_bit_int_eq_self)
    then have "\<not> bit (uint val) k" by (metis bit_take_bit_iff less_irrefl)
    then have "\<not> bit val k" using assms(2) by (simp add: bit_uint_iff)
    then show "bit (and val (2 ^ k)) i = bit (0 :: 'w word) i"
      by (auto simp: bit_and_iff bit_push_bit_iff bit_1_iff bit_exp_iff)
  qed
  then have "or val (2 ^ k) = val + 2 ^ k"
    by (simp add: disjunctive_add_eq_or)
  moreover have u: "uint (2 ^ k :: 'w word) = 2 ^ k"
    using assms(2) by transfer (simp add: take_bit_eq_mod power_strict_increasing)
  moreover have "uint val + 2 ^ k < 2 ^ LENGTH('w)"
  proof -
    have "uint val + 2 ^ k < 2 ^ Suc k" using assms(1) by simp
    also have "\<dots> \<le> 2 ^ LENGTH('w)" using assms(2) by (intro power_increasing) auto
    finally show ?thesis .
  qed
  ultimately show ?thesis by (simp add: uint_word_ariths)
qed

lemma as_uint_loop_value:
  fixes val :: "'w::len word"
  assumes "uint val < 2 ^ k"
  shows "uint (as_uint_loop bs (2 ^ k) val) =
    (if uint val + 2 ^ k * uval bs < 2 ^ LENGTH('w) then uint val + 2 ^ k * uval bs
     else 2 ^ LENGTH('w) - 1)"
  using assms
proof (induction bs arbitrary: k val)
  case Nil
  then show ?case by (simp add: uint_bounded)
next
  case (Cons b bs)
  have next_mask: "push_bit 1 (2 ^ k) = (2 ^ Suc k :: 'w word)"
    by (simp add: push_bit_eq_mult)
  have shift: "(2 :: int) ^ k * (2 * uval bs) = 2 ^ Suc k * uval bs" by simp
  consider (zero) "b \<noteq> V1" | (over) "b = V1" "LENGTH('w) \<le> k" | (one) "b = V1" "k < LENGTH('w)"
    by linarith
  then show ?case
  proof cases
    case zero
    have "uint val < 2 ^ Suc k" using Cons.prems uint_ge_0 [of val] by (simp, linarith)
    from Cons.IH [OF this] zero show ?thesis by (simp add: next_mask bitv_def ac_simps)
  next
    case over
    then have m: "(2 ^ k :: 'w word) = 0" by (simp add: exp_eq_zero_iff)
    have "(2 :: int) ^ LENGTH('w) \<le> 2 ^ k * 1" using over(2) by (simp add: power_increasing)
    also have "\<dots> \<le> 2 ^ k * (1 + 2 * uval bs)" by (intro mult_left_mono) auto
    finally have "2 ^ LENGTH('w) \<le> uint val + 2 ^ k * (1 + 2 * uval bs)"
      using uint_ge_0 [of val] by linarith
    moreover have "uint (- 1 :: 'w word) = 2 ^ LENGTH('w) - 1"
      by (simp add: uint_word_ariths zmod_minus1)
    ultimately show ?thesis using over(1) m by (simp only: as_uint_loop.simps) simp
  next
    case one
    have v: "uint (or val (2 ^ k)) = uint val + 2 ^ k"
      by (rule or_disjoint_word [OF Cons.prems one(2)])
    then have "uint (or val (2 ^ k)) < 2 ^ Suc k" using Cons.prems by simp
    moreover have "(2 ^ k :: 'w word) \<noteq> 0"
      using one(2) by (simp add: exp_eq_zero_iff)
    ultimately show ?thesis
      using Cons.IH [of "or val (2 ^ k)" "Suc k"] one v
      by (simp add: next_mask algebra_simps)
  qed
qed

text \<open>The bound of a native unsigned type, at its width.\<close>

lemma as_uint_loop_saturates:
  "uint (as_uint_loop bs (1 :: 'w::len word) 0) = min (uval bs) (2 ^ LENGTH('w) - 1)"
  using as_uint_loop_value [of "0 :: 'w word" 0 bs] by (auto simp: min_def)

lemma as_ulong_value:
  "is_defined v \<Longrightarrow> uint (as_ulong v) = min (uval (vbits v)) (2 ^ 64 - 1)"
  using as_uint_loop_saturates [of "vbits v", where ?'w = 64] by (auto simp: as_ulong_def)

lemma as_long_pos_step:
  "as_long_pos (b # bs) (2 ^ k) val =
     as_long_pos bs (2 ^ Suc k) (if b = V1 then or val (2 ^ k) else val)"
  by (simp add: mult.commute)

lemma as_long_neg_step:
  "as_long_neg (b # bs) (not (2 ^ k)) val =
     as_long_neg bs (not (2 ^ Suc k)) (if b = V0 then and val (not (2 ^ k)) else val)"
proof -
  have "bit (or (push_bit 1 (not (2 ^ k))) 1 :: 64 word) n = bit (not (2 ^ Suc k) :: 64 word) n"
    if "n < 64" for n
    using that by (simp only: bit_or_iff bit_push_bit_iff bit_not_iff bit_exp_iff bit_1_iff) auto
  then have "or (push_bit 1 (not (2 ^ k))) 1 = (not (2 ^ Suc k) :: 64 word)"
    by (intro bit_word_eqI) simp
  then show ?thesis by (simp only: as_long_neg.simps)
qed

lemma bit_pow2_word: "bit (2 ^ k :: 64 word) i \<longleftrightarrow> i < 64 \<and> i = k"
  by (auto simp: bit_exp_iff)

lemma bit_as_long_pos:
  "bit (as_long_pos bs (2 ^ k) val) i \<longleftrightarrow>
     bit val i \<or> (i < 64 \<and> k \<le> i \<and> i < k + length bs \<and> bs ! (i - k) = V1)"
proof (induction bs arbitrary: k val)
  case (Cons b bs)
  show ?case
    by (subst as_long_pos_step, subst Cons.IH)
      (cases "i = k"; auto simp: bit_or_iff bit_pow2_word nth_Cons' not_le Suc_le_eq simp del: power_Suc)
qed auto

lemma bit_as_long_neg:
  "bit (as_long_neg bs (not (2 ^ k)) val) i \<longleftrightarrow>
     bit val i \<and> \<not> (i < 64 \<and> k \<le> i \<and> i < k + length bs \<and> bs ! (i - k) = V0)"
proof (induction bs arbitrary: k val)
  case (Cons b bs)
  have v: "bit val i \<Longrightarrow> i < 64" using bit_imp_le_length [of val i] by simp
  show ?case using v
    by (subst as_long_neg_step, subst Cons.IH)
      (cases "i = k"; auto simp: bit_and_iff bit_not_iff bit_pow2_word nth_Cons' not_le Suc_le_eq
         simp del: power_Suc)
qed auto

lemma bit_of_int_word: "bit (word_of_int k :: 'w::len word) i \<longleftrightarrow> i < LENGTH('w) \<and> bit k i"
  by transfer (simp add: bit_take_bit_iff)

lemma as_long_pos_word: "as_long_pos bs 1 0 = word_of_int (uval bs)"
  using bit_as_long_pos [of bs 0 0] by (intro bit_word_eqI) (simp add: bit_uval bit_of_int_word)

lemma as_long_neg_word:
  "list_all known bs \<Longrightarrow> as_long_neg bs (not 1) (- 1) = word_of_int (uval bs - 2 ^ length bs)"
proof -
  assume k: "list_all known bs"
  have low: "bit (uval bs - 2 ^ length bs) i \<longleftrightarrow> (if i < length bs then bs ! i = V1 else True)" for i
  proof -
    have "uval bs - 2 ^ length bs = or (uval bs) (- (2 ^ length bs))"
    proof -
      have "\<not> (bit (uval bs) n \<and> bit (- (2 ^ length bs) :: int) n)" for n
        by (auto simp: bit_uval bit_minus_exp_iff)
      then have "and (uval bs) (- (2 ^ length bs)) = 0"
        by (intro bit_eqI) (simp add: bit_and_iff)
      then show ?thesis by (simp flip: disjunctive_add_eq_or)
    qed
    then show ?thesis by (auto simp: bit_or_iff bit_uval bit_minus_exp_iff)
  qed
  show ?thesis
  proof (rule bit_word_eqI)
    fix i assume i: "i < LENGTH(64)"
    have "bit (word_of_int (uval bs - 2 ^ length bs) :: 64 word) i \<longleftrightarrow>
        (if i < length bs then bs ! i = V1 else True)"
      using i by (simp only: bit_of_int_word low simp_thms)
    then show "bit (as_long_neg bs (not 1) (- 1)) i \<longleftrightarrow>
        bit (word_of_int (uval bs - 2 ^ length bs) :: 64 word) i"
      using bit_as_long_neg [of bs 0 "- 1" i] k i unfolding power_0 by (auto simp: list_all_length)
  qed
qed


text \<open>The native signed value: exact whenever the number fits a 64 bit long.\<close>

lemma as_long_value:
  assumes "is_defined v" "in_signed 64 (vval v)"
  shows "sint (as_long v) = vval v"
proof (cases "len v = 0")
  case True
  then show ?thesis by (simp add: as_long_def as_long_warn_def vval_def sval_def)
next
  case False
  let ?bs = "vbits v" and ?n = "len v"
  let ?t = "take (min ?n 63) ?bs"
  have ne: "?bs \<noteq> []" and top: "last ?bs = ?bs ! (?n - 1)"
    using False by (auto simp: last_conv_nth)
  have fits: "\<And>x. in_signed 64 x \<Longrightarrow> sint (word_of_int x :: 64 word) = x"
    by transfer (simp add: in_signed_def signed_take_bit_int_eq_self)
  show ?thesis
  proof (cases "has_sign v \<and> last ?bs = V1")
    case True
    have "list_all known ?t" using assms(1) by (simp add: is_defined_known list_all_take)
    then have w: "as_long v = word_of_int (uval ?t - 2 ^ min ?n 63)"
      using as_long_neg_word [of ?t] True False top assms(1)
      by (simp add: as_long_def as_long_warn_def Let_def)
    have neg: "vval v = uval ?bs - 2 ^ ?n" "vval v < 0"
      using True ne uval_less [of ?bs] by (simp_all add: vval_def sval_def)
    have "uval ?t - 2 ^ min ?n 63 = vval v"
    proof (cases "?n \<le> 63")
      case True
      then show ?thesis using neg by simp
    next
      case F: False
      have "vval v mod 2 ^ 63 = (vval v + 2 ^ 63) mod 2 ^ 63" by simp
      also have "\<dots> = vval v + 2 ^ 63"
        using assms(2) neg(2) by (intro mod_pos_pos_trivial) (auto simp: in_signed_def)
      finally have "vval v mod 2 ^ 63 = vval v + 2 ^ 63" .
      moreover have "uval ?bs mod 2 ^ 63 = vval v mod 2 ^ 63"
        using vval_mod [of v] F by (metis mod_mod_cancel le_imp_power_dvd nle_le)
      ultimately show ?thesis using F by (simp add: uval_take)
    qed
    with w fits assms(2) show ?thesis by simp
  next
    case N: False
    then have w: "as_long v = word_of_int (uval ?t)"
      using as_long_pos_word [of ?t] False top assms(1)
      by (auto simp: as_long_def as_long_warn_def Let_def)
    have pos: "vval v = uval ?bs" using N by (auto simp: vval_def sval_def)
    then have "uval ?bs < 2 ^ 63" using assms(2) by (simp add: in_signed_def)
    then have "uval ?t = vval v" using pos uval_less [of ?bs] by (simp add: uval_take min_def)
    with w fits assms(2) show ?thesis by simp
  qed
qed

subsection \<open>The sorting order\<close>

lemma before_loop_iff:
  "before_loop bs cs n \<longleftrightarrow> (\<exists>i<n. bs ! i < cs ! i \<and> (\<forall>j. i < j \<and> j < n \<longrightarrow> bs ! j = cs ! j))"
proof (induction n)
  case (Suc n)
  show ?case
  proof (cases "bs ! n = cs ! n")
    case True
    with Suc show ?thesis by (auto simp: less_Suc_eq)
  next
    case False
    then consider "bs ! n < cs ! n" | "cs ! n < bs ! n" by (meson neqE)
    then show ?thesis
    proof cases
      case 1
      then show ?thesis by (auto intro!: exI [of _ n])
    next
      case 2
      with False show ?thesis by (auto simp: less_Suc_eq dest: order.asym)
    qed
  qed
qed simp

lemma before_loop_total:
  "length bs = length cs \<Longrightarrow> bs \<noteq> cs \<Longrightarrow>
   before_loop bs cs (length bs) \<or> before_loop cs bs (length bs)"
proof -
  assume l: "length bs = length cs" and ne: "bs \<noteq> cs"
  let ?D = "{i. i < length bs \<and> bs ! i \<noteq> cs ! i}"
  have fin: "finite ?D" by simp
  have "?D \<noteq> {}" using ne l nth_equalityI [of bs cs] by auto
  then have m: "Max ?D \<in> ?D" using Max_in [OF fin] by simp
  have "\<And>j. Max ?D < j \<Longrightarrow> j < length bs \<Longrightarrow> bs ! j = cs ! j"
    using Max_ge [OF fin] by (metis (mono_tags, lifting) mem_Collect_eq not_le)
  with m show ?thesis
    unfolding before_loop_iff by (metis (mono_tags, lifting) mem_Collect_eq neqE)
qed

lemma before_loop_irrefl: "\<not> before_loop bs bs n"
  by (simp add: before_loop_iff)

lemma before_loop_trans:
  assumes "before_loop as bs n" "before_loop bs cs n"
  shows "before_loop as cs n"
proof -
  obtain i j where i: "i < n" "as ! i < bs ! i" "\<forall>k. i < k \<and> k < n \<longrightarrow> as ! k = bs ! k"
    and j: "j < n" "bs ! j < cs ! j" "\<forall>k. j < k \<and> k < n \<longrightarrow> bs ! k = cs ! k"
    using assms by (auto simp: before_loop_iff)
  consider "i < j" | "i = j" | "j < i" by linarith
  then show ?thesis
    unfolding before_loop_iff by cases (use i j in \<open>metis less_trans order.strict_trans\<close>)+
qed

section \<open>The bit operators are the four-valued logic of the language\<close>

interpretation V_logic: four_valued V0 V1 Vx Vz V_not V_and V_or V_xor
proof
  show "b = V0 \<or> b = V1 \<or> b = Vx \<or> b = Vz" for b by (cases b) simp_all
  show "distinct [V0, V1, Vx, Vz]" by simp
  show "V_not b = (if b = V0 then V1 else if b = V1 then V0 else Vx)" for b by (cases b) simp_all
  show "V_and a b = (if a = V0 \<or> b = V0 then V0 else if a = V1 \<and> b = V1 then V1 else Vx)" for a b
    by (simp add: V_and_def)
  show "V_or a b = (if a = V1 \<or> b = V1 then V1 else if a = V0 \<and> b = V0 then V0 else Vx)" for a b
    by (simp add: V_or_def)
  show "V_xor a b = (if {a, b} \<subseteq> {V0, V1} then (if a = b then V0 else V1) else Vx)" for a b
    by (cases a; cases b) (simp_all add: V_xor_def bit4_z2x_def)
qed

end
