(* ===== verification/Verinum_String.thy ===== *)
theory Verinum_String
  imports Verinum
begin

text \<open>
  String-valued numbers of the compiler (verinum.cc): the escape processing of Verilog string
  literals, the constructor from a string, the printed form, and the two operations that treat
  strings specially, padding and concatenation.
\<close>

section \<open>Escape sequences\<close>

definition is_oct :: "char \<Rightarrow> bool" where
  "is_oct c \<longleftrightarrow> 48 \<le> (of_char c :: nat) \<and> (of_char c :: nat) \<le> 55"

text \<open>The value of a hexadecimal digit, if the character is one.\<close>

definition hex_digit :: "char \<Rightarrow> nat option" where
  "hex_digit c = (let n = of_char c :: nat in
     if 48 \<le> n \<and> n \<le> 57 then Some (n - 48)
     else if 97 \<le> n \<and> n \<le> 102 then Some (n - 97 + 10)
     else if 65 \<le> n \<and> n \<le> 70 then Some (n - 65 + 10)
     else None)"

text \<open>Up to \<open>k\<close> digits are consumed into a C++ \<open>char\<close>, whose arithmetic is modulo 256.\<close>

fun oct_loop :: "nat \<Rightarrow> string \<Rightarrow> nat \<Rightarrow> nat \<times> string" where
  "oct_loop (Suc k) (c # cs) v =
     (if is_oct c then oct_loop k cs ((8 * v + (of_char c - 48)) mod 256) else (v, c # cs))"
| "oct_loop _ cs v = (v, cs)"

fun hex_loop :: "nat \<Rightarrow> string \<Rightarrow> nat \<Rightarrow> nat \<times> string" where
  "hex_loop (Suc k) (c # cs) v =
     (case hex_digit c of Some d \<Rightarrow> hex_loop k cs ((16 * v + d) mod 256) | None \<Rightarrow> (v, c # cs))"
| "hex_loop _ cs v = (v, cs)"

lemma oct_loop_length: "length (snd (oct_loop k cs v)) \<le> length cs"
  by (induction k cs v rule: oct_loop.induct) auto

lemma hex_loop_length: "length (snd (hex_loop k cs v)) \<le> length cs"
  by (induction k cs v rule: hex_loop.induct) (auto split: option.splits)

abbreviation backslash :: char where
  "backslash \<equiv> CHR 0x5C"

function process_verilog_string_quotes :: "string \<Rightarrow> string option" where
  "process_verilog_string_quotes [] = Some []"
| "process_verilog_string_quotes (c # cs) =
     (if c = backslash
      then (case cs of
              [] \<Rightarrow> None
            | d # ds \<Rightarrow>
                if d = CHR ''n'' then map_option ((#) (CHR 0x0A)) (process_verilog_string_quotes ds)
                else if d = CHR ''t'' then map_option ((#) (CHR 0x09)) (process_verilog_string_quotes ds)
                else if d = CHR ''v'' then map_option ((#) (CHR 0x0B)) (process_verilog_string_quotes ds)
                else if d = CHR ''f'' then map_option ((#) (CHR 0x0C)) (process_verilog_string_quotes ds)
                else if d = CHR ''a'' then map_option ((#) (CHR 0x07)) (process_verilog_string_quotes ds)
                else if is_oct d
                then (let r = oct_loop 3 cs 0
                      in map_option ((#) (char_of (fst r))) (process_verilog_string_quotes (snd r)))
                else if d = CHR ''x''
                then (let r = hex_loop 2 ds 0
                      in map_option ((#) (char_of (fst r))) (process_verilog_string_quotes (snd r)))
                else map_option ((#) d) (process_verilog_string_quotes ds))
      else map_option ((#) c) (process_verilog_string_quotes cs))"
  by pat_completeness auto
termination
  by (relation "measure length")
    (auto simp: less_Suc_eq_le intro: le_trans [OF oct_loop_length] le_trans [OF hex_loop_length])

declare process_verilog_string_quotes.simps(2) [simp del]

section \<open>The string constructor\<close>

definition vbit :: "bool \<Rightarrow> V" where
  "vbit b = (if b then V1 else V0)"

fun char_bits :: "char \<Rightarrow> V list" where
  "char_bits (Char b0 b1 b2 b3 b4 b5 b6 b7) =
     [vbit b0, vbit b1, vbit b2, vbit b3, vbit b4, vbit b5, vbit b6, vbit b7]"

text \<open>The first character takes the topmost eight bits.\<close>

fun string_bits :: "string \<Rightarrow> V list" where
  "string_bits [] = []"
| "string_bits (c # cs) = string_bits cs @ char_bits c"

definition verinum_string :: "string \<Rightarrow> verinum option" where
  "verinum_string s = map_option (\<lambda>str.
     \<lparr>vbits = (if length str * 8 = 0 then replicate 8 V0 else string_bits str), has_len = True,
      has_sign = False, is_single = False, string_flag = True\<rparr>) (process_verilog_string_quotes s)"

section \<open>The printed form\<close>

fun byte_of :: "V list \<Rightarrow> char" where
  "byte_of [b0, b1, b2, b3, b4, b5, b6, b7] =
     Char (b0 = V1) (b1 = V1) (b2 = V1) (b3 = V1) (b4 = V1) (b5 = V1) (b6 = V1) (b7 = V1)"
| "byte_of _ = CHR 0x00"

function chunks :: "V list \<Rightarrow> string" where
  "chunks bs = (if length bs < 8 then []
     else byte_of (drop (length bs - 8) bs) # chunks (take (length bs - 8) bs))"
  by pat_completeness auto
termination
  by (relation "measure length") auto

declare chunks.simps [simp del]

text \<open>\<open>isprint\<close> of the C locale.\<close>

definition isprint :: "char \<Rightarrow> bool" where
  "isprint c \<longleftrightarrow> 32 \<le> (of_char c :: nat) \<and> (of_char c :: nat) \<le> 126"

text \<open>The format \<^verbatim>\<open>\%03o\<close> of a byte.\<close>

definition octal3 :: "char \<Rightarrow> string" where
  "octal3 c = (let n = of_char c :: nat in
     [backslash, char_of (48 + n div 64), char_of (48 + n div 8 mod 8), char_of (48 + n mod 8)])"

definition esc_char :: "char \<Rightarrow> string" where
  "esc_char c = (if c = CHR 0x22 \<or> c = backslash then octal3 c
     else if isprint c then [c] else octal3 c)"

definition as_string :: "verinum \<Rightarrow> string option" where
  "as_string v = (if len v mod 8 = 0 then Some (concat (map esc_char (chunks (vbits v)))) else None)"

section \<open>Padding and concatenation\<close>

definition pad_to_width :: "verinum \<Rightarrow> nat \<Rightarrow> verinum option" where
  "pad_to_width that width =
     (if len that \<ge> width then Some that
      else if len that = 0
      then Some ((verinum_fill V0 width (has_len that))\<lparr>has_sign := has_sign that\<rparr>)
      else (let val = (verinum_bits (vbits that @ replicate (width - len that) (pad_bit that))
                        (has_len that))\<lparr>has_sign := has_sign that\<rparr>
            in if string_flag that \<and> width mod 8 = 0
               then do { s \<leftarrow> as_string val; verinum_string s }
               else Some val))"

definition concat_vnum :: "verinum \<Rightarrow> verinum \<Rightarrow> verinum option" where
  "concat_vnum left right =
     (if string_flag left \<and> string_flag right
      then do { l \<leftarrow> as_string left; r \<leftarrow> as_string right; verinum_string (l @ r) }
      else Some (verinum_bits (vbits right @ vbits left) True))"

section \<open>Round trips\<close>

lemma of_char_bound: "(of_char c :: nat) < 256"
proof -
  have "(of_char c :: nat) = of_char c mod 256" by (metis char_of_char of_char_of)
  then show ?thesis by (metis mod_less_divisor zero_less_numeral)
qed

lemma is_oct_digit: "d < 8 \<Longrightarrow> is_oct (char_of (48 + d :: nat))"
  by (simp add: is_oct_def)

lemma process_plain:
  "c \<noteq> backslash \<Longrightarrow>
   process_verilog_string_quotes (c # cs) = map_option ((#) c) (process_verilog_string_quotes cs)"
  by (simp add: process_verilog_string_quotes.simps)

lemma oct_digit_val: "d < 8 \<Longrightarrow> of_char (char_of (48 + d) :: char) - 48 = (d :: nat)"
  by simp

lemma octal_digits:
  assumes "(n :: nat) < 256"
  shows "(8 * ((8 * ((8 * 0 + n div 64) mod 256) + n div 8 mod 8) mod 256) + n mod 8) mod 256 = n"
proof -
  have "n div 64 = n div 8 div 8" by (simp add: div_mult2_eq [symmetric])
  then have d: "8 * (n div 64) + n div 8 mod 8 = n div 8" by simp
  have "n div 64 < 256" "n div 8 < 256" using assms by linarith+
  with d assms show ?thesis by simp
qed

lemma process_octal3:
  "process_verilog_string_quotes (octal3 c @ cs) =
     map_option ((#) c) (process_verilog_string_quotes cs)"
proof -
  let ?n = "of_char c :: nat"
  let ?a = "?n div 64" and ?b = "?n div 8 mod 8" and ?e = "?n mod 8"
  have "?a < 8" using of_char_bound [of c] by linarith
  then have lt: "?a < 8" "?b < 8" "?e < 8" by simp_all
  have ne: "char_of (48 + ?a) \<notin> {CHR ''n'', CHR ''t'', CHR ''v'', CHR ''f'', CHR ''a'', CHR ''x''}"
  proof -
    have "is_oct (char_of (48 + ?a))" by (rule is_oct_digit [OF lt(1)])
    moreover have "\<not> is_oct d" if "d \<in> {CHR ''n'', CHR ''t'', CHR ''v'', CHR ''f'', CHR ''a'', CHR ''x''}" for d
      using that by (auto simp: is_oct_def)
    ultimately show ?thesis by blast
  qed
  have run: "oct_loop 3 (char_of (48 + ?a) # char_of (48 + ?b) # char_of (48 + ?e) # cs) 0 = (?n, cs)"
  proof -
    have "(8 * ((8 * ((8 * 0 + ?a) mod 256) + ?b) mod 256) + ?e) mod 256 = ?n"
      by (rule octal_digits [OF of_char_bound])
    then show ?thesis
      by (simp only: numeral_3_eq_3 oct_loop.simps is_oct_digit [OF lt(1)] is_oct_digit [OF lt(2)]
          is_oct_digit [OF lt(3)] oct_digit_val [OF lt(1)] oct_digit_val [OF lt(2)]
          oct_digit_val [OF lt(3)] if_True)
  qed
  show ?thesis
    using ne run is_oct_digit [OF lt(1)]
    by (simp add: octal3_def Let_def process_verilog_string_quotes.simps(2))
qed

lemma process_esc_char:
  "process_verilog_string_quotes (esc_char c @ cs) =
     map_option ((#) c) (process_verilog_string_quotes cs)"
  by (simp add: esc_char_def process_octal3 process_plain)

lemma process_escaped: "process_verilog_string_quotes (concat (map esc_char cs)) = Some cs"
  by (induction cs) (simp_all add: process_esc_char)

lemma process_escaped_append:
  "process_verilog_string_quotes (concat (map esc_char cs) @ t) =
     map_option ((@) cs) (process_verilog_string_quotes t)"
  by (induction cs) (simp_all add: process_esc_char option.map_comp comp_def option.map_ident)

lemma char_bits_byte_of:
  assumes "length bs = 8" "list_all known bs"
  shows "char_bits (byte_of bs) = bs"
proof -
  from assms(1) obtain b0 b1 b2 b3 b4 b5 b6 b7 where "bs = [b0, b1, b2, b3, b4, b5, b6, b7]"
    by (auto simp: numeral_eq_Suc length_Suc_conv)
  with assms(2) show ?thesis by (auto simp: vbit_def)
qed

lemma string_bits_chunks:
  "length bs mod 8 = 0 \<Longrightarrow> list_all known bs \<Longrightarrow> string_bits (chunks bs) = bs"
proof (induction bs rule: chunks.induct)
  case (1 bs)
  show ?case
  proof (cases "length bs < 8")
    case True
    with 1 have "bs = []" by auto
    then show ?thesis by (simp add: chunks.simps)
  next
    case False
    let ?n = "length bs - 8"
    have "length (take ?n bs) mod 8 = 0" using 1(2) False by (simp add: le_mod_geq)
    then have IH: "string_bits (chunks (take ?n bs)) = take ?n bs"
      using 1(1) [OF False] 1(3) by (simp add: list_all_take)
    have "char_bits (byte_of (drop ?n bs)) = drop ?n bs"
      using False 1(3) by (intro char_bits_byte_of) (simp_all add: list_all_drop)
    with IH False show ?thesis by (simp add: chunks.simps [of bs])
  qed
qed

lemma chunks_length: "8 dvd length bs \<Longrightarrow> 8 * length (chunks bs) = length bs"
proof (induction bs rule: chunks.induct)
  case (1 bs)
  then show ?case
    by (cases "length bs < 8") (auto simp: chunks.simps [of bs] dvd_diff_nat not_less elim: dvdE)
qed

text \<open>Numbers built from strings are defined and have a positive whole number of bytes.\<close>

definition string_ok :: "verinum \<Rightarrow> bool" where
  "string_ok v \<longleftrightarrow> (string_flag v \<longrightarrow> is_defined v \<and> 0 < len v \<and> 8 dvd len v)"

lemma string_bits_len: "length (string_bits s) = 8 * length s"
proof (induction s)
  case (Cons c s)
  then show ?case by (cases c) simp
qed simp

lemma string_bits_known: "list_all known (string_bits s)"
proof (induction s)
  case (Cons c s)
  then show ?case by (cases c) (simp add: vbit_def)
qed simp

lemma string_bits_append: "string_bits (s @ t) = string_bits t @ string_bits s"
  by (induction s) simp_all

lemma string_bits_Nil_iff [simp]: "string_bits s = [] \<longleftrightarrow> s = []"
  using string_bits_len [of s] by auto

lemma verinum_string_ok: "verinum_string s = Some v \<Longrightarrow> string_ok v"
  by (auto simp: verinum_string_def string_ok_def is_defined_known string_bits_known string_bits_len
      split: if_splits)

lemma verinum_string_print:
  assumes "is_defined v" "0 < len v" "8 dvd len v"
  shows "\<exists>s r. as_string v = Some s \<and> verinum_string s = Some r \<and> vbits r = vbits v"
proof -
  have "chunks (vbits v) \<noteq> []" using chunks_length [OF assms(3)] assms(2) by auto
  moreover have "string_bits (chunks (vbits v)) = vbits v"
    using assms by (intro string_bits_chunks) (auto simp: is_defined_known)
  ultimately show ?thesis
    using assms(3) by (simp add: as_string_def verinum_string_def process_escaped)
qed

lemma concat_vnum_bits:
  assumes "string_ok l" "string_ok r"
  shows "\<exists>c. concat_vnum l r = Some c \<and> vbits c = vbits r @ vbits l"
proof (cases "string_flag l \<and> string_flag r")
  case True
  with assms have l: "is_defined l" "0 < len l" "8 dvd len l"
    and r: "is_defined r" "0 < len r" "8 dvd len r" by (auto simp: string_ok_def)
  have "chunks (vbits l) \<noteq> []" using chunks_length [OF l(3)] l(2) by auto
  moreover have "string_bits (chunks (vbits l)) = vbits l" "string_bits (chunks (vbits r)) = vbits r"
    using l r by (auto intro!: string_bits_chunks simp: is_defined_known)
  ultimately show ?thesis using True l(3) r(3)
    by (simp add: concat_vnum_def as_string_def verinum_string_def process_escaped_append
        process_escaped string_bits_append)
next
  case False
  then show ?thesis by (auto simp: concat_vnum_def verinum_bits_def)
qed

end
