(* ===== verification/Verinum_Arith.thy ===== *)
theory Verinum_Arith
  imports Verinum_String
begin

text \<open>
  Comparison, addition, subtraction, negation, complement, multiplication and shifts of the
  compiler's numbers (verinum.cc), and their meaning on the integer a number denotes. Operations
  on two sized operands work modulo the width; with an unsized operand the result grows so that
  nothing is lost.
\<close>

section \<open>Comparison\<close>

definition ext_bit :: "V list \<Rightarrow> V \<Rightarrow> nat \<Rightarrow> V" where
  "ext_bit bs pad idx = (if idx < length bs then bs ! idx else pad)"

definition op_eq :: "verinum \<Rightarrow> verinum \<Rightarrow> V option" where
  "op_eq left right =
     (let loop = (\<lambda>lp rp. if list_all (\<lambda>idx. ext_bit (vbits left) lp idx = ext_bit (vbits right) rp idx)
                               [0..<max (len left) (len right)] then V1 else V0)
      in if has_sign left \<and> has_sign right
         then do { lp \<leftarrow> get left (len left - 1); rp \<leftarrow> get right (len right - 1);
                   Some (if lp = V1 \<and> rp = V0 then V0 else if lp = V0 \<and> rp = V1 then V0
                         else loop lp rp) }
         else Some (loop V0 V0))"

text \<open>The final loop of \<open>operator <=\<close> and \<open>operator <\<close>, with the answer for equal numbers.\<close>

fun cmp_loop :: "V \<Rightarrow> V list \<Rightarrow> V list \<Rightarrow> nat \<Rightarrow> V" where
  "cmp_loop eqv l r 0 = eqv"
| "cmp_loop eqv l r (Suc i) =
     (if l ! i = Vx then Vx else if l ! i = Vz then Vx
      else if r ! i = Vx then Vx else if r ! i = Vz then Vx
      else if l ! i > r ! i then V0 else if l ! i < r ! i then V1
      else cmp_loop eqv l r i)"

definition cmp_padded :: "V \<Rightarrow> bool \<Rightarrow> V \<Rightarrow> V \<Rightarrow> V list \<Rightarrow> V list \<Rightarrow> V" where
  "cmp_padded eqv signed_calc lp rp l r =
     (if list_ex (\<lambda>idx. l ! idx \<noteq> rp) [length r..<length l]
      then (if signed_calc \<and> lp = V1 then V1 else V0)
      else if list_ex (\<lambda>idx. r ! idx \<noteq> lp) [length l..<length r]
      then (if signed_calc \<and> rp = V1 then V0 else V1)
      else cmp_loop eqv l r (min (length l) (length r)))"

definition op_cmp :: "V \<Rightarrow> verinum \<Rightarrow> verinum \<Rightarrow> V option" where
  "op_cmp eqv left right =
     (if has_sign left \<and> has_sign right
      then do { lp \<leftarrow> get left (len left - 1); rp \<leftarrow> get right (len right - 1);
                Some (if lp = V1 \<and> rp = V0 then V1 else if lp = V0 \<and> rp = V1 then V0
                      else cmp_padded eqv True lp rp (vbits left) (vbits right)) }
      else Some (cmp_padded eqv False V0 V0 (vbits left) (vbits right)))"

definition op_le :: "verinum \<Rightarrow> verinum \<Rightarrow> V option" where
  "op_le left right = op_cmp V1 left right"

definition op_lt :: "verinum \<Rightarrow> verinum \<Rightarrow> V option" where
  "op_lt left right = op_cmp V0 left right"

definition op_gt :: "verinum \<Rightarrow> verinum \<Rightarrow> V option" where
  "op_gt left right = op_lt right left"

definition op_ge :: "verinum \<Rightarrow> verinum \<Rightarrow> V option" where
  "op_ge left right = op_le right left"

definition op_ne :: "verinum \<Rightarrow> verinum \<Rightarrow> V option" where
  "op_ne left right = map_option (\<lambda>e. if e \<noteq> V0 then V0 else V1) (op_eq left right)"

section \<open>Addition and subtraction\<close>

definition add_with_carry :: "V \<Rightarrow> V \<Rightarrow> V \<Rightarrow> V \<times> V" where
  "add_with_carry l r c =
     (if c = Vx \<or> c = Vz then (Vx, Vx)
      else if l = Vx \<or> l = Vz then (Vx, Vx)
      else if r = Vx \<or> r = Vz then (Vx, Vx)
      else let sum = of_bool (c = V1) + of_bool (l = V1) + of_bool (r = V1) :: nat
           in (if odd sum then V1 else V0, if odd (sum div 2) then V1 else V0))"

definition op_not :: "verinum \<Rightarrow> verinum" where
  "op_not left = left\<lparr>vbits := map V_not (vbits left)\<rparr>"

definition mk_vnum :: "V list \<Rightarrow> bool \<Rightarrow> bool \<Rightarrow> verinum" where
  "mk_vnum bs h s = (verinum_bits bs h)\<lparr>has_sign := s\<rparr>"

text \<open>The two loops that fill \<open>val_bits\<close>: the common part, then the longer operand against
  the pad of the shorter one. The result is the bits and the carry out.\<close>

definition add_loops :: "V list \<Rightarrow> V list \<Rightarrow> V \<Rightarrow> V \<Rightarrow> V \<Rightarrow> V list \<times> V" where
  "add_loops l r lpad rpad carry =
     (let min_len = min (length l) (length r); max_len = max (length l) (length r);
          (lo, c1) = ripple add_with_carry (take min_len l) (take min_len r) carry;
          (hi, c2) = (if length l > length r
                      then ripple add_with_carry (drop min_len l)
                             (replicate (max_len - min_len) rpad) c1
                      else ripple add_with_carry (replicate (max_len - min_len) lpad)
                             (drop min_len r) c1)
      in (lo @ hi, c2))"

definition op_add :: "verinum \<Rightarrow> verinum \<Rightarrow> verinum option" where
  "op_add left right =
     (let has_len_flag = has_len left \<and> has_len right;
          signed_flag = has_sign left \<and> has_sign right;
          max_len = max (len left) (len right)
      in if \<not> is_defined left \<or> \<not> is_defined right
         then Some (mk_vnum (replicate (if has_len_flag then max_len else 1) Vx) has_len_flag signed_flag)
         else do {
           rpad \<leftarrow> sign_bit right; lpad \<leftarrow> sign_bit left;
           let (val_bits, carry) = add_loops (vbits left) (vbits right) lpad rpad V0;
           Some (if has_len_flag then mk_vnum val_bits has_len_flag signed_flag
             else (let top = fst (add_with_carry lpad rpad carry);
                       grow = (if signed_flag then top \<noteq> val_bits ! (max_len - 1) else top \<noteq> V0)
                   in mk_vnum (if grow then val_bits @ [top] else val_bits) has_len_flag signed_flag)) })"

definition op_sub :: "verinum \<Rightarrow> verinum \<Rightarrow> verinum option" where
  "op_sub left right =
     (let has_len_flag = has_len left \<and> has_len right;
          signed_flag = has_sign left \<and> has_sign right;
          max_len = max (len left) (len right)
      in if \<not> is_defined left \<or> \<not> is_defined right
         then Some (mk_vnum (replicate (if has_len_flag then max_len else 1) Vx) has_len_flag signed_flag)
         else do {
           rpad \<leftarrow> sign_bit right; lpad \<leftarrow> sign_bit left;
           let (val_bits, carry) = add_loops (vbits left) (map V_not (vbits right)) lpad (V_not rpad) V1;
           Some (if signed_flag \<and> \<not> has_len_flag
             then (let top = fst (add_with_carry lpad (V_not rpad) carry)
                   in mk_vnum (if top \<noteq> val_bits ! (max_len - 1) then val_bits @ [top] else val_bits)
                        has_len_flag signed_flag)
             else mk_vnum val_bits has_len_flag signed_flag) })"

definition op_neg :: "verinum \<Rightarrow> verinum option" where
  "op_neg right =
     (let has_len_flag = has_len right; signed_flag = has_sign right; n = len right
      in if \<not> is_defined right
         then Some (mk_vnum (replicate (if has_len_flag then n else 1) Vx) has_len_flag signed_flag)
         else (let (val_bits, carry) = ripple add_with_carry (replicate n V0) (map V_not (vbits right)) V1
               in if signed_flag \<and> \<not> has_len_flag
                  then do {
                    s \<leftarrow> sign_bit right;
                    let top = fst (add_with_carry V0 (V_not s) carry);
                    Some (mk_vnum (if top \<noteq> val_bits ! (n - 1) then val_bits @ [top] else val_bits)
                            has_len_flag signed_flag) }
                  else Some (mk_vnum val_bits has_len_flag signed_flag)))"

section \<open>Multiplication\<close>

text \<open>The inner loop adds the left operand, extended by its sign, into the result from position
  \<open>rdx\<close> on; the outer loop runs over the bits of the right operand.\<close>

definition mul_inner :: "V list \<Rightarrow> V \<Rightarrow> nat \<Rightarrow> V list \<Rightarrow> V list" where
  "mul_inner l l_sign rdx res =
     take rdx res @ fst (ripple add_with_carry
       (map (ext_bit l l_sign) [0..<length res - rdx]) (drop rdx res) V0)"

fun mul_outer :: "V list \<Rightarrow> V \<Rightarrow> V list \<Rightarrow> V \<Rightarrow> nat list \<Rightarrow> V list \<Rightarrow> V list" where
  "mul_outer l l_sign r r_sign [] res = res"
| "mul_outer l l_sign r r_sign (rdx # more_idx) res =
     mul_outer l l_sign r r_sign more_idx
       (if ext_bit r r_sign rdx = V0 then res else mul_inner l l_sign rdx res)"

definition op_mul :: "verinum \<Rightarrow> verinum \<Rightarrow> verinum option" where
  "op_mul left right =
     (let has_len_flag = has_len left \<and> has_len right;
          signed_flag = has_sign left \<and> has_sign right;
          n = (if has_len_flag then max (len left) (len right) else len left + len right)
      in if \<not> is_defined left \<or> \<not> is_defined right
         then Some (mk_vnum (replicate (if has_len_flag then n else 1) Vx) has_len_flag signed_flag)
         else do {
           r_sign \<leftarrow> sign_bit right;
           l_sign \<leftarrow> (if list_ex (\<lambda>rdx. ext_bit (vbits right) r_sign rdx \<noteq> V0) [0..<n]
                       then sign_bit left else Some V0);
           Some (trim_vnum (mk_vnum
             (mul_outer (vbits left) l_sign (vbits right) r_sign [0..<n] (replicate n V0))
             has_len_flag signed_flag)) })"

section \<open>Shifts\<close>

definition op_shl :: "verinum \<Rightarrow> nat \<Rightarrow> verinum" where
  "op_shl that shift =
     (let n = (if has_len that then len that else len that + shift)
      in trim_vnum (mk_vnum (map (\<lambda>idx. if idx < shift then V0 else vbits that ! (idx - shift)) [0..<n])
           (has_len that) (has_sign that)))"

definition op_shr :: "verinum \<Rightarrow> nat \<Rightarrow> verinum option" where
  "op_shr that shift =
     do { sgn_bit \<leftarrow> sign_bit that;
          Some (if shift \<ge> len that
            then mk_vnum (replicate (if has_len that then len that else 1) sgn_bit)
                   (has_len that) (has_sign that)
            else let n = (if has_len that then len that else len that - shift)
                 in trim_vnum (mk_vnum (map (\<lambda>idx. if idx + shift < len that then vbits that ! (idx + shift)
                                              else sgn_bit) [0..<n])
                      (has_len that) (has_sign that))) }"


section \<open>The bit adder\<close>

interpretation vadd: digit_adder bitv 2 known bitv known add_with_carry
proof
  show "(1 :: int) < 2" by simp
  show "known d \<Longrightarrow> 0 \<le> bitv d \<and> bitv d < 2" for d by auto
  show "known a \<Longrightarrow> known b \<Longrightarrow> known c \<Longrightarrow> add_with_carry a b c = (t, c') \<Longrightarrow>
      bitv t + 2 * bitv c' = bitv a + bitv b + bitv c" for a b c t c'
    by (auto simp: add_with_carry_def)
  show "known a \<Longrightarrow> known b \<Longrightarrow> known c \<Longrightarrow> add_with_carry a b c = (t, c') \<Longrightarrow>
      known t \<and> known c'" for a b c t c'
    by (auto simp: add_with_carry_def)
qed

lemmas vripple_mod = vadd.ripple_mod [folded uval_def]

lemma vripple_known:
  "length as = length bs \<Longrightarrow> list_all known as \<Longrightarrow> list_all known bs \<Longrightarrow> known c \<Longrightarrow>
   list_all known (fst (ripple add_with_carry as bs c)) \<and> known (snd (ripple add_with_carry as bs c))"
  using vadd.ripple_ok [of as bs c "fst (ripple add_with_carry as bs c)"
      "snd (ripple add_with_carry as bs c)"] by simp

text \<open>The operands of an addition, extended to a common length.\<close>

abbreviation padded :: "V list \<Rightarrow> V \<Rightarrow> nat \<Rightarrow> V list" where
  "padded bs pad n \<equiv> bs @ replicate (n - length bs) pad"

lemma add_loops_ripple:
  assumes "n = max (length l) (length r)"
  shows "add_loops l r lpad rpad c = ripple add_with_carry (padded l lpad n) (padded r rpad n) c"
proof (cases "length r < length l")
  case True
  let ?m = "length r"
  have "ripple add_with_carry (take ?m l @ drop ?m l) (r @ replicate (n - ?m) rpad) c =
      (let (ss, c1) = ripple add_with_carry (take ?m l) r c;
           (ss', c2) = ripple add_with_carry (drop ?m l) (replicate (n - ?m) rpad) c1 in (ss @ ss', c2))"
    using True by (intro ripple_append) simp
  with True assms show ?thesis by (simp add: add_loops_def Let_def)
next
  case False
  let ?m = "length l"
  have "ripple add_with_carry (l @ replicate (n - ?m) lpad) (take ?m r @ drop ?m r) c =
      (let (ss, c1) = ripple add_with_carry l (take ?m r) c;
           (ss', c2) = ripple add_with_carry (replicate (n - ?m) lpad) (drop ?m r) c1 in (ss @ ss', c2))"
    using False by (intro ripple_append) simp
  with False assms show ?thesis by (simp add: add_loops_def Let_def max_def not_less)
qed

text \<open>One more digit on top of the two loops is a ripple over one more pad digit.\<close>

lemma add_loops_top:
  assumes "add_loops l r lpad rpad c = (vs, c1)" "n = max (length l) (length r)"
  shows "vs @ [fst (add_with_carry lpad rpad c1)] =
    fst (ripple add_with_carry (padded l lpad (Suc n)) (padded r rpad (Suc n)) c)"
proof -
  have ext: "padded l lpad (Suc n) = padded l lpad n @ [lpad]"
    "padded r rpad (Suc n) = padded r rpad n @ [rpad]"
    using assms(2) by (simp_all add: Suc_diff_le replicate_append_same)
  have "ripple add_with_carry (padded l lpad n) (padded r rpad n) c = (vs, c1)"
    using add_loops_ripple [OF assms(2)] assms(1) by simp
  moreover have "length (padded l lpad n) = length (padded r rpad n)" using assms(2) by simp
  ultimately show ?thesis
    by (simp add: ext ripple_append del: append_assoc length_append split: prod.splits)
qed

lemma sign_bit_known: "is_defined v \<Longrightarrow> sign_bit v = Some s \<Longrightarrow> known s"
  by (auto simp: sign_bit_def get_def is_defined_known split: if_splits dest: list_all_nthD)

lemma padded_known:
  "is_defined v \<Longrightarrow> sign_bit v = Some s \<Longrightarrow> list_all known (padded (vbits v) s n)"
  using sign_bit_known by (auto simp: is_defined_known)

lemma padded_value:
  "sign_bit v = Some s \<Longrightarrow> len v \<le> n \<Longrightarrow> uval (padded (vbits v) s n) = vval v mod 2 ^ n"
  using uval_extend [of v s "n - len v"] by simp

lemma uval_not: "list_all known bs \<Longrightarrow> uval (map V_not bs) = 2 ^ length bs - 1 - uval bs"
  by (induction bs) auto

lemma known_not: "list_all known bs \<Longrightarrow> list_all known (map V_not bs)"
  by (induction bs) auto

lemma padded_not_value:
  assumes "is_defined v" "sign_bit v = Some s" "len v \<le> n"
  shows "uval (padded (map V_not (vbits v)) (V_not s) n) = (- 1 - vval v) mod 2 ^ n"
proof -
  have "padded (map V_not (vbits v)) (V_not s) n = map V_not (padded (vbits v) s n)" by simp
  then have "uval (padded (map V_not (vbits v)) (V_not s) n) = 2 ^ n - 1 - vval v mod 2 ^ n"
    using uval_not [OF padded_known [OF assms(1,2)], of n] padded_value [OF assms(2,3)] assms(3)
    by simp
  also have "\<dots> = (2 ^ n - 1 - vval v mod 2 ^ n) mod 2 ^ n"
  proof -
    have "0 \<le> vval v mod 2 ^ n" "vval v mod 2 ^ n < 2 ^ n" by simp_all
    then show ?thesis by (intro mod_pos_pos_trivial [symmetric]) linarith+
  qed
  also have "\<dots> = (- 1 - vval v) mod 2 ^ n"
  proof -
    have "(2 ^ n - 1 - vval v mod 2 ^ n) mod 2 ^ n = (2 ^ n - 1 - vval v) mod 2 ^ n"
      by (rule mod_diff_right_eq)
    moreover have "2 ^ n - 1 - vval v = (- 1 - vval v) + 2 ^ n" by simp
    ultimately show ?thesis by (simp only: mod_add_self2)
  qed
  finally show ?thesis .
qed


section \<open>Meaning of addition, subtraction and negation\<close>

text \<open>A proper operand: fully known, at least one bit.\<close>

definition proper :: "verinum \<Rightarrow> bool" where
  "proper v \<longleftrightarrow> is_defined v \<and> 0 < len v"

lemma proper_sign_bit: "proper v \<Longrightarrow> \<exists>s. sign_bit v = Some s \<and> known s"
  using sign_bit_known [of v]
  by (cases "sign_bit v") (auto simp: proper_def sign_bit_def get_def split: if_splits)

lemma proper_max:
  "proper l \<Longrightarrow> proper r \<Longrightarrow> is_defined l \<and> is_defined r \<and> 0 < max (len l) (len r)"
  by (simp add: proper_def less_max_iff_disj)

lemma mk_vnum_simps [simp]:
  "vbits (mk_vnum bs h s) = bs" "has_len (mk_vnum bs h s) = h" "has_sign (mk_vnum bs h s) = s"
  "is_single (mk_vnum bs h s) = False" "string_flag (mk_vnum bs h s) = False"
  by (simp_all add: mk_vnum_def verinum_bits_def)

lemma mk_vnum_defined [simp]: "is_defined (mk_vnum bs h s) \<longleftrightarrow> list_all known bs"
  by (simp add: is_defined_known)

text \<open>The common core: two extended strings \<open>A\<close>, \<open>B\<close> standing for \<open>x\<close> and \<open>y\<close> modulo every
  power of two, summed with an incoming carry.\<close>

lemma ripple_sum:
  assumes "length as = n" "length bs = n" "list_all known as" "list_all known bs" "known c"
    "uval as = x mod 2 ^ n" "uval bs = y mod 2 ^ n"
  shows "uval (fst (ripple add_with_carry as bs c)) = (x + y + bitv c) mod 2 ^ n"
proof -
  have "uval (fst (ripple add_with_carry as bs c)) = (x mod 2 ^ n + y mod 2 ^ n + bitv c) mod 2 ^ n"
    using vripple_mod [of as bs c] assms by simp
  then show ?thesis by (simp only: mod_add_cong [OF mod_add_eq refl])
qed

text \<open>Growing a signed result by the top digit only where it differs keeps the value.\<close>

lemma signed_grow:
  assumes "vs \<noteq> []" "in_signed (Suc (length vs)) x"
    "uval (vs @ [t]) = x mod 2 ^ Suc (length vs)"
  shows "sval (if t \<noteq> vs ! (length vs - 1) then vs @ [t] else vs) = x"
proof -
  have x: "sval (vs @ [t]) = x" by (rule sval_eqI) (use assms in auto)
  show ?thesis
  proof (cases "t = last vs")
    case True
    then have "sval (vs @ [t]) = sval vs" using sval_extend [OF assms(1), of t 1] by simp
    with x True assms(1) show ?thesis by (simp add: last_conv_nth)
  next
    case False
    with x assms(1) show ?thesis by (simp add: last_conv_nth)
  qed
qed

lemma unsigned_grow:
  assumes "0 \<le> x" "x < 2 ^ Suc (length vs)" "uval (vs @ [t]) = x" "known t"
  shows "uval (if t \<noteq> V0 then vs @ [t] else vs) = x"
  using assms by (auto simp: uval_append)

lemma vval_signed_range: "proper v \<Longrightarrow> has_sign v \<Longrightarrow> in_signed (len v) (vval v)"
  using sval_range [of "vbits v"] by (simp add: proper_def vval_def)

lemma vval_unsigned_range: "\<not> has_sign v \<Longrightarrow> 0 \<le> vval v \<and> vval v < 2 ^ len v"
  using uval_less [of "vbits v"] by (simp add: vval_def)

lemma in_signed_add: "in_signed n x \<Longrightarrow> in_signed n y \<Longrightarrow> in_signed (Suc n) (x + y)"
  by (auto simp: in_signed_def)

lemma in_signed_sub: "in_signed n x \<Longrightarrow> in_signed n y \<Longrightarrow> in_signed (Suc n) (x - y)"
  by (auto simp: in_signed_def)

lemma op_add_sized:
  assumes "proper l" "proper r" "has_len l" "has_len r"
  shows "\<exists>c. op_add l r = Some c \<and> len c = max (len l) (len r) \<and> has_len c \<and>
    has_sign c = (has_sign l \<and> has_sign r) \<and> proper c \<and>
    uval (vbits c) = (vval l + vval r) mod 2 ^ max (len l) (len r)"
proof -
  obtain ls rs where s: "sign_bit l = Some ls" "sign_bit r = Some rs"
    using proper_sign_bit assms by blast
  let ?n = "max (len l) (len r)"
  let ?A = "padded (vbits l) ls ?n" and ?B = "padded (vbits r) rs ?n"
  have d: "is_defined l" "is_defined r" "0 < len l" using assms by (auto simp: proper_def)
  have k: "list_all known ?A" "list_all known ?B"
    using padded_known d s by blast+
  have u: "uval (fst (ripple add_with_carry ?A ?B V0)) = (vval l + vval r) mod 2 ^ ?n"
    using ripple_sum [of ?A ?n ?B V0 "vval l" "vval r"] k s by (simp add: padded_value)
  have e: "add_loops (vbits l) (vbits r) ls rs V0 = ripple add_with_carry ?A ?B V0"
    by (rule add_loops_ripple) simp
  have len: "length (fst (ripple add_with_carry ?A ?B V0)) = ?n"
    by (subst ripple_length) auto
  have kk: "list_all known (fst (ripple add_with_carry ?A ?B V0))"
    using vripple_known [of ?A ?B V0] k by auto
  show ?thesis
    using d s assms u len kk e by (auto simp: op_add_def Let_def proper_def split: prod.splits)
qed


text \<open>The bits of a grown sum: the low part of a ripple, with or without its top digit.\<close>

lemma loops_facts:
  assumes "add_loops l r lp rp c = (vs, c1)" "n = max (length l) (length r)"
    "list_all known (padded l lp n)" "list_all known (padded r rp n)" "known lp" "known rp" "known c"
    "\<And>m. n \<le> m \<Longrightarrow> uval (padded l lp m) = x mod 2 ^ m"
    "\<And>m. n \<le> m \<Longrightarrow> uval (padded r rp m) = y mod 2 ^ m"
  shows "length vs = n" "list_all known vs" "known (fst (add_with_carry lp rp c1))"
    "uval vs = (x + y + bitv c) mod 2 ^ n"
    "uval (vs @ [fst (add_with_carry lp rp c1)]) = (x + y + bitv c) mod 2 ^ Suc n"
proof -
  let ?A = "\<lambda>m. padded l lp m" and ?B = "\<lambda>m. padded r rp m"
  have e: "ripple add_with_carry (?A n) (?B n) c = (vs, c1)"
    using add_loops_ripple [OF assms(2)] assms(1) by simp
  have len: "length (?A m) = m" "length (?B m) = m" if "n \<le> m" for m using that assms(2) by auto
  show "length vs = n" using ripple_length [of "?A n" "?B n" add_with_carry c] e len by simp
  have kk: "list_all known vs \<and> known c1"
    using vripple_known [of "?A n" "?B n" c] e len [of n] assms(3,4,7) by simp
  then show "list_all known vs" by simp
  show "known (fst (add_with_carry lp rp c1))"
    using vadd.addc_ok [of lp rp c1] kk assms(5,6) by (metis prod.collapse)
  show "uval vs = (x + y + bitv c) mod 2 ^ n"
    using ripple_sum [OF len [OF le_refl] assms(3,4,7) assms(8,9) [OF le_refl]] e by simp
  have "list_all known (?A (Suc n))" "list_all known (?B (Suc n))"
    using assms(3-6) by (auto simp: list_all_iff)
  then show "uval (vs @ [fst (add_with_carry lp rp c1)]) = (x + y + bitv c) mod 2 ^ Suc n"
    unfolding add_loops_top [OF assms(1,2)]
    by (intro ripple_sum [OF len] assms(7)) (use assms(8,9) in auto)
qed

lemma op_add_unsized:
  assumes "proper l" "proper r" "\<not> (has_len l \<and> has_len r)" "has_sign l = has_sign r"
  shows "\<exists>c. op_add l r = Some c \<and> \<not> has_len c \<and> has_sign c = has_sign l \<and> proper c \<and>
    vval c = vval l + vval r"
proof -
  let ?n = "max (len l) (len r)"
  obtain ls rs where s: "sign_bit l = Some ls" "sign_bit r = Some rs" "known ls" "known rs"
    using proper_sign_bit assms(1,2) by blast
  have d: "is_defined l" "is_defined r" "0 < ?n" using proper_max assms by auto
  obtain vs c1 where a: "add_loops (vbits l) (vbits r) ls rs V0 = (vs, c1)" by (meson surj_pair)
  define t where "t = fst (add_with_carry ls rs c1)"
  have f: "length vs = ?n" "list_all known vs" "known t"
    "uval (vs @ [t]) = (vval l + vval r) mod 2 ^ Suc ?n"
    using loops_facts [OF a refl, of "vval l" "vval r"] d s padded_known padded_value
    unfolding t_def by auto
  have vs: "vs \<noteq> []" using f(1) d(3) by auto
  show ?thesis
  proof (cases "has_sign l")
    case True
    have "in_signed (Suc ?n) (vval l + vval r)"
      using vval_signed_range [of l] vval_signed_range [of r] True assms
      by (intro in_signed_add) (auto elim: in_signed_mono)
    then have "sval (if t \<noteq> vs ! (?n - 1) then vs @ [t] else vs) = vval l + vval r"
      using signed_grow [OF vs, of "vval l + vval r" t] f by simp
    then show ?thesis using True assms(3,4) d s a f vs
      by (auto simp: op_add_def Let_def proper_def vval_def t_def split: prod.splits)
  next
    case False
    have b: "0 \<le> vval l + vval r" "vval l + vval r < 2 ^ Suc ?n"
    proof -
      have "vval l < 2 ^ ?n" "vval r < 2 ^ ?n"
        using vval_unsigned_range [of l] vval_unsigned_range [of r] False assms(4)
        by (auto intro: less_le_trans power_increasing)
      then show "vval l + vval r < 2 ^ Suc ?n" by simp
      show "0 \<le> vval l + vval r"
        using vval_unsigned_range [of l] vval_unsigned_range [of r] False assms(4) by simp
    qed
    then have "uval (if t \<noteq> V0 then vs @ [t] else vs) = vval l + vval r"
      using f by (intro unsigned_grow) auto
    then show ?thesis using False assms(3,4) d s a f vs
      by (auto simp: op_add_def Let_def proper_def vval_def t_def split: prod.splits)
  qed
qed

lemma sub_facts:
  assumes "proper l" "proper r" "sign_bit l = Some ls" "sign_bit r = Some rs"
    "add_loops (vbits l) (map V_not (vbits r)) ls (V_not rs) V1 = (vs, c1)"
    "n = max (len l) (len r)"
  shows "length vs = n" "list_all known vs" "known (fst (add_with_carry ls (V_not rs) c1))"
    "uval vs = (vval l - vval r) mod 2 ^ n"
    "uval (vs @ [fst (add_with_carry ls (V_not rs) c1)]) = (vval l - vval r) mod 2 ^ Suc n"
proof -
  have d: "is_defined l" "is_defined r" using assms by (auto simp: proper_def)
  have k: "known ls" "known (V_not rs)"
    using sign_bit_known [OF d(1) assms(3)] sign_bit_known [OF d(2) assms(4)] by auto
  have k2: "list_all known (padded (map V_not (vbits r)) (V_not rs) n)"
    using known_not [OF padded_known [OF d(2) assms(4)], of n] by simp
  have n: "n = max (length (vbits l)) (length (map V_not (vbits r)))" using assms(6) by simp
  note f = loops_facts [OF assms(5) n padded_known [OF d(1) assms(3)] k2 k(1) k(2) disjI2 [OF refl],
      of "vval l" "- 1 - vval r"]
  have v: "\<And>m. n \<le> m \<Longrightarrow> uval (padded (vbits l) ls m) = vval l mod 2 ^ m"
    "\<And>m. n \<le> m \<Longrightarrow> uval (padded (map V_not (vbits r)) (V_not rs) m) = (- 1 - vval r) mod 2 ^ m"
    using padded_value [OF assms(3)] padded_not_value [OF d(2) assms(4)] assms(6) by auto
  show "length vs = n" "list_all known vs" "known (fst (add_with_carry ls (V_not rs) c1))"
    "uval vs = (vval l - vval r) mod 2 ^ n"
    "uval (vs @ [fst (add_with_carry ls (V_not rs) c1)]) = (vval l - vval r) mod 2 ^ Suc n"
    using f [OF v] by auto
qed

lemma op_sub_modular:
  assumes "proper l" "proper r" "\<not> (has_sign l \<and> has_sign r) \<or> (has_len l \<and> has_len r)"
  shows "\<exists>c. op_sub l r = Some c \<and> len c = max (len l) (len r) \<and>
    has_len c = (has_len l \<and> has_len r) \<and> has_sign c = (has_sign l \<and> has_sign r) \<and> proper c \<and>
    uval (vbits c) = (vval l - vval r) mod 2 ^ max (len l) (len r)"
proof -
  obtain ls rs where s: "sign_bit l = Some ls" "sign_bit r = Some rs"
    using proper_sign_bit assms(1,2) by blast
  obtain vs c1 where a: "add_loops (vbits l) (map V_not (vbits r)) ls (V_not rs) V1 = (vs, c1)"
    by (meson surj_pair)
  note f = sub_facts [OF assms(1,2) s a refl]
  have d: "is_defined l" "is_defined r" "0 < max (len l) (len r)" using proper_max assms by auto
  show ?thesis using d s a f assms(3)
    by (auto simp: op_sub_def Let_def proper_def split: prod.splits)
qed

lemma op_sub_signed_unsized:
  assumes "proper l" "proper r" "has_sign l" "has_sign r" "\<not> (has_len l \<and> has_len r)"
  shows "\<exists>c. op_sub l r = Some c \<and> \<not> has_len c \<and> has_sign c \<and> proper c \<and>
    vval c = vval l - vval r"
proof -
  let ?n = "max (len l) (len r)"
  obtain ls rs where s: "sign_bit l = Some ls" "sign_bit r = Some rs"
    using proper_sign_bit assms(1,2) by blast
  obtain vs c1 where a: "add_loops (vbits l) (map V_not (vbits r)) ls (V_not rs) V1 = (vs, c1)"
    by (meson surj_pair)
  define t where "t = fst (add_with_carry ls (V_not rs) c1)"
  note f = sub_facts [OF assms(1,2) s a refl, folded t_def]
  have d: "is_defined l" "is_defined r" "0 < ?n" using proper_max assms by auto
  have vs: "vs \<noteq> []" using f(1) d(3) by auto
  have "in_signed (Suc ?n) (vval l - vval r)"
    using vval_signed_range [of l] vval_signed_range [of r] assms
    by (intro in_signed_sub) (auto elim: in_signed_mono)
  then have "sval (if t \<noteq> vs ! (?n - 1) then vs @ [t] else vs) = vval l - vval r"
    using signed_grow [OF vs, of "vval l - vval r" t] f by simp
  then show ?thesis using assms(3-5) d s a f vs
    by (auto simp: op_sub_def Let_def proper_def vval_def t_def split: prod.splits)
qed


lemma neg_facts:
  assumes "proper r" "ripple add_with_carry (replicate (len r) V0) (map V_not (vbits r)) V1 = (vs, c1)"
  shows "length vs = len r" "list_all known vs" "uval vs = (- vval r) mod 2 ^ len r"
    "sign_bit r = Some s \<Longrightarrow> known (fst (add_with_carry V0 (V_not s) c1)) \<and>
       uval (vs @ [fst (add_with_carry V0 (V_not s) c1)]) = (- vval r) mod 2 ^ Suc (len r)"
proof -
  have d: "is_defined r" "list_all known (map V_not (vbits r))"
    using assms(1) known_not by (auto simp: proper_def is_defined_known)
  obtain s0 where s0: "sign_bit r = Some s0" using proper_sign_bit assms(1) by blast
  show len: "length vs = len r"
    using ripple_length [of "replicate (len r) V0" "map V_not (vbits r)" add_with_carry V1] assms(2) by simp
  have k: "list_all known vs \<and> known c1"
    using vripple_known [of "replicate (len r) V0" "map V_not (vbits r)" V1] d assms(2) by simp
  then show "list_all known vs" by simp
  have "uval vs = (0 + (- 1 - vval r) + bitv V1) mod 2 ^ len r"
    using ripple_sum [of "replicate (len r) V0" "len r" "map V_not (vbits r)" V1 0 "- 1 - vval r"]
      padded_not_value [OF d(1) s0, of "len r"] d assms(2) by simp
  then show "uval vs = (- vval r) mod 2 ^ len r" by simp
  assume s: "sign_bit r = Some s"
  have ks: "known s" by (rule sign_bit_known [OF d(1) s])
  have r: "ripple add_with_carry (replicate (len r) V0 @ [V0]) (map V_not (vbits r) @ [V_not s]) V1 =
      (vs @ [fst (add_with_carry V0 (V_not s) c1)], snd (add_with_carry V0 (V_not s) c1))"
    using assms(2) by (simp add: ripple_append split: prod.splits)
  have u: "uval (map V_not (vbits r) @ [V_not s]) = (- 1 - vval r) mod 2 ^ Suc (len r)"
    using padded_not_value [OF d(1) s, of "Suc (len r)"] by simp
  have "uval (vs @ [fst (add_with_carry V0 (V_not s) c1)]) =
      (0 + (- 1 - vval r) + bitv V1) mod 2 ^ Suc (len r)"
    using ripple_sum [of "replicate (len r) V0 @ [V0]" "Suc (len r)" "map V_not (vbits r) @ [V_not s]" V1 0
        "- 1 - vval r"] u d(2) r ks by (auto simp: uval_append)
  moreover have "known (fst (add_with_carry V0 (V_not s) c1))"
    using vadd.addc_ok [of V0 "V_not s" c1] k ks by (metis V_not.simps(1,2) prod.collapse)
  ultimately show "known (fst (add_with_carry V0 (V_not s) c1)) \<and>
      uval (vs @ [fst (add_with_carry V0 (V_not s) c1)]) = (- vval r) mod 2 ^ Suc (len r)" by simp
qed

lemma op_neg_modular:
  assumes "proper r" "\<not> has_sign r \<or> has_len r"
  shows "\<exists>c. op_neg r = Some c \<and> len c = len r \<and> has_len c = has_len r \<and>
    has_sign c = has_sign r \<and> proper c \<and> uval (vbits c) = (- vval r) mod 2 ^ len r"
proof -
  obtain vs c1 where a: "ripple add_with_carry (replicate (len r) V0) (map V_not (vbits r)) V1 = (vs, c1)"
    by (meson surj_pair)
  show ?thesis using neg_facts(1-3) [OF assms(1) a] a assms
    by (auto simp: op_neg_def Let_def proper_def)
qed

lemma op_neg_signed_unsized:
  assumes "proper r" "has_sign r" "\<not> has_len r"
  shows "\<exists>c. op_neg r = Some c \<and> len r \<le> len c \<and> \<not> has_len c \<and> has_sign c \<and> proper c \<and>
    vval c = - vval r"
proof -
  obtain s where s: "sign_bit r = Some s" using proper_sign_bit assms(1) by blast
  obtain vs c1 where a: "ripple add_with_carry (replicate (len r) V0) (map V_not (vbits r)) V1 = (vs, c1)"
    by (meson surj_pair)
  define t where "t = fst (add_with_carry V0 (V_not s) c1)"
  have f: "length vs = len r" "list_all known vs" "known t"
    "uval (vs @ [t]) = (- vval r) mod 2 ^ Suc (len r)"
    using neg_facts [OF assms(1) a] s by (auto simp: t_def)
  have vs: "vs \<noteq> []" using f(1) assms(1) by (auto simp: proper_def)
  have "in_signed (Suc (len r)) (- vval r)"
    using vval_signed_range [OF assms(1,2)] by (auto simp: in_signed_def)
  then have "sval (if t \<noteq> vs ! (len r - 1) then vs @ [t] else vs) = - vval r"
    using signed_grow [OF vs, of "- vval r" t] f by simp
  then show ?thesis using assms s a f vs
    by (auto simp: op_neg_def Let_def proper_def vval_def t_def)
qed

section \<open>Meaning of the comparisons\<close>

lemma uval_bit_le: "i < length bs \<Longrightarrow> bs ! i = V1 \<Longrightarrow> 2 ^ i \<le> uval bs"
proof -
  assume "i < length bs" "bs ! i = V1"
  then have "uval bs = uval (take i bs) + 2 ^ i * (1 + 2 * uval (drop (Suc i) bs))"
    by (subst id_take_nth_drop [of i bs]) (simp_all add: uval_append min_def)
  moreover have "2 ^ i * 1 \<le> 2 ^ i * (1 + 2 * uval (drop (Suc i) bs))"
    by (intro mult_left_mono) auto
  ultimately show ?thesis by (metis add_increasing mult.right_neutral uval_nonneg)
qed

lemma uval_bit_ge:
  assumes "list_all known bs" "i < length bs" "bs ! i \<noteq> V1"
  shows "uval bs < 2 ^ length bs - 2 ^ i"
proof -
  have "bs ! i = V0" using assms list_all_nthD by blast
  then have "2 ^ i \<le> uval (map V_not bs)" using assms(2) by (intro uval_bit_le) auto
  then show ?thesis using uval_not [OF assms(1)] by simp
qed

lemma cmp_loop_value:
  "list_all known l \<Longrightarrow> list_all known r \<Longrightarrow> m \<le> length l \<Longrightarrow> m \<le> length r \<Longrightarrow>
   cmp_loop e l r m = (if uval (take m l) < uval (take m r) then V1
     else if uval (take m r) < uval (take m l) then V0 else e)"
proof (induction m)
  case (Suc m)
  have k: "known (l ! m)" "known (r ! m)"
    using list_all_nthD [OF Suc.prems(1), of m] list_all_nthD [OF Suc.prems(2), of m] Suc.prems by auto
  have t: "uval (take (Suc m) l) = uval (take m l) + 2 ^ m * bitv (l ! m)"
    "uval (take (Suc m) r) = uval (take m r) + 2 ^ m * bitv (r ! m)"
    using Suc.prems by (simp_all add: take_Suc_conv_app_nth uval_append)
  have b: "uval (take m l) < 2 ^ m" "uval (take m r) < 2 ^ m"
    using uval_less [of "take m l"] uval_less [of "take m r"] Suc.prems by auto
  have c: "V0 < V1" "\<not> V1 < V0" by (simp_all add: less_V_def)
  note nn = uval_nonneg [of "take m l"] uval_nonneg [of "take m r"]
  consider "l ! m = r ! m" | "l ! m = V0" "r ! m = V1" | "l ! m = V1" "r ! m = V0" using k by auto
  then show ?case
  proof cases
    case 1
    then show ?thesis using Suc k t by auto
  next
    case 2
    then have "uval (take (Suc m) l) < uval (take (Suc m) r)"
      using t b nn by (simp only: bitv_simps)
    with 2 c show ?thesis by simp
  next
    case 3
    then have "uval (take (Suc m) r) < uval (take (Suc m) l)"
      using t b nn by (simp only: bitv_simps)
    with 3 c show ?thesis by simp
  qed
qed simp


lemma uval_top_ones:
  assumes "m \<le> length bs" "\<And>j. m \<le> j \<Longrightarrow> j < length bs \<Longrightarrow> bs ! j = V1"
  shows "uval bs - 2 ^ length bs = uval (take m bs) - 2 ^ m"
proof -
  have "drop m bs = replicate (length bs - m) V1"
    by (rule nth_equalityI) (use assms in auto)
  then have "uval bs = uval (take m bs) + 2 ^ m * (2 ^ (length bs - m) - 1)"
    using assms(1) by (metis append_take_drop_id length_take min.absorb2 uval_append uval_replicate(2))
  moreover have "(2 :: int) ^ length bs = 2 ^ m * 2 ^ (length bs - m)"
    using assms(1) by (simp flip: power_add)
  ultimately show ?thesis by (simp add: algebra_simps)
qed

definition verdict :: "V \<Rightarrow> int \<Rightarrow> int \<Rightarrow> V" where
  "verdict e x y = (if x < y then V1 else if y < x then V0 else e)"

lemma cmp_padded_unsigned:
  assumes "list_all known l" "list_all known r"
  shows "cmp_padded e s V0 V0 l r = verdict e (uval l) (uval r)"
proof -
  let ?m = "min (length l) (length r)"
  have longer: "uval b < uval a" if "\<exists>idx \<in> set [length b..<length a]. a ! idx \<noteq> V0" "list_all known a" for a b
  proof -
    from that(1) obtain i where i: "length b \<le> i" "i < length a" "a ! i \<noteq> V0" by auto
    with list_all_nthD [OF that(2) i(2)] have i1: "a ! i = V1" by simp
    have "uval b < 2 ^ length b" by (rule uval_less)
    also have "\<dots> \<le> 2 ^ i" using i(1) by simp
    also have "\<dots> \<le> uval a" by (rule uval_bit_le [OF i(2) i1])
    finally show ?thesis .
  qed
  show ?thesis
  proof (cases "list_ex (\<lambda>idx. l ! idx \<noteq> V0) [length r..<length l]")
    case True
    then have "uval r < uval l" using longer assms(1) by (simp add: list_ex_iff)
    with True show ?thesis by (simp add: cmp_padded_def verdict_def)
  next
    case L: False
    show ?thesis
    proof (cases "list_ex (\<lambda>idx. r ! idx \<noteq> V0) [length l..<length r]")
      case True
      then have "uval l < uval r" using longer assms(2) by (simp add: list_ex_iff)
      with True L show ?thesis by (simp add: cmp_padded_def verdict_def)
    next
      case R: False
      have "uval (take ?m l) = uval l" "uval (take ?m r) = uval r"
        using L R by (auto intro!: uval_top_zeros simp: list_ex_iff min_def split: if_splits)
      with L R cmp_loop_value [OF assms, of ?m e] show ?thesis
        by (simp add: cmp_padded_def verdict_def)
    qed
  qed
qed

lemma cmp_padded_negative:
  assumes "list_all known l" "list_all known r" "l \<noteq> []" "r \<noteq> []" "last l = V1" "last r = V1"
  shows "cmp_padded e True V1 V1 l r = verdict e (sval l) (sval r)"
proof -
  let ?m = "min (length l) (length r)"
  have neg: "sval l = uval l - 2 ^ length l" "sval r = uval r - 2 ^ length r"
    using assms by (simp_all add: sval_def)
  have shorter: "uval a - 2 ^ length a < uval b - 2 ^ length b"
    if "\<exists>idx \<in> set [length b..<length a]. a ! idx \<noteq> V1" "list_all known a" for a b
  proof -
    from that obtain i where i: "length b \<le> i" "i < length a" "a ! i \<noteq> V1" by auto
    have "uval a - 2 ^ length a < - (2 ^ i)" using uval_bit_ge [OF that(2) i(2,3)] by simp
    also have "\<dots> \<le> - (2 ^ length b)" using i(1) by simp
    also have "\<dots> \<le> uval b - 2 ^ length b" by simp
    finally show ?thesis .
  qed
  show ?thesis
  proof (cases "list_ex (\<lambda>idx. l ! idx \<noteq> V1) [length r..<length l]")
    case True
    then have "sval l < sval r" using shorter assms(1) neg by (simp add: list_ex_iff)
    with True show ?thesis by (simp add: cmp_padded_def verdict_def)
  next
    case L: False
    show ?thesis
    proof (cases "list_ex (\<lambda>idx. r ! idx \<noteq> V1) [length l..<length r]")
      case True
      then have "sval r < sval l" using shorter assms(2) neg by (simp add: list_ex_iff)
      with True L show ?thesis by (simp add: cmp_padded_def verdict_def)
    next
      case R: False
      have "sval l = uval (take ?m l) - 2 ^ ?m" "sval r = uval (take ?m r) - 2 ^ ?m"
        unfolding neg using L R
        by (auto intro!: uval_top_ones simp: list_ex_iff min_def split: if_splits)
      with L R cmp_loop_value [OF assms(1,2), of ?m e] show ?thesis
        by (simp add: cmp_padded_def verdict_def)
    qed
  qed
qed

text \<open>The value compared: signed when both operands are, otherwise the plain bits.\<close>

definition cmp_val :: "verinum \<Rightarrow> verinum \<Rightarrow> verinum \<Rightarrow> int" where
  "cmp_val l r v = (if has_sign l \<and> has_sign r then sval (vbits v) else uval (vbits v))"

lemma get_top: "proper v \<Longrightarrow> get v (len v - 1) = Some (last (vbits v))"
  by (cases "vbits v = []") (auto simp: proper_def get_def last_conv_nth)

lemma last_known: "proper v \<Longrightarrow> known (last (vbits v))"
  using list_all_nthD [of known "vbits v" "len v - 1"]
  by (auto simp: proper_def is_defined_known last_conv_nth)

lemma op_cmp_value:
  assumes "proper l" "proper r"
  shows "op_cmp e l r = Some (verdict e (cmp_val l r l) (cmp_val l r r))"
proof (cases "has_sign l \<and> has_sign r")
  case True
  let ?l = "vbits l" and ?r = "vbits r"
  have k: "list_all known ?l" "list_all known ?r" "?l \<noteq> []" "?r \<noteq> []"
    using assms by (auto simp: proper_def is_defined_known)
  have c: "cmp_val l r l = sval ?l" "cmp_val l r r = sval ?r" using True by (simp_all add: cmp_val_def)
  have sv: "last ?l = V0 \<Longrightarrow> sval ?l = uval ?l" "last ?r = V0 \<Longrightarrow> sval ?r = uval ?r"
    by (simp_all add: sval_def)
  have ng: "last ?l = V1 \<Longrightarrow> sval ?l < 0" "last ?r = V1 \<Longrightarrow> sval ?r < 0"
    using k sval_last by auto
  have o: "op_cmp e l r = Some (if last ?l = V1 \<and> last ?r = V0 then V1
      else if last ?l = V0 \<and> last ?r = V1 then V0 else cmp_padded e True (last ?l) (last ?r) ?l ?r)"
    using True get_top assms by (simp add: op_cmp_def)
  consider "last ?l = V0" "last ?r = V0" | "last ?l = V1" "last ?r = V1"
    | "last ?l = V1" "last ?r = V0" | "last ?l = V0" "last ?r = V1"
    using last_known assms by blast
  then show ?thesis
  proof cases
    case 1
    then show ?thesis using o c sv cmp_padded_unsigned [OF k(1,2)] by simp
  next
    case 2
    then show ?thesis using o c cmp_padded_negative [OF k] by simp
  next
    case 3
    then have "sval ?l < sval ?r" using ng(1) sv(2) uval_nonneg [of ?r] by linarith
    then show ?thesis using 3 o c by (simp add: verdict_def)
  next
    case 4
    then have "sval ?r < sval ?l" using ng(2) sv(1) uval_nonneg [of ?l] by linarith
    then show ?thesis using 4 o c by (simp add: verdict_def)
  qed
next
  case False
  then show ?thesis
    using assms cmp_padded_unsigned [of "vbits l" "vbits r"]
    by (auto simp: op_cmp_def cmp_val_def proper_def is_defined_known)
qed

end
