(* ===== verification/Verinum_Div.thy ===== *)
theory Verinum_Div
  imports Verinum_Arith
begin

text \<open>
  Division and modulus of the compiler's numbers (verinum.cc): the long division loops, the
  native fast paths with the machine's own division, and the meaning of multiplication, the
  shifts, division and modulus on the integers the numbers denote.
\<close>

section \<open>Long division\<close>

text \<open>The scan \<^verbatim>\<open>while (wid > 0 && (v.get(wid-1) == V0)) wid -= 1\<close>.\<close>

fun strip_top :: "V list \<Rightarrow> nat \<Rightarrow> nat" where
  "strip_top bs 0 = 0"
| "strip_top bs (Suc n) = (if bs ! n = V0 then strip_top bs n else Suc n)"

text \<open>The loop shared by \<open>unsigned_divide\<close> and \<open>unsigned_modulus\<close>; the modulus has no result
  bits. The C++ test \<^verbatim>\<open>if (den <= num)\<close> takes every bit value but \<open>V0\<close> as true.\<close>

fun div_loop :: "nat \<Rightarrow> verinum \<Rightarrow> verinum \<Rightarrow> V list \<Rightarrow> (verinum \<times> V list) option" where
  "div_loop 0 num den res = Some (num, res)"
| "div_loop (Suc i) num den res =
     do { c \<leftarrow> op_le den num;
          num' \<leftarrow> (if c \<noteq> V0 then op_sub num den else Some num);
          den' \<leftarrow> op_shr den 1;
          div_loop i num' den' (if c \<noteq> V0 then res[i := V1] else res) }"

declare div_loop.simps [simp del]

definition unsigned_divide :: "verinum \<Rightarrow> verinum \<Rightarrow> bool \<Rightarrow> verinum option" where
  "unsigned_divide num0 den0 signed_result =
     (let num = num0\<lparr>has_len := False\<rparr>; den = den0\<lparr>has_len := False\<rparr>;
          nwid = strip_top (vbits num) (len num);
          dwid = strip_top (vbits den) (len den)
      in if dwid > nwid then Some (verinum_fill V0 1 True)
         else let idx = nwid - dwid + 1
              in do { (_, bs) \<leftarrow> div_loop idx num (op_shl den (nwid - dwid))
                               (replicate (if signed_result then idx + 1 else idx) V0);
                      Some (mk_vnum bs True signed_result) })"

definition unsigned_modulus :: "verinum \<Rightarrow> verinum \<Rightarrow> verinum option" where
  "unsigned_modulus num0 den0 =
     (let num = num0\<lparr>has_len := False\<rparr>; den = den0\<lparr>has_len := False\<rparr>;
          nwid = strip_top (vbits num) (len num);
          dwid = strip_top (vbits den) (len den)
      in if dwid > nwid then Some num
         else do { (m, _) \<leftarrow> div_loop (nwid - dwid + 1) num (op_shl den (nwid - dwid)) [];
                   Some m })"

section \<open>Division and modulus\<close>

text \<open>C++ integer division rounds towards zero; the remainder has the sign of the dividend.\<close>

definition tdiv :: "int \<Rightarrow> int \<Rightarrow> int" where
  "tdiv a b = sgn a * sgn b * (\<bar>a\<bar> div \<bar>b\<bar>)"

definition tmod :: "int \<Rightarrow> int \<Rightarrow> int" where
  "tmod a b = sgn a * (\<bar>a\<bar> mod \<bar>b\<bar>)"

definition LONG_MIN :: int where
  "LONG_MIN = - (2 ^ 63)"

text \<open>The magnitude of an operand of a wide signed division, as an unsigned number.\<close>

definition magnitude :: "verinum \<Rightarrow> (verinum \<times> bool) option" where
  "magnitude v = do { neg \<leftarrow> is_negative v;
     m \<leftarrow> (if neg then op_neg v else Some v);
     Some (m\<lparr>has_sign := False\<rparr>, neg) }"

text \<open>The quotient before it is cast to the width of the result. A machine division by zero
  traps.\<close>

definition div_core :: "verinum \<Rightarrow> verinum \<Rightarrow> verinum option" where
  "div_core left right =
     (let has_len_flag = has_len left \<and> has_len right;
          signed_flag = has_sign left \<and> has_sign right;
          use_len = len left
      in if signed_flag
         then (if use_len \<le> 63
               then (let l = sint (as_long left); r = sint (as_long right)
                     in if r = 0 then None
                        else let v = (if l = LONG_MIN \<and> r = - 1 then LONG_MIN else tdiv l r)
                             in Some (mk_vnum (int_bits use_len v) has_len_flag False))
               else do { (use_left, nl) \<leftarrow> magnitude left; (use_right, nr) \<leftarrow> magnitude right;
                         q \<leftarrow> unsigned_divide use_left use_right True;
                         if nl \<noteq> nr then op_neg q else Some q })
         else (if use_len \<le> 64
               then (let l = uint (as_ulong left); r = uint (as_ulong right)
                     in if r = 0 then None
                        else Some (mk_vnum (int_bits use_len (l div r)) has_len_flag False))
               else unsigned_divide left right False))"

definition mod_core :: "verinum \<Rightarrow> verinum \<Rightarrow> verinum option" where
  "mod_core left right =
     (let has_len_flag = has_len left \<and> has_len right;
          signed_flag = has_sign left \<and> has_sign right;
          use_len = len left
      in if signed_flag
         then (if use_len \<le> 64
               then (let l = sint (as_long left); r = sint (as_long right)
                     in if r = 0 then None
                        else let v = (if l = LONG_MIN \<and> r = - 1 then 0 else tmod l r)
                             in Some (mk_vnum (int_bits use_len v) has_len_flag False))
               else do { (use_left, nl) \<leftarrow> magnitude left; (use_right, _) \<leftarrow> magnitude right;
                         m \<leftarrow> unsigned_modulus use_left use_right;
                         if nl then op_neg m else Some m })
         else (if use_len \<le> 64
               then (let l = uint (as_ulong left); r = uint (as_ulong right)
                     in if r = 0 then None
                        else Some (mk_vnum (int_bits use_len (l mod r)) has_len_flag False))
               else unsigned_modulus left right))"

text \<open>The common frame of both operators: undefined operands or a zero divisor, then the cast
  to the width of the left operand, the sign flag and the trim.\<close>

definition div_frame :: "(verinum \<Rightarrow> verinum \<Rightarrow> verinum option) \<Rightarrow> verinum \<Rightarrow> verinum \<Rightarrow> verinum option" where
  "div_frame core left right =
     (let has_len_flag = has_len left \<and> has_len right;
          signed_flag = has_sign left \<and> has_sign right;
          use_len = len left
      in if \<not> is_defined left \<or> \<not> is_defined right \<or> is_zero right
         then Some (mk_vnum (replicate use_len Vx) has_len_flag signed_flag)
         else do {
           result \<leftarrow> core left right;
           sized \<leftarrow> (if has_len_flag then cast_to_width result use_len else Some result);
           Some (trim_vnum (sized\<lparr>has_sign := signed_flag\<rparr>)) })"

definition op_div :: "verinum \<Rightarrow> verinum \<Rightarrow> verinum option" where
  "op_div left right = div_frame div_core left right"

definition op_mod :: "verinum \<Rightarrow> verinum \<Rightarrow> verinum option" where
  "op_mod left right = div_frame mod_core left right"

section \<open>Meaning of multiplication\<close>

lemma ext_bit_known: "is_defined v \<Longrightarrow> sign_bit v = Some s \<Longrightarrow> known (ext_bit (vbits v) s i)"
  using sign_bit_known [of v s] list_all_nthD [of known "vbits v" i]
  by (simp add: ext_bit_def is_defined_known)

lemma ext_bit_map: "map (ext_bit bs p) [0..<k] = take k (bs @ replicate (k - length bs) p)"
  by (rule nth_equalityI) (auto simp: ext_bit_def nth_append)

lemma ext_bit_value:
  assumes "sign_bit v = Some s"
  shows "uval (map (ext_bit (vbits v) s) [0..<k]) = vval v mod 2 ^ k"
proof -
  have "uval (map (ext_bit (vbits v) s) [0..<k]) =
      (vval v mod 2 ^ (len v + (k - len v))) mod 2 ^ k"
    by (simp add: ext_bit_map uval_take uval_extend [OF assms] del: take_append)
  also have "\<dots> = vval v mod 2 ^ k" by (intro mod_mod_cancel le_imp_power_dvd) simp
  finally show ?thesis .
qed

lemma mul_inner_length: "rdx \<le> length res \<Longrightarrow> length (mul_inner l s rdx res) = length res"
  by (simp add: mul_inner_def ripple_length)

lemma ext_bits_known:
  "is_defined v \<Longrightarrow> sign_bit v = Some s \<Longrightarrow> list_all known (map (ext_bit (vbits v) s) ks)"
  using ext_bit_known by (induction ks) auto

lemma mul_inner_known:
  assumes "is_defined v" "sign_bit v = Some s" "list_all known res" "rdx \<le> length res"
  shows "list_all known (mul_inner (vbits v) s rdx res)"
proof -
  let ?A = "map (ext_bit (vbits v) s) [0..<length res - rdx]"
  have "list_all known (fst (ripple add_with_carry ?A (drop rdx res) V0))"
    using vripple_known [of ?A "drop rdx res" V0] ext_bits_known [OF assms(1,2)] assms(3)
    by (simp add: list_all_drop)
  then show ?thesis using assms(3) by (simp add: mul_inner_def list_all_take)
qed

lemma mul_inner_value:
  assumes "is_defined v" "sign_bit v = Some s" "list_all known res" "rdx \<le> length res"
  shows "uval (mul_inner (vbits v) s rdx res) = (uval res + 2 ^ rdx * vval v) mod 2 ^ length res"
proof -
  let ?k = "length res - rdx"
  let ?A = "map (ext_bit (vbits v) s) [0..<?k]" and ?B = "drop rdx res"
  have k: "list_all known ?A" "list_all known ?B"
    using ext_bits_known [OF assms(1,2)] assms(3) by (auto simp: list_all_drop)
  have "uval ?B = uval ?B mod 2 ^ ?k" using uval_less [of ?B] by simp
  then have "uval (fst (ripple add_with_carry ?A ?B V0)) = (vval v + uval ?B + bitv V0) mod 2 ^ ?k"
    using ripple_sum [of ?A ?k ?B V0 "vval v" "uval ?B"] k ext_bit_value [OF assms(2)] by simp
  then have "uval (mul_inner (vbits v) s rdx res) =
      uval (take rdx res) + 2 ^ rdx * ((vval v + uval ?B) mod 2 ^ ?k)"
    using assms(4) by (simp add: mul_inner_def uval_append min_def)
  also have "\<dots> = (uval (take rdx res) + 2 ^ rdx * (vval v + uval ?B)) mod 2 ^ length res"
    using uval_less [of "take rdx res"] assms(4) by (intro mod_low_high) auto
  also have "uval (take rdx res) + 2 ^ rdx * (vval v + uval ?B) = uval res + 2 ^ rdx * vval v"
    using uval_append [of "take rdx res" ?B] assms(4) by (simp add: algebra_simps min_def)
  finally show ?thesis .
qed

lemma mul_outer_facts:
  assumes "is_defined v" "sign_bit v = Some s" "\<And>i. known (ext_bit r rs i)"
  shows "list_all known res \<Longrightarrow> (\<And>i. i \<in> set ks \<Longrightarrow> i \<le> length res) \<Longrightarrow>
    length (mul_outer (vbits v) s r rs ks res) = length res \<and>
    list_all known (mul_outer (vbits v) s r rs ks res) \<and>
    uval (mul_outer (vbits v) s r rs ks res) =
      (uval res + vval v * (\<Sum>i\<leftarrow>ks. 2 ^ i * bitv (ext_bit r rs i))) mod 2 ^ length res"
proof (induction ks arbitrary: res)
  case Nil
  then show ?case using uval_less [of res] by simp
next
  case (Cons k ks)
  have kle: "k \<le> length res" using Cons.prems(2) by simp
  define res' where "res' = (if ext_bit r rs k = V0 then res else mul_inner (vbits v) s k res)"
  have len: "length res' = length res"
    using mul_inner_length [OF kle] by (simp add: res'_def)
  have kn: "list_all known res'"
    using mul_inner_known [OF assms(1,2) Cons.prems(1) kle] Cons.prems(1) by (simp add: res'_def)
  have v: "uval res' = (uval res + vval v * (2 ^ k * bitv (ext_bit r rs k))) mod 2 ^ length res"
    using mul_inner_value [OF assms(1,2) Cons.prems(1) kle] assms(3) [of k] uval_less [of res]
    by (auto simp: res'_def mult.commute)
  note IH = Cons.IH [OF kn, unfolded len]
  have "uval (mul_outer (vbits v) s r rs ks res') =
      (uval res' + vval v * (\<Sum>i\<leftarrow>ks. 2 ^ i * bitv (ext_bit r rs i))) mod 2 ^ length res"
    using IH Cons.prems(2) by simp
  also have "\<dots> = (uval res + vval v * (2 ^ k * bitv (ext_bit r rs k)) +
      vval v * (\<Sum>i\<leftarrow>ks. 2 ^ i * bitv (ext_bit r rs i))) mod 2 ^ length res"
    unfolding v by (rule mod_add_left_eq)
  finally show ?case using IH Cons.prems(2) by (simp add: res'_def [symmetric] algebra_simps)
qed

lemma uval_sum: "uval (map f [0..<n]) = (\<Sum>i\<leftarrow>[0..<n]. 2 ^ i * bitv (f i))"
  by (induction n) (simp_all add: uval_append)

lemma mul_outer_value:
  fixes n :: nat
  assumes "is_defined l" "is_defined r" "sign_bit l = Some ls" "sign_bit r = Some rs"
  defines "m \<equiv> mul_outer (vbits l) ls (vbits r) rs [0..<n] (replicate n V0)"
  shows "length m = n" "list_all known m" "uval m = (vval l * vval r) mod 2 ^ n"
proof -
  have f: "length m = n \<and> list_all known m \<and>
      uval m = (0 + vval l * (\<Sum>i\<leftarrow>[0..<n]. 2 ^ i * bitv (ext_bit (vbits r) rs i))) mod 2 ^ n"
    using mul_outer_facts [OF assms(1,3) ext_bit_known [OF assms(2,4)], of "replicate n V0" "[0..<n]"]
    by (simp add: m_def)
  then show "length m = n" "list_all known m" by simp_all
  have "uval m = (vval l * (vval r mod 2 ^ n)) mod 2 ^ n"
    using f by (simp add: uval_sum [symmetric] ext_bit_value [OF assms(4)])
  then show "uval m = (vval l * vval r) mod 2 ^ n" by (simp add: mod_mult_right_eq)
qed


lemma op_mul_mod:
  assumes "proper l" "proper r"
  defines "h \<equiv> has_len l \<and> has_len r"
  defines "n \<equiv> (if h then max (len l) (len r) else len l + len r)"
  shows "\<exists>bs. op_mul l r = Some (trim_vnum (mk_vnum bs h (has_sign l \<and> has_sign r))) \<and>
    length bs = n \<and> list_all known bs \<and> uval bs = (vval l * vval r) mod 2 ^ n"
proof -
  obtain ls rs where s: "sign_bit l = Some ls" "sign_bit r = Some rs"
    using proper_sign_bit assms(1,2) by blast
  have d: "is_defined l" "is_defined r" using assms by (auto simp: proper_def)
  let ?any = "list_ex (\<lambda>rdx. ext_bit (vbits r) rs rdx \<noteq> V0) [0..<n]"
  define ls' where "ls' = (if ?any then ls else V0)"
  let ?m = "mul_outer (vbits l) ls' (vbits r) rs [0..<n] (replicate n V0)"
  have skip: "(\<And>i. i \<in> set ks \<Longrightarrow> ext_bit (vbits r) rs i = V0) \<Longrightarrow>
      mul_outer (vbits l) p (vbits r) rs ks res = res" for ks p res
    by (induction ks) auto
  have "?m = mul_outer (vbits l) ls (vbits r) rs [0..<n] (replicate n V0)"
    using skip [of "[0..<n]"] by (auto simp: ls'_def list_ex_iff)
  then have m: "length ?m = n" "list_all known ?m" "uval ?m = (vval l * vval r) mod 2 ^ n"
    using mul_outer_value [OF d s, of n] by simp_all
  have "op_mul l r = Some (trim_vnum (mk_vnum ?m h (has_sign l \<and> has_sign r)))"
    using d s by (simp add: op_mul_def Let_def ls'_def h_def [symmetric] n_def [symmetric])
  with m show ?thesis by blast
qed

lemma op_mul_sized:
  assumes "proper l" "proper r" "has_len l" "has_len r"
  shows "\<exists>c. op_mul l r = Some c \<and> len c = max (len l) (len r) \<and> has_len c \<and>
    has_sign c = (has_sign l \<and> has_sign r) \<and> proper c \<and>
    uval (vbits c) = (vval l * vval r) mod 2 ^ max (len l) (len r)"
  using op_mul_mod [OF assms(1,2)] assms proper_max [OF assms(1,2)]
  by (auto simp: trim_vnum_flags proper_def)

lemma trim_proper: "list_all known bs \<Longrightarrow> 0 < length bs \<Longrightarrow> proper (trim_vnum (mk_vnum bs h s))"
  using trim_vnum_defined [of "mk_vnum bs h s"] trim_vnum_len [of "mk_vnum bs h s"]
  by (simp add: proper_def)

lemma op_mul_unsized:
  assumes "proper l" "proper r" "\<not> (has_len l \<and> has_len r)" "has_sign l = has_sign r"
  shows "\<exists>c. op_mul l r = Some c \<and> \<not> has_len c \<and> has_sign c = has_sign l \<and> proper c \<and>
    vval c = vval l * vval r"
proof -
  obtain bs where b: "op_mul l r = Some (trim_vnum (mk_vnum bs False (has_sign l)))"
      "length bs = len l + len r" "list_all known bs"
      "uval bs = (vval l * vval r) mod 2 ^ (len l + len r)"
    using op_mul_mod [OF assms(1,2)] assms(3,4) by auto
  have pos: "0 < len l" "0 < len r" using assms by (auto simp: proper_def)
  have "vval (mk_vnum bs False (has_sign l)) = vval l * vval r"
  proof (cases "has_sign l")
    case True
    then have "in_signed (len l + len r) (vval l * vval r)"
      using vval_signed_range assms pos by (intro in_signed_mult) auto
    then have "sval bs = vval l * vval r" using b pos by (intro sval_eqI) auto
    then show ?thesis using True by (simp add: vval_def)
  next
    case False
    have "vval l < 2 ^ len l" "vval r < 2 ^ len r" "0 \<le> vval l" "0 \<le> vval r"
      using vval_unsigned_range [of l] vval_unsigned_range [of r] False assms(4) by auto
    then have "vval l * vval r < 2 ^ (len l + len r)" "0 \<le> vval l * vval r"
      unfolding power_add by (auto intro: mult_strict_mono')
    then have "uval bs = vval l * vval r" using b by simp
    then show ?thesis using False by (simp add: vval_def)
  qed
  then have "vval (trim_vnum (mk_vnum bs False (has_sign l))) = vval l * vval r"
    by (simp only: trim_vnum_vval)
  moreover have "proper (trim_vnum (mk_vnum bs False (has_sign l)))"
    using b(2,3) pos by (intro trim_proper) auto
  ultimately show ?thesis using b(1) by (simp add: trim_vnum_flags)
qed

section \<open>Meaning of the shifts\<close>

lemma uval_shift_up: "uval (replicate s V0 @ bs) = 2 ^ s * uval bs"
  by (simp add: uval_append)

lemma sval_shift_up: "bs \<noteq> [] \<Longrightarrow> sval (replicate s V0 @ bs) = 2 ^ s * sval bs"
  by (simp add: sval_def uval_shift_up power_add algebra_simps)

lemma sval_drop: "s < length bs \<Longrightarrow> sval (drop s bs) = sval bs div 2 ^ s"
proof -
  assume s: "s < length bs"
  then have "(2 :: int) ^ length bs = 2 ^ (length bs - s) * 2 ^ s" by (simp flip: power_add)
  then have "uval bs - 2 ^ length bs = uval bs + (- (2 ^ (length bs - s))) * 2 ^ s" by simp
  then have "(uval bs - 2 ^ length bs) div 2 ^ s = uval bs div 2 ^ s - 2 ^ (length bs - s)"
    by (simp only: div_mult_self1 [OF power_not_zero [OF zero_neq_numeral [symmetric]]])
  with s show ?thesis by (auto simp: sval_def uval_drop)
qed

lemma shl_bits:
  "map (\<lambda>idx. if idx < s then V0 else bs ! (idx - s)) [0..<n] = take n (replicate s V0 @ bs)"
  if "n \<le> s + length bs"
  by (rule nth_equalityI) (use that in \<open>auto simp: nth_append\<close>)

lemma op_shl_sized:
  assumes "proper v" "has_len v"
  shows "len (op_shl v s) = len v" "has_len (op_shl v s)" "has_sign (op_shl v s) = has_sign v"
    "proper (op_shl v s)" "uval (vbits (op_shl v s)) = (vval v * 2 ^ s) mod 2 ^ len v"
proof -
  have e: "op_shl v s = mk_vnum (take (len v) (replicate s V0 @ vbits v)) True (has_sign v)"
    using assms by (simp add: op_shl_def Let_def shl_bits trim_vnum_flags)
  show "len (op_shl v s) = len v" "has_len (op_shl v s)" "has_sign (op_shl v s) = has_sign v"
    by (simp_all add: e)
  have "list_all known (take (len v) (replicate s V0 @ vbits v))"
    using assms(1) by (intro list_all_take) (simp add: proper_def is_defined_known)
  then show "proper (op_shl v s)" using assms(1)
    by (simp add: e proper_def del: take_append)
  have "uval (vbits (op_shl v s)) = (uval (vbits v) * 2 ^ s) mod 2 ^ len v"
    by (simp add: e uval_take uval_append mult.commute del: take_append)
  then show "uval (vbits (op_shl v s)) = (vval v * 2 ^ s) mod 2 ^ len v"
    by (simp only: vval_mod [of v, symmetric] mod_mult_left_eq)
qed

lemma op_shl_unsized:
  assumes "proper v" "\<not> has_len v"
  shows "\<not> has_len (op_shl v s)" "has_sign (op_shl v s) = has_sign v"
    "proper (op_shl v s)" "vval (op_shl v s) = vval v * 2 ^ s"
proof -
  let ?m = "mk_vnum (replicate s V0 @ vbits v) False (has_sign v)"
  have e: "op_shl v s = trim_vnum ?m"
    using assms by (simp add: op_shl_def Let_def shl_bits add.commute)
  show "\<not> has_len (op_shl v s)" "has_sign (op_shl v s) = has_sign v"
    by (simp_all add: e trim_vnum_flags)
  have d: "is_defined ?m" "0 < len ?m" using assms(1) by (auto simp: proper_def is_defined_known)
  then show "proper (op_shl v s)"
    unfolding e proper_def by (metis trim_vnum_defined trim_vnum_len)
  have "vval ?m = vval v * 2 ^ s"
    using assms(1) by (simp add: vval_def uval_shift_up sval_shift_up proper_def)
  then show "vval (op_shl v s) = vval v * 2 ^ s" by (simp only: e trim_vnum_vval)
qed


lemma div_pow2_small:
  fixes x :: int
  assumes "0 \<le> x" "x < 2 ^ n" "n \<le> s"
  shows "x div 2 ^ s = 0"
proof -
  have "(2 :: int) ^ n \<le> 2 ^ s" using assms(3) by simp
  with assms show ?thesis by (intro div_pos_pos_trivial) linarith+
qed

lemma div_pow2_minus:
  fixes x :: int
  assumes "- (2 ^ n) \<le> x" "x < 0" "n \<le> s"
  shows "x div 2 ^ s = - 1"
proof -
  have "(2 :: int) ^ n \<le> 2 ^ s" using assms(3) by simp
  with assms show ?thesis by (intro int_div_pos_eq [where r = "x + 2 ^ s"]) linarith+
qed

lemma vval_mk: "vval (mk_vnum bs h s) = (if s then sval bs else uval bs)"
  by (simp add: vval_def)

lemma shr_far:
  assumes "proper v" "sign_bit v = Some sg" "len v \<le> s" "0 < n"
  shows "(if has_sign v then sval (replicate n sg) else uval (replicate n sg)) = vval v div 2 ^ s"
proof (cases "has_sign v")
  case True
  have sg: "sg = last (vbits v)" "vbits v \<noteq> []" using sign_bit_last [OF assms(2) True] by auto
  have r: "in_signed (len v) (vval v)" by (rule vval_signed_range [OF assms(1) True])
  show ?thesis
  proof (cases "sg = V1")
    case one: True
    have "vval v < 0" using True one sg sval_last [of "vbits v"] by (simp add: vval_def)
    moreover have "- (2 ^ len v) \<le> vval v" using r \<open>vval v < 0\<close> by (simp add: in_signed_def)
    ultimately have "vval v div 2 ^ s = - 1" using assms(3) by (intro div_pow2_minus)
    then show ?thesis using True one assms(4) by (simp add: sval_def)
  next
    case False
    then have "sg = V0" using sign_bit_known [OF _ assms(2)] assms(1) by (auto simp: proper_def)
    then have "vval v = uval (vbits v)" using True sg by (simp add: vval_def sval_def)
    then have "vval v div 2 ^ s = 0"
      using uval_less [of "vbits v"] assms(3) by (intro div_pow2_small [of _ "len v"]) auto
    then show ?thesis using True \<open>sg = V0\<close> assms(4) by (simp add: sval_def)
  qed
next
  case False
  then have "sg = V0" using assms(2) by (simp add: sign_bit_def)
  moreover have "vval v div 2 ^ s = 0"
    using vval_unsigned_range [OF False] assms(3) by (intro div_pow2_small [of _ "len v"]) auto
  ultimately show ?thesis using False by simp
qed

lemma shr_bits:
  "s < length bs \<Longrightarrow> map (\<lambda>idx. if idx + s < length bs then bs ! (idx + s) else p) [0..<n] =
     take n (drop s bs @ replicate (n - (length bs - s)) p)"
  by (rule nth_equalityI) (auto simp: nth_append add.commute less_diff_conv)

lemma op_shr_value:
  assumes "proper v"
  shows "\<exists>c. op_shr v s = Some c \<and> has_len c = has_len v \<and> has_sign c = has_sign v \<and> proper c \<and>
    (has_len v \<longrightarrow> len c = len v) \<and> vval c = vval v div 2 ^ s"
proof -
  obtain sg where sg: "sign_bit v = Some sg" "known sg" using proper_sign_bit assms by blast
  have pos: "0 < len v" "list_all known (vbits v)" using assms by (auto simp: proper_def is_defined_known)
  show ?thesis
  proof (cases "len v \<le> s")
    case True
    let ?n = "if has_len v then len v else 1"
    have "(if has_sign v then sval (replicate ?n sg) else uval (replicate ?n sg)) = vval v div 2 ^ s"
      using pos by (intro shr_far [OF assms sg(1) True]) auto
    then have "vval (mk_vnum (replicate ?n sg) (has_len v) (has_sign v)) = vval v div 2 ^ s"
      by (simp only: vval_mk)
    moreover have "proper (mk_vnum (replicate ?n sg) (has_len v) (has_sign v))"
      using pos sg by (auto simp: proper_def)
    ultimately show ?thesis using sg True by (simp add: op_shr_def)
  next
    case False
    let ?d = "drop s (vbits v)"
    let ?n = "if has_len v then len v else len v - s"
    let ?bs = "?d @ replicate (?n - (len v - s)) sg"
    let ?m = "mk_vnum ?bs (has_len v) (has_sign v)"
    have e: "op_shr v s = Some (trim_vnum ?m)"
      using False sg by (simp add: op_shr_def Let_def shr_bits)
    have ne: "?d \<noteq> []" using False by simp
    have "vval ?m = vval v div 2 ^ s"
    proof (cases "has_sign v")
      case True
      then have "sg = last ?d" using sign_bit_last [OF sg(1)] False by (simp add: last_drop)
      then show ?thesis
        using True sval_extend [OF ne, of sg] sval_drop [of s "vbits v"] False by (simp add: vval_def)
    next
      case F: False
      then have "sg = V0" using sg(1) by (simp add: sign_bit_def)
      then show ?thesis using F by (simp add: vval_def uval_append uval_drop)
    qed
    then have "vval (trim_vnum ?m) = vval v div 2 ^ s" by (simp only: trim_vnum_vval)
    moreover have "proper (trim_vnum ?m)"
      using ne pos sg False by (intro trim_proper) (auto simp: list_all_drop)
    moreover have "has_len v \<longrightarrow> len (trim_vnum ?m) = len v"
      using False by (simp add: trim_vnum_flags)
    ultimately show ?thesis by (simp add: e trim_vnum_flags)
  qed
qed

section \<open>Meaning of long division\<close>

lemma strip_top_le: "strip_top bs n \<le> n"
  by (induction n) auto

lemma strip_top_above: "strip_top bs n \<le> j \<Longrightarrow> j < n \<Longrightarrow> bs ! j = V0"
  by (induction n) (auto split: if_splits simp: less_Suc_eq)

lemma strip_top_stop: "0 < strip_top bs n \<Longrightarrow> bs ! (strip_top bs n - 1) \<noteq> V0"
  by (induction n) auto

lemma strip_top_value:
  assumes "list_all known bs"
  shows "uval bs < 2 ^ strip_top bs (length bs)"
    "uval bs \<noteq> 0 \<Longrightarrow> 0 < strip_top bs (length bs) \<and> 2 ^ (strip_top bs (length bs) - 1) \<le> uval bs"
proof -
  let ?w = "strip_top bs (length bs)"
  have t: "uval (take ?w bs) = uval bs"
    by (rule uval_top_zeros) (use strip_top_above in auto)
  then show "uval bs < 2 ^ ?w"
    using uval_less [of "take ?w bs"] strip_top_le [of bs "length bs"] by simp
  assume "uval bs \<noteq> 0"
  with t have pos: "0 < ?w" by (metis gr0I take_0 uval_simps(1))
  then have "bs ! (?w - 1) \<noteq> V0" by (rule strip_top_stop)
  moreover have lt: "?w - 1 < length bs" using pos strip_top_le [of bs "length bs"] by linarith
  ultimately have "bs ! (?w - 1) = V1" using list_all_nthD [OF assms lt] by simp
  then show "0 < ?w \<and> 2 ^ (?w - 1) \<le> uval bs" using pos uval_bit_le [OF lt] by simp
qed


lemma uval_update: "i < length bs \<Longrightarrow> bs ! i = V0 \<Longrightarrow> uval (bs[i := V1]) = uval bs + 2 ^ i"
proof -
  assume a: "i < length bs" "bs ! i = V0"
  have "uval bs = uval (take i bs @ [V0] @ drop (Suc i) bs)"
    using a by (metis append_Cons append_Nil id_take_nth_drop)
  with a show ?thesis by (simp add: list_update_split uval_append distrib_left)
qed

text \<open>The operands of the loop: unsigned, unsized, known.\<close>

definition magn :: "verinum \<Rightarrow> bool" where
  "magn v \<longleftrightarrow> proper v \<and> \<not> has_sign v \<and> \<not> has_len v"

lemma magn_vval: "magn v \<Longrightarrow> vval v = uval (vbits v) \<and> 0 \<le> vval v"
  by (simp add: magn_def vval_def)

lemma magn_le:
  assumes "magn a" "magn b"
  shows "\<exists>c. op_le a b = Some c \<and> (c \<noteq> V0 \<longleftrightarrow> vval a \<le> vval b)"
  using op_cmp_value [of a b V1] assms
  by (auto simp: op_le_def verdict_def cmp_val_def magn_def vval_def)

lemma magn_sub:
  assumes "magn a" "magn b" "vval b \<le> vval a"
  shows "\<exists>c. op_sub a b = Some c \<and> magn c \<and> len a \<le> len c \<and> vval c = vval a - vval b"
proof -
  obtain c where c: "op_sub a b = Some c" "\<not> has_len c" "\<not> has_sign c" "proper c"
      "uval (vbits c) = (vval a - vval b) mod 2 ^ max (len a) (len b)" "len c = max (len a) (len b)"
    using op_sub_modular [of a b] assms by (auto simp: magn_def)
  have "vval a < 2 ^ len a" using assms(1) vval_unsigned_range by (simp add: magn_def)
  also have "(2 :: int) ^ len a \<le> 2 ^ max (len a) (len b)" by simp
  finally have "vval a - vval b < 2 ^ max (len a) (len b)" using magn_vval [OF assms(2)] by linarith
  then have "uval (vbits c) = vval a - vval b" using c(5) assms(3) by simp
  with c show ?thesis by (auto simp: magn_def vval_def)
qed

lemma magn_shr: "magn v \<Longrightarrow> \<exists>c. op_shr v s = Some c \<and> magn c \<and> vval c = vval v div 2 ^ s"
  using op_shr_value [of v s] by (auto simp: magn_def)

lemma div_loop_value:
  assumes "0 < D"
  shows "magn num \<Longrightarrow> magn den \<Longrightarrow> i = 0 \<or> vval den = D * 2 ^ (i - 1) \<Longrightarrow> vval num < D * 2 ^ i \<Longrightarrow>
    \<exists>num' res'. div_loop i num den res = Some (num', res') \<and> magn num' \<and> len num \<le> len num' \<and>
      vval num' = vval num mod D \<and> length res' = length res \<and>
      (list_all known res \<longrightarrow> list_all known res') \<and>
      (i \<le> length res \<and> (\<forall>j<i. res ! j = V0) \<longrightarrow> uval res' = uval res + vval num div D)"
proof (induction i arbitrary: num den res)
  case 0
  then show ?case using magn_vval [of num] by (simp add: div_loop.simps)
next
  case (Suc i)
  have den: "vval den = D * 2 ^ i" using Suc.prems(3) by simp
  obtain c where c: "op_le den num = Some c" "c \<noteq> V0 \<longleftrightarrow> vval den \<le> vval num"
    using magn_le [OF Suc.prems(2,1)] by blast
  obtain den' where d: "op_shr den 1 = Some den'" "magn den'" "vval den' = D * 2 ^ i div 2"
    using magn_shr [OF Suc.prems(2), of 1] den by auto
  have d': "i = 0 \<or> vval den' = D * 2 ^ (i - 1)"
    using d(3) by (cases i) auto
  show ?case
  proof (cases "c = V0")
    case True
    then have "vval num < D * 2 ^ i" using c(2) den by simp
    from Suc.IH [OF Suc.prems(1) d(2) d' this, of res] show ?thesis
      using True c(1) d(1) by (auto simp: div_loop.simps)
  next
    case False
    with c(2) have le: "D * 2 ^ i \<le> vval num" using den by simp
    obtain n' where n: "op_sub num den = Some n'" "magn n'" "vval n' = vval num - D * 2 ^ i"
        "len num \<le> len n'"
      using magn_sub [OF Suc.prems(1,2)] le den by auto
    have lt: "vval n' < D * 2 ^ i" using Suc.prems(4) n(3) by simp
    have q: "(vval num - D * 2 ^ i) div D = vval num div D - 2 ^ i"
      "(vval num - D * 2 ^ i) mod D = vval num mod D"
    proof -
      have "vval num - D * 2 ^ i = vval num + (- (2 ^ i)) * D" by (simp add: algebra_simps)
      then show "(vval num - D * 2 ^ i) div D = vval num div D - 2 ^ i"
        "(vval num - D * 2 ^ i) mod D = vval num mod D"
        using assms by (simp_all only: div_mult_self1 mod_mult_self1)
    qed
    obtain num' res' where r: "div_loop i n' den' (res[i := V1]) = Some (num', res')" "magn num'"
        "vval num' = vval n' mod D" "length res' = length res"
        "list_all known (res[i := V1]) \<longrightarrow> list_all known res'"
        "i \<le> length res \<and> (\<forall>j<i. res[i := V1] ! j = V0) \<longrightarrow>
           uval res' = uval (res[i := V1]) + vval n' div D" "len n' \<le> len num'"
      using Suc.IH [OF n(2) d(2) d' lt, of "res[i := V1]"] by auto
    have "Suc i \<le> length res \<and> (\<forall>j<Suc i. res ! j = V0) \<longrightarrow> uval res' = uval res + vval num div D"
      using r(6) n(3) q(1) uval_update [of i res] by auto
    moreover have "list_all known res \<longrightarrow> list_all known res'"
      using r(5) by (auto intro: list_all_update)
    ultimately show ?thesis using False c(1) d(1) n(1,3,4) r q(2) by (auto simp: div_loop.simps)
  qed
qed

lemma strip_clear_len: "strip_top (vbits (v\<lparr>has_len := b\<rparr>)) n = strip_top (vbits v) n"
  by simp

text \<open>The set-up of the loop: with the divisor shifted up to the dividend's width, the loop count is
  enough.\<close>

lemma div_setup:
  assumes "magn num" "magn den" "vval den \<noteq> 0"
  defines "nw \<equiv> strip_top (vbits num) (len num)"
  defines "dw \<equiv> strip_top (vbits den) (len den)"
  assumes "dw \<le> nw"
  shows "magn (op_shl den (nw - dw))" "vval (op_shl den (nw - dw)) = vval den * 2 ^ (nw - dw)"
    "vval num < vval den * 2 ^ (nw - dw + 1)"
proof -
  have d: "proper den" "\<not> has_len den" "\<not> has_sign den" using assms by (auto simp: magn_def)
  show "magn (op_shl den (nw - dw))" "vval (op_shl den (nw - dw)) = vval den * 2 ^ (nw - dw)"
    using op_shl_unsized [OF d(1,2)] d(3) by (auto simp: magn_def)
  have k: "list_all known (vbits num)" "list_all known (vbits den)"
    using assms by (auto simp: magn_def proper_def is_defined_known)
  have dd: "0 < dw" "2 ^ (dw - 1) \<le> vval den"
    using strip_top_value(2) [OF k(2)] assms(2,3) magn_vval [of den] by (auto simp: dw_def)
  have "vval num < 2 ^ nw"
    using strip_top_value(1) [OF k(1)] magn_vval [OF assms(1)] by (simp add: nw_def)
  also have "(2 :: int) ^ nw = 2 ^ (dw - 1) * 2 ^ (nw - dw + 1)"
  proof -
    have "nw = (dw - 1) + (nw - dw + 1)" using dd(1) assms(6) by simp
    then show ?thesis by (metis power_add)
  qed
  also have "\<dots> \<le> vval den * 2 ^ (nw - dw + 1)" using dd(2) by (intro mult_right_mono) auto
  finally show "vval num < vval den * 2 ^ (nw - dw + 1)" .
qed

lemma div_setup_small:
  assumes "magn num" "magn den" "vval den \<noteq> 0"
    "strip_top (vbits num) (len num) < strip_top (vbits den) (len den)"
  shows "vval num < vval den"
proof -
  let ?nw = "strip_top (vbits num) (len num)" and ?dw = "strip_top (vbits den) (len den)"
  have k: "list_all known (vbits num)" "list_all known (vbits den)"
    using assms by (auto simp: magn_def proper_def is_defined_known)
  have "vval num < 2 ^ ?nw"
    using strip_top_value(1) [OF k(1)] magn_vval [OF assms(1)] by simp
  also have "(2 :: int) ^ ?nw \<le> 2 ^ (?dw - 1)" using assms(4) by (intro power_increasing) auto
  also have "\<dots> \<le> vval den" using strip_top_value(2) [OF k(2)] assms(2,3) magn_vval [of den] by auto
  finally show ?thesis .
qed


lemma magn_clear: "proper v \<Longrightarrow> \<not> has_sign v \<Longrightarrow> magn (v\<lparr>has_len := False\<rparr>) \<and> vval (v\<lparr>has_len := False\<rparr>) = vval v"
  by (simp add: magn_def proper_def is_defined_def vval_def)

lemma int_div_lt: "0 < d \<Longrightarrow> n < d * c \<Longrightarrow> n div d < (c :: int)"
proof -
  assume d: "0 < d" and n: "n < d * c"
  have "d * (n div d) \<le> n" using d by (simp add: minus_mod_eq_mult_div [symmetric])
  then have "d * (n div d) < d * c" using n by linarith
  then show ?thesis using d by simp
qed

lemma unsigned_divide_value:
  assumes "proper num" "proper den" "\<not> has_sign num" "\<not> has_sign den" "vval den \<noteq> 0"
  shows "\<exists>q. unsigned_divide num den sr = Some q \<and> proper q \<and> has_len q \<and> \<not> is_single q \<and>
    vval q = vval num div vval den"
proof -
  let ?n = "num\<lparr>has_len := False\<rparr>" and ?d = "den\<lparr>has_len := False\<rparr>"
  let ?nw = "strip_top (vbits num) (len num)" and ?dw = "strip_top (vbits den) (len den)"
  let ?i = "?nw - ?dw + 1"
  have m: "magn ?n" "vval ?n = vval num" "magn ?d" "vval ?d = vval den"
    using magn_clear assms by auto
  have nonneg: "0 \<le> vval num" "0 < vval den"
    using magn_vval [OF m(1)] magn_vval [OF m(3)] m assms(5) by auto
  show ?thesis
  proof (cases "?nw < ?dw")
    case True
    then have "vval num < vval den"
      using div_setup_small [OF m(1,3)] m assms(5) by simp
    then show ?thesis using True nonneg
      by (simp add: unsigned_divide_def Let_def proper_def is_defined_def verinum_fill_def
          verinum_bits_def vval_def)
  next
    case False
    let ?k = "if sr then ?i + 1 else ?i"
    note st = div_setup [of ?n ?d, simplified, OF m(1,3)]
    have st1: "magn (op_shl ?d (?nw - ?dw))" "vval (op_shl ?d (?nw - ?dw)) = vval den * 2 ^ (?nw - ?dw)"
      "vval num < vval den * 2 ^ ?i"
      using st m assms(5) False by auto
    have z: "?i \<le> length (replicate ?k V0) \<and> (\<forall>j<?i. replicate ?k V0 ! j = V0)" by auto
    obtain num' bs where r: "div_loop ?i ?n (op_shl ?d (?nw - ?dw)) (replicate ?k V0) = Some (num', bs)"
        "length bs = ?k" "list_all known bs" "uval bs = vval num div vval den"
      using div_loop_value [OF nonneg(2) m(1) st1(1), of ?i "replicate ?k V0"] st1(2,3) m(2) z by auto
    have "vval num div vval den < 2 ^ ?i"
      by (rule int_div_lt [OF nonneg(2) st1(3)])
    then have "sr \<Longrightarrow> \<not> 2 ^ (length bs - 1) \<le> uval bs" using r(2,4) by simp
    moreover have "bs \<noteq> []" using r(2) by (auto split: if_splits)
    ultimately have "sr \<Longrightarrow> last bs \<noteq> V1" using uval_last [of bs] by auto
    then have "vval (mk_vnum bs True sr) = vval num div vval den"
      using r(4) by (auto simp: vval_mk sval_def)
    then show ?thesis using False r
      by (auto simp: unsigned_divide_def Let_def proper_def)
  qed
qed

lemma unsigned_modulus_value:
  assumes "proper num" "proper den" "\<not> has_sign num" "\<not> has_sign den" "vval den \<noteq> 0"
  shows "\<exists>m. unsigned_modulus num den = Some m \<and> magn m \<and> len num \<le> len m \<and>
    vval m = vval num mod vval den"
proof -
  let ?n = "num\<lparr>has_len := False\<rparr>" and ?d = "den\<lparr>has_len := False\<rparr>"
  let ?nw = "strip_top (vbits num) (len num)" and ?dw = "strip_top (vbits den) (len den)"
  let ?i = "?nw - ?dw + 1"
  have m: "magn ?n" "vval ?n = vval num" "magn ?d" "vval ?d = vval den"
    using magn_clear assms by auto
  have nonneg: "0 \<le> vval num" "0 < vval den"
    using magn_vval [OF m(1)] magn_vval [OF m(3)] m assms(5) by auto
  show ?thesis
  proof (cases "?nw < ?dw")
    case True
    then have "vval num < vval den"
      using div_setup_small [OF m(1,3)] m assms(5) by simp
    then show ?thesis using True nonneg m by (simp add: unsigned_modulus_def Let_def)
  next
    case False
    note st = div_setup [of ?n ?d, simplified, OF m(1,3)]
    have st1: "magn (op_shl ?d (?nw - ?dw))" "vval (op_shl ?d (?nw - ?dw)) = vval den * 2 ^ (?nw - ?dw)"
      "vval num < vval den * 2 ^ ?i"
      using st m assms(5) False by auto
    obtain num' bs where "div_loop ?i ?n (op_shl ?d (?nw - ?dw)) [] = Some (num', bs)"
        "magn num'" "len num \<le> len num'" "vval num' = vval num mod vval den"
      using div_loop_value [OF nonneg(2) m(1) st1(1), of ?i "[]"] st1(2,3) m(2) by auto
    then show ?thesis using False by (auto simp: unsigned_modulus_def Let_def)
  qed
qed


section \<open>Meaning of division and modulus\<close>

lemma magnitude_value:
  assumes "proper v" "has_sign v"
  shows "\<exists>m. magnitude v = Some (m, vval v < 0) \<and> proper m \<and> \<not> has_sign m \<and> len v \<le> len m \<and>
    vval m = \<bar>vval v\<bar>"
proof -
  have neg: "is_negative v = Some (vval v < 0)"
    using is_negative_vval [of v] assms by (cases "is_negative v") (auto simp: proper_def is_negative_def)
  have "\<exists>m. (if vval v < 0 then op_neg v else Some v) = Some m \<and> proper m \<and>
      len v \<le> len m \<and> uval (vbits m) = \<bar>vval v\<bar>"
  proof (cases "vval v < 0")
    case neg: True
    have r: "in_signed (len v) (vval v)" by (rule vval_signed_range [OF assms])
    show ?thesis
    proof (cases "has_len v")
      case True
      have p: "(2 :: int) ^ len v = 2 * 2 ^ (len v - 1)"
        using assms(1) by (intro pow2_Suc_pred) (simp add: proper_def)
      then have "(- vval v) mod 2 ^ len v = - vval v"
        using r neg by (intro mod_pos_pos_trivial) (auto simp: in_signed_def)
      then show ?thesis using neg op_neg_modular [OF assms(1)] True by auto
    next
      case False
      then obtain c where c: "op_neg v = Some c" "has_sign c" "proper c" "vval c = - vval v" "len v \<le> len c"
        using op_neg_signed_unsized [OF assms] by auto
      then have "last (vbits c) \<noteq> V1"
        using neg sval_last [of "vbits c"] by (auto simp: vval_def proper_def)
      then have "uval (vbits c) = - vval v" using c by (simp add: vval_def sval_def)
      then show ?thesis using c neg by simp
    qed
  next
    case False
    then have "uval (vbits v) = vval v"
      using assms sval_last [of "vbits v"] by (auto simp: vval_def sval_def proper_def)
    then show ?thesis using False assms by simp
  qed
  then obtain m where m: "(if vval v < 0 then op_neg v else Some v) = Some m" "proper m"
    "uval (vbits m) = \<bar>vval v\<bar>" "len v \<le> len m" by blast
  then have "magnitude v = Some (m\<lparr>has_sign := False\<rparr>, vval v < 0)" using neg by (simp add: magnitude_def)
  moreover have "proper (m\<lparr>has_sign := False\<rparr>)" "vval (m\<lparr>has_sign := False\<rparr>) = \<bar>vval v\<bar>"
    using m(2,3) by (simp_all add: proper_def is_defined_def vval_mk vval_def)
  ultimately show ?thesis using m(4) by simp
qed

text \<open>The divisor fits the machine type that the fast path divides with.\<close>

definition native_ok :: "nat \<Rightarrow> verinum \<Rightarrow> verinum \<Rightarrow> bool" where
  "native_ok w l r \<longleftrightarrow> (if has_sign l then len l \<le> w \<longrightarrow> in_signed 64 (vval r)
     else len l \<le> 64 \<longrightarrow> vval r < 2 ^ 64)"

lemma native_long:
  assumes "proper v" "has_sign v" "len v \<le> 64"
  shows "sint (as_long v) = vval v"
proof (rule as_long_value)
  show "is_defined v" using assms by (simp add: proper_def)
  show "in_signed 64 (vval v)" by (rule in_signed_mono [OF vval_signed_range [OF assms(1,2)] assms(3)])
qed

lemma native_ulong:
  assumes "proper v" "\<not> has_sign v" "vval v < 2 ^ 64"
  shows "uint (as_ulong v) = vval v"
  using as_ulong_value [of v] assms by (simp add: proper_def vval_def min_def)

lemma native_ulong_len: "proper v \<Longrightarrow> \<not> has_sign v \<Longrightarrow> len v \<le> 64 \<Longrightarrow> uint (as_ulong v) = vval v"
proof (rule native_ulong)
  assume a: "proper v" "\<not> has_sign v" "len v \<le> 64"
  then have "vval v < 2 ^ len v" using vval_unsigned_range by auto
  also have "(2 :: int) ^ len v \<le> 2 ^ 64" using a(3) by (rule power_increasing) simp
  finally show "vval v < 2 ^ 64" .
qed

lemma tdiv_nonneg: "0 \<le> a \<Longrightarrow> 0 < b \<Longrightarrow> tdiv a b = a div b"
  by (cases "a = 0") (auto simp: tdiv_def)

lemma tmod_nonneg: "0 \<le> a \<Longrightarrow> 0 < b \<Longrightarrow> tmod a b = a mod b"
  by (cases "a = 0") (auto simp: tmod_def)

lemma tdiv_signs: "b \<noteq> 0 \<Longrightarrow> tdiv a b = (if (a < 0) \<noteq> (b < 0) then - (\<bar>a\<bar> div \<bar>b\<bar>) else \<bar>a\<bar> div \<bar>b\<bar>)"
  by (cases "a = 0") (auto simp: tdiv_def sgn_if)

lemma tdiv_tmod:
  assumes "b \<noteq> 0"
  shows "a = tdiv a b * b + tmod a b"
proof -
  have "\<bar>a\<bar> = \<bar>a\<bar> div \<bar>b\<bar> * \<bar>b\<bar> + \<bar>a\<bar> mod \<bar>b\<bar>" by simp
  then have "sgn a * \<bar>a\<bar> = sgn a * (\<bar>a\<bar> div \<bar>b\<bar>) * \<bar>b\<bar> + sgn a * (\<bar>a\<bar> mod \<bar>b\<bar>)"
    by (metis mult.assoc ring_distribs(1))
  moreover have "sgn a * (\<bar>a\<bar> div \<bar>b\<bar>) * \<bar>b\<bar> = tdiv a b * b"
    by (cases "b < 0") (use assms in \<open>auto simp: tdiv_def sgn_if\<close>)
  moreover have "sgn a * \<bar>a\<bar> = a" by (simp add: sgn_mult_abs)
  ultimately show ?thesis by (simp add: tmod_def)
qed

lemma tmod_signs: "b \<noteq> 0 \<Longrightarrow> tmod a b = (if a < 0 then - (\<bar>a\<bar> mod \<bar>b\<bar>) else \<bar>a\<bar> mod \<bar>b\<bar>)"
  by (cases "a = 0") (auto simp: tmod_def sgn_if)

text \<open>What both cores deliver for the exact result \<open>t\<close>: a number with that value under either
  reading of its sign flag, or at least as many bits as the left operand has, holding \<open>t\<close> modulo
  their width.\<close>

definition core_result :: "verinum \<Rightarrow> int \<Rightarrow> verinum \<Rightarrow> bool" where
  "core_result l t q \<longleftrightarrow> proper q \<and>
     (\<not> is_single q \<and> vval q = t \<and> vval (q\<lparr>has_sign := has_sign l\<rparr>) = t \<or>
      \<not> has_sign q \<and> len l \<le> len q \<and> uval (vbits q) = t mod 2 ^ len q)"

lemma core_result_native: "proper l \<Longrightarrow> core_result l t (mk_vnum (int_bits (len l) t) h False)"
  by (simp add: core_result_def proper_def uval_int_bits)

lemma op_neg_single: "op_neg v = Some c \<Longrightarrow> \<not> is_single c"
  by (auto simp: op_neg_def Let_def split: if_splits prod.splits Option.bind_splits)

lemma unsigned_divide_sign:
  "unsigned_divide a b True = Some q \<Longrightarrow> \<not> has_sign q \<Longrightarrow> q = verinum_fill V0 1 True"
  by (auto simp: unsigned_divide_def Let_def split: if_splits Option.bind_splits)

lemma div_core_signed_wide:
  assumes "proper l" "proper r" "has_sign l" "has_sign r" "vval r \<noteq> 0" "63 < len l"
  shows "\<exists>q. div_core l r = Some q \<and> core_result l (tdiv (vval l) (vval r)) q"
proof -
  obtain a b where a: "magnitude l = Some (a, vval l < 0)" "proper a" "\<not> has_sign a" "vval a = \<bar>vval l\<bar>"
    and b: "magnitude r = Some (b, vval r < 0)" "proper b" "\<not> has_sign b" "vval b = \<bar>vval r\<bar>"
    using magnitude_value assms by meson
  obtain q where q: "unsigned_divide a b True = Some q" "proper q" "has_len q" "\<not> is_single q"
      "vval q = \<bar>vval l\<bar> div \<bar>vval r\<bar>"
    using unsigned_divide_value [of a b True] a b assms(5) by auto
  have c: "div_core l r = (if (vval l < 0) \<noteq> (vval r < 0) then op_neg q else Some q)"
    using assms a(1) b(1) q(1) by (simp add: div_core_def)
  have zero: "\<not> has_sign q \<Longrightarrow> vbits q = [V0] \<and> vval q = 0"
    using unsigned_divide_sign [OF q(1)] by (simp add: verinum_fill_def verinum_bits_def vval_def)
  show ?thesis
  proof (cases "(vval l < 0) \<noteq> (vval r < 0)")
    case False
    have "vval (q\<lparr>has_sign := True\<rparr>) = vval q"
      using zero by (cases "has_sign q") (auto simp: vval_def sval_def)
    moreover have "div_core l r = Some q" using c False by simp
    ultimately show ?thesis using q False assms(3,5) by (simp add: core_result_def tdiv_signs)
  next
    case True
    obtain n where n: "op_neg q = Some n" "len n = len q" "has_sign n = has_sign q" "proper n"
        "uval (vbits n) = (- vval q) mod 2 ^ len q"
      using op_neg_modular [OF q(2)] q(3) by auto
    have nn: "0 \<le> vval q"
      unfolding q(5) using assms(5) by (intro div_int_pos_iff [THEN iffD2]) simp
    have "vval n = - vval q \<and> vval (n\<lparr>has_sign := True\<rparr>) = - vval q"
    proof (cases "has_sign q")
      case True
      have "in_signed (len q) (vval q)" by (rule vval_signed_range [OF q(2) True])
      then have "in_signed (len q) (- vval q)" using nn by (auto simp: in_signed_def)
      then have "sval (vbits n) = - vval q" using n by (intro sval_eqI) (auto simp: proper_def)
      then show ?thesis using True n(3) by (simp add: vval_def)
    next
      case False
      then have "length (vbits n) = 1" "uval (vbits n) = 0" using zero n by auto
      then show ?thesis using zero False n(3)
        by (auto simp: vval_def sval_def length_Suc_conv bitv_def)
    qed
    then show ?thesis using c True n op_neg_single [OF n(1)] q(5) assms
      by (auto simp: core_result_def tdiv_signs)
  qed
qed

lemma div_core_value:
  assumes "proper l" "proper r" "has_sign l = has_sign r" "vval r \<noteq> 0" "native_ok 63 l r"
  shows "\<exists>q. div_core l r = Some q \<and> core_result l (tdiv (vval l) (vval r)) q"
proof (cases "has_sign l")
  case sg: True
  show ?thesis
  proof (cases "len l \<le> 63")
    case True
    have l: "sint (as_long l) = vval l" using native_long [OF assms(1) sg] True by simp
    have r: "sint (as_long r) = vval r"
      using as_long_value [of r] assms(2,5) sg True by (simp add: native_ok_def proper_def)
    have "in_signed 63 (vval l)"
      by (rule in_signed_mono [OF vval_signed_range [OF assms(1) sg] True])
    then have "vval l \<noteq> LONG_MIN" by (simp add: in_signed_def LONG_MIN_def)
    then show ?thesis using l r assms sg True core_result_native [OF assms(1)]
      by (simp add: div_core_def Let_def)
  next
    case False
    then show ?thesis using div_core_signed_wide assms sg by simp
  qed
next
  case us: False
  have usr: "\<not> has_sign r" using us assms(3) by simp
  have nn: "0 \<le> vval l" "0 < vval r"
    using vval_unsigned_range [OF us] vval_unsigned_range [OF usr] assms(4) by auto
  show ?thesis
  proof (cases "len l \<le> 64")
    case True
    have "uint (as_ulong l) = vval l" by (rule native_ulong_len [OF assms(1) us True])
    moreover have "uint (as_ulong r) = vval r"
      using native_ulong [OF assms(2) usr] assms(5) us True by (simp add: native_ok_def)
    ultimately show ?thesis using us True assms(4) nn core_result_native [OF assms(1)]
      by (simp add: div_core_def Let_def tdiv_nonneg)
  next
    case False
    obtain q where q: "unsigned_divide l r False = Some q" "proper q" "\<not> is_single q"
        "vval q = vval l div vval r"
      using unsigned_divide_value [OF assms(1,2) us usr assms(4), of False] by auto
    have "\<not> has_sign q"
      using q(1) by (auto simp: unsigned_divide_def Let_def verinum_fill_def verinum_bits_def
          split: if_splits Option.bind_splits)
    then show ?thesis using us usr False nn q
      by (simp add: div_core_def core_result_def tdiv_nonneg vval_def)
  qed
qed

lemma mod_core_value:
  assumes "proper l" "proper r" "has_sign l = has_sign r" "vval r \<noteq> 0" "native_ok 64 l r"
  shows "\<exists>q. mod_core l r = Some q \<and> core_result l (tmod (vval l) (vval r)) q"
proof (cases "has_sign l")
  case sg: True
  show ?thesis
  proof (cases "len l \<le> 64")
    case True
    have l: "sint (as_long l) = vval l" by (rule native_long [OF assms(1) sg True])
    have r: "sint (as_long r) = vval r"
      using as_long_value [of r] assms(2,5) sg True by (simp add: native_ok_def proper_def)
    have "tmod LONG_MIN (- 1) = 0" by (simp add: tmod_def LONG_MIN_def)
    then have "(if vval l = LONG_MIN \<and> vval r = - 1 then 0 else tmod (vval l) (vval r)) =
        tmod (vval l) (vval r)" by auto
    then show ?thesis using l r assms sg True core_result_native [OF assms(1)]
      by (simp add: mod_core_def Let_def)
  next
    case False
    obtain a b where a: "magnitude l = Some (a, vval l < 0)" "proper a" "\<not> has_sign a"
        "vval a = \<bar>vval l\<bar>" "len l \<le> len a"
      and b: "magnitude r = Some (b, vval r < 0)" "proper b" "\<not> has_sign b" "vval b = \<bar>vval r\<bar>"
      using magnitude_value assms sg by meson
    obtain m where m: "unsigned_modulus a b = Some m" "magn m" "len a \<le> len m"
        "vval m = \<bar>vval l\<bar> mod \<bar>vval r\<bar>"
      using unsigned_modulus_value [of a b] a b assms(4) by auto
    have c: "mod_core l r = (if vval l < 0 then op_neg m else Some m)"
      using assms sg a(1) b(1) m(1) False by (simp add: mod_core_def)
    have mm: "proper m" "\<not> has_sign m" "uval (vbits m) = \<bar>vval l\<bar> mod \<bar>vval r\<bar>"
      using m by (auto simp: magn_def vval_def)
    show ?thesis
    proof (cases "vval l < 0")
      case True
      obtain n where "op_neg m = Some n" "len n = len m" "\<not> has_sign n" "proper n"
          "uval (vbits n) = (- vval m) mod 2 ^ len m"
        using op_neg_modular [OF mm(1)] mm(2) by auto
      then show ?thesis using c True m a(5) assms(4) by (auto simp: core_result_def tmod_signs)
    next
      case False
      moreover have "uval (vbits m) = uval (vbits m) mod 2 ^ len m" using uval_less [of "vbits m"] by simp
      ultimately show ?thesis using c m mm a(5) assms(4) by (auto simp: core_result_def tmod_signs)
    qed
  qed
next
  case us: False
  have usr: "\<not> has_sign r" using us assms(3) by simp
  have nn: "0 \<le> vval l" "0 < vval r"
    using vval_unsigned_range [OF us] vval_unsigned_range [OF usr] assms(4) by auto
  show ?thesis
  proof (cases "len l \<le> 64")
    case True
    have "uint (as_ulong l) = vval l" by (rule native_ulong_len [OF assms(1) us True])
    moreover have "uint (as_ulong r) = vval r"
      using native_ulong [OF assms(2) usr] assms(5) us True by (simp add: native_ok_def)
    ultimately show ?thesis using us True assms(4) nn core_result_native [OF assms(1)]
      by (simp add: mod_core_def Let_def tmod_nonneg)
  next
    case False
    obtain m where m: "unsigned_modulus l r = Some m" "magn m" "len l \<le> len m" "vval m = vval l mod vval r"
      using unsigned_modulus_value [OF assms(1,2) us usr assms(4)] by auto
    moreover have "uval (vbits m) = uval (vbits m) mod 2 ^ len m" using uval_less [of "vbits m"] by simp
    ultimately show ?thesis using us usr False nn
      by (auto simp: mod_core_def core_result_def tmod_nonneg magn_def vval_def)
  qed
qed


lemma core_result_reads:
  assumes "core_result l t q" "proper l"
    "if has_sign l then in_signed (len l) t else 0 \<le> t \<and> t < 2 ^ len l"
  shows "vval (q\<lparr>has_sign := has_sign l\<rparr>) = t"
proof (cases "vval (q\<lparr>has_sign := has_sign l\<rparr>) = t")
  case False
  with assms(1) have q: "len l \<le> len q" "uval (vbits q) = t mod 2 ^ len q" "proper q"
    by (auto simp: core_result_def)
  have le: "(2 :: int) ^ len l \<le> 2 ^ len q" using q(1) by simp
  show ?thesis
  proof (cases "has_sign l")
    case True
    then have "in_signed (len q) t" using assms(3) in_signed_mono q(1) by auto
    then have "sval (vbits q) = t" using q(2,3) by (intro sval_eqI) (auto simp: proper_def)
    then show ?thesis using True by (simp add: vval_def)
  next
    case F: False
    then have t: "0 \<le> t" "t < 2 ^ len q" using assms(3) less_le_trans [OF _ le] by auto
    then have "uval (vbits q) = t" using q(2) by simp
    then show ?thesis using F by (simp add: vval_def)
  qed
qed

lemma core_result_mod:
  assumes "core_result l t q"
  shows "vval q mod 2 ^ len l = t mod 2 ^ len l"
proof -
  have "vval q = t \<or> (len l \<le> len q \<and> vval q = t mod 2 ^ len q)"
    using assms by (auto simp: core_result_def vval_def)
  then show ?thesis by (metis mod_mod_cancel le_imp_power_dvd)
qed

lemma is_zero_vval: "proper v \<Longrightarrow> is_zero v \<longleftrightarrow> vval v = 0"
proof -
  assume p: "proper v"
  have "vval v = 0 \<longleftrightarrow> uval (vbits v) = 0"
  proof -
    have "vbits v \<noteq> [] \<Longrightarrow> last (vbits v) = V1 \<Longrightarrow> V1 \<in> set (vbits v)" by (metis last_in_set)
    then show ?thesis using uval_less [of "vbits v"] by (auto simp: vval_def sval_def uval_zero_iff)
  qed
  then show ?thesis using p is_zero_uval [of v] by (simp add: proper_def)
qed

lemma div_frame_sized:
  assumes "proper l" "proper r" "vval r \<noteq> 0" "has_len l" "has_len r"
    "core l r = Some q" "core_result l t q"
  shows "\<exists>c. div_frame core l r = Some c \<and> len c = len l \<and> has_len c \<and>
    has_sign c = (has_sign l \<and> has_sign r) \<and> proper c \<and> uval (vbits c) = t mod 2 ^ len l"
proof -
  have q: "is_defined q" "0 < len q" "is_single q \<longrightarrow> len l \<le> len q"
    using assms(7) by (auto simp: core_result_def proper_def)
  obtain c where c: "cast_to_width q (len l) = Some c" "len c = len l" "has_len c" "is_defined c"
      "uval (vbits c) = vval q mod 2 ^ len l"
    using cast_to_width_value [OF q] by blast
  have d: "is_defined l" "is_defined r" "\<not> is_zero r"
    using assms is_zero_vval by (auto simp: proper_def)
  let ?c = "c\<lparr>has_sign := has_sign l \<and> has_sign r\<rparr>"
  have "div_frame core l r = Some (trim_vnum ?c)"
    using d assms(4-6) c(1) by (simp add: div_frame_def Let_def)
  moreover have "trim_vnum ?c = ?c" using c(3) by (intro trim_vnum_flags) simp
  ultimately show ?thesis
    using c core_result_mod [OF assms(7)] assms(1) by (auto simp: proper_def is_defined_def)
qed

lemma div_frame_unsized:
  assumes "proper l" "proper r" "vval r \<noteq> 0" "\<not> (has_len l \<and> has_len r)" "has_sign l = has_sign r"
    "core l r = Some q" "core_result l t q"
    "if has_sign l then in_signed (len l) t else 0 \<le> t \<and> t < 2 ^ len l"
  shows "\<exists>c. div_frame core l r = Some c \<and> has_sign c = has_sign l \<and> proper c \<and> vval c = t"
proof -
  let ?c = "q\<lparr>has_sign := has_sign l\<rparr>"
  have d: "is_defined l" "is_defined r" "\<not> is_zero r"
    using assms is_zero_vval by (auto simp: proper_def)
  have "div_frame core l r = Some (trim_vnum ?c)"
    using d assms(4-6) by (auto simp: div_frame_def Let_def)
  moreover have "vval (trim_vnum ?c) = t"
    using core_result_reads [OF assms(7,1,8)] by (simp only: trim_vnum_vval)
  moreover have "is_defined ?c" "0 < len ?c"
    using assms(7) by (auto simp: core_result_def proper_def is_defined_def)
  ultimately show ?thesis
    using trim_vnum_defined [of ?c] trim_vnum_len [of ?c] trim_vnum_flags(2) [of ?c]
    by (auto simp: proper_def)
qed

text \<open>The quotient and the remainder fit the bits of the dividend, but for the one signed overflow.\<close>

lemma tdiv_abs_le: "\<bar>tdiv a b\<bar> \<le> \<bar>a\<bar>"
proof (cases "b = 0")
  case False
  have "\<bar>a\<bar> div \<bar>b\<bar> \<le> \<bar>a\<bar>" using False zdiv_mono2 [of "\<bar>a\<bar>" 1 "\<bar>b\<bar>"] by simp
  moreover have "0 \<le> \<bar>a\<bar> div \<bar>b\<bar>" using False by (simp add: div_int_pos_iff)
  ultimately show ?thesis by (auto simp: tdiv_def abs_mult sgn_if)
qed (simp add: tdiv_def)

lemma tmod_abs_le: "b \<noteq> 0 \<Longrightarrow> \<bar>tmod a b\<bar> \<le> \<bar>a\<bar>"
  by (auto simp: tmod_def abs_mult sgn_if zmod_le_nonneg_dividend)


section \<open>Properties\<close>

text \<open>C34. Sized division: for fully known operands of fixed width that are both signed or both
  unsigned, with a non-zero divisor, and a divisor that fits the 64-bit machine type when the dividend
  is so narrow that the code divides natively (at most 63 bits signed, 64 unsigned), the result has the
  width of the dividend and holds the quotient rounded towards zero, modulo that width. The width is
  the dividend's also when the divisor is wider, where the comment on the operators promises the
  larger width of the language rules.\<close>

theorem op_div_sized:
  assumes "proper l" "proper r" "has_sign l = has_sign r" "vval r \<noteq> 0" "native_ok 63 l r"
    "has_len l" "has_len r"
  shows "\<exists>c. op_div l r = Some c \<and> len c = len l \<and> has_len c \<and> has_sign c = has_sign l \<and> proper c \<and>
    uval (vbits c) = tdiv (vval l) (vval r) mod 2 ^ len l"
proof -
  obtain q where "div_core l r = Some q" "core_result l (tdiv (vval l) (vval r)) q"
    using div_core_value assms by blast
  then show ?thesis using div_frame_sized [OF assms(1,2,4,6,7)] assms(3) by (auto simp: op_div_def)
qed

theorem op_div_sized_witness:
  "\<exists>c. op_div (mk_vnum [V1, V0, V0, V1, V0, V1] True True) (mk_vnum [V0, V1, V0] True True) = Some c \<and>
     uval (vbits c) = tdiv (- 23) 2 mod 64"
  using op_div_sized [of "mk_vnum [V1, V0, V0, V1, V0, V1] True True" "mk_vnum [V0, V1, V0] True True"]
  by (auto simp: proper_def native_ok_def vval_def sval_def in_signed_def)

text \<open>Sized modulus: under the same conditions the result is the remainder with the
  sign of the dividend, modulo the width of the dividend.\<close>

theorem op_mod_sized:
  assumes "proper l" "proper r" "has_sign l = has_sign r" "vval r \<noteq> 0" "native_ok 64 l r"
    "has_len l" "has_len r"
  shows "\<exists>c. op_mod l r = Some c \<and> len c = len l \<and> has_len c \<and> has_sign c = has_sign l \<and> proper c \<and>
    uval (vbits c) = tmod (vval l) (vval r) mod 2 ^ len l"
proof -
  obtain q where "mod_core l r = Some q" "core_result l (tmod (vval l) (vval r)) q"
    using mod_core_value assms by blast
  then show ?thesis using div_frame_sized [OF assms(1,2,4,6,7)] assms(3) by (auto simp: op_mod_def)
qed

theorem op_mod_sized_witness:
  "\<exists>c. op_mod (mk_vnum [V1, V0, V0, V1, V0, V1] True True) (mk_vnum [V0, V1, V0] True True) = Some c \<and>
     uval (vbits c) = tmod (- 23) 2 mod 64"
  using op_mod_sized [of "mk_vnum [V1, V0, V0, V1, V0, V1] True True" "mk_vnum [V0, V1, V0] True True"]
  by (auto simp: proper_def native_ok_def vval_def sval_def in_signed_def)

lemma tmod_in_signed:
  assumes "in_signed n a" "b \<noteq> 0"
  shows "in_signed n (tmod a b)"
proof -
  define m p where "m = \<bar>a\<bar> mod \<bar>b\<bar>" and "p = (2::int) ^ n"
  have "0 \<le> m" "m \<le> \<bar>a\<bar>" using assms(2) by (simp_all add: m_def zmod_le_nonneg_dividend)
  moreover have "0 < p" by (simp add: p_def)
  moreover have "tmod a b = (if a < 0 then - m else m)" by (simp add: tmod_signs [OF assms(2)] m_def)
  ultimately show ?thesis using assms(1) unfolding in_signed_def p_def [symmetric]
    by (auto simp: abs_if)
qed

text \<open>Unsized division and modulus: apart from the one quotient that overflows the
  dividend's bits, both results denote the exact quotient and remainder, and together they
  give the dividend back.\<close>

theorem op_divmod_unsized:
  assumes "proper l" "proper r" "has_sign l = has_sign r" "vval r \<noteq> 0" "native_ok 63 l r" "native_ok 64 l r"
    "\<not> (has_len l \<and> has_len r)" "has_sign l \<longrightarrow> in_signed (len l) (tdiv (vval l) (vval r))"
  shows "\<exists>q m. op_div l r = Some q \<and> op_mod l r = Some m \<and> vval q = tdiv (vval l) (vval r) \<and>
    vval m = tmod (vval l) (vval r) \<and> vval l = vval q * vval r + vval m"
proof -
  let ?x = "vval l" and ?y = "vval r"
  have x: "if has_sign l then in_signed (len l) ?x else 0 \<le> ?x \<and> ?x < 2 ^ len l"
    using vval_signed_range [OF assms(1)] vval_unsigned_range [of l] by simp
  have y: "\<not> has_sign l \<Longrightarrow> 0 < ?y" using vval_unsigned_range [of r] assms(3,4) by auto
  have rq: "if has_sign l then in_signed (len l) (tdiv ?x ?y) else 0 \<le> tdiv ?x ?y \<and> tdiv ?x ?y < 2 ^ len l"
    using assms(8) x y tdiv_abs_le [of ?x ?y]
    by (auto simp: tdiv_nonneg pos_imp_zdiv_nonneg_iff)
  have rm: "if has_sign l then in_signed (len l) (tmod ?x ?y) else 0 \<le> tmod ?x ?y \<and> tmod ?x ?y < 2 ^ len l"
    using x y tmod_in_signed [OF _ assms(4)] tmod_abs_le [OF assms(4), of ?x] by (auto simp: tmod_nonneg)
  obtain q where "div_core l r = Some q" "core_result l (tdiv ?x ?y) q"
    using div_core_value assms by blast
  then obtain c where c: "op_div l r = Some c" "vval c = tdiv ?x ?y"
    using div_frame_unsized [OF assms(1,2,4,7,3) _ _ rq] by (auto simp: op_div_def)
  obtain q' where "mod_core l r = Some q'" "core_result l (tmod ?x ?y) q'"
    using mod_core_value assms by blast
  then obtain m where m: "op_mod l r = Some m" "vval m = tmod ?x ?y"
    using div_frame_unsized [OF assms(1,2,4,7,3) _ _ rm] by (auto simp: op_mod_def)
  have "?x = tdiv ?x ?y * ?y + tmod ?x ?y" by (rule tdiv_tmod [OF assms(4)])
  then show ?thesis using c m by auto
qed

theorem op_divmod_unsized_witness:
  "\<exists>q m. op_div (mk_vnum [V1, V0, V0, V1, V0, V1] False True) (mk_vnum [V0, V1, V0] False True) = Some q \<and>
     op_mod (mk_vnum [V1, V0, V0, V1, V0, V1] False True) (mk_vnum [V0, V1, V0] False True) = Some m \<and>
     vval q = - 11 \<and> vval m = - 1"
proof -
  let ?l = "mk_vnum [V1, V0, V0, V1, V0, V1] False True" and ?r = "mk_vnum [V0, V1, V0] False True"
  have v: "vval ?l = - 23" "vval ?r = 2" by (simp_all add: vval_def sval_def)
  have "proper ?l" "proper ?r" "native_ok 63 ?l ?r" "native_ok 64 ?l ?r"
    by (simp_all add: proper_def native_ok_def v in_signed_def)
  then show ?thesis
    using op_divmod_unsized [of ?l ?r] unfolding v by (auto simp: in_signed_def tdiv_def tmod_def)
qed

text \<open>Three inputs on which the native fast paths of division miss the exact
  quotient: the unsized quotient of the most negative value by minus one wraps, a signed divisor
  whose low 63 bits are zero traps the machine division, and an unsigned divisor above the
  native range is taken as the largest native value.\<close>

theorem op_div_findings:
  "map_option vval (op_div (mk_vnum [V0, V1] False True) (mk_vnum [V1, V1] False True)) = Some (- 2) \<and>
   op_div (mk_vnum [V1, V0, V1, V0] True True) (mk_vnum (replicate 63 V0 @ [V1, V0]) True True) = None \<and>
   map_option vval (op_div (mk_vnum (replicate 64 V1) False False)
     (mk_vnum (replicate 64 V0 @ [V1]) False False)) = Some 1"
  by (intro conjI; code_simp)

end
