(* ===== verification/Verinum_Pow.thy ===== *)
theory Verinum_Pow
  imports Verinum_Div
begin

text \<open>
  The power operator of the compiler's numbers (\<open>pow\<close> and \<open>recursive_pow\<close> of verinum.cc):
  square-and-multiply on the exponent, its termination, and its meaning on the integers the
  operands denote, for sized and unsized bases and for negative exponents.
\<close>

section \<open>The operator\<close>

definition make_p_one :: "nat \<Rightarrow> bool \<Rightarrow> bool \<Rightarrow> verinum option" where
  "make_p_one n h s = map_option (\<lambda>v. v\<lparr>has_sign := s\<rparr>)
     (set_bit (verinum_fill V0 (if h then n else 2) h) 0 V1)"

definition make_m_one :: "nat \<Rightarrow> bool \<Rightarrow> bool \<Rightarrow> verinum" where
  "make_m_one n h s = (verinum_fill V1 (if h then n else 1) h)\<lparr>has_sign := s\<rparr>"

text \<open>The two C++ functions call each other; here \<open>recursive_pow\<close> takes the call
  \<^verbatim>\<open>pow(left, _)\<close> as an argument and \<open>pow_vnum\<close> ties the knot.\<close>

definition recursive_pow :: "(verinum \<Rightarrow> verinum option) \<Rightarrow> verinum \<Rightarrow> verinum \<Rightarrow> verinum option" where
  "recursive_pow pow_left left right =
     (if is_zero right then make_p_one (len left) (has_len left) (has_sign left)
      else do { b0 \<leftarrow> get right 0;
                if b0 = V1
                then do { right' \<leftarrow> set_bit right 0 V0; result \<leftarrow> pow_left right'; op_mul left result }
                else do { right' \<leftarrow> op_shr right 1; result \<leftarrow> pow_left right'; op_mul result result } })"

text \<open>The result for a negative exponent.\<close>

definition pow_negative :: "verinum \<Rightarrow> verinum \<Rightarrow> verinum \<Rightarrow> verinum \<Rightarrow> verinum option" where
  "pow_negative p_one m_one left right =
     (if is_zero left then Some ((verinum_fill Vx (len left) (has_len left))\<lparr>has_sign := has_sign left\<rparr>)
      else do {
        m \<leftarrow> (if has_sign left then map_option (\<lambda>e. e \<noteq> V0) (op_eq left m_one) else Some False);
        if m then map_option (\<lambda>b. if b = V0 then p_one else m_one) (get right 0)
        else do {
          p \<leftarrow> op_eq left p_one;
          Some (if p \<noteq> V0 then p_one
                else (verinum_fill V0 (len left) (has_len left))\<lparr>has_sign := has_sign left\<rparr>) } })"

lemma recursive_pow_cong [fundef_cong]:
  assumes "l = l'" "r = r'"
    "\<And>s. \<not> is_zero r' \<Longrightarrow> get r' 0 = Some V1 \<Longrightarrow> set_bit r' 0 V0 = Some s \<Longrightarrow> f s = g s"
    "\<And>s b. \<not> is_zero r' \<Longrightarrow> get r' 0 = Some b \<Longrightarrow> b \<noteq> V1 \<Longrightarrow> op_shr r' 1 = Some s \<Longrightarrow> f s = g s"
  shows "recursive_pow f l r = recursive_pow g l' r'"
  using assms by (auto simp: recursive_pow_def intro!: bind_option_cong)

text \<open>Clearing an odd exponent's bit 0 takes one off; the exponent is a defined number.\<close>

lemma set_bit0_value:
  assumes "proper v" "get v 0 = Some V1" "set_bit v 0 V0 = Some w" "0 \<le> vval v"
  shows "proper w" "vval w = vval v - 1" "has_len w = has_len v" "has_sign w = has_sign v"
proof -
  obtain bs where bs: "vbits v = V1 # bs" using assms(1,2) by (cases "vbits v") (auto simp: get_def proper_def)
  then have w: "w = v\<lparr>vbits := V0 # bs\<rparr>" using assms(3) by (auto simp: set_bit_def)
  show "proper w" using assms(1) bs by (simp add: proper_def w is_defined_def)
  show "has_len w = has_len v" "has_sign w = has_sign v" by (simp_all add: w)
  have "has_sign v \<Longrightarrow> last (vbits v) \<noteq> V1" using assms(4) sval_last [of "vbits v"] bs by (auto simp: vval_def)
  then show "vval w = vval v - 1" by (auto simp: vval_def sval_def w bs split: if_splits)
qed

lemma nonneg_odd:
  assumes "proper v"
  shows "\<exists>b. get v 0 = Some b \<and> (b = V1 \<longleftrightarrow> odd (vval v))"
proof -
  have "vval v mod 2 ^ len v mod 2 = vval v mod 2" using assms
    by (intro mod_mod_cancel) (auto simp: proper_def intro: dvd_power)
  then have "uval (vbits v) mod 2 = vval v mod 2" by (simp add: vval_mod)
  then have "odd (uval (vbits v)) \<longleftrightarrow> odd (vval v)" by (metis even_iff_mod_2_eq_zero)
  moreover have "odd (uval (vbits v)) \<longleftrightarrow> vbits v ! 0 = V1"
    using bit_uval [of "vbits v" 0] assms by (auto simp: bit_0 proper_def)
  ultimately show ?thesis using assms by (auto simp: get_def proper_def)
qed

lemma exponent_step:
  assumes "is_defined r" "\<not> is_zero r" "is_negative r = Some False"
  shows "proper r" "0 < vval r"
proof -
  show p: "proper r" using assms by (auto simp: proper_def is_zero_def)
  show "0 < vval r" using is_negative_vval [OF assms(1,3)] is_zero_vval [OF p] assms(2) by auto
qed

function pow_vnum :: "verinum \<Rightarrow> verinum \<Rightarrow> verinum option" where
  "pow_vnum left right =
     do { p_one \<leftarrow> make_p_one (len left) (has_len left) (has_sign left);
          let m_one = make_m_one (len left) (has_len left) (has_sign left);
          result \<leftarrow>
            (if \<not> is_defined left \<or> \<not> is_defined right
             then Some ((verinum_fill Vx (len left) (has_len left))\<lparr>has_sign := has_sign left\<rparr>)
             else if is_zero right then Some p_one
             else do { neg \<leftarrow> is_negative right;
                       if neg then pow_negative p_one m_one left right
                       else recursive_pow (pow_vnum left) left right });
          Some (trim_vnum result) }"
  by pat_completeness auto

termination
proof (relation "measure (\<lambda>(l, r). nat (vval r))", simp, goal_cases)
  case (1 l r p m neg s)
  then have pr: "proper r" "0 < vval r" using exponent_step [of r] by auto
  then show ?case using set_bit0_value [OF pr(1), of s] 1 by auto
next
  case (2 l r p m neg s b)
  then have pr: "proper r" "0 < vval r" using exponent_step [of r] by auto
  then show ?case using op_shr_value [OF pr(1), of 1] 2 by auto
qed

declare pow_vnum.simps [simp del]

section \<open>Non-negative exponents\<close>

text \<open>What a result stands for: the base's power, modulo the width when the base is sized.\<close>

definition power_of :: "verinum \<Rightarrow> nat \<Rightarrow> verinum \<Rightarrow> bool" where
  "power_of l n c \<longleftrightarrow> proper c \<and> has_len c = has_len l \<and> has_sign c = has_sign l \<and>
     (if has_len l then len c = len l \<and> uval (vbits c) = vval l ^ n mod 2 ^ len l
      else vval c = vval l ^ n)"

lemma power_of_base: "proper l \<Longrightarrow> power_of l 1 l"
  by (simp add: power_of_def vval_mod)

lemma power_of_mul:
  assumes "power_of l a c" "power_of l b d"
  shows "\<exists>e. op_mul c d = Some e \<and> power_of l (a + b) e"
proof (cases "has_len l")
  case True
  then have "vval c mod 2 ^ len l = vval l ^ a mod 2 ^ len l" "vval d mod 2 ^ len l = vval l ^ b mod 2 ^ len l"
    using assms vval_mod [of c] vval_mod [of d] by (auto simp: power_of_def)
  then have "vval c * vval d mod 2 ^ len l = vval l ^ (a + b) mod 2 ^ len l"
    by (metis mod_mult_eq power_add)
  then show ?thesis using op_mul_sized [of c d] assms True by (auto simp: power_of_def)
next
  case False
  then show ?thesis using op_mul_unsized [of c d] assms by (auto simp: power_of_def power_add)
qed

lemma power_of_trim: "power_of l n c \<Longrightarrow> power_of l n (trim_vnum c)"
  using trim_vnum_defined [of c] trim_vnum_len [of c]
  by (auto simp: power_of_def trim_vnum_flags trim_vnum_vval proper_def)

lemma make_p_one_power:
  assumes "proper l"
  shows "\<exists>c. make_p_one (len l) (has_len l) (has_sign l) = Some c \<and> power_of l 0 c \<and> is_defined c"
proof -
  obtain n where n: "len l = Suc n" using assms by (cases "len l") (auto simp: proper_def)
  have "uval (V1 # replicate n V0) = 1" by simp
  moreover have "1 mod 2 ^ Suc n = (1 :: int)" by (subst one_mod_2_pow_eq) simp
  ultimately show ?thesis using n
    by (auto simp: make_p_one_def set_bit_def verinum_fill_def verinum_bits_def power_of_def proper_def is_defined_def
      vval_def sval_def numeral_2_eq_2)
qed

lemma recursive_pow_value:
  assumes l: "proper l" and r: "proper r" "0 < vval r"
    and IH: "\<And>s. proper s \<Longrightarrow> 0 \<le> vval s \<Longrightarrow> vval s < vval r \<Longrightarrow>
      \<exists>c. f s = Some c \<and> power_of l (nat (vval s)) c"
  shows "\<exists>c. recursive_pow f l r = Some c \<and> power_of l (nat (vval r)) c"
proof -
  have nz: "\<not> is_zero r" using is_zero_vval [OF r(1)] r(2) by simp
  obtain b where b: "get r 0 = Some b" "b = V1 \<longleftrightarrow> odd (vval r)" using nonneg_odd [OF r(1)] by blast
  show ?thesis
  proof (cases "b = V1")
    case True
    obtain s where s: "set_bit r 0 V0 = Some s" using b(1) by (auto simp: set_bit_def get_def split: if_splits)
    with set_bit0_value [OF r(1) _ s] b True r have ps: "proper s" "vval s = vval r - 1" by auto
    then obtain c where c: "f s = Some c" "power_of l (nat (vval r - 1)) c" using IH [of s] r by auto
    have "1 + nat (vval r - 1) = nat (vval r)" using r(2) by simp
    with power_of_mul [OF power_of_base [OF l] c(2)] show ?thesis
      using nz b(1) True s c(1) by (auto simp: recursive_pow_def)
  next
    case False
    obtain s where s: "op_shr r 1 = Some s" "proper s" "vval s = vval r div 2"
      using op_shr_value [OF r(1), of 1] by auto
    moreover have "vval r div 2 < vval r" using r(2) by (intro int_div_less_self) auto
    ultimately obtain c where c: "f s = Some c" "power_of l (nat (vval r div 2)) c"
      using IH [of s] r by auto
    have "nat (vval r div 2) + nat (vval r div 2) = nat (vval r)" using b(2) False r(2) by auto
    with power_of_mul [OF c(2) c(2)] show ?thesis
      using nz b(1) False s(1) c(1) by (auto simp: recursive_pow_def)
  qed
qed

lemma pow_vnum_value:
  "proper l \<Longrightarrow> proper r \<Longrightarrow> 0 \<le> vval r \<Longrightarrow>
   \<exists>c. pow_vnum l r = Some c \<and> power_of l (nat (vval r)) c"
proof (induction "nat (vval r)" arbitrary: r rule: less_induct)
  case less
  obtain p where p: "make_p_one (len l) (has_len l) (has_sign l) = Some p" "power_of l 0 p"
    using make_p_one_power [OF less.prems(1)] by blast
  obtain ng where ng: "is_negative r = Some ng" using less.prems(2) by (auto simp: is_negative_def proper_def)
  have "\<not> ng" using is_negative_vval [OF _ ng] less.prems by (auto simp: proper_def)
  have d: "is_defined l" "is_defined r" using less.prems by (auto simp: proper_def)
  show ?case
  proof (cases "is_zero r")
    case True
    then show ?thesis using is_zero_vval [OF less.prems(2)] p d power_of_trim
      by (subst pow_vnum.simps) auto
  next
    case False
    then have "0 < vval r" using is_zero_vval [OF less.prems(2)] less.prems(3) by simp
    then obtain c where "recursive_pow (pow_vnum l) l r = Some c" "power_of l (nat (vval r)) c"
      using recursive_pow_value [OF less.prems(1,2), of "pow_vnum l"] less.hyps less.prems(1) by auto
    then show ?thesis using p d ng \<open>\<not> ng\<close> False power_of_trim
      by (subst pow_vnum.simps) auto
  qed
qed

section \<open>Equality of numbers\<close>

lemma ext_bit_padded: "idx < n \<Longrightarrow> length bs \<le> n \<Longrightarrow> ext_bit bs p idx = padded bs p n ! idx"
  by (simp add: ext_bit_def nth_append)

lemma ext_bit_all:
  assumes "length bs \<le> n" "length cs \<le> n"
  shows "list_all (\<lambda>idx. ext_bit bs p idx = ext_bit cs q idx) [0..<n] \<longleftrightarrow> padded bs p n = padded cs q n"
  using assms by (auto simp: list_all_iff ext_bit_padded list_eq_iff_nth_eq)

lemma padded_eq_iff:
  assumes "proper l" "proper r" "has_sign l = has_sign r" "sign_bit l = Some lp" "sign_bit r = Some rp"
    and n: "n = max (len l) (len r)"
  shows "padded (vbits l) lp n = padded (vbits r) rp n \<longleftrightarrow> vval l = vval r"
proof
  have d: "is_defined l" "is_defined r" "0 < len l" "0 < len r" using assms by (auto simp: proper_def)
  have u: "uval (padded (vbits l) lp n) = vval l mod 2 ^ n" "uval (padded (vbits r) rp n) = vval r mod 2 ^ n"
    using assms by (simp_all add: padded_value)
  show "vval l = vval r" if "padded (vbits l) lp n = padded (vbits r) rp n"
  proof (cases "has_sign l")
    case True
    have "in_signed n (vval l)" "in_signed n (vval r)"
      using in_signed_mono [OF vval_signed_range [OF assms(1) True], of n]
        in_signed_mono [OF vval_signed_range [OF assms(2)], of n] True assms(3) n by simp_all
    moreover have "vval l mod 2 ^ n = vval r mod 2 ^ n" using u by (simp only: that)
    ultimately show ?thesis by (rule in_signed_unique)
  next
    case False
    have "(2 :: int) ^ len l \<le> 2 ^ n" "(2 :: int) ^ len r \<le> 2 ^ n" using n by simp_all
    then have "0 \<le> vval l" "vval l < 2 ^ n" "0 \<le> vval r" "vval r < 2 ^ n"
      using vval_unsigned_range [of l] vval_unsigned_range [of r] False assms(3)
      by (blast intro: less_le_trans)+
    moreover have "vval l mod 2 ^ n = vval r mod 2 ^ n" using u by (simp only: that)
    ultimately show ?thesis by simp
  qed
  show "padded (vbits l) lp n = padded (vbits r) rp n" if "vval l = vval r"
    using u that padded_known d assms(4,5) n by (intro uval_inject) auto
qed

lemma sign_bit_negative:
  "has_sign v \<Longrightarrow> sign_bit v = Some s \<Longrightarrow> s = V1 \<longleftrightarrow> vval v < 0"
  using sign_bit_last [of v s] sval_last [of "vbits v"] uval_nonneg [of "vbits v"]
  by (cases "s = V1") (simp_all add: vval_def sval_def del: uval_nonneg)

lemma op_eq_value:
  assumes "proper l" "proper r" "has_sign l = has_sign r"
  shows "op_eq l r = Some (if vval l = vval r then V1 else V0)"
proof -
  obtain lp rp where s: "sign_bit l = Some lp" "sign_bit r = Some rp"
    using proper_sign_bit assms(1,2) by blast
  have "lp = V1 \<longleftrightarrow> vval l < 0" "rp = V1 \<longleftrightarrow> vval r < 0" if "has_sign l"
    using sign_bit_negative s that assms(3) by auto
  then show ?thesis using s assms(3) padded_eq_iff [OF assms s refl]
    by (auto simp: op_eq_def ext_bit_all sign_bit_def Let_def)
qed

section \<open>Negative exponents\<close>

text \<open>The integer part of \<open>x ^ (- n)\<close> for a non-zero \<open>x\<close>.\<close>

definition recip_power :: "int \<Rightarrow> int \<Rightarrow> int" where
  "recip_power x n = (if x = 1 then 1 else if x = - 1 then (if odd n then - 1 else 1) else 0)"

definition stands_for :: "verinum \<Rightarrow> int \<Rightarrow> verinum \<Rightarrow> bool" where
  "stands_for l x c \<longleftrightarrow> proper c \<and> has_len c = has_len l \<and> has_sign c = has_sign l \<and>
     (if has_len l then len c = len l \<and> uval (vbits c) = x mod 2 ^ len l else vval c = x)"

lemma power_of_stands: "power_of l n c = stands_for l (vval l ^ n) c"
  by (simp add: power_of_def stands_for_def)

lemma stands_for_trim: "stands_for l x c \<Longrightarrow> stands_for l x (trim_vnum c)"
  using trim_vnum_defined [of c] trim_vnum_len [of c]
  by (auto simp: stands_for_def trim_vnum_flags trim_vnum_vval proper_def)

lemma make_m_one_value:
  "proper l \<Longrightarrow> has_sign l \<Longrightarrow> stands_for l (- 1) (make_m_one (len l) (has_len l) (has_sign l)) \<and>
    vval (make_m_one (len l) (has_len l) (has_sign l)) = - 1"
  by (auto simp: stands_for_def make_m_one_def verinum_fill_def verinum_bits_def proper_def is_defined_def
    vval_def sval_def zmod_minus1 list_all_iff)

lemma zeros_stand:
  "proper l \<Longrightarrow> stands_for l 0 ((verinum_fill V0 (len l) (has_len l))\<lparr>has_sign := has_sign l\<rparr>)"
  by (auto simp: stands_for_def verinum_fill_def verinum_bits_def proper_def is_defined_def
    vval_def sval_def list_all_iff)

lemma stands_for_one:
  assumes "stands_for l 1 p" "proper l" "vval l \<noteq> 0" "has_sign l \<longrightarrow> vval l \<noteq> - 1"
  shows "vval p = 1"
proof (cases "has_len l")
  case True
  have u: "uval (vbits p) = 1 mod 2 ^ len l" "len p = len l" "has_sign p = has_sign l" "proper p" "0 < len l"
    using assms True by (auto simp: stands_for_def proper_def)
  show ?thesis
  proof (cases "has_sign l")
    case s: True
    have "len l \<noteq> 1" using vval_signed_range [OF assms(2) s] assms(3,4) s by (auto simp: in_signed_def)
    then obtain k where "len l = Suc (Suc k)" using u(5) by (cases "len l"; cases "len l - 1") auto
    moreover have "1 \<le> (2 :: int) ^ k" by simp
    ultimately have "in_signed (len l) 1" unfolding in_signed_def by (auto simp del: one_le_power)
    moreover have "in_signed (len l) (vval p)" using vval_signed_range [OF u(4)] u(2,3) s by simp
    moreover have "vval p mod 2 ^ len l = 1 mod 2 ^ len l" using vval_mod [of p] u(1,2) by simp
    ultimately show ?thesis using in_signed_unique by blast
  next
    case False
    then show ?thesis using u by (simp add: vval_def one_mod_2_pow_eq)
  qed
next
  case False
  then show ?thesis using assms(1) by (simp add: stands_for_def)
qed

lemma pow_negative_value:
  assumes "proper l" "proper r" "vval l \<noteq> 0"
    "make_p_one (len l) (has_len l) (has_sign l) = Some p"
  shows "\<exists>c. pow_negative p (make_m_one (len l) (has_len l) (has_sign l)) l r = Some c \<and>
    stands_for l (recip_power (vval l) (vval r)) c"
proof -
  let ?m = "make_m_one (len l) (has_len l) (has_sign l)"
  have p: "stands_for l 1 p" using make_p_one_power [OF assms(1)] assms(4) by (auto simp: power_of_stands)
  have nz: "\<not> is_zero l" using is_zero_vval [OF assms(1)] assms(3) by simp
  obtain b where b: "get r 0 = Some b" "b = V1 \<longleftrightarrow> odd (vval r)" using nonneg_odd [OF assms(2)] by blast
  have kb: "b = V0 \<longleftrightarrow> b \<noteq> V1" using assms(2) b(1)
    by (cases b) (auto simp: proper_def get_def is_defined_known dest: list_all_nthD split: if_splits)
  have m: "has_sign l \<Longrightarrow> op_eq l ?m = Some (if vval l = - 1 then V1 else V0)"
    using make_m_one_value [OF assms(1)] op_eq_value [OF assms(1), of ?m] by (simp add: stands_for_def)
  have e: "op_eq l p = Some (if vval l = vval p then V1 else V0)"
    using p op_eq_value [OF assms(1), of p] by (simp add: stands_for_def)
  show ?thesis
  proof (cases "has_sign l \<and> vval l = - 1")
    case True
    then show ?thesis using nz b kb m p make_m_one_value [OF assms(1)]
      by (simp add: pow_negative_def recip_power_def)
  next
    case False
    then have "vval p = 1" "vval l \<noteq> - 1"
      using stands_for_one [OF p assms(1,3)] vval_unsigned_range [of l] by auto
    then show ?thesis using False nz e m p zeros_stand [OF assms(1)]
      by (auto simp: pow_negative_def recip_power_def)
  qed
qed

section \<open>The claims\<close>

text \<open>C35. Power with a defined, non-negative exponent: the square-and-multiply recursion ends,
  keeps the base's width and sign flags, and its result is the base's power, modulo the width of
  a sized base and exact for an unsized one.\<close>

theorem pow_value:
  assumes "proper l" "proper r" "0 \<le> vval r"
  shows "\<exists>c. pow_vnum l r = Some c \<and> is_defined c \<and> has_len c = has_len l \<and> has_sign c = has_sign l \<and>
    (if has_len l then len c = len l \<and> uval (vbits c) = vval l ^ nat (vval r) mod 2 ^ len l
     else vval c = vval l ^ nat (vval r))"
  using pow_vnum_value [OF assms] by (auto simp: power_of_def proper_def)

theorem pow_value_witness:
  "\<exists>c. pow_vnum (mk_vnum [V1, V0, V1] False True) (mk_vnum [V1, V0, V1] True False) = Some c \<and>
    vval c = (- 3) ^ 5"
  using pow_value [of "mk_vnum [V1, V0, V1] False True" "mk_vnum [V1, V0, V1] True False"]
  by (auto simp: proper_def is_defined_def vval_def sval_def)

text \<open>Power with a negative exponent: a zero base gives all bits unknown, any
  other base the integer part of the reciprocal power (1, -1 by the exponent's parity, or 0).\<close>

theorem pow_negative_exponent:
  assumes "proper l" "proper r" "vval r < 0"
  shows "\<exists>c. pow_vnum l r = Some c \<and> has_len c = has_len l \<and> has_sign c = has_sign l \<and>
    (if vval l = 0 then list_all (\<lambda>b. b = Vx) (vbits c)
     else is_defined c \<and>
       (if has_len l then uval (vbits c) = recip_power (vval l) (vval r) mod 2 ^ len l
        else vval c = recip_power (vval l) (vval r)))"
proof -
  obtain p where p: "make_p_one (len l) (has_len l) (has_sign l) = Some p"
    using make_p_one_power [OF assms(1)] by blast
  have d: "is_defined l" "is_defined r" using assms by (auto simp: proper_def)
  have z: "\<not> is_zero r" "is_zero l \<longleftrightarrow> vval l = 0" using is_zero_vval assms by auto
  obtain ng where ng: "is_negative r = Some ng" using assms(2) by (auto simp: is_negative_def proper_def)
  have "ng" using is_negative_vval [OF d(2) ng] assms(3) by simp
  then have e: "pow_vnum l r = map_option trim_vnum (pow_negative p (make_m_one (len l) (has_len l) (has_sign l)) l r)"
    using p d z ng by (subst pow_vnum.simps) (simp add: map_conv_bind_option comp_def)
  show ?thesis
  proof (cases "vval l = 0")
    case True
    let ?x = "(verinum_fill Vx (len l) (has_len l))\<lparr>has_sign := has_sign l\<rparr>"
    have "list_all (\<lambda>b. b = Vx) (vbits ?x)" by (simp add: verinum_fill_def verinum_bits_def list_all_iff)
    then have "list_all (\<lambda>b. b = Vx) (vbits (trim_vnum ?x))"
      using trim_vnum_take [of ?x] by (auto simp: list_all_take)
    then show ?thesis using True e z by (simp add: pow_negative_def trim_vnum_flags verinum_fill_def verinum_bits_def)
  next
    case False
    obtain c where "pow_negative p (make_m_one (len l) (has_len l) (has_sign l)) l r = Some c"
        "stands_for l (recip_power (vval l) (vval r)) c"
      using pow_negative_value [OF assms(1,2) False p] by blast
    then show ?thesis using False e stands_for_trim [of l _ c] by (auto simp: stands_for_def proper_def)
  qed
qed

theorem pow_negative_exponent_witness:
  "\<exists>c. pow_vnum (mk_vnum [V1, V1, V1] False True) (mk_vnum [V1, V0, V1] True True) = Some c \<and>
    vval c = - 1"
  using pow_negative_exponent [of "mk_vnum [V1, V1, V1] False True" "mk_vnum [V1, V0, V1] True True"]
  by (auto simp: proper_def is_defined_def vval_def sval_def recip_power_def)

end
