(* ===== verification/Verinum_Claims.thy ===== *)
theory Verinum_Claims
  imports Verinum_Pow
begin

text \<open>
  What the number class promises to the rest of the compiler: conversions to and from native
  integers, the sorting order, trimming and casting, the printed form of strings, comparisons
  and the ring operations. Division and powers have their theorems in their own theories.
\<close>

section \<open>Native integers\<close>

lemma sint_in_signed: "in_signed 64 (sint (w :: 64 word))"
  using sint_greater_eq [of w] sint_less [of w] by (simp add: in_signed_def)

lemma vval_mk_vnum [simp]: "vval (mk_vnum bs h s) = (if s then sval bs else uval bs)"
  by (simp add: vval_def)

lemma int64_defined: "is_defined (verinum_int64 w)"
  by (simp add: is_defined_known verinum_int64_def verinum_bits_def Let_def)

text \<open>A number made from a native 64 bit signed integer denotes that integer and
  converts back to it.\<close>

theorem int64_roundtrip: "vval (verinum_int64 w) = sint w \<and> as_long (verinum_int64 w) = w"
proof -
  have "sint (as_long (verinum_int64 w)) = sint w"
    using as_long_value [OF int64_defined] by (simp add: verinum_int64_value sint_in_signed)
  then show ?thesis by (simp add: verinum_int64_value signed_word_eqI)
qed

text \<open>The three conversions of a defined number to a native unsigned type are
  exact when the bits fit the type and give its largest value otherwise.\<close>

theorem native_saturates:
  assumes "is_defined v"
  shows "uint (as_unsigned v) = min (uval (vbits v)) (2 ^ 32 - 1) \<and>
    uint (as_ulong v) = min (uval (vbits v)) (2 ^ 64 - 1) \<and>
    uint (as_ulong64 v) = min (uval (vbits v)) (2 ^ 64 - 1)"
  using assms as_uint_loop_saturates [of "vbits v", where 'w = 32] as_uint_loop_saturates [of "vbits v", where 'w = 64]
  by (auto simp: as_unsigned_def as_ulong_def as_ulong64_def)

theorem native_saturates_witness:
  "uint (as_unsigned (verinum_bits (replicate 33 V1) True)) = 2 ^ 32 - 1 \<and>
   uint (as_ulong (verinum_bits (replicate 33 V1) True)) = 2 ^ 33 - 1"
  using native_saturates [of "verinum_bits (replicate 33 V1) True"]
  by (simp add: is_defined_known verinum_bits_def)

section \<open>The sorting order\<close>

text \<open>The order the compiler sorts numbers by is a strict total order on bit strings:
  irreflexive, transitive, and any two numbers with different bits are ordered.\<close>

theorem before_order:
  "\<not> is_before u u \<and> (is_before u v \<and> is_before v w \<longrightarrow> is_before u w) \<and>
   (vbits u \<noteq> vbits v \<longrightarrow> is_before u v \<or> is_before v u)"
proof (intro conjI impI)
  show "\<not> is_before u u" by (simp add: is_before_def before_loop_irrefl)
  show "is_before u v \<and> is_before v w \<Longrightarrow> is_before u w"
    using before_loop_trans [of "vbits u" "vbits v" "len u" "vbits w"] by (auto simp: is_before_def split: if_splits)
  show "vbits u \<noteq> vbits v \<Longrightarrow> is_before u v \<or> is_before v u"
    using before_loop_total [of "vbits u" "vbits v"] by (auto simp: is_before_def)
qed

theorem before_order_witness:
  "is_before (verinum_bits [V0, V1] True) (verinum_bits [V1, V1, Vx] True)"
  using before_order [of "verinum_bits [V0, V1] True" "verinum_bits [V1, V1] True" "verinum_bits [V1, V1, Vx] True"]
  by (simp add: is_before_def verinum_bits_def less_V_def numeral_2_eq_2)

section \<open>Trimming and casting\<close>

text \<open>Trimming keeps the value and the flags; a number of fixed width is returned as
  it is, and a signed number without a fixed width keeps exactly one copy of its sign bit.\<close>

theorem trim_minimal:
  "vval (trim_vnum v) = vval v \<and> has_len (trim_vnum v) = has_len v \<and> has_sign (trim_vnum v) = has_sign v \<and>
   (has_len v \<longrightarrow> trim_vnum v = v) \<and>
   (\<not> has_len v \<and> has_sign v \<and> 2 \<le> len v \<longrightarrow>
     len (trim_vnum v) = 1 \<or> vbits (trim_vnum v) ! (len (trim_vnum v) - 2) \<noteq> last (vbits (trim_vnum v)))"
proof -
  have "len (trim_vnum v) = 1 \<or> vbits (trim_vnum v) ! (len (trim_vnum v) - 2) \<noteq> last (vbits (trim_vnum v))"
    if "\<not> has_len v" "has_sign v" "2 \<le> len v"
  proof -
    let ?b = "vbits v" and ?w = "sign_width (vbits v)"
    have b: "?b \<noteq> []" using that(3) by auto
    note s = sign_width_split [OF b]
    have t: "vbits (trim_vnum v) = take ?w ?b"
      using trim_vnum_signed [OF that(1,3,2)] by (simp add: verinum_bits_def)
    have "last (take ?w ?b) = last ?b" using s(1-3) b by (simp add: last_conv_nth)
    then show ?thesis using s(1,2,5) unfolding t by (auto simp: min_def)
  qed
  then show ?thesis using trim_vnum_vval [of v] trim_vnum_flags [of v] by blast
qed

theorem trim_minimal_witness:
  "vbits (trim_vnum (mk_vnum [V1, V0, V1, V1, V1] False True)) = [V1, V0, V1] \<and>
   vval (trim_vnum (mk_vnum [V1, V0, V1, V1, V1] False True)) = - 3"
  using trim_minimal [of "mk_vnum [V1, V0, V1, V1, V1] False True"]
  by (simp add: trim_vnum_def Let_def verinum_bits_def sval_def numeral_eq_Suc)

text \<open>A cast to a width gives a number of that width that is congruent to the value,
  so it is the value whenever it fits.\<close>

theorem cast_width:
  assumes "is_defined v" "0 < len v" "is_single v \<longrightarrow> w \<le> len v"
  shows "\<exists>r. cast_to_width v w = Some r \<and> len r = w \<and> has_len r \<and> has_sign r = has_sign v \<and>
    is_defined r \<and> uval (vbits r) = vval v mod 2 ^ w"
  by (rule cast_to_width_value [OF assms])

theorem cast_width_witness:
  "\<exists>r. cast_to_width (mk_vnum [V1, V0, V1] False True) 8 = Some r \<and> uval (vbits r) = 253"
  using cast_width [of "mk_vnum [V1, V0, V1] False True" 8]
  by (auto simp: sval_def)

section \<open>Strings\<close>

text \<open>C37. The printed form of a defined number of whole bytes reads back, through the
  escape processing, as a number with the same bits; and joining two string literals by printing
  both and reading the result is the concatenation of their bits.\<close>

theorem string_roundtrip:
  assumes "is_defined v" "0 < len v" "8 dvd len v" "string_ok u" "string_ok w"
  shows "(\<exists>s r. as_string v = Some s \<and> verinum_string s = Some r \<and> vbits r = vbits v) \<and>
    (\<exists>c. concat_vnum u w = Some c \<and> vbits c = vbits w @ vbits u)"
  using verinum_string_print [OF assms(1-3)] concat_vnum_bits [OF assms(4,5)] by auto

theorem string_roundtrip_witness:
  "\<exists>s r. as_string (verinum_bits (replicate 8 V0) True) = Some s \<and> verinum_string s = Some r \<and> vbits r = replicate 8 V0"
  using string_roundtrip [of "verinum_bits (replicate 8 V0) True" verinum_nil verinum_nil]
  by (simp add: is_defined_known verinum_bits_def string_ok_def verinum_nil_def)

section \<open>Comparison\<close>

text \<open>The six comparison operators of two defined numbers compare values: in two's
  complement when both are signed, unsigned otherwise.\<close>

theorem compare_values:
  assumes "proper l" "proper r"
  shows "(let x = (if has_sign l \<and> has_sign r then sval (vbits l) else uval (vbits l));
        y = (if has_sign l \<and> has_sign r then sval (vbits r) else uval (vbits r))
     in op_lt l r = Some (vbit (x < y)) \<and> op_le l r = Some (vbit (x \<le> y)) \<and>
        op_gt l r = Some (vbit (y < x)) \<and> op_ge l r = Some (vbit (y \<le> x)) \<and>
        (has_sign l = has_sign r \<longrightarrow> op_eq l r = Some (vbit (x = y)) \<and> op_ne l r = Some (vbit (x \<noteq> y))))"
proof -
  note c = op_cmp_value [OF assms(1,2)] op_cmp_value [OF assms(2,1)]
  have v: "has_sign l = has_sign r \<Longrightarrow> (if has_sign l \<and> has_sign r then sval (vbits l) else uval (vbits l)) = vval l \<and>
      (if has_sign l \<and> has_sign r then sval (vbits r) else uval (vbits r)) = vval r" by (simp add: vval_def)
  have "has_sign l = has_sign r \<longrightarrow> op_eq l r = Some (vbit (vval l = vval r)) \<and> op_ne l r = Some (vbit (vval l \<noteq> vval r))"
    using op_eq_value [OF assms] by (auto simp: op_ne_def vbit_def)
  moreover have "op_lt l r = Some (vbit (cmp_val l r l < cmp_val l r r))" "op_le l r = Some (vbit (cmp_val l r l \<le> cmp_val l r r))"
    "op_gt l r = Some (vbit (cmp_val l r r < cmp_val l r l))" "op_ge l r = Some (vbit (cmp_val l r r \<le> cmp_val l r l))"
    by (auto simp: op_lt_def op_le_def op_gt_def op_ge_def c verdict_def cmp_val_def vbit_def)
  ultimately show ?thesis unfolding Let_def cmp_val_def using v by auto
qed

theorem compare_values_witness:
  "op_lt (mk_vnum [V1, V1] False True) (mk_vnum [V1, V0, V0] True True) = Some V1 \<and>
   op_lt (mk_vnum [V1, V1] False False) (mk_vnum [V1, V0, V0] True True) = Some V0"
  using compare_values [of "mk_vnum [V1, V1] False True" "mk_vnum [V1, V0, V0] True True"]
    compare_values [of "mk_vnum [V1, V1] False False" "mk_vnum [V1, V0, V0] True True"]
  by (simp add: proper_def sval_def vbit_def Let_def)

section \<open>The ring operations\<close>

text \<open>C36. The sum of two fully known, non-empty numbers of fixed width is the sum of the values
  modulo the larger width, whatever their signedness; when an operand has no fixed width and both are
  signed or both unsigned it is exact, one bit longer when that is needed (with operands of different
  signedness it need not be: the signed one is then padded with its sign and the result read as
  unsigned). With an unknown bit in an operand every bit of the sum is x, as many as the wider
  operand has when both widths are fixed, and one otherwise.\<close>

theorem add_value:
  "(proper l \<and> proper r \<and> has_len l \<and> has_len r \<longrightarrow>
     (\<exists>c. op_add l r = Some c \<and> len c = max (len l) (len r) \<and> proper c \<and>
       uval (vbits c) = (vval l + vval r) mod 2 ^ max (len l) (len r))) \<and>
   (proper l \<and> proper r \<and> \<not> (has_len l \<and> has_len r) \<and> has_sign l = has_sign r \<longrightarrow>
     (\<exists>c. op_add l r = Some c \<and> has_sign c = has_sign l \<and> proper c \<and> vval c = vval l + vval r)) \<and>
   (\<not> is_defined l \<or> \<not> is_defined r \<longrightarrow> (\<exists>c. op_add l r = Some c \<and> vbits c \<noteq> [] \<and>
     vbits c = replicate (if has_len l \<and> has_len r then max (len l) (len r) else 1) Vx))"
proof (intro conjI)
  have "\<not> is_defined v \<Longrightarrow> len v > 0" for v by (auto simp: is_defined_def)
  then show "\<not> is_defined l \<or> \<not> is_defined r \<longrightarrow> (\<exists>c. op_add l r = Some c \<and> vbits c \<noteq> [] \<and>
      vbits c = replicate (if has_len l \<and> has_len r then max (len l) (len r) else 1) Vx)"
    by (auto simp: op_add_def Let_def max_def)
qed (use op_add_sized [of l r] op_add_unsized [of l r] in auto)

theorem add_value_witness:
  "\<exists>c. op_add (mk_vnum [V1, V1] False True) (mk_vnum [V0, V1] False True) = Some c \<and> vval c = - 3"
  using add_value [of "mk_vnum [V1, V1] False True" "mk_vnum [V0, V1] False True"]
  by (auto simp: proper_def sval_def)

text \<open>Difference and negation are modulo the width for fixed-width or unsigned
  numbers, and exact for signed numbers without a fixed width.\<close>

theorem sub_neg_value:
  "(proper l \<and> proper r \<and> (\<not> (has_sign l \<and> has_sign r) \<or> (has_len l \<and> has_len r)) \<longrightarrow>
     (\<exists>c. op_sub l r = Some c \<and> len c = max (len l) (len r) \<and> proper c \<and>
       uval (vbits c) = (vval l - vval r) mod 2 ^ max (len l) (len r))) \<and>
   (proper l \<and> proper r \<and> has_sign l \<and> has_sign r \<and> \<not> (has_len l \<and> has_len r) \<longrightarrow>
     (\<exists>c. op_sub l r = Some c \<and> has_sign c \<and> proper c \<and> vval c = vval l - vval r)) \<and>
   (proper r \<and> (\<not> has_sign r \<or> has_len r) \<longrightarrow>
     (\<exists>c. op_neg r = Some c \<and> len c = len r \<and> uval (vbits c) = (- vval r) mod 2 ^ len r)) \<and>
   (proper r \<and> has_sign r \<and> \<not> has_len r \<longrightarrow>
     (\<exists>c. op_neg r = Some c \<and> has_sign c \<and> proper c \<and> vval c = - vval r))"
proof (intro conjI impI; elim conjE)
  assume "proper l" "proper r" "\<not> (has_sign l \<and> has_sign r) \<or> (has_len l \<and> has_len r)"
  from op_sub_modular [OF this] show "\<exists>c. op_sub l r = Some c \<and> len c = max (len l) (len r) \<and> proper c \<and>
       uval (vbits c) = (vval l - vval r) mod 2 ^ max (len l) (len r)" by blast
next
  assume "proper r" "\<not> has_sign r \<or> has_len r"
  from op_neg_modular [OF this] show "\<exists>c. op_neg r = Some c \<and> len c = len r \<and> uval (vbits c) = (- vval r) mod 2 ^ len r"
    by blast
qed (use op_sub_signed_unsized [of l r] op_neg_signed_unsized [of r] in blast)+

theorem sub_neg_value_witness:
  "(\<exists>c. op_sub (mk_vnum [V0, V1] False True) (mk_vnum [V1, V0] False True) = Some c \<and> vval c = - 3) \<and>
   (\<exists>c. op_neg (mk_vnum [V0, V1] False True) = Some c \<and> vval c = 2)"
  using sub_neg_value [of "mk_vnum [V0, V1] False True" "mk_vnum [V1, V0] False True"]
    sub_neg_value [of "mk_vnum [V0, V1] False True" "mk_vnum [V0, V1] False True"]
  by (auto simp: proper_def sval_def)

text \<open>The product is modulo the larger width for two numbers of fixed width and exact,
  trimmed, otherwise.\<close>

theorem mul_value:
  "(proper l \<and> proper r \<and> has_len l \<and> has_len r \<longrightarrow>
     (\<exists>c. op_mul l r = Some c \<and> len c = max (len l) (len r) \<and> proper c \<and>
       uval (vbits c) = (vval l * vval r) mod 2 ^ max (len l) (len r))) \<and>
   (proper l \<and> proper r \<and> \<not> (has_len l \<and> has_len r) \<and> has_sign l = has_sign r \<longrightarrow>
     (\<exists>c. op_mul l r = Some c \<and> has_sign c = has_sign l \<and> proper c \<and> vval c = vval l * vval r))"
  using op_mul_sized [of l r] op_mul_unsized [of l r] by auto

theorem mul_value_witness:
  "\<exists>c. op_mul (mk_vnum [V1, V0, V1] False True) (mk_vnum [V1, V1, V0] False True) = Some c \<and> vval c = - 9"
  using mul_value [of "mk_vnum [V1, V0, V1] False True" "mk_vnum [V1, V1, V0] False True"]
  by (auto simp: proper_def sval_def)

text \<open>A left shift multiplies by a power of two, modulo the width if there is one;
  a right shift is the division that rounds down, on negative numbers too.\<close>

theorem shift_values:
  assumes "proper v"
  shows "(if has_len v
      then len (op_shl v s) = len v \<and> uval (vbits (op_shl v s)) = (vval v * 2 ^ s) mod 2 ^ len v
      else vval (op_shl v s) = vval v * 2 ^ s) \<and>
    (\<exists>c. op_shr v s = Some c \<and> has_len c = has_len v \<and> has_sign c = has_sign v \<and> vval c = vval v div 2 ^ s)"
proof
  show "\<exists>c. op_shr v s = Some c \<and> has_len c = has_len v \<and> has_sign c = has_sign v \<and> vval c = vval v div 2 ^ s"
    using op_shr_value [OF assms, of s] by blast
qed (simp add: op_shl_sized [OF assms] op_shl_unsized [OF assms])

theorem shift_values_witness:
  "vval (op_shl (mk_vnum [V1, V0, V1] False True) 4) = - 48 \<and>
   (\<exists>c. op_shr (mk_vnum [V1, V0, V1] True True) 1 = Some c \<and> vval c = - 2)"
  using shift_values [of "mk_vnum [V1, V0, V1] False True" 4] shift_values [of "mk_vnum [V1, V0, V1] True True" 1]
  by (auto simp: proper_def sval_def)

end
