(* ===== verification/Vvp_Bits.thy ===== *)
theory Vvp_Bits
  imports Prelude
begin

text \<open>
  The scalar values of the run time (vvp/vvp_net.h, vvp/vvp_net.cc): the four-valued bit with
  its fixed two-bit encoding and the operators computed on that encoding, edges, and the
  word-level carry routines that the wide arithmetic is built from.
\<close>

unbundle bit_operations_syntax

section \<open>Four-valued bits\<close>

datatype vvp_bit4 = BIT4_0 | BIT4_1 | BIT4_X | BIT4_Z

text \<open>The enumerator values, and the cast from an integer back to the enumeration.\<close>

fun bit4_code :: "vvp_bit4 \<Rightarrow> nat" where
  "bit4_code BIT4_0 = 0"
| "bit4_code BIT4_1 = 1"
| "bit4_code BIT4_X = 3"
| "bit4_code BIT4_Z = 2"

definition bit4_cast :: "nat \<Rightarrow> vvp_bit4" where
  "bit4_cast n = (if n = 0 then BIT4_0 else if n = 1 then BIT4_1 else if n = 2 then BIT4_Z else BIT4_X)"

definition vvp_bit4_to_ascii :: "vvp_bit4 \<Rightarrow> char" where
  "vvp_bit4_to_ascii a = ''01zx'' ! bit4_code a"

definition bit4_is_xz :: "vvp_bit4 \<Rightarrow> bool" where
  "bit4_is_xz a \<longleftrightarrow> bit4_code a \<ge> 2"

definition vvp_bit4_z2x :: "vvp_bit4 \<Rightarrow> vvp_bit4" where
  "vvp_bit4_z2x a = bit4_cast (bit4_code a OR drop_bit 1 (bit4_code a))"

definition bit4_not :: "vvp_bit4 \<Rightarrow> vvp_bit4" where
  "bit4_not a = vvp_bit4_z2x (bit4_cast (bit4_code a XOR 1))"

definition bit4_or :: "vvp_bit4 \<Rightarrow> vvp_bit4 \<Rightarrow> vvp_bit4" where
  "bit4_or a b = (if a = BIT4_1 \<or> b = BIT4_1 then BIT4_1
     else vvp_bit4_z2x (bit4_cast (bit4_code a OR bit4_code b)))"

definition bit4_and :: "vvp_bit4 \<Rightarrow> vvp_bit4 \<Rightarrow> vvp_bit4" where
  "bit4_and a b = (if a = BIT4_0 \<or> b = BIT4_0 then BIT4_0
     else vvp_bit4_z2x (bit4_cast (bit4_code a OR bit4_code b)))"

definition bit4_xor :: "vvp_bit4 \<Rightarrow> vvp_bit4 \<Rightarrow> vvp_bit4" where
  "bit4_xor a b = (if bit4_is_xz a then BIT4_X else if bit4_is_xz b then BIT4_X
     else if a = BIT4_0 then b else if b = BIT4_0 then a else BIT4_0)"

text \<open>\<^verbatim>\<open>add_with_carry\<close> on bits: the sum bit and the new carry. The switch has a case for
  every sum of three defined bits; its fall-through asserts.\<close>

definition bit4_add_with_carry :: "vvp_bit4 \<Rightarrow> vvp_bit4 \<Rightarrow> vvp_bit4 \<Rightarrow> (vvp_bit4 \<times> vvp_bit4) option" where
  "bit4_add_with_carry a b c =
     (if bit4_is_xz a \<or> bit4_is_xz b \<or> bit4_is_xz c then Some (BIT4_X, BIT4_X)
      else let s = bit4_code a + bit4_code b + bit4_code c
           in if s = 0 then Some (BIT4_0, c)
              else if s = 1 then Some (BIT4_1, BIT4_0)
              else if s = 2 then Some (BIT4_0, BIT4_1)
              else if s = 3 then Some (BIT4_1, BIT4_1)
              else None)"

text \<open>The VPI scalar codes \<open>vpi0\<close>, \<open>vpi1\<close>, \<open>vpiZ\<close>, \<open>vpiX\<close> are 0, 1, 2, 3; anything else
  asserts.\<close>

definition scalar_to_bit4 :: "int \<Rightarrow> vvp_bit4 option" where
  "scalar_to_bit4 s = (if s = 0 then Some BIT4_0 else if s = 1 then Some BIT4_1
     else if s = 3 then Some BIT4_X else if s = 2 then Some BIT4_Z else None)"

section \<open>Edges\<close>

definition VVP_EDGE :: "vvp_bit4 \<Rightarrow> vvp_bit4 \<Rightarrow> 16 word" where
  "VVP_EDGE fr to' = push_bit (push_bit 2 (bit4_code fr) OR bit4_code to') 1"

definition vvp_edge_posedge :: "16 word" where
  "vvp_edge_posedge = VVP_EDGE BIT4_0 BIT4_1 OR VVP_EDGE BIT4_0 BIT4_X OR VVP_EDGE BIT4_0 BIT4_Z
     OR VVP_EDGE BIT4_X BIT4_1 OR VVP_EDGE BIT4_Z BIT4_1"

definition vvp_edge_negedge :: "16 word" where
  "vvp_edge_negedge = VVP_EDGE BIT4_1 BIT4_0 OR VVP_EDGE BIT4_1 BIT4_X OR VVP_EDGE BIT4_1 BIT4_Z
     OR VVP_EDGE BIT4_X BIT4_0 OR VVP_EDGE BIT4_Z BIT4_0"

definition edge :: "vvp_bit4 \<Rightarrow> vvp_bit4 \<Rightarrow> int" where
  "edge fr to' = (let m = VVP_EDGE fr to'
     in if m AND vvp_edge_posedge \<noteq> 0 then 1 else if m AND vvp_edge_negedge \<noteq> 0 then - 1 else 0)"

section \<open>Word arithmetic with carry\<close>

definition ulong_add_with_carry :: "64 word \<Rightarrow> 64 word \<Rightarrow> 64 word \<Rightarrow> 64 word \<times> 64 word" where
  "ulong_add_with_carry a b carry =
     (let tmp = b + carry; sum = a + tmp
      in (sum, if tmp < b \<or> sum < tmp \<or> sum < a then 1 else 0))"

definition multiply_with_carry :: "64 word \<Rightarrow> 64 word \<Rightarrow> 64 word \<times> 64 word" where
  "multiply_with_carry a b =
     (let msk = push_bit 32 1 - 1;
          a0 = a AND msk; a1 = drop_bit 32 a AND msk;
          b0 = b AND msk; b1 = drop_bit 32 b AND msk;
          t00 = a0 * b0; r00 = t00 AND msk; c00 = drop_bit 32 t00 AND msk;
          t01 = a0 * b1; r01 = t01 AND msk; c01 = drop_bit 32 t01 AND msk;
          t10 = a1 * b0; r10 = t10 AND msk; c10 = drop_bit 32 t10 AND msk;
          t11 = a1 * b1; r11 = t11 AND msk; c11 = drop_bit 32 t11 AND msk;
          r1 = c00 + r01 + r10;
          r2 = drop_bit 32 r1 AND msk;
          r1' = r1 AND msk;
          r2' = r2 + (c01 + c10 + r11);
          r3 = drop_bit 32 r2' AND msk;
          r2'' = r2' AND msk;
          r3' = (r3 + c11) AND msk
      in (push_bit 32 r1' + r00, push_bit 32 r3' + r2''))"

section \<open>Facts about bits\<close>

lemma bit4_cast_code [simp]: "bit4_cast (bit4_code b) = b"
  by (cases b) (simp_all add: bit4_cast_def)

lemma bit4_is_xz_simps [simp]:
  "\<not> bit4_is_xz BIT4_0" "\<not> bit4_is_xz BIT4_1" "bit4_is_xz BIT4_X" "bit4_is_xz BIT4_Z"
  by (simp_all add: bit4_is_xz_def)

lemma bit4_z2x_simps [simp]:
  "vvp_bit4_z2x BIT4_0 = BIT4_0" "vvp_bit4_z2x BIT4_1 = BIT4_1"
  "vvp_bit4_z2x BIT4_X = BIT4_X" "vvp_bit4_z2x BIT4_Z = BIT4_X"
  by (code_simp)+

lemma bit4_not_table [simp]:
  "bit4_not BIT4_0 = BIT4_1" "bit4_not BIT4_1 = BIT4_0" "bit4_not BIT4_X = BIT4_X" "bit4_not BIT4_Z = BIT4_X"
  by (code_simp)+

interpretation bit4_logic: four_valued BIT4_0 BIT4_1 BIT4_X BIT4_Z bit4_not bit4_and bit4_or bit4_xor
proof
  show "b = BIT4_0 \<or> b = BIT4_1 \<or> b = BIT4_X \<or> b = BIT4_Z" for b by (cases b) simp_all
  show "distinct [BIT4_0, BIT4_1, BIT4_X, BIT4_Z]" by simp
  show "bit4_not b = (if b = BIT4_0 then BIT4_1 else if b = BIT4_1 then BIT4_0 else BIT4_X)" for b
    by (cases b) simp_all
  show "bit4_and a b = (if a = BIT4_0 \<or> b = BIT4_0 then BIT4_0
      else if a = BIT4_1 \<and> b = BIT4_1 then BIT4_1 else BIT4_X)" for a b
    by (cases a; cases b; hypsubst; code_simp)
  show "bit4_or a b = (if a = BIT4_1 \<or> b = BIT4_1 then BIT4_1
      else if a = BIT4_0 \<and> b = BIT4_0 then BIT4_0 else BIT4_X)" for a b
    by (cases a; cases b; hypsubst; code_simp)
  show "bit4_xor a b = (if {a, b} \<subseteq> {BIT4_0, BIT4_1} then (if a = b then BIT4_0 else BIT4_1) else BIT4_X)" for a b
    by (cases a; cases b) (simp_all add: bit4_xor_def)
qed

lemma edge_rank:
  "edge fr to' = (if fr = to' then 0
     else if fr = BIT4_0 \<or> to' = BIT4_1 then 1
     else if fr = BIT4_1 \<or> to' = BIT4_0 then - 1 else 0)"
  by (cases fr; cases to'; hypsubst; code_simp)

section \<open>Facts about the carry routines\<close>

lemma uint_below: "uint (w :: 64 word) < 18446744073709551616"
  using uint_lt2p [of w] by simp

lemma ulong_add_value:
  assumes "c \<le> 1" "ulong_add_with_carry a b c = (s, c')"
  shows "uint s + 2 ^ 64 * uint c' = uint a + uint b + uint c" "c' \<le> 1"
proof -
  have c: "uint c \<le> 1" using assms(1) by (simp add: word_le_def)
  have s: "s = a + (b + c)" and c': "c' = (if b + c < b \<or> s < b + c \<or> s < a then 1 else 0)"
    using assms(2) by (auto simp: ulong_add_with_carry_def Let_def)
  show "uint s + 2 ^ 64 * uint c' = uint a + uint b + uint c"
    unfolding c' s
    by (auto simp: word_less_def uint_plus_if' split: if_splits)
      (use c uint_below [of a] uint_below [of b] uint_nonnegative [of a] uint_nonnegative [of b]
        uint_nonnegative [of c] in linarith)+
  show "c' \<le> 1" by (simp add: c')
qed

interpretation ulong_adder: digit_adder uint "2 ^ 64" "\<lambda>_. True" uint "\<lambda>c. c \<le> 1" ulong_add_with_carry
proof
  show "(1 :: int) < 2 ^ 64" by simp
  show "True \<Longrightarrow> 0 \<le> uint (d :: 64 word) \<and> uint d < 2 ^ 64" for d using uint_lt2p [of d] by simp
qed (use ulong_add_value in auto)

lemma uint_low: "uint (w AND (push_bit 32 1 - 1) :: 64 word) = uint w mod 2 ^ 32"
proof -
  have "push_bit 32 1 - 1 = (mask 32 :: 64 word)" by (simp add: mask_eq_exp_minus_1 push_bit_eq_mult)
  moreover have "uint (take_bit 32 w) = take_bit 32 (uint w)" by (rule unsigned_take_bit_eq)
  then have "uint (w AND mask 32) = uint w mod 2 ^ 32"
    by (simp only: take_bit_eq_mask [symmetric] take_bit_int_def)
  ultimately show ?thesis by metis
qed

lemma uint_high: "uint (drop_bit 32 w AND (push_bit 32 1 - 1) :: 64 word) = uint w div 2 ^ 32"
proof -
  have "uint w div 4294967296 < 4294967296" using uint_below [of w] by presburger
  moreover have "uint (drop_bit 32 w) = uint w div 2 ^ 32"
    by (simp add: drop_bit_eq_div uint_div)
  ultimately show ?thesis unfolding uint_low by (simp add: pos_imp_zdiv_nonneg_iff)
qed

lemma uint_push: "uint w < 2 ^ 32 \<Longrightarrow> uint (push_bit 32 w :: 64 word) = 2 ^ 32 * uint w"
  by (simp add: push_bit_eq_mult uint_word_ariths)

lemma half_products:
  fixes A0 A1 B0 B1 :: int
  assumes "0 \<le> A0" "A0 < 2 ^ 32" "0 \<le> B0" "B0 < 2 ^ 32"
  shows "0 \<le> A0 * B0" "A0 * B0 \<le> (2 ^ 32 - 1) * (2 ^ 32 - 1)"
  using assms mult_mono [of A0 "2 ^ 32 - 1" B0 "2 ^ 32 - 1"] by simp_all

text \<open>The schoolbook step on integers: four half products and their carries.\<close>

lemma half_word_carries:
  fixes M :: int
  assumes "p = M * pc + pr" "q = M * qc + qr" "u = M * uc + ur" "v = M * vc + vr"
    "pc + qr + ur = M * d1 + m1" "d1 + (qc + uc + vr) = M * d2 + m2"
  shows "p + M * (q + u) + M * M * v = M * m1 + pr + M * M * (M * (d2 + vc) + m2)"
  using assms by algebra

lemma half_word_product:
  fixes A0 A1 B0 B1 :: int
  assumes "r1 = A0 * B0 div M + A0 * B1 mod M + A1 * B0 mod M"
    "r2 = r1 div M + (A0 * B1 div M + A1 * B0 div M + A1 * B1 mod M)"
  shows "(A0 + M * A1) * (B0 + M * B1) =
    M * (r1 mod M) + A0 * B0 mod M + M * M * (M * (r2 div M + A1 * B1 div M) + r2 mod M)"
proof -
  have "(A0 + M * A1) * (B0 + M * B1) = A0 * B0 + M * (A0 * B1 + A1 * B0) + M * M * (A1 * B1)"
    by (simp add: algebra_simps)
  also have "\<dots> = M * (r1 mod M) + A0 * B0 mod M + M * M * (M * (r2 div M + A1 * B1 div M) + r2 mod M)"
    by (rule half_word_carries [of _ _ "A0 * B0 div M" _ _ "A0 * B1 div M" "A0 * B1 mod M" _ "A1 * B0 div M"
          "A1 * B0 mod M" _ _ "A1 * B1 mod M" "r1 div M"])
      (simp_all add: assms)
  finally show ?thesis .
qed

lemma half_product_fits:
  fixes x y :: "64 word"
  assumes "uint x < 2 ^ 32" "uint y < 2 ^ 32"
  shows "uint (x * y) = uint x * uint y"
proof -
  have "uint x * uint y \<le> (2 ^ 32 - 1) * (2 ^ 32 - 1)" using half_products(2) assms by simp
  then show ?thesis using uint_mult_lem [of x y] by simp
qed

lemma half_bounds:
  "uint (w :: 64 word) mod 2 ^ 32 < 2 ^ 32" "uint w div 2 ^ 32 < 2 ^ 32" "0 \<le> uint w div 2 ^ 32"
proof -
  show "uint w div 2 ^ 32 < 2 ^ 32" unfolding uint_high [symmetric] uint_low by simp
qed (simp_all add: pos_imp_zdiv_nonneg_iff)

lemma sum_fits: "uint x + uint y < 2 ^ 64 \<Longrightarrow> uint (x + y :: 64 word) = uint x + uint y"
  using uint_add_lem [of x y] by simp

lemma top_half_bound:
  fixes M :: int
  assumes "0 < M" "0 \<le> lo" "0 \<le> m" "lo + M * M * (M * h + m) < M * M * (M * M)"
  shows "h < M"
proof (rule ccontr)
  assume "\<not> h < M"
  then have "M * (M * M) * M \<le> M * (M * M) * h" using assms(1) by (intro mult_left_mono) auto
  moreover have "0 \<le> M * M * m" using assms by simp
  ultimately show False using assms(2,4) by (simp add: algebra_simps)
qed

lemma multiply_with_carry_value:
  assumes "multiply_with_carry a b = (lo, hi)"
  shows "uint lo + 2 ^ 64 * uint hi = uint a * uint b"
proof -
  define M :: int where "M = 2 ^ 32"
  define msk :: "64 word" where "msk = push_bit 32 1 - 1"
  define a0 a1 b0 b1 where w: "a0 = a AND msk" "a1 = drop_bit 32 a AND msk" "b0 = b AND msk" "b1 = drop_bit 32 b AND msk"
  note low = uint_low [folded msk_def M_def] and high = uint_high [folded msk_def M_def]
  note bnd = half_bounds [folded M_def]
  have ab: "uint a = uint a0 + M * uint a1" "uint b = uint b0 + M * uint b1"
    unfolding w unfolding high unfolding low by simp_all
  have h: "uint a0 < M" "uint a1 < M" "uint b0 < M" "uint b1 < M" unfolding w unfolding high unfolding low by (rule bnd)+
  note prod = half_product_fits [folded M_def]
  note p = prod [OF h(1,3)] prod [OF h(1,4)] prod [OF h(2,3)] prod [OF h(2,4)]
  define c00 r01 r10 c01 c10 r11 c11 where
    c: "c00 = drop_bit 32 (a0 * b0) AND msk" "r01 = a0 * b1 AND msk" "r10 = a1 * b0 AND msk"
       "c01 = drop_bit 32 (a0 * b1) AND msk" "c10 = drop_bit 32 (a1 * b0) AND msk"
       "r11 = a1 * b1 AND msk" "c11 = drop_bit 32 (a1 * b1) AND msk"
  have cb: "uint c00 < M" "uint r01 < M" "uint r10 < M" "uint c01 < M" "uint c10 < M" "uint r11 < M" "uint c11 < M"
    unfolding c unfolding high unfolding low by (rule bnd)+
  define r1 r2 where r: "r1 = c00 + r01 + r10" "r2 = (drop_bit 32 r1 AND msk) + (c01 + c10 + r11)"
  have M64: "M * 4 < 2 ^ 64" "M * M = 2 ^ 64" "0 < M" by (simp_all add: M_def)
  have u1: "uint r1 = uint c00 + uint r01 + uint r10"
    unfolding r using cb M64 by (simp add: sum_fits)
  have u2: "uint r2 = uint r1 div M + (uint c01 + uint c10 + uint r11)"
    using cb M64 bnd(2) [of r1] unfolding r(2) by (simp add: sum_fits high)
  have c': "uint c00 = uint a0 * uint b0 div M" "uint r01 = uint a0 * uint b1 mod M"
      "uint r10 = uint a1 * uint b0 mod M" "uint c01 = uint a0 * uint b1 div M"
      "uint c10 = uint a1 * uint b0 div M" "uint r11 = uint a1 * uint b1 mod M" "uint c11 = uint a1 * uint b1 div M"
    unfolding c unfolding high unfolding low p by simp_all
  let ?h = "uint r2 div M + uint c11"
  have main: "uint a * uint b = M * (uint r1 mod M) + uint a0 * uint b0 mod M + M * M * (M * ?h + uint r2 mod M)"
    unfolding ab c'(7) by (rule half_word_product) (simp_all only: u1 u2 c')
  have "?h < M"
  proof (rule top_half_bound [OF M64(3)])
    have "uint a * uint b < 2 ^ 64 * 2 ^ 64"
      using uint_below [of a] uint_below [of b] by (intro mult_strict_mono) simp_all
    then show "M * (uint r1 mod M) + uint a0 * uint b0 mod M + M * M * (M * ?h + uint r2 mod M) < M * M * (M * M)"
      by (simp only: main M64(2))
  qed (use M64(3) in simp_all)
  have lo: "lo = push_bit 32 (r1 AND msk) + (a0 * b0 AND msk)"
    and hi: "hi = push_bit 32 (((drop_bit 32 r2 AND msk) + c11) AND msk) + (r2 AND msk)"
    using assms by (auto simp: multiply_with_carry_def Let_def r c w msk_def)
  have uh: "uint (((drop_bit 32 r2 AND msk) + c11) AND msk) = ?h"
  proof -
    have "uint ((drop_bit 32 r2 AND msk) + c11) = ?h"
      using cb(7) M64 bnd(2) [of r2] by (simp add: sum_fits high)
    then show ?thesis using \<open>?h < M\<close> bnd(3) [of r2] unfolding low by simp
  qed
  have join: "uint (push_bit 32 x + y) = M * uint x + uint y" if "uint x < M" "uint y < M" for x y :: "64 word"
  proof -
    have px: "uint (push_bit 32 x) = M * uint x" using that(1) unfolding M_def by (rule uint_push)
    have "M * uint x \<le> M * (M - 1)" using that(1) M64(3) by (intro mult_left_mono) auto
    then show ?thesis using that(2) M64 by (simp add: sum_fits px algebra_simps)
  qed
  have "uint lo = M * (uint r1 mod M) + uint a0 * uint b0 mod M"
    unfolding lo using M64(3) by (subst join) (simp_all add: low p)
  moreover have "uint hi = M * ?h + uint r2 mod M"
    unfolding hi using M64(3) \<open>?h < M\<close> by (subst join) (simp_all only: uh, simp_all add: low)
  ultimately show ?thesis by (simp only: main M64(2))
qed

end
