(* ===== verification/Schedule.thy ===== *)
theory Schedule
  imports Vvp_Bits "HOL-Library.Multiset"
begin

text \<open>
  The simulation scheduler (vvp/schedule.cc): the stratified event queue as a list of time
  cells with relative delays, the scheduling interface, the actions of the events, and the
  simulation loop as a step function with one step per loop iteration. What an event sets off
  outside the scheduler (threads, nets, VPI callbacks) is a parameter: a function from the
  action to the new outside state and the scheduler calls that the action makes, in order.
\<close>

section \<open>Events and time cells\<close>

text \<open>Pointers to objects of other components are handles; a \<open>double\<close> is its bit pattern and a
  scalar of a \<open>vvp_vector8_t\<close> its byte. Neither is computed with here.\<close>

type_synonym vthread = nat
type_synonym vvp_net_ptr = nat
type_synonym vvp_net = nat
type_synonym vvp_array = nat
type_synonym vvp_gen_event = nat
type_synonym vec4 = "vvp_bit4 list"
type_synonym vec8 = "8 word list"
type_synonym double_bits = "64 word"
type_synonym vvp_time64 = "64 word"

datatype event =
    Vthread_event vthread
  | Del_thr_event vthread
  | Assign_vector4_event vvp_net_ptr vec4 nat nat
  | Assign_vector8_event vvp_net_ptr vec8
  | Assign_real_event vvp_net_ptr double_bits
  | Assign_array_word vvp_array nat vec4 nat
  | Force_vector4_event vvp_net vec4 nat nat
  | Propagate_vector4_event vvp_net vec4
  | Propagate_real_event vvp_net double_bits
  | Assign_array_r_word vvp_array nat double_bits
  | Generic_event "vvp_gen_event option" bool

text \<open>The C++ queues are circular lists with a pointer to the last event; here a queue is the list
  from the first event (\<^verbatim>\<open>q->next\<close>) to the last.\<close>

record event_time =
  delay :: vvp_time64
  start :: "event list"
  active :: "event list"
  inactive :: "event list"
  nbassign :: "event list"
  rwsync :: "event list"
  rosync :: "event list"
  del_thr :: "event list"

definition new_event_time :: "vvp_time64 \<Rightarrow> event_time" where
  "new_event_time d = \<lparr>delay = d, start = [], active = [], inactive = [], nbassign = [], rwsync = [],
     rosync = [], del_thr = []\<rparr>"

datatype event_queue = SEQ_START | SEQ_ACTIVE | SEQ_INACTIVE | SEQ_NBASSIGN | SEQ_RWSYNC | SEQ_ROSYNC | DEL_THREAD

datatype message = Rosync_error | Advancing vvp_time64 | Step_into event

record 'w sched =
  sched_list :: "event_time list"
  schedule_init_list :: "event list"
  schedule_final_list :: "event list"
  schedule_runnable :: bool
  schedule_stopped_flag :: bool
  schedule_single_step_flag :: bool
  no_signals_flag :: bool
  stop_is_finish :: bool
  signals_captured :: bool
  sim_started :: bool
  schedule_time :: vvp_time64
  sim_at_rosync :: bool
  show_file_line :: bool
  count_assign_events :: "64 word"
  count_gen_events :: "64 word"
  count_thread_events :: "64 word"
  count_time_events :: "64 word"
  stderr_log :: "message list"
  world :: 'w

text \<open>What the scheduler calls outside, and what the outside calls of the scheduler.\<close>

datatype action =
    Vthread_run vthread
  | Vthread_delete vthread
  | Vthread_mark_scheduled vthread
  | Vthread_mark_final vthread
  | Vthread_delay_delete
  | Vvp_send_vec4_pv vvp_net_ptr vec4 nat nat
  | Vvp_send_vec4 vvp_net_ptr vec4
  | Vvp_send_vec8 vvp_net_ptr vec8
  | Vvp_send_real vvp_net_ptr double_bits
  | Mem_set_word vvp_array nat nat vec4
  | Mem_set_word_real vvp_array nat double_bits
  | Net_force_vec4 vvp_net vec4 "bool list"
  | Net_send_vec4 vvp_net vec4
  | Net_send_real vvp_net double_bits
  | Gen_run_run vvp_gen_event
  | Gen_delete vvp_gen_event
  | Stop_handler
  | VpiEndOfCompile
  | VpiStartOfSim
  | VpiNextSimTime
  | VpiPostsim

datatype call =
    Schedule_finish
  | Schedule_stop
  | Schedule_single_step
  | Vvp_no_signals
  | Signal bool
  | Schedule_vthread vthread vvp_time64 bool
  | Schedule_t0_trigger vvp_net_ptr
  | Schedule_inactive vthread
  | Schedule_init_vthread vthread
  | Schedule_final_vthread vthread
  | Schedule_assign_vector vvp_net_ptr nat nat vec4 vvp_time64
  | Schedule_force_vector vvp_net nat nat vec4 vvp_time64
  | Schedule_propagate_vector vvp_net vvp_time64 vec4
  | Schedule_propagate_event vvp_net vvp_time64
  | Schedule_assign_array_word vvp_array nat nat vec4 vvp_time64
  | Schedule_assign_array_real vvp_array nat double_bits vvp_time64
  | Schedule_set_vector4 vvp_net_ptr vec4
  | Schedule_set_vector8 vvp_net_ptr vec8
  | Schedule_set_real vvp_net_ptr double_bits
  | Schedule_init_vector4 vvp_net_ptr vec4
  | Schedule_init_vector8 vvp_net_ptr vec8
  | Schedule_init_real vvp_net_ptr double_bits
  | Schedule_init_propagate4 vvp_net vec4
  | Schedule_init_propagate_real vvp_net double_bits
  | Schedule_del_thr vthread
  | Schedule_generic "vvp_gen_event option" vvp_time64 bool bool bool
  | Schedule_functor "vvp_gen_event option"
  | Schedule_at_start_of_simtime "vvp_gen_event option" vvp_time64
  | Schedule_at_end_of_simtime "vvp_gen_event option" vvp_time64

text \<open>The outside: \<open>perform\<close> runs an action and gives the new outside state and the calls it makes
  of the scheduler; \<open>mark\<close> is the effect of the three bookkeeping calls into vthread.cc, which
  call nothing back; \<open>vec4_value\<close> reads the value of a net's signal filter, if it has one.\<close>

record 'w environment =
  perform :: "action \<Rightarrow> 'w sched \<Rightarrow> 'w \<times> call list"
  mark :: "action \<Rightarrow> 'w \<Rightarrow> 'w"
  vec4_value :: "vvp_net \<Rightarrow> 'w \<Rightarrow> vec4 option"

section \<open>Putting an event into the queue\<close>

text \<open>The walk \<^verbatim>\<open>while (ctim->next && (ctim->delay < delay))\<close>: the cells passed, the cell
  reached, the cells after it and the delay that remains.\<close>

fun walk :: "event_time list \<Rightarrow> event_time \<Rightarrow> event_time list \<Rightarrow> vvp_time64 \<Rightarrow>
    event_time list \<times> event_time \<times> event_time list \<times> vvp_time64" where
  "walk passed ctim [] d = (passed, ctim, [], d)"
| "walk passed ctim (n # ns) d =
     (if delay ctim < d then walk (passed @ [ctim]) n ns (d - delay ctim) else (passed, ctim, n # ns, d))"

text \<open>The cell that receives the event, as a split of the new list, the remaining delay and
  whether a cell was made. \<open>None\<close> would be the null pointer \<open>prev\<close> or the failed assertion
  \<^verbatim>\<open>ctim->next == 0\<close>.\<close>

definition find_cell :: "event_time list \<Rightarrow> vvp_time64 \<Rightarrow>
    (event_time list \<times> event_time \<times> event_time list \<times> vvp_time64 \<times> bool) option" where
  "find_cell cells d =
     (case cells of
        [] \<Rightarrow> Some ([], new_event_time d, [], d, True)
      | ctim # ns \<Rightarrow>
          (if delay ctim > d
           then Some ([], new_event_time d, ctim\<lparr>delay := delay ctim - d\<rparr> # ns, d, True)
           else case walk [] ctim ns d of (passed, c, rest, d') \<Rightarrow>
             if delay c > d'
             then (if passed = [] then None
                   else Some (passed, new_event_time d', c\<lparr>delay := delay c - d'\<rparr> # rest, d', True))
             else if delay c = d' then Some (passed, c, rest, d', False)
             else if rest \<noteq> [] then None
             else Some (passed @ [c], new_event_time (d' - delay c), [], d', True)))"

fun enqueue :: "event_queue \<Rightarrow> event \<Rightarrow> event_time \<Rightarrow> event_time" where
  "enqueue SEQ_START ev c = c\<lparr>start := start c @ [ev]\<rparr>"
| "enqueue SEQ_ACTIVE ev c = c\<lparr>active := active c @ [ev]\<rparr>"
| "enqueue SEQ_INACTIVE ev c = c\<lparr>inactive := inactive c @ [ev]\<rparr>"
| "enqueue SEQ_NBASSIGN ev c = c\<lparr>nbassign := nbassign c @ [ev]\<rparr>"
| "enqueue SEQ_RWSYNC ev c = c\<lparr>rwsync := rwsync c @ [ev]\<rparr>"
| "enqueue SEQ_ROSYNC ev c = c\<lparr>rosync := rosync c @ [ev]\<rparr>"
| "enqueue DEL_THREAD ev c = c\<lparr>del_thr := del_thr c @ [ev]\<rparr>"

definition schedule_event :: "event \<Rightarrow> vvp_time64 \<Rightarrow> event_queue \<Rightarrow> 'w sched \<Rightarrow> 'w sched option" where
  "schedule_event cur d select_queue s =
     (case find_cell (sched_list s) d of
        None \<Rightarrow> None
      | Some (passed, ctim, rest, d', made) \<Rightarrow>
          if select_queue = SEQ_INACTIVE \<and> d' \<noteq> 0 then None
          else Some (s\<lparr>sched_list := passed @ enqueue select_queue cur ctim # rest,
                       count_time_events := count_time_events s + (if made then 1 else 0)\<rparr>))"

definition schedule_event_push :: "event \<Rightarrow> 'w sched \<Rightarrow> 'w sched option" where
  "schedule_event_push cur s =
     (case sched_list s of
        [] \<Rightarrow> schedule_event cur 0 SEQ_ACTIVE s
      | ctim # rest \<Rightarrow>
          if delay ctim > 0 then schedule_event cur 0 SEQ_ACTIVE s
          else Some (s\<lparr>sched_list := ctim\<lparr>active := cur # active ctim\<rparr> # rest\<rparr>))"

definition schedule_init_event :: "event \<Rightarrow> 'w sched \<Rightarrow> 'w sched" where
  "schedule_init_event cur s = s\<lparr>schedule_init_list := schedule_init_list s @ [cur]\<rparr>"

definition schedule_final_event :: "event \<Rightarrow> 'w sched \<Rightarrow> 'w sched" where
  "schedule_final_event cur s = s\<lparr>schedule_final_list := schedule_final_list s @ [cur]\<rparr>"

section \<open>The scheduling interface\<close>

definition marked :: "'w environment \<Rightarrow> action \<Rightarrow> 'w sched \<Rightarrow> 'w sched" where
  "marked env a s = s\<lparr>world := mark env a (world s)\<rparr>"

definition schedule_vthread :: "'w environment \<Rightarrow> vthread \<Rightarrow> vvp_time64 \<Rightarrow> bool \<Rightarrow> 'w sched \<Rightarrow> 'w sched option" where
  "schedule_vthread env thr d push_flag s =
     (let cur = Vthread_event thr; s' = marked env (Vthread_mark_scheduled thr) s
      in if push_flag \<and> d = 0 then schedule_event_push cur s' else schedule_event cur d SEQ_ACTIVE s')"

definition schedule_t0_trigger :: "vvp_net_ptr \<Rightarrow> 'w sched \<Rightarrow> 'w sched option" where
  "schedule_t0_trigger ptr s = schedule_event (Assign_vector4_event ptr [BIT4_X] 0 0) 0 SEQ_INACTIVE s"

definition schedule_inactive :: "'w environment \<Rightarrow> vthread \<Rightarrow> 'w sched \<Rightarrow> 'w sched option" where
  "schedule_inactive env thr s =
     schedule_event (Vthread_event thr) 0 SEQ_INACTIVE (marked env (Vthread_mark_scheduled thr) s)"

definition schedule_init_vthread :: "'w environment \<Rightarrow> vthread \<Rightarrow> 'w sched \<Rightarrow> 'w sched" where
  "schedule_init_vthread env thr s =
     schedule_init_event (Vthread_event thr) (marked env (Vthread_mark_scheduled thr) s)"

definition schedule_final_vthread :: "'w environment \<Rightarrow> vthread \<Rightarrow> 'w sched \<Rightarrow> 'w sched" where
  "schedule_final_vthread env thr s =
     schedule_final_event (Vthread_event thr)
       (marked env (Vthread_mark_scheduled thr) (marked env (Vthread_mark_final thr) s))"

definition schedule_assign_vector :: "vvp_net_ptr \<Rightarrow> nat \<Rightarrow> nat \<Rightarrow> vec4 \<Rightarrow> vvp_time64 \<Rightarrow> 'w sched \<Rightarrow> 'w sched option" where
  "schedule_assign_vector ptr base vwid b d s =
     schedule_event (Assign_vector4_event ptr b base vwid) d SEQ_NBASSIGN s"

definition schedule_force_vector :: "vvp_net \<Rightarrow> nat \<Rightarrow> nat \<Rightarrow> vec4 \<Rightarrow> vvp_time64 \<Rightarrow> 'w sched \<Rightarrow> 'w sched option" where
  "schedule_force_vector net base vwid b d s =
     schedule_event (Force_vector4_event net b base vwid) d SEQ_NBASSIGN s"

definition schedule_propagate_vector :: "vvp_net \<Rightarrow> vvp_time64 \<Rightarrow> vec4 \<Rightarrow> 'w sched \<Rightarrow> 'w sched option" where
  "schedule_propagate_vector net d src s = schedule_event (Propagate_vector4_event net src) d SEQ_NBASSIGN s"

definition schedule_propagate_event :: "vvp_net \<Rightarrow> vvp_time64 \<Rightarrow> 'w sched \<Rightarrow> 'w sched option" where
  "schedule_propagate_event net d s = schedule_event (Propagate_vector4_event net [BIT4_X]) d SEQ_NBASSIGN s"

definition schedule_assign_array_word :: "vvp_array \<Rightarrow> nat \<Rightarrow> nat \<Rightarrow> vec4 \<Rightarrow> vvp_time64 \<Rightarrow> 'w sched \<Rightarrow> 'w sched option" where
  "schedule_assign_array_word mem word_addr off val d s =
     schedule_event (Assign_array_word mem word_addr val off) d SEQ_NBASSIGN s"

definition schedule_assign_array_real :: "vvp_array \<Rightarrow> nat \<Rightarrow> double_bits \<Rightarrow> vvp_time64 \<Rightarrow> 'w sched \<Rightarrow> 'w sched option" where
  "schedule_assign_array_real mem word_addr val d s =
     schedule_event (Assign_array_r_word mem word_addr val) d SEQ_NBASSIGN s"

definition schedule_set_vector4 :: "vvp_net_ptr \<Rightarrow> vec4 \<Rightarrow> 'w sched \<Rightarrow> 'w sched option" where
  "schedule_set_vector4 ptr b s = schedule_event (Assign_vector4_event ptr b 0 0) 0 SEQ_ACTIVE s"

definition schedule_set_vector8 :: "vvp_net_ptr \<Rightarrow> vec8 \<Rightarrow> 'w sched \<Rightarrow> 'w sched option" where
  "schedule_set_vector8 ptr b s = schedule_event (Assign_vector8_event ptr b) 0 SEQ_ACTIVE s"

definition schedule_set_real :: "vvp_net_ptr \<Rightarrow> double_bits \<Rightarrow> 'w sched \<Rightarrow> 'w sched option" where
  "schedule_set_real ptr b s = schedule_event (Assign_real_event ptr b) 0 SEQ_ACTIVE s"

definition schedule_init_vector4 :: "vvp_net_ptr \<Rightarrow> vec4 \<Rightarrow> 'w sched \<Rightarrow> 'w sched" where
  "schedule_init_vector4 ptr b s = schedule_init_event (Assign_vector4_event ptr b 0 0) s"

definition schedule_init_vector8 :: "vvp_net_ptr \<Rightarrow> vec8 \<Rightarrow> 'w sched \<Rightarrow> 'w sched" where
  "schedule_init_vector8 ptr b s = schedule_init_event (Assign_vector8_event ptr b) s"

definition schedule_init_real :: "vvp_net_ptr \<Rightarrow> double_bits \<Rightarrow> 'w sched \<Rightarrow> 'w sched" where
  "schedule_init_real ptr b s = schedule_init_event (Assign_real_event ptr b) s"

definition schedule_init_propagate4 :: "vvp_net \<Rightarrow> vec4 \<Rightarrow> 'w sched \<Rightarrow> 'w sched" where
  "schedule_init_propagate4 net b s = schedule_init_event (Propagate_vector4_event net b) s"

definition schedule_init_propagate_real :: "vvp_net \<Rightarrow> double_bits \<Rightarrow> 'w sched \<Rightarrow> 'w sched" where
  "schedule_init_propagate_real net b s = schedule_init_event (Propagate_real_event net b) s"

definition schedule_del_thr :: "vthread \<Rightarrow> 'w sched \<Rightarrow> 'w sched option" where
  "schedule_del_thr thr s = schedule_event (Del_thr_event thr) 0 DEL_THREAD s"

definition schedule_generic :: "'w environment \<Rightarrow> vvp_gen_event option \<Rightarrow> vvp_time64 \<Rightarrow> bool \<Rightarrow> bool \<Rightarrow> bool \<Rightarrow>
    'w sched \<Rightarrow> 'w sched option" where
  "schedule_generic env obj d sync_flag ro_flag delete_when_done s =
     map_option (\<lambda>s'. if sync_flag then marked env Vthread_delay_delete s' else s')
       (schedule_event (Generic_event obj delete_when_done) d
         (if sync_flag then (if ro_flag then SEQ_ROSYNC else SEQ_RWSYNC) else SEQ_ACTIVE) s)"

definition schedule_functor :: "vvp_gen_event option \<Rightarrow> 'w sched \<Rightarrow> 'w sched option" where
  "schedule_functor obj s =
     (let cur = Generic_event obj False
      in if \<not> sim_started s then Some (schedule_init_event cur s) else schedule_event cur 0 SEQ_ACTIVE s)"

definition schedule_at_start_of_simtime :: "vvp_gen_event option \<Rightarrow> vvp_time64 \<Rightarrow> 'w sched \<Rightarrow> 'w sched option" where
  "schedule_at_start_of_simtime obj d s = schedule_event (Generic_event obj False) d SEQ_START s"

definition schedule_at_end_of_simtime :: "vvp_gen_event option \<Rightarrow> vvp_time64 \<Rightarrow> 'w sched \<Rightarrow> 'w sched option" where
  "schedule_at_end_of_simtime obj d s = schedule_event (Generic_event obj False) d SEQ_RWSYNC s"

text \<open>The flags; \<open>signals_handler\<close> gets whether the signal is \<open>SIGINT\<close>.\<close>

definition schedule_finish :: "'w sched \<Rightarrow> 'w sched" where
  "schedule_finish s = s\<lparr>schedule_runnable := False\<rparr>"

definition schedule_stop :: "'w sched \<Rightarrow> 'w sched" where
  "schedule_stop s = s\<lparr>schedule_stopped_flag := True\<rparr>"

definition schedule_single_step :: "'w sched \<Rightarrow> 'w sched" where
  "schedule_single_step s = s\<lparr>schedule_single_step_flag := True\<rparr>"

definition schedule_finished :: "'w sched \<Rightarrow> bool" where
  "schedule_finished s = (\<not> schedule_runnable s)"

definition vvp_no_signals :: "'w sched \<Rightarrow> 'w sched" where
  "vvp_no_signals s = s\<lparr>no_signals_flag := True\<rparr>"

definition signals_handler :: "bool \<Rightarrow> 'w sched \<Rightarrow> 'w sched" where
  "signals_handler is_sigint s = s\<lparr>stop_is_finish := (stop_is_finish s \<or> \<not> is_sigint), schedule_stopped_flag := True\<rparr>"

definition signals_capture :: "'w sched \<Rightarrow> 'w sched" where
  "signals_capture s = (if no_signals_flag s then s else s\<lparr>signals_captured := True\<rparr>)"

definition signals_revert :: "'w sched \<Rightarrow> 'w sched" where
  "signals_revert s = (if no_signals_flag s then s else s\<lparr>signals_captured := False\<rparr>)"

fun do_call :: "'w environment \<Rightarrow> call \<Rightarrow> 'w sched \<Rightarrow> 'w sched option" where
  "do_call env Schedule_finish s = Some (schedule_finish s)"
| "do_call env Schedule_stop s = Some (schedule_stop s)"
| "do_call env Schedule_single_step s = Some (schedule_single_step s)"
| "do_call env Vvp_no_signals s = Some (vvp_no_signals s)"
| "do_call env (Signal i) s = Some (signals_handler i s)"
| "do_call env (Schedule_vthread t d p) s = schedule_vthread env t d p s"
| "do_call env (Schedule_t0_trigger p) s = schedule_t0_trigger p s"
| "do_call env (Schedule_inactive t) s = schedule_inactive env t s"
| "do_call env (Schedule_init_vthread t) s = Some (schedule_init_vthread env t s)"
| "do_call env (Schedule_final_vthread t) s = Some (schedule_final_vthread env t s)"
| "do_call env (Schedule_assign_vector p b w v d) s = schedule_assign_vector p b w v d s"
| "do_call env (Schedule_force_vector n b w v d) s = schedule_force_vector n b w v d s"
| "do_call env (Schedule_propagate_vector n d v) s = schedule_propagate_vector n d v s"
| "do_call env (Schedule_propagate_event n d) s = schedule_propagate_event n d s"
| "do_call env (Schedule_assign_array_word m a off v d) s = schedule_assign_array_word m a off v d s"
| "do_call env (Schedule_assign_array_real m a v d) s = schedule_assign_array_real m a v d s"
| "do_call env (Schedule_set_vector4 p v) s = schedule_set_vector4 p v s"
| "do_call env (Schedule_set_vector8 p v) s = schedule_set_vector8 p v s"
| "do_call env (Schedule_set_real p v) s = schedule_set_real p v s"
| "do_call env (Schedule_init_vector4 p v) s = Some (schedule_init_vector4 p v s)"
| "do_call env (Schedule_init_vector8 p v) s = Some (schedule_init_vector8 p v s)"
| "do_call env (Schedule_init_real p v) s = Some (schedule_init_real p v s)"
| "do_call env (Schedule_init_propagate4 n v) s = Some (schedule_init_propagate4 n v s)"
| "do_call env (Schedule_init_propagate_real n v) s = Some (schedule_init_propagate_real n v s)"
| "do_call env (Schedule_del_thr t) s = schedule_del_thr t s"
| "do_call env (Schedule_generic ob d sy ro del) s = schedule_generic env ob d sy ro del s"
| "do_call env (Schedule_functor ob) s = schedule_functor ob s"
| "do_call env (Schedule_at_start_of_simtime ob d) s = schedule_at_start_of_simtime ob d s"
| "do_call env (Schedule_at_end_of_simtime ob d) s = schedule_at_end_of_simtime ob d s"

primrec do_calls :: "'w environment \<Rightarrow> call list \<Rightarrow> 'w sched \<Rightarrow> 'w sched option" where
  "do_calls env [] s = Some s"
| "do_calls env (c # cs) s = do { s' \<leftarrow> do_call env c s; do_calls env cs s' }"

section \<open>Running an event\<close>

definition run_action :: "'w environment \<Rightarrow> action \<Rightarrow> 'w sched \<Rightarrow> 'w sched option" where
  "run_action env a s = (case perform env a s of (w, cs) \<Rightarrow> do_calls env cs (s\<lparr>world := w\<rparr>))"

text \<open>The mask and the value of a force: \<open>wid\<close> is clipped to the destination for the mask, while
  the merge asserts that the whole value fits. Bases and widths are 32-bit unsigned, and setting a
  bit of the mask asserts its index.\<close>

definition force_mask :: "nat \<Rightarrow> nat \<Rightarrow> nat \<Rightarrow> bool list option" where
  "force_mask base vwid vsize =
     (let wid = (if (base + vsize) mod 2 ^ 32 > vwid then (vwid + 2 ^ 32 - base) mod 2 ^ 32 else vsize)
      in if wid = 0 \<or> base + wid \<le> vwid
         then Some (map (\<lambda>i. base \<le> i \<and> i < base + wid) [0..<vwid]) else None)"

definition force_value :: "vec4 \<Rightarrow> nat \<Rightarrow> vec4 \<Rightarrow> vec4 option" where
  "force_value tmp base val =
     (if base + length val \<le> length tmp
      then Some (take base tmp @ val @ drop (base + length val) tmp) else None)"

definition count_assign :: "'w sched \<Rightarrow> 'w sched" where
  "count_assign s = s\<lparr>count_assign_events := count_assign_events s + 1\<rparr>"

fun run_run :: "'w environment \<Rightarrow> event \<Rightarrow> 'w sched \<Rightarrow> 'w sched option" where
  "run_run env (Vthread_event thr) s =
     run_action env (Vthread_run thr) (s\<lparr>count_thread_events := count_thread_events s + 1\<rparr>)"
| "run_run env (Del_thr_event thr) s = run_action env (Vthread_delete thr) s"
| "run_run env (Assign_vector4_event ptr val base vwid) s =
     run_action env (if vwid > 0 then Vvp_send_vec4_pv ptr val base vwid else Vvp_send_vec4 ptr val) (count_assign s)"
| "run_run env (Assign_vector8_event ptr val) s = run_action env (Vvp_send_vec8 ptr val) (count_assign s)"
| "run_run env (Assign_real_event ptr val) s = run_action env (Vvp_send_real ptr val) (count_assign s)"
| "run_run env (Assign_array_word mem adr val off) s = run_action env (Mem_set_word mem adr off val) (count_assign s)"
| "run_run env (Force_vector4_event net val base vwid) s =
     do { msk \<leftarrow> force_mask base vwid (length val);
          tmp \<leftarrow> vec4_value env net (world s);
          tmp' \<leftarrow> force_value tmp base val;
          run_action env (Net_force_vec4 net tmp' msk) (count_assign s) }"
| "run_run env (Propagate_vector4_event net val) s = run_action env (Net_send_vec4 net val) s"
| "run_run env (Propagate_real_event net val) s = run_action env (Net_send_real net val) s"
| "run_run env (Assign_array_r_word mem adr val) s = run_action env (Mem_set_word_real mem adr val) (count_assign s)"
| "run_run env (Generic_event obj delete_obj_when_done) s =
     (let s1 = s\<lparr>count_gen_events := count_gen_events s + 1\<rparr>
      in case obj of None \<Rightarrow> Some s1
         | Some g \<Rightarrow> do { s2 \<leftarrow> run_action env (Gen_run_run g) s1;
                          if delete_obj_when_done then run_action env (Gen_delete g) s2 else Some s2 })"

section \<open>The simulation loop\<close>

text \<open>
  The places of \<open>schedule_simulate\<close> and \<open>run_rosync\<close> at which an iteration of one of their loops
  starts. \<open>PC_start\<close> to \<open>PC_del_thr\<close> work on \<open>ctim\<close>, which stays the first cell: its delay is
  zero there, so no event is put in front of it.
\<close>

datatype pc = PC_entry | PC_init | PC_main | PC_start | PC_queues | PC_rosync | PC_del_thr | PC_final | PC_done

record 'w config =
  pc :: pc
  run_finals :: bool
  sch :: "'w sched"

text \<open>An iteration gives the next configuration and the event it ran, if any.\<close>

type_synonym 'w step_result = "('w config \<times> event option) option"

definition goto :: "'w config \<Rightarrow> pc \<Rightarrow> 'w sched \<Rightarrow> event option \<Rightarrow> 'w config \<times> event option" where
  "goto c p s ev = (c\<lparr>pc := p, sch := s\<rparr>, ev)"

definition set_ctim :: "event_time \<Rightarrow> 'w sched \<Rightarrow> 'w sched" where
  "set_ctim ctim s = s\<lparr>sched_list := ctim # tl (sched_list s)\<rparr>"

definition step_entry :: "'w environment \<Rightarrow> 'w config \<Rightarrow> 'w step_result" where
  "step_entry env c =
     do { s \<leftarrow> run_action env VpiEndOfCompile ((sch c)\<lparr>sim_started := False, schedule_time := 0\<rparr>);
          Some (goto c PC_init s None) }"

text \<open>The initialization events; when there are no more, the simulation starts.\<close>

definition step_init :: "'w environment \<Rightarrow> 'w config \<Rightarrow> 'w step_result" where
  "step_init env c =
     (let s = sch c
      in case schedule_init_list s of
           cur # rest \<Rightarrow>
             do { s' \<leftarrow> run_run env cur (s\<lparr>schedule_init_list := rest\<rparr>); Some (goto c PC_init s' (Some cur)) }
         | [] \<Rightarrow>
             do { s1 \<leftarrow> run_action env VpiStartOfSim (s\<lparr>sim_started := True\<rparr>);
                  let s2 = signals_capture s1;
                  Some (if schedule_runnable s2
                        then (c\<lparr>pc := PC_main, run_finals := True, sch := s2\<rparr>, None)
                        else (c\<lparr>pc := PC_final, run_finals := False, sch := s2\<lparr>schedule_runnable := False\<rparr>\<rparr>, None)) })"

text \<open>Leaving the main loop, the final events run if the simulation had started runnable.\<close>

definition leave_main :: "'w config \<Rightarrow> 'w sched \<Rightarrow> 'w config \<times> event option" where
  "leave_main c s = goto c PC_final (s\<lparr>schedule_runnable := run_finals c\<rparr>) None"

definition step_main :: "'w environment \<Rightarrow> 'w config \<Rightarrow> 'w step_result" where
  "step_main env c =
     (let s = sch c
      in case sched_list s of
           [] \<Rightarrow> Some (leave_main c s)
         | ctim # rest \<Rightarrow>
             if schedule_stopped_flag s
             then do { s' \<leftarrow> run_action env Stop_handler (s\<lparr>schedule_stopped_flag := False\<rparr>);
                       Some (if schedule_runnable s' then goto c PC_main s' None else leave_main c s') }
             else if delay ctim > 0
             then (if \<not> schedule_runnable s then Some (leave_main c s)
                   else let t = schedule_time s + delay ctim;
                            s1 = s\<lparr>schedule_time := t, sched_list := ctim\<lparr>delay := 0\<rparr> # rest,
                                   stderr_log := stderr_log s @ (if show_file_line s then [Advancing t] else [])\<rparr>
                        in do { s2 \<leftarrow> run_action env VpiNextSimTime s1; Some (goto c PC_start s2 None) })
             else Some (goto c PC_queues s None))"

definition step_start :: "'w environment \<Rightarrow> 'w config \<Rightarrow> 'w step_result" where
  "step_start env c =
     (case sched_list (sch c) of
        [] \<Rightarrow> None
      | ctim # _ \<Rightarrow>
          (case start ctim of
             cur # rest \<Rightarrow>
               do { s' \<leftarrow> run_run env cur (set_ctim (ctim\<lparr>start := rest\<rparr>) (sch c));
                    Some (goto c PC_start s' (Some cur)) }
           | [] \<Rightarrow> Some (goto c PC_queues (sch c) None)))"

text \<open>Advancing the queues of the current time step when no event is active.\<close>

definition advance_queues :: "event_time \<Rightarrow> event_time" where
  "advance_queues ctim =
     (if active ctim \<noteq> [] then ctim
      else if inactive ctim \<noteq> [] then ctim\<lparr>active := inactive ctim, inactive := []\<rparr>
      else if nbassign ctim \<noteq> [] then ctim\<lparr>active := nbassign ctim, nbassign := []\<rparr>
      else ctim\<lparr>active := rwsync ctim, rwsync := []\<rparr>)"

text \<open>What a single step writes about its event. A generic event asks its object, and one without
  an object has none to ask.\<close>

fun single_step_display :: "event \<Rightarrow> message option" where
  "single_step_display (Generic_event obj del) =
     (case obj of None \<Rightarrow> None | Some g \<Rightarrow> Some (Step_into (Generic_event obj del)))"
| "single_step_display cur = Some (Step_into cur)"

definition single_step :: "event \<Rightarrow> 'w sched \<Rightarrow> 'w sched option" where
  "single_step cur s =
     (if schedule_single_step_flag s
      then do { msg \<leftarrow> single_step_display cur;
                Some (s\<lparr>stderr_log := stderr_log s @ [msg], schedule_stopped_flag := True,
                        schedule_single_step_flag := False\<rparr>) }
      else Some s)"

definition step_queues :: "'w environment \<Rightarrow> 'w config \<Rightarrow> 'w step_result" where
  "step_queues env c =
     (case sched_list (sch c) of
        [] \<Rightarrow> None
      | ctim # _ \<Rightarrow>
          (let ctim' = advance_queues ctim
           in case active ctim' of
                [] \<Rightarrow> Some (goto c PC_rosync ((set_ctim ctim' (sch c))\<lparr>sim_at_rosync := True\<rparr>) None)
              | cur # rest \<Rightarrow>
                  do { s1 \<leftarrow> single_step cur (set_ctim (ctim'\<lparr>active := rest\<rparr>) (sch c));
                       s' \<leftarrow> run_run env cur s1;
                       Some (goto c PC_main s' (Some cur)) }))"

definition step_rosync :: "'w environment \<Rightarrow> 'w config \<Rightarrow> 'w step_result" where
  "step_rosync env c =
     (case sched_list (sch c) of
        [] \<Rightarrow> None
      | ctim # _ \<Rightarrow>
          (case rosync ctim of
             cur # rest \<Rightarrow>
               do { s' \<leftarrow> run_run env cur (set_ctim (ctim\<lparr>rosync := rest\<rparr>) (sch c));
                    Some (goto c PC_rosync s' (Some cur)) }
           | [] \<Rightarrow> Some (goto c PC_del_thr ((sch c)\<lparr>sim_at_rosync := False\<rparr>) None)))"

text \<open>After the threads are deleted the time step is dropped, with whatever it still holds.\<close>

definition step_del_thr :: "'w environment \<Rightarrow> 'w config \<Rightarrow> 'w step_result" where
  "step_del_thr env c =
     (case sched_list (sch c) of
        [] \<Rightarrow> None
      | ctim # rest_cells \<Rightarrow>
          (case del_thr ctim of
             cur # rest \<Rightarrow>
               do { s' \<leftarrow> run_run env cur (set_ctim (ctim\<lparr>del_thr := rest\<rparr>) (sch c));
                    Some (goto c PC_del_thr s' (Some cur)) }
           | [] \<Rightarrow>
               let err = (active ctim \<noteq> [] \<or> inactive ctim \<noteq> [] \<or> nbassign ctim \<noteq> [] \<or> rwsync ctim \<noteq> [])
               in Some (goto c PC_main ((sch c)\<lparr>sched_list := rest_cells,
                    stderr_log := stderr_log (sch c) @ (if err then [Rosync_error] else [])\<rparr>) None)))"

definition step_final :: "'w environment \<Rightarrow> 'w config \<Rightarrow> 'w step_result" where
  "step_final env c =
     (let s = sch c
      in case (if schedule_runnable s then schedule_final_list s else []) of
           cur # rest \<Rightarrow>
             do { s' \<leftarrow> run_run env cur (s\<lparr>schedule_final_list := rest\<rparr>); Some (goto c PC_final s' (Some cur)) }
         | [] \<Rightarrow> do { s' \<leftarrow> run_action env VpiPostsim (signals_revert s); Some (goto c PC_done s' None) })"

definition sim_step :: "'w environment \<Rightarrow> 'w config \<Rightarrow> 'w step_result" where
  "sim_step env c =
     (case pc c of
        PC_entry \<Rightarrow> step_entry env c
      | PC_init \<Rightarrow> step_init env c
      | PC_main \<Rightarrow> step_main env c
      | PC_start \<Rightarrow> step_start env c
      | PC_queues \<Rightarrow> step_queues env c
      | PC_rosync \<Rightarrow> step_rosync env c
      | PC_del_thr \<Rightarrow> step_del_thr env c
      | PC_final \<Rightarrow> step_final env c
      | PC_done \<Rightarrow> Some (c, None))"

text \<open>A run of the simulator from one configuration to another, with the events it executed and
  the simulation time of each.\<close>

inductive sim_run :: "'w environment \<Rightarrow> 'w config \<Rightarrow> (vvp_time64 \<times> event) list \<Rightarrow> 'w config \<Rightarrow> bool" for env where
  sim_refl: "sim_run env c [] c"
| sim_quiet: "sim_run env c tr c1 \<Longrightarrow> sim_step env c1 = Some (c2, None) \<Longrightarrow> sim_run env c tr c2"
| sim_event: "sim_run env c tr c1 \<Longrightarrow> sim_step env c1 = Some (c2, Some ev) \<Longrightarrow>
    sim_run env c (tr @ [(schedule_time (sch c1), ev)]) c2"

text \<open>The whole of \<open>schedule_simulate\<close>, given a bound on the number of iterations.\<close>

fun schedule_simulate :: "nat \<Rightarrow> 'w environment \<Rightarrow> 'w config \<Rightarrow> 'w config option" where
  "schedule_simulate 0 env c = None"
| "schedule_simulate (Suc fuel) env c =
     (if pc c = PC_done then Some c
      else do { (c', _) \<leftarrow> sim_step env c; schedule_simulate fuel env c' })"

end
