(* ===== verification/Schedule_Queue.thy ===== *)
theory Schedule_Queue
  imports Schedule
begin

text \<open>
  The stratified event queue as a data structure: the pointer walk of \<open>schedule_event_\<close> computes
  a plain sorted insertion, the cells implement a map from (delay, region) to a list of events,
  and a request appends to exactly one entry of that map.
\<close>

section \<open>A map of pending events\<close>

text \<open>The contract of an event queue: what is pending in each slot, and what a request adds.\<close>

locale agenda_queue =
  fixes view :: "'s \<Rightarrow> nat \<Rightarrow> 'q \<Rightarrow> 'e list"
    and put :: "'q \<Rightarrow> 'e \<Rightarrow> 's \<Rightarrow> 't \<Rightarrow> 's"
    and slot :: "'t \<Rightarrow> nat"
  assumes put_view: "view (put q e s t) T r = view s T r @ (if T = slot t \<and> r = q then [e] else [])"
begin

text \<open>A sequence of requests: each slot holds its old events and then, in the order of the
  requests, the ones that were put there.\<close>

lemma put_all_view:
  "view (fold (\<lambda>(q, e, t) s. put q e s t) reqs s) T r =
   view s T r @ map (fst \<circ> snd) (filter (\<lambda>(q, e, t). slot t = T \<and> q = r) reqs)"
  by (induction reqs arbitrary: s) (auto simp: put_view split: if_splits)

lemma put_commute:
  "slot t \<noteq> slot t' \<or> q \<noteq> q' \<Longrightarrow> view (put q e (put q' e' s t') t) = view (put q' e' (put q e s t) t')"
  by (intro ext) (auto simp: put_view)

end

fun queue_of :: "event_queue \<Rightarrow> event_time \<Rightarrow> event list" where
  "queue_of SEQ_START c = start c"
| "queue_of SEQ_ACTIVE c = active c"
| "queue_of SEQ_INACTIVE c = inactive c"
| "queue_of SEQ_NBASSIGN c = nbassign c"
| "queue_of SEQ_RWSYNC c = rwsync c"
| "queue_of SEQ_ROSYNC c = rosync c"
| "queue_of DEL_THREAD c = del_thr c"

text \<open>The events pending a given delay from now, in a region of the time step.\<close>

fun agenda :: "event_time list \<Rightarrow> nat \<Rightarrow> event_queue \<Rightarrow> event list" where
  "agenda [] T q = []"
| "agenda (c # cs) T q =
     (if T < unat (delay c) then [] else if T = unat (delay c) then queue_of q c
      else agenda cs (T - unat (delay c)) q)"

section \<open>The walk is a sorted insertion\<close>

fun insert_event :: "event_queue \<Rightarrow> event \<Rightarrow> event_time list \<Rightarrow> vvp_time64 \<Rightarrow> event_time list" where
  "insert_event q ev [] d = [enqueue q ev (new_event_time d)]"
| "insert_event q ev (c # cs) d =
     (if d < delay c then enqueue q ev (new_event_time d) # c\<lparr>delay := delay c - d\<rparr> # cs
      else if d = delay c then enqueue q ev c # cs
      else c # insert_event q ev cs (d - delay c))"

lemma enqueue_delay [simp]: "delay (enqueue q ev c) = delay c"
  by (cases q) simp_all

lemma new_event_time_simps [simp]: "delay (new_event_time d) = d" "queue_of q (new_event_time d) = []"
  by (simp add: new_event_time_def) (cases q; simp add: new_event_time_def)

lemma queue_of_enqueue [simp]:
  "queue_of r (enqueue q ev c) = queue_of r c @ (if r = q then [ev] else [])"
  by (cases q; cases r) simp_all

lemma queue_of_delay [simp]: "queue_of q (c\<lparr>delay := d\<rparr>) = queue_of q c"
  by (cases q) simp_all

definition walk_result :: "event_queue \<Rightarrow> event \<Rightarrow> event_time list \<Rightarrow> event_time \<Rightarrow> event_time list \<Rightarrow> vvp_time64 \<Rightarrow>
    event_time list" where
  "walk_result q ev p c r d =
     (if d < delay c then p @ enqueue q ev (new_event_time d) # c\<lparr>delay := delay c - d\<rparr> # r
      else if d = delay c then p @ enqueue q ev c # r
      else p @ [c, enqueue q ev (new_event_time (d - delay c))])"

lemma walk_insert:
  "walk passed c rest d = (p, c', r, d') \<Longrightarrow> passed \<noteq> [] \<or> delay c \<le> d \<Longrightarrow>
   (d' = 0 \<longleftrightarrow> d = 0) \<and> (d' < delay c' \<longrightarrow> p \<noteq> []) \<and> (delay c' < d' \<longrightarrow> r = []) \<and>
   length p + length r = length passed + length rest \<and>
   walk_result q ev p c' r d' = passed @ insert_event q ev (c # rest) d"
proof (induction passed c rest d rule: walk.induct)
  case (1 passed ctim d)
  then show ?case by (auto simp: walk_result_def not_less)
next
  case (2 passed ctim n ns d)
  show ?case
  proof (cases "delay ctim < d")
    case True
    with 2 have "walk (passed @ [ctim]) n ns (d - delay ctim) = (p, c', r, d')" by simp
    from "2.IH" [OF True this] True show ?thesis by auto
  next
    case False
    with 2 show ?thesis by (auto simp: walk_result_def not_less)
  qed
qed

lemma find_cell_insert:
  "\<exists>p c r d'. find_cell cells d = Some (p, c, r, d', length (insert_event q ev cells d) \<noteq> length cells) \<and>
     (d' = 0 \<longleftrightarrow> d = 0) \<and> p @ enqueue q ev c # r = insert_event q ev cells d"
proof (cases "cells = [] \<or> d < delay (hd cells)")
  case True
  then show ?thesis by (cases cells) (auto simp: find_cell_def)
next
  case False
  then obtain c0 cs where cells: "cells = c0 # cs" and le: "\<not> d < delay c0" by (cases cells) auto
  obtain p c r d' where w: "walk [] c0 cs d = (p, c, r, d')" by (cases "walk [] c0 cs d")
  have wi: "(d' = 0 \<longleftrightarrow> d = 0) \<and> (d' < delay c \<longrightarrow> p \<noteq> []) \<and> (delay c < d' \<longrightarrow> r = []) \<and>
      length p + length r = length cs \<and> walk_result q ev p c r d' = insert_event q ev cells d"
    using walk_insert [OF w] le by (auto simp: not_less cells)
  have len: "length (insert_event q ev cells d) = length p + length r + (if d' = delay c then 1 else 2)"
    using wi by (auto simp: walk_result_def simp flip: wi split: if_splits)
  show ?thesis
  proof (cases "d' = delay c")
    case True
    then show ?thesis using wi le w len by (auto simp: find_cell_def cells walk_result_def)
  next
    case False
    then show ?thesis using wi le w len
      by (cases "d' < delay c") (auto simp: find_cell_def cells walk_result_def)
  qed
qed

lemma schedule_event_insert:
  "schedule_event ev d q s =
   (if q = SEQ_INACTIVE \<and> d \<noteq> 0 then None
    else Some (s\<lparr>sched_list := insert_event q ev (sched_list s) d,
      count_time_events := count_time_events s +
        (if length (insert_event q ev (sched_list s) d) \<noteq> length (sched_list s) then 1 else 0)\<rparr>))"
proof -
  obtain p c r d' where "find_cell (sched_list s) d =
      Some (p, c, r, d', length (insert_event q ev (sched_list s) d) \<noteq> length (sched_list s))"
      "d' = 0 \<longleftrightarrow> d = 0" "p @ enqueue q ev c # r = insert_event q ev (sched_list s) d"
    using find_cell_insert [of "sched_list s" d q ev] by blast
  then show ?thesis by (auto simp: schedule_event_def)
qed

section \<open>The cells implement the agenda\<close>

lemma unat_minus: "unat b < unat a \<Longrightarrow> unat (a - b :: vvp_time64) = unat a - unat b"
  by (rule unat_sub) (simp add: word_le_nat_alt)

lemma unat_time: "unat (d :: vvp_time64) < 2 ^ 64"
proof -
  have "unat d < 2 ^ LENGTH(64)" by (rule unsigned_less)
  then show ?thesis by simp
qed

lemma agenda_insert:
  "agenda (insert_event q ev cells d) T r = agenda cells T r @ (if T = unat d \<and> r = q then [ev] else [])"
proof (induction q ev cells d arbitrary: T rule: insert_event.induct)
  case (2 q ev c cs d)
  consider "d < delay c" | "d = delay c" | "delay c < d" by (rule linorder_cases)
  then show ?case
  proof cases
    case 1
    then have "unat d < unat (delay c)" "unat (delay c - d) = unat (delay c) - unat d"
      by (simp_all add: word_less_nat_alt unat_minus)
    with 1 show ?thesis by auto
  next
    case 3
    then have "unat (delay c) < unat d" "unat (d - delay c) = unat d - unat (delay c)"
      by (simp_all add: word_less_nat_alt unat_minus)
    moreover have "\<not> d < delay c" "d \<noteq> delay c" using 3 by auto
    ultimately show ?thesis using "2.IH" by auto
  qed auto
qed auto

interpretation cells: agenda_queue agenda insert_event unat
  by unfold_locales (rule agenda_insert)

text \<open>Well-formed cells: only the first one may be at the current time, and the last is less than
  \<open>2 ^ 64\<close> away, so no sum of delays wraps.\<close>

definition span :: "event_time list \<Rightarrow> nat" where
  "span cells = sum_list (map (\<lambda>c. unat (delay c)) cells)"

definition wf_cells :: "event_time list \<Rightarrow> bool" where
  "wf_cells cells \<longleftrightarrow> list_all (\<lambda>c. delay c \<noteq> 0) (tl cells) \<and> span cells < 2 ^ 64"

lemma span_insert: "span (insert_event q ev cells d) = max (span cells) (unat d)"
proof (induction q ev cells d rule: insert_event.induct)
  case (2 q ev c cs d)
  consider "d < delay c" | "d = delay c" | "delay c < d" by (rule linorder_cases)
  then show ?case
  proof cases
    case 1
    then show ?thesis by (auto simp: span_def word_less_nat_alt unat_minus)
  next
    case 3
    then have "unat (delay c) < unat d" "unat (d - delay c) = unat d - unat (delay c)"
      by (simp_all add: word_less_nat_alt unat_minus)
    moreover have "\<not> d < delay c" "d \<noteq> delay c" using 3 by auto
    ultimately show ?thesis using "2.IH" by (auto simp: span_def)
  qed (auto simp: span_def)
qed (simp add: span_def)

lemma insert_positive:
  "d \<noteq> 0 \<Longrightarrow> list_all (\<lambda>c. delay c \<noteq> 0) cells \<Longrightarrow> list_all (\<lambda>c. delay c \<noteq> 0) (insert_event q ev cells d)"
  by (induction q ev cells d rule: insert_event.induct) auto

lemma wf_insert:
  assumes "wf_cells cells"
  shows "wf_cells (insert_event q ev cells d)"
proof -
  have "span (insert_event q ev cells d) < 2 ^ 64"
    using assms unat_time [of d] by (simp add: span_insert wf_cells_def)
  moreover have "list_all (\<lambda>c. delay c \<noteq> 0) (tl (insert_event q ev cells d))"
    using assms insert_positive by (cases cells) (auto simp: wf_cells_def)
  ultimately show ?thesis by (simp add: wf_cells_def)
qed

lemma insert_head:
  assumes "cells = c # cs" "delay c = 0"
  shows "insert_event q ev cells d =
    (if d = 0 then enqueue q ev c # cs else c # insert_event q ev cs d)"
  using assms by auto

end
