(* ===== verification/Schedule_Run.thy ===== *)
theory Schedule_Run
  imports Schedule_Queue "HOL-Library.Sublist"
begin

text \<open>
  The scheduling calls and the simulation loop: where each call places its event, that calls
  only add to what is pending, the loop's invariant, and the order in which events run.
\<close>

section \<open>Where a call places its event\<close>

text \<open>The table of the interface: region, event and delay of a call that schedules into the event
  list. A functor goes to the initialization list until the simulation has started.\<close>

fun placement :: "bool \<Rightarrow> call \<Rightarrow> (event_queue \<times> event \<times> vvp_time64) option" where
  "placement started (Schedule_vthread t d p) = Some (SEQ_ACTIVE, Vthread_event t, d)"
| "placement started (Schedule_t0_trigger p) = Some (SEQ_INACTIVE, Assign_vector4_event p [BIT4_X] 0 0, 0)"
| "placement started (Schedule_inactive t) = Some (SEQ_INACTIVE, Vthread_event t, 0)"
| "placement started (Schedule_assign_vector p b w v d) = Some (SEQ_NBASSIGN, Assign_vector4_event p v b w, d)"
| "placement started (Schedule_force_vector n b w v d) = Some (SEQ_NBASSIGN, Force_vector4_event n v b w, d)"
| "placement started (Schedule_propagate_vector n d v) = Some (SEQ_NBASSIGN, Propagate_vector4_event n v, d)"
| "placement started (Schedule_propagate_event n d) = Some (SEQ_NBASSIGN, Propagate_vector4_event n [BIT4_X], d)"
| "placement started (Schedule_assign_array_word m a off v d) = Some (SEQ_NBASSIGN, Assign_array_word m a v off, d)"
| "placement started (Schedule_assign_array_real m a v d) = Some (SEQ_NBASSIGN, Assign_array_r_word m a v, d)"
| "placement started (Schedule_set_vector4 p v) = Some (SEQ_ACTIVE, Assign_vector4_event p v 0 0, 0)"
| "placement started (Schedule_set_vector8 p v) = Some (SEQ_ACTIVE, Assign_vector8_event p v, 0)"
| "placement started (Schedule_set_real p v) = Some (SEQ_ACTIVE, Assign_real_event p v, 0)"
| "placement started (Schedule_del_thr t) = Some (DEL_THREAD, Del_thr_event t, 0)"
| "placement started (Schedule_generic ob d sy ro del) =
     Some (if sy then if ro then SEQ_ROSYNC else SEQ_RWSYNC else SEQ_ACTIVE, Generic_event ob del, d)"
| "placement started (Schedule_functor ob) = (if started then Some (SEQ_ACTIVE, Generic_event ob False, 0) else None)"
| "placement started (Schedule_at_start_of_simtime ob d) = Some (SEQ_START, Generic_event ob False, d)"
| "placement started (Schedule_at_end_of_simtime ob d) = Some (SEQ_RWSYNC, Generic_event ob False, d)"
| "placement started _ = None"

fun pushes :: "call \<Rightarrow> bool" where
  "pushes (Schedule_vthread t d p) = (p \<and> d = 0)"
| "pushes _ = False"

text \<open>What is pending after a call.\<close>

definition pending_after :: "bool \<Rightarrow> call \<Rightarrow> (nat \<Rightarrow> event_queue \<Rightarrow> event list) \<Rightarrow> nat \<Rightarrow> event_queue \<Rightarrow> event list" where
  "pending_after started c ag T r =
     (case placement started c of
        None \<Rightarrow> ag T r
      | Some (q, ev, d) \<Rightarrow>
          if T = unat d \<and> r = q then (if pushes c then ev # ag T r else ag T r @ [ev]) else ag T r)"

text \<open>Calls keep the simulation time, the shape of the cells and the current cell.\<close>

definition keeps :: "'w sched \<Rightarrow> 'w sched \<Rightarrow> bool" where
  "keeps s s' \<longleftrightarrow> schedule_time s' = schedule_time s \<and> sim_started s' = sim_started s \<and>
     (wf_cells (sched_list s) \<longrightarrow> wf_cells (sched_list s')) \<and>
     (sched_list s \<noteq> [] \<and> delay (hd (sched_list s)) = 0 \<longrightarrow>
      sched_list s' \<noteq> [] \<and> delay (hd (sched_list s')) = 0)"

lemma schedule_event_ok:
  assumes "q = SEQ_INACTIVE \<longrightarrow> d = 0"
  shows "\<exists>s'. schedule_event ev d q s = Some s' \<and> keeps s s' \<and> schedule_init_list s' = schedule_init_list s \<and>
    world s' = world s \<and>
    agenda (sched_list s') = (\<lambda>T r. agenda (sched_list s) T r @ (if T = unat d \<and> r = q then [ev] else []))"
proof -
  have "delay (hd (insert_event q ev (sched_list s) d)) = 0 \<and> insert_event q ev (sched_list s) d \<noteq> []"
    if "sched_list s \<noteq> []" "delay (hd (sched_list s)) = 0"
    using that by (cases "sched_list s") auto
  then show ?thesis using assms by (auto simp: schedule_event_insert keeps_def wf_insert agenda_insert fun_eq_iff)
qed

lemma schedule_event_push_ok:
  "\<exists>s'. schedule_event_push ev s = Some s' \<and> keeps s s' \<and> schedule_init_list s' = schedule_init_list s \<and>
    agenda (sched_list s') = (\<lambda>T r. (if T = 0 \<and> r = SEQ_ACTIVE then [ev] else []) @ agenda (sched_list s) T r)"
proof (cases "sched_list s = [] \<or> delay (hd (sched_list s)) > 0")
  case True
  then have "schedule_event_push ev s = schedule_event ev 0 SEQ_ACTIVE s"
    by (cases "sched_list s") (auto simp: schedule_event_push_def)
  moreover have "agenda (sched_list s) 0 SEQ_ACTIVE = []"
    using True by (cases "sched_list s") (auto simp: word_less_nat_alt)
  ultimately show ?thesis using schedule_event_ok [of SEQ_ACTIVE 0 ev s] by (auto simp: fun_eq_iff)
next
  case False
  then obtain c cs where c: "sched_list s = c # cs" "delay c = 0"
    by (cases "sched_list s") (auto simp: word_gt_0)
  have "agenda (c\<lparr>active := ev # active c\<rparr> # cs) =
      (\<lambda>T r. (if T = 0 \<and> r = SEQ_ACTIVE then [ev] else []) @ agenda (c # cs) T r)"
  proof (intro ext)
    show "agenda (c\<lparr>active := ev # active c\<rparr> # cs) T r =
        (if T = 0 \<and> r = SEQ_ACTIVE then [ev] else []) @ agenda (c # cs) T r" for T r
      using c(2) by (cases r) auto
  qed
  then show ?thesis using c
    by (auto simp: schedule_event_push_def keeps_def wf_cells_def span_def)
qed

lemma marked_simps [simp]:
  "sched_list (marked env a s) = sched_list s" "schedule_time (marked env a s) = schedule_time s"
  "sim_started (marked env a s) = sim_started s" "schedule_init_list (marked env a s) = schedule_init_list s"
  "schedule_runnable (marked env a s) = schedule_runnable s"
  "schedule_stopped_flag (marked env a s) = schedule_stopped_flag s"
  "schedule_final_list (marked env a s) = schedule_final_list s"
  by (simp_all add: marked_def)

lemma keeps_cong:
  "sched_list s = sched_list t \<Longrightarrow> schedule_time s = schedule_time t \<Longrightarrow> sim_started s = sim_started t \<Longrightarrow>
   keeps s u \<Longrightarrow> keeps t u"
  by (simp add: keeps_def)

lemmas call_defs = schedule_finish_def schedule_stop_def schedule_single_step_def vvp_no_signals_def
  signals_handler_def schedule_init_vthread_def schedule_final_vthread_def schedule_init_event_def
  schedule_final_event_def schedule_init_vector4_def schedule_init_vector8_def schedule_init_real_def
  schedule_init_propagate4_def schedule_init_propagate_real_def

lemmas event_call_defs = schedule_t0_trigger_def schedule_inactive_def schedule_assign_vector_def
  schedule_force_vector_def schedule_propagate_vector_def schedule_propagate_event_def
  schedule_assign_array_word_def schedule_assign_array_real_def schedule_set_vector4_def
  schedule_set_vector8_def schedule_set_real_def schedule_del_thr_def
  schedule_at_start_of_simtime_def schedule_at_end_of_simtime_def

text \<open>The bookkeeping around a request.\<close>

definition call_pre :: "'w environment \<Rightarrow> call \<Rightarrow> 'w sched \<Rightarrow> 'w sched" where
  "call_pre env c s = (case c of Schedule_vthread t d p \<Rightarrow> marked env (Vthread_mark_scheduled t) s
     | Schedule_inactive t \<Rightarrow> marked env (Vthread_mark_scheduled t) s | _ \<Rightarrow> s)"

definition call_post :: "'w environment \<Rightarrow> call \<Rightarrow> 'w sched \<Rightarrow> 'w sched" where
  "call_post env c = (case c of Schedule_generic ob d sy ro del \<Rightarrow>
     if sy then marked env Vthread_delay_delete else id | _ \<Rightarrow> id)"

lemma call_pre_post [simp]:
  "sched_list (call_pre env c s) = sched_list s" "schedule_time (call_pre env c s) = schedule_time s"
  "sim_started (call_pre env c s) = sim_started s"
  "sched_list (call_post env c s) = sched_list s" "schedule_time (call_post env c s) = schedule_time s"
  "sim_started (call_post env c s) = sim_started s"
  by (simp_all add: call_pre_def call_post_def split: call.splits)

lemma do_call_request:
  "placement (sim_started s) c = Some (q, ev, d) \<Longrightarrow> \<not> pushes c \<Longrightarrow>
   do_call env c s = map_option (call_post env c) (schedule_event ev d q (call_pre env c s)) \<and>
   (q = SEQ_INACTIVE \<longrightarrow> d = 0)"
  by (cases c) (auto simp: event_call_defs schedule_vthread_def schedule_generic_def schedule_functor_def
    call_pre_def call_post_def Let_def option.map_id option.map_ident
    intro: option.map_cong split: if_splits)

lemma do_call_pushes:
  "pushes c \<Longrightarrow> \<exists>t. placement b c = Some (SEQ_ACTIVE, Vthread_event t, 0) \<and>
    do_call env c s = schedule_event_push (Vthread_event t) (call_pre env c s)"
  by (cases c) (auto simp: schedule_vthread_def call_pre_def)

lemma keeps_frame:
  "keeps t u \<Longrightarrow> sched_list t = sched_list s \<Longrightarrow> schedule_time t = schedule_time s \<Longrightarrow>
   sim_started t = sim_started s \<Longrightarrow> sched_list v = sched_list u \<Longrightarrow> schedule_time v = schedule_time u \<Longrightarrow>
   sim_started v = sim_started u \<Longrightarrow> keeps s v"
  by (simp add: keeps_def)

lemma do_call_spec:
  "\<exists>s'. do_call env c s = Some s' \<and> keeps s s' \<and>
    agenda (sched_list s') = pending_after (sim_started s) c (agenda (sched_list s))"
proof (cases "placement (sim_started s) c")
  case None
  then show ?thesis by (cases c)
    (auto simp: call_defs keeps_def pending_after_def fun_eq_iff schedule_functor_def Let_def split: if_splits)
next
  case (Some a)
  then obtain q ev d where p: "placement (sim_started s) c = Some (q, ev, d)" by (cases a) auto
  let ?t = "call_pre env c s"
  show ?thesis
  proof (cases "pushes c")
    case True
    then obtain t where t: "q = SEQ_ACTIVE" "ev = Vthread_event t" "d = 0"
        "do_call env c s = schedule_event_push ev ?t"
      using do_call_pushes [OF True, of "sim_started s" env s] p by auto
    obtain u where "schedule_event_push ev ?t = Some u" "keeps ?t u"
        "agenda (sched_list u) = (\<lambda>T r. (if T = 0 \<and> r = SEQ_ACTIVE then [ev] else []) @ agenda (sched_list s) T r)"
      using schedule_event_push_ok [of ev ?t] by auto
    then show ?thesis using t p True keeps_frame [of ?t u s u]
      by (auto simp: pending_after_def fun_eq_iff)
  next
    case False
    note r = do_call_request [OF p False, of env]
    obtain u where "schedule_event ev d q ?t = Some u" "keeps ?t u"
        "agenda (sched_list u) = (\<lambda>T r. agenda (sched_list s) T r @ (if T = unat d \<and> r = q then [ev] else []))"
      using schedule_event_ok [of q d ev ?t] r by auto
    then show ?thesis using r p False keeps_frame [of ?t u s "call_post env c u"]
      by (auto simp: pending_after_def fun_eq_iff)
  qed
qed

text \<open>Calls only add: what was pending in a slot stays there, in order.\<close>

definition extends :: "'w sched \<Rightarrow> 'w sched \<Rightarrow> bool" where
  "extends s s' \<longleftrightarrow> keeps s s' \<and> (\<forall>T q. sublist (agenda (sched_list s) T q) (agenda (sched_list s') T q))"

lemma extends_refl: "sched_list t = sched_list s \<Longrightarrow> schedule_time t = schedule_time s \<Longrightarrow>
  sim_started t = sim_started s \<Longrightarrow> extends s t"
  by (simp add: extends_def keeps_def)

lemma extends_trans:
  assumes "extends s t" "extends t u"
  shows "extends s u"
proof -
  have "sublist (agenda (sched_list s) T q) (agenda (sched_list u) T q)" for T q
    using assms sublist_order.order.trans unfolding extends_def by blast
  then show ?thesis using assms by (simp add: extends_def keeps_def)
qed

lemma do_call_extends: "\<exists>s'. do_call env c s = Some s' \<and> extends s s'"
proof -
  obtain s' where s: "do_call env c s = Some s'" "keeps s s'"
      "agenda (sched_list s') = pending_after (sim_started s) c (agenda (sched_list s))"
    using do_call_spec [of env c s] by blast
  have "sublist (agenda (sched_list s) T q) (pending_after (sim_started s) c (agenda (sched_list s)) T q)" for T q
    by (auto simp: pending_after_def sublist_Cons_right split: option.splits)
  then show ?thesis using s by (auto simp: extends_def)
qed

lemma do_calls_extends: "\<exists>s'. do_calls env cs s = Some s' \<and> extends s s'"
proof (induction cs arbitrary: s)
  case (Cons c cs)
  obtain t where "do_call env c s = Some t" "extends s t" using do_call_extends [of env c s] by blast
  moreover obtain u where "do_calls env cs t = Some u" "extends t u" using Cons.IH [of t] by blast
  ultimately show ?case using extends_trans by auto
qed (simp add: extends_refl)

lemma run_action_extends: "\<exists>s'. run_action env a s = Some s' \<and> extends s s'"
proof -
  obtain w cs where p: "perform env a s = (w, cs)" by (cases "perform env a s")
  obtain s' where "do_calls env cs (s\<lparr>world := w\<rparr>) = Some s'" "extends (s\<lparr>world := w\<rparr>) s'"
    using do_calls_extends [of env cs "s\<lparr>world := w\<rparr>"] by blast
  moreover have "extends s (s\<lparr>world := w\<rparr>)" by (simp add: extends_refl)
  ultimately show ?thesis using p extends_trans by (auto simp: run_action_def)
qed

section \<open>Running an event only adds to what is pending\<close>

text \<open>The one event whose execution can abort is a force: its mask, its signal or its merge.\<close>

definition force_fails :: "'w environment \<Rightarrow> event \<Rightarrow> 'w sched \<Rightarrow> bool" where
  "force_fails env ev s \<longleftrightarrow> (\<exists>net val base vwid. ev = Force_vector4_event net val base vwid \<and>
     (force_mask base vwid (length val) = None \<or>
      (case vec4_value env net (world s) of None \<Rightarrow> True | Some tmp \<Rightarrow> force_value tmp base val = None)))"

lemma extends_count [simp]:
  "extends s (count_assign s)" "extends s (s\<lparr>count_thread_events := n\<rparr>)" "extends s (s\<lparr>count_gen_events := n\<rparr>)"
  by (simp_all add: extends_refl count_assign_def)

lemma run_action_after:
  assumes "extends s t"
  shows "\<exists>s'. run_action env a t = Some s' \<and> extends s s'"
  using run_action_extends [of env a t] extends_trans [OF assms] by blast

lemma run_run_extends:
  assumes "\<not> force_fails env ev s"
  shows "\<exists>s'. run_run env ev s = Some s' \<and> extends s s'"
proof (cases ev)
  case (Force_vector4_event net val base vwid)
  then obtain m tmp tmp' where "force_mask base vwid (length val) = Some m"
      "vec4_value env net (world s) = Some tmp" "force_value tmp base val = Some tmp'"
    using assms by (auto simp: force_fails_def split: option.splits)
  then show ?thesis using Force_vector4_event run_action_after [of s "count_assign s" env] by simp
next
  case (Generic_event obj del)
  let ?s1 = "s\<lparr>count_gen_events := count_gen_events s + 1\<rparr>"
  have "\<exists>s'. run_run env (Generic_event (Some g) del) s = Some s' \<and> extends s s'" for g
  proof -
    obtain s2 where "run_action env (Gen_run_run g) ?s1 = Some s2" "extends s s2"
      using run_action_after [of s ?s1 env] by auto
    then show ?thesis using run_action_after [of s s2 env] by (cases del) (auto simp: Let_def)
  qed
  then show ?thesis using Generic_event by (cases obj) auto
qed (use run_action_after [of s "count_assign s" env] run_action_extends [of env _ s]
    run_action_after [of s "s\<lparr>count_thread_events := count_thread_events s + 1\<rparr>" env] in auto)

lemma run_run_Some_extends: "run_run env ev s = Some s' \<Longrightarrow> extends s s'"
proof (cases "force_fails env ev s")
  case True
  moreover assume "run_run env ev s = Some s'"
  ultimately show ?thesis by (auto simp: force_fails_def bind_eq_Some_conv split: option.splits)
next
  case False
  then show "run_run env ev s = Some s' \<Longrightarrow> extends s s'" using run_run_extends [OF False] by auto
qed

lemma run_run_None: "run_run env ev s = None \<Longrightarrow> force_fails env ev s"
  using run_run_extends [of env ev s] by auto

lemma run_action_Some_extends: "run_action env a s = Some s' \<Longrightarrow> extends s s'"
  using run_action_extends [of env a s] by auto

lemma run_action_not_None: "run_action env a s \<noteq> None"
  using run_action_extends [of env a s] by auto

section \<open>The loop's invariant\<close>

text \<open>While the loop works on a time step, the first cell is that step.\<close>

definition sim_inv :: "'w config \<Rightarrow> bool" where
  "sim_inv c \<longleftrightarrow> wf_cells (sched_list (sch c)) \<and>
     (pc c \<in> {PC_start, PC_queues, PC_rosync, PC_del_thr} \<longrightarrow>
      sched_list (sch c) \<noteq> [] \<and> delay (hd (sched_list (sch c))) = 0)"

definition current :: "'w sched \<Rightarrow> bool" where
  "current s \<longleftrightarrow> wf_cells (sched_list s) \<and> sched_list s \<noteq> [] \<and> delay (hd (sched_list s)) = 0"

lemma extends_current: "extends s s' \<Longrightarrow> current s \<Longrightarrow> current s'"
  by (auto simp: extends_def keeps_def current_def)

lemma extends_wf: "extends s s' \<Longrightarrow> wf_cells (sched_list s) \<Longrightarrow> wf_cells (sched_list s')"
  by (auto simp: extends_def keeps_def)

lemma extends_time: "extends s s' \<Longrightarrow> schedule_time s' = schedule_time s"
  by (auto simp: extends_def keeps_def)

lemma set_ctim_current:
  "current s \<Longrightarrow> delay c = 0 \<Longrightarrow> current (set_ctim c s)"
  by (cases "sched_list s") (auto simp: current_def set_ctim_def wf_cells_def span_def)

lemma single_step_Some:
  "single_step ev s = Some s' \<Longrightarrow> world s' = world s \<and> extends s s'"
  by (auto simp: single_step_def bind_eq_Some_conv intro!: extends_refl split: if_splits)

text \<open>The event that has no display: a generic event without an object.\<close>

lemma single_step_None:
  "single_step ev s = None \<longleftrightarrow> schedule_single_step_flag s \<and> (\<exists>del. ev = Generic_event None del)"
  by (cases ev) (auto simp: single_step_def split: option.splits)

lemma current_cong: "sched_list t = sched_list s \<Longrightarrow> current s \<Longrightarrow> current t"
  by (simp add: current_def)

lemma advance_delay [simp]: "delay (advance_queues c) = delay c"
  by (simp add: advance_queues_def)

lemma wf_cells_tl: "wf_cells (c # cs) \<Longrightarrow> wf_cells cs"
  by (cases cs) (auto simp: wf_cells_def span_def)

lemma signals_simps [simp]:
  "sched_list (signals_capture s) = sched_list s" "sched_list (signals_revert s) = sched_list s"
  "schedule_time (signals_capture s) = schedule_time s" "schedule_time (signals_revert s) = schedule_time s"
  by (simp_all add: signals_capture_def signals_revert_def)

text \<open>What a step of the main loop does, by the place it starts from.\<close>

lemma step_main_cases:
  assumes "step_main env c = Some (c', ev)"
  obtains (stay) "ev = None" "pc c' \<in> {PC_final, PC_main}" "extends (sch c) (sch c')"
  | (now) ctim rest where "ev = None" "c' = c\<lparr>pc := PC_queues\<rparr>" "sched_list (sch c) = ctim # rest" "delay ctim = 0"
  | (advance) ctim rest s1 where "ev = None" "pc c' = PC_start" "sched_list (sch c) = ctim # rest" "delay ctim \<noteq> 0"
      "sched_list s1 = ctim\<lparr>delay := 0\<rparr> # rest" "schedule_time s1 = schedule_time (sch c) + delay ctim"
      "extends s1 (sch c')"
proof (cases "sched_list (sch c)")
  case Nil
  then show ?thesis using assms by (intro stay) (auto simp: step_main_def leave_main_def goto_def extends_refl)
next
  case (Cons ctim rest)
  let ?s0 = "(sch c)\<lparr>schedule_stopped_flag := False\<rparr>"
  consider "schedule_stopped_flag (sch c)" | "\<not> schedule_stopped_flag (sch c)" "delay ctim = 0"
    | "\<not> schedule_stopped_flag (sch c)" "delay ctim \<noteq> 0" "\<not> schedule_runnable (sch c)"
    | "\<not> schedule_stopped_flag (sch c)" "delay ctim \<noteq> 0" "schedule_runnable (sch c)" by blast
  then show ?thesis
  proof cases
    case 1
    then obtain s' where s': "run_action env Stop_handler ?s0 = Some s'"
        "(c', ev) = (if schedule_runnable s' then goto c PC_main s' None else leave_main c s')"
      using assms Cons by (auto simp: step_main_def Let_def bind_eq_Some_conv)
    have "extends (sch c) ?s0" by (simp add: extends_refl)
    then have "extends (sch c) s'" using extends_trans run_action_Some_extends [OF s'(1)] by blast
    moreover have "extends s' (s'\<lparr>schedule_runnable := run_finals c\<rparr>)" by (simp add: extends_refl)
    ultimately show ?thesis using s'(2) extends_trans
      by (intro stay) (auto simp: goto_def leave_main_def split: if_splits)
  next
    case 2
    then show ?thesis using assms Cons by (intro now) (auto simp: step_main_def goto_def)
  next
    case 3
    then show ?thesis using assms Cons
      by (intro stay) (auto simp: step_main_def leave_main_def goto_def extends_refl word_gt_0)
  next
    case 4
    define s1 where "s1 = (sch c)\<lparr>schedule_time := schedule_time (sch c) + delay ctim,
      sched_list := ctim\<lparr>delay := 0\<rparr> # rest, stderr_log := stderr_log (sch c) @
        (if show_file_line (sch c) then [Advancing (schedule_time (sch c) + delay ctim)] else [])\<rparr>"
    have "do { s2 \<leftarrow> run_action env VpiNextSimTime s1; Some (goto c PC_start s2 None) } = Some (c', ev)"
      using assms Cons 4 by (simp add: step_main_def Let_def word_gt_0 s1_def)
    then show ?thesis using 4 Cons run_action_Some_extends [of env VpiNextSimTime s1]
      by (intro advance [of ctim rest s1]) (auto simp: goto_def bind_eq_Some_conv s1_def)
  qed
qed

lemma step_start_cases:
  assumes "step_start env c = Some (c', ev)"
  obtains (leave) "ev = None" "c' = c\<lparr>pc := PC_queues\<rparr>"
  | (run) ctim rest cur q where "ev = Some cur" "pc c' = PC_start" "sched_list (sch c) = ctim # rest"
      "start ctim = cur # q" "extends (set_ctim (ctim\<lparr>start := q\<rparr>) (sch c)) (sch c')"
  using assms run_run_Some_extends
  by (force simp: step_start_def goto_def bind_eq_Some_conv split: list.splits)

lemma step_queues_cases:
  assumes "step_queues env c = Some (c', ev)"
  obtains (leave) ctim rest where "ev = None" "sched_list (sch c) = ctim # rest" "active (advance_queues ctim) = []"
      "c' = c\<lparr>pc := PC_rosync, sch := (set_ctim (advance_queues ctim) (sch c))\<lparr>sim_at_rosync := True\<rparr>\<rparr>"
  | (run) ctim rest cur q where "ev = Some cur" "pc c' = PC_main" "sched_list (sch c) = ctim # rest"
      "active (advance_queues ctim) = cur # q"
      "extends (set_ctim ((advance_queues ctim)\<lparr>active := q\<rparr>) (sch c)) (sch c')"
proof -
  have "extends s s2" if "single_step cur s = Some s1" "run_run env cur s1 = Some s2" for s s1 s2 cur
    using extends_trans [OF _ run_run_Some_extends [OF that(2)]] single_step_Some [OF that(1)] by blast
  then show ?thesis using assms that
    by (fastforce simp: step_queues_def goto_def bind_eq_Some_conv Let_def split: list.splits)
qed

lemma step_rosync_cases:
  assumes "step_rosync env c = Some (c', ev)"
  obtains (leave) "ev = None" "c' = c\<lparr>pc := PC_del_thr, sch := (sch c)\<lparr>sim_at_rosync := False\<rparr>\<rparr>"
  | (run) ctim rest cur q where "ev = Some cur" "pc c' = PC_rosync" "sched_list (sch c) = ctim # rest"
      "rosync ctim = cur # q" "extends (set_ctim (ctim\<lparr>rosync := q\<rparr>) (sch c)) (sch c')"
  using assms run_run_Some_extends
  by (force simp: step_rosync_def goto_def bind_eq_Some_conv split: list.splits)

lemma step_del_thr_cases:
  assumes "step_del_thr env c = Some (c', ev)"
  obtains (leave) ctim rest where "ev = None" "pc c' = PC_main" "sched_list (sch c) = ctim # rest" "del_thr ctim = []"
      "sched_list (sch c') = rest" "schedule_time (sch c') = schedule_time (sch c)"
  | (run) ctim rest cur q where "ev = Some cur" "pc c' = PC_del_thr" "sched_list (sch c) = ctim # rest"
      "del_thr ctim = cur # q" "extends (set_ctim (ctim\<lparr>del_thr := q\<rparr>) (sch c)) (sch c')"
  using assms run_run_Some_extends
  by (force simp: step_del_thr_def goto_def bind_eq_Some_conv Let_def split: list.splits)

lemma extends_chain_wf:
  "extends s s' \<Longrightarrow> sched_list s = cells \<Longrightarrow> wf_cells cells \<Longrightarrow> wf_cells (sched_list s')"
  using extends_wf by blast

lemma sim_inv_current: "sim_inv c \<Longrightarrow> pc c \<in> {PC_start, PC_queues, PC_rosync, PC_del_thr} \<Longrightarrow> current (sch c)"
  by (auto simp: sim_inv_def current_def)

lemma current_sim_inv: "current (sch c) \<Longrightarrow> sim_inv c"
  by (simp add: sim_inv_def current_def)

lemma current_head: "current s \<Longrightarrow> sched_list s = c # cs \<Longrightarrow> delay c = 0"
  by (simp add: current_def)

lemma run_current:
  assumes "current (sch c)" "sched_list (sch c) = ctim # rest" "delay ctim' = delay ctim"
    "extends (set_ctim ctim' (sch c)) (sch c')"
  shows "sim_inv c'"
  using assms by (auto intro!: current_sim_inv extends_current [OF assms(4)] set_ctim_current simp: current_head)

theorem sim_step_inv:
  assumes "sim_inv c" "sim_step env c = Some (c', ev)"
  shows "sim_inv c'"
proof -
  have wf: "wf_cells (sched_list (sch c))" using assms(1) by (simp add: sim_inv_def)
  note cur = sim_inv_current [OF assms(1)]
  show ?thesis
  proof (cases "pc c")
    case PC_entry
    then show ?thesis using assms(2) run_action_Some_extends extends_chain_wf [OF _ _ wf]
      by (fastforce simp: sim_step_def step_entry_def goto_def sim_inv_def bind_eq_Some_conv)
  next
    case PC_init
    then show ?thesis using assms(2) run_action_Some_extends run_run_Some_extends extends_chain_wf [OF _ _ wf]
      by (fastforce simp: sim_step_def step_init_def goto_def sim_inv_def bind_eq_Some_conv Let_def
        split: list.splits if_splits)
  next
    case PC_final
    then show ?thesis using assms(2) run_action_Some_extends run_run_Some_extends extends_chain_wf [OF _ _ wf]
      by (fastforce simp: sim_step_def step_final_def goto_def sim_inv_def bind_eq_Some_conv Let_def
        split: list.splits if_splits)
  next
    case PC_main
    then have "step_main env c = Some (c', ev)" using assms(2) by (simp add: sim_step_def)
    then show ?thesis
    proof (cases rule: step_main_cases)
      case stay
      then show ?thesis using extends_wf [OF stay(3) wf] by (auto simp: sim_inv_def)
    next
      case (now ctim rest)
      then show ?thesis using wf by (simp add: sim_inv_def)
    next
      case (advance ctim rest s1)
      then have "current s1" using wf by (auto simp: current_def wf_cells_def span_def)
      then show ?thesis using extends_current [OF advance(7)] by (intro current_sim_inv)
    qed
  next
    case PC_start
    then have "step_start env c = Some (c', ev)" using assms(2) by (simp add: sim_step_def)
    then show ?thesis
    proof (cases rule: step_start_cases)
      case (run ctim rest e q)
      then show ?thesis using PC_start cur by (intro run_current [OF _ run(3) _ run(5)]) auto
    qed (use cur PC_start in \<open>auto intro: current_sim_inv\<close>)
  next
    case PC_queues
    then have "step_queues env c = Some (c', ev)" using assms(2) by (simp add: sim_step_def)
    then show ?thesis
    proof (cases rule: step_queues_cases)
      case (leave ctim rest)
      have "current (set_ctim (advance_queues ctim) (sch c))"
        using cur PC_queues current_head [OF _ leave(2)] by (intro set_ctim_current) auto
      then show ?thesis using leave(4) by (intro current_sim_inv) (simp add: current_def)
    next
      case (run ctim rest cur q)
      then show ?thesis using \<open>pc c = PC_queues\<close> cur by (intro run_current [OF _ run(3) _ run(5)]) auto
    qed
  next
    case PC_rosync
    then have "step_rosync env c = Some (c', ev)" using assms(2) by (simp add: sim_step_def)
    then show ?thesis
    proof (cases rule: step_rosync_cases)
      case (run ctim rest e q)
      then show ?thesis using PC_rosync cur by (intro run_current [OF _ run(3) _ run(5)]) auto
    qed (use cur PC_rosync in \<open>auto intro: current_sim_inv simp: current_def\<close>)
  next
    case PC_del_thr
    then have "step_del_thr env c = Some (c', ev)" using assms(2) by (simp add: sim_step_def)
    then show ?thesis
    proof (cases rule: step_del_thr_cases)
      case (run ctim rest e q)
      then show ?thesis using PC_del_thr cur by (intro run_current [OF _ run(3) _ run(5)]) auto
    qed (use wf wf_cells_tl in \<open>auto simp: sim_inv_def\<close>)
  qed (use assms in \<open>auto simp: sim_step_def\<close>)
qed

lemma sim_run_inv: "sim_run env c tr c' \<Longrightarrow> sim_inv c \<Longrightarrow> sim_inv c'"
  by (induction rule: sim_run.induct) (auto intro: sim_step_inv)

section \<open>When and in which order events run\<close>

definition regions :: "event_queue list" where
  "regions = [SEQ_ACTIVE, SEQ_INACTIVE, SEQ_NBASSIGN, SEQ_RWSYNC]"

definition nothing_now :: "event_queue list \<Rightarrow> 'w sched \<Rightarrow> bool" where
  "nothing_now qs s \<longleftrightarrow> list_all (\<lambda>q. agenda (sched_list s) 0 q = []) qs"

text \<open>The region the loop takes its next event from.\<close>

definition next_region :: "'w sched \<Rightarrow> event_queue option" where
  "next_region s = find (\<lambda>q. agenda (sched_list s) 0 q \<noteq> []) regions"

lemma agenda_now: "delay c = 0 \<Longrightarrow> agenda (c # cs) 0 q = queue_of q c"
  by simp

lemma advance_active:
  "active (advance_queues c) = (case find (\<lambda>q. queue_of q c \<noteq> []) regions of None \<Rightarrow> [] | Some q \<Rightarrow> queue_of q c)"
  by (auto simp: advance_queues_def regions_def)

lemma step_queues_region:
  assumes "current (sch c)" "step_queues env c = Some (c', ev)"
  shows "case next_region (sch c) of
    None \<Rightarrow> ev = None \<and> pc c' = PC_rosync
  | Some q \<Rightarrow> pc c' = PC_main \<and> ev = Some (hd (agenda (sched_list (sch c)) 0 q))"
proof -
  obtain ctim rest where l: "sched_list (sch c) = ctim # rest" "delay ctim = 0"
    using assms(1) by (cases "sched_list (sch c)") (auto simp: current_def)
  have nr: "next_region (sch c) = find (\<lambda>q. queue_of q ctim \<noteq> []) regions"
    using l by (simp add: next_region_def)
  have act: "active (advance_queues ctim) =
      (case next_region (sch c) of None \<Rightarrow> [] | Some q \<Rightarrow> agenda (sched_list (sch c)) 0 q)"
    using l by (auto simp: advance_active nr split: option.splits)
  have ne: "next_region (sch c) = Some q \<Longrightarrow> agenda (sched_list (sch c)) 0 q \<noteq> []" for q
    using l by (auto simp: nr find_Some_iff)
  from assms(2) show ?thesis
    by (cases rule: step_queues_cases) (use l act ne in \<open>auto split: option.splits dest: arg_cong [where f = hd]\<close>)
qed

text \<open>What is pending at an absolute simulation time.\<close>

definition due :: "'w sched \<Rightarrow> nat \<Rightarrow> event_queue \<Rightarrow> event list" where
  "due s A q = (if A < unat (schedule_time s) then [] else agenda (sched_list s) (A - unat (schedule_time s)) q)"

lemma due_extends: "extends s s' \<Longrightarrow> sublist (due s A q) (due s' A q)"
  by (auto simp: due_def extends_def keeps_def)

lemma due_later:
  assumes "unat (schedule_time s) < A" "sched_list s = c # cs" "delay c = 0" "delay c' = 0"
  shows "due (set_ctim c' s) A q = due s A q" "sched_list t = cs \<Longrightarrow> schedule_time t = schedule_time s \<Longrightarrow> due t A q = due s A q"
  using assms by (auto simp: due_def set_ctim_def)

lemma due_advance:
  assumes "sched_list s = c # cs" "unat (schedule_time s) + unat (delay c) < 2 ^ 64"
    "sched_list s1 = c\<lparr>delay := 0\<rparr> # cs" "schedule_time s1 = schedule_time s + delay c"
  shows "due s1 A q = due s A q" "due s A q \<noteq> [] \<longrightarrow> unat (schedule_time s1) \<le> A"
proof -
  have "unat (schedule_time s1) = unat (schedule_time s) + unat (delay c)"
    using assms(2,4) by (simp add: unat_word_ariths)
  then show "due s1 A q = due s A q" "due s A q \<noteq> [] \<longrightarrow> unat (schedule_time s1) \<le> A"
    using assms(1,3) by (auto simp: due_def)
qed

lemma run_due:
  assumes "current s" "sched_list s = ctim # rest" "delay ctim' = delay ctim" "extends (set_ctim ctim' s) s'"
    "unat (schedule_time s) < A"
  shows "sublist (due s A q) (due s' A q) \<and> schedule_time s' = schedule_time s"
proof -
  have d: "delay ctim = 0" using current_head [OF assms(1,2)] .
  have "due (set_ctim ctim' s) A q = due s A q"
    using due_later(1) [OF assms(5,2) d] assms(3) d by simp
  then show ?thesis using due_extends [OF assms(4), of A q] extends_time [OF assms(4)] by (simp add: set_ctim_def)
qed

lemma same_due:
  "sched_list t = sched_list s \<Longrightarrow> schedule_time t = schedule_time s \<Longrightarrow> extends t s' \<Longrightarrow>
   sublist (due s A q) (due s' A q) \<and> schedule_time s' = schedule_time s"
  using due_extends [of t s' A q] extends_time [of t s'] by (auto simp: due_def split: if_splits)

lemma quiet_due:
  "sched_list t = sched_list s \<Longrightarrow> schedule_time t = schedule_time s \<Longrightarrow>
   sublist (due s A q) (due t A q) \<and> schedule_time t = schedule_time s"
  by (simp add: due_def)

lemma outer_steps:
  assumes "sim_step env c = Some (c', ev)" "pc c \<in> {PC_init, PC_final, PC_done}"
  shows "\<exists>t. sched_list t = sched_list (sch c) \<and> schedule_time t = schedule_time (sch c) \<and> extends t (sch c')"
proof -
  consider "pc c = PC_init" | "pc c = PC_final" | "pc c = PC_done" using assms(2) by auto
  then show ?thesis
  proof cases
    case 1
    show ?thesis
    proof (cases "schedule_init_list (sch c)")
      case Nil
      let ?t = "(sch c)\<lparr>sim_started := True\<rparr>"
      obtain s1 where "run_action env VpiStartOfSim ?t = Some s1"
          "sch c' = signals_capture s1 \<or> sch c' = (signals_capture s1)\<lparr>schedule_runnable := False\<rparr>"
        using assms(1) 1 Nil
        by (auto simp: sim_step_def step_init_def bind_eq_Some_conv Let_def split: if_splits)
      then have "extends ?t s1" "extends s1 (sch c')"
        using run_action_Some_extends [of env VpiStartOfSim ?t s1] extends_refl [of "sch c'" s1]
        by (auto simp: signals_capture_def split: if_splits)
      then show ?thesis using extends_trans by (intro exI [of _ ?t]) auto
    next
      case (Cons cur rest)
      then show ?thesis using assms(1) 1 run_run_Some_extends
        by (intro exI [of _ "(sch c)\<lparr>schedule_init_list := rest\<rparr>"])
          (auto simp: sim_step_def step_init_def goto_def bind_eq_Some_conv)
    qed
  next
    case 2
    show ?thesis
    proof (cases "if schedule_runnable (sch c) then schedule_final_list (sch c) else []")
      case Nil
      have "run_action env VpiPostsim (signals_revert (sch c)) = Some (sch c')"
        using assms(1) 2 Nil by (auto simp: sim_step_def step_final_def goto_def bind_eq_Some_conv Let_def)
      then show ?thesis using run_action_Some_extends by (intro exI [of _ "signals_revert (sch c)"]) auto
    next
      case (Cons cur rest)
      have "run_run env cur ((sch c)\<lparr>schedule_final_list := rest\<rparr>) = Some (sch c')"
        using assms(1) 2 Cons by (auto simp: sim_step_def step_final_def goto_def bind_eq_Some_conv Let_def)
      then show ?thesis using run_run_Some_extends
        by (intro exI [of _ "(sch c)\<lparr>schedule_final_list := rest\<rparr>"]) auto
    qed
  next
    case 3
    then show ?thesis using assms(1) by (intro exI [of _ "sch c"]) (auto simp: sim_step_def extends_refl)
  qed
qed

lemma outer_due:
  "sim_step env c = Some (c', ev) \<Longrightarrow> pc c \<in> {PC_init, PC_final, PC_done} \<Longrightarrow>
   sublist (due (sch c) A q) (due (sch c') A q) \<and> schedule_time (sch c') = schedule_time (sch c)"
  using outer_steps [of env c c' ev] same_due by blast

lemma future_step:
  assumes "sim_inv c" "sim_step env c = Some (c', ev)" "pc c \<noteq> PC_entry"
    "unat (schedule_time (sch c)) + span (sched_list (sch c)) < 2 ^ 64" "unat (schedule_time (sch c)) < A"
  shows "sublist (due (sch c) A q) (due (sch c') A q) \<and>
    (due (sch c) A q \<noteq> [] \<longrightarrow> unat (schedule_time (sch c')) \<le> A)"
proof -
  note cur = sim_inv_current [OF assms(1)]
  have stay: ?thesis if "sublist (due (sch c) A q) (due (sch c') A q) \<and> schedule_time (sch c') = schedule_time (sch c)"
    using that assms(5) by simp
  show ?thesis
  proof (cases "pc c")
    case PC_main
    then have "step_main env c = Some (c', ev)" using assms(2) by (simp add: sim_step_def)
    then show ?thesis
    proof (cases rule: step_main_cases)
      case (advance ctim rest s1)
      have "unat (schedule_time (sch c)) + unat (delay ctim) < 2 ^ 64"
        using assms(4) advance(3) by (simp add: span_def)
      note d = due_advance [OF advance(3) this advance(5,6)]
      show ?thesis using d due_extends [OF advance(7), of A q] extends_time [OF advance(7)] by simp
    qed (use same_due [OF refl refl] quiet_due assms(5) in \<open>auto\<close>)
  next
    case PC_start
    then have "step_start env c = Some (c', ev)" using assms(2) by (simp add: sim_step_def)
    then show ?thesis
    proof (cases rule: step_start_cases)
      case (run ctim rest e q)
      then show ?thesis using PC_start cur assms(5) by (intro stay run_due [OF _ run(3) _ run(5)]) auto
    qed (use quiet_due assms(5) in \<open>auto\<close>)
  next
    case PC_queues
    then have "step_queues env c = Some (c', ev)" using assms(2) by (simp add: sim_step_def)
    then show ?thesis
    proof (cases rule: step_queues_cases)
      case (leave ctim rest)
      then show ?thesis using PC_queues cur assms(5)
        by (intro stay run_due [OF _ leave(2), of "advance_queues ctim"]) (auto intro: extends_refl)
    next
      case (run ctim rest e q)
      then show ?thesis using PC_queues cur assms(5) by (intro stay run_due [OF _ run(3) _ run(5)]) auto
    qed
  next
    case PC_rosync
    then have "step_rosync env c = Some (c', ev)" using assms(2) by (simp add: sim_step_def)
    then show ?thesis
    proof (cases rule: step_rosync_cases)
      case (run ctim rest e q)
      then show ?thesis using PC_rosync cur assms(5) by (intro stay run_due [OF _ run(3) _ run(5)]) auto
    qed (use quiet_due [of "(sch c)\<lparr>sim_at_rosync := False\<rparr>" "sch c" A q] assms(5) in \<open>auto\<close>)
  next
    case PC_del_thr
    then have "step_del_thr env c = Some (c', ev)" using assms(2) by (simp add: sim_step_def)
    then show ?thesis
    proof (cases rule: step_del_thr_cases)
      case (leave ctim rest)
      have d: "delay ctim = 0" using cur PC_del_thr current_head [OF _ leave(3)] by simp
      show ?thesis using due_later(2) [OF assms(5) leave(3) d d leave(5,6)] leave(6) by (intro stay) simp
    next
      case (run ctim rest e q)
      then show ?thesis using PC_del_thr cur assms(5) by (intro stay run_due [OF _ run(3) _ run(5)]) auto
    qed
  qed (use outer_due [OF assms(2), of A q] assms(3,5) in auto)
qed

section \<open>Nothing but a force can abort a run\<close>

section \<open>Which step aborts\<close>

text \<open>The event that an iteration takes off its queue.\<close>

definition next_event :: "'w config \<Rightarrow> event option" where
  "next_event c =
     (let first = (\<lambda>evs. case evs of [] \<Rightarrow> None | ev # _ \<Rightarrow> Some ev);
          of_cell = (\<lambda>f. case sched_list (sch c) of [] \<Rightarrow> None | ctim # _ \<Rightarrow> first (f ctim))
      in case pc c of
           PC_init \<Rightarrow> first (schedule_init_list (sch c))
         | PC_start \<Rightarrow> of_cell start
         | PC_queues \<Rightarrow> of_cell (active \<circ> advance_queues)
         | PC_rosync \<Rightarrow> of_cell rosync
         | PC_del_thr \<Rightarrow> of_cell del_thr
         | PC_final \<Rightarrow> if schedule_runnable (sch c) then first (schedule_final_list (sch c)) else None
         | _ \<Rightarrow> None)"

text \<open>It aborts as a force that does not fit, or as a generic event without an object that is to be
  displayed by a single step.\<close>

definition event_aborts :: "'w environment \<Rightarrow> 'w config \<Rightarrow> event \<Rightarrow> bool" where
  "event_aborts env c ev \<longleftrightarrow> force_fails env ev (sch c) \<or>
     pc c = PC_queues \<and> schedule_single_step_flag (sch c) \<and> (\<exists>del. ev = Generic_event None del)"

lemma force_fails_cong: "world t = world s \<Longrightarrow> force_fails env ev t = force_fails env ev s"
  by (simp add: force_fails_def)

lemma run_run_None_iff: "run_run env ev s = None \<longleftrightarrow> force_fails env ev s"
proof
  assume "force_fails env ev s"
  then show "run_run env ev s = None" by (auto simp: force_fails_def bind_eq_None_conv split: option.splits)
qed (rule run_run_None)

lemma run_run_world: "world t = world s \<Longrightarrow> run_run env ev t = None \<longleftrightarrow> force_fails env ev s"
  by (simp add: run_run_None_iff force_fails_cong [of t s])

lemma single_step_run:
  "single_step ev s = None \<or> (\<exists>s1. single_step ev s = Some s1 \<and> run_run env ev s1 = None) \<longleftrightarrow>
   force_fails env ev s \<or> schedule_single_step_flag s \<and> (\<exists>del. ev = Generic_event None del)"
proof (cases "single_step ev s")
  case None
  then show ?thesis using single_step_None [of ev s] by auto
next
  case (Some s1)
  then show ?thesis using single_step_None [of ev s] run_run_world [of s1 s env ev] single_step_Some [OF Some] by auto
qed

lemma step_abort:
  assumes "sim_inv c"
  shows "sim_step env c = None \<longleftrightarrow> (\<exists>ev. next_event c = Some ev \<and> event_aborts env c ev)"
proof -
  note cur = sim_inv_current [OF assms]
  have w: "world (set_ctim x s) = world s" "schedule_single_step_flag (set_ctim x s) = schedule_single_step_flag s"
    for x and s :: "'a sched" by (simp_all add: set_ctim_def)
  have f: "force_fails env ev (set_ctim x s) = force_fails env ev s"
      "force_fails env ev (s\<lparr>schedule_init_list := evs\<rparr>) = force_fails env ev s"
      "force_fails env ev (s\<lparr>schedule_final_list := evs\<rparr>) = force_fails env ev s" for ev evs x and s :: "'a sched"
    by (rule force_fails_cong, simp add: w)+
  note defs = sim_step_def goto_def bind_eq_None_conv run_action_not_None Let_def next_event_def event_aborts_def
    run_run_None_iff f
  show ?thesis
  proof (cases "pc c")
    case PC_queues
    then obtain ctim rest where s: "sched_list (sch c) = ctim # rest"
      using cur by (cases "sched_list (sch c)") (auto simp: current_def)
    show ?thesis
    proof (cases "active (advance_queues ctim)")
      case (Cons ev q)
      have "sim_step env c = None \<longleftrightarrow>
          single_step ev (set_ctim ((advance_queues ctim)\<lparr>active := q\<rparr>) (sch c)) = None \<or>
          (\<exists>s1. single_step ev (set_ctim ((advance_queues ctim)\<lparr>active := q\<rparr>) (sch c)) = Some s1 \<and> run_run env ev s1 = None)"
        using PC_queues s Cons
        by (cases "single_step ev (set_ctim ((advance_queues ctim)\<lparr>active := q\<rparr>) (sch c))")
          (simp_all add: sim_step_def step_queues_def bind_eq_None_conv)
      then show ?thesis using PC_queues s Cons by (simp add: single_step_run w f next_event_def event_aborts_def)
    qed (use PC_queues s in \<open>simp add: defs step_queues_def\<close>)
  qed (use cur in \<open>auto simp: defs step_entry_def step_init_def step_main_def step_start_def step_rosync_def
      step_del_thr_def step_final_def current_def simp del: not_None_eq split: list.splits if_splits\<close>)
qed

end
