(* ===== verification/Schedule_Drain.thy ===== *)
theory Schedule_Drain
  imports Schedule_Run "HOL-Library.Multiset"
begin

text \<open>
  A simulation whose events schedule nothing new: the loop ends, and the events run in exactly
  the order the stratified queue prescribes, each at its own simulation time.
\<close>

section \<open>Composing runs\<close>

lemma sim_run_trans:
  assumes "sim_run env c1 tr1 c2" "sim_run env c2 tr2 c3"
  shows "sim_run env c1 (tr1 @ tr2) c3"
  using assms(2,1)
proof (induction rule: sim_run.induct)
  case (sim_event c tr c2 c3 ev)
  then show ?case using sim_run.sim_event [of env c1 "tr1 @ tr" c2 c3 ev] by simp
qed (auto intro: sim_run.intros)

lemma sim_run_quiet: "sim_step env c1 = Some (c2, None) \<Longrightarrow> sim_run env c1 [] c2"
  by (rule sim_quiet [OF sim_refl])

lemma sim_run_event:
  "sim_step env c1 = Some (c2, Some ev) \<Longrightarrow> sim_run env c1 [(schedule_time (sch c1), ev)] c2"
  using sim_event [OF sim_refl, of env c1 c2 ev] by simp

section \<open>A quiet environment\<close>

definition quiet :: "'w environment \<Rightarrow> bool" where
  "quiet env \<longleftrightarrow> (\<forall>a s. snd (perform env a s) = [])"

text \<open>An event whose execution does not abort (every event but an ill-sized force).\<close>

definition harmless :: "'w environment \<Rightarrow> event \<Rightarrow> bool" where
  "harmless env ev \<longleftrightarrow> (\<forall>s. \<not> force_fails env ev s)"

text \<open>What the loop looks at.\<close>

definition same_control :: "'w sched \<Rightarrow> 'w sched \<Rightarrow> bool" where
  "same_control s s' \<longleftrightarrow> sched_list s' = sched_list s \<and> schedule_time s' = schedule_time s \<and>
     schedule_runnable s' = schedule_runnable s \<and> schedule_stopped_flag s' = schedule_stopped_flag s \<and>
     schedule_single_step_flag s' = schedule_single_step_flag s \<and>
     schedule_init_list s' = schedule_init_list s \<and> schedule_final_list s' = schedule_final_list s"

lemma same_control_signals [simp]:
  "same_control s (signals_revert s)" "same_control s (signals_capture s)" "same_control s s"
  by (simp_all add: same_control_def signals_revert_def signals_capture_def)

lemma quiet_action:
  assumes "quiet env" "same_control s t"
  shows "\<exists>s'. run_action env a t = Some s' \<and> same_control s s'"
proof -
  obtain w cs where p: "perform env a t = (w, cs)" by (cases "perform env a t")
  then have "cs = []" using assms(1) unfolding quiet_def by (metis snd_conv)
  then show ?thesis using p assms(2) by (auto simp: run_action_def same_control_def)
qed

lemma quiet_event:
  assumes "quiet env" "harmless env ev"
  shows "\<exists>s'. run_run env ev s = Some s' \<and> same_control s s'"
proof -
  have c: "same_control s (count_assign s)" "same_control s s"
    "same_control s (s\<lparr>count_thread_events := m\<rparr>)" "same_control s (s\<lparr>count_gen_events := m\<rparr>)" for m
    by (simp_all add: same_control_def count_assign_def)
  note q = quiet_action [OF assms(1)]
  show ?thesis
  proof (cases ev)
    case (Force_vector4_event net val base vwid)
    have "\<not> force_fails env ev s" using assms by (simp add: harmless_def)
    then show ?thesis using q [OF c(1)] Force_vector4_event
      by (auto simp: force_fails_def split: option.splits)
  next
    case (Generic_event obj del)
    have "\<exists>s'. run_run env (Generic_event (Some g) del) s = Some s' \<and> same_control s s'" for g
    proof -
      obtain s2 where "run_action env (Gen_run_run g) (s\<lparr>count_gen_events := count_gen_events s + 1\<rparr>) = Some s2"
          "same_control s s2" using q [OF c(4)] by blast
      then show ?thesis using q [of s s2] by (cases del) (auto simp: Let_def)
    qed
    then show ?thesis using Generic_event c(4) by (cases obj) auto
  qed (use q [OF c(1)] q [OF c(2)] q [OF c(3)] in auto)
qed

section \<open>Draining a time step\<close>

text \<open>A configuration at a place of the loop, free to run.\<close>

definition at :: "event list \<Rightarrow> pc \<Rightarrow> event_time list \<Rightarrow> vvp_time64 \<Rightarrow> 'w config \<Rightarrow> bool" where
  "at fin p cells t c \<longleftrightarrow> schedule_final_list (sch c) = fin \<and> run_finals c \<and> pc c = p \<and> sched_list (sch c) = cells \<and> schedule_time (sch c) = t \<and>
     schedule_runnable (sch c) \<and> \<not> schedule_stopped_flag (sch c) \<and> \<not> schedule_single_step_flag (sch c)"

definition rw_events :: "event_time \<Rightarrow> event list" where
  "rw_events c = active c @ inactive c @ nbassign c @ rwsync c"

definition rw_done :: "event_time \<Rightarrow> event_time" where
  "rw_done c = c\<lparr>active := [], inactive := [], nbassign := [], rwsync := []\<rparr>"

lemma advance_pop:
  assumes "active (advance_queues c) = cur # q"
  defines "c' \<equiv> (advance_queues c)\<lparr>active := q\<rparr>"
  shows "rw_events c = cur # rw_events c'" "rw_done c' = rw_done c" "delay c' = delay c"
  using assms by (auto simp: advance_queues_def rw_events_def rw_done_def split: if_splits)

lemma advance_empty: "active (advance_queues c) = [] \<Longrightarrow> rw_events c = [] \<and> advance_queues c = rw_done c"
  by (auto simp: advance_queues_def rw_events_def rw_done_def split: if_splits)

lemma main_now:
  "at fin PC_main (c # cs) t cf \<Longrightarrow> delay c = 0 \<Longrightarrow> \<exists>cf'. sim_run env cf [] cf' \<and> at fin PC_queues (c # cs) t cf'"
  by (rule exI [of _ "cf\<lparr>pc := PC_queues\<rparr>"])
    (auto simp: at_def sim_step_def step_main_def goto_def intro!: sim_run_quiet)

lemma pop_step:
  assumes "quiet env" "at fin p (c # cs) t cf" "harmless env cur"
    and step: "sim_step env cf = do { s' \<leftarrow> run_run env cur (set_ctim c' (sch cf)); Some (goto cf p' s' (Some cur)) }"
  shows "\<exists>cf'. sim_run env cf [(t, cur)] cf' \<and> at fin p' (c' # cs) t cf'"
proof -
  obtain s' where s': "run_run env cur (set_ctim c' (sch cf)) = Some s'" "same_control (set_ctim c' (sch cf)) s'"
    using quiet_event [OF assms(1,3)] by blast
  then have "sim_step env cf = Some (cf\<lparr>pc := p', sch := s'\<rparr>, Some cur)" using step by (simp add: goto_def)
  moreover have "at fin p' (c' # cs) t (cf\<lparr>pc := p', sch := s'\<rparr>)"
    using s'(2) assms(2) by (simp add: at_def same_control_def set_ctim_def)
  moreover have "schedule_time (sch cf) = t" using assms(2) by (simp add: at_def)
  ultimately show ?thesis using sim_run_event [of env cf] by blast
qed

lemma drain_rw:
  "quiet env \<Longrightarrow> at fin PC_queues (c # cs) t cf \<Longrightarrow> delay c = 0 \<Longrightarrow> list_all (harmless env) (rw_events c) \<Longrightarrow>
   \<exists>cf'. sim_run env cf (map (Pair t) (rw_events c)) cf' \<and> at fin PC_rosync (rw_done c # cs) t cf'"
proof (induction "length (rw_events c)" arbitrary: c cf rule: less_induct)
  case less
  show ?case
  proof (cases "active (advance_queues c)")
    case Nil
    let ?cf = "cf\<lparr>pc := PC_rosync, sch := (set_ctim (rw_done c) (sch cf))\<lparr>sim_at_rosync := True\<rparr>\<rparr>"
    have "sim_step env cf = Some (?cf, None)"
      using less.prems(2) Nil advance_empty [OF Nil] by (simp add: at_def sim_step_def step_queues_def goto_def)
    moreover have "at fin PC_rosync (rw_done c # cs) t ?cf" using less.prems(2) by (simp add: at_def set_ctim_def)
    ultimately show ?thesis using sim_run_quiet advance_empty [OF Nil] by (intro exI [of _ ?cf]) auto
  next
    case (Cons cur q)
    let ?c = "(advance_queues c)\<lparr>active := q\<rparr>"
    note pop = advance_pop [OF Cons]
    have hc: "harmless env cur" using pop less.prems(4) by simp
    have "sim_step env cf = do { s' \<leftarrow> run_run env cur (set_ctim ?c (sch cf)); Some (goto cf PC_main s' (Some cur)) }"
      using less.prems(2) Cons by (simp add: at_def sim_step_def step_queues_def single_step_def set_ctim_def)
    then obtain cf1 where cf1: "sim_run env cf [(t, cur)] cf1" "at fin PC_main (?c # cs) t cf1"
      using pop_step [OF less.prems(1,2) hc] by blast
    obtain cf2 where cf2: "sim_run env cf1 [] cf2" "at fin PC_queues (?c # cs) t cf2"
      using main_now [OF cf1(2)] less.prems(3) by auto
    have "length (rw_events ?c) < length (rw_events c)" "delay ?c = 0" using pop less.prems(3) by simp_all
    then obtain cf3 where "sim_run env cf2 (map (Pair t) (rw_events ?c)) cf3" "at fin PC_rosync (rw_done ?c # cs) t cf3"
      using less.hyps [OF _ less.prems(1) cf2(2)] less.prems(4) pop by auto
    then show ?thesis using sim_run_trans [OF cf1(1) sim_run_trans [OF cf2(1)]] pop by (intro exI [of _ cf3]) auto
  qed
qed

lemma drain_start:
  "quiet env \<Longrightarrow> at fin PC_start (c # cs) t cf \<Longrightarrow> list_all (harmless env) (start c) \<Longrightarrow>
   \<exists>cf'. sim_run env cf (map (Pair t) (start c)) cf' \<and> at fin PC_queues (c\<lparr>start := []\<rparr> # cs) t cf'"
proof (induction "start c" arbitrary: c cf)
  case Nil
  let ?cf = "cf\<lparr>pc := PC_queues\<rparr>"
  have "sim_step env cf = Some (?cf, None)"
    using Nil by (simp add: at_def sim_step_def step_start_def goto_def)
  moreover have "at fin PC_queues (c\<lparr>start := []\<rparr> # cs) t ?cf" using Nil by (simp add: at_def)
  ultimately show ?case using sim_run_quiet Nil(1) by (intro exI [of _ ?cf]) auto
next
  case (Cons cur q)
  let ?c = "c\<lparr>start := q\<rparr>"
  have hc: "harmless env cur" using Cons.prems(3) Cons.hyps(2) [symmetric] by simp
  have "sim_step env cf = do { s' \<leftarrow> run_run env cur (set_ctim ?c (sch cf)); Some (goto cf PC_start s' (Some cur)) }"
    using Cons.prems Cons.hyps(2) [symmetric] by (simp add: at_def sim_step_def step_start_def)
  then obtain cf1 where cf1: "sim_run env cf [(t, cur)] cf1" "at fin PC_start (?c # cs) t cf1"
    using pop_step [OF Cons.prems(1,2) hc] by blast
  obtain cf2 where "sim_run env cf1 (map (Pair t) q) cf2" "at fin PC_queues (?c\<lparr>start := []\<rparr> # cs) t cf2"
    using Cons.hyps(1) [OF _ Cons.prems(1) cf1(2)] Cons.prems(3) Cons.hyps(2) [symmetric] by auto
  then show ?case using sim_run_trans [OF cf1(1)] Cons.hyps(2) [symmetric] by (intro exI [of _ cf2]) auto
qed

lemma drain_rosync:
  "quiet env \<Longrightarrow> at fin PC_rosync (c # cs) t cf \<Longrightarrow> list_all (harmless env) (rosync c) \<Longrightarrow>
   \<exists>cf'. sim_run env cf (map (Pair t) (rosync c)) cf' \<and> at fin PC_del_thr (c\<lparr>rosync := []\<rparr> # cs) t cf'"
proof (induction "rosync c" arbitrary: c cf)
  case Nil
  let ?cf = "cf\<lparr>pc := PC_del_thr, sch := (sch cf)\<lparr>sim_at_rosync := False\<rparr>\<rparr>"
  have "sim_step env cf = Some (?cf, None)"
    using Nil by (simp add: at_def sim_step_def step_rosync_def goto_def)
  moreover have "at fin PC_del_thr (c\<lparr>rosync := []\<rparr> # cs) t ?cf" using Nil by (simp add: at_def)
  ultimately show ?case using sim_run_quiet Nil(1) by (intro exI [of _ ?cf]) auto
next
  case (Cons cur q)
  let ?c = "c\<lparr>rosync := q\<rparr>"
  have hc: "harmless env cur" using Cons.prems(3) Cons.hyps(2) [symmetric] by simp
  have "sim_step env cf = do { s' \<leftarrow> run_run env cur (set_ctim ?c (sch cf)); Some (goto cf PC_rosync s' (Some cur)) }"
    using Cons.prems Cons.hyps(2) [symmetric] by (simp add: at_def sim_step_def step_rosync_def)
  then obtain cf1 where cf1: "sim_run env cf [(t, cur)] cf1" "at fin PC_rosync (?c # cs) t cf1"
    using pop_step [OF Cons.prems(1,2) hc] by blast
  obtain cf2 where "sim_run env cf1 (map (Pair t) q) cf2" "at fin PC_del_thr (?c\<lparr>rosync := []\<rparr> # cs) t cf2"
    using Cons.hyps(1) [OF _ Cons.prems(1) cf1(2)] Cons.prems(3) Cons.hyps(2) [symmetric] by auto
  then show ?case using sim_run_trans [OF cf1(1)] Cons.hyps(2) [symmetric] by (intro exI [of _ cf2]) auto
qed

lemma drain_del_thr:
  "quiet env \<Longrightarrow> at fin PC_del_thr (c # cs) t cf \<Longrightarrow> list_all (harmless env) (del_thr c) \<Longrightarrow>
   \<exists>cf'. sim_run env cf (map (Pair t) (del_thr c)) cf' \<and> at fin PC_main cs t cf'"
proof (induction "del_thr c" arbitrary: c cf)
  case Nil
  define err where "err = (active c \<noteq> [] \<or> inactive c \<noteq> [] \<or> nbassign c \<noteq> [] \<or> rwsync c \<noteq> [])"
  let ?cf = "cf\<lparr>pc := PC_main, sch := (sch cf)\<lparr>sched_list := cs,
    stderr_log := stderr_log (sch cf) @ (if err then [Rosync_error] else [])\<rparr>\<rparr>"
  have "sim_step env cf = Some (?cf, None)"
    using Nil(1) [symmetric] Nil.prems by (simp only: at_def sim_step_def step_del_thr_def goto_def err_def
      list.case Let_def pc.case)
  moreover have "at fin PC_main cs t ?cf" using Nil by (simp add: at_def)
  ultimately show ?case using sim_run_quiet Nil(1) [symmetric] by (intro exI [of _ ?cf]) auto
next
  case (Cons cur q)
  let ?c = "c\<lparr>del_thr := q\<rparr>"
  have hc: "harmless env cur" using Cons.prems(3) Cons.hyps(2) [symmetric] by simp
  have "sim_step env cf = do { s' \<leftarrow> run_run env cur (set_ctim ?c (sch cf)); Some (goto cf PC_del_thr s' (Some cur)) }"
    using Cons.prems Cons.hyps(2) [symmetric] by (simp add: at_def sim_step_def step_del_thr_def)
  then obtain cf1 where cf1: "sim_run env cf [(t, cur)] cf1" "at fin PC_del_thr (?c # cs) t cf1"
    using pop_step [OF Cons.prems(1,2) hc] by blast
  obtain cf2 where "sim_run env cf1 (map (Pair t) q) cf2" "at fin PC_main cs t cf2"
    using Cons.hyps(1) [OF _ Cons.prems(1) cf1(2)] Cons.prems(3) Cons.hyps(2) [symmetric] by auto
  then show ?case using sim_run_trans [OF cf1(1)] Cons.hyps(2) [symmetric] by (intro exI [of _ cf2]) auto
qed

section \<open>Draining the event list\<close>

text \<open>The order the stratified queue prescribes.\<close>

fun step_events :: "event_time \<Rightarrow> event list" where
  "step_events c = (if delay c = 0 then [] else start c) @ rw_events c @ rosync c @ del_thr c"

text \<open>All that a time cell holds; the start events of a cell at the current time are not run.\<close>

definition cell_events :: "event_time \<Rightarrow> event list" where
  "cell_events c = start c @ active c @ inactive c @ nbassign c @ rwsync c @ rosync c @ del_thr c"

definition dropped_starts :: "event_time list \<Rightarrow> event list" where
  "dropped_starts cells = concat (map start (filter (\<lambda>c. delay c = 0) cells))"

fun drain_trace :: "vvp_time64 \<Rightarrow> event_time list \<Rightarrow> (vvp_time64 \<times> event) list" where
  "drain_trace t [] = []"
| "drain_trace t (c # cs) = map (Pair (t + delay c)) (step_events c) @ drain_trace (t + delay c) cs"

lemma drain_trace_once:
  "mset (map snd (drain_trace t cells)) + mset (dropped_starts cells) = mset (concat (map cell_events cells))"
proof (induction cells arbitrary: t)
  case (Cons c cs)
  have "mset (cell_events c) = mset (step_events c) + mset (if delay c = 0 then start c else [])"
    by (simp add: cell_events_def rw_events_def)
  moreover have "mset (map snd (drain_trace t (c # cs))) = mset (step_events c) +
      mset (map snd (drain_trace (t + delay c) cs))" by (simp add: comp_def)
  moreover have "mset (dropped_starts (c # cs)) = mset (if delay c = 0 then start c else []) + mset (dropped_starts cs)"
    by (simp add: dropped_starts_def)
  ultimately show ?case using Cons.IH [of "t + delay c"] by (simp del: step_events.simps add: ac_simps)
qed (simp add: dropped_starts_def)

lemma enter_step:
  assumes "quiet env" "at fin PC_main (c # cs) t cf" "list_all (harmless env) (start c)"
  shows "\<exists>cf' c'. sim_run env cf (map (Pair (t + delay c)) (if delay c = 0 then [] else start c)) cf' \<and>
    at fin PC_queues (c' # cs) (t + delay c) cf' \<and> delay c' = 0 \<and>
    rw_events c' = rw_events c \<and> rosync c' = rosync c \<and> del_thr c' = del_thr c"
proof (cases "delay c = 0")
  case True
  then show ?thesis using main_now [OF assms(2) True, of env] by auto
next
  case False
  let ?c = "c\<lparr>delay := 0\<rparr>"
  let ?s1 = "(sch cf)\<lparr>schedule_time := t + delay c, sched_list := ?c # cs,
     stderr_log := stderr_log (sch cf) @ (if show_file_line (sch cf) then [Advancing (t + delay c)] else [])\<rparr>"
  obtain s2 where s2: "run_action env VpiNextSimTime ?s1 = Some s2" "same_control ?s1 s2"
    using quiet_action [OF assms(1), of ?s1 ?s1] by auto
  have "sim_step env cf = Some (cf\<lparr>pc := PC_start, sch := s2\<rparr>, None)"
    using assms(2) False s2(1) by (simp add: at_def sim_step_def step_main_def goto_def Let_def word_gt_0)
  then have r: "sim_run env cf [] (cf\<lparr>pc := PC_start, sch := s2\<rparr>)" by (rule sim_run_quiet)
  have "at fin PC_start (?c # cs) (t + delay c) (cf\<lparr>pc := PC_start, sch := s2\<rparr>)"
    using s2(2) assms(2) by (simp add: at_def same_control_def)
  then obtain cf' where "sim_run env (cf\<lparr>pc := PC_start, sch := s2\<rparr>) (map (Pair (t + delay c)) (start c)) cf'"
      "at fin PC_queues (?c\<lparr>start := []\<rparr> # cs) (t + delay c) cf'"
    using drain_start [OF assms(1)] assms(3) by fastforce
  then show ?thesis using sim_run_trans [OF r] False
    by (intro exI [of _ cf'] exI [of _ "?c\<lparr>start := []\<rparr>"]) (auto simp: rw_events_def)
qed

definition harmless_cell :: "'w environment \<Rightarrow> event_time \<Rightarrow> bool" where
  "harmless_cell env c \<longleftrightarrow> list_all (harmless env) (start c @ rw_events c @ rosync c @ del_thr c)"

lemma drain_step:
  assumes "quiet env" "at fin PC_main (c # cs) t cf" "harmless_cell env c"
  shows "\<exists>cf'. sim_run env cf (map (Pair (t + delay c)) (step_events c)) cf' \<and> at fin PC_main cs (t + delay c) cf'"
proof -
  let ?t = "t + delay c"
  obtain c1 cf1 where 1: "sim_run env cf (map (Pair ?t) (if delay c = 0 then [] else start c)) cf1"
      "at fin PC_queues (c1 # cs) ?t cf1" "delay c1 = 0"
      "rw_events c1 = rw_events c" "rosync c1 = rosync c" "del_thr c1 = del_thr c"
    using enter_step [OF assms(1,2)] assms(3) by (auto simp: harmless_cell_def)
  obtain cf2 where 2: "sim_run env cf1 (map (Pair ?t) (rw_events c)) cf2" "at fin PC_rosync (rw_done c1 # cs) ?t cf2"
    using drain_rw [OF assms(1) 1(2,3)] 1(4) assms(3) by (auto simp: harmless_cell_def)
  obtain cf3 where 3: "sim_run env cf2 (map (Pair ?t) (rosync c)) cf3"
      "at fin PC_del_thr ((rw_done c1)\<lparr>rosync := []\<rparr> # cs) ?t cf3"
    using drain_rosync [OF assms(1) 2(2)] 1(5) assms(3) by (auto simp: rw_done_def harmless_cell_def)
  obtain cf4 where 4: "sim_run env cf3 (map (Pair ?t) (del_thr c)) cf4" "at fin PC_main cs ?t cf4"
    using drain_del_thr [OF assms(1) 3(2)] 1(6) assms(3) by (auto simp: rw_done_def harmless_cell_def)
  show ?thesis using sim_run_trans [OF 1(1) sim_run_trans [OF 2(1) sim_run_trans [OF 3(1) 4(1)]]] 4(2)
    by (intro exI [of _ cf4]) simp
qed

lemma drain_all:
  "quiet env \<Longrightarrow> at fin PC_main cells t cf \<Longrightarrow> list_all (harmless_cell env) cells \<Longrightarrow>
   \<exists>cf'. sim_run env cf (drain_trace t cells) cf' \<and> at fin PC_final [] (t + sum_list (map delay cells)) cf'"
proof (induction cells arbitrary: t cf)
  case Nil
  let ?cf = "fst (leave_main cf (sch cf))"
  have "sim_step env cf = Some (?cf, None)"
    using Nil by (simp add: at_def sim_step_def step_main_def leave_main_def goto_def)
  then show ?case using sim_run_quiet Nil by (intro exI [of _ ?cf]) (auto simp: at_def leave_main_def goto_def)
next
  case (Cons c cs)
  obtain cf1 where 1: "sim_run env cf (map (Pair (t + delay c)) (step_events c)) cf1" "at fin PC_main cs (t + delay c) cf1"
    using drain_step [OF Cons.prems(1,2)] Cons.prems(3) by auto
  then show ?case using Cons.IH [OF Cons.prems(1) 1(2)] Cons.prems(3) sim_run_trans [OF 1(1)] by (fastforce simp: add.assoc)
qed

section \<open>The whole simulation\<close>

lemma drain_final:
  "quiet env \<Longrightarrow> at fin PC_final [] t cf \<Longrightarrow> list_all (harmless env) fin \<Longrightarrow>
   \<exists>cf'. sim_run env cf (map (Pair t) fin) cf' \<and> pc cf' = PC_done \<and> sched_list (sch cf') = [] \<and>
     schedule_time (sch cf') = t"
proof (induction fin arbitrary: cf)
  case Nil
  obtain s' where s': "run_action env VpiPostsim (signals_revert (sch cf)) = Some s'" "same_control (sch cf) s'"
    using quiet_action [OF Nil(1), of "sch cf" "signals_revert (sch cf)"] by auto
  then have "sim_step env cf = Some (cf\<lparr>pc := PC_done, sch := s'\<rparr>, None)"
    using Nil(2) by (simp add: at_def sim_step_def step_final_def goto_def)
  then show ?case using sim_run_quiet s'(2) Nil(2)
    by (intro exI [of _ "cf\<lparr>pc := PC_done, sch := s'\<rparr>"]) (auto simp: at_def same_control_def)
next
  case (Cons cur fin)
  obtain s' where s': "run_run env cur ((sch cf)\<lparr>schedule_final_list := fin\<rparr>) = Some s'"
      "same_control ((sch cf)\<lparr>schedule_final_list := fin\<rparr>) s'"
    using quiet_event [OF Cons.prems(1), of cur] Cons.prems(3) by auto
  let ?cf = "cf\<lparr>pc := PC_final, sch := s'\<rparr>"
  have "sim_step env cf = Some (?cf, Some cur)"
    using Cons.prems(2) s'(1) by (simp add: at_def sim_step_def step_final_def goto_def)
  then have r: "sim_run env cf [(t, cur)] ?cf" using sim_run_event [of env cf ?cf cur] Cons.prems(2) by (simp add: at_def)
  have "at fin PC_final [] t ?cf" using Cons.prems(2) s'(2) by (simp add: at_def same_control_def)
  then show ?case using Cons.IH [OF Cons.prems(1)] Cons.prems(3) sim_run_trans [OF r] by fastforce
qed

lemma drain_init:
  "quiet env \<Longrightarrow> pc cf = PC_init \<Longrightarrow> schedule_runnable (sch cf) \<Longrightarrow> \<not> schedule_stopped_flag (sch cf) \<Longrightarrow>
   \<not> schedule_single_step_flag (sch cf) \<Longrightarrow> list_all (harmless env) (schedule_init_list (sch cf)) \<Longrightarrow>
   \<exists>cf'. sim_run env cf (map (Pair (schedule_time (sch cf))) (schedule_init_list (sch cf))) cf' \<and>
     at (schedule_final_list (sch cf)) PC_main (sched_list (sch cf)) (schedule_time (sch cf)) cf'"
proof (induction "schedule_init_list (sch cf)" arbitrary: cf)
  case Nil
  let ?s = "(sch cf)\<lparr>sim_started := True\<rparr>"
  obtain s' where s': "run_action env VpiStartOfSim ?s = Some s'" "same_control ?s s'"
    using quiet_action [OF Nil(2), of ?s ?s] by auto
  let ?cf = "cf\<lparr>pc := PC_main, run_finals := True, sch := signals_capture s'\<rparr>"
  have "schedule_runnable (signals_capture s')" using s'(2) Nil by (simp add: signals_capture_def same_control_def)
  then have "sim_step env cf = Some (?cf, None)"
    using Nil s'(1) by (simp add: sim_step_def step_init_def goto_def)
  moreover have "at (schedule_final_list (sch cf)) PC_main (sched_list (sch cf)) (schedule_time (sch cf)) ?cf"
    using Nil s'(2) by (simp add: at_def same_control_def signals_capture_def)
  ultimately show ?case using sim_run_quiet Nil(1) [symmetric] by (intro exI [of _ ?cf]) auto
next
  case (Cons cur rest)
  obtain s' where s': "run_run env cur ((sch cf)\<lparr>schedule_init_list := rest\<rparr>) = Some s'"
      "same_control ((sch cf)\<lparr>schedule_init_list := rest\<rparr>) s'"
    using quiet_event [OF Cons.prems(1), of cur] Cons.prems(6) Cons.hyps(2) [symmetric] by auto
  let ?cf = "cf\<lparr>pc := PC_init, sch := s'\<rparr>"
  have "sim_step env cf = Some (?cf, Some cur)"
    using Cons.prems Cons.hyps(2) [symmetric] s'(1) by (simp add: sim_step_def step_init_def goto_def)
  then have r: "sim_run env cf [(schedule_time (sch cf), cur)] ?cf" by (rule sim_run_event)
  have "rest = schedule_init_list (sch ?cf)" using s'(2) by (simp add: same_control_def)
  then show ?case using Cons.hyps(1) [of ?cf] Cons.prems Cons.hyps(2) [symmetric] s'(2) sim_run_trans [OF r]
    by (fastforce simp: same_control_def)
qed

lemma sim_run_simulate:
  "sim_run env c tr c' \<Longrightarrow> schedule_simulate fuel env c' = Some r \<Longrightarrow>
   \<exists>fuel'. schedule_simulate fuel' env c = Some r"
proof (induction arbitrary: fuel rule: sim_run.induct)
  case (sim_quiet c tr c1 c2)
  show ?case
  proof (cases "pc c1 = PC_done")
    case True
    then show ?thesis using sim_quiet by (auto simp: sim_step_def)
  next
    case False
    then have "schedule_simulate (Suc fuel) env c1 = Some r" using sim_quiet by simp
    then show ?thesis using sim_quiet.IH by blast
  qed
next
  case (sim_event c tr c1 c2 ev)
  then have "pc c1 \<noteq> PC_done" by (auto simp: sim_step_def)
  then have "schedule_simulate (Suc fuel) env c1 = Some r" using sim_event by simp
  then show ?case using sim_event.IH by blast
qed blast

end
