(* ===== verification/Schedule_Claims.thy ===== *)
theory Schedule_Claims
  imports Schedule_Drain
begin

text \<open>
  The properties of the scheduler: where requests land, the interface, the loop's invariant, on-time
  and stratified execution, and the complete order of a run that schedules nothing new. The concrete
  states below are inputs of the witnesses.
\<close>

definition idle_env :: "nat environment" where
  "idle_env = \<lparr>perform = (\<lambda>a s. (world s, [])), mark = (\<lambda>a w. w), vec4_value = (\<lambda>n w. Some [BIT4_0, BIT4_0])\<rparr>"

definition fresh_sched :: "event_time list \<Rightarrow> nat sched" where
  "fresh_sched cells = \<lparr>sched_list = cells, schedule_init_list = [], schedule_final_list = [],
     schedule_runnable = True, schedule_stopped_flag = False, schedule_single_step_flag = False,
     no_signals_flag = False, stop_is_finish = False, signals_captured = False, sim_started = True,
     schedule_time = 0, sim_at_rosync = False, show_file_line = False, count_assign_events = 0,
     count_gen_events = 0, count_thread_events = 0, count_time_events = 0, stderr_log = [], world = 0\<rparr>"

definition config_at :: "pc \<Rightarrow> event_time list \<Rightarrow> nat config" where
  "config_at p cells = \<lparr>pc = p, run_finals = True, sch = fresh_sched cells\<rparr>"

lemmas concrete = idle_env_def fresh_sched_def config_at_def new_event_time_def

section \<open>Requests\<close>

text \<open>C3. Refinement of the event list: putting an event into the queue never fails
  (for the inactive region, with the delay zero that its callers pass), keeps the time cells
  well formed, and changes what is pending in exactly one place, the end of the chosen region at
  exactly the requested delay from now.\<close>

theorem schedule_event_places:
  assumes "select_queue = SEQ_INACTIVE \<longrightarrow> d = 0" "wf_cells (sched_list s)"
  shows "\<exists>s'. schedule_event ev d select_queue s = Some s' \<and> wf_cells (sched_list s') \<and>
    agenda (sched_list s') = (agenda (sched_list s))(unat d := (agenda (sched_list s) (unat d))(select_queue :=
      agenda (sched_list s) (unat d) select_queue @ [ev]))"
  using schedule_event_ok [OF assms(1), of ev s] assms(2) by (auto simp: keeps_def fun_eq_iff)

theorem schedule_event_places_witness:
  "\<exists>s'. schedule_event (Vthread_event 7) 3 SEQ_ACTIVE (fresh_sched [new_event_time 2, new_event_time 4]) = Some s' \<and>
    agenda (sched_list s') 3 SEQ_ACTIVE = [Vthread_event 7]"
  using schedule_event_places [of SEQ_ACTIVE 3 "fresh_sched [new_event_time 2, new_event_time 4]" "Vthread_event 7"]
  by (force simp: concrete wf_cells_def span_def)

text \<open>The scheduling interface: every call succeeds, leaves the simulation time alone,
  keeps the cells well formed and the current time step current, and changes what is pending as
  the table \<open>placement\<close> says (a thread pushed with delay zero goes to the front of the active
  region, every other event to the end of its region).\<close>

theorem do_call_places:
  "\<exists>s'. do_call env c s = Some s' \<and> keeps s s' \<and>
    agenda (sched_list s') = pending_after (sim_started s) c (agenda (sched_list s))"
  by (rule do_call_spec)

lemma do_calls_assigns:
  "\<exists>s'. do_calls env (map (\<lambda>(p, b, w, v, d). Schedule_assign_vector p b w v d) as) s = Some s' \<and>
    agenda (sched_list s') = agenda (sched_list (s\<lparr>sched_list :=
      fold (\<lambda>(q, e, t) cells. insert_event q e cells t)
        (map (\<lambda>(p, b, w, v, d). (SEQ_NBASSIGN, Assign_vector4_event p v b w, d)) as) (sched_list s)\<rparr>))"
proof (induction as arbitrary: s)
  case (Cons a as)
  obtain p b w v d where a: "a = (p, b, w, v, d)" by (cases a)
  obtain s1 where s1: "schedule_assign_vector p b w v d s = Some s1"
      "sched_list s1 = insert_event SEQ_NBASSIGN (Assign_vector4_event p v b w) (sched_list s) d"
    by (auto simp: schedule_assign_vector_def schedule_event_insert)
  then show ?case using Cons.IH [of s1] a by auto
qed simp

text \<open>C25. Non-blocking assignments issued one after the other keep their order: all are accepted, and
  at every delay from now the events that are pending in the non-blocking region are those that
  were pending there, followed by the assignments issued with that delay in the order in which they
  were issued.\<close>

theorem nonblocking_order:
  "\<exists>s'. do_calls env (map (\<lambda>(p, b, w, v, d). Schedule_assign_vector p b w v d) as) s = Some s' \<and>
    agenda (sched_list s') T SEQ_NBASSIGN = agenda (sched_list s) T SEQ_NBASSIGN @
      map (\<lambda>(p, b, w, v, d). Assign_vector4_event p v b w) (filter (\<lambda>(p, b, w, v, d). unat d = T) as)"
proof -
  have "map (fst \<circ> snd) (filter (\<lambda>(q, e, t). unat t = T \<and> q = SEQ_NBASSIGN)
      (map (\<lambda>(p, b, w, v, d). (SEQ_NBASSIGN, Assign_vector4_event p v b w, d)) as)) =
    map (\<lambda>(p, b, w, v, d). Assign_vector4_event p v b w) (filter (\<lambda>(p, b, w, v, d). unat d = T) as)"
    by (induction as) auto
  then show ?thesis using do_calls_assigns [of env as s] by (auto simp: cells.put_all_view)
qed

section \<open>The loop\<close>

text \<open>C1. The invariant of the simulation loop: in every configuration reached from a
  well-formed one, whatever the events do, the time cells stay well formed (only the first may be
  at the current time, no sum of delays wraps) and while a time step is being worked on it is the
  first cell.\<close>

theorem sim_invariant:
  assumes "sim_run env c tr c'" "sim_inv c"
  shows "sim_inv c'"
  using sim_run_inv [OF assms] .

theorem sim_invariant_witness:
  "sim_inv (config_at PC_queues [new_event_time 0])"
  by (rule sim_invariant [of idle_env "config_at PC_main [new_event_time 0]" "[]"])
    (auto simp: concrete sim_inv_def wf_cells_def span_def sim_step_def step_main_def goto_def intro!: sim_run_quiet)

text \<open>C40. Exactly when a run aborts: in every configuration reached from a well-formed one, the
  next iteration fails if and only if the event it takes off its queue is a force whose mask, signal
  or value does not fit its net in the state it runs in, or the loop is at the active queue with the
  single-step flag set and that event is a generic event without an object, whose display
  dereferences the missing object. Nothing else of the scheduler can fail.\<close>

theorem sim_abort:
  assumes "sim_run env c tr c'" "sim_inv c"
  shows "sim_step env c' = None \<longleftrightarrow> (\<exists>ev. next_event c' = Some ev \<and>
    (force_fails env ev (sch c') \<or>
     pc c' = PC_queues \<and> schedule_single_step_flag (sch c') \<and> (\<exists>del. ev = Generic_event None del)))"
  using step_abort [OF sim_run_inv [OF assms]] unfolding event_aborts_def .

theorem sim_abort_witness:
  "sim_step idle_env (config_at PC_queues
      [(new_event_time 0)\<lparr>active := [Force_vector4_event 0 [BIT4_1, BIT4_1] 1 2]\<rparr>]) = None \<and>
   sim_step idle_env (config_at PC_queues [(new_event_time 0)\<lparr>active := [Vthread_event 1]\<rparr>]) \<noteq> None"
proof -
  have inv: "sim_inv (config_at PC_queues [(new_event_time 0)\<lparr>active := evs\<rparr>])" for evs
    by (simp add: concrete sim_inv_def wf_cells_def span_def)
  show ?thesis unfolding sim_abort [OF sim_refl inv]
    by (simp add: concrete next_event_def advance_queues_def force_fails_def force_mask_def force_value_def)
qed

text \<open>C4. The stratified order: in the current time step the loop runs the oldest event of the
  first non-empty region of active, inactive, non-blocking and read-write-sync events, and goes on
  to the read-only-sync events only when all four are empty.\<close>

theorem stratified:
  assumes "sim_inv c" "pc c = PC_queues" "sim_step env c = Some (c', ev)"
  shows "case next_region (sch c) of
    None \<Rightarrow> ev = None \<and> pc c' = PC_rosync
  | Some q \<Rightarrow> pc c' = PC_main \<and> ev = Some (hd (agenda (sched_list (sch c)) 0 q))"
  by (rule step_queues_region [of _ env]) (use assms sim_inv_current in \<open>auto simp: sim_step_def\<close>)

theorem stratified_witness:
  "\<exists>c'. sim_step idle_env (config_at PC_queues [(new_event_time 0)\<lparr>nbassign := [Vthread_event 1, Vthread_event 2],
      rwsync := [Vthread_event 3]\<rparr>]) = Some (c', Some (Vthread_event 1)) \<and> pc c' = PC_main"
proof -
  let ?c = "config_at PC_queues [(new_event_time 0)\<lparr>nbassign := [Vthread_event 1, Vthread_event 2],
      rwsync := [Vthread_event 3]\<rparr>]"
  obtain c' ev where s: "sim_step idle_env ?c = Some (c', ev)"
    by (simp add: concrete sim_step_def step_queues_def advance_queues_def run_action_def goto_def
      single_step_def set_ctim_def)
  show ?thesis using stratified [OF _ _ s] s
    by (simp add: concrete sim_inv_def wf_cells_def span_def next_region_def regions_def)
qed

text \<open>C5. No event is lost, retimed or skipped: across every step, what is pending at a later
  simulation time stays pending there in the same order, and the simulation time does not move
  past it (as long as simulation times fit in 64 bits).\<close>

theorem future_kept:
  assumes "sim_inv c" "sim_step env c = Some (c', ev)" "pc c \<noteq> PC_entry"
    "unat (schedule_time (sch c)) + span (sched_list (sch c)) < 2 ^ 64" "unat (schedule_time (sch c)) < A"
  shows "sublist (due (sch c) A q) (due (sch c') A q) \<and>
    (due (sch c) A q \<noteq> [] \<longrightarrow> unat (schedule_time (sch c')) \<le> A)"
  using future_step [OF assms] .

theorem future_kept_witness:
  "\<exists>c'. sim_step idle_env (config_at PC_main [(new_event_time 5)\<lparr>active := [Vthread_event 1]\<rparr>]) = Some (c', None) \<and>
    sublist [Vthread_event 1] (due (sch c') 5 SEQ_ACTIVE) \<and> unat (schedule_time (sch c')) \<le> 5"
proof -
  let ?c = "config_at PC_main [(new_event_time 5)\<lparr>active := [Vthread_event 1]\<rparr>]"
  obtain c' where s: "sim_step idle_env ?c = Some (c', None)"
    by (simp add: concrete sim_step_def step_main_def run_action_def goto_def)
  show ?thesis using future_kept [OF _ s, of 5 SEQ_ACTIVE] s
    by (auto simp: concrete sim_inv_def wf_cells_def span_def due_def split: if_splits)
qed

lemma time_moves_in_main:
  assumes "sim_inv c" "sim_step env c = Some (c', ev)" "pc c \<noteq> PC_entry"
  shows "pc c = PC_main \<or> schedule_time (sch c') = schedule_time (sch c)"
proof (cases "pc c")
  case PC_start
  then have "step_start env c = Some (c', ev)" using assms(2) by (simp add: sim_step_def)
  then show ?thesis by (cases rule: step_start_cases) (auto simp: set_ctim_def dest: extends_time)
next
  case PC_queues
  then have "step_queues env c = Some (c', ev)" using assms(2) by (simp add: sim_step_def)
  then show ?thesis by (cases rule: step_queues_cases) (auto simp: set_ctim_def dest: extends_time)
next
  case PC_rosync
  then have "step_rosync env c = Some (c', ev)" using assms(2) by (simp add: sim_step_def)
  then show ?thesis by (cases rule: step_rosync_cases) (auto simp: set_ctim_def dest: extends_time)
next
  case PC_del_thr
  then have "step_del_thr env c = Some (c', ev)" using assms(2) by (simp add: sim_step_def)
  then show ?thesis by (cases rule: step_del_thr_cases) (auto simp: set_ctim_def dest: extends_time)
qed (use outer_due [OF assms(2)] assms(3) in auto)

text \<open>Simulation time moves only between time steps: a step that changes it starts at the
  head of the main loop with nothing pending now in any region, and moves to the time of the first
  pending cell.\<close>

theorem time_advance:
  assumes "sim_inv c" "sim_step env c = Some (c', ev)" "pc c \<noteq> PC_entry"
    "schedule_time (sch c') \<noteq> schedule_time (sch c)"
  shows "pc c = PC_main \<and> pc c' = PC_start \<and> (\<forall>q. agenda (sched_list (sch c)) 0 q = []) \<and>
    schedule_time (sch c') = schedule_time (sch c) + delay (hd (sched_list (sch c)))"
proof -
  have "pc c = PC_main \<or> schedule_time (sch c') = schedule_time (sch c)"
    using assms(1-3) by (rule time_moves_in_main)
  then have m: "pc c = PC_main" using assms(4) by blast
  then have "step_main env c = Some (c', ev)" using assms(2) by (simp add: sim_step_def)
  then show ?thesis
  proof (cases rule: step_main_cases)
    case (advance ctim rest s1)
    then show ?thesis using m extends_time [OF advance(7)] by (simp add: unat_gt_0)
  qed (use assms(4) extends_time in auto)
qed

theorem time_advance_witness:
  "\<exists>c'. sim_step idle_env (config_at PC_main [(new_event_time 5)\<lparr>active := [Vthread_event 1]\<rparr>]) = Some (c', None) \<and>
    schedule_time (sch c') = 0 + 5 \<and> pc c' = PC_start"
proof -
  let ?c = "config_at PC_main [(new_event_time 5)\<lparr>active := [Vthread_event 1]\<rparr>]"
  obtain c' where s: "sim_step idle_env ?c = Some (c', None)" "schedule_time (sch c') = 5"
    by (simp add: concrete sim_step_def step_main_def run_action_def goto_def)
  show ?thesis using time_advance [OF _ s(1)] s
    by (simp add: concrete sim_inv_def wf_cells_def span_def)
qed

section \<open>Complete runs\<close>

lemma drain_entry:
  assumes "quiet env" "pc c = PC_entry" "schedule_runnable (sch c)" "\<not> schedule_stopped_flag (sch c)"
    "\<not> schedule_single_step_flag (sch c)" "list_all (harmless_cell env) (sched_list (sch c))"
    "list_all (harmless env) (schedule_init_list (sch c) @ schedule_final_list (sch c))"
  shows "\<exists>c' fuel. schedule_simulate fuel env c = Some c' \<and> pc c' = PC_done \<and> sched_list (sch c') = [] \<and>
    sim_run env c (map (Pair 0) (schedule_init_list (sch c)) @ drain_trace 0 (sched_list (sch c)) @
      map (Pair (sum_list (map delay (sched_list (sch c))))) (schedule_final_list (sch c))) c'"
proof -
  let ?s = "(sch c)\<lparr>sim_started := False, schedule_time := 0\<rparr>"
  obtain s1 where s1: "run_action env VpiEndOfCompile ?s = Some s1" "same_control ?s s1"
    using quiet_action [OF assms(1), of ?s ?s] by auto
  let ?c1 = "c\<lparr>pc := PC_init, sch := s1\<rparr>"
  have r1: "sim_run env c [] ?c1"
    using s1(1) assms(2) by (intro sim_run_quiet) (simp add: sim_step_def step_entry_def goto_def)
  obtain c2 where c2: "sim_run env ?c1 (map (Pair 0) (schedule_init_list (sch c))) c2"
      "at (schedule_final_list (sch c)) PC_main (sched_list (sch c)) 0 c2"
    using drain_init [OF assms(1), of ?c1] s1(2) assms by (auto simp: same_control_def)
  obtain c3 where c3: "sim_run env c2 (drain_trace 0 (sched_list (sch c))) c3"
      "at (schedule_final_list (sch c)) PC_final [] (sum_list (map delay (sched_list (sch c)))) c3"
    using drain_all [OF assms(1) c2(2) assms(6)] by auto
  obtain c4 where c4: "sim_run env c3 (map (Pair (sum_list (map delay (sched_list (sch c))))) (schedule_final_list (sch c))) c4"
      "pc c4 = PC_done" "sched_list (sch c4) = []"
    using drain_final [OF assms(1) c3(2)] assms(7) by auto
  note run = sim_run_trans [OF r1 sim_run_trans [OF c2(1) sim_run_trans [OF c3(1) c4(1)]]]
  have "schedule_simulate (Suc 0) env c4 = Some c4" using c4(2) by simp
  then obtain fuel where "schedule_simulate fuel env c = Some c4" using sim_run_simulate [OF run] by blast
  then show ?thesis using run c4 by auto
qed

text \<open>C2. A simulation that starts runnable, neither stopped nor single-stepped, and in which
  running an event changes only the world (no event issues a scheduling call and no force fails)
  ends with an empty event list, after a run whose trace is given outright: the initialization
  events, then cell by cell the start-of-time events (of a cell with a positive delay), the active,
  inactive, non-blocking, read-write-sync and read-only-sync events and the thread deletions, each
  at the sum of the delays up to its cell, and the final events last. Together with the
  start-of-time events of a cell at the current time, which are dropped unrun, the events of the
  cells are each run exactly once.\<close>

theorem simulate_drains:
  assumes "quiet env" "pc c = PC_entry" "schedule_runnable (sch c)" "\<not> schedule_stopped_flag (sch c)"
    "\<not> schedule_single_step_flag (sch c)" "list_all (harmless_cell env) (sched_list (sch c))"
    "list_all (harmless env) (schedule_init_list (sch c) @ schedule_final_list (sch c))"
  shows "\<exists>c' fuel. schedule_simulate fuel env c = Some c' \<and> pc c' = PC_done \<and> sched_list (sch c') = [] \<and>
    sim_run env c (map (Pair 0) (schedule_init_list (sch c)) @ drain_trace 0 (sched_list (sch c)) @
      map (Pair (sum_list (map delay (sched_list (sch c))))) (schedule_final_list (sch c))) c' \<and>
    mset (map snd (drain_trace 0 (sched_list (sch c)))) + mset (dropped_starts (sched_list (sch c))) =
      mset (concat (map cell_events (sched_list (sch c))))"
  using drain_entry [OF assms] drain_trace_once by blast

theorem simulate_drains_witness:
  "\<exists>c'. sim_run idle_env (config_at PC_entry [(new_event_time 2)\<lparr>nbassign := [Vthread_event 1], active := [Vthread_event 2]\<rparr>,
      (new_event_time 3)\<lparr>rosync := [Vthread_event 3]\<rparr>])
    [(2, Vthread_event 2), (2, Vthread_event 1), (5, Vthread_event 3)] c' \<and> pc c' = PC_done"
proof -
  let ?cells = "[(new_event_time 2)\<lparr>nbassign := [Vthread_event 1], active := [Vthread_event 2]\<rparr>,
      (new_event_time 3)\<lparr>rosync := [Vthread_event 3]\<rparr>]"
  have "quiet idle_env" "list_all (harmless_cell idle_env) ?cells"
    by (simp_all add: quiet_def idle_env_def harmless_cell_def harmless_def force_fails_def rw_events_def new_event_time_def)
  then show ?thesis using simulate_drains [of idle_env "config_at PC_entry ?cells"]
    by (auto simp: config_at_def fresh_sched_def new_event_time_def rw_events_def)
qed

section \<open>Two corner cases\<close>

text \<open>A start-of-time callback requested for the current time (delay zero) is accepted
  and then never run: the start queue of a time step is drained only when time advances to it, and
  the time step is dropped with the callback still in it.\<close>

theorem start_now_dropped:
  "\<exists>s c' fuel. schedule_at_start_of_simtime (Some 9) 0 (fresh_sched []) = Some s \<and>
    agenda (sched_list s) 0 SEQ_START = [Generic_event (Some 9) False] \<and>
    schedule_simulate fuel idle_env \<lparr>pc = PC_entry, run_finals = True, sch = s\<rparr> = Some c' \<and>
    sched_list (sch c') = [] \<and>
    sim_run idle_env \<lparr>pc = PC_entry, run_finals = True, sch = s\<rparr> [] c'"
proof -
  let ?s = "fresh_sched [(new_event_time 0)\<lparr>start := [Generic_event (Some 9) False]\<rparr>]\<lparr>count_time_events := 1\<rparr>"
  let ?c = "\<lparr>pc = PC_entry, run_finals = True, sch = ?s\<rparr>"
  have s: "schedule_at_start_of_simtime (Some 9) 0 (fresh_sched []) = Some ?s"
    by (simp add: schedule_at_start_of_simtime_def schedule_event_insert concrete)
  have "quiet idle_env" "harmless_cell idle_env ((new_event_time 0)\<lparr>start := [Generic_event (Some 9) False]\<rparr>)"
    by (simp_all add: quiet_def idle_env_def harmless_cell_def harmless_def force_fails_def rw_events_def new_event_time_def)
  then have "\<exists>c' fuel. schedule_simulate fuel idle_env ?c = Some c' \<and> sched_list (sch c') = [] \<and> sim_run idle_env ?c [] c'"
    using drain_entry [of idle_env ?c] by (auto simp: fresh_sched_def new_event_time_def rw_events_def)
  then show ?thesis using s by (auto simp: fresh_sched_def new_event_time_def)
qed

text \<open>A force whose value reaches beyond its net: the mask is clipped to the net as
  the code intends, but the unclipped value is then merged, so the event always aborts.\<close>

theorem force_clip_aborts:
  assumes "base < vwid" "vwid < base + length val" "base + length val < 2 ^ 32"
    "vec4_value env net (world s) = Some tmp" "length tmp = vwid"
  shows "force_mask base vwid (length val) = Some (map (\<lambda>i. base \<le> i) [0..<vwid]) \<and>
    run_run env (Force_vector4_event net val base vwid) s = None"
proof -
  have "(vwid + 2 ^ 32 - base) mod 2 ^ 32 = vwid - base"
  proof -
    have "vwid + 2 ^ 32 - base = (vwid - base) + 2 ^ 32" using assms(1) by simp
    then have "(vwid + 2 ^ 32 - base) mod 2 ^ 32 = (vwid - base) mod 2 ^ 32" by (simp only: mod_add_self2)
    then show ?thesis using assms by simp
  qed
  then have "force_mask base vwid (length val) = Some (map (\<lambda>i. base \<le> i \<and> i < vwid) [0..<vwid])"
    using assms by (simp add: force_mask_def)
  moreover have "map (\<lambda>i. base \<le> i \<and> i < vwid) [0..<vwid] = map (\<lambda>i. base \<le> i) [0..<vwid]" by simp
  moreover have "force_value tmp base val = None" using assms by (simp add: force_value_def)
  ultimately show ?thesis using assms(4) by simp
qed

theorem force_clip_aborts_witness:
  "run_run idle_env (Force_vector4_event 0 [BIT4_1, BIT4_1] 1 2) (fresh_sched []) = None"
proof -
  have "vec4_value idle_env 0 (world (fresh_sched [])) = Some [BIT4_0, BIT4_0]" by (simp add: idle_env_def)
  from force_clip_aborts [of 1 2 "[BIT4_1, BIT4_1]", OF _ _ _ this] show ?thesis
    by (simp del: run_run.simps)
qed

end
