(* ===== verification/Vvp_Vector4.thy ===== *)
theory Vvp_Vector4
  imports Vvp_Bits
begin

text \<open>
  The run time's packed four-valued vectors (\<open>vvp_vector4_t\<close> of vvp/vvp_net.h and
  vvp/vvp_net.cc): two arrays of machine words, the a-bits and the b-bits. A vector of at most
  64 bits keeps one word of each in the object itself (\<^verbatim>\<open>abits_val_\<close>, \<^verbatim>\<open>bbits_val_\<close>), a longer one
  has arrays (\<^verbatim>\<open>abits_ptr_\<close>, \<^verbatim>\<open>bbits_ptr_\<close>); both are lists of words here, of length one in the
  short case. Bits of the last word beyond the size are left over from earlier operations and
  mean nothing. The theorems say what each packed operation does to the list of bits.
\<close>

section \<open>The representation\<close>

record vvp_vector4 =
  vsize :: nat
  abits :: "64 word list"
  bbits :: "64 word list"

definition word_count :: "nat \<Rightarrow> nat" where
  "word_count n = (n + 63) div 64"

definition stored_words :: "nat \<Rightarrow> nat" where
  "stored_words n = (if n > 64 then word_count n else 1)"

definition wf_vec :: "vvp_vector4 \<Rightarrow> bool" where
  "wf_vec v \<longleftrightarrow> length (abits v) = stored_words (vsize v) \<and> length (bbits v) = stored_words (vsize v)"

text \<open>The masks \<^verbatim>\<open>(1UL << n) - 1UL\<close> and \<^verbatim>\<open>~(-1UL << n)\<close>, for \<open>n < 64\<close>.\<close>

definition low_mask :: "nat \<Rightarrow> 64 word" where
  "low_mask n = push_bit n 1 - 1"

fun init_atable :: "vvp_bit4 \<Rightarrow> 64 word" where
  "init_atable BIT4_0 = 0"
| "init_atable BIT4_1 = - 1"
| "init_atable BIT4_Z = 0"
| "init_atable BIT4_X = - 1"

fun init_btable :: "vvp_bit4 \<Rightarrow> 64 word" where
  "init_btable BIT4_0 = 0"
| "init_btable BIT4_1 = 0"
| "init_btable BIT4_Z = - 1"
| "init_btable BIT4_X = - 1"

definition allocate_words :: "nat \<Rightarrow> 64 word \<Rightarrow> 64 word \<Rightarrow> vvp_vector4" where
  "allocate_words n inita initb =
     \<lparr>vsize = n, abits = replicate (stored_words n) inita, bbits = replicate (stored_words n) initb\<rparr>"

definition vector4_fill :: "nat \<Rightarrow> vvp_bit4 \<Rightarrow> vvp_vector4" where
  "vector4_fill n val = allocate_words n (init_atable val) (init_btable val)"

definition v4_value :: "vvp_vector4 \<Rightarrow> nat \<Rightarrow> vvp_bit4" where
  "v4_value v idx =
     (if idx \<ge> vsize v then BIT4_X
      else let wdx = (if vsize v > 64 then idx div 64 else 0);
               off = (if vsize v > 64 then idx mod 64 else idx);
               a = drop_bit off (abits v ! wdx); b = drop_bit off (bbits v ! wdx)
           in bit4_cast (unat (push_bit 1 (b AND 1) + (a AND 1))))"

definition v4_set_bit :: "vvp_vector4 \<Rightarrow> nat \<Rightarrow> vvp_bit4 \<Rightarrow> vvp_vector4 option" where
  "v4_set_bit v idx val =
     (if idx \<ge> vsize v then None
      else let msk = push_bit (idx mod 64) 1;
               wdx = (if vsize v > 64 then idx div 64 else 0);
               a = abits v ! wdx; b = bbits v ! wdx
           in Some (case val of
                BIT4_0 \<Rightarrow> v\<lparr>abits := (abits v)[wdx := a AND NOT msk], bbits := (bbits v)[wdx := b AND NOT msk]\<rparr>
              | BIT4_1 \<Rightarrow> v\<lparr>abits := (abits v)[wdx := a OR msk], bbits := (bbits v)[wdx := b AND NOT msk]\<rparr>
              | BIT4_X \<Rightarrow> v\<lparr>abits := (abits v)[wdx := a OR msk], bbits := (bbits v)[wdx := b OR msk]\<rparr>
              | BIT4_Z \<Rightarrow> v\<lparr>abits := (abits v)[wdx := a AND NOT msk], bbits := (bbits v)[wdx := b OR msk]\<rparr>))"

section \<open>Copies\<close>

definition copy_from :: "vvp_vector4 \<Rightarrow> vvp_vector4" where
  "copy_from that =
     (if vsize that \<le> 64 then \<lparr>vsize = vsize that, abits = [abits that ! 0], bbits = [bbits that ! 0]\<rparr>
      else \<lparr>vsize = vsize that, abits = map ((!) (abits that)) [0..<word_count (vsize that)],
            bbits = map ((!) (bbits that)) [0..<word_count (vsize that)]\<rparr>)"

text \<open>In the inversions, word \<open>idx\<close> is a full one as long as \<open>remaining >= 64\<close>.\<close>

definition copy_inverted_from :: "vvp_vector4 \<Rightarrow> vvp_vector4" where
  "copy_inverted_from that =
     (let n = vsize that
      in if n > 64
         then \<lparr>vsize = n,
               abits = map (\<lambda>idx. if idx < n div 64 then bbits that ! idx OR NOT (abits that ! idx)
                                  else low_mask (n mod 64) AND (bbits that ! idx OR NOT (abits that ! idx)))
                         [0..<word_count n],
               bbits = map ((!) (bbits that)) [0..<word_count n]\<rparr>
         else \<lparr>vsize = n,
               abits = [(if n < 64 then low_mask n else - 1) AND (bbits that ! 0 OR NOT (abits that ! 0))],
               bbits = [bbits that ! 0]\<rparr>)"

definition invert :: "vvp_vector4 \<Rightarrow> vvp_vector4" where
  "invert v =
     (let n = vsize v
      in if n \<le> 64
         then v\<lparr>abits := [(if n < 64 then low_mask n else - 1) AND NOT (abits v ! 0) OR bbits v ! 0]\<rparr>
         else v\<lparr>abits := map (\<lambda>idx. if idx < n div 64 then NOT (abits v ! idx) OR bbits v ! idx
                                    else low_mask (n mod 64) AND NOT (abits v ! idx) OR bbits v ! idx)
                           [0..<word_count n]\<rparr>)"

definition change_z2x :: "vvp_vector4 \<Rightarrow> vvp_vector4" where
  "change_z2x v =
     (if vsize v \<le> 64 then v\<lparr>abits := [abits v ! 0 OR bbits v ! 0]\<rparr>
      else v\<lparr>abits := map (\<lambda>idx. abits v ! idx OR bbits v ! idx) [0..<word_count (vsize v)]\<rparr>)"

definition fill_bits :: "vvp_vector4 \<Rightarrow> vvp_bit4 \<Rightarrow> vvp_vector4" where
  "fill_bits v b =
     (if vsize v \<le> 64 then v\<lparr>abits := [init_atable b], bbits := [init_btable b]\<rparr>
      else v\<lparr>abits := replicate (word_count (vsize v)) (init_atable b),
             bbits := replicate (word_count (vsize v)) (init_btable b)\<rparr>)"

section \<open>Bitwise operators\<close>

text \<open>Word by word; the short case is the loop for one word.\<close>

definition v4_and :: "vvp_vector4 \<Rightarrow> vvp_vector4 \<Rightarrow> vvp_vector4" where
  "v4_and v that =
     (let ws = [0..<stored_words (vsize v)];
          tmp1 = (\<lambda>i. abits v ! i OR bbits v ! i); tmp2 = (\<lambda>i. abits that ! i OR bbits that ! i)
      in v\<lparr>abits := map (\<lambda>i. tmp1 i AND tmp2 i) ws,
           bbits := map (\<lambda>i. (tmp1 i AND bbits that ! i) OR (tmp2 i AND bbits v ! i)) ws\<rparr>)"

definition v4_or :: "vvp_vector4 \<Rightarrow> vvp_vector4 \<Rightarrow> vvp_vector4" where
  "v4_or v that =
     (let ws = [0..<stored_words (vsize v)]
      in v\<lparr>bbits := map (\<lambda>i. ((NOT (abits v ! i) OR bbits v ! i) AND bbits that ! i) OR
                             ((NOT (abits that ! i) OR bbits that ! i) AND bbits v ! i)) ws,
           abits := map (\<lambda>i. abits v ! i OR bbits v ! i OR abits that ! i OR bbits that ! i) ws\<rparr>)"

definition v4_xor :: "vvp_vector4 \<Rightarrow> vvp_vector4 \<Rightarrow> vvp_vector4" where
  "v4_xor v that =
     (let ws = [0..<stored_words (vsize v)]
      in v\<lparr>bbits := map (\<lambda>i. bbits v ! i OR bbits that ! i) ws,
           abits := map (\<lambda>i. (abits v ! i XOR abits that ! i) OR (bbits v ! i OR bbits that ! i)) ws\<rparr>)"

section \<open>Reductions\<close>

text \<open>\<^verbatim>\<open>BIT_MASK(size_ % BITS_PER_WORD)\<close>; the loops go over the words with the last one masked.\<close>

definition BIT_MASK :: "nat \<Rightarrow> 64 word" where
  "BIT_MASK n = (if n \<noteq> 0 then drop_bit (64 - n) (- 1) else - 1)"

fun reduce_or_words :: "64 word \<Rightarrow> (64 word \<times> 64 word) list \<Rightarrow> vvp_bit4 \<Rightarrow> vvp_bit4" where
  "reduce_or_words msk [] res = res"
| "reduce_or_words msk [(a, b)] res =
     (if a AND NOT b AND msk \<noteq> 0 then BIT4_1 else if b AND msk \<noteq> 0 then BIT4_X else res)"
| "reduce_or_words msk ((a, b) # w # ws) res =
     (if a AND NOT b \<noteq> 0 then BIT4_1
      else reduce_or_words msk (w # ws) (if b \<noteq> 0 then BIT4_X else res))"

definition reduce_or :: "vvp_vector4 \<Rightarrow> vvp_bit4" where
  "reduce_or v = reduce_or_words (BIT_MASK (vsize v mod 64)) (zip (abits v) (bbits v)) BIT4_0"

fun reduce_and_words :: "64 word \<Rightarrow> (64 word \<times> 64 word) list \<Rightarrow> vvp_bit4 \<Rightarrow> vvp_bit4" where
  "reduce_and_words msk [] res = res"
| "reduce_and_words msk [(a, b)] res =
     (if a OR b OR NOT msk \<noteq> - 1 then BIT4_0 else if b AND msk \<noteq> 0 then BIT4_X else res)"
| "reduce_and_words msk ((a, b) # w # ws) res =
     (if a OR b \<noteq> - 1 then BIT4_0
      else reduce_and_words msk (w # ws) (if b \<noteq> 0 then BIT4_X else res))"

definition reduce_and :: "vvp_vector4 \<Rightarrow> vvp_bit4" where
  "reduce_and v = reduce_and_words (BIT_MASK (vsize v mod 64)) (zip (abits v) (bbits v)) BIT4_1"

text \<open>The portable variant of \<open>parity\<close>.\<close>

definition parity :: "64 word \<Rightarrow> 64 word" where
  "parity val0 =
     (let val1 = val0 XOR drop_bit 32 val0; val2 = val1 XOR drop_bit 16 val1;
          val3 = val2 XOR drop_bit 8 val2; val4 = val3 XOR drop_bit 4 val3
      in drop_bit (unat (val4 AND 15)) 27030 AND 1)"

fun reduce_xor_words :: "64 word \<Rightarrow> (64 word \<times> 64 word) list \<Rightarrow> 64 word \<Rightarrow> vvp_bit4" where
  "reduce_xor_words msk [] val_a = (if parity val_a \<noteq> 0 then BIT4_1 else BIT4_0)"
| "reduce_xor_words msk [(a, b)] val_a =
     (if b AND msk \<noteq> 0 then BIT4_X else if parity (val_a XOR (a AND msk)) \<noteq> 0 then BIT4_1 else BIT4_0)"
| "reduce_xor_words msk ((a, b) # w # ws) val_a =
     (if b \<noteq> 0 then BIT4_X else reduce_xor_words msk (w # ws) (val_a XOR a))"

definition reduce_xor :: "vvp_vector4 \<Rightarrow> vvp_bit4" where
  "reduce_xor v = reduce_xor_words (BIT_MASK (vsize v mod 64)) (zip (abits v) (bbits v)) 0"

section \<open>Comparison and tests\<close>

text \<open>The comparisons and the test look at the full words first and then at the masked last one;
  \<open>None\<close> is the shift by 64 that a vector of size zero would make.\<close>

definition eeq :: "vvp_vector4 \<Rightarrow> vvp_vector4 \<Rightarrow> bool" where
  "eeq v that \<longleftrightarrow>
     (if vsize v \<noteq> vsize that then False
      else let n = vsize v; msk = low_mask (n mod 64); w = n div 64
           in list_all (\<lambda>i. abits v ! i = abits that ! i \<and> bbits v ! i = bbits that ! i) [0..<w] \<and>
              (n mod 64 > 0 \<or> n = 0 \<longrightarrow>
               abits v ! w AND msk = abits that ! w AND msk \<and> bbits v ! w AND msk = bbits that ! w AND msk))"

definition eq_xz :: "vvp_vector4 \<Rightarrow> vvp_vector4 \<Rightarrow> bool" where
  "eq_xz v that \<longleftrightarrow>
     (if vsize v \<noteq> vsize that then False
      else let n = vsize v; msk = low_mask (n mod 64); w = n div 64;
               ab = (\<lambda>x i. abits x ! i OR bbits x ! i)
           in list_all (\<lambda>i. ab v i = ab that i \<and> bbits v ! i = bbits that ! i) [0..<w] \<and>
              (n mod 64 > 0 \<or> n = 0 \<longrightarrow>
               ab v w AND msk = ab that w AND msk \<and> bbits v ! w AND msk = bbits that ! w AND msk))"

definition has_xz :: "vvp_vector4 \<Rightarrow> bool option" where
  "has_xz v =
     (let n = vsize v; w = n div 64
      in if n = 0 then None
         else Some (list_ex (\<lambda>i. bbits v ! i \<noteq> 0) [0..<w] \<or>
                    (n mod 64 > 0 \<and> bbits v ! w AND drop_bit (64 - n mod 64) (- 1) \<noteq> 0)))"

section \<open>The bits of a vector\<close>

fun decode :: "bool \<Rightarrow> bool \<Rightarrow> vvp_bit4" where
  "decode False False = BIT4_0"
| "decode True False = BIT4_1"
| "decode True True = BIT4_X"
| "decode False True = BIT4_Z"

definition vec_bits :: "vvp_vector4 \<Rightarrow> vvp_bit4 list" where
  "vec_bits v = map (v4_value v) [0..<vsize v]"

lemma vec_bits_length [simp]: "length (vec_bits v) = vsize v"
  by (simp add: vec_bits_def)

lemma vec_bits_nth: "i < vsize v \<Longrightarrow> vec_bits v ! i = v4_value v i"
  by (simp add: vec_bits_def)

lemma decode_value: "bit4_cast (unat (push_bit 1 (b AND 1) + (a AND 1) :: 64 word)) = decode (bit a 0) (bit b 0)"
  by (cases "bit a 0"; cases "bit b 0") (simp_all add: and_one_eq bit_0 mod_2_eq_odd bit4_cast_def)

lemma v4_value_bit:
  assumes "i < vsize v"
  shows "v4_value v i = decode (bit (abits v ! (i div 64)) (i mod 64)) (bit (bbits v ! (i div 64)) (i mod 64))"
proof -
  have "vsize v \<le> 64 \<Longrightarrow> i div 64 = 0 \<and> i mod 64 = i" using assms by simp
  then show ?thesis using assms unfolding v4_value_def Let_def decode_value by (auto simp: bit_drop_bit_eq)
qed

lemma stored_bound: "i < n \<Longrightarrow> i div 64 < stored_words n"
  by (auto simp: stored_words_def word_count_def)

lemma stored_long: "n > 64 \<Longrightarrow> stored_words n = word_count n"
  by (simp add: stored_words_def)

lemma stored_short: "n \<le> 64 \<Longrightarrow> stored_words n = 1"
  by (simp add: stored_words_def)

lemma last_word_bits: "i < n \<Longrightarrow> \<not> i div 64 < n div 64 \<Longrightarrow> i div 64 = n div 64 \<and> i mod 64 < n mod (64 :: nat)"
proof -
  assume a: "i < n" "\<not> i div 64 < n div 64"
  then have e: "i div 64 = n div 64" using div_le_mono [of i n 64] by simp
  have "i = 64 * (i div 64) + i mod 64" "n = 64 * (n div 64) + n mod 64" by simp_all
  then show "i div 64 = n div 64 \<and> i mod 64 < n mod 64" using a(1) e by linarith
qed

lemma low_mask_eq: "low_mask n = mask n"
  by (simp add: low_mask_def mask_eq_exp_minus_1 push_bit_eq_mult)

lemma bit_low_mask [simp]: "bit (low_mask n) i \<longleftrightarrow> i < n \<and> i < 64"
  by (auto simp: low_mask_eq bit_mask_iff)

lemma wf_allocate [simp]: "wf_vec (allocate_words n a b)" "vsize (allocate_words n a b) = n"
  by (simp_all add: allocate_words_def wf_vec_def)

text \<open>Two vectors with the same bits.\<close>

lemma vec_bits_eqI:
  assumes "vsize v = n" "length bs = n"
    "\<And>i. i < n \<Longrightarrow> decode (bit (abits v ! (i div 64)) (i mod 64)) (bit (bbits v ! (i div 64)) (i mod 64)) = bs ! i"
  shows "vec_bits v = bs"
  using assms by (intro nth_equalityI) (auto simp: vec_bits_nth v4_value_bit)

lemma vector4_fill_bits: "vec_bits (vector4_fill n b) = replicate n b"
  by (rule vec_bits_eqI) (cases b; auto simp: vector4_fill_def allocate_words_def stored_bound)+

lemma same_position: "j div 64 = i div 64 \<Longrightarrow> j mod 64 = i mod (64 :: nat) \<Longrightarrow> j = i"
  by (metis div_mult_mod_eq)

lemma bit_update_word:
  fixes xs :: "64 word list"
  assumes "i div 64 < length xs"
  shows "bit (xs[i div 64 := xs ! (i div 64) OR 2 ^ (i mod 64)] ! (j div 64)) (j mod 64) \<longleftrightarrow>
      j = i \<or> bit (xs ! (j div 64)) (j mod 64)"
    "bit (xs[i div 64 := xs ! (i div 64) AND NOT (2 ^ (i mod 64))] ! (j div 64)) (j mod 64) \<longleftrightarrow>
      j \<noteq> i \<and> bit (xs ! (j div 64)) (j mod 64)"
proof -
  have "bit (2 ^ (i mod 64) :: 64 word) (j mod 64) \<longleftrightarrow> j mod 64 = i mod 64"
    by (auto simp: bit_exp_iff)
  then show "bit (xs[i div 64 := xs ! (i div 64) OR 2 ^ (i mod 64)] ! (j div 64)) (j mod 64) \<longleftrightarrow>
      j = i \<or> bit (xs ! (j div 64)) (j mod 64)"
    "bit (xs[i div 64 := xs ! (i div 64) AND NOT (2 ^ (i mod 64))] ! (j div 64)) (j mod 64) \<longleftrightarrow>
      j \<noteq> i \<and> bit (xs ! (j div 64)) (j mod 64)"
    using assms same_position [of j i]
    by (cases "j div 64 = i div 64"; auto simp: bit_or_iff bit_and_iff bit_not_iff)+
qed

lemma v4_set_bit_bits:
  assumes "wf_vec v" "i < vsize v"
  shows "\<exists>v'. v4_set_bit v i b = Some v' \<and> wf_vec v' \<and> vec_bits v' = (vec_bits v)[i := b]"
proof -
  have w: "(if vsize v > 64 then i div 64 else 0) = i div 64" using assms(2) by auto
  obtain v' where v': "v4_set_bit v i b = Some v'" using assms(2) by (simp add: v4_set_bit_def Let_def)
  have sz: "vsize v' = vsize v" "wf_vec v'"
    using v' assms by (auto simp: v4_set_bit_def Let_def wf_vec_def split: vvp_bit4.splits)
  have l: "i div 64 < length (abits v)" "i div 64 < length (bbits v)"
    using assms stored_bound [of i "vsize v"] by (auto simp: wf_vec_def)
  have "vec_bits v' = (vec_bits v)[i := b]"
  proof (rule vec_bits_eqI)
    fix j assume j: "j < vsize v"
    show "decode (bit (abits v' ! (j div 64)) (j mod 64)) (bit (bbits v' ! (j div 64)) (j mod 64)) = (vec_bits v)[i := b] ! j"
      using v' j assms(2) unfolding v4_set_bit_def Let_def w
      by (cases "j = i"; cases b)
        (auto simp: vec_bits_nth v4_value_bit bit_update_word [OF l(1)] bit_update_word [OF l(2)])
  qed (use sz in auto)
  then show ?thesis using v' sz by blast
qed

section \<open>What the word operations do to the bits\<close>

lemma decode_tables:
  "decode ((a \<or> b) \<and> (a' \<or> b')) (((a \<or> b) \<and> b') \<or> ((a' \<or> b') \<and> b)) = bit4_and (decode a b) (decode a' b')"
  "decode (a \<or> b \<or> a' \<or> b') (((a \<longrightarrow> b) \<and> b') \<or> ((a' \<longrightarrow> b') \<and> b)) = bit4_or (decode a b) (decode a' b')"
  "decode (a = (\<not> a') \<or> (b \<or> b')) (b \<or> b') = bit4_xor (decode a b) (decode a' b')"
  "decode (b \<or> \<not> a) b = bit4_not (decode a b)"
  "decode (a \<or> b) b = vvp_bit4_z2x (decode a b)"
  by (cases a; cases b; cases a'; cases b'; simp add: bit4_logic.tables)+

text \<open>A list of words made by a function of the index, read at a bit of the vector.\<close>

lemma nth_words: "i < n \<Longrightarrow> map f [0..<stored_words n] ! (i div 64) = f (i div 64)"
  by (simp add: stored_bound)

lemma nth_words_long: "i < n \<Longrightarrow> n > 64 \<Longrightarrow> map f [0..<word_count n] ! (i div 64) = f (i div 64)"
  using nth_words [of i n f] by (simp add: stored_long)

lemma short_position: "i < n \<Longrightarrow> n \<le> 64 \<Longrightarrow> i div 64 = 0 \<and> i mod 64 = (i :: nat) \<and> i < 64"
  by simp

lemma bit_below: "i < n \<Longrightarrow> bit (if n < 64 then low_mask n else - 1) i \<longleftrightarrow> i < 64"
  by simp

lemma v4_logic_bits:
  assumes "vsize v = vsize that"
  shows "vec_bits (v4_and v that) = map2 bit4_and (vec_bits v) (vec_bits that)"
    "vec_bits (v4_or v that) = map2 bit4_or (vec_bits v) (vec_bits that)"
    "vec_bits (v4_xor v that) = map2 bit4_xor (vec_bits v) (vec_bits that)"
proof -
  note rd = nth_words bit_or_iff bit_and_iff bit_not_iff bit_xor_iff
  show "vec_bits (v4_and v that) = map2 bit4_and (vec_bits v) (vec_bits that)"
    by (rule vec_bits_eqI [of _ "vsize v"])
      (use assms in \<open>simp_all add: v4_and_def Let_def rd vec_bits_nth v4_value_bit decode_tables(1)\<close>)
  show "vec_bits (v4_or v that) = map2 bit4_or (vec_bits v) (vec_bits that)"
    by (rule vec_bits_eqI [of _ "vsize v"])
      (use assms in \<open>simp_all add: v4_or_def Let_def rd vec_bits_nth v4_value_bit decode_tables(2)\<close>)
  show "vec_bits (v4_xor v that) = map2 bit4_xor (vec_bits v) (vec_bits that)"
    by (rule vec_bits_eqI [of _ "vsize v"])
      (use assms in \<open>simp_all add: v4_xor_def Let_def rd vec_bits_nth v4_value_bit decode_tables(3)\<close>)
qed

lemma v4_logic_wf:
  "wf_vec v \<Longrightarrow> wf_vec (v4_and v that)" "wf_vec v \<Longrightarrow> wf_vec (v4_or v that)" "wf_vec v \<Longrightarrow> wf_vec (v4_xor v that)"
  by (simp_all add: wf_vec_def v4_and_def v4_or_def v4_xor_def Let_def)

lemma copy_from_bits: "vec_bits (copy_from v) = vec_bits v \<and> wf_vec (copy_from v)"
proof
  show "vec_bits (copy_from v) = vec_bits v"
    by (rule vec_bits_eqI)
      (auto simp: copy_from_def nth_words_long short_position vec_bits_nth v4_value_bit)
qed (auto simp: wf_vec_def copy_from_def stored_words_def)

lemma invert_bits:
  "vec_bits (invert v) = map bit4_not (vec_bits v)"
  "vec_bits (copy_inverted_from v) = map bit4_not (vec_bits v)"
proof -
  have nt: "bit (NOT w) (i mod 64) \<longleftrightarrow> \<not> bit w (i mod 64)" for w :: "64 word" and i :: nat
    by (simp add: bit_not_iff)
  have last: "i < vsize v \<Longrightarrow> \<not> i div 64 < vsize v div 64 \<Longrightarrow> bit (low_mask (vsize v mod 64)) (i mod 64)" for i
    using last_word_bits [of i "vsize v"] by simp
  note rd = nth_words_long bit_or_iff bit_and_iff nt vec_bits_nth v4_value_bit decode_tables(4) [symmetric]
  show "vec_bits (invert v) = map bit4_not (vec_bits v)"
  proof (rule vec_bits_eqI)
    fix i assume i: "i < vsize v"
    show "decode (bit (abits (invert v) ! (i div 64)) (i mod 64)) (bit (bbits (invert v) ! (i div 64)) (i mod 64)) =
        map bit4_not (vec_bits v) ! i"
      using i last [OF i] short_position [OF i] nt [of _ i]
      by (cases "vsize v \<le> 64"; cases "i div 64 < vsize v div 64")
        (auto simp: invert_def Let_def rd disj_commute)
  qed (auto simp: invert_def Let_def)
  show "vec_bits (copy_inverted_from v) = map bit4_not (vec_bits v)"
  proof (rule vec_bits_eqI)
    fix i assume i: "i < vsize v"
    show "decode (bit (abits (copy_inverted_from v) ! (i div 64)) (i mod 64))
        (bit (bbits (copy_inverted_from v) ! (i div 64)) (i mod 64)) = map bit4_not (vec_bits v) ! i"
      using i last [OF i] short_position [OF i] nt [of _ i]
      by (cases "vsize v \<le> 64"; cases "i div 64 < vsize v div 64")
        (auto simp: copy_inverted_from_def Let_def rd)
  qed (auto simp: copy_inverted_from_def Let_def)
qed

lemma z2x_bits: "vec_bits (change_z2x v) = map vvp_bit4_z2x (vec_bits v)"
proof (rule vec_bits_eqI)
  fix i assume i: "i < vsize v"
  have "bit (abits (change_z2x v) ! (i div 64)) (i mod 64) \<longleftrightarrow>
      bit (abits v ! (i div 64)) (i mod 64) \<or> bit (bbits v ! (i div 64)) (i mod 64)"
    using i short_position [OF i] by (cases "vsize v \<le> 64") (auto simp: change_z2x_def nth_words_long bit_or_iff)
  moreover have "bbits (change_z2x v) = bbits v" by (simp add: change_z2x_def)
  ultimately show "decode (bit (abits (change_z2x v) ! (i div 64)) (i mod 64)) (bit (bbits (change_z2x v) ! (i div 64)) (i mod 64)) =
      map vvp_bit4_z2x (vec_bits v) ! i"
    using i by (simp add: vec_bits_nth v4_value_bit decode_tables(5))
qed (simp_all add: change_z2x_def)

lemma fill_bits_fill: "fill_bits v b = vector4_fill (vsize v) b"
  by (cases v) (simp add: fill_bits_def vector4_fill_def allocate_words_def stored_words_def)

lemma fill_bits_bits: "vec_bits (fill_bits v b) = replicate (vsize v) b"
  by (simp only: fill_bits_fill vector4_fill_bits)

lemma unary_wf:
  "wf_vec v \<Longrightarrow> wf_vec (invert v)" "wf_vec (copy_inverted_from v)" "wf_vec v \<Longrightarrow> wf_vec (change_z2x v)"
  "wf_vec (fill_bits v b)"
  by (auto simp: wf_vec_def invert_def copy_inverted_from_def change_z2x_def fill_bits_def Let_def stored_words_def)

end
