(* ===== verification/Vvp_Reduce.thy ===== *)
theory Vvp_Reduce
  imports Vvp_Vector4
begin

text \<open>
  The reduction operators and the comparisons of the packed vectors: the word loops with their
  masked last word compute the fold of the four-valued operator over the bits.
\<close>

section \<open>Quantifying over the bits of a vector\<close>

text \<open>Some bit of the words satisfies \<open>P\<close>, in the last word only where the mask is set.\<close>

fun some_bit :: "(bool \<Rightarrow> bool \<Rightarrow> bool) \<Rightarrow> 64 word \<Rightarrow> (64 word \<times> 64 word) list \<Rightarrow> bool" where
  "some_bit P msk [] = False"
| "some_bit P msk [(a, b)] = (\<exists>j<64. bit msk j \<and> P (bit a j) (bit b j))"
| "some_bit P msk ((a, b) # w # ws) = ((\<exists>j<64. P (bit a j) (bit b j)) \<or> some_bit P msk (w # ws))"

lemma some_bit_nth:
  "some_bit P msk ws \<longleftrightarrow> (\<exists>k<length ws. \<exists>j<64. (Suc k = length ws \<longrightarrow> bit msk j) \<and>
     P (bit (fst (ws ! k)) j) (bit (snd (ws ! k)) j))"
proof (induction P msk ws rule: some_bit.induct)
  case (3 P msk a b w ws)
  have split: "(\<exists>k<Suc n. Q k) \<longleftrightarrow> Q 0 \<or> (\<exists>k<n. Q (Suc k))" for Q n
    by (metis Suc_less_eq2 gr0_conv_Suc less_Suc_eq_0_disj zero_less_Suc)
  show ?case unfolding some_bit.simps(3) 3 by (simp only: list.size(4) One_nat_def add_Suc_right add_0_right split) simp
qed auto

lemma word_nonzero: "(w :: 64 word) \<noteq> 0 \<longleftrightarrow> (\<exists>j<64. bit w j)"
proof
  assume "w \<noteq> 0"
  then obtain j where "bit w j" using bit_eqI [of w 0] by auto
  then show "\<exists>j<64. bit w j" using bit_imp_le_length [of w j] by auto
qed auto

lemma word_not_full: "(w :: 64 word) \<noteq> - 1 \<longleftrightarrow> (\<exists>j<64. \<not> bit w j)"
proof
  assume "w \<noteq> - 1"
  then show "\<exists>j<64. \<not> bit w j" using bit_word_eqI [of w "- 1"] by auto
qed auto

lemma bit_BIT_MASK: "n < 64 \<Longrightarrow> j < 64 \<Longrightarrow> bit (BIT_MASK n) j \<longleftrightarrow> n = 0 \<or> j < n"
  by (auto simp: BIT_MASK_def bit_drop_bit_eq bit_mask_iff)

lemma word_count_alt: "word_count n = n div 64 + (if n mod 64 = 0 then 0 else 1)"
proof -
  define q r where "q = n div 64" and "r = n mod 64"
  have n: "n = q * 64 + r" "r < 64" by (simp_all add: q_def r_def)
  have "(n + 63) div 64 = q + (r + 63) div 64" unfolding n(1) add.assoc by (rule div_mult_self3) simp
  moreover have "(r + 63) div 64 = (if r = 0 then 0 else 1)"
    using n(2) by (auto intro: div_nat_eqI)
  ultimately show ?thesis by (simp add: word_count_def q_def r_def)
qed

lemma word_position:
  assumes "k < stored_words n" "0 < n" "j < 64"
  shows "(Suc k = stored_words n \<longrightarrow> bit (BIT_MASK (n mod 64)) j) \<longleftrightarrow> 64 * k + j < n"
proof (cases "n > 64")
  case True
  have n: "n = 64 * (n div 64) + n mod 64" by simp
  show ?thesis
  proof (cases "n mod 64 = 0")
    case True
    then have "k < n div 64" using assms(1) \<open>n > 64\<close> by (simp add: stored_words_def word_count_alt)
    then have "64 * k + j < n" using assms(3) n True by linarith
    then show ?thesis using True assms(3) by (simp add: bit_BIT_MASK)
  next
    case False
    then have "stored_words n = Suc (n div 64)" using \<open>n > 64\<close> by (simp add: stored_words_def word_count_alt)
    moreover have "k < n div 64 \<Longrightarrow> 64 * k + j < n" using assms(3) n by linarith
    moreover have "64 * (n div 64) + j < n \<longleftrightarrow> j < n mod 64" using n by linarith
    ultimately show ?thesis using assms False by (cases "k = n div 64") (auto simp: bit_BIT_MASK)
  qed
next
  case False
  then show ?thesis using assms by (cases "n = 64") (auto simp: stored_words_def bit_BIT_MASK)
qed

lemma some_bit_vec:
  assumes "wf_vec v" "0 < vsize v"
  shows "some_bit P (BIT_MASK (vsize v mod 64)) (zip (abits v) (bbits v)) \<longleftrightarrow>
    (\<exists>i<vsize v. P (bit (abits v ! (i div 64)) (i mod 64)) (bit (bbits v ! (i div 64)) (i mod 64)))" (is "_ \<longleftrightarrow> ?R")
proof -
  let ?n = "vsize v"
  have len: "length (abits v) = stored_words ?n" "length (bbits v) = stored_words ?n"
    using assms(1) by (simp_all add: wf_vec_def)
  have "some_bit P (BIT_MASK (?n mod 64)) (zip (abits v) (bbits v)) \<longleftrightarrow>
      (\<exists>k < stored_words ?n. \<exists>j<64. 64 * k + j < ?n \<and> P (bit (abits v ! k) j) (bit (bbits v ! k) j))"
    unfolding some_bit_nth
  proof (intro ex_cong1 conj_cong)
    fix k j assume "k < stored_words ?n" "j < (64 :: nat)"
    then show "(Suc k = length (zip (abits v) (bbits v)) \<longrightarrow> bit (BIT_MASK (?n mod 64)) j) \<longleftrightarrow> 64 * k + j < ?n"
      "P (bit (fst (zip (abits v) (bbits v) ! k)) j) (bit (snd (zip (abits v) (bbits v) ! k)) j) \<longleftrightarrow>
        P (bit (abits v ! k) j) (bit (bbits v ! k) j)"
      using len assms(2) word_position [of k ?n j] by simp_all
  qed (use len in simp_all)
  also have "\<dots> \<longleftrightarrow> ?R"
  proof
    assume "\<exists>k < stored_words ?n. \<exists>j<64. 64 * k + j < ?n \<and> P (bit (abits v ! k) j) (bit (bbits v ! k) j)"
    then obtain k j where "j < 64" "64 * k + j < ?n" "P (bit (abits v ! k) j) (bit (bbits v ! k) j)" by blast
    then show ?R by (intro exI [of _ "64 * k + j"]) simp
  next
    assume ?R
    then obtain i where "i < ?n" "P (bit (abits v ! (i div 64)) (i mod 64)) (bit (bbits v ! (i div 64)) (i mod 64))" by blast
    then show "\<exists>k < stored_words ?n. \<exists>j<64. 64 * k + j < ?n \<and> P (bit (abits v ! k) j) (bit (bbits v ! k) j)"
      using stored_bound [of i ?n] by (intro exI [of _ "i div 64"] conjI exI [of _ "i mod 64"]) auto
  qed
  finally show ?thesis .
qed

lemma some_bit_set:
  assumes "wf_vec v" "0 < vsize v"
  shows "some_bit (\<lambda>a b. decode a b \<in> S) (BIT_MASK (vsize v mod 64)) (zip (abits v) (bbits v)) \<longleftrightarrow>
    (\<exists>b\<in>set (vec_bits v). b \<in> S)"
  unfolding some_bit_vec [OF assms] by (auto simp: vec_bits_def v4_value_bit)

section \<open>Or and and\<close>

abbreviation one_bit :: "bool \<Rightarrow> bool \<Rightarrow> bool" where
  "one_bit a b \<equiv> decode a b \<in> {BIT4_1}"

abbreviation zero_bit :: "bool \<Rightarrow> bool \<Rightarrow> bool" where
  "zero_bit a b \<equiv> decode a b \<in> {BIT4_0}"

abbreviation xz_bit :: "bool \<Rightarrow> bool \<Rightarrow> bool" where
  "xz_bit a b \<equiv> decode a b \<in> {BIT4_X, BIT4_Z}"

lemma decode_iff: "one_bit a b \<longleftrightarrow> a \<and> \<not> b" "zero_bit a b \<longleftrightarrow> \<not> a \<and> \<not> b" "xz_bit a b \<longleftrightarrow> b"
  by (cases a; cases b; simp)+

lemma word_tests:
  fixes a b msk :: "64 word"
  shows "a AND NOT b AND msk \<noteq> 0 \<longleftrightarrow> (\<exists>j<64. bit msk j \<and> one_bit (bit a j) (bit b j))"
    "a AND NOT b \<noteq> 0 \<longleftrightarrow> (\<exists>j<64. one_bit (bit a j) (bit b j))"
    "b AND msk \<noteq> 0 \<longleftrightarrow> (\<exists>j<64. bit msk j \<and> xz_bit (bit a j) (bit b j))"
    "b \<noteq> 0 \<longleftrightarrow> (\<exists>j<64. xz_bit (bit a j) (bit b j))"
    "a OR b OR NOT msk \<noteq> - 1 \<longleftrightarrow> (\<exists>j<64. bit msk j \<and> zero_bit (bit a j) (bit b j))"
    "a OR b \<noteq> - 1 \<longleftrightarrow> (\<exists>j<64. zero_bit (bit a j) (bit b j))"
  unfolding decode_iff word_nonzero word_not_full
  by (auto simp: bit_and_iff bit_or_iff bit_not_iff)

lemma reduce_or_words_eq:
  "ws \<noteq> [] \<Longrightarrow> reduce_or_words msk ws res =
   (if some_bit one_bit msk ws then BIT4_1 else if some_bit xz_bit msk ws then BIT4_X else res)"
proof (induction msk ws res rule: reduce_or_words.induct)
  case (2 msk a b res)
  show ?case unfolding reduce_or_words.simps some_bit.simps word_tests(1) word_tests(3) [of b msk a] ..
next
  case (3 msk a b w ws res)
  define A B where "A \<longleftrightarrow> (\<exists>j<64. one_bit (bit a j) (bit b j))" and "B \<longleftrightarrow> (\<exists>j<64. xz_bit (bit a j) (bit b j))"
  note tests = word_tests(2) [of a b, folded A_def] word_tests(4) [of b a, folded B_def]
  have "\<not> A \<Longrightarrow> reduce_or_words msk (w # ws) (if B then BIT4_X else res) =
      (if some_bit one_bit msk (w # ws) then BIT4_1
       else if some_bit xz_bit msk (w # ws) then BIT4_X else if B then BIT4_X else res)"
    using 3 unfolding tests by blast
  then show ?case unfolding reduce_or_words.simps some_bit.simps tests A_def [symmetric] B_def [symmetric]
    by (cases A; cases B; simp only: if_True if_False simp_thms split: if_split; blast)
qed simp

lemma reduce_and_words_eq:
  "ws \<noteq> [] \<Longrightarrow> reduce_and_words msk ws res =
   (if some_bit zero_bit msk ws then BIT4_0 else if some_bit xz_bit msk ws then BIT4_X else res)"
proof (induction msk ws res rule: reduce_and_words.induct)
  case (2 msk a b res)
  show ?case unfolding reduce_and_words.simps some_bit.simps word_tests(5) word_tests(3) [of b msk a] ..
next
  case (3 msk a b w ws res)
  define A B where "A \<longleftrightarrow> (\<exists>j<64. zero_bit (bit a j) (bit b j))" and "B \<longleftrightarrow> (\<exists>j<64. xz_bit (bit a j) (bit b j))"
  note tests = word_tests(6) [of a b, folded A_def] word_tests(4) [of b a, folded B_def]
  have "\<not> A \<Longrightarrow> reduce_and_words msk (w # ws) (if B then BIT4_X else res) =
      (if some_bit zero_bit msk (w # ws) then BIT4_0
       else if some_bit xz_bit msk (w # ws) then BIT4_X else if B then BIT4_X else res)"
    using 3 unfolding tests by blast
  then show ?case unfolding reduce_and_words.simps some_bit.simps tests A_def [symmetric] B_def [symmetric]
    by (cases A; cases B; simp only: if_True if_False simp_thms split: if_split; blast)
qed simp

lemma fold_or: "foldr bit4_or bs BIT4_0 =
  (if BIT4_1 \<in> set bs then BIT4_1 else if BIT4_X \<in> set bs \<or> BIT4_Z \<in> set bs then BIT4_X else BIT4_0)"
proof (induction bs)
  case (Cons b bs)
  then show ?case by (cases b) (auto simp: bit4_logic.tables)
qed simp

lemma fold_and: "foldr bit4_and bs BIT4_1 =
  (if BIT4_0 \<in> set bs then BIT4_0 else if BIT4_X \<in> set bs \<or> BIT4_Z \<in> set bs then BIT4_X else BIT4_1)"
proof (induction bs)
  case (Cons b bs)
  then show ?case by (cases b) (auto simp: bit4_logic.tables)
qed simp

lemma words_nonempty: "wf_vec v \<Longrightarrow> 0 < vsize v \<Longrightarrow> zip (abits v) (bbits v) \<noteq> []"
  using stored_bound [of 0 "vsize v"] by (cases "abits v"; cases "bbits v") (auto simp: wf_vec_def)

lemma reduce_or_bits:
  assumes "wf_vec v" "0 < vsize v"
  shows "reduce_or v = foldr bit4_or (vec_bits v) BIT4_0"
  unfolding reduce_or_def fold_or reduce_or_words_eq [OF words_nonempty [OF assms]] some_bit_set [OF assms]
  by auto

lemma reduce_and_bits:
  assumes "wf_vec v" "0 < vsize v"
  shows "reduce_and v = foldr bit4_and (vec_bits v) BIT4_1"
  unfolding reduce_and_def fold_and reduce_and_words_eq [OF words_nonempty [OF assms]] some_bit_set [OF assms]
  by auto

section \<open>Parity\<close>

definition odd_ones :: "(nat \<Rightarrow> bool) \<Rightarrow> nat \<Rightarrow> bool" where
  "odd_ones f n \<longleftrightarrow> odd (\<Sum>i<n. of_bool (f i) :: nat)"

lemma odd_ones_Suc: "odd_ones f (Suc n) \<longleftrightarrow> odd_ones f n \<noteq> f n"
  by (auto simp: odd_ones_def)

lemma odd_ones_0 [simp]: "\<not> odd_ones f 0"
  by (simp add: odd_ones_def)

lemma odd_ones_xor: "odd_ones (\<lambda>i. f i \<noteq> g i) n \<longleftrightarrow> odd_ones f n \<noteq> odd_ones g n"
  by (induction n) (auto simp: odd_ones_Suc)

lemma odd_ones_add: "odd_ones f (m + n) \<longleftrightarrow> odd_ones f m \<noteq> odd_ones (\<lambda>i. f (m + i)) n"
  by (induction n) (auto simp: odd_ones_Suc)

lemma odd_ones_half: "odd_ones f (n + n) \<longleftrightarrow> odd_ones (\<lambda>i. f i \<noteq> f (n + i)) n"
  unfolding odd_ones_add odd_ones_xor ..

lemma odd_ones_cong: "(\<And>i. i < n \<Longrightarrow> f i \<longleftrightarrow> g i) \<Longrightarrow> odd_ones f n \<longleftrightarrow> odd_ones g n"
  by (simp add: odd_ones_def)

lemma fold_word:
  "n + n \<le> 64 \<Longrightarrow> odd_ones (bit (w XOR drop_bit n w :: 64 word)) n \<longleftrightarrow> odd_ones (bit w) (n + n)"
  unfolding odd_ones_half by (rule odd_ones_cong) (simp add: bit_xor_iff bit_drop_bit_eq)

lemma nibble_table: "list_all (\<lambda>k. (drop_bit k (27030 :: 64 word) AND 1 \<noteq> 0) = odd_ones (bit k) 4) [0..<16]"
  by code_simp

lemma parity_nibble: "drop_bit (unat (w AND 15)) (27030 :: 64 word) AND 1 \<noteq> 0 \<longleftrightarrow> odd_ones (bit (w :: 64 word)) 4"
proof -
  have m: "(15 :: 64 word) = mask 4" by (simp add: mask_eq_exp_minus_1)
  have e: "unat (w AND 15) = take_bit 4 (unat w)" unfolding m by (simp add: unsigned_take_bit_eq flip: take_bit_eq_mask)
  then have "unat (w AND 15) < 16" using take_bit_nat_less_exp [of 4 "unat w"] by simp
  then have "drop_bit (unat (w AND 15)) (27030 :: 64 word) AND 1 \<noteq> 0 \<longleftrightarrow> odd_ones (bit (unat (w AND 15))) 4"
    using nibble_table by (simp only: list_all_iff) simp
  also have "\<dots> \<longleftrightarrow> odd_ones (bit w) 4" unfolding e
    by (rule odd_ones_cong) (simp add: bit_take_bit_iff bit_unsigned_iff)
  finally show ?thesis .
qed

lemma parity_odd: "parity w \<noteq> 0 \<longleftrightarrow> odd_ones (bit w) 64"
proof -
  define w1 where "w1 = w XOR drop_bit 32 w"
  define w2 where "w2 = w1 XOR drop_bit 16 w1"
  define w3 where "w3 = w2 XOR drop_bit 8 w2"
  define w4 where "w4 = w3 XOR drop_bit 4 w3"
  have "parity w \<noteq> 0 \<longleftrightarrow> odd_ones (bit w4) 4"
    unfolding parity_def Let_def w1_def [symmetric] w2_def [symmetric] w3_def [symmetric] w4_def [symmetric]
    by (rule parity_nibble)
  moreover have "odd_ones (bit w4) 4 \<longleftrightarrow> odd_ones (bit w3) (4 + 4)" unfolding w4_def by (rule fold_word) simp
  moreover have "odd_ones (bit w3) 8 \<longleftrightarrow> odd_ones (bit w2) (8 + 8)" unfolding w3_def by (rule fold_word) simp
  moreover have "odd_ones (bit w2) 16 \<longleftrightarrow> odd_ones (bit w1) (16 + 16)" unfolding w2_def by (rule fold_word) simp
  moreover have "odd_ones (bit w1) 32 \<longleftrightarrow> odd_ones (bit w) (32 + 32)" unfolding w1_def by (rule fold_word) simp
  ultimately show ?thesis by simp
qed

lemma parity_xor: "parity (v XOR w) \<noteq> 0 \<longleftrightarrow> (parity v \<noteq> 0) \<noteq> (parity w \<noteq> 0)"
  unfolding parity_odd odd_ones_xor [symmetric] by (rule odd_ones_cong) (simp add: bit_xor_iff)

fun word_parity :: "64 word \<Rightarrow> (64 word \<times> 64 word) list \<Rightarrow> bool" where
  "word_parity msk [] = False"
| "word_parity msk [(a, b)] = (parity (a AND msk) \<noteq> 0)"
| "word_parity msk ((a, b) # w # ws) = ((parity a \<noteq> 0) \<noteq> word_parity msk (w # ws))"

lemma reduce_xor_words_eq:
  "ws \<noteq> [] \<Longrightarrow> reduce_xor_words msk ws val =
   (if some_bit xz_bit msk ws then BIT4_X else if (parity val \<noteq> 0) \<noteq> word_parity msk ws then BIT4_1 else BIT4_0)"
proof (induction msk ws val rule: reduce_xor_words.induct)
  case (2 msk a b val)
  show ?case unfolding reduce_xor_words.simps some_bit.simps word_parity.simps parity_xor word_tests(3) [of b msk a] ..
next
  case (3 msk a b w ws val)
  define B where "B \<longleftrightarrow> (\<exists>j<64. xz_bit (bit a j) (bit b j))"
  note tests = word_tests(4) [of b a, folded B_def]
  have "\<not> B \<Longrightarrow> reduce_xor_words msk (w # ws) (val XOR a) =
      (if some_bit xz_bit msk (w # ws) then BIT4_X
       else if (parity (val XOR a) \<noteq> 0) \<noteq> word_parity msk (w # ws) then BIT4_1 else BIT4_0)"
    using 3 unfolding tests by blast
  then show ?case unfolding reduce_xor_words.simps some_bit.simps word_parity.simps tests B_def [symmetric] parity_xor
    by auto
qed simp

lemma word_parity_bits:
  "word_parity msk ws \<longleftrightarrow> odd_ones (\<lambda>i. (Suc (i div 64) = length ws \<longrightarrow> bit msk (i mod 64)) \<and>
     bit (fst (ws ! (i div 64))) (i mod 64)) (64 * length ws)"
proof (induction msk ws rule: word_parity.induct)
  case (2 msk a b)
  show ?case unfolding word_parity.simps parity_odd
    by simp (rule odd_ones_cong, auto simp: bit_and_iff)
next
  case (3 msk a b w ws)
  let ?f = "\<lambda>l i. (Suc (i div 64) = length l \<longrightarrow> bit msk (i mod 64)) \<and> bit (fst (l ! (i div 64))) (i mod 64)"
  have next_word: "(64 + i) div 64 = Suc (i div 64)" for i :: nat by simp
  have "odd_ones (?f ((a, b) # w # ws)) (64 + 64 * length (w # ws)) \<longleftrightarrow>
      odd_ones (bit a) 64 \<noteq> odd_ones (?f (w # ws)) (64 * length (w # ws))"
    unfolding odd_ones_add by (intro arg_cong2 [where f = "(\<noteq>)"] odd_ones_cong) (auto simp: next_word)
  then show ?case unfolding word_parity.simps parity_odd 3 by simp
qed simp

lemma odd_ones_restrict: "n \<le> m \<Longrightarrow> odd_ones (\<lambda>i. i < n \<and> g i) m \<longleftrightarrow> odd_ones g n"
proof -
  assume "n \<le> m"
  then obtain k where m: "m = n + k" by (auto simp: le_iff_add)
  have "odd_ones (\<lambda>i. n + i < n \<and> g (n + i)) k \<longleftrightarrow> False" by (simp add: odd_ones_def)
  moreover have "odd_ones (\<lambda>i. i < n \<and> g i) n \<longleftrightarrow> odd_ones g n" by (rule odd_ones_cong) simp
  ultimately show ?thesis unfolding m odd_ones_add by simp
qed

lemma stored_covers: "n \<le> 64 * stored_words n"
  using stored_bound [of "n - 1" n] by (cases n) auto

lemma word_parity_vec:
  assumes "wf_vec v" "0 < vsize v"
  shows "word_parity (BIT_MASK (vsize v mod 64)) (zip (abits v) (bbits v)) \<longleftrightarrow>
    odd_ones (\<lambda>i. bit (abits v ! (i div 64)) (i mod 64)) (vsize v)"
proof -
  let ?n = "vsize v"
  have len: "length (abits v) = stored_words ?n" "length (bbits v) = stored_words ?n"
    using assms(1) by (simp_all add: wf_vec_def)
  have "word_parity (BIT_MASK (?n mod 64)) (zip (abits v) (bbits v)) \<longleftrightarrow>
      odd_ones (\<lambda>i. i < ?n \<and> bit (abits v ! (i div 64)) (i mod 64)) (64 * stored_words ?n)"
    unfolding word_parity_bits using len
  proof (simp, intro odd_ones_cong)
    fix i assume i: "i < 64 * stored_words ?n"
    then have "i div 64 < stored_words ?n" by (simp add: less_mult_imp_div_less mult.commute)
    then show "((Suc (i div 64) = stored_words ?n \<longrightarrow> bit (BIT_MASK (?n mod 64)) (i mod 64)) \<and>
        bit (fst (zip (abits v) (bbits v) ! (i div 64))) (i mod 64)) =
      (i < ?n \<and> bit (abits v ! (i div 64)) (i mod 64))"
      using word_position [of "i div 64" ?n "i mod 64"] assms(2) len by simp
  qed
  then show ?thesis using odd_ones_restrict [OF stored_covers] by simp
qed

lemma fold_xor: "foldr bit4_xor bs BIT4_0 =
  (if BIT4_X \<in> set bs \<or> BIT4_Z \<in> set bs then BIT4_X
   else if odd (count_list bs BIT4_1) then BIT4_1 else BIT4_0)"
proof (induction bs)
  case (Cons b bs)
  then show ?case by (cases b) (auto simp: bit4_logic.tables)
qed simp

lemma odd_ones_count: "odd_ones (\<lambda>i. bs ! i = c) (length bs) \<longleftrightarrow> odd (count_list bs c)"
proof (induction bs rule: rev_induct)
  case (snoc x xs)
  have "odd_ones (\<lambda>i. (xs @ [x]) ! i = c) (length xs) \<longleftrightarrow> odd_ones (\<lambda>i. xs ! i = c) (length xs)"
    by (rule odd_ones_cong) (simp add: nth_append)
  then show ?case using snoc by (simp add: odd_ones_Suc)
qed simp

lemma reduce_xor_bits:
  assumes "wf_vec v" "0 < vsize v"
  shows "reduce_xor v = foldr bit4_xor (vec_bits v) BIT4_0"
proof (cases "BIT4_X \<in> set (vec_bits v) \<or> BIT4_Z \<in> set (vec_bits v)")
  case True
  then show ?thesis unfolding reduce_xor_def fold_xor
    reduce_xor_words_eq [OF words_nonempty [OF assms]] some_bit_set [OF assms] by auto
next
  case False
  have "odd_ones (\<lambda>i. bit (abits v ! (i div 64)) (i mod 64)) (vsize v) \<longleftrightarrow>
      odd_ones (\<lambda>i. vec_bits v ! i = BIT4_1) (vsize v)"
  proof (rule odd_ones_cong)
    fix i assume i: "i < vsize v"
    then have "vec_bits v ! i \<in> set (vec_bits v)" by simp
    then have "vec_bits v ! i \<noteq> BIT4_X" "vec_bits v ! i \<noteq> BIT4_Z" using False by auto
    then show "bit (abits v ! (i div 64)) (i mod 64) \<longleftrightarrow> vec_bits v ! i = BIT4_1"
      using i by (cases "bit (abits v ! (i div 64)) (i mod 64)"; cases "bit (bbits v ! (i div 64)) (i mod 64)")
        (auto simp: vec_bits_nth v4_value_bit)
  qed
  moreover have "parity 0 = 0" by code_simp
  ultimately show ?thesis using False odd_ones_count [of "vec_bits v" BIT4_1] unfolding reduce_xor_def fold_xor
    reduce_xor_words_eq [OF words_nonempty [OF assms]] some_bit_set [OF assms] word_parity_vec [OF assms] by auto
qed

section \<open>Comparisons\<close>

lemma full_word_bit: "k < n div 64 \<Longrightarrow> j < 64 \<Longrightarrow> 64 * k + j < (n :: nat)"
proof -
  assume "k < n div 64" "j < 64"
  moreover have "n = 64 * (n div 64) + n mod 64" by simp
  ultimately show ?thesis by linarith
qed

lemma words_agree:
  fixes f g :: "nat \<Rightarrow> 64 word"
  shows "(\<forall>i<n. bit (f (i div 64)) (i mod 64) \<longleftrightarrow> bit (g (i div 64)) (i mod 64)) \<longleftrightarrow>
    (\<forall>k<n div 64. f k = g k) \<and>
    (n mod 64 > 0 \<or> n = 0 \<longrightarrow> f (n div 64) AND low_mask (n mod 64) = g (n div 64) AND low_mask (n mod 64))" (is "?L \<longleftrightarrow> ?R")
proof
  assume L: ?L
  show ?R
  proof (intro conjI allI impI)
    fix k assume k: "k < n div 64"
    show "f k = g k"
    proof (rule bit_word_eqI)
      fix j assume "j < LENGTH(64)"
      then show "bit (f k) j \<longleftrightarrow> bit (g k) j" using L [rule_format, of "64 * k + j"] full_word_bit [OF k] by simp
    qed
  next
    show "f (n div 64) AND low_mask (n mod 64) = g (n div 64) AND low_mask (n mod 64)"
    proof (rule bit_word_eqI)
      fix j assume "j < LENGTH(64)"
      moreover have "n = 64 * (n div 64) + n mod 64" by simp
      then have "j < n mod 64 \<Longrightarrow> 64 * (n div 64) + j < n" by linarith
      ultimately show "bit (f (n div 64) AND low_mask (n mod 64)) j \<longleftrightarrow> bit (g (n div 64) AND low_mask (n mod 64)) j"
        using L [rule_format, of "64 * (n div 64) + j"] by (auto simp: bit_and_iff)
    qed
  qed
next
  assume R: ?R
  show ?L
  proof (intro allI impI)
    fix i assume i: "i < n"
    show "bit (f (i div 64)) (i mod 64) \<longleftrightarrow> bit (g (i div 64)) (i mod 64)"
    proof (cases "i div 64 < n div 64")
      case False
      note l = last_word_bits [OF i False]
      then have "f (n div 64) AND low_mask (n mod 64) = g (n div 64) AND low_mask (n mod 64)" using R by auto
      then have "bit (f (n div 64) AND low_mask (n mod 64)) (i mod 64) \<longleftrightarrow> bit (g (n div 64) AND low_mask (n mod 64)) (i mod 64)"
        by simp
      then show ?thesis using l by (simp add: bit_and_iff)
    qed (use R in auto)
  qed
qed

lemma decode_eq_iff: "decode a b = decode a' b' \<longleftrightarrow> a = a' \<and> b = b'"
  by (cases a; cases b; cases a'; cases b'; simp)

lemma decode_x_iff: "vvp_bit4_z2x (decode a b) = vvp_bit4_z2x (decode a' b') \<longleftrightarrow> (a \<or> b) = (a' \<or> b') \<and> b = b'"
  by (cases a; cases b; cases a'; cases b'; simp)

lemma map_vec_eq:
  "vsize v = vsize w \<Longrightarrow> map h (vec_bits v) = map h (vec_bits w) \<longleftrightarrow>
   (\<forall>i<vsize v. h (decode (bit (abits v ! (i div 64)) (i mod 64)) (bit (bbits v ! (i div 64)) (i mod 64))) =
      h (decode (bit (abits w ! (i div 64)) (i mod 64)) (bit (bbits w ! (i div 64)) (i mod 64))))"
  by (simp add: list_eq_iff_nth_eq vec_bits_nth v4_value_bit)

lemma list_all_upt_conj: "list_all (\<lambda>i. P i \<and> Q i) [0..<w] \<longleftrightarrow> (\<forall>k<w. P k) \<and> (\<forall>k<w. Q k)"
  by (auto simp: list_all_iff)

lemma eeq_bits: "eeq v w \<longleftrightarrow> vec_bits v = vec_bits w"
proof (cases "vsize v = vsize w")
  case True
  have "vec_bits v = vec_bits w \<longleftrightarrow>
      (\<forall>i<vsize v. bit (abits v ! (i div 64)) (i mod 64) = bit (abits w ! (i div 64)) (i mod 64)) \<and>
      (\<forall>i<vsize v. bit (bbits v ! (i div 64)) (i mod 64) = bit (bbits w ! (i div 64)) (i mod 64))"
    using map_vec_eq [OF True, of "\<lambda>b. b"] by (auto simp: decode_eq_iff)
  then show ?thesis unfolding eeq_def Let_def list_all_upt_conj
      words_agree [of "vsize v" "(!) (abits v)" "(!) (abits w)"]
      words_agree [of "vsize v" "(!) (bbits v)" "(!) (bbits w)"]
    using True by argo
next
  case False
  then have "vec_bits v \<noteq> vec_bits w" by (metis vec_bits_length)
  then show ?thesis using False by (simp add: eeq_def)
qed

lemma eq_xz_bits: "eq_xz v w \<longleftrightarrow> map vvp_bit4_z2x (vec_bits v) = map vvp_bit4_z2x (vec_bits w)"
proof (cases "vsize v = vsize w")
  case True
  have "map vvp_bit4_z2x (vec_bits v) = map vvp_bit4_z2x (vec_bits w) \<longleftrightarrow>
      (\<forall>i<vsize v. bit (abits v ! (i div 64) OR bbits v ! (i div 64)) (i mod 64) =
        bit (abits w ! (i div 64) OR bbits w ! (i div 64)) (i mod 64)) \<and>
      (\<forall>i<vsize v. bit (bbits v ! (i div 64)) (i mod 64) = bit (bbits w ! (i div 64)) (i mod 64))"
    using map_vec_eq [OF True, of vvp_bit4_z2x] by (auto simp: decode_x_iff bit_or_iff)
  then show ?thesis unfolding eq_xz_def Let_def list_all_upt_conj
      words_agree [of "vsize v" "\<lambda>i. abits v ! i OR bbits v ! i" "\<lambda>i. abits w ! i OR bbits w ! i"]
      words_agree [of "vsize v" "(!) (bbits v)" "(!) (bbits w)"]
    using True by argo
next
  case False
  then have "map vvp_bit4_z2x (vec_bits v) \<noteq> map vvp_bit4_z2x (vec_bits w)"
    by (metis vec_bits_length length_map)
  then show ?thesis using False by (simp add: eq_xz_def)
qed

lemma has_xz_bits:
  assumes "0 < vsize v"
  shows "has_xz v = Some (\<exists>b\<in>set (vec_bits v). bit4_is_xz b)"
proof -
  let ?n = "vsize v"
  have b: "bit4_is_xz (decode x y) \<longleftrightarrow> y" for x y by (cases x; cases y) simp_all
  have "(\<exists>b\<in>set (vec_bits v). bit4_is_xz b) \<longleftrightarrow> (\<exists>i<?n. bit (bbits v ! (i div 64)) (i mod 64))"
    by (auto simp: vec_bits_def v4_value_bit b)
  moreover have "(\<forall>i<?n. \<not> bit (bbits v ! (i div 64)) (i mod 64)) \<longleftrightarrow>
      (\<forall>k<?n div 64. bbits v ! k = 0) \<and> (?n mod 64 > 0 \<longrightarrow> bbits v ! (?n div 64) AND low_mask (?n mod 64) = 0)"
    using words_agree [of ?n "(!) (bbits v)" "\<lambda>_. 0"] assms by auto
  moreover have "?n mod 64 > 0 \<Longrightarrow> drop_bit (64 - ?n mod 64) (- 1) = low_mask (?n mod 64)"
    by (rule bit_word_eqI) (auto simp: bit_drop_bit_eq bit_mask_iff)
  ultimately show ?thesis using assms by (auto simp: has_xz_def Let_def list_ex_iff)
qed

end
