(* ===== verification/Vvp_Arith4.thy ===== *)
theory Vvp_Arith4
  imports Vvp_Reduce
begin

text \<open>
  Arithmetic on the packed vectors (\<open>add\<close>, \<open>sub\<close>, \<open>mul\<close> and \<open>operator +=\<close> of \<open>vvp_vector4_t\<close>):
  word by word with a carry, all bits unknown as soon as an operand has an unknown bit, and the
  result modulo the size. The three assert that the sizes are equal.
\<close>

section \<open>The operations\<close>

text \<open>The loop over the full words of an addition, with the second operand passed through \<open>f\<close>;
  \<open>None\<close> is the jump to \<open>x_out\<close>.\<close>

fun sum_words :: "(64 word \<Rightarrow> 64 word) \<Rightarrow> (64 word \<times> 64 word) list \<Rightarrow> (64 word \<times> 64 word) list \<Rightarrow> 64 word \<Rightarrow>
    (64 word list \<times> 64 word) option" where
  "sum_words f ((a, b) # vs) ((a', b') # ws) carry =
     (if b OR b' \<noteq> 0 then None
      else case ulong_add_with_carry a (f a') carry of (s, carry') \<Rightarrow>
        map_option (\<lambda>(ss, c). (s # ss, c)) (sum_words f vs ws carry'))"
| "sum_words f _ _ carry = Some ([], carry)"

definition x_out :: "vvp_vector4 \<Rightarrow> vvp_vector4" where
  "x_out v = (let cnt = vsize v div 64; tail = vsize v mod 64;
                  ws = replicate cnt (- 1) @ (if tail \<noteq> 0 then [- 1 AND NOT (push_bit tail (- 1))] else [])
              in v\<lparr>abits := ws, bbits := ws\<rparr>)"

text \<open>The part of \<open>add\<close> and \<open>sub\<close> for vectors of more than one word.\<close>

definition sum_long :: "(64 word \<Rightarrow> 64 word) \<Rightarrow> 64 word \<Rightarrow> vvp_vector4 \<Rightarrow> vvp_vector4 \<Rightarrow> vvp_vector4" where
  "sum_long f carry v that =
     (let cnt = vsize v div 64; tail = vsize v mod 64; msk = NOT (push_bit tail (- 1))
      in case sum_words f (take cnt (zip (abits v) (bbits v))) (take cnt (zip (abits that) (bbits that))) carry of
           None \<Rightarrow> x_out v
         | Some (ss, c) \<Rightarrow>
             if tail = 0 then v\<lparr>abits := ss\<rparr>
             else if (bbits v ! cnt OR bbits that ! cnt) AND msk \<noteq> 0 then x_out v
             else v\<lparr>abits := ss @ [fst (ulong_add_with_carry (abits v ! cnt) (f (abits that ! cnt)) c) AND msk]\<rparr>)"

text \<open>The part for a single word, with the machine operation.\<close>

definition word_op :: "(64 word \<Rightarrow> 64 word \<Rightarrow> 64 word) \<Rightarrow> vvp_vector4 \<Rightarrow> vvp_vector4 \<Rightarrow> vvp_vector4" where
  "word_op f v that =
     (let n = vsize v; a = abits v ! 0; b = bbits v ! 0; a' = abits that ! 0; b' = bbits that ! 0;
          msk = NOT (push_bit n (- 1))
      in if n < 64
         then (if (b OR b') AND msk \<noteq> 0 then v\<lparr>abits := [a OR msk], bbits := [b OR msk]\<rparr>
               else v\<lparr>abits := [f a a' AND msk]\<rparr>)
         else (if b OR b' \<noteq> 0 then v\<lparr>abits := [- 1], bbits := [- 1]\<rparr> else v\<lparr>abits := [f a a']\<rparr>))"

definition v4_add :: "vvp_vector4 \<Rightarrow> vvp_vector4 \<Rightarrow> vvp_vector4 option" where
  "v4_add v that =
     (if vsize v \<noteq> vsize that then None
      else if vsize v \<le> 64 then Some (word_op (+) v that)
      else Some (sum_long (\<lambda>a. a) 0 v that))"

definition v4_sub :: "vvp_vector4 \<Rightarrow> vvp_vector4 \<Rightarrow> vvp_vector4 option" where
  "v4_sub v that =
     (if vsize v \<noteq> vsize that then None
      else if vsize v \<le> 64 then Some (word_op (-) v that)
      else Some (sum_long (\<lambda>a. NOT a) 1 v that))"

text \<open>Multiplication: the product of two words is added into the result at its place, the high
  half and the carries running on to the last word.\<close>

fun add_chain :: "64 word list \<Rightarrow> 64 word \<Rightarrow> 64 word \<Rightarrow> 64 word list" where
  "add_chain [] hi carry = []"
| "add_chain (r # rs) hi carry = (case ulong_add_with_carry r hi carry of (s, c) \<Rightarrow> s # add_chain rs 0 c)"

definition mul_step :: "64 word \<Rightarrow> 64 word \<Rightarrow> nat \<Rightarrow> 64 word list \<Rightarrow> 64 word list" where
  "mul_step lval rval base res =
     (case multiply_with_carry lval rval of (tmp, hi) \<Rightarrow>
        take base res @
        (case drop base res of
           [] \<Rightarrow> []
         | r # rs \<Rightarrow> (case ulong_add_with_carry r tmp 0 of (s, c) \<Rightarrow> s # add_chain rs hi c)))"

definition masked_words :: "vvp_vector4 \<Rightarrow> 64 word list \<Rightarrow> 64 word list" where
  "masked_words v ws =
     (let cnt = word_count (vsize v); msk = (if vsize v mod 64 \<noteq> 0 then NOT (push_bit (vsize v mod 64) (- 1)) else NOT 0)
      in ws[cnt - 1 := ws ! (cnt - 1) AND msk])"

definition mul_words :: "nat \<Rightarrow> 64 word list \<Rightarrow> 64 word list \<Rightarrow> 64 word list" where
  "mul_words cnt as bs =
     fold (\<lambda>mul_a res. fold (\<lambda>mul_b res. mul_step (as ! mul_a) (bs ! mul_b) (mul_a + mul_b) res) [0..<cnt - mul_a] res)
       [0..<cnt] (replicate cnt 0)"

definition v4_mul :: "vvp_vector4 \<Rightarrow> vvp_vector4 \<Rightarrow> vvp_vector4 option" where
  "v4_mul v that =
     (if vsize v \<noteq> vsize that then None
      else if vsize v \<le> 64 then Some (word_op (*) v that)
      else let cnt = word_count (vsize v)
           in if list_ex (\<lambda>i. masked_words v (bbits v) ! i \<noteq> 0 \<or> masked_words v (bbits that) ! i \<noteq> 0) [0..<cnt]
              then let ws = masked_words v (replicate cnt (- 1)) in Some (v\<lparr>abits := ws, bbits := ws\<rparr>)
              else Some (v\<lparr>abits := masked_words v (mul_words cnt (masked_words v (abits v)) (masked_words v (abits that)))\<rparr>))"

text \<open>The addition of a native integer, bit by bit.\<close>

fun plus_loop :: "nat \<Rightarrow> nat \<Rightarrow> int \<Rightarrow> vvp_bit4 \<Rightarrow> vvp_vector4 \<Rightarrow> vvp_vector4 option" where
  "plus_loop 0 idx that carry v = Some v"
| "plus_loop (Suc todo) idx that carry v =
     (if that = 0 \<and> carry = BIT4_0 then Some v
      else let that_bit = (if odd that then BIT4_1 else BIT4_0); that' = that div 2
           in if that_bit = BIT4_0 \<and> carry = BIT4_0 then plus_loop todo (Suc idx) that' carry v
              else do { (b, carry') \<leftarrow> bit4_add_with_carry (v4_value v idx) that_bit carry;
                        v' \<leftarrow> v4_set_bit v idx b;
                        plus_loop todo (Suc idx) that' carry' v' })"

definition v4_plus_int :: "vvp_vector4 \<Rightarrow> 64 word \<Rightarrow> vvp_vector4 option" where
  "v4_plus_int v that =
     do { xz \<leftarrow> has_xz v;
          if xz then Some (vector4_fill (vsize v) BIT4_X)
          else plus_loop (vsize v) 0 (sint that) BIT4_0 v }"

section \<open>The number in the words\<close>

definition bits_val :: "vvp_bit4 list \<Rightarrow> int" where
  "bits_val bs = horner_sum of_bool 2 (map (\<lambda>b. b = BIT4_1) bs)"

definition words_val :: "64 word list \<Rightarrow> int" where
  "words_val ws = horner_sum uint (2 ^ 64) ws"

lemma words_val_simps [simp]:
  "words_val [] = 0" "words_val (w # ws) = uint w + 2 ^ 64 * words_val ws"
  by (simp_all add: words_val_def)

lemma words_val_append: "words_val (vs @ ws) = words_val vs + 2 ^ (64 * length vs) * words_val ws"
  by (simp add: words_val_def horner_sum_append power_mult)

lemma words_val_nonneg: "0 \<le> words_val ws"
  by (induction ws) simp_all

lemma bit_words_val: "bit (words_val ws) i \<longleftrightarrow> i div 64 < length ws \<and> bit (ws ! (i div 64)) (i mod 64)"
proof (induction ws arbitrary: i)
  case (Cons w ws)
  have "words_val (w # ws) = concat_bit 64 (uint w) (words_val ws)"
    using uint_below [of w] by (simp add: concat_bit_eq take_bit_int_eq_self push_bit_eq_mult mult.commute)
  then have "bit (words_val (w # ws)) i \<longleftrightarrow> (i < 64 \<and> bit w i) \<or> (64 \<le> i \<and> bit (words_val ws) (i - 64))"
    by (auto simp: bit_concat_bit_iff bit_uint_iff)
  moreover have "64 \<le> i \<Longrightarrow> i div 64 = Suc ((i - 64) div 64) \<and> (i - 64) mod 64 = i mod 64"
    by (simp add: le_div_geq le_mod_geq)
  ultimately show ?case using Cons.IH [of "i - 64"] by (cases "i < 64") auto
qed simp

lemma bit_bits_val: "bit (bits_val bs) i \<longleftrightarrow> i < length bs \<and> bs ! i = BIT4_1"
  by (auto simp: bits_val_def bit_horner_sum_bit_iff)

text \<open>A vector without unknown bits is the number in its a-bits, up to its size.\<close>

definition known_vec :: "vvp_vector4 \<Rightarrow> bool" where
  "known_vec v \<longleftrightarrow> (\<forall>i<vsize v. \<not> bit (bbits v ! (i div 64)) (i mod 64))"

lemma known_vec_bits: "known_vec v \<longleftrightarrow> (\<forall>b\<in>set (vec_bits v). \<not> bit4_is_xz b)"
proof -
  have b: "bit4_is_xz (decode x y) \<longleftrightarrow> y" for x y by (cases x; cases y) simp_all
  show ?thesis by (auto simp: known_vec_def vec_bits_def v4_value_bit b)
qed

lemma known_vec_val:
  assumes "wf_vec v" "known_vec v"
  shows "bits_val (vec_bits v) = take_bit (vsize v) (words_val (abits v))"
proof (rule bit_eqI)
  fix i
  have "i < vsize v \<Longrightarrow> i div 64 < length (abits v)" using stored_bound assms(1) by (simp add: wf_vec_def)
  moreover have "i < vsize v \<Longrightarrow> vec_bits v ! i = BIT4_1 \<longleftrightarrow> bit (abits v ! (i div 64)) (i mod 64)"
    using assms(2) by (cases "bit (abits v ! (i div 64)) (i mod 64)") (auto simp: known_vec_def vec_bits_nth v4_value_bit)
  ultimately show "bit (bits_val (vec_bits v)) i \<longleftrightarrow> bit (take_bit (vsize v) (words_val (abits v))) i"
    by (auto simp: bit_bits_val bit_take_bit_iff bit_words_val)
qed

text \<open>The result of an operation on two known vectors, and on a vector with unknown bits.\<close>

definition arith_result :: "int \<Rightarrow> vvp_vector4 \<Rightarrow> vvp_vector4 \<Rightarrow> vvp_vector4 \<Rightarrow> bool" where
  "arith_result x v w r \<longleftrightarrow> wf_vec r \<and> vsize r = vsize v \<and>
     (if known_vec v \<and> known_vec w then known_vec r \<and> bits_val (vec_bits r) = x mod 2 ^ vsize v
      else vec_bits r = replicate (vsize v) BIT4_X)"

lemma arith_resultI:
  assumes "wf_vec v" "known_vec v" "known_vec w" "length ws = length (abits v)"
    "take_bit (vsize v) (words_val ws) = take_bit (vsize v) x"
  shows "arith_result x v w (v\<lparr>abits := ws\<rparr>)"
  using assms known_vec_val [of "v\<lparr>abits := ws\<rparr>"]
  by (simp add: arith_result_def wf_vec_def known_vec_def take_bit_eq_mod)

lemma arith_result_x:
  assumes "\<not> (known_vec v \<and> known_vec w)" "length as = stored_words (vsize v)" "length bs = stored_words (vsize v)"
    "\<And>i. i < vsize v \<Longrightarrow> bit (as ! (i div 64)) (i mod 64) \<and> bit (bs ! (i div 64)) (i mod 64)"
  shows "arith_result x v w (v\<lparr>abits := as, bbits := bs\<rparr>)"
proof -
  have "vec_bits (v\<lparr>abits := as, bbits := bs\<rparr>) = replicate (vsize v) BIT4_X"
    by (rule vec_bits_eqI [of _ "vsize v"]) (simp_all add: assms(4))
  then show ?thesis using assms(1-3) by (auto simp: arith_result_def wf_vec_def)
qed

lemma not_push_mask: "n < 64 \<Longrightarrow> NOT (push_bit n (- 1)) = low_mask n"
  by (rule bit_word_eqI) (auto simp: bit_not_iff bit_push_bit_iff bit_mask_iff)

section \<open>One word\<close>

lemma short_known:
  "vsize v \<le> 64 \<Longrightarrow> known_vec v \<longleftrightarrow> (\<forall>i<vsize v. \<not> bit (bbits v ! 0) i)"
  by (auto simp: known_vec_def)

lemma word_op_result:
  assumes "wf_vec v" "wf_vec w" "vsize v = vsize w" "vsize v \<le> 64"
    "\<And>a b. take_bit 64 (uint (f a b)) = take_bit 64 (g (uint a) (uint b))"
    "\<And>x y n. take_bit n (g (take_bit n x) (take_bit n y)) = take_bit n (g x y)"
  shows "arith_result (g (bits_val (vec_bits v)) (bits_val (vec_bits w))) v w (word_op f v w)"
proof -
  let ?n = "vsize v" and ?x = "g (bits_val (vec_bits v)) (bits_val (vec_bits w))"
  have len: "length (abits v) = 1" "length (abits w) = 1" using assms by (auto simp: wf_vec_def stored_words_def)
  then have one: "abits v = [abits v ! 0]" "abits w = [abits w ! 0]"
    by (cases "abits v"; simp) (cases "abits w"; use len in simp)
  have k: "known_vec v \<and> known_vec w \<longleftrightarrow> (\<forall>i<?n. \<not> bit (bbits v ! 0 OR bbits w ! 0) i)"
    using short_known [of v] short_known [of w] assms(3,4) by (auto simp: bit_or_iff)
  have test: "(bbits v ! 0 OR bbits w ! 0) AND NOT (push_bit ?n (- 1)) \<noteq> 0 \<longleftrightarrow> \<not> (known_vec v \<and> known_vec w)" if "?n < 64"
    unfolding k not_push_mask [OF that] word_nonzero using that
    by (auto simp: bit_and_iff bit_or_iff) (meson less_trans)+
  have test64: "bbits v ! 0 OR bbits w ! 0 \<noteq> 0 \<longleftrightarrow> \<not> (known_vec v \<and> known_vec w)" if "?n = 64"
    unfolding k word_nonzero using that by auto
  have val: "take_bit ?n (uint (f (abits v ! 0) (abits w ! 0))) = take_bit ?n ?x" if kn: "known_vec v" "known_vec w"
  proof -
    have e: "bits_val (vec_bits v) = take_bit ?n (uint (abits v ! 0))" "bits_val (vec_bits w) = take_bit ?n (uint (abits w ! 0))"
      using known_vec_val [OF assms(1) kn(1)] known_vec_val [OF assms(2) kn(2)] one assms(3)
      by (metis words_val_simps mult_zero_right add.right_neutral)+
    have "take_bit ?n (take_bit 64 (uint (f (abits v ! 0) (abits w ! 0)))) =
        take_bit ?n (take_bit 64 (g (uint (abits v ! 0)) (uint (abits w ! 0))))" by (simp only: assms(5))
    then have "take_bit ?n (uint (f (abits v ! 0) (abits w ! 0))) = take_bit ?n (g (uint (abits v ! 0)) (uint (abits w ! 0)))"
      using assms(4) by (simp only: take_bit_take_bit min.absorb1)
    then show ?thesis unfolding e assms(6) .
  qed
  show ?thesis
  proof (cases "known_vec v \<and> known_vec w")
    case True
    show ?thesis
    proof (cases "?n < 64")
      case lt: True
      have "take_bit ?n (uint (f (abits v ! 0) (abits w ! 0) AND low_mask ?n)) = take_bit ?n (uint (f (abits v ! 0) (abits w ! 0)))"
        by (rule bit_eqI) (use lt in \<open>auto simp: bit_take_bit_iff bit_uint_iff bit_and_iff\<close>)
      then have "arith_result ?x v w (v\<lparr>abits := [f (abits v ! 0) (abits w ! 0) AND low_mask ?n]\<rparr>)"
        using val True len by (intro arith_resultI [OF assms(1)]) auto
      then show ?thesis using test [OF lt] True lt by (simp add: word_op_def Let_def low_mask_eq)
    next
      case False
      then have "arith_result ?x v w (v\<lparr>abits := [f (abits v ! 0) (abits w ! 0)]\<rparr>)"
        using val True len by (intro arith_resultI [OF assms(1)]) auto
      then show ?thesis using test64 True False assms(4) by (simp add: word_op_def Let_def)
    qed
  next
    case False
    have st: "stored_words ?n = 1" using assms(4) by (simp add: stored_words_def)
    show ?thesis
    proof (cases "?n < 64")
      case lt: True
      have "arith_result ?x v w (v\<lparr>abits := [abits v ! 0 OR low_mask ?n], bbits := [bbits v ! 0 OR low_mask ?n]\<rparr>)"
        using st lt by (intro arith_result_x [OF False]) (auto simp: bit_or_iff)
      then show ?thesis using test [OF lt] False lt by (simp add: word_op_def Let_def low_mask_eq)
    next
      case ge: False
      have "arith_result ?x v w (v\<lparr>abits := [- 1], bbits := [- 1]\<rparr>)"
        using st assms(4) by (intro arith_result_x [OF False]) auto
      then show ?thesis using test64 False ge assms(4) by (simp add: word_op_def Let_def)
    qed
  qed
qed

section \<open>Long additions\<close>

lemma sum_words_ripple:
  "length vs = length ws \<Longrightarrow> sum_words f vs ws c =
   (if list_all (\<lambda>(a, b). b = 0) vs \<and> list_all (\<lambda>(a, b). b = 0) ws
    then Some (ripple ulong_add_with_carry (map fst vs) (map (\<lambda>p. f (fst p)) ws) c) else None)"
proof (induction vs ws arbitrary: c rule: list_induct2)
  case (Cons x vs y ws)
  obtain a b a' b' where xy: "x = (a, b)" "y = (a', b')" by (cases x; cases y)
  have "b OR b' \<noteq> 0 \<longleftrightarrow> \<not> (b = 0 \<and> b' = 0)" by (metis or_eq_0_iff)
  then show ?case using Cons.IH by (auto simp: xy split: prod.splits)
qed simp

lemma words_ripple:
  assumes "length as = length bs" "c \<le> 1"
  shows "words_val (fst (ripple ulong_add_with_carry as bs c)) = (words_val as + words_val bs + uint c) mod 2 ^ (64 * length as)"
  using ulong_adder.ripple_mod [OF assms(1) _ _ assms(2)]
  by (simp add: words_val_def list_all_iff power_mult)

text \<open>Masking the last word does not touch the bits of the vector.\<close>

lemma masked_tail:
  assumes "n > 64" "n mod 64 \<noteq> 0" "length ws = n div 64"
  shows "take_bit n (words_val (ws @ [w AND low_mask (n mod 64)])) = take_bit n (words_val (ws @ [w]))"
proof (rule bit_eqI)
  fix i
  show "bit (take_bit n (words_val (ws @ [w AND low_mask (n mod 64)]))) i \<longleftrightarrow> bit (take_bit n (words_val (ws @ [w]))) i"
    using last_word_bits [of i n] assms
    by (cases "i < n"; cases "i div 64 < n div 64") (auto simp: bit_take_bit_iff bit_words_val nth_append bit_and_iff)
qed

lemma long_words:
  assumes "wf_vec v" "vsize v > 64"
  defines "n \<equiv> vsize v"
  shows "length (abits v) = n div 64 + (if n mod 64 = 0 then 0 else 1)"
    "length (bbits v) = n div 64 + (if n mod 64 = 0 then 0 else 1)"
  using assms by (simp_all add: wf_vec_def stored_words_def word_count_alt)

lemma long_known:
  assumes "wf_vec v" "vsize v > 64"
  defines "n \<equiv> vsize v"
  shows "known_vec v \<longleftrightarrow> list_all (\<lambda>(a, b). b = 0) (take (n div 64) (zip (abits v) (bbits v))) \<and>
    (n mod 64 \<noteq> 0 \<longrightarrow> bbits v ! (n div 64) AND low_mask (n mod 64) = 0)"
proof -
  have "known_vec v \<longleftrightarrow> (\<forall>k<n div 64. bbits v ! k = 0) \<and>
      (n mod 64 \<noteq> 0 \<longrightarrow> bbits v ! (n div 64) AND low_mask (n mod 64) = 0)"
    using words_agree [of n "(!) (bbits v)" "\<lambda>_. 0"] assms(2) by (auto simp: known_vec_def n_def)
  moreover have "list_all (\<lambda>(a, b). b = 0) (take (n div 64) (zip (abits v) (bbits v))) \<longleftrightarrow> (\<forall>k<n div 64. bbits v ! k = 0)"
    using long_words [OF assms(1,2)] by (auto simp: list_all_length n_def)
  ultimately show ?thesis by simp
qed

lemma x_out_result:
  assumes "wf_vec v" "vsize v > 64" "\<not> (known_vec v \<and> known_vec w)"
  shows "arith_result x v w (x_out v)"
proof -
  let ?n = "vsize v"
  let ?ws = "replicate (?n div 64) (- 1 :: 64 word) @ (if ?n mod 64 \<noteq> 0 then [- 1 AND NOT (push_bit (?n mod 64) (- 1))] else [])"
  have m: "(- 1 :: 64 word) AND NOT (push_bit (?n mod 64) (- 1)) = low_mask (?n mod 64)"
    by (simp add: low_mask_eq)
  have "bit (?ws ! (i div 64)) (i mod 64)" if "i < ?n" for i
    unfolding m using last_word_bits [OF that] by (cases "i div 64 < ?n div 64") (auto simp: nth_append)
  moreover have "length ?ws = stored_words ?n" using assms(2) by (simp add: stored_words_def word_count_alt)
  ultimately have "arith_result x v w (v\<lparr>abits := ?ws, bbits := ?ws\<rparr>)" by (intro arith_result_x [OF assms(3)]) auto
  then show ?thesis by (simp only: x_out_def Let_def)
qed

lemma snoc_words:
  assumes "length xs = k + 1"
  shows "xs = take k xs @ [xs ! k]"
  using assms by (metis Suc_eq_plus1 take_Suc_conv_app_nth lessI take_all order_refl)

lemma map_fst_take_zip: "length xs = length ys \<Longrightarrow> map (\<lambda>p. f (fst p)) (take k (zip xs ys)) = map f (take k xs)"
proof -
  assume "length xs = length ys"
  then have "map fst (take k (zip xs ys)) = take k xs" by (simp flip: take_map)
  then have "map f (map fst (take k (zip xs ys))) = map f (take k xs)" by simp
  then show ?thesis by (simp add: comp_def)
qed

lemma sum_long_known:
  assumes "wf_vec v" "wf_vec w" "vsize v = vsize w" "vsize v > 64" "c \<le> 1" "known_vec v" "known_vec w"
  shows "\<exists>ws. sum_long f c v w = v\<lparr>abits := ws\<rparr> \<and> length ws = length (abits v) \<and>
    take_bit (vsize v) (words_val ws) = take_bit (vsize v) (words_val (abits v) + words_val (map f (abits w)) + uint c)"
proof -
  let ?n = "vsize v" and ?k = "vsize v div 64" and ?t = "vsize v mod 64"
  let ?A = "abits v" and ?B = "map f (abits w)"
  note lv = long_words [OF assms(1,4)] and lw = long_words [OF assms(2), unfolded assms(3) [symmetric], OF assms(4)]
  have zip: "length (abits v) = length (bbits v)" "length (abits w) = length (bbits w)" using lv lw by auto
  have kn: "list_all (\<lambda>(a, b). b = 0) (take ?k (zip (abits v) (bbits v)))" "?t \<noteq> 0 \<longrightarrow> bbits v ! ?k AND low_mask ?t = 0"
      "list_all (\<lambda>(a, b). b = 0) (take ?k (zip (abits w) (bbits w)))" "?t \<noteq> 0 \<longrightarrow> bbits w ! ?k AND low_mask ?t = 0"
    using long_known [OF assms(1,4)] long_known [OF assms(2)] assms(3,4,6,7) by auto
  obtain ss c' where r: "ripple ulong_add_with_carry (take ?k ?A) (take ?k ?B) c = (ss, c')"
    by (cases "ripple ulong_add_with_carry (take ?k ?A) (take ?k ?B) c")
  have sw: "sum_words f (take ?k (zip (abits v) (bbits v))) (take ?k (zip (abits w) (bbits w))) c = Some (ss, c')"
    using kn(1,3) r lv lw map_fst_take_zip [OF zip(1), of "\<lambda>a. a"] map_fst_take_zip [OF zip(2), of f]
    by (subst sum_words_ripple) (auto simp: take_map)
  have lss: "length ss = ?k" using ripple_length [of "take ?k ?A" "take ?k ?B" ulong_add_with_carry c] r lv lw by simp
  have full: "words_val (fst (ripple ulong_add_with_carry ?A ?B c)) =
      (words_val ?A + words_val ?B + uint c) mod 2 ^ (64 * length ?A)"
    using words_ripple [of ?A ?B c] lv lw assms(5) by simp
  have cover: "?n \<le> 64 * length ?A" using stored_covers [of ?n] assms(1) by (simp add: wf_vec_def)
  have tb: "take_bit ?n (words_val (fst (ripple ulong_add_with_carry ?A ?B c))) =
      take_bit ?n (words_val ?A + words_val ?B + uint c)"
    unfolding full using cover by (simp only: take_bit_eq_mod [symmetric] take_bit_take_bit min.absorb1)
  show ?thesis
  proof (cases "?t = 0")
    case True
    then have "fst (ripple ulong_add_with_carry ?A ?B c) = ss" using r lv lw by simp
    then show ?thesis using True sw tb lss lv by (intro exI [of _ ss]) (simp add: sum_long_def Let_def)
  next
    case False
    let ?s = "fst (ulong_add_with_carry (?A ! ?k) (f (abits w ! ?k)) c')"
    have A: "?A = take ?k ?A @ [?A ! ?k]" and B: "?B = take ?k ?B @ [f (abits w ! ?k)]"
      using snoc_words [of ?A ?k] snoc_words [of ?B ?k] lv lw False by auto
    have "fst (ripple ulong_add_with_carry (take ?k ?A @ [?A ! ?k]) (take ?k ?B @ [f (abits w ! ?k)]) c) = ss @ [?s]"
      using r lv lw by (subst ripple_append) (auto split: prod.splits)
    then have e: "fst (ripple ulong_add_with_carry ?A ?B c) = ss @ [?s]" using A B by metis
    have m: "NOT (push_bit ?t (- 1)) = low_mask ?t" by (simp add: low_mask_eq)
    have "(bbits v ! ?k OR bbits w ! ?k) AND low_mask ?t = 0"
      using kn(2,4) False by (simp add: bit.conj_disj_distrib2)
    then have "sum_long f c v w = v\<lparr>abits := ss @ [?s AND low_mask ?t]\<rparr>"
      unfolding sum_long_def Let_def sw m using False by simp
    then show ?thesis using masked_tail [OF assms(4) False lss, of ?s] tb lss lv False unfolding e
      by (intro exI [of _ "ss @ [?s AND low_mask ?t]"]) simp
  qed
qed

lemma sum_long_unknown:
  assumes "wf_vec v" "wf_vec w" "vsize v = vsize w" "vsize v > 64" "\<not> (known_vec v \<and> known_vec w)"
  shows "sum_long f c v w = x_out v"
proof -
  let ?k = "vsize v div 64" and ?t = "vsize v mod 64"
  note lv = long_words [OF assms(1,4)] and lw = long_words [OF assms(2), unfolded assms(3) [symmetric], OF assms(4)]
  have m: "NOT (push_bit ?t (- 1)) = low_mask ?t" by (simp add: low_mask_eq)
  have "length (take ?k (zip (abits v) (bbits v))) = length (take ?k (zip (abits w) (bbits w)))" using lv lw by auto
  note sw = sum_words_ripple [OF this, of f c]
  have or0: "(bbits v ! ?k OR bbits w ! ?k) AND low_mask ?t = 0 \<longleftrightarrow>
      bbits v ! ?k AND low_mask ?t = 0 \<and> bbits w ! ?k AND low_mask ?t = 0"
    unfolding bit.conj_disj_distrib2 or_eq_0_iff ..
  have "\<not> (list_all (\<lambda>(a, b). b = 0) (take ?k (zip (abits v) (bbits v))) \<and>
      list_all (\<lambda>(a, b). b = 0) (take ?k (zip (abits w) (bbits w)))) \<or>
      (?t \<noteq> 0 \<and> (bbits v ! ?k OR bbits w ! ?k) AND low_mask ?t \<noteq> 0)"
    using long_known [OF assms(1,4)] long_known [OF assms(2)] assms(3-5) unfolding or0 by auto
  then show ?thesis unfolding sum_long_def Let_def sw m by (auto split: prod.splits)
qed

lemma take_bit_cong:
  fixes a b x y :: int
  assumes "a = take_bit n x" "b = take_bit n y"
  shows "take_bit n (x + y) = take_bit n (a + b)" "take_bit n (x - y) = take_bit n (a - b)" "take_bit n (x * y) = take_bit n (a * b)"
  using assms by (simp_all add: take_bit_eq_mod mod_simps)

lemma vec_vals:
  assumes "wf_vec v" "wf_vec w" "vsize v = vsize w" "known_vec v" "known_vec w"
  shows "bits_val (vec_bits v) = take_bit (vsize v) (words_val (abits v))"
    "bits_val (vec_bits w) = take_bit (vsize v) (words_val (abits w))"
  using known_vec_val [OF assms(1,4)] known_vec_val [OF assms(2,5)] assms(3) by simp_all

lemma v4_add_result:
  assumes "wf_vec v" "wf_vec w" "vsize v = vsize w"
  shows "\<exists>r. v4_add v w = Some r \<and> arith_result (bits_val (vec_bits v) + bits_val (vec_bits w)) v w r"
proof (cases "vsize v \<le> 64")
  case True
  have "arith_result (bits_val (vec_bits v) + bits_val (vec_bits w)) v w (word_op (+) v w)"
    by (rule word_op_result [OF assms True]) (simp_all add: uint_word_ariths take_bit_eq_mod mod_simps)
  then show ?thesis using assms(3) True by (simp add: v4_add_def)
next
  case False
  have "arith_result (bits_val (vec_bits v) + bits_val (vec_bits w)) v w (sum_long (\<lambda>a. a) 0 v w)"
  proof (cases "known_vec v \<and> known_vec w")
    case True
    obtain ws where "sum_long (\<lambda>a. a) 0 v w = v\<lparr>abits := ws\<rparr>" "length ws = length (abits v)"
        "take_bit (vsize v) (words_val ws) = take_bit (vsize v) (words_val (abits v) + words_val (abits w))"
      using sum_long_known [OF assms _ _ conjunct1 [OF True] conjunct2 [OF True], of 0 "\<lambda>a. a"] False by auto
    then show ?thesis using True take_bit_cong(1) [OF vec_vals [OF assms]] by (auto intro!: arith_resultI [OF assms(1)])
  next
    case nk: False
    then show ?thesis using sum_long_unknown [OF assms _ nk] x_out_result [OF assms(1) _ nk] False by simp
  qed
  then show ?thesis using assms(3) False by (simp add: v4_add_def)
qed

lemma uint_NOT: "uint (NOT w :: 64 word) = 2 ^ 64 - 1 - uint w"
proof -
  have "NOT w = - 1 - w" by (simp add: not_eq_complement)
  then have "uint (NOT w) = (2 ^ 64 - 1 - uint w) mod 2 ^ 64" by (simp add: uint_word_ariths mod_simps)
  also have "\<dots> = 2 ^ 64 - 1 - uint w"
  proof (rule mod_pos_pos_trivial)
    show "2 ^ 64 - 1 - uint w < 2 ^ 64" using uint_nonnegative [of w] by linarith
  qed (use uint_below [of w] in simp)
  finally show ?thesis .
qed

lemma words_val_not: "words_val (map (\<lambda>a. NOT a) ws) = 2 ^ (64 * length ws) - 1 - words_val ws"
  by (induction ws) (simp_all add: uint_NOT power_add algebra_simps)

lemma v4_sub_result:
  assumes "wf_vec v" "wf_vec w" "vsize v = vsize w"
  shows "\<exists>r. v4_sub v w = Some r \<and> arith_result (bits_val (vec_bits v) - bits_val (vec_bits w)) v w r"
proof (cases "vsize v \<le> 64")
  case True
  have "arith_result (bits_val (vec_bits v) - bits_val (vec_bits w)) v w (word_op (-) v w)"
    by (rule word_op_result [OF assms True]) (simp_all add: uint_word_ariths take_bit_eq_mod mod_simps)
  then show ?thesis using assms(3) True by (simp add: v4_sub_def)
next
  case False
  let ?n = "vsize v" and ?L = "64 * length (abits w)"
  have "arith_result (bits_val (vec_bits v) - bits_val (vec_bits w)) v w (sum_long (\<lambda>a. NOT a) 1 v w)"
  proof (cases "known_vec v \<and> known_vec w")
    case True
    obtain ws where ws: "sum_long (\<lambda>a. NOT a) 1 v w = v\<lparr>abits := ws\<rparr>" "length ws = length (abits v)"
        "take_bit ?n (words_val ws) = take_bit ?n (words_val (abits v) + words_val (map (\<lambda>a. NOT a) (abits w)) + 1)"
      using sum_long_known [OF assms _ _ conjunct1 [OF True] conjunct2 [OF True], of 1 "\<lambda>a. NOT a"] False by auto
    have "(2 :: int) ^ ?n dvd 2 ^ ?L" using stored_covers [of ?n] assms(2,3) by (intro le_imp_power_dvd) (simp add: wf_vec_def)
    then have "((words_val (abits v) - words_val (abits w)) + 2 ^ ?L) mod 2 ^ ?n = (words_val (abits v) - words_val (abits w)) mod 2 ^ ?n"
      by (metis mod_add_right_eq dvd_imp_mod_0 add.right_neutral)
    then have "take_bit ?n (words_val ws) = take_bit ?n (words_val (abits v) - words_val (abits w))"
      unfolding ws(3) words_val_not by (simp add: take_bit_eq_mod algebra_simps)
    then show ?thesis using ws(1,2) True take_bit_cong(2) [OF vec_vals [OF assms]] by (auto intro!: arith_resultI [OF assms(1)])
  next
    case nk: False
    then show ?thesis using sum_long_unknown [OF assms _ nk] x_out_result [OF assms(1) _ nk] False by simp
  qed
  then show ?thesis using assms(3) False by (simp add: v4_sub_def)
qed

section \<open>Long multiplication\<close>

lemma words_val_bound: "words_val ws < 2 ^ (64 * length ws)"
  using ulong_adder.string_range [of ws] by (simp add: words_val_def power_mult list_all_iff)

lemma words_low_high:
  "words_val vs + 2 ^ (64 * length vs) * (x mod 2 ^ (64 * m)) =
   (words_val vs + 2 ^ (64 * length vs) * x) mod 2 ^ (64 * (length vs + m))"
  using mod_low_high [OF words_val_nonneg words_val_bound, of vs "64 * (length vs + m)" x] by simp

lemma add_chain_value:
  "c \<le> 1 \<Longrightarrow> words_val (add_chain rs hi c) = (words_val rs + uint hi + uint c) mod 2 ^ (64 * length rs)"
proof (induction rs arbitrary: hi c)
  case (Cons r rs)
  obtain s c' where s: "ulong_add_with_carry r hi c = (s, c')" by (cases "ulong_add_with_carry r hi c")
  note v = ulong_add_value [OF Cons.prems s]
  have "words_val (add_chain (r # rs) hi c) = uint s + 2 ^ 64 * ((words_val rs + uint c') mod 2 ^ (64 * length rs))"
    using Cons.IH [OF v(2), of 0] by (simp add: s)
  also have "\<dots> = (uint s + 2 ^ 64 * (words_val rs + uint c')) mod 2 ^ (64 * length (r # rs))"
    using words_low_high [of "[s]" "words_val rs + uint c'" "length rs"] by simp
  also have "uint s + 2 ^ 64 * (words_val rs + uint c') = words_val (r # rs) + uint hi + uint c"
    using v(1) by (simp add: algebra_simps)
  finally show ?case .
qed simp

lemma add_chain_length [simp]: "length (add_chain rs hi c) = length rs"
  by (induction rs arbitrary: hi c) (auto split: prod.splits)

lemma mul_step_length [simp]: "length (mul_step l r base res) = length res"
proof (cases "drop base res")
  case (Cons a list)
  then have "length res - base = Suc (length list)" by (metis length_drop length_Cons)
  then show ?thesis using Cons by (auto simp: mul_step_def split: prod.splits)
qed (auto simp: mul_step_def split: prod.splits)

lemma mul_step_value:
  assumes "base < length res"
  shows "words_val (mul_step l r base res) = (words_val res + 2 ^ (64 * base) * (uint l * uint r)) mod 2 ^ (64 * length res)"
proof -
  obtain tmp hi where m: "multiply_with_carry l r = (tmp, hi)" by (cases "multiply_with_carry l r")
  obtain x rs where d: "drop base res = x # rs" using assms by (cases "drop base res") auto
  obtain s c where s: "ulong_add_with_carry x tmp 0 = (s, c)" by (cases "ulong_add_with_carry x tmp 0")
  have v: "uint s + 2 ^ 64 * uint c = uint x + uint tmp" "c \<le> 1" using ulong_add_value [OF _ s] by auto
  have res: "res = take base res @ x # rs" using d by (metis append_take_drop_id)
  have lb: "length (take base res) = base" using assms by simp
  have len: "length res = base + Suc (length rs)" using assms d by (metis lb length_append length_Cons res)
  have "words_val (s # add_chain rs hi c) = (uint s + 2 ^ 64 * (words_val rs + uint hi + uint c)) mod 2 ^ (64 * Suc (length rs))"
    using words_low_high [of "[s]" _ "length rs"] add_chain_value [OF v(2), of rs hi] by simp
  also have "uint s + 2 ^ 64 * (words_val rs + uint hi + uint c) = words_val (x # rs) + uint l * uint r"
    using v(1) multiply_with_carry_value [OF m] by (simp add: algebra_simps)
  finally have "words_val (mul_step l r base res) = words_val (take base res) +
      2 ^ (64 * length (take base res)) * ((words_val (x # rs) + uint l * uint r) mod 2 ^ (64 * Suc (length rs)))"
    by (simp only: mul_step_def m d s prod.case list.case words_val_append)
  also have "\<dots> = (words_val (take base res) + 2 ^ (64 * length (take base res)) * (words_val (x # rs) + uint l * uint r))
      mod 2 ^ (64 * length res)"
    using words_low_high [of "take base res" "words_val (x # rs) + uint l * uint r" "Suc (length rs)"] by (simp only: lb len)
  also have "words_val (take base res) + 2 ^ (64 * length (take base res)) * (words_val (x # rs) + uint l * uint r) =
      words_val res + 2 ^ (64 * base) * (uint l * uint r)"
  proof -
    have "words_val res = words_val (take base res) + 2 ^ (64 * base) * words_val (x # rs)"
      using words_val_append [of "take base res" "x # rs"] by (simp only: lb res [symmetric])
    then show ?thesis by (simp only: lb distrib_left add.assoc)
  qed
  finally show ?thesis .
qed

lemma words_val_take_Suc:
  "k < length ws \<Longrightarrow> words_val (take (Suc k) ws) = words_val (take k ws) + 2 ^ (64 * k) * uint (ws ! k)"
  by (simp add: take_Suc_conv_app_nth words_val_append)

lemma mul_row:
  assumes "length bs = length res" "a + k \<le> length res"
  shows "length (fold (\<lambda>b res. mul_step x (bs ! b) (a + b) res) [0..<k] res) = length res \<and>
    words_val (fold (\<lambda>b res. mul_step x (bs ! b) (a + b) res) [0..<k] res) mod 2 ^ (64 * length res) =
     (words_val res + 2 ^ (64 * a) * (uint x * words_val (take k bs))) mod 2 ^ (64 * length res)"
  using assms(2)
proof (induction k)
  case (Suc k)
  let ?f = "fold (\<lambda>b res. mul_step x (bs ! b) (a + b) res) [0..<k] res" and ?N = "2 ^ (64 * length res) :: int"
  have IH: "length ?f = length res" "words_val ?f mod ?N = (words_val res + 2 ^ (64 * a) * (uint x * words_val (take k bs))) mod ?N"
    using Suc by auto
  have "words_val (mul_step x (bs ! k) (a + k) ?f) = (words_val ?f + 2 ^ (64 * (a + k)) * (uint x * uint (bs ! k))) mod ?N"
    using mul_step_value [of "a + k" ?f] IH(1) Suc.prems by simp
  also have "\<dots> = (words_val res + 2 ^ (64 * a) * (uint x * words_val (take k bs)) + 2 ^ (64 * (a + k)) * (uint x * uint (bs ! k))) mod ?N"
    by (rule mod_add_cong [OF IH(2) refl])
  also have "words_val res + 2 ^ (64 * a) * (uint x * words_val (take k bs)) + 2 ^ (64 * (a + k)) * (uint x * uint (bs ! k)) =
      words_val res + 2 ^ (64 * a) * (uint x * words_val (take (Suc k) bs))"
  proof -
    have "(2 :: int) ^ (64 * (a + k)) = 2 ^ (64 * a) * 2 ^ (64 * k)" by (simp only: distrib_left power_add)
    moreover have "words_val (take (Suc k) bs) = words_val (take k bs) + 2 ^ (64 * k) * uint (bs ! k)"
      using Suc.prems assms(1) by (simp add: words_val_take_Suc)
    ultimately show ?thesis by (simp only: distrib_left mult.assoc mult.left_commute add.assoc)
  qed
  finally show ?case using IH(1) by simp
qed simp

lemma take_words_mod:
  assumes "length bs = cnt" "a \<le> cnt"
  shows "2 ^ (64 * a) * words_val (take (cnt - a) bs) mod 2 ^ (64 * cnt) = 2 ^ (64 * a) * words_val bs mod 2 ^ (64 * cnt)"
proof -
  have "words_val bs = words_val (take (cnt - a) bs) + 2 ^ (64 * (cnt - a)) * words_val (drop (cnt - a) bs)"
    using words_val_append [of "take (cnt - a) bs" "drop (cnt - a) bs"] assms by simp
  moreover have "(2 :: int) ^ (64 * a) * 2 ^ (64 * (cnt - a)) = 2 ^ (64 * cnt)"
    using assms(2) by (simp flip: power_add)
  ultimately have "2 ^ (64 * a) * words_val bs = 2 ^ (64 * a) * words_val (take (cnt - a) bs) + 2 ^ (64 * cnt) * words_val (drop (cnt - a) bs)"
    by (simp add: algebra_simps)
  then show ?thesis by simp
qed

lemma mod_add_mult: "(x + p * (u * t)) mod N = (x mod N + u * (p * t mod N)) mod (N :: int)"
proof (rule mod_add_cong)
  show "p * (u * t) mod N = u * (p * t mod N) mod N" by (metis mod_mult_right_eq mult.left_commute)
qed simp

lemma mul_words_value:
  assumes "length as = cnt" "length bs = cnt"
  shows "length (mul_words cnt as bs) = cnt \<and>
    words_val (mul_words cnt as bs) mod 2 ^ (64 * cnt) = (words_val as * words_val bs) mod 2 ^ (64 * cnt)"
proof -
  let ?row = "\<lambda>a res. fold (\<lambda>b res. mul_step (as ! a) (bs ! b) (a + b) res) [0..<cnt - a] res" and ?N = "2 ^ (64 * cnt) :: int"
  have "length (fold ?row [0..<k] (replicate cnt 0)) = cnt \<and>
      words_val (fold ?row [0..<k] (replicate cnt 0)) mod ?N = (words_val (take k as) * words_val bs) mod ?N" if "k \<le> cnt" for k
    using that
  proof (induction k)
    case 0
    have "words_val (replicate m 0) = 0" for m by (induction m) simp_all
    then show ?case by simp
  next
    case (Suc k)
    let ?f = "fold ?row [0..<k] (replicate cnt 0)"
    have IH: "length ?f = cnt" "words_val ?f mod ?N = (words_val (take k as) * words_val bs) mod ?N" using Suc by auto
    have "(words_val ?f + 2 ^ (64 * k) * (uint (as ! k) * words_val (take (cnt - k) bs))) mod ?N =
        (words_val ?f mod ?N + uint (as ! k) * (2 ^ (64 * k) * words_val (take (cnt - k) bs) mod ?N)) mod ?N"
      by (rule mod_add_mult)
    also have "\<dots> = (words_val (take k as) * words_val bs + uint (as ! k) * (2 ^ (64 * k) * words_val bs)) mod ?N"
    proof (rule mod_add_cong)
      show "uint (as ! k) * (2 ^ (64 * k) * words_val (take (cnt - k) bs) mod ?N) mod ?N = uint (as ! k) * (2 ^ (64 * k) * words_val bs) mod ?N"
        by (simp only: take_words_mod [OF assms(2) Suc_leD [OF Suc.prems]] mod_mult_right_eq)
    qed (simp add: IH(2))
    also have "words_val (take k as) * words_val bs + uint (as ! k) * (2 ^ (64 * k) * words_val bs) = words_val (take (Suc k) as) * words_val bs"
      using Suc.prems assms(1) by (simp add: words_val_take_Suc algebra_simps)
    finally show ?case using mul_row [of bs ?f k "cnt - k" "as ! k"] IH(1) Suc.prems assms(2) by simp
  qed
  from this [of cnt] show ?thesis using assms(1) by (simp add: mul_words_def)
qed

lemma masked_words_bit:
  assumes "length ws = word_count (vsize v)" "vsize v > 64" "i < vsize v"
  shows "bit (masked_words v ws ! (i div 64)) (i mod 64) \<longleftrightarrow> bit (ws ! (i div 64)) (i mod 64)"
proof -
  let ?n = "vsize v" and ?c = "word_count (vsize v)"
  have b: "i div 64 < ?c" using stored_bound [OF assms(3)] assms(2) by (simp add: stored_long)
  show ?thesis
  proof (cases "i div 64 = ?c - 1")
    case True
    then have "?n mod 64 \<noteq> 0 \<Longrightarrow> i mod 64 < ?n mod 64"
      using last_word_bits [OF assms(3)] by (simp add: word_count_alt)
    then show ?thesis using True b assms(1)
      by (auto simp: masked_words_def Let_def low_mask_eq bit_and_iff bit_mask_iff)
  qed (use b assms(1) in \<open>simp add: masked_words_def Let_def\<close>)
qed

lemma masked_words_length [simp]: "length (masked_words v ws) = length ws"
  by (simp add: masked_words_def Let_def)

lemma masked_words_value:
  assumes "length ws = word_count (vsize v)" "vsize v > 64"
  shows "take_bit (vsize v) (words_val (masked_words v ws)) = take_bit (vsize v) (words_val ws)"
proof (rule bit_eqI)
  fix i show "bit (take_bit (vsize v) (words_val (masked_words v ws))) i = bit (take_bit (vsize v) (words_val ws)) i"
    using masked_words_bit [OF assms, of i] by (auto simp: bit_take_bit_iff bit_words_val)
qed

lemma masked_known:
  assumes "wf_vec u" "vsize u = vsize v" "vsize v > 64"
  shows "known_vec u \<longleftrightarrow> (\<forall>i<word_count (vsize v). masked_words v (bbits u) ! i = 0)"
proof -
  let ?n = "vsize v" and ?c = "word_count (vsize v)"
  have len: "length (bbits u) = ?c" using assms by (simp add: wf_vec_def stored_long)
  have "known_vec u \<longleftrightarrow> (\<forall>i<?n. \<not> bit (masked_words v (bbits u) ! (i div 64)) (i mod 64))"
    using masked_words_bit [OF len assms(3)] assms(2) by (auto simp: known_vec_def)
  also have "\<dots> \<longleftrightarrow> (\<forall>k<?n div 64. masked_words v (bbits u) ! k = 0) \<and>
      (?n mod 64 \<noteq> 0 \<longrightarrow> masked_words v (bbits u) ! (?n div 64) AND low_mask (?n mod 64) = 0)"
    using words_agree [of ?n "(!) (masked_words v (bbits u))" "\<lambda>_. 0"] assms(3) by auto
  also have "\<dots> \<longleftrightarrow> (\<forall>i<?c. masked_words v (bbits u) ! i = 0)"
  proof (cases "?n mod 64 = 0")
    case False
    then have "?c = Suc (?n div 64)" by (simp add: word_count_alt)
    moreover have "masked_words v (bbits u) ! (?n div 64) AND low_mask (?n mod 64) = masked_words v (bbits u) ! (?n div 64)"
      using False len calculation by (simp add: masked_words_def Let_def low_mask_eq and.assoc)
    ultimately show ?thesis using False by (auto simp: less_Suc_eq)
  qed (simp add: word_count_alt)
  finally show ?thesis .
qed

lemma take_bit_less: "take_bit m x = take_bit m (y :: int) \<Longrightarrow> n \<le> m \<Longrightarrow> take_bit n x = take_bit n y"
  by (metis take_bit_take_bit min.absorb1)

lemma v4_mul_result:
  assumes "wf_vec v" "wf_vec w" "vsize v = vsize w"
  shows "\<exists>r. v4_mul v w = Some r \<and> arith_result (bits_val (vec_bits v) * bits_val (vec_bits w)) v w r"
proof (cases "vsize v \<le> 64")
  case True
  have "arith_result (bits_val (vec_bits v) * bits_val (vec_bits w)) v w (word_op (*) v w)"
    by (rule word_op_result [OF assms True]) (simp_all add: uint_word_ariths take_bit_eq_mod mod_simps)
  then show ?thesis using assms(3) True by (simp add: v4_mul_def)
next
  case False
  let ?n = "vsize v" and ?c = "word_count (vsize v)" and ?m = "masked_words v"
  let ?p = "mul_words ?c (?m (abits v)) (?m (abits w))"
  have n: "?n > 64" using False by simp
  have len: "length (abits v) = ?c" "length (abits w) = ?c" using assms n by (simp_all add: wf_vec_def stored_long)
  have test: "list_ex (\<lambda>i. ?m (bbits v) ! i \<noteq> 0 \<or> ?m (bbits w) ! i \<noteq> 0) [0..<?c] \<longleftrightarrow> \<not> (known_vec v \<and> known_vec w)"
    using masked_known [OF assms(1) refl n] masked_known [OF assms(2) assms(3) [symmetric] n] by (auto simp: list_ex_iff)
  show ?thesis
  proof (cases "known_vec v \<and> known_vec w")
    case True
    have cover: "?n \<le> 64 * ?c" using stored_covers [of ?n] n by (simp add: stored_long)
    have pl: "length ?p = ?c" and tb: "take_bit (64 * ?c) (words_val ?p) = take_bit (64 * ?c) (words_val (?m (abits v)) * words_val (?m (abits w)))"
      using mul_words_value [of "?m (abits v)" ?c "?m (abits w)"] len by (simp_all add: take_bit_eq_mod)
    have "take_bit ?n (words_val ?p) = take_bit ?n (words_val (?m (abits v)) * words_val (?m (abits w)))"
      by (rule take_bit_less [OF tb cover])
    also have "\<dots> = take_bit ?n (bits_val (vec_bits v) * bits_val (vec_bits w))"
      using take_bit_cong(3) [of "bits_val (vec_bits v)" ?n "words_val (?m (abits v))" "bits_val (vec_bits w)" "words_val (?m (abits w))"]
        vec_vals [OF assms] True masked_words_value [OF len(1) n] masked_words_value [OF len(2) n] by simp
    finally have "arith_result (bits_val (vec_bits v) * bits_val (vec_bits w)) v w (v\<lparr>abits := ?m ?p\<rparr>)"
      using True pl len masked_words_value [OF pl n] by (intro arith_resultI [OF assms(1)]) auto
    then show ?thesis using test True False assms(3) by (simp add: v4_mul_def Let_def)
  next
    case nk: False
    let ?x = "?m (replicate ?c (- 1))"
    have "bit (?x ! (i div 64)) (i mod 64)" if "i < ?n" for i
      using masked_words_bit [of "replicate ?c (- 1)" v i] that n stored_bound [OF that] by (simp add: stored_long)
    then have "arith_result (bits_val (vec_bits v) * bits_val (vec_bits w)) v w (v\<lparr>abits := ?x, bbits := ?x\<rparr>)"
      using n by (intro arith_result_x [OF nk]) (simp_all add: stored_long)
    then show ?thesis using test nk False assms(3) by (simp add: v4_mul_def Let_def)
  qed
qed

section \<open>Adding a native integer\<close>

definition bit4_num :: "vvp_bit4 \<Rightarrow> int" where
  "bit4_num b = of_bool (b = BIT4_1)"

lemma bits_val_simps [simp]:
  "bits_val [] = 0" "bits_val (b # bs) = bit4_num b + 2 * bits_val bs"
  by (simp_all add: bits_val_def bit4_num_def)

lemma bits_val_update:
  "i < length bs \<Longrightarrow> bits_val (bs[i := b]) = bits_val bs + 2 ^ i * (bit4_num b - bit4_num (bs ! i))"
proof (induction bs arbitrary: i)
  case (Cons c bs)
  show ?case
  proof (cases i)
    case (Suc k)
    then have "bits_val (bs[k := b]) = bits_val bs + 2 ^ k * (bit4_num b - bit4_num (bs ! k))" using Cons by simp
    then show ?thesis unfolding Suc by simp
  qed simp
qed simp

lemma bits_val_range: "0 \<le> bits_val bs" "bits_val bs < 2 ^ length bs"
proof -
  show "0 \<le> bits_val bs" by (induction bs) (simp_all add: bit4_num_def)
qed (use horner_sum_of_bool_2_less [of "map (\<lambda>b. b = BIT4_1) bs"] in \<open>simp add: bits_val_def\<close>)

lemma bit4_add_known:
  assumes "\<not> bit4_is_xz a" "\<not> bit4_is_xz b" "\<not> bit4_is_xz c"
  shows "\<exists>s c'. bit4_add_with_carry a b c = Some (s, c') \<and> \<not> bit4_is_xz s \<and> \<not> bit4_is_xz c' \<and>
    bit4_num s + 2 * bit4_num c' = bit4_num a + bit4_num b + bit4_num c"
proof -
  have "a \<noteq> BIT4_X \<Longrightarrow> a \<noteq> BIT4_Z \<Longrightarrow> b \<noteq> BIT4_X \<Longrightarrow> b \<noteq> BIT4_Z \<Longrightarrow> c \<noteq> BIT4_X \<Longrightarrow> c \<noteq> BIT4_Z \<Longrightarrow>
      bit4_add_with_carry a b c = Some (bit4_xor (bit4_xor a b) c, bit4_or (bit4_and a b) (bit4_and c (bit4_or a b)))"
    by (cases a; cases b; cases c; hypsubst; (simp only: simp_thms; fail)?; code_simp)
  then show ?thesis using assms
    by (cases a; cases b; cases c) (simp_all add: bit4_logic.tables bit4_num_def)
qed

lemma plus_loop_value:
  assumes "wf_vec v" "known_vec v" "idx + todo = vsize v" "\<not> bit4_is_xz carry"
  shows "\<exists>r. plus_loop todo idx that carry v = Some r \<and> wf_vec r \<and> known_vec r \<and> vsize r = vsize v \<and>
    bits_val (vec_bits r) mod 2 ^ vsize v = (bits_val (vec_bits v) + 2 ^ idx * (that + bit4_num carry)) mod 2 ^ vsize v"
  using assms
proof (induction todo arbitrary: idx that carry v)
  case (Suc todo)
  let ?N = "2 ^ vsize v :: int" and ?b = "if odd that then BIT4_1 else BIT4_0"
  have that: "that = bit4_num ?b + 2 * (that div 2)" by (auto simp: bit4_num_def elim: oddE)
  have idx: "idx < vsize v" "Suc idx + todo = vsize v" using Suc.prems by auto
  consider (stop) "that = 0" "carry = BIT4_0" | (skip) "\<not> (that = 0 \<and> carry = BIT4_0)" "?b = BIT4_0" "carry = BIT4_0"
    | (add) "\<not> (that = 0 \<and> carry = BIT4_0)" "\<not> (?b = BIT4_0 \<and> carry = BIT4_0)" by blast
  then show ?case
  proof cases
    case stop
    then show ?thesis using Suc.prems by (simp add: bit4_num_def)
  next
    case skip
    then have "plus_loop (Suc todo) idx that carry v = plus_loop todo (Suc idx) (that div 2) carry v" by (auto simp: Let_def)
    moreover have "2 ^ Suc idx * (that div 2 + bit4_num carry) = 2 ^ idx * (that + bit4_num carry)"
      using skip that by (subst (2) that) (simp add: bit4_num_def)
    ultimately show ?thesis
      using Suc.IH [OF Suc.prems(1,2) idx(2) Suc.prems(4), of "that div 2"] by (simp only:)
  next
    case add
    have "\<not> bit4_is_xz (v4_value v idx)" "\<not> bit4_is_xz ?b"
      using Suc.prems(2) idx(1) by (auto simp: known_vec_bits vec_bits_def)
    then obtain s c' where s: "bit4_add_with_carry (v4_value v idx) ?b carry = Some (s, c')" "\<not> bit4_is_xz s" "\<not> bit4_is_xz c'"
        "bit4_num s + 2 * bit4_num c' = bit4_num (v4_value v idx) + bit4_num ?b + bit4_num carry"
      using bit4_add_known [OF _ _ Suc.prems(4)] by blast
    obtain v' where v': "v4_set_bit v idx s = Some v'" "wf_vec v'" "vec_bits v' = (vec_bits v)[idx := s]"
      using v4_set_bit_bits [OF Suc.prems(1) idx(1)] by blast
    have n': "vsize v' = vsize v" using v'(3) by (metis vec_bits_length length_list_update)
    have "known_vec v'" using Suc.prems(2) s(2) by (auto simp: known_vec_bits v'(3) dest!: set_update_subset_insert [THEN subsetD])
    moreover have "plus_loop (Suc todo) idx that carry v = plus_loop todo (Suc idx) (that div 2) c' v'"
      using add s(1) v'(1) by (auto simp: Let_def)
    moreover have "bits_val (vec_bits v') + 2 ^ Suc idx * (that div 2 + bit4_num c') = bits_val (vec_bits v) + 2 ^ idx * (that + bit4_num carry)"
    proof -
      have upd: "bits_val (vec_bits v') = bits_val (vec_bits v) + 2 ^ idx * (bit4_num s - bit4_num (v4_value v idx))"
        using idx(1) by (simp add: v'(3) bits_val_update vec_bits_nth)
      have "S = V + B + K - 2 * C \<Longrightarrow> t = B + 2 * q \<Longrightarrow> X' = X + p * (S - V) \<Longrightarrow> X' + 2 * p * (q + C) = X + p * (t + K)"
        for S C V B K t q X X' p :: int by hypsubst (simp add: algebra_simps)
      from this [OF _ that upd, of "bit4_num carry" "bit4_num c'"] s(4) show ?thesis by simp
    qed
    ultimately show ?thesis
      using Suc.IH [of v' "Suc idx" c' "that div 2"] v'(2) s(3) idx(2) by (simp only: n' simp_thms)
  qed
qed simp

lemma v4_plus_int_result:
  assumes "wf_vec v" "vsize v > 0"
  shows "\<exists>r. v4_plus_int v i = Some r \<and> arith_result (bits_val (vec_bits v) + sint i) v v r"
proof -
  have xz: "has_xz v = Some (\<not> known_vec v)"
    using has_xz_bits [OF assms(2)] by (auto simp: known_vec_bits)
  show ?thesis
  proof (cases "known_vec v")
    case True
    obtain r where r: "plus_loop (vsize v) 0 (sint i) BIT4_0 v = Some r" "wf_vec r" "known_vec r" "vsize r = vsize v"
        "bits_val (vec_bits r) mod 2 ^ vsize v = (bits_val (vec_bits v) + sint i) mod 2 ^ vsize v"
      using plus_loop_value [OF assms(1) True, of 0 "vsize v" BIT4_0 "sint i"] by (auto simp: bit4_num_def)
    then have "bits_val (vec_bits r) = (bits_val (vec_bits v) + sint i) mod 2 ^ vsize v"
      using bits_val_range [of "vec_bits r"] by simp
    then show ?thesis using xz r True by (simp add: v4_plus_int_def arith_result_def)
  next
    case False
    then show ?thesis using xz
      by (simp add: v4_plus_int_def arith_result_def vector4_fill_bits) (simp add: vector4_fill_def)
  qed
qed

end
