(* ===== verification/Vvp_Slice.thy ===== *)
theory Vvp_Slice
  imports Vvp_Arith4
begin

text \<open>
  Part selects and transfers of packed vectors (vvp/vvp_net.cc): the subvalue constructor,
  \<open>set_vec\<close>, \<open>resize\<close>, \<open>setarray\<close>, \<open>subarray\<close> and \<open>copy_bits\<close>. The a-bits and the b-bits go through
  the same shifts and masks and never meet, so each routine is a function on one word array that
  the vector operation applies to both. The theorems say that the shifting and masking moves
  exactly the bits of the part.
\<close>

section \<open>Writing a part of a word array\<close>

text \<open>The pattern \<^verbatim>\<open>if ((w & mask) != tmp) { diff_flag = true; w = (w & ~mask) | tmp; }\<close>.\<close>

definition set_masked :: "nat \<Rightarrow> 64 word \<Rightarrow> 64 word \<Rightarrow> 64 word list \<times> bool \<Rightarrow> 64 word list \<times> bool" where
  "set_masked d msk tmp S =
     (case S of (ws, diff) \<Rightarrow>
        if ws ! d AND msk \<noteq> tmp then (ws[d := (ws ! d AND NOT msk) OR tmp], True) else (ws, diff))"

text \<open>The mask of the bits from \<open>lo\<close> to below \<open>hi\<close> of a word, as \<open>set_vec\<close> makes it.\<close>

definition part_mask :: "nat \<Rightarrow> nat \<Rightarrow> 64 word" where
  "part_mask lo hi = (if hi \<ge> 64 then - 1 else low_mask hi) AND NOT (low_mask lo)"

fun set_aligned :: "nat \<Rightarrow> nat \<Rightarrow> nat \<Rightarrow> 64 word list \<Rightarrow> 64 word list \<times> bool \<Rightarrow> 64 word list \<times> bool" where
  "set_aligned remain sptr dptr src S =
     (if remain \<ge> 64 then set_aligned (remain - 64) (sptr + 1) (dptr + 1) src (set_masked dptr (- 1) (src ! sptr) S)
      else if remain > 0 then set_masked dptr (low_mask remain) (src ! sptr AND low_mask remain) S
      else S)"

fun set_unaligned :: "nat \<Rightarrow> nat \<Rightarrow> nat \<Rightarrow> nat \<Rightarrow> 64 word list \<Rightarrow> 64 word list \<times> bool \<Rightarrow> 64 word list \<times> bool" where
  "set_unaligned doff remain sptr dptr src S =
     (let lmask = low_mask doff; ndoff = 64 - doff
      in if remain \<ge> 64
         then set_unaligned doff (remain - 64) (sptr + 1) (dptr + 1) src
                (set_masked (dptr + 1) lmask (drop_bit ndoff (src ! sptr) AND lmask)
                  (set_masked dptr (NOT lmask) (push_bit doff (src ! sptr) AND NOT lmask) S))
         else if remain > 0
         then let msk = part_mask doff (doff + remain);
                  S' = set_masked dptr msk (push_bit doff (src ! sptr) AND msk) S
              in if doff + remain > 64
                 then let tail = doff + remain - 64; tmask = (if tail \<ge> 64 then - 1 else low_mask tail)
                      in set_masked (dptr + 1) tmask (drop_bit (remain - tail) (src ! sptr) AND tmask) S'
                 else S'
         else S)"

declare set_aligned.simps [simp del] set_unaligned.simps [simp del]

text \<open>One array of \<open>set_vec\<close>: \<open>n\<close> and \<open>m\<close> are the sizes of the destination and of the source.\<close>

definition set_vec_words :: "nat \<Rightarrow> nat \<Rightarrow> nat \<Rightarrow> 64 word list \<Rightarrow> 64 word list \<Rightarrow> 64 word list \<times> bool" where
  "set_vec_words n m adr src dst =
     (if n \<le> 64
      then let msk = part_mask adr (adr + m) in set_masked 0 msk (push_bit adr (src ! 0) AND msk) (dst, False)
      else let dptr = adr div 64; doff = adr mod 64
           in if m \<le> 64
              then let msk = part_mask doff (doff + m);
                       S = set_masked dptr msk (push_bit doff (src ! 0) AND msk) (dst, False)
                   in if doff + m > 64
                      then let tail = doff + m - 64; tmask = low_mask tail
                           in set_masked (dptr + 1) tmask (drop_bit (m - tail) (src ! 0) AND tmask) S
                      else S
              else if doff = 0 then set_aligned m 0 dptr src (dst, False)
              else set_unaligned doff m 0 dptr src (dst, False))"

text \<open>\<open>None\<close> is the failed assertion, and for an empty source at the end of the vector the shift by 64
  or the access beyond the array.\<close>

definition v4_set_vec :: "vvp_vector4 \<Rightarrow> nat \<Rightarrow> vvp_vector4 \<Rightarrow> (vvp_vector4 \<times> bool) option" where
  "v4_set_vec v adr that =
     (let n = vsize v; m = vsize that
      in if adr + m > n then None
         else if (if n \<le> 64 then adr \<ge> 64 else m = 0 \<and> adr div 64 \<ge> word_count n) then None
         else case set_vec_words n m adr (abits that) (abits v) of (a, da) \<Rightarrow>
              case set_vec_words n m adr (bbits that) (bbits v) of (b, db) \<Rightarrow>
                Some (v\<lparr>abits := a, bbits := b\<rparr>, da \<or> db))"

definition wbit :: "64 word list \<Rightarrow> nat \<Rightarrow> bool" where
  "wbit ws i = bit (ws ! (i div 64)) (i mod 64)"

text \<open>The state of a transfer into the bits from \<open>lo\<close> on that has reached bit \<open>hi\<close>.\<close>

definition written :: "nat \<Rightarrow> nat \<Rightarrow> (nat \<Rightarrow> bool) \<Rightarrow> 64 word list \<Rightarrow> 64 word list \<times> bool \<Rightarrow> bool" where
  "written lo hi src ws0 S \<longleftrightarrow> length (fst S) = length ws0 \<and>
     (\<forall>i<64 * length ws0. wbit (fst S) i = (if lo \<le> i \<and> i < hi then src (i - lo) else wbit ws0 i)) \<and>
     (snd S \<longleftrightarrow> (\<exists>i. lo \<le> i \<and> i < hi \<and> wbit ws0 i \<noteq> src (i - lo)))"

lemma written_start: "written lo lo src ws0 (ws0, False)"
  by (auto simp: written_def)

lemma word_eq_bits: "(v :: 64 word) = w \<longleftrightarrow> (\<forall>j<64. bit v j = bit w j)"
  by (auto intro: bit_word_eqI)

lemma wbit_split: "j < 64 \<Longrightarrow> wbit ws (64 * d + j) = bit (ws ! d) j"
  by (simp add: wbit_def)

lemma position_split: "\<exists>d j. i = 64 * d + j \<and> j < (64 :: nat)"
  by (intro exI [of _ "i div 64"] exI [of _ "i mod 64"]) simp

lemma set_masked_step:
  assumes w: "written lo m src ws0 S" and le: "lo \<le> m" "m \<le> m'" "64 * d \<le> m" "m' \<le> 64 * d + 64" "d < length ws0"
    and msk: "\<And>j. j < 64 \<Longrightarrow> bit msk j \<longleftrightarrow> m \<le> 64 * d + j \<and> 64 * d + j < m'"
    and tmp: "\<And>j. j < 64 \<Longrightarrow> bit tmp j \<longleftrightarrow> bit msk j \<and> src (64 * d + j - lo)"
  shows "written lo m' src ws0 (set_masked d msk tmp S)"
proof -
  obtain ws diff where S: "S = (ws, diff)" by (cases S)
  have len: "length ws = length ws0"
    and wb: "\<And>i. i < 64 * length ws0 \<Longrightarrow> wbit ws i = (if lo \<le> i \<and> i < m then src (i - lo) else wbit ws0 i)"
    and df: "diff \<longleftrightarrow> (\<exists>i. lo \<le> i \<and> i < m \<and> wbit ws0 i \<noteq> src (i - lo))"
    using w by (auto simp: written_def S)
  have old: "bit (ws ! d) j = wbit ws0 (64 * d + j)" if "j < 64" "m \<le> 64 * d + j" for j
    using wb [of "64 * d + j"] that le(5) by (simp add: wbit_split)
  have differ: "ws ! d AND msk \<noteq> tmp \<longleftrightarrow> (\<exists>i. m \<le> i \<and> i < m' \<and> wbit ws0 i \<noteq> src (i - lo))"
  proof -
    have "ws ! d AND msk \<noteq> tmp \<longleftrightarrow> (\<exists>j<64. m \<le> 64 * d + j \<and> 64 * d + j < m' \<and> wbit ws0 (64 * d + j) \<noteq> src (64 * d + j - lo))"
      using old by (auto simp: word_eq_bits bit_and_iff tmp msk)
    also have "\<dots> \<longleftrightarrow> (\<exists>i. m \<le> i \<and> i < m' \<and> wbit ws0 i \<noteq> src (i - lo))"
    proof
      assume "\<exists>i. m \<le> i \<and> i < m' \<and> wbit ws0 i \<noteq> src (i - lo)"
      then obtain i where i: "m \<le> i" "i < m'" "wbit ws0 i \<noteq> src (i - lo)" by blast
      then have "i = 64 * d + (i - 64 * d)" "i - 64 * d < 64" using le by auto
      then show "\<exists>j<64. m \<le> 64 * d + j \<and> 64 * d + j < m' \<and> wbit ws0 (64 * d + j) \<noteq> src (64 * d + j - lo)"
        using i by metis
    qed blast
    finally show ?thesis .
  qed
  have bits: "wbit (ws[d := (ws ! d AND NOT msk) OR tmp]) i = (if lo \<le> i \<and> i < m' then src (i - lo) else wbit ws0 i)"
    if "i < 64 * length ws0" for i
  proof -
    obtain e j where i: "i = 64 * e + j" "j < 64" using position_split [of i] by blast
    show ?thesis
    proof (cases "e = d")
      case True
      then show ?thesis using i wb [OF that] le tmp [of j] msk [of j]
        by (auto simp: wbit_split bit_or_iff bit_and_iff bit_not_iff len)
    next
      case False
      then have "\<not> (m \<le> i \<and> i < m')" using i le by auto
      then show ?thesis using False wb [OF that] i le by (auto simp: wbit_split)
    qed
  qed
  show ?thesis
  proof (cases "ws ! d AND msk \<noteq> tmp")
    case True
    then have "\<exists>i. lo \<le> i \<and> i < m' \<and> wbit ws0 i \<noteq> src (i - lo)" using differ le(1) by (meson le_trans)
    then show ?thesis using True bits len by (simp add: written_def S set_masked_def)
  next
    case False
    then have same: "\<And>i. m \<le> i \<Longrightarrow> i < m' \<Longrightarrow> wbit ws0 i = src (i - lo)" using differ by auto
    have "diff \<longleftrightarrow> (\<exists>i. lo \<le> i \<and> i < m' \<and> wbit ws0 i \<noteq> src (i - lo))" unfolding df using same le
      by (metis less_le_trans not_le)
    then show ?thesis using False wb same len le by (auto simp: written_def S set_masked_def)
  qed
qed

lemma bit_part_mask: "j < 64 \<Longrightarrow> bit (part_mask lo hi) j \<longleftrightarrow> lo \<le> j \<and> j < hi"
  by (auto simp: part_mask_def bit_and_iff bit_not_iff)

text \<open>All the stores of \<open>set_vec\<close> are instances of one: \<open>k\<close> bits of the word \<open>w\<close> to the position
  \<open>doff\<close> of word \<open>d\<close>, the part that does not fit going to the next word.\<close>

definition put_word :: "nat \<Rightarrow> nat \<Rightarrow> nat \<Rightarrow> 64 word \<Rightarrow> 64 word list \<times> bool \<Rightarrow> 64 word list \<times> bool" where
  "put_word d doff k w S =
     (let msk = part_mask doff (doff + k); S' = set_masked d msk (push_bit doff w AND msk) S
      in if doff + k > 64
         then let tmask = low_mask (doff + k - 64) in set_masked (d + 1) tmask (drop_bit (64 - doff) w AND tmask) S'
         else S')"

lemma put_word_written:
  assumes w: "written lo p src ws0 S" and p: "p = 64 * d + doff" "doff < 64" "lo \<le> p" "p + k \<le> 64 * length ws0"
    and k: "0 < k" "k \<le> 64" "\<And>i. i < k \<Longrightarrow> src (p - lo + i) = bit w i"
  shows "written lo (p + k) src ws0 (put_word d doff k w S)"
proof -
  let ?msk = "part_mask doff (doff + k)" and ?h = "min (p + k) (64 * d + 64)"
  let ?S = "set_masked d ?msk (push_bit doff w AND ?msk) S"
  have read: "src (64 * d + j - lo) = bit w (j - doff)" if "doff \<le> j" "j < doff + k" for j
    using k(3) [of "j - doff"] that p by (simp add: algebra_simps)
  have one: "written lo ?h src ws0 ?S"
  proof (rule set_masked_step [OF w p(3)])
    fix j :: nat assume j: "j < 64"
    then show "bit ?msk j \<longleftrightarrow> p \<le> 64 * d + j \<and> 64 * d + j < ?h"
      using p by (auto simp: bit_part_mask)
    show "bit (push_bit doff w AND ?msk) j \<longleftrightarrow> bit ?msk j \<and> src (64 * d + j - lo)"
      using j read [of j] by (auto simp: bit_part_mask bit_and_iff bit_push_bit_iff)
  qed (use p k in auto)
  show ?thesis
  proof (cases "doff + k > 64")
    case True
    let ?t = "low_mask (doff + k - 64)"
    have "written lo (p + k) src ws0 (set_masked (d + 1) ?t (drop_bit (64 - doff) w AND ?t) ?S)"
    proof (rule set_masked_step [OF one])
      fix j :: nat assume j: "j < 64"
      then show "bit ?t j \<longleftrightarrow> ?h \<le> 64 * (d + 1) + j \<and> 64 * (d + 1) + j < p + k"
        using True p by auto
      show "bit (drop_bit (64 - doff) w AND ?t) j \<longleftrightarrow> bit ?t j \<and> src (64 * (d + 1) + j - lo)"
        using j read [of "64 + j"] True p by (auto simp: bit_and_iff bit_drop_bit_eq algebra_simps)
    qed (use True p k in auto)
    then show ?thesis using True by (simp add: put_word_def Let_def)
  next
    case False
    then have "?h = p + k" using p by simp
    then show ?thesis using one False by (simp add: put_word_def Let_def)
  qed
qed

lemma wbit_word: "i < 64 \<Longrightarrow> wbit ws (64 * s + i) = bit (ws ! s) i"
  by (simp add: wbit_def)

lemma set_aligned_written:
  "written lo (64 * d) (wbit src) ws0 S \<Longrightarrow> 64 * d = lo + 64 * s \<Longrightarrow> 64 * d + remain \<le> 64 * length ws0 \<Longrightarrow>
   written lo (64 * d + remain) (wbit src) ws0 (set_aligned remain s d src S)"
proof (induction remain s d src S rule: set_aligned.induct)
  case (1 remain s d src S)
  have pos: "64 * d - lo + i = 64 * s + i" for i using 1(3) by simp
  have put: "0 < k \<Longrightarrow> k \<le> 64 \<Longrightarrow> k \<le> remain \<Longrightarrow> written lo (64 * d + k) (wbit src) ws0 (put_word d 0 k (src ! s) S)" for k
    using 1(3,4) by (intro put_word_written [OF 1(2)]) (auto simp: pos wbit_word)
  have full: "put_word d 0 64 (src ! s) S = set_masked d (- 1) (src ! s) S"
    by (simp add: put_word_def part_mask_def low_mask_def)
  have part: "k < 64 \<Longrightarrow> put_word d 0 k (src ! s) S = set_masked d (low_mask k) (src ! s AND low_mask k) S" for k
    by (simp add: put_word_def part_mask_def low_mask_def Let_def)
  show ?case
  proof (cases "remain \<ge> 64")
    case True
    have "written lo (64 * (d + 1) + (remain - 64)) (wbit src) ws0
        (set_aligned (remain - 64) (s + 1) (d + 1) src (set_masked d (- 1) (src ! s) S))"
      by (rule 1(1) [OF True]) (use put [of 64] True 1(3,4) in \<open>auto simp: full algebra_simps\<close>)
    then show ?thesis using True by (subst set_aligned.simps) simp
  next
    case False
    then show ?thesis using put [of remain] 1(2) part [of remain] by (subst set_aligned.simps) auto
  qed
qed

lemma set_unaligned_written:
  "written lo (64 * d + doff) (wbit src) ws0 S \<Longrightarrow> 64 * d + doff = lo + 64 * s \<Longrightarrow> 0 < doff \<Longrightarrow> doff < 64 \<Longrightarrow>
   64 * d + doff + remain \<le> 64 * length ws0 \<Longrightarrow>
   written lo (64 * d + doff + remain) (wbit src) ws0 (set_unaligned doff remain s d src S)"
proof (induction doff remain s d src S rule: set_unaligned.induct)
  case (1 doff remain s d src S)
  have pos: "64 * d + doff - lo + i = 64 * s + i" for i using 1(3) by simp
  have put: "0 < k \<Longrightarrow> k \<le> 64 \<Longrightarrow> k \<le> remain \<Longrightarrow>
      written lo (64 * d + doff + k) (wbit src) ws0 (put_word d doff k (src ! s) S)" for k
    using 1(3-6) by (intro put_word_written [OF 1(2)]) (auto simp: pos wbit_word)
  have full: "put_word d doff 64 (src ! s) S =
      set_masked (d + 1) (low_mask doff) (drop_bit (64 - doff) (src ! s) AND low_mask doff)
        (set_masked d (NOT (low_mask doff)) (push_bit doff (src ! s) AND NOT (low_mask doff)) S)"
    using 1(4) by (simp add: put_word_def part_mask_def Let_def)
  show ?case
  proof (cases "remain \<ge> 64")
    case True
    have "written lo (64 * (d + 1) + doff + (remain - 64)) (wbit src) ws0
        (set_unaligned doff (remain - 64) (s + 1) (d + 1) src (put_word d doff 64 (src ! s) S))"
      unfolding full by (rule 1(1) [OF refl refl True]) (use put [of 64] True 1(3-6) in \<open>auto simp: full algebra_simps\<close>)
    then show ?thesis using True by (subst set_unaligned.simps) (simp add: Let_def full add.assoc)
  next
    case False
    then have "set_unaligned doff remain s d src S = (if remain > 0 then put_word d doff remain (src ! s) S else S)"
      using 1(5) by (subst set_unaligned.simps) (auto simp: put_word_def Let_def)
    then show ?thesis using put [of remain] 1(2) False by simp
  qed
qed

lemma set_vec_words_written:
  assumes "adr + m \<le> n" "0 < m" "length dst = stored_words n"
  shows "written adr (adr + m) (wbit src) dst (set_vec_words n m adr src dst)"
proof -
  have cover: "adr + m \<le> 64 * length dst" using stored_covers [of n] assms(1,3) by simp
  have put: "written adr (adr + m) (wbit src) dst (put_word (adr div 64) (adr mod 64) m (src ! 0) (dst, False))" if "m \<le> 64"
    using assms(2) cover that wbit_word [of _ src 0] by (intro put_word_written [OF written_start]) auto
  consider "n \<le> 64" | "n > 64" "m \<le> 64" | "n > 64" "m > 64" "adr mod 64 = 0" | "n > 64" "m > 64" "adr mod 64 \<noteq> 0" by linarith
  then show ?thesis
  proof cases
    case 1
    then have "set_vec_words n m adr src dst = put_word (adr div 64) (adr mod 64) m (src ! 0) (dst, False)"
      using assms(1,2) by (simp add: set_vec_words_def put_word_def Let_def)
    then show ?thesis using put 1 assms(1) by simp
  next
    case 2
    then have "set_vec_words n m adr src dst = put_word (adr div 64) (adr mod 64) m (src ! 0) (dst, False)"
      by (auto simp: set_vec_words_def put_word_def Let_def)
    then show ?thesis using put 2 by simp
  next
    case 3
    then have "64 * (adr div 64) = adr" by auto
    then show ?thesis using 3 set_aligned_written [of adr "adr div 64" src dst "(dst, False)" 0 m] cover
      by (simp add: set_vec_words_def written_start)
  next
    case 4
    then show ?thesis using set_unaligned_written [of adr "adr div 64" "adr mod 64" src dst "(dst, False)" 0 m] cover
      by (simp add: set_vec_words_def written_start)
  qed
qed

text \<open>The bits of a vector are read from both arrays.\<close>

lemma vec_bits_wbit: "i < vsize v \<Longrightarrow> vec_bits v ! i = decode (wbit (abits v) i) (wbit (bbits v) i)"
  by (simp add: vec_bits_nth v4_value_bit wbit_def)

lemma vec_bits_wbitI:
  assumes "vsize v = n" "length bs = n" "\<And>i. i < n \<Longrightarrow> decode (wbit (abits v) i) (wbit (bbits v) i) = bs ! i"
  shows "vec_bits v = bs"
  using assms by (intro vec_bits_eqI) (auto simp: wbit_def)

lemma decode_inject: "decode a b = decode a' b' \<longleftrightarrow> a = a' \<and> b = b'"
  by (cases a; cases b; cases a'; cases b') simp_all

lemma wf_cover: "wf_vec v \<Longrightarrow> i < vsize v \<Longrightarrow> i < 64 * length (abits v) \<and> i < 64 * length (bbits v)"
  using stored_covers [of "vsize v"] by (auto simp: wf_vec_def)

lemma v4_set_vec_bits:
  assumes "wf_vec v" "wf_vec that" "adr + vsize that \<le> vsize v" "0 < vsize that"
  shows "\<exists>v' diff. v4_set_vec v adr that = Some (v', diff) \<and> wf_vec v' \<and>
    vec_bits v' = take adr (vec_bits v) @ vec_bits that @ drop (adr + vsize that) (vec_bits v) \<and>
    (diff \<longleftrightarrow> vec_bits v' \<noteq> vec_bits v)"
proof -
  let ?n = "vsize v" and ?m = "vsize that"
  obtain a da b db where a: "set_vec_words ?n ?m adr (abits that) (abits v) = (a, da)"
      and b: "set_vec_words ?n ?m adr (bbits that) (bbits v) = (b, db)"
    by (cases "set_vec_words ?n ?m adr (abits that) (abits v)"; cases "set_vec_words ?n ?m adr (bbits that) (bbits v)")
  have wa: "written adr (adr + ?m) (wbit (abits that)) (abits v) (a, da)"
    using set_vec_words_written [OF assms(3,4)] assms(1) a by (metis wf_vec_def)
  have wb: "written adr (adr + ?m) (wbit (bbits that)) (bbits v) (b, db)"
    using set_vec_words_written [OF assms(3,4)] assms(1) b by (metis wf_vec_def)
  let ?v = "v\<lparr>abits := a, bbits := b\<rparr>"
  let ?bs = "take adr (vec_bits v) @ vec_bits that @ drop (adr + ?m) (vec_bits v)"
  have r: "v4_set_vec v adr that = Some (?v, da \<or> db)" using assms(3,4) a b by (auto simp: v4_set_vec_def Let_def)
  have wf: "wf_vec ?v" using wa wb assms(1) by (simp add: wf_vec_def written_def)
  have bits: "vec_bits ?v = ?bs"
  proof (rule vec_bits_wbitI [of _ ?n])
    fix i assume i: "i < ?n"
    have wbits: "wbit a i = (if adr \<le> i \<and> i < adr + ?m then wbit (abits that) (i - adr) else wbit (abits v) i)"
        "wbit b i = (if adr \<le> i \<and> i < adr + ?m then wbit (bbits that) (i - adr) else wbit (bbits v) i)"
      using wa wb wf_cover [OF assms(1) i] by (simp_all add: written_def)
    have "?bs ! i = (if i < adr then vec_bits v ! i else if i < adr + ?m then vec_bits that ! (i - adr) else vec_bits v ! i)"
      using i assms(3) by (auto simp: nth_append)
    then show "decode (wbit (abits ?v) i) (wbit (bbits ?v) i) = ?bs ! i"
      using i assms(3) by (auto simp: wbits vec_bits_wbit)
  qed (use assms(3) in auto)
  have "da \<or> db \<longleftrightarrow> (\<exists>i. adr \<le> i \<and> i < adr + ?m \<and> vec_bits v ! i \<noteq> vec_bits that ! (i - adr))"
    using wa wb assms(3) by (auto simp: written_def vec_bits_wbit decode_inject)
  also have "\<dots> \<longleftrightarrow> ?bs \<noteq> vec_bits v"
  proof
    assume "\<exists>i. adr \<le> i \<and> i < adr + ?m \<and> vec_bits v ! i \<noteq> vec_bits that ! (i - adr)"
    then obtain i where i: "adr \<le> i" "i < adr + ?m" "vec_bits v ! i \<noteq> vec_bits that ! (i - adr)" by blast
    then have "?bs ! i = vec_bits that ! (i - adr)" using assms(3) by (auto simp: nth_append)
    then show "?bs \<noteq> vec_bits v" using i(3) by metis
  next
    assume d: "?bs \<noteq> vec_bits v"
    show "\<exists>i. adr \<le> i \<and> i < adr + ?m \<and> vec_bits v ! i \<noteq> vec_bits that ! (i - adr)"
    proof (rule ccontr)
      assume "\<not> ?thesis"
      then have "?bs = vec_bits v" using assms(3) by (intro nth_equalityI) (auto simp: nth_append)
      then show False using d by blast
    qed
  qed
  finally have d: "da \<or> db \<longleftrightarrow> ?bs \<noteq> vec_bits v" .
  show ?thesis by (intro exI [of _ ?v] exI [of _ "da \<or> db"]) (simp only: r wf bits d simp_thms)
qed

section \<open>Part selects\<close>

function sub_loop :: "nat \<Rightarrow> nat \<Rightarrow> 64 word list \<Rightarrow> nat \<Rightarrow> nat \<Rightarrow> nat \<Rightarrow> 64 word list \<Rightarrow> 64 word list" where
  "sub_loop adr wid src ptr moved dst res =
     (if moved < wid
      then let off = adr mod 64; noff = 64 - off; lmask = low_mask off;
               lo = drop_bit off (src ! ptr AND NOT lmask); moved' = moved + noff
           in if moved' \<ge> wid then res[dst := lo]
              else if noff \<noteq> 64
              then sub_loop adr wid src (ptr + 1) (moved' + off) (dst + 1)
                     (res[dst := lo OR push_bit noff (src ! (ptr + 1) AND lmask)])
              else sub_loop adr wid src (ptr + 1) moved' (dst + 1) (res[dst := lo])
      else res)"
  by pat_completeness auto
termination
  by (relation "measure (\<lambda>(adr, wid, src, ptr, moved, dst, res). wid - moved)") auto

declare sub_loop.simps [simp del]

text \<open>One array of a part that lies inside a source of \<open>n\<close> bits.\<close>

definition sub_words :: "nat \<Rightarrow> nat \<Rightarrow> nat \<Rightarrow> 64 word list \<Rightarrow> 64 word list" where
  "sub_words n adr wid src =
     (if wid > 64 then sub_loop adr wid src (adr div 64) 0 0 (replicate (word_count wid) (- 1))
      else if n > 64
      then let ptr = adr div 64; off = adr mod 64; moved = min (64 - off) wid
           in if moved = 64 then [src ! ptr]
              else let lo = drop_bit off (src ! ptr AND push_bit off (low_mask moved))
                   in [if moved < wid then lo OR push_bit moved (src ! (ptr + 1) AND low_mask (wid - moved)) else lo]
      else if wid = 64 then [src ! 0]
      else [drop_bit adr (src ! 0 AND push_bit adr (low_mask wid))])"

text \<open>The loop \<^verbatim>\<open>set_bit(idx, that.value(adr+idx))\<close>.\<close>

fun set_bits :: "(nat \<Rightarrow> vvp_bit4) \<Rightarrow> nat \<Rightarrow> nat \<Rightarrow> vvp_vector4 \<Rightarrow> vvp_vector4 option" where
  "set_bits f idx 0 v = Some v"
| "set_bits f idx (Suc k) v = do { v' \<leftarrow> v4_set_bit v idx (f idx); set_bits f (Suc idx) k v' }"

text \<open>The constructor of a part. The sum \<^verbatim>\<open>adr + wid\<close> is taken in 32 bits; where it wraps the code
  reads beyond the source.\<close>

definition v4_subvalue :: "vvp_vector4 \<Rightarrow> nat \<Rightarrow> nat \<Rightarrow> vvp_vector4 option" where
  "v4_subvalue that adr wid =
     (let n = vsize that; res = allocate_words wid (- 1) (- 1)
      in if adr \<ge> n then Some res
         else if (adr + wid) mod 2 ^ 32 > n then set_bits (\<lambda>idx. v4_value that (adr + idx)) 0 (n - adr) res
         else if adr + wid > n then None
         else Some \<lparr>vsize = wid, abits = sub_words n adr wid (abits that), bbits = sub_words n adr wid (bbits that)\<rparr>)"

lemma wbit_offset:
  "wbit src (adr + (64 * d + j)) =
     (if adr mod 64 + j < 64 then bit (src ! (adr div 64 + d)) (adr mod 64 + j)
      else bit (src ! (adr div 64 + d + 1)) (adr mod 64 + j - 64))" if "j < 64"
proof -
  have e: "adr + (64 * d + j) = 64 * (adr div 64 + d) + (adr mod 64 + j)"
    using div_mult_mod_eq [of adr 64] by (simp add: algebra_simps)
  show ?thesis
  proof (cases "adr mod 64 + j < 64")
    case True
    then show ?thesis by (simp only: e wbit_word if_True)
  next
    case False
    then have "64 * (adr div 64 + d) + (adr mod 64 + j) = 64 * (adr div 64 + d + 1) + (adr mod 64 + j - 64)"
      by (simp add: algebra_simps)
    moreover have "adr mod 64 + j - 64 < 64" using that mod_less_divisor [of 64 adr] by linarith
    ultimately show ?thesis using False by (simp only: e wbit_word if_False)
  qed
qed

lemma wbit_update: "d < length ws \<Longrightarrow> j < 64 \<Longrightarrow> wbit (ws[d := w]) (64 * e + j) = (if e = d then bit w j else wbit ws (64 * e + j))"
  by (simp add: wbit_word)

lemma sub_loop_bits:
  assumes "moved = 64 * dst" "ptr = adr div 64 + dst" "length res = word_count wid"
    "\<And>i. i < moved \<Longrightarrow> i < wid \<Longrightarrow> wbit res i = wbit src (adr + i)"
  shows "length (sub_loop adr wid src ptr moved dst res) = word_count wid \<and>
    (\<forall>i<wid. wbit (sub_loop adr wid src ptr moved dst res) i = wbit src (adr + i))"
  using assms
proof (induction adr wid src ptr moved dst res rule: sub_loop.induct)
  case (1 adr wid src ptr moved dst res)
  let ?off = "adr mod 64" and ?noff = "64 - adr mod 64" and ?lmask = "low_mask (adr mod 64)"
  define lo where "lo = drop_bit ?off (src ! ptr AND NOT ?lmask)"
  define hi where "hi = push_bit ?noff (src ! (ptr + 1) AND ?lmask)"
  have off: "?off < 64" by simp
  have lo: "bit lo j \<longleftrightarrow> ?off + j < 64 \<and> wbit src (adr + (64 * dst + j))" if "j < 64" for j
    using wbit_offset [OF that] 1(4) that by (auto simp: lo_def bit_drop_bit_eq bit_and_iff bit_not_iff)
  have hi: "bit hi j \<longleftrightarrow> \<not> ?off + j < 64 \<and> wbit src (adr + (64 * dst + j))" if "j < 64" for j
    using wbit_offset [OF that, of src adr dst] 1(4) that off
    by (auto simp: hi_def bit_push_bit_iff bit_and_iff algebra_simps)
  show ?case
  proof (cases "moved < wid")
    case False
    then show ?thesis using 1(5,6) by (subst (1 2) sub_loop.simps) auto
  next
    case True
    have dl: "dst < length res" using True 1(3,5) by (auto simp: word_count_def)
    have step: "wbit (res[dst := w]) i = wbit src (adr + i)"
      if i: "i < wid" "i < moved + k" and w: "\<And>j. j < 64 \<Longrightarrow> j < k \<Longrightarrow> bit w j = wbit src (adr + (64 * dst + j))" and k: "k \<le> 64" for w i k
    proof -
      obtain e j where ej: "i = 64 * e + j" "j < 64" using position_split [of i] by blast
      show ?thesis
      proof (cases "e = dst")
        case True
        then show ?thesis using w [of j] i ej dl 1(3) by (simp add: wbit_word)
      next
        case False
        then have "e < dst" using ej i(2) k 1(3) by auto
        then have "i < moved" using ej 1(3) by auto
        then show ?thesis using 1(6) [OF _ i(1)] False ej dl by (simp add: wbit_word)
      qed
    qed
    consider (last) "moved + ?noff \<ge> wid" | (split) "moved + ?noff < wid" "?noff \<noteq> 64" | (aligned) "moved + ?noff < wid" "?noff = 64"
      by linarith
    then show ?thesis
    proof cases
      case last
      then have e: "sub_loop adr wid src ptr moved dst res = res[dst := lo]" using True by (subst sub_loop.simps) (simp add: Let_def lo_def hi_def)
      have "j < ?noff \<Longrightarrow> bit lo j = wbit src (adr + (64 * dst + j))" for j using lo [of j] by auto
      then have "i < wid \<Longrightarrow> wbit (res[dst := lo]) i = wbit src (adr + i)" for i
        using step [of i ?noff lo] last by simp
      then show ?thesis unfolding e using 1(5) by simp
    next
      case split
      let ?w = "lo OR hi"
      have e: "sub_loop adr wid src ptr moved dst res = sub_loop adr wid src (ptr + 1) (moved + ?noff + ?off) (dst + 1) (res[dst := ?w])"
        by (subst sub_loop.simps) (simp only: Let_def lo_def hi_def True split(2) not_le [THEN iffD2, OF split(1)] if_True if_False simp_thms)
      have w: "bit ?w j = wbit src (adr + (64 * dst + j))" if "j < 64" for j using lo [OF that] hi [OF that] by (auto simp: bit_or_iff)
      show ?thesis unfolding e
        by (rule 1(1) [OF True refl refl refl refl refl, folded lo_def hi_def]) (use split 1(3-5) step [of _ 64 ?w] w in auto)
    next
      case aligned
      have e: "sub_loop adr wid src ptr moved dst res = sub_loop adr wid src (ptr + 1) (moved + ?noff) (dst + 1) (res[dst := lo])"
        using True aligned by (subst sub_loop.simps) (simp add: Let_def lo_def hi_def)
      have w: "bit lo j = wbit src (adr + (64 * dst + j))" if "j < 64" for j using lo [OF that] aligned that by auto
      show ?thesis unfolding e
        by (rule 1(2) [OF True refl refl refl refl refl, folded lo_def hi_def]) (use aligned 1(3-5) step [of _ 64 lo] w in auto)
    qed
  qed
qed

lemma wbit_single: "i < 64 \<Longrightarrow> wbit [w] i = bit w i"
  using wbit_word [of i "[w]" 0] by simp

lemma sub_words_bits:
  assumes "adr + wid \<le> n"
  shows "length (sub_words n adr wid src) = stored_words wid \<and>
    (\<forall>i<wid. wbit (sub_words n adr wid src) i = wbit src (adr + i))"
proof -
  consider (long) "wid > 64" | (part) "wid \<le> 64" "n > 64" | (whole) "wid = 64" "n \<le> 64" | (short) "wid < 64" "n \<le> 64"
    by linarith
  then show ?thesis
  proof cases
    case long
    then show ?thesis
      using sub_loop_bits [of 0 0 "adr div 64" adr "replicate (word_count wid) (- 1)" wid src]
      by (simp add: sub_words_def stored_long)
  next
    case part
    define off where "off = adr mod 64"
    define m where "m = min (64 - off) wid"
    let ?w0 = "src ! (adr div 64)" and ?w1 = "src ! (adr div 64 + 1)"
    have rd: "wbit src (adr + i) = (if off + i < 64 then bit ?w0 (off + i) else bit ?w1 (off + i - 64))" if "i < 64" for i
      using wbit_offset [OF that, of src adr 0] by (simp add: off_def)
    show ?thesis
    proof (cases "m = 64")
      case True
      then have "off = 0" "wid = 64" using part by (auto simp: m_def)
      then show ?thesis using part rd True
        by (simp add: sub_words_def Let_def stored_short wbit_single flip: off_def m_def)
    next
      case False
      define lo where "lo = drop_bit off (?w0 AND push_bit off (low_mask m))"
      define hi where "hi = push_bit m (?w1 AND low_mask (wid - m))"
      define w where "w = (if m < wid then lo OR hi else lo)"
      have e: "sub_words n adr wid src = [w]"
        using part False unfolding sub_words_def Let_def off_def [symmetric] m_def [symmetric] w_def lo_def hi_def by simp
      have off: "off < 64" by (simp add: off_def)
      have b: "bit w i = wbit src (adr + i)" if "i < wid" for i
      proof -
        have i: "i < 64" using that part by simp
        have lo: "bit lo i \<longleftrightarrow> off + i < 64 \<and> i < m \<and> bit ?w0 (off + i)"
          by (auto simp: lo_def bit_drop_bit_eq bit_and_iff bit_push_bit_iff)
        have hi: "bit hi i \<longleftrightarrow> m \<le> i \<and> bit ?w1 (i - m)"
          using i that by (auto simp: hi_def bit_and_iff bit_push_bit_iff)
        show ?thesis
        proof (cases "i < m")
          case True
          then have "off + i < 64" by (auto simp: m_def)
          then show ?thesis using True by (simp add: w_def rd [OF i] bit_or_iff lo hi)
        next
          case False
          then have m: "m < wid" "m = 64 - off" "\<not> off + i < 64" "off + i - 64 = i - m" using that off by (auto simp: m_def min_def split: if_splits)
          then show ?thesis using False by (simp add: w_def rd [OF i] bit_or_iff lo hi)
        qed
      qed
      show ?thesis using b part by (simp add: e stored_short wbit_single)
    qed
  next
    case whole
    then have "adr = 0" using assms by simp
    then show ?thesis using whole wbit_word [of _ src 0] by (simp add: sub_words_def stored_short wbit_single)
  next
    case short
    have "i < wid \<Longrightarrow> wbit src (adr + i) = bit (src ! 0) (adr + i)" for i
      using wbit_word [of "adr + i" src 0] short assms by simp
    then show ?thesis using short assms
      by (auto simp: sub_words_def stored_short wbit_single bit_drop_bit_eq bit_and_iff bit_push_bit_iff)
  qed
qed

lemma set_bits_bits:
  "wf_vec v \<Longrightarrow> idx + k \<le> vsize v \<Longrightarrow> \<exists>v'. set_bits f idx k v = Some v' \<and> wf_vec v' \<and>
     vec_bits v' = take idx (vec_bits v) @ map f [idx..<idx + k] @ drop (idx + k) (vec_bits v)"
proof (induction k arbitrary: idx v)
  case (Suc k)
  obtain v1 where v1: "v4_set_bit v idx (f idx) = Some v1" "wf_vec v1" "vec_bits v1 = (vec_bits v)[idx := f idx]"
    using v4_set_bit_bits [OF Suc.prems(1), of idx "f idx"] Suc.prems(2) by auto
  have n: "vsize v1 = vsize v" using v1(3) by (metis vec_bits_length length_list_update)
  obtain v' where v': "set_bits f (Suc idx) k v1 = Some v'" "wf_vec v'"
      "vec_bits v' = take (Suc idx) (vec_bits v1) @ map f [Suc idx..<Suc idx + k] @ drop (Suc idx + k) (vec_bits v1)"
    using Suc.IH [OF v1(2), of "Suc idx"] Suc.prems(2) n by auto
  have "take (Suc idx) (vec_bits v1) = take idx (vec_bits v) @ [f idx]"
    using Suc.prems(2) by (simp add: v1(3) take_Suc_update)
  moreover have "drop (Suc idx + k) (vec_bits v1) = drop (Suc idx + k) (vec_bits v)" by (simp add: v1(3))
  moreover have "map f [idx..<idx + Suc k] = f idx # map f [Suc idx..<Suc idx + k]" by (simp add: upt_rec)
  ultimately show ?case using v' v1(1) by simp
qed simp

lemma v4_subvalue_bits:
  assumes "wf_vec that" "adr + wid < 2 ^ 32"
  shows "\<exists>r. v4_subvalue that adr wid = Some r \<and> wf_vec r \<and> vsize r = wid \<and>
    vec_bits r = map (\<lambda>i. v4_value that (adr + i)) [0..<wid]"
proof -
  let ?n = "vsize that" and ?x = "allocate_words wid (- 1) (- 1)"
  have x: "?x = vector4_fill wid BIT4_X" by (simp add: vector4_fill_def)
  have far: "v4_value that k = BIT4_X" if "?n \<le> k" for k using that by (simp add: v4_value_def)
  consider (beyond) "adr \<ge> ?n" | (over) "adr < ?n" "adr + wid > ?n" | (inside) "adr < ?n" "adr + wid \<le> ?n" by linarith
  then show ?thesis
  proof cases
    case beyond
    then have "vec_bits ?x = map (\<lambda>i. v4_value that (adr + i)) [0..<wid]"
      unfolding x vector4_fill_bits using far by (intro nth_equalityI) auto
    then show ?thesis using beyond by (simp add: v4_subvalue_def)
  next
    case over
    let ?f = "\<lambda>i. v4_value that (adr + i)" and ?k = "?n - adr"
    obtain r where r: "set_bits ?f 0 ?k ?x = Some r" "wf_vec r" "vec_bits r = map ?f [0..<?k] @ drop ?k (vec_bits ?x)"
      using set_bits_bits [of ?x 0 ?k ?f] over by (auto simp: le_diff_conv)
    have "drop ?k (vec_bits ?x) = map ?f [?k..<wid]"
      unfolding x vector4_fill_bits using far over by (intro nth_equalityI) auto
    then have "vec_bits r = map ?f [0..<wid]" using r(3) over upt_add_eq_append [of 0 ?k "wid - ?k"] by (simp flip: map_append)
    moreover from this have "vsize r = wid" by (metis vec_bits_length length_map length_upt minus_nat.diff_0)
    ultimately show ?thesis using r over assms(2) by (simp add: v4_subvalue_def Let_def)
  next
    case inside
    let ?r = "\<lparr>vsize = wid, abits = sub_words ?n adr wid (abits that), bbits = sub_words ?n adr wid (bbits that)\<rparr>"
    note a = sub_words_bits [OF inside(2), of "abits that"] and b = sub_words_bits [OF inside(2), of "bbits that"]
    have "vec_bits ?r = map (\<lambda>i. v4_value that (adr + i)) [0..<wid]"
      using a b inside by (intro vec_bits_wbitI [of _ wid]) (auto simp: v4_value_bit wbit_def)
    then show ?thesis using a b inside assms(2) by (simp add: v4_subvalue_def Let_def wf_vec_def)
  qed
qed

end
