(* ===== verification/Vvp_Transfer.thy ===== *)
theory Vvp_Transfer
  imports Vvp_Slice
begin

text \<open>
  Resizing of packed vectors and the exchange with plain arrays of words (\<open>resize\<close>, \<open>setarray\<close>,
  \<open>subarray\<close> and \<open>copy_bits\<close> of vvp/vvp_net.cc), on the library of word transfers.
\<close>

section \<open>Resizing\<close>

definition resize_words :: "nat \<Rightarrow> nat \<Rightarrow> 64 word \<Rightarrow> 64 word list \<Rightarrow> 64 word list" where
  "resize_words old newsize pad ws =
     (if newsize > 64
      then let cnt = word_count old; newcnt = word_count newsize; fill = old mod 64;
               padded_word = (\<lambda>w. (w AND NOT (push_bit fill (- 1))) OR push_bit fill pad)
           in if newcnt = cnt
              then (if newsize > old \<and> fill \<noteq> 0 then ws[cnt - 1 := padded_word (ws ! (cnt - 1))] else ws)
              else map (\<lambda>idx. if newsize > old \<and> idx \<ge> cnt then pad
                              else if newsize > old \<and> fill \<noteq> 0 \<and> idx = cnt - 1 then padded_word (ws ! idx)
                              else ws ! idx) [0..<newcnt]
      else [if newsize > old then (ws ! 0 AND NOT (push_bit old (- 1))) OR push_bit old pad else ws ! 0])"

definition v4_resize :: "vvp_vector4 \<Rightarrow> nat \<Rightarrow> vvp_bit4 \<Rightarrow> vvp_vector4" where
  "v4_resize v newsize pad_bit =
     (if vsize v = newsize then v
      else \<lparr>vsize = newsize, abits = resize_words (vsize v) newsize (init_atable pad_bit) (abits v),
            bbits = resize_words (vsize v) newsize (init_btable pad_bit) (bbits v)\<rparr>)"

definition constant_word :: "64 word \<Rightarrow> bool \<Rightarrow> bool" where
  "constant_word w b \<longleftrightarrow> (\<forall>j<64. bit w j = b)"

lemma bit_padded_word:
  assumes "constant_word pad b" "j < 64"
  shows "bit ((w AND NOT (push_bit fill (- 1))) OR push_bit fill pad) j = (if j < fill then bit w j else b)"
  using assms by (auto simp: constant_word_def bit_or_iff bit_and_iff bit_not_iff bit_push_bit_iff bit_mask_iff)

lemma last_word_fill:
  assumes "64 * e + j < (n :: nat)" "j < 64"
  shows "e < word_count n" "e = word_count n - 1 \<Longrightarrow> n mod 64 \<noteq> 0 \<Longrightarrow> j < n mod 64"
proof -
  show "e < word_count n" using assms by (auto simp: word_count_def)
  assume e: "e = word_count n - 1" "n mod 64 \<noteq> 0"
  then have "e = n div 64" by (simp add: word_count_alt)
  then show "j < n mod 64" using assms(1) div_mult_mod_eq [of n 64] by linarith
qed

lemma beyond_fill:
  assumes "(n :: nat) \<le> 64 * e + j" "j < 64" "e < word_count n"
  shows "e = word_count n - 1 \<and> n mod 64 \<noteq> 0 \<and> n mod 64 \<le> j"
proof -
  have e: "e \<ge> n div 64" using div_le_mono [OF assms(1), of 64] assms(2) by simp
  then have "n mod 64 \<noteq> 0" "e = n div 64" using assms(3) by (auto simp: word_count_alt split: if_splits)
  moreover from this have "n mod 64 \<le> j" using assms(1) div_mult_mod_eq [of n 64] by linarith
  ultimately show ?thesis by (simp add: word_count_alt)
qed

lemma resize_words_bits:
  assumes "length ws = stored_words old" "constant_word pad b"
  shows "length (resize_words old newsize pad ws) = stored_words newsize \<and>
    (\<forall>i<newsize. wbit (resize_words old newsize pad ws) i = (if i < old then wbit ws i else b))"
proof (cases "newsize > 64")
  case False
  then have "wbit (resize_words old newsize pad ws) i = (if i < old then wbit ws i else b)" if "i < newsize" for i
    using that bit_padded_word [OF assms(2), of i] wbit_word [of i ws 0]
    by (auto simp: resize_words_def wbit_single)
  then show ?thesis using False by (simp add: resize_words_def stored_short)
next
  case long: True
  let ?cnt = "word_count old" and ?new = "word_count newsize" and ?fill = "old mod 64"
  let ?p = "\<lambda>w. (w AND NOT (push_bit ?fill (- 1))) OR push_bit ?fill pad"
  have pad: "j < 64 \<Longrightarrow> bit pad j = b" for j using assms(2) by (simp add: constant_word_def)
  show ?thesis
  proof (cases "?new = ?cnt")
    case True
    have o: "old > 64"
    proof (rule ccontr)
      assume "\<not> old > 64"
      then have "?cnt \<le> 1" by (auto simp: word_count_def)
      moreover have "?new \<ge> 2" using long by (simp add: word_count_def)
      ultimately show False using True by simp
    qed
    have len: "length ws = ?cnt" using assms(1) o by (simp add: stored_long)
    have c: "0 < ?cnt" using o by (simp add: word_count_def)
    have "wbit (resize_words old newsize pad ws) i = (if i < old then wbit ws i else b)" if i: "i < newsize" for i
    proof -
      obtain e j where ej: "i = 64 * e + j" "j < 64" using position_split [of i] by blast
      have e: "e < ?cnt" using last_word_fill(1) [of e j newsize] ej i True by simp
      show ?thesis
      proof (cases "newsize > old \<and> ?fill \<noteq> 0")
        case upd: True
        then have r: "resize_words old newsize pad ws = ws[?cnt - 1 := ?p (ws ! (?cnt - 1))]"
          using long True by (simp add: resize_words_def Let_def)
        show ?thesis
        proof (cases "i < old")
          case True
          then show ?thesis unfolding r using last_word_fill(2) [of e j old] ej e c upd len bit_padded_word [OF assms(2) ej(2)]
            by (simp add: wbit_word nth_list_update)
        next
          case False
          then show ?thesis unfolding r using beyond_fill [of old e j] ej e c upd len bit_padded_word [OF assms(2) ej(2)]
            by (simp add: wbit_word)
        qed
      next
        case False
        then have "resize_words old newsize pad ws = ws" using long True by (auto simp: resize_words_def Let_def)
        moreover have "i < old"
        proof (rule ccontr)
          assume "\<not> i < old"
          then show False using beyond_fill [of old e j] ej e i False by auto
        qed
        ultimately show ?thesis by simp
      qed
    qed
    moreover have "length (resize_words old newsize pad ws) = stored_words newsize"
      using long True len by (auto simp: resize_words_def Let_def stored_long)
    ultimately show ?thesis by blast
  next
    case False
    then have r: "resize_words old newsize pad ws =
        map (\<lambda>idx. if newsize > old \<and> idx \<ge> ?cnt then pad
                   else if newsize > old \<and> ?fill \<noteq> 0 \<and> idx = ?cnt - 1 then ?p (ws ! idx) else ws ! idx) [0..<?new]"
      using long by (simp add: resize_words_def Let_def)
    have "wbit (resize_words old newsize pad ws) i = (if i < old then wbit ws i else b)" if i: "i < newsize" for i
    proof -
      obtain e j where ej: "i = 64 * e + j" "j < 64" using position_split [of i] by blast
      have e: "e < ?new" using last_word_fill(1) [of e j newsize] ej i by simp
      then have w: "wbit (resize_words old newsize pad ws) i =
          (if newsize > old \<and> e \<ge> ?cnt then b
           else if newsize > old \<and> ?fill \<noteq> 0 \<and> e = ?cnt - 1 then (if j < ?fill then bit (ws ! e) j else b) else bit (ws ! e) j)"
        unfolding r using ej pad [OF ej(2)] bit_padded_word [OF assms(2) ej(2)] by (simp add: wbit_word)
      show ?thesis
      proof (cases "i < old")
        case True
        then show ?thesis using w last_word_fill [of e j old] ej by (auto simp: wbit_word)
      next
        case False
        then show ?thesis using w beyond_fill [of old e j] ej i by (cases "e < ?cnt") auto
      qed
    qed
    then show ?thesis using r long by (simp add: stored_long)
  qed
qed

lemma init_tables: "constant_word (init_atable b) (b = BIT4_1 \<or> b = BIT4_X)" "constant_word (init_btable b) (b = BIT4_Z \<or> b = BIT4_X)"
  by (cases b; simp add: constant_word_def)+

lemma v4_resize_bits:
  assumes "wf_vec v"
  shows "wf_vec (v4_resize v newsize p) \<and>
    vec_bits (v4_resize v newsize p) = take newsize (vec_bits v) @ replicate (newsize - vsize v) p"
proof (cases "vsize v = newsize")
  case True
  then show ?thesis using assms by (simp add: v4_resize_def)
next
  case False
  note a = resize_words_bits [OF _ init_tables(1), of "abits v" "vsize v" newsize p]
    and b = resize_words_bits [OF _ init_tables(2), of "bbits v" "vsize v" newsize p]
  have d: "decode (p = BIT4_1 \<or> p = BIT4_X) (p = BIT4_Z \<or> p = BIT4_X) = p" by (cases p) simp_all
  have "vec_bits (v4_resize v newsize p) = take newsize (vec_bits v) @ replicate (newsize - vsize v) p"
  proof (rule vec_bits_wbitI [of _ newsize])
    fix i assume i: "i < newsize"
    show "decode (wbit (abits (v4_resize v newsize p)) i) (wbit (bbits (v4_resize v newsize p)) i) =
        (take newsize (vec_bits v) @ replicate (newsize - vsize v) p) ! i"
      using a b assms i False d by (auto simp: v4_resize_def wf_vec_def nth_append vec_bits_wbit)
  qed (use False in \<open>auto simp: v4_resize_def\<close>)
  then show ?thesis using a b assms False by (simp add: v4_resize_def wf_vec_def)
qed

section \<open>Storing an array of words\<close>

definition array_mask :: "nat \<Rightarrow> nat \<Rightarrow> 64 word" where
  "array_mask lo hi = NOT ((if hi < 64 then push_bit hi (- 1) else 0) OR low_mask lo)"

text \<open>The pairs \<^verbatim>\<open>ptr\<close>, \<^verbatim>\<open>off\<close> and \<^verbatim>\<open>val_ptr\<close>, \<^verbatim>\<open>val_off\<close> of the loop are the positions \<open>dpos\<close> and
  \<open>vpos\<close>.\<close>

function setarray_loop :: "nat \<Rightarrow> nat \<Rightarrow> nat \<Rightarrow> 64 word list \<Rightarrow> 64 word list \<Rightarrow> 64 word list \<Rightarrow> 64 word list \<times> 64 word list" where
  "setarray_loop wid dpos vpos val a b =
     (if wid > 0
      then let off = dpos mod 64; ptr = dpos div 64; val_off = vpos mod 64; val_ptr = vpos div 64;
               moved = min (min wid (64 - val_off)) (64 - off);
               msk = array_mask off (off + moved);
               w = (if val_off \<ge> off then drop_bit (val_off - off) (val ! val_ptr) else push_bit (off - val_off) (val ! val_ptr))
           in setarray_loop (wid - moved) (dpos + moved) (vpos + moved) val
                (a[ptr := (a ! ptr AND NOT msk) OR (msk AND w)]) (b[ptr := b ! ptr AND NOT msk])
      else (a, b))"
  by pat_completeness auto
termination
proof (relation "measure (\<lambda>(wid, dpos, vpos, val, a, b). wid)", goal_cases)
  case (2 wid dpos vpos val a b off ptr val_off val_ptr moved msk w)
  have "off < 64" "val_off < 64" unfolding 2(2,4) by simp_all
  then have "0 < moved" unfolding 2(6) using 2(1) by simp
  then show ?case using 2(1) by simp
qed simp

declare setarray_loop.simps [simp del]

definition v4_setarray :: "vvp_vector4 \<Rightarrow> nat \<Rightarrow> nat \<Rightarrow> 64 word list \<Rightarrow> vvp_vector4 option" where
  "v4_setarray v adr wid val =
     (if adr + wid > vsize v \<or> length val < word_count wid then None
      else if vsize v \<le> 64
      then (if adr \<ge> 64 \<or> val = [] then None
            else let msk = array_mask adr (adr + wid)
                 in Some (v\<lparr>abits := [(abits v ! 0 AND NOT msk) OR (msk AND push_bit adr (val ! 0))],
                            bbits := [bbits v ! 0 AND NOT msk]\<rparr>))
      else case setarray_loop wid adr 0 val (abits v) (bbits v) of (a, b) \<Rightarrow> Some (v\<lparr>abits := a, bbits := b\<rparr>))"

lemma bit_array_mask: "j < 64 \<Longrightarrow> bit (array_mask lo hi) j \<longleftrightarrow> lo \<le> j \<and> j < hi"
  by (auto simp: array_mask_def bit_not_iff bit_or_iff bit_and_iff bit_push_bit_iff bit_mask_iff)

text \<open>An unconditional store is a step of a transfer as well.\<close>

lemma store_step:
  assumes "written lo m src ws0 (ws, df)" "lo \<le> m" "m \<le> m'" "64 * d \<le> m" "m' \<le> 64 * d + 64" "d < length ws0"
    and msk: "\<And>j. j < 64 \<Longrightarrow> bit msk j \<longleftrightarrow> m \<le> 64 * d + j \<and> 64 * d + j < m'"
    and tmp: "\<And>j. j < 64 \<Longrightarrow> bit tmp j \<longleftrightarrow> bit msk j \<and> src (64 * d + j - lo)"
  shows "\<exists>df'. written lo m' src ws0 (ws[d := (ws ! d AND NOT msk) OR tmp], df')"
proof -
  have "ws ! d AND msk = tmp \<Longrightarrow> (ws ! d AND NOT msk) OR tmp = ws ! d"
    by (rule bit_word_eqI) (auto simp: bit_or_iff bit_and_iff bit_not_iff)
  then have "fst (set_masked d msk tmp (ws, df)) = ws[d := (ws ! d AND NOT msk) OR tmp]"
    by (auto simp: set_masked_def)
  then show ?thesis using set_masked_step [OF assms] by (metis prod.collapse)
qed

lemma setarray_loop_written:
  assumes "written lo dpos (wbit val) a0 (a, da)" "written lo dpos (\<lambda>_. False) b0 (b, db)"
    "dpos = lo + vpos" "dpos + wid \<le> 64 * length a0" "dpos + wid \<le> 64 * length b0"
  shows "\<exists>a' b' da' db'. setarray_loop wid dpos vpos val a b = (a', b') \<and>
    written lo (dpos + wid) (wbit val) a0 (a', da') \<and> written lo (dpos + wid) (\<lambda>_. False) b0 (b', db')"
  using assms
proof (induction wid dpos vpos val a b arbitrary: da db rule: setarray_loop.induct)
  case (1 wid dpos vpos val a b)
  show ?case
  proof (cases "wid > 0")
    case True
    define off where "off = dpos mod 64"
    define d where "d = dpos div 64"
    define voff where "voff = vpos mod 64"
    define moved where "moved = min (min wid (64 - voff)) (64 - off)"
    define msk where "msk = array_mask off (off + moved)"
    define w where "w = (if voff \<ge> off then drop_bit (voff - off) (val ! (vpos div 64)) else push_bit (off - voff) (val ! (vpos div 64)))"
    let ?a = "a[d := (a ! d AND NOT msk) OR (msk AND w)]" and ?b = "b[d := b ! d AND NOT msk]"
    have bnd: "off < 64" "voff < 64" "0 < moved" "moved \<le> wid" "off + moved \<le> 64" "voff + moved \<le> 64"
      using True by (auto simp: moved_def off_def voff_def)
    have dp: "dpos = 64 * d + off" "vpos = 64 * (vpos div 64) + voff" by (simp_all add: d_def off_def voff_def)
    have rd: "wbit val (64 * d + j - lo) = bit (val ! (vpos div 64)) (j - off + voff)" if "off \<le> j" "j < off + moved" for j
    proof -
      have "64 * d + j - lo = 64 * (vpos div 64) + (j - off + voff)" using that dp 1(4) by linarith
      moreover have "j - off + voff < 64" using that bnd by linarith
      ultimately show ?thesis by (simp only: wbit_word)
    qed
    have bm: "bit msk j \<longleftrightarrow> dpos \<le> 64 * d + j \<and> 64 * d + j < dpos + moved" if "j < 64" for j
      unfolding msk_def bit_array_mask [OF that] dp(1) by auto
    have bw: "bit (msk AND w) j \<longleftrightarrow> bit msk j \<and> wbit val (64 * d + j - lo)" if "j < 64" for j
    proof (cases "off \<le> j \<and> j < off + moved")
      case True
      then show ?thesis using rd [of j] that
        by (auto simp: w_def bit_and_iff bit_drop_bit_eq bit_push_bit_iff algebra_simps)
    next
      case False
      then show ?thesis using that by (auto simp: msk_def bit_array_mask bit_and_iff)
    qed
    have dl: "d < length a0" "d < length b0" using 1(5,6) dp(1) bnd by auto
    have "\<exists>df'. written lo (dpos + moved) (wbit val) a0 (?a, df')"
      by (rule store_step [OF 1(2) _ _ _ _ dl(1) bm bw]) (use 1(4) dp(1) bnd in auto)
    moreover have "\<exists>df'. written lo (dpos + moved) (\<lambda>_. False) b0 (b[d := (b ! d AND NOT msk) OR 0], df')"
      by (rule store_step [OF 1(3) _ _ _ _ dl(2) bm]) (use 1(4) dp(1) bnd in auto)
    ultimately obtain da1 db1 where st: "written lo (dpos + moved) (wbit val) a0 (?a, da1)"
        "written lo (dpos + moved) (\<lambda>_. False) b0 (?b, db1)" by auto
    have e: "setarray_loop wid dpos vpos val a b = setarray_loop (wid - moved) (dpos + moved) (vpos + moved) val ?a ?b"
      unfolding moved_def msk_def w_def off_def voff_def d_def using True
      by (subst setarray_loop.simps) (simp only: Let_def if_True)
    have "dpos + moved + (wid - moved) = dpos + wid" using bnd by simp
    moreover note 1(1) [OF True off_def d_def voff_def refl moved_def msk_def w_def st]
    ultimately show ?thesis unfolding e using 1(4-6) bnd by (simp add: add.assoc)
  next
    case False
    then show ?thesis using 1(2,3) by (subst setarray_loop.simps) auto
  qed
qed

definition bool_bit :: "bool \<Rightarrow> vvp_bit4" where
  "bool_bit b = (if b then BIT4_1 else BIT4_0)"

lemma decode_known: "decode a False = bool_bit a"
  by (cases a) (simp_all add: bool_bit_def)

text \<open>A pair of transfers, of the bits of an array into the a-bits and of zeros into the b-bits.\<close>

lemma written_bits:
  assumes "wf_vec v" "adr + wid \<le> vsize v"
    "written adr (adr + wid) (wbit val) (abits v) (a, da)" "written adr (adr + wid) (\<lambda>_. False) (bbits v) (b, db)"
  shows "wf_vec (v\<lparr>abits := a, bbits := b\<rparr>) \<and> vec_bits (v\<lparr>abits := a, bbits := b\<rparr>) =
    take adr (vec_bits v) @ map (\<lambda>i. bool_bit (wbit val i)) [0..<wid] @ drop (adr + wid) (vec_bits v)"
proof
  show "wf_vec (v\<lparr>abits := a, bbits := b\<rparr>)" using assms(1,3,4) by (simp add: wf_vec_def written_def)
  show "vec_bits (v\<lparr>abits := a, bbits := b\<rparr>) =
      take adr (vec_bits v) @ map (\<lambda>i. bool_bit (wbit val i)) [0..<wid] @ drop (adr + wid) (vec_bits v)" (is "_ = ?bs")
  proof (rule vec_bits_wbitI [of _ "vsize v"])
    fix i assume i: "i < vsize v"
    have w: "wbit a i = (if adr \<le> i \<and> i < adr + wid then wbit val (i - adr) else wbit (abits v) i)"
        "wbit b i = (\<not> (adr \<le> i \<and> i < adr + wid) \<and> wbit (bbits v) i)"
      using assms(3,4) wf_cover [OF assms(1) i] by (simp_all add: written_def)
    have "?bs ! i = (if i < adr then vec_bits v ! i else if i < adr + wid then bool_bit (wbit val (i - adr)) else vec_bits v ! i)"
      using i assms(2) by (auto simp: nth_append)
    then show "decode (wbit (abits (v\<lparr>abits := a, bbits := b\<rparr>)) i) (wbit (bbits (v\<lparr>abits := a, bbits := b\<rparr>)) i) = ?bs ! i"
      using i by (auto simp: w vec_bits_wbit decode_known)
  qed (use assms(2) in auto)
qed

lemma v4_setarray_bits:
  assumes "wf_vec v" "adr + wid \<le> vsize v" "word_count wid \<le> length val" "0 < wid"
  shows "\<exists>v'. v4_setarray v adr wid val = Some v' \<and> wf_vec v' \<and>
    vec_bits v' = take adr (vec_bits v) @ map (\<lambda>i. bool_bit (wbit val i)) [0..<wid] @ drop (adr + wid) (vec_bits v)"
proof (cases "vsize v \<le> 64")
  case True
  have len: "length (abits v) = 1" "length (bbits v) = 1" using True assms(1) by (simp_all add: wf_vec_def stored_short)
  then obtain a0 b0 where ab: "abits v = [a0]" "bbits v = [b0]"
    by (metis One_nat_def length_0_conv length_Suc_conv)
  let ?msk = "array_mask adr (adr + wid)"
  have bm: "bit ?msk j \<longleftrightarrow> adr \<le> 64 * 0 + j \<and> 64 * 0 + j < adr + wid" if "j < 64" for j
    using that by (simp add: bit_array_mask)
  have bw: "bit (?msk AND push_bit adr (val ! 0)) j \<longleftrightarrow> bit ?msk j \<and> wbit val (64 * 0 + j - adr)" if "j < 64" for j
    using that wbit_word [of "j - adr" val 0] by (auto simp: bit_array_mask bit_and_iff bit_push_bit_iff)
  have "\<exists>df. written adr (adr + wid) (wbit val) [a0] ([a0][0 := ([a0] ! 0 AND NOT ?msk) OR (?msk AND push_bit adr (val ! 0))], df)"
    by (rule store_step [OF written_start _ _ _ _ _ bm bw]) (use True assms(2) in auto)
  moreover have "\<exists>df. written adr (adr + wid) (\<lambda>_. False) [b0] ([b0][0 := ([b0] ! 0 AND NOT ?msk) OR 0], df)"
    by (rule store_step [OF written_start _ _ _ _ _ bm]) (use True assms(2) in auto)
  ultimately obtain da db where "written adr (adr + wid) (wbit val) (abits v) ([(a0 AND NOT ?msk) OR (?msk AND push_bit adr (val ! 0))], da)"
      "written adr (adr + wid) (\<lambda>_. False) (bbits v) ([b0 AND NOT ?msk], db)" by (auto simp: ab)
  from written_bits [OF assms(1,2) this] show ?thesis
    using True assms(2-4) by (auto simp: v4_setarray_def Let_def ab word_count_def)
next
  case False
  have "adr + wid \<le> 64 * length (abits v)" "adr + wid \<le> 64 * length (bbits v)"
    using stored_covers [of "vsize v"] assms(1,2) by (auto simp: wf_vec_def)
  then obtain a b da db where r: "setarray_loop wid adr 0 val (abits v) (bbits v) = (a, b)"
      "written adr (adr + wid) (wbit val) (abits v) (a, da)" "written adr (adr + wid) (\<lambda>_. False) (bbits v) (b, db)"
    using setarray_loop_written [OF written_start [of adr "wbit val" "abits v"] written_start [of adr _ "bbits v"], of 0 wid] by auto
  show ?thesis using written_bits [OF assms(1,2) r(2,3)] r(1) False assms(2,3) by (simp add: v4_setarray_def)
qed

section \<open>Reading an array of words\<close>

text \<open>The outer \<open>None\<close> is an access out of range, the inner one the null pointer returned at an unknown bit.
  As above, \<open>vpos\<close> is the position \<^verbatim>\<open>val_ptr\<close>, \<^verbatim>\<open>val_off\<close>.\<close>

function subarray_loop :: "bool \<Rightarrow> nat \<Rightarrow> nat \<Rightarrow> nat \<Rightarrow> 64 word list \<Rightarrow> 64 word list \<Rightarrow> 64 word list \<Rightarrow> 64 word list option option" where
  "subarray_loop xz_to_0 wid adr vpos a b val =
     (if wid > 0
      then if adr div 64 \<ge> length a then None
           else let off = adr mod 64; val_off = vpos mod 64;
                    moved = min (min (64 - off) (64 - val_off)) wid;
                    m = (if moved < 64 then low_mask moved else - 1);
                    atmp = drop_bit off (a ! (adr div 64)) AND m; btmp = drop_bit off (b ! (adr div 64)) AND m
                in if btmp \<noteq> 0 \<and> \<not> xz_to_0 then Some None
                   else subarray_loop xz_to_0 (wid - moved) (adr + moved) (vpos + moved) a b
                     (val[vpos div 64 := val ! (vpos div 64) OR push_bit val_off (if btmp \<noteq> 0 then atmp AND NOT btmp else atmp)])
      else Some (Some val))"
  by pat_completeness auto
termination
proof (relation "measure (\<lambda>(x, wid, adr, vpos, a, b, val). wid)", goal_cases)
  case (2 x wid adr vpos a b val off val_off moved m atmp btmp)
  have "off < 64" "val_off < 64" unfolding 2(3,4) by simp_all
  then have "0 < moved" unfolding 2(5) using 2(1) by simp
  then show ?case using 2(1) by simp
qed simp

declare subarray_loop.simps [simp del]

definition v4_subarray :: "vvp_vector4 \<Rightarrow> nat \<Rightarrow> nat \<Rightarrow> bool \<Rightarrow> 64 word list option option" where
  "v4_subarray v adr wid xz_to_0 =
     (let val = replicate (word_count wid) 0
      in if vsize v \<le> 64
         then (if adr \<ge> 64 \<or> wid = 0 then None
               else let m = (if wid < 64 then low_mask wid else - 1);
                        atmp = drop_bit adr (abits v ! 0) AND m; btmp = drop_bit adr (bbits v ! 0) AND m
                    in if btmp \<noteq> 0 \<and> \<not> xz_to_0 then Some None
                       else Some (Some (val[0 := if btmp \<noteq> 0 then atmp AND NOT btmp else atmp])))
         else subarray_loop xz_to_0 wid adr 0 (abits v) (bbits v) val)"

text \<open>What a part contains: no unknown bit, and the words of its one bits.\<close>

definition part_known :: "64 word list \<Rightarrow> nat \<Rightarrow> nat \<Rightarrow> bool" where
  "part_known b adr wid \<longleftrightarrow> (\<forall>i<wid. \<not> wbit b (adr + i))"

definition holds_ones :: "64 word list \<Rightarrow> 64 word list \<Rightarrow> nat \<Rightarrow> nat \<Rightarrow> nat \<Rightarrow> 64 word list \<Rightarrow> bool" where
  "holds_ones a b adr done_bits cnt val \<longleftrightarrow> length val = cnt \<and>
     (\<forall>i<64 * cnt. wbit val i \<longleftrightarrow> i < done_bits \<and> wbit a (adr + i) \<and> \<not> wbit b (adr + i))"

lemma wbit_move:
  assumes "j < k" "p mod 64 + k \<le> 64"
  shows "wbit ws (p + j) = bit (ws ! (p div 64)) (p mod 64 + j)"
proof -
  have "p + j = 64 * (p div 64) + (p mod 64 + j)" by simp
  then show ?thesis using wbit_word [of "p mod 64 + j" ws "p div 64"] assms by simp
qed

lemma and_not_if: "(if b \<noteq> 0 then a AND NOT b else a) = a AND NOT (b :: 64 word)"
  by simp

lemma holds_ones_step:
  assumes h: "holds_ones a b adr0 vpos cnt val" and moved: "adr mod 64 + k \<le> 64" "vpos mod 64 + k \<le> 64" "0 < k"
    and pos: "adr = adr0 + vpos" "vpos + k \<le> 64 * cnt"
    and t: "\<And>j. j < 64 \<Longrightarrow> bit t j \<longleftrightarrow> j < k \<and> wbit a (adr + j) \<and> \<not> wbit b (adr + j)"
  shows "holds_ones a b adr0 (vpos + k) cnt (val[vpos div 64 := val ! (vpos div 64) OR push_bit (vpos mod 64) t])"
proof -
  let ?d = "vpos div 64" and ?o = "vpos mod 64"
  have len: "length val = cnt" and old: "\<And>i. i < 64 * cnt \<Longrightarrow> wbit val i \<longleftrightarrow> i < vpos \<and> wbit a (adr0 + i) \<and> \<not> wbit b (adr0 + i)"
    using h by (auto simp: holds_ones_def)
  have d: "?d < cnt" using pos(2) moved(3) by auto
  have vp: "vpos = 64 * ?d + ?o" by simp
  have "wbit (val[?d := val ! ?d OR push_bit ?o t]) i \<longleftrightarrow> i < vpos + k \<and> wbit a (adr0 + i) \<and> \<not> wbit b (adr0 + i)"
    if i: "i < 64 * cnt" for i
  proof -
    obtain e j where ej: "i = 64 * e + j" "j < 64" using position_split [of i] by blast
    show ?thesis
    proof (cases "e = ?d")
      case True
      have i': "i = vpos + (j - ?o)" if "?o \<le> j" using that ej True vp by linarith
      have "bit (push_bit ?o t) j \<longleftrightarrow> ?o \<le> j \<and> j < ?o + k \<and> wbit a (adr0 + i) \<and> \<not> wbit b (adr0 + i)"
      proof (cases "?o \<le> j")
        case True
        have "adr + (j - ?o) = adr0 + i" using i' [OF True] pos(1) by linarith
        then show ?thesis using t [of "j - ?o"] ej(2) True by (auto simp: bit_push_bit_iff)
      qed (simp add: bit_push_bit_iff)
      moreover have "wbit (val[?d := val ! ?d OR push_bit ?o t]) i \<longleftrightarrow> wbit val i \<or> bit (push_bit ?o t) j"
        using True ej d len by (simp add: wbit_word bit_or_iff)
      moreover have "j < ?o \<longleftrightarrow> i < vpos" "j < ?o + k \<longleftrightarrow> i < vpos + k" using ej True vp by linarith+
      ultimately show ?thesis using old [OF i] by auto
    next
      case False
      then have "wbit (val[?d := val ! ?d OR push_bit ?o t]) i = wbit val i" using ej by (simp add: wbit_word)
      moreover have "i < vpos \<longleftrightarrow> i < vpos + k" using False ej vp moved(2) by linarith
      ultimately show ?thesis using old [OF i] by simp
    qed
  qed
  then show ?thesis using len by (simp add: holds_ones_def)
qed

text \<open>The result of reading a part, from any state of the loop.\<close>

definition part_read :: "64 word list \<Rightarrow> 64 word list \<Rightarrow> nat \<Rightarrow> nat \<Rightarrow> bool \<Rightarrow> 64 word list option \<Rightarrow> bool" where
  "part_read a b adr wid xz_to_0 r \<longleftrightarrow>
     (if part_known b adr wid \<or> xz_to_0 then \<exists>val. r = Some val \<and> holds_ones a b adr wid (word_count wid) val else r = None)"

lemma masked_bits:
  assumes "adr mod 64 + k \<le> 64" "j < 64"
  shows "bit (drop_bit (adr mod 64) (ws ! (adr div 64)) AND (if k < 64 then low_mask k else - 1)) j \<longleftrightarrow> j < k \<and> wbit ws (adr + j)"
proof (cases "j < k")
  case True
  then show ?thesis using wbit_move [OF True assms(1)] assms(2) by (auto simp: bit_and_iff bit_drop_bit_eq)
next
  case False
  then show ?thesis using assms(2) by (auto simp: bit_and_iff)
qed

lemma subarray_loop_read:
  assumes "adr = adr0 + vpos" "vpos + wid = W" "adr0 + W \<le> 64 * length a" "part_known b adr0 vpos \<or> x"
    "holds_ones a b adr0 vpos (word_count W) val"
  shows "\<exists>r. subarray_loop x wid adr vpos a b val = Some r \<and> part_read a b adr0 W x r"
  using assms
proof (induction x wid adr vpos a b val rule: subarray_loop.induct)
  case (1 x wid adr vpos a b val)
  show ?case
  proof (cases "wid > 0")
    case False
    then show ?thesis using 1(2-) by (subst subarray_loop.simps) (auto simp: part_read_def)
  next
    case True
    define off where "off = adr mod 64"
    define voff where "voff = vpos mod 64"
    define k where "k = min (min (64 - off) (64 - voff)) wid"
    define m :: "64 word" where "m = (if k < 64 then low_mask k else - 1)"
    define at where "at = drop_bit off (a ! (adr div 64)) AND m"
    define bt where "bt = drop_bit off (b ! (adr div 64)) AND m"
    let ?t = "if bt \<noteq> 0 then at AND NOT bt else at"
    let ?val = "val[vpos div 64 := val ! (vpos div 64) OR push_bit voff ?t]"
    have "off < 64" "voff < 64" by (simp_all add: off_def voff_def)
    then have bnd: "off < 64" "voff < 64" "0 < k" "k \<le> wid" "off + k \<le> 64" "voff + k \<le> 64"
      unfolding k_def using True by linarith+
    have rng: "\<not> adr div 64 \<ge> length a" using 1(2-4) True by auto
    have ab: "bit at j \<longleftrightarrow> j < k \<and> wbit a (adr + j)" "bit bt j \<longleftrightarrow> j < k \<and> wbit b (adr + j)" if "j < 64" for j
      using masked_bits [OF bnd(5) [unfolded off_def] that] unfolding at_def bt_def m_def off_def by auto
    have e: "subarray_loop x wid adr vpos a b val =
        (if bt \<noteq> 0 \<and> \<not> x then Some None else subarray_loop x (wid - k) (adr + k) (vpos + k) a b ?val)"
      unfolding at_def bt_def m_def k_def off_def voff_def using True rng
      by (subst subarray_loop.simps) (simp only: Let_def if_True if_False)
    have bt0: "bt = 0 \<longleftrightarrow> (\<forall>j<k. \<not> wbit b (adr + j))"
      using ab(2) bnd by (auto simp: word_eq_bits)
    have W: "vpos + k \<le> 64 * word_count W" using 1(3) bnd by (auto simp: word_count_def)
    show ?thesis
    proof (cases "bt \<noteq> 0 \<and> \<not> x")
      case stop: True
      then obtain j where "j < k" "wbit b (adr + j)" using bt0 by auto
      then have "\<not> part_known b adr0 W" using 1(2,3) bnd unfolding part_known_def by (auto intro!: exI [of _ "vpos + j"] simp: add.assoc)
      then show ?thesis unfolding e using stop by (simp add: part_read_def)
    next
      case go: False
      have "holds_ones a b adr0 (vpos + k) (word_count W) ?val" unfolding voff_def
        by (rule holds_ones_step [OF 1(6)])
          (use bnd 1(2) W ab and_not_if [of bt at] in \<open>auto simp: off_def voff_def bit_and_iff bit_not_iff\<close>)
      moreover have "part_known b adr0 (vpos + k) \<or> x"
      proof (cases x)
        case False
        then have "part_known b adr0 vpos" and z: "\<forall>j<k. \<not> wbit b (adr + j)" using 1(5) go bt0 by auto
        then have "\<not> wbit b (adr0 + i)" if "i < vpos + k" for i
          using that 1(2) spec [OF z, of "i - vpos"] by (cases "i < vpos") (auto simp: part_known_def)
        then show ?thesis by (simp add: part_known_def)
      qed simp
      ultimately have "\<exists>r. subarray_loop x (wid - k) (adr + k) (vpos + k) a b ?val = Some r \<and> part_read a b adr0 W x r"
        by (intro 1(1) [OF True rng off_def voff_def k_def m_def at_def bt_def go]) (use 1(2-4) bnd in auto)
      then show ?thesis unfolding e by (simp only: go if_False)
    qed
  qed
qed

lemma v4_subarray_read:
  assumes "wf_vec v" "adr + wid \<le> vsize v" "0 < wid"
  shows "\<exists>r. v4_subarray v adr wid x = Some r \<and> part_read (abits v) (bbits v) adr wid x r"
proof (cases "vsize v \<le> 64")
  case True
  define m :: "64 word" where "m = (if wid < 64 then low_mask wid else - 1)"
  define at where "at = drop_bit adr (abits v ! 0) AND m"
  define bt where "bt = drop_bit adr (bbits v ! 0) AND m"
  have adr: "adr < 64" "adr mod 64 = adr" "adr div 64 = 0" "adr mod 64 + wid \<le> 64" "word_count wid = 1"
    using True assms(2,3) by (auto simp: word_count_def)
  have ab: "bit at j \<longleftrightarrow> j < wid \<and> wbit (abits v) (adr + j)" "bit bt j \<longleftrightarrow> j < wid \<and> wbit (bbits v) (adr + j)" if "j < 64" for j
    using masked_bits [OF adr(4) that] adr(1) unfolding at_def bt_def m_def by auto
  have e: "v4_subarray v adr wid x = (if bt \<noteq> 0 \<and> \<not> x then Some None else Some (Some [at AND NOT bt]))"
    using True adr(1,5) assms(3) and_not_if [of bt at]
    unfolding v4_subarray_def Let_def m_def [symmetric] at_def [symmetric] bt_def [symmetric] by simp
  have bt0: "bt = 0 \<longleftrightarrow> part_known (bbits v) adr wid" using ab(2) adr(4) by (auto simp: word_eq_bits part_known_def)
  have "holds_ones (abits v) (bbits v) adr wid 1 [at AND NOT bt]"
    using ab by (auto simp: holds_ones_def wbit_single bit_and_iff bit_not_iff)
  then show ?thesis using bt0 adr(5) by (auto simp: e part_read_def)
next
  case False
  have "holds_ones (abits v) (bbits v) adr 0 (word_count wid) (replicate (word_count wid) 0)"
  proof -
    have "\<not> wbit (replicate (word_count wid) 0) i" if "i < 64 * word_count wid" for i using that by (simp add: wbit_def)
    then show ?thesis by (simp add: holds_ones_def)
  qed
  then have "\<exists>r. subarray_loop x wid adr 0 (abits v) (bbits v) (replicate (word_count wid) 0) = Some r \<and>
      part_read (abits v) (bbits v) adr wid x r"
    using stored_covers [of "vsize v"] assms(1,2)
    by (intro subarray_loop_read) (auto simp: wf_vec_def part_known_def)
  then show ?thesis using False by (simp add: v4_subarray_def)
qed

section \<open>Copying bits at the old size\<close>

text \<open>One array of \<open>copy_bits\<close> from a source of \<open>m\<close> bits into a destination of \<open>n\<close>. For a source of exactly
  one word and a longer destination, the code sets the mask to all ones but clears nothing.\<close>

definition copy_bits_words :: "nat \<Rightarrow> nat \<Rightarrow> 64 word list \<Rightarrow> 64 word list \<Rightarrow> 64 word list" where
  "copy_bits_words n m src dst =
     (if n = m then (if n > 64 then map ((!) src) [0..<word_count n] else [src ! 0])
      else if n \<le> 64 \<and> m \<le> 64
      then let bits_to_copy = min m n; msk = (if bits_to_copy < 64 then push_bit bits_to_copy 1 else 0) - 1
           in [(dst ! 0 AND NOT msk) OR (src ! 0 AND msk)]
      else if n \<le> 64 then [if n < 64 then src ! 0 AND low_mask n else src ! 0]
      else if m \<le> 64
      then let w = (if m < 64 then dst ! 0 AND NOT (low_mask m) else dst ! 0); msk = (if m < 64 then low_mask m else - 1)
           in dst[0 := w OR (src ! 0 AND msk)]
      else let bits_to_copy = min m n; k = bits_to_copy div 64; r = bits_to_copy mod 64;
               ws = map (\<lambda>word. if word < k then src ! word else dst ! word) [0..<length dst]
           in if r > 0 then ws[k := (ws ! k AND NOT (low_mask r)) OR (src ! k AND low_mask r)] else ws)"

definition v4_copy_bits :: "vvp_vector4 \<Rightarrow> vvp_vector4 \<Rightarrow> vvp_vector4" where
  "v4_copy_bits v that =
     v\<lparr>abits := copy_bits_words (vsize v) (vsize that) (abits that) (abits v),
       bbits := copy_bits_words (vsize v) (vsize that) (bbits that) (bbits v)\<rparr>"

lemma merge_bits: "j < 64 \<Longrightarrow> bit ((d AND NOT (low_mask r)) OR (s AND low_mask r)) j = (if j < r then bit s j else bit d j)"
  by (auto simp: bit_or_iff bit_and_iff bit_not_iff)

lemma copy_bits_words_bits:
  assumes "length src = stored_words m" "length dst = stored_words n" "m \<noteq> 64 \<or> n \<le> 64"
  shows "length (copy_bits_words n m src dst) = stored_words n \<and>
    (\<forall>i<n. wbit (copy_bits_words n m src dst) i = (if i < m then wbit src i else wbit dst i))"
proof -
  consider (same) "n = m" | (short) "n \<noteq> m" "n \<le> 64" "m \<le> 64" | (low) "n \<le> 64" "m > 64" | (head) "n > 64" "m < 64"
    | (long) "n \<noteq> m" "n > 64" "m > 64" using assms(3) by linarith
  then show ?thesis
  proof cases
    case same
    then have "wbit (copy_bits_words n m src dst) i = wbit src i" if "i < n" for i
      using that wbit_word [of i src 0] nth_words_long [of i n "(!) src"]
      by (cases "n > 64") (simp_all add: copy_bits_words_def wbit_single, simp add: wbit_def)
    then show ?thesis using same by (simp add: copy_bits_words_def stored_words_def)
  next
    case short
    have "min m n < 64" using short by linarith
    moreover from this have "push_bit (min m n) 1 - 1 = low_mask (min m n)" by (simp add: low_mask_def)
    ultimately have "copy_bits_words n m src dst = [(dst ! 0 AND NOT (low_mask (min m n))) OR (src ! 0 AND low_mask (min m n))]"
      using short unfolding copy_bits_words_def Let_def by simp
    then show ?thesis using short wbit_word [of _ src 0] wbit_word [of _ dst 0] merge_bits
      by (auto simp: stored_short wbit_single)
  next
    case low
    then show ?thesis using wbit_word [of _ src 0]
      by (auto simp: copy_bits_words_def stored_short wbit_single bit_and_iff)
  next
    case head
    then have e: "copy_bits_words n m src dst = dst[0 := (dst ! 0 AND NOT (low_mask m)) OR (src ! 0 AND low_mask m)]"
      by (simp add: copy_bits_words_def Let_def)
    have l: "0 < length dst" using assms(2) head by (simp add: stored_words_def word_count_def)
    have "wbit (copy_bits_words n m src dst) (64 * k + j) = (if 64 * k + j < m then wbit src (64 * k + j) else wbit dst (64 * k + j))" if "j < 64" for k j
      using that l head merge_bits [OF that] by (cases "k = 0") (auto simp: e wbit_word wbit_word [of j _ 0, simplified])
    then show ?thesis using e assms(2) position_split by (metis length_list_update)
  next
    case long
    define k where "k = min m n div 64"
    define r where "r = min m n mod 64"
    let ?ws = "map (\<lambda>word. if word < k then src ! word else dst ! word) [0..<length dst]"
    have e: "copy_bits_words n m src dst = (if r > 0 then ?ws[k := (?ws ! k AND NOT (low_mask r)) OR (src ! k AND low_mask r)] else ?ws)"
      using long unfolding copy_bits_words_def Let_def k_def r_def by simp
    have len: "length dst = word_count n" using assms(2) long by (simp add: stored_long)
    have mn: "min m n = 64 * k + r" "r < 64" by (simp_all add: k_def r_def)
    have "wbit (copy_bits_words n m src dst) i = (if i < m then wbit src i else wbit dst i)" if i: "i < n" for i
    proof -
      obtain q j where ej: "i = 64 * q + j" "j < 64" using position_split [of i] by blast
      have q: "q < length dst" using last_word_fill(1) [of q j n] i ej len by simp
      have im: "i < m \<longleftrightarrow> q < k \<or> (q = k \<and> j < r)" using i ej mn by (auto simp: min_def split: if_splits)
      show ?thesis using im q ej merge_bits [OF ej(2)] unfolding e by (auto simp: wbit_word nth_list_update)
    qed
    then show ?thesis using len long by (simp add: e stored_long)
  qed
qed

lemma v4_copy_bits_bits:
  assumes "wf_vec v" "wf_vec that" "vsize that \<noteq> 64 \<or> vsize v \<le> 64"
  shows "wf_vec (v4_copy_bits v that) \<and>
    vec_bits (v4_copy_bits v that) = take (vsize v) (vec_bits that) @ drop (vsize that) (vec_bits v)"
proof -
  note a = copy_bits_words_bits [of "abits that" "vsize that" "abits v" "vsize v"]
    and b = copy_bits_words_bits [of "bbits that" "vsize that" "bbits v" "vsize v"]
  have "vec_bits (v4_copy_bits v that) = take (vsize v) (vec_bits that) @ drop (vsize that) (vec_bits v)"
  proof (rule vec_bits_wbitI [of _ "vsize v"])
    fix i assume i: "i < vsize v"
    show "decode (wbit (abits (v4_copy_bits v that)) i) (wbit (bbits (v4_copy_bits v that)) i) =
        (take (vsize v) (vec_bits that) @ drop (vsize that) (vec_bits v)) ! i"
      using a b assms i by (auto simp: v4_copy_bits_def wf_vec_def nth_append vec_bits_wbit)
  qed (auto simp: v4_copy_bits_def)
  then show ?thesis using a b assms by (simp add: v4_copy_bits_def wf_vec_def)
qed

end
