(* ===== verification/Vvp_Claims.thy ===== *)
theory Vvp_Claims
  imports Vvp_Transfer
begin

text \<open>
  What the packed vectors promise: the word operations are the bitwise operations of the
  four-valued logic, reductions fold them, comparisons compare the bits, arithmetic is
  arithmetic modulo the size, and part selects and transfers move exactly the bits of the part.
\<close>

unbundle bit_operations_syntax

definition word_pattern :: vvp_vector4 where
  "word_pattern = \<lparr>vsize = 70, abits = [5, 3], bbits = [4, 0]\<rparr>"

definition known_pattern :: vvp_vector4 where
  "known_pattern = \<lparr>vsize = 70, abits = [5, 3], bbits = [0, 0]\<rparr>"

lemma patterns [simp]:
  "wf_vec word_pattern" "vsize word_pattern = 70" "wf_vec known_pattern" "vsize known_pattern = 70"
  by (simp_all add: word_pattern_def known_pattern_def wf_vec_def stored_words_def word_count_def)

lemma known_pattern [simp]: "known_vec known_pattern"
proof -
  have "[0, 0] ! (i div 64) = (0 :: 64 word)" if "i < 70" for i :: nat
    using that by (cases "i div 64") (auto simp: nth_Cons')
  then show ?thesis by (simp add: known_vec_def known_pattern_def)
qed

text \<open>Writing a bit inside the vector replaces that bit and no other; a write outside
  it asserts.\<close>

theorem set_bit_claim:
  assumes "wf_vec v"
  shows "if i < vsize v then \<exists>v'. v4_set_bit v i b = Some v' \<and> wf_vec v' \<and> vec_bits v' = (vec_bits v)[i := b]
    else v4_set_bit v i b = None"
  using v4_set_bit_bits [OF assms] by (simp add: v4_set_bit_def)

theorem set_bit_claim_witness:
  "\<exists>v'. v4_set_bit word_pattern 66 BIT4_Z = Some v' \<and> vec_bits v' = (vec_bits word_pattern)[66 := BIT4_Z]"
  using set_bit_claim [of word_pattern 66 BIT4_Z] by auto

text \<open>The word-parallel operators are the bit operators applied position by position,
  for any left-over bits beyond the size.\<close>

theorem logic_claim:
  assumes "vsize v = vsize w"
  shows "vec_bits (v4_and v w) = map2 bit4_and (vec_bits v) (vec_bits w) \<and>
    vec_bits (v4_or v w) = map2 bit4_or (vec_bits v) (vec_bits w) \<and>
    vec_bits (v4_xor v w) = map2 bit4_xor (vec_bits v) (vec_bits w) \<and>
    vec_bits (invert v) = map bit4_not (vec_bits v) \<and>
    vec_bits (copy_inverted_from v) = map bit4_not (vec_bits v) \<and>
    vec_bits (change_z2x v) = map vvp_bit4_z2x (vec_bits v)"
  by (intro conjI v4_logic_bits [OF assms] invert_bits z2x_bits)

theorem logic_claim_witness:
  "vec_bits (v4_and word_pattern known_pattern) = map2 bit4_and (vec_bits word_pattern) (vec_bits known_pattern)"
  using logic_claim [of word_pattern known_pattern] by simp

text \<open>The reductions, which work on whole words and compute the parity by folding a
  word onto itself, are the folds of the bit operators over all bits of the vector.\<close>

theorem reduce_claim:
  assumes "wf_vec v" "0 < vsize v"
  shows "reduce_or v = foldr bit4_or (vec_bits v) BIT4_0 \<and> reduce_and v = foldr bit4_and (vec_bits v) BIT4_1 \<and>
    reduce_xor v = foldr bit4_xor (vec_bits v) BIT4_0"
  by (intro conjI reduce_or_bits reduce_and_bits reduce_xor_bits assms)

theorem reduce_claim_witness:
  "reduce_xor known_pattern = foldr bit4_xor (vec_bits known_pattern) BIT4_0 \<and> reduce_xor known_pattern = BIT4_0"
proof -
  have "reduce_xor known_pattern = BIT4_0" by code_simp
  then show ?thesis using reduce_claim [of known_pattern] by simp
qed

text \<open>The exact comparison holds for vectors with the same bits, the other one for
  vectors that agree when z is read as x, and the test finds an unknown bit exactly when there is
  one among the bits of the vector.\<close>

theorem compare_claim:
  assumes "0 < vsize v"
  shows "eeq v w = (vec_bits v = vec_bits w) \<and>
    eq_xz v w = (map vvp_bit4_z2x (vec_bits v) = map vvp_bit4_z2x (vec_bits w)) \<and>
    has_xz v = Some (\<exists>b\<in>set (vec_bits v). bit4_is_xz b)"
  by (intro conjI eeq_bits eq_xz_bits has_xz_bits assms)

theorem compare_claim_witness:
  "has_xz word_pattern = Some True \<and> (\<exists>b\<in>set (vec_bits word_pattern). bit4_is_xz b)"
proof -
  have "has_xz word_pattern = Some True" by code_simp
  then show ?thesis using compare_claim [of word_pattern word_pattern] by simp
qed

text \<open>Sum and difference of two vectors of the same size are taken modulo the size;
  an unknown bit in either makes every bit of the result x, whatever the number of words.\<close>

theorem add_sub_claim:
  assumes "wf_vec v" "wf_vec w" "vsize v = vsize w"
  shows "\<exists>r s. v4_add v w = Some r \<and> v4_sub v w = Some s \<and> wf_vec r \<and> wf_vec s \<and>
    (if known_vec v \<and> known_vec w
     then bits_val (vec_bits r) = (bits_val (vec_bits v) + bits_val (vec_bits w)) mod 2 ^ vsize v \<and>
          bits_val (vec_bits s) = (bits_val (vec_bits v) - bits_val (vec_bits w)) mod 2 ^ vsize v \<and>
          known_vec r \<and> known_vec s
     else vec_bits r = replicate (vsize v) BIT4_X \<and> vec_bits s = replicate (vsize v) BIT4_X)"
proof -
  obtain r s where r: "v4_add v w = Some r" "arith_result (bits_val (vec_bits v) + bits_val (vec_bits w)) v w r"
    and s: "v4_sub v w = Some s" "arith_result (bits_val (vec_bits v) - bits_val (vec_bits w)) v w s"
    using v4_add_result [OF assms] v4_sub_result [OF assms] by blast
  then show ?thesis by (intro exI [of _ r] exI [of _ s]) (auto simp: arith_result_def split: if_splits)
qed

theorem add_sub_claim_witness:
  "\<exists>r s. v4_add known_pattern known_pattern = Some r \<and> v4_sub known_pattern known_pattern = Some s \<and>
     known_vec r \<and> bits_val (vec_bits s) = 0"
  using add_sub_claim [of known_pattern known_pattern] by auto

text \<open>The product, computed word by word from half-word products with the carries
  running to the last word, is the product modulo the size.\<close>

theorem mul_claim:
  assumes "wf_vec v" "wf_vec w" "vsize v = vsize w"
  shows "\<exists>r. v4_mul v w = Some r \<and> wf_vec r \<and> vsize r = vsize v \<and>
    (if known_vec v \<and> known_vec w
     then known_vec r \<and> bits_val (vec_bits r) = (bits_val (vec_bits v) * bits_val (vec_bits w)) mod 2 ^ vsize v
     else vec_bits r = replicate (vsize v) BIT4_X)"
  using v4_mul_result [OF assms] by (auto simp: arith_result_def)

theorem mul_claim_witness:
  "\<exists>r. v4_mul known_pattern known_pattern = Some r \<and> known_vec r \<and>
     bits_val (vec_bits r) = (bits_val (vec_bits known_pattern))\<^sup>2 mod 2 ^ 70"
  using mul_claim [of known_pattern known_pattern] by (auto simp: power2_eq_square)

text \<open>Adding a native integer bit by bit, with the early exits of the loop, is the
  addition modulo the size for negative integers too.\<close>

theorem plus_int_claim:
  assumes "wf_vec v" "0 < vsize v"
  shows "\<exists>r. v4_plus_int v i = Some r \<and> wf_vec r \<and> vsize r = vsize v \<and>
    (if known_vec v then known_vec r \<and> bits_val (vec_bits r) = (bits_val (vec_bits v) + sint i) mod 2 ^ vsize v
     else vec_bits r = replicate (vsize v) BIT4_X)"
  using v4_plus_int_result [OF assms] by (auto simp: arith_result_def)

theorem plus_int_claim_witness:
  "\<exists>r. v4_plus_int known_pattern (- 7) = Some r \<and>
     bits_val (vec_bits r) = (bits_val (vec_bits known_pattern) - 7) mod 2 ^ 70"
proof -
  have "sint (- 7 :: 64 word) = - 7" by code_simp
  then show ?thesis using plus_int_claim [of known_pattern "- 7"] by auto
qed

section \<open>Parts\<close>

text \<open>A part select has the width asked for, the bits of the source where they exist and
  x beyond its end, whatever the alignment of the part.\<close>

theorem subvalue_claim:
  assumes "wf_vec that" "adr + wid < 2 ^ 32"
  shows "\<exists>r. v4_subvalue that adr wid = Some r \<and> wf_vec r \<and>
    vec_bits r = map (\<lambda>i. if adr + i < vsize that then vec_bits that ! (adr + i) else BIT4_X) [0..<wid]"
proof -
  have "v4_value that k = (if k < vsize that then vec_bits that ! k else BIT4_X)" for k
    by (simp add: vec_bits_nth) (simp add: v4_value_def)
  then show ?thesis using v4_subvalue_bits [OF assms] by auto
qed

theorem subvalue_claim_witness:
  "\<exists>r. v4_subvalue word_pattern 60 20 = Some r \<and>
     vec_bits r = map (\<lambda>i. if 60 + i < 70 then vec_bits word_pattern ! (60 + i) else BIT4_X) [0..<20]"
  using subvalue_claim [of word_pattern 60 20] by auto

text \<open>Writing a vector into a part of another replaces the bits of the part and no others,
  across word boundaries and at any alignment, and reports exactly whether any bit changed.\<close>

theorem set_vec_claim:
  assumes "wf_vec v" "wf_vec that" "adr + vsize that \<le> vsize v" "0 < vsize that"
  shows "\<exists>v' diff. v4_set_vec v adr that = Some (v', diff) \<and> wf_vec v' \<and>
    vec_bits v' = take adr (vec_bits v) @ vec_bits that @ drop (adr + vsize that) (vec_bits v) \<and>
    (diff \<longleftrightarrow> vec_bits v' \<noteq> vec_bits v)"
  by (rule v4_set_vec_bits [OF assms])

theorem set_vec_claim_witness:
  "\<exists>v' diff. v4_set_vec (vector4_fill 200 BIT4_Z) 33 word_pattern = Some (v', diff) \<and>
     vec_bits v' = replicate 33 BIT4_Z @ vec_bits word_pattern @ replicate 97 BIT4_Z"
proof -
  have "wf_vec (vector4_fill 200 BIT4_Z)" "vsize (vector4_fill 200 BIT4_Z) = 200" by (simp_all add: vector4_fill_def)
  then show ?thesis using set_vec_claim [of "vector4_fill 200 BIT4_Z" word_pattern 33] by (auto simp: vector4_fill_bits)
qed

text \<open>Resizing keeps the bits that fit and fills the rest with the padding bit, whether or
  not the number of words changes.\<close>

theorem resize_claim:
  assumes "wf_vec v"
  shows "wf_vec (v4_resize v newsize p) \<and> vsize (v4_resize v newsize p) = newsize \<and>
    vec_bits (v4_resize v newsize p) = take newsize (vec_bits v) @ replicate (newsize - vsize v) p"
  using v4_resize_bits [OF assms, of newsize p] by (simp add: v4_resize_def)

theorem resize_claim_witness:
  "vec_bits (v4_resize word_pattern 130 BIT4_Z) = vec_bits word_pattern @ replicate 60 BIT4_Z"
  using resize_claim [of word_pattern 130 BIT4_Z] by simp

lemma part_known_bits:
  assumes "adr + wid \<le> vsize v"
  shows "part_known (bbits v) adr wid \<longleftrightarrow> (\<forall>b\<in>set (take wid (drop adr (vec_bits v))). \<not> bit4_is_xz b)"
proof -
  have b: "bit4_is_xz (decode x y) \<longleftrightarrow> y" for x y by (cases x; cases y) simp_all
  show ?thesis unfolding all_set_conv_all_nth using assms by (auto simp: part_known_def vec_bits_wbit b)
qed

text \<open>C38. Reading a part of a vector as plain words and storing the words elsewhere moves the bits
  of the part; with an unknown bit in the part the read gives no array.\<close>

theorem array_claim:
  assumes "wf_vec v" "wf_vec w" "adr + wid \<le> vsize v" "dst + wid \<le> vsize w" "0 < wid"
  shows "if \<exists>b\<in>set (take wid (drop adr (vec_bits v))). bit4_is_xz b then v4_subarray v adr wid False = Some None
    else \<exists>val w'. v4_subarray v adr wid False = Some (Some val) \<and> v4_setarray w dst wid val = Some w' \<and>
      vec_bits w' = take dst (vec_bits w) @ take wid (drop adr (vec_bits v)) @ drop (dst + wid) (vec_bits w)"
proof -
  obtain r where r: "v4_subarray v adr wid False = Some r" "part_read (abits v) (bbits v) adr wid False r"
    using v4_subarray_read [OF assms(1,3,5)] by blast
  show ?thesis
  proof (cases "part_known (bbits v) adr wid")
    case True
    then obtain val where val: "r = Some val" "holds_ones (abits v) (bbits v) adr wid (word_count wid) val"
      using r(2) by (auto simp: part_read_def)
    obtain w' where w': "v4_setarray w dst wid val = Some w'"
        "vec_bits w' = take dst (vec_bits w) @ map (\<lambda>i. bool_bit (wbit val i)) [0..<wid] @ drop (dst + wid) (vec_bits w)"
      using v4_setarray_bits [OF assms(2,4) _ assms(5), of val] val(2) by (auto simp: holds_ones_def)
    have "map (\<lambda>i. bool_bit (wbit val i)) [0..<wid] = take wid (drop adr (vec_bits v))"
    proof (rule nth_equalityI)
      fix i assume "i < length (map (\<lambda>i. bool_bit (wbit val i)) [0..<wid])"
      then have i: "i < wid" by simp
      then have "i < 64 * word_count wid" by (auto simp: word_count_def)
      then have "wbit val i = wbit (abits v) (adr + i)" using val(2) i True by (auto simp: holds_ones_def part_known_def)
      then show "map (\<lambda>i. bool_bit (wbit val i)) [0..<wid] ! i = take wid (drop adr (vec_bits v)) ! i"
        using i assms(3) True by (simp add: vec_bits_wbit part_known_def flip: decode_known)
    qed (use assms(3) in simp)
    then show ?thesis using True r(1) val(1) w' part_known_bits [OF assms(3)] by simp
  next
    case False
    then show ?thesis using r part_known_bits [OF assms(3)] by (simp add: part_read_def)
  qed
qed

theorem array_claim_witness:
  "\<exists>val w'. v4_subarray known_pattern 1 69 False = Some (Some val) \<and> v4_setarray word_pattern 1 69 val = Some w' \<and>
     vec_bits w' = take 1 (vec_bits word_pattern) @ drop 1 (vec_bits known_pattern)"
proof -
  have "\<not> (\<exists>b\<in>set (take 69 (drop 1 (vec_bits known_pattern))). bit4_is_xz b)"
    using known_pattern by (auto simp: known_vec_bits dest!: in_set_takeD in_set_dropD)
  then show ?thesis using array_claim [of known_pattern word_pattern 1 69 1] by (auto split: if_splits)
qed

section \<open>Copying bits at the old size\<close>

text \<open>The value of a bit whose encodings are or-ed: an unknown unless one is 0 or both are the same.\<close>

definition or_ed :: "vvp_bit4 \<Rightarrow> vvp_bit4 \<Rightarrow> vvp_bit4" where
  "or_ed d s = (if d = BIT4_0 then s else if s = BIT4_0 then d else if d = s then d else BIT4_X)"

lemma decode_or_ed: "decode (a \<or> a') (b \<or> b') = or_ed (decode a b) (decode a' b')"
  by (cases a; cases b; cases a'; cases b'; simp add: or_ed_def)

lemma copy_word_into_longer:
  assumes "n > 64" "length dst = stored_words n" "i < n"
  shows "wbit (copy_bits_words n 64 src dst) i \<longleftrightarrow> wbit dst i \<or> i < 64 \<and> wbit src i"
proof -
  have e: "copy_bits_words n 64 src dst = dst[0 := dst ! 0 OR src ! 0]"
    using assms(1) by (simp add: copy_bits_words_def Let_def)
  have l: "0 < length dst" using assms(1,2) by (simp add: stored_words_def word_count_def)
  obtain q j where ej: "i = 64 * q + j" "j < 64" using position_split [of i] by blast
  show ?thesis using ej l wbit_word [OF ej(2), of _ 0]
    by (cases "q = 0") (auto simp: e wbit_word bit_or_iff)
qed

text \<open>C39. Copying bits at the old size takes the low bits from the source, except that a
  source of exactly one word (64 bits) is or-ed into a longer destination: each of the low 64 bits
  then has the encoding of the old bit or-ed with that of the source, so that only a bit that was 0
  takes the value of the source.\<close>

theorem copy_bits_claim:
  assumes "wf_vec v" "wf_vec that"
  shows "vec_bits (v4_copy_bits v that) =
    (if vsize that = 64 \<and> vsize v > 64
     then map2 or_ed (take 64 (vec_bits v)) (vec_bits that) @ drop 64 (vec_bits v)
     else take (vsize v) (vec_bits that) @ drop (vsize that) (vec_bits v))"
proof (cases "vsize that = 64 \<and> vsize v > 64")
  case True
  then have w: "vsize that = 64" "vsize v > 64" by auto
  have "vec_bits (v4_copy_bits v that) = map2 or_ed (take 64 (vec_bits v)) (vec_bits that) @ drop 64 (vec_bits v)"
  proof (rule vec_bits_wbitI [of _ "vsize v"])
    fix i assume i: "i < vsize v"
    have l: "length (abits v) = stored_words (vsize v)" "length (bbits v) = stored_words (vsize v)"
      using assms(1) by (simp_all add: wf_vec_def)
    show "decode (wbit (abits (v4_copy_bits v that)) i) (wbit (bbits (v4_copy_bits v that)) i) =
        (map2 or_ed (take 64 (vec_bits v)) (vec_bits that) @ drop 64 (vec_bits v)) ! i"
      using w i by (simp add: v4_copy_bits_def copy_word_into_longer [OF w(2) l(1) i] copy_word_into_longer [OF w(2) l(2) i]
        nth_append vec_bits_wbit decode_or_ed or_ed_def [of _ BIT4_0])
  qed (use w in \<open>auto simp: v4_copy_bits_def\<close>)
  then show ?thesis using True by simp
next
  case False
  then show ?thesis using v4_copy_bits_bits [OF assms] by auto
qed

theorem copy_bits_claim_witness:
  "vec_bits (v4_copy_bits word_pattern (vector4_fill 3 BIT4_0)) = replicate 3 BIT4_0 @ drop 3 (vec_bits word_pattern) \<and>
   vec_bits (v4_copy_bits (vector4_fill 70 BIT4_1) (vector4_fill 64 BIT4_0)) = replicate 70 BIT4_1"
proof -
  have "wf_vec (vector4_fill n b)" "vsize (vector4_fill n b) = n" for n b by (simp_all add: vector4_fill_def)
  moreover have "map2 or_ed (replicate 64 BIT4_1) (replicate 64 BIT4_0) @ replicate 6 BIT4_1 = replicate 70 BIT4_1"
    by (simp add: zip_replicate or_ed_def flip: replicate_add)
  ultimately show ?thesis using copy_bits_claim [of word_pattern "vector4_fill 3 BIT4_0"]
      copy_bits_claim [of "vector4_fill 70 BIT4_1" "vector4_fill 64 BIT4_0"] by (simp add: vector4_fill_bits)
qed

end
