(* ===== verification/Symbols.thy ===== *)
theory Symbols
  imports Prelude "HOL-Library.Word" "HOL-Library.Char_ord" "HOL-Library.List_Lexorder"
begin

text \<open>
  The symbol table of \<^verbatim>\<open>vvp/symbols.cc\<close>: a B-tree from C strings to pointers. Leaves hold a
  sorted array of key-value pairs, inner nodes an array of children; the key of a child is the
  last key below it and is looked up on demand. The code follows parent pointers when a full node
  is split; here the chain of parents is a list of frames, each holding the siblings before and
  after the child that the search went into, so that a split loops over the frames as the code
  loops over the parents. The arrays have the widths of the code, an access past them is \<open>None\<close>.

  The theorems: the search finds the right child, the tree stays sorted, balanced and between half
  full and full, no assertion fails, and the table is a map in which a read creates the missing
  key with the value zero.
\<close>

section \<open>Strings and the key store\<close>

type_synonym symbol_value = "64 word"

text \<open>C strings are the characters before the terminator; a string that ends sorts first.\<close>

fun strcmp :: "string \<Rightarrow> string \<Rightarrow> int" where
  "strcmp [] [] = 0"
| "strcmp [] (b # bs) = - 1"
| "strcmp (a # as) [] = 1"
| "strcmp (a # as) (b # bs) =
    (if a = b then strcmp as bs else int (of_char a) - int (of_char b))"

lemma strcmp_order: "(strcmp a b < 0 \<longleftrightarrow> a < b) \<and> (strcmp a b = 0 \<longleftrightarrow> a = b)"
  by (induction a b rule: strcmp.induct) (auto simp: less_char_def)

lemma strcmp_cases [simp]:
  "strcmp a b < 0 \<longleftrightarrow> a < b" "strcmp a b = 0 \<longleftrightarrow> a = b" "0 < strcmp a b \<longleftrightarrow> b < a"
  using strcmp_order [of a b] by auto

text \<open>\<^verbatim>\<open>sizeof key_strings::data\<close> with eight byte pointers.\<close>

definition chunk_size :: nat where
  "chunk_size = 64 * 1024 - 8"

text \<open>
  A chunk is the part of its \<^verbatim>\<open>data\<close> that has been written; the chunks are kept newest first as the
  code links them. A key longer than a chunk fails the assertion; one whose length does not even
  fit \<^verbatim>\<open>unsigned\<close> fails it or overruns the chunk.
\<close>

record key_store =
  str_chunk :: "string list"
  str_used :: nat

definition key_strdup :: "key_store \<Rightarrow> string \<Rightarrow> (key_store \<times> nat \<times> nat) option" where
  "key_strdup ks str = do {
     assert_opt (length str + 1 \<le> chunk_size);
     let ks = (if length str + 1 > chunk_size - str_used ks
               then \<lparr>str_chunk = [] # str_chunk ks, str_used = 0\<rparr> else ks);
     (case str_chunk ks of [] \<Rightarrow> None
      | c # cs \<Rightarrow> Some (\<lparr>str_chunk = (take (str_used ks) c @ str @ [CHR 0x00]) # cs,
                         str_used = str_used ks + (length str + 1)\<rparr>,
                       length cs, str_used ks))
   }"

text \<open>What a key pointer (chunk, counted from the oldest, and offset) reads.\<close>

definition key_at :: "key_store \<Rightarrow> nat \<times> nat \<Rightarrow> string" where
  "key_at ks p = takeWhile (\<lambda>c. c \<noteq> CHR 0x00) (drop (snd p) (rev (str_chunk ks) ! fst p))"

definition valid_ptr :: "key_store \<Rightarrow> nat \<times> nat \<Rightarrow> bool" where
  "valid_ptr ks p \<longleftrightarrow> fst p < length (str_chunk ks) \<and>
     CHR 0x00 \<in> set (drop (snd p) (rev (str_chunk ks) ! fst p))"

definition wf_store :: "key_store \<Rightarrow> bool" where
  "wf_store ks \<longleftrightarrow> str_chunk ks \<noteq> [] \<and> length (hd (str_chunk ks)) = str_used ks \<and>
     list_all (\<lambda>c. length c \<le> chunk_size) (str_chunk ks)"

section \<open>The tree\<close>

definition leaf_width :: nat where
  "leaf_width = 254"

definition node_width :: nat where
  "node_width = 508"

datatype tree_node =
    Leaf "(string \<times> symbol_value) list"
  | Node "tree_node list"

lemma size_nth_child [termination_simp]:
  "i < length cs \<Longrightarrow> size (cs ! i :: tree_node) < Suc (size_list size cs)"
  by (simp add: less_Suc_eq_le size_list_estimation' [OF nth_mem])

text \<open>The parents of a node, nearest first: the siblings before and after the child.\<close>

type_synonym frame = "tree_node list \<times> tree_node list"

fun plug :: "tree_node \<Rightarrow> frame list \<Rightarrow> tree_node" where
  "plug t [] = t"
| "plug t ((l, r) # p) = plug (Node (l @ t # r)) p"

fun node_last_key :: "tree_node \<Rightarrow> string option" where
  "node_last_key (Leaf ds) = (if ds = [] then None else Some (fst (ds ! (length ds - 1))))"
| "node_last_key (Node cs) = (if 0 < length cs then node_last_key (cs ! (length cs - 1)) else None)"

text \<open>
  The two array loops that the functions below share: the one that moves the last entries of an
  array to a new one, and the one that moves entries back to open a place.
\<close>

fun move_tail :: "nat \<Rightarrow> nat \<Rightarrow> 'a list \<Rightarrow> 'a list \<Rightarrow> 'a list \<times> 'a list" where
  "move_tail 0 idx2 cur new = (take idx2 cur, new)"
| "move_tail (Suc idx1) idx2 cur new =
     move_tail idx1 (idx2 - 1) cur (cur ! (idx2 - 1) # new)"

definition split_half :: "'a list \<Rightarrow> 'a list \<times> 'a list" where
  "split_half cur = move_tail (length cur div 2) (length cur) cur []"

fun shift_up :: "nat \<Rightarrow> nat \<Rightarrow> 'a list \<Rightarrow> 'a list" where
  "shift_up tmp idx xs = (if tmp > idx then shift_up (tmp - 1) idx (xs[tmp := xs ! (tmp - 1)]) else xs)"

declare shift_up.simps [simp del]

definition insert_at :: "nat \<Rightarrow> nat \<Rightarrow> 'a \<Rightarrow> 'a list \<Rightarrow> 'a list option" where
  "insert_at width idx x xs =
     (if length xs < width then Some ((shift_up (length xs) idx (xs @ [x]))[idx := x]) else None)"

text \<open>\<^verbatim>\<open>split_node_\<close>: the loop over the ancestors of a full node with children \<open>cs\<close>.\<close>

fun split_node :: "tree_node list \<Rightarrow> frame list \<Rightarrow> tree_node option" where
  "split_node cs p =
    (if length cs = node_width then
       (let (old, new) = split_half cs in
        if new = [] \<or> old = [] then None
        else case p of
          [] \<Rightarrow> Some (Node [Node old, Node new])
        | (l, r) # p' \<Rightarrow>
            (case insert_at node_width (length l + 1) (Node new) (l @ Node old # r) of
               None \<Rightarrow> None
             | Some cs' \<Rightarrow> split_node cs' p'))
     else Some (plug (Node cs) p))"

declare split_node.simps [simp del]

definition split_leaf :: "(string \<times> symbol_value) list \<Rightarrow> frame list \<Rightarrow> tree_node option" where
  "split_leaf ds p =
    (case p of
       [] \<Rightarrow> None
     | (l, r) # p' \<Rightarrow>
         (let (old, new) = split_half ds in
          if new = [] \<or> old = [] then None
          else case insert_at node_width (length l + 1) (Leaf new) (l @ Leaf old # r) of
                 None \<Rightarrow> None
               | Some cs \<Rightarrow> if length cs = node_width then split_node cs p'
                            else Some (plug (Node cs) p')))"

text \<open>The scan of a leaf: how its loop ends.\<close>

datatype leaf_exit = Run_Out | Found nat | Before nat

function leaf_scan :: "string \<Rightarrow> (string \<times> symbol_value) list \<Rightarrow> nat \<Rightarrow> leaf_exit" where
  "leaf_scan key ds idx =
    (if idx \<ge> length ds then Run_Out
     else let rc = strcmp key (fst (ds ! idx)) in
       if rc = 0 then Found idx
       else if rc < 0 then Before idx
       else leaf_scan key ds (idx + 1))"
  by pat_completeness auto
termination by (relation "measure (\<lambda>(key, ds, idx). length ds - idx)") auto

declare leaf_scan.simps [simp del]

text \<open>
  The binary search for a child; \<open>idx\<close> is always the middle of \<open>mn\<close> and \<open>mx\<close>. An empty range
  reads past the children.
\<close>

function child_search :: "string \<Rightarrow> tree_node list \<Rightarrow> nat \<Rightarrow> nat \<Rightarrow> nat option" where
  "child_search key cs mn mx =
    (if mn < mx \<and> mx \<le> length cs then
       (let idx = mn + (mx - mn) div 2 in
        case node_last_key (cs ! idx) of
          None \<Rightarrow> None
        | Some k \<Rightarrow>
            (let rc = strcmp key k in
             if rc = 0 then Some idx
             else if rc > 0 then
               (if idx + 1 = length cs then Some idx
                else if idx + 1 = mx then Some mx
                else child_search key cs (idx + 1) mx)
             else
               (if idx = mn then Some idx else child_search key cs mn idx)))
     else None)"
  by pat_completeness auto
termination by (relation "measure (\<lambda>(key, cs, mn, mx). mx - mn)") auto

declare child_search.simps [simp del]

record symbol_table =
  root :: tree_node
  keys_of :: key_store

definition new_symbol_table :: symbol_table where
  "new_symbol_table = \<lparr>root = Node [], keys_of = \<lparr>str_chunk = [[]], str_used = 0\<rparr>\<rparr>"

text \<open>Storing a new pair at index \<open>idx\<close> of a leaf, with the split of a leaf that gets full.\<close>

definition leaf_insert :: "nat \<Rightarrow> string \<Rightarrow> symbol_value \<Rightarrow> (string \<times> symbol_value) list \<Rightarrow> frame list \<Rightarrow>
    symbol_table \<Rightarrow> symbol_table option" where
  "leaf_insert idx key val ds p tab =
    (case key_strdup (keys_of tab) key of
       None \<Rightarrow> None
     | Some (ks, ptr) \<Rightarrow>
         (case insert_at leaf_width idx (key, val) ds of
            None \<Rightarrow> None
          | Some ds' \<Rightarrow>
              map_option (\<lambda>t. \<lparr>root = t, keys_of = ks\<rparr>)
                (if length ds' = leaf_width then split_leaf ds' p else Some (plug (Leaf ds') p))))"

function find_value :: "tree_node \<Rightarrow> frame list \<Rightarrow> symbol_table \<Rightarrow> string \<Rightarrow> symbol_value \<Rightarrow> bool \<Rightarrow>
    (symbol_table \<times> symbol_value) option" where
  "find_value (Leaf ds) p tab key val force =
    (case leaf_scan key ds 0 of
       Run_Out \<Rightarrow> map_option (\<lambda>tab'. (tab', val)) (leaf_insert (length ds) key val ds p tab)
     | Found idx \<Rightarrow>
         (if force then
            Some (tab\<lparr>root := plug (Leaf (ds[idx := (fst (ds ! idx), val)])) p\<rparr>, val)
          else Some (tab, snd (ds ! idx)))
     | Before idx \<Rightarrow> map_option (\<lambda>tab'. (tab', val)) (leaf_insert idx key val ds p tab))"
| "find_value (Node cs) p tab key val force =
    (case child_search key cs 0 (length cs) of
       None \<Rightarrow> None
     | Some i \<Rightarrow>
         (if i < length cs then
            find_value (cs ! i) ((take i cs, drop (Suc i) cs) # p) tab key val force
          else None))"
  by pat_completeness auto
termination
  by (relation "measure (\<lambda>(t, _). size t)") (auto simp: size_nth_child)

text \<open>\<^verbatim>\<open>root->count == 0\<close> is the test for the first key.\<close>

definition node_count :: "tree_node \<Rightarrow> nat" where
  "node_count t = (case t of Leaf ds \<Rightarrow> length ds | Node cs \<Rightarrow> length cs)"

definition first_value :: "symbol_table \<Rightarrow> string \<Rightarrow> symbol_value \<Rightarrow> symbol_table option" where
  "first_value tab key val =
     map_option (\<lambda>(ks, ptr). \<lparr>root = Node [Leaf [(key, val)]], keys_of = ks\<rparr>)
       (key_strdup (keys_of tab) key)"

definition sym_set_value :: "symbol_table \<Rightarrow> string \<Rightarrow> symbol_value \<Rightarrow> symbol_table option" where
  "sym_set_value tab key val =
     (if node_count (root tab) = 0 then first_value tab key val
      else map_option fst (find_value (root tab) [] tab key val True))"

definition sym_get_value :: "symbol_table \<Rightarrow> string \<Rightarrow> (symbol_table \<times> symbol_value) option" where
  "sym_get_value tab key =
     (if node_count (root tab) = 0 then map_option (\<lambda>tab'. (tab', 0)) (first_value tab key 0)
      else find_value (root tab) [] tab key 0 False)"

end
