(* ===== verification/Opcode.thy ===== *)
theory Opcode
  imports Symbols
begin

text \<open>
  The instruction table of \<^verbatim>\<open>vvp/compile.cc\<close> and the search for a mnemonic. The table is the one of
  the source, a row being the mnemonic, the name of the function that executes the instruction, the
  number of operands and the three operand types. The C library's \<^verbatim>\<open>bsearch\<close> requires a sorted table:
  that the table is sorted is proved row by row, and that every mnemonic is found follows.
\<close>

datatype operand_e =
    OA_NONE | OA_NUMBER | OA_ARR_PTR | OA_BIT1 | OA_BIT2 | OA_CODE_PTR | OA_CODE_PTR2
  | OA_FUNC_PTR | OA_FUNC_PTR2 | OA_VPI_PTR | OA_STRING

type_synonym opcode_row = "string \<times> string \<times> nat \<times> operand_e list"

definition opcode_table :: "opcode_row list" where
  "opcode_table =
    [(''%aar/exists'', ''of_AAR_EXISTS'', 1, [OA_FUNC_PTR, OA_NONE, OA_NONE]),
     (''%aar/key_at'', ''of_AAR_KEY_AT'', 1, [OA_FUNC_PTR, OA_NONE, OA_NONE]),
     (''%aar/size'', ''of_AAR_SIZE'', 1, [OA_FUNC_PTR, OA_NONE, OA_NONE]),
     (''%abs/wr'', ''of_ABS_WR'', 0, [OA_NONE, OA_NONE, OA_NONE]),
     (''%add'', ''of_ADD'', 0, [OA_NONE, OA_NONE, OA_NONE]),
     (''%add/wr'', ''of_ADD_WR'', 0, [OA_NONE, OA_NONE, OA_NONE]),
     (''%addi'', ''of_ADDI'', 3, [OA_BIT1, OA_BIT2, OA_NUMBER]),
     (''%alloc'', ''of_ALLOC'', 1, [OA_VPI_PTR, OA_NONE, OA_NONE]),
     (''%and'', ''of_AND'', 0, [OA_NONE, OA_NONE, OA_NONE]),
     (''%and/r'', ''of_ANDR'', 0, [OA_NONE, OA_NONE, OA_NONE]),
     (''%assign/ar'', ''of_ASSIGN_AR'', 2, [OA_ARR_PTR, OA_BIT1, OA_NONE]),
     (''%assign/ar/d'', ''of_ASSIGN_ARD'', 2, [OA_ARR_PTR, OA_BIT1, OA_NONE]),
     (''%assign/ar/e'', ''of_ASSIGN_ARE'', 1, [OA_ARR_PTR, OA_NONE, OA_NONE]),
     (''%assign/vec4'', ''of_ASSIGN_VEC4'', 2, [OA_FUNC_PTR, OA_BIT1, OA_NONE]),
     (''%assign/vec4/a/d'', ''of_ASSIGN_VEC4_A_D'', 3, [OA_ARR_PTR, OA_BIT1, OA_BIT2]),
     (''%assign/vec4/a/e'', ''of_ASSIGN_VEC4_A_E'', 2, [OA_ARR_PTR, OA_BIT1, OA_NONE]),
     (''%assign/vec4/d'', ''of_ASSIGN_VEC4D'', 2, [OA_FUNC_PTR, OA_BIT1, OA_NONE]),
     (''%assign/vec4/e'', ''of_ASSIGN_VEC4E'', 1, [OA_FUNC_PTR, OA_NONE, OA_NONE]),
     (''%assign/vec4/off/d'', ''of_ASSIGN_VEC4_OFF_D'', 3, [OA_FUNC_PTR, OA_BIT1, OA_BIT2]),
     (''%assign/vec4/off/e'', ''of_ASSIGN_VEC4_OFF_E'', 2, [OA_FUNC_PTR, OA_BIT1, OA_NONE]),
     (''%assign/wr'', ''of_ASSIGN_WR'', 2, [OA_VPI_PTR, OA_BIT1, OA_NONE]),
     (''%assign/wr/d'', ''of_ASSIGN_WRD'', 2, [OA_VPI_PTR, OA_BIT1, OA_NONE]),
     (''%assign/wr/e'', ''of_ASSIGN_WRE'', 1, [OA_VPI_PTR, OA_NONE, OA_NONE]),
     (''%blend'', ''of_BLEND'', 0, [OA_NONE, OA_NONE, OA_NONE]),
     (''%blend/wr'', ''of_BLEND_WR'', 0, [OA_NONE, OA_NONE, OA_NONE]),
     (''%box/vec4'', ''of_BOX_VEC4'', 1, [OA_NUMBER, OA_NONE, OA_NONE]),
     (''%breakpoint'', ''of_BREAKPOINT'', 0, [OA_NONE, OA_NONE, OA_NONE]),
     (''%callf/obj'', ''of_CALLF_OBJ'', 2, [OA_CODE_PTR2, OA_VPI_PTR, OA_NONE]),
     (''%callf/real'', ''of_CALLF_REAL'', 2, [OA_CODE_PTR2, OA_VPI_PTR, OA_NONE]),
     (''%callf/str'', ''of_CALLF_STR'', 2, [OA_CODE_PTR2, OA_VPI_PTR, OA_NONE]),
     (''%callf/vec4'', ''of_CALLF_VEC4'', 2, [OA_CODE_PTR2, OA_VPI_PTR, OA_NONE]),
     (''%callf/virt/obj'', ''of_CALLF_VIRT_OBJ'', 2, [OA_CODE_PTR2, OA_VPI_PTR, OA_NONE]),
     (''%callf/virt/real'', ''of_CALLF_VIRT_REAL'', 2, [OA_CODE_PTR2, OA_VPI_PTR, OA_NONE]),
     (''%callf/virt/str'', ''of_CALLF_VIRT_STR'', 2, [OA_CODE_PTR2, OA_VPI_PTR, OA_NONE]),
     (''%callf/virt/vec4'', ''of_CALLF_VIRT_VEC4'', 2, [OA_CODE_PTR2, OA_VPI_PTR, OA_NONE]),
     (''%callf/virt/void'', ''of_CALLF_VIRT_VOID'', 2, [OA_CODE_PTR2, OA_VPI_PTR, OA_NONE]),
     (''%callf/void'', ''of_CALLF_VOID'', 2, [OA_CODE_PTR2, OA_VPI_PTR, OA_NONE]),
     (''%cassign/link'', ''of_CASSIGN_LINK'', 2, [OA_FUNC_PTR, OA_FUNC_PTR2, OA_NONE]),
     (''%cassign/vec4'', ''of_CASSIGN_VEC4'', 1, [OA_FUNC_PTR, OA_NONE, OA_NONE]),
     (''%cassign/vec4/off'', ''of_CASSIGN_VEC4_OFF'', 2, [OA_FUNC_PTR, OA_BIT1, OA_NONE]),
     (''%cassign/wr'', ''of_CASSIGN_WR'', 1, [OA_FUNC_PTR, OA_NONE, OA_NONE]),
     (''%cast/cobj'', ''of_CAST_COBJ'', 2, [OA_VPI_PTR, OA_FUNC_PTR2, OA_NONE]),
     (''%cast/vec2/dar'', ''of_CAST_VEC2_DAR'', 1, [OA_NUMBER, OA_NONE, OA_NONE]),
     (''%cast/vec4/dar'', ''of_CAST_VEC4_DAR'', 1, [OA_NUMBER, OA_NONE, OA_NONE]),
     (''%cast/vec4/str'', ''of_CAST_VEC4_STR'', 1, [OA_NUMBER, OA_NONE, OA_NONE]),
     (''%cast2'', ''of_CAST2'', 0, [OA_NONE, OA_NONE, OA_NONE]),
     (''%cmp/e'', ''of_CMPE'', 0, [OA_NONE, OA_NONE, OA_NONE]),
     (''%cmp/ne'', ''of_CMPNE'', 0, [OA_NONE, OA_NONE, OA_NONE]),
     (''%cmp/s'', ''of_CMPS'', 0, [OA_NONE, OA_NONE, OA_NONE]),
     (''%cmp/str'', ''of_CMPSTR'', 0, [OA_NONE, OA_NONE, OA_NONE]),
     (''%cmp/u'', ''of_CMPU'', 0, [OA_NONE, OA_NONE, OA_NONE]),
     (''%cmp/we'', ''of_CMPWE'', 0, [OA_NONE, OA_NONE, OA_NONE]),
     (''%cmp/wne'', ''of_CMPWNE'', 0, [OA_NONE, OA_NONE, OA_NONE]),
     (''%cmp/wr'', ''of_CMPWR'', 0, [OA_NONE, OA_NONE, OA_NONE]),
     (''%cmp/x'', ''of_CMPX'', 0, [OA_NONE, OA_NONE, OA_NONE]),
     (''%cmp/z'', ''of_CMPZ'', 0, [OA_NONE, OA_NONE, OA_NONE]),
     (''%cmpi/e'', ''of_CMPIE'', 3, [OA_BIT1, OA_BIT2, OA_NUMBER]),
     (''%cmpi/ne'', ''of_CMPINE'', 3, [OA_BIT1, OA_BIT2, OA_NUMBER]),
     (''%cmpi/s'', ''of_CMPIS'', 3, [OA_BIT1, OA_BIT2, OA_NUMBER]),
     (''%cmpi/u'', ''of_CMPIU'', 3, [OA_BIT1, OA_BIT2, OA_NUMBER]),
     (''%cmpix/ltu'', ''of_CMPIX_LTU'', 2, [OA_NUMBER, OA_BIT1, OA_NONE]),
     (''%cmpix/slt0'', ''of_CMPIX_SLT0'', 1, [OA_NUMBER, OA_NONE, OA_NONE]),
     (''%concat/str'', ''of_CONCAT_STR'', 0, [OA_NONE, OA_NONE, OA_NONE]),
     (''%concat/vec4'', ''of_CONCAT_VEC4'', 0, [OA_NONE, OA_NONE, OA_NONE]),
     (''%concati/str'', ''of_CONCATI_STR'', 1, [OA_STRING, OA_NONE, OA_NONE]),
     (''%concati/vec4'', ''of_CONCATI_VEC4'', 3, [OA_BIT1, OA_BIT2, OA_NUMBER]),
     (''%cov/get_inst'', ''of_COV_GET_INST'', 0, [OA_NONE, OA_NONE, OA_NONE]),
     (''%cov/new'', ''of_COV_NEW'', 1, [OA_STRING, OA_NONE, OA_NONE]),
     (''%cov/sample'', ''of_COV_SAMPLE'', 0, [OA_NONE, OA_NONE, OA_NONE]),
     (''%cvt/rv'', ''of_CVT_RV'', 0, [OA_NONE, OA_NONE, OA_NONE]),
     (''%cvt/rv/s'', ''of_CVT_RV_S'', 0, [OA_NONE, OA_NONE, OA_NONE]),
     (''%cvt/sr'', ''of_CVT_SR'', 1, [OA_BIT1, OA_NONE, OA_NONE]),
     (''%cvt/ur'', ''of_CVT_UR'', 1, [OA_BIT1, OA_NONE, OA_NONE]),
     (''%cvt/vr'', ''of_CVT_VR'', 1, [OA_NUMBER, OA_NONE, OA_NONE]),
     (''%deassign'', ''of_DEASSIGN'', 3, [OA_FUNC_PTR, OA_BIT1, OA_BIT2]),
     (''%deassign/wr'', ''of_DEASSIGN_WR'', 1, [OA_FUNC_PTR, OA_NONE, OA_NONE]),
     (''%debug/thr'', ''of_DEBUG_THR'', 1, [OA_STRING, OA_NONE, OA_NONE]),
     (''%delay'', ''of_DELAY'', 2, [OA_BIT1, OA_BIT2, OA_NONE]),
     (''%delayx'', ''of_DELAYX'', 1, [OA_NUMBER, OA_NONE, OA_NONE]),
     (''%delete/aar'', ''of_DELETE_AAR'', 1, [OA_FUNC_PTR, OA_NONE, OA_NONE]),
     (''%delete/aar/str'', ''of_DELETE_AAR_STR'', 1, [OA_FUNC_PTR, OA_NONE, OA_NONE]),
     (''%delete/elem'', ''of_DELETE_ELEM'', 1, [OA_FUNC_PTR, OA_NONE, OA_NONE]),
     (''%delete/obj'', ''of_DELETE_OBJ'', 1, [OA_FUNC_PTR, OA_NONE, OA_NONE]),
     (''%delete/prop/elem'', ''of_DELETE_PROP_ELEM'', 1, [OA_NUMBER, OA_NONE, OA_NONE]),
     (''%delete/prop/obj'', ''of_DELETE_PROP_OBJ'', 1, [OA_NUMBER, OA_NONE, OA_NONE]),
     (''%delete/tail'', ''of_DELETE_TAIL'', 2, [OA_FUNC_PTR, OA_BIT1, OA_NONE]),
     (''%disable'', ''of_DISABLE'', 1, [OA_VPI_PTR, OA_NONE, OA_NONE]),
     (''%disable/flow'', ''of_DISABLE_FLOW'', 1, [OA_VPI_PTR, OA_NONE, OA_NONE]),
     (''%disable/fork'', ''of_DISABLE_FORK'', 0, [OA_NONE, OA_NONE, OA_NONE]),
     (''%div'', ''of_DIV'', 0, [OA_NONE, OA_NONE, OA_NONE]),
     (''%div/s'', ''of_DIV_S'', 0, [OA_NONE, OA_NONE, OA_NONE]),
     (''%div/wr'', ''of_DIV_WR'', 0, [OA_NONE, OA_NONE, OA_NONE]),
     (''%dpi/call'', ''of_DPI_CALL'', 2, [OA_STRING, OA_BIT1, OA_NONE]),
     (''%dup/obj'', ''of_DUP_OBJ'', 0, [OA_NONE, OA_NONE, OA_NONE]),
     (''%dup/real'', ''of_DUP_REAL'', 0, [OA_NONE, OA_NONE, OA_NONE]),
     (''%dup/vec4'', ''of_DUP_VEC4'', 0, [OA_NONE, OA_NONE, OA_NONE]),
     (''%end'', ''of_END'', 0, [OA_NONE, OA_NONE, OA_NONE]),
     (''%evctl'', ''of_EVCTL'', 2, [OA_FUNC_PTR, OA_BIT1, OA_NONE]),
     (''%evctl/c'', ''of_EVCTLC'', 0, [OA_NONE, OA_NONE, OA_NONE]),
     (''%evctl/i'', ''of_EVCTLI'', 2, [OA_FUNC_PTR, OA_BIT1, OA_NONE]),
     (''%evctl/s'', ''of_EVCTLS'', 2, [OA_FUNC_PTR, OA_BIT1, OA_NONE]),
     (''%event'', ''of_EVENT'', 1, [OA_FUNC_PTR, OA_NONE, OA_NONE]),
     (''%event/nb'', ''of_EVENT_NB'', 2, [OA_FUNC_PTR, OA_BIT1, OA_NONE]),
     (''%flag_get/vec4'', ''of_FLAG_GET_VEC4'', 1, [OA_NUMBER, OA_NONE, OA_NONE]),
     (''%flag_inv'', ''of_FLAG_INV'', 1, [OA_BIT1, OA_NONE, OA_NONE]),
     (''%flag_mov'', ''of_FLAG_MOV'', 2, [OA_BIT1, OA_BIT2, OA_NONE]),
     (''%flag_or'', ''of_FLAG_OR'', 2, [OA_BIT1, OA_BIT2, OA_NONE]),
     (''%flag_set/imm'', ''of_FLAG_SET_IMM'', 2, [OA_NUMBER, OA_BIT1, OA_NONE]),
     (''%flag_set/vec4'', ''of_FLAG_SET_VEC4'', 1, [OA_NUMBER, OA_NONE, OA_NONE]),
     (''%force/link'', ''of_FORCE_LINK'', 2, [OA_FUNC_PTR, OA_FUNC_PTR2, OA_NONE]),
     (''%force/vec4'', ''of_FORCE_VEC4'', 1, [OA_FUNC_PTR, OA_NONE, OA_NONE]),
     (''%force/vec4/off'', ''of_FORCE_VEC4_OFF'', 2, [OA_FUNC_PTR, OA_BIT1, OA_NONE]),
     (''%force/vec4/off/d'', ''of_FORCE_VEC4_OFF_D'', 3, [OA_FUNC_PTR, OA_BIT1, OA_BIT2]),
     (''%force/wr'', ''of_FORCE_WR'', 1, [OA_FUNC_PTR, OA_NONE, OA_NONE]),
     (''%fork'', ''of_FORK'', 2, [OA_CODE_PTR2, OA_VPI_PTR, OA_NONE]),
     (''%free'', ''of_FREE'', 1, [OA_VPI_PTR, OA_NONE, OA_NONE]),
     (''%inv'', ''of_INV'', 0, [OA_NONE, OA_NONE, OA_NONE]),
     (''%ix/add'', ''of_IX_ADD'', 3, [OA_NUMBER, OA_BIT1, OA_BIT2]),
     (''%ix/getv'', ''of_IX_GETV'', 2, [OA_BIT1, OA_FUNC_PTR, OA_NONE]),
     (''%ix/getv/s'', ''of_IX_GETV_S'', 2, [OA_BIT1, OA_FUNC_PTR, OA_NONE]),
     (''%ix/load'', ''of_IX_LOAD'', 3, [OA_NUMBER, OA_BIT1, OA_BIT2]),
     (''%ix/mov'', ''of_IX_MOV'', 2, [OA_BIT1, OA_BIT2, OA_NONE]),
     (''%ix/mul'', ''of_IX_MUL'', 3, [OA_NUMBER, OA_BIT1, OA_BIT2]),
     (''%ix/sub'', ''of_IX_SUB'', 3, [OA_NUMBER, OA_BIT1, OA_BIT2]),
     (''%ix/vec4'', ''of_IX_VEC4'', 1, [OA_NUMBER, OA_NONE, OA_NONE]),
     (''%ix/vec4/s'', ''of_IX_VEC4_S'', 1, [OA_NUMBER, OA_NONE, OA_NONE]),
     (''%jmp'', ''of_JMP'', 1, [OA_CODE_PTR, OA_NONE, OA_NONE]),
     (''%jmp/0'', ''of_JMP0'', 2, [OA_CODE_PTR, OA_BIT1, OA_NONE]),
     (''%jmp/0xz'', ''of_JMP0XZ'', 2, [OA_CODE_PTR, OA_BIT1, OA_NONE]),
     (''%jmp/1'', ''of_JMP1'', 2, [OA_CODE_PTR, OA_BIT1, OA_NONE]),
     (''%jmp/1xz'', ''of_JMP1XZ'', 2, [OA_CODE_PTR, OA_BIT1, OA_NONE]),
     (''%join'', ''of_JOIN'', 0, [OA_NONE, OA_NONE, OA_NONE]),
     (''%join/detach'', ''of_JOIN_DETACH'', 1, [OA_NUMBER, OA_NONE, OA_NONE]),
     (''%load/aar/vec4'', ''of_LOAD_AAR_VEC4'', 1, [OA_FUNC_PTR, OA_NONE, OA_NONE]),
     (''%load/ar'', ''of_LOAD_AR'', 2, [OA_ARR_PTR, OA_BIT1, OA_NONE]),
     (''%load/dar/r'', ''of_LOAD_DAR_R'', 1, [OA_FUNC_PTR, OA_NONE, OA_NONE]),
     (''%load/dar/str'', ''of_LOAD_DAR_STR'', 1, [OA_FUNC_PTR, OA_NONE, OA_NONE]),
     (''%load/dar/vec4'', ''of_LOAD_DAR_VEC4'', 1, [OA_FUNC_PTR, OA_NONE, OA_NONE]),
     (''%load/obj'', ''of_LOAD_OBJ'', 1, [OA_FUNC_PTR, OA_NONE, OA_NONE]),
     (''%load/obja'', ''of_LOAD_OBJA'', 2, [OA_ARR_PTR, OA_BIT1, OA_NONE]),
     (''%load/prop/dar/vec4'', ''of_LOAD_PROP_DAR_VEC4'', 2, [OA_NUMBER, OA_BIT1, OA_NONE]),
     (''%load/real'', ''of_LOAD_REAL'', 1, [OA_VPI_PTR, OA_NONE, OA_NONE]),
     (''%load/str'', ''of_LOAD_STR'', 1, [OA_FUNC_PTR, OA_NONE, OA_NONE]),
     (''%load/stra'', ''of_LOAD_STRA'', 2, [OA_ARR_PTR, OA_BIT1, OA_NONE]),
     (''%load/vec4'', ''of_LOAD_VEC4'', 1, [OA_FUNC_PTR, OA_NONE, OA_NONE]),
     (''%load/vec4a'', ''of_LOAD_VEC4A'', 2, [OA_ARR_PTR, OA_BIT1, OA_NONE]),
     (''%max/wr'', ''of_MAX_WR'', 0, [OA_NONE, OA_NONE, OA_NONE]),
     (''%mbx/get'', ''of_MBX_GET'', 0, [OA_NONE, OA_NONE, OA_NONE]),
     (''%mbx/new'', ''of_MBX_NEW'', 1, [OA_NUMBER, OA_NONE, OA_NONE]),
     (''%mbx/num'', ''of_MBX_NUM'', 0, [OA_NONE, OA_NONE, OA_NONE]),
     (''%mbx/peek'', ''of_MBX_PEEK'', 0, [OA_NONE, OA_NONE, OA_NONE]),
     (''%mbx/put'', ''of_MBX_PUT'', 0, [OA_NONE, OA_NONE, OA_NONE]),
     (''%mbx/try_get'', ''of_MBX_TRY_GET'', 0, [OA_NONE, OA_NONE, OA_NONE]),
     (''%mbx/try_peek'', ''of_MBX_TRY_PEEK'', 0, [OA_NONE, OA_NONE, OA_NONE]),
     (''%mbx/try_put'', ''of_MBX_TRY_PUT'', 0, [OA_NONE, OA_NONE, OA_NONE]),
     (''%min/wr'', ''of_MIN_WR'', 0, [OA_NONE, OA_NONE, OA_NONE]),
     (''%mod'', ''of_MOD'', 0, [OA_NONE, OA_NONE, OA_NONE]),
     (''%mod/s'', ''of_MOD_S'', 0, [OA_NONE, OA_NONE, OA_NONE]),
     (''%mod/wr'', ''of_MOD_WR'', 0, [OA_NONE, OA_NONE, OA_NONE]),
     (''%mul'', ''of_MUL'', 0, [OA_NONE, OA_NONE, OA_NONE]),
     (''%mul/wr'', ''of_MUL_WR'', 0, [OA_NONE, OA_NONE, OA_NONE]),
     (''%muli'', ''of_MULI'', 3, [OA_BIT1, OA_BIT2, OA_NUMBER]),
     (''%nand'', ''of_NAND'', 0, [OA_NONE, OA_NONE, OA_NONE]),
     (''%nand/r'', ''of_NANDR'', 0, [OA_NONE, OA_NONE, OA_NONE]),
     (''%neg/wr'', ''of_NEG_WR'', 0, [OA_NONE, OA_NONE, OA_NONE]),
     (''%new/cobj'', ''of_NEW_COBJ'', 1, [OA_VPI_PTR, OA_NONE, OA_NONE]),
     (''%new/darray'', ''of_NEW_DARRAY'', 2, [OA_BIT1, OA_STRING, OA_NONE]),
     (''%noop'', ''of_NOOP'', 0, [OA_NONE, OA_NONE, OA_NONE]),
     (''%nor'', ''of_NOR'', 0, [OA_NONE, OA_NONE, OA_NONE]),
     (''%nor/r'', ''of_NORR'', 0, [OA_NONE, OA_NONE, OA_NONE]),
     (''%null'', ''of_NULL'', 0, [OA_NONE, OA_NONE, OA_NONE]),
     (''%or'', ''of_OR'', 0, [OA_NONE, OA_NONE, OA_NONE]),
     (''%or/r'', ''of_ORR'', 0, [OA_NONE, OA_NONE, OA_NONE]),
     (''%pad/s'', ''of_PAD_S'', 1, [OA_NUMBER, OA_NONE, OA_NONE]),
     (''%pad/u'', ''of_PAD_U'', 1, [OA_NUMBER, OA_NONE, OA_NONE]),
     (''%part/s'', ''of_PART_S'', 1, [OA_NUMBER, OA_NONE, OA_NONE]),
     (''%part/u'', ''of_PART_U'', 1, [OA_NUMBER, OA_NONE, OA_NONE]),
     (''%parti/s'', ''of_PARTI_S'', 3, [OA_NUMBER, OA_BIT1, OA_BIT2]),
     (''%parti/u'', ''of_PARTI_U'', 3, [OA_NUMBER, OA_BIT1, OA_BIT2]),
     (''%pop/obj'', ''of_POP_OBJ'', 2, [OA_BIT1, OA_BIT2, OA_NONE]),
     (''%pop/real'', ''of_POP_REAL'', 1, [OA_NUMBER, OA_NONE, OA_NONE]),
     (''%pop/str'', ''of_POP_STR'', 1, [OA_NUMBER, OA_NONE, OA_NONE]),
     (''%pop/vec4'', ''of_POP_VEC4'', 1, [OA_NUMBER, OA_NONE, OA_NONE]),
     (''%pow'', ''of_POW'', 0, [OA_NONE, OA_NONE, OA_NONE]),
     (''%pow/s'', ''of_POW_S'', 0, [OA_NONE, OA_NONE, OA_NONE]),
     (''%pow/wr'', ''of_POW_WR'', 0, [OA_NONE, OA_NONE, OA_NONE]),
     (''%prop/obj'', ''of_PROP_OBJ'', 2, [OA_NUMBER, OA_BIT1, OA_NONE]),
     (''%prop/queue/size'', ''of_PROP_QUEUE_SIZE'', 1, [OA_NUMBER, OA_NONE, OA_NONE]),
     (''%prop/r'', ''of_PROP_R'', 1, [OA_NUMBER, OA_NONE, OA_NONE]),
     (''%prop/str'', ''of_PROP_STR'', 1, [OA_NUMBER, OA_NONE, OA_NONE]),
     (''%prop/v'', ''of_PROP_V'', 1, [OA_NUMBER, OA_NONE, OA_NONE]),
     (''%push/ix/vec4'', ''of_PUSH_IX_VEC4'', 3, [OA_NUMBER, OA_BIT1, OA_BIT2]),
     (''%pushi/real'', ''of_PUSHI_REAL'', 2, [OA_BIT1, OA_BIT2, OA_NONE]),
     (''%pushi/str'', ''of_PUSHI_STR'', 1, [OA_STRING, OA_NONE, OA_NONE]),
     (''%pushi/vec4'', ''of_PUSHI_VEC4'', 3, [OA_BIT1, OA_BIT2, OA_NUMBER]),
     (''%pushv/str'', ''of_PUSHV_STR'', 0, [OA_NONE, OA_NONE, OA_NONE]),
     (''%putc/str/vec4'', ''of_PUTC_STR_VEC4'', 2, [OA_FUNC_PTR, OA_BIT1, OA_NONE]),
     (''%qinsert/prop/r'', ''of_QINSERT_PROP_R'', 2, [OA_NUMBER, OA_BIT1, OA_NONE]),
     (''%qinsert/prop/str'', ''of_QINSERT_PROP_STR'', 2, [OA_NUMBER, OA_BIT1, OA_NONE]),
     (''%qinsert/prop/v'', ''of_QINSERT_PROP_V'', 3, [OA_NUMBER, OA_BIT1, OA_BIT2]),
     (''%qinsert/real'', ''of_QINSERT_REAL'', 2, [OA_FUNC_PTR, OA_BIT1, OA_NONE]),
     (''%qinsert/str'', ''of_QINSERT_STR'', 2, [OA_FUNC_PTR, OA_BIT1, OA_NONE]),
     (''%qinsert/v'', ''of_QINSERT_V'', 3, [OA_FUNC_PTR, OA_BIT1, OA_BIT2]),
     (''%qpop/b/real'', ''of_QPOP_B_REAL'', 1, [OA_FUNC_PTR, OA_NONE, OA_NONE]),
     (''%qpop/b/str'', ''of_QPOP_B_STR'', 1, [OA_FUNC_PTR, OA_NONE, OA_NONE]),
     (''%qpop/b/v'', ''of_QPOP_B_V'', 2, [OA_FUNC_PTR, OA_BIT1, OA_NONE]),
     (''%qpop/f/real'', ''of_QPOP_F_REAL'', 1, [OA_FUNC_PTR, OA_NONE, OA_NONE]),
     (''%qpop/f/str'', ''of_QPOP_F_STR'', 1, [OA_FUNC_PTR, OA_NONE, OA_NONE]),
     (''%qpop/f/v'', ''of_QPOP_F_V'', 2, [OA_FUNC_PTR, OA_BIT1, OA_NONE]),
     (''%qpop/prop/b/r'', ''of_QPOP_PROP_B_REAL'', 1, [OA_NUMBER, OA_NONE, OA_NONE]),
     (''%qpop/prop/b/str'', ''of_QPOP_PROP_B_STR'', 1, [OA_NUMBER, OA_NONE, OA_NONE]),
     (''%qpop/prop/b/v'', ''of_QPOP_PROP_B_V'', 2, [OA_NUMBER, OA_BIT1, OA_NONE]),
     (''%qpop/prop/f/r'', ''of_QPOP_PROP_F_REAL'', 1, [OA_NUMBER, OA_NONE, OA_NONE]),
     (''%qpop/prop/f/str'', ''of_QPOP_PROP_F_STR'', 1, [OA_NUMBER, OA_NONE, OA_NONE]),
     (''%qpop/prop/f/v'', ''of_QPOP_PROP_F_V'', 2, [OA_NUMBER, OA_BIT1, OA_NONE]),
     (''%queue/append_word/v'', ''of_QUEUE_APPEND_WORD_V'', 1, [OA_BIT1, OA_NONE, OA_NONE]),
     (''%queue/find/index/prop/v'', ''of_QUEUE_FIND_INDEX_PROP_V'', 2, [OA_NUMBER, OA_BIT1, OA_NONE]),
     (''%queue/find/index/v'', ''of_QUEUE_FIND_INDEX_V'', 2, [OA_FUNC_PTR, OA_BIT1, OA_NONE]),
     (''%queue/find/prop/v'', ''of_QUEUE_FIND_PROP_V'', 2, [OA_NUMBER, OA_BIT1, OA_NONE]),
     (''%queue/find/v'', ''of_QUEUE_FIND_V'', 2, [OA_FUNC_PTR, OA_BIT1, OA_NONE]),
     (''%queue/find_first/index/prop/v'', ''of_QUEUE_FIND_FIRST_INDEX_PROP_V'', 2, [OA_NUMBER, OA_BIT1, OA_NONE]),
     (''%queue/find_first/index/v'', ''of_QUEUE_FIND_FIRST_INDEX_V'', 2, [OA_FUNC_PTR, OA_BIT1, OA_NONE]),
     (''%queue/find_first/prop/v'', ''of_QUEUE_FIND_FIRST_PROP_V'', 2, [OA_NUMBER, OA_BIT1, OA_NONE]),
     (''%queue/find_first/v'', ''of_QUEUE_FIND_FIRST_V'', 2, [OA_FUNC_PTR, OA_BIT1, OA_NONE]),
     (''%queue/find_last/index/prop/v'', ''of_QUEUE_FIND_LAST_INDEX_PROP_V'', 2, [OA_NUMBER, OA_BIT1, OA_NONE]),
     (''%queue/find_last/index/v'', ''of_QUEUE_FIND_LAST_INDEX_V'', 2, [OA_FUNC_PTR, OA_BIT1, OA_NONE]),
     (''%queue/find_last/prop/v'', ''of_QUEUE_FIND_LAST_PROP_V'', 2, [OA_NUMBER, OA_BIT1, OA_NONE]),
     (''%queue/find_last/v'', ''of_QUEUE_FIND_LAST_V'', 2, [OA_FUNC_PTR, OA_BIT1, OA_NONE]),
     (''%queue/max/obj/v'', ''of_QUEUE_MAX_OBJ_V'', 1, [OA_BIT1, OA_NONE, OA_NONE]),
     (''%queue/max/prop/v'', ''of_QUEUE_MAX_PROP_V'', 2, [OA_NUMBER, OA_BIT1, OA_NONE]),
     (''%queue/max/v'', ''of_QUEUE_MAX_V'', 2, [OA_FUNC_PTR, OA_BIT1, OA_NONE]),
     (''%queue/min/obj/v'', ''of_QUEUE_MIN_OBJ_V'', 1, [OA_BIT1, OA_NONE, OA_NONE]),
     (''%queue/min/prop/v'', ''of_QUEUE_MIN_PROP_V'', 2, [OA_NUMBER, OA_BIT1, OA_NONE]),
     (''%queue/min/v'', ''of_QUEUE_MIN_V'', 2, [OA_FUNC_PTR, OA_BIT1, OA_NONE]),
     (''%queue/new_empty/v'', ''of_QUEUE_NEW_EMPTY_V'', 0, [OA_NONE, OA_NONE, OA_NONE]),
     (''%queue/product/obj/v'', ''of_QUEUE_PRODUCT_OBJ_V'', 1, [OA_BIT1, OA_NONE, OA_NONE]),
     (''%queue/product/prop/v'', ''of_QUEUE_PRODUCT_PROP_V'', 2, [OA_NUMBER, OA_BIT1, OA_NONE]),
     (''%queue/product/v'', ''of_QUEUE_PRODUCT_V'', 2, [OA_FUNC_PTR, OA_BIT1, OA_NONE]),
     (''%queue/size/v'', ''of_QUEUE_SIZE_V'', 1, [OA_FUNC_PTR, OA_NONE, OA_NONE]),
     (''%queue/sum/obj/v'', ''of_QUEUE_SUM_OBJ_V'', 1, [OA_BIT1, OA_NONE, OA_NONE]),
     (''%queue/sum/prop/v'', ''of_QUEUE_SUM_PROP_V'', 2, [OA_NUMBER, OA_BIT1, OA_NONE]),
     (''%queue/sum/v'', ''of_QUEUE_SUM_V'', 2, [OA_FUNC_PTR, OA_BIT1, OA_NONE]),
     (''%queue/unique/index/obj/v'', ''of_QUEUE_UNIQUE_INDEX_OBJ_V'', 1, [OA_BIT1, OA_NONE, OA_NONE]),
     (''%queue/unique/index/prop/v'', ''of_QUEUE_UNIQUE_INDEX_PROP_V'', 2, [OA_NUMBER, OA_BIT1, OA_NONE]),
     (''%queue/unique/index/v'', ''of_QUEUE_UNIQUE_INDEX_V'', 2, [OA_FUNC_PTR, OA_BIT1, OA_NONE]),
     (''%queue/unique/obj/v'', ''of_QUEUE_UNIQUE_OBJ_V'', 1, [OA_BIT1, OA_NONE, OA_NONE]),
     (''%queue/unique/prop/v'', ''of_QUEUE_UNIQUE_PROP_V'', 2, [OA_NUMBER, OA_BIT1, OA_NONE]),
     (''%queue/unique/v'', ''of_QUEUE_UNIQUE_V'', 2, [OA_FUNC_PTR, OA_BIT1, OA_NONE]),
     (''%queue/word/prop/v'', ''of_QUEUE_WORD_PROP_V'', 3, [OA_NUMBER, OA_BIT1, OA_BIT2]),
     (''%queue/word/v'', ''of_QUEUE_WORD_V'', 3, [OA_FUNC_PTR, OA_BIT1, OA_BIT2]),
     (''%release/net'', ''of_RELEASE_NET'', 3, [OA_FUNC_PTR, OA_BIT1, OA_BIT2]),
     (''%release/reg'', ''of_RELEASE_REG'', 3, [OA_FUNC_PTR, OA_BIT1, OA_BIT2]),
     (''%release/wr'', ''of_RELEASE_WR'', 2, [OA_FUNC_PTR, OA_BIT1, OA_NONE]),
     (''%replicate'', ''of_REPLICATE'', 1, [OA_NUMBER, OA_NONE, OA_NONE]),
     (''%ret/real'', ''of_RET_REAL'', 1, [OA_NUMBER, OA_NONE, OA_NONE]),
     (''%ret/str'', ''of_RET_STR'', 1, [OA_NUMBER, OA_NONE, OA_NONE]),
     (''%ret/vec4'', ''of_RET_VEC4'', 3, [OA_NUMBER, OA_BIT1, OA_BIT2]),
     (''%retload/real'', ''of_RETLOAD_REAL'', 1, [OA_NUMBER, OA_NONE, OA_NONE]),
     (''%retload/str'', ''of_RETLOAD_STR'', 1, [OA_NUMBER, OA_NONE, OA_NONE]),
     (''%retload/vec4'', ''of_RETLOAD_VEC4'', 1, [OA_NUMBER, OA_NONE, OA_NONE]),
     (''%reverse/obj'', ''of_REVERSE_OBJ'', 1, [OA_FUNC_PTR, OA_NONE, OA_NONE]),
     (''%reverse/prop/obj'', ''of_REVERSE_PROP_OBJ'', 1, [OA_NUMBER, OA_NONE, OA_NONE]),
     (''%rsort/obj'', ''of_RSORT_OBJ'', 1, [OA_FUNC_PTR, OA_NONE, OA_NONE]),
     (''%rsort/prop/obj'', ''of_RSORT_PROP_OBJ'', 1, [OA_NUMBER, OA_NONE, OA_NONE]),
     (''%scopy'', ''of_SCOPY'', 0, [OA_NONE, OA_NONE, OA_NONE]),
     (''%sem/get'', ''of_SEM_GET'', 0, [OA_NONE, OA_NONE, OA_NONE]),
     (''%sem/new'', ''of_SEM_NEW'', 1, [OA_NUMBER, OA_NONE, OA_NONE]),
     (''%sem/put'', ''of_SEM_PUT'', 0, [OA_NONE, OA_NONE, OA_NONE]),
     (''%sem/try_get'', ''of_SEM_TRY_GET'', 0, [OA_NONE, OA_NONE, OA_NONE]),
     (''%set/dar/obj/real'', ''of_SET_DAR_OBJ_REAL'', 1, [OA_NUMBER, OA_NONE, OA_NONE]),
     (''%set/dar/obj/str'', ''of_SET_DAR_OBJ_STR'', 1, [OA_NUMBER, OA_NONE, OA_NONE]),
     (''%set/dar/obj/vec4'', ''of_SET_DAR_OBJ_VEC4'', 1, [OA_NUMBER, OA_NONE, OA_NONE]),
     (''%shiftl'', ''of_SHIFTL'', 1, [OA_NUMBER, OA_NONE, OA_NONE]),
     (''%shiftr'', ''of_SHIFTR'', 1, [OA_NUMBER, OA_NONE, OA_NONE]),
     (''%shiftr/s'', ''of_SHIFTR_S'', 1, [OA_NUMBER, OA_NONE, OA_NONE]),
     (''%shuffle/obj'', ''of_SHUFFLE_OBJ'', 1, [OA_FUNC_PTR, OA_NONE, OA_NONE]),
     (''%shuffle/prop/obj'', ''of_SHUFFLE_PROP_OBJ'', 1, [OA_NUMBER, OA_NONE, OA_NONE]),
     (''%sort/obj'', ''of_SORT_OBJ'', 1, [OA_FUNC_PTR, OA_NONE, OA_NONE]),
     (''%sort/prop/obj'', ''of_SORT_PROP_OBJ'', 1, [OA_NUMBER, OA_NONE, OA_NONE]),
     (''%split/vec4'', ''of_SPLIT_VEC4'', 1, [OA_NUMBER, OA_NONE, OA_NONE]),
     (''%store/aar/vec4'', ''of_STORE_AAR_VEC4'', 1, [OA_FUNC_PTR, OA_NONE, OA_NONE]),
     (''%store/dar/r'', ''of_STORE_DAR_R'', 1, [OA_FUNC_PTR, OA_NONE, OA_NONE]),
     (''%store/dar/str'', ''of_STORE_DAR_STR'', 1, [OA_FUNC_PTR, OA_NONE, OA_NONE]),
     (''%store/dar/vec4'', ''of_STORE_DAR_VEC4'', 1, [OA_FUNC_PTR, OA_NONE, OA_NONE]),
     (''%store/obj'', ''of_STORE_OBJ'', 1, [OA_FUNC_PTR, OA_NONE, OA_NONE]),
     (''%store/obja'', ''of_STORE_OBJA'', 2, [OA_ARR_PTR, OA_BIT1, OA_NONE]),
     (''%store/prop/obj'', ''of_STORE_PROP_OBJ'', 2, [OA_NUMBER, OA_BIT1, OA_NONE]),
     (''%store/prop/qb/r'', ''of_STORE_PROP_QB_R'', 2, [OA_NUMBER, OA_BIT1, OA_NONE]),
     (''%store/prop/qb/str'', ''of_STORE_PROP_QB_STR'', 2, [OA_NUMBER, OA_BIT1, OA_NONE]),
     (''%store/prop/qb/v'', ''of_STORE_PROP_QB_V'', 3, [OA_NUMBER, OA_BIT1, OA_BIT2]),
     (''%store/prop/qf/r'', ''of_STORE_PROP_QF_R'', 2, [OA_NUMBER, OA_BIT1, OA_NONE]),
     (''%store/prop/qf/str'', ''of_STORE_PROP_QF_STR'', 2, [OA_NUMBER, OA_BIT1, OA_NONE]),
     (''%store/prop/qf/v'', ''of_STORE_PROP_QF_V'', 3, [OA_NUMBER, OA_BIT1, OA_BIT2]),
     (''%store/prop/r'', ''of_STORE_PROP_R'', 1, [OA_NUMBER, OA_NONE, OA_NONE]),
     (''%store/prop/str'', ''of_STORE_PROP_STR'', 1, [OA_NUMBER, OA_NONE, OA_NONE]),
     (''%store/prop/v'', ''of_STORE_PROP_V'', 2, [OA_NUMBER, OA_BIT1, OA_NONE]),
     (''%store/qb/r'', ''of_STORE_QB_R'', 2, [OA_FUNC_PTR, OA_BIT1, OA_NONE]),
     (''%store/qb/str'', ''of_STORE_QB_STR'', 2, [OA_FUNC_PTR, OA_BIT1, OA_NONE]),
     (''%store/qb/v'', ''of_STORE_QB_V'', 3, [OA_FUNC_PTR, OA_BIT1, OA_BIT2]),
     (''%store/qdar/r'', ''of_STORE_QDAR_R'', 2, [OA_FUNC_PTR, OA_BIT1, OA_NONE]),
     (''%store/qdar/str'', ''of_STORE_QDAR_STR'', 2, [OA_FUNC_PTR, OA_BIT1, OA_NONE]),
     (''%store/qdar/v'', ''of_STORE_QDAR_V'', 3, [OA_FUNC_PTR, OA_BIT1, OA_BIT2]),
     (''%store/qf/r'', ''of_STORE_QF_R'', 2, [OA_FUNC_PTR, OA_BIT1, OA_NONE]),
     (''%store/qf/str'', ''of_STORE_QF_STR'', 2, [OA_FUNC_PTR, OA_BIT1, OA_NONE]),
     (''%store/qf/v'', ''of_STORE_QF_V'', 3, [OA_FUNC_PTR, OA_BIT1, OA_BIT2]),
     (''%store/qobj/r'', ''of_STORE_QOBJ_R'', 2, [OA_FUNC_PTR, OA_BIT1, OA_NONE]),
     (''%store/qobj/str'', ''of_STORE_QOBJ_STR'', 2, [OA_FUNC_PTR, OA_BIT1, OA_NONE]),
     (''%store/qobj/v'', ''of_STORE_QOBJ_V'', 3, [OA_FUNC_PTR, OA_BIT1, OA_BIT2]),
     (''%store/real'', ''of_STORE_REAL'', 1, [OA_FUNC_PTR, OA_NONE, OA_NONE]),
     (''%store/reala'', ''of_STORE_REALA'', 2, [OA_ARR_PTR, OA_BIT1, OA_NONE]),
     (''%store/str'', ''of_STORE_STR'', 1, [OA_FUNC_PTR, OA_NONE, OA_NONE]),
     (''%store/stra'', ''of_STORE_STRA'', 2, [OA_ARR_PTR, OA_BIT1, OA_NONE]),
     (''%store/vec4'', ''of_STORE_VEC4'', 3, [OA_FUNC_PTR, OA_BIT1, OA_BIT2]),
     (''%store/vec4a'', ''of_STORE_VEC4A'', 3, [OA_ARR_PTR, OA_BIT1, OA_BIT2]),
     (''%sub'', ''of_SUB'', 0, [OA_NONE, OA_NONE, OA_NONE]),
     (''%sub/wr'', ''of_SUB_WR'', 0, [OA_NONE, OA_NONE, OA_NONE]),
     (''%subi'', ''of_SUBI'', 3, [OA_BIT1, OA_BIT2, OA_NUMBER]),
     (''%substr'', ''of_SUBSTR'', 2, [OA_BIT1, OA_BIT2, OA_NONE]),
     (''%substr/vec4'', ''of_SUBSTR_VEC4'', 2, [OA_BIT1, OA_BIT2, OA_NONE]),
     (''%test_nul'', ''of_TEST_NUL'', 1, [OA_FUNC_PTR, OA_NONE, OA_NONE]),
     (''%test_nul/a'', ''of_TEST_NUL_A'', 2, [OA_ARR_PTR, OA_BIT1, OA_NONE]),
     (''%test_nul/obj'', ''of_TEST_NUL_OBJ'', 0, [OA_NONE, OA_NONE, OA_NONE]),
     (''%test_nul/prop'', ''of_TEST_NUL_PROP'', 2, [OA_NUMBER, OA_BIT1, OA_NONE]),
     (''%unbox/vec4'', ''of_UNBOX_VEC4'', 1, [OA_NUMBER, OA_NONE, OA_NONE]),
     (''%urandom'', ''of_URANDOM'', 1, [OA_NUMBER, OA_NONE, OA_NONE]),
     (''%vif/load/vec4'', ''of_VIF_LOAD_VEC4'', 2, [OA_NUMBER, OA_BIT1, OA_NONE]),
     (''%vif/store/vec4'', ''of_VIF_STORE_VEC4'', 2, [OA_NUMBER, OA_BIT1, OA_NONE]),
     (''%vif/wait'', ''of_VIF_WAIT'', 2, [OA_NUMBER, OA_BIT1, OA_NONE]),
     (''%wait'', ''of_WAIT'', 1, [OA_FUNC_PTR, OA_NONE, OA_NONE]),
     (''%wait/fork'', ''of_WAIT_FORK'', 0, [OA_NONE, OA_NONE, OA_NONE]),
     (''%xnor'', ''of_XNOR'', 0, [OA_NONE, OA_NONE, OA_NONE]),
     (''%xnor/r'', ''of_XNORR'', 0, [OA_NONE, OA_NONE, OA_NONE]),
     (''%xor'', ''of_XOR'', 0, [OA_NONE, OA_NONE, OA_NONE]),
     (''%xor/r'', ''of_XORR'', 0, [OA_NONE, OA_NONE, OA_NONE])]"

definition opcode_compare :: "string \<Rightarrow> opcode_row \<Rightarrow> int" where
  "opcode_compare k r = strcmp k (fst r)"

text \<open>\<^verbatim>\<open>bsearch\<close> over the rows between \<open>lo\<close> and \<open>hi\<close>.\<close>

function bsearch_rows :: "('k \<Rightarrow> 'r \<Rightarrow> int) \<Rightarrow> 'k \<Rightarrow> 'r list \<Rightarrow> nat \<Rightarrow> nat \<Rightarrow> 'r option" where
  "bsearch_rows cmp k rs lo hi =
    (if lo < hi then
       (let idx = (lo + hi) div 2; rc = cmp k (rs ! idx) in
        if rc < 0 then bsearch_rows cmp k rs lo idx
        else if rc > 0 then bsearch_rows cmp k rs (idx + 1) hi
        else Some (rs ! idx))
     else None)"
  by pat_completeness auto
termination by (relation "measure (\<lambda>(cmp, k, rs, lo, hi). hi - lo)") auto

declare bsearch_rows.simps [simp del]

definition find_opcode :: "string \<Rightarrow> opcode_row option" where
  "find_opcode mnem = bsearch_rows opcode_compare mnem opcode_table 0 (length opcode_table)"

lemma opcode_table_sorted: "sorted_wrt (\<lambda>a b. strcmp (fst a) (fst b) < 0) opcode_table"
proof -
  have "successively (\<lambda>a b. strcmp (fst a) (fst b) < 0) opcode_table"
    by code_simp
  then show ?thesis
    by (subst (asm) successively_conv_sorted_wrt) (auto simp: transp_def)
qed

lemma bsearch_rows_None:
  assumes "\<And>i j. \<lbrakk>i < j; j < length rs\<rbrakk> \<Longrightarrow> fst (rs ! i) < (fst (rs ! j) :: string)"
    "hi \<le> length rs" "\<forall>i < length rs. i < lo \<longrightarrow> fst (rs ! i) < k" "\<forall>i < length rs. hi \<le> i \<longrightarrow> k < fst (rs ! i)"
  shows "bsearch_rows opcode_compare k rs lo hi = find (\<lambda>r. fst r = k) rs"
  using assms(2-)
proof (induction "hi - lo" arbitrary: lo hi rule: less_induct)
  case less
  show ?case
  proof (cases "lo < hi")
    case False
    then have "\<forall>i < length rs. fst (rs ! i) \<noteq> k" using less.prems by (metis leI less_irrefl less_le_trans)
    then have "find (\<lambda>r. fst r = k) rs = None" by (auto simp: find_None_iff in_set_conv_nth)
    then show ?thesis using False by (subst bsearch_rows.simps) simp
  next
    case True
    define idx where "idx = (lo + hi) div 2"
    have idx: "lo \<le> idx" "idx < hi" "idx < length rs" using True less.prems unfolding idx_def by auto
    have e: "bsearch_rows opcode_compare k rs lo hi =
        (if k < fst (rs ! idx) then bsearch_rows opcode_compare k rs lo idx
         else if fst (rs ! idx) < k then bsearch_rows opcode_compare k rs (idx + 1) hi else Some (rs ! idx))"
      using True by (subst bsearch_rows.simps) (simp add: idx_def opcode_compare_def Let_def)
    consider (lt) "k < fst (rs ! idx)" | (gt) "fst (rs ! idx) < k" | (eq) "fst (rs ! idx) = k" by fastforce
    then show ?thesis
    proof cases
      case lt
      have "k < fst (rs ! i)" if "i < length rs" "idx \<le> i" for i
        using lt assms(1) [of idx i] that by (cases "i = idx") (auto dest: less_trans)
      then show ?thesis using less.hyps [of idx lo] less.prems lt idx e by auto
    next
      case gt
      have "fst (rs ! i) < k" if "i < idx + 1" for i
        using gt assms(1) [of i idx] that idx by (cases "i = idx") (auto dest: less_trans)
      then show ?thesis using less.hyps [of hi "idx + 1"] less.prems gt idx e less_asym [OF gt] by auto
    next
      case eq
      have "fst (rs ! i) \<noteq> k" if "i < idx" for i
        using assms(1) [of i idx] that idx eq by auto
      then have "find (\<lambda>r. fst r = k) rs = Some (rs ! idx)"
        unfolding find_Some_iff using idx eq by blast
      then show ?thesis using e eq by simp
    qed
  qed
qed

lemma find_opcode_eq: "find_opcode mnem = find (\<lambda>r. fst r = mnem) opcode_table"
  unfolding find_opcode_def
proof (rule bsearch_rows_None)
  show "fst (opcode_table ! i) < fst (opcode_table ! j)" if "i < j" "j < length opcode_table" for i j
    using sorted_wrt_nth_less [OF opcode_table_sorted that] by simp
qed auto

text \<open>C32. The instruction table is sorted, so that the binary search finds the row of every
  mnemonic of the table, only that row, and nothing for any other string.
\<close>

theorem opcode_lookup:
  "find_opcode mnem = Some row \<longleftrightarrow> row \<in> set opcode_table \<and> fst row = mnem"
proof
  assume "find_opcode mnem = Some row"
  then show "row \<in> set opcode_table \<and> fst row = mnem"
    unfolding find_opcode_eq by (auto simp: find_Some_iff)
next
  assume r: "row \<in> set opcode_table \<and> fst row = mnem"
  then obtain i where i: "i < length opcode_table" "opcode_table ! i = row" by (auto simp: in_set_conv_nth)
  have "fst (opcode_table ! j) \<noteq> mnem" if "j < i" for j
    using sorted_wrt_nth_less [OF opcode_table_sorted that i(1)] i(2) r by auto
  then show "find_opcode mnem = Some row"
    unfolding find_opcode_eq find_Some_iff using i r by blast
qed

section \<open>Operand layout\<close>

text \<open>
  The parts of a cell that an operand takes: the first union, and the two halves of the second,
  which the pointers of the second take together.
\<close>

datatype part = Union1 | Low_Half | High_Half

fun operand_parts :: "operand_e \<Rightarrow> part list" where
  "operand_parts OA_NONE = []"
| "operand_parts OA_BIT1 = [Low_Half]"
| "operand_parts OA_BIT2 = [High_Half]"
| "operand_parts OA_CODE_PTR2 = [Low_Half, High_Half]"
| "operand_parts OA_FUNC_PTR2 = [Low_Half, High_Half]"
| "operand_parts _ = [Union1]"

definition row_ok :: "opcode_row \<Rightarrow> bool" where
  "row_ok row = (case row of (m, fn, argc, argt) \<Rightarrow>
     length argt = 3 \<and> argc = length (filter (\<lambda>t. t \<noteq> OA_NONE) argt) \<and>
     list_all (\<lambda>t. t \<noteq> OA_NONE) (take argc argt) \<and> distinct (concat (map operand_parts argt)) \<and> fn \<noteq> ''of_CHUNK_LINK'')"

lemma opcode_rows_ok: "list_all row_ok opcode_table"
  by code_simp

text \<open>In every row the operand count is the number of operand types, these come first,
  and no two operands of an instruction share storage: they take different unions of the cell, or
  different halves of the second union. No instruction but the link at the end of a chunk runs
  \<^verbatim>\<open>of_CHUNK_LINK\<close>.
\<close>

theorem opcode_layout:
  assumes "find_opcode mnem = Some row"
  shows "row_ok row"
  using assms opcode_rows_ok unfolding find_opcode_eq
  by (auto simp: find_Some_iff list_all_iff)

lemma opcode_layout_witness: "row_ok (''%jmp/0'', ''of_JMP0'', 2, [OA_CODE_PTR, OA_BIT1, OA_NONE])"
proof -
  have "find_opcode ''%jmp/0'' = Some (''%jmp/0'', ''of_JMP0'', 2, [OA_CODE_PTR, OA_BIT1, OA_NONE])"
    unfolding find_opcode_eq by code_simp
  then show ?thesis by (rule opcode_layout)
qed

end
