(* ===== verification/Net_Link.thy ===== *)
theory Net_Link
  imports Prelude
begin

text \<open>
  The fan-out lists of \<^verbatim>\<open>vvp/vvp_net.cc\<close>. A net drives a list of input ports; the list is threaded
  through the nets that receive: \<^verbatim>\<open>out_\<close> is its head and \<^verbatim>\<open>port[k]\<close> of a receiver the next pointer
  of that receiver's port \<open>k\<close>. All lists of the design share this store, so linking and unlinking
  are stated together with what they leave alone.
\<close>

type_synonym net = "64 word"
type_synonym net_ptr = "net \<times> nat"

text \<open>
  The store: heads, next pointers (\<open>None\<close> is the nil pointer), and which nets have a functor of class
  \<^verbatim>\<open>vvp_fun_modpath_src\<close>.
\<close>

record nets =
  out_head :: "net \<Rightarrow> net_ptr option"
  port :: "net_ptr \<Rightarrow> net_ptr option"
  is_modpath_src :: "net \<Rightarrow> bool"

definition set_port :: "net_ptr \<Rightarrow> net_ptr option \<Rightarrow> nets \<Rightarrow> nets" where
  "set_port p v ns = ns\<lparr>port := (port ns)(p := v)\<rparr>"

definition set_out :: "net \<Rightarrow> net_ptr option \<Rightarrow> nets \<Rightarrow> nets" where
  "set_out d v ns = ns\<lparr>out_head := (out_head ns)(d := v)\<rparr>"

definition new_net :: "net \<Rightarrow> nets \<Rightarrow> nets" where
  "new_net d ns = set_out d None ns"

definition src :: "nets \<Rightarrow> net_ptr \<Rightarrow> bool" where
  "src ns p = is_modpath_src ns (fst p)"

text \<open>
  The walk of \<^verbatim>\<open>link\<close> over the leading sources, returning the last source and what follows it. A
  cyclic list would not end, which is the value \<open>None\<close>.
\<close>

partial_function (option) skip_sources :: "nets \<Rightarrow> net_ptr \<Rightarrow> net_ptr option \<Rightarrow>
    (net_ptr option \<times> net_ptr option) option" where
  "skip_sources ns cur prev =
    (if src ns cur then
       (case port ns cur of
          None \<Rightarrow> Some (Some cur, None)
        | Some nxt \<Rightarrow> skip_sources ns nxt (Some cur))
     else Some (prev, Some cur))"

definition link_port :: "net \<Rightarrow> net_ptr \<Rightarrow> nets \<Rightarrow> nets option" where
  "link_port d p ns =
    (if src ns p then Some (set_out d (Some p) (set_port p (out_head ns d) ns))
     else case out_head ns d of
       None \<Rightarrow> Some (set_out d (Some p) (set_port p (out_head ns d) ns))
     | Some q \<Rightarrow>
         (if \<not> src ns q then Some (set_out d (Some p) (set_port p (out_head ns d) ns))
          else case skip_sources ns q None of
            Some (Some prev, cur) \<Rightarrow> Some (set_port prev (Some p) (set_port p cur ns))
          | _ \<Rightarrow> None))"

text \<open>The scan of \<^verbatim>\<open>unlink\<close> for the pointer before \<open>dst\<close>.\<close>

partial_function (option) find_before :: "nets \<Rightarrow> net_ptr \<Rightarrow> net_ptr \<Rightarrow> net_ptr option option" where
  "find_before ns dst cur =
    (if port ns cur \<noteq> Some dst then
       (case port ns cur of None \<Rightarrow> Some None | Some nxt \<Rightarrow> find_before ns dst nxt)
     else Some (Some cur))"

definition unlink_port :: "net \<Rightarrow> net_ptr \<Rightarrow> nets \<Rightarrow> nets option" where
  "unlink_port d dst ns =
    map_option (set_port dst None)
      (if out_head ns d = Some dst then Some (set_out d (port ns dst) ns)
       else case out_head ns d of
         None \<Rightarrow> Some ns
       | Some q \<Rightarrow>
           (case find_before ns dst q of
              None \<Rightarrow> None
            | Some None \<Rightarrow> Some ns
            | Some (Some cur) \<Rightarrow> Some (set_port cur (port ns dst) ns)))"

section \<open>Lists in the store\<close>

text \<open>The list that starts at a pointer, and the fan-out list of a net.\<close>

fun chain :: "(net_ptr \<Rightarrow> net_ptr option) \<Rightarrow> net_ptr option \<Rightarrow> net_ptr list \<Rightarrow> bool" where
  "chain m a [] \<longleftrightarrow> a = None"
| "chain m a (x # xs) \<longleftrightarrow> a = Some x \<and> chain m (m x) xs"

definition fan_out :: "nets \<Rightarrow> net \<Rightarrow> net_ptr list \<Rightarrow> bool" where
  "fan_out ns d xs \<longleftrightarrow> chain (port ns) (out_head ns d) xs"

lemma set_simps [simp]:
  "port (set_port p v ns) = (port ns)(p := v)" "out_head (set_port p v ns) = out_head ns"
  "port (set_out d v ns) = port ns" "out_head (set_out d v ns) = (out_head ns)(d := v)"
  "src (set_port p v ns) = src ns" "src (set_out d v ns) = src ns"
  by (simp_all add: set_port_def set_out_def src_def fun_eq_iff)

lemma chain_frame: "\<forall>x \<in> set xs. m' x = m x \<Longrightarrow> chain m' a xs = chain m a xs"
  by (induction xs arbitrary: a) auto

lemma chain_upd [simp]: "p \<notin> set xs \<Longrightarrow> chain (m(p := v)) a xs = chain m a xs"
  by (rule chain_frame) auto

lemma chain_unique: "\<lbrakk>chain m a xs; chain m a ys\<rbrakk> \<Longrightarrow> xs = ys"
proof (induction xs arbitrary: a ys)
  case Nil
  then show ?case by (cases ys) auto
next
  case (Cons x xs)
  then show ?case by (cases ys) auto
qed

lemma chain_suffix: "chain m a (xs @ y # ys) \<Longrightarrow> chain m (Some y) (y # ys)"
  by (induction xs arbitrary: a) auto

text \<open>A list that ends visits no port twice.\<close>

lemma chain_distinct: "chain m a xs \<Longrightarrow> distinct xs"
proof (induction xs arbitrary: a)
  case (Cons x xs)
  have "x \<notin> set xs"
  proof
    assume "x \<in> set xs"
    then obtain ys zs where xs: "xs = ys @ x # zs" by (auto dest: split_list)
    then have "chain m (Some x) (x # zs)" using Cons.prems chain_suffix [of m a "x # ys" x zs] by simp
    then have "x # zs = x # xs" using Cons.prems chain_unique by fastforce
    then show False using xs by simp
  qed
  then show ?case using Cons by auto
qed simp

lemma chain_insert:
  "\<lbrakk>chain m a (xs @ ys); xs \<noteq> []; p \<notin> set (xs @ ys)\<rbrakk> \<Longrightarrow>
   chain (m(p := m (last xs), last xs := Some p)) a (xs @ p # ys)"
proof (induction xs arbitrary: a)
  case (Cons x xs)
  have d: "distinct (x # xs @ ys)" using chain_distinct [OF Cons.prems(1)] by simp
  show ?case
  proof (cases "xs = []")
    case True
    have "chain (m(p := m x, x := Some p)) (m x) ys = chain m (m x) ys"
      by (rule chain_frame) (use d Cons.prems(3) in auto)
    then show ?thesis using Cons.prems True by (simp add: fun_upd_def)
  next
    case False
    then have "x \<noteq> last xs" "x \<noteq> p" using d Cons.prems(3) by auto
    then show ?thesis using Cons False by simp
  qed
qed simp

lemma chain_remove:
  "\<lbrakk>chain m a (xs @ p # ys); xs \<noteq> []\<rbrakk> \<Longrightarrow> chain (m(last xs := m p, p := None)) a (xs @ ys)"
proof (induction xs arbitrary: a)
  case (Cons x xs)
  have d: "distinct (x # xs @ p # ys)" using chain_distinct [OF Cons.prems(1)] by simp
  show ?case
  proof (cases "xs = []")
    case True
    have "chain (m(x := m p, p := None)) (m p) ys = chain m (m p) ys"
      by (rule chain_frame) (use d in auto)
    then show ?thesis using Cons.prems True d by (simp add: fun_upd_def)
  next
    case False
    then have "x \<noteq> last xs" "x \<noteq> p" using d by auto
    then show ?thesis using Cons False by simp
  qed
qed simp

lemma chain_last_next:
  "\<lbrakk>chain m a (xs @ ys); xs \<noteq> []\<rbrakk> \<Longrightarrow> m (last xs) = (case ys of [] \<Rightarrow> None | y # _ \<Rightarrow> Some y)"
  by (induction xs arbitrary: a) (auto split: list.splits)

section \<open>The walks\<close>

lemma skip_sources_eq:
  assumes "chain (port ns) (Some q) (q # xs)" "src ns q"
  shows "skip_sources ns q prev = Some (Some (last (takeWhile (src ns) (q # xs))),
    port ns (last (takeWhile (src ns) (q # xs))))"
  using assms
proof (induction xs arbitrary: q prev)
  case Nil
  then show ?case by (subst skip_sources.simps) simp
next
  case (Cons x xs)
  show ?case
  proof (cases "src ns x")
    case True
    then show ?thesis using Cons by (subst skip_sources.simps) simp
  next
    case False
    have "skip_sources ns x (Some q) = Some (Some q, Some x)"
      using False by (subst skip_sources.simps) simp
    then show ?thesis using Cons.prems False by (subst skip_sources.simps) simp
  qed
qed

lemma find_before_eq:
  assumes "chain (port ns) (Some q) (q # xs)" "q \<noteq> dst"
  shows "find_before ns dst q =
    Some (if dst \<in> set xs then Some (last (takeWhile (\<lambda>x. x \<noteq> dst) (q # xs))) else None)"
  using assms
proof (induction xs arbitrary: q)
  case Nil
  then show ?case by (subst find_before.simps) simp
next
  case (Cons x xs)
  show ?case
  proof (cases "x = dst")
    case True
    then show ?thesis using Cons.prems by (subst find_before.simps) simp
  next
    case False
    then show ?thesis using Cons by (subst find_before.simps) simp
  qed
qed

section \<open>Linking and unlinking\<close>

text \<open>Where a new receiver goes: before everything when it is a source, else after the sources.\<close>

definition insert_port :: "(net_ptr \<Rightarrow> bool) \<Rightarrow> net_ptr \<Rightarrow> net_ptr list \<Rightarrow> net_ptr list" where
  "insert_port is_src p xs =
     (if is_src p then p # xs else takeWhile is_src xs @ p # dropWhile is_src xs)"

text \<open>The fan-out lists of other nets, which do not hold the port in question, are kept.\<close>

definition keeps_others :: "net \<Rightarrow> net_ptr \<Rightarrow> net_ptr list \<Rightarrow> nets \<Rightarrow> nets \<Rightarrow> bool" where
  "keeps_others d p xs ns ns' \<longleftrightarrow> (\<forall>e ys. e \<noteq> d \<longrightarrow> fan_out ns e ys \<longrightarrow> set ys \<inter> set (p # xs) = {} \<longrightarrow>
     fan_out ns' e ys)"

lemma keeps_othersI:
  assumes "\<And>e. e \<noteq> d \<Longrightarrow> out_head ns' e = out_head ns e"
    "\<And>x. x \<notin> set (p # xs) \<Longrightarrow> port ns' x = port ns x"
  shows "keeps_others d p xs ns ns'"
  unfolding keeps_others_def fan_out_def
proof (intro allI impI)
  fix e ys assume "e \<noteq> d" "chain (port ns) (out_head ns e) ys" "set ys \<inter> set (p # xs) = {}"
  then show "chain (port ns') (out_head ns' e) ys"
    using assms chain_frame [of ys "port ns'" "port ns"] by (metis disjoint_iff)
qed

lemma link_port_ok:
  assumes "fan_out ns d xs" "p \<notin> set xs"
  shows "\<exists>ns'. link_port d p ns = Some ns' \<and> fan_out ns' d (insert_port (src ns) p xs) \<and>
    keeps_others d p xs ns ns' \<and> src ns' = src ns"
proof (cases "src ns p \<or> xs = [] \<or> \<not> src ns (hd xs)")
  case True
  then have "link_port d p ns = Some (set_out d (Some p) (set_port p (out_head ns d) ns))"
    using assms(1) by (cases xs) (auto simp: link_port_def fan_out_def)
  moreover have "insert_port (src ns) p xs = p # xs"
    using True by (cases xs) (auto simp: insert_port_def)
  ultimately show ?thesis
    using assms by (auto simp: fan_out_def intro: keeps_othersI)
next
  case False
  then obtain q ys where xs: "xs = q # ys" "src ns q" "\<not> src ns p" by (cases xs) auto
  let ?l = "takeWhile (src ns) xs"
  have l: "?l \<noteq> []" "xs = ?l @ dropWhile (src ns) xs" using xs by auto
  have c: "chain (port ns) (Some q) xs" "out_head ns d = Some q"
    using assms(1) xs by (auto simp: fan_out_def)
  have "last ?l \<in> set xs" using l by (metis in_set_conv_decomp_last last_in_set set_takeWhileD)
  have "link_port d p ns = Some (set_port (last ?l) (Some p) (set_port p (port ns (last ?l)) ns))"
    using xs c skip_sources_eq [of ns q ys None] by (simp add: link_port_def)
  moreover have "chain ((port ns)(p := port ns (last ?l), last ?l := Some p)) (Some q)
      (?l @ p # dropWhile (src ns) xs)"
    using chain_insert [of "port ns" "Some q" ?l "dropWhile (src ns) xs" p] c(1) l assms(2) by simp
  moreover have "keeps_others d p xs ns (set_port (last ?l) (Some p) (set_port p (port ns (last ?l)) ns))"
    by (rule keeps_othersI) (use \<open>last ?l \<in> set xs\<close> in auto)
  moreover have "insert_port (src ns) p xs = ?l @ p # dropWhile (src ns) xs"
    using xs by (simp add: insert_port_def)
  ultimately show ?thesis by (simp add: fan_out_def c(2))
qed

lemma unlink_port_ok:
  assumes "fan_out ns d xs"
  shows "\<exists>ns'. unlink_port d p ns = Some ns' \<and> fan_out ns' d (remove1 p xs) \<and>
    keeps_others d p xs ns ns' \<and> port ns' p = None \<and> src ns' = src ns"
proof (cases "p \<in> set xs")
  case False
  have "unlink_port d p ns = Some (set_port p None ns)"
  proof (cases xs)
    case (Cons q ys)
    then show ?thesis
      using assms False find_before_eq [of ns q ys p] by (auto simp: unlink_port_def fan_out_def)
  qed (use assms in \<open>simp add: unlink_port_def fan_out_def\<close>)
  then show ?thesis
    using assms False by (auto simp: fan_out_def remove1_idem intro: keeps_othersI)
next
  case True
  then obtain ys zs where xs: "xs = ys @ p # zs" "p \<notin> set ys" by (meson split_list_first)
  have d: "distinct xs" using assms chain_distinct unfolding fan_out_def by blast
  have r: "remove1 p xs = ys @ zs" using xs by (simp add: remove1_append)
  show ?thesis
  proof (cases "ys = []")
    case True
    then have "unlink_port d p ns = Some (set_port p None (set_out d (port ns p) ns))"
      using assms xs by (simp add: unlink_port_def fan_out_def)
    then show ?thesis
      using assms xs True d r by (auto simp: fan_out_def intro: keeps_othersI)
  next
    case False
    then obtain q us where q: "ys = q # us" by (cases ys) auto
    have "takeWhile (\<lambda>x. x \<noteq> p) xs = ys" using xs by (simp add: takeWhile_tail takeWhile_append)
    then have "unlink_port d p ns = Some (set_port p None (set_port (last ys) (port ns p) ns))"
      using assms xs q find_before_eq [of ns q "us @ p # zs" p]
      by (auto simp: unlink_port_def fan_out_def)
    moreover have "chain ((port ns)(last ys := port ns p, p := None)) (out_head ns d) (ys @ zs)"
      using chain_remove assms xs False by (simp add: fan_out_def)
    moreover have "keeps_others d p xs ns (set_port p None (set_port (last ys) (port ns p) ns))"
      by (rule keeps_othersI) (use False xs in auto)
    ultimately show ?thesis using r by (simp add: fan_out_def)
  qed
qed

text \<open>The sources of a list come before its other receivers.\<close>

definition sources_first :: "(net_ptr \<Rightarrow> bool) \<Rightarrow> net_ptr list \<Rightarrow> bool" where
  "sources_first is_src xs \<longleftrightarrow> list_all (\<lambda>p. \<not> is_src p) (dropWhile is_src xs)"

lemma sources_first_insert:
  "sources_first is_src xs \<Longrightarrow> sources_first is_src (insert_port is_src p xs)"
  by (auto simp: sources_first_def insert_port_def list_all_iff dropWhile_append dest: set_takeWhileD)

lemma remove_insert_port: "p \<notin> set xs \<Longrightarrow> remove1 p (insert_port is_src p xs) = xs"
  by (auto simp: insert_port_def remove1_append dest: set_takeWhileD)

text \<open>C30. Linking a port into the fan-out list of a net, when it is not in it yet, puts it
  behind the modpath sources of the list and before the other receivers (a source goes to the
  front), so that a list with its sources first keeps them first; unlinking it again gives the
  list back. Neither touches the list of a net that shares no port with this one. Both walks end.
\<close>

theorem link_unlink:
  assumes "fan_out ns d xs" "p \<notin> set xs"
  shows "\<exists>ns' ns''. link_port d p ns = Some ns' \<and> fan_out ns' d (insert_port (src ns) p xs) \<and>
    (sources_first (src ns) xs \<longrightarrow> sources_first (src ns) (insert_port (src ns) p xs)) \<and>
    unlink_port d p ns' = Some ns'' \<and> fan_out ns'' d xs \<and> port ns'' p = None \<and>
    keeps_others d p xs ns ns' \<and> keeps_others d p (insert_port (src ns) p xs) ns' ns''"
proof -
  obtain ns' where 1: "link_port d p ns = Some ns'" "fan_out ns' d (insert_port (src ns) p xs)"
      "keeps_others d p xs ns ns'"
    using link_port_ok [OF assms] by blast
  obtain ns'' where "unlink_port d p ns' = Some ns''" "fan_out ns'' d xs" "port ns'' p = None"
      "keeps_others d p (insert_port (src ns) p xs) ns' ns''"
    using unlink_port_ok [OF 1(2), of p] remove_insert_port [OF assms(2)] by metis
  then show ?thesis using 1 sources_first_insert by blast
qed

lemma link_unlink_witness:
  "\<exists>ns'. link_port 1 (5, 0) \<lparr>out_head = (\<lambda>_. None)(1 := Some (7, 2)),
      port = (\<lambda>_. None)(((7, 2) :: net_ptr) := Some (9, 1)), is_modpath_src = (\<lambda>n. n = 7)\<rparr> = Some ns' \<and>
    fan_out ns' 1 [(7, 2), (5, 0), (9, 1)]"
proof -
  let ?ns = "\<lparr>out_head = (\<lambda>_. None)(1 := Some (7, 2)),
      port = (\<lambda>_. None)(((7, 2) :: net_ptr) := Some (9, 1)), is_modpath_src = (\<lambda>n. n = 7)\<rparr>"
  have "fan_out ?ns 1 [(7, 2), (9, 1)]" by (simp add: fan_out_def)
  moreover have "insert_port (src ?ns) (5, 0) [(7, 2), (9, 1)] = [(7, 2), (5, 0), (9, 1)]"
    by (simp add: insert_port_def src_def)
  ultimately show ?thesis using link_unlink [of ?ns 1 "[(7, 2), (9, 1)]" "(5, 0)"] by auto
qed

end
