(* ===== verification/Compile.thy ===== *)
theory Compile
  imports Opcode Net_Link
begin

text \<open>
  The linker of the run time: \<^verbatim>\<open>vvp/compile.cc\<close> with the code space of \<^verbatim>\<open>vvp/codes.cc\<close>. Instructions
  are compiled into chunks of cells; their operands name code labels, functors, VPI objects and
  arrays through the symbol tables, and a name that is not defined yet is put on the list of open
  references, which \<open>compile_cleanup\<close> goes through until nothing more can be resolved.

  Pointers are 64 bit words. A code pointer is the index of its cell, counted over the chunks:
  the first cell, which holds the ZOMBIE instruction and is never labelled, is the null pointer.
  Objects that other files create (VPI objects, nets) are opaque pointers given by \<open>makers\<close>.
\<close>

section \<open>Code space\<close>

text \<open>
  A cell: the instruction and its two unions. The first holds a number, a net, a code pointer, an
  array, a handle or a text; the second two 32 bit indices (the first in the low half), a second
  net or a second code pointer.
\<close>

record vvp_code =
  opcode :: string
  word1 :: "64 word"
  word2 :: "64 word"

definition blank_code :: vvp_code where
  "blank_code = \<lparr>opcode = '''', word1 = 0, word2 = 0\<rparr>"

definition code_chunk_size :: nat where
  "code_chunk_size = 1024"

text \<open>All chunks, one after the other; the last one is the current chunk.\<close>

record codespace =
  cells :: "vvp_code list"
  current_within_chunk :: nat

definition new_chunk :: "vvp_code list" where
  "new_chunk = replicate (code_chunk_size - 1) blank_code @
     [\<lparr>opcode = ''of_CHUNK_LINK'', word1 = 0, word2 = 0\<rparr>]"

definition codespace_init :: codespace where
  "codespace_init = \<lparr>cells = new_chunk[0 := blank_code\<lparr>opcode := ''of_ZOMBIE''\<rparr>],
     current_within_chunk = 1\<rparr>"

definition code_ptr :: "nat \<Rightarrow> 64 word" where
  "code_ptr a = of_nat a"

definition next_address :: "codespace \<Rightarrow> nat" where
  "next_address cs = length (cells cs) - code_chunk_size + current_within_chunk cs"

definition codespace_next :: "codespace \<Rightarrow> codespace \<times> nat" where
  "codespace_next cs =
    (let cs = (if current_within_chunk cs = code_chunk_size - 1 then
                 (let l = length (cells cs) - 1 in
                  \<lparr>cells = (cells cs)[l := (cells cs ! l)\<lparr>word1 := code_ptr (length (cells cs))\<rparr>] @ new_chunk,
                   current_within_chunk = 0\<rparr>)
               else cs)
     in (cs, next_address cs))"

definition codespace_allocate :: "codespace \<Rightarrow> codespace \<times> nat" where
  "codespace_allocate cs =
    (let (cs, a) = codespace_next cs in
     (cs\<lparr>cells := (cells cs)[a := blank_code],
         current_within_chunk := current_within_chunk cs + 1\<rparr>, a))"

text \<open>Where a thread that has executed the cell at \<open>a\<close> goes when the instruction does not jump.\<close>

definition next_pc :: "codespace \<Rightarrow> nat \<Rightarrow> nat" where
  "next_pc cs a =
    (if a + 1 < length (cells cs) \<and> opcode (cells cs ! (a + 1)) = ''of_CHUNK_LINK''
     then unat (word1 (cells cs ! (a + 1))) else a + 1)"

section \<open>State of the linker\<close>

text \<open>What \<^verbatim>\<open>vvp_net_lookup\<close> reads of a VPI object: its class and net.\<close>

datatype vpi_obj =
    Vpi_Signal net | Vpi_RealVar net | Vpi_BaseVar net | Vpi_NamedEvent net | Vpi_Other

text \<open>Where a resolved reference is stored: the unions of a cell, or a variable elsewhere.\<close>

datatype ref_cell = Word1 nat | Word2 nat | Other nat

text \<open>The classes derived from \<^verbatim>\<open>resolv_list_s\<close>, with the label first.\<close>

datatype resolv =
    Net_Input string net_ptr
  | Functor_Ref string ref_cell
  | Vpi_Handle string ref_cell
  | Code_Label string nat bool
  | Cmethod string "64 word" string
  | Code_Array string nat

datatype thread_kind = Thread_Init | Thread_Final | Thread_Push | Thread_Plain

record link_state =
  space :: codespace
  sym_codespace :: symbol_table
  sym_functors :: symbol_table
  sym_vpi :: symbol_table
  array_table :: "symbol_table option"
  vpi_objs :: "64 word \<rightharpoonup> vpi_obj"
  net_store :: nets
  others :: "nat \<Rightarrow> 64 word"
  methods :: "(64 word \<times> string \<times> 64 word) list"
  threads :: "(64 word \<times> thread_kind) list"
  resolv_list :: "resolv list"
  t0_trigger_generated :: bool
  t0_triggers :: "net_ptr list"
  messages :: "string list"
  compile_errors :: nat

text \<open>The objects that other files make.\<close>

record makers =
  scope_is_automatic :: bool
  t0_net :: net
  t0_event :: "64 word"
  vthr_word :: "32 word \<Rightarrow> string \<Rightarrow> 64 word"
  vthr_str_stack :: "32 word \<Rightarrow> 64 word"
  vthr_vec4_stack :: "32 word \<Rightarrow> bool \<Rightarrow> 32 word \<Rightarrow> 64 word"
  null_const :: "64 word"
  sim_time :: "string \<Rightarrow> 64 word"

definition compile_init :: "nets \<Rightarrow> link_state" where
  "compile_init ns =
    \<lparr>space = codespace_init, sym_codespace = new_symbol_table, sym_functors = new_symbol_table,
     sym_vpi = new_symbol_table, array_table = None, vpi_objs = Map.empty, net_store = ns,
     others = (\<lambda>_. 0), methods = [], threads = [], resolv_list = [], t0_trigger_generated = False,
     t0_triggers = [], messages = [], compile_errors = 0\<rparr>"

definition set_cell :: "nat \<Rightarrow> (vvp_code \<Rightarrow> vvp_code) \<Rightarrow> link_state \<Rightarrow> link_state" where
  "set_cell a f st = st\<lparr>space := (space st)\<lparr>cells := (cells (space st))[a := f (cells (space st) ! a)]\<rparr>\<rparr>"

definition store_ref :: "ref_cell \<Rightarrow> 64 word \<Rightarrow> link_state \<Rightarrow> link_state" where
  "store_ref r v st = (case r of
     Word1 a \<Rightarrow> set_cell a (\<lambda>c. c\<lparr>word1 := v\<rparr>) st
   | Word2 a \<Rightarrow> set_cell a (\<lambda>c. c\<lparr>word2 := v\<rparr>) st
   | Other n \<Rightarrow> st\<lparr>others := (others st)(n := v)\<rparr>)"

definition read_ref :: "ref_cell \<Rightarrow> link_state \<Rightarrow> 64 word" where
  "read_ref r st = (case r of
     Word1 a \<Rightarrow> word1 (cells (space st) ! a)
   | Word2 a \<Rightarrow> word2 (cells (space st) ! a)
   | Other n \<Rightarrow> others st n)"

section \<open>Symbols\<close>

definition define_functor_symbol :: "string \<Rightarrow> net \<Rightarrow> link_state \<Rightarrow> link_state option" where
  "define_functor_symbol label n st =
     map_option (\<lambda>t. st\<lparr>sym_functors := t\<rparr>) (sym_set_value (sym_functors st) label n)"

definition compile_vpi_symbol :: "string \<Rightarrow> 64 word \<Rightarrow> link_state \<Rightarrow> link_state option" where
  "compile_vpi_symbol label obj st =
     map_option (\<lambda>t. st\<lparr>sym_vpi := t\<rparr>) (sym_set_value (sym_vpi st) label obj)"

definition lookup_functor_symbol :: "string \<Rightarrow> link_state \<Rightarrow> (link_state \<times> net) option" where
  "lookup_functor_symbol label st =
     map_option (\<lambda>(t, v). (st\<lparr>sym_functors := t\<rparr>, v)) (sym_get_value (sym_functors st) label)"

definition vvp_lookup_handle :: "string \<Rightarrow> link_state \<Rightarrow> (link_state \<times> 64 word) option" where
  "vvp_lookup_handle label st =
     map_option (\<lambda>(t, v). (st\<lparr>sym_vpi := t\<rparr>, v)) (sym_get_value (sym_vpi st) label)"

definition lookup_code :: "string \<Rightarrow> link_state \<Rightarrow> (link_state \<times> 64 word) option" where
  "lookup_code label st =
     map_option (\<lambda>(t, v). (st\<lparr>sym_codespace := t\<rparr>, v)) (sym_get_value (sym_codespace st) label)"

definition array_find :: "string \<Rightarrow> link_state \<Rightarrow> (link_state \<times> 64 word) option" where
  "array_find label st = (case array_table st of
     None \<Rightarrow> Some (st, 0)
   | Some at \<Rightarrow> map_option (\<lambda>(t, v). (st\<lparr>array_table := Some t\<rparr>, v)) (sym_get_value at label))"

text \<open>The net of a VPI object; an object of another type fails the assertion.\<close>

definition vpi_net :: "64 word \<Rightarrow> link_state \<Rightarrow> net option" where
  "vpi_net obj st = (case vpi_objs st obj of
     Some (Vpi_Signal n) \<Rightarrow> Some n
   | Some (Vpi_RealVar n) \<Rightarrow> Some n
   | Some (Vpi_BaseVar n) \<Rightarrow> Some n
   | Some (Vpi_NamedEvent n) \<Rightarrow> Some n
   | _ \<Rightarrow> None)"

definition t0_label :: string where
  "t0_label = ''E_0x0''"

text \<open>\<^verbatim>\<open>compile_named_event\<close> for the T0 event: a net and its VPI object under the same label.\<close>

definition compile_t0_event :: "makers \<Rightarrow> link_state \<Rightarrow> link_state option" where
  "compile_t0_event mk st = do {
     st \<leftarrow> define_functor_symbol t0_label (t0_net mk) st;
     st \<leftarrow> compile_vpi_symbol t0_label (t0_event mk) st;
     Some (st\<lparr>vpi_objs := (vpi_objs st)(t0_event mk \<mapsto> Vpi_NamedEvent (t0_net mk))\<rparr>)
   }"

text \<open>
  \<^verbatim>\<open>vvp_net_lookup\<close>. The first branch of the function, which its recursive call for the T0 event
  runs with \<^verbatim>\<open>t0_trigger_generated\<close> set, is \<open>net_lookup\<close>.
\<close>

definition net_lookup :: "string \<Rightarrow> link_state \<Rightarrow> (link_state \<times> net) option" where
  "net_lookup label st = do {
     (st, val) \<leftarrow> vvp_lookup_handle label st;
     if val \<noteq> 0 then do { n \<leftarrow> vpi_net val st; Some (st, n) }
     else lookup_functor_symbol label st
   }"

definition vvp_net_lookup :: "makers \<Rightarrow> string \<Rightarrow> link_state \<Rightarrow> (link_state \<times> net) option" where
  "vvp_net_lookup mk label st = do {
     (st, val) \<leftarrow> vvp_lookup_handle label st;
     if val \<noteq> 0 then do { n \<leftarrow> vpi_net val st; Some (st, n) }
     else do {
       (st, tmp) \<leftarrow> lookup_functor_symbol label st;
       if \<not> t0_trigger_generated st \<and> label = t0_label then do {
         assert_opt (\<not> scope_is_automatic mk);
         st \<leftarrow> compile_t0_event mk (st\<lparr>t0_trigger_generated := True\<rparr>);
         (st, tmp) \<leftarrow> net_lookup label st;
         assert_opt (tmp \<noteq> 0);
         Some (st\<lparr>t0_triggers := t0_triggers st @ [(tmp, 0)]\<rparr>, tmp)
       } else Some (st, tmp)
     }
   }"

section \<open>Labels of thread words\<close>

text \<open>
  The conversions of \<^verbatim>\<open>sscanf\<close> that are used: literal text, \<^verbatim>\<open>%u\<close> (white space, a sign, digits; a
  number beyond 32 bits, where C leaves the result open, is reduced), and \<^verbatim>\<open>%31[...]\<close>.
\<close>

fun scan_lit :: "string \<Rightarrow> string \<Rightarrow> string option" where
  "scan_lit [] s = Some s"
| "scan_lit (c # cs) [] = None"
| "scan_lit (c # cs) (d # ds) = (if c = d then scan_lit cs ds else None)"

definition is_space :: "char \<Rightarrow> bool" where
  "is_space c \<longleftrightarrow> c = CHR '' '' \<or> 9 \<le> (of_char c :: nat) \<and> of_char c \<le> (13 :: nat)"

definition is_digit :: "char \<Rightarrow> bool" where
  "is_digit c \<longleftrightarrow> 48 \<le> (of_char c :: nat) \<and> of_char c \<le> (57 :: nat)"

definition digits_value :: "string \<Rightarrow> nat" where
  "digits_value ds = foldl (\<lambda>n c. 10 * n + (of_char c - 48)) 0 ds"

definition scan_unsigned :: "string \<Rightarrow> (32 word \<times> string) option" where
  "scan_unsigned s =
    (let s = dropWhile is_space s;
         neg = (s \<noteq> [] \<and> hd s = CHR ''-'');
         s = (if s \<noteq> [] \<and> (hd s = CHR ''-'' \<or> hd s = CHR ''+'') then tl s else s);
         ds = takeWhile is_digit s
     in if ds = [] then None
        else Some (if neg then - of_nat (digits_value ds) else of_nat (digits_value ds), dropWhile is_digit s))"

definition scan_set :: "char list \<Rightarrow> string \<Rightarrow> (string \<times> string) option" where
  "scan_set cs s =
    (let t = takeWhile (\<lambda>c. c \<in> set cs) (take 31 s) in
     if t = [] then None else Some (t, drop (length t) s))"

definition scan_word :: "string \<Rightarrow> (32 word \<times> string) option" where
  "scan_word label = do {
     s \<leftarrow> scan_lit ''W<'' label;
     (base, s) \<leftarrow> scan_unsigned s;
     s \<leftarrow> scan_lit '','' s;
     (ss, s) \<leftarrow> scan_set ''r'' s;
     s \<leftarrow> scan_lit ''>'' s;
     if s = [] then Some (base, ss) else None
   }"

definition scan_str_stack :: "string \<Rightarrow> 32 word option" where
  "scan_str_stack label = do {
     s \<leftarrow> scan_lit ''S<'' label;
     (base, s) \<leftarrow> scan_unsigned s;
     s \<leftarrow> scan_lit '',str>'' s;
     if s = [] then Some base else None
   }"

definition scan_vec4_stack :: "string \<Rightarrow> (32 word \<times> string \<times> 32 word) option" where
  "scan_vec4_stack label = do {
     s \<leftarrow> scan_lit ''S<'' label;
     (base, s) \<leftarrow> scan_unsigned s;
     s \<leftarrow> scan_lit '',vec4,'' s;
     (ss, s) \<leftarrow> scan_set ''su'' s;
     (wid, s) \<leftarrow> scan_unsigned s;
     s \<leftarrow> scan_lit ''>'' s;
     if s = [] then Some (base, ss, wid) else None
   }"

definition signed_flag_of :: "string \<Rightarrow> bool" where
  "signed_flag_of ss = foldl (\<lambda>f c. if c = CHR ''s'' then True else if c = CHR ''u'' then False else f) False ss"

text \<open>The object that a label describes by itself.\<close>

definition thread_object :: "makers \<Rightarrow> string \<Rightarrow> 64 word option" where
  "thread_object mk label =
    (case scan_word label of
       Some (base, ss) \<Rightarrow> Some (vthr_word mk base ss)
     | None \<Rightarrow> (case scan_str_stack label of
         Some base \<Rightarrow> Some (vthr_str_stack mk base)
       | None \<Rightarrow> (case scan_vec4_stack label of
           Some (base, ss, wid) \<Rightarrow> Some (vthr_vec4_stack mk base (signed_flag_of ss) wid)
         | None \<Rightarrow> None)))"

section \<open>References\<close>

definition complain :: "bool \<Rightarrow> string \<Rightarrow> link_state \<Rightarrow> link_state" where
  "complain mes label st = (if mes then st\<lparr>messages := messages st @ [label]\<rparr> else st)"

text \<open>
  The \<^verbatim>\<open>resolve\<close> methods. Each looks its label up and stores the value; a value of zero is an open
  reference, which is reported when \<open>mes\<close> says that this is the last chance.
\<close>

definition net_input_resolve :: "makers \<Rightarrow> bool \<Rightarrow> string \<Rightarrow> net_ptr \<Rightarrow> link_state \<Rightarrow> (link_state \<times> bool) option" where
  "net_input_resolve mk mes label p st = do {
     (st, tmp) \<leftarrow> vvp_net_lookup mk label st;
     if tmp \<noteq> 0 then do {
       ns \<leftarrow> link_port tmp p (net_store st);
       Some (st\<lparr>net_store := ns\<rparr>, True)
     } else Some (complain mes label st, False)
   }"

definition functor_ref_resolve :: "makers \<Rightarrow> bool \<Rightarrow> string \<Rightarrow> ref_cell \<Rightarrow> link_state \<Rightarrow> (link_state \<times> bool) option" where
  "functor_ref_resolve mk mes label r st = do {
     (st, tmp) \<leftarrow> vvp_net_lookup mk label st;
     if tmp \<noteq> 0 then Some (store_ref r tmp st, True) else Some (complain mes label st, False)
   }"

definition vpi_handle_resolve :: "makers \<Rightarrow> bool \<Rightarrow> string \<Rightarrow> ref_cell \<Rightarrow> link_state \<Rightarrow> (link_state \<times> bool) option" where
  "vpi_handle_resolve mk mes label r st = do {
     (st, val) \<leftarrow> vvp_lookup_handle label st;
     (st, val) \<leftarrow> (case (if val = 0 then thread_object mk label else None) of
         Some obj \<Rightarrow> do { st \<leftarrow> compile_vpi_symbol label obj st; Some (st, obj) }
       | None \<Rightarrow> Some (st, val));
     (st, val) \<leftarrow> (if label = ''null'' then do {
           st \<leftarrow> compile_vpi_symbol label (null_const mk) st; Some (st, null_const mk) }
         else Some (st, val));
     if val \<noteq> 0 then Some (store_ref r val st, True) else Some (complain mes label st, False)
   }"

definition code_label_resolve :: "makers \<Rightarrow> bool \<Rightarrow> string \<Rightarrow> nat \<Rightarrow> bool \<Rightarrow> link_state \<Rightarrow> (link_state \<times> bool) option" where
  "code_label_resolve mk mes label a cptr2 st = do {
     (st, val) \<leftarrow> lookup_code label st;
     if val \<noteq> 0 then Some (store_ref (if cptr2 then Word2 a else Word1 a) val st, True)
     else Some (complain mes label st, False)
   }"

definition cmethod_resolve :: "makers \<Rightarrow> bool \<Rightarrow> string \<Rightarrow> 64 word \<Rightarrow> string \<Rightarrow> link_state \<Rightarrow> (link_state \<times> bool) option" where
  "cmethod_resolve mk mes label clas mname st = do {
     (st, val) \<leftarrow> lookup_code label st;
     if val \<noteq> 0 then Some (st\<lparr>methods := methods st @ [(clas, mname, val)]\<rparr>, True)
     else Some (complain mes label st, False)
   }"

definition code_array_resolve :: "makers \<Rightarrow> bool \<Rightarrow> string \<Rightarrow> nat \<Rightarrow> link_state \<Rightarrow> (link_state \<times> bool) option" where
  "code_array_resolve mk mes label a st = do {
     (st, val) \<leftarrow> array_find label st;
     let st = store_ref (Word1 a) val st;
     if val \<noteq> 0 then Some (st, True) else Some (complain mes label st, False)
   }"

text \<open>The virtual method.\<close>

fun resolve :: "makers \<Rightarrow> bool \<Rightarrow> resolv \<Rightarrow> link_state \<Rightarrow> (link_state \<times> bool) option" where
  "resolve mk mes (Net_Input label p) st = net_input_resolve mk mes label p st"
| "resolve mk mes (Functor_Ref label r) st = functor_ref_resolve mk mes label r st"
| "resolve mk mes (Vpi_Handle label r) st = vpi_handle_resolve mk mes label r st"
| "resolve mk mes (Code_Label label a cptr2) st = code_label_resolve mk mes label a cptr2 st"
| "resolve mk mes (Cmethod label clas mname) st = cmethod_resolve mk mes label clas mname st"
| "resolve mk mes (Code_Array label a) st = code_array_resolve mk mes label a st"

lemmas resolve_methods [simp] = net_input_resolve_def functor_ref_resolve_def vpi_handle_resolve_def code_label_resolve_def cmethod_resolve_def code_array_resolve_def

definition resolv_submit :: "makers \<Rightarrow> resolv \<Rightarrow> link_state \<Rightarrow> link_state option" where
  "resolv_submit mk r st = do {
     (st, done) \<leftarrow> resolve mk False r st;
     Some (if done then st else st\<lparr>resolv_list := r # resolv_list st\<rparr>)
   }"

definition postpone_functor_input :: "makers \<Rightarrow> net_ptr \<Rightarrow> string \<Rightarrow> link_state \<Rightarrow> link_state option" where
  "postpone_functor_input mk p lab st = resolv_submit mk (Net_Input lab p) st"

definition functor_ref_lookup :: "makers \<Rightarrow> ref_cell \<Rightarrow> string \<Rightarrow> link_state \<Rightarrow> link_state option" where
  "functor_ref_lookup mk r lab st = resolv_submit mk (Functor_Ref lab r) st"

definition code_label_lookup :: "makers \<Rightarrow> nat \<Rightarrow> string \<Rightarrow> bool \<Rightarrow> link_state \<Rightarrow> link_state option" where
  "code_label_lookup mk a lab cptr2 st = resolv_submit mk (Code_Label lab a cptr2) st"

definition compile_array_lookup :: "makers \<Rightarrow> nat \<Rightarrow> string \<Rightarrow> link_state \<Rightarrow> link_state option" where
  "compile_array_lookup mk a lab st = resolv_submit mk (Code_Array lab a) st"

definition compile_vpi_lookup :: "makers \<Rightarrow> ref_cell \<Rightarrow> string \<Rightarrow> link_state \<Rightarrow> link_state option" where
  "compile_vpi_lookup mk r label st =
    (if label \<in> {''$time'', ''$stime'', ''$realtime'', ''$simtime''} then Some (store_ref r (sim_time mk label) st)
     else resolv_submit mk (Vpi_Handle label r) st)"

text \<open>\<open>clas\<close> is what \<^verbatim>\<open>class_type_find_by_name\<close> finds.\<close>

definition compile_cmethod :: "makers \<Rightarrow> 64 word option \<Rightarrow> string \<Rightarrow> string \<Rightarrow> link_state \<Rightarrow> link_state option" where
  "compile_cmethod mk clas mname code_lab st =
    (case clas of
       None \<Rightarrow> Some (st\<lparr>compile_errors := compile_errors st + 1\<rparr>)
     | Some ct \<Rightarrow> resolv_submit mk (Cmethod code_lab ct mname) st)"

section \<open>Cleanup\<close>

text \<open>
  One pass over the open references: \<open>res\<close> is the list still to visit, \<open>acc\<close> the new list that the
  code builds in \<^verbatim>\<open>resolv_list\<close>. The loop of passes ends when a pass leaves nothing open or when a
  pass has been made that was told to be the last, because the two before it left as many open.
  The virtual method is a parameter.
\<close>

fun resolv_pass :: "('r \<Rightarrow> 's \<Rightarrow> ('s \<times> bool) option) \<Rightarrow> 'r list \<Rightarrow> 'r list \<Rightarrow> int \<Rightarrow> 's \<Rightarrow>
    ('s \<times> 'r list \<times> int) option" where
  "resolv_pass f [] acc nerrs st = Some (st, acc, nerrs)"
| "resolv_pass f (cur # res) acc nerrs st =
    (case f cur st of
       None \<Rightarrow> None
     | Some (st', ok) \<Rightarrow>
         if ok then resolv_pass f res acc nerrs st' else resolv_pass f res (cur # acc) (nerrs + 1) st')"

lemma resolv_pass_count:
  "resolv_pass f res acc nerrs st = Some (st', acc', n) \<Longrightarrow>
   length acc' \<le> length res + length acc \<and> n - nerrs = int (length acc') - int (length acc)"
proof (induction res arbitrary: acc nerrs st)
  case (Cons cur res)
  then show ?case
    by (cases "f cur st") (fastforce split: if_splits)+
qed simp

function cleanup_loop :: "(bool \<Rightarrow> 'r \<Rightarrow> 's \<Rightarrow> ('s \<times> bool) option) \<Rightarrow> int \<Rightarrow> int \<Rightarrow> 'r list \<Rightarrow> 's \<Rightarrow>
    ('s \<times> 'r list \<times> int) option" where
  "cleanup_loop f lnerrs nerrs res st =
    (case resolv_pass (f (nerrs = lnerrs)) res [] 0 st of
       None \<Rightarrow> None
     | Some (st', res', n) \<Rightarrow>
         if n \<noteq> 0 \<and> nerrs \<noteq> lnerrs then cleanup_loop f nerrs n res' st' else Some (st', res', n))"
  by pat_completeness auto
termination
  by (relation "measure (\<lambda>(f, lnerrs, nerrs, res, st).
      4 * length res + (if nerrs = int (length res) then 0 else 2) + (if nerrs = lnerrs then 0 else 1))")
    (auto dest!: resolv_pass_count)

declare cleanup_loop.simps [simp del]

definition compile_cleanup :: "makers \<Rightarrow> link_state \<Rightarrow> link_state option" where
  "compile_cleanup mk st = do {
     (st', left, nerrs) \<leftarrow> cleanup_loop (resolve mk) (- 1) 0 (resolv_list st) (st\<lparr>resolv_list := []\<rparr>);
     Some (st'\<lparr>resolv_list := left, compile_errors := compile_errors st' + nat nerrs\<rparr>)
   }"

section \<open>Instructions\<close>

datatype operand = L_NUMB "64 word" | L_SYMB string nat | L_STRING "64 word"

definition yyerror :: "string \<Rightarrow> link_state \<Rightarrow> link_state" where
  "yyerror msg st = st\<lparr>messages := messages st @ [msg]\<rparr>"

definition compile_codelabel :: "string \<Rightarrow> link_state \<Rightarrow> link_state option" where
  "compile_codelabel label st =
    (let (cs, a) = codespace_next (space st) in
     map_option (\<lambda>t. st\<lparr>space := cs, sym_codespace := t\<rparr>)
       (sym_set_value (sym_codespace st) label (code_ptr a)))"

definition set_bit_idx0 :: "64 word \<Rightarrow> vvp_code \<Rightarrow> vvp_code" where
  "set_bit_idx0 v c = c\<lparr>word2 := word_cat (ucast (drop_bit 32 (word2 c)) :: 32 word) (ucast v :: 32 word)\<rparr>"

definition set_bit_idx1 :: "64 word \<Rightarrow> vvp_code \<Rightarrow> vvp_code" where
  "set_bit_idx1 v c = c\<lparr>word2 := word_cat (ucast v :: 32 word) (ucast (word2 c) :: 32 word)\<rparr>"

fun bind_operand :: "makers \<Rightarrow> nat \<Rightarrow> operand_e \<Rightarrow> operand \<Rightarrow> link_state \<Rightarrow> link_state option" where
  "bind_operand mk a OA_NONE x st = Some st"
| "bind_operand mk a OA_ARR_PTR (L_SYMB text idx) st = compile_array_lookup mk a text st"
| "bind_operand mk a OA_BIT1 (L_NUMB v) st = Some (set_cell a (set_bit_idx0 v) st)"
| "bind_operand mk a OA_BIT2 (L_NUMB v) st = Some (set_cell a (set_bit_idx1 v) st)"
| "bind_operand mk a OA_CODE_PTR (L_SYMB text idx) st =
     (if idx = 0 then code_label_lookup mk a text False st else None)"
| "bind_operand mk a OA_CODE_PTR2 (L_SYMB text idx) st =
     (if idx = 0 then code_label_lookup mk a text True st else None)"
| "bind_operand mk a OA_FUNC_PTR (L_SYMB text idx) st = functor_ref_lookup mk (Word1 a) text st"
| "bind_operand mk a OA_FUNC_PTR2 (L_SYMB text idx) st = functor_ref_lookup mk (Word2 a) text st"
| "bind_operand mk a OA_NUMBER (L_NUMB v) st = Some (set_cell a (\<lambda>c. c\<lparr>word1 := v\<rparr>) st)"
| "bind_operand mk a OA_VPI_PTR (L_SYMB text idx) st = compile_vpi_lookup mk (Word1 a) text st"
| "bind_operand mk a OA_STRING (L_STRING t) st = Some (set_cell a (\<lambda>c. c\<lparr>word1 := t\<rparr>) st)"
| "bind_operand mk a _ _ st = Some (yyerror ''operand format'' st)"

fun bind_operands :: "makers \<Rightarrow> nat \<Rightarrow> operand_e list \<Rightarrow> operand list \<Rightarrow> link_state \<Rightarrow> link_state option" where
  "bind_operands mk a (t # ts) (x # xs) st =
    (case bind_operand mk a t x st of None \<Rightarrow> None | Some st' \<Rightarrow> bind_operands mk a ts xs st')"
| "bind_operands mk a _ _ st = Some st"

definition compile_code :: "makers \<Rightarrow> string option \<Rightarrow> string \<Rightarrow> operand list \<Rightarrow> link_state \<Rightarrow> link_state option" where
  "compile_code mk label mnem opa st = do {
     st \<leftarrow> (case label of None \<Rightarrow> Some st | Some l \<Rightarrow> compile_codelabel l st);
     (case find_opcode mnem of
        None \<Rightarrow> Some ((yyerror ''Invalid opcode'' st)\<lparr>compile_errors := compile_errors st + 1\<rparr>)
      | Some (m, fn, argc, argt) \<Rightarrow>
          (let (cs, a) = codespace_allocate (space st);
               st = set_cell a (\<lambda>c. c\<lparr>opcode := fn\<rparr>) (st\<lparr>space := cs\<rparr>)
           in if argc \<noteq> length opa
              then Some ((yyerror ''operand count'' st)\<lparr>compile_errors := compile_errors st + 1\<rparr>)
              else bind_operands mk a (take argc argt) opa st))
   }"

definition compile_thread :: "string \<Rightarrow> string option \<Rightarrow> link_state \<Rightarrow> link_state option" where
  "compile_thread start_sym flag st = do {
     (st, pc) \<leftarrow> lookup_code start_sym st;
     if pc = 0 then Some (yyerror ''unresolved address'' st)
     else Some (st\<lparr>threads := threads st @
       [(pc, if flag = Some ''$init'' then Thread_Init
             else if flag = Some ''$final'' then Thread_Final
             else if flag = Some ''$push'' then Thread_Push else Thread_Plain)]\<rparr>)
   }"

end
