(* ===== verification/Symbols_Tree.thy ===== *)
theory Symbols_Tree
  imports Symbols
begin

text \<open>
  Correctness of the symbol table: the array loops, the key store, the two searches, the split
  loop, and the table as a map from strings to values.
\<close>

section \<open>Array loops\<close>

lemma move_tail_eq:
  "\<lbrakk>n \<le> m; m \<le> length cur\<rbrakk> \<Longrightarrow>
   move_tail n m cur acc = (take (m - n) cur, drop (m - n) (take m cur) @ acc)"
proof (induction n arbitrary: m acc)
  case (Suc n)
  from Suc.prems obtain k where k: "m = Suc k" by (cases m) auto
  have "drop (k - n) (take k cur) @ [cur ! k] = drop (k - n) (take (Suc k) cur)"
    using Suc.prems k by (simp add: take_Suc_conv_app_nth)
  then show ?case
    using Suc.IH [of k "cur ! k # acc"] Suc.prems k by simp
qed simp

lemma split_half_eq:
  "split_half cur = (take (length cur - length cur div 2) cur, drop (length cur - length cur div 2) cur)"
  by (simp add: split_half_def move_tail_eq)

lemma shift_up_eq:
  "\<lbrakk>idx \<le> tmp; tmp < length xs\<rbrakk> \<Longrightarrow>
   shift_up tmp idx xs = take idx xs @ xs ! idx # drop idx (take tmp xs) @ drop (Suc tmp) xs"
proof (induction tmp arbitrary: xs)
  case 0
  then show ?case
    by (subst shift_up.simps) (cases xs; simp)
next
  case (Suc n)
  show ?case
  proof (cases "idx = Suc n")
    case True
    then show ?thesis using Suc.prems
      by (subst shift_up.simps) (simp add: id_take_nth_drop [symmetric])
  next
    case False
    let ?ys = "xs[Suc n := xs ! n]"
    have "shift_up (Suc n) idx xs = shift_up n idx ?ys"
      using False Suc.prems by (subst shift_up.simps) simp
    also have "\<dots> = take idx ?ys @ ?ys ! idx # drop idx (take n ?ys) @ drop (Suc n) ?ys"
      using False Suc.prems by (intro Suc.IH) auto
    finally have e: "shift_up (Suc n) idx xs
        = take idx ?ys @ ?ys ! idx # drop idx (take n ?ys) @ drop (Suc n) ?ys" .
    have "drop (Suc n) ?ys = xs ! n # drop (Suc (Suc n)) xs"
      using Suc.prems by (simp add: Cons_nth_drop_Suc [symmetric])
    moreover have "take idx ?ys = take idx xs" "?ys ! idx = xs ! idx" "take n ?ys = take n xs"
      using False Suc.prems by auto
    moreover have "drop idx (take n xs) @ xs ! n # drop (Suc (Suc n)) xs
        = drop idx (take (Suc n) xs) @ drop (Suc (Suc n)) xs"
      using False Suc.prems by (simp add: take_Suc_conv_app_nth)
    ultimately show ?thesis using e by simp
  qed
qed

lemma insert_at_eq:
  "\<lbrakk>idx \<le> length xs; length xs < width\<rbrakk> \<Longrightarrow>
   insert_at width idx x xs = Some (take idx xs @ x # drop idx xs)"
  by (simp add: insert_at_def shift_up_eq list_update_append)

lemma insert_after:
  "length l + length r + 1 < width \<Longrightarrow>
   insert_at width (length l + 1) y (l @ x # r) = Some (l @ x # y # r)"
  by (simp add: insert_at_eq)

section \<open>The key store\<close>

lemma cut_string: "CHR 0x00 \<notin> set str \<Longrightarrow> takeWhile (\<lambda>c. c \<noteq> CHR 0x00) (str @ CHR 0x00 # r) = str"
  by (induction str) auto

lemma key_strdup_ok:
  assumes "wf_store ks" "length str < chunk_size" "CHR 0x00 \<notin> set str"
  obtains ks' p where "key_strdup ks str = Some (ks', p)" "wf_store ks'" "valid_ptr ks' p"
    "key_at ks' p = str" "\<And>q. valid_ptr ks q \<Longrightarrow> valid_ptr ks' q \<and> key_at ks' q = key_at ks q"
proof -
  obtain c cs where ks: "str_chunk ks = c # cs" "length c = str_used ks" "length c \<le> chunk_size"
      "list_all (\<lambda>c. length c \<le> chunk_size) cs"
    using assms(1) by (cases "str_chunk ks") (auto simp: wf_store_def)
  define full where "full \<longleftrightarrow> length str + 1 > chunk_size - str_used ks"
  define ks' where "ks' = (if full then \<lparr>str_chunk = (str @ [CHR 0x00]) # str_chunk ks, str_used = length str + 1\<rparr>
     else \<lparr>str_chunk = (c @ str @ [CHR 0x00]) # cs, str_used = str_used ks + (length str + 1)\<rparr>)"
  define p where "p = (if full then (length (str_chunk ks), 0) else (length cs, str_used ks))"
  show thesis
  proof (rule that)
    show "key_strdup ks str = Some (ks', p)"
      using ks assms(2) by (auto simp: key_strdup_def ks'_def p_def full_def Let_def)
    show "wf_store ks'"
      using ks assms(2) by (auto simp: wf_store_def ks'_def full_def)
    show "valid_ptr ks' p"
      using ks by (auto simp: valid_ptr_def ks'_def p_def nth_append)
    show "key_at ks' p = str"
      using ks assms(3) by (auto simp: key_at_def ks'_def p_def nth_append cut_string)
    show "valid_ptr ks' q \<and> key_at ks' q = key_at ks q" if "valid_ptr ks q" for q
    proof -
      have "CHR 0x00 \<in> set (drop (snd q) c)" if "fst q = length cs"
        using \<open>valid_ptr ks q\<close> that ks by (auto simp: valid_ptr_def nth_append)
      then have e: "fst q = length cs \<Longrightarrow> drop (snd q) (c @ b) = drop (snd q) c @ b" for b
        by (cases "snd q \<le> length c") auto
      show ?thesis
        using \<open>valid_ptr ks q\<close> ks e
        by (auto simp: valid_ptr_def key_at_def ks'_def nth_append less_Suc_eq takeWhile_append1)
    qed
  qed
qed

section \<open>Shape of the tree\<close>

text \<open>What a tree stores, in order.\<close>

fun entries :: "tree_node \<Rightarrow> (string \<times> symbol_value) list" where
  "entries (Leaf ds) = ds"
| "entries (Node cs) = concat (map entries cs)"

text \<open>No array is empty: enough for the search.\<close>

fun solid :: "tree_node \<Rightarrow> bool" where
  "solid (Leaf ds) \<longleftrightarrow> ds \<noteq> []"
| "solid (Node cs) \<longleftrightarrow> cs \<noteq> [] \<and> (\<forall>c \<in> set cs. solid c)"

text \<open>A balanced tree of height \<open>h\<close> whose arrays are at least half full and not full.\<close>

fun filled :: "nat \<Rightarrow> tree_node \<Rightarrow> bool" where
  "filled 0 (Leaf ds) \<longleftrightarrow> leaf_width \<le> 2 * length ds \<and> length ds < leaf_width"
| "filled (Suc h) (Node cs) \<longleftrightarrow>
     node_width \<le> 2 * length cs \<and> length cs < node_width \<and> (\<forall>c \<in> set cs. filled h c)"
| "filled _ _ \<longleftrightarrow> False"

text \<open>The root is a node: empty, with one leaf that is being filled, or with at least two children.\<close>

definition root_ok :: "tree_node \<Rightarrow> bool" where
  "root_ok t \<longleftrightarrow> t = Node [] \<or>
     (\<exists>ds. t = Node [Leaf ds] \<and> ds \<noteq> [] \<and> length ds < leaf_width) \<or>
     (\<exists>h cs. t = Node cs \<and> 2 \<le> length cs \<and> length cs < node_width \<and> (\<forall>c \<in> set cs. filled h c))"

fun frames_ok :: "nat \<Rightarrow> frame list \<Rightarrow> bool" where
  "frames_ok h [] \<longleftrightarrow> True"
| "frames_ok h ((l, r) # p) \<longleftrightarrow>
     (\<forall>c \<in> set l \<union> set r. filled h c) \<and> length l + length r + 1 < node_width \<and>
     (if p = [] then 1 \<le> length l + length r else node_width \<le> 2 * (length l + length r + 1)) \<and>
     frames_ok (Suc h) p"

text \<open>A node with the frames above it, anywhere in a table.\<close>

definition fits :: "frame list \<Rightarrow> tree_node \<Rightarrow> bool" where
  "fits p t \<longleftrightarrow> (p \<noteq> [] \<and> (\<exists>h. filled h t \<and> frames_ok h p)) \<or>
     (\<exists>ds. t = Leaf ds \<and> ds \<noteq> [] \<and> length ds < leaf_width \<and> p = [([], [])]) \<or>
     (p = [] \<and> root_ok t \<and> t \<noteq> Node [])"

fun before :: "frame list \<Rightarrow> (string \<times> symbol_value) list" where
  "before [] = []"
| "before ((l, r) # p) = before p @ concat (map entries l)"

fun behind :: "frame list \<Rightarrow> (string \<times> symbol_value) list" where
  "behind [] = []"
| "behind ((l, r) # p) = concat (map entries r) @ behind p"

lemma entries_plug: "entries (plug t p) = before p @ entries t @ behind p"
  by (induction t p rule: plug.induct) auto

lemmas widths = leaf_width_def node_width_def

lemma filled_Leaf: "filled h (Leaf ds) \<longleftrightarrow> h = 0 \<and> leaf_width \<le> 2 * length ds \<and> length ds < leaf_width"
  by (cases h) auto

lemma filled_Node: "filled h (Node cs) \<longleftrightarrow> (\<exists>k. h = Suc k \<and>
    node_width \<le> 2 * length cs \<and> length cs < node_width \<and> (\<forall>c \<in> set cs. filled k c))"
  by (cases h) auto

lemma filled_solid: "filled h t \<Longrightarrow> solid t"
  by (induction h t rule: filled.induct) (auto simp: widths)

lemma fits_solid: "fits p t \<Longrightarrow> solid t"
  using filled_solid by (fastforce simp: fits_def root_ok_def)

lemma solid_entries: "solid t \<Longrightarrow> entries t \<noteq> []"
  by (induction t) (auto simp: neq_Nil_conv)

lemma node_last_key_eq: "solid t \<Longrightarrow> node_last_key t = Some (fst (last (entries t)))"
proof (induction t rule: node_last_key.induct)
  case (2 cs)
  then obtain ds c where cs: "cs = ds @ [c]" by (cases cs rule: rev_cases) auto
  then show ?case using 2 solid_entries [of c] by simp
qed (simp add: last_conv_nth)

lemma fits_child:
  assumes "fits p (Node cs)" "i < length cs"
  shows "fits ((take i cs, drop (Suc i) cs) # p) (cs ! i)"
proof -
  have mem: "cs ! i \<in> set cs" "set (take i cs) \<subseteq> set cs" "set (drop (Suc i) cs) \<subseteq> set cs"
    using assms(2) by (auto dest: in_set_takeD in_set_dropD)
  from assms(1) consider (inner) h where "p \<noteq> []" "filled (Suc h) (Node cs)" "frames_ok (Suc h) p"
    | (one) ds where "p = []" "cs = [Leaf ds]" "ds \<noteq> []" "length ds < leaf_width"
    | (root) h where "p = []" "2 \<le> length cs" "length cs < node_width" "\<forall>c \<in> set cs. filled h c"
    by (auto simp: fits_def root_ok_def filled_Node)
  then show ?thesis
  proof cases
    case inner
    then have "filled h (cs ! i)" "frames_ok h ((take i cs, drop (Suc i) cs) # p)"
      using assms(2) mem by auto
    then show ?thesis by (auto simp: fits_def)
  next
    case one
    then show ?thesis using assms(2) by (auto simp: fits_def)
  next
    case root
    then have "filled h (cs ! i)" "frames_ok h ((take i cs, drop (Suc i) cs) # p)"
      using assms(2) mem by auto
    then show ?thesis by (auto simp: fits_def)
  qed
qed

lemma plug_ok: "\<lbrakk>filled h t; frames_ok h p; p \<noteq> []\<rbrakk> \<Longrightarrow> root_ok (plug t p)"
proof (induction t p arbitrary: h rule: plug.induct)
  case (2 t l r p)
  show ?case
  proof (cases "p = []")
    case True
    then show ?thesis using 2 unfolding root_ok_def by (intro disjI2 exI [of _ h]) auto
  next
    case False
    have "filled (Suc h) (Node (l @ t # r))" using 2 False by auto
    then have "root_ok (plug (Node (l @ t # r)) p)"
      using 2 False by (intro "2.IH" [of "Suc h"]) auto
    then show ?thesis by simp
  qed
qed simp

lemma fits_root: "fits p t \<Longrightarrow> root_ok (plug t p)"
  by (auto simp: fits_def plug_ok) (simp add: root_ok_def)

section \<open>Splitting\<close>

lemma entries_halves:
  "concat (map entries (take n cs)) @ concat (map entries (drop n cs)) @ es = concat (map entries cs) @ es"
  by (simp flip: append_assoc concat_append map_append)

lemma split_node_ok:
  assumes "\<forall>c \<in> set cs. filled h c" "length cs \<le> node_width" "frames_ok (Suc h) p"
    "if p = [] then 2 \<le> length cs else node_width \<le> 2 * length cs"
  shows "\<exists>t. split_node cs p = Some t \<and> root_ok t \<and> entries t = entries (plug (Node cs) p)"
  using assms
proof (induction p arbitrary: cs h)
  case Nil
  let ?n = "node_width - node_width div 2"
  show ?case
  proof (cases "length cs = node_width")
    case True
    then have "split_node cs [] = Some (Node [Node (take ?n cs), Node (drop ?n cs)])"
      by (subst split_node.simps) (auto simp: split_half_eq widths)
    moreover have "entries (Node [Node (take ?n cs), Node (drop ?n cs)]) = entries (Node cs)"
      by (simp flip: concat_append map_append)
    moreover have "root_ok (Node [Node (take ?n cs), Node (drop ?n cs)])"
      using True Nil.prems(1) unfolding root_ok_def
      by (intro disjI2 exI [of _ "Suc h"]) (auto simp: widths dest: in_set_takeD in_set_dropD)
    ultimately show ?thesis by auto
  next
    case False
    then have "split_node cs [] = Some (Node cs)" by (subst split_node.simps) simp
    moreover have "root_ok (Node cs)"
      using False Nil.prems unfolding root_ok_def by (intro disjI2 exI [of _ h]) auto
    ultimately show ?thesis by simp
  qed
next
  case (Cons f p)
  obtain l r where f: "f = (l, r)" by (cases f)
  let ?n = "node_width - node_width div 2"
  show ?case
  proof (cases "length cs = node_width")
    case True
    let ?cs = "l @ Node (take ?n cs) # Node (drop ?n cs) # r"
    have "split_node cs (f # p) = split_node ?cs p"
      using True Cons.prems(3) f
      by (subst split_node.simps) (auto simp: split_half_eq insert_at_eq widths)
    moreover have "\<forall>c \<in> set ?cs. filled (Suc h) c"
      using True Cons.prems f by (auto simp: widths dest: in_set_takeD in_set_dropD)
    then have "\<exists>t. split_node ?cs p = Some t \<and> root_ok t \<and> entries t = entries (plug (Node ?cs) p)"
      using Cons.prems f by (intro Cons.IH [of _ "Suc h"]) (auto split: if_splits)
    moreover have "entries (plug (Node ?cs) p) = entries (plug (Node cs) (f # p))"
      by (simp add: entries_plug f entries_halves)
    ultimately show ?thesis by simp
  next
    case False
    then have "split_node cs (f # p) = Some (plug (Node cs) (f # p))"
      by (subst split_node.simps) simp
    moreover have "filled (Suc h) (Node cs)" using False Cons.prems by auto
    then have "root_ok (plug (Node cs) (f # p))" using Cons.prems(3) by (intro plug_ok) auto
    ultimately show ?thesis by simp
  qed
qed

lemma split_leaf_ok:
  assumes "fits p (Leaf ds)" "length ds' = leaf_width"
  shows "\<exists>t. split_leaf ds' p = Some t \<and> root_ok t \<and> entries t = entries (plug (Leaf ds') p)"
proof -
  have "p \<noteq> []" using assms(1) by (auto simp: fits_def root_ok_def)
  then obtain l r q where p: "p = (l, r) # q" by (cases p) auto
  let ?n = "leaf_width - leaf_width div 2"
  let ?cs = "l @ Leaf (take ?n ds') # Leaf (drop ?n ds') # r"
  have lr: "\<forall>c \<in> set l \<union> set r. filled 0 c" "length l + length r + 1 < node_width" "frames_ok 1 q"
    "q = [] \<or> node_width \<le> 2 * (length l + length r + 1)"
    using assms(1) p by (auto simp: fits_def filled_Leaf widths split: if_splits)
  have cs: "\<forall>c \<in> set ?cs. filled 0 c" using lr(1) assms(2) by (auto simp: widths)
  have "split_leaf ds' p = split_node ?cs q"
    using p lr assms(2)
    by (auto simp: split_leaf_def split_half_eq insert_at_eq widths split_node.simps)
  moreover have "\<exists>t. split_node ?cs q = Some t \<and> root_ok t \<and> entries t = entries (plug (Node ?cs) q)"
    using cs lr by (intro split_node_ok [of _ 0]) auto
  moreover have "entries (plug (Node ?cs) q) = entries (plug (Leaf ds') p)"
    by (simp add: entries_plug p)
  ultimately show ?thesis by simp
qed

section \<open>Searching\<close>

definition sorted_keys :: "(string \<times> symbol_value) list \<Rightarrow> bool" where
  "sorted_keys es \<longleftrightarrow> sorted_wrt (<) (map fst es)"

definition all_less :: "(string \<times> symbol_value) list \<Rightarrow> string \<Rightarrow> bool" where
  "all_less es key \<longleftrightarrow> (\<forall>e \<in> set es. fst e < key)"

definition all_greater :: "(string \<times> symbol_value) list \<Rightarrow> string \<Rightarrow> bool" where
  "all_greater es key \<longleftrightarrow> (\<forall>e \<in> set es. key < fst e)"

lemmas key_order_defs = sorted_keys_def all_less_def all_greater_def

lemma sorted_keys_append:
  "sorted_keys (a @ b) \<longleftrightarrow> sorted_keys a \<and> sorted_keys b \<and> (\<forall>x \<in> set a. \<forall>y \<in> set b. fst x < fst y)"
  by (auto simp: sorted_keys_def sorted_wrt_append)

lemma sorted_keys_Cons: "sorted_keys (e # b) \<longleftrightarrow> all_greater b (fst e) \<and> sorted_keys b"
  by (auto simp: key_order_defs)

lemma sorted_keys_last: "\<lbrakk>sorted_keys es; e \<in> set es\<rbrakk> \<Longrightarrow> fst e \<le> fst (last es)"
  by (cases es rule: rev_cases) (auto simp: sorted_keys_append intro: less_imp_le)

lemma map_of_less: "all_less es key \<Longrightarrow> map_of es key = None"
  by (auto simp: all_less_def map_of_eq_None_iff)

lemma map_of_greater: "all_greater es key \<Longrightarrow> map_of es key = None"
  by (auto simp: all_greater_def map_of_eq_None_iff)

lemma sorted_insert:
  assumes "sorted_keys (a @ b)" "all_less a key" "all_greater b key"
  shows "sorted_keys (a @ (key, v) # b) \<and> map_of (a @ (key, v) # b) = (map_of (a @ b))(key \<mapsto> v) \<and>
    map_of (a @ b) key = None"
proof -
  have "map_of a key = None" "map_of b key = None" using assms map_of_less map_of_greater by auto
  then have "map_of (a @ (key, v) # b) = (map_of (a @ b))(key \<mapsto> v)" "map_of (a @ b) key = None"
    by (auto simp: map_add_def fun_eq_iff split: option.split)
  moreover have "sorted_keys (a @ (key, v) # b)"
    using assms by (auto simp: sorted_keys_append sorted_keys_Cons all_less_def all_greater_def)
  ultimately show ?thesis by simp
qed

lemma sorted_update:
  assumes "sorted_keys (a @ (key, u) # b)"
  shows "sorted_keys (a @ (key, v) # b) \<and>
    map_of (a @ (key, v) # b) = (map_of (a @ (key, u) # b))(key \<mapsto> v) \<and>
    map_of (a @ (key, u) # b) key = Some u"
proof -
  have s: "sorted_keys (a @ b)" "all_less a key" "all_greater b key"
    using assms by (auto simp: sorted_keys_append sorted_keys_Cons all_less_def)
  show ?thesis using sorted_insert [OF s, of u] sorted_insert [OF s, of v] by simp
qed

lemma leaf_scan_ok:
  assumes "sorted_keys ds" "all_less (take idx ds) key" "idx \<le> length ds"
  shows "case leaf_scan key ds idx of
      Run_Out \<Rightarrow> all_less ds key
    | Found i \<Rightarrow> i < length ds \<and> fst (ds ! i) = key
    | Before i \<Rightarrow> i < length ds \<and> all_less (take i ds) key \<and> all_greater (drop i ds) key"
  using assms
proof (induction key ds idx rule: leaf_scan.induct)
  case (1 key ds idx)
  show ?case
  proof (cases "idx = length ds")
    case True
    then show ?thesis using "1.prems" by (subst leaf_scan.simps) simp
  next
    case False
    then have i: "idx < length ds" using "1.prems"(3) by simp
    then have d: "drop idx ds = ds ! idx # drop (Suc idx) ds" by (simp add: Cons_nth_drop_Suc)
    have "sorted_keys (drop idx ds)"
      using "1.prems"(1) by (metis append_take_drop_id sorted_keys_append)
    then have g: "all_greater (drop (Suc idx) ds) (fst (ds ! idx))"
      unfolding d by (simp add: sorted_keys_Cons)
    consider "key = fst (ds ! idx)" | "key < fst (ds ! idx)" | "fst (ds ! idx) < key" by fastforce
    then show ?thesis
    proof cases
      case 1
      then show ?thesis using i by (subst leaf_scan.simps) simp
    next
      case 2
      then have "all_greater (drop idx ds) key"
        using g unfolding d by (auto simp: all_greater_def dest: less_trans)
      then show ?thesis using i 2 "1.prems" by (subst leaf_scan.simps) simp
    next
      case 3
      then have "all_less (take (Suc idx) ds) key"
        using i "1.prems"(2) by (auto simp: take_Suc_conv_app_nth all_less_def)
      then show ?thesis
        using i 3 "1.IH" [OF _ refl] "1.prems" by (subst leaf_scan.simps) (auto simp: Let_def)
    qed
  qed
qed

lemma child_search_ok:
  assumes "\<And>j. j < length cs \<Longrightarrow> node_last_key (cs ! j) = Some (L j)"
    "\<And>i j. \<lbrakk>i < j; j < length cs\<rbrakk> \<Longrightarrow> L i < L j"
    "mn < mx" "mx \<le> length cs" "\<forall>j < mn. L j < key" "mx = length cs \<or> key < L mx"
  shows "\<exists>i. child_search key cs mn mx = Some i \<and> i < length cs \<and> (\<forall>j < i. L j < key) \<and>
    (key \<le> L i \<or> Suc i = length cs)"
  using assms(3-)
proof (induction "mx - mn" arbitrary: mn mx rule: less_induct)
  case less
  define idx where "idx = mn + (mx - mn) div 2"
  have i: "mn \<le> idx" "idx < mx" "idx < length cs" using less.prems unfolding idx_def by auto
  have below: "L j < L idx" if "j < idx" for j using assms(2) that i by blast
  have "child_search key cs mn mx =
    (if key = L idx then Some idx
     else if L idx < key then
       (if idx + 1 = length cs then Some idx
        else if idx + 1 = mx then Some mx else child_search key cs (idx + 1) mx)
     else (if idx = mn then Some idx else child_search key cs mn idx))"
    using less.prems i assms(1)
    by (subst child_search.simps) (simp add: idx_def [symmetric] Let_def)
  moreover consider (eq) "key = L idx" | (last) "L idx < key" "idx + 1 = length cs"
    | (edge) "L idx < key" "idx + 1 \<noteq> length cs" "idx + 1 = mx"
    | (right) "L idx < key" "idx + 1 \<noteq> length cs" "idx + 1 \<noteq> mx"
    | (first) "key < L idx" "idx = mn" | (left) "key < L idx" "idx \<noteq> mn" by fastforce
  then show ?case
  proof cases
    case eq
    then show ?thesis using calculation i below by auto
  next
    case last
    then show ?thesis using calculation i below less_trans by fastforce
  next
    case edge
    then have "child_search key cs mn mx = Some mx" using calculation by auto
    moreover have "mx < length cs" "key < L mx" using edge less.prems by auto
    moreover have "L j < key" if "j < mx" for j
      using that edge below [of j] by (cases "j = idx") auto
    ultimately show ?thesis by (auto intro: less_imp_le)
  next
    case right
    then have "child_search key cs mn mx = child_search key cs (idx + 1) mx" using calculation by auto
    moreover have "\<forall>j < idx + 1. L j < key"
      using right below by (metis add.commute less_Suc_eq less_trans plus_1_eq_Suc)
    ultimately show ?thesis using less.hyps [of mx "idx + 1"] less.prems right i by auto
  next
    case first
    then show ?thesis using calculation i less.prems by (auto intro: less_imp_le)
  next
    case left
    then have "child_search key cs mn mx = child_search key cs mn idx" using calculation by auto
    then show ?thesis using less.hyps [of idx mn] less.prems left i by auto
  qed
qed

lemma set_take_nth: "n \<le> length xs \<Longrightarrow> set (take n xs) = (\<lambda>j. xs ! j) ` {..< n}"
  by (force simp: in_set_conv_nth)

text \<open>The child that the search takes has all smaller keys before it and all greater ones after.\<close>

lemma child_search_place:
  assumes "sorted_keys (concat (map entries cs))" "\<forall>c \<in> set cs. solid c" "cs \<noteq> []"
  shows "\<exists>i. child_search key cs 0 (length cs) = Some i \<and> i < length cs \<and>
    all_less (concat (map entries (take i cs))) key \<and>
    (all_greater (concat (map entries (drop (Suc i) cs))) key)"
proof -
  define L where "L j = fst (last (entries (cs ! j)))" for j
  have split: "concat (map entries cs)
      = concat (map entries (take j cs)) @ entries (cs ! j) @ concat (map entries (drop (Suc j) cs))"
    if "j < length cs" for j
    using that by (metis concat.simps(2) concat_append id_take_nth_drop list.simps(9) map_append)
  have last: "last (entries (cs ! j)) \<in> set (entries (cs ! j))" if "j < length cs" for j
    using that assms(2) solid_entries by (simp add: nth_mem)
  have after: "L j < fst e" if "j < length cs" "e \<in> set (concat (map entries (drop (Suc j) cs)))" for j e
    using assms(1) that last [OF that(1)] unfolding split [OF that(1)] L_def
    by (auto simp: sorted_keys_append)
  have within: "fst e \<le> L j" if "j < length cs" "e \<in> set (entries (cs ! j))" for j e
    using assms(1) that unfolding split [OF that(1)] L_def
    by (auto simp: sorted_keys_append intro: sorted_keys_last)
  have mono: "L i < L j" if "i < j" "j < length cs" for i j
  proof -
    have "cs ! j \<in> set (drop (Suc i) cs)"
      using that by (auto simp: in_set_conv_nth intro!: exI [of _ "j - Suc i"])
    then have "last (entries (cs ! j)) \<in> set (concat (map entries (drop (Suc i) cs)))"
      using last [OF that(2)] by auto
    then show ?thesis using after [of i] that unfolding L_def [of j] by auto
  qed
  have "node_last_key (cs ! j) = Some (L j)" if "j < length cs" for j
    using that assms(2) by (simp add: node_last_key_eq L_def)
  then obtain i where i: "child_search key cs 0 (length cs) = Some i" "i < length cs"
      "\<forall>j < i. L j < key" "key \<le> L i \<or> Suc i = length cs"
    using child_search_ok [of cs L 0 "length cs" key] mono assms(3) by auto
  have "all_less (concat (map entries (take i cs))) key"
    unfolding all_less_def
  proof
    fix e assume "e \<in> set (concat (map entries (take i cs)))"
    then obtain j where j: "j < i" "e \<in> set (entries (cs ! j))"
      using i(2) by (auto simp: set_take_nth less_imp_le)
    then show "fst e < key" using within [of j e] i(2,3) le_less_trans [of "fst e" "L j"] by simp
  qed
  moreover have "all_greater (concat (map entries (drop (Suc i) cs))) key"
    using i after [OF i(2)] unfolding all_greater_def by (auto dest: le_less_trans)
  ultimately show ?thesis using i by blast
qed

section \<open>The table\<close>

definition lookup :: "symbol_table \<Rightarrow> string \<rightharpoonup> symbol_value" where
  "lookup tab = map_of (entries (root tab))"

definition good_key :: "string \<Rightarrow> bool" where
  "good_key key \<longleftrightarrow> length key < chunk_size \<and> CHR 0x00 \<notin> set key"

definition keys_stored :: "symbol_table \<Rightarrow> bool" where
  "keys_stored tab \<longleftrightarrow> (\<forall>key \<in> dom (lookup tab).
     \<exists>p. valid_ptr (keys_of tab) p \<and> key_at (keys_of tab) p = key)"

definition wf_table :: "symbol_table \<Rightarrow> bool" where
  "wf_table tab \<longleftrightarrow> root_ok (root tab) \<and> sorted_keys (entries (root tab)) \<and>
     wf_store (keys_of tab) \<and> keys_stored tab"

lemma fits_leaf:
  "\<lbrakk>fits p (Leaf ds); length ds \<le> length ds'; length ds' < leaf_width\<rbrakk> \<Longrightarrow> fits p (Leaf ds')"
  by (auto simp: fits_def filled_Leaf root_ok_def)

lemma leaf_insert_ok:
  assumes "fits p (Leaf ds)" "wf_table tab" "root tab = plug (Leaf ds) p" "good_key key"
    "i \<le> length ds" "all_less (before p @ take i ds) key" "all_greater (drop i ds @ behind p) key"
  shows "\<exists>tab'. leaf_insert i key val ds p tab = Some tab' \<and> wf_table tab' \<and>
    lookup tab' = (lookup tab)(key \<mapsto> val) \<and> lookup tab key = None"
proof -
  obtain ks q where ks: "key_strdup (keys_of tab) key = Some (ks, q)" "wf_store ks" "valid_ptr ks q"
      "key_at ks q = key"
      "\<And>q. valid_ptr (keys_of tab) q \<Longrightarrow> valid_ptr ks q \<and> key_at ks q = key_at (keys_of tab) q"
    using key_strdup_ok [of "keys_of tab" key] assms(2,4) unfolding wf_table_def good_key_def by metis
  let ?ds = "take i ds @ (key, val) # drop i ds"
  have len: "length ds < leaf_width"
    using assms(1) by (auto simp: fits_def filled_Leaf root_ok_def)
  have "\<exists>t. (if length ?ds = leaf_width then split_leaf ?ds p else Some (plug (Leaf ?ds) p)) = Some t \<and>
      root_ok t \<and> entries t = entries (plug (Leaf ?ds) p)"
    using split_leaf_ok [OF assms(1), of ?ds] fits_root [OF fits_leaf [OF assms(1), of ?ds]] len assms(5)
    by auto
  then obtain t where t: "(if length ?ds = leaf_width then split_leaf ?ds p else Some (plug (Leaf ?ds) p)) = Some t"
      "root_ok t" "entries t = (before p @ take i ds) @ (key, val) # (drop i ds @ behind p)"
    by (auto simp: entries_plug)
  have old: "entries (root tab) = (before p @ take i ds) @ (drop i ds @ behind p)"
    by (simp add: assms(3) entries_plug)
  have new: "sorted_keys (entries t)" "map_of (entries t) = (lookup tab)(key \<mapsto> val)" "lookup tab key = None"
    using sorted_insert [OF _ assms(6,7), of val] assms(2) unfolding t(3) lookup_def wf_table_def old
    by blast+
  let ?tab = "\<lparr>root = t, keys_of = ks\<rparr>"
  have "leaf_insert i key val ds p tab = Some ?tab"
    using t(1) assms(5) len by (simp add: leaf_insert_def ks(1) insert_at_eq)
  moreover have "lookup ?tab = (lookup tab)(key \<mapsto> val)" using new by (simp add: lookup_def)
  moreover have "keys_stored ?tab"
    unfolding keys_stored_def
  proof
    fix k assume "k \<in> dom (lookup ?tab)"
    then have "k = key \<or> k \<in> dom (lookup tab)" using new(2) by (auto simp: lookup_def)
    then show "\<exists>p. valid_ptr (keys_of ?tab) p \<and> key_at (keys_of ?tab) p = k"
      using ks(3-5) assms(2) unfolding wf_table_def keys_stored_def by (metis symbol_table.select_convs(2))
  qed
  ultimately show ?thesis using new t(2) ks(2) by (simp add: wf_table_def)
qed

definition the_default :: "'a \<Rightarrow> 'a option \<Rightarrow> 'a" where
  "the_default d m = (case m of None \<Rightarrow> d | Some x \<Rightarrow> x)"

text \<open>What looking for a key does to the map, and what it returns.\<close>

definition found_value :: "(string \<rightharpoonup> symbol_value) \<Rightarrow> string \<Rightarrow> symbol_value \<Rightarrow> bool \<Rightarrow> symbol_value" where
  "found_value m key val force =
     (case m key of Some old \<Rightarrow> if force then val else old | None \<Rightarrow> val)"

lemma find_value_ok:
  assumes "fits p t" "wf_table tab" "root tab = plug t p" "good_key key"
    "all_less (before p) key" "all_greater (behind p) key"
  shows "\<exists>tab'. find_value t p tab key val force = Some (tab', found_value (lookup tab) key val force) \<and>
    wf_table tab' \<and> lookup tab' = (lookup tab)(key \<mapsto> found_value (lookup tab) key val force)"
  using assms
proof (induction t p tab key val force rule: find_value.induct)
  case (1 ds p tab key val force)
  have es: "entries (root tab) = before p @ ds @ behind p" using "1.prems"(3) by (simp add: entries_plug)
  have sorted: "sorted_keys ds"
    using "1.prems"(2) unfolding wf_table_def es by (simp add: sorted_keys_append)
  have insert: ?case if "i \<le> length ds" "all_less (take i ds) key" "all_greater (drop i ds) key"
      "find_value (Leaf ds) p tab key val force = map_option (\<lambda>tab'. (tab', val)) (leaf_insert i key val ds p tab)"
    for i
  proof -
    have "all_less (before p @ take i ds) key" "all_greater (drop i ds @ behind p) key"
      using that(2,3) "1.prems"(5,6) by (auto simp: all_less_def all_greater_def)
    from leaf_insert_ok [OF "1.prems"(1-4) that(1) this, of val] obtain tab' where
      "leaf_insert i key val ds p tab = Some tab'" "wf_table tab'"
      "lookup tab' = (lookup tab)(key \<mapsto> val)" "lookup tab key = None" by blast
    moreover from this have "found_value (lookup tab) key val force = val"
      by (simp add: found_value_def)
    ultimately show ?thesis unfolding that(4) by auto
  qed
  show ?case
  proof (cases "leaf_scan key ds 0")
    case Run_Out
    then show ?thesis
      using leaf_scan_ok [OF sorted, of 0 key] insert [of "length ds"]
      by (simp add: all_less_def all_greater_def)
  next
    case (Before i)
    then show ?thesis
      using leaf_scan_ok [OF sorted, of 0 key] insert [of i] by (simp add: all_less_def)
  next
    case (Found i)
    then have i: "i < length ds" "fst (ds ! i) = key"
      using leaf_scan_ok [OF sorted, of 0 key] by (auto simp: all_less_def)
    define a b u where "a = before p @ take i ds" "b = drop (Suc i) ds @ behind p" "u = snd (ds ! i)"
    have ds: "ds = take i ds @ (key, u) # drop (Suc i) ds"
      using i by (metis \<open>u = snd (ds ! i)\<close> id_take_nth_drop prod.collapse)
    have old: "entries (root tab) = a @ (key, u) # b"
      unfolding es by (subst ds) (simp add: a_b_u_def)
    note upd = sorted_update [of a key u b, folded old]
    have l: "lookup tab key = Some u" using upd "1.prems"(2) by (simp add: wf_table_def lookup_def)
    show ?thesis
    proof (cases force)
      case False
      then show ?thesis using Found l "1.prems"(2) by (auto simp: found_value_def a_b_u_def)
    next
      case True
      let ?tab = "tab\<lparr>root := plug (Leaf (ds[i := (key, val)])) p\<rparr>"
      have e: "entries (root ?tab) = a @ (key, val) # b"
        using i(1) by (simp add: entries_plug a_b_u_def upd_conv_take_nth_drop)
      have m: "lookup ?tab = (lookup tab)(key \<mapsto> val)" "sorted_keys (entries (root ?tab))"
        using upd [of val] "1.prems"(2) unfolding lookup_def e wf_table_def by auto
      have "fits p (Leaf (ds[i := (key, val)]))"
        using fits_leaf [OF "1.prems"(1), of "ds[i := (key, val)]"] "1.prems"(1)
        by (auto simp: fits_def filled_Leaf root_ok_def)
      then have "root_ok (root ?tab)" by (simp add: fits_root)
      moreover have "keys_stored ?tab"
        using "1.prems"(2) l unfolding wf_table_def keys_stored_def m by (auto simp: domIff)
      ultimately have "wf_table ?tab" using m "1.prems"(2) by (simp add: wf_table_def)
      then show ?thesis using Found True i m l by (auto simp: found_value_def)
    qed
  qed
next
  case (2 cs p tab key val force)
  have es: "entries (root tab) = before p @ concat (map entries cs) @ behind p"
    using "2.prems"(3) by (simp add: entries_plug)
  have "sorted_keys (concat (map entries cs))"
    using "2.prems"(2) unfolding wf_table_def es by (simp add: sorted_keys_append)
  moreover have "solid (Node cs)" using fits_solid "2.prems"(1) by blast
  ultimately obtain i where i: "child_search key cs 0 (length cs) = Some i" "i < length cs"
      "all_less (concat (map entries (take i cs))) key"
      "all_greater (concat (map entries (drop (Suc i) cs))) key"
    using child_search_place [of cs key] by auto
  have "plug (cs ! i) ((take i cs, drop (Suc i) cs) # p) = root tab"
    using "2.prems"(3) i(2) by (simp add: Cons_nth_drop_Suc)
  then show ?case
    using "2.IH" [OF i(1,2) fits_child [OF "2.prems"(1) i(2)] "2.prems"(2)] "2.prems"(4-6) i
    by (simp add: all_less_def all_greater_def ball_Un)
qed

section \<open>The table is a map\<close>

lemma root_ok_fits: "\<lbrakk>root_ok t; node_count t \<noteq> 0\<rbrakk> \<Longrightarrow> fits [] t"
  by (auto simp: fits_def node_count_def)

lemma root_ok_empty: "\<lbrakk>root_ok t; node_count t = 0\<rbrakk> \<Longrightarrow> t = Node []"
  by (auto simp: root_ok_def node_count_def)

lemma first_value_ok:
  assumes "wf_table tab" "root tab = Node []" "good_key key"
  shows "lookup tab key = None \<and>
    (\<exists>tab'. first_value tab key val = Some tab' \<and> wf_table tab' \<and> lookup tab' = (lookup tab)(key \<mapsto> val))"
proof -
  obtain ks q where ks: "key_strdup (keys_of tab) key = Some (ks, q)" "wf_store ks" "valid_ptr ks q"
      "key_at ks q = key"
    using key_strdup_ok [of "keys_of tab" key] assms unfolding wf_table_def good_key_def by metis
  have "root_ok (Node [Leaf [(key, val)]])" by (simp add: root_ok_def widths)
  then have "wf_table \<lparr>root = Node [Leaf [(key, val)]], keys_of = ks\<rparr>"
    using ks by (auto simp: wf_table_def sorted_keys_def keys_stored_def lookup_def simp del: split_paired_Ex)
  then show ?thesis using ks assms(2) by (simp add: first_value_def lookup_def)
qed

lemma sym_set_value_ok:
  assumes "wf_table tab" "good_key key"
  shows "\<exists>tab'. sym_set_value tab key val = Some tab' \<and> wf_table tab' \<and>
    lookup tab' = (lookup tab)(key \<mapsto> val)"
proof (cases "node_count (root tab) = 0")
  case True
  then show ?thesis
    using first_value_ok [OF assms(1) root_ok_empty assms(2), of val] assms(1)
    by (simp add: sym_set_value_def wf_table_def)
next
  case False
  have "found_value (lookup tab) key val True = val" by (simp add: found_value_def split: option.split)
  then show ?thesis
    using find_value_ok [OF root_ok_fits assms(1) _ assms(2), of "root tab" val True] assms(1) False
    by (auto simp: sym_set_value_def wf_table_def all_less_def all_greater_def)
qed

lemma sym_get_value_ok:
  assumes "wf_table tab" "good_key key"
  shows "\<exists>tab'. sym_get_value tab key = Some (tab', the_default 0 (lookup tab key)) \<and> wf_table tab' \<and>
    lookup tab' = (lookup tab)(key \<mapsto> the_default 0 (lookup tab key))"
proof (cases "node_count (root tab) = 0")
  case True
  then show ?thesis
    using first_value_ok [OF assms(1) root_ok_empty assms(2), of 0] assms(1)
    by (auto simp: sym_get_value_def wf_table_def the_default_def)
next
  case False
  have "found_value (lookup tab) key 0 False = the_default 0 (lookup tab key)"
    by (simp add: found_value_def the_default_def split: option.split)
  then show ?thesis
    using find_value_ok [OF root_ok_fits assms(1) _ assms(2), of "root tab" 0 False] assms(1) False
    by (auto simp: sym_get_value_def wf_table_def all_less_def all_greater_def)
qed

lemma new_symbol_table_ok: "wf_table new_symbol_table \<and> lookup new_symbol_table = Map.empty"
  by (simp add: new_symbol_table_def wf_table_def root_ok_def sorted_keys_def wf_store_def
      keys_stored_def lookup_def)

text \<open>A tree of height \<open>h\<close> that is half full holds exponentially many keys.\<close>

lemma entries_count:
  "\<lbrakk>\<forall>c \<in> set cs. k \<le> length (entries c); n \<le> length cs\<rbrakk> \<Longrightarrow> n * k \<le> length (concat (map entries cs))"
proof (induction cs arbitrary: n)
  case (Cons c cs)
  then show ?case using Cons.IH [of "n - 1"] by (cases n) (auto intro: add_mono)
qed simp

lemma filled_count: "filled h t \<Longrightarrow> 127 * 254 ^ h \<le> length (entries t)"
proof (induction h t rule: filled.induct)
  case (2 h cs)
  then have "254 * (127 * 254 ^ h) \<le> length (concat (map entries cs))"
    by (intro entries_count) (auto simp: widths)
  then show ?case by simp
qed (auto simp: widths)

lemma sorted_keys_count: "sorted_keys es \<Longrightarrow> card (dom (map_of es)) = length es"
  by (simp add: sorted_keys_def dom_map_of_conv_image_fst distinct_card strict_sorted_iff flip: set_map)

section \<open>Requests\<close>

datatype request = Set_Value string symbol_value | Get_Value string

text \<open>A sequence of requests to a table, with the values that the reads return.\<close>

fun run_requests :: "('m \<Rightarrow> string \<Rightarrow> symbol_value \<Rightarrow> 'm option) \<Rightarrow>
    ('m \<Rightarrow> string \<Rightarrow> ('m \<times> symbol_value) option) \<Rightarrow> 'm \<Rightarrow> request list \<Rightarrow> ('m \<times> symbol_value list) option" where
  "run_requests set_v get_v tab [] = Some (tab, [])"
| "run_requests set_v get_v tab (Set_Value key val # rs) =
     (case set_v tab key val of None \<Rightarrow> None | Some tab' \<Rightarrow> run_requests set_v get_v tab' rs)"
| "run_requests set_v get_v tab (Get_Value key # rs) =
     (case get_v tab key of None \<Rightarrow> None
      | Some (tab', v) \<Rightarrow> map_option (\<lambda>(t, vs). (t, v # vs)) (run_requests set_v get_v tab' rs))"

text \<open>The same requests to a map.\<close>

fun map_requests :: "(string \<rightharpoonup> symbol_value) \<Rightarrow> request list \<Rightarrow> (string \<rightharpoonup> symbol_value) \<times> symbol_value list" where
  "map_requests m [] = (m, [])"
| "map_requests m (Set_Value key val # rs) = map_requests (m(key \<mapsto> val)) rs"
| "map_requests m (Get_Value key # rs) =
     (let v = the_default 0 (m key); (m', vs) = map_requests (m(key \<mapsto> v)) rs in (m', v # vs))"

fun request_key :: "request \<Rightarrow> string" where
  "request_key (Set_Value key val) = key"
| "request_key (Get_Value key) = key"

text \<open>The contract of a symbol table.\<close>

locale symbol_map =
  fixes set_v :: "'m \<Rightarrow> string \<Rightarrow> symbol_value \<Rightarrow> 'm option"
    and get_v :: "'m \<Rightarrow> string \<Rightarrow> ('m \<times> symbol_value) option"
    and content :: "'m \<Rightarrow> string \<rightharpoonup> symbol_value"
    and wf :: "'m \<Rightarrow> bool"
    and key_ok :: "string \<Rightarrow> bool"
  assumes set_law: "\<lbrakk>wf m; key_ok key\<rbrakk> \<Longrightarrow>
      \<exists>m'. set_v m key val = Some m' \<and> wf m' \<and> content m' = (content m)(key \<mapsto> val)"
    and get_law: "\<lbrakk>wf m; key_ok key\<rbrakk> \<Longrightarrow>
      \<exists>m'. get_v m key = Some (m', the_default 0 (content m key)) \<and> wf m' \<and>
        content m' = (content m)(key \<mapsto> the_default 0 (content m key))"
begin

lemma requests_refine:
  "\<lbrakk>wf m; \<forall>r \<in> set rs. key_ok (request_key r)\<rbrakk> \<Longrightarrow>
   \<exists>m' vs. run_requests set_v get_v m rs = Some (m', vs) \<and> wf m' \<and>
     map_requests (content m) rs = (content m', vs)"
proof (induction rs arbitrary: m)
  case (Cons r rs)
  show ?case
  proof (cases r)
    case (Set_Value key val)
    then show ?thesis using set_law [of m key val] Cons by force
  next
    case (Get_Value key)
    then show ?thesis using get_law [of m key] Cons by force
  qed
qed simp

text \<open>Reading does not change what any later read returns.\<close>

lemma get_default:
  assumes "wf m" "key_ok key" "get_v m key = Some (m', v)"
  shows "v = the_default 0 (content m key) \<and> the_default 0 (content m' k) = the_default 0 (content m k)"
  using get_law [OF assms(1,2)] assms(3) by (auto simp: the_default_def)

end

interpretation sym: symbol_map sym_set_value sym_get_value lookup wf_table good_key
  using sym_set_value_ok sym_get_value_ok by unfold_locales blast+

text \<open>C6. Whatever sets and gets are sent to a new symbol table, with keys that fit a
  string chunk: no assertion fails and no array is overrun, every get returns the value last set for
  the key and zero when there is none, and the table ends up holding exactly the keys set or asked
  for.
\<close>

theorem symbol_table_map:
  assumes "\<forall>r \<in> set rs. good_key (request_key r)"
  shows "\<exists>tab vs. run_requests sym_set_value sym_get_value new_symbol_table rs = Some (tab, vs) \<and>
    map_requests Map.empty rs = (lookup tab, vs)"
  using sym.requests_refine [of new_symbol_table rs] new_symbol_table_ok assms by auto

lemma symbol_table_map_witness:
  "\<exists>tab. run_requests sym_set_value sym_get_value new_symbol_table
     [Set_Value ''b'' 5, Get_Value ''a'', Set_Value ''b'' 6, Get_Value ''b''] = Some (tab, [0, 6])"
  using symbol_table_map [of "[Set_Value ''b'' 5, Get_Value ''a'', Set_Value ''b'' 6, Get_Value ''b'']"]
  by (auto simp: good_key_def chunk_size_def the_default_def Let_def simp del: run_requests.simps)

text \<open>C31. After any such sequence the keys are stored in strictly increasing order,
  each with a pointer into the string chunks that reads as the key; and a table with more than one
  leaf is a balanced tree, all nodes below the root at least half full and none full, so that its
  height is logarithmic in the number of keys.
\<close>

theorem symbol_table_shape:
  assumes "\<forall>r \<in> set rs. good_key (request_key r)"
    and "run_requests sym_set_value sym_get_value new_symbol_table rs = Some (tab, vs)"
  shows "sorted_keys (entries (root tab)) \<and> keys_stored tab \<and>
    (\<exists>cs. root tab = Node cs \<and> length cs < node_width \<and>
      (2 \<le> length cs \<longrightarrow> (\<exists>h. (\<forall>c \<in> set cs. filled h c) \<and>
         2 * (127 * 254 ^ h) \<le> card (dom (lookup tab)))))"
proof -
  have wf: "wf_table tab"
    using sym.requests_refine [of new_symbol_table rs] new_symbol_table_ok assms by auto
  then obtain cs where cs: "root tab = Node cs" "length cs < node_width"
      "2 \<le> length cs \<longrightarrow> (\<exists>h. \<forall>c \<in> set cs. filled h c)"
    by (auto simp: wf_table_def root_ok_def widths)
  have "2 * (127 * 254 ^ h) \<le> card (dom (lookup tab))" if "2 \<le> length cs" "\<forall>c \<in> set cs. filled h c" for h
  proof -
    have "2 * (127 * 254 ^ h) \<le> length (entries (root tab))"
      using entries_count [of cs "127 * 254 ^ h" 2] that filled_count cs(1) by simp
    then show ?thesis
      using wf sorted_keys_count [of "entries (root tab)"] by (simp add: wf_table_def lookup_def)
  qed
  then show ?thesis using wf cs by (auto simp: wf_table_def)
qed

lemma symbol_table_shape_witness:
  "keys_stored \<lparr>root = Node [Leaf [(''a'', 0), (''b'', 5)]],
     keys_of = \<lparr>str_chunk = [[CHR ''b'', CHR 0x00, CHR ''a'', CHR 0x00]], str_used = 4\<rparr>\<rparr>"
proof -
  have "run_requests sym_set_value sym_get_value new_symbol_table [Set_Value ''b'' 5, Get_Value ''a''] =
     Some (\<lparr>root = Node [Leaf [(''a'', 0), (''b'', 5)]],
       keys_of = \<lparr>str_chunk = [[CHR ''b'', CHR 0x00, CHR ''a'', CHR 0x00]], str_used = 4\<rparr>\<rparr>, [0])"
    by (simp add: sym_set_value_def sym_get_value_def node_count_def first_value_def key_strdup_def
        new_symbol_table_def chunk_size_def child_search.simps leaf_scan.simps leaf_insert_def
        insert_at_def shift_up.simps widths less_char_def)
  then show ?thesis
    using symbol_table_shape [of "[Set_Value ''b'' 5, Get_Value ''a'']"]
    by (simp add: good_key_def chunk_size_def)
qed

end
