(* ===== verification/Compile_Link.thy ===== *)
theory Compile_Link
  imports Compile Symbols_Tree "HOL-Library.Multiset"
begin

text \<open>
  Correctness of the linker. The method \<^verbatim>\<open>resolve\<close> has a contract, the locale \<open>resolver\<close>: it succeeds
  exactly when its label is defined, a success keeps what earlier ones stored, and a failure defines
  nothing. Under the contract the passes of \<open>compile_cleanup\<close> leave open exactly what cannot be
  resolved; the methods of the model satisfy it for every state that \<open>link_ok\<close> describes.
\<close>

section \<open>The contract and the passes\<close>

text \<open>\<open>ok P D s\<close>: in state \<open>s\<close> the references \<open>P\<close> are pending and \<open>D\<close> are done.\<close>

locale resolver =
  fixes f :: "bool \<Rightarrow> 'r \<Rightarrow> 's \<Rightarrow> ('s \<times> bool) option"
    and defined :: "'s \<Rightarrow> 'r \<Rightarrow> bool"
    and ok :: "'r multiset \<Rightarrow> 'r multiset \<Rightarrow> 's \<Rightarrow> bool"
  assumes resolved: "\<lbrakk>ok (add_mset r P) D s; defined s r\<rbrakk> \<Longrightarrow>
      \<exists>s'. f mes r s = Some (s', True) \<and> ok P (add_mset r D) s' \<and> (\<forall>q. defined s q \<longrightarrow> defined s' q)"
    and unresolved: "\<lbrakk>ok (add_mset r P) D s; \<not> defined s r\<rbrakk> \<Longrightarrow>
      \<exists>s'. f mes r s = Some (s', False) \<and> ok (add_mset r P) D s' \<and> (\<forall>q. defined s' q = defined s q)"
begin

lemma pass:
  "ok (mset items + A) D s \<Longrightarrow>
   \<exists>s' u R. resolv_pass (f mes) items acc n s = Some (s', u @ acc, n + int (length u)) \<and>
     mset items = mset u + R \<and> ok (mset u + A) (D + R) s' \<and>
     (length u = length items \<longrightarrow> (\<forall>q. defined s' q = defined s q) \<and> (\<forall>r \<in> set items. \<not> defined s r)) \<and>
     ((\<forall>r \<in> set items. \<not> defined s r) \<longrightarrow> length u = length items)"
proof (induction items arbitrary: A D s acc n)
  case Nil
  then show ?case by (intro exI [of _ s] exI [of _ "[]"] exI [of _ "{#}"]) simp
next
  case (Cons r items)
  show ?case
  proof (cases "defined s r")
    case True
    obtain s1 where s1: "f mes r s = Some (s1, True)" "ok (mset items + A) (add_mset r D) s1"
      using resolved [of r "mset items + A" D s mes] Cons.prems True by auto
    obtain s' u R where u: "resolv_pass (f mes) items acc n s1 = Some (s', u @ acc, n + int (length u))"
        "mset items = mset u + R" "ok (mset u + A) (add_mset r D + R) s'"
      using Cons.IH [OF s1(2), of acc n] by blast
    have "length u \<le> length items" using u(2) by (metis le_add1 size_mset size_union)
    then show ?thesis
      using u s1 True by (intro exI [of _ s'] exI [of _ u] exI [of _ "add_mset r R"]) simp
  next
    case False
    obtain s1 where s1: "f mes r s = Some (s1, False)" "ok (mset items + add_mset r A) D s1"
        "\<forall>q. defined s1 q = defined s q"
      using unresolved [of r "mset items + A" D s mes] Cons.prems False by auto
    obtain s' u R where u: "resolv_pass (f mes) items (r # acc) (n + 1) s1
          = Some (s', u @ r # acc, n + 1 + int (length u))"
        "mset items = mset u + R" "ok (mset u + add_mset r A) (D + R) s'"
        "length u = length items \<longrightarrow> (\<forall>q. defined s' q = defined s1 q) \<and> (\<forall>r \<in> set items. \<not> defined s1 r)"
        "(\<forall>r \<in> set items. \<not> defined s1 r) \<longrightarrow> length u = length items"
      using Cons.IH [OF s1(2), of "r # acc" "n + 1"] by blast
    then show ?thesis
      using s1 False by (intro exI [of _ s'] exI [of _ "u @ [r]"] exI [of _ R]) (auto simp: algebra_simps)
  qed
qed

lemma loop:
  "\<lbrakk>g = f; ok (mset items) D s; nerrs = int (length items) \<or> lnerrs = - 1 \<and> nerrs = 0;
    nerrs = lnerrs \<longrightarrow> (\<forall>r \<in> set items. \<not> defined s r)\<rbrakk> \<Longrightarrow>
   \<exists>s' left R. cleanup_loop g lnerrs nerrs items s = Some (s', left, int (length left)) \<and>
     mset items = mset left + R \<and> ok (mset left) (D + R) s' \<and> (\<forall>r \<in> set left. \<not> defined s' r)"
proof (induction g lnerrs nerrs items s arbitrary: D rule: cleanup_loop.induct)
  case (1 g lnerrs nerrs items s)
  let ?last = "nerrs = lnerrs"
  obtain s1 u R where u: "resolv_pass (g ?last) items [] 0 s = Some (s1, u, int (length u))"
      "mset items = mset u + R" "ok (mset u) (D + R) s1"
      "length u = length items \<longrightarrow> (\<forall>q. defined s1 q = defined s q) \<and> (\<forall>r \<in> set items. \<not> defined s r)"
      "(\<forall>r \<in> set items. \<not> defined s r) \<longrightarrow> length u = length items"
    using pass [of items "{#}" D s ?last "[]" 0] "1.prems"(1,2) by auto
  have same: "\<forall>r \<in> set u. \<not> defined s1 r" if "length u = length items"
    using u(2,4) that by (metis in_multiset_in_set union_iff)
  show ?case
  proof (cases "u = [] \<or> ?last")
    case True
    then have "cleanup_loop g lnerrs nerrs items s = Some (s1, u, int (length u))"
      using u(1) by (subst cleanup_loop.simps) auto
    moreover have "\<forall>r \<in> set u. \<not> defined s1 r" using True same u(5) "1.prems"(4) by auto
    ultimately show ?thesis using u(2,3) by blast
  next
    case False
    then have "cleanup_loop g lnerrs nerrs items s = cleanup_loop g nerrs (int (length u)) u s1"
      using u(1) by (subst cleanup_loop.simps) auto
    moreover have "int (length u) = nerrs \<longrightarrow> (\<forall>r \<in> set u. \<not> defined s1 r)"
      using same "1.prems"(3) False by auto
    then obtain s2 left R' where "cleanup_loop g nerrs (int (length u)) u s1 = Some (s2, left, int (length left))"
        "mset u = mset left + R'" "ok (mset left) (D + R + R') s2" "\<forall>r \<in> set left. \<not> defined s2 r"
      using "1.IH" [OF u(1) refl refl _ "1.prems"(1) u(3)] False by auto
    ultimately show ?thesis using u(2) by (intro exI [of _ s2] exI [of _ left] exI [of _ "R + R'"]) (auto simp: ac_simps)
  qed
qed

end

section \<open>Views of the state\<close>

definition sym_val :: "symbol_table \<Rightarrow> string \<Rightarrow> symbol_value" where
  "sym_val tab label = the_default 0 (lookup tab label)"

definition array_val :: "link_state \<Rightarrow> string \<Rightarrow> symbol_value" where
  "array_val s label = (case array_table s of None \<Rightarrow> 0 | Some t \<Rightarrow> sym_val t label)"

lemma get_sym_val:
  assumes "wf_table tab" "good_key label"
  obtains tab' where "sym_get_value tab label = Some (tab', sym_val tab label)" "wf_table tab'"
    "sym_val tab' = sym_val tab"
proof -
  obtain tab' where t: "sym_get_value tab label = Some (tab', sym_val tab label)" "wf_table tab'"
    using sym_get_value_ok [OF assms] by (auto simp: sym_val_def)
  moreover have "sym_val tab' = sym_val tab"
    using sym.get_default [OF assms t(1)] by (simp add: sym_val_def fun_eq_iff)
  ultimately show thesis using that by blast
qed

lemma set_sym_val:
  assumes "wf_table tab" "good_key label"
  obtains tab' where "sym_set_value tab label v = Some tab'" "wf_table tab'"
    "sym_val tab' = (sym_val tab)(label := v)"
  using sym_set_value_ok [OF assms, of v] by (auto simp: sym_val_def fun_eq_iff the_default_def)

text \<open>What the linker can observe of a state: the tables as functions, and everything else.\<close>

definition tables_ok :: "link_state \<Rightarrow> bool" where
  "tables_ok s \<longleftrightarrow> wf_table (sym_codespace s) \<and> wf_table (sym_functors s) \<and> wf_table (sym_vpi s) \<and>
     pred_option wf_table (array_table s)"

definition same_view :: "link_state \<Rightarrow> link_state \<Rightarrow> bool" where
  "same_view s s' \<longleftrightarrow> tables_ok s' \<and> sym_val (sym_codespace s') = sym_val (sym_codespace s) \<and>
     sym_val (sym_functors s') = sym_val (sym_functors s) \<and> sym_val (sym_vpi s') = sym_val (sym_vpi s) \<and>
     array_val s' = array_val s \<and> space s' = space s \<and> others s' = others s \<and> vpi_objs s' = vpi_objs s \<and>
     net_store s' = net_store s \<and> methods s' = methods s \<and> threads s' = threads s \<and>
     t0_trigger_generated s' = t0_trigger_generated s \<and>
     compile_errors s' = compile_errors s"

lemma same_view_trans: "\<lbrakk>same_view s t; same_view t u\<rbrakk> \<Longrightarrow> same_view s u"
  by (simp add: same_view_def)

lemma same_view_complain: "tables_ok s \<Longrightarrow> same_view s (complain mes label s)"
  by (simp add: same_view_def complain_def tables_ok_def array_val_def fun_eq_iff)

lemma lookup_code_ok:
  assumes "tables_ok s" "good_key label"
  obtains s' where "lookup_code label s = Some (s', sym_val (sym_codespace s) label)" "same_view s s'"
proof -
  obtain t where "sym_get_value (sym_codespace s) label = Some (t, sym_val (sym_codespace s) label)"
      "wf_table t" "sym_val t = sym_val (sym_codespace s)"
    using get_sym_val assms unfolding tables_ok_def by blast
  then show thesis
    using that assms by (simp add: lookup_code_def same_view_def tables_ok_def array_val_def fun_eq_iff)
qed

lemma lookup_functor_ok:
  assumes "tables_ok s" "good_key label"
  obtains s' where "lookup_functor_symbol label s = Some (s', sym_val (sym_functors s) label)" "same_view s s'"
proof -
  obtain t where "sym_get_value (sym_functors s) label = Some (t, sym_val (sym_functors s) label)"
      "wf_table t" "sym_val t = sym_val (sym_functors s)"
    using get_sym_val assms unfolding tables_ok_def by blast
  then show thesis
    using that assms by (simp add: lookup_functor_symbol_def same_view_def tables_ok_def array_val_def fun_eq_iff)
qed

lemma lookup_handle_ok:
  assumes "tables_ok s" "good_key label"
  obtains s' where "vvp_lookup_handle label s = Some (s', sym_val (sym_vpi s) label)" "same_view s s'"
proof -
  obtain t where "sym_get_value (sym_vpi s) label = Some (t, sym_val (sym_vpi s) label)"
      "wf_table t" "sym_val t = sym_val (sym_vpi s)"
    using get_sym_val assms unfolding tables_ok_def by blast
  then show thesis
    using that assms by (simp add: vvp_lookup_handle_def same_view_def tables_ok_def array_val_def fun_eq_iff)
qed

lemma array_find_ok:
  assumes "tables_ok s" "good_key label"
  obtains s' where "array_find label s = Some (s', array_val s label)" "same_view s s'"
proof (cases "array_table s")
  case None
  then show thesis
    using that [of s] assms by (simp add: array_find_def same_view_def array_val_def)
next
  case (Some at)
  then obtain t where "sym_get_value at label = Some (t, sym_val at label)" "wf_table t" "sym_val t = sym_val at"
    using get_sym_val [of at label] assms unfolding tables_ok_def by auto
  then show thesis
    using that assms Some by (simp add: array_find_def same_view_def tables_ok_def array_val_def fun_eq_iff)
qed

section \<open>References: defined, bound\<close>

fun label_of :: "resolv \<Rightarrow> string" where
  "label_of (Net_Input l p) = l"
| "label_of (Functor_Ref l r) = l"
| "label_of (Vpi_Handle l r) = l"
| "label_of (Code_Label l a c) = l"
| "label_of (Cmethod l c m) = l"
| "label_of (Code_Array l a) = l"

fun is_net_ref :: "resolv \<Rightarrow> bool" where
  "is_net_ref (Net_Input l p) \<longleftrightarrow> True"
| "is_net_ref (Functor_Ref l r) \<longleftrightarrow> True"
| "is_net_ref _ \<longleftrightarrow> False"

text \<open>The cell that a reference fills, or the port that it links.\<close>

fun target :: "resolv \<Rightarrow> ref_cell option" where
  "target (Functor_Ref l r) = Some r"
| "target (Vpi_Handle l r) = Some r"
| "target (Code_Label l a c) = Some (if c then Word2 a else Word1 a)"
| "target (Code_Array l a) = Some (Word1 a)"
| "target _ = None"

fun port_of :: "resolv \<Rightarrow> net_ptr option" where
  "port_of (Net_Input l p) = Some p"
| "port_of _ = None"

definition net_value :: "link_state \<Rightarrow> string \<Rightarrow> net option" where
  "net_value s l = (if sym_val (sym_vpi s) l \<noteq> 0 then vpi_net (sym_val (sym_vpi s) l) s
     else Some (sym_val (sym_functors s) l))"

text \<open>The label of a reference means something; the T0 event is made when it is first named.\<close>

fun defined :: "makers \<Rightarrow> link_state \<Rightarrow> resolv \<Rightarrow> bool" where
  "defined mk s (Vpi_Handle l r) \<longleftrightarrow>
     sym_val (sym_vpi s) l \<noteq> 0 \<or> thread_object mk l \<noteq> None \<or> l = ''null''"
| "defined mk s (Code_Label l a c) \<longleftrightarrow> sym_val (sym_codespace s) l \<noteq> 0"
| "defined mk s (Cmethod l c m) \<longleftrightarrow> sym_val (sym_codespace s) l \<noteq> 0"
| "defined mk s (Code_Array l a) \<longleftrightarrow> array_val s l \<noteq> 0"
| "defined mk s r \<longleftrightarrow> sym_val (sym_vpi s) (label_of r) \<noteq> 0 \<or> sym_val (sym_functors s) (label_of r) \<noteq> 0 \<or>
     \<not> t0_trigger_generated s \<and> label_of r = t0_label"

text \<open>The reference holds what its label means.\<close>

fun bound :: "link_state \<Rightarrow> resolv \<Rightarrow> bool" where
  "bound s (Net_Input l p) \<longleftrightarrow>
     (\<exists>n xs. net_value s l = Some n \<and> n \<noteq> 0 \<and> fan_out (net_store s) n xs \<and> p \<in> set xs)"
| "bound s (Functor_Ref l r) \<longleftrightarrow> net_value s l = Some (read_ref r s) \<and> read_ref r s \<noteq> 0"
| "bound s (Vpi_Handle l r) \<longleftrightarrow> read_ref r s = sym_val (sym_vpi s) l \<and> read_ref r s \<noteq> 0"
| "bound s (Code_Label l a c) \<longleftrightarrow>
     read_ref (if c then Word2 a else Word1 a) s = sym_val (sym_codespace s) l \<and> sym_val (sym_codespace s) l \<noteq> 0"
| "bound s (Cmethod l c m) \<longleftrightarrow> (c, m, sym_val (sym_codespace s) l) \<in> set (methods s) \<and> sym_val (sym_codespace s) l \<noteq> 0"
| "bound s (Code_Array l a) \<longleftrightarrow> read_ref (Word1 a) s = array_val s l \<and> array_val s l \<noteq> 0"

section \<open>Well-formed states\<close>

text \<open>The makers return new objects.\<close>

definition makers_ok :: "makers \<Rightarrow> bool" where
  "makers_ok mk \<longleftrightarrow> \<not> scope_is_automatic mk \<and> t0_net mk \<noteq> 0 \<and> t0_event mk \<noteq> 0 \<and>
     null_const mk \<noteq> 0 \<and> null_const mk \<noteq> t0_event mk \<and>
     (\<forall>l obj. thread_object mk l = Some obj \<longrightarrow> obj \<noteq> 0 \<and> obj \<noteq> t0_event mk)"

text \<open>
  A reference by label to a net must not name a VPI object without a net, nor a thread word: the
  lookup would fail its assertion.
\<close>

definition healthy :: "makers \<Rightarrow> link_state \<Rightarrow> resolv \<Rightarrow> bool" where
  "healthy mk s r \<longleftrightarrow> good_key (label_of r) \<and>
     (is_net_ref r \<longrightarrow> thread_object mk (label_of r) = None \<and> label_of r \<noteq> ''null'' \<and>
        (sym_val (sym_vpi s) (label_of r) \<noteq> 0 \<longrightarrow>
           (\<exists>n. vpi_net (sym_val (sym_vpi s) (label_of r)) s = Some n \<and> n \<noteq> 0)))"

definition in_range :: "link_state \<Rightarrow> resolv \<Rightarrow> bool" where
  "in_range s r \<longleftrightarrow> (case target r of
     Some (Word1 a) \<Rightarrow> a < length (cells (space s))
   | Some (Word2 a) \<Rightarrow> a < length (cells (space s))
   | _ \<Rightarrow> True)"

text \<open>The fan-out lists of all nets end, share no port, and hold no port that waits to be linked.\<close>

definition nets_ok :: "net_ptr set \<Rightarrow> nets \<Rightarrow> bool" where
  "nets_ok W ns \<longleftrightarrow> (\<exists>F. (\<forall>d. fan_out ns d (F d)) \<and> (\<forall>d e. d \<noteq> e \<longrightarrow> set (F d) \<inter> set (F e) = {}) \<and>
     (\<forall>d. set (F d) \<inter> W = {}))"

text \<open>No two references fill the same cell or link the same port.\<close>

definition unshared :: "resolv multiset \<Rightarrow> bool" where
  "unshared M \<longleftrightarrow> (\<forall>r N. M = add_mset r N \<longrightarrow>
     (\<forall>q \<in># N. (target r = None \<or> target q \<noteq> target r) \<and> (port_of r = None \<or> port_of q \<noteq> port_of r)))"

definition link_ok :: "makers \<Rightarrow> nat \<Rightarrow> resolv multiset \<Rightarrow> resolv multiset \<Rightarrow> link_state \<Rightarrow> bool" where
  "link_ok mk e P D s \<longleftrightarrow> makers_ok mk \<and> compile_errors s = e \<and> tables_ok s \<and>
     (\<not> t0_trigger_generated s \<longrightarrow> (\<forall>l. sym_val (sym_vpi s) l \<noteq> t0_event mk)) \<and>
     (\<not> t0_trigger_generated s \<longrightarrow> sym_val (sym_vpi s) t0_label = 0 \<longrightarrow>
        (\<forall>r \<in># D. is_net_ref r \<longrightarrow> label_of r \<noteq> t0_label)) \<and>
     (\<forall>c. Vpi_Handle ''null'' c \<in># D \<longrightarrow> sym_val (sym_vpi s) ''null'' = null_const mk) \<and>
     (\<forall>r \<in># P + D. healthy mk s r \<and> in_range s r) \<and> unshared (P + D) \<and>
     nets_ok {p. \<exists>r \<in># P. port_of r = Some p} (net_store s) \<and> (\<forall>r \<in># D. bound s r)"

subsection \<open>The view determines all of it\<close>

lemma view_simps:
  assumes "same_view s s'"
  shows "defined mk s' r = defined mk s r" "bound s' r = bound s r" "healthy mk s' r = healthy mk s r"
    "in_range s' r = in_range s r" "net_value s' l = net_value s l" "read_ref c s' = read_ref c s"
proof -
  have v: "vpi_net x s' = vpi_net x s" for x using assms by (simp add: same_view_def vpi_net_def)
  then show n: "net_value s' l = net_value s l" for l using assms by (simp add: same_view_def net_value_def)
  show rd: "read_ref c s' = read_ref c s" for c
    using assms by (cases c) (simp_all add: same_view_def read_ref_def)
  show "defined mk s' r = defined mk s r" using assms by (cases r) (simp_all add: same_view_def)
  show "bound s' r = bound s r" using assms n rd by (cases r) (simp_all add: same_view_def)
  show "healthy mk s' r = healthy mk s r" using assms v by (simp add: same_view_def healthy_def)
  show "in_range s' r = in_range s r" using assms
    by (auto simp: same_view_def in_range_def split: option.splits ref_cell.splits)
qed

lemma link_ok_view: "\<lbrakk>link_ok mk e P D s; same_view s s'\<rbrakk> \<Longrightarrow> link_ok mk e P D s'"
  using view_simps [of s s'] by (simp add: link_ok_def) (simp add: same_view_def)

lemma unsharedD:
  "\<lbrakk>unshared (add_mset r N); q \<in># N\<rbrakk> \<Longrightarrow> (target r = None \<or> target q \<noteq> target r) \<and>
     (port_of r = None \<or> port_of q \<noteq> port_of r)"
  by (auto simp: unshared_def)

subsection \<open>Storing a reference\<close>

lemma store_ref_frame [simp]:
  "sym_codespace (store_ref c v s) = sym_codespace s" "sym_functors (store_ref c v s) = sym_functors s"
  "sym_vpi (store_ref c v s) = sym_vpi s" "array_table (store_ref c v s) = array_table s"
  "vpi_objs (store_ref c v s) = vpi_objs s" "net_store (store_ref c v s) = net_store s"
  "methods (store_ref c v s) = methods s" "t0_trigger_generated (store_ref c v s) = t0_trigger_generated s"
  "compile_errors (store_ref c v s) = compile_errors s" "resolv_list (store_ref c v s) = resolv_list s"
  "threads (store_ref c v s) = threads s" "length (cells (space (store_ref c v s))) = length (cells (space s))"
  by (simp_all add: store_ref_def set_cell_def split: ref_cell.splits)

lemma store_ref_derived [simp]:
  "vpi_net x (store_ref c v s) = vpi_net x s" "net_value (store_ref c v s) l = net_value s l"
  "array_val (store_ref c v s) = array_val s" "tables_ok (store_ref c v s) = tables_ok s"
  "defined mk (store_ref c v s) r = defined mk s r" "healthy mk (store_ref c v s) r = healthy mk s r"
  "in_range (store_ref c v s) r = in_range s r"
proof -
  show v: "vpi_net x (store_ref c v s) = vpi_net x s" for x by (simp add: vpi_net_def)
  show "net_value (store_ref c v s) l = net_value s l" by (simp add: net_value_def v)
  show a: "array_val (store_ref c v s) = array_val s" by (simp add: array_val_def fun_eq_iff)
  show "tables_ok (store_ref c v s) = tables_ok s" by (simp add: tables_ok_def)
  show "defined mk (store_ref c v s) r = defined mk s r" by (cases r) (simp_all add: a)
  show "healthy mk (store_ref c v s) r = healthy mk s r" by (simp add: healthy_def v)
  show "in_range (store_ref c v s) r = in_range s r"
    by (auto simp: in_range_def split: option.splits ref_cell.splits)
qed

lemma nth_update_field: "g (f (xs ! a)) = g (xs ! a) \<Longrightarrow> g (xs[a := f (xs ! a)] ! b) = g (xs ! b)"
  by (cases "a < length xs"; cases "b = a") (auto simp: list_update_beyond)

lemma read_store_other: "c' \<noteq> c \<Longrightarrow> read_ref c' (store_ref c v s) = read_ref c' s"
  by (cases c; cases c') (auto simp: read_ref_def store_ref_def set_cell_def intro!: nth_update_field)

lemma read_store_same: "\<lbrakk>in_range s r; target r = Some c\<rbrakk> \<Longrightarrow> read_ref c (store_ref c v s) = v"
  by (cases c) (auto simp: read_ref_def store_ref_def set_cell_def in_range_def)

lemma bound_store: "target q \<noteq> Some c \<Longrightarrow> bound (store_ref c v s) q = bound s q"
  by (cases q) (auto simp: read_store_other)

lemma link_ok_store:
  assumes "link_ok mk e (add_mset r P) D s" "target r = Some c"
  shows "link_ok mk e (add_mset r P) D (store_ref c v s)"
proof -
  have "unshared (add_mset r (P + D))" using assms(1) by (simp add: link_ok_def)
  then have "target q \<noteq> Some c" if "q \<in># D" for q using unsharedD [of r "P + D" q] that assms(2) by auto
  then show ?thesis using assms(1) bound_store by (simp add: link_ok_def)
qed

lemma link_ok_done:
  assumes "link_ok mk e (add_mset r P) D s" "bound s r" "port_of r = None"
    "is_net_ref r \<Longrightarrow> label_of r = t0_label \<Longrightarrow> t0_trigger_generated s \<or> sym_val (sym_vpi s) t0_label \<noteq> 0"
    "\<And>c. r = Vpi_Handle ''null'' c \<Longrightarrow> sym_val (sym_vpi s) ''null'' = null_const mk"
  shows "link_ok mk e P (add_mset r D) s"
proof -
  have "{p. \<exists>q \<in># add_mset r P. port_of q = Some p} = {p. \<exists>q \<in># P. port_of q = Some p}"
    using assms(3) by auto
  then show ?thesis using assms by (auto simp: link_ok_def)
qed

section \<open>Looking up nets\<close>

lemma t0_label_good: "good_key t0_label"
  by (simp add: good_key_def t0_label_def chunk_size_def)

text \<open>Making the T0 event defines its label and changes no other.\<close>

lemma compile_t0_event_ok:
  assumes "tables_ok s"
  obtains s' where "compile_t0_event mk s = Some s'" "tables_ok s'"
    "sym_val (sym_vpi s') = (sym_val (sym_vpi s))(t0_label := t0_event mk)"
    "sym_val (sym_functors s') = (sym_val (sym_functors s))(t0_label := t0_net mk)"
    "vpi_objs s' = (vpi_objs s)(t0_event mk \<mapsto> Vpi_NamedEvent (t0_net mk))"
    "sym_codespace s' = sym_codespace s" "array_table s' = array_table s" "space s' = space s"
    "others s' = others s" "net_store s' = net_store s" "methods s' = methods s"
    "t0_trigger_generated s' = t0_trigger_generated s" "compile_errors s' = compile_errors s"
proof -
  obtain t where t: "sym_set_value (sym_functors s) t0_label (t0_net mk) = Some t" "wf_table t"
      "sym_val t = (sym_val (sym_functors s))(t0_label := t0_net mk)"
    using set_sym_val t0_label_good assms unfolding tables_ok_def by blast
  obtain u where u: "sym_set_value (sym_vpi s) t0_label (t0_event mk) = Some u" "wf_table u"
      "sym_val u = (sym_val (sym_vpi s))(t0_label := t0_event mk)"
    using set_sym_val t0_label_good assms unfolding tables_ok_def by blast
  show thesis
    by (rule that [of "s\<lparr>sym_functors := t, sym_vpi := u,
        vpi_objs := (vpi_objs s)(t0_event mk \<mapsto> Vpi_NamedEvent (t0_net mk))\<rparr>"]) (use t u assms in \<open>simp_all add: compile_t0_event_def define_functor_symbol_def
      compile_vpi_symbol_def tables_ok_def\<close>)
qed

lemma link_ok_t0:
  assumes "link_ok mk e P D s" "\<not> t0_trigger_generated s" "sym_val (sym_vpi s) t0_label = 0"
    and s': "tables_ok s'" "sym_val (sym_vpi s') = (sym_val (sym_vpi s))(t0_label := t0_event mk)"
    "sym_val (sym_functors s') = (sym_val (sym_functors s))(t0_label := t0_net mk)"
    "vpi_objs s' = (vpi_objs s)(t0_event mk \<mapsto> Vpi_NamedEvent (t0_net mk))"
    "sym_val (sym_codespace s') = sym_val (sym_codespace s)" "array_val s' = array_val s" "space s' = space s"
    "others s' = others s" "net_store s' = net_store s" "methods s' = methods s"
    "t0_trigger_generated s'" "compile_errors s' = compile_errors s"
  shows "link_ok mk e P D s' \<and> net_value s' t0_label = Some (t0_net mk) \<and>
    (\<forall>q. defined mk s q \<longrightarrow> defined mk s' q)"
proof -
  have mk: "t0_event mk \<noteq> 0" "t0_net mk \<noteq> 0" using assms(1) by (auto simp: link_ok_def makers_ok_def)
  have fresh: "sym_val (sym_vpi s) l \<noteq> t0_event mk" for l using assms(1,2) by (auto simp: link_ok_def)
  have v: "vpi_net (sym_val (sym_vpi s) l) s' = vpi_net (sym_val (sym_vpi s) l) s" for l
    using fresh [of l] s'(4) by (simp add: vpi_net_def)
  have t0: "vpi_net (t0_event mk) s' = Some (t0_net mk)" using s'(4) by (simp add: vpi_net_def)
  have nv: "net_value s' l = (if l = t0_label then Some (t0_net mk) else net_value s l)" for l
    using s' v t0 mk by (simp add: net_value_def)
  have rd: "read_ref c s' = read_ref c s" for c using s' by (cases c) (simp_all add: read_ref_def)
  have d: "defined mk s q \<longrightarrow> defined mk s' q" for q using s' mk by (cases q) auto
  have b: "bound s' q" if "q \<in># D" for q
  proof -
    have "is_net_ref q \<longrightarrow> label_of q \<noteq> t0_label" "bound s q" using assms(1-3) that by (auto simp: link_ok_def)
    then show ?thesis using s' nv rd assms(3) by (cases q) auto
  qed
  have h: "healthy mk s' q" if "healthy mk s q" for q
    using that s' v t0 mk by (auto simp: healthy_def)
  have "in_range s' q = in_range s q" for q
    using s' by (auto simp: in_range_def split: option.splits ref_cell.splits)
  moreover have "''null'' \<noteq> t0_label" by (simp add: t0_label_def)
  ultimately have "link_ok mk e P D s'" using assms(1) b h s' by (simp add: link_ok_def)
  then show ?thesis using nv d by simp
qed

lemma net_lookup_ok:
  assumes "tables_ok s" "good_key label" "net_value s label = Some n"
  obtains s' where "net_lookup label s = Some (s', n)" "same_view s s'"
proof -
  obtain s1 where s1: "vvp_lookup_handle label s = Some (s1, sym_val (sym_vpi s) label)" "same_view s s1"
    using lookup_handle_ok assms by blast
  obtain s2 where s2: "lookup_functor_symbol label s1 = Some (s2, sym_val (sym_functors s1) label)" "same_view s1 s2"
    using lookup_functor_ok s1(2) assms(2) unfolding same_view_def by metis
  show thesis
  proof (cases "sym_val (sym_vpi s) label = 0")
    case True
    then show thesis
      using that [of s2] s1 s2 assms(3) same_view_trans [OF s1(2) s2(2)]
      by (simp add: net_lookup_def net_value_def same_view_def)
  next
    case False
    have "vpi_net (sym_val (sym_vpi s) label) s1 = Some n"
      using False assms(3) s1(2) by (simp add: net_value_def vpi_net_def same_view_def)
    then show thesis using that [of s1] s1 False by (simp add: net_lookup_def)
  qed
qed

lemma vvp_net_lookup_ok:
  assumes "link_ok mk e P D s" "r \<in># P + D" "is_net_ref r" "label_of r = l"
  shows "if defined mk s r
    then \<exists>s' n. vvp_net_lookup mk l s = Some (s', n) \<and> n \<noteq> 0 \<and> link_ok mk e P D s' \<and>
      net_value s' l = Some n \<and> (\<forall>q. defined mk s q \<longrightarrow> defined mk s' q) \<and>
      (l = t0_label \<longrightarrow> t0_trigger_generated s' \<or> sym_val (sym_vpi s') l \<noteq> 0)
    else \<exists>s'. vvp_net_lookup mk l s = Some (s', 0) \<and> same_view s s'"
proof -
  have t: "tables_ok s" using assms(1) by (simp add: link_ok_def)
  have h: "good_key l" "sym_val (sym_vpi s) l \<noteq> 0 \<longrightarrow>
      (\<exists>n. vpi_net (sym_val (sym_vpi s) l) s = Some n \<and> n \<noteq> 0)"
    using assms by (auto simp: link_ok_def healthy_def)
  have d: "defined mk s r \<longleftrightarrow> sym_val (sym_vpi s) l \<noteq> 0 \<or> sym_val (sym_functors s) l \<noteq> 0 \<or>
      \<not> t0_trigger_generated s \<and> l = t0_label"
    using assms(3,4) by (cases r) auto
  obtain s1 where s1: "vvp_lookup_handle l s = Some (s1, sym_val (sym_vpi s) l)" "same_view s s1"
    using lookup_handle_ok t h(1) by blast
  have ok1: "link_ok mk e P D s1" using link_ok_view assms(1) s1(2) by blast
  show ?thesis
  proof (cases "sym_val (sym_vpi s) l = 0")
    case False
    then obtain n where n: "vpi_net (sym_val (sym_vpi s) l) s = Some n" "n \<noteq> 0" using h(2) by blast
    have "vpi_net (sym_val (sym_vpi s) l) s1 = Some n"
      using n s1(2) by (simp add: vpi_net_def same_view_def)
    moreover from this have "net_value s1 l = Some n"
      using False s1(2) by (simp add: net_value_def same_view_def)
    moreover have "\<forall>q. defined mk s q \<longrightarrow> defined mk s1 q" using view_simps(1) [OF s1(2)] by blast
    moreover have "sym_val (sym_vpi s1) l \<noteq> 0" using False s1(2) by (simp add: same_view_def)
    ultimately show ?thesis
      using False s1(1) n(2) ok1 d by (auto simp: vvp_net_lookup_def)
  next
    case True
    obtain s2 where s2: "lookup_functor_symbol l s1 = Some (s2, sym_val (sym_functors s1) l)" "same_view s1 s2"
      using lookup_functor_ok s1(2) h(1) unfolding same_view_def by metis
    have v2: "same_view s s2" using same_view_trans s1(2) s2(2) by blast
    have ok2: "link_ok mk e P D s2" using link_ok_view assms(1) v2 by blast
    have val: "sym_val (sym_functors s1) l = sym_val (sym_functors s) l" using s1(2) by (simp add: same_view_def)
    show ?thesis
    proof (cases "\<not> t0_trigger_generated s \<and> l = t0_label")
      case False
      then have e: "vvp_net_lookup mk l s = Some (s2, sym_val (sym_functors s) l)"
        using s1(1) s2(1) True v2 val by (auto simp: vvp_net_lookup_def same_view_def)
      moreover have "net_value s2 l = Some (sym_val (sym_functors s) l)"
        using True v2 by (simp add: net_value_def same_view_def)
      moreover have "\<forall>q. defined mk s q \<longrightarrow> defined mk s2 q" using view_simps(1) [OF v2] by blast
      ultimately show ?thesis using d True False ok2 v2 by (auto simp: same_view_def)
    next
      case t0: True
      let ?s3 = "s2\<lparr>t0_trigger_generated := True\<rparr>"
      have "tables_ok ?s3" using ok2 by (simp add: link_ok_def tables_ok_def)
      then obtain s4 where s4: "compile_t0_event mk ?s3 = Some s4" "tables_ok s4"
          "sym_val (sym_vpi s4) = (sym_val (sym_vpi ?s3))(t0_label := t0_event mk)"
          "sym_val (sym_functors s4) = (sym_val (sym_functors ?s3))(t0_label := t0_net mk)"
          "vpi_objs s4 = (vpi_objs ?s3)(t0_event mk \<mapsto> Vpi_NamedEvent (t0_net mk))"
          "sym_codespace s4 = sym_codespace ?s3" "array_table s4 = array_table ?s3" "space s4 = space ?s3"
          "others s4 = others ?s3" "net_store s4 = net_store ?s3" "methods s4 = methods ?s3"
          "t0_trigger_generated s4 = t0_trigger_generated ?s3" "compile_errors s4 = compile_errors ?s3"
        using compile_t0_event_ok by blast
      have f2: "\<not> t0_trigger_generated s2" "sym_val (sym_vpi s2) t0_label = 0"
        using t0 True v2 by (auto simp: same_view_def)
      have ok4: "link_ok mk e P D s4 \<and> net_value s4 t0_label = Some (t0_net mk) \<and>
          (\<forall>q. defined mk s2 q \<longrightarrow> defined mk s4 q)"
        by (rule link_ok_t0 [OF ok2 f2]) (use s4 in \<open>simp_all add: array_val_def fun_eq_iff\<close>)
      obtain s5 where s5: "net_lookup t0_label s4 = Some (s5, t0_net mk)" "same_view s4 s5"
        using net_lookup_ok [OF s4(2) t0_label_good] ok4 by blast
      let ?s6 = "s5\<lparr>t0_triggers := t0_triggers s5 @ [(t0_net mk, 0)]\<rparr>"
      have v6: "same_view s4 ?s6" using s5(2) by (simp add: same_view_def tables_ok_def array_val_def fun_eq_iff)
      have mk: "\<not> scope_is_automatic mk" "t0_net mk \<noteq> 0" using assms(1) by (auto simp: link_ok_def makers_ok_def)
      have "vvp_net_lookup mk l s = Some (?s6, t0_net mk)"
        using s1(1) s2(1) True f2(1) t0 s4(1) s5(1) mk by (simp add: vvp_net_lookup_def)
      moreover have "link_ok mk e P D ?s6" using link_ok_view ok4 v6 by blast
      moreover have "net_value ?s6 l = Some (t0_net mk)" using ok4 t0 view_simps(5) [OF v6] by simp
      moreover have "\<forall>q. defined mk s q \<longrightarrow> defined mk ?s6 q"
        using ok4 view_simps(1) [OF v2] view_simps(1) [OF v6] by blast
      moreover have "t0_trigger_generated ?s6" using s4(12) s5(2) by (simp add: same_view_def)
      ultimately show ?thesis using d t0 mk(2) by auto
    qed
  qed
qed

section \<open>The methods meet the contract\<close>

lemma in_range_of: "link_ok mk e (add_mset r P) D s \<Longrightarrow> in_range s r"
  by (simp add: link_ok_def)

text \<open>Storing a looked-up value in the cell of a pending reference finishes it.\<close>

lemma finish_store:
  assumes "link_ok mk e (add_mset r P) D s" "target r = Some c" "port_of r = None"
    "read_ref c (store_ref c v s) = v \<Longrightarrow> bound (store_ref c v s) r"
    "is_net_ref r \<Longrightarrow> label_of r = t0_label \<Longrightarrow> t0_trigger_generated s \<or> sym_val (sym_vpi s) t0_label \<noteq> 0"
    "\<And>c. r = Vpi_Handle ''null'' c \<Longrightarrow> sym_val (sym_vpi s) ''null'' = null_const mk"
  shows "link_ok mk e P (add_mset r D) (store_ref c v s)"
proof (rule link_ok_done)
  show "link_ok mk e (add_mset r P) D (store_ref c v s)" using link_ok_store assms(1,2) by blast
  show "bound (store_ref c v s) r"
    using assms(4) read_store_same [OF in_range_of [OF assms(1)] assms(2)] by blast
qed (use assms in auto)

text \<open>Setting a label of the VPI table that no net reference names.\<close>

lemma set_vpi_ok:
  assumes "link_ok mk e P D s" "good_key l" "v \<noteq> 0" "v \<noteq> t0_event mk"
    "\<forall>q \<in># P + D. is_net_ref q \<longrightarrow> label_of q \<noteq> l"
    "sym_val (sym_vpi s) l = 0 \<or> l = ''null''" "l = ''null'' \<longrightarrow> v = null_const mk"
  obtains s' where "compile_vpi_symbol l v s = Some s'" "link_ok mk e P D s'" "sym_val (sym_vpi s') l = v"
    "\<forall>q. defined mk s q \<longrightarrow> defined mk s' q"
proof -
  obtain u where u: "sym_set_value (sym_vpi s) l v = Some u" "wf_table u"
      "sym_val u = (sym_val (sym_vpi s))(l := v)"
    using set_sym_val assms(1,2) unfolding link_ok_def tables_ok_def by blast
  let ?s = "s\<lparr>sym_vpi := u\<rparr>"
  have nv: "net_value ?s k = net_value s k" if "k \<noteq> l" for k
    using that u by (simp add: net_value_def vpi_net_def)
  have rd: "read_ref c ?s = read_ref c s" for c by (cases c) (simp_all add: read_ref_def)
  have av: "array_val ?s = array_val s" by (simp add: array_val_def fun_eq_iff)
  have d: "defined mk s q \<longrightarrow> defined mk ?s q" for q using u assms(3) av by (cases q) auto
  have b: "bound ?s q" if "q \<in># D" for q
  proof -
    have "bound s q" "is_net_ref q \<longrightarrow> label_of q \<noteq> l" using assms(1,5) that by (auto simp: link_ok_def)
    moreover have "v = sym_val (sym_vpi s) l" if "q = Vpi_Handle l c" for c
      using assms(1,6,7) that \<open>q \<in># D\<close> \<open>bound s q\<close> by (auto simp: link_ok_def)
    ultimately show ?thesis using nv rd u av by (cases q) auto
  qed
  have h: "healthy mk ?s q" if "healthy mk s q" "q \<in># P + D" for q
    using that assms(5) u by (auto simp: healthy_def vpi_net_def)
  have "tables_ok ?s" using assms(1) u by (simp add: link_ok_def tables_ok_def)
  moreover have "in_range ?s q = in_range s q" for q
    by (auto simp: in_range_def split: option.splits ref_cell.splits)
  ultimately have "link_ok mk e P D ?s"
    using assms(1,3,4,6,7) b h u by (auto simp: link_ok_def)
  then show thesis using that [of ?s] u d by (simp add: compile_vpi_symbol_def)
qed

lemma link_port_done:
  assumes "link_ok mk e (add_mset (Net_Input l p) P) D s" "net_value s l = Some n" "n \<noteq> 0"
    "l = t0_label \<longrightarrow> t0_trigger_generated s \<or> sym_val (sym_vpi s) l \<noteq> 0"
  obtains ns where "link_port n p (net_store s) = Some ns"
    "link_ok mk e P (add_mset (Net_Input l p) D) (s\<lparr>net_store := ns\<rparr>)"
proof -
  let ?r = "Net_Input l p"
  let ?W = "{p. \<exists>r \<in># P. port_of r = Some p}"
  have "nets_ok (insert p ?W) (net_store s)"
    using assms(1) unfolding link_ok_def by (auto elim!: back_subst [of "\<lambda>W. nets_ok W (net_store s)"])
  then obtain F where F: "\<forall>d. fan_out (net_store s) d (F d)" "\<forall>d e. d \<noteq> e \<longrightarrow> set (F d) \<inter> set (F e) = {}"
      "\<forall>d. p \<notin> set (F d) \<and> set (F d) \<inter> ?W = {}"
    unfolding nets_ok_def by auto
  have pW: "p \<notin> ?W"
    using assms(1) unsharedD [of ?r "P + D"] by (auto simp: link_ok_def)
  obtain ns where ns: "link_port n p (net_store s) = Some ns"
      "fan_out ns n (insert_port (src (net_store s)) p (F n))" "keeps_others n p (F n) (net_store s) ns"
    using link_port_ok F(1,3) by meson
  let ?ins = "insert_port (src (net_store s)) p (F n)"
  have set_ins: "set ?ins = insert p (set (F n))"
    by (auto simp: insert_port_def dest: set_takeWhileD set_dropWhileD)
      (metis Un_iff set_append takeWhile_dropWhile_id)
  have other: "fan_out ns d (F d)" if "d \<noteq> n" for d
    using ns(3) F that unfolding keeps_others_def by auto
  let ?G = "F(n := ?ins)"
  have nets: "nets_ok ?W ns"
    unfolding nets_ok_def
  proof (intro exI [of _ ?G] conjI allI impI)
    show "fan_out ns d (?G d)" for d using other ns(2) by simp
    show "set (?G d) \<inter> set (?G e) = {}" if "d \<noteq> e" for d e
      using F(2,3) that set_ins by (auto simp: disjoint_iff)
    show "set (?G d) \<inter> ?W = {}" for d using F(3) pW set_ins by (auto simp: disjoint_iff)
  qed
  let ?s = "s\<lparr>net_store := ns\<rparr>"
  have nv: "net_value ?s k = net_value s k" for k by (simp add: net_value_def vpi_net_def)
  have rd: "read_ref c ?s = read_ref c s" for c by (cases c) (simp_all add: read_ref_def)
  have av: "array_val ?s = array_val s" by (simp add: array_val_def fun_eq_iff)
  have b: "bound ?s q" if bq: "bound s q" for q
  proof (cases q)
    case (Net_Input k o')
    then obtain m xs where m: "net_value s k = Some m" "m \<noteq> 0" "fan_out (net_store s) m xs" "o' \<in> set xs"
      using bq by auto
    then have "xs = F m" using F(1) chain_unique unfolding fan_out_def by blast
    then have "o' \<in> set (?G m)" using m(4) set_ins by auto
    moreover have "fan_out ns m (?G m)" using other ns(2) by simp
    ultimately show ?thesis using m(1,2) nv unfolding Net_Input by auto
  qed (use bq nv rd av in auto)
  have "bound ?s ?r" using assms(2,3) ns(2) nv set_ins by auto
  moreover have "healthy mk ?s q = healthy mk s q" "in_range ?s q = in_range s q" for q
    by (auto simp: healthy_def vpi_net_def in_range_def split: option.splits ref_cell.splits)
  moreover have "tables_ok ?s = tables_ok s" by (simp add: tables_ok_def)
  ultimately have "link_ok mk e P (add_mset ?r D) ?s"
    using assms(1,4) b nets by (auto simp: link_ok_def)
  then show thesis using that ns(1) by blast
qed

lemma pending_good: "link_ok mk e (add_mset r P) D s \<Longrightarrow> good_key (label_of r) \<and> tables_ok s"
  by (simp add: link_ok_def healthy_def)

lemma resolve_net_input:
  assumes "link_ok mk e (add_mset (Net_Input l p) P) D s"
  shows "if defined mk s (Net_Input l p)
    then \<exists>s'. resolve mk mes (Net_Input l p) s = Some (s', True) \<and> link_ok mk e P (add_mset (Net_Input l p) D) s' \<and>
      (\<forall>q. defined mk s q \<longrightarrow> defined mk s' q)
    else \<exists>s'. resolve mk mes (Net_Input l p) s = Some (s', False) \<and> same_view s s'"
proof (cases "defined mk s (Net_Input l p)")
  case True
  then obtain s1 n where s1: "vvp_net_lookup mk l s = Some (s1, n)" "n \<noteq> 0"
      "link_ok mk e (add_mset (Net_Input l p) P) D s1" "net_value s1 l = Some n"
      "\<forall>q. defined mk s q \<longrightarrow> defined mk s1 q"
      "l = t0_label \<longrightarrow> t0_trigger_generated s1 \<or> sym_val (sym_vpi s1) l \<noteq> 0"
    using vvp_net_lookup_ok [OF assms, of "Net_Input l p" l] by auto
  obtain ns where ns: "link_port n p (net_store s1) = Some ns"
      "link_ok mk e P (add_mset (Net_Input l p) D) (s1\<lparr>net_store := ns\<rparr>)"
    using link_port_done [OF s1(3,4,2,6)] by blast
  have "defined mk (s1\<lparr>net_store := ns\<rparr>) q = defined mk s1 q" for q
    by (cases q) (simp_all add: array_val_def)
  then show ?thesis using True s1 ns by simp
next
  case False
  then obtain s1 where s1: "vvp_net_lookup mk l s = Some (s1, 0)" "same_view s s1"
    using vvp_net_lookup_ok [OF assms, of "Net_Input l p" l] by auto
  then have "same_view s (complain mes l s1)"
    using same_view_complain same_view_trans unfolding same_view_def by metis
  then show ?thesis unfolding if_not_P [OF False] using s1 by simp
qed

lemma resolve_functor_ref:
  assumes "link_ok mk e (add_mset (Functor_Ref l c) P) D s"
  shows "if defined mk s (Functor_Ref l c)
    then \<exists>s'. resolve mk mes (Functor_Ref l c) s = Some (s', True) \<and> link_ok mk e P (add_mset (Functor_Ref l c) D) s' \<and>
      (\<forall>q. defined mk s q \<longrightarrow> defined mk s' q)
    else \<exists>s'. resolve mk mes (Functor_Ref l c) s = Some (s', False) \<and> same_view s s'"
proof (cases "defined mk s (Functor_Ref l c)")
  case True
  then obtain s1 n where s1: "vvp_net_lookup mk l s = Some (s1, n)" "n \<noteq> 0"
      "link_ok mk e (add_mset (Functor_Ref l c) P) D s1" "net_value s1 l = Some n"
      "\<forall>q. defined mk s q \<longrightarrow> defined mk s1 q"
      "l = t0_label \<longrightarrow> t0_trigger_generated s1 \<or> sym_val (sym_vpi s1) l \<noteq> 0"
    using vvp_net_lookup_ok [OF assms, of "Functor_Ref l c" l] by auto
  have "link_ok mk e P (add_mset (Functor_Ref l c) D) (store_ref c n s1)"
    by (rule finish_store [OF s1(3)]) (use s1 in auto)
  then show ?thesis using True s1 by simp
next
  case False
  then obtain s1 where s1: "vvp_net_lookup mk l s = Some (s1, 0)" "same_view s s1"
    using vvp_net_lookup_ok [OF assms, of "Functor_Ref l c" l] by auto
  then have "same_view s (complain mes l s1)"
    using same_view_complain same_view_trans unfolding same_view_def by metis
  then show ?thesis unfolding if_not_P [OF False] using s1 by simp
qed

lemma resolve_code_label:
  assumes "link_ok mk e (add_mset (Code_Label l a c) P) D s"
  shows "if defined mk s (Code_Label l a c)
    then \<exists>s'. resolve mk mes (Code_Label l a c) s = Some (s', True) \<and> link_ok mk e P (add_mset (Code_Label l a c) D) s' \<and>
      (\<forall>q. defined mk s q \<longrightarrow> defined mk s' q)
    else \<exists>s'. resolve mk mes (Code_Label l a c) s = Some (s', False) \<and> same_view s s'"
proof -
  obtain s1 where s1: "lookup_code l s = Some (s1, sym_val (sym_codespace s) l)" "same_view s s1"
    using lookup_code_ok pending_good [OF assms] by auto
  have ok: "link_ok mk e (add_mset (Code_Label l a c) P) D s1" using link_ok_view assms s1(2) by blast
  have v: "sym_val (sym_codespace s1) = sym_val (sym_codespace s)" using s1(2) by (simp add: same_view_def)
  have "link_ok mk e P (add_mset (Code_Label l a c) D)
      (store_ref (if c then Word2 a else Word1 a) (sym_val (sym_codespace s) l) s1)"
    if "sym_val (sym_codespace s) l \<noteq> 0"
    by (rule finish_store [OF ok]) (use that v in auto)
  moreover have "same_view s (complain mes l s1)"
    using same_view_complain same_view_trans s1(2) unfolding same_view_def by metis
  ultimately show ?thesis using s1 view_simps(1) [OF s1(2)] by auto
qed

lemma resolve_cmethod:
  assumes "link_ok mk e (add_mset (Cmethod l c m) P) D s"
  shows "if defined mk s (Cmethod l c m)
    then \<exists>s'. resolve mk mes (Cmethod l c m) s = Some (s', True) \<and> link_ok mk e P (add_mset (Cmethod l c m) D) s' \<and>
      (\<forall>q. defined mk s q \<longrightarrow> defined mk s' q)
    else \<exists>s'. resolve mk mes (Cmethod l c m) s = Some (s', False) \<and> same_view s s'"
proof -
  obtain s1 where s1: "lookup_code l s = Some (s1, sym_val (sym_codespace s) l)" "same_view s s1"
    using lookup_code_ok pending_good [OF assms] by auto
  have ok: "link_ok mk e (add_mset (Cmethod l c m) P) D s1" using link_ok_view assms s1(2) by blast
  have v: "sym_val (sym_codespace s1) = sym_val (sym_codespace s)" using s1(2) by (simp add: same_view_def)
  let ?s = "s1\<lparr>methods := methods s1 @ [(c, m, sym_val (sym_codespace s) l)]\<rparr>"
  have f: "net_value ?s k = net_value s1 k" "read_ref cc ?s = read_ref cc s1" "array_val ?s = array_val s1"
      "healthy mk ?s q = healthy mk s1 q" "in_range ?s q = in_range s1 q" "tables_ok ?s = tables_ok s1" for k cc q
    by (cases cc) (auto simp: net_value_def vpi_net_def read_ref_def array_val_def healthy_def in_range_def
        tables_ok_def fun_eq_iff split: option.splits ref_cell.splits)
  have b: "bound ?s q" if "bound s1 q" for q using that f by (cases q) auto
  have d: "defined mk ?s q = defined mk s q" for q
    using view_simps(1) [OF s1(2), of mk q] f(3) by (cases q) auto
  have "link_ok mk e (add_mset (Cmethod l c m) P) D ?s" using ok b f by (simp add: link_ok_def)
  then have "link_ok mk e P (add_mset (Cmethod l c m) D) ?s" if "sym_val (sym_codespace s) l \<noteq> 0"
    by (rule link_ok_done) (use that v in auto)
  moreover have "same_view s (complain mes l s1)"
    using same_view_complain same_view_trans s1(2) unfolding same_view_def by metis
  ultimately show ?thesis using s1 d by auto
qed

lemma resolve_code_array:
  assumes "link_ok mk e (add_mset (Code_Array l a) P) D s"
  shows "if defined mk s (Code_Array l a)
    then \<exists>s'. resolve mk mes (Code_Array l a) s = Some (s', True) \<and> link_ok mk e P (add_mset (Code_Array l a) D) s' \<and>
      (\<forall>q. defined mk s q \<longrightarrow> defined mk s' q)
    else \<exists>s'. resolve mk mes (Code_Array l a) s = Some (s', False) \<and>
      link_ok mk e (add_mset (Code_Array l a) P) D s' \<and> (\<forall>q. defined mk s' q = defined mk s q)"
proof -
  obtain s1 where s1: "array_find l s = Some (s1, array_val s l)" "same_view s s1"
    using array_find_ok pending_good [OF assms] by auto
  have ok: "link_ok mk e (add_mset (Code_Array l a) P) D s1" using link_ok_view assms s1(2) by blast
  have v: "array_val s1 = array_val s" using s1(2) by (simp add: same_view_def)
  let ?s = "store_ref (Word1 a) (array_val s l) s1"
  have "link_ok mk e P (add_mset (Code_Array l a) D) ?s" if "array_val s l \<noteq> 0"
    by (rule finish_store [OF ok]) (use that v in auto)
  moreover have p: "link_ok mk e (add_mset (Code_Array l a) P) D ?s" using link_ok_store ok by simp
  moreover have "same_view ?s (complain mes l ?s)"
    using same_view_complain p unfolding link_ok_def by blast
  ultimately show ?thesis
    using s1 view_simps(1) [OF s1(2)] link_ok_view view_simps(1) [of ?s "complain mes l ?s"] by auto
qed

lemma thread_object_null: "thread_object mk ''null'' = None"
  by (simp add: thread_object_def scan_word_def scan_str_stack_def scan_vec4_stack_def)

lemma resolve_vpi_handle:
  assumes "link_ok mk e (add_mset (Vpi_Handle l c) P) D s"
  shows "if defined mk s (Vpi_Handle l c)
    then \<exists>s'. resolve mk mes (Vpi_Handle l c) s = Some (s', True) \<and> link_ok mk e P (add_mset (Vpi_Handle l c) D) s' \<and>
      (\<forall>q. defined mk s q \<longrightarrow> defined mk s' q)
    else \<exists>s'. resolve mk mes (Vpi_Handle l c) s = Some (s', False) \<and> same_view s s'"
proof -
  let ?r = "Vpi_Handle l c"
  have g: "good_key l" "tables_ok s" using pending_good [OF assms] by auto
  obtain s1 where s1: "vvp_lookup_handle l s = Some (s1, sym_val (sym_vpi s) l)" "same_view s s1"
    using lookup_handle_ok g by blast
  have ok1: "link_ok mk e (add_mset ?r P) D s1" using link_ok_view assms s1(2) by blast
  have v: "sym_val (sym_vpi s1) = sym_val (sym_vpi s)" using s1(2) by (simp add: same_view_def)
  have d1: "defined mk s1 q = defined mk s q" for q using view_simps(1) [OF s1(2)] by simp
  have mk: "makers_ok mk" using assms by (simp add: link_ok_def)
  have own: "\<forall>q \<in># add_mset ?r P + D. is_net_ref q \<longrightarrow> label_of q \<noteq> l" if "thread_object mk l \<noteq> None \<or> l = ''null''"
    using assms that by (auto simp: link_ok_def healthy_def)
  have fin: "\<exists>s'. resolve mk mes ?r s = Some (s', True) \<and> link_ok mk e P (add_mset ?r D) s' \<and>
      (\<forall>q. defined mk s q \<longrightarrow> defined mk s' q)"
    if "resolve mk mes ?r s = Some (store_ref c x t, True)" "link_ok mk e (add_mset ?r P) D t" "x \<noteq> 0"
      "sym_val (sym_vpi t) l = x" "\<forall>q. defined mk s q \<longrightarrow> defined mk t q" "l = ''null'' \<longrightarrow> x = null_const mk" for t x
  proof -
    have "link_ok mk e P (add_mset ?r D) (store_ref c x t)"
      by (rule finish_store [OF that(2)]) (use that in auto)
    then show ?thesis using that by auto
  qed
  consider (null) "l = ''null''" | (obj) obj where "l \<noteq> ''null''" "sym_val (sym_vpi s) l = 0" "thread_object mk l = Some obj"
    | (found) "l \<noteq> ''null''" "sym_val (sym_vpi s) l \<noteq> 0"
    | (none) "l \<noteq> ''null''" "sym_val (sym_vpi s) l = 0" "thread_object mk l = None" by (cases "thread_object mk l") auto
  then show ?thesis
  proof cases
    case null
    obtain s2 where s2: "compile_vpi_symbol l (null_const mk) s1 = Some s2" "link_ok mk e (add_mset ?r P) D s2"
        "sym_val (sym_vpi s2) l = null_const mk" "\<forall>q. defined mk s1 q \<longrightarrow> defined mk s2 q"
      using set_vpi_ok [OF ok1 g(1), of "null_const mk"] mk own null unfolding makers_ok_def by blast
    then have "resolve mk mes ?r s = Some (store_ref c (null_const mk) s2, True)"
      using s1(1) null thread_object_null mk by (simp add: makers_ok_def)
    then show ?thesis using fin [OF _ s2(2)] s2 d1 null mk by (simp add: makers_ok_def)
  next
    case obj
    have o': "obj \<noteq> 0" "obj \<noteq> t0_event mk" using mk obj unfolding makers_ok_def by blast+
    obtain s2 where s2: "compile_vpi_symbol l obj s1 = Some s2" "link_ok mk e (add_mset ?r P) D s2"
        "sym_val (sym_vpi s2) l = obj" "\<forall>q. defined mk s1 q \<longrightarrow> defined mk s2 q"
      using set_vpi_ok [OF ok1 g(1) o'] own obj v by auto
    then have "resolve mk mes ?r s = Some (store_ref c obj s2, True)"
      using s1(1) obj o' by simp
    then show ?thesis using fin [OF _ s2(2)] s2 d1 obj o' by simp
  next
    case found
    then have "resolve mk mes ?r s = Some (store_ref c (sym_val (sym_vpi s) l) s1, True)"
      using s1(1) by simp
    then show ?thesis using fin [OF _ ok1] found d1 v by simp
  next
    case none
    have "same_view s (complain mes l s1)"
      using same_view_complain same_view_trans s1(2) unfolding same_view_def by metis
    then show ?thesis using s1(1) none by simp
  qed
qed

lemma resolve_defined:
  assumes "link_ok mk e (add_mset r P) D s" "defined mk s r"
  shows "\<exists>s'. resolve mk mes r s = Some (s', True) \<and> link_ok mk e P (add_mset r D) s' \<and>
    (\<forall>q. defined mk s q \<longrightarrow> defined mk s' q)"
  using assms resolve_net_input resolve_functor_ref resolve_vpi_handle resolve_code_label resolve_cmethod
    resolve_code_array by (cases r) (metis (no_types))+

lemma resolve_undefined:
  assumes "link_ok mk e (add_mset r P) D s" "\<not> defined mk s r"
  shows "\<exists>s'. resolve mk mes r s = Some (s', False) \<and> link_ok mk e (add_mset r P) D s' \<and>
    (\<forall>q. defined mk s' q = defined mk s q)"
proof (cases "\<exists>l a. r = Code_Array l a")
  case True
  then show ?thesis using assms resolve_code_array by (metis (no_types))
next
  case False
  then have "\<exists>s'. resolve mk mes r s = Some (s', False) \<and> same_view s s'"
    using assms resolve_net_input resolve_functor_ref resolve_vpi_handle resolve_code_label resolve_cmethod
    by (cases r) (metis (no_types))+
  then show ?thesis using link_ok_view assms(1) view_simps(1) by blast
qed

text \<open>Looking a name up changes neither the code labels nor the code, and reports nothing.\<close>

definition same_code :: "link_state \<Rightarrow> link_state \<Rightarrow> bool" where
  "same_code s s' \<longleftrightarrow> sym_codespace s' = sym_codespace s \<and> space s' = space s \<and> messages s' = messages s \<and>
     compile_errors s' = compile_errors s"

lemma same_code_trans: "\<lbrakk>same_code s t; same_code t u\<rbrakk> \<Longrightarrow> same_code s u"
  by (simp add: same_code_def)

lemma complain_codespace [simp]: "sym_codespace (complain mes l s) = sym_codespace s" "complain False l s = s"
  by (simp_all add: complain_def)

lemma symbol_code:
  "vvp_lookup_handle l s = Some (s', v) \<Longrightarrow> same_code s s'"
  "lookup_functor_symbol l s = Some (s', v) \<Longrightarrow> same_code s s'"
  "array_find l s = Some (s', v) \<Longrightarrow> same_code s s'"
  "compile_vpi_symbol l v s = Some s' \<Longrightarrow> same_code s s'"
  "define_functor_symbol l v s = Some s' \<Longrightarrow> same_code s s'"
  by (auto simp: vvp_lookup_handle_def lookup_functor_symbol_def array_find_def compile_vpi_symbol_def
      define_functor_symbol_def same_code_def split: option.splits)

lemma t0_event_code: "compile_t0_event mk s = Some s' \<Longrightarrow> same_code s s'"
  unfolding compile_t0_event_def bind_eq_Some_conv by (auto simp: same_code_def dest!: symbol_code)

lemma net_lookup_code: "net_lookup l s = Some (s', n) \<Longrightarrow> same_code s s'"
  unfolding net_lookup_def by (auto simp: bind_eq_Some_conv same_code_def split: if_splits dest!: symbol_code)

lemma vvp_net_lookup_code:
  assumes "vvp_net_lookup mk l s = Some (s', n)"
  shows "same_code s s'"
proof -
  obtain s1 v where s1: "vvp_lookup_handle l s = Some (s1, v)"
      "(if v \<noteq> 0 then do { n \<leftarrow> vpi_net v s1; Some (s1, n) }
        else do {
          (st, tmp) \<leftarrow> lookup_functor_symbol l s1;
          if \<not> t0_trigger_generated st \<and> l = t0_label then do {
            assert_opt (\<not> scope_is_automatic mk);
            st \<leftarrow> compile_t0_event mk (st\<lparr>t0_trigger_generated := True\<rparr>);
            (st, tmp) \<leftarrow> net_lookup l st;
            assert_opt (tmp \<noteq> 0);
            Some (st\<lparr>t0_triggers := t0_triggers st @ [(tmp, 0)]\<rparr>, tmp)
          } else Some (st, tmp)
        }) = Some (s', n)"
    using assms unfolding vvp_net_lookup_def bind_eq_Some_conv by auto
  note e1 = symbol_code(1) [OF s1(1)]
  show ?thesis
  proof (cases "v = 0")
    case False
    then show ?thesis using s1(2) e1 by (auto simp: bind_eq_Some_conv)
  next
    case True
    then obtain s2 w where s2: "lookup_functor_symbol l s1 = Some (s2, w)"
        "(if \<not> t0_trigger_generated s2 \<and> l = t0_label then do {
            assert_opt (\<not> scope_is_automatic mk);
            st \<leftarrow> compile_t0_event mk (s2\<lparr>t0_trigger_generated := True\<rparr>);
            (st, tmp) \<leftarrow> net_lookup l st;
            assert_opt (tmp \<noteq> 0);
            Some (st\<lparr>t0_triggers := t0_triggers st @ [(tmp, 0)]\<rparr>, tmp)
          } else Some (s2, w)) = Some (s', n)"
      using s1(2) by (auto simp: bind_eq_Some_conv)
    note e2 = symbol_code(2) [OF s2(1)]
    show ?thesis
    proof (cases "\<not> t0_trigger_generated s2 \<and> l = t0_label")
      case False
      then show ?thesis using s2(2) e1 e2 by (auto simp: same_code_def)
    next
      case True
      then obtain s3 s4 m where "compile_t0_event mk (s2\<lparr>t0_trigger_generated := True\<rparr>) = Some s3"
          "net_lookup l s3 = Some (s4, m)" "s' = s4\<lparr>t0_triggers := t0_triggers s4 @ [(m, 0)]\<rparr>"
        using s2(2) by (auto simp: bind_eq_Some_conv)
      then show ?thesis using e1 e2 by (auto simp: same_code_def dest!: t0_event_code net_lookup_code)
    qed
  qed
qed

lemma resolve_codespace:
  assumes "resolve mk mes r s = Some (s', b)" "wf_table (sym_codespace s)" "good_key (label_of r)"
  shows "sym_val (sym_codespace s') = sym_val (sym_codespace s)"
proof -
  obtain t where t: "sym_get_value (sym_codespace s) (label_of r) = Some (t, sym_val (sym_codespace s) (label_of r))"
      "sym_val t = sym_val (sym_codespace s)"
    using get_sym_val assms(2,3) by blast
  show ?thesis
  proof (cases r)
    case (Net_Input l p)
    then show ?thesis using assms(1)
      by (auto simp: bind_eq_Some_conv same_code_def dest!: vvp_net_lookup_code split: if_splits)
  next
    case (Functor_Ref l c)
    then show ?thesis using assms(1)
      by (auto simp: bind_eq_Some_conv same_code_def dest!: vvp_net_lookup_code split: if_splits)
  next
    case (Vpi_Handle l c)
    obtain s1 v where s1: "vvp_lookup_handle l s = Some (s1, v)" using assms(1) Vpi_Handle
      by (auto simp: bind_eq_Some_conv same_code_def)
    note e1 = symbol_code(1) [OF s1]
    show ?thesis using assms(1) Vpi_Handle s1 e1
      by (auto simp: bind_eq_Some_conv same_code_def dest!: symbol_code(4) split: if_splits option.splits)
  next
    case (Code_Label l a c)
    then show ?thesis using assms(1) t by (auto simp: lookup_code_def split: if_splits)
  next
    case (Cmethod l c m)
    then show ?thesis using assms(1) t by (auto simp: lookup_code_def split: if_splits)
  next
    case (Code_Array l a)
    then show ?thesis using assms(1)
      by (auto simp: bind_eq_Some_conv same_code_def Let_def dest!: symbol_code(3) split: if_splits)
  qed
qed

interpretation link: resolver "resolve mk" "defined mk"
    "\<lambda>P D s. link_ok mk e P D s \<and> sym_val (sym_codespace s) = C" for mk e C
proof unfold_locales
  fix P D and s :: link_state and r mes
  assume a: "link_ok mk e (add_mset r P) D s \<and> sym_val (sym_codespace s) = C"
  then have w: "wf_table (sym_codespace s)" "good_key (label_of r)"
    using pending_good [of mk e r P D s] by (auto simp: tables_ok_def)
  show "\<exists>s'. resolve mk mes r s = Some (s', True) \<and>
      (link_ok mk e P (add_mset r D) s' \<and> sym_val (sym_codespace s') = C) \<and> (\<forall>q. defined mk s q \<longrightarrow> defined mk s' q)"
    if "defined mk s r"
    using resolve_defined [of mk e r P D s mes] resolve_codespace [OF _ w] a that by metis
  show "\<exists>s'. resolve mk mes r s = Some (s', False) \<and>
      (link_ok mk e (add_mset r P) D s' \<and> sym_val (sym_codespace s') = C) \<and> (\<forall>q. defined mk s' q = defined mk s q)"
    if "\<not> defined mk s r"
    using resolve_undefined [of mk e r P D s mes] resolve_codespace [OF _ w] a that by metis
qed

end
