(* ===== verification/Compile_Claims.thy ===== *)
theory Compile_Claims
  imports Compile_Link
begin

text \<open>
  Properties of the linker: labels and program order in the code space, what compiling an
  instruction stores, which errors are counted, and what \<open>compile_cleanup\<close> resolves.
\<close>

unbundle bit_operations_syntax

section \<open>Code space\<close>

abbreviation "link_op \<equiv> ''of_CHUNK_LINK''"

text \<open>Whole chunks, each ending in a link to the next one, and no other link.\<close>

definition wf_space :: "codespace \<Rightarrow> bool" where
  "wf_space cs \<longleftrightarrow> (\<exists>k. length (cells cs) = (k + 1) * 1024 \<and>
     current_within_chunk cs < 1024 \<and> (k = 0 \<longrightarrow> 0 < current_within_chunk cs) \<and>
     (\<forall>i < length (cells cs). opcode (cells cs ! i) = link_op \<longleftrightarrow> i mod 1024 = 1023) \<and>
     (\<forall>j < k. word1 (cells cs ! (j * 1024 + 1023)) = code_ptr ((j + 1) * 1024)))"

lemma new_chunk_nth: "i < 1024 \<Longrightarrow> opcode (new_chunk ! i) = link_op \<longleftrightarrow> i mod 1024 = 1023"
  by (auto simp: new_chunk_def code_chunk_size_def nth_append blank_code_def)

lemma new_chunk_length [simp]: "length new_chunk = 1024"
  by (simp add: new_chunk_def code_chunk_size_def)

lemma wf_space_init: "wf_space codespace_init"
proof -
  have "opcode (new_chunk[0 := blank_code\<lparr>opcode := ''of_ZOMBIE''\<rparr>] ! i) = link_op \<longleftrightarrow> i mod 1024 = 1023"
    if "i < 1024" for i
    using that new_chunk_nth [of i] by (cases "i = 0") auto
  then show ?thesis
    unfolding wf_space_def by (intro exI [of _ 0]) (simp add: codespace_init_def code_chunk_size_def)
qed

lemma codespace_next_ok:
  assumes "wf_space cs" "codespace_next cs = (cs', a)"
  shows "wf_space cs' \<and> a = next_address cs' \<and> current_within_chunk cs' < 1023 \<and> a < length (cells cs') \<and>
    length (cells cs) \<le> length (cells cs') \<and>
    a = (if current_within_chunk cs = 1023 then next_address cs + 1 else next_address cs) \<and>
    (\<forall>i < length (cells cs). i mod 1024 \<noteq> 1023 \<longrightarrow> cells cs' ! i = cells cs ! i)"
proof -
  obtain k where k: "length (cells cs) = (k + 1) * 1024" "current_within_chunk cs < 1024"
      "k = 0 \<longrightarrow> 0 < current_within_chunk cs"
      "\<forall>i < length (cells cs). opcode (cells cs ! i) = link_op \<longleftrightarrow> i mod 1024 = 1023"
      "\<forall>j < k. word1 (cells cs ! (j * 1024 + 1023)) = code_ptr ((j + 1) * 1024)"
    using assms(1) by (auto simp: wf_space_def)
  show ?thesis
  proof (cases "current_within_chunk cs = 1023")
    case False
    then have "cs' = cs" "a = next_address cs"
      using assms(2) by (auto simp: codespace_next_def code_chunk_size_def)
    then show ?thesis using assms(1) k False by (simp add: next_address_def code_chunk_size_def)
  next
    case True
    let ?l = "k * 1024 + 1023"
    let ?old = "(cells cs)[?l := (cells cs ! ?l)\<lparr>word1 := code_ptr ((k + 1) * 1024)\<rparr>]"
    have cs': "cs' = \<lparr>cells = ?old @ new_chunk, current_within_chunk = 0\<rparr>" "a = next_address cs'"
      using assms(2) True k(1)
      by (auto simp: codespace_next_def code_chunk_size_def Let_def add.commute)
    have len: "length (cells cs') = (k + 2) * 1024" using cs' k(1) by simp
    have ops: "opcode (cells cs' ! i) = link_op \<longleftrightarrow> i mod 1024 = 1023" if "i < length (cells cs')" for i
    proof (cases "i < (k + 1) * 1024")
      case True
      then show ?thesis using k(1,4) cs'(1) by (cases "i = ?l") (simp_all add: nth_append)
    next
      case False
      then obtain m where m: "i = (k + 1) * 1024 + m" by (metis le_Suc_ex not_less)
      then have "m < 1024" "i mod 1024 = m mod 1024"
        using that len mod_mult_self3 [of "k + 1" 1024 m] by auto
      moreover have "cells cs' ! i = new_chunk ! m" using m k(1) cs'(1) by (simp add: nth_append)
      ultimately show ?thesis using new_chunk_nth [of m] by simp
    qed
    have links: "word1 (cells cs' ! (j * 1024 + 1023)) = code_ptr ((j + 1) * 1024)" if "j < k + 1" for j
      using that k(1,5) cs'(1) by (cases "j = k") (simp_all add: nth_append)
    have "wf_space cs'"
      unfolding wf_space_def using len ops links cs'(1) by (intro exI [of _ "k + 1"]) simp
    moreover have "cells cs' ! i = cells cs ! i" if "i < length (cells cs)" "i mod 1024 \<noteq> 1023" for i
      using that cs'(1) by (cases "i = ?l") (simp_all add: nth_append)
    ultimately show ?thesis
      using cs' len k(1) True by (simp add: next_address_def code_chunk_size_def)
  qed
qed

lemma wf_space_update:
  assumes "wf_space cs" "a mod 1024 \<noteq> 1023" "opcode c \<noteq> link_op"
  shows "wf_space (cs\<lparr>cells := (cells cs)[a := c]\<rparr>)"
proof -
  obtain k where k: "length (cells cs) = (k + 1) * 1024" "current_within_chunk cs < 1024"
      "k = 0 \<longrightarrow> 0 < current_within_chunk cs"
      "\<forall>i < length (cells cs). opcode (cells cs ! i) = link_op \<longleftrightarrow> i mod 1024 = 1023"
      "\<forall>j < k. word1 (cells cs ! (j * 1024 + 1023)) = code_ptr ((j + 1) * 1024)"
    using assms(1) unfolding wf_space_def by blast
  have "opcode ((cells cs)[a := c] ! i) = link_op \<longleftrightarrow> i mod 1024 = 1023" if "i < length (cells cs)" for i
    using that k(4) assms(2,3) by (cases "i = a") auto
  moreover have "word1 ((cells cs)[a := c] ! (j * 1024 + 1023)) = word1 (cells cs ! (j * 1024 + 1023))" for j
  proof -
    have "a \<noteq> j * 1024 + 1023" using assms(2) by auto
    then show ?thesis by simp
  qed
  ultimately show ?thesis using k unfolding wf_space_def by (intro exI [of _ k]) simp
qed

lemma next_address_mod:
  assumes "wf_space cs" "current_within_chunk cs < 1023"
  shows "next_address cs mod 1024 = current_within_chunk cs \<and> 0 < next_address cs \<and>
    next_address cs + 1 < length (cells cs)"
  using assms by (auto simp: wf_space_def next_address_def code_chunk_size_def)

lemma codespace_allocate_ok:
  assumes "wf_space cs" "codespace_allocate cs = (cs', a)"
  shows "wf_space cs' \<and> next_address cs' = a + 1 \<and> a mod 1024 = current_within_chunk cs' - 1 \<and> a mod 1024 \<noteq> 1023 \<and>
    0 < a \<and> a + 1 < length (cells cs') \<and>
    a = (if current_within_chunk cs = 1023 then next_address cs + 1 else next_address cs) \<and>
    cells cs' ! a = blank_code \<and> 0 < current_within_chunk cs' \<and>
    length (cells cs) \<le> length (cells cs') \<and>
    (\<forall>i < length (cells cs). i mod 1024 \<noteq> 1023 \<longrightarrow> i \<noteq> a \<longrightarrow> cells cs' ! i = cells cs ! i)"
proof -
  obtain c where c: "codespace_next cs = (c, a)"
      "cs' = c\<lparr>cells := (cells c)[a := blank_code], current_within_chunk := current_within_chunk c + 1\<rparr>"
    using assms(2) by (auto simp: codespace_allocate_def split: prod.splits)
  note n = codespace_next_ok [OF assms(1) c(1)]
  then have m: "a mod 1024 = current_within_chunk c" "0 < a" "a + 1 < length (cells c)"
    using next_address_mod [of c] by auto
  have "wf_space (c\<lparr>cells := (cells c)[a := blank_code]\<rparr>)"
    using n m by (intro wf_space_update) (auto simp: blank_code_def)
  then have "wf_space cs'" using n c(2) unfolding wf_space_def by auto
  then show ?thesis using n m c(2) by (auto simp: next_address_def)
qed

text \<open>C8. Allocating an instruction gives a cell that is not the null cell and not a chunk's
  link; the next allocation gives the cell that a thread reaches from it when the instruction does
  not jump, through the chunk link where the chunk is full, and leaves the instruction as compiled;
  and it is the cell that a label placed between the two denotes.
\<close>

theorem code_sequence:
  assumes "wf_space cs" "codespace_allocate cs = (cs1, a)" "opcode c \<noteq> link_op"
    "codespace_allocate (cs1\<lparr>cells := (cells cs1)[a := c]\<rparr>) = (cs2, b)" "length (cells cs2) < 2 ^ 64"
  shows "wf_space cs2 \<and> 0 < a \<and> a < b \<and> cells cs2 ! a = c \<and> next_pc cs2 a = b \<and>
    snd (codespace_next (cs1\<lparr>cells := (cells cs1)[a := c]\<rparr>)) = b"
proof -
  let ?cs = "cs1\<lparr>cells := (cells cs1)[a := c]\<rparr>"
  note 1 = codespace_allocate_ok [OF assms(1,2)]
  have wf: "wf_space ?cs" using 1 assms(3) by (intro wf_space_update) auto
  note 2 = codespace_allocate_ok [OF wf assms(4)]
  have na: "next_address ?cs = a + 1" using 1 by (simp add: next_address_def)
  have b: "b = (if current_within_chunk cs1 = 1023 then a + 2 else a + 1)" using 2 na by simp
  have a1: "a < length (cells cs1)" "a mod 1024 \<noteq> 1023" "a \<noteq> b" using 1 b by auto
  have "\<forall>i < length (cells ?cs). i mod 1024 \<noteq> 1023 \<longrightarrow> i \<noteq> b \<longrightarrow> cells cs2 ! i = cells ?cs ! i"
    using 2 by blast
  then have "cells cs2 ! a = cells ?cs ! a" using a1 by simp
  then have keep: "cells cs2 ! a = c" using a1(1) by simp
  have nx: "next_pc cs2 a = b"
  proof (cases "current_within_chunk cs1 = 1023")
    case False
    then have "b = a + 1" using b by simp
    moreover have "cells cs2 ! b = blank_code" using 2 by blast
    ultimately show ?thesis by (simp add: next_pc_def blank_code_def)
  next
    case True
    define j where "j = a div 1024"
    have "a mod 1024 = current_within_chunk cs1 - 1" using 1 by blast
    then have "a mod 1024 = 1022" using True by simp
    then have a: "a = j * 1024 + 1022" unfolding j_def by (metis div_mult_mod_eq)
    obtain k where k: "length (cells cs2) = (k + 1) * 1024"
        "\<forall>i < length (cells cs2). opcode (cells cs2 ! i) = link_op \<longleftrightarrow> i mod 1024 = 1023"
        "\<forall>j < k. word1 (cells cs2 ! (j * 1024 + 1023)) = code_ptr ((j + 1) * 1024)"
      using 2 unfolding wf_space_def by blast
    have "a + 2 < (k + 1) * 1024" using 2 b True k(1) by simp
    then have "j < k" using a by simp
    then have "word1 (cells cs2 ! (a + 1)) = code_ptr (a + 2)" using k(3) a by (simp add: add.commute)
    moreover have "b + 1 < length (cells cs2)" "b = a + 2" using 2 b True by simp_all
    then have "a + 2 < 2 ^ 64" using assms(5) by linarith
    then have "unat (code_ptr (a + 2)) = a + 2"
      unfolding code_ptr_def unat_of_nat by simp
    moreover have "opcode (cells cs2 ! (a + 1)) = link_op" using k(1,2) a \<open>j < k\<close> by simp
    ultimately show ?thesis using b True 2 by (simp add: next_pc_def)
  qed
  have "snd (codespace_next ?cs) = b"
    using assms(4) by (auto simp: codespace_allocate_def split: prod.splits)
  moreover have "a < b" using b by simp
  moreover have "wf_space cs2" "0 < a" using 1 2 by blast+
  ultimately show ?thesis using keep nx by blast
qed

lemma code_sequence_witness:
  "next_pc (fst (codespace_allocate (fst (codespace_allocate codespace_init)))) 1 = 2"
proof -
  let ?c = "blank_code\<lparr>opcode := ''of_ADD''\<rparr>"
  obtain cs1 a where 1: "codespace_allocate codespace_init = (cs1, a)" by (cases "codespace_allocate codespace_init")
  have a: "a = 1" "length (cells cs1) = 1024" "current_within_chunk cs1 = 2" "cells cs1 ! 1 = blank_code"
    using 1 by (auto simp: codespace_allocate_def codespace_next_def codespace_init_def next_address_def
        code_chunk_size_def)
  obtain cs2 b where 2: "codespace_allocate (cs1\<lparr>cells := (cells cs1)[a := blank_code]\<rparr>) = (cs2, b)"
    by (cases "codespace_allocate (cs1\<lparr>cells := (cells cs1)[a := blank_code]\<rparr>)")
  have b: "b = 2" "length (cells cs2) = 1024"
    using 2 a by (auto simp: codespace_allocate_def codespace_next_def next_address_def code_chunk_size_def)
  have "cs1\<lparr>cells := (cells cs1)[a := blank_code]\<rparr> = cs1"
    using a list_update_id [of "cells cs1" 1] by simp
  then show ?thesis
    using code_sequence [OF wf_space_init 1 _ 2] b a 1 2 by (simp add: blank_code_def)
qed

section \<open>Instructions\<close>

text \<open>An operand that needs no label, of the type the table asks for, and how a cell holds it.\<close>

fun immediate :: "operand_e \<Rightarrow> operand \<Rightarrow> bool" where
  "immediate OA_NUMBER (L_NUMB v) \<longleftrightarrow> True"
| "immediate OA_BIT1 (L_NUMB v) \<longleftrightarrow> True"
| "immediate OA_BIT2 (L_NUMB v) \<longleftrightarrow> True"
| "immediate OA_STRING (L_STRING t) \<longleftrightarrow> True"
| "immediate _ _ \<longleftrightarrow> False"

fun holds :: "operand_e \<Rightarrow> operand \<Rightarrow> vvp_code \<Rightarrow> bool" where
  "holds OA_NUMBER (L_NUMB v) c \<longleftrightarrow> word1 c = v"
| "holds OA_BIT1 (L_NUMB v) c \<longleftrightarrow> (ucast (word2 c) :: 32 word) = ucast v"
| "holds OA_BIT2 (L_NUMB v) c \<longleftrightarrow> (ucast (drop_bit 32 (word2 c)) :: 32 word) = ucast v"
| "holds OA_STRING (L_STRING t) c \<longleftrightarrow> word1 c = t"
| "holds _ _ _ \<longleftrightarrow> True"

lemma word_cat_halves:
  fixes x y :: "32 word"
  shows "(ucast (word_cat x y :: 64 word) :: 32 word) = y"
    "(ucast (drop_bit 32 (word_cat x y :: 64 word)) :: 32 word) = x"
  by (rule bit_word_eqI; simp add: bit_simps)+

text \<open>Storing an immediate operand: it is held, and operands in other parts of the cell stay.\<close>

definition put_operand :: "operand_e \<Rightarrow> operand \<Rightarrow> vvp_code \<Rightarrow> vvp_code" where
  "put_operand t x c = (case (t, x) of
     (OA_NUMBER, L_NUMB v) \<Rightarrow> c\<lparr>word1 := v\<rparr>
   | (OA_BIT1, L_NUMB v) \<Rightarrow> set_bit_idx0 v c
   | (OA_BIT2, L_NUMB v) \<Rightarrow> set_bit_idx1 v c
   | (OA_STRING, L_STRING v) \<Rightarrow> c\<lparr>word1 := v\<rparr>
   | _ \<Rightarrow> c)"

lemma bind_immediate: "immediate t x \<Longrightarrow> bind_operand mk a t x s = Some (set_cell a (put_operand t x) s)"
  by (cases t; cases x) (simp_all add: put_operand_def set_cell_def)

lemma put_holds: "immediate t x \<Longrightarrow> holds t x (put_operand t x c)"
  by (cases t; cases x) (simp_all add: put_operand_def set_bit_idx0_def set_bit_idx1_def word_cat_halves)

lemma put_keeps:
  "\<lbrakk>immediate t x; set (operand_parts t) \<inter> set (operand_parts u) = {}; holds u y c\<rbrakk> \<Longrightarrow>
   holds u y (put_operand t x c)"
  by (cases t; cases x; cases u; cases y)
    (auto simp: put_operand_def set_bit_idx0_def set_bit_idx1_def word_cat_halves)

lemma put_opcode [simp]: "opcode (put_operand t x c) = opcode c"
  by (simp add: put_operand_def set_bit_idx0_def set_bit_idx1_def split: operand_e.split operand.split)

lemma set_cell_frame [simp]:
  "compile_errors (set_cell a f s) = compile_errors s" "messages (set_cell a f s) = messages s"
  "cells (space (set_cell a f s)) = (cells (space s))[a := f (cells (space s) ! a)]"
  by (simp_all add: set_cell_def)

lemma bind_immediates:
  "\<lbrakk>list_all2 immediate ts xs; distinct (concat (map operand_parts ts)); a < length (cells (space s))\<rbrakk> \<Longrightarrow>
   \<exists>s'. bind_operands mk a ts xs s = Some s' \<and> compile_errors s' = compile_errors s \<and> messages s' = messages s \<and>
     (\<exists>c. cells (space s') = (cells (space s))[a := c] \<and> opcode c = opcode (cells (space s) ! a) \<and>
        list_all2 (\<lambda>t x. holds t x c) ts xs \<and>
        (\<forall>u y. set (operand_parts u) \<inter> set (concat (map operand_parts ts)) = {} \<longrightarrow>
           holds u y (cells (space s) ! a) \<longrightarrow> holds u y c))"
proof (induction ts xs arbitrary: s rule: list_all2_induct)
  case Nil
  then show ?case by (intro exI [of _ s]) (auto intro!: exI [of _ "cells (space s) ! a"])
next
  case (Cons t ts x xs)
  let ?s = "set_cell a (put_operand t x) s"
  have parts: "set (operand_parts t) \<inter> set (concat (map operand_parts ts)) = {}" using Cons.prems(1) by auto
  have "a < length (cells (space ?s))" "distinct (concat (map operand_parts ts))" using Cons.prems by auto
  then obtain s' c where s': "bind_operands mk a ts xs ?s = Some s'" "compile_errors s' = compile_errors s"
      "messages s' = messages s" "cells (space s') = (cells (space s))[a := c]"
      "opcode c = opcode (cells (space s) ! a)" "list_all2 (\<lambda>t x. holds t x c) ts xs"
      "\<forall>u y. set (operand_parts u) \<inter> set (concat (map operand_parts ts)) = {} \<longrightarrow>
         holds u y (put_operand t x (cells (space s) ! a)) \<longrightarrow> holds u y c"
    using Cons.IH [of ?s] Cons.prems(2) by auto
  have "holds t x c" using s'(7) parts put_holds [OF Cons.hyps(1)] by blast
  moreover have "holds u y c" if "set (operand_parts u) \<inter> set (concat (map operand_parts (t # ts))) = {}"
      "holds u y (cells (space s) ! a)" for u y
  proof -
    have "holds u y (put_operand t x (cells (space s) ! a))"
      using that by (intro put_keeps [OF Cons.hyps(1)]) auto
    then show ?thesis using s'(7) that(1) by auto
  qed
  ultimately show ?case
    using s' bind_immediate [OF Cons.hyps(1), of mk a s] by (intro exI [of _ s']) auto
qed

text \<open>Compiling an instruction whose operands are all numbers or texts, in the
  number and of the kinds its row asks for, never fails: it fills the next cell of the code space
  with the instruction's function and every operand, none overwriting another (an index keeps its
  low 32 bits), and no other instruction changes.
\<close>

theorem compile_immediates:
  assumes "wf_space (space st)" "find_opcode mnem = Some (m, fn, argc, argt)" "length opa = argc"
    "list_all2 immediate (take argc argt) opa"
  shows "\<exists>st' a. compile_code mk None mnem opa st = Some st' \<and> a = snd (codespace_allocate (space st)) \<and>
    opcode (cells (space st') ! a) = fn \<and>
    list_all2 (\<lambda>t x. holds t x (cells (space st') ! a)) (take argc argt) opa \<and>
    compile_errors st' = compile_errors st \<and> messages st' = messages st \<and>
    (\<forall>i < length (cells (space st)). i mod 1024 \<noteq> 1023 \<longrightarrow> i \<noteq> a \<longrightarrow>
       cells (space st') ! i = cells (space st) ! i)"
proof -
  obtain cs a where cs: "codespace_allocate (space st) = (cs, a)" by (cases "codespace_allocate (space st)")
  note ok = codespace_allocate_ok [OF assms(1) cs]
  let ?s = "set_cell a (\<lambda>c. c\<lparr>opcode := fn\<rparr>) (st\<lparr>space := cs\<rparr>)"
  have "row_ok (m, fn, argc, argt)" using opcode_rows_ok assms(2) by (auto simp: find_opcode_eq find_Some_iff list_all_iff)
  then have "distinct (concat (map operand_parts argt))" by (simp add: row_ok_def)
  then have "distinct (concat (map operand_parts (take argc argt)))"
    by (metis append_take_drop_id concat_append distinct_append map_append)
  then obtain s' c where s': "bind_operands mk a (take argc argt) opa ?s = Some s'"
      "compile_errors s' = compile_errors st" "messages s' = messages st"
      "cells (space s') = (cells (space ?s))[a := c]" "opcode c = opcode (cells (space ?s) ! a)"
      "list_all2 (\<lambda>t x. holds t x c) (take argc argt) opa"
    using bind_immediates [OF assms(4), of a ?s mk] ok by auto
  have "compile_code mk None mnem opa st = Some s'"
    using s'(1) assms(2,3) cs by (simp add: compile_code_def)
  moreover have a: "a < length (cells cs)" using ok by simp
  moreover have "cells (space s') ! i = cells (space st) ! i"
    if "i < length (cells (space st))" "i mod 1024 \<noteq> 1023" "i \<noteq> a" for i
    using ok that s'(4) by simp
  ultimately show ?thesis using s' cs by (intro exI [of _ s'] exI [of _ a]) simp
qed

lemma compile_immediates_witness:
  "\<forall>mk ns. \<exists>st'. compile_code mk None ''%ix/load'' [L_NUMB 3, L_NUMB 5, L_NUMB 7] (compile_init ns) = Some st' \<and>
     word1 (cells (space st') ! 1) = 3 \<and> compile_errors st' = 0"
proof (intro allI)
  fix mk ns
  have "find_opcode ''%ix/load'' = Some (''%ix/load'', ''of_IX_LOAD'', 3, [OA_NUMBER, OA_BIT1, OA_BIT2])"
    unfolding find_opcode_eq by code_simp
  moreover have "space (compile_init ns) = codespace_init" "compile_errors (compile_init ns) = 0"
    by (simp_all add: compile_init_def)
  moreover have "snd (codespace_allocate codespace_init) = 1"
    by (simp add: codespace_allocate_def codespace_next_def codespace_init_def next_address_def code_chunk_size_def)
  ultimately show "\<exists>st'. compile_code mk None ''%ix/load'' [L_NUMB 3, L_NUMB 5, L_NUMB 7] (compile_init ns) = Some st' \<and>
     word1 (cells (space st') ! 1) = 3 \<and> compile_errors st' = 0"
    using compile_immediates [of "compile_init ns" "''%ix/load''" "''%ix/load''" "''of_IX_LOAD''" 3
        "[OA_NUMBER, OA_BIT1, OA_BIT2]" "[L_NUMB 3, L_NUMB 5, L_NUMB 7]" mk] wf_space_init
    by auto
qed

text \<open>An operand of the kind that the table asks for.\<close>

fun accepts :: "operand_e \<Rightarrow> operand \<Rightarrow> bool" where
  "accepts OA_NONE x \<longleftrightarrow> True"
| "accepts OA_NUMBER (L_NUMB v) \<longleftrightarrow> True"
| "accepts OA_BIT1 (L_NUMB v) \<longleftrightarrow> True"
| "accepts OA_BIT2 (L_NUMB v) \<longleftrightarrow> True"
| "accepts OA_STRING (L_STRING t) \<longleftrightarrow> True"
| "accepts OA_ARR_PTR (L_SYMB t i) \<longleftrightarrow> True"
| "accepts OA_CODE_PTR (L_SYMB t i) \<longleftrightarrow> True"
| "accepts OA_CODE_PTR2 (L_SYMB t i) \<longleftrightarrow> True"
| "accepts OA_FUNC_PTR (L_SYMB t i) \<longleftrightarrow> True"
| "accepts OA_FUNC_PTR2 (L_SYMB t i) \<longleftrightarrow> True"
| "accepts OA_VPI_PTR (L_SYMB t i) \<longleftrightarrow> True"
| "accepts _ _ \<longleftrightarrow> False"

lemma bind_rejected: "\<not> accepts t x \<Longrightarrow> bind_operand mk a t x s = Some (yyerror ''operand format'' s)"
  by (cases t; cases x) simp_all

subsection \<open>What an operand changes\<close>

text \<open>The parts of a cell that operands fill, read as numbers.\<close>

fun part_value :: "part \<Rightarrow> vvp_code \<Rightarrow> 64 word" where
  "part_value Union1 c = word1 c"
| "part_value Low_Half c = ucast (ucast (word2 c) :: 32 word)"
| "part_value High_Half c = ucast (ucast (drop_bit 32 (word2 c)) :: 32 word)"

lemma part_value_other:
  "p \<noteq> Union1 \<Longrightarrow> part_value p (c\<lparr>word1 := v\<rparr>) = part_value p c"
  "p \<noteq> Low_Half \<Longrightarrow> p \<noteq> High_Half \<Longrightarrow> part_value p (c\<lparr>word2 := v\<rparr>) = part_value p c"
  "part_value p (c\<lparr>opcode := f\<rparr>) = part_value p c"
  by (cases p; simp)+

lemma bind_pairE:
  assumes "Option.bind m (\<lambda>(a, b). f a b) = Some r"
  obtains a b where "m = Some (a, b)" "f a b = Some r"
  using assms by (auto simp: bind_eq_Some_conv)

lemma resolve_code:
  assumes "resolve mk False r s = Some (s', b)" "target r = Some c"
  shows "messages s' = messages s \<and> compile_errors s' = compile_errors s \<and>
    (space s' = space s \<or> (\<exists>v. space s' = space (store_ref c v s)))"
proof -
  have fin: ?thesis if "same_code s t" "s' = t \<or> (\<exists>v. s' = store_ref c v t)" for t
  proof -
    have "space (store_ref c v t) = space (store_ref c v s)" "messages (store_ref c v t) = messages t" for v
      using that(1) by (cases c; simp add: store_ref_def set_cell_def same_code_def)+
    then show ?thesis using that by (auto simp: same_code_def)
  qed
  show ?thesis
  proof (cases r)
    case (Functor_Ref l d)
    then obtain t n where "vvp_net_lookup mk l s = Some (t, n)" "s' = t \<or> (\<exists>v. s' = store_ref c v t)"
      using assms by (auto simp: bind_eq_Some_conv split: if_splits)
    then show ?thesis using fin vvp_net_lookup_code by blast
  next
    case (Vpi_Handle l d)
    have "\<exists>s1 v s2 w s3 u. vvp_lookup_handle l s = Some (s1, v) \<and>
        (case (if v = 0 then thread_object mk l else None) of
           Some obj \<Rightarrow> do { st \<leftarrow> compile_vpi_symbol l obj s1; Some (st, obj) } | None \<Rightarrow> Some (s1, v)) = Some (s2, w) \<and>
        (if l = ''null'' then do { st \<leftarrow> compile_vpi_symbol l (null_const mk) s2; Some (st, null_const mk) }
         else Some (s2, w)) = Some (s3, u) \<and>
        (if u \<noteq> 0 then Some (store_ref d u s3, True) else Some (s3, False)) = Some (s', b)"
      using assms(1) unfolding Vpi_Handle resolve.simps vpi_handle_resolve_def complain_codespace
      by (elim bind_pairE) blast
    then obtain s1 v s2 w s3 u where s1: "vvp_lookup_handle l s = Some (s1, v)"
      and s2: "(case (if v = 0 then thread_object mk l else None) of
           Some obj \<Rightarrow> do { st \<leftarrow> compile_vpi_symbol l obj s1; Some (st, obj) } | None \<Rightarrow> Some (s1, v)) = Some (s2, w)"
      and s3: "(if l = ''null'' then do { st \<leftarrow> compile_vpi_symbol l (null_const mk) s2; Some (st, null_const mk) }
         else Some (s2, w)) = Some (s3, u)"
      and s4: "(if u \<noteq> 0 then Some (store_ref d u s3, True) else Some (s3, False)) = Some (s', b)" by blast
    have "same_code s1 s2" using s2 symbol_code(4) by (auto simp: bind_eq_Some_conv same_code_def split: option.splits)
    moreover have "same_code s2 s3" using s3 symbol_code(4) by (auto simp: bind_eq_Some_conv same_code_def split: if_splits)
    ultimately have "same_code s s3" using symbol_code(1) [OF s1] same_code_trans by blast
    moreover have "s' = s3 \<or> (\<exists>v. s' = store_ref c v s3)" using s4 assms(2) Vpi_Handle by (auto split: if_splits)
    ultimately show ?thesis by (rule fin)
  next
    case (Code_Label l a d)
    then obtain t n where "lookup_code l s = Some (t, n)" "s' = t \<or> (\<exists>v. s' = store_ref c v t)"
      using assms by (auto simp: bind_eq_Some_conv split: if_splits)
    then show ?thesis using assms(2) Code_Label
      by (cases c) (auto simp: lookup_code_def store_ref_def set_cell_def split: if_splits)
  next
    case (Code_Array l a)
    then obtain t n where "array_find l s = Some (t, n)" "s' = t \<or> (\<exists>v. s' = store_ref c v t)"
      using assms by (auto simp: bind_eq_Some_conv Let_def split: if_splits)
    then show ?thesis using fin symbol_code(3) by blast
  qed (use assms(2) in auto)
qed

lemma submit_code:
  assumes "resolv_submit mk r s = Some s'" "target r = Some c"
  shows "messages s' = messages s \<and> compile_errors s' = compile_errors s \<and>
    (space s' = space s \<or> (\<exists>v. space s' = space (store_ref c v s)))"
  using assms resolve_code [of mk r s _ _ c] by (auto simp: resolv_submit_def bind_eq_Some_conv split: if_splits)

text \<open>The frame of an operand: the errors are not counted, one of the wrong kind is reported, and the cell
  changes only in the parts of the operand, and not at all when it is of the wrong kind.\<close>

definition operand_frame :: "nat \<Rightarrow> string list \<Rightarrow> part set \<Rightarrow> link_state \<Rightarrow> link_state \<Rightarrow> bool" where
  "operand_frame a msgs ps s s' \<longleftrightarrow> compile_errors s' = compile_errors s \<and> messages s' = messages s @ msgs \<and>
     length (cells (space s')) = length (cells (space s)) \<and>
     opcode (cells (space s') ! a) = opcode (cells (space s) ! a) \<and>
     (\<forall>p. p \<notin> ps \<longrightarrow> part_value p (cells (space s') ! a) = part_value p (cells (space s) ! a))"

lemma operand_frame_refl: "operand_frame a [] ps s s"
  by (simp add: operand_frame_def)

lemma operand_frame_trans:
  "operand_frame a m ps s t \<Longrightarrow> operand_frame a m' ps' t u \<Longrightarrow> operand_frame a (m @ m') (ps \<union> ps') s u"
  by (auto simp: operand_frame_def)

lemma submit_frame:
  assumes "resolv_submit mk r s = Some s'" "a < length (cells (space s))"
  shows "target r = Some (Word1 a) \<Longrightarrow> operand_frame a [] {Union1} s s'"
    and "target r = Some (Word2 a) \<Longrightarrow> operand_frame a [] {Low_Half, High_Half} s s'"
proof -
  show "operand_frame a [] {Union1} s s'" if "target r = Some (Word1 a)"
    using submit_code [OF assms(1) that] assms(2) by (auto simp: operand_frame_def store_ref_def set_cell_def part_value_other)
  show "operand_frame a [] {Low_Half, High_Half} s s'" if "target r = Some (Word2 a)"
    using submit_code [OF assms(1) that] assms(2) by (auto simp: operand_frame_def store_ref_def set_cell_def part_value_other)
qed

lemma bind_operand_frame:
  assumes "bind_operand mk a t x s = Some s'" "a < length (cells (space s))"
  shows "operand_frame a (if accepts t x then [] else [''operand format''])
    (if accepts t x then set (operand_parts t) else {}) s s'"
proof (cases "accepts t x \<and> \<not> immediate t x")
  case True
  have time: "operand_frame a [] {Union1} s (store_ref (Word1 a) v s)" for v
    using assms(2) by (simp add: operand_frame_def store_ref_def set_cell_def part_value_other)
  note frame = submit_frame [OF _ assms(2)]
  show ?thesis using True assms(1) time by (cases t; cases x)
    (auto simp: code_label_lookup_def functor_ref_lookup_def compile_array_lookup_def compile_vpi_lookup_def
      operand_frame_refl intro: frame split: if_splits)
next
  case False
  show ?thesis
  proof (cases "immediate t x")
    case True
    have "part_value p (put_operand t x c) = part_value p c" if "p \<notin> set (operand_parts t)" for p c
      using that by (cases t; cases x; cases p) (simp_all add: put_operand_def set_bit_idx0_def set_bit_idx1_def word_cat_halves)
    moreover have "accepts t x" using True by (cases t; cases x) simp_all
    ultimately show ?thesis using assms bind_immediate [OF True, of mk a s] by (auto simp: operand_frame_def)
  next
    case no: False
    then have "\<not> accepts t x" using False by blast
    then show ?thesis using assms bind_rejected [of t x mk a s] by (auto simp: operand_frame_def yyerror_def)
  qed
qed

definition rejected :: "operand_e list \<Rightarrow> operand list \<Rightarrow> nat" where
  "rejected ts xs = length (filter (\<lambda>(t, x). \<not> accepts t x) (zip ts xs))"

lemma bind_operands_frame:
  "\<lbrakk>bind_operands mk a ts xs s = Some s'; length ts = length xs; a < length (cells (space s))\<rbrakk> \<Longrightarrow>
   operand_frame a (replicate (rejected ts xs) ''operand format'')
     (\<Union>(t, x) \<in> set (zip ts xs). if accepts t x then set (operand_parts t) else {}) s s'"
proof (induction mk a ts xs s rule: bind_operands.induct)
  case (1 mk a t ts x xs s)
  then obtain s1 where s1: "bind_operand mk a t x s = Some s1" "bind_operands mk a ts xs s1 = Some s'"
    by (auto split: option.splits)
  note f = bind_operand_frame [OF s1(1) "1.prems"(3)]
  then have "a < length (cells (space s1))" using "1.prems"(3) by (simp add: operand_frame_def)
  from operand_frame_trans [OF f "1.IH" [OF s1 _ this]] show ?case
    using "1.prems"(2) by (cases "accepts t x") (simp_all add: rejected_def)
qed (auto simp: operand_frame_def rejected_def)

text \<open>Allocating after a label has asked for the address gives that address.\<close>

lemma allocate_after_next:
  assumes "wf_space cs"
  shows "wf_space (fst (codespace_next cs)) \<and> snd (codespace_allocate (fst (codespace_next cs))) = snd (codespace_allocate cs)"
proof -
  obtain cs' a where n: "codespace_next cs = (cs', a)" by (cases "codespace_next cs")
  then have "wf_space cs'" "a = next_address cs'" "current_within_chunk cs' < 1023"
    using codespace_next_ok [OF assms n] by auto
  then show ?thesis using n by (simp add: codespace_allocate_def codespace_next_def [of cs'] code_chunk_size_def)
qed

lemma label_frame:
  assumes "(case label of None \<Rightarrow> Some st | Some l \<Rightarrow> compile_codelabel l st) = Some s" "wf_space (space st)"
  shows "compile_errors s = compile_errors st \<and> messages s = messages st \<and> wf_space (space s) \<and>
    snd (codespace_allocate (space s)) = snd (codespace_allocate (space st))"
  using assms allocate_after_next [OF assms(2)]
  by (auto simp: compile_codelabel_def split: option.splits prod.splits)

lemma distinct_concat_nth:
  "\<lbrakk>distinct (concat xss); i < length xss; j < length xss; i \<noteq> j\<rbrakk> \<Longrightarrow> set (xss ! i) \<inter> set (xss ! j) = {}"
proof (induction xss arbitrary: i j)
  case (Cons xs xss)
  then have "set xs \<inter> set (xss ! k) = {}" if "k < length xss" for k using nth_mem [OF that] by auto
  then show ?case using Cons by (cases i; cases j) auto
qed simp

lemma bind_zero:
  assumes "operand_frame a msgs (\<Union>(t, x) \<in> set (zip ts xs). if accepts t x then set (operand_parts t) else {}) s s'"
    "distinct (concat (map operand_parts ts))" "length ts = length xs" "i < length ts" "\<not> accepts (ts ! i) (xs ! i)"
    "p \<in> set (operand_parts (ts ! i))" "part_value p (cells (space s) ! a) = 0"
  shows "part_value p (cells (space s') ! a) = 0"
proof -
  have other: "p \<notin> set (operand_parts (ts ! j))" if "j < length ts" "j \<noteq> i" for j
  proof -
    have "set (operand_parts (ts ! j)) \<inter> set (operand_parts (ts ! i)) = {}"
      using distinct_concat_nth [OF assms(2), of j i] assms(4) that by simp
    then show ?thesis using assms(6) by blast
  qed
  have "p \<notin> (if accepts t x then set (operand_parts t) else {})" if m: "(t, x) \<in> set (zip ts xs)" for t x
  proof -
    obtain j where "j < length ts" "t = ts ! j" "x = xs ! j" using m unfolding in_set_zip by auto
    then show ?thesis using other [of j] assms(5) by (cases "j = i") auto
  qed
  then have "p \<notin> (\<Union>(t, x) \<in> set (zip ts xs). if accepts t x then set (operand_parts t) else {})" by blast
  then show ?thesis using assms(1,7) by (simp add: operand_frame_def)
qed

text \<open>C33. The errors of an instruction line. When no assertion of the linker fails, an unknown mnemonic is
  reported and counted in \<^verbatim>\<open>compile_errors\<close> and takes no cell; otherwise the next cell of the code space
  gets the function of the instruction. A wrong number of operands is reported and counted, and the cell has no
  operands. With the right number, each operand of the wrong kind is reported and leaves zero in its place in the
  cell, and none is counted, whatever the other operands are and whether or not their labels are defined yet.
\<close>

theorem compile_errors_counted:
  assumes "wf_space (space st)" "compile_code mk label mnem opa st = Some st'"
  shows "let a = snd (codespace_allocate (space st)) in
    case find_opcode mnem of
      None \<Rightarrow> compile_errors st' = compile_errors st + 1 \<and> messages st' = messages st @ [''Invalid opcode''] \<and>
        snd (codespace_allocate (space st')) = a
    | Some (m, fn, argc, argt) \<Rightarrow> opcode (cells (space st') ! a) = fn \<and>
        (if length opa \<noteq> argc
         then compile_errors st' = compile_errors st + 1 \<and> messages st' = messages st @ [''operand count''] \<and>
           word1 (cells (space st') ! a) = 0 \<and> word2 (cells (space st') ! a) = 0
         else compile_errors st' = compile_errors st \<and>
           messages st' = messages st @ replicate (rejected (take argc argt) opa) ''operand format'' \<and>
           (\<forall>i p. i < argc \<and> \<not> accepts (argt ! i) (opa ! i) \<and> p \<in> set (operand_parts (argt ! i)) \<longrightarrow>
              part_value p (cells (space st') ! a) = 0))"
proof -
  obtain s where s: "(case label of None \<Rightarrow> Some st | Some l \<Rightarrow> compile_codelabel l st) = Some s"
    using assms(2) unfolding compile_code_def by (auto simp: bind_eq_Some_conv)
  note l = label_frame [OF s assms(1)]
  obtain cs a where cs: "codespace_allocate (space s) = (cs, a)" by (cases "codespace_allocate (space s)")
  note ok = codespace_allocate_ok [OF _ cs]
  show ?thesis
  proof (cases "find_opcode mnem")
    case None
    then show ?thesis using assms(2) s l cs by (auto simp: compile_code_def yyerror_def)
  next
    case (Some row)
    then obtain m fn argc argt where row: "find_opcode mnem = Some (m, fn, argc, argt)" by (cases row) auto
    let ?s = "set_cell a (\<lambda>c. c\<lparr>opcode := fn\<rparr>) (s\<lparr>space := cs\<rparr>)"
    have cell: "cells (space ?s) ! a = blank_code\<lparr>opcode := fn\<rparr>" "a < length (cells (space ?s))" using ok l by auto
    show ?thesis
    proof (cases "length opa = argc")
      case False
      then show ?thesis using assms(2) s l cs row cell by (auto simp: compile_code_def yyerror_def blank_code_def)
    next
      case True
      have "row_ok (m, fn, argc, argt)" using opcode_rows_ok row by (auto simp: find_opcode_eq find_Some_iff list_all_iff)
      then have d: "distinct (concat (map operand_parts (take argc argt)))" "length (take argc argt) = length opa"
        using True length_filter_le [of "\<lambda>t. t \<noteq> OA_NONE" argt] by (auto simp: row_ok_def) (metis append_take_drop_id concat_append distinct_append map_append)
      have "bind_operands mk a (take argc argt) opa ?s = Some st'" using assms(2) s row cs True by (simp add: compile_code_def)
      note f = bind_operands_frame [OF this d(2) cell(2)]
      have z: "part_value p (cells (space ?s) ! a) = 0" for p unfolding cell(1) by (cases p) (simp_all add: blank_code_def)
      have "\<forall>i p. i < argc \<and> \<not> accepts (argt ! i) (opa ! i) \<and> p \<in> set (operand_parts (argt ! i)) \<longrightarrow>
          part_value p (cells (space st') ! a) = 0"
        using bind_zero [OF f d(1,2)] z d(2) True by (metis nth_take)
      then show ?thesis using f row True l cs cell(1) by (simp add: operand_frame_def)
    qed
  qed
qed

text \<open>A jump to a number, with a flag: reported, not counted.\<close>

lemma compile_errors_counted_witness:
  "\<exists>mk ns st'. compile_code mk None ''%jmp/0'' [L_NUMB 7, L_NUMB 5] (compile_init ns) = Some st' \<and>
     compile_errors st' = 0 \<and> messages st' = [''operand format''] \<and> word1 (cells (space st') ! 1) = 0"
proof -
  fix mk ns
  let ?st = "compile_init ns"
  have row: "find_opcode ''%jmp/0'' = Some (''%jmp/0'', ''of_JMP0'', 2, [OA_CODE_PTR, OA_BIT1, OA_NONE])"
    unfolding find_opcode_eq by code_simp
  have i: "space ?st = codespace_init" "compile_errors ?st = 0" "messages ?st = []" by (simp_all add: compile_init_def)
  have a: "snd (codespace_allocate codespace_init) = 1"
    by (simp add: codespace_allocate_def codespace_next_def codespace_init_def next_address_def code_chunk_size_def)
  obtain st' where st': "compile_code mk None ''%jmp/0'' [L_NUMB 7, L_NUMB 5] ?st = Some st'"
    by (cases "codespace_allocate (space ?st)") (simp add: compile_code_def row)
  have c: "compile_errors st' = 0" "messages st' = [''operand format'']"
      "\<forall>j p. j < 2 \<and> \<not> accepts ([OA_CODE_PTR, OA_BIT1, OA_NONE] ! j) ([L_NUMB 7, L_NUMB 5] ! j) \<and>
         p \<in> set (operand_parts ([OA_CODE_PTR, OA_BIT1, OA_NONE] ! j)) \<longrightarrow> part_value p (cells (space st') ! 1) = 0"
    using compile_errors_counted [OF _ st'] wf_space_init by (simp_all add: i a row rejected_def)
  have "word1 (cells (space st') ! 1) = 0" using c(3) [rule_format, of 0 Union1] by simp
  then show ?thesis using st' c by blast
qed

section \<open>Cleanup\<close>

text \<open>C7. In a well-formed state of the linker the cleanup ends without failing an
  assertion. Every reference that was open is afterwards either bound to what its label means (a code
  label to its address, a functor to its net, an input linked into the fan-out list of its driver, a
  handle, an array or a method to its object) or still open, and then its label is not defined;
  exactly the latter are counted as errors. Forward references are thereby resolved as backward ones.
\<close>

theorem cleanup_resolves:
  assumes "link_ok mk e (mset (resolv_list st)) {#} st"
  shows "\<exists>st' R. compile_cleanup mk st = Some st' \<and> mset (resolv_list st) = mset (resolv_list st') + R \<and>
    (\<forall>r \<in># R. bound st' r) \<and> (\<forall>r \<in> set (resolv_list st'). \<not> defined mk st' r) \<and>
    compile_errors st' = e + length (resolv_list st') \<and>
    sym_val (sym_codespace st') = sym_val (sym_codespace st)"
proof -
  let ?st = "st\<lparr>resolv_list := []\<rparr>"
  have "same_view st ?st"
    using assms by (simp add: same_view_def link_ok_def tables_ok_def array_val_def fun_eq_iff)
  then have "link_ok mk e (mset (resolv_list st)) {#} ?st" using link_ok_view assms by blast
  then obtain s' left R where l: "cleanup_loop (resolve mk) (- 1) 0 (resolv_list st) ?st = Some (s', left, int (length left))"
      "mset (resolv_list st) = mset left + R" "link_ok mk e (mset left) R s'"
      "sym_val (sym_codespace s') = sym_val (sym_codespace st)" "\<forall>r \<in> set left. \<not> defined mk s' r"
    using link.loop [where g = "resolve mk" and mk = mk and items = "resolv_list st" and e = e and D = "{#}" and s = ?st
        and C = "sym_val (sym_codespace st)" and nerrs = 0 and lnerrs = "- 1"] by auto
  let ?s = "s'\<lparr>resolv_list := left, compile_errors := compile_errors s' + length left\<rparr>"
  have nv: "net_value ?s k = net_value s' k" for k by (simp add: net_value_def vpi_net_def)
  have rd: "read_ref c ?s = read_ref c s'" for c by (cases c) (simp_all add: read_ref_def)
  have av: "array_val ?s = array_val s'" by (simp add: array_val_def fun_eq_iff)
  have "bound ?s r = bound s' r" "defined mk ?s r = defined mk s' r" for r
    using nv rd av by (cases r; simp)+
  then show ?thesis
    using l by (intro exI [of _ ?s] exI [of _ R]) (simp add: compile_cleanup_def link_ok_def)
qed

text \<open>A jump forward to a label that is defined later, and one to a label that never is.\<close>

lemma cleanup_resolves_witness:
  "\<exists>mk st st'. resolv_list st = [Code_Label ''T'' 1 False, Code_Label ''U'' 2 False] \<and>
     compile_cleanup mk st = Some st' \<and> compile_errors st' = 1 \<and> word1 (cells (space st') ! 1) = 5"
proof -
  let ?mk = "\<lparr>scope_is_automatic = False, t0_net = 1, t0_event = 2, vthr_word = \<lambda>_ _. 3, vthr_str_stack = \<lambda>_. 3,
    vthr_vec4_stack = \<lambda>_ _ _. 3, null_const = 4, sim_time = \<lambda>_. 3\<rparr>"
  let ?ns = "\<lparr>out_head = \<lambda>_. None, port = \<lambda>_. None, is_modpath_src = \<lambda>_. False\<rparr>"
  obtain tab where tab: "sym_set_value new_symbol_table ''T'' 5 = Some tab" "wf_table tab"
      "sym_val tab = (sym_val new_symbol_table)(''T'' := 5)"
    using set_sym_val [of new_symbol_table "''T''"] new_symbol_table_ok
    by (auto simp: good_key_def chunk_size_def)
  let ?st = "(compile_init ?ns)\<lparr>sym_codespace := tab,
    resolv_list := [Code_Label ''T'' 1 False, Code_Label ''U'' 2 False]\<rparr>"
  have empty: "sym_val new_symbol_table l = 0" for l
    using new_symbol_table_ok by (simp add: sym_val_def the_default_def)
  have o3: "obj = 3" if "thread_object ?mk l = Some obj" for l obj
    using that by (auto simp: thread_object_def split: option.splits)
  have mk: "makers_ok ?mk" unfolding makers_ok_def by (auto dest!: o3)
  have ns: "nets_ok {p. \<exists>r \<in># {#Code_Label ''T'' 1 False, Code_Label ''U'' 2 False#}. port_of r = Some p} ?ns"
    unfolding nets_ok_def fan_out_def by (intro exI [of _ "\<lambda>_. []"]) simp
  have un: "unshared {#Code_Label ''T'' 1 False, Code_Label ''U'' 2 False#}"
    by (auto simp: unshared_def add_eq_conv_diff)
  have ok: "link_ok ?mk 0 (mset (resolv_list ?st)) {#} ?st"
    using mk ns un tab(2) new_symbol_table_ok empty
    by (simp add: link_ok_def compile_init_def tables_ok_def healthy_def in_range_def good_key_def chunk_size_def
        codespace_init_def)
  obtain st' R where st': "compile_cleanup ?mk ?st = Some st'" "mset (resolv_list ?st) = mset (resolv_list st') + R"
      "\<forall>r \<in># R. bound st' r" "\<forall>r \<in> set (resolv_list st'). \<not> defined ?mk st' r"
      "compile_errors st' = 0 + length (resolv_list st')" "sym_val (sym_codespace st') = sym_val tab"
    using cleanup_resolves [OF ok] by auto
  have T: "Code_Label ''T'' 1 False \<notin># mset (resolv_list st')"
    using st'(4,6) tab(3) by auto
  have U: "Code_Label ''U'' 2 False \<notin># R"
    using st'(3,6) tab(3) empty by auto
  have all: "{#Code_Label ''T'' 1 False, Code_Label ''U'' 2 False#} = mset (resolv_list st') + R" using st'(2) by simp
  then have "Code_Label ''T'' 1 False \<in># mset (resolv_list st') + R" "Code_Label ''U'' 2 False \<in># mset (resolv_list st') + R"
    by (metis insert_iff set_mset_add_mset_insert)+
  then have in': "Code_Label ''T'' 1 False \<in># R" "Code_Label ''U'' 2 False \<in># mset (resolv_list st')"
    using T U by auto
  have "size (mset (resolv_list st')) + size R = 2" using arg_cong [OF all, of size] by simp
  moreover have "0 < size R" "0 < size (mset (resolv_list st'))" using in' by (metis nonempty_has_size empty_iff set_mset_empty)+
  ultimately have "length (resolv_list st') = 1" by (simp only: size_mset)
  moreover have "word1 (cells (space st') ! 1) = 5"
    using st'(3,6) in'(1) tab(3) by (auto simp: read_ref_def)
  ultimately show ?thesis
    using st'(1,5) by (intro exI [of _ ?mk] exI [of _ ?st] exI [of _ st']) simp
qed

end
