(* ===== verification/Vthread.thy ===== *)
theory Vthread
  imports Vvp_Transfer Compile
begin

text \<open>
  The state of a thread of the run time and the instructions of its vector stack machine
  (\<^verbatim>\<open>vvp/vthread.cc\<close>). A thread has a program counter, 512 flag bits, 16 word registers, a stack of
  four-valued vectors and the fields that tie it to other threads. Every instruction is one
  definition, from the cell of the instruction and the thread to the new thread; \<open>None\<close> is a failed
  assertion or an access outside an array. The vector stack is a list with the top first; an
  instruction that edits the top in place through a reference replaces the head of the list.
\<close>

unbundle bit_operations_syntax

section \<open>Thread state\<close>

text \<open>Threads and scopes are named by their addresses. A set of pointers iterates in the order of the
  addresses, so it is the sorted list of them.\<close>

record vthread_s =
  pc :: nat
  flags :: "vvp_bit4 list"
  words :: "64 word list"
  args_vec4 :: "nat list"
  stack_vec4 :: "vvp_vector4 list"
  i_am_joining :: bool
  i_am_detached :: bool
  i_am_waiting :: bool
  i_am_in_function :: bool
  i_have_ended :: bool
  i_was_disabled :: bool
  waiting_for_event :: bool
  is_scheduled :: bool
  delay_delete :: bool
  children :: "nat list"
  detached_children :: "nat list"
  parent :: "nat option"
  parent_scope :: nat
  wait_next :: "nat option"
  wt_context :: "nat option"
  rd_context :: "nat option"

definition FLAGS_COUNT :: nat where
  "FLAGS_COUNT = 512"

definition WORDS_COUNT :: nat where
  "WORDS_COUNT = 16"

section \<open>Operands of an instruction\<close>

definition cp_number :: "vvp_code \<Rightarrow> 64 word" where
  "cp_number cp = word1 cp"

definition cp_bit_idx0 :: "vvp_code \<Rightarrow> 32 word" where
  "cp_bit_idx0 cp = ucast (word2 cp)"

definition cp_bit_idx1 :: "vvp_code \<Rightarrow> 32 word" where
  "cp_bit_idx1 cp = ucast (drop_bit 32 (word2 cp))"

definition cp_cptr :: "vvp_code \<Rightarrow> nat" where
  "cp_cptr cp = unat (word1 cp)"

definition cp_cptr2 :: "vvp_code \<Rightarrow> nat" where
  "cp_cptr2 cp = unat (word2 cp)"

text \<open>\<^verbatim>\<open>unsigned wid = cp->number\<close> keeps the low 32 bits.\<close>

definition cp_wid :: "vvp_code \<Rightarrow> nat" where
  "cp_wid cp = unat (ucast (cp_number cp) :: 32 word)"

section \<open>Vector stack, flags and words\<close>

definition pop_vec4 :: "vthread_s \<Rightarrow> (vvp_vector4 \<times> vthread_s) option" where
  "pop_vec4 thr = (case stack_vec4 thr of [] \<Rightarrow> None | v # vs \<Rightarrow> Some (v, thr\<lparr>stack_vec4 := vs\<rparr>))"

definition push_vec4 :: "vvp_vector4 \<Rightarrow> vthread_s \<Rightarrow> vthread_s" where
  "push_vec4 val thr = thr\<lparr>stack_vec4 := val # stack_vec4 thr\<rparr>"

definition peek_vec4 :: "nat \<Rightarrow> vthread_s \<Rightarrow> vvp_vector4 option" where
  "peek_vec4 depth thr =
     (if depth < length (stack_vec4 thr) then Some (stack_vec4 thr ! depth) else None)"

definition poke_vec4 :: "nat \<Rightarrow> vvp_vector4 \<Rightarrow> vthread_s \<Rightarrow> vthread_s option" where
  "poke_vec4 depth val thr =
     (if depth < length (stack_vec4 thr) then Some (thr\<lparr>stack_vec4 := (stack_vec4 thr)[depth := val]\<rparr>)
      else None)"

definition pop_vec4_cnt :: "nat \<Rightarrow> vthread_s \<Rightarrow> vthread_s option" where
  "pop_vec4_cnt cnt thr =
     (if cnt \<le> length (stack_vec4 thr) then Some (thr\<lparr>stack_vec4 := drop cnt (stack_vec4 thr)\<rparr>) else None)"

definition get_flag :: "nat \<Rightarrow> vthread_s \<Rightarrow> vvp_bit4 option" where
  "get_flag i thr = (if i < FLAGS_COUNT then Some (flags thr ! i) else None)"

definition set_flag :: "nat \<Rightarrow> vvp_bit4 \<Rightarrow> vthread_s \<Rightarrow> vthread_s" where
  "set_flag i b thr = thr\<lparr>flags := (flags thr)[i := b]\<rparr>"

definition get_word :: "nat \<Rightarrow> vthread_s \<Rightarrow> 64 word option" where
  "get_word i thr = (if i < WORDS_COUNT then Some (words thr ! i) else None)"

definition set_word :: "nat \<Rightarrow> 64 word \<Rightarrow> vthread_s \<Rightarrow> vthread_s option" where
  "set_word i w thr = (if i < WORDS_COUNT then Some (thr\<lparr>words := (words thr)[i := w]\<rparr>) else None)"

section \<open>Immediate operands\<close>

text \<open>The loop of \<open>get_immediate_rval\<close>, which stops when both values have become zero.\<close>

fun immediate_loop :: "nat \<Rightarrow> nat \<Rightarrow> 32 word \<Rightarrow> 32 word \<Rightarrow> vvp_vector4 \<Rightarrow> vvp_vector4 option" where
  "immediate_loop idx 0 vala valb val = Some val"
| "immediate_loop idx (Suc k) vala valb val =
     (if vala OR valb = 0 then Some val
      else let ba = push_bit 1 (valb AND 1) OR (vala AND 1)
           in case (if ba \<noteq> 0 then v4_set_bit val idx (bit4_cast (unat ba)) else Some val) of
                None \<Rightarrow> None
              | Some val' \<Rightarrow> immediate_loop (Suc idx) k (drop_bit 1 vala) (drop_bit 1 valb) val')"

definition get_immediate_rval :: "vvp_code \<Rightarrow> vvp_vector4 \<Rightarrow> vvp_vector4 option" where
  "get_immediate_rval cp val =
     (let vala = cp_bit_idx0 cp; valb = cp_bit_idx1 cp; wid = cp_wid cp
      in if valb = 0
         then (if vala = 0 then Some val
               else v4_setarray val 0 (if wid < 64 then wid else 64) [ucast vala])
         else immediate_loop 0 wid vala valb val)"

definition immediate_vec4 :: "vvp_code \<Rightarrow> vvp_vector4 option" where
  "immediate_vec4 cp = get_immediate_rval cp (vector4_fill (cp_wid cp) BIT4_0)"

section \<open>Stack instructions\<close>

definition of_PUSHI_VEC4 :: "vvp_code \<Rightarrow> vthread_s \<Rightarrow> vthread_s option" where
  "of_PUSHI_VEC4 cp thr = do { val \<leftarrow> immediate_vec4 cp; Some (push_vec4 val thr) }"

definition of_POP_VEC4 :: "vvp_code \<Rightarrow> vthread_s \<Rightarrow> vthread_s option" where
  "of_POP_VEC4 cp thr = pop_vec4_cnt (cp_wid cp) thr"

definition of_DUP_VEC4 :: "vvp_code \<Rightarrow> vthread_s \<Rightarrow> vthread_s option" where
  "of_DUP_VEC4 cp thr = do { val \<leftarrow> peek_vec4 0 thr; Some (push_vec4 val thr) }"

definition of_NOOP :: "vvp_code \<Rightarrow> vthread_s \<Rightarrow> vthread_s option" where
  "of_NOOP cp thr = Some thr"

section \<open>Bitwise and arithmetic instructions\<close>

text \<open>An instruction with two operands pops the right one and edits the left one, the new top, in
  place.\<close>

definition binary_op :: "(vvp_vector4 \<Rightarrow> vvp_vector4 \<Rightarrow> vvp_vector4 option) \<Rightarrow> vthread_s \<Rightarrow> vthread_s option" where
  "binary_op f thr = do {
     (valb, thr) \<leftarrow> pop_vec4 thr;
     vala \<leftarrow> peek_vec4 0 thr;
     res \<leftarrow> f vala valb;
     poke_vec4 0 res thr }"

definition unary_op :: "(vvp_vector4 \<Rightarrow> vvp_vector4 option) \<Rightarrow> vthread_s \<Rightarrow> vthread_s option" where
  "unary_op f thr = do { val \<leftarrow> peek_vec4 0 thr; res \<leftarrow> f val; poke_vec4 0 res thr }"

definition of_AND :: "vvp_code \<Rightarrow> vthread_s \<Rightarrow> vthread_s option" where
  "of_AND cp = binary_op (\<lambda>vala valb. do { assert_opt (vsize vala = vsize valb); Some (v4_and vala valb) })"

definition of_NAND :: "vvp_code \<Rightarrow> vthread_s \<Rightarrow> vthread_s option" where
  "of_NAND cp = binary_op (\<lambda>vall valr. do { assert_opt (vsize vall = vsize valr); Some (invert (v4_and vall valr)) })"

text \<open>\<^verbatim>\<open>%or\<close> has no assertion on the sizes. With a short and a long operand it would use words as
  pointers or pointers as words, and a right operand of fewer words is read beyond its end.\<close>

definition of_OR :: "vvp_code \<Rightarrow> vthread_s \<Rightarrow> vthread_s option" where
  "of_OR cp = binary_op (\<lambda>vala valb. do {
     assert_opt ((vsize vala > 64 \<longleftrightarrow> vsize valb > 64) \<and> stored_words (vsize vala) \<le> stored_words (vsize valb));
     Some (v4_or vala valb) })"

definition of_NOR :: "vvp_code \<Rightarrow> vthread_s \<Rightarrow> vthread_s option" where
  "of_NOR cp = binary_op (\<lambda>vall valr. do { assert_opt (vsize vall = vsize valr); Some (invert (v4_or vall valr)) })"

definition of_XOR :: "vvp_code \<Rightarrow> vthread_s \<Rightarrow> vthread_s option" where
  "of_XOR cp = binary_op (\<lambda>vall valr. do { assert_opt (vsize vall = vsize valr); Some (v4_xor vall valr) })"

definition of_XNOR :: "vvp_code \<Rightarrow> vthread_s \<Rightarrow> vthread_s option" where
  "of_XNOR cp = binary_op (\<lambda>vall valr. do { assert_opt (vsize vall = vsize valr); Some (invert (v4_xor vall valr)) })"

definition of_INV :: "vvp_code \<Rightarrow> vthread_s \<Rightarrow> vthread_s option" where
  "of_INV cp = unary_op (\<lambda>val. Some (invert val))"

definition of_ADD :: "vvp_code \<Rightarrow> vthread_s \<Rightarrow> vthread_s option" where
  "of_ADD cp = binary_op v4_add"

definition of_SUB :: "vvp_code \<Rightarrow> vthread_s \<Rightarrow> vthread_s option" where
  "of_SUB cp = binary_op v4_sub"

definition of_MUL :: "vvp_code \<Rightarrow> vthread_s \<Rightarrow> vthread_s option" where
  "of_MUL cp = binary_op v4_mul"

definition of_ADDI :: "vvp_code \<Rightarrow> vthread_s \<Rightarrow> vthread_s option" where
  "of_ADDI cp = unary_op (\<lambda>l. do { r \<leftarrow> immediate_vec4 cp; v4_add l r })"

definition of_SUBI :: "vvp_code \<Rightarrow> vthread_s \<Rightarrow> vthread_s option" where
  "of_SUBI cp = unary_op (\<lambda>l. do { r \<leftarrow> immediate_vec4 cp; v4_sub l r })"

definition of_MULI :: "vvp_code \<Rightarrow> vthread_s \<Rightarrow> vthread_s option" where
  "of_MULI cp = unary_op (\<lambda>l. do { r \<leftarrow> immediate_vec4 cp; v4_mul l r })"

section \<open>Reductions and conversions\<close>

definition of_ANDR :: "vvp_code \<Rightarrow> vthread_s \<Rightarrow> vthread_s option" where
  "of_ANDR cp = unary_op (\<lambda>val. Some (vector4_fill 1 (reduce_and val)))"

definition of_NANDR :: "vvp_code \<Rightarrow> vthread_s \<Rightarrow> vthread_s option" where
  "of_NANDR cp = unary_op (\<lambda>val. Some (vector4_fill 1 (bit4_not (reduce_and val))))"

definition of_ORR :: "vvp_code \<Rightarrow> vthread_s \<Rightarrow> vthread_s option" where
  "of_ORR cp = unary_op (\<lambda>val. Some (vector4_fill 1 (reduce_or val)))"

definition of_NORR :: "vvp_code \<Rightarrow> vthread_s \<Rightarrow> vthread_s option" where
  "of_NORR cp = unary_op (\<lambda>val. Some (vector4_fill 1 (bit4_not (reduce_or val))))"

definition of_XORR :: "vvp_code \<Rightarrow> vthread_s \<Rightarrow> vthread_s option" where
  "of_XORR cp = unary_op (\<lambda>val. Some (vector4_fill 1 (reduce_xor val)))"

definition of_XNORR :: "vvp_code \<Rightarrow> vthread_s \<Rightarrow> vthread_s option" where
  "of_XNORR cp = unary_op (\<lambda>val. Some (vector4_fill 1 (bit4_not (reduce_xor val))))"

text \<open>The loops that edit a vector bit by bit.\<close>

fun edit_bits :: "(nat \<Rightarrow> vvp_bit4 option) \<Rightarrow> nat \<Rightarrow> nat \<Rightarrow> vvp_vector4 \<Rightarrow> vvp_vector4 option" where
  "edit_bits f idx 0 v = Some v"
| "edit_bits f idx (Suc k) v =
     (case f idx of
        None \<Rightarrow> edit_bits f (Suc idx) k v
      | Some b \<Rightarrow> (case v4_set_bit v idx b of None \<Rightarrow> None | Some v' \<Rightarrow> edit_bits f (Suc idx) k v'))"

definition of_BLEND :: "vvp_code \<Rightarrow> vthread_s \<Rightarrow> vthread_s option" where
  "of_BLEND cp thr = do {
     (vala, thr) \<leftarrow> pop_vec4 thr;
     (valb, thr) \<leftarrow> pop_vec4 thr;
     assert_opt (vsize vala = vsize valb);
     res \<leftarrow> edit_bits (\<lambda>idx. if v4_value vala idx = v4_value valb idx then None else Some BIT4_X)
              0 (vsize vala) vala;
     Some (push_vec4 res thr) }"

definition of_CAST2 :: "vvp_code \<Rightarrow> vthread_s \<Rightarrow> vthread_s option" where
  "of_CAST2 cp = unary_op (\<lambda>val.
     edit_bits (\<lambda>idx. case v4_value val idx of BIT4_0 \<Rightarrow> None | BIT4_1 \<Rightarrow> None | _ \<Rightarrow> Some BIT4_0)
       0 (vsize val) val)"

section \<open>Sizes and parts\<close>

text \<open>The result of \<open>set_vec\<close> is not used here.\<close>

definition put_vec :: "vvp_vector4 \<Rightarrow> nat \<Rightarrow> vvp_vector4 \<Rightarrow> vvp_vector4 option" where
  "put_vec v adr that = map_option fst (v4_set_vec v adr that)"

text \<open>Sizes are \<^verbatim>\<open>unsigned\<close>: sums and products of them are taken in 32 bits.\<close>

definition u32 :: "nat \<Rightarrow> nat" where
  "u32 n = n mod 2 ^ 32"

definition concat_parts :: "vvp_vector4 \<Rightarrow> vvp_vector4 \<Rightarrow> vvp_vector4 option" where
  "concat_parts msb lsb = do {
     res \<leftarrow> put_vec (vector4_fill (u32 (vsize msb + vsize lsb)) BIT4_X) 0 lsb;
     put_vec res (vsize lsb) msb }"

definition of_CONCAT_VEC4 :: "vvp_code \<Rightarrow> vthread_s \<Rightarrow> vthread_s option" where
  "of_CONCAT_VEC4 cp thr = do {
     lsb \<leftarrow> peek_vec4 0 thr;
     msb \<leftarrow> peek_vec4 1 thr;
     res \<leftarrow> concat_parts msb lsb;
     thr \<leftarrow> pop_vec4_cnt 1 thr;
     poke_vec4 0 res thr }"

definition of_CONCATI_VEC4 :: "vvp_code \<Rightarrow> vthread_s \<Rightarrow> vthread_s option" where
  "of_CONCATI_VEC4 cp = unary_op (\<lambda>msb. do { lsb \<leftarrow> immediate_vec4 cp; concat_parts msb lsb })"

text \<open>\<^verbatim>\<open>int rept\<close>: a count whose bit 31 is set makes no turn of the loop.\<close>

fun replicate_loop :: "nat \<Rightarrow> nat \<Rightarrow> vvp_vector4 \<Rightarrow> vvp_vector4 \<Rightarrow> vvp_vector4 option" where
  "replicate_loop idx 0 val res = Some res"
| "replicate_loop idx (Suc k) val res =
     (case put_vec res (u32 (idx * vsize val)) val of
        None \<Rightarrow> None | Some res' \<Rightarrow> replicate_loop (Suc idx) k val res')"

definition of_REPLICATE :: "vvp_code \<Rightarrow> vthread_s \<Rightarrow> vthread_s option" where
  "of_REPLICATE cp thr = do {
     let rept = cp_wid cp;
     (val, thr) \<leftarrow> pop_vec4 thr;
     res \<leftarrow> replicate_loop 0 (if rept < 2 ^ 31 then rept else 0) val
              (vector4_fill (u32 (vsize val * rept)) BIT4_X);
     Some (push_vec4 res thr) }"

definition of_SPLIT_VEC4 :: "vvp_code \<Rightarrow> vthread_s \<Rightarrow> vthread_s option" where
  "of_SPLIT_VEC4 cp thr = do {
     let lsb_wid = cp_wid cp;
     val \<leftarrow> peek_vec4 0 thr;
     assert_opt (lsb_wid < vsize val);
     lsb \<leftarrow> v4_subvalue val 0 lsb_wid;
     msb \<leftarrow> v4_subvalue val lsb_wid (vsize val - lsb_wid);
     thr \<leftarrow> poke_vec4 0 msb thr;
     Some (push_vec4 lsb thr) }"

text \<open>\<open>val.resize(wid)\<close> pads with the default bit x, and \<open>value(old_size - 1)\<close> of an empty vector is
  x as well, the index being beyond the size.\<close>

definition of_PAD_S :: "vvp_code \<Rightarrow> vthread_s \<Rightarrow> vthread_s option" where
  "of_PAD_S cp = unary_op (\<lambda>val.
     Some (if vsize val < cp_wid cp
           then v4_resize val (cp_wid cp) (if vsize val = 0 then BIT4_X else v4_value val (vsize val - 1))
           else v4_resize val (cp_wid cp) BIT4_X))"

definition of_PAD_U :: "vvp_code \<Rightarrow> vthread_s \<Rightarrow> vthread_s option" where
  "of_PAD_U cp = unary_op (\<lambda>val. Some (v4_resize val (cp_wid cp) BIT4_0))"

end
