(* ===== verification/Vthread_Ops.thy ===== *)
theory Vthread_Ops
  imports Vthread
begin

text \<open>
  The instructions of \<^verbatim>\<open>vvp/vthread.cc\<close> that write the flags of a thread: the comparisons of the
  vectors on top of the stack, with each other or with an immediate operand, and the flag moves.
\<close>

unbundle bit_operations_syntax

section \<open>Comparisons\<close>

text \<open>The bitwise comparison of \<open>do_CMPE\<close> and \<open>of_CMPU_the_hard_way\<close>, on \<open>k\<close> bits from \<open>idx\<close>: the results
  for == and ===. The loop ends when the first one is zero.\<close>

fun cmp_bits :: "(nat \<Rightarrow> vvp_bit4) \<Rightarrow> (nat \<Rightarrow> vvp_bit4) \<Rightarrow> nat \<Rightarrow> nat \<Rightarrow> vvp_bit4 \<Rightarrow> vvp_bit4 \<Rightarrow> vvp_bit4 \<times> vvp_bit4" where
  "cmp_bits lval rval idx 0 eq eeq' = (eq, eeq')"
| "cmp_bits lval rval idx (Suc k) eq eeq' =
     (let lv = lval idx; rv = rval idx;
          eeq' = (if lv \<noteq> rv then BIT4_0 else eeq');
          eq = (if eq = BIT4_1 \<and> (bit4_is_xz lv \<or> bit4_is_xz rv) then BIT4_X else eq);
          eq = (if lv = BIT4_0 \<and> rv = BIT4_1 then BIT4_0 else eq);
          eq = (if lv = BIT4_1 \<and> rv = BIT4_0 then BIT4_0 else eq)
      in if eq = BIT4_0 then (eq, eeq') else cmp_bits lval rval (Suc idx) k eq eeq')"

definition do_CMPE :: "vvp_vector4 \<Rightarrow> vvp_vector4 \<Rightarrow> vthread_s \<Rightarrow> vthread_s option" where
  "do_CMPE lval rval thr = do {
     assert_opt (vsize rval = vsize lval);
     lx \<leftarrow> has_xz lval;
     rx \<leftarrow> (if lx then Some False else has_xz rval);
     (if lx \<or> rx
      then (case cmp_bits (v4_value lval) (v4_value rval) 0 (vsize lval) BIT4_1 BIT4_1 of
              (eq, eeq') \<Rightarrow> Some (set_flag 6 eeq' (set_flag 4 eq thr)))
      else let r = (if eeq lval rval then BIT4_1 else BIT4_0) in Some (set_flag 4 r (set_flag 6 r thr))) }"

definition do_CMPS :: "vvp_vector4 \<Rightarrow> vvp_vector4 \<Rightarrow> vthread_s \<Rightarrow> vthread_s option" where
  "do_CMPS lval rval thr = do {
     assert_opt (vsize rval = vsize lval);
     lx \<leftarrow> has_xz lval;
     rx \<leftarrow> (if lx then Some False else has_xz rval);
     let result = (\<lambda>eq lt eeq'. Some (set_flag 6 eeq' (set_flag 5 lt (set_flag 4 eq thr))));
     let wid = vsize lval;
     let sig1 = v4_value lval (wid - 1);
     let sig2 = v4_value rval (wid - 1);
     (if lx \<or> rx then result BIT4_X BIT4_X (if eeq lval rval then BIT4_1 else BIT4_0)
      else if sig1 = BIT4_1 \<and> sig2 = BIT4_0 then result BIT4_0 BIT4_1 BIT4_0
      else if sig1 = BIT4_0 \<and> sig2 = BIT4_1 then result BIT4_0 BIT4_0 BIT4_0
      else case find (\<lambda>idx. v4_value lval (wid - 1 - idx) \<noteq> v4_value rval (wid - 1 - idx)) [1..<wid] of
             Some idx \<Rightarrow> result BIT4_0 (if v4_value lval (wid - 1 - idx) = BIT4_0 then BIT4_1 else BIT4_0) BIT4_0
           | None \<Rightarrow> result BIT4_1 BIT4_0 BIT4_1) }"

definition of_CMPU_the_hard_way :: "nat \<Rightarrow> vvp_vector4 \<Rightarrow> vvp_vector4 \<Rightarrow> vthread_s \<Rightarrow> vthread_s" where
  "of_CMPU_the_hard_way wid lval rval thr =
     (case cmp_bits (v4_value lval) (v4_value rval) 0 wid BIT4_1 BIT4_1 of
        (eq, eeq') \<Rightarrow> set_flag 6 eeq' (set_flag 5 BIT4_X (set_flag 4 eq thr)))"

text \<open>The words are compared from the low one to the high one; a later difference overrides.\<close>

fun cmpu_words :: "64 word list \<Rightarrow> 64 word list \<Rightarrow> vvp_bit4 \<Rightarrow> vvp_bit4 \<Rightarrow> vvp_bit4 \<times> vvp_bit4" where
  "cmpu_words (l # ls) (r # rs) eq lt =
     (if l = r then cmpu_words ls rs eq lt
      else cmpu_words ls rs BIT4_0 (if l < r then BIT4_1 else BIT4_0))"
| "cmpu_words _ _ eq lt = (eq, lt)"

definition do_CMPU :: "vvp_vector4 \<Rightarrow> vvp_vector4 \<Rightarrow> vthread_s \<Rightarrow> vthread_s option" where
  "do_CMPU lval rval thr = do {
     assert_opt (vsize rval = vsize lval);
     let wid = vsize lval;
     larray \<leftarrow> v4_subarray lval 0 wid False;
     (case larray of
        None \<Rightarrow> Some (of_CMPU_the_hard_way wid lval rval thr)
      | Some ls \<Rightarrow> do {
          rarray \<leftarrow> v4_subarray rval 0 wid False;
          (case rarray of
             None \<Rightarrow> Some (of_CMPU_the_hard_way wid lval rval thr)
           | Some rs \<Rightarrow> (case cmpu_words ls rs BIT4_1 BIT4_0 of
               (eq, lt) \<Rightarrow> Some (set_flag 6 eq (set_flag 5 lt (set_flag 4 eq thr))))) }) }"

fun cmpwe_bits :: "(nat \<Rightarrow> vvp_bit4) \<Rightarrow> (nat \<Rightarrow> vvp_bit4) \<Rightarrow> nat \<Rightarrow> nat \<Rightarrow> vvp_bit4 \<Rightarrow> vvp_bit4" where
  "cmpwe_bits lval rval idx 0 eq = eq"
| "cmpwe_bits lval rval idx (Suc k) eq =
     (let lv = lval idx; rv = rval idx
      in if bit4_is_xz rv then cmpwe_bits lval rval (Suc idx) k eq
         else let eq = (if eq = BIT4_1 \<and> bit4_is_xz lv then BIT4_X else eq);
                  eq = (if lv = BIT4_0 \<and> rv = BIT4_1 then BIT4_0 else eq);
                  eq = (if lv = BIT4_1 \<and> rv = BIT4_0 then BIT4_0 else eq)
              in if eq = BIT4_0 then eq else cmpwe_bits lval rval (Suc idx) k eq)"

definition do_CMPWE :: "vvp_vector4 \<Rightarrow> vvp_vector4 \<Rightarrow> vthread_s \<Rightarrow> vthread_s option" where
  "do_CMPWE lval rval thr = do {
     assert_opt (vsize rval = vsize lval);
     lx \<leftarrow> has_xz lval;
     rx \<leftarrow> (if lx then Some False else has_xz rval);
     Some (set_flag 4 (if lx \<or> rx then cmpwe_bits (v4_value lval) (v4_value rval) 0 (vsize lval) BIT4_1
                       else if eeq lval rval then BIT4_1 else BIT4_0) thr) }"

text \<open>The two operands stay on the stack during the comparison and are popped after it.\<close>

definition compare_op :: "(vvp_vector4 \<Rightarrow> vvp_vector4 \<Rightarrow> vthread_s \<Rightarrow> vthread_s option) \<Rightarrow> vthread_s \<Rightarrow> vthread_s option" where
  "compare_op f thr = do {
     rval \<leftarrow> peek_vec4 0 thr;
     lval \<leftarrow> peek_vec4 1 thr;
     thr \<leftarrow> f lval rval thr;
     pop_vec4_cnt 2 thr }"

definition compare_imm :: "(vvp_vector4 \<Rightarrow> vvp_vector4 \<Rightarrow> vthread_s \<Rightarrow> vthread_s option) \<Rightarrow> vvp_code \<Rightarrow> vthread_s \<Rightarrow> vthread_s option" where
  "compare_imm f cp thr = do {
     lval \<leftarrow> peek_vec4 0 thr;
     rval \<leftarrow> immediate_vec4 cp;
     thr \<leftarrow> f lval rval thr;
     pop_vec4_cnt 1 thr }"

definition invert_flag :: "nat \<Rightarrow> vthread_s \<Rightarrow> vthread_s" where
  "invert_flag i thr = set_flag i (bit4_not (flags thr ! i)) thr"

definition do_CMPNE :: "vvp_vector4 \<Rightarrow> vvp_vector4 \<Rightarrow> vthread_s \<Rightarrow> vthread_s option" where
  "do_CMPNE lval rval thr = map_option (invert_flag 6 \<circ> invert_flag 4) (do_CMPE lval rval thr)"

definition of_CMPE :: "vvp_code \<Rightarrow> vthread_s \<Rightarrow> vthread_s option" where
  "of_CMPE cp = compare_op do_CMPE"

definition of_CMPNE :: "vvp_code \<Rightarrow> vthread_s \<Rightarrow> vthread_s option" where
  "of_CMPNE cp = compare_op do_CMPNE"

definition of_CMPIE :: "vvp_code \<Rightarrow> vthread_s \<Rightarrow> vthread_s option" where
  "of_CMPIE = compare_imm do_CMPE"

definition of_CMPINE :: "vvp_code \<Rightarrow> vthread_s \<Rightarrow> vthread_s option" where
  "of_CMPINE = compare_imm do_CMPNE"

definition of_CMPS :: "vvp_code \<Rightarrow> vthread_s \<Rightarrow> vthread_s option" where
  "of_CMPS cp = compare_op do_CMPS"

definition of_CMPIS :: "vvp_code \<Rightarrow> vthread_s \<Rightarrow> vthread_s option" where
  "of_CMPIS = compare_imm do_CMPS"

definition of_CMPU :: "vvp_code \<Rightarrow> vthread_s \<Rightarrow> vthread_s option" where
  "of_CMPU cp = compare_op do_CMPU"

definition of_CMPIU :: "vvp_code \<Rightarrow> vthread_s \<Rightarrow> vthread_s option" where
  "of_CMPIU = compare_imm do_CMPU"

definition of_CMPWE :: "vvp_code \<Rightarrow> vthread_s \<Rightarrow> vthread_s option" where
  "of_CMPWE cp = compare_op do_CMPWE"

definition of_CMPWNE :: "vvp_code \<Rightarrow> vthread_s \<Rightarrow> vthread_s option" where
  "of_CMPWNE cp = compare_op (\<lambda>lval rval thr. map_option (invert_flag 4) (do_CMPWE lval rval thr))"

text \<open>\<^verbatim>\<open>%cmp/x\<close> and \<^verbatim>\<open>%cmp/z\<close> pop first and set flag 4 only.\<close>

definition wild_op :: "(vvp_bit4 \<Rightarrow> vvp_bit4 \<Rightarrow> bool) \<Rightarrow> vthread_s \<Rightarrow> vthread_s option" where
  "wild_op differ thr = do {
     (rval, thr) \<leftarrow> pop_vec4 thr;
     (lval, thr) \<leftarrow> pop_vec4 thr;
     assert_opt (vsize rval = vsize lval);
     Some (set_flag 4 (if list_ex (\<lambda>idx. differ (v4_value lval idx) (v4_value rval idx)) [0..<vsize lval]
                       then BIT4_0 else BIT4_1) thr) }"

definition of_CMPX :: "vvp_code \<Rightarrow> vthread_s \<Rightarrow> vthread_s option" where
  "of_CMPX cp = wild_op (\<lambda>lv rv. lv \<noteq> rv \<and> \<not> bit4_is_xz lv \<and> \<not> bit4_is_xz rv)"

definition of_CMPZ :: "vvp_code \<Rightarrow> vthread_s \<Rightarrow> vthread_s option" where
  "of_CMPZ cp = wild_op (\<lambda>lv rv. lv \<noteq> rv \<and> rv \<noteq> BIT4_Z \<and> lv \<noteq> BIT4_Z)"

section \<open>Flags\<close>

definition of_FLAG_GET_VEC4 :: "vvp_code \<Rightarrow> vthread_s \<Rightarrow> vthread_s option" where
  "of_FLAG_GET_VEC4 cp thr = do { b \<leftarrow> get_flag (cp_wid cp) thr; Some (push_vec4 (vector4_fill 1 b) thr) }"

definition of_FLAG_INV :: "vvp_code \<Rightarrow> vthread_s \<Rightarrow> vthread_s option" where
  "of_FLAG_INV cp thr = do {
     let flag1 = unat (cp_bit_idx0 cp);
     b \<leftarrow> get_flag flag1 thr;
     Some (set_flag flag1 (bit4_not b) thr) }"

definition of_FLAG_MOV :: "vvp_code \<Rightarrow> vthread_s \<Rightarrow> vthread_s option" where
  "of_FLAG_MOV cp thr = do {
     let flag1 = unat (cp_bit_idx0 cp);
     assert_opt (flag1 < FLAGS_COUNT);
     b \<leftarrow> get_flag (unat (cp_bit_idx1 cp)) thr;
     Some (set_flag flag1 b thr) }"

definition of_FLAG_OR :: "vvp_code \<Rightarrow> vthread_s \<Rightarrow> vthread_s option" where
  "of_FLAG_OR cp thr = do {
     let flag1 = unat (cp_bit_idx0 cp);
     a \<leftarrow> get_flag flag1 thr;
     b \<leftarrow> get_flag (unat (cp_bit_idx1 cp)) thr;
     Some (set_flag flag1 (bit4_or a b) thr) }"

definition of_FLAG_SET_IMM :: "vvp_code \<Rightarrow> vthread_s \<Rightarrow> vthread_s option" where
  "of_FLAG_SET_IMM cp thr = do {
     let vali = unat (cp_bit_idx0 cp);
     assert_opt (cp_wid cp < FLAGS_COUNT);
     assert_opt (vali < 4);
     Some (set_flag (cp_wid cp) ([BIT4_0, BIT4_1, BIT4_Z, BIT4_X] ! vali) thr) }"

definition of_FLAG_SET_VEC4 :: "vvp_code \<Rightarrow> vthread_s \<Rightarrow> vthread_s option" where
  "of_FLAG_SET_VEC4 cp thr = do {
     assert_opt (cp_wid cp < FLAGS_COUNT);
     val \<leftarrow> peek_vec4 0 thr;
     pop_vec4_cnt 1 (set_flag (cp_wid cp) (v4_value val 0) thr) }"

end
