(* ===== verification/Vthread_Index.thy ===== *)
theory Vthread_Index
  imports Vthread_Ops
begin

text \<open>
  Index registers, shifts and part selects of the vector stack machine (\<^verbatim>\<open>vvp/vthread.cc\<close>), with the
  conversion of a vector into a native integer that they need (\<open>vector4_to_value\<close> of
  \<^verbatim>\<open>vvp/vvp_net.cc\<close>).
\<close>

unbundle bit_operations_syntax

section \<open>Vectors as native integers\<close>

text \<open>The template \<^verbatim>\<open>vector4_to_value<INT>\<close> for an integer type of \<open>LENGTH('w)\<close> bits. The result is the
  value written to the reference, if one is, and the return value.\<close>

fun value_loop :: "bool \<Rightarrow> (nat \<Rightarrow> vvp_bit4) \<Rightarrow> nat \<Rightarrow> nat \<Rightarrow> 'w::len word \<Rightarrow> bool \<Rightarrow> ('w word \<times> bool) option" where
  "value_loop arith vec idx 0 res rc = Some (res, rc)"
| "value_loop arith vec idx (Suc k) res rc =
     (case vec idx of
        BIT4_0 \<Rightarrow> value_loop arith vec (Suc idx) k res rc
      | BIT4_1 \<Rightarrow> value_loop arith vec (Suc idx) k (res OR push_bit idx 1) rc
      | _ \<Rightarrow> if arith then None else value_loop arith vec (Suc idx) k res False)"

definition vector4_to_value :: "vvp_vector4 \<Rightarrow> bool \<Rightarrow> bool \<Rightarrow> ('w::len word \<times> bool) option" where
  "vector4_to_value vec is_signed is_arithmetic =
     (case value_loop is_arithmetic (v4_value vec) 0 (min (vsize vec) LENGTH('w)) 0 True of
        None \<Rightarrow> None
      | Some (res, rc) \<Rightarrow>
          Some (if is_signed \<and> 0 < vsize vec \<and> v4_value vec (vsize vec - 1) = BIT4_1 \<and> vsize vec < LENGTH('w)
                then res OR push_bit (vsize vec) (- 1) else res, rc))"

section \<open>Index registers\<close>

definition get_as_64_bit :: "32 word \<Rightarrow> 32 word \<Rightarrow> 64 word" where
  "get_as_64_bit low_32 high_32 = push_bit 32 (ucast high_32) OR ucast low_32"

definition ix_immediate :: "vvp_code \<Rightarrow> 64 word" where
  "ix_immediate cp = get_as_64_bit (cp_bit_idx0 cp) (cp_bit_idx1 cp)"

text \<open>The registers are signed here; a sum, difference or product that does not fit in 64 bits is
  undefined in C++.\<close>

definition ix_arith :: "(int \<Rightarrow> int \<Rightarrow> int) \<Rightarrow> vvp_code \<Rightarrow> vthread_s \<Rightarrow> vthread_s option" where
  "ix_arith f cp thr = do {
     let idx = unat (cp_number cp);
     w \<leftarrow> get_word idx thr;
     let r = f (sint w) (sint (ix_immediate cp));
     assert_opt (in_signed 64 r);
     set_word idx (word_of_int r) thr }"

definition of_IX_ADD :: "vvp_code \<Rightarrow> vthread_s \<Rightarrow> vthread_s option" where
  "of_IX_ADD = ix_arith (+)"

definition of_IX_SUB :: "vvp_code \<Rightarrow> vthread_s \<Rightarrow> vthread_s option" where
  "of_IX_SUB = ix_arith (-)"

definition of_IX_MUL :: "vvp_code \<Rightarrow> vthread_s \<Rightarrow> vthread_s option" where
  "of_IX_MUL = ix_arith (*)"

definition of_IX_LOAD :: "vvp_code \<Rightarrow> vthread_s \<Rightarrow> vthread_s option" where
  "of_IX_LOAD cp thr = set_word (unat (cp_number cp)) (ix_immediate cp) thr"

definition of_IX_MOV :: "vvp_code \<Rightarrow> vthread_s \<Rightarrow> vthread_s option" where
  "of_IX_MOV cp thr = do {
     w \<leftarrow> get_word (unat (cp_bit_idx1 cp)) thr;
     set_word (unat (cp_bit_idx0 cp)) w thr }"

definition of_CMPIX_SLT0 :: "vvp_code \<Rightarrow> vthread_s \<Rightarrow> vthread_s option" where
  "of_CMPIX_SLT0 cp thr = do {
     w \<leftarrow> get_word (cp_wid cp) thr;
     Some (set_flag 4 (if sint w < 0 then BIT4_1 else BIT4_0) thr) }"

text \<open>The words of the value beyond the first one are only tested: the loop leaves at the first of
  them that the index register cannot stand for, with flag 4 unknown.\<close>

definition index_overflow :: "bool \<Rightarrow> 64 word \<Rightarrow> 64 word \<Rightarrow> bool" where
  "index_overflow signed_flag v tmp \<longleftrightarrow> (if signed_flag \<and> bit v 63 then NOT tmp \<noteq> 0 else tmp \<noteq> 0)"

definition extend_index :: "bool \<Rightarrow> nat \<Rightarrow> 64 word \<Rightarrow> 64 word" where
  "extend_index signed_flag val_size v =
     (if val_size < 64
      then if signed_flag \<and> v AND push_bit (val_size - 1) 1 \<noteq> 0 then v OR push_bit val_size (- 1)
           else v AND NOT (push_bit val_size (- 1))
      else v)"

definition vec4_to_index :: "bool \<Rightarrow> vthread_s \<Rightarrow> (64 word \<times> vthread_s) option" where
  "vec4_to_index signed_flag thr = do {
     val \<leftarrow> peek_vec4 0 thr;
     bits \<leftarrow> v4_subarray val 0 (vsize val) False;
     thr \<leftarrow> pop_vec4_cnt 1 thr;
     (case bits of
        None \<Rightarrow> Some (0, set_flag 4 BIT4_1 thr)
      | Some ws \<Rightarrow>
          let v = hd ws; over = list_ex (index_overflow signed_flag v) (tl ws)
          in Some (extend_index signed_flag (vsize val) v, set_flag 4 (if over then BIT4_X else BIT4_0) thr)) }"

definition of_IX_VEC4 :: "vvp_code \<Rightarrow> vthread_s \<Rightarrow> vthread_s option" where
  "of_IX_VEC4 cp thr = do { (v, thr) \<leftarrow> vec4_to_index False thr; set_word (cp_wid cp) v thr }"

definition of_IX_VEC4_S :: "vvp_code \<Rightarrow> vthread_s \<Rightarrow> vthread_s option" where
  "of_IX_VEC4_S cp thr = do { (v, thr) \<leftarrow> vec4_to_index True thr; set_word (cp_wid cp) v thr }"

definition of_PUSH_IX_VEC4 :: "vvp_code \<Rightarrow> vthread_s \<Rightarrow> vthread_s option" where
  "of_PUSH_IX_VEC4 cp thr = do {
     w \<leftarrow> get_word (cp_wid cp) thr;
     let ubits = (ucast w :: 32 word);
     let wid = min (unat (cp_bit_idx0 cp)) 32;
     tmp \<leftarrow> edit_bits (\<lambda>idx. Some (if bit ubits idx then BIT4_1 else BIT4_0)) 0 wid (vector4_fill wid BIT4_0);
     Some (push_vec4 tmp thr) }"

section \<open>Shifts\<close>

definition of_SHIFTL :: "vvp_code \<Rightarrow> vthread_s \<Rightarrow> vthread_s option" where
  "of_SHIFTL cp thr = do {
     w \<leftarrow> get_word (cp_wid cp) thr;
     let shift = unat w;
     val \<leftarrow> peek_vec4 0 thr;
     let wid = vsize val;
     res \<leftarrow> (if flags thr ! 4 = BIT4_1 then Some (vector4_fill wid BIT4_X)
             else if flags thr ! 4 = BIT4_X \<or> shift \<ge> wid then Some (vector4_fill wid BIT4_0)
             else if shift > 0 then do {
               blk \<leftarrow> v4_subvalue val 0 (wid - shift);
               val \<leftarrow> put_vec val 0 (vector4_fill shift BIT4_0);
               put_vec val shift blk }
             else Some val);
     poke_vec4 0 res thr }"

definition shift_right :: "vvp_bit4 \<Rightarrow> nat \<Rightarrow> vvp_bit4 \<Rightarrow> vvp_vector4 \<Rightarrow> vvp_vector4 option" where
  "shift_right flag4 shift fill val =
     (let wid = vsize val
      in if flag4 = BIT4_1 then Some (vector4_fill wid BIT4_X)
         else if flag4 = BIT4_X \<or> shift > wid then Some (vector4_fill wid fill)
         else if shift > 0 then do {
           blk \<leftarrow> v4_subvalue val shift (wid - shift);
           val \<leftarrow> put_vec val 0 blk;
           put_vec val (wid - shift) (vector4_fill shift fill) }
         else Some val)"

definition of_SHIFTR :: "vvp_code \<Rightarrow> vthread_s \<Rightarrow> vthread_s option" where
  "of_SHIFTR cp thr = do {
     w \<leftarrow> get_word (cp_wid cp) thr;
     (val, thr) \<leftarrow> pop_vec4 thr;
     res \<leftarrow> shift_right (flags thr ! 4) (unat w) BIT4_0 val;
     Some (push_vec4 res thr) }"

definition of_SHIFTR_S :: "vvp_code \<Rightarrow> vthread_s \<Rightarrow> vthread_s option" where
  "of_SHIFTR_S cp thr = do {
     w \<leftarrow> get_word (cp_wid cp) thr;
     (val, thr) \<leftarrow> pop_vec4 thr;
     let sign_bit = (if vsize val = 0 then BIT4_X else v4_value val (vsize val - 1));
     res \<leftarrow> shift_right (flags thr ! 4) (unat w) sign_bit val;
     Some (push_vec4 res thr) }"

section \<open>Part selects\<close>

text \<open>The common end of \<open>of_PART_base\<close> and \<open>of_PARTI_base\<close>: the window of \<open>wid\<close> bits from a base that
  may be negative, clipped to the value. The sum \<^verbatim>\<open>base+(int)wid\<close> is signed and must fit.\<close>

definition part_window :: "nat \<Rightarrow> int \<Rightarrow> vvp_vector4 \<Rightarrow> vvp_vector4 option" where
  "part_window wid base val =
     (let res = vector4_fill wid BIT4_X; iwid = sint (of_nat wid :: 32 word)
      in if base \<ge> sint (of_nat (vsize val) :: 32 word) then Some res
         else if \<not> in_signed 32 (base + iwid) then None
         else if base + iwid \<le> 0 then Some res
         else let vbase = (if base < 0 then nat (- base) else 0);
                  wid' = wid - vbase;
                  base' = nat (max base 0);
                  wid'' = (if base' + wid' > vsize val then vsize val - base' else wid')
              in do { part \<leftarrow> v4_subvalue val base' wid''; put_vec res vbase part })"

definition of_PART_base :: "bool \<Rightarrow> vvp_code \<Rightarrow> vthread_s \<Rightarrow> vthread_s option" where
  "of_PART_base signed_flag cp thr = do {
     let wid = cp_wid cp;
     (base4, thr) \<leftarrow> pop_vec4 thr;
     val \<leftarrow> peek_vec4 0 thr;
     res \<leftarrow> (case (vector4_to_value base4 signed_flag True :: (32 word \<times> bool) option) of
               Some (base, True) \<Rightarrow> part_window wid (sint base) val
             | _ \<Rightarrow> Some (vector4_fill wid BIT4_X));
     poke_vec4 0 res thr }"

definition of_PART_S :: "vvp_code \<Rightarrow> vthread_s \<Rightarrow> vthread_s option" where
  "of_PART_S = of_PART_base True"

definition of_PART_U :: "vvp_code \<Rightarrow> vthread_s \<Rightarrow> vthread_s option" where
  "of_PART_U = of_PART_base False"

text \<open>With a base width of zero the test of the sign bit would shift by a negative amount.\<close>

definition parti_use_base :: "bool \<Rightarrow> vvp_code \<Rightarrow> int option" where
  "parti_use_base signed_flag cp =
     (let base = cp_bit_idx0 cp; bwid = unat (cp_bit_idx1 cp)
      in if signed_flag \<and> bwid = 0 then None
         else Some (sint (if signed_flag \<and> bwid < 32 \<and> bit base (bwid - 1) then base OR push_bit bwid (- 1) else base)))"

definition of_PARTI_base :: "bool \<Rightarrow> vvp_code \<Rightarrow> vthread_s \<Rightarrow> vthread_s option" where
  "of_PARTI_base signed_flag cp thr = do {
     val \<leftarrow> peek_vec4 0 thr;
     use_base \<leftarrow> parti_use_base signed_flag cp;
     res \<leftarrow> part_window (cp_wid cp) use_base val;
     poke_vec4 0 res thr }"

definition of_PARTI_S :: "vvp_code \<Rightarrow> vthread_s \<Rightarrow> vthread_s option" where
  "of_PARTI_S = of_PARTI_base True"

definition of_PARTI_U :: "vvp_code \<Rightarrow> vthread_s \<Rightarrow> vthread_s option" where
  "of_PARTI_U = of_PARTI_base False"

end
