(* ===== verification/Vthread_Stack.thy ===== *)
theory Vthread_Stack
  imports Vthread_Index
begin

text \<open>
  What the instructions of the vector stack machine do to the bits on the stack, one lemma per
  instruction or group of instructions: from a well-formed thread with operands of fitting sizes
  the instruction succeeds, and the lemma gives the new top of the stack and the flags.
\<close>

unbundle bit_operations_syntax

section \<open>Well-formed threads\<close>

definition stackable :: "vvp_vector4 \<Rightarrow> bool" where
  "stackable v \<longleftrightarrow> wf_vec v \<and> 0 < vsize v \<and> vsize v < 2 ^ 31"

definition wf_thread :: "vthread_s \<Rightarrow> bool" where
  "wf_thread thr \<longleftrightarrow> length (flags thr) = FLAGS_COUNT \<and> length (words thr) = WORDS_COUNT \<and>
     list_all stackable (stack_vec4 thr)"

named_theorems stack_simps \<open>the operations on the vector stack, the flags and the words\<close>

lemma stack_ops [stack_simps]:
  "stack_vec4 thr = v # vs \<Longrightarrow> pop_vec4 thr = Some (v, thr\<lparr>stack_vec4 := vs\<rparr>)"
  "stack_vec4 thr = v # vs \<Longrightarrow> peek_vec4 0 thr = Some v"
  "stack_vec4 thr = v # w # vs \<Longrightarrow> peek_vec4 (Suc 0) thr = Some w"
  "stack_vec4 thr = v # vs \<Longrightarrow> poke_vec4 0 x thr = Some (thr\<lparr>stack_vec4 := x # vs\<rparr>)"
  "stack_vec4 thr = v # vs \<Longrightarrow> pop_vec4_cnt (Suc 0) thr = Some (thr\<lparr>stack_vec4 := vs\<rparr>)"
  "stack_vec4 thr = v # w # vs \<Longrightarrow> pop_vec4_cnt 2 thr = Some (thr\<lparr>stack_vec4 := vs\<rparr>)"
  by (simp_all add: pop_vec4_def peek_vec4_def poke_vec4_def pop_vec4_cnt_def)

lemma stackableD: "stackable v \<Longrightarrow> wf_vec v" "stackable v \<Longrightarrow> 0 < vsize v"
  by (simp_all add: stackable_def)

lemma stackable_fill [simp]: "0 < n \<Longrightarrow> n < 2 ^ 31 \<Longrightarrow> stackable (vector4_fill n b)"
  by (simp add: stackable_def vector4_fill_def)

lemma vsize_fill [simp]: "vsize (vector4_fill n b) = n" "wf_vec (vector4_fill n b)"
  by (simp_all add: vector4_fill_def)

section \<open>Immediate operands\<close>

text \<open>Bit \<open>i\<close> of an immediate operand is made of bit \<open>i\<close> of its two 32-bit values.\<close>

definition imm_bits :: "vvp_code \<Rightarrow> vvp_bit4 list" where
  "imm_bits cp = map (\<lambda>i. decode (bit (cp_bit_idx0 cp) i) (bit (cp_bit_idx1 cp) i)) [0..<cp_wid cp]"

lemma imm_bit:
  "bit4_cast (unat (push_bit 1 (valb AND 1) OR (vala AND 1) :: 32 word)) = decode (bit vala 0) (bit valb 0)"
  by (cases "bit vala 0"; cases "bit valb 0") (simp_all add: and_one_eq bit_0 mod_2_eq_odd bit4_cast_def)

lemma imm_bit_zero:
  "push_bit 1 (valb AND 1) OR (vala AND 1) = (0 :: 32 word) \<longleftrightarrow> \<not> bit vala 0 \<and> \<not> bit valb 0"
  by (cases "bit vala 0"; cases "bit valb 0") (simp_all add: and_one_eq bit_0 mod_2_eq_odd)

lemma or_zero_word: "(v :: 32 word) OR w = 0 \<longleftrightarrow> v = 0 \<and> w = 0"
  by (auto simp: bit_eq_iff bit_or_iff)

lemma immediate_loop_ok:
  "\<lbrakk>wf_vec val; vsize val = idx + k; vec_bits val = bs @ replicate k BIT4_0; length bs = idx\<rbrakk> \<Longrightarrow>
   \<exists>val'. immediate_loop idx k vala valb val = Some val' \<and> wf_vec val' \<and>
     vec_bits val' = bs @ map (\<lambda>j. decode (bit vala j) (bit valb j)) [0..<k]"
proof (induction k arbitrary: idx vala valb val bs)
  case 0
  then show ?case by simp
next
  case (Suc k)
  let ?d = "\<lambda>j. decode (bit vala j) (bit valb j)"
  have step: "map ?d [0..<Suc k] = ?d 0 # map (\<lambda>j. decode (bit (drop_bit 1 vala) j) (bit (drop_bit 1 valb) j)) [0..<k]"
    by (rule nth_equalityI) (auto simp: nth_Cons bit_drop_bit_eq simp del: upt_Suc split: nat.split)
  show ?case
  proof (cases "vala OR valb = 0")
    case True
    then have "vala = 0" "valb = 0" by (auto simp: or_zero_word)
    then show ?thesis using Suc.prems by (auto simp: map_replicate_const replicate_append_same simp del: upt_Suc)
  next
    case False
    obtain v1 where v1: "(if push_bit 1 (valb AND 1) OR (vala AND 1) \<noteq> (0 :: 32 word)
          then v4_set_bit val idx (bit4_cast (unat (push_bit 1 (valb AND 1) OR (vala AND 1)))) else Some val) = Some v1"
        "wf_vec v1" "vec_bits v1 = (bs @ [?d 0]) @ replicate k BIT4_0"
    proof (cases "push_bit 1 (valb AND 1) OR (vala AND 1) = (0 :: 32 word)")
      case True
      then have "?d 0 = BIT4_0" unfolding imm_bit_zero by simp
      then show ?thesis using that [of val] Suc.prems True by (simp only: not_True_eq_False if_False) simp
    next
      case False
      obtain v1 where "v4_set_bit val idx (?d 0) = Some v1" "wf_vec v1" "vec_bits v1 = (vec_bits val)[idx := ?d 0]"
        using v4_set_bit_bits [OF Suc.prems(1), of idx "?d 0"] Suc.prems(2) by auto
      then show ?thesis using that [of v1] False Suc.prems by (simp only: imm_bit) (simp add: list_update_append)
    qed
    have "vsize v1 = Suc idx + k" using arg_cong [OF v1(3), of length] Suc.prems(4) by simp
    then obtain val' where v': "immediate_loop (Suc idx) k (drop_bit 1 vala) (drop_bit 1 valb) v1 = Some val'"
        "wf_vec val'" "vec_bits val' = (bs @ [?d 0]) @
           map (\<lambda>j. decode (bit (drop_bit 1 vala) j) (bit (drop_bit 1 valb) j)) [0..<k]"
      using Suc.IH [where vala = "drop_bit 1 vala" and valb = "drop_bit 1 valb", OF v1(2) _ v1(3)] Suc.prems(4) by auto
    have "immediate_loop idx (Suc k) vala valb val = Some val'"
      unfolding immediate_loop.simps Let_def v1(1) using False v'(1) by simp
    then show ?thesis using v'(2,3) unfolding step by (intro exI [of _ val']) simp
  qed
qed

lemma immediate_vec4_ok:
  assumes "0 < cp_wid cp"
  shows "\<exists>val. immediate_vec4 cp = Some val \<and> wf_vec val \<and> vsize val = cp_wid cp \<and> vec_bits val = imm_bits cp"
proof -
  let ?a = "cp_bit_idx0 cp" and ?b = "cp_bit_idx1 cp" and ?n = "cp_wid cp"
  let ?v = "vector4_fill ?n BIT4_0"
  have len: "vec_bits val = imm_bits cp \<Longrightarrow> vsize val = ?n" for val
    by (metis vec_bits_length imm_bits_def length_map length_upt minus_nat.diff_0)
  consider (zero) "?b = 0" "?a = 0" | (plain) "?b = 0" "?a \<noteq> 0" | (four) "?b \<noteq> 0" by blast
  then show ?thesis
  proof cases
    case zero
    then show ?thesis by (simp add: immediate_vec4_def get_immediate_rval_def vector4_fill_bits imm_bits_def map_replicate_const)
  next
    case plain
    define k where "k = (if ?n < 64 then ?n else 64)"
    have k: "k \<le> ?n" "0 < k" "k \<le> 64" "?n \<le> k \<or> k = 64" using assms by (auto simp: k_def)
    then have "word_count k \<le> 1" by (simp add: word_count_def)
    then obtain v where v: "v4_setarray ?v 0 k [ucast ?a] = Some v" "wf_vec v"
        "vec_bits v = map (\<lambda>i. bool_bit (wbit [ucast ?a :: 64 word] i)) [0..<k] @ replicate (?n - k) BIT4_0"
      using v4_setarray_bits [of ?v 0 k "[ucast ?a]"] k by (auto simp: vector4_fill_bits)
    have "vec_bits v = imm_bits cp"
    proof (rule nth_equalityI)
      fix i assume "i < length (vec_bits v)"
      then have i: "i < ?n" using v(3) k by simp
      have "wbit [ucast ?a :: 64 word] i = bit ?a i" if "i < 64" using that by (auto simp: wbit_def bit_ucast_iff dest: bit_imp_le_length)
      moreover have "\<not> bit ?a i" if "\<not> i < 64" using that by (auto dest: bit_imp_le_length)
      ultimately show "vec_bits v ! i = imm_bits cp ! i"
        using i plain k unfolding v(3) imm_bits_def by (auto simp: nth_append bool_bit_def)
    qed (use k in \<open>simp add: v(3) imm_bits_def\<close>)
    then show ?thesis using v plain len by (simp add: immediate_vec4_def get_immediate_rval_def Let_def k_def)
  next
    case four
    then show ?thesis using immediate_loop_ok [of ?v 0 ?n "[]" ?a ?b] len
      by (auto simp: immediate_vec4_def get_immediate_rval_def vector4_fill_bits imm_bits_def Let_def)
  qed
qed

section \<open>Editing bit by bit\<close>

lemma edit_bits_ok:
  "\<lbrakk>wf_vec v; vsize v = idx + k\<rbrakk> \<Longrightarrow>
   \<exists>v'. edit_bits f idx k v = Some v' \<and> wf_vec v' \<and>
     vec_bits v' = take idx (vec_bits v) @ map (\<lambda>i. case f i of None \<Rightarrow> vec_bits v ! i | Some b \<Rightarrow> b) [idx..<idx + k]"
proof (induction k arbitrary: idx v)
  case 0
  then show ?case by simp
next
  case (Suc k)
  let ?g = "\<lambda>w i. case f i of None \<Rightarrow> vec_bits w ! i | Some b \<Rightarrow> b"
  obtain w where w: "(case f idx of None \<Rightarrow> Some v | Some b \<Rightarrow> v4_set_bit v idx b) = Some w" "wf_vec w"
      "vec_bits w = (vec_bits v)[idx := ?g v idx]"
  proof (cases "f idx")
    case (Some b)
    then show ?thesis using v4_set_bit_bits [OF Suc.prems(1), of idx b] Suc.prems(2) that by auto
  qed (use Suc.prems(1) that in auto)
  have n: "vsize w = Suc idx + k" using arg_cong [OF w(3), of length] Suc.prems(2) by simp
  have up: "[idx..<idx + Suc k] = idx # [Suc idx..<Suc idx + k]" by (simp add: upt_conv_Cons)
  have tk: "take (Suc idx) (vec_bits w) = take idx (vec_bits v) @ [?g v idx]"
    using Suc.prems(2) by (simp add: w(3) take_Suc_update)
  have eq: "map (?g w) [Suc idx..<Suc idx + k] = map (?g v) [Suc idx..<Suc idx + k]"
    by (rule map_cong [OF refl]) (auto simp: w(3) split: option.split)
  obtain v' where v': "edit_bits f (Suc idx) k w = Some v'" "wf_vec v'"
      "vec_bits v' = (take idx (vec_bits v) @ [?g v idx]) @ map (?g v) [Suc idx..<Suc idx + k]"
    using Suc.IH [OF w(2) n] unfolding tk eq by blast
  have "edit_bits f idx (Suc k) v = Some v'" using w(1) v'(1) by (cases "f idx") auto
  then show ?case using v'(2,3) unfolding up by auto
qed

end
