(* ===== verification/Vthread_Alu.thy ===== *)
theory Vthread_Alu
  imports Vthread_Stack
begin

text \<open>
  The abstract instruction set: what the logic, arithmetic, size, part and shift instructions of
  \<^verbatim>\<open>vvp/vthread.cc\<close> compute, as functions on lists of four-valued bits, and the lemmas that the
  instructions implement it.
\<close>

unbundle bit_operations_syntax

section \<open>Functions on lists of bits\<close>

definition known_bits :: "vvp_bit4 list \<Rightarrow> bool" where
  "known_bits bs \<longleftrightarrow> list_all (\<lambda>b. \<not> bit4_is_xz b) bs"

text \<open>The low \<open>n\<close> bits of an integer, in two's complement.\<close>

definition bits_of :: "nat \<Rightarrow> int \<Rightarrow> vvp_bit4 list" where
  "bits_of n x = map (\<lambda>i. if bit x i then BIT4_1 else BIT4_0) [0..<n]"

text \<open>The value of a list of bits read as a signed number.\<close>

definition sbits_val :: "vvp_bit4 list \<Rightarrow> int" where
  "sbits_val bs = (if bs \<noteq> [] \<and> last bs = BIT4_1 then bits_val bs - 2 ^ length bs else bits_val bs)"

definition arith :: "(int \<Rightarrow> int \<Rightarrow> int) \<Rightarrow> vvp_bit4 list \<Rightarrow> vvp_bit4 list \<Rightarrow> vvp_bit4 list" where
  "arith f l r = (if known_bits l \<and> known_bits r then bits_of (length l) (f (bits_val l) (bits_val r))
                  else replicate (length l) BIT4_X)"

text \<open>The instruction replaces the top of the stack, or the two top vectors, by the given bits above
  \<open>vs\<close>, and changes nothing else.\<close>

definition yields :: "vthread_s \<Rightarrow> vvp_vector4 list \<Rightarrow> vvp_bit4 list \<Rightarrow> vthread_s option \<Rightarrow> bool" where
  "yields thr vs bs res \<longleftrightarrow> (\<exists>x. res = Some (thr\<lparr>stack_vec4 := x # vs\<rparr>) \<and> stackable x \<and> vec_bits x = bs)"

lemma yieldsI: "res = Some (thr\<lparr>stack_vec4 := x # vs\<rparr>) \<Longrightarrow> stackable x \<Longrightarrow> vec_bits x = bs \<Longrightarrow> yields thr vs bs res"
  by (auto simp: yields_def)

lemma bits_of_length [simp]: "length (bits_of n x) = n"
  by (simp add: bits_of_def)

lemma known_vec_known: "known_vec v \<longleftrightarrow> known_bits (vec_bits v)"
  by (simp add: known_vec_bits known_bits_def list_all_iff)

lemma known_bits_nth: "known_bits bs \<Longrightarrow> i < length bs \<Longrightarrow> bs ! i = (if bs ! i = BIT4_1 then BIT4_1 else BIT4_0)"
  by (cases "bs ! i") (auto simp: known_bits_def list_all_length)

lemma bits_of_bits_val: "known_bits bs \<Longrightarrow> bits_of (length bs) (bits_val bs) = bs"
  by (rule nth_equalityI) (auto simp: bits_of_def bit_bits_val known_bits_nth)

lemma bits_of_mod: "bits_of n (x mod 2 ^ n) = bits_of n x"
  by (rule nth_equalityI) (simp_all add: bits_of_def bit_take_bit_iff flip: take_bit_eq_mod)

lemma known_bits_of [simp]: "known_bits (bits_of n x)"
  by (simp add: known_bits_def bits_of_def list_all_length)

lemma bits_val_bits_of: "bits_val (bits_of n x) = x mod 2 ^ n"
  unfolding take_bit_eq_mod [symmetric]
  by (rule bit_eqI) (auto simp: bit_bits_val bit_take_bit_iff bits_of_def split: if_splits)

lemma arith_result_bits:
  assumes "arith_result x v w r"
  shows "wf_vec r \<and> vsize r = vsize v \<and>
    vec_bits r = (if known_bits (vec_bits v) \<and> known_bits (vec_bits w) then bits_of (vsize v) x
                  else replicate (vsize v) BIT4_X)"
proof -
  have "bits_of (vsize v) x = vec_bits r" if "known_vec r" "bits_val (vec_bits r) = x mod 2 ^ vsize v" "vsize r = vsize v"
    using bits_of_bits_val [of "vec_bits r"] bits_of_mod [of "vsize v" x] that by (simp add: known_vec_known)
  then show ?thesis
    using assms unfolding arith_result_def known_vec_known
    by (cases "known_bits (vec_bits v) \<and> known_bits (vec_bits w)") auto
qed

lemma map_map2: "map h (map2 f xs ys) = map2 (\<lambda>a b. h (f a b)) xs ys"
  by (rule nth_equalityI) simp_all

section \<open>Stack frames of the instructions\<close>

lemma vsize_bits: "vec_bits x = bs \<Longrightarrow> vsize x = length bs"
  by auto

lemma stackable_same: "wf_vec x \<Longrightarrow> vsize x = vsize v \<Longrightarrow> stackable v \<Longrightarrow> stackable x"
  by (simp add: stackable_def)

lemma wf_thread_top:
  "wf_thread thr \<Longrightarrow> stack_vec4 thr = v # vs \<Longrightarrow> stackable v \<and> list_all stackable vs"
  by (simp add: wf_thread_def)

lemma binary_op_yields:
  assumes "stack_vec4 thr = r # l # vs" "f l r = Some x" "stackable x" "vec_bits x = bs"
  shows "yields thr vs bs (binary_op f thr)"
  using assms by (auto intro!: yieldsI simp: binary_op_def stack_simps)

lemma unary_op_yields:
  assumes "stack_vec4 thr = l # vs" "f l = Some x" "stackable x" "vec_bits x = bs"
  shows "yields thr vs bs (unary_op f thr)"
  using assms by (auto intro!: yieldsI simp: unary_op_def stack_simps)

section \<open>Logic\<close>

lemma logic_sizes [simp]:
  "vsize (v4_and v w) = vsize v" "vsize (v4_or v w) = vsize v" "vsize (v4_xor v w) = vsize v" "vsize (invert v) = vsize v"
  by (simp_all add: v4_and_def v4_or_def v4_xor_def invert_def Let_def)

lemma logic_yields:
  assumes "wf_thread thr" "stack_vec4 thr = r # l # vs" "vsize l = vsize r"
  shows "yields thr vs (map2 bit4_and (vec_bits l) (vec_bits r)) (of_AND cp thr)"
    "yields thr vs (map2 bit4_or (vec_bits l) (vec_bits r)) (of_OR cp thr)"
    "yields thr vs (map2 bit4_xor (vec_bits l) (vec_bits r)) (of_XOR cp thr)"
    "yields thr vs (map2 (\<lambda>a b. bit4_not (bit4_and a b)) (vec_bits l) (vec_bits r)) (of_NAND cp thr)"
    "yields thr vs (map2 (\<lambda>a b. bit4_not (bit4_or a b)) (vec_bits l) (vec_bits r)) (of_NOR cp thr)"
    "yields thr vs (map2 (\<lambda>a b. bit4_not (bit4_xor a b)) (vec_bits l) (vec_bits r)) (of_XNOR cp thr)"
proof -
  have l: "stackable l" "wf_vec l" using assms by (simp_all add: wf_thread_def stackable_def)
  note s = stackable_same [OF _ _ l(1)] v4_logic_wf unary_wf l assms(3)
  note b = v4_logic_bits [OF assms(3)] invert_bits map_map2
  show "yields thr vs (map2 bit4_and (vec_bits l) (vec_bits r)) (of_AND cp thr)"
    unfolding of_AND_def by (rule binary_op_yields [OF assms(2), where x = "v4_and l r"]) (use s b in auto)
  show "yields thr vs (map2 bit4_or (vec_bits l) (vec_bits r)) (of_OR cp thr)"
    unfolding of_OR_def by (rule binary_op_yields [OF assms(2), where x = "v4_or l r"]) (use s b in auto)
  show "yields thr vs (map2 bit4_xor (vec_bits l) (vec_bits r)) (of_XOR cp thr)"
    unfolding of_XOR_def by (rule binary_op_yields [OF assms(2), where x = "v4_xor l r"]) (use s b in auto)
  show "yields thr vs (map2 (\<lambda>a b. bit4_not (bit4_and a b)) (vec_bits l) (vec_bits r)) (of_NAND cp thr)"
    unfolding of_NAND_def by (rule binary_op_yields [OF assms(2), where x = "invert (v4_and l r)"]) (use s b in auto)
  show "yields thr vs (map2 (\<lambda>a b. bit4_not (bit4_or a b)) (vec_bits l) (vec_bits r)) (of_NOR cp thr)"
    unfolding of_NOR_def by (rule binary_op_yields [OF assms(2), where x = "invert (v4_or l r)"]) (use s b in auto)
  show "yields thr vs (map2 (\<lambda>a b. bit4_not (bit4_xor a b)) (vec_bits l) (vec_bits r)) (of_XNOR cp thr)"
    unfolding of_XNOR_def by (rule binary_op_yields [OF assms(2), where x = "invert (v4_xor l r)"]) (use s b in auto)
qed

lemma blend_yields:
  assumes "wf_thread thr" "stack_vec4 thr = r # l # vs" "vsize l = vsize r"
  shows "yields thr vs (map2 (\<lambda>a b. if a = b then a else BIT4_X) (vec_bits l) (vec_bits r)) (of_BLEND cp thr)"
proof -
  have r: "wf_vec r" "stackable r" using assms by (simp_all add: wf_thread_def stackable_def)
  let ?f = "\<lambda>idx. if v4_value r idx = v4_value l idx then None else Some BIT4_X"
  obtain x where x: "edit_bits ?f 0 (vsize r) r = Some x" "wf_vec x"
      "vec_bits x = map (\<lambda>i. case ?f i of None \<Rightarrow> vec_bits r ! i | Some b \<Rightarrow> b) [0..<vsize r]"
    using edit_bits_ok [OF r(1), of 0 "vsize r" ?f] by auto
  have b: "vec_bits x = map2 (\<lambda>a b. if a = b then a else BIT4_X) (vec_bits l) (vec_bits r)"
    by (rule nth_equalityI) (use assms(3) in \<open>auto simp: x(3) vec_bits_nth\<close>)
  have "vsize x = vsize r" using arg_cong [OF x(3), of length] by simp
  then show ?thesis using x(1) assms(2,3) r(2) b stackable_same [OF x(2)]
    by (auto intro!: yieldsI simp: of_BLEND_def stack_simps push_vec4_def)
qed

lemma unary_yields:
  assumes "wf_thread thr" "stack_vec4 thr = l # vs"
  shows "yields thr vs (map bit4_not (vec_bits l)) (of_INV cp thr)"
    "yields thr vs [foldr bit4_and (vec_bits l) BIT4_1] (of_ANDR cp thr)"
    "yields thr vs [foldr bit4_or (vec_bits l) BIT4_0] (of_ORR cp thr)"
    "yields thr vs [foldr bit4_xor (vec_bits l) BIT4_0] (of_XORR cp thr)"
    "yields thr vs [bit4_not (foldr bit4_and (vec_bits l) BIT4_1)] (of_NANDR cp thr)"
    "yields thr vs [bit4_not (foldr bit4_or (vec_bits l) BIT4_0)] (of_NORR cp thr)"
    "yields thr vs [bit4_not (foldr bit4_xor (vec_bits l) BIT4_0)] (of_XNORR cp thr)"
proof -
  have l: "stackable l" "wf_vec l" "0 < vsize l" using assms by (simp_all add: wf_thread_def stackable_def)
  have one: "yields thr vs [b] (unary_op (\<lambda>val. Some (vector4_fill 1 (f val))) thr)" if "f l = b" for f b
    by (rule unary_op_yields [OF assms(2), where x = "vector4_fill 1 b"]) (use that in \<open>simp_all add: vector4_fill_bits\<close>)
  show "yields thr vs (map bit4_not (vec_bits l)) (of_INV cp thr)"
    unfolding of_INV_def
    by (rule unary_op_yields [OF assms(2), where x = "invert l"]) (use l stackable_same [OF _ _ l(1)] unary_wf in \<open>simp_all add: invert_bits\<close>)
  note red = reduce_and_bits [OF l(2,3)] reduce_or_bits [OF l(2,3)] reduce_xor_bits [OF l(2,3)]
  show "yields thr vs [foldr bit4_and (vec_bits l) BIT4_1] (of_ANDR cp thr)"
    "yields thr vs [foldr bit4_or (vec_bits l) BIT4_0] (of_ORR cp thr)"
    "yields thr vs [foldr bit4_xor (vec_bits l) BIT4_0] (of_XORR cp thr)"
    "yields thr vs [bit4_not (foldr bit4_and (vec_bits l) BIT4_1)] (of_NANDR cp thr)"
    "yields thr vs [bit4_not (foldr bit4_or (vec_bits l) BIT4_0)] (of_NORR cp thr)"
    "yields thr vs [bit4_not (foldr bit4_xor (vec_bits l) BIT4_0)] (of_XNORR cp thr)"
    unfolding of_ANDR_def of_ORR_def of_XORR_def of_NANDR_def of_NORR_def of_XNORR_def
    by (rule one, simp add: red)+
qed

lemma cast2_yields:
  assumes "wf_thread thr" "stack_vec4 thr = l # vs"
  shows "yields thr vs (map (\<lambda>b. if bit4_is_xz b then BIT4_0 else b) (vec_bits l)) (of_CAST2 cp thr)"
proof -
  have l: "stackable l" "wf_vec l" using assms by (simp_all add: wf_thread_def stackable_def)
  let ?f = "\<lambda>idx. case v4_value l idx of BIT4_0 \<Rightarrow> None | BIT4_1 \<Rightarrow> None | _ \<Rightarrow> Some BIT4_0"
  obtain x where x: "edit_bits ?f 0 (vsize l) l = Some x" "wf_vec x"
      "vec_bits x = map (\<lambda>i. case ?f i of None \<Rightarrow> vec_bits l ! i | Some b \<Rightarrow> b) [0..<vsize l]"
    using edit_bits_ok [OF l(2), of 0 "vsize l" ?f] by auto
  have b: "vec_bits x = map (\<lambda>b. if bit4_is_xz b then BIT4_0 else b) (vec_bits l)"
    by (rule nth_equalityI) (auto simp: x(3) vec_bits_nth split: vvp_bit4.split)
  have n: "vsize x = vsize l" using arg_cong [OF x(3), of length] by simp
  show ?thesis unfolding of_CAST2_def
    by (rule unary_op_yields [OF assms(2), where x = x]) (use x(1) b stackable_same [OF x(2) n l(1)] in simp_all)
qed

section \<open>Arithmetic\<close>

lemma arith_yields:
  assumes "wf_thread thr" "stack_vec4 thr = r # l # vs" "vsize l = vsize r"
  shows "yields thr vs (arith (+) (vec_bits l) (vec_bits r)) (of_ADD cp thr)"
    "yields thr vs (arith (-) (vec_bits l) (vec_bits r)) (of_SUB cp thr)"
    "yields thr vs (arith (*) (vec_bits l) (vec_bits r)) (of_MUL cp thr)"
proof -
  have lr: "stackable l" "wf_vec l" "wf_vec r" using assms by (simp_all add: wf_thread_def stackable_def)
  have go: "yields thr vs (arith g (vec_bits l) (vec_bits r)) (binary_op f thr)"
    if ex: "\<exists>x. f l r = Some x \<and> arith_result (g (bits_val (vec_bits l)) (bits_val (vec_bits r))) l r x" for f g
  proof -
    obtain x where x: "f l r = Some x" "arith_result (g (bits_val (vec_bits l)) (bits_val (vec_bits r))) l r x"
      using ex by blast
    note b = arith_result_bits [OF x(2)]
    show ?thesis
      by (rule binary_op_yields [OF assms(2), where x = x]) (use x(1) b stackable_same [OF _ _ lr(1)] in \<open>simp_all add: arith_def\<close>)
  qed
  show "yields thr vs (arith (+) (vec_bits l) (vec_bits r)) (of_ADD cp thr)"
    "yields thr vs (arith (-) (vec_bits l) (vec_bits r)) (of_SUB cp thr)"
    "yields thr vs (arith (*) (vec_bits l) (vec_bits r)) (of_MUL cp thr)"
    unfolding of_ADD_def of_SUB_def of_MUL_def
    by (intro go v4_add_result v4_sub_result v4_mul_result lr assms(3))+
qed

lemma arith_imm_yields:
  assumes "wf_thread thr" "stack_vec4 thr = l # vs" "vsize l = cp_wid cp"
  shows "yields thr vs (arith (+) (vec_bits l) (imm_bits cp)) (of_ADDI cp thr)"
    "yields thr vs (arith (-) (vec_bits l) (imm_bits cp)) (of_SUBI cp thr)"
    "yields thr vs (arith (*) (vec_bits l) (imm_bits cp)) (of_MULI cp thr)"
proof -
  have l: "stackable l" "wf_vec l" using assms by (simp_all add: wf_thread_def stackable_def)
  then have l3: "0 < cp_wid cp" using assms(3) by (auto simp: stackable_def)
  obtain r where r: "immediate_vec4 cp = Some r" "wf_vec r" "vsize r = cp_wid cp" "vec_bits r = imm_bits cp"
    using immediate_vec4_ok [OF l3] by blast
  have go: "yields thr vs (arith g (vec_bits l) (imm_bits cp)) (unary_op (\<lambda>l. do { r \<leftarrow> immediate_vec4 cp; f l r }) thr)"
    if ex: "\<exists>x. f l r = Some x \<and> arith_result (g (bits_val (vec_bits l)) (bits_val (vec_bits r))) l r x" for f g
  proof -
    obtain x where x: "f l r = Some x" "arith_result (g (bits_val (vec_bits l)) (bits_val (vec_bits r))) l r x"
      using ex by blast
    note b = arith_result_bits [OF x(2)]
    show ?thesis
      by (rule unary_op_yields [OF assms(2), where x = x])
        (use x(1) b r stackable_same [OF _ _ l(1)] in \<open>simp_all add: arith_def\<close>)
  qed
  show "yields thr vs (arith (+) (vec_bits l) (imm_bits cp)) (of_ADDI cp thr)"
    "yields thr vs (arith (-) (vec_bits l) (imm_bits cp)) (of_SUBI cp thr)"
    "yields thr vs (arith (*) (vec_bits l) (imm_bits cp)) (of_MULI cp thr)"
    unfolding of_ADDI_def of_SUBI_def of_MULI_def
    by (rule go, use assms(3) r(2,3) l(2) v4_add_result [of l r] v4_sub_result [of l r] v4_mul_result [of l r] in simp)+
qed

end
