(* ===== verification/Vthread_Parts.thy ===== *)
theory Vthread_Parts
  imports Vthread_Alu
begin

text \<open>
  What the size, shift and part-select instructions of \<^verbatim>\<open>vvp/vthread.cc\<close> and the moves between the
  vector stack and the index registers compute, on lists of bits.
\<close>

unbundle bit_operations_syntax

section \<open>Storing parts\<close>

lemma put_vec_ok:
  assumes "wf_vec v" "wf_vec that" "adr + vsize that \<le> vsize v" "0 < vsize that"
  shows "\<exists>v'. put_vec v adr that = Some v' \<and> wf_vec v' \<and> vsize v' = vsize v \<and>
    vec_bits v' = take adr (vec_bits v) @ vec_bits that @ drop (adr + vsize that) (vec_bits v)"
proof -
  obtain v' d where v': "v4_set_vec v adr that = Some (v', d)" "wf_vec v'"
      "vec_bits v' = take adr (vec_bits v) @ vec_bits that @ drop (adr + vsize that) (vec_bits v)"
    using v4_set_vec_bits [OF assms] by blast
  moreover have "vsize v' = vsize v" using arg_cong [OF v'(3), of length] assms(3) by simp
  ultimately show ?thesis by (simp add: put_vec_def)
qed

lemma put_vec_empty:
  assumes "0 < vsize v" "vsize that = 0"
  shows "put_vec v 0 that = Some v"
proof -
  have m: "part_mask 0 0 = 0" by (simp add: part_mask_def low_mask_eq)
  have "0 < word_count (vsize v)" using assms by (simp add: word_count_def)
  then have "v4_set_vec v 0 that = Some (v, False)"
    using assms by (simp add: v4_set_vec_def set_vec_words_def set_masked_def m Let_def)
  then show ?thesis by (simp add: put_vec_def)
qed

lemma concat_parts_ok:
  assumes "stackable msb" "stackable lsb" "vsize msb + vsize lsb < 2 ^ 31"
  shows "\<exists>res. concat_parts msb lsb = Some res \<and> stackable res \<and> vec_bits res = vec_bits lsb @ vec_bits msb"
proof -
  let ?n = "vsize msb + vsize lsb" and ?x = "vector4_fill (vsize msb + vsize lsb) BIT4_X"
  have n: "u32 ?n = ?n" using assms(3) by (simp add: u32_def)
  obtain r1 where r1: "put_vec ?x 0 lsb = Some r1" "wf_vec r1" "vsize r1 = ?n"
      "vec_bits r1 = vec_bits lsb @ drop (vsize lsb) (replicate ?n BIT4_X)"
    using put_vec_ok [of ?x lsb 0] assms by (auto simp: stackable_def vector4_fill_bits)
  obtain r2 where r2: "put_vec r1 (vsize lsb) msb = Some r2" "wf_vec r2" "vsize r2 = ?n"
      "vec_bits r2 = vec_bits lsb @ vec_bits msb"
    using put_vec_ok [of r1 msb "vsize lsb"] r1 assms by (auto simp: stackable_def)
  then show ?thesis using r1(1) n assms by (simp add: concat_parts_def stackable_def)
qed

lemma concat_yields:
  assumes "wf_thread thr" "stack_vec4 thr = lsb # msb # vs" "vsize msb + vsize lsb < 2 ^ 31"
  shows "yields thr vs (vec_bits lsb @ vec_bits msb) (of_CONCAT_VEC4 cp thr)"
  using concat_parts_ok [of msb lsb] assms
  by (auto intro!: yieldsI simp: of_CONCAT_VEC4_def stack_simps wf_thread_def)

lemma concati_yields:
  assumes "wf_thread thr" "stack_vec4 thr = msb # vs" "0 < cp_wid cp" "vsize msb + cp_wid cp < 2 ^ 31"
  shows "yields thr vs (imm_bits cp @ vec_bits msb) (of_CONCATI_VEC4 cp thr)"
proof -
  obtain lsb where l: "immediate_vec4 cp = Some lsb" "wf_vec lsb" "vsize lsb = cp_wid cp" "vec_bits lsb = imm_bits cp"
    using immediate_vec4_ok [OF assms(3)] by blast
  then have "stackable lsb" "stackable msb" using assms by (simp_all add: stackable_def wf_thread_def)
  then obtain x where "concat_parts msb lsb = Some x" "stackable x" "vec_bits x = vec_bits lsb @ vec_bits msb"
    using concat_parts_ok assms(4) l(3) by metis
  then show ?thesis unfolding of_CONCATI_VEC4_def
    using l by (intro unary_op_yields [OF assms(2), where x = x]) simp_all
qed

lemma replicate_loop_ok:
  "\<lbrakk>wf_vec res; 0 < vsize val; wf_vec val; vsize res = (idx + k) * vsize val; (idx + k) * vsize val < 2 ^ 31;
    take (idx * vsize val) (vec_bits res) = concat (replicate idx (vec_bits val))\<rbrakk> \<Longrightarrow>
   \<exists>r. replicate_loop idx k val res = Some r \<and> wf_vec r \<and> vsize r = vsize res \<and>
     vec_bits r = concat (replicate (idx + k) (vec_bits val))"
proof (induction k arbitrary: idx res)
  case 0
  then show ?case by simp
next
  case (Suc k)
  let ?m = "vsize val"
  have le: "idx * ?m + ?m \<le> vsize res" using Suc.prems(4) by (simp add: algebra_simps)
  have "vsize res < 2 ^ 31" using Suc.prems(4,5) by simp
  then have "idx * ?m < 2 ^ 32" using le by simp
  then have u: "u32 (idx * ?m) = idx * ?m" by (simp add: u32_def)
  obtain r where r: "put_vec res (idx * ?m) val = Some r" "wf_vec r" "vsize r = vsize res"
      "vec_bits r = take (idx * ?m) (vec_bits res) @ vec_bits val @ drop (idx * ?m + ?m) (vec_bits res)"
    using put_vec_ok [OF Suc.prems(1,3) le Suc.prems(2)] by blast
  have len: "length (concat (replicate idx (vec_bits val))) = idx * ?m" by (simp add: length_concat sum_list_replicate)
  have snoc: "concat (replicate (Suc idx) (vec_bits val)) = concat (replicate idx (vec_bits val)) @ vec_bits val"
    by (simp flip: replicate_append_same)
  have "take (Suc idx * ?m) (vec_bits r) = concat (replicate (Suc idx) (vec_bits val))"
    unfolding r(4) Suc.prems(6) snoc using len by simp
  then obtain r' where "replicate_loop (Suc idx) k val r = Some r'" "wf_vec r'" "vsize r' = vsize r"
      "vec_bits r' = concat (replicate (Suc idx + k) (vec_bits val))"
    using Suc.IH [OF r(2) Suc.prems(2,3), of "Suc idx"] Suc.prems(4,5) r(3) by auto
  then show ?case using r(1,3) u by simp
qed

lemma replicate_yields:
  assumes "wf_thread thr" "stack_vec4 thr = val # vs" "0 < cp_wid cp" "vsize val * cp_wid cp < 2 ^ 31"
  shows "yields thr vs (concat (replicate (cp_wid cp) (vec_bits val))) (of_REPLICATE cp thr)"
proof -
  let ?n = "vsize val * cp_wid cp"
  have v: "wf_vec val" "0 < vsize val" using assms by (simp_all add: wf_thread_def stackable_def)
  have "1 * cp_wid cp \<le> ?n" using v(2) by (intro mult_le_mono1) simp
  then have k: "cp_wid cp < 2 ^ 31" using assms(4) by linarith
  obtain x where x: "replicate_loop 0 (cp_wid cp) val (vector4_fill ?n BIT4_X) = Some x" "wf_vec x" "vsize x = ?n"
      "vec_bits x = concat (replicate (cp_wid cp) (vec_bits val))"
    using replicate_loop_ok [of "vector4_fill ?n BIT4_X" val 0 "cp_wid cp"] v assms(4) by (auto simp: mult.commute)
  then have "stackable x" using v assms(3,4) by (simp add: stackable_def)
  then show ?thesis using x k assms(2,4)
    by (auto intro!: yieldsI simp: of_REPLICATE_def stack_simps push_vec4_def u32_def Let_def)
qed

section \<open>Sizes\<close>

lemma subvalue_ok:
  assumes "stackable val" "adr + wid \<le> vsize val"
  shows "\<exists>r. v4_subvalue val adr wid = Some r \<and> wf_vec r \<and> vsize r = wid \<and>
    vec_bits r = take wid (drop adr (vec_bits val))"
proof -
  obtain r where r: "v4_subvalue val adr wid = Some r" "wf_vec r" "vsize r = wid"
      "vec_bits r = map (\<lambda>i. v4_value val (adr + i)) [0..<wid]"
    using v4_subvalue_bits [of val adr wid] assms by (auto simp: stackable_def)
  moreover have "map (\<lambda>i. v4_value val (adr + i)) [0..<wid] = take wid (drop adr (vec_bits val))"
    by (rule nth_equalityI) (use assms(2) in \<open>auto simp: vec_bits_nth\<close>)
  ultimately show ?thesis by simp
qed

lemma split_ok:
  assumes "wf_thread thr" "stack_vec4 thr = val # vs" "0 < cp_wid cp" "cp_wid cp < vsize val"
  shows "\<exists>lsb msb. of_SPLIT_VEC4 cp thr = Some (thr\<lparr>stack_vec4 := lsb # msb # vs\<rparr>) \<and> stackable lsb \<and> stackable msb \<and>
    vec_bits lsb = take (cp_wid cp) (vec_bits val) \<and> vec_bits msb = drop (cp_wid cp) (vec_bits val)"
proof -
  let ?k = "cp_wid cp"
  have v: "stackable val" using assms by (simp add: wf_thread_def)
  obtain lsb where l: "v4_subvalue val 0 ?k = Some lsb" "wf_vec lsb" "vsize lsb = ?k" "vec_bits lsb = take ?k (vec_bits val)"
    using subvalue_ok [OF v, of 0 ?k] assms(4) by auto
  obtain msb where m: "v4_subvalue val ?k (vsize val - ?k) = Some msb" "wf_vec msb" "vsize msb = vsize val - ?k"
      "vec_bits msb = drop ?k (vec_bits val)"
    using subvalue_ok [OF v, of ?k "vsize val - ?k"] assms(4) by auto
  have "stackable lsb" "stackable msb" using l(2,3) m(2,3) assms(3,4) v by (auto simp: stackable_def)
  moreover have "of_SPLIT_VEC4 cp thr = Some (thr\<lparr>stack_vec4 := lsb # msb # vs\<rparr>)"
    using l(1) m(1) assms(2,4) by (simp add: of_SPLIT_VEC4_def stack_simps push_vec4_def Let_def)
  ultimately show ?thesis using l(4) m(4) by blast
qed

lemma resize_yields:
  assumes "wf_thread thr" "stack_vec4 thr = val # vs" "0 < cp_wid cp" "cp_wid cp < 2 ^ 31"
  shows "yields thr vs (take (cp_wid cp) (vec_bits val) @ replicate (cp_wid cp - vsize val) (last (vec_bits val))) (of_PAD_S cp thr)"
    "yields thr vs (take (cp_wid cp) (vec_bits val) @ replicate (cp_wid cp - vsize val) BIT4_0) (of_PAD_U cp thr)"
proof -
  have v: "wf_vec val" "0 < vsize val" using assms by (simp_all add: wf_thread_def stackable_def)
  have r: "stackable (v4_resize val (cp_wid cp) p)"
    "vec_bits (v4_resize val (cp_wid cp) p) = take (cp_wid cp) (vec_bits val) @ replicate (cp_wid cp - vsize val) p" for p
    using v4_resize_bits [OF v(1), of "cp_wid cp" p] assms(3,4) by (auto simp: stackable_def v4_resize_def)
  have last: "last (vec_bits val) = v4_value val (vsize val - 1)"
    using v(2) by (subst last_conv_nth) (auto simp: vec_bits_nth simp flip: length_0_conv)
  define p where "p = (if vsize val < cp_wid cp then v4_value val (vsize val - 1) else BIT4_X)"
  show "yields thr vs (take (cp_wid cp) (vec_bits val) @ replicate (cp_wid cp - vsize val) (last (vec_bits val))) (of_PAD_S cp thr)"
    unfolding of_PAD_S_def
    by (rule unary_op_yields [OF assms(2), where x = "v4_resize val (cp_wid cp) p"])
      (use v(2) in \<open>auto simp: r p_def last\<close>)
  show "yields thr vs (take (cp_wid cp) (vec_bits val) @ replicate (cp_wid cp - vsize val) BIT4_0) (of_PAD_U cp thr)"
    unfolding of_PAD_U_def
    by (rule unary_op_yields [OF assms(2), where x = "v4_resize val (cp_wid cp) BIT4_0"]) (simp_all add: r)
qed

section \<open>Shifts\<close>

text \<open>What a shift makes of the bits, by the value of flag 4: undefined amount, amount beyond the index
  registers, or the amount in the register.\<close>

definition shl_bits :: "vvp_bit4 \<Rightarrow> nat \<Rightarrow> vvp_bit4 list \<Rightarrow> vvp_bit4 list" where
  "shl_bits f4 s bs =
     (if f4 = BIT4_1 then replicate (length bs) BIT4_X
      else if f4 = BIT4_X \<or> s \<ge> length bs then replicate (length bs) BIT4_0
      else replicate s BIT4_0 @ take (length bs - s) bs)"

definition shr_bits :: "vvp_bit4 \<Rightarrow> nat \<Rightarrow> vvp_bit4 \<Rightarrow> vvp_bit4 list \<Rightarrow> vvp_bit4 list" where
  "shr_bits f4 s fill bs =
     (if f4 = BIT4_1 then replicate (length bs) BIT4_X
      else if f4 = BIT4_X \<or> s \<ge> length bs then replicate (length bs) fill
      else drop s bs @ replicate s fill)"

lemma shiftl_yields:
  assumes "wf_thread thr" "stack_vec4 thr = val # vs" "cp_wid cp < WORDS_COUNT"
  shows "yields thr vs (shl_bits (flags thr ! 4) (unat (words thr ! cp_wid cp)) (vec_bits val)) (of_SHIFTL cp thr)"
proof -
  define s where "s = unat (words thr ! cp_wid cp)"
  let ?n = "vsize val" and ?f4 = "flags thr ! 4"
  have v: "stackable val" using assms by (simp add: wf_thread_def)
  note v' = v [unfolded stackable_def]
  consider "?f4 = BIT4_1" | "?f4 \<noteq> BIT4_1" "?f4 = BIT4_X \<or> s \<ge> ?n" | "?f4 \<noteq> BIT4_1" "?f4 \<noteq> BIT4_X" "s = 0" "s < ?n"
    | (shift) "?f4 \<noteq> BIT4_1" "?f4 \<noteq> BIT4_X" "0 < s" "s < ?n" by fastforce
  then show ?thesis
  proof cases
    case shift
    obtain blk where blk: "v4_subvalue val 0 (?n - s) = Some blk" "wf_vec blk" "vsize blk = ?n - s"
        "vec_bits blk = take (?n - s) (vec_bits val)"
      using subvalue_ok [OF v, of 0 "?n - s"] by auto
    obtain r1 where r1: "put_vec val 0 (vector4_fill s BIT4_0) = Some r1" "wf_vec r1" "vsize r1 = ?n"
        "vec_bits r1 = replicate s BIT4_0 @ drop s (vec_bits val)"
      using put_vec_ok [of val "vector4_fill s BIT4_0" 0] shift v' by (auto simp: vector4_fill_bits)
    obtain r2 where r2: "put_vec r1 s blk = Some r2" "wf_vec r2" "vsize r2 = ?n"
        "vec_bits r2 = replicate s BIT4_0 @ take (?n - s) (vec_bits val)"
      using put_vec_ok [of r1 blk s] r1 blk shift by auto
    have "of_SHIFTL cp thr = Some (thr\<lparr>stack_vec4 := r2 # vs\<rparr>)"
      using shift blk(1) r1(1) r2(1) assms(2,3)
      by (simp add: of_SHIFTL_def stack_simps get_word_def Let_def flip: s_def)
    moreover have "stackable r2" using r2(2,3) v' by (simp add: stackable_def)
    moreover have "vec_bits r2 = shl_bits ?f4 s (vec_bits val)" using shift r2(4) by (simp add: shl_bits_def)
    ultimately show ?thesis unfolding s_def by (intro yieldsI)
  qed (use v' v assms(2,3) in \<open>auto intro!: yieldsI simp: of_SHIFTL_def stack_simps get_word_def Let_def shl_bits_def
        vector4_fill_bits simp flip: s_def\<close>)
qed

lemma shift_right_ok:
  assumes "stackable val"
  shows "\<exists>x. shift_right f4 s fill val = Some x \<and> stackable x \<and> vec_bits x = shr_bits f4 s fill (vec_bits val)"
proof -
  let ?n = "vsize val"
  note v' = assms [unfolded stackable_def]
  consider "f4 = BIT4_1" | "f4 \<noteq> BIT4_1" "f4 = BIT4_X \<or> s > ?n" | "f4 \<noteq> BIT4_1" "f4 \<noteq> BIT4_X" "s = 0" "s < ?n"
    | (whole) "f4 \<noteq> BIT4_1" "f4 \<noteq> BIT4_X" "s = ?n" | (shift) "f4 \<noteq> BIT4_1" "f4 \<noteq> BIT4_X" "0 < s" "s < ?n"
    by fastforce
  then show ?thesis
  proof cases
    case whole
    obtain blk where blk: "v4_subvalue val ?n 0 = Some blk" "vsize blk = 0"
      using subvalue_ok [OF assms, of ?n 0] by auto
    have "put_vec val 0 blk = Some val" using put_vec_empty blk(2) v' by blast
    moreover obtain r where "put_vec val 0 (vector4_fill ?n fill) = Some r" "wf_vec r" "vsize r = ?n"
        "vec_bits r = replicate ?n fill"
      using put_vec_ok [of val "vector4_fill ?n fill" 0] v' by (auto simp: vector4_fill_bits)
    ultimately show ?thesis using whole blk(1) v' by (simp add: shift_right_def Let_def shr_bits_def stackable_def)
  next
    case shift
    obtain blk where blk: "v4_subvalue val s (?n - s) = Some blk" "wf_vec blk" "vsize blk = ?n - s"
        "vec_bits blk = drop s (vec_bits val)"
      using subvalue_ok [OF assms, of s "?n - s"] shift by auto
    obtain r1 where r1: "put_vec val 0 blk = Some r1" "wf_vec r1" "vsize r1 = ?n"
        "vec_bits r1 = drop s (vec_bits val) @ drop (?n - s) (vec_bits val)"
      using put_vec_ok [of val blk 0] shift blk v' by auto
    obtain r2 where r2: "put_vec r1 (?n - s) (vector4_fill s fill) = Some r2" "wf_vec r2" "vsize r2 = ?n"
        "vec_bits r2 = drop s (vec_bits val) @ replicate s fill"
      using put_vec_ok [of r1 "vector4_fill s fill" "?n - s"] r1 shift by (auto simp: vector4_fill_bits)
    show ?thesis using shift blk(1) r1(1) r2 v' by (simp add: shift_right_def Let_def shr_bits_def stackable_def)
  qed (use v' in \<open>auto simp: shift_right_def Let_def shr_bits_def vector4_fill_bits stackable_def\<close>)
qed

lemma shiftr_yields:
  assumes "wf_thread thr" "stack_vec4 thr = val # vs" "cp_wid cp < WORDS_COUNT"
  shows "yields thr vs (shr_bits (flags thr ! 4) (unat (words thr ! cp_wid cp)) BIT4_0 (vec_bits val)) (of_SHIFTR cp thr)"
    "yields thr vs (shr_bits (flags thr ! 4) (unat (words thr ! cp_wid cp)) (last (vec_bits val)) (vec_bits val)) (of_SHIFTR_S cp thr)"
proof -
  have v: "stackable val" "0 < vsize val" using assms by (simp_all add: wf_thread_def stackable_def)
  have last: "last (vec_bits val) = v4_value val (vsize val - 1)"
    using v(2) by (subst last_conv_nth) (auto simp: vec_bits_nth simp flip: length_0_conv)
  show "yields thr vs (shr_bits (flags thr ! 4) (unat (words thr ! cp_wid cp)) BIT4_0 (vec_bits val)) (of_SHIFTR cp thr)"
    using shift_right_ok [OF v(1), of "flags thr ! 4" "unat (words thr ! cp_wid cp)" BIT4_0] assms
    by (auto intro!: yieldsI simp: of_SHIFTR_def stack_simps get_word_def push_vec4_def)
  show "yields thr vs (shr_bits (flags thr ! 4) (unat (words thr ! cp_wid cp)) (last (vec_bits val)) (vec_bits val)) (of_SHIFTR_S cp thr)"
    using shift_right_ok [OF v(1), of "flags thr ! 4" "unat (words thr ! cp_wid cp)" "last (vec_bits val)"] assms v(2)
    by (auto intro!: yieldsI simp: of_SHIFTR_S_def stack_simps get_word_def push_vec4_def last)
qed

end
