(* ===== verification/Vthread_Select.thy ===== *)
theory Vthread_Select
  imports Vthread_Parts
begin

text \<open>
  Vectors as numbers: the conversion to native integers, the index registers loaded from the stack
  and the part selects of \<^verbatim>\<open>vvp/vthread.cc\<close>.
\<close>

unbundle bit_operations_syntax

section \<open>Signed values\<close>

lemma bit_sbits_val:
  "bit (sbits_val bs) i \<longleftrightarrow> (if i < length bs then bs ! i = BIT4_1 else bs \<noteq> [] \<and> last bs = BIT4_1)"
proof (cases "bs \<noteq> [] \<and> last bs = BIT4_1")
  case True
  have "sbits_val bs = bits_val bs + NOT (mask (length bs))"
    using True by (simp add: sbits_val_def minus_exp_eq_not_mask [symmetric])
  also have "\<dots> = bits_val bs OR NOT (mask (length bs))"
    by (rule disjunctive_add) (simp add: bit_bits_val bit_not_iff bit_mask_iff)
  finally show ?thesis using True by (auto simp: bit_or_iff bit_bits_val bit_not_iff bit_mask_iff)
next
  case False
  then show ?thesis by (auto simp: sbits_val_def bit_bits_val)
qed

definition num_val :: "bool \<Rightarrow> vvp_bit4 list \<Rightarrow> int" where
  "num_val is_signed bs = (if is_signed then sbits_val bs else bits_val bs)"

lemma bit_num_val:
  "bit (num_val sg bs) i \<longleftrightarrow> (if i < length bs then bs ! i = BIT4_1 else sg \<and> bs \<noteq> [] \<and> last bs = BIT4_1)"
  by (simp add: num_val_def bit_sbits_val bit_bits_val)

section \<open>Conversion to native integers\<close>

lemma value_loop_ok:
  fixes res :: "'w::len word"
  assumes "idx + k \<le> LENGTH('w)"
  shows "if \<forall>i. idx \<le> i \<and> i < idx + k \<longrightarrow> \<not> bit4_is_xz (vec i)
     then \<exists>w. value_loop True vec idx k res True = Some (w, True) \<and>
       (\<forall>i. bit w i \<longleftrightarrow> bit res i \<or> (idx \<le> i \<and> i < idx + k \<and> vec i = BIT4_1))
     else value_loop True vec idx k res True = None"
  using assms
proof (induction k arbitrary: idx res)
  case (Suc k)
  have bnd: "Suc idx + k \<le> LENGTH('w)" using Suc.prems by simp
  have all: "(\<forall>i. idx \<le> i \<and> i < idx + Suc k \<longrightarrow> P i) \<longleftrightarrow> P idx \<and> (\<forall>i. Suc idx \<le> i \<and> i < Suc idx + k \<longrightarrow> P i)" for P
    by (auto simp: le_less_Suc_eq) (metis Suc_leI le_neq_implies_less)
  have one: "bit (res OR push_bit idx 1) i \<longleftrightarrow> bit res i \<or> i = idx" for i
    using Suc.prems by (auto simp: bit_or_iff bit_exp_iff)
  show ?case
  proof (cases "vec idx")
    case BIT4_0
    then show ?thesis using Suc.IH [OF bnd, of res] unfolding all
      by (auto split: if_splits simp: le_eq_less_or_eq) 
  next
    case BIT4_1
    then show ?thesis using Suc.IH [OF bnd, of "res OR push_bit idx 1"] unfolding all one
      by (auto split: if_splits simp: le_eq_less_or_eq)
  next
    case BIT4_X
    then show ?thesis unfolding all by simp
  next
    case BIT4_Z
    then show ?thesis unfolding all by simp
  qed
qed auto

lemma known_take:
  "known_bits (take m (vec_bits v)) \<longleftrightarrow> (\<forall>i<min (vsize v) m. \<not> bit4_is_xz (v4_value v i))"
  by (auto simp: known_bits_def list_all_length vec_bits_nth)

lemma vector4_to_value_ok:
  assumes "0 < vsize v"
  shows "vector4_to_value v sg True =
    (if known_bits (take LENGTH('w) (vec_bits v)) then Some (word_of_int (num_val sg (vec_bits v)) :: 'w::len word, True) else None)"
proof -
  let ?L = "LENGTH('w)" and ?n = "vsize v"
  have last: "last (vec_bits v) = v4_value v (?n - 1)"
    using assms by (subst last_conv_nth) (auto simp: vec_bits_nth simp flip: length_0_conv)
  note loop = value_loop_ok [of 0 "min ?n ?L" "v4_value v" "0 :: 'w word"]
  show ?thesis
  proof (cases "known_bits (take ?L (vec_bits v))")
    case True
    then obtain w where w: "value_loop True (v4_value v) 0 (min ?n ?L) (0 :: 'w word) True = Some (w, True)"
        "\<And>i. bit w i \<longleftrightarrow> i < min ?n ?L \<and> v4_value v i = BIT4_1"
      using loop by (auto simp: known_take split: if_splits)
    have "(if sg \<and> 0 < ?n \<and> v4_value v (?n - 1) = BIT4_1 \<and> ?n < ?L then w OR push_bit ?n (- 1) else w) =
        word_of_int (num_val sg (vec_bits v))" (is "?l = ?r")
    proof (rule bit_word_eqI)
      fix i assume "i < ?L"
      then show "bit ?l i \<longleftrightarrow> bit ?r i"
        using assms by (auto simp: bit_or_iff w(2) bit_not_iff bit_mask_iff bit_word_of_int_iff bit_num_val vec_bits_nth last simp flip: length_0_conv)
    qed
    then show ?thesis using True w(1) by (simp add: vector4_to_value_def)
  next
    case False
    then show ?thesis using loop by (auto simp: vector4_to_value_def known_take split: if_splits)
  qed
qed

section \<open>Part selects\<close>

text \<open>The window of \<open>wid\<close> bits from \<open>base\<close>, which may be negative: x outside the value.\<close>

definition window :: "nat \<Rightarrow> int \<Rightarrow> vvp_bit4 list \<Rightarrow> vvp_bit4 list" where
  "window wid base bs =
     map (\<lambda>i. let j = base + int i in if 0 \<le> j \<and> j < int (length bs) then bs ! nat j else BIT4_X) [0..<wid]"

lemma sint_small: "n < 2 ^ 31 \<Longrightarrow> sint (of_nat n :: 32 word) = int n"
  by (simp add: signed_of_nat signed_take_bit_int_eq_self)

lemma part_window_ok:
  assumes "stackable val" "0 < wid" "wid < 2 ^ 31" "- (2 ^ 31) \<le> base" "base + int wid < 2 ^ 31"
  shows "\<exists>x. part_window wid base val = Some x \<and> stackable x \<and> vec_bits x = window wid base (vec_bits val)"
proof -
  let ?n = "vsize val" and ?x = "vector4_fill wid BIT4_X"
  note v = assms(1) [unfolded stackable_def]
  have si: "sint (of_nat wid :: 32 word) = int wid" "sint (of_nat ?n :: 32 word) = int ?n"
    using assms v by (simp_all add: sint_small)
  have fits: "in_signed 32 (base + int wid)" using assms by (simp add: in_signed_def)
  show ?thesis
  proof (cases "base \<ge> int ?n \<or> base + int wid \<le> 0")
    case True
    have "window wid base (vec_bits val) = replicate wid BIT4_X"
      by (rule nth_equalityI) (use True in \<open>auto simp: window_def Let_def\<close>)
    then show ?thesis using True fits assms(2,3)
      by (auto simp: part_window_def si Let_def vector4_fill_bits)
  next
    case False
    define vb where "vb = (if base < 0 then nat (- base) else 0)"
    define b where "b = nat (max base 0)"
    define w where "w = (if b + (wid - vb) > ?n then ?n - b else wid - vb)"
    have geo: "b < ?n" "0 < w" "b + w \<le> ?n" "vb + w \<le> wid" "int b = base + int vb" "w = wid - vb \<or> b + w = ?n"
        "b = 0 \<or> vb = 0" using False v assms(2) by (auto simp: vb_def b_def w_def max_def)
    obtain part where part: "v4_subvalue val b w = Some part" "wf_vec part" "vsize part = w"
        "vec_bits part = take w (drop b (vec_bits val))"
      using subvalue_ok [OF assms(1) geo(3)] by blast
    obtain r where r: "put_vec ?x vb part = Some r" "wf_vec r" "vsize r = wid"
        "vec_bits r = replicate vb BIT4_X @ vec_bits part @ replicate (wid - (vb + w)) BIT4_X"
      using put_vec_ok [of ?x part vb] part geo by (auto simp: vector4_fill_bits)
    have "part_window wid base val = Some r"
      unfolding part_window_def Let_def si vb_def [symmetric] b_def [symmetric] w_def [symmetric]
      using False fits part(1) r(1) by simp
    moreover have "vec_bits r = window wid base (vec_bits val)"
    proof (rule nth_equalityI)
      fix i assume "i < length (vec_bits r)"
      then have i: "i < wid" using r(3) by simp
      consider "i < vb" | "vb \<le> i" "i < vb + w" | "vb + w \<le> i" by linarith
      then show "vec_bits r ! i = window wid base (vec_bits val) ! i"
      proof cases
        case 2
        then have j: "base + int i = int (b + (i - vb))" "i - vb < w" using geo(5) by auto
        have "vec_bits r ! i = vec_bits val ! (b + (i - vb))"
          using 2 j(2) geo(3) by (simp add: r(4) part(3,4) nth_append)
        moreover have "window wid base (vec_bits val) ! i = vec_bits val ! (b + (i - vb))"
          using i j(2) geo(3) by (simp add: window_def j(1) del: of_nat_add of_nat_diff)
        ultimately show ?thesis by simp
      next
        case 1
        then have "base + int i < 0" using geo(5,7) by auto
        then show ?thesis using 1 i by (simp add: r(4) window_def nth_append)
      next
        case 3
        then have "base + int i \<ge> int ?n" using geo i by auto
        then show ?thesis using 3 i part(3) by (auto simp: r(4) window_def nth_append)
      qed
    qed (simp add: r(3) window_def)
    ultimately show ?thesis using r(2,3) assms(2,3) by (simp add: stackable_def)
  qed
qed


lemma part_window_any:
  assumes "stackable val" "0 < wid" "wid < 2 ^ 30" "vsize val < 2 ^ 30" "- (2 ^ 31) \<le> base" "base < 2 ^ 31"
  shows "\<exists>x. part_window wid base val = Some x \<and> stackable x \<and> vec_bits x = window wid base (vec_bits val)"
proof (cases "base < int (vsize val)")
  case True
  then show ?thesis using part_window_ok [OF assms(1,2) _ assms(5)] assms(3,4) by simp
next
  case False
  then have "window wid base (vec_bits val) = replicate wid BIT4_X"
    by (intro nth_equalityI) (auto simp: window_def Let_def)
  then show ?thesis using False assms(2-4) by (simp add: part_window_def Let_def sint_small vector4_fill_bits)
qed

lemma part_yields:
  assumes "wf_thread thr" "stack_vec4 thr = base4 # val # vs" "0 < cp_wid cp" "cp_wid cp < 2 ^ 30" "vsize val < 2 ^ 30"
  shows "yields thr vs
    (if known_bits (take 32 (vec_bits base4))
     then window (cp_wid cp) (sint (word_of_int (num_val sg (vec_bits base4)) :: 32 word)) (vec_bits val)
     else replicate (cp_wid cp) BIT4_X) (of_PART_base sg cp thr)"
proof -
  have v: "stackable val" "0 < vsize base4" using assms by (simp_all add: wf_thread_def stackable_def)
  let ?w = "word_of_int (num_val sg (vec_bits base4)) :: 32 word"
  note conv = vector4_to_value_ok [OF v(2), of sg, where 'w = 32, simplified]
  have rng: "- (2 ^ 31) \<le> sint ?w" "sint ?w < 2 ^ 31" using sint_range_size [of ?w] by (simp_all add: word_size)
  note far = part_window_any [OF v(1) assms(3-5) rng]
  show ?thesis
  proof (cases "known_bits (take 32 (vec_bits base4))")
    case True
    then show ?thesis using far conv assms(2) by (auto intro!: yieldsI simp: of_PART_base_def stack_simps)
  next
    case False
    then show ?thesis using conv assms(2-4)
      by (auto intro!: yieldsI simp: of_PART_base_def stack_simps vector4_fill_bits)
  qed
qed

lemma parti_yields:
  assumes "wf_thread thr" "stack_vec4 thr = val # vs" "0 < cp_wid cp" "cp_wid cp < 2 ^ 30" "vsize val < 2 ^ 30"
    "parti_use_base sg cp = Some base"
  shows "yields thr vs (window (cp_wid cp) base (vec_bits val)) (of_PARTI_base sg cp thr)"
proof -
  have v: "stackable val" using assms by (simp add: wf_thread_def)
  obtain w :: "32 word" where "base = sint w" using assms(6) by (auto simp: parti_use_base_def Let_def split: if_splits)
  then have rng: "- (2 ^ 31) \<le> base" "base < 2 ^ 31" using sint_range_size [of w] by (simp_all add: word_size)
  show ?thesis using part_window_any [OF v assms(3-5) rng] assms(2,6)
    by (auto intro!: yieldsI simp: of_PARTI_base_def stack_simps)
qed

section \<open>Loading an index register\<close>

text \<open>What \<^verbatim>\<open>%ix/vec4\<close> leaves in flag 4 and in the register.\<close>

lemma subarray_whole:
  assumes "stackable v"
  shows "v4_subarray v 0 (vsize v) False =
    (if known_bits (vec_bits v) then Some (Some (map (\<lambda>k. word_of_int (bits_val (vec_bits v) div 2 ^ (64 * k))) [0..<word_count (vsize v)]))
     else Some None)"
proof -
  let ?n = "vsize v"
  have v: "wf_vec v" "0 < ?n" using assms by (simp_all add: stackable_def)
  obtain r where r: "v4_subarray v 0 ?n False = Some r" "part_read (abits v) (bbits v) 0 ?n False r"
    using v4_subarray_read [OF v(1), of 0 ?n False] v(2) by auto
  have k: "part_known (bbits v) 0 ?n \<longleftrightarrow> known_bits (vec_bits v)"
    by (simp add: part_known_def wbit_def flip: known_vec_known) (simp add: known_vec_def)
  show ?thesis
  proof (cases "known_bits (vec_bits v)")
    case True
    then obtain ws where ws: "r = Some ws" "length ws = word_count ?n"
        "\<And>i. i < 64 * word_count ?n \<Longrightarrow> wbit ws i \<longleftrightarrow> i < ?n \<and> wbit (abits v) i \<and> \<not> wbit (bbits v) i"
      using r(2) k by (auto simp: part_read_def holds_ones_def)
    have "ws = map (\<lambda>k. word_of_int (bits_val (vec_bits v) div 2 ^ (64 * k))) [0..<word_count ?n]"
    proof (rule nth_equalityI)
      fix j assume j: "j < length ws"
      have "ws ! j = word_of_int (drop_bit (64 * j) (bits_val (vec_bits v)))"
      proof (rule bit_word_eqI)
        fix i assume "i < LENGTH(64)"
        then have i: "i < 64" by simp
        have "bit (ws ! j) i = wbit ws (64 * j + i)" using i by (simp add: wbit_split)
        also have "\<dots> \<longleftrightarrow> 64 * j + i < ?n \<and> wbit (abits v) (64 * j + i) \<and> \<not> wbit (bbits v) (64 * j + i)"
          using ws(3) [of "64 * j + i"] i j ws(2) by simp
        also have "\<dots> \<longleftrightarrow> 64 * j + i < ?n \<and> vec_bits v ! (64 * j + i) = BIT4_1"
          by (cases "wbit (abits v) (64 * j + i)"; cases "wbit (bbits v) (64 * j + i)")
            (auto simp: vec_bits_wbit)
        finally show "bit (ws ! j) i = bit (word_of_int (drop_bit (64 * j) (bits_val (vec_bits v))) :: 64 word) i"
          using i by (simp add: bit_word_of_int_iff bit_drop_bit_eq bit_bits_val)
      qed
      then show "ws ! j = map (\<lambda>k. word_of_int (bits_val (vec_bits v) div 2 ^ (64 * k))) [0..<word_count ?n] ! j"
        using j ws(2) by (simp add: drop_bit_eq_div)
    qed (simp add: ws(2))
    then show ?thesis using True r(1) ws(1) by simp
  next
    case False
    then show ?thesis using r k by (simp add: part_read_def)
  qed
qed


lemma words_over:
  assumes "0 < n"
  shows "list_ex (index_overflow sg v) (tl (map (\<lambda>k. word_of_int (x div 2 ^ (64 * k))) [0..<word_count n])) \<longleftrightarrow>
    (\<exists>i. 64 \<le> i \<and> i < 64 * word_count n \<and> bit x i \<noteq> (sg \<and> bit v 63))"
proof -
  let ?w = "\<lambda>k. word_of_int (x div 2 ^ (64 * k)) :: 64 word"
  have wc: "0 < word_count n" using assms by (simp add: word_count_def)
  have tl: "tl (map ?w [0..<word_count n]) = map ?w [1..<word_count n]" using wc by (simp add: map_tl [symmetric] tl_upt)
  have bits: "bit (?w k) j \<longleftrightarrow> j < 64 \<and> bit x (64 * k + j)" for k j
    by (simp add: bit_word_of_int_iff bit_drop_bit_eq flip: drop_bit_eq_div)
  have one: "index_overflow sg v (?w k) \<longleftrightarrow> (\<exists>j<64. bit x (64 * k + j) \<noteq> (sg \<and> bit v 63))" for k
    by (auto simp: index_overflow_def word_nonzero bit_not_iff bits)
  have "(\<exists>k. 1 \<le> k \<and> k < word_count n \<and> (\<exists>j<64. P (64 * k + j))) \<longleftrightarrow> (\<exists>i. 64 \<le> i \<and> i < 64 * word_count n \<and> P i)" for P
  proof
    assume "\<exists>i. 64 \<le> i \<and> i < 64 * word_count n \<and> P i"
    then obtain i where "64 \<le> i" "i < 64 * word_count n" "P i" by blast
    then show "\<exists>k. 1 \<le> k \<and> k < word_count n \<and> (\<exists>j<64. P (64 * k + j))"
      by (intro exI [of _ "i div 64"] conjI exI [of _ "i mod 64"]) (simp_all add: less_mult_imp_div_less mult.commute)
  qed (use linorder_not_le in fastforce)
  note all = this [of "\<lambda>i. bit x i \<noteq> (sg \<and> bit v 63)"]
  have "list_ex (index_overflow sg v) (map ?w [1..<word_count n]) \<longleftrightarrow>
      (\<exists>k. 1 \<le> k \<and> k < word_count n \<and> index_overflow sg v (?w k))"
    by (auto simp: list_ex_iff)
  then show ?thesis unfolding tl one all .
qed

lemma in_signed_bits: "in_signed 64 x \<longleftrightarrow> (\<forall>i\<ge>63. bit x i = bit x 63)"
proof -
  have "in_signed 64 x \<longleftrightarrow> - (2 ^ 63) \<le> x \<and> x < 2 ^ 63" unfolding in_signed_def by simp
  also have "\<dots> \<longleftrightarrow> signed_take_bit 63 x = x" by (rule signed_take_bit_int_eq_self_iff [symmetric])
  also have "\<dots> \<longleftrightarrow> (\<forall>i. bit x (min i 63) = bit x i)" unfolding bit_eq_iff bit_signed_take_bit_iff by (simp add: min.commute)
  also have "\<dots> \<longleftrightarrow> (\<forall>i\<ge>63. bit x i = bit x 63)" by (metis min.absorb2 min.absorb1 nle_le)
  finally show ?thesis .
qed

lemma big_bits: "0 \<le> x \<Longrightarrow> (2 ^ 64 \<le> x) = (\<exists>i\<ge>64. bit (x :: int) i)"
proof -
  assume x: "0 \<le> x"
  have "(2 ^ 64 \<le> x) = (drop_bit 64 x \<noteq> 0)" using x by (simp add: drop_bit_eq_div div_eq_0_iff zdiv_eq_0_iff not_less)
  also have "\<dots> = (\<exists>j. bit x (64 + j))" by (auto simp: bit_eq_iff bit_drop_bit_eq)
  also have "\<dots> = (\<exists>i\<ge>64. bit x i)" by (metis le_add1 le_iff_add)
  finally show ?thesis .
qed

lemma bits_val_nonneg: "0 \<le> bits_val bs"
  unfolding bits_val_def by (induction bs) simp_all

text \<open>Flag 4 after the load. The test for a signed value compares whole words with the sign, so it
  takes every negative value of more than 64 bits for too large unless its size is a multiple of 64.\<close>

definition index_flag :: "bool \<Rightarrow> vvp_bit4 list \<Rightarrow> vvp_bit4" where
  "index_flag sg bs =
     (if \<not> known_bits bs then BIT4_1
      else if (if length bs \<le> 64 then False
               else if sg then \<not> in_signed 64 (if length bs mod 64 = 0 then sbits_val bs else bits_val bs)
               else bits_val bs \<ge> 2 ^ 64)
      then BIT4_X else BIT4_0)"

lemma index_flag_over:
  assumes "0 < length bs" "v = word_of_int (bits_val bs)"
  shows "list_ex (index_overflow sg v)
      (tl (map (\<lambda>k. word_of_int (bits_val bs div 2 ^ (64 * k))) [0..<word_count (length bs)])) \<longleftrightarrow>
    (if length bs \<le> 64 then False
     else if sg then \<not> in_signed 64 (if length bs mod 64 = 0 then sbits_val bs else bits_val bs)
     else bits_val bs \<ge> 2 ^ 64)"
proof -
  let ?n = "length bs" and ?x = "bits_val bs"
  have wc: "?n \<le> 64 * word_count ?n" "?n mod 64 = 0 \<Longrightarrow> 64 * word_count ?n = ?n"
      "?n mod 64 \<noteq> 0 \<Longrightarrow> ?n < 64 * word_count ?n"
    using assms(1) by (auto simp: word_count_alt)
  have wc4: "?n \<le> 64 \<Longrightarrow> word_count ?n = 1" using assms(1) by (auto simp: word_count_def Suc_le_eq intro!: div_nat_eqI)
  have v63: "bit v 63 = bit ?x 63" by (simp add: assms(2) bit_word_of_int_iff)
  have beyond: "bit ?x i \<Longrightarrow> i < ?n" for i by (simp add: bit_bits_val)
  show ?thesis unfolding words_over [OF assms(1)] v63
  proof (cases "?n \<le> 64")
    case True
    then show "(\<exists>i\<ge>64. i < 64 * word_count ?n \<and> bit ?x i \<noteq> (sg \<and> bit ?x 63)) = (if ?n \<le> 64 then False
      else if sg then \<not> in_signed 64 (if ?n mod 64 = 0 then sbits_val bs else ?x) else 2 ^ 64 \<le> ?x)"
      using wc4 by simp
  next
    case False
    have uns: "(\<exists>i\<ge>64. i < 64 * word_count ?n \<and> bit ?x i) \<longleftrightarrow> 2 ^ 64 \<le> ?x"
      using wc(1) beyond by (subst big_bits [OF bits_val_nonneg]) (meson less_le_trans)
    have whole: "(\<exists>i\<ge>64. i < 64 * word_count ?n \<and> bit ?x i \<noteq> bit ?x 63) \<longleftrightarrow> \<not> in_signed 64 (sbits_val bs)" if "?n mod 64 = 0"
    proof -
      have s: "bit (sbits_val bs) i = bit ?x (min i (?n - 1))" for i
      proof (cases "i < ?n")
        case True
        then have "min i (?n - 1) = i" by simp
        then show ?thesis using True by (simp add: bit_sbits_val bit_bits_val)
      next
        case False
        then have "min i (?n - 1) = ?n - 1" by simp
        then show ?thesis using False assms(1) by (auto simp: bit_sbits_val bit_bits_val last_conv_nth)
      qed
      have "\<not> in_signed 64 (sbits_val bs) \<longleftrightarrow> (\<exists>i\<ge>63. bit ?x (min i (?n - 1)) \<noteq> bit ?x (min 63 (?n - 1)))"
        unfolding in_signed_bits s by blast
      also have "\<dots> \<longleftrightarrow> (\<exists>i\<ge>64. i < ?n \<and> bit ?x i \<noteq> bit ?x 63)"
      proof
        assume "\<exists>i\<ge>63. bit ?x (min i (?n - 1)) \<noteq> bit ?x (min 63 (?n - 1))"
        then obtain i where i: "i \<ge> 63" "bit ?x (min i (?n - 1)) \<noteq> bit ?x (min 63 (?n - 1))" by blast
        then have "min i (?n - 1) \<noteq> 63" "min 63 (?n - 1) = 63" using False by auto
        then show "\<exists>i\<ge>64. i < ?n \<and> bit ?x i \<noteq> bit ?x 63"
          using i False by (intro exI [of _ "min i (?n - 1)"]) auto
      next
        assume "\<exists>i\<ge>64. i < ?n \<and> bit ?x i \<noteq> bit ?x 63"
        then obtain i where "64 \<le> i" "i < ?n" "bit ?x i \<noteq> bit ?x 63" by blast
        then show "\<exists>i\<ge>63. bit ?x (min i (?n - 1)) \<noteq> bit ?x (min 63 (?n - 1))"
          by (intro exI [of _ i]) (auto simp: min_def)
      qed
      finally show ?thesis using wc(2) [OF that] by simp
    qed
    have part: "(\<exists>i\<ge>64. i < 64 * word_count ?n \<and> bit ?x i \<noteq> bit ?x 63) \<longleftrightarrow> \<not> in_signed 64 ?x" if "?n mod 64 \<noteq> 0"
    proof -
      have "\<not> in_signed 64 ?x \<longleftrightarrow> (\<exists>i\<ge>63. bit ?x i \<noteq> bit ?x 63)" unfolding in_signed_bits by blast
      also have "\<dots> \<longleftrightarrow> (\<exists>i\<ge>64. i < 64 * word_count ?n \<and> bit ?x i \<noteq> bit ?x 63)"
      proof
        assume "\<exists>i\<ge>63. bit ?x i \<noteq> bit ?x 63"
        then obtain i where i: "i \<ge> 63" "bit ?x i \<noteq> bit ?x 63" by blast
        then have "i \<ge> 64" by (cases "i = 63") auto
        moreover have "\<not> bit ?x ?n" using beyond by blast
        ultimately show "\<exists>i\<ge>64. i < 64 * word_count ?n \<and> bit ?x i \<noteq> bit ?x 63"
          using i(2) wc(3) [OF that] False beyond [of i]
          by (cases "bit ?x 63") (auto intro: exI [of _ ?n] exI [of _ i])
      next
        assume "\<exists>i\<ge>64. i < 64 * word_count ?n \<and> bit ?x i \<noteq> bit ?x 63"
        then obtain i where "64 \<le> i" "bit ?x i \<noteq> bit ?x 63" by blast
        then show "\<exists>i\<ge>63. bit ?x i \<noteq> bit ?x 63" by (intro exI [of _ i]) simp
      qed
      finally show ?thesis by simp
    qed
    show "(\<exists>i\<ge>64. i < 64 * word_count ?n \<and> bit ?x i \<noteq> (sg \<and> bit ?x 63)) = (if ?n \<le> 64 then False
      else if sg then \<not> in_signed 64 (if ?n mod 64 = 0 then sbits_val bs else ?x) else 2 ^ 64 \<le> ?x)"
      using False uns whole part by (cases sg; cases "?n mod 64 = 0") simp_all
  qed
qed

lemma extend_index_ok:
  assumes "0 < length bs"
  shows "extend_index sg (length bs) (word_of_int (bits_val bs)) = word_of_int (num_val sg bs)"
proof (rule bit_word_eqI)
  fix i assume "i < LENGTH(64)"
  then have i: "i < 64" by simp
  let ?n = "length bs"
  have w: "bit (word_of_int (bits_val bs) :: 64 word) j \<longleftrightarrow> j < 64 \<and> j < ?n \<and> bs ! j = BIT4_1" for j
    by (simp add: bit_word_of_int_iff bit_bits_val)
  have top: "(word_of_int (bits_val bs) :: 64 word) AND push_bit (?n - 1) 1 \<noteq> 0 \<longleftrightarrow> last bs = BIT4_1" if "?n < 64"
  proof -
    have "(word_of_int (bits_val bs) :: 64 word) AND push_bit (?n - 1) 1 \<noteq> 0 \<longleftrightarrow>
        (\<exists>j<64. bit (word_of_int (bits_val bs) :: 64 word) j \<and> j = ?n - 1)"
      unfolding word_nonzero using that by (auto simp: bit_and_iff bit_exp_iff)
    also have "\<dots> \<longleftrightarrow> last bs = BIT4_1"
      unfolding w using that assms by (auto simp: last_conv_nth)
    finally show ?thesis .
  qed
  have r: "bit (word_of_int (num_val sg bs) :: 64 word) i \<longleftrightarrow> (if i < ?n then bs ! i = BIT4_1 else sg \<and> last bs = BIT4_1)"
    using i assms by (auto simp: bit_word_of_int_iff bit_num_val)
  show "bit (extend_index sg ?n (word_of_int (bits_val bs))) i \<longleftrightarrow> bit (word_of_int (num_val sg bs) :: 64 word) i"
    unfolding r extend_index_def using i top
    by (auto simp: w bit_or_iff bit_and_iff bit_not_iff bit_push_bit_iff bit_mask_iff)
qed

lemma vec4_to_index_ok:
  assumes "wf_thread thr" "stack_vec4 thr = val # vs"
  shows "vec4_to_index sg thr =
    Some (if known_bits (vec_bits val) then word_of_int (num_val sg (vec_bits val)) else 0,
          set_flag 4 (index_flag sg (vec_bits val)) (thr\<lparr>stack_vec4 := vs\<rparr>))"
proof -
  let ?bs = "vec_bits val"
  have v: "stackable val" "0 < length ?bs" using assms by (simp_all add: wf_thread_def stackable_def)
  have wc: "0 < word_count (length ?bs)" using v(2) by (simp add: word_count_def)
  then have hd: "hd (map (\<lambda>k. word_of_int (bits_val ?bs div 2 ^ (64 * k)) :: 64 word) [0..<word_count (length ?bs)]) =
      word_of_int (bits_val ?bs)"
    by (simp add: hd_map)
  show ?thesis
  proof (cases "known_bits ?bs")
    case True
    note over = index_flag_over [OF v(2) refl, of sg]
    show ?thesis using True subarray_whole [OF v(1)] assms(2) over extend_index_ok [OF v(2), of sg] hd
      by (simp add: vec4_to_index_def stack_simps Let_def index_flag_def del: if_False)
  next
    case False
    then show ?thesis using subarray_whole [OF v(1)] assms(2)
      by (simp add: vec4_to_index_def stack_simps index_flag_def)
  qed
qed

end
