(* ===== verification/Vthread_Compare.thy ===== *)
theory Vthread_Compare
  imports Vthread_Select
begin

text \<open>
  The comparison instructions of \<^verbatim>\<open>vvp/vthread.cc\<close>: the flags they leave as functions of the bits of
  the two operands.
\<close>

unbundle bit_operations_syntax

section \<open>Results of comparisons\<close>

abbreviation bit4_of :: "bool \<Rightarrow> vvp_bit4" where
  "bit4_of b \<equiv> (if b then BIT4_1 else BIT4_0)"

text \<open>Two bits that are both known and differ.\<close>

definition clash :: "vvp_bit4 \<Rightarrow> vvp_bit4 \<Rightarrow> bool" where
  "clash a b \<longleftrightarrow> a = BIT4_0 \<and> b = BIT4_1 \<or> a = BIT4_1 \<and> b = BIT4_0"

text \<open>The operators ==, ===, ==? and the comparisons of \<^verbatim>\<open>casex\<close> and \<^verbatim>\<open>casez\<close> on bits.\<close>

definition logic_eq :: "vvp_bit4 list \<Rightarrow> vvp_bit4 list \<Rightarrow> vvp_bit4" where
  "logic_eq l r = (if list_ex (case_prod clash) (zip l r) then BIT4_0
     else if known_bits l \<and> known_bits r then BIT4_1 else BIT4_X)"

definition wild_eq :: "vvp_bit4 list \<Rightarrow> vvp_bit4 list \<Rightarrow> vvp_bit4" where
  "wild_eq l r = (if list_ex (case_prod clash) (zip l r) then BIT4_0
     else if list_ex (\<lambda>(a, b). bit4_is_xz a \<and> \<not> bit4_is_xz b) (zip l r) then BIT4_X else BIT4_1)"

lemma upt_first: "[idx..<idx + Suc k] = idx # [Suc idx..<Suc idx + k]"
  by (simp add: upt_conv_Cons del: upt_Suc)

lemma clash_cases:
  "\<lbrakk>clash a b \<Longrightarrow> P; \<lbrakk>\<not> clash a b; bit4_is_xz b\<rbrakk> \<Longrightarrow> P; \<lbrakk>\<not> clash a b; bit4_is_xz a; \<not> bit4_is_xz b\<rbrakk> \<Longrightarrow> P;
    \<lbrakk>\<not> clash a b; a = b; \<not> bit4_is_xz a; \<not> bit4_is_xz b\<rbrakk> \<Longrightarrow> P\<rbrakk> \<Longrightarrow> P"
  by (cases a; cases b) (auto simp: clash_def)

lemma cmp_bits_ok:
  "eq = BIT4_1 \<or> eq = BIT4_X \<Longrightarrow> cmp_bits lval rval idx k eq eeq' =
     (if list_ex (\<lambda>i. clash (lval i) (rval i)) [idx..<idx + k] then BIT4_0
      else if eq = BIT4_1 \<and> list_all (\<lambda>i. \<not> bit4_is_xz (lval i) \<and> \<not> bit4_is_xz (rval i)) [idx..<idx + k] then BIT4_1
      else BIT4_X,
      if list_ex (\<lambda>i. lval i \<noteq> rval i) [idx..<idx + k] then BIT4_0 else eeq')"
proof (induction k arbitrary: idx eq eeq')
  case (Suc k)
  let ?e = "if lval idx \<noteq> rval idx then BIT4_0 else eeq'"
  have clash: "cmp_bits lval rval idx (Suc k) eq eeq' = (BIT4_0, BIT4_0)" if "clash (lval idx) (rval idx)"
    using that by (auto simp: clash_def Let_def)
  have xz: "cmp_bits lval rval idx (Suc k) eq eeq' = cmp_bits lval rval (Suc idx) k BIT4_X ?e"
    if "\<not> clash (lval idx) (rval idx)" "bit4_is_xz (lval idx) \<or> bit4_is_xz (rval idx)"
    using that Suc.prems by (auto simp: clash_def Let_def)
  have same: "cmp_bits lval rval idx (Suc k) eq eeq' = cmp_bits lval rval (Suc idx) k eq eeq'"
    if "lval idx = rval idx" "\<not> bit4_is_xz (lval idx)"
    using that Suc.prems by (auto simp: Let_def)
  show ?case unfolding upt_first
  proof (rule clash_cases [of "lval idx" "rval idx"], goal_cases)
    case 1
    then have "lval idx \<noteq> rval idx" by (auto simp: clash_def)
    then show ?case using clash [OF 1] 1 by simp
  next
    case 2
    then show ?case by (subst xz) (simp_all add: Suc.IH del: upt_Suc)
  next
    case 3
    then have "lval idx \<noteq> rval idx" by auto
    then show ?case using 3 by (subst xz) (simp_all add: Suc.IH del: upt_Suc)
  next
    case 4
    then show ?case using Suc.IH [OF Suc.prems] by (subst same) (simp_all del: upt_Suc)
  qed
qed auto

lemma cmpwe_bits_ok:
  "eq = BIT4_1 \<or> eq = BIT4_X \<Longrightarrow> cmpwe_bits lval rval idx k eq =
     (if list_ex (\<lambda>i. clash (lval i) (rval i)) [idx..<idx + k] then BIT4_0
      else if eq = BIT4_X \<or> list_ex (\<lambda>i. bit4_is_xz (lval i) \<and> \<not> bit4_is_xz (rval i)) [idx..<idx + k] then BIT4_X
      else BIT4_1)"
proof (induction k arbitrary: idx eq)
  case (Suc k)
  have xz: "cmpwe_bits lval rval idx (Suc k) eq = cmpwe_bits lval rval (Suc idx) k BIT4_X"
    if "bit4_is_xz (lval idx)" "\<not> bit4_is_xz (rval idx)"
    using that Suc.prems by (auto simp: Let_def)
  have same: "cmpwe_bits lval rval idx (Suc k) eq = cmpwe_bits lval rval (Suc idx) k eq"
    if "bit4_is_xz (rval idx) \<or> lval idx = rval idx \<and> \<not> bit4_is_xz (lval idx)"
    using that Suc.prems by (auto simp: Let_def)
  show ?case unfolding upt_first
  proof (rule clash_cases [of "lval idx" "rval idx"], goal_cases)
    case 1
    then show ?case by (auto simp: clash_def Let_def)
  next
    case 2
    then show ?case using Suc.IH [OF Suc.prems] by (subst same) (simp_all del: upt_Suc)
  next
    case 3
    then show ?case by (subst xz) (simp_all add: Suc.IH del: upt_Suc)
  next
    case 4
    then show ?case using Suc.IH [OF Suc.prems] by (subst same) (simp_all del: upt_Suc)
  qed
qed auto

section \<open>Equality\<close>

lemma zip_bits:
  assumes "vsize l = vsize r"
  shows "list_ex (case_prod P) (zip (vec_bits l) (vec_bits r)) \<longleftrightarrow> (\<exists>i<vsize l. P (v4_value l i) (v4_value r i))"
  using assms by (auto simp: list_ex_length vec_bits_nth)

lemma vec_bits_eq: "vsize l = vsize r \<Longrightarrow> vec_bits l = vec_bits r \<longleftrightarrow> (\<forall>i<vsize l. v4_value l i = v4_value r i)"
  by (auto simp: list_eq_iff_nth_eq vec_bits_nth)

lemma known_bits_all: "known_bits (vec_bits l) \<longleftrightarrow> (\<forall>i<vsize l. \<not> bit4_is_xz (v4_value l i))"
  by (auto simp: known_bits_def list_all_length vec_bits_nth)

lemma has_xz_known: "0 < vsize v \<Longrightarrow> has_xz v = Some (\<not> known_bits (vec_bits v))"
  by (simp add: has_xz_bits known_bits_def list_all_iff)

lemma cmp_bits_vec:
  assumes "vsize l = vsize r"
  shows "cmp_bits (v4_value l) (v4_value r) 0 (vsize l) BIT4_1 BIT4_1 =
    (logic_eq (vec_bits l) (vec_bits r), bit4_of (vec_bits l = vec_bits r))"
proof -
  have ex: "list_ex P [0..<0 + n] \<longleftrightarrow> (\<exists>i<n. P i)" and all: "list_all P [0..<0 + n] \<longleftrightarrow> (\<forall>i<n. P i)" for P and n :: nat
    by (auto simp: list_ex_iff list_all_iff)
  have kn: "known_bits (vec_bits l) \<and> known_bits (vec_bits r) \<longleftrightarrow>
      (\<forall>i<vsize l. \<not> bit4_is_xz (v4_value l i) \<and> \<not> bit4_is_xz (v4_value r i))"
    unfolding known_bits_all assms [symmetric] by blast
  define C where "C \<longleftrightarrow> (\<exists>i<vsize l. clash (v4_value l i) (v4_value r i))"
  define K where "K \<longleftrightarrow> (\<forall>i<vsize l. \<not> bit4_is_xz (v4_value l i) \<and> \<not> bit4_is_xz (v4_value r i))"
  define D where "D \<longleftrightarrow> (\<exists>i<vsize l. v4_value l i \<noteq> v4_value r i)"
  have "cmp_bits (v4_value l) (v4_value r) 0 (vsize l) BIT4_1 BIT4_1 =
      (if C then BIT4_0 else if BIT4_1 = BIT4_1 \<and> K then BIT4_1 else BIT4_X, if D then BIT4_0 else BIT4_1)"
    unfolding cmp_bits_ok [OF disjI1 [OF refl]] ex all C_def K_def D_def ..
  moreover have "logic_eq (vec_bits l) (vec_bits r) = (if C then BIT4_0 else if K then BIT4_1 else BIT4_X)"
    unfolding logic_eq_def zip_bits [OF assms] kn C_def K_def ..
  moreover have "vec_bits l = vec_bits r \<longleftrightarrow> \<not> D" unfolding vec_bits_eq [OF assms] D_def by blast
  ultimately show ?thesis by simp
qed

lemma known_logic_eq:
  assumes "known_bits l" "known_bits r" "length l = length r"
  shows "logic_eq l r = bit4_of (l = r)"
proof -
  have "clash (l ! i) (r ! i) \<longleftrightarrow> l ! i \<noteq> r ! i" if "i < length l" for i
    using known_bits_nth [OF assms(1) that] known_bits_nth [OF assms(2), of i] that assms(3)
    by (auto simp: clash_def split: if_splits)
  then have "(\<exists>i<length l. clash (l ! i) (r ! i)) \<longleftrightarrow> l \<noteq> r" using assms(3) by (auto simp: list_eq_iff_nth_eq)
  moreover have "list_ex (case_prod clash) (zip l r) \<longleftrightarrow> (\<exists>i<length l. clash (l ! i) (r ! i))"
    using assms(3) by (auto simp: list_ex_length)
  ultimately show ?thesis using assms(1,2) by (simp add: logic_eq_def)
qed

lemma do_CMPE_ok:
  assumes "vsize l = vsize r" "0 < vsize l"
  shows "do_CMPE l r thr = Some (set_flag 6 (bit4_of (vec_bits l = vec_bits r)) (set_flag 4 (logic_eq (vec_bits l) (vec_bits r)) thr))"
proof -
  have x: "has_xz l = Some (\<not> known_bits (vec_bits l))" "has_xz r = Some (\<not> known_bits (vec_bits r))"
    using assms by (simp_all add: has_xz_known)
  show ?thesis
  proof (cases "known_bits (vec_bits l) \<and> known_bits (vec_bits r)")
    case True
    then show ?thesis using assms x known_logic_eq [of "vec_bits l" "vec_bits r"]
      by (simp add: do_CMPE_def eeq_bits Let_def set_flag_def list_update_swap)
  next
    case False
    then show ?thesis using assms(1) [symmetric] x cmp_bits_vec [OF assms(1)] by (auto simp: do_CMPE_def)
  qed
qed

lemma do_CMPNE_ok:
  assumes "vsize l = vsize r" "0 < vsize l" "length (flags thr) = FLAGS_COUNT"
  shows "do_CMPNE l r thr = Some (set_flag 6 (bit4_of (vec_bits l \<noteq> vec_bits r))
    (set_flag 4 (bit4_not (logic_eq (vec_bits l) (vec_bits r))) thr))"
  using assms by (simp add: do_CMPNE_def do_CMPE_ok invert_flag_def set_flag_def FLAGS_COUNT_def list_update_swap)

lemma do_CMPWE_ok:
  assumes "vsize l = vsize r" "0 < vsize l"
  shows "do_CMPWE l r thr = Some (set_flag 4 (wild_eq (vec_bits l) (vec_bits r)) thr)"
proof -
  have x: "has_xz l = Some (\<not> known_bits (vec_bits l))" "has_xz r = Some (\<not> known_bits (vec_bits r))"
    using assms by (simp_all add: has_xz_known)
  have w: "cmpwe_bits (v4_value l) (v4_value r) 0 (vsize l) BIT4_1 = wild_eq (vec_bits l) (vec_bits r)"
    unfolding wild_eq_def zip_bits [OF assms(1)] by (auto simp: cmpwe_bits_ok list_ex_iff)
  have "wild_eq (vec_bits l) (vec_bits r) = bit4_of (vec_bits l = vec_bits r)"
    if k: "known_bits (vec_bits l)" "known_bits (vec_bits r)"
  proof -
    have "\<not> list_ex (\<lambda>(a, b). bit4_is_xz a \<and> \<not> bit4_is_xz b) (zip (vec_bits l) (vec_bits r))"
      using k(1) by (auto simp: list_ex_iff known_bits_def list_all_iff dest: set_zip_leftD)
    then show ?thesis using known_logic_eq [OF k] assms(1) k by (simp add: wild_eq_def logic_eq_def split: if_splits)
  qed
  then show ?thesis using assms(1) [symmetric] x w by (auto simp: do_CMPWE_def eeq_bits)
qed

lemma wild_op_ok:
  assumes "stack_vec4 thr = r # l # vs" "vsize l = vsize r"
  shows "wild_op differ thr = Some (set_flag 4 (bit4_of (\<not> list_ex (case_prod differ) (zip (vec_bits l) (vec_bits r))))
    (thr\<lparr>stack_vec4 := vs\<rparr>))"
  unfolding zip_bits [OF assms(2)] using assms by (auto simp: wild_op_def stack_simps list_ex_iff)

section \<open>Order\<close>

lemma top_bit_less:
  fixes x y :: int
  assumes "drop_bit (Suc j) x = drop_bit (Suc j) y" "\<not> bit x j" "bit y j"
  shows "x < y"
proof -
  have d: "drop_bit j z = of_bool (bit z j) + 2 * drop_bit (Suc j) z" for z :: int
  proof -
    have "drop_bit (Suc j) z = drop_bit j z div 2"
      by (simp add: drop_bit_eq_div zdiv_zmult2_eq mult.commute [of 2])
    moreover have "bit z j = odd (drop_bit j z)" by (simp add: drop_bit_eq_div bit_iff_odd)
    ultimately show ?thesis by (simp add: mod_2_eq_odd [symmetric])
  qed
  have "drop_bit j x < drop_bit j y" using assms by (simp add: d)
  then show ?thesis unfolding drop_bit_eq_div by (meson linorder_not_le zdiv_mono1 zero_less_numeral zero_less_power)
qed

lemma top_difference:
  assumes "length l = length r" "j < length l" "l ! j \<noteq> r ! j" "\<forall>i. j < i \<and> i < length l \<longrightarrow> l ! i = r ! i"
    "known_bits l" "known_bits r"
  shows "bits_val l < bits_val r \<longleftrightarrow> l ! j = BIT4_0" "bits_val l \<noteq> bits_val r"
proof -
  have up: "drop_bit (Suc j) (bits_val l) = drop_bit (Suc j) (bits_val r)"
    by (rule bit_eqI) (use assms(1,4) in \<open>auto simp: bit_drop_bit_eq bit_bits_val\<close>)
  have kn: "l ! j = (if l ! j = BIT4_1 then BIT4_1 else BIT4_0)" "r ! j = (if r ! j = BIT4_1 then BIT4_1 else BIT4_0)"
    using known_bits_nth [of l j] known_bits_nth [of r j] assms by auto
  have b: "bit (bits_val l) j \<longleftrightarrow> l ! j = BIT4_1" "bit (bits_val r) j \<longleftrightarrow> r ! j = BIT4_1"
    using assms(1,2) by (simp_all add: bit_bits_val)
  have "bits_val l < bits_val r" if "l ! j = BIT4_0"
    using top_bit_less [OF up] b that kn(2) assms(3) by (auto split: if_splits)
  moreover have "bits_val r < bits_val l" if "l ! j \<noteq> BIT4_0"
    using top_bit_less [OF up [symmetric]] b that kn assms(3) by (auto split: if_splits)
  ultimately show "bits_val l < bits_val r \<longleftrightarrow> l ! j = BIT4_0" "bits_val l \<noteq> bits_val r" by fastforce+
qed

lemma bits_val_eq:
  assumes "length l = length r" "known_bits l" "known_bits r"
  shows "bits_val l = bits_val r \<longleftrightarrow> l = r"
  using bits_of_bits_val [OF assms(2)] bits_of_bits_val [OF assms(3)] assms(1) by metis

lemma sbits_val_same_sign:
  assumes "length l = length r" "l \<noteq> []" "last l = last r"
  shows "sbits_val l < sbits_val r \<longleftrightarrow> bits_val l < bits_val r"
  using assms by (auto simp: sbits_val_def)

lemma sbits_val_sign:
  assumes "bs \<noteq> []" "known_bits bs"
  shows "sbits_val bs < 0 \<longleftrightarrow> last bs = BIT4_1"
proof -
  have "bits_val bs < 2 ^ length bs" using bits_val_bits_of [of "length bs" "bits_val bs"] bits_of_bits_val [OF assms(2)]
    by (metis pos_mod_bound zero_less_numeral zero_less_power)
  then show ?thesis using bits_val_nonneg [of bs] assms(1) by (auto simp: sbits_val_def)
qed

text \<open>The flags of a signed comparison: ==, < and ===.\<close>

definition signed_flags :: "vvp_bit4 list \<Rightarrow> vvp_bit4 list \<Rightarrow> vvp_bit4 \<times> vvp_bit4 \<times> vvp_bit4" where
  "signed_flags l r =
     (if known_bits l \<and> known_bits r then (bit4_of (l = r), bit4_of (sbits_val l < sbits_val r), bit4_of (l = r))
      else (BIT4_X, BIT4_X, bit4_of (l = r)))"

definition unsigned_flags :: "vvp_bit4 list \<Rightarrow> vvp_bit4 list \<Rightarrow> vvp_bit4 \<times> vvp_bit4 \<times> vvp_bit4" where
  "unsigned_flags l r =
     (if known_bits l \<and> known_bits r then (bit4_of (l = r), bit4_of (bits_val l < bits_val r), bit4_of (l = r))
      else (logic_eq l r, BIT4_X, bit4_of (l = r)))"

definition set_flags456 :: "vvp_bit4 \<times> vvp_bit4 \<times> vvp_bit4 \<Rightarrow> vthread_s \<Rightarrow> vthread_s" where
  "set_flags456 f thr = (case f of (eq, lt, eeq') \<Rightarrow> set_flag 6 eeq' (set_flag 5 lt (set_flag 4 eq thr)))"


lemma do_CMPS_ok:
  assumes "vsize l = vsize r" "0 < vsize l"
  shows "do_CMPS l r thr = Some (set_flags456 (signed_flags (vec_bits l) (vec_bits r)) thr)"
proof -
  let ?n = "vsize l" and ?L = "vec_bits l" and ?R = "vec_bits r"
  have x: "has_xz l = Some (\<not> known_bits ?L)" "has_xz r = Some (\<not> known_bits ?R)" using assms by (simp_all add: has_xz_known)
  have lv: "v4_value l i = ?L ! i" "v4_value r i = ?R ! i" if "i < ?n" for i using that assms by (simp_all add: vec_bits_nth)
  have ne: "?L \<noteq> []" "?R \<noteq> []" using assms by (auto simp flip: length_0_conv)
  have last: "last ?L = ?L ! (?n - 1)" "last ?R = ?R ! (?n - 1)" using ne assms(1) by (simp_all add: last_conv_nth)
  show ?thesis
  proof (cases "known_bits ?L \<and> known_bits ?R")
    case False
    then show ?thesis using assms(1) x by (auto simp: do_CMPS_def signed_flags_def set_flags456_def eeq_bits Let_def)
  next
    case True
    have k1: "last ?L = BIT4_0 \<or> last ?L = BIT4_1" "last ?R = BIT4_0 \<or> last ?R = BIT4_1"
      using known_bits_nth [of ?L "?n - 1"] known_bits_nth [of ?R "?n - 1"] True assms unfolding last by (auto split: if_splits)
    let ?diff = "\<lambda>idx. v4_value l (?n - 1 - idx) \<noteq> v4_value r (?n - 1 - idx)"
    have e: "do_CMPS l r thr =
      (if last ?L = BIT4_1 \<and> last ?R = BIT4_0 then Some (set_flags456 (BIT4_0, BIT4_1, BIT4_0) thr)
       else if last ?L = BIT4_0 \<and> last ?R = BIT4_1 then Some (set_flags456 (BIT4_0, BIT4_0, BIT4_0) thr)
       else case find ?diff [1..<?n] of
              Some idx \<Rightarrow> Some (set_flags456 (BIT4_0, bit4_of (v4_value l (?n - 1 - idx) = BIT4_0), BIT4_0) thr)
            | None \<Rightarrow> Some (set_flags456 (BIT4_1, BIT4_0, BIT4_1) thr))"
      using True x assms lv [of "?n - 1"] by (simp add: do_CMPS_def set_flags456_def last Let_def split: option.split)
    note sign = sbits_val_sign [OF ne(1)] sbits_val_sign [OF ne(2)]
    show ?thesis
    proof (cases "last ?L = last ?R")
      case False
      then have "?L \<noteq> ?R" by auto
      then show ?thesis using False k1 True sign unfolding e signed_flags_def by auto
    next
      case same: True
      note lt = sbits_val_same_sign [OF _ ne(1) same]
      show ?thesis
      proof (cases "find ?diff [1..<?n]")
        case None
        have "?L ! i = ?R ! i" if "i < ?n" for i
        proof (cases "i = ?n - 1")
          case False
          then have m: "?n - 1 - i \<in> set [1..<?n]" "?n - 1 - (?n - 1 - i) = i" using that by auto
          have "\<not> ?diff (?n - 1 - i)" using None m(1) unfolding find_None_iff by blast
          then show ?thesis unfolding m(2) using lv [OF that] by simp
        qed (use same last in simp)
        then have "?L = ?R" using assms(1) by (intro nth_equalityI) simp_all
        then show ?thesis using None same True k1 unfolding e signed_flags_def by auto
      next
        case (Some idx)
        then obtain k where k: "k < length [1..<?n]" "idx = [1..<?n] ! k" "?diff idx" "\<forall>j<k. \<not> ?diff ([1..<?n] ! j)"
          unfolding find_Some_iff by blast
        then have idx: "idx = Suc k" "idx < ?n" by auto
        define j where "j = ?n - 1 - idx"
        have j: "j < length ?L" "?L ! j \<noteq> ?R ! j" using idx k(3) lv by (simp_all add: j_def)
        have top: "\<forall>i. j < i \<and> i < length ?L \<longrightarrow> ?L ! i = ?R ! i"
        proof (intro allI impI)
          fix i assume i: "j < i \<and> i < length ?L"
          show "?L ! i = ?R ! i"
          proof (cases "i = ?n - 1")
            case False
            then have m: "?n - 1 - i - 1 < k" "[1..<?n] ! (?n - 1 - i - 1) = ?n - 1 - i" "?n - 1 - (?n - 1 - i) = i"
              using i idx by (auto simp: j_def)
            show ?thesis using k(4) [rule_format, OF m(1)] lv [of i] i unfolding m(2,3) by simp
          qed (use same last in simp)
        qed
        note d = top_difference [OF _ j top]
        have "bits_val ?L < bits_val ?R \<longleftrightarrow> ?L ! j = BIT4_0" "?L \<noteq> ?R" using d True assms(1) by auto
        then have "signed_flags ?L ?R = (BIT4_0, bit4_of (v4_value l j = BIT4_0), BIT4_0)"
          using True lt assms(1) lv [of j] j(1) by (simp add: signed_flags_def)
        then show ?thesis using Some same k1 unfolding e j_def by auto
      qed
    qed
  qed
qed

lemma words_val_inject:
  assumes "length ls = length rs" "words_val ls = words_val rs"
  shows "ls = rs"
proof (rule nth_equalityI [OF assms(1)], rule bit_word_eqI)
  fix k j assume k: "k < length ls" and "j < LENGTH(64)"
  then have "(64 * k + j) div 64 = k" "(64 * k + j) mod 64 = j" by auto
  then show "bit (ls ! k) j = bit (rs ! k) j"
    using bit_words_val [of ls "64 * k + j"] bit_words_val [of rs "64 * k + j"] k assms by simp
qed

lemma words_val_Cons_less:
  "words_val (l # ls) < words_val (r # rs) \<longleftrightarrow>
    (if words_val ls = words_val rs then l < r else words_val ls < words_val rs)"
proof -
  have b: "0 \<le> uint l" "uint l < 2 ^ 64" "0 \<le> uint r" "uint r < 2 ^ 64" using uint_below by auto
  define x y where "x = words_val ls" and "y = words_val rs"
  have m: "2 ^ 64 * a + 2 ^ 64 \<le> 2 ^ 64 * c" if "a + 1 \<le> c" for a c :: int
    using mult_left_mono [OF that, of "2 ^ 64"] by (simp add: algebra_simps)
  consider "x = y" | "x + 1 \<le> y" | "y + 1 \<le> x" by linarith
  then have "uint l + 2 ^ 64 * x < uint r + 2 ^ 64 * y \<longleftrightarrow> (if x = y then uint l < uint r else x < y)"
  proof cases
    case 2
    then have "uint l + 2 ^ 64 * x < uint r + 2 ^ 64 * y" using b m [of x y] by linarith
    moreover have "x \<noteq> y" "x < y" using 2 by auto
    ultimately show ?thesis by metis
  next
    case 3
    then have "\<not> uint l + 2 ^ 64 * x < uint r + 2 ^ 64 * y" using b m [of y x] by linarith
    moreover have "x \<noteq> y" "\<not> x < y" using 3 by auto
    ultimately show ?thesis by metis
  qed simp
  then show ?thesis by (simp add: x_def y_def word_less_def)
qed

lemma cmpu_words_ok:
  "length ls = length rs \<Longrightarrow> cmpu_words ls rs eq lt =
     (if ls = rs then (eq, lt) else (BIT4_0, bit4_of (words_val ls < words_val rs)))"
proof (induction ls rs eq lt rule: cmpu_words.induct)
  case (1 l ls r rs eq lt)
  then show ?case using words_val_inject [of ls rs] by (auto simp: words_val_Cons_less simp del: words_val_simps)
qed auto

lemma do_CMPU_ok:
  assumes "vsize l = vsize r" "stackable l" "stackable r"
  shows "do_CMPU l r thr = Some (set_flags456 (unsigned_flags (vec_bits l) (vec_bits r)) thr)"
proof -
  let ?n = "vsize l" and ?L = "vec_bits l" and ?R = "vec_bits r"
  let ?w = "\<lambda>x. map (\<lambda>k. word_of_int (x div 2 ^ (64 * k)) :: 64 word) [0..<word_count ?n]"
  have n: "0 < ?n" "?n \<le> 64 * word_count ?n" using assms(2) by (auto simp: stackable_def word_count_def)
  have hard: "of_CMPU_the_hard_way ?n l r thr = set_flags456 (logic_eq ?L ?R, BIT4_X, bit4_of (?L = ?R)) thr"
    by (simp add: of_CMPU_the_hard_way_def cmp_bits_vec [OF assms(1)] set_flags456_def)
  have val: "words_val (?w x) = x" if "0 \<le> x" "x < 2 ^ ?n" for x
  proof -
    have "bit (words_val (?w x)) i \<longleftrightarrow> i < 64 * word_count ?n \<and> bit x i" for i
      by (auto simp: bit_words_val bit_word_of_int_iff bit_drop_bit_eq less_mult_imp_div_less mult.commute
          simp flip: drop_bit_eq_div)
    moreover have "x = take_bit (64 * word_count ?n) x"
      using that n(2) by (metis order_less_le_trans power_increasing one_le_numeral take_bit_int_eq_self)
    ultimately show ?thesis by (metis bit_eqI bit_take_bit_iff)
  qed
  have bound: "bits_val ?L < 2 ^ ?n" "bits_val ?R < 2 ^ ?n" if "known_bits ?L" "known_bits ?R"
    using that bits_val_bits_of [of ?n "bits_val ?L"] bits_val_bits_of [of ?n "bits_val ?R"]
      bits_of_bits_val [of ?L] bits_of_bits_val [of ?R] assms(1)
    by (metis pos_mod_bound vec_bits_length zero_less_numeral zero_less_power)+
  show ?thesis
  proof (cases "known_bits ?L \<and> known_bits ?R")
    case True
    note v = val [OF bits_val_nonneg bound(1)] val [OF bits_val_nonneg bound(2)]
    have "?w (bits_val ?L) = ?w (bits_val ?R) \<longleftrightarrow> ?L = ?R"
      using v True bits_val_eq [of ?L ?R] assms(1) by (metis vec_bits_length)
    then have "cmpu_words (?w (bits_val ?L)) (?w (bits_val ?R)) BIT4_1 BIT4_0 =
        (bit4_of (?L = ?R), bit4_of (bits_val ?L < bits_val ?R))"
      using v True by (subst cmpu_words_ok) auto
    then show ?thesis using True subarray_whole [OF assms(2)] subarray_whole [OF assms(3)] assms(1)
      by (simp add: do_CMPU_def unsigned_flags_def set_flags456_def)
  next
    case False
    then show ?thesis using subarray_whole [OF assms(2)] subarray_whole [OF assms(3)] assms(1) hard
      by (auto simp: do_CMPU_def unsigned_flags_def)
  qed
qed

section \<open>The instructions\<close>

lemma compare_op_ok:
  assumes "stack_vec4 thr = r # l # vs" "f l r thr = Some (upd thr)" "stack_vec4 (upd thr) = stack_vec4 thr"
  shows "compare_op f thr = Some ((upd thr)\<lparr>stack_vec4 := vs\<rparr>)"
  using assms by (simp add: compare_op_def stack_simps pop_vec4_cnt_def)

lemma compare_imm_ok:
  assumes "stack_vec4 thr = l # vs" "immediate_vec4 cp = Some r" "f l r thr = Some (upd thr)"
    "stack_vec4 (upd thr) = stack_vec4 thr"
  shows "compare_imm f cp thr = Some ((upd thr)\<lparr>stack_vec4 := vs\<rparr>)"
  using assms by (simp add: compare_imm_def stack_simps pop_vec4_cnt_def)

end
