(* ===== verification/Vthread_Div.thy ===== *)
theory Vthread_Div
  imports Vthread_Compare "HOL-Library.Signed_Division"
begin

text \<open>
  Division and remainder of the vector stack machine (\<^verbatim>\<open>vvp/vthread.cc\<close>): the division of word
  arrays with its estimated quotient digits, the signed wrappers, and the bitwise remainder of long
  vectors. Vectors of at most 64 bits use the processor's division.
\<close>

unbundle bit_operations_syntax

section \<open>Division of word arrays\<close>

text \<open>\<open>multiply_array_imm\<close> multiplies into an array that it clears first.\<close>

definition multiply_array_imm :: "64 word list \<Rightarrow> 64 word \<Rightarrow> 64 word list" where
  "multiply_array_imm val imm =
     fold (\<lambda>mul_idx res. mul_step (val ! mul_idx) imm mul_idx res) [0..<length val] (replicate (length val) 0)"

lemma max_word_mod:
  fixes b :: "64 word"
  assumes "b \<noteq> 0"
  shows "uint (if (- 1) mod b + 1 \<ge> b then (- 1) mod b + 1 - b else (- 1) mod b + 1) = 2 ^ 64 mod uint b"
    "uint (if (- 1) mod b + 1 \<ge> b then (- 1) div b + 1 else (- 1) div b) = 2 ^ 64 div uint b mod 2 ^ 64"
proof -
  define B t r :: int where "B = uint b" and "t = (2 ^ 64 - 1) div B" and "r = (2 ^ 64 - 1) mod B"
  have B: "0 < B" "B < 2 ^ 64" using assms uint_below [of b] by (auto simp: B_def word_neq_0_conv word_less_def)
  have tr: "B * t + r = 2 ^ 64 - 1" "0 \<le> r" "r < B" using B by (simp_all add: t_def r_def)
  have t0: "0 \<le> t" using B by (simp add: t_def pos_imp_zdiv_nonneg_iff)
  have "1 * t \<le> B * t" using B t0 by (intro mult_right_mono) auto
  then have t: "0 \<le> t" "t < 2 ^ 64" using t0 tr by auto
  have w: "uint ((- 1) mod b) = r" "uint ((- 1) div b) = t"
    by (simp_all add: uint_mod uint_div r_def t_def B_def unsigned_minus_1_eq_mask mask_eq_exp_minus_1)
  have w1: "uint ((- 1) mod b + 1) = r + 1" using w(1) tr B by (simp add: uint_word_ariths mod_pos_pos_trivial)
  have le: "(- 1) mod b + 1 \<ge> b \<longleftrightarrow> r + 1 = B" using w1 tr(3) by (auto simp: word_le_def B_def)
  show "uint (if (- 1) mod b + 1 \<ge> b then (- 1) mod b + 1 - b else (- 1) mod b + 1) = 2 ^ 64 mod uint b"
  proof (cases "r + 1 = B")
    case True
    then have "(2 :: int) ^ 64 = B * (t + 1)" using tr(1) by (simp add: algebra_simps)
    then have "(2 :: int) ^ 64 mod B = 0" by (metis mod_mult_self1_is_0)
    moreover have "uint ((- 1) mod b + 1 - b) = 0" using w1 True by (simp add: uint_word_ariths(2) B_def)
    ultimately show ?thesis using le True by (simp add: B_def)
  next
    case False
    then have "(2 ^ 64) mod B = r + 1" using tr by (intro int_mod_pos_eq [of _ _ t]) auto
    then show ?thesis using le False w1 by (simp add: B_def)
  qed
  show "uint (if (- 1) mod b + 1 \<ge> b then (- 1) div b + 1 else (- 1) div b) = 2 ^ 64 div uint b mod 2 ^ 64"
  proof (cases "r + 1 = B")
    case True
    then have "(2 :: int) ^ 64 = B * (t + 1)" using tr(1) by (simp add: algebra_simps)
    then have "2 ^ 64 div B = t + 1" using B by (metis nonzero_mult_div_cancel_left less_irrefl)
    then show ?thesis using le True w(2) by (simp add: B_def uint_word_ariths)
  next
    case False
    then have "(2 ^ 64) div B = t" using tr by (intro int_div_pos_eq [of _ _ _ "r + 1"]) auto
    then show ?thesis using le False w(2) t by (simp add: B_def mod_pos_pos_trivial)
  qed
qed

text \<open>\<open>divide2words\<close>: the number \<open>{high, a}\<close> of two words divided by one word. A zero divisor traps.\<close>

definition split_step :: "64 word \<Rightarrow> 64 word \<times> 64 word" where
  "split_step b =
     (let tmp_result = (- 1) div b; remain = (- 1) mod b + 1
      in if remain \<ge> b then (tmp_result + 1, remain - b) else (tmp_result, remain))"

definition remainder_step :: "64 word \<Rightarrow> 64 word \<Rightarrow> 64 word \<Rightarrow> 64 word \<times> 64 word" where
  "remainder_step a high remain =
     (let (lo, high') = multiply_with_carry high remain; a' = a + lo
      in (a', if a' < lo then high' + 1 else high'))"

lemma split_step_value:
  assumes "b \<noteq> 0" "split_step b = (t, remain)"
  shows "uint remain = 2 ^ 64 mod uint b" "uint t = 2 ^ 64 div uint b mod 2 ^ 64"
  using max_word_mod [OF assms(1)] assms(2) by (auto simp: split_step_def Let_def split: if_splits)

lemma remainder_step_value:
  assumes "0 < uint b" "uint remain = 2 ^ 64 mod uint b" "remainder_step a high remain = (a', high')"
  shows "uint a' + 2 ^ 64 * uint high' = uint a + uint high * uint remain"
proof -
  obtain lo hi where m: "multiply_with_carry high remain = (lo, hi)" by (cases "multiply_with_carry high remain")
  note v = multiply_with_carry_value [OF m]
  have e: "a' = a + lo" "high' = (if a + lo < lo then hi + 1 else hi)"
    using assms(3) m by (auto simp: remainder_step_def Let_def)
  have bnd: "0 \<le> uint a" "uint a < 2 ^ 64" "0 \<le> uint lo" "uint lo < 2 ^ 64" "0 \<le> uint hi"
    using uint_below by auto
  have "uint high * uint remain \<le> (2 ^ 64 - 1) * (2 ^ 64 - 1)"
    using uint_below [of high] uint_below [of remain] by (intro mult_mono) auto
  then have "2 ^ 64 * uint hi \<le> (2 ^ 64 - 1) * (2 ^ 64 - 1)" using v bnd(3) by linarith
  then have hi: "uint hi < 2 ^ 64 - 1" by simp
  have carry: "a + lo < lo \<longleftrightarrow> uint a + uint lo \<ge> 2 ^ 64"
    using bnd by (auto simp: word_less_def uint_word_ariths mod_add_if_z split: if_splits)
  show ?thesis
  proof (cases "uint a + uint lo \<ge> 2 ^ 64")
    case True
    have "uint (a + lo) = uint a + uint lo - 2 ^ 64" "uint (hi + 1) = uint hi + 1"
      using True bnd hi by (simp_all add: uint_word_ariths mod_pos_pos_trivial mod_add_if_z)
    then show ?thesis using v carry True e by (simp add: algebra_simps)
  next
    case False
    then have "uint (a + lo) = uint a + uint lo" using bnd by (simp add: uint_word_ariths mod_pos_pos_trivial)
    then show ?thesis using v carry False e by simp
  qed
qed

function quotient_loop :: "64 word \<Rightarrow> 64 word \<Rightarrow> 64 word \<Rightarrow> 64 word \<Rightarrow> 64 word" where
  "quotient_loop result a b high =
     (if high = 0 \<or> b = 0 then result + a div b
      else case split_step b of (tmp_result, remain) \<Rightarrow>
           case remainder_step a high remain of (a', high') \<Rightarrow>
             quotient_loop (result + tmp_result * high) a' b high')"
  by auto
termination
proof (relation "measure (\<lambda>(result, a, b, high). nat (2 ^ 64 * uint high + uint a))", simp, goal_cases)
  case (1 result a b high t remain a' high')
  then have b: "b \<noteq> 0" "0 < uint b" "0 < uint high" by (auto simp: word_neq_0_conv word_less_def)
  have s: "split_step b = (t, remain)" and r: "remainder_step a high remain = (a', high')" using 1 by auto
  have "uint remain < 2 ^ 64" using uint_below [of remain] by simp
  then have "uint high * uint remain < uint high * 2 ^ 64" using b by (intro mult_strict_left_mono) auto
  then have "uint a' + 2 ^ 64 * uint high' < uint a + 2 ^ 64 * uint high"
    using remainder_step_value [OF b(2) split_step_value(1) [OF b(1) s] r] by (simp add: mult.commute)
  moreover have "0 < uint a + 2 ^ 64 * uint high" using b(3) by (intro add_nonneg_pos) auto
  ultimately show ?case by (simp add: add.commute)
qed

declare quotient_loop.simps [simp del]

definition divide2words :: "64 word \<Rightarrow> 64 word \<Rightarrow> 64 word \<Rightarrow> 64 word" where
  "divide2words a b high = quotient_loop 0 a b high"

lemma quotient_loop_value:
  "b \<noteq> 0 \<Longrightarrow> uint (quotient_loop result a b high) =
     (uint result + (2 ^ 64 * uint high + uint a) div uint b) mod 2 ^ 64"
proof (induction result a b high rule: quotient_loop.induct)
  case (1 result a b high)
  let ?B = "uint b"
  have B: "0 < ?B" using 1(2) by (auto simp: word_neq_0_conv word_less_def)
  show ?case
  proof (cases "high = 0")
    case True
    then show ?thesis by (subst quotient_loop.simps) (simp add: uint_word_ariths uint_div)
  next
    case False
    obtain t remain where s: "split_step b = (t, remain)" by (cases "split_step b")
    obtain a' high' where r: "remainder_step a high remain = (a', high')" by (cases "remainder_step a high remain")
    note sv = split_step_value [OF 1(2) s]
    note rv = remainder_step_value [OF B sv(1) r]
    define P where "P = (2 ^ 64 :: int)"
    define q where "q = P div ?B"
    have rv': "uint a' + P * uint high' = uint a + uint high * uint remain" using rv by (simp add: P_def)
    have "P = ?B * q + uint remain" using sv(1) by (simp add: P_def q_def)
    then have "P * uint high = ?B * q * uint high + uint remain * uint high" by (simp add: distrib_right)
    then have "2 ^ 64 * uint high + uint a = ?B * (2 ^ 64 div ?B * uint high) + (2 ^ 64 * uint high' + uint a')"
      unfolding P_def [symmetric] q_def [symmetric] using rv' by (simp add: ac_simps)
    then have d: "(2 ^ 64 * uint high + uint a) div ?B = 2 ^ 64 div ?B * uint high + (2 ^ 64 * uint high' + uint a') div ?B"
      using B by simp
    have "uint (quotient_loop result a b high) = uint (quotient_loop (result + t * high) a' b high')"
      using False 1(2) s r by (subst quotient_loop.simps) simp
    also have "\<dots> = (uint (result + t * high) + (2 ^ 64 * uint high' + uint a') div ?B) mod 2 ^ 64"
      using 1(1) [OF _ s [symmetric] r [symmetric]] False 1(2) by simp
    also have "\<dots> = (uint result + 2 ^ 64 div ?B * uint high + (2 ^ 64 * uint high' + uint a') div ?B) mod 2 ^ 64"
      using sv(2) by (simp add: uint_word_ariths mod_simps)
    finally show ?thesis unfolding d by (simp add: add.assoc)
  qed
qed

text \<open>\<open>btop\<close>, the position of the most significant word of the divisor that is not zero, or 0.\<close>

fun find_btop :: "64 word list \<Rightarrow> nat \<Rightarrow> nat" where
  "find_btop bp 0 = 0"
| "find_btop bp (Suc k) = (if bp ! Suc k = 0 then find_btop bp k else Suc k)"

text \<open>The guess of the digit at \<open>cur_ptr\<close>; \<open>None\<close> is the \<^verbatim>\<open>continue\<close> of a digit that stays 0.\<close>

definition guess_digit :: "nat \<Rightarrow> nat \<Rightarrow> 64 word list \<Rightarrow> 64 word list \<Rightarrow> nat \<Rightarrow> 64 word option" where
  "guess_digit cnt btop ap bp cur_ptr =
     (let a = ap ! (cur_ptr + btop); b = bp ! btop
      in if a \<ge> b
         then Some (divide2words a b (if cur_ptr + btop + 1 < cnt then ap ! (cur_ptr + btop + 1) else 0))
         else if cur_ptr + btop + 1 \<ge> cnt then None
         else if ap ! (cur_ptr + btop + 1) = 0 then None
         else Some (divide2words a b (ap ! (cur_ptr + btop + 1))))"

text \<open>The loop that adds the divisor back until the remainder is no longer negative.\<close>

partial_function (option) add_back :: "64 word list \<Rightarrow> 64 word list \<Rightarrow> 64 word \<Rightarrow> (64 word list \<times> 64 word) option" where
  "add_back ap bp cur_res =
     (let (ap', carry) = ripple ulong_add_with_carry ap bp 0; cur_res' = cur_res - 1
      in if carry = 0 then add_back ap' bp cur_res' else Some (ap', cur_res'))"

definition correct_digit :: "64 word list \<Rightarrow> 64 word list \<Rightarrow> 64 word \<Rightarrow> (64 word list \<times> 64 word) option" where
  "correct_digit ap bp cur_res =
     (let diff = multiply_array_imm bp cur_res;
          (ap', carry) = ripple ulong_add_with_carry ap (map (\<lambda>w. NOT w) diff) 1
      in if carry AND 1 = 0 then add_back ap' bp cur_res else Some (ap', cur_res))"

fun divide_loop :: "nat \<Rightarrow> nat \<Rightarrow> 64 word list \<Rightarrow> nat \<Rightarrow> 64 word list \<Rightarrow> 64 word list
    \<Rightarrow> (64 word list \<times> 64 word list) option" where
  "divide_loop cnt btop bp 0 ap result = Some (result, ap)"
| "divide_loop cnt btop bp (Suc cur_ptr) ap result =
     (case guess_digit cnt btop ap bp cur_ptr of
        None \<Rightarrow> divide_loop cnt btop bp cur_ptr ap result
      | Some cur_res \<Rightarrow> do {
          (high, cur_res) \<leftarrow> correct_digit (drop cur_ptr ap) (take (cnt - cur_ptr) bp) cur_res;
          divide_loop cnt btop bp cur_ptr (take cur_ptr ap @ high) (result[cur_ptr := cur_res]) })"

text \<open>The quotient and the remainder, or \<open>Some None\<close> for a zero divisor. An outer \<open>None\<close> would be a
  correction loop that does not end.\<close>

definition divide_bits :: "64 word list \<Rightarrow> 64 word list \<Rightarrow> nat \<Rightarrow> (64 word list \<times> 64 word list) option option" where
  "divide_bits ap bp wid =
     (let cnt = word_count wid; btop = find_btop bp (cnt - 1)
      in if btop = 0 \<and> bp ! 0 = 0 then Some None
         else map_option Some (divide_loop cnt btop bp (cnt - btop) ap (replicate cnt 0)))"

section \<open>The division instructions\<close>

definition x_vec4 :: "nat \<Rightarrow> vvp_vector4" where
  "x_vec4 wid = vector4_fill wid BIT4_X"

definition of_DIV :: "vvp_code \<Rightarrow> vthread_s \<Rightarrow> vthread_s option" where
  "of_DIV cp thr = do {
     (valb, thr) \<leftarrow> pop_vec4 thr;
     (vala, thr) \<leftarrow> pop_vec4 thr;
     assert_opt (vsize vala = vsize valb);
     let wid = vsize vala;
     ap \<leftarrow> v4_subarray vala 0 wid False;
     bp \<leftarrow> v4_subarray valb 0 wid False;
     res \<leftarrow> (case (ap, bp) of
         (Some ap, Some bp) \<Rightarrow>
           if wid \<le> 64
           then (if bp ! 0 = 0 then Some (x_vec4 wid) else v4_setarray vala 0 wid (ap[0 := ap ! 0 div bp ! 0]))
           else do {
             r \<leftarrow> divide_bits ap bp wid;
             (case r of None \<Rightarrow> Some (x_vec4 wid) | Some (result, _) \<Rightarrow> v4_setarray vala 0 wid result) }
       | _ \<Rightarrow> Some (x_vec4 wid));
     Some (push_vec4 res thr) }"

definition negate_words :: "64 word list \<Rightarrow> 64 word list" where
  "negate_words val = fst (ripple ulong_add_with_carry (replicate (length val) 0) (map (\<lambda>w. NOT w) val) 1)"

text \<open>The bits of the last word beyond the width, and their sign extension.\<close>

definition sign_mask :: "nat \<Rightarrow> 64 word" where
  "sign_mask wid = (let sign_bits = word_count wid * 64 - wid in if sign_bits \<noteq> 0 then push_bit (64 - sign_bits) (- 1) else 0)"

definition extend_words :: "nat \<Rightarrow> 64 word list \<Rightarrow> 64 word list" where
  "extend_words wid ws =
     (let k = word_count wid - 1
      in if ws ! k AND drop_bit 1 (sign_mask wid) \<noteq> 0 then ws[k := ws ! k OR sign_mask wid] else ws)"

text \<open>The \<^verbatim>\<open>/\<close> of two \<^verbatim>\<open>long\<close> values truncates.\<close>

definition native_div :: "64 word \<Rightarrow> 64 word \<Rightarrow> 64 word" where
  "native_div tmpa tmpb = word_of_int (sint tmpa sdiv sint tmpb)"

definition signed_short_div :: "nat \<Rightarrow> vvp_vector4 \<Rightarrow> 64 word list \<Rightarrow> 64 word list \<Rightarrow> vvp_vector4 option" where
  "signed_short_div wid vala ap bp =
     (if bp ! 0 = 0 then Some (x_vec4 wid)
      else if sint (ap ! 0) = - (2 ^ 63) \<and> sint (bp ! 0) = - 1
      then v4_set_bit (vector4_fill wid BIT4_0) (wid - 1) BIT4_1
      else v4_setarray vala 0 wid (ap[0 := native_div (ap ! 0) (bp ! 0) AND NOT (sign_mask wid)]))"

definition signed_long_div :: "nat \<Rightarrow> vvp_vector4 \<Rightarrow> 64 word list \<Rightarrow> 64 word list \<Rightarrow> vvp_vector4 option" where
  "signed_long_div wid vala ap bp =
     (let k = word_count wid - 1; na = sint (ap ! k) < 0; nb = sint (bp ! k) < 0
      in do {
        r \<leftarrow> divide_bits (if na then negate_words ap else ap) (if nb then negate_words bp else bp) wid;
        (case r of
           None \<Rightarrow> Some (x_vec4 wid)
         | Some (result, _) \<Rightarrow>
             let result = (if na \<noteq> nb then negate_words result else result)
             in v4_setarray vala 0 wid (result[k := result ! k AND NOT (sign_mask wid)])) })"

definition of_DIV_S :: "vvp_code \<Rightarrow> vthread_s \<Rightarrow> vthread_s option" where
  "of_DIV_S cp = binary_op (\<lambda>vala valb. do {
     assert_opt (vsize vala = vsize valb);
     let wid = vsize vala;
     ap \<leftarrow> v4_subarray vala 0 wid False;
     bp \<leftarrow> v4_subarray valb 0 wid False;
     (case (ap, bp) of
        (Some ap, Some bp) \<Rightarrow>
          (if wid \<le> 64 then signed_short_div else signed_long_div) wid vala (extend_words wid ap) (extend_words wid bp)
      | _ \<Rightarrow> Some (x_vec4 wid)) })"

section \<open>Remainder\<close>

text \<open>Reading both operands into a machine word; \<open>None\<close> is \<^verbatim>\<open>goto x_out\<close>.\<close>

fun mod_read :: "(nat \<Rightarrow> vvp_bit4) \<Rightarrow> (nat \<Rightarrow> vvp_bit4) \<Rightarrow> nat \<Rightarrow> nat \<Rightarrow> 64 word \<Rightarrow> 64 word \<Rightarrow> (64 word \<times> 64 word) option" where
  "mod_read lval rval idx 0 lv rv = Some (lv, rv)"
| "mod_read lval rval idx (Suc k) lv rv =
     (let lb = lval idx; rb = rval idx
      in if bit4_is_xz lb \<or> bit4_is_xz rb then None
         else mod_read lval rval (Suc idx) k
                (lv OR push_bit idx (of_bool (lb = BIT4_1))) (rv OR push_bit idx (of_bool (rb = BIT4_1))))"

definition mod_write :: "64 word \<Rightarrow> vvp_vector4 \<Rightarrow> vvp_vector4 option" where
  "mod_write lv vala = edit_bits (\<lambda>idx. Some (if drop_bit idx lv AND 1 \<noteq> 0 then BIT4_1 else BIT4_0)) 0 (vsize vala) vala"

text \<open>A full adder on \<^verbatim>\<open>unsigned char\<close> bits.\<close>

definition char_add :: "bool \<Rightarrow> bool \<Rightarrow> bool \<Rightarrow> bool \<times> bool" where
  "char_add a b c = (let temp = of_bool a + of_bool b + of_bool c :: nat in (odd temp, temp div 2 \<noteq> 0))"

text \<open>The operands of \<open>do_verylong_mod\<close>: the magnitude of the left one and the complement of the
  magnitude of the right one.\<close>

definition char_neg :: "bool \<Rightarrow> bool list \<Rightarrow> bool list" where
  "char_neg neg bs = (if neg then fst (ripple char_add (map Not bs) (replicate (length bs) False) True) else bs)"

text \<open>The loop of trial subtractions, from position \<open>current\<close> down to 0.\<close>

fun mod_rows :: "nat \<Rightarrow> bool list \<Rightarrow> nat \<Rightarrow> bool list \<Rightarrow> bool list" where
  "mod_rows copylen a k z =
     (case ripple char_add (take copylen (drop k z)) (take copylen a) True of
        (t, carry) \<Rightarrow>
          let z = (if carry then take k z @ t @ drop (k + copylen) z else z)
          in if k = 0 then z else mod_rows copylen a (k - 1) z)"

declare mod_rows.simps [simp del]

definition do_verylong_mod :: "vvp_vector4 \<Rightarrow> vvp_vector4 \<Rightarrow> bool \<Rightarrow> bool \<Rightarrow> vvp_vector4 option" where
  "do_verylong_mod vala valb left_is_neg right_is_neg =
     (let len = vsize vala; lbs = map (v4_value vala) [0..<len]; rbs = map (v4_value valb) [0..<len]
      in if list_ex (\<lambda>(lb, rb). bit4_is_xz lb \<or> bit4_is_xz rb) (zip lbs rbs) then Some (x_vec4 len)
         else let z = char_neg left_is_neg (map (\<lambda>b. b = BIT4_1) lbs) @ [False];
                  a = map Not (char_neg right_is_neg (map (\<lambda>b. b = BIT4_1) rbs)) @ [True];
                  tally = (\<lambda>z. edit_bits (\<lambda>idx. Some (if char_neg left_is_neg (take len z) ! idx then BIT4_1 else BIT4_0))
                                 0 len (x_vec4 len))
              in case find (\<lambda>i. \<not> a ! i) (rev [0..<len]) of
                   None \<Rightarrow> Some (x_vec4 len)
                 | Some mxa \<Rightarrow>
                     (case find (\<lambda>i. z ! i) (rev [0..<len]) of
                        None \<Rightarrow> tally z
                      | Some mxz \<Rightarrow>
                          if mxa > mxz then tally z else tally (mod_rows (mxa + 2) a (mxz - mxa) z)))"

definition of_MOD :: "vvp_code \<Rightarrow> vthread_s \<Rightarrow> vthread_s option" where
  "of_MOD cp = binary_op (\<lambda>vala valb. do {
     assert_opt (vsize vala = vsize valb);
     let wid = vsize vala;
     (if wid \<le> 64
      then (case mod_read (v4_value vala) (v4_value valb) 0 wid 0 0 of
              None \<Rightarrow> Some (x_vec4 wid)
            | Some (lv, rv) \<Rightarrow> if rv = 0 then Some (x_vec4 wid) else mod_write (lv mod rv) vala)
      else do_verylong_mod vala valb False False) })"

definition mod_extend :: "nat \<Rightarrow> 64 word \<Rightarrow> 64 word" where
  "mod_extend wid v = (if wid < 64 \<and> v AND push_bit (wid - 1) 1 \<noteq> 0 then v OR push_bit wid (- 1) else v)"

definition of_MOD_S :: "vvp_code \<Rightarrow> vthread_s \<Rightarrow> vthread_s option" where
  "of_MOD_S cp = binary_op (\<lambda>vala valb. do {
     assert_opt (vsize vala = vsize valb);
     let wid = vsize vala;
     (if wid \<le> 64
      then (case mod_read (v4_value vala) (v4_value valb) 0 wid 0 0 of
              None \<Rightarrow> Some (x_vec4 wid)
            | Some (lv, rv) \<Rightarrow>
                if rv = 0 then Some (x_vec4 wid)
                else if sint lv = - (2 ^ 63) \<and> sint rv = - 1 then Some (vector4_fill wid BIT4_0)
                else mod_write (word_of_int (sint (mod_extend wid lv) smod sint (mod_extend wid rv))) vala)
      else do_verylong_mod vala valb (v4_value vala (wid - 1) = BIT4_1) (v4_value valb (wid - 1) = BIT4_1)) })"

end
