(* ===== verification/Vthread_Quotient.thy ===== *)
theory Vthread_Quotient
  imports Vthread_Div
begin

text \<open>
  The quotient digits of \<open>divide_bits\<close>: a guess that is not too small and whose product with the
  divisor fits the array is corrected to the true digit, and the loop then leaves the quotient and
  the remainder of the division of the numbers.
\<close>

unbundle bit_operations_syntax

section \<open>One digit\<close>

lemma ripple_words:
  assumes "length as = length bs" "c \<le> 1" "ripple ulong_add_with_carry as bs c = (ss, c')"
  shows "words_val ss + 2 ^ (64 * length as) * uint c' = words_val as + words_val bs + uint c"
    "c' = 0 \<or> c' = 1" "length ss = length as"
proof -
  show "words_val ss + 2 ^ (64 * length as) * uint c' = words_val as + words_val bs + uint c"
    using ulong_adder.ripple_value [OF assms(1) _ _ assms(2,3)] by (simp add: words_val_def list_all_iff power_mult)
  have "c' \<le> 1" using ulong_adder.ripple_ok [OF assms(1) _ _ assms(2,3)] by (simp add: list_all_iff)
  then show "c' = 0 \<or> c' = 1" by (auto simp: word_le_nat_alt word_unat_eq_iff le_Suc_eq)
  show "length ss = length as" using ripple_length [OF assms(1), of ulong_add_with_carry c] assms(3) by simp
qed

lemma multiply_array_imm_value:
  "length (multiply_array_imm val imm) = length val"
  "words_val (multiply_array_imm val imm) = (words_val val * uint imm) mod 2 ^ (64 * length val)"
proof -
  let ?f = "\<lambda>k. fold (\<lambda>i res. mul_step (val ! i) imm i res) [0..<k] (replicate (length val) 0)"
  let ?N = "2 ^ (64 * length val) :: int"
  have z: "words_val (replicate n 0) = 0" for n by (induction n) simp_all
  have "length (?f k) = length val \<and> words_val (?f k) = (words_val (take k val) * uint imm) mod ?N"
    if "k \<le> length val" for k
    using that
  proof (induction k)
    case (Suc k)
    then have IH: "length (?f k) = length val" "words_val (?f k) = (words_val (take k val) * uint imm) mod ?N" by auto
    have "words_val (?f (Suc k)) = (words_val (?f k) + 2 ^ (64 * k) * (uint (val ! k) * uint imm)) mod ?N"
      using mul_step_value [of k "?f k"] IH(1) Suc.prems by simp
    also have "\<dots> = (words_val (take (Suc k) val) * uint imm) mod ?N"
      unfolding IH(2) using Suc.prems by (simp add: words_val_take_Suc mod_simps distrib_right mult.assoc)
    finally show ?case using IH(1) by simp
  qed (simp add: z)
  from this [of "length val"] show "length (multiply_array_imm val imm) = length val"
    "words_val (multiply_array_imm val imm) = (words_val val * uint imm) mod 2 ^ (64 * length val)"
    by (simp_all add: multiply_array_imm_def)
qed

lemma add_back_ok:
  "length ap = length bp \<Longrightarrow> words_val ap = X + 2 ^ (64 * length bp) \<Longrightarrow> X < 0 \<Longrightarrow> 0 < words_val bp \<Longrightarrow>
   \<exists>ap' g'. add_back ap bp g = Some (ap', g') \<and> length ap' = length bp \<and>
     words_val ap' = X mod words_val bp \<and> uint g' = (uint g + X div words_val bp) mod 2 ^ 64"
proof (induction "nat (- X)" arbitrary: X ap g rule: less_induct)
  case less
  let ?B = "words_val bp" and ?M = "2 ^ (64 * length bp) :: int"
  obtain S c where r: "ripple ulong_add_with_carry ap bp 0 = (S, c)" by (cases "ripple ulong_add_with_carry ap bp 0")
  note rw = ripple_words [OF less.prems(1) _ r]
  have v: "words_val S + ?M * uint c = X + ?M + ?B" "c = 0 \<or> c = 1" "length S = length bp"
    using rw less.prems by auto
  have g1: "uint (g - 1) = (uint g - 1) mod 2 ^ 64" by (simp add: uint_word_ariths(2))
  show ?case
  proof (cases "c = 0")
    case True
    then have S: "words_val S = (X + ?B) + ?M" using v(1) by simp
    then have "X + ?B < 0" using words_val_bound [of S] v(3) by simp
    then obtain ap' g' where IH: "add_back S bp (g - 1) = Some (ap', g')" "length ap' = length bp"
        "words_val ap' = (X + ?B) mod ?B" "uint g' = (uint (g - 1) + (X + ?B) div ?B) mod 2 ^ 64"
      using less.hyps [of "X + ?B" S "g - 1"] less.prems(3,4) v(3) S by auto
    have "uint g' = (uint g + X div ?B) mod 2 ^ 64"
    proof -
      have "(X + ?B) div ?B = X div ?B + 1" using less.prems(4) by (simp add: div_add_self2)
      then show ?thesis unfolding IH(4) g1 by (simp only: mod_add_left_eq) (simp add: algebra_simps)
    qed
    moreover have "add_back ap bp g = Some (ap', g')"
      using True r IH(1) by (subst add_back.simps) simp
    ultimately show ?thesis using IH(2,3) by auto
  next
    case False
    then have S: "words_val S = X + ?B" using v(1,2) by simp
    then have "0 \<le> X + ?B" using words_val_nonneg [of S] by simp
    then have "X mod ?B = X + ?B" "X div ?B = - 1"
      using less.prems(3) int_mod_pos_eq [of X ?B "- 1" "X + ?B"] int_div_pos_eq [of X ?B "- 1" "X + ?B"] by auto
    moreover have "add_back ap bp g = Some (S, g - 1)"
      using False r by (subst add_back.simps) simp
    ultimately show ?thesis using S v(3) g1 by simp
  qed
qed

text \<open>A guess is good when it is not below the digit and its product fits the array.\<close>

definition good_guess :: "int \<Rightarrow> int \<Rightarrow> nat \<Rightarrow> 64 word \<Rightarrow> bool" where
  "good_guess Y B n g \<longleftrightarrow> Y div B \<le> uint g \<and> B * uint g < 2 ^ (64 * n)"

lemma correct_digit_ok:
  assumes "length ap = length bp" "0 < words_val bp" "good_guess (words_val ap) (words_val bp) (length bp) g"
  shows "\<exists>ap' g'. correct_digit ap bp g = Some (ap', g') \<and> length ap' = length bp \<and>
     words_val ap' = words_val ap mod words_val bp \<and> uint g' = words_val ap div words_val bp"
proof -
  let ?B = "words_val bp" and ?M = "2 ^ (64 * length bp) :: int" and ?Y = "words_val ap"
  let ?D = "map (\<lambda>w. NOT w) (multiply_array_imm bp g)"
  have lenD: "length ap = length ?D" using multiply_array_imm_value(1) assms(1) by simp
  have "0 \<le> ?B * uint g" "?B * uint g < ?M" using assms(2,3) by (auto simp: good_guess_def)
  then have D: "words_val ?D = ?M - 1 - ?B * uint g"
    using multiply_array_imm_value [of bp g] by (simp add: words_val_not mod_pos_pos_trivial)
  obtain S c where r: "ripple ulong_add_with_carry ap ?D 1 = (S, c)" by (cases "ripple ulong_add_with_carry ap ?D 1")
  note rw = ripple_words [OF lenD _ r]
  have v: "words_val S + ?M * uint c = ?Y - ?B * uint g + ?M" "c = 0 \<or> c = 1" "length S = length bp"
    using rw assms(1) D by auto
  have ge: "?Y div ?B \<le> uint g" using assms(3) by (simp add: good_guess_def)
  show ?thesis
  proof (cases "c = 0")
    case True
    define X where "X = ?Y - ?B * uint g"
    have S: "words_val S = X + ?M" using v(1) True by (simp add: X_def)
    then have "X < 0" using words_val_bound [of S] v(3) by simp
    then obtain ap' g' where b: "add_back S bp g = Some (ap', g')" "length ap' = length bp"
        "words_val ap' = X mod ?B" "uint g' = (uint g + X div ?B) mod 2 ^ 64"
      using add_back_ok [OF v(3) S _ assms(2), of g] by auto
    have "X = ?Y + ?B * (- uint g)" by (simp add: X_def)
    then have X: "X mod ?B = ?Y mod ?B" "X div ?B = ?Y div ?B - uint g"
      using mod_mult_self2 [of ?Y ?B "- uint g"] div_mult_self2 [of ?B ?Y "- uint g"] assms(2) by simp_all
    have "0 \<le> ?Y div ?B" using assms(2) words_val_nonneg [of ap] by (simp add: pos_imp_zdiv_nonneg_iff)
    moreover have "?Y div ?B < 18446744073709551616" using ge uint_below [of g] by linarith
    ultimately have "uint g' = ?Y div ?B" using b(4) X(2) by (simp add: mod_pos_pos_trivial)
    then show ?thesis using True r b X(1) by (simp add: correct_digit_def)
  next
    case False
    then have S: "words_val S = ?Y - ?B * uint g" using v(1,2) by simp
    then have le: "?B * uint g \<le> ?Y" using words_val_nonneg [of S] by simp
    then have "uint g \<le> ?Y div ?B" using zdiv_mono1 [OF le assms(2)] assms(2) by simp
    then have q: "uint g = ?Y div ?B" using ge by simp
    then have "words_val S = ?Y mod ?B" using S by (simp add: minus_mult_div_eq_mod)
    then show ?thesis using False r q v(2,3) by (simp add: correct_digit_def)
  qed
qed

section \<open>The loop\<close>

text \<open>The division is correct when every guess the loop can make at a partial remainder is good, and
  every digit that the loop skips is 0.\<close>

definition guess_ok :: "nat \<Rightarrow> nat \<Rightarrow> 64 word list \<Rightarrow> 64 word list \<Rightarrow> nat \<Rightarrow> bool" where
  "guess_ok cnt btop bp ap c =
     (case guess_digit cnt btop ap bp c of
        None \<Rightarrow> words_val (drop c ap) < words_val bp
      | Some g \<Rightarrow> good_guess (words_val (drop c ap)) (words_val bp) (cnt - c) g)"

lemma words_val_drop: "words_val ap = words_val (take c ap) + 2 ^ (64 * min c (length ap)) * words_val (drop c ap)"
  using words_val_append [of "take c ap" "drop c ap"] by (simp add: min.commute)

lemma div_low_high:
  fixes L Y B P :: int
  assumes "0 \<le> L" "L < P" "0 < B"
  shows "(L + P * Y) div B = P * (Y div B) + (L + P * (Y mod B)) div B"
    "(L + P * Y) mod B = (L + P * (Y mod B)) mod B" "L + P * (Y mod B) < B * P"
proof -
  have e: "L + P * Y = (L + P * (Y mod B)) + B * (P * (Y div B))"
    using mult_div_mod_eq [of B Y] by (metis (no_types) add.assoc add.commute distrib_left mult.left_commute)
  then show "(L + P * Y) div B = P * (Y div B) + (L + P * (Y mod B)) div B"
    "(L + P * Y) mod B = (L + P * (Y mod B)) mod B"
    unfolding e using assms(3) by simp_all
  have "Y mod B + 1 \<le> B" using pos_mod_bound [OF assms(3), of Y] by simp
  then have "P * (Y mod B + 1) \<le> P * B" using assms(1,2) by (intro mult_left_mono) auto
  then show "L + P * (Y mod B) < B * P" using assms(2) by (simp add: distrib_left mult.commute)
qed

lemma divide_loop_ok:
  assumes "0 < words_val bp" "btop < cnt" "length bp = cnt"
    "\<And>ap c. length ap = cnt \<Longrightarrow> c < cnt - btop \<Longrightarrow> words_val (drop c ap) < words_val bp * 2 ^ 64 \<Longrightarrow>
       (c + 1 = cnt - btop \<Longrightarrow> words_val ap = A) \<Longrightarrow> guess_ok cnt btop bp ap c"
    "\<And>c. c < cnt - btop \<Longrightarrow> words_val (take (cnt - c) bp) = words_val bp"
  shows "length ap = cnt \<Longrightarrow> length res = cnt \<Longrightarrow> k \<le> cnt - btop \<Longrightarrow>
    words_val ap < words_val bp * 2 ^ (64 * k) \<Longrightarrow> take k res = replicate k 0 \<Longrightarrow>
    (k = cnt - btop \<Longrightarrow> words_val ap = A) \<Longrightarrow>
    \<exists>res' ap'. divide_loop cnt btop bp k ap res = Some (res', ap') \<and> length res' = cnt \<and> length ap' = cnt \<and>
      words_val res' = words_val res + words_val ap div words_val bp \<and> words_val ap' = words_val ap mod words_val bp"
proof (induction k arbitrary: ap res)
  case 0
  then show ?case by (simp add: words_val_nonneg div_pos_pos_trivial mod_pos_pos_trivial)
next
  case (Suc c)
  let ?B = "words_val bp" and ?P = "2 ^ (64 * c) :: int" and ?Y = "words_val (drop c ap)" and ?L = "words_val (take c ap)"
  have c: "c < cnt - btop" "c < cnt" using Suc.prems(3) by auto
  have split: "words_val ap = ?L + ?P * ?Y" using words_val_drop [of ap c] Suc.prems(1) c by simp
  have L: "0 \<le> ?L" "?L < ?P" using words_val_nonneg words_val_bound [of "take c ap"] Suc.prems(1) c by auto
  have Y: "?Y < ?B * 2 ^ 64"
  proof -
    have "?B * 2 ^ (64 * Suc c) = ?P * (?B * 2 ^ 64)" by (simp add: power_add)
    moreover have "?P * ?Y < ?B * 2 ^ (64 * Suc c)" using Suc.prems(4) split L(1) by linarith
    ultimately have "?P * ?Y < ?P * (?B * 2 ^ 64)" by (simp only:)
    moreover have "0 < ?P" by simp
    ultimately show ?thesis by (simp only: mult_less_cancel_left_pos)
  qed
  have g: "guess_ok cnt btop bp ap c" using assms(4) [OF Suc.prems(1) c(1) Y] Suc.prems(6) by simp
  note dl = div_low_high [OF L assms(1), of ?Y]
  have tr: "take c res = replicate c 0"
    using arg_cong [OF Suc.prems(5), of "take c"] by (simp add: min_def del: replicate_Suc)
  have r0: "res ! c = 0" using arg_cong [OF Suc.prems(5), of "\<lambda>xs. xs ! c"] by (simp del: replicate_Suc)
  show ?case
  proof (cases "guess_digit cnt btop ap bp c")
    case None
    then have "?Y < ?B" using g by (simp add: guess_ok_def)
    then have "?Y mod ?B = ?Y" using words_val_nonneg by (simp add: mod_pos_pos_trivial)
    then have "words_val ap < ?B * ?P" using dl(3) split by simp
    then show ?thesis using Suc.IH [OF Suc.prems(1,2) _ _ tr] c None by simp
  next
    case (Some q)
    then have "good_guess ?Y (words_val (take (cnt - c) bp)) (cnt - c) q"
      using g assms(5) [OF c(1)] by (simp add: guess_ok_def)
    then obtain hi q' where d: "correct_digit (drop c ap) (take (cnt - c) bp) q = Some (hi, q')"
        "length hi = cnt - c" "words_val hi = ?Y mod ?B" "uint q' = ?Y div ?B"
      using correct_digit_ok [of "drop c ap" "take (cnt - c) bp" q] Suc.prems(1) assms(1,3) assms(5) [OF c(1)] c by auto
    let ?ap = "take c ap @ hi" and ?res = "res[c := q']"
    have ap: "words_val ?ap = ?L + ?P * (?Y mod ?B)" using d(3) Suc.prems(1) c by (simp add: words_val_append)
    have "words_val ?res = words_val res + ?P * (?Y div ?B)"
    proof -
      have "words_val xs = words_val (take (Suc c) xs) + 2 ^ (64 * Suc c) * words_val (drop (Suc c) xs)"
        if "length xs = cnt" for xs
        using words_val_drop [of xs "Suc c"] that c by (simp add: min_def)
      from this [of ?res] this [of res] have "words_val ?res = words_val res + ?P * uint q'"
        using Suc.prems(2) c r0 by (simp add: words_val_take_Suc del: mult_Suc_right)
      then show ?thesis using d(4) by simp
    qed
    moreover have "\<exists>res' ap'. divide_loop cnt btop bp c ?ap ?res = Some (res', ap') \<and> length res' = cnt \<and> length ap' = cnt \<and>
        words_val res' = words_val ?res + words_val ?ap div ?B \<and> words_val ap' = words_val ?ap mod ?B"
      by (rule Suc.IH) (use Suc.prems c d(2) ap dl(3) tr in auto)
    ultimately show ?thesis using Some d(1) dl(1,2) ap split by auto
  qed
qed

section \<open>Guesses that are good\<close>

lemma find_btop_top:
  "k < length bp \<Longrightarrow> find_btop bp k \<le> k \<and> (\<forall>i. find_btop bp k < i \<and> i \<le> k \<longrightarrow> bp ! i = 0) \<and>
    (find_btop bp k = 0 \<or> bp ! find_btop bp k \<noteq> 0)"
  by (induction k) (auto simp: le_Suc_eq)

lemma words_val_zeros: "list_all (\<lambda>w. w = 0) ws \<Longrightarrow> words_val ws = 0"
  by (induction ws) auto

lemma words_val_top:
  assumes "\<And>i. k \<le> i \<Longrightarrow> i < length bp \<Longrightarrow> bp ! i = 0"
  shows "words_val (take k bp) = words_val bp"
proof -
  have "words_val (drop k bp) = 0" by (rule words_val_zeros) (use assms in \<open>auto simp: list_all_length\<close>)
  then show ?thesis using words_val_drop [of bp k] by simp
qed

lemma divide2words_value: "b \<noteq> 0 \<Longrightarrow> uint (divide2words a b high) = (2 ^ 64 * uint high + uint a) div uint b mod 2 ^ 64"
  by (simp add: divide2words_def quotient_loop_value)

lemma div_le_quotient:
  assumes "0 < B" "Y < B * (q + 1)"
  shows "Y div B \<le> (q :: int)"
proof (rule ccontr)
  assume "\<not> Y div B \<le> q"
  then have "B * (q + 1) \<le> B * (Y div B)" using assms(1) by (intro mult_left_mono) auto
  also have "\<dots> \<le> Y" using mult_div_mod_eq [of B Y] pos_mod_sign [of B Y] assms(1) by linarith
  finally show False using assms(2) by simp
qed

lemma guess_one_word:
  assumes "length ap = cnt" "length bp = cnt" "c < cnt" "words_val bp = uint (bp ! 0)" "bp ! 0 \<noteq> 0"
    "words_val (drop c ap) < words_val bp * 2 ^ 64"
  shows "guess_ok cnt 0 bp ap c"
proof -
  let ?Y = "words_val (drop c ap)" and ?a = "ap ! c" and ?b = "bp ! 0"
  define high where "high = (if c + 1 < cnt then ap ! (c + 1) else 0)"
  have B: "0 < uint ?b" "uint ?b < 2 ^ 64" using assms(5) uint_below [of ?b] by (auto simp: word_neq_0_conv word_less_def)
  have d: "drop c ap = ?a # drop (c + 1) ap" using assms(1,3) by (simp add: Cons_nth_drop_Suc)
  have Y: "?Y = uint ?a + 2 ^ 64 * uint high"
  proof (cases "c + 1 < cnt")
    case True
    then have d2: "drop (c + 1) ap = ap ! (c + 1) # drop (c + 2) ap" using assms(1) by (simp add: Cons_nth_drop_Suc)
    define T where "T = words_val (drop (c + 2) ap)"
    have v: "?Y = uint ?a + 2 ^ 64 * (uint high + 2 ^ 64 * T)"
      unfolding d d2 using True by (simp add: high_def T_def)
    have T: "0 \<le> T" by (simp add: T_def words_val_nonneg)
    have "?Y = uint ?a + 18446744073709551616 * uint high + 340282366920938463463374607431768211456 * T"
      using v by simp
    moreover have "?Y < uint ?b * 18446744073709551616" "uint ?b < 18446744073709551616"
      using assms(4,6) B(2) by simp_all
    ultimately have "T < 1" using uint_below [of ?a] uint_below [of high] uint_ge_0 [of ?a]
        uint_ge_0 [of high] by linarith
    then have "T = 0" using T by simp
    then show ?thesis using v by simp
  next
    case False
    then show ?thesis unfolding d using assms(1) by (simp add: high_def)
  qed
  have good: "good_guess ?Y (words_val bp) (cnt - c) (divide2words ?a ?b high)"
  proof -
    have "?Y < uint ?b * 2 ^ 64" using assms(4,6) by simp
    then have "?Y div uint ?b \<le> 2 ^ 64 - 1" using B by (intro div_le_quotient) auto
    then have "?Y div uint ?b < 2 ^ 64" by simp
    moreover have "0 \<le> ?Y div uint ?b" using B words_val_nonneg by (simp add: pos_imp_zdiv_nonneg_iff)
    ultimately have g: "uint (divide2words ?a ?b high) = ?Y div uint ?b"
      using divide2words_value [OF assms(5)] Y by (simp add: add.commute mod_pos_pos_trivial)
    have "uint ?b * (?Y div uint ?b) \<le> ?Y" using mult_div_mod_eq [of "uint ?b" ?Y] pos_mod_sign [of "uint ?b" ?Y] B by linarith
    also have "?Y < 2 ^ (64 * (cnt - c))" using words_val_bound [of "drop c ap"] assms(1) by simp
    finally show ?thesis using g assms(4) by (simp add: good_guess_def)
  qed
  show ?thesis
  proof (cases "?a \<ge> ?b")
    case True
    then show ?thesis using good by (auto simp: guess_ok_def guess_digit_def high_def split: if_splits)
  next
    case False
    then have "high = 0 \<Longrightarrow> ?Y < words_val bp" using Y assms(4) by (simp add: word_le_def)
    then show ?thesis using False good by (auto simp: guess_ok_def guess_digit_def high_def split: if_splits)
  qed
qed

lemma guess_two_words:
  assumes "length ap = 2" "length bp = 2" "bp ! 1 \<noteq> 0" "words_val ap \<le> 2 ^ 127"
  shows "guess_ok 2 1 bp ap 0"
proof -
  obtain a0 a b0 b where ab: "ap = [a0, a]" "bp = [b0, b]"
    using assms(1,2) by (auto simp: numeral_2_eq_2 length_Suc_conv)
  define q where "q = uint a div uint b"
  define W :: int where "W = 2 ^ 64"
  have v: "words_val ap = uint a0 + W * uint a" "words_val bp = uint b0 + W * uint b" by (simp_all add: ab W_def)
  have r: "0 \<le> uint a0" "uint a0 < W" "0 \<le> uint b0" "uint b0 < W" "0 \<le> uint a" "uint a < W" using uint_below by (auto simp: W_def)
  have b: "1 \<le> uint b" "b \<noteq> 0" using assms(3) ab by (auto simp: word_neq_0_conv word_less_def)
  have e: "uint a = uint b * q + uint a mod uint b" "0 \<le> uint a mod uint b" "uint a mod uint b < uint b"
    using b by (simp_all add: q_def)
  have q0: "0 \<le> q" using b r(5) by (simp add: q_def pos_imp_zdiv_nonneg_iff)
  have q1: "uint a + 1 \<le> uint b * (q + 1)" using e by (simp add: distrib_left)
  have "uint a0 + 18446744073709551616 * uint a \<le> 170141183460469231731687303715884105728"
    using assms(4) v(1) by (simp add: W_def)
  then have "uint a \<le> 9223372036854775808" using r(1) by linarith
  then have a2: "2 * uint a \<le> W" by (simp add: W_def)
  have bq: "1 * q \<le> uint b * q" using b(1) q0 by (intro mult_right_mono) auto
  have B0: "0 < words_val bp" using v(2) r(3) b(1) by (simp add: W_def add_nonneg_pos)
  have "words_val ap div words_val bp \<le> q"
  proof (rule div_le_quotient [OF B0])
    have "W * (uint a + 1) \<le> W * (uint b * (q + 1))" using q1 by (intro mult_left_mono) (auto simp: W_def)
    moreover have "0 \<le> uint b0 * (q + 1)" using r(3) q0 by (intro mult_nonneg_nonneg) auto
    ultimately show "words_val ap < words_val bp * (q + 1)"
      unfolding v distrib_right [of "uint b0"] mult.assoc [of W] distrib_left [of W "uint a"] using r(2) by linarith
  qed
  moreover have "words_val bp * q < 2 ^ 128"
  proof (cases "q = 0")
    case False
    have "words_val bp * q < (W * (uint b + 1)) * q"
      using False q0 r(4) unfolding v by (intro mult_strict_right_mono) (auto simp: distrib_left)
    also have "\<dots> = W * (uint b * q + q)" by (simp add: algebra_simps)
    also have "\<dots> \<le> W * W" using e bq a2 by (intro mult_left_mono) (auto simp: W_def)
    finally show ?thesis by (simp add: W_def)
  qed simp
  moreover have "uint (divide2words a b 0) = q"
  proof -
    have "q \<le> uint a" using bq e by linarith
    then show ?thesis using divide2words_value [OF b(2), of a 0] q0 r by (simp add: q_def W_def mod_pos_pos_trivial)
  qed
  ultimately have good: "good_guess (words_val ap) (words_val bp) 2 (divide2words a b 0)"
    by (simp add: good_guess_def)
  have "words_val ap < words_val bp" if "\<not> b \<le> a"
  proof -
    have "W * (uint a + 1) \<le> W * uint b" using that by (intro mult_left_mono) (auto simp: W_def word_le_def)
    then have "W * uint a + W \<le> W * uint b" by (simp add: distrib_left)
    then show ?thesis unfolding v using r(2,3) by linarith
  qed
  then show ?thesis using good by (auto simp: guess_ok_def guess_digit_def ab)
qed

section \<open>Division of word arrays\<close>

lemma words_val_zero_iff: "words_val ws = 0 \<longleftrightarrow> list_all (\<lambda>w. w = 0) ws"
proof
  show "words_val ws = 0 \<Longrightarrow> list_all (\<lambda>w. w = 0) ws"
  proof (induction ws)
    case (Cons w ws)
    then have "uint w = 0 \<and> words_val ws = 0" using words_val_nonneg [of ws] uint_ge_0 [of w]
      by (simp add: add_nonneg_eq_0_iff)
    then show ?case using Cons.IH by (simp add: word_uint_eq_iff)
  qed simp
qed (rule words_val_zeros)

lemma divide_bits_zero:
  "length bp = word_count wid \<Longrightarrow> 0 < wid \<Longrightarrow> words_val bp = 0 \<Longrightarrow> divide_bits ap bp wid = Some None"
  using find_btop_top [of "word_count wid - 1" bp]
  by (auto simp: divide_bits_def words_val_zero_iff list_all_length word_count_def Let_def)

lemma divide_bits_ok:
  assumes "length ap = word_count wid" "length bp = word_count wid" "0 < words_val bp"
    "words_val bp < 2 ^ 64 \<or> (word_count wid = 2 \<and> words_val ap \<le> 2 ^ 127)"
  shows "\<exists>res ap'. divide_bits ap bp wid = Some (Some (res, ap')) \<and> length res = word_count wid \<and>
     words_val res = words_val ap div words_val bp \<and> words_val ap' = words_val ap mod words_val bp"
proof -
  let ?n = "word_count wid" and ?B = "words_val bp"
  define btop where "btop = find_btop bp (?n - 1)"
  have n: "0 < ?n" using assms(2,3) by (cases bp) auto
  then have t: "btop \<le> ?n - 1" "\<And>i. btop < i \<Longrightarrow> i \<le> ?n - 1 \<Longrightarrow> bp ! i = 0" "btop = 0 \<or> bp ! btop \<noteq> 0"
    using find_btop_top [of "?n - 1" bp] assms(2) by (auto simp: btop_def)
  have top: "words_val (take k bp) = ?B" if "btop < k" for k
    by (rule words_val_top) (use t(2) assms(2) that in auto)
  have nz: "bp ! btop \<noteq> 0"
  proof (cases "btop = 0")
    case True
    then show ?thesis using top [of 1] assms(2,3) n by (cases bp) auto
  qed (use t(3) in simp)
  have "2 ^ (64 * btop) * 1 \<le> 2 ^ (64 * btop) * uint (bp ! btop)"
    using nz by (intro mult_left_mono) (auto simp: word_neq_0_conv word_less_def)
  also have "\<dots> \<le> words_val (take (Suc btop) bp)"
    using t(1) n assms(2) words_val_nonneg by (simp add: words_val_take_Suc)
  finally have big: "2 ^ (64 * btop) \<le> ?B" using top by simp
  have guess: "guess_ok ?n btop bp ap0 c" if h: "length ap0 = ?n" "c < ?n - btop" "words_val (drop c ap0) < ?B * 2 ^ 64"
    "c + 1 = ?n - btop \<Longrightarrow> words_val ap0 = words_val ap" for ap0 c
  proof (cases "btop = 0")
    case True
    then have "?B = uint (bp ! 0)" using top [of 1] assms(2) n by (cases bp) auto
    then show ?thesis using guess_one_word [of ap0 ?n bp c] h(1-3) assms(2) nz True by simp
  next
    case False
    note big
    moreover have "(2 :: int) ^ 64 \<le> 2 ^ (64 * btop)" using False by (intro power_increasing) auto
    ultimately have "\<not> ?B < 2 ^ 64" by linarith
    then have two: "?n = 2" "words_val ap \<le> 2 ^ 127" using assms(4) by auto
    then have "btop = 1" "c = 0" using False t(1) h(2) by auto
    then show ?thesis using guess_two_words [of ap0 bp] h assms(2) two nz by simp
  qed
  have start: "words_val ap < ?B * 2 ^ (64 * (?n - btop))"
  proof -
    note big
    then have "2 ^ (64 * btop) * 2 ^ (64 * (?n - btop)) \<le> ?B * 2 ^ (64 * (?n - btop))" by (intro mult_right_mono) auto
    moreover have "(2 :: int) ^ (64 * btop) * 2 ^ (64 * (?n - btop)) = 2 ^ (64 * ?n)"
      using t(1) n by (simp add: power_add [symmetric] distrib_left [symmetric])
    ultimately show ?thesis using words_val_bound [of ap] assms(1) by simp
  qed
  have "\<exists>res' ap'. divide_loop ?n btop bp (?n - btop) ap (replicate ?n 0) = Some (res', ap') \<and> length res' = ?n \<and>
      length ap' = ?n \<and> words_val res' = words_val (replicate ?n 0) + words_val ap div ?B \<and> words_val ap' = words_val ap mod ?B"
    by (rule divide_loop_ok [where A = "words_val ap"]) (use assms guess start top t(1) n in auto)
  moreover have "words_val (replicate ?n 0) = 0" by (simp add: words_val_zeros list_all_length)
  ultimately show ?thesis unfolding divide_bits_def Let_def btop_def [symmetric] using nz by auto
qed

end
