(* ===== verification/Vthread_DivOk.thy ===== *)
theory Vthread_DivOk
  imports Vthread_Quotient
begin

text \<open>
  The division and remainder instructions on lists of bits: \<open>%div\<close> and \<open>%div/s\<close> where their word
  division is exact, \<open>%mod\<close> and \<open>%mod/s\<close> for every width.
\<close>

unbundle bit_operations_syntax

section \<open>Vectors and arrays of words\<close>

definition words_of :: "nat \<Rightarrow> int \<Rightarrow> 64 word list" where
  "words_of n x = map (\<lambda>k. word_of_int (x div 2 ^ (64 * k))) [0..<word_count n]"

lemma words_of_length [simp]: "length (words_of n x) = word_count n"
  by (simp add: words_of_def)

lemma wbit_words_of: "i < 64 * word_count n \<Longrightarrow> wbit (words_of n x) i \<longleftrightarrow> bit x i"
  by (auto simp: words_of_def wbit_def bit_word_of_int_iff bit_drop_bit_eq less_mult_imp_div_less mult.commute
      simp flip: drop_bit_eq_div)

lemma words_val_wbit: "i < 64 * length ws \<Longrightarrow> bit (words_val ws) i \<longleftrightarrow> wbit ws i"
  by (simp add: bit_words_val wbit_def less_mult_imp_div_less mult.commute)

lemma words_val_eqI:
  assumes "\<And>i. i < 64 * length ws \<Longrightarrow> wbit ws i \<longleftrightarrow> bit x i"
  shows "words_val ws = x mod 2 ^ (64 * length ws)"
  unfolding take_bit_eq_mod [symmetric]
proof (rule bit_eqI)
  fix i
  have "\<not> bit (words_val ws) i" if "\<not> i < 64 * length ws" using that by (auto simp: bit_words_val)
  then show "bit (words_val ws) i \<longleftrightarrow> bit (take_bit (64 * length ws) x) i"
    using assms words_val_wbit [of i ws] by (cases "i < 64 * length ws") (auto simp: bit_take_bit_iff)
qed

lemma words_of_value: "words_val (words_of n x) = x mod 2 ^ (64 * word_count n)"
  using words_val_eqI [of "words_of n x" x] by (simp add: wbit_words_of)

lemma word_count_covers: "n \<le> 64 * word_count n"
  by (simp add: word_count_def)

lemma setarray_whole:
  assumes "stackable v" "length ws = word_count (vsize v)"
  shows "\<exists>v'. v4_setarray v 0 (vsize v) ws = Some v' \<and> stackable v' \<and> vec_bits v' = bits_of (vsize v) (words_val ws)"
proof -
  obtain v' where v': "v4_setarray v 0 (vsize v) ws = Some v'" "wf_vec v'"
      "vec_bits v' = map (\<lambda>i. bool_bit (wbit ws i)) [0..<vsize v]"
    using v4_setarray_bits [of v 0 "vsize v" ws] assms by (auto simp: stackable_def)
  have "vec_bits v' = bits_of (vsize v) (words_val ws)"
    unfolding v'(3) bits_of_def
    by (rule map_cong) (use words_val_wbit word_count_covers [of "vsize v"] assms(2) in \<open>auto simp: bool_bit_def\<close>)
  moreover have "vsize v' = vsize v" using vsize_bits [OF v'(3)] by simp
  ultimately show ?thesis using v' assms(1) by (auto simp: stackable_def)
qed

lemma x_vec4_ok: "stackable v \<Longrightarrow> stackable (x_vec4 (vsize v)) \<and> vec_bits (x_vec4 (vsize v)) = replicate (vsize v) BIT4_X"
  by (simp add: x_vec4_def vector4_fill_bits stackable_def)

lemma subarray_words:
  "stackable v \<Longrightarrow> v4_subarray v 0 (vsize v) False =
     Some (if known_bits (vec_bits v) then Some (words_of (vsize v) (bits_val (vec_bits v))) else None)"
  by (simp add: subarray_whole words_of_def)

lemma bits_val_words:
  "words_val (words_of (length bs) (bits_val bs)) = bits_val bs"
proof -
  have "(2 :: int) ^ length bs \<le> 2 ^ (64 * word_count (length bs))"
    using word_count_covers by (intro power_increasing) auto
  then show ?thesis using bits_val_range [of bs] unfolding words_of_value by (intro mod_pos_pos_trivial) linarith+
qed

section \<open>Unsigned division\<close>

text \<open>The result of a division or a remainder: x when a bit is unknown or the divisor is zero.\<close>

definition quotient :: "(int \<Rightarrow> int \<Rightarrow> int) \<Rightarrow> bool \<Rightarrow> vvp_bit4 list \<Rightarrow> vvp_bit4 list \<Rightarrow> vvp_bit4 list" where
  "quotient f sg l r =
     (if known_bits l \<and> known_bits r \<and> num_val sg r \<noteq> 0 then bits_of (length l) (f (num_val sg l) (num_val sg r))
      else replicate (length l) BIT4_X)"

lemma one_word: "0 < n \<Longrightarrow> n \<le> 64 \<Longrightarrow> word_count n = 1"
  by (simp add: word_count_def)

lemma words_val_one: "length ws = 1 \<Longrightarrow> words_val ws = uint (ws ! 0) \<and> ws = [ws ! 0]"
  by (cases ws) auto

lemma two_words: "64 < n \<Longrightarrow> n \<le> 128 \<Longrightarrow> word_count n = 2"
  by (simp add: word_count_def)

lemma div_yields:
  assumes "wf_thread thr" "stack_vec4 thr = r # l # vs" "vsize l = vsize r"
    "vsize l < 128 \<or> bits_val (vec_bits r) < 2 ^ 64"
  shows "yields thr vs (quotient (div) False (vec_bits l) (vec_bits r)) (of_DIV cp thr)"
proof -
  let ?n = "vsize l" and ?x = "bits_val (vec_bits l)" and ?y = "bits_val (vec_bits r)"
  have st: "stackable l" "stackable r" using assms(1,2) by (auto simp: wf_thread_def)
  have n: "0 < ?n" using st by (simp add: stackable_def)
  show ?thesis
  proof (cases "known_bits (vec_bits l) \<and> known_bits (vec_bits r)")
    case False
    then have "of_DIV cp thr = Some (thr\<lparr>stack_vec4 := x_vec4 ?n # vs\<rparr>)"
      using assms(2,3) subarray_words [OF st(1)] subarray_words [OF st(2)]
      by (auto simp: of_DIV_def push_vec4_def stack_simps Let_def)
    moreover have "quotient (div) False (vec_bits l) (vec_bits r) = replicate ?n BIT4_X" using False by (auto simp: quotient_def)
    ultimately show ?thesis using x_vec4_ok [OF st(1)] by (auto intro: yieldsI)
  next
    case known: True
    let ?ap = "words_of ?n ?x" and ?bp = "words_of ?n ?y"
    have v: "words_val ?ap = ?x" "words_val ?bp = ?y" using bits_val_words [of "vec_bits l"] bits_val_words [of "vec_bits r"] assms(3) by simp_all
    have e: "of_DIV cp thr = map_option (\<lambda>res. thr\<lparr>stack_vec4 := res # vs\<rparr>)
        (if ?n \<le> 64 then (if ?bp ! 0 = 0 then Some (x_vec4 ?n) else v4_setarray l 0 ?n (?ap[0 := ?ap ! 0 div ?bp ! 0]))
         else do { r \<leftarrow> divide_bits ?ap ?bp ?n;
                   (case r of None \<Rightarrow> Some (x_vec4 ?n) | Some (result, _) \<Rightarrow> v4_setarray l 0 ?n result) })"
      using assms(2,3) known subarray_words [OF st(1)] subarray_words [OF st(2)]
      by (auto simp: of_DIV_def push_vec4_def stack_simps Let_def comp_def map_conv_bind_option split: option.splits)
    have res: "yields thr vs (bits_of ?n (?x div ?y)) (of_DIV cp thr)"
      if "y0 = ?y" "y0 \<noteq> 0" "of_DIV cp thr = map_option (\<lambda>res. thr\<lparr>stack_vec4 := res # vs\<rparr>) (v4_setarray l 0 ?n ws)"
        "length ws = word_count ?n" "words_val ws = ?x div ?y" for ws y0
      using setarray_whole [OF st(1) that(4)] that(3,5) by (auto intro: yieldsI)
    have zero: "yields thr vs (replicate ?n BIT4_X) (of_DIV cp thr)"
      if "of_DIV cp thr = map_option (\<lambda>res. thr\<lparr>stack_vec4 := res # vs\<rparr>) (Some (x_vec4 ?n))"
      using x_vec4_ok [OF st(1)] that by (auto intro: yieldsI)
    have q: "quotient (div) False (vec_bits l) (vec_bits r) =
        (if ?y = 0 then replicate ?n BIT4_X else bits_of ?n (?x div ?y))"
      using known by (simp add: quotient_def num_val_def)
    show ?thesis
    proof (cases "?n \<le> 64")
      case True
      then have one: "length ?ap = 1" "length ?bp = 1" using n by (simp_all add: one_word)
      note w = words_val_one [OF one(1)] words_val_one [OF one(2)]
      have y: "?bp ! 0 = 0 \<longleftrightarrow> ?y = 0" using v(2) w(2) by (simp add: word_uint_eq_iff)
      have "words_val (?ap[0 := ?ap ! 0 div ?bp ! 0]) = ?x div ?y"
        using v w one by (metis list_update_code(2) uint_div words_val_simps(2) words_val_one list.size(3) One_nat_def length_list_update nth_list_update_eq zero_less_one)
      then show ?thesis
        using e True y zero res [of ?y "?ap[0 := ?ap ! 0 div ?bp ! 0]"] unfolding q by (cases "?y = 0") simp_all
    next
      case False
      show ?thesis
      proof (cases "?y = 0")
        case True
        then have "divide_bits ?ap ?bp ?n = Some None" using v(2) n by (intro divide_bits_zero) auto
        then show ?thesis unfolding q using e False True zero by simp
      next
        case y: False
        then have y0: "0 < ?y" using bits_val_range(1) [of "vec_bits r"] by simp
        have "?x < 2 ^ 127" if "?n < 128"
          using bits_val_range(2) [of "vec_bits l"] that power_increasing [of ?n 127 "2 :: int"] by simp
        then have "words_val ?bp < 2 ^ 64 \<or> (word_count ?n = 2 \<and> words_val ?ap \<le> 2 ^ 127)"
          using assms(4) False two_words [of ?n] v by auto
        then obtain ws ap' where d: "divide_bits ?ap ?bp ?n = Some (Some (ws, ap'))" "length ws = word_count ?n"
            "words_val ws = ?x div ?y"
          using divide_bits_ok [of ?ap ?n ?bp] v y0 by auto
        then show ?thesis unfolding q using e False y res [of ?y ws] by simp
      qed
    qed
  qed
qed

section \<open>Signed division\<close>

lemma top_word:
  assumes "0 < n"
  obtains k where "word_count n = Suc k" "64 * k < n" "n \<le> 64 * k + 64"
proof (cases "word_count n")
  case 0
  then show ?thesis using assms by (simp add: word_count_def)
next
  case (Suc k)
  define r where "r = (n + 63) mod 64"
  have m: "n + 63 = 64 * word_count n + r" "r < 64" by (simp_all add: word_count_def r_def)
  have "64 * k < n" using m Suc by simp
  moreover have "n \<le> 64 * k + 64" using m Suc by simp
  ultimately show ?thesis using that Suc by simp
qed

lemma bit_sign_mask:
  assumes "0 < n" "j < 64"
  shows "bit (sign_mask n) j \<longleftrightarrow> n \<le> 64 * (word_count n - 1) + j"
proof -
  obtain k where "word_count n = Suc k" "64 * k < n" "n \<le> 64 * k + 64" using top_word assms(1) by blast
  then show ?thesis using assms by (auto simp: sign_mask_def Let_def bit_not_iff bit_mask_iff)
qed

lemma extend_words_value:
  assumes "bs \<noteq> []"
  shows "words_val (extend_words (length bs) (words_of (length bs) (bits_val bs))) = sbits_val bs mod 2 ^ (64 * word_count (length bs))"
    "length (extend_words (length bs) (words_of (length bs) (bits_val bs))) = word_count (length bs)"
proof -
  let ?n = "length bs" and ?ws = "words_of (length bs) (bits_val bs)" and ?k = "word_count (length bs) - 1"
  have n: "0 < ?n" "?k < word_count ?n" "64 * ?k < ?n" "?n \<le> 64 * ?k + 64" 
  proof -
    show n0: "0 < ?n" using assms by simp
    obtain k where "word_count ?n = Suc k" "64 * k < ?n" "?n \<le> 64 * k + 64" using top_word n0 by blast
    then show "?k < word_count ?n" "64 * ?k < ?n" "?n \<le> 64 * ?k + 64" by simp_all
  qed
  have top: "?ws ! ?k AND drop_bit 1 (sign_mask ?n) \<noteq> 0 \<longleftrightarrow> ?n < 64 * ?k + 64 \<and> last bs = BIT4_1"
  proof -
    have "bit (?ws ! ?k AND drop_bit 1 (sign_mask ?n)) j \<longleftrightarrow> j < 63 \<and> ?n = 64 * ?k + Suc j \<and> bs ! (64 * ?k + j) = BIT4_1" for j
      using wbit_words_of [of "64 * ?k + j" ?n "bits_val bs"] n bit_sign_mask [OF n(1), of "Suc j"] bit_imp_le_length [of "sign_mask ?n" "Suc j"]
      by (cases "j < 63") (auto simp: bit_and_iff bit_drop_bit_eq wbit_split bit_bits_val)
    then have "?ws ! ?k AND drop_bit 1 (sign_mask ?n) \<noteq> 0 \<longleftrightarrow>
        (\<exists>j<63. ?n = 64 * ?k + Suc j \<and> bs ! (64 * ?k + j) = BIT4_1)"
    proof -
      assume bits: "\<And>j. bit (?ws ! ?k AND drop_bit 1 (sign_mask ?n)) j \<longleftrightarrow> j < 63 \<and> ?n = 64 * ?k + Suc j \<and> bs ! (64 * ?k + j) = BIT4_1"
      have "j < 63 \<Longrightarrow> j < 64" for j :: nat by simp
      then show ?thesis unfolding word_nonzero bits by blast
    qed
    also have "\<dots> \<longleftrightarrow> ?n < 64 * ?k + 64 \<and> bs ! (?n - 1) = BIT4_1"
    proof -
      have "(?n = 64 * ?k + Suc j \<and> bs ! (64 * ?k + j) = BIT4_1) \<longleftrightarrow> (j = ?n - 1 - 64 * ?k \<and> bs ! (?n - 1) = BIT4_1)" for j
      proof -
        have "?n = 64 * ?k + Suc j \<longleftrightarrow> j = ?n - 1 - 64 * ?k" "?n = 64 * ?k + Suc j \<Longrightarrow> 64 * ?k + j = ?n - 1"
          using n by linarith+
        then show ?thesis by auto
      qed
      moreover have "?n - 1 - 64 * ?k < 63 \<longleftrightarrow> ?n < 64 * ?k + 64" using n by linarith
      ultimately show ?thesis by auto
    qed
    finally show ?thesis using assms by (simp add: last_conv_nth)
  qed
  show len: "length (extend_words ?n ?ws) = word_count ?n" by (simp add: extend_words_def Let_def)
  have "wbit (extend_words ?n ?ws) i \<longleftrightarrow> bit (sbits_val bs) i" if i: "i < 64 * word_count ?n" for i
  proof -
    define d j where "d = i div 64" and "j = i mod 64"
    have dj: "i = 64 * d + j" "j < 64" "d < word_count ?n" using i by (auto simp: d_def j_def)
    have w: "bit (?ws ! d) j \<longleftrightarrow> bit (bits_val bs) i" using wbit_words_of [OF i] dj by (simp add: wbit_split)
    have "d \<noteq> ?k \<Longrightarrow> i < ?n" using dj n by linarith
    then show ?thesis
      using top w dj n bit_sign_mask [OF n(1) dj(2)]
      by (auto simp: extend_words_def Let_def wbit_split nth_list_update bit_or_iff bit_bits_val bit_sbits_val)
  qed
  from words_val_eqI [of "extend_words ?n ?ws", unfolded len, OF this]
  show "words_val (extend_words ?n ?ws) = sbits_val bs mod 2 ^ (64 * word_count ?n)" .
qed

lemma sbits_val_range:
  assumes "bs \<noteq> []"
  shows "- (2 ^ (length bs - 1)) \<le> sbits_val bs" "sbits_val bs < 2 ^ (length bs - 1)"
proof -
  have "sbits_val bs = signed_take_bit (length bs - 1) (sbits_val bs)"
  proof (rule bit_eqI)
    fix i
    consider "i < length bs - 1" | "i = length bs - 1" | "length bs \<le> i" by linarith
    then show "bit (sbits_val bs) i = bit (signed_take_bit (length bs - 1) (sbits_val bs)) i"
      by cases (use assms in \<open>auto simp: bit_signed_take_bit_iff bit_sbits_val min_def last_conv_nth\<close>)
  qed
  then show "- (2 ^ (length bs - 1)) \<le> sbits_val bs" "sbits_val bs < 2 ^ (length bs - 1)"
    by (metis signed_take_bit_int_greater_eq_minus_exp, metis signed_take_bit_int_less_exp)
qed

lemma negate_words_value:
  "words_val (negate_words ws) = (- words_val ws) mod 2 ^ (64 * length ws)" "length (negate_words ws) = length ws"
proof -
  have z: "words_val (replicate k 0) = 0" for k by (simp add: words_val_zeros list_all_length)
  show "words_val (negate_words ws) = (- words_val ws) mod 2 ^ (64 * length ws)"
    unfolding negate_words_def
    by (subst words_ripple) (simp_all add: z words_val_not)
  show "length (negate_words ws) = length ws" by (simp add: negate_words_def ripple_length)
qed

lemma signed_top_bit:
  fixes s :: int
  assumes "- (2 ^ m) \<le> s" "s < 2 ^ m"
  shows "bit s m \<longleftrightarrow> s < 0"
proof (cases "s < 0")
  case True
  then have "s div 2 ^ m = - 1" using assms by (intro int_div_pos_eq [of _ _ _ "s + 2 ^ m"]) auto
  then show ?thesis using True by (simp add: bit_iff_odd)
next
  case False
  then have "s div 2 ^ m = 0" using assms by simp
  then show ?thesis using False by (simp add: bit_iff_odd)
qed

text \<open>The words of a signed number, with the bits above the width copied from its sign.\<close>

definition signed_words :: "nat \<Rightarrow> int \<Rightarrow> 64 word list \<Rightarrow> bool" where
  "signed_words n s ws \<longleftrightarrow> length ws = word_count n \<and> words_val ws = s mod 2 ^ (64 * word_count n) \<and>
     - (2 ^ (n - 1)) \<le> s \<and> s < 2 ^ (n - 1)"

lemma extend_signed_words:
  assumes "stackable v"
  shows "signed_words (vsize v) (sbits_val (vec_bits v)) (extend_words (vsize v) (words_of (vsize v) (bits_val (vec_bits v))))"
proof -
  have "vec_bits v \<noteq> []" using assms by (auto simp: stackable_def simp flip: length_0_conv)
  then show ?thesis
    using extend_words_value [of "vec_bits v"] sbits_val_range [of "vec_bits v"] by (simp add: signed_words_def)
qed

lemma signed_words_top:
  assumes "signed_words n s ws" "0 < n"
  shows "sint (ws ! (word_count n - 1)) < 0 \<longleftrightarrow> s < 0"
proof -
  obtain k where k: "word_count n = Suc k" "64 * k < n" "n \<le> 64 * k + 64" using top_word assms(2) by blast
  have "(2 :: int) ^ (n - 1) \<le> 2 ^ (64 * k + 63)" using k by (intro power_increasing) auto
  then have r: "- (2 ^ (64 * k + 63)) \<le> s" "s < 2 ^ (64 * k + 63)" using assms(1) unfolding signed_words_def by linarith+
  have "sint (ws ! k) < 0 \<longleftrightarrow> bit (words_val ws) (64 * k + 63)"
    using assms(1) k words_val_wbit [of "64 * k + 63" ws] bit_last_iff [of "ws ! k"]
    by (simp add: signed_words_def wbit_split)
  also have "\<dots> \<longleftrightarrow> bit s (64 * k + 63)"
    using assms(1) k by (simp add: signed_words_def bit_take_bit_iff flip: take_bit_eq_mod)
  finally show ?thesis using signed_top_bit [OF r] k by simp
qed

lemma signed_words_abs:
  assumes "signed_words n s ws" "0 < n"
  shows "words_val (if s < 0 then negate_words ws else ws) = \<bar>s\<bar>"
    "length (if s < 0 then negate_words ws else ws) = word_count n"
proof -
  let ?M = "2 ^ (64 * word_count n) :: int"
  have "(2 :: int) ^ (n - 1) < ?M" using assms(2) word_count_covers [of n] by (intro power_strict_increasing) auto
  then have a: "\<bar>s\<bar> < ?M" using assms(1) unfolding signed_words_def by linarith
  have "(- (s mod ?M)) mod ?M = (- s) mod ?M" by (simp add: mod_simps)
  then show "words_val (if s < 0 then negate_words ws else ws) = \<bar>s\<bar>"
    using assms(1) a by (auto simp: signed_words_def negate_words_value mod_pos_pos_trivial)
  show "length (if s < 0 then negate_words ws else ws) = word_count n"
    using assms(1) by (simp add: signed_words_def negate_words_value)
qed

lemma bits_of_eqI: "(\<And>i. i < n \<Longrightarrow> bit x i = bit y i) \<Longrightarrow> bits_of n x = bits_of n y"
  by (simp add: bits_of_def)

lemma bits_of_mod_words: "bits_of n (x mod 2 ^ (64 * word_count n)) = bits_of n x"
  using word_count_covers [of n] by (intro bits_of_eqI) (simp add: bit_take_bit_iff flip: take_bit_eq_mod)

lemma masked_top:
  assumes "length ws = word_count n" "0 < n" "k = word_count n - 1"
  shows "bits_of n (words_val (ws[k := ws ! k AND NOT (sign_mask n)])) = bits_of n (words_val ws)"
proof (rule bits_of_eqI)
  fix i assume i: "i < n"
  define d j where "d = i div 64" and "j = i mod 64"
  have dj: "i = 64 * d + j" "j < 64" by (auto simp: d_def j_def)
  have "i < 64 * word_count n" using i word_count_covers [of n] by linarith
  moreover from this have "d < word_count n" using dj by linarith
  ultimately show "bit (words_val (ws[k := ws ! k AND NOT (sign_mask n)])) i = bit (words_val ws) i"
    using assms i dj bit_sign_mask [OF assms(2) dj(2)]
    by (auto simp: words_val_wbit wbit_split nth_list_update bit_and_iff bit_not_iff)
qed

lemma sdiv_abs: "x sdiv y = (if (x < 0) \<noteq> (y < 0) then - (\<bar>x\<bar> div \<bar>y\<bar>) else \<bar>x\<bar> div (\<bar>y\<bar> :: int))"
  by (auto simp: signed_divide_int_def sgn_if)

lemma words_val_single:
  assumes "length ws = 1" "words_val ws = s mod 2 ^ 64"
  shows "ws = [word_of_int s]"
proof -
  have "uint (ws ! 0) = uint (word_of_int s :: 64 word)" using words_val_one [OF assms(1)] assms(2) by (simp add: uint_word_of_int)
  then have "ws ! 0 = word_of_int s" by (rule word_uint_eq_iff [THEN iffD2])
  then show ?thesis using words_val_one [OF assms(1)] by simp
qed

lemma sint_word_of: "- (2 ^ 63) \<le> s \<Longrightarrow> s < 2 ^ 63 \<Longrightarrow> sint (word_of_int s :: 64 word) = s"
  by (simp add: sint_sbintrunc' signed_take_bit_int_eq_self_iff)

definition div_result :: "vvp_vector4 \<Rightarrow> int \<Rightarrow> int \<Rightarrow> vvp_vector4 option \<Rightarrow> bool" where
  "div_result v q y res \<longleftrightarrow> (\<exists>x. res = Some x \<and> stackable x \<and>
     vec_bits x = (if y = 0 then replicate (vsize v) BIT4_X else bits_of (vsize v) q))"

lemma signed_long_div_ok:
  assumes "stackable v" "64 < vsize v" "signed_words (vsize v) x ap" "signed_words (vsize v) y bp"
    "vsize v \<le> 128 \<or> \<bar>y\<bar> < 2 ^ 64"
  shows "div_result v (x sdiv y) y (signed_long_div (vsize v) v ap bp)"
proof -
  let ?n = "vsize v"
  have n: "0 < ?n" using assms(2) by simp
  let ?A = "if x < 0 then negate_words ap else ap" and ?B = "if y < 0 then negate_words bp else bp"
  note A = signed_words_abs [OF assms(3) n] and B = signed_words_abs [OF assms(4) n]
  have e: "signed_long_div ?n v ap bp = do {
      r \<leftarrow> divide_bits ?A ?B ?n;
      (case r of None \<Rightarrow> Some (x_vec4 ?n)
       | Some (result, _) \<Rightarrow>
           let result = (if (x < 0) \<noteq> (y < 0) then negate_words result else result)
           in v4_setarray v 0 ?n (result[word_count ?n - 1 := result ! (word_count ?n - 1) AND NOT (sign_mask ?n)])) }"
    by (simp only: signed_long_div_def Let_def signed_words_top [OF assms(3) n] signed_words_top [OF assms(4) n])
  show ?thesis
  proof (cases "y = 0")
    case True
    then have "divide_bits ?A ?B ?n = Some None" using B n by (intro divide_bits_zero) auto
    then show ?thesis using e True x_vec4_ok [OF assms(1)] by (simp add: div_result_def)
  next
    case False
    then have y0: "0 < words_val ?B" using B by simp
    have "\<bar>x\<bar> \<le> 2 ^ 127" if "?n \<le> 128"
    proof -
      have "\<bar>x\<bar> \<le> 2 ^ (?n - 1)" using assms(3) unfolding signed_words_def by linarith
      also have "\<dots> \<le> 2 ^ 127" using that by (intro power_increasing) auto
      finally show ?thesis .
    qed
    then have "words_val ?B < 2 ^ 64 \<or> (word_count ?n = 2 \<and> words_val ?A \<le> 2 ^ 127)"
      using assms(2,5) two_words [of ?n] A B by auto
    then obtain res ap' where d: "divide_bits ?A ?B ?n = Some (Some (res, ap'))" "length res = word_count ?n"
        "words_val res = \<bar>x\<bar> div \<bar>y\<bar>"
      using divide_bits_ok [of ?A ?n ?B] A B y0 by auto
    define res' where "res' = (if (x < 0) \<noteq> (y < 0) then negate_words res else res)"
    have len: "length res' = word_count ?n" using d(2) by (simp add: res'_def negate_words_value)
    have "words_val res' = (x sdiv y) mod 2 ^ (64 * word_count ?n)"
      using d(2,3) words_val_bound [of res] words_val_nonneg [of res]
      by (auto simp: res'_def negate_words_value sdiv_abs mod_pos_pos_trivial)
    then have "bits_of ?n (words_val res') = bits_of ?n (x sdiv y)" by (simp add: bits_of_mod_words)
    then have "bits_of ?n (words_val (res'[word_count ?n - 1 := res' ! (word_count ?n - 1) AND NOT (sign_mask ?n)])) = bits_of ?n (x sdiv y)"
      using masked_top [OF len n refl] by simp
    then show ?thesis
      using setarray_whole [OF assms(1), of "res'[word_count ?n - 1 := res' ! (word_count ?n - 1) AND NOT (sign_mask ?n)]"]
        e d(1) False len unfolding div_result_def res'_def by auto
  qed
qed

lemma signed_short_div_ok:
  assumes "stackable v" "vsize v \<le> 64" "signed_words (vsize v) x ap" "signed_words (vsize v) y bp"
  shows "div_result v (x sdiv y) y (signed_short_div (vsize v) v ap bp)"
proof -
  let ?n = "vsize v"
  have n: "0 < ?n" using assms(1) by (simp add: stackable_def)
  have wc: "word_count ?n = 1" using n assms(2) by (rule one_word)
  have p: "(2 :: int) ^ (?n - 1) \<le> 2 ^ 63" using assms(2) by (intro power_increasing) auto
  have r: "- (2 ^ 63) \<le> x" "x < 2 ^ 63" "- (2 ^ 63) \<le> y" "y < 2 ^ 63"
    using assms(3,4) p unfolding signed_words_def by linarith+
  have ab: "ap = [word_of_int x]" "bp = [word_of_int y]"
    using assms(3,4) wc by (auto simp: signed_words_def intro!: words_val_single)
  have s: "sint (word_of_int x :: 64 word) = x" "sint (word_of_int y :: 64 word) = y" using r sint_word_of by simp_all
  have y0: "(word_of_int y :: 64 word) = 0 \<longleftrightarrow> y = 0" using s(2) by (metis sint_0 word_of_int_0)
  consider "y = 0" | "y \<noteq> 0" "x = - (2 ^ 63)" "y = - 1" | "y \<noteq> 0" "\<not> (x = - (2 ^ 63) \<and> y = - 1)" by blast
  then show ?thesis
  proof cases
    case 1
    then show ?thesis using x_vec4_ok [OF assms(1)] y0 ab by (simp add: signed_short_div_def div_result_def)
  next
    case 2
    have "?n = 64"
    proof (rule ccontr)
      assume "?n \<noteq> 64"
      then have "(2 :: int) ^ (?n - 1) \<le> 2 ^ 62" using assms(2) by (intro power_increasing) auto
      then show False using assms(3) 2(2) unfolding signed_words_def by simp
    qed
    moreover obtain v' where v': "v4_set_bit (vector4_fill ?n BIT4_0) (?n - 1) BIT4_1 = Some v'" "wf_vec v'"
        "vec_bits v' = (replicate ?n BIT4_0)[?n - 1 := BIT4_1]"
      using v4_set_bit_bits [of "vector4_fill ?n BIT4_0" "?n - 1" BIT4_1] n by (auto simp: vector4_fill_bits)
    moreover have "vsize v' = ?n" using vsize_bits [OF v'(3)] by simp
    moreover have "(replicate 64 BIT4_0)[63 := BIT4_1] = bits_of 64 (2 ^ 63)"
    proof -
      have "bit ((2 :: int) ^ 63) i \<longleftrightarrow> i = 63" for i by (simp only: bit_exp_iff) simp
      then have "bits_of 64 (2 ^ 63) = map (\<lambda>i. if i = 63 then BIT4_1 else BIT4_0) [0..<64]" by (simp only: bits_of_def)
      then show ?thesis by (auto simp: nth_list_update intro: nth_equalityI)
    qed
    moreover have "x sdiv y = 2 ^ 63" using 2 by (simp add: sdiv_abs)
    moreover have "stackable v'" using v'(2) \<open>vsize v' = ?n\<close> assms(1) by (simp add: stackable_def)
    ultimately show ?thesis using 2 s y0 ab by (simp add: signed_short_div_def div_result_def)
  next
    case 3
    let ?w = "[native_div (word_of_int x) (word_of_int y) AND NOT (sign_mask ?n)] :: 64 word list"
    have "words_val [native_div (word_of_int x) (word_of_int y)] = (x sdiv y) mod 2 ^ (64 * word_count ?n)"
      using wc s by (simp add: native_div_def uint_word_of_int)
    then have "bits_of ?n (words_val ?w) = bits_of ?n (x sdiv y)"
      using masked_top [of "[native_div (word_of_int x) (word_of_int y)]" ?n 0] wc n bits_of_mod_words [of ?n] by simp
    moreover have "signed_short_div ?n v ap bp = v4_setarray v 0 ?n ?w" using 3 s y0 ab by (auto simp: signed_short_div_def)
    ultimately show ?thesis using setarray_whole [OF assms(1), of ?w] wc 3(1) by (auto simp: div_result_def)
  qed
qed

lemma div_s_yields:
  assumes "wf_thread thr" "stack_vec4 thr = r # l # vs" "vsize l = vsize r"
    "vsize l \<le> 128 \<or> \<bar>sbits_val (vec_bits r)\<bar> < 2 ^ 64"
  shows "yields thr vs (quotient (sdiv) True (vec_bits l) (vec_bits r)) (of_DIV_S cp thr)"
proof -
  let ?n = "vsize l" and ?x = "sbits_val (vec_bits l)" and ?y = "sbits_val (vec_bits r)"
  let ?body = "\<lambda>vala valb. do {
     assert_opt (vsize vala = vsize valb);
     let wid = vsize vala;
     ap \<leftarrow> v4_subarray vala 0 wid False;
     bp \<leftarrow> v4_subarray valb 0 wid False;
     (case (ap, bp) of
        (Some ap, Some bp) \<Rightarrow>
          (if wid \<le> 64 then signed_short_div else signed_long_div) wid vala (extend_words wid ap) (extend_words wid bp)
      | _ \<Rightarrow> Some (x_vec4 wid)) }"
  have st: "stackable l" "stackable r" using assms(1,2) by (auto simp: wf_thread_def)
  note sub = subarray_words [OF st(1)] subarray_words [OF st(2)]
  have "\<exists>x. ?body l r = Some x \<and> stackable x \<and> vec_bits x = quotient (sdiv) True (vec_bits l) (vec_bits r)"
  proof (cases "known_bits (vec_bits l) \<and> known_bits (vec_bits r)")
    case False
    then have "?body l r = Some (x_vec4 ?n)" using sub assms(3) by (auto simp: Let_def)
    then show ?thesis using False x_vec4_ok [OF st(1)] by (auto simp: quotient_def)
  next
    case True
    let ?ap = "extend_words ?n (words_of ?n (bits_val (vec_bits l)))" and ?bp = "extend_words ?n (words_of ?n (bits_val (vec_bits r)))"
    have w: "signed_words ?n ?x ?ap" "signed_words ?n ?y ?bp"
      using extend_signed_words [OF st(1)] extend_signed_words [OF st(2)] assms(3) by simp_all
    have "div_result l (?x sdiv ?y) ?y ((if ?n \<le> 64 then signed_short_div else signed_long_div) ?n l ?ap ?bp)"
      using signed_short_div_ok [OF st(1) _ w] signed_long_div_ok [OF st(1) _ w] assms(4) by auto
    moreover have "?body l r = (if ?n \<le> 64 then signed_short_div else signed_long_div) ?n l ?ap ?bp"
      using True sub assms(3) by (auto simp: Let_def)
    ultimately show ?thesis using True by (auto simp: quotient_def num_val_def div_result_def)
  qed
  then obtain x where "?body l r = Some x" "stackable x" "vec_bits x = quotient (sdiv) True (vec_bits l) (vec_bits r)" by blast
  then show ?thesis unfolding of_DIV_S_def by (rule binary_op_yields [OF assms(2)])
qed

end
