(* ===== verification/Vthread_Mod.thy ===== *)
theory Vthread_Mod
  imports Vthread_DivOk
begin

text \<open>
  The remainder instructions: the machine word remainder of \<open>of_MOD\<close> and \<open>of_MOD_S\<close>, and the trial
  subtraction of \<open>do_verylong_mod\<close>, whose partial remainder stays below the shifted divisor.
\<close>

unbundle bit_operations_syntax

section \<open>Numbers as lists of bits\<close>

definition bnum :: "bool list \<Rightarrow> int" where
  "bnum bs = horner_sum of_bool 2 bs"

lemma bnum_simps [simp]: "bnum [] = 0" "bnum (b # bs) = of_bool b + 2 * bnum bs"
  by (simp_all add: bnum_def)

lemma bnum_range: "0 \<le> bnum bs" "bnum bs < 2 ^ length bs"
proof -
  show "0 \<le> bnum bs" by (induction bs) simp_all
qed (use horner_sum_of_bool_2_less [of bs] in \<open>simp add: bnum_def\<close>)

lemma bnum_append: "bnum (bs @ cs) = bnum bs + 2 ^ length bs * bnum cs"
  by (simp add: bnum_def horner_sum_append)

lemma bnum_split: "k \<le> length bs \<Longrightarrow> bnum bs = bnum (take k bs) + 2 ^ k * bnum (drop k bs)"
  using bnum_append [of "take k bs" "drop k bs"] by simp

lemma bit_bnum: "bit (bnum bs) i \<longleftrightarrow> i < length bs \<and> bs ! i"
  by (simp add: bnum_def bit_horner_sum_bit_iff)

lemma bnum_not: "bnum (map Not bs) = 2 ^ length bs - 1 - bnum bs"
  by (induction bs) auto

lemma bnum_take:
  assumes "bnum bs < 2 ^ k" "k \<le> length bs"
  shows "bnum (take k bs) = bnum bs \<and> bnum (drop k bs) = 0"
proof -
  have "bnum (drop k bs) < 1"
  proof (rule ccontr)
    assume "\<not> bnum (drop k bs) < 1"
    then have "2 ^ k * 1 \<le> 2 ^ k * bnum (drop k bs)" by (intro mult_left_mono) auto
    then show False using bnum_split [OF assms(2)] bnum_range(1) [of "take k bs"] assms(1) by linarith
  qed
  then have "bnum (drop k bs) = 0" using bnum_range(1) [of "drop k bs"] by linarith
  then show ?thesis using bnum_split [OF assms(2)] by simp
qed

lemma bits_val_bnum: "bits_val bs = bnum (map (\<lambda>b. b = BIT4_1) bs)"
  by (simp add: bits_val_def bnum_def)

lemma bits_of_bnum: "map (\<lambda>i. if bs ! i then BIT4_1 else BIT4_0) [0..<length bs] = bits_of (length bs) (bnum bs)"
  by (simp add: bits_of_def bit_bnum)

interpretation char_adder: digit_adder "of_bool :: bool \<Rightarrow> int" 2 "\<lambda>_. True" "of_bool :: bool \<Rightarrow> int" "\<lambda>_. True" char_add
proof
  show "(1 :: int) < 2" by simp
  show "True \<Longrightarrow> 0 \<le> (of_bool d :: int) \<and> (of_bool d :: int) < 2" for d by simp
  show "char_add a b c = (s, c') \<Longrightarrow> (of_bool s :: int) + 2 * of_bool c' = of_bool a + of_bool b + of_bool c" for a b c s c'
    by (cases a; cases b; cases c) (auto simp: char_add_def)
qed simp

lemma ripple_bits:
  assumes "length as = length bs" "ripple char_add as bs c = (t, c')"
  shows "bnum t + 2 ^ length as * of_bool c' = bnum as + bnum bs + of_bool c" "length t = length as"
  using char_adder.ripple_value [OF assms(1) _ _ _ assms(2)] ripple_length [OF assms(1), of char_add c] assms(2)
  by (simp_all add: bnum_def list_all_iff)

lemma char_neg_value:
  "length (char_neg neg bs) = length bs"
  "bnum (char_neg neg bs) = (if neg then - bnum bs else bnum bs) mod 2 ^ length bs"
proof -
  show l: "length (char_neg neg bs) = length bs" by (simp add: char_neg_def ripple_length)
  have z: "bnum (replicate k False) = 0" for k by (induction k) simp_all
  show "bnum (char_neg neg bs) = (if neg then - bnum bs else bnum bs) mod 2 ^ length bs"
  proof (cases neg)
    case True
    let ?N = "2 ^ length bs :: int"
    obtain t c where t: "ripple char_add (map Not bs) (replicate (length bs) False) True = (t, c)"
      by (cases "ripple char_add (map Not bs) (replicate (length bs) False) True")
    have "bnum t = - bnum bs + ?N * (1 - of_bool c)"
      using ripple_bits(1) [OF _ t] by (simp add: bnum_not z algebra_simps)
    then have "bnum t mod ?N = (- bnum bs) mod ?N" by (simp del: mult_minus_right)
    moreover have "bnum t mod ?N = bnum t"
      using bnum_range [of t] ripple_bits(2) [OF _ t] by (intro mod_pos_pos_trivial) auto
    ultimately show ?thesis using True t by (simp add: char_neg_def)
  qed (use bnum_range [of bs] in \<open>simp add: char_neg_def mod_pos_pos_trivial\<close>)
qed

section \<open>Trial subtraction\<close>

lemma find_top_bit:
  assumes "find P (rev [0..<len]) = Some m" "len \<le> length bs" "\<And>i. i < len \<Longrightarrow> P i = bs ! i"
    "\<And>i. len \<le> i \<Longrightarrow> i < length bs \<Longrightarrow> \<not> bs ! i"
  shows "m < len" "2 ^ m \<le> bnum bs" "bnum bs < 2 ^ Suc m"
proof -
  obtain k where k: "k < len" "m = rev [0..<len] ! k" "P m" "\<forall>j<k. \<not> P (rev [0..<len] ! j)"
    using assms(1) by (auto simp: find_Some_iff)
  have m: "m = len - 1 - k" "m < len" using k(1,2) by (auto simp: rev_nth)
  show "m < len" by (rule m(2))
  have above: "\<not> bs ! i" if "m < i" "i < length bs" for i
  proof (cases "i < len")
    case True
    then have "len - 1 - i < k" "rev [0..<len] ! (len - 1 - i) = i" using that m k(1) by (auto simp: rev_nth)
    then show ?thesis using k(4) assms(3) True by metis
  qed (use assms(4) that in simp)
  have "bs ! m" using assms(3) [OF m(2)] k(3) by simp
  then have "bit (bnum bs) m" using m(2) assms(2) by (simp add: bit_bnum)
  show "2 ^ m \<le> bnum bs"
  proof (rule ccontr)
    assume "\<not> 2 ^ m \<le> bnum bs"
    then have "take_bit m (bnum bs) = bnum bs" using bnum_range(1) [of bs] by (simp add: take_bit_int_eq_self)
    then show False using \<open>bit (bnum bs) m\<close> by (metis bit_take_bit_iff less_irrefl)
  qed
  have "take_bit (Suc m) (bnum bs) = bnum bs"
  proof (rule bit_eqI)
    fix i
    have "\<not> bit (bnum bs) i" if "\<not> i < Suc m" using above [of i] that by (auto simp: bit_bnum)
    then show "bit (take_bit (Suc m) (bnum bs)) i = bit (bnum bs) i" by (auto simp: bit_take_bit_iff)
  qed
  then show "bnum bs < 2 ^ Suc m" by (metis take_bit_int_less_exp)
qed

lemma find_no_bit:
  assumes "find P (rev [0..<len]) = None" "\<And>i. i < len \<Longrightarrow> P i = bs ! i" "length bs = len"
  shows "bnum bs = 0"
  by (rule bit_eqI) (use assms in \<open>auto simp: find_None_iff bit_bnum\<close>)

definition mod_row :: "nat \<Rightarrow> bool list \<Rightarrow> nat \<Rightarrow> bool list \<Rightarrow> bool list" where
  "mod_row copylen a k z =
     (case ripple char_add (take copylen (drop k z)) (take copylen a) True of
        (t, carry) \<Rightarrow> if carry then take k z @ t @ drop (k + copylen) z else z)"

lemma mod_rows_step:
  "mod_rows copylen a k z = (let z = mod_row copylen a k z in if k = 0 then z else mod_rows copylen a (k - 1) z)"
  by (subst mod_rows.simps) (auto simp: mod_row_def Let_def split: prod.splits)

lemma mod_row_ok:
  assumes "0 < B" "B < 2 ^ (m + 1)" "bnum (take (m + 2) a) = 2 ^ (m + 2) - 1 - B" "m + 2 \<le> length a"
    and h: "k + m + 2 \<le> length z" "bnum z < B * 2 ^ (k + 1)"
  shows "length (mod_row (m + 2) a k z) = length z" "bnum (mod_row (m + 2) a k z) mod B = bnum z mod B"
    "bnum (mod_row (m + 2) a k z) < B * 2 ^ k"
proof -
  have "length (mod_row (m + 2) a k z) = length z \<and> bnum (mod_row (m + 2) a k z) mod B = bnum z mod B \<and>
    bnum (mod_row (m + 2) a k z) < B * 2 ^ k"
  proof -
    let ?L = "bnum (take k z)" and ?Y = "bnum (drop k z)" and ?N = "2 ^ (m + 2) :: int"
    have split: "bnum z = ?L + 2 ^ k * ?Y" using bnum_split [of k z] h(1) by simp
    have L: "0 \<le> ?L" "?L < 2 ^ k" using bnum_range [of "take k z"] h(1) by auto
    note dl = div_low_high [OF L assms(1), of ?Y]
    have "B * 2 ^ (k + 1) = 2 ^ k * (2 * B)" by simp
    then have "2 ^ k * ?Y < 2 ^ k * (2 * B)" using split L(1) h(2) by linarith
    moreover have "0 < (2 :: int) ^ k" by simp
    ultimately have Y: "0 \<le> ?Y" "?Y < 2 * B" using bnum_range(1) by (simp_all only: mult_less_cancel_left_pos)
    have "?Y < ?N" using Y(2) assms(2) by simp
    then have D: "bnum (take (m + 2) (drop k z)) = ?Y" "bnum (drop (k + (m + 2)) z) = 0"
      using bnum_take [of "drop k z" "m + 2"] h(1) by (simp_all add: add.commute)
    obtain t c where r: "ripple char_add (take (m + 2) (drop k z)) (take (m + 2) a) True = (t, c)"
      by (cases "ripple char_add (take (m + 2) (drop k z)) (take (m + 2) a) True")
    have len: "length (take (m + 2) (drop k z)) = length (take (m + 2) a)" using h(1) assms(4) by simp
    have t: "bnum t + ?N * of_bool c = ?Y + (?N - B)" "length t = m + 2"
      using ripple_bits [OF len r] D(1) assms(3) h(1) by simp_all
    show ?thesis
    proof (cases c)
      case True
      then have T: "bnum t = ?Y - B" using t(1) by simp
      then have "0 \<le> ?Y - B" using bnum_range(1) [of t] by simp
      then have "?Y mod B = ?Y - B" using Y(2) by (intro int_mod_pos_eq [of _ _ 1]) auto
      then have v: "bnum (take k z @ t @ drop (k + (m + 2)) z) = ?L + 2 ^ k * (?Y mod B)"
        using T D(2) h(1) by (simp add: bnum_append)
      have "(?L + 2 ^ k * (?Y mod B)) mod B = bnum z mod B" using dl(2) split by simp
      then show ?thesis unfolding mod_row_def using r True v dl(3) t(2) h(1) by simp
    next
      case False
      then have "?Y < B" using t(1) bnum_range(2) [of t] t(2) by simp
      then have "?Y mod B = ?Y" using Y(1) by (simp add: mod_pos_pos_trivial)
      then show ?thesis unfolding mod_row_def using r False dl(3) split by simp
    qed
  qed
  then show "length (mod_row (m + 2) a k z) = length z" "bnum (mod_row (m + 2) a k z) mod B = bnum z mod B"
    "bnum (mod_row (m + 2) a k z) < B * 2 ^ k" by auto
qed

lemma mod_rows_ok:
  assumes "0 < B" "B < 2 ^ (m + 1)" "bnum (take (m + 2) a) = 2 ^ (m + 2) - 1 - B" "m + 2 \<le> length a"
  shows "k + m + 2 \<le> length z \<Longrightarrow> bnum z < B * 2 ^ (k + 1) \<Longrightarrow>
    length (mod_rows (m + 2) a k z) = length z \<and> bnum (mod_rows (m + 2) a k z) = bnum z mod B"
proof (induction k arbitrary: z)
  case 0
  note row = mod_row_ok [OF assms 0]
  then have "bnum (mod_row (m + 2) a 0 z) = bnum z mod B"
    using bnum_range(1) [of "mod_row (m + 2) a 0 z"] by (metis mod_pos_pos_trivial mult.right_neutral power_0)
  then show ?case using row(1) by (subst (1 2) mod_rows_step) (simp add: Let_def)
next
  case (Suc k)
  note row = mod_row_ok [OF assms Suc.prems]
  have "mod_rows (m + 2) a (Suc k) z = mod_rows (m + 2) a k (mod_row (m + 2) a (Suc k) z)"
    by (subst mod_rows_step) (simp add: Let_def)
  then show ?case using Suc.IH [of "mod_row (m + 2) a (Suc k) z"] row Suc.prems(1) by simp
qed

section \<open>Remainder of long vectors\<close>

lemma edit_all_ok:
  assumes "wf_vec v" "vsize v = n"
  obtains x where "edit_bits (\<lambda>i. Some (g i)) 0 n v = Some x" "wf_vec x" "vec_bits x = map g [0..<n]"
  using edit_bits_ok [of v 0 n "\<lambda>i. Some (g i)"] assms by auto

lemma char_neg_abs:
  assumes "bs \<noteq> []" "neg \<longleftrightarrow> sg \<and> num_val sg bs < 0"
  shows "bnum (char_neg neg (map (\<lambda>b. b = BIT4_1) bs)) = \<bar>num_val sg bs\<bar>"
proof -
  let ?N = "2 ^ length bs :: int"
  have e: "bnum (char_neg neg (map (\<lambda>b. b = BIT4_1) bs)) = (if neg then - bits_val bs else bits_val bs) mod ?N"
    by (simp add: char_neg_value bits_val_bnum)
  show ?thesis
  proof (cases neg)
    case True
    then have s: "num_val sg bs = sbits_val bs" "sbits_val bs < 0" using assms(2) by (auto simp: num_val_def)
    then have "sbits_val bs = bits_val bs - ?N" using bits_val_range(1) [of bs] by (auto simp: sbits_val_def split: if_splits)
    then have "(- bits_val bs) mod ?N = (- sbits_val bs) mod ?N" by simp
    moreover have "(2 :: int) ^ (length bs - 1) < ?N" using assms(1) by (intro power_strict_increasing) auto
    then have "- sbits_val bs < ?N" using sbits_val_range(1) [OF assms(1)] by linarith
    ultimately show ?thesis using e True s by (simp add: mod_pos_pos_trivial)
  next
    case False
    then have "0 \<le> num_val sg bs" using assms(2) bits_val_range(1) [of bs] by (auto simp: num_val_def)
    moreover have "num_val sg bs = bits_val bs"
      using calculation bits_val_range(2) [of bs] by (auto simp: num_val_def sbits_val_def split: if_splits)
    ultimately show ?thesis using e False bits_val_range [of bs] by (simp add: mod_pos_pos_trivial)
  qed
qed

lemma smod_abs: "x smod y = (if x < 0 then - (\<bar>x\<bar> mod \<bar>y\<bar>) else \<bar>x\<bar> mod (\<bar>y\<bar> :: int))"
  by (auto simp: signed_modulo_int_def sgn_if)

lemma verylong_mod_ok:
  assumes "stackable l" "stackable r" "vsize l = vsize r"
    and neg: "lneg \<longleftrightarrow> sg \<and> num_val sg (vec_bits l) < 0" "rneg \<longleftrightarrow> sg \<and> num_val sg (vec_bits r) < 0"
  shows "\<exists>x. do_verylong_mod l r lneg rneg = Some x \<and> stackable x \<and>
    vec_bits x = quotient (smod) sg (vec_bits l) (vec_bits r)"
proof -
  let ?n = "vsize l" and ?X = "num_val sg (vec_bits l)" and ?Y = "num_val sg (vec_bits r)"
  have vb: "map (v4_value l) [0..<?n] = vec_bits l" "map (v4_value r) [0..<?n] = vec_bits r"
    using assms(3) by (simp_all add: vec_bits_def)
  have ne: "vec_bits l \<noteq> []" "vec_bits r \<noteq> []" using assms(1-3) by (auto simp: stackable_def simp flip: length_0_conv)
  have known: "list_ex (\<lambda>(lb, rb). bit4_is_xz lb \<or> bit4_is_xz rb) (zip (vec_bits l) (vec_bits r)) \<longleftrightarrow>
      \<not> (known_bits (vec_bits l) \<and> known_bits (vec_bits r))"
    using assms(3) by (auto simp: list_ex_length known_bits_def list_all_length)
  note xv = x_vec4_ok [OF assms(1)]
  show ?thesis
  proof (cases "known_bits (vec_bits l) \<and> known_bits (vec_bits r)")
    case False
    then show ?thesis using xv by (auto simp: do_verylong_mod_def Let_def vb known quotient_def)
  next
    case True
    define zl where "zl = char_neg lneg (map (\<lambda>b. b = BIT4_1) (vec_bits l))"
    define rl where "rl = char_neg rneg (map (\<lambda>b. b = BIT4_1) (vec_bits r))"
    define a where "a = map Not rl @ [True]"
    have len: "length zl = ?n" "length rl = ?n" using assms(3) by (simp_all add: zl_def rl_def char_neg_value)
    have X: "bnum zl = \<bar>?X\<bar>" "bnum (zl @ [False]) = \<bar>?X\<bar>"
      using char_neg_abs [OF ne(1) neg(1)] by (simp_all add: zl_def bnum_append)
    have Y: "bnum rl = \<bar>?Y\<bar>" using char_neg_abs [OF ne(2) neg(2)] by (simp add: rl_def)
    define tally where "tally z = edit_bits (\<lambda>idx. Some (if char_neg lneg (take ?n z) ! idx then BIT4_1 else BIT4_0))
        0 ?n (x_vec4 ?n)" for z
    have e: "do_verylong_mod l r lneg rneg =
        (case find (\<lambda>i. \<not> a ! i) (rev [0..<?n]) of
           None \<Rightarrow> Some (x_vec4 ?n)
         | Some mxa \<Rightarrow>
             (case find (\<lambda>i. (zl @ [False]) ! i) (rev [0..<?n]) of
                None \<Rightarrow> tally (zl @ [False])
              | Some mxz \<Rightarrow> if mxa > mxz then tally (zl @ [False])
                              else tally (mod_rows (mxa + 2) a (mxz - mxa) (zl @ [False]))))"
      unfolding do_verylong_mod_def Let_def vb known tally_def a_def [symmetric] zl_def [symmetric] rl_def [symmetric]
      using True by simp
    have tally: "\<exists>x. tally z = Some x \<and> stackable x \<and> vec_bits x = quotient (smod) sg (vec_bits l) (vec_bits r)"
      if "length z = ?n + 1" "bnum z = \<bar>?X\<bar> mod \<bar>?Y\<bar>" "?Y \<noteq> 0" for z
    proof -
      let ?R = "\<bar>?X\<bar> mod \<bar>?Y\<bar>"
      have "?R < \<bar>?Y\<bar>" "0 \<le> ?R" using that(3) by simp_all
      then have "bnum z < 2 ^ ?n" using that(2) Y bnum_range(2) [of rl] len by simp
      then have tk: "bnum (take ?n z) = ?R" using bnum_take [of z ?n] that by simp
      obtain x where x: "tally z = Some x" "wf_vec x"
          "vec_bits x = map (\<lambda>i. if char_neg lneg (take ?n z) ! i then BIT4_1 else BIT4_0) [0..<?n]"
        unfolding tally_def by (rule edit_all_ok [of "x_vec4 ?n" ?n]) (simp_all add: x_vec4_def)
      have "vec_bits x = bits_of ?n (bnum (char_neg lneg (take ?n z)))"
        unfolding x(3) using bits_of_bnum [of "char_neg lneg (take ?n z)"] that(1) by (simp add: char_neg_value)
      also have "\<dots> = bits_of ?n (if lneg then - ?R else ?R)"
        using that(1) tk by (simp add: char_neg_value bits_of_mod)
      also have "(if lneg then - ?R else ?R) = ?X smod ?Y"
      proof (cases "sg")
        case False
        then have "\<not> lneg" "0 \<le> ?X" using neg(1) bits_val_range(1) by (simp_all add: num_val_def)
        then show ?thesis by (simp add: smod_abs)
      qed (use neg(1) in \<open>simp add: smod_abs\<close>)
      finally have "vec_bits x = quotient (smod) sg (vec_bits l) (vec_bits r)" using True that(3) by (simp add: quotient_def)
      moreover have "vsize x = ?n" using vsize_bits [OF x(3)] by simp
      ultimately show ?thesis using x assms(1) by (auto simp: stackable_def)
    qed
    have nota: "\<not> a ! i \<longleftrightarrow> rl ! i" if "i < ?n" for i using that len by (simp add: a_def nth_append)
    show ?thesis
    proof (cases "find (\<lambda>i. \<not> a ! i) (rev [0..<?n])")
      case None
      then have "?Y = 0" using find_no_bit [OF None nota] len Y by simp
      then show ?thesis using None e xv by (simp add: quotient_def)
    next
      case (Some mxa)
      note ma = find_top_bit [OF Some _ nota] 
      have m: "mxa < ?n" "2 ^ mxa \<le> \<bar>?Y\<bar>" "\<bar>?Y\<bar> < 2 ^ Suc mxa" using ma len Y by auto
      have y0: "?Y \<noteq> 0" using m(2) by auto
      have small: ?thesis if "\<bar>?X\<bar> < 2 ^ mxa" "do_verylong_mod l r lneg rneg = tally (zl @ [False])"
        using tally [of "zl @ [False]"] that X len y0 m(2) by (simp add: mod_pos_pos_trivial)
      show ?thesis
      proof (cases "find (\<lambda>i. (zl @ [False]) ! i) (rev [0..<?n])")
        case None
        then have "\<bar>?X\<bar> = 0" using find_no_bit [OF None, of zl] X(1) len by (simp add: nth_append)
        then show ?thesis using small e Some None by simp
      next
        case z: (Some mxz)
        have zb: "mxz < ?n" "\<bar>?X\<bar> < 2 ^ Suc mxz"
          using find_top_bit [OF z, of zl] X(1) len by (simp_all add: nth_append)
        show ?thesis
        proof (cases "mxa > mxz")
          case True
          then have "(2 :: int) ^ Suc mxz \<le> 2 ^ mxa" by (intro power_increasing) auto
          then show ?thesis using small e Some z True zb(2) by simp
        next
          case False
          have v: "bnum (take (mxa + 2) (rl @ [False])) = \<bar>?Y\<bar>" "length (take (mxa + 2) (rl @ [False])) = mxa + 2"
            using bnum_take [of "rl @ [False]" "mxa + 2"] m Y len by (simp_all add: bnum_append)
          have "a = map Not (rl @ [False])" by (simp add: a_def)
          then have tk: "take (mxa + 2) a = map Not (take (mxa + 2) (rl @ [False]))" by (simp only: take_map)
          have ta: "bnum (take (mxa + 2) a) = 2 ^ (mxa + 2) - 1 - \<bar>?Y\<bar>" unfolding tk bnum_not v ..
          have "(2 :: int) ^ Suc mxz = 2 ^ mxa * 2 ^ (mxz - mxa + 1)" using False by (simp add: power_add [symmetric])
          also have "\<dots> \<le> \<bar>?Y\<bar> * 2 ^ (mxz - mxa + 1)" using m(2) by (intro mult_right_mono) auto
          finally have "\<bar>?X\<bar> < \<bar>?Y\<bar> * 2 ^ (mxz - mxa + 1)" using zb(2) by linarith
          then have "length (mod_rows (mxa + 2) a (mxz - mxa) (zl @ [False])) = ?n + 1 \<and>
              bnum (mod_rows (mxa + 2) a (mxz - mxa) (zl @ [False])) = \<bar>?X\<bar> mod \<bar>?Y\<bar>"
            using mod_rows_ok [of "\<bar>?Y\<bar>" mxa a "mxz - mxa" "zl @ [False]"] ta y0 m zb(1) False len X(2)
            by (simp add: a_def)
          then show ?thesis using tally y0 e Some z False by simp
        qed
      qed
    qed
  qed
qed

section \<open>Remainder in a machine word\<close>

lemma mod_read_ok:
  "idx + k \<le> 64 \<Longrightarrow>
   (if \<exists>i. idx \<le> i \<and> i < idx + k \<and> (bit4_is_xz (lval i) \<or> bit4_is_xz (rval i))
    then mod_read lval rval idx k lv rv = None
    else \<exists>lv' rv'. mod_read lval rval idx k lv rv = Some (lv', rv') \<and>
      (\<forall>j<64. bit lv' j \<longleftrightarrow> bit lv j \<or> (idx \<le> j \<and> j < idx + k \<and> lval j = BIT4_1)) \<and>
      (\<forall>j<64. bit rv' j \<longleftrightarrow> bit rv j \<or> (idx \<le> j \<and> j < idx + k \<and> rval j = BIT4_1)))"
proof (induction k arbitrary: idx lv rv)
  case 0
  then show ?case by auto
next
  case (Suc k)
  have range: "idx \<le> i \<and> i < idx + Suc k \<longleftrightarrow> i = idx \<or> (Suc idx \<le> i \<and> i < Suc idx + k)" for i by auto
  let ?put = "\<lambda>w b. w OR push_bit idx (of_bool (b = BIT4_1)) :: 64 word"
  have put: "bit (?put w b) j \<longleftrightarrow> bit w j \<or> (j = idx \<and> b = BIT4_1)" if "j < 64" for w b j
    using that by (auto simp: bit_or_iff bit_push_bit_iff bit_1_iff)
  show ?case
  proof (cases "bit4_is_xz (lval idx) \<or> bit4_is_xz (rval idx)")
    case True
    then have "\<exists>i. idx \<le> i \<and> i < idx + Suc k \<and> (bit4_is_xz (lval i) \<or> bit4_is_xz (rval i))" by (intro exI [of _ idx]) auto
    then show ?thesis using True by (auto simp: Let_def)
  next
    case False
    then have step: "mod_read lval rval idx (Suc k) lv rv = mod_read lval rval (Suc idx) k (?put lv (lval idx)) (?put rv (rval idx))"
      by (simp add: Let_def)
    define LV RV where "LV = ?put lv (lval idx)" and "RV = ?put rv (rval idx)"
    have bits: "bit LV j \<longleftrightarrow> bit lv j \<or> (j = idx \<and> lval idx = BIT4_1)" "bit RV j \<longleftrightarrow> bit rv j \<or> (j = idx \<and> rval idx = BIT4_1)"
      if "j < 64" for j using put [OF that] by (simp_all add: LV_def RV_def)
    let ?ex = "\<exists>i. Suc idx \<le> i \<and> i < Suc idx + k \<and> (bit4_is_xz (lval i) \<or> bit4_is_xz (rval i))"
    have ex: "(\<exists>i. idx \<le> i \<and> i < idx + Suc k \<and> (bit4_is_xz (lval i) \<or> bit4_is_xz (rval i))) \<longleftrightarrow> ?ex"
      using False range by metis
    have le: "Suc idx + k \<le> 64" using Suc.prems by simp
    note IH = Suc.IH [OF le, of LV RV]
    show ?thesis
    proof (cases ?ex)
      case True
      have "mod_read lval rval (Suc idx) k LV RV = None" using IH unfolding if_P [OF True] .
      then show ?thesis unfolding ex step LV_def [symmetric] RV_def [symmetric] if_P [OF True] .
    next
      case no: False
      obtain lv' rv' where w: "mod_read lval rval (Suc idx) k LV RV = Some (lv', rv')"
          "\<forall>j<64. bit lv' j \<longleftrightarrow> bit LV j \<or> (Suc idx \<le> j \<and> j < Suc idx + k \<and> lval j = BIT4_1)"
          "\<forall>j<64. bit rv' j \<longleftrightarrow> bit RV j \<or> (Suc idx \<le> j \<and> j < Suc idx + k \<and> rval j = BIT4_1)"
        using IH unfolding if_not_P [OF no] by blast
      have "\<forall>j<64. bit lv' j \<longleftrightarrow> bit lv j \<or> (idx \<le> j \<and> j < idx + Suc k \<and> lval j = BIT4_1)"
        "\<forall>j<64. bit rv' j \<longleftrightarrow> bit rv j \<or> (idx \<le> j \<and> j < idx + Suc k \<and> rval j = BIT4_1)"
        using w(2,3) bits range by metis+
      then show ?thesis using w(1) unfolding ex step LV_def [symmetric] RV_def [symmetric] if_not_P [OF no] by blast
    qed
  qed
qed

lemma mod_read_vec:
  assumes "vsize l = vsize r" "vsize l \<le> 64"
  shows "mod_read (v4_value l) (v4_value r) 0 (vsize l) 0 0 =
    (if known_bits (vec_bits l) \<and> known_bits (vec_bits r)
     then Some (word_of_int (bits_val (vec_bits l)), word_of_int (bits_val (vec_bits r))) else None)"
proof -
  let ?n = "vsize l"
  have xz: "(\<exists>i. 0 \<le> i \<and> i < 0 + ?n \<and> (bit4_is_xz (v4_value l i) \<or> bit4_is_xz (v4_value r i))) \<longleftrightarrow>
      \<not> (known_bits (vec_bits l) \<and> known_bits (vec_bits r))"
    using assms(1) by (auto simp: known_bits_def list_all_length vec_bits_nth)
  note read = mod_read_ok [of 0 ?n "v4_value l" "v4_value r" 0 0]
  show ?thesis
  proof (cases "known_bits (vec_bits l) \<and> known_bits (vec_bits r)")
    case False
    then show ?thesis using read assms(2) xz by simp
  next
    case True
    have le: "0 + ?n \<le> 64" using assms(2) by simp
    have no: "\<not> (\<exists>i. 0 \<le> i \<and> i < 0 + ?n \<and> (bit4_is_xz (v4_value l i) \<or> bit4_is_xz (v4_value r i)))" using True xz by blast
    obtain lv rv where w: "mod_read (v4_value l) (v4_value r) 0 ?n 0 0 = Some (lv, rv)"
        "\<forall>j<64. bit lv j \<longleftrightarrow> j < ?n \<and> v4_value l j = BIT4_1" "\<forall>j<64. bit rv j \<longleftrightarrow> j < ?n \<and> v4_value r j = BIT4_1"
      using read [OF le] unfolding if_not_P [OF no] by auto
    have "lv = word_of_int (bits_val (vec_bits l))"
      by (rule bit_word_eqI) (use w(2) in \<open>auto simp: bit_word_of_int_iff bit_bits_val vec_bits_nth\<close>)
    moreover have "rv = word_of_int (bits_val (vec_bits r))"
      by (rule bit_word_eqI) (use w(3) assms(1) in \<open>auto simp: bit_word_of_int_iff bit_bits_val vec_bits_nth\<close>)
    ultimately show ?thesis using w(1) True by simp
  qed
qed

lemma mod_write_ok:
  assumes "stackable v" "vsize v \<le> 64"
  shows "\<exists>x. mod_write (word_of_int y) v = Some x \<and> stackable x \<and> vec_bits x = bits_of (vsize v) y"
proof -
  have b: "drop_bit i (word_of_int y :: 64 word) AND 1 \<noteq> 0 \<longleftrightarrow> bit y i" if "i < vsize v" for i
    using that assms(2) by (simp add: and_one_eq bit_iff_odd_drop_bit [symmetric] odd_iff_mod_2_eq_one [symmetric] bit_word_of_int_iff)
  obtain x where x: "mod_write (word_of_int y) v = Some x" "wf_vec x"
      "vec_bits x = map (\<lambda>i. if drop_bit i (word_of_int y :: 64 word) AND 1 \<noteq> 0 then BIT4_1 else BIT4_0) [0..<vsize v]"
    unfolding mod_write_def by (rule edit_all_ok [of v "vsize v"]) (use assms(1) in \<open>simp_all add: stackable_def\<close>)
  have "vec_bits x = bits_of (vsize v) y" unfolding x(3) bits_of_def by (rule map_cong) (use b in auto)
  moreover have "vsize x = vsize v" using vsize_bits [OF x(3)] by simp
  ultimately show ?thesis using x assms(1) by (auto simp: stackable_def)
qed

lemma mod_yields:
  assumes "wf_thread thr" "stack_vec4 thr = r # l # vs" "vsize l = vsize r"
  shows "yields thr vs (quotient (smod) False (vec_bits l) (vec_bits r)) (of_MOD cp thr)"
proof -
  have st: "stackable l" "stackable r" using assms(1,2) by (auto simp: wf_thread_def)
  let ?x = "bits_val (vec_bits l)" and ?y = "bits_val (vec_bits r)"
  let ?body = "\<lambda>vala valb. do {
     assert_opt (vsize vala = vsize valb);
     let wid = vsize vala;
     (if wid \<le> 64
      then (case mod_read (v4_value vala) (v4_value valb) 0 wid 0 0 of
              None \<Rightarrow> Some (x_vec4 wid)
            | Some (lv, rv) \<Rightarrow> if rv = 0 then Some (x_vec4 wid) else mod_write (lv mod rv) vala)
      else do_verylong_mod vala valb False False) }"
  have "\<exists>x. ?body l r = Some x \<and> stackable x \<and> vec_bits x = quotient (smod) False (vec_bits l) (vec_bits r)"
  proof (cases "vsize l \<le> 64")
    case False
    then show ?thesis using verylong_mod_ok [OF st assms(3), of False False False] assms(3) by (simp add: Let_def)
  next
    case True
    show ?thesis
    proof (cases "known_bits (vec_bits l) \<and> known_bits (vec_bits r)")
      case False
      then show ?thesis using True assms(3) mod_read_vec [OF assms(3)] x_vec4_ok [OF st(1)]
        by (auto simp: quotient_def Let_def)
    next
      case known: True
      have "(2 :: int) ^ vsize l \<le> 2 ^ 64" using True by (intro power_increasing) auto
      then have u: "uint (word_of_int ?x :: 64 word) = ?x" "uint (word_of_int ?y :: 64 word) = ?y"
        using bits_val_range [of "vec_bits l"] bits_val_range [of "vec_bits r"] assms(3)
        by (simp_all add: uint_word_of_int mod_pos_pos_trivial)
      have "(word_of_int ?x :: 64 word) mod word_of_int ?y = word_of_int (?x mod ?y)"
        using u by (simp add: word_mod_def)
      moreover have "?x smod ?y = ?x mod ?y" 
        using bits_val_range(1) [of "vec_bits l"] bits_val_range(1) [of "vec_bits r"] by (simp add: smod_abs)
      moreover have "(word_of_int ?y :: 64 word) = 0 \<longleftrightarrow> ?y = 0" using u(2) by (metis unsigned_0 word_of_int_0)
      ultimately show ?thesis
        using known True assms(3) mod_read_vec [OF assms(3)] x_vec4_ok [OF st(1)] mod_write_ok [OF st(1) True, of "?x mod ?y"]
        by (simp add: quotient_def num_val_def Let_def)
    qed
  qed
  then obtain x where "?body l r = Some x" "stackable x" "vec_bits x = quotient (smod) False (vec_bits l) (vec_bits r)" by blast
  then show ?thesis unfolding of_MOD_def by (rule binary_op_yields [OF assms(2)])
qed

lemma mod_extend_value:
  assumes "0 < length bs" "length bs \<le> 64"
  shows "mod_extend (length bs) (word_of_int (bits_val bs)) = word_of_int (sbits_val bs)"
proof (rule bit_word_eqI)
  let ?n = "length bs"
  fix i assume "i < LENGTH(64)"
  then have i: "i < 64" by simp
  have push: "bit (push_bit (?n - 1) 1 :: 64 word) j \<longleftrightarrow> j < 64 \<and> j = ?n - 1" for j
    by (auto simp: bit_exp_iff dest: bit_imp_le_length)
  have last: "last bs = bs ! (?n - 1)" "bs \<noteq> []" using assms(1) by (auto simp: last_conv_nth)
  have "bit (word_of_int (bits_val bs) :: 64 word) j \<longleftrightarrow> j < 64 \<and> j < ?n \<and> bs ! j = BIT4_1" for j
    by (simp add: bit_word_of_int_iff bit_bits_val)
  then have t: "(word_of_int (bits_val bs) :: 64 word) AND push_bit (?n - 1) 1 \<noteq> 0 \<longleftrightarrow> last bs = BIT4_1"
  proof -
    assume b: "\<And>j. bit (word_of_int (bits_val bs) :: 64 word) j \<longleftrightarrow> j < 64 \<and> j < ?n \<and> bs ! j = BIT4_1"
    have k: "?n - 1 < 64" "?n - 1 < ?n" using assms by auto
    show ?thesis unfolding word_nonzero bit_and_iff push b last(1) using k by blast
  qed
  have m: "bit (push_bit ?n (- 1) :: 64 word) i \<longleftrightarrow> ?n \<le> i" using i by (simp add: bit_not_iff bit_mask_iff not_less)
  show "bit (mod_extend ?n (word_of_int (bits_val bs))) i = bit (word_of_int (sbits_val bs) :: 64 word) i"
    using i assms(2) last(2) m unfolding mod_extend_def t
    by (auto simp: bit_or_iff bit_word_of_int_iff bit_bits_val bit_sbits_val)
qed

lemma mod_s_yields:
  assumes "wf_thread thr" "stack_vec4 thr = r # l # vs" "vsize l = vsize r"
  shows "yields thr vs (quotient (smod) True (vec_bits l) (vec_bits r)) (of_MOD_S cp thr)"
proof -
  have st: "stackable l" "stackable r" using assms(1,2) by (auto simp: wf_thread_def)
  let ?L = "vec_bits l" and ?R = "vec_bits r" and ?n = "vsize l"
  let ?x = "sbits_val ?L" and ?y = "sbits_val ?R"
  have ne: "?L \<noteq> []" "?R \<noteq> []" using st by (auto simp: stackable_def simp flip: length_0_conv)
  have n: "0 < ?n" using st by (simp add: stackable_def)
  let ?body = "\<lambda>vala valb. do {
     assert_opt (vsize vala = vsize valb);
     let wid = vsize vala;
     (if wid \<le> 64
      then (case mod_read (v4_value vala) (v4_value valb) 0 wid 0 0 of
              None \<Rightarrow> Some (x_vec4 wid)
            | Some (lv, rv) \<Rightarrow>
                if rv = 0 then Some (x_vec4 wid)
                else if sint lv = - (2 ^ 63) \<and> sint rv = - 1 then Some (vector4_fill wid BIT4_0)
                else mod_write (word_of_int (sint (mod_extend wid lv) smod sint (mod_extend wid rv))) vala)
      else do_verylong_mod vala valb (v4_value vala (wid - 1) = BIT4_1) (v4_value valb (wid - 1) = BIT4_1)) }"
  have top: "v4_value l (?n - 1) = last ?L" "v4_value r (?n - 1) = last ?R"
    using n assms(3) ne by (simp_all add: last_conv_nth vec_bits_nth)
  have "\<exists>x. ?body l r = Some x \<and> stackable x \<and> vec_bits x = quotient (smod) True ?L ?R"
  proof (cases "known_bits ?L \<and> known_bits ?R")
    case False
    then have "quotient (smod) True ?L ?R = replicate ?n BIT4_X" by (auto simp: quotient_def)
    moreover have "?body l r = Some (x_vec4 ?n)"
    proof (cases "?n \<le> 64")
      case True
      then show ?thesis using False assms(3) mod_read_vec [OF assms(3)] by (auto simp: Let_def)
    next
      case long: False
      have "list_ex (\<lambda>(lb, rb). bit4_is_xz lb \<or> bit4_is_xz rb) (zip ?L ?R)"
        using False assms(3) by (auto simp: list_ex_length known_bits_def list_all_length)
      moreover have "map (v4_value l) [0..<?n] = ?L" "map (v4_value r) [0..<?n] = ?R"
        using assms(3) by (simp_all add: vec_bits_def)
      ultimately show ?thesis using long assms(3) by (simp add: do_verylong_mod_def Let_def)
    qed
    ultimately show ?thesis using x_vec4_ok [OF st(1)] by simp
  next
    case known: True
    show ?thesis
    proof (cases "?n \<le> 64")
      case False
      have "(last ?L = BIT4_1) = (num_val True ?L < 0)" "(last ?R = BIT4_1) = (num_val True ?R < 0)"
        using sbits_val_sign ne known by (simp_all add: num_val_def)
      then show ?thesis using verylong_mod_ok [OF st assms(3), of _ True] False assms(3) top by (simp add: Let_def)
    next
      case True
      have e: "mod_extend ?n (word_of_int (bits_val ?L)) = word_of_int ?x" "mod_extend ?n (word_of_int (bits_val ?R)) = word_of_int ?y"
        using mod_extend_value [of ?L] mod_extend_value [of ?R] n True assms(3) by simp_all
      have p: "(2 :: int) ^ (?n - 1) \<le> 2 ^ 63" "(2 :: int) ^ ?n \<le> 2 ^ 64" using True by (intro power_increasing; simp)+
      then have range: "- (2 ^ 63) \<le> ?x" "?x < 2 ^ 63" "- (2 ^ 63) \<le> ?y" "?y < 2 ^ 63"
        using sbits_val_range [OF ne(1)] sbits_val_range [OF ne(2)] assms(3) by simp_all
      have s: "sint (word_of_int ?x :: 64 word) = ?x" "sint (word_of_int ?y :: 64 word) = ?y"
        using range sint_word_of by simp_all
      have u: "uint (word_of_int (bits_val ?R) :: 64 word) = bits_val ?R"
        using bits_val_range [of ?R] p(2) assms(3) by (simp add: uint_word_of_int mod_pos_pos_trivial)
      have y0: "(word_of_int (bits_val ?R) :: 64 word) = 0 \<longleftrightarrow> ?y = 0"
      proof -
        have "bits_val ?R = 0 \<longleftrightarrow> ?y = 0"
          using bits_val_range [of ?R] sbits_val_range [OF ne(2)] pow2_Suc_pred [of "length ?R"] ne(2)
          n assms(3) by (auto simp: sbits_val_def split: if_splits)
        then show ?thesis using u by (metis unsigned_0 word_of_int_0)
      qed
      have zero: "?x smod ?y = 0" if "sint (word_of_int (bits_val ?L) :: 64 word) = - (2 ^ 63)" "sint (word_of_int (bits_val ?R) :: 64 word) = - 1"
      proof -
        have "?n = 64"
        proof (rule ccontr)
          assume "?n \<noteq> 64"
          then have "(2 :: int) ^ ?n \<le> 2 ^ 63" using True by (intro power_increasing) auto
          then have "sint (word_of_int (bits_val ?L) :: 64 word) = bits_val ?L"
            using bits_val_range [of ?L] by (intro sint_word_of) simp_all
          then show False using that(1) bits_val_range(1) [of ?L] by simp
        qed
        then have "mod_extend ?n w = w" for w by (simp add: mod_extend_def)
        then have "?y = - 1" using that(2) e(2) s(2) by simp
        then show ?thesis by (simp add: smod_abs)
      qed
      have "(replicate ?n BIT4_0) = bits_of ?n 0" by (auto simp: bits_of_def intro: nth_equalityI)
      then show ?thesis
        using known True assms(3) mod_read_vec [OF assms(3)] x_vec4_ok [OF st(1)] mod_write_ok [OF st(1) True, of "?x smod ?y"] y0 s e zero n st(1)
        by (auto simp: quotient_def num_val_def Let_def vector4_fill_bits)
    qed
  qed
  then obtain x where "?body l r = Some x" "stackable x" "vec_bits x = quotient (smod) True ?L ?R" by blast
  then show ?thesis unfolding of_MOD_S_def by (rule binary_op_yields [OF assms(2)])
qed

end
