(* ===== verification/Vthread_Machine.thy ===== *)
theory Vthread_Machine
  imports Vthread_Mod
begin

text \<open>
  Threads together (\<^verbatim>\<open>vvp/vthread.cc\<close>): the store of thread objects, the scopes that list their threads
  and contexts, the creation and the reaping of threads, the instructions that fork, join, detach,
  disable and end them, the jumps, and the fetch loop \<open>vthread_run\<close>. A thread is named by its
  address, so a set of threads is a sorted list and its \<^verbatim>\<open>begin()\<close> is the head. The addresses and the
  uninitialised memory that the allocator hands out are an argument: a list in the state. Events that
  go to the scheduler are collected in the order of the calls. Every definition is on the whole
  state; \<open>None\<close> is a failed assertion, a null pointer or, in the fetch loop, a lack of fuel.
\<close>

unbundle bit_operations_syntax

section \<open>State\<close>

datatype sched_call = Call_Thread nat "64 word" bool | Call_Inactive nat | Call_Delete nat

record thread_scope =
  is_automatic :: bool
  scope_threads :: "nat list"
  live_contexts :: "nat list"
  free_contexts :: "nat list"

record machine =
  code_cells :: "vvp_code list"
  thr_tab :: "nat \<Rightarrow> vthread_s option"
  scope_tab :: "nat \<Rightarrow> thread_scope option"
  stacked :: "nat \<Rightarrow> nat option"
  thread_memory :: "(nat \<times> vvp_bit4 list \<times> 64 word list) list"
  context_memory :: "nat list"
  is_stopped :: bool
  sched_calls :: "sched_call list"

definition put_thr :: "nat \<Rightarrow> vthread_s \<Rightarrow> machine \<Rightarrow> machine" where
  "put_thr a thr m = m\<lparr>thr_tab := (thr_tab m)(a \<mapsto> thr)\<rparr>"

definition upd_thr :: "nat \<Rightarrow> (vthread_s \<Rightarrow> vthread_s) \<Rightarrow> machine \<Rightarrow> machine option" where
  "upd_thr a f m = map_option (\<lambda>thr. put_thr a (f thr) m) (thr_tab m a)"

definition upd_scope :: "nat \<Rightarrow> (thread_scope \<Rightarrow> thread_scope) \<Rightarrow> machine \<Rightarrow> machine option" where
  "upd_scope a f m = map_option (\<lambda>s. m\<lparr>scope_tab := (scope_tab m)(a \<mapsto> f s)\<rparr>) (scope_tab m a)"

definition sched_call :: "sched_call \<Rightarrow> machine \<Rightarrow> machine" where
  "sched_call c m = m\<lparr>sched_calls := sched_calls m @ [c]\<rparr>"

definition set_insert :: "nat \<Rightarrow> nat list \<Rightarrow> nat list" where
  "set_insert a as = (if a \<in> set as then as else insort a as)"

definition codespace_null :: nat where
  "codespace_null = 0"

section \<open>Life of a thread\<close>

text \<open>The chain of waiting threads is marked to its end; a chain with a cycle would not end.\<close>

partial_function (option) vthread_mark_scheduled :: "nat option \<Rightarrow> machine \<Rightarrow> machine option" where
  "vthread_mark_scheduled thr m =
     (case thr of
        None \<Rightarrow> Some m
      | Some a \<Rightarrow> do {
          t \<leftarrow> thr_tab m a;
          assert_opt (\<not> is_scheduled t);
          vthread_mark_scheduled (wait_next t) (put_thr a (t\<lparr>is_scheduled := True\<rparr>) m) })"

definition vt_schedule :: "nat \<Rightarrow> 64 word \<Rightarrow> bool \<Rightarrow> machine \<Rightarrow> machine option" where
  "vt_schedule a delay push m = map_option (sched_call (Call_Thread a delay push)) (vthread_mark_scheduled (Some a) m)"

definition vt_schedule_inactive :: "nat \<Rightarrow> machine \<Rightarrow> machine option" where
  "vt_schedule_inactive a m = map_option (sched_call (Call_Inactive a)) (vthread_mark_scheduled (Some a) m)"

definition vthread_new :: "nat \<Rightarrow> nat \<Rightarrow> machine \<Rightarrow> (machine \<times> nat) option" where
  "vthread_new pc0 scope m =
     (case thread_memory m of
        [] \<Rightarrow> None
      | (a, raw_flags, raw_words) # mem \<Rightarrow> do {
          assert_opt (thr_tab m a = None \<and> length raw_flags = FLAGS_COUNT \<and> length raw_words = WORDS_COUNT);
          let thr = \<lparr>pc = pc0,
                     flags = [BIT4_0, BIT4_1, BIT4_X, BIT4_Z, BIT4_X, BIT4_X, BIT4_X, BIT4_X] @ drop 8 raw_flags,
                     words = raw_words, args_vec4 = [], stack_vec4 = [], i_am_joining = False, i_am_detached = False,
                     i_am_waiting = False, i_am_in_function = False, i_have_ended = False, i_was_disabled = False,
                     waiting_for_event = False, is_scheduled = False, delay_delete = False, children = [],
                     detached_children = [], parent = None, parent_scope = scope, wait_next = None,
                     wt_context = None, rd_context = None\<rparr>;
          m \<leftarrow> upd_scope scope (\<lambda>s. s\<lparr>scope_threads := set_insert a (scope_threads s)\<rparr>) (put_thr a thr (m\<lparr>thread_memory := mem\<rparr>));
          Some (m, a) })"

definition vthread_delete :: "nat \<Rightarrow> machine \<Rightarrow> machine option" where
  "vthread_delete a m = do {
     thr \<leftarrow> thr_tab m a;
     let stack = (if i_was_disabled thr then [] else stack_vec4 thr);
     assert_opt (stack = []);
     Some (m\<lparr>thr_tab := (thr_tab m)(a := None)\<rparr>) }"

fun pass_children :: "nat \<Rightarrow> nat option \<Rightarrow> nat list \<Rightarrow> machine \<Rightarrow> machine option" where
  "pass_children a p [] m = Some m"
| "pass_children a p (c # cs) m = do {
     t \<leftarrow> thr_tab m c;
     assert_opt (parent t = Some a);
     pass_children a p cs (put_thr c (t\<lparr>parent := p\<rparr>) m) }"

fun free_children :: "nat \<Rightarrow> nat list \<Rightarrow> machine \<Rightarrow> machine option" where
  "free_children a [] m = Some m"
| "free_children a (c # cs) m = do {
     t \<leftarrow> thr_tab m c;
     assert_opt (parent t = Some a \<and> i_am_detached t);
     free_children a cs (put_thr c (t\<lparr>parent := None, i_am_detached := False\<rparr>) m) }"

text \<open>Taking a thread out of one of the two sets of its parent, where it must be.\<close>

definition leave_parent :: "nat \<Rightarrow> machine \<Rightarrow> machine option" where
  "leave_parent a m = do {
     thr \<leftarrow> thr_tab m a;
     (case parent thr of
        None \<Rightarrow> Some m
      | Some p \<Rightarrow> do {
          t \<leftarrow> thr_tab m p;
          (if i_am_detached thr
           then do { assert_opt (a \<in> set (detached_children t)); Some (put_thr p (t\<lparr>detached_children := remove1 a (detached_children t)\<rparr>) m) }
           else do { assert_opt (a \<in> set (children t)); Some (put_thr p (t\<lparr>children := remove1 a (children t)\<rparr>) m) }) }) }"

definition leave_scope :: "nat \<Rightarrow> machine \<Rightarrow> machine option" where
  "leave_scope a m = do {
     thr \<leftarrow> thr_tab m a;
     upd_scope (parent_scope thr) (\<lambda>s. s\<lparr>scope_threads := remove1 a (scope_threads s)\<rparr>) m }"

definition vthread_reap :: "nat \<Rightarrow> machine \<Rightarrow> machine option" where
  "vthread_reap a m = do {
     thr \<leftarrow> thr_tab m a;
     m \<leftarrow> pass_children a (parent thr) (children thr) m;
     m \<leftarrow> free_children a (detached_children thr) m;
     m \<leftarrow> leave_parent a m;
     m \<leftarrow> upd_thr a (\<lambda>t. t\<lparr>parent := None\<rparr>) m;
     m \<leftarrow> leave_scope a m;
     m \<leftarrow> upd_thr a (\<lambda>t. t\<lparr>pc := codespace_null\<rparr>) m;
     thr \<leftarrow> thr_tab m a;
     (if \<not> is_scheduled thr \<and> \<not> waiting_for_event thr
      then do {
        assert_opt (children thr = [] \<and> wait_next thr = None);
        (if delay_delete thr then Some (sched_call (Call_Delete a) m) else vthread_delete a m) }
      else Some m) }"

section \<open>Contexts of automatic scopes\<close>

text \<open>A scope keeps its live and its free contexts in two lists. The instances of the items of the
  scope, which the two functions also reset or create, are not part of the state.\<close>

definition vthread_alloc_context :: "nat \<Rightarrow> machine \<Rightarrow> (machine \<times> nat) option" where
  "vthread_alloc_context scope m = do {
     s \<leftarrow> scope_tab m scope;
     assert_opt (is_automatic s);
     (context, s, m) \<leftarrow> (case free_contexts s of
         c # cs \<Rightarrow> Some (c, s\<lparr>free_contexts := cs\<rparr>, m)
       | [] \<Rightarrow> (case context_memory m of [] \<Rightarrow> None | c # cs \<Rightarrow> Some (c, s, m\<lparr>context_memory := cs\<rparr>)));
     Some (m\<lparr>scope_tab := (scope_tab m)(scope \<mapsto> s\<lparr>live_contexts := context # live_contexts s\<rparr>)\<rparr>, context) }"

definition vthread_free_context :: "nat option \<Rightarrow> nat \<Rightarrow> machine \<Rightarrow> machine option" where
  "vthread_free_context context scope m = do {
     s \<leftarrow> scope_tab m scope;
     assert_opt (is_automatic s);
     c \<leftarrow> context;
     assert_opt (c \<in> set (live_contexts s));
     Some (m\<lparr>scope_tab := (scope_tab m)(scope \<mapsto>
       s\<lparr>live_contexts := remove1 c (live_contexts s), free_contexts := c # free_contexts s\<rparr>)\<rparr>) }"

type_synonym instr = "nat \<Rightarrow> vvp_code \<Rightarrow> machine \<Rightarrow> (machine \<times> bool) option"

definition cp_scope :: "vvp_code \<Rightarrow> nat" where
  "cp_scope cp = unat (word1 cp)"

definition of_ALLOC :: instr where
  "of_ALLOC a cp m = do {
     (m, c) \<leftarrow> vthread_alloc_context (cp_scope cp) m;
     thr \<leftarrow> thr_tab m a;
     Some (put_thr a (thr\<lparr>wt_context := Some c\<rparr>) (m\<lparr>stacked := (stacked m)(c := wt_context thr)\<rparr>), True) }"

definition of_FREE :: instr where
  "of_FREE a cp m = do {
     thr \<leftarrow> thr_tab m a;
     c \<leftarrow> rd_context thr;
     m \<leftarrow> vthread_free_context (Some c) (cp_scope cp) (put_thr a (thr\<lparr>rd_context := stacked m c\<rparr>) m);
     Some (m, True) }"

section \<open>Fork, join and disable\<close>

text \<open>\<^verbatim>\<open>run\<close> is \<open>vthread_run\<close>: a thread that executes a function runs its child at once.\<close>

definition of_FORK :: "(nat \<Rightarrow> machine \<Rightarrow> machine option) \<Rightarrow> instr" where
  "of_FORK run a cp m = do {
     (m, child) \<leftarrow> vthread_new (cp_cptr2 cp) (cp_scope cp) m;
     s \<leftarrow> scope_tab m (cp_scope cp);
     thr \<leftarrow> thr_tab m a;
     m \<leftarrow> (if is_automatic s then upd_thr child (\<lambda>t. t\<lparr>wt_context := wt_context thr, rd_context := wt_context thr\<rparr>) m else Some m);
     m \<leftarrow> upd_thr child (\<lambda>t. t\<lparr>parent := Some a\<rparr>) m;
     m \<leftarrow> upd_thr a (\<lambda>t. t\<lparr>children := set_insert child (children t)\<rparr>) m;
     m \<leftarrow> (if i_am_in_function thr
           then do { m \<leftarrow> upd_thr child (\<lambda>t. t\<lparr>is_scheduled := True, i_am_in_function := True\<rparr>) m; run child m }
           else vt_schedule child 0 True m);
     Some (m, True) }"

definition do_join :: "nat \<Rightarrow> nat \<Rightarrow> machine \<Rightarrow> machine option" where
  "do_join a child m = do {
     t \<leftarrow> thr_tab m child;
     assert_opt (parent t = Some a);
     thr \<leftarrow> thr_tab m a;
     m \<leftarrow> (if wt_context t \<noteq> None \<and> wt_context thr \<noteq> rd_context thr
           then do {
             c \<leftarrow> wt_context thr;
             Some (put_thr a (thr\<lparr>wt_context := stacked m c, rd_context := Some c\<rparr>)
                     (m\<lparr>stacked := (stacked m)(c := rd_context thr)\<rparr>)) }
           else Some m);
     vthread_reap child m }"

definition has_ended :: "machine \<Rightarrow> nat \<Rightarrow> bool" where
  "has_ended m c = (case thr_tab m c of None \<Rightarrow> False | Some t \<Rightarrow> i_have_ended t)"

definition do_join_opcode :: "nat \<Rightarrow> machine \<Rightarrow> (machine \<times> bool) option" where
  "do_join_opcode a m = do {
     thr \<leftarrow> thr_tab m a;
     assert_opt (\<not> i_am_joining thr);
     assert_opt (children thr \<noteq> []);
     (case find (has_ended m) (children thr) of
        Some c \<Rightarrow> do { m \<leftarrow> do_join a c m; Some (m, True) }
      | None \<Rightarrow> Some (put_thr a (thr\<lparr>i_am_joining := True\<rparr>) m, False)) }"

definition of_JOIN :: instr where
  "of_JOIN a cp m = do_join_opcode a m"

text \<open>The loop of \<open>of_JOIN_DETACH\<close>, with the number of children as its bound.\<close>

fun detach_loop :: "nat \<Rightarrow> nat \<Rightarrow> machine \<Rightarrow> machine option" where
  "detach_loop a n m = do {
     thr \<leftarrow> thr_tab m a;
     (case children thr of
        [] \<Rightarrow> Some m
      | child # _ \<Rightarrow> do {
          t \<leftarrow> thr_tab m child;
          assert_opt (parent t = Some a);
          assert_opt (wt_context t = None \<or> wt_context thr \<noteq> wt_context t);
          m \<leftarrow> (if i_have_ended t then vthread_reap child m
                else do {
                  m \<leftarrow> upd_thr a (\<lambda>t. t\<lparr>children := remove1 child (children t)\<rparr>) m;
                  m \<leftarrow> upd_thr child (\<lambda>t. t\<lparr>i_am_detached := True\<rparr>) m;
                  upd_thr a (\<lambda>t. t\<lparr>detached_children := set_insert child (detached_children t)\<rparr>) m });
          (case n of 0 \<Rightarrow> None | Suc k \<Rightarrow> detach_loop a k m) }) }"

declare detach_loop.simps [simp del]

definition of_JOIN_DETACH :: instr where
  "of_JOIN_DETACH a cp m = do {
     thr \<leftarrow> thr_tab m a;
     assert_opt (unat (cp_number cp) = length (children thr));
     m \<leftarrow> detach_loop a (length (children thr)) m;
     Some (m, True) }"

fun end_detached :: "nat \<Rightarrow> nat list \<Rightarrow> machine \<Rightarrow> machine option" where
  "end_detached a [] m = Some m"
| "end_detached a (c # cs) m = do {
     t \<leftarrow> thr_tab m c;
     assert_opt (parent t = Some a \<and> i_am_detached t);
     m \<leftarrow> upd_thr a (\<lambda>t. t\<lparr>detached_children := remove1 c (detached_children t)\<rparr>)
            (put_thr c (t\<lparr>parent := None, i_am_detached := False\<rparr>) m);
     end_detached a cs m }"

text \<open>Leaving a parent that the thread is detached from, and waking it when it waits for the last one.\<close>

definition leave_detached :: "nat \<Rightarrow> machine \<Rightarrow> machine option" where
  "leave_detached a m = do {
     thr \<leftarrow> thr_tab m a;
     p \<leftarrow> parent thr;
     tmp \<leftarrow> thr_tab m p;
     assert_opt (a \<in> set (detached_children tmp));
     let tmp = tmp\<lparr>detached_children := remove1 a (detached_children tmp)\<rparr>;
     m \<leftarrow> (if i_am_waiting tmp \<and> detached_children tmp = []
           then vt_schedule p 0 True (put_thr p (tmp\<lparr>i_am_waiting := False\<rparr>) m)
           else Some (put_thr p tmp m));
     upd_thr a (\<lambda>t. t\<lparr>i_am_detached := False, parent := None\<rparr>) m }"

definition of_END :: instr where
  "of_END a cp m = do {
     thr \<leftarrow> thr_tab m a;
     assert_opt (\<not> waiting_for_event thr);
     m \<leftarrow> end_detached a (detached_children thr) (put_thr a (thr\<lparr>i_have_ended := True, pc := codespace_null\<rparr>) m);
     thr \<leftarrow> thr_tab m a;
     assert_opt (children thr = []);
     joined \<leftarrow> (case parent thr of
         None \<Rightarrow> Some False
       | Some p \<Rightarrow> do { t \<leftarrow> thr_tab m p; Some (\<not> i_am_detached thr \<and> i_am_joining t) });
     (if joined
      then do {
        p \<leftarrow> parent thr;
        m \<leftarrow> upd_thr p (\<lambda>t. t\<lparr>i_am_joining := False\<rparr>) m;
        m \<leftarrow> vt_schedule p 0 True m;
        m \<leftarrow> do_join p a m;
        Some (m, False) }
      else do {
        m \<leftarrow> (if i_am_detached thr then leave_detached a m else Some m);
        thr \<leftarrow> thr_tab m a;
        m \<leftarrow> (if parent thr = None then vthread_reap a m else Some m);
        Some (m, False) }) }"

text \<open>The end of \<open>do_disable\<close>: what happens to the disabled thread depends on its parent.\<close>

definition finish_disable :: "nat \<Rightarrow> machine \<Rightarrow> machine option" where
  "finish_disable a m = do {
     thr \<leftarrow> thr_tab m a;
     (case parent thr of
        None \<Rightarrow> vthread_reap a m
      | Some p \<Rightarrow> do {
          t \<leftarrow> thr_tab m p;
          (if i_am_joining t
           then do {
             let m = put_thr p (t\<lparr>i_am_joining := False\<rparr>) m;
             m \<leftarrow> (if i_have_ended t then Some m else vt_schedule p 0 True m);
             do_join p a m }
           else Some m) }) }"

text \<open>\<open>do_disable\<close> calls itself on the children, depth first; \<open>n\<close> bounds the turns of its loops and
  the depth of the calls.\<close>

fun do_disable :: "nat \<Rightarrow> nat \<Rightarrow> nat \<Rightarrow> machine \<Rightarrow> (machine \<times> bool) option"
  and disable_children :: "nat \<Rightarrow> nat \<Rightarrow> nat \<Rightarrow> bool \<Rightarrow> machine \<Rightarrow> (machine \<times> bool) option" where
  "do_disable 0 a match m = None"
| "do_disable (Suc n) a match m = do {
     m \<leftarrow> leave_scope a m;
     m \<leftarrow> upd_thr a (\<lambda>t. t\<lparr>pc := codespace_null, i_was_disabled := True, i_have_ended := True\<rparr>) m;
     (m, flag) \<leftarrow> disable_children n a match False m;
     m \<leftarrow> finish_disable a m;
     Some (m, flag \<or> a = match) }"
| "disable_children 0 a match flag m = None"
| "disable_children (Suc n) a match flag m = do {
     thr \<leftarrow> thr_tab m a;
     (case children thr of
        [] \<Rightarrow> Some (m, flag)
      | tmp # _ \<Rightarrow> do {
          t \<leftarrow> thr_tab m tmp;
          assert_opt (parent t = Some a);
          m \<leftarrow> upd_thr a (\<lambda>t. t\<lparr>i_am_joining := False\<rparr>) m;
          (m, f) \<leftarrow> do_disable n tmp match m;
          m \<leftarrow> vthread_reap tmp m;
          disable_children n a match (flag \<or> f) m }) }"

fun disable_scope :: "nat \<Rightarrow> nat \<Rightarrow> nat \<Rightarrow> bool \<Rightarrow> machine \<Rightarrow> (machine \<times> bool) option" where
  "disable_scope 0 scope thr flag m = None"
| "disable_scope (Suc n) scope thr flag m = do {
     s \<leftarrow> scope_tab m scope;
     (case scope_threads s of
        [] \<Rightarrow> Some (m, flag)
      | cur # _ \<Rightarrow> do {
          (m, f) \<leftarrow> do_disable n cur thr m;
          disable_scope n scope thr (flag \<or> f) m }) }"

definition of_DISABLE :: "nat \<Rightarrow> instr" where
  "of_DISABLE n a cp m = do {
     (m, disabled_myself_flag) \<leftarrow> disable_scope n (cp_scope cp) a False m;
     Some (m, \<not> disabled_myself_flag) }"

text \<open>The walk to the nearest ancestor that runs in the scope.\<close>

partial_function (option) flow_target :: "nat \<Rightarrow> nat option \<Rightarrow> machine \<Rightarrow> nat option option" where
  "flow_target scope cur m =
     (case cur of
        None \<Rightarrow> Some None
      | Some c \<Rightarrow> do {
          t \<leftarrow> thr_tab m c;
          (if parent_scope t = scope then Some (Some c) else flow_target scope (parent t) m) })"

definition of_DISABLE_FLOW :: "nat \<Rightarrow> instr" where
  "of_DISABLE_FLOW n a cp m = do {
     cur \<leftarrow> flow_target (cp_scope cp) (Some a) m;
     (m, f) \<leftarrow> do_disable n (case cur of None \<Rightarrow> a | Some c \<Rightarrow> c) a m;
     Some (m, \<not> f) }"

fun disable_detached :: "nat \<Rightarrow> nat \<Rightarrow> machine \<Rightarrow> machine option" where
  "disable_detached 0 a m = None"
| "disable_detached (Suc n) a m = do {
     thr \<leftarrow> thr_tab m a;
     (case detached_children thr of
        [] \<Rightarrow> Some m
      | child # _ \<Rightarrow> do {
          t \<leftarrow> thr_tab m child;
          assert_opt (parent t = Some a);
          (m, res) \<leftarrow> do_disable n child a m;
          assert_opt (\<not> res);
          m \<leftarrow> vthread_reap child m;
          disable_detached n a m }) }"

definition of_DISABLE_FORK :: "nat \<Rightarrow> instr" where
  "of_DISABLE_FORK n a cp m = do {
     thr \<leftarrow> thr_tab m a;
     assert_opt (\<not> i_am_joining thr);
     assert_opt (children thr = []);
     m \<leftarrow> disable_detached n a m;
     Some (m, True) }"

definition of_WAIT_FORK :: instr where
  "of_WAIT_FORK a cp m = do {
     thr \<leftarrow> thr_tab m a;
     assert_opt (\<not> i_am_in_function thr \<and> \<not> i_am_joining thr \<and> \<not> i_am_waiting thr);
     assert_opt (children thr = []);
     (if detached_children thr = [] then Some (m, True)
      else Some (put_thr a (thr\<lparr>i_am_waiting := True\<rparr>) m, False)) }"

definition of_ZOMBIE :: instr where
  "of_ZOMBIE a cp m = do {
     m \<leftarrow> upd_thr a (\<lambda>t. t\<lparr>pc := codespace_null\<rparr>) m;
     thr \<leftarrow> thr_tab m a;
     m \<leftarrow> (if parent thr = None \<and> children thr = []
           then (if delay_delete thr then Some (sched_call (Call_Delete a) m) else vthread_delete a m)
           else Some m);
     Some (m, False) }"

section \<open>Delays and jumps\<close>

definition do_delay :: "nat \<Rightarrow> 64 word \<Rightarrow> machine \<Rightarrow> (machine \<times> bool) option" where
  "do_delay a delay m = do {
     m \<leftarrow> (if delay = 0 then vt_schedule_inactive a m else vt_schedule a delay False m);
     Some (m, False) }"

definition of_DELAY :: instr where
  "of_DELAY a cp = do_delay a (push_bit 32 (ucast (cp_bit_idx1 cp)) OR ucast (cp_bit_idx0 cp))"

definition of_DELAYX :: instr where
  "of_DELAYX a cp m = do {
     thr \<leftarrow> thr_tab m a;
     delay \<leftarrow> get_word (unat (cp_number cp)) thr;
     do_delay a delay m }"

text \<open>After a jump the thread goes on, unless the simulation has been stopped.\<close>

definition jump_if :: "(vvp_bit4 \<Rightarrow> bool) \<Rightarrow> instr" where
  "jump_if p a cp m = do {
     thr \<leftarrow> thr_tab m a;
     flag \<leftarrow> get_flag (unat (cp_bit_idx0 cp)) thr;
     let m = (if p flag then put_thr a (thr\<lparr>pc := cp_cptr cp\<rparr>) m else m);
     (if is_stopped m then do { m \<leftarrow> vt_schedule a 0 False m; Some (m, False) } else Some (m, True)) }"

definition of_JMP :: instr where
  "of_JMP a cp m = do {
     m \<leftarrow> upd_thr a (\<lambda>t. t\<lparr>pc := cp_cptr cp\<rparr>) m;
     (if is_stopped m then do { m \<leftarrow> vt_schedule a 0 False m; Some (m, False) } else Some (m, True)) }"

definition of_JMP0 :: instr where
  "of_JMP0 = jump_if (\<lambda>b. b = BIT4_0)"

definition of_JMP0XZ :: instr where
  "of_JMP0XZ = jump_if (\<lambda>b. b \<noteq> BIT4_1)"

definition of_JMP1 :: instr where
  "of_JMP1 = jump_if (\<lambda>b. b = BIT4_1)"

definition of_JMP1XZ :: instr where
  "of_JMP1XZ = jump_if (\<lambda>b. b \<noteq> BIT4_0)"

definition of_CHUNK_LINK :: instr where
  "of_CHUNK_LINK a cp m = do {
     assert_opt (cp_cptr cp \<noteq> 0);
     m \<leftarrow> upd_thr a (\<lambda>t. t\<lparr>pc := cp_cptr cp\<rparr>) m;
     Some (m, True) }"

end
