(* ===== verification/Vthread_Types.thy ===== *)
theory Vthread_Types
  imports Vthread_Machine
begin

text \<open>
  The instructions of the vector stack machine as a table from the name of the function that executes
  an instruction to its definition and to its type: the widths that it expects on the vector stack
  and the widths it leaves. An instruction that fits the widths on the stack of a well-formed thread
  executes, no assertion fails and no loop runs on, and it leaves a well-formed thread with the
  widths of its type. The sums, differences and products of index registers have no type: whether
  they overflow depends on the values.
\<close>

unbundle bit_operations_syntax

section \<open>Division ends for every width\<close>

lemma correct_digit_total:
  assumes "length ap = length bp" "0 < words_val bp"
  shows "\<exists>ap' g'. correct_digit ap bp g = Some (ap', g') \<and> length ap' = length bp"
proof -
  let ?D = "map (\<lambda>w. NOT w) (multiply_array_imm bp g)"
  have lenD: "length ap = length ?D" using multiply_array_imm_value(1) assms(1) by simp
  obtain S c where r: "ripple ulong_add_with_carry ap ?D 1 = (S, c)" by (cases "ripple ulong_add_with_carry ap ?D 1")
  note rw = ripple_words [OF lenD _ r]
  have len: "length S = length bp" using rw(3) assms(1) by simp
  show ?thesis
  proof (cases "c = 0")
    case True
    define X where "X = words_val S - 2 ^ (64 * length bp)"
    have "X < 0" using words_val_bound [of S] len by (simp add: X_def)
    then show ?thesis using add_back_ok [OF len, of X g] assms(2) True r by (auto simp: correct_digit_def X_def)
  qed (use r len rw(2) in \<open>auto simp: correct_digit_def\<close>)
qed

lemma divide_loop_total:
  assumes "length bp = cnt" "\<And>c. c < cnt - btop \<Longrightarrow> 0 < words_val (take (cnt - c) bp)"
  shows "length ap = cnt \<Longrightarrow> length res = cnt \<Longrightarrow> k \<le> cnt - btop \<Longrightarrow>
    \<exists>res' ap'. divide_loop cnt btop bp k ap res = Some (res', ap') \<and> length res' = cnt"
proof (induction k arbitrary: ap res)
  case (Suc c)
  show ?case
  proof (cases "guess_digit cnt btop ap bp c")
    case None
    then show ?thesis using Suc by simp
  next
    case (Some q)
    have "0 < words_val (take (cnt - c) bp)" using assms(2) Suc.prems by simp
    then obtain hi q' where d: "correct_digit (drop c ap) (take (cnt - c) bp) q = Some (hi, q')" "length hi = cnt - c"
      using correct_digit_total [of "drop c ap" "take (cnt - c) bp" q] assms(1) Suc.prems by auto
    then show ?thesis using Suc.IH [of "take c ap @ hi" "res[c := q']"] Some Suc.prems by simp
  qed
qed simp

lemma divide_bits_total:
  assumes "length ap = word_count wid" "length bp = word_count wid" "0 < wid"
  shows "\<exists>r. divide_bits ap bp wid = Some r \<and> (\<forall>res x. r = Some (res, x) \<longrightarrow> length res = word_count wid)"
proof (cases "words_val bp = 0")
  case True
  then show ?thesis using divide_bits_zero [OF assms(2,3)] by auto
next
  case False
  let ?n = "word_count wid"
  define btop where "btop = find_btop bp (?n - 1)"
  have n: "0 < ?n" using assms(3) by (simp add: word_count_def)
  then have t: "btop \<le> ?n - 1" "\<And>i. btop < i \<Longrightarrow> i \<le> ?n - 1 \<Longrightarrow> bp ! i = 0"
    using find_btop_top [of "?n - 1" bp] assms(2) by (auto simp: btop_def)
  have "words_val (take k bp) = words_val bp" if "btop < k" for k
    by (rule words_val_top) (use t(2) assms(2) that in auto)
  then have "0 < words_val (take (?n - c) bp)" if "c < ?n - btop" for c
    using that False words_val_nonneg [of bp] by simp
  then obtain res ap' where "divide_loop ?n btop bp (?n - btop) ap (replicate ?n 0) = Some (res, ap')" "length res = ?n"
    using divide_loop_total [of bp ?n btop ap "replicate ?n 0" "?n - btop"] assms(1,2) by auto
  then show ?thesis unfolding divide_bits_def Let_def btop_def [symmetric] by auto
qed

lemma div_total:
  assumes "wf_thread thr" "stack_vec4 thr = r # l # vs" "vsize l = vsize r"
  shows "\<exists>x. of_DIV cp thr = Some (thr\<lparr>stack_vec4 := x # vs\<rparr>) \<and> stackable x \<and> vsize x = vsize l"
    "\<exists>x. of_DIV_S cp thr = Some (thr\<lparr>stack_vec4 := x # vs\<rparr>) \<and> stackable x \<and> vsize x = vsize l"
proof -
  let ?n = "vsize l"
  have st: "stackable l" "stackable r" using assms(1,2) by (auto simp: wf_thread_def)
  have n: "0 < ?n" using st by (simp add: stackable_def)
  note sub = subarray_words [OF st(1)] subarray_words [OF st(2)]
  have x: "stackable (x_vec4 ?n)" "vsize (x_vec4 ?n) = ?n" using x_vec4_ok [OF st(1)] by (simp_all add: x_vec4_def)
  have put: "\<exists>x. v4_setarray l 0 ?n ws = Some x \<and> stackable x \<and> vsize x = ?n" if lws: "length ws = word_count ?n" for ws
  proof -
    obtain v' where v': "v4_setarray l 0 ?n ws = Some v'" "stackable v'" "vec_bits v' = bits_of ?n (words_val ws)"
      using setarray_whole [OF st(1) lws] by blast
    then show ?thesis using vsize_bits [OF v'(3)] by auto
  qed
  show "\<exists>x. of_DIV cp thr = Some (thr\<lparr>stack_vec4 := x # vs\<rparr>) \<and> stackable x \<and> vsize x = vsize l"
  proof (cases "?n \<le> 64")
    case True
    then have "?n < 128 \<or> bits_val (vec_bits r) < 2 ^ 64" by simp
    from div_yields [OF assms this, of cp] show ?thesis
      by (auto simp: yields_def quotient_def dest!: vsize_bits split: if_splits)
  next
    case False
    let ?x = "bits_val (vec_bits l)" and ?y = "bits_val (vec_bits r)"
    obtain res where res: "divide_bits (words_of ?n ?x) (words_of ?n ?y) ?n = Some res"
        "\<And>ws z. res = Some (ws, z) \<Longrightarrow> length ws = word_count ?n"
      using divide_bits_total [of "words_of ?n ?x" ?n "words_of ?n ?y"] n by auto
    show ?thesis
    proof (cases "known_bits (vec_bits l) \<and> known_bits (vec_bits r)")
      case known: True
      have e: "of_DIV cp thr = (case res of None \<Rightarrow> Some (x_vec4 ?n) | Some (ws, _) \<Rightarrow> v4_setarray l 0 ?n ws) \<bind>
          (\<lambda>x. Some (thr\<lparr>stack_vec4 := x # vs\<rparr>))"
        using assms(2,3) known False sub res(1) by (auto simp: of_DIV_def push_vec4_def stack_simps Let_def split: option.splits)
      show ?thesis
      proof (cases res)
        case None
        then show ?thesis using e x by auto
      next
        case (Some p)
        then show ?thesis using e put [of "fst p"] res(2) [of "fst p" "snd p"] by (cases p) auto
      qed
    next
      case unknown: False
      then show ?thesis using assms(2,3) sub x by (auto simp: of_DIV_def push_vec4_def stack_simps Let_def)
    qed
  qed
  show "\<exists>x. of_DIV_S cp thr = Some (thr\<lparr>stack_vec4 := x # vs\<rparr>) \<and> stackable x \<and> vsize x = vsize l"
  proof (cases "?n \<le> 64")
    case True
    then have "?n \<le> 128 \<or> \<bar>sbits_val (vec_bits r)\<bar> < 2 ^ 64" by simp
    from div_s_yields [OF assms this, of cp] show ?thesis
      by (auto simp: yields_def quotient_def dest!: vsize_bits split: if_splits)
  next
    case False
    let ?ap = "extend_words ?n (words_of ?n (bits_val (vec_bits l)))" and ?bp = "extend_words ?n (words_of ?n (bits_val (vec_bits r)))"
    let ?k = "word_count ?n - 1"
    have len: "length ?ap = word_count ?n" "length ?bp = word_count ?n" by (simp_all add: extend_words_def Let_def)
    have long: "\<exists>x. signed_long_div ?n l ?ap ?bp = Some x \<and> stackable x \<and> vsize x = ?n"
    proof -
      let ?A = "if sint (?ap ! ?k) < 0 then negate_words ?ap else ?ap" and ?B = "if sint (?bp ! ?k) < 0 then negate_words ?bp else ?bp"
      have "length ?A = word_count ?n" "length ?B = word_count ?n" using len by (auto simp: negate_words_value)
      then obtain res where res: "divide_bits ?A ?B ?n = Some res" "\<And>ws z. res = Some (ws, z) \<Longrightarrow> length ws = word_count ?n"
        using divide_bits_total [of ?A ?n ?B] n by auto
      show ?thesis
      proof (cases res)
        case None
        then show ?thesis using res(1) x by (simp add: signed_long_div_def Let_def)
      next
        case (Some p)
        define q where "q = (if (sint (?ap ! ?k) < 0) \<noteq> (sint (?bp ! ?k) < 0) then negate_words (fst p) else fst p)"
        have "length (q[?k := q ! ?k AND NOT (sign_mask ?n)]) = word_count ?n"
          using res(2) [of "fst p" "snd p"] Some by (simp add: q_def negate_words_value)
        moreover have "signed_long_div ?n l ?ap ?bp = v4_setarray l 0 ?n (q[?k := q ! ?k AND NOT (sign_mask ?n)])"
          unfolding signed_long_div_def Let_def res(1) Some q_def by (cases p) simp
        ultimately show ?thesis using put by simp
      qed
    qed
    show ?thesis
    proof (cases "known_bits (vec_bits l) \<and> known_bits (vec_bits r)")
      case True
      then show ?thesis using long assms(2,3) sub False by (auto simp: of_DIV_S_def binary_op_def stack_simps Let_def)
    next
      case unknown: False
      then show ?thesis using assms(2,3) sub x by (auto simp: of_DIV_S_def binary_op_def stack_simps Let_def)
    qed
  qed
qed

section \<open>Types of the instructions\<close>

type_synonym alu_type = "vvp_code \<Rightarrow> nat list \<Rightarrow> nat list option"

fun ty_keep :: alu_type where
  "ty_keep cp (a # ws) = Some (a # ws)"
| "ty_keep cp [] = None"

fun ty_bit :: alu_type where
  "ty_bit cp (a # ws) = Some (1 # ws)"
| "ty_bit cp [] = None"

fun ty_binary :: alu_type where
  "ty_binary cp (a # b # ws) = (if a = b then Some (b # ws) else None)"
| "ty_binary cp _ = None"

fun ty_compare :: alu_type where
  "ty_compare cp (a # b # ws) = (if a = b then Some ws else None)"
| "ty_compare cp _ = None"

fun ty_imm :: alu_type where
  "ty_imm cp (a # ws) = (if a = cp_wid cp then Some (a # ws) else None)"
| "ty_imm cp [] = None"

fun ty_compare_imm :: alu_type where
  "ty_compare_imm cp (a # ws) = (if a = cp_wid cp then Some ws else None)"
| "ty_compare_imm cp [] = None"

definition ty_push :: alu_type where
  "ty_push cp ws = (if 0 < cp_wid cp \<and> cp_wid cp < 2 ^ 31 then Some (cp_wid cp # ws) else None)"

definition ty_pop :: alu_type where
  "ty_pop cp ws = (if cp_wid cp \<le> length ws then Some (drop (cp_wid cp) ws) else None)"

fun ty_dup :: alu_type where
  "ty_dup cp (a # ws) = Some (a # a # ws)"
| "ty_dup cp [] = None"

definition ty_none :: alu_type where
  "ty_none cp ws = Some ws"

fun ty_concat :: alu_type where
  "ty_concat cp (a # b # ws) = (if a + b < 2 ^ 31 then Some ((a + b) # ws) else None)"
| "ty_concat cp _ = None"

fun ty_concati :: alu_type where
  "ty_concati cp (a # ws) = (if 0 < cp_wid cp \<and> a + cp_wid cp < 2 ^ 31 then Some ((cp_wid cp + a) # ws) else None)"
| "ty_concati cp [] = None"

fun ty_replicate :: alu_type where
  "ty_replicate cp (a # ws) = (if 0 < cp_wid cp \<and> a * cp_wid cp < 2 ^ 31 then Some ((cp_wid cp * a) # ws) else None)"
| "ty_replicate cp [] = None"

fun ty_split :: alu_type where
  "ty_split cp (a # ws) = (if 0 < cp_wid cp \<and> cp_wid cp < a then Some (cp_wid cp # (a - cp_wid cp) # ws) else None)"
| "ty_split cp [] = None"

fun ty_resize :: alu_type where
  "ty_resize cp (a # ws) = (if 0 < cp_wid cp \<and> cp_wid cp < 2 ^ 31 then Some (cp_wid cp # ws) else None)"
| "ty_resize cp [] = None"

fun ty_shift :: alu_type where
  "ty_shift cp (a # ws) = (if cp_wid cp < WORDS_COUNT then Some (a # ws) else None)"
| "ty_shift cp [] = None"

fun ty_part :: alu_type where
  "ty_part cp (b # a # ws) = (if 0 < cp_wid cp \<and> cp_wid cp < 2 ^ 30 \<and> a < 2 ^ 30 then Some (cp_wid cp # ws) else None)"
| "ty_part cp _ = None"

fun ty_parti :: alu_type where
  "ty_parti cp (a # ws) =
     (if 0 < cp_wid cp \<and> cp_wid cp < 2 ^ 30 \<and> a < 2 ^ 30 \<and> cp_bit_idx1 cp \<noteq> 0 then Some (cp_wid cp # ws) else None)"
| "ty_parti cp [] = None"

fun ty_index :: alu_type where
  "ty_index cp (a # ws) = (if cp_wid cp < WORDS_COUNT then Some ws else None)"
| "ty_index cp [] = None"

definition ty_push_index :: alu_type where
  "ty_push_index cp ws =
     (if cp_wid cp < WORDS_COUNT \<and> 0 < cp_bit_idx0 cp then Some (min (unat (cp_bit_idx0 cp)) 32 # ws) else None)"

definition ty_ix_load :: alu_type where
  "ty_ix_load cp ws = (if unat (cp_number cp) < WORDS_COUNT then Some ws else None)"

definition ty_ix_mov :: alu_type where
  "ty_ix_mov cp ws =
     (if unat (cp_bit_idx0 cp) < WORDS_COUNT \<and> unat (cp_bit_idx1 cp) < WORDS_COUNT then Some ws else None)"

definition ty_ix_test :: alu_type where
  "ty_ix_test cp ws = (if cp_wid cp < WORDS_COUNT then Some ws else None)"

definition ty_flag_get :: alu_type where
  "ty_flag_get cp ws = (if cp_wid cp < FLAGS_COUNT then Some (1 # ws) else None)"

definition ty_flag_inv :: alu_type where
  "ty_flag_inv cp ws = (if unat (cp_bit_idx0 cp) < FLAGS_COUNT then Some ws else None)"

definition ty_flag_two :: alu_type where
  "ty_flag_two cp ws =
     (if unat (cp_bit_idx0 cp) < FLAGS_COUNT \<and> unat (cp_bit_idx1 cp) < FLAGS_COUNT then Some ws else None)"

definition ty_flag_imm :: alu_type where
  "ty_flag_imm cp ws = (if cp_wid cp < FLAGS_COUNT \<and> unat (cp_bit_idx0 cp) < 4 then Some ws else None)"

fun ty_flag_set :: alu_type where
  "ty_flag_set cp (a # ws) = (if cp_wid cp < FLAGS_COUNT then Some ws else None)"
| "ty_flag_set cp [] = None"

definition ty_untyped :: alu_type where
  "ty_untyped cp ws = None"

definition alu_table :: "(string \<times> (vvp_code \<Rightarrow> vthread_s \<Rightarrow> vthread_s option) \<times> alu_type) list" where
  "alu_table =
    [(''of_NOOP'', of_NOOP, ty_none), (''of_PUSHI_VEC4'', of_PUSHI_VEC4, ty_push), (''of_POP_VEC4'', of_POP_VEC4, ty_pop),
     (''of_DUP_VEC4'', of_DUP_VEC4, ty_dup),
     (''of_AND'', of_AND, ty_binary), (''of_NAND'', of_NAND, ty_binary), (''of_OR'', of_OR, ty_binary),
     (''of_NOR'', of_NOR, ty_binary), (''of_XOR'', of_XOR, ty_binary), (''of_XNOR'', of_XNOR, ty_binary),
     (''of_BLEND'', of_BLEND, ty_binary), (''of_ADD'', of_ADD, ty_binary), (''of_SUB'', of_SUB, ty_binary),
     (''of_MUL'', of_MUL, ty_binary), (''of_DIV'', of_DIV, ty_binary), (''of_DIV_S'', of_DIV_S, ty_binary),
     (''of_MOD'', of_MOD, ty_binary), (''of_MOD_S'', of_MOD_S, ty_binary),
     (''of_ADDI'', of_ADDI, ty_imm), (''of_SUBI'', of_SUBI, ty_imm), (''of_MULI'', of_MULI, ty_imm),
     (''of_INV'', of_INV, ty_keep), (''of_CAST2'', of_CAST2, ty_keep),
     (''of_ANDR'', of_ANDR, ty_bit), (''of_NANDR'', of_NANDR, ty_bit), (''of_ORR'', of_ORR, ty_bit),
     (''of_NORR'', of_NORR, ty_bit), (''of_XORR'', of_XORR, ty_bit), (''of_XNORR'', of_XNORR, ty_bit),
     (''of_CONCAT_VEC4'', of_CONCAT_VEC4, ty_concat), (''of_CONCATI_VEC4'', of_CONCATI_VEC4, ty_concati),
     (''of_REPLICATE'', of_REPLICATE, ty_replicate), (''of_SPLIT_VEC4'', of_SPLIT_VEC4, ty_split),
     (''of_PAD_S'', of_PAD_S, ty_resize), (''of_PAD_U'', of_PAD_U, ty_resize),
     (''of_SHIFTL'', of_SHIFTL, ty_shift), (''of_SHIFTR'', of_SHIFTR, ty_shift), (''of_SHIFTR_S'', of_SHIFTR_S, ty_shift),
     (''of_PART_S'', of_PART_S, ty_part), (''of_PART_U'', of_PART_U, ty_part),
     (''of_PARTI_S'', of_PARTI_S, ty_parti), (''of_PARTI_U'', of_PARTI_U, ty_parti),
     (''of_CMPE'', of_CMPE, ty_compare), (''of_CMPNE'', of_CMPNE, ty_compare), (''of_CMPS'', of_CMPS, ty_compare),
     (''of_CMPU'', of_CMPU, ty_compare), (''of_CMPWE'', of_CMPWE, ty_compare), (''of_CMPWNE'', of_CMPWNE, ty_compare),
     (''of_CMPX'', of_CMPX, ty_compare), (''of_CMPZ'', of_CMPZ, ty_compare),
     (''of_CMPIE'', of_CMPIE, ty_compare_imm), (''of_CMPINE'', of_CMPINE, ty_compare_imm),
     (''of_CMPIS'', of_CMPIS, ty_compare_imm), (''of_CMPIU'', of_CMPIU, ty_compare_imm),
     (''of_FLAG_GET_VEC4'', of_FLAG_GET_VEC4, ty_flag_get), (''of_FLAG_INV'', of_FLAG_INV, ty_flag_inv),
     (''of_FLAG_MOV'', of_FLAG_MOV, ty_flag_two), (''of_FLAG_OR'', of_FLAG_OR, ty_flag_two),
     (''of_FLAG_SET_IMM'', of_FLAG_SET_IMM, ty_flag_imm), (''of_FLAG_SET_VEC4'', of_FLAG_SET_VEC4, ty_flag_set),
     (''of_IX_LOAD'', of_IX_LOAD, ty_ix_load), (''of_IX_MOV'', of_IX_MOV, ty_ix_mov),
     (''of_CMPIX_SLT0'', of_CMPIX_SLT0, ty_ix_test),
     (''of_IX_VEC4'', of_IX_VEC4, ty_index), (''of_IX_VEC4_S'', of_IX_VEC4_S, ty_index),
     (''of_PUSH_IX_VEC4'', of_PUSH_IX_VEC4, ty_push_index),
     (''of_IX_ADD'', of_IX_ADD, ty_untyped), (''of_IX_SUB'', of_IX_SUB, ty_untyped), (''of_IX_MUL'', of_IX_MUL, ty_untyped)]"

section \<open>The instructions respect their types\<close>

definition executes :: "vthread_s \<Rightarrow> nat list \<Rightarrow> vthread_s option \<Rightarrow> bool" where
  "executes thr ws res \<longleftrightarrow> (\<exists>fl wd st. res = Some (thr\<lparr>flags := fl, words := wd, stack_vec4 := st\<rparr>) \<and>
     length fl = FLAGS_COUNT \<and> length wd = WORDS_COUNT \<and> list_all stackable st \<and> map vsize st = ws)"

definition sound :: "(vvp_code \<Rightarrow> vthread_s \<Rightarrow> vthread_s option) \<Rightarrow> alu_type \<Rightarrow> bool" where
  "sound f t \<longleftrightarrow> (\<forall>cp thr ws. wf_thread thr \<longrightarrow> t cp (map vsize (stack_vec4 thr)) = Some ws \<longrightarrow> executes thr ws (f cp thr))"

lemma executesI:
  "\<lbrakk>wf_thread thr; res = Some (thr\<lparr>stack_vec4 := st\<rparr>); list_all stackable st; map vsize st = ws\<rbrakk> \<Longrightarrow> executes thr ws res"
  unfolding executes_def wf_thread_def
  by (rule exI [of _ "flags thr"], rule exI [of _ "words thr"], rule exI [of _ st]) simp

lemma yields_executes:
  "\<lbrakk>yields thr vs bs res; wf_thread thr; list_all stackable vs; ws = length bs # map vsize vs\<rbrakk> \<Longrightarrow> executes thr ws res"
  by (auto simp: yields_def intro: executesI dest: vsize_bits)

lemma soundI: "(\<And>cp thr ws. wf_thread thr \<Longrightarrow> t cp (map vsize (stack_vec4 thr)) = Some ws \<Longrightarrow> executes thr ws (f cp thr)) \<Longrightarrow> sound f t"
  by (simp add: sound_def)

lemma sound_binary:
  assumes "\<And>cp thr r l vs. wf_thread thr \<Longrightarrow> stack_vec4 thr = r # l # vs \<Longrightarrow> vsize l = vsize r \<Longrightarrow>
    \<exists>x. f cp thr = Some (thr\<lparr>stack_vec4 := x # vs\<rparr>) \<and> stackable x \<and> vsize x = vsize l"
  shows "sound f ty_binary"
proof (rule soundI)
  fix cp thr ws assume h: "wf_thread thr" "ty_binary cp (map vsize (stack_vec4 thr)) = Some ws"
  then obtain r l vs where st: "stack_vec4 thr = r # l # vs" "vsize l = vsize r" "ws = vsize l # map vsize vs"
    by (cases "stack_vec4 thr" rule: remdups_adj.cases) (auto split: if_splits)
  obtain x where "f cp thr = Some (thr\<lparr>stack_vec4 := x # vs\<rparr>)" "stackable x" "vsize x = vsize l"
    using assms [OF h(1) st(1,2)] by blast
  then show "executes thr ws (f cp thr)"
    using h(1) st by (auto intro!: executesI simp: wf_thread_def)
qed

lemma yields_width: "yields thr vs bs res \<Longrightarrow> n = length bs \<Longrightarrow> \<exists>x. res = Some (thr\<lparr>stack_vec4 := x # vs\<rparr>) \<and> stackable x \<and> vsize x = n"
  by (auto simp: yields_def dest: vsize_bits)

lemma arith_length [simp]: "length (arith f l r) = length l"
  by (simp add: arith_def)

lemma quotient_length [simp]: "length (quotient f sg l r) = length l"
  by (simp add: quotient_def)

lemma binary_sound:
  "sound of_AND ty_binary" "sound of_NAND ty_binary" "sound of_OR ty_binary" "sound of_NOR ty_binary"
  "sound of_XOR ty_binary" "sound of_XNOR ty_binary" "sound of_BLEND ty_binary"
  "sound of_ADD ty_binary" "sound of_SUB ty_binary" "sound of_MUL ty_binary"
  "sound of_DIV ty_binary" "sound of_DIV_S ty_binary" "sound of_MOD ty_binary" "sound of_MOD_S ty_binary"
  by (rule sound_binary; use logic_yields [THEN yields_width] blend_yields [THEN yields_width]
      arith_yields [THEN yields_width] mod_yields [THEN yields_width] mod_s_yields [THEN yields_width] div_total in simp)+

lemma sound_unary:
  assumes "\<And>cp thr v vs ws. wf_thread thr \<Longrightarrow> stack_vec4 thr = v # vs \<Longrightarrow> t cp (vsize v # map vsize vs) = Some ws \<Longrightarrow>
      \<exists>bs. yields thr vs bs (f cp thr) \<and> ws = length bs # map vsize vs"
    "\<And>cp. t cp [] = None"
  shows "sound f t"
proof (rule soundI)
  fix cp thr ws assume h: "wf_thread thr" "t cp (map vsize (stack_vec4 thr)) = Some ws"
  then obtain v vs where st: "stack_vec4 thr = v # vs" using assms(2) by (cases "stack_vec4 thr") auto
  then obtain bs where "yields thr vs bs (f cp thr)" "ws = length bs # map vsize vs" using assms(1) [OF h(1) st] h(2) by auto
  then show "executes thr ws (f cp thr)" using h(1) st by (auto intro: yields_executes simp: wf_thread_def)
qed

lemma unary_sound:
  "sound of_INV ty_keep" "sound of_CAST2 ty_keep"
  "sound of_ANDR ty_bit" "sound of_NANDR ty_bit" "sound of_ORR ty_bit" "sound of_NORR ty_bit" "sound of_XORR ty_bit" "sound of_XNORR ty_bit"
  by (rule sound_unary; ((rule exI, rule conjI, rule unary_yields cast2_yields; (assumption | force)) | simp))+

lemma imm_sound: "sound of_ADDI ty_imm" "sound of_SUBI ty_imm" "sound of_MULI ty_imm"
proof -
  have "sound f ty_imm" if "\<And>cp thr l vs. wf_thread thr \<Longrightarrow> stack_vec4 thr = l # vs \<Longrightarrow> vsize l = cp_wid cp \<Longrightarrow>
      yields thr vs (arith g (vec_bits l) (imm_bits cp)) (f cp thr)" for f g
  proof (rule sound_unary)
    fix cp thr v vs ws
    assume h: "wf_thread thr" "stack_vec4 thr = v # vs" "ty_imm cp (vsize v # map vsize vs) = Some ws"
    then have "vsize v = cp_wid cp" "ws = vsize v # map vsize vs" by (simp_all split: if_splits)
    then show "\<exists>bs. yields thr vs bs (f cp thr) \<and> ws = length bs # map vsize vs" using that h(1,2) by (intro exI conjI) auto
  qed simp
  note this [OF arith_imm_yields(1)] this [OF arith_imm_yields(2)] this [OF arith_imm_yields(3)]
  then show "sound of_ADDI ty_imm" "sound of_SUBI ty_imm" "sound of_MULI ty_imm" by blast+
qed

lemma bits_lengths [simp]:
  "length (imm_bits cp) = cp_wid cp" "length (shl_bits f4 s bs) = length bs" "length (shr_bits f4 s b bs) = length bs"
  "length (window n base bs) = n"
  by (auto simp: imm_bits_def shl_bits_def shr_bits_def window_def)

lemma parts_sound:
  "sound of_CONCATI_VEC4 ty_concati" "sound of_REPLICATE ty_replicate" "sound of_PAD_S ty_resize" "sound of_PAD_U ty_resize"
  "sound of_SHIFTL ty_shift" "sound of_SHIFTR ty_shift" "sound of_SHIFTR_S ty_shift"
proof -
  show "sound of_CONCATI_VEC4 ty_concati"
    by (rule sound_unary; ((rule exI, rule conjI, rule concati_yields; (assumption | force split: if_splits)) | simp))
  show "sound of_REPLICATE ty_replicate"
    by (rule sound_unary; ((rule exI, rule conjI, rule replicate_yields;
        (assumption | force simp: length_concat sum_list_replicate split: if_splits)) | simp))
  show "sound of_PAD_S ty_resize" "sound of_PAD_U ty_resize"
    by (rule sound_unary; ((rule exI, rule conjI, rule resize_yields; (assumption | force split: if_splits)) | simp))+
  show "sound of_SHIFTL ty_shift" "sound of_SHIFTR ty_shift" "sound of_SHIFTR_S ty_shift"
    by (rule sound_unary; ((rule exI, rule conjI, rule shiftl_yields shiftr_yields; (assumption | force split: if_splits)) | simp))+
qed

lemma parti_use_base_some: "cp_bit_idx1 cp \<noteq> 0 \<Longrightarrow> \<exists>base. parti_use_base sg cp = Some base"
  by (auto simp: parti_use_base_def Let_def unat_eq_zero)

lemma parti_sound: "sound of_PARTI_S ty_parti" "sound of_PARTI_U ty_parti"
proof -
  have "sound (of_PARTI_base sg) ty_parti" for sg
  proof (rule sound_unary)
    fix cp thr v vs ws
    assume h: "wf_thread thr" "stack_vec4 thr = v # vs" "ty_parti cp (vsize v # map vsize vs) = Some ws"
    then have c: "0 < cp_wid cp" "cp_wid cp < 2 ^ 30" "vsize v < 2 ^ 30" "cp_bit_idx1 cp \<noteq> 0" "ws = cp_wid cp # map vsize vs"
      by (auto split: if_splits)
    obtain base where "parti_use_base sg cp = Some base" using parti_use_base_some c(4) by blast
    from parti_yields [OF h(1,2) c(1-3) this] c(5)
    show "\<exists>bs. yields thr vs bs (of_PARTI_base sg cp thr) \<and> ws = length bs # map vsize vs" by (intro exI conjI) auto
  qed simp
  then show "sound of_PARTI_S ty_parti" "sound of_PARTI_U ty_parti" unfolding of_PARTI_S_def of_PARTI_U_def by blast+
qed

lemma two_on_stack:
  assumes "map vsize (stack_vec4 thr) = a # b # ws"
  obtains r l vs where "stack_vec4 thr = r # l # vs" "vsize r = a" "vsize l = b" "map vsize vs = ws"
  using assms by (auto simp: map_eq_Cons_conv)

lemma sound_two:
  assumes "\<And>cp thr r l vs ws. wf_thread thr \<Longrightarrow> stack_vec4 thr = r # l # vs \<Longrightarrow>
      t cp (vsize r # vsize l # map vsize vs) = Some ws \<Longrightarrow> executes thr ws (f cp thr)"
    "\<And>cp. t cp [] = None" "\<And>cp a. t cp [a] = None"
  shows "sound f t"
proof (rule soundI)
  fix cp thr ws assume h: "wf_thread thr" "t cp (map vsize (stack_vec4 thr)) = Some ws"
  then obtain a b us where "map vsize (stack_vec4 thr) = a # b # us"
    using assms(2,3) by (metis neq_Nil_conv option.distinct(1))
  then obtain r l vs where "stack_vec4 thr = r # l # vs" by (rule two_on_stack)
  then show "executes thr ws (f cp thr)" using assms(1) h by auto
qed

lemma concat_sound: "sound of_CONCAT_VEC4 ty_concat" "sound of_PART_S ty_part" "sound of_PART_U ty_part"
proof -
  show "sound of_CONCAT_VEC4 ty_concat"
  proof (rule sound_two)
    fix cp thr r l vs ws
    assume h: "wf_thread thr" "stack_vec4 thr = r # l # vs" "ty_concat cp (vsize r # vsize l # map vsize vs) = Some ws"
    then show "executes thr ws (of_CONCAT_VEC4 cp thr)"
      by (intro yields_executes [OF concat_yields [OF h(1,2)]]) (auto simp: wf_thread_def split: if_splits)
  qed simp_all
  have "sound (of_PART_base sg) ty_part" for sg
  proof (rule sound_two)
    fix cp thr r l vs ws
    assume h: "wf_thread thr" "stack_vec4 thr = r # l # vs" "ty_part cp (vsize r # vsize l # map vsize vs) = Some ws"
    then show "executes thr ws (of_PART_base sg cp thr)"
      by (intro yields_executes [OF part_yields [OF h(1,2)]]) (auto simp: wf_thread_def split: if_splits)
  qed simp_all
  then show "sound of_PART_S ty_part" "sound of_PART_U ty_part" unfolding of_PART_S_def of_PART_U_def by blast+
qed

lemma sound_stack:
  assumes "\<And>cp thr ws. wf_thread thr \<Longrightarrow> t cp (map vsize (stack_vec4 thr)) = Some ws \<Longrightarrow>
    \<exists>st. f cp thr = Some (thr\<lparr>stack_vec4 := st\<rparr>) \<and> list_all stackable st \<and> map vsize st = ws"
  shows "sound f t"
  using assms by (intro soundI) (blast intro: executesI)

lemma stack_sound:
  "sound of_NOOP ty_none" "sound of_PUSHI_VEC4 ty_push" "sound of_POP_VEC4 ty_pop" "sound of_DUP_VEC4 ty_dup"
  "sound of_SPLIT_VEC4 ty_split" "sound of_PUSH_IX_VEC4 ty_push_index" "sound of_FLAG_GET_VEC4 ty_flag_get"
proof -
  have wf: "list_all stackable (stack_vec4 thr)" if "wf_thread thr" for thr using that by (simp add: wf_thread_def)
  show "sound of_NOOP ty_none"
  proof (rule soundI)
    fix cp thr ws assume "wf_thread thr" "ty_none cp (map vsize (stack_vec4 thr)) = Some ws"
    then show "executes thr ws (of_NOOP cp thr)"
      by (intro executesI [of thr _ "stack_vec4 thr"]) (simp_all add: of_NOOP_def ty_none_def wf)
  qed
  show "sound of_PUSHI_VEC4 ty_push"
  proof (rule sound_stack)
    fix cp thr ws assume h: "wf_thread thr" "ty_push cp (map vsize (stack_vec4 thr)) = Some ws"
    then have c: "0 < cp_wid cp" "cp_wid cp < 2 ^ 31" "ws = cp_wid cp # map vsize (stack_vec4 thr)"
      by (auto simp: ty_push_def split: if_splits)
    obtain v where "immediate_vec4 cp = Some v" "wf_vec v" "vsize v = cp_wid cp" using immediate_vec4_ok [OF c(1)] by blast
    then show "\<exists>st. of_PUSHI_VEC4 cp thr = Some (thr\<lparr>stack_vec4 := st\<rparr>) \<and> list_all stackable st \<and> map vsize st = ws"
      using c wf [OF h(1)] by (intro exI [of _ "v # stack_vec4 thr"]) (simp add: of_PUSHI_VEC4_def push_vec4_def stackable_def)
  qed
  show "sound of_POP_VEC4 ty_pop"
  proof (rule sound_stack)
    fix cp thr ws assume h: "wf_thread thr" "ty_pop cp (map vsize (stack_vec4 thr)) = Some ws"
    then have c: "cp_wid cp \<le> length (stack_vec4 thr)" "ws = map vsize (drop (cp_wid cp) (stack_vec4 thr))"
      by (auto simp: ty_pop_def drop_map split: if_splits)
    moreover have "list_all stackable (drop (cp_wid cp) (stack_vec4 thr))"
      using wf [OF h(1)] by (auto simp: list_all_iff dest: in_set_dropD)
    ultimately show "\<exists>st. of_POP_VEC4 cp thr = Some (thr\<lparr>stack_vec4 := st\<rparr>) \<and> list_all stackable st \<and> map vsize st = ws"
      by (intro exI [of _ "drop (cp_wid cp) (stack_vec4 thr)"]) (simp add: of_POP_VEC4_def pop_vec4_cnt_def)
  qed
  show "sound of_DUP_VEC4 ty_dup"
  proof (rule sound_stack)
    fix cp thr ws assume h: "wf_thread thr" "ty_dup cp (map vsize (stack_vec4 thr)) = Some ws"
    then obtain v vs where "stack_vec4 thr = v # vs" by (cases "stack_vec4 thr") auto
    then show "\<exists>st. of_DUP_VEC4 cp thr = Some (thr\<lparr>stack_vec4 := st\<rparr>) \<and> list_all stackable st \<and> map vsize st = ws"
      using h wf [OF h(1)] by (auto simp: of_DUP_VEC4_def push_vec4_def stack_simps)
  qed
  show "sound of_SPLIT_VEC4 ty_split"
  proof (rule sound_stack)
    fix cp thr ws assume h: "wf_thread thr" "ty_split cp (map vsize (stack_vec4 thr)) = Some ws"
    then obtain v vs where st: "stack_vec4 thr = v # vs" by (cases "stack_vec4 thr") auto
    then have c: "0 < cp_wid cp" "cp_wid cp < vsize v" "ws = cp_wid cp # (vsize v - cp_wid cp) # map vsize vs"
      using h(2) by (auto split: if_splits)
    obtain lsb msb where s: "of_SPLIT_VEC4 cp thr = Some (thr\<lparr>stack_vec4 := lsb # msb # vs\<rparr>)" "stackable lsb" "stackable msb"
        "vec_bits lsb = take (cp_wid cp) (vec_bits v)" "vec_bits msb = drop (cp_wid cp) (vec_bits v)"
      using split_ok [OF h(1) st c(1,2)] by blast
    then have "vsize lsb = cp_wid cp" "vsize msb = vsize v - cp_wid cp" using c(2) by (auto dest!: vsize_bits)
    then show "\<exists>st. of_SPLIT_VEC4 cp thr = Some (thr\<lparr>stack_vec4 := st\<rparr>) \<and> list_all stackable st \<and> map vsize st = ws"
      using s c wf [OF h(1)] st by (intro exI [of _ "lsb # msb # vs"]) simp
  qed
  show "sound of_PUSH_IX_VEC4 ty_push_index"
  proof (rule sound_stack)
    fix cp thr ws assume h: "wf_thread thr" "ty_push_index cp (map vsize (stack_vec4 thr)) = Some ws"
    then have c: "cp_wid cp < WORDS_COUNT" "0 < cp_bit_idx0 cp" "ws = min (unat (cp_bit_idx0 cp)) 32 # map vsize (stack_vec4 thr)"
      by (auto simp: ty_push_index_def split: if_splits)
    let ?n = "min (unat (cp_bit_idx0 cp)) 32" and ?u = "ucast (words thr ! cp_wid cp) :: 32 word"
    obtain x where x: "edit_bits (\<lambda>idx. Some (if bit ?u idx then BIT4_1 else BIT4_0)) 0 ?n (vector4_fill ?n BIT4_0) = Some x"
        "wf_vec x" "vec_bits x = map (\<lambda>idx. if bit ?u idx then BIT4_1 else BIT4_0) [0..<?n]"
      by (rule edit_all_ok [of "vector4_fill ?n BIT4_0" ?n]) simp_all
    have "vsize x = ?n" using vsize_bits [OF x(3)] by simp
    moreover have "0 < ?n" using c(2) by (simp add: word_neq_0_conv [symmetric] unat_gt_0)
    ultimately show "\<exists>st. of_PUSH_IX_VEC4 cp thr = Some (thr\<lparr>stack_vec4 := st\<rparr>) \<and> list_all stackable st \<and> map vsize st = ws"
      using x c wf [OF h(1)] by (intro exI [of _ "x # stack_vec4 thr"])
        (simp add: of_PUSH_IX_VEC4_def push_vec4_def get_word_def stackable_def Let_def)
  qed
  show "sound of_FLAG_GET_VEC4 ty_flag_get"
    by (rule sound_stack)
      (auto simp: of_FLAG_GET_VEC4_def ty_flag_get_def get_flag_def push_vec4_def wf split: if_splits)
qed

definition flags_only :: "vthread_s \<Rightarrow> vthread_s \<Rightarrow> bool" where
  "flags_only thr thr' \<longleftrightarrow> (\<exists>fl. thr' = thr\<lparr>flags := fl\<rparr> \<and> length fl = length (flags thr))"

lemma flags_only_set [intro, simp]: "flags_only thr (set_flag i b thr)"
  by (auto simp: flags_only_def set_flag_def)

lemma flags_only_more [simp]: "flags_only thr t \<Longrightarrow> flags_only thr (set_flag i b t)"
  by (auto simp: flags_only_def set_flag_def)

lemma flags_only_456 [simp]: "flags_only thr (set_flags456 f thr)"
  by (cases f) (simp add: set_flags456_def)

lemma executes_flags:
  assumes "wf_thread thr" "flags_only thr t" "list_all stackable vs" "ws = map vsize vs"
  shows "executes thr ws (Some (t\<lparr>stack_vec4 := vs\<rparr>))"
proof -
  obtain fl where "t = thr\<lparr>flags := fl\<rparr>" "length fl = FLAGS_COUNT" using assms(1,2) by (auto simp: flags_only_def wf_thread_def)
  then have "Some (t\<lparr>stack_vec4 := vs\<rparr>) = Some (thr\<lparr>flags := fl, words := words thr, stack_vec4 := vs\<rparr>)" by simp
  then show ?thesis unfolding executes_def
    by (intro exI conjI) (use assms \<open>length fl = FLAGS_COUNT\<close> in \<open>auto simp: wf_thread_def\<close>)
qed

lemma sound_compare:
  assumes "\<And>l r thr. vsize l = vsize r \<Longrightarrow> stackable l \<Longrightarrow> stackable r \<Longrightarrow> length (flags thr) = FLAGS_COUNT \<Longrightarrow>
    \<exists>t. f l r thr = Some t \<and> flags_only thr t"
  shows "sound (\<lambda>cp. compare_op f) ty_compare" "sound (compare_imm f) ty_compare_imm"
proof -
  show "sound (\<lambda>cp. compare_op f) ty_compare"
  proof (rule sound_two)
    fix cp :: vvp_code and thr r l vs ws
    assume h: "wf_thread thr" "stack_vec4 thr = r # l # vs" "ty_compare cp (vsize r # vsize l # map vsize vs) = Some ws"
    then have c: "vsize l = vsize r" "ws = map vsize vs" "stackable l" "stackable r" "list_all stackable vs" "length (flags thr) = FLAGS_COUNT"
      by (auto simp: wf_thread_def split: if_splits)
    obtain t where t: "f l r thr = Some t" "flags_only thr t" using assms c by blast
    then have "stack_vec4 t = stack_vec4 thr" by (auto simp: flags_only_def)
    then have "compare_op f thr = Some (t\<lparr>stack_vec4 := vs\<rparr>)" using compare_op_ok [OF h(2), of f "\<lambda>_. t"] t(1) by simp
    then show "executes thr ws (compare_op f thr)" using executes_flags [OF h(1) t(2) c(5,2)] by simp
  qed simp_all
  show "sound (compare_imm f) ty_compare_imm"
  proof (rule soundI)
    fix cp thr ws
    assume h: "wf_thread thr" "ty_compare_imm cp (map vsize (stack_vec4 thr)) = Some ws"
    then obtain l vs where st: "stack_vec4 thr = l # vs" by (cases "stack_vec4 thr") auto
    then have c: "vsize l = cp_wid cp" "ws = map vsize vs" "stackable l" "list_all stackable vs" "length (flags thr) = FLAGS_COUNT"
      using h by (auto simp: wf_thread_def split: if_splits)
    then have w: "0 < cp_wid cp" "cp_wid cp < 2 ^ 31" by (auto simp: stackable_def)
    obtain r where r: "immediate_vec4 cp = Some r" "wf_vec r" "vsize r = cp_wid cp" using immediate_vec4_ok [OF w(1)] by blast
    have "stackable r" using r w by (simp add: stackable_def)
    then obtain t where t: "f l r thr = Some t" "flags_only thr t" using assms [of l r thr] c r(3) by auto
    then have "stack_vec4 t = stack_vec4 thr" by (auto simp: flags_only_def)
    then have "compare_imm f cp thr = Some (t\<lparr>stack_vec4 := vs\<rparr>)" using compare_imm_ok [OF st r(1), of f "\<lambda>_. t"] t(1) by simp
    then show "executes thr ws (compare_imm f cp thr)" using executes_flags [OF h(1) t(2) c(4,2)] by simp
  qed
qed

lemma compare_sound:
  "sound of_CMPE ty_compare" "sound of_CMPNE ty_compare" "sound of_CMPS ty_compare" "sound of_CMPU ty_compare"
  "sound of_CMPWE ty_compare" "sound of_CMPWNE ty_compare"
  "sound of_CMPIE ty_compare_imm" "sound of_CMPINE ty_compare_imm" "sound of_CMPIS ty_compare_imm" "sound of_CMPIU ty_compare_imm"
proof -
  have e: "\<exists>t. do_CMPE l r thr = Some t \<and> flags_only thr t" "\<exists>t. do_CMPNE l r thr = Some t \<and> flags_only thr t"
      "\<exists>t. do_CMPS l r thr = Some t \<and> flags_only thr t" "\<exists>t. do_CMPU l r thr = Some t \<and> flags_only thr t"
      "\<exists>t. do_CMPWE l r thr = Some t \<and> flags_only thr t" "\<exists>t. map_option (invert_flag 4) (do_CMPWE l r thr) = Some t \<and> flags_only thr t"
    if "vsize l = vsize r" "stackable l" "stackable r" "length (flags thr) = FLAGS_COUNT" for l r thr
    using that stackableD(2) [OF that(2)]
    by (simp_all add: do_CMPE_ok do_CMPNE_ok do_CMPS_ok do_CMPU_ok do_CMPWE_ok invert_flag_def)
  note sc = sound_compare [OF e(1)] sound_compare [OF e(2)] sound_compare [OF e(3)] sound_compare [OF e(4)] sound_compare [OF e(5)] sound_compare [OF e(6)]
  show
    "sound of_CMPE ty_compare" "sound of_CMPNE ty_compare" "sound of_CMPS ty_compare" "sound of_CMPU ty_compare"
    "sound of_CMPWE ty_compare" "sound of_CMPWNE ty_compare"
    "sound of_CMPIE ty_compare_imm" "sound of_CMPINE ty_compare_imm" "sound of_CMPIS ty_compare_imm" "sound of_CMPIU ty_compare_imm"
    unfolding of_CMPE_def [abs_def] of_CMPNE_def [abs_def] of_CMPS_def [abs_def] of_CMPU_def [abs_def]
      of_CMPWE_def [abs_def] of_CMPWNE_def [abs_def] of_CMPIE_def of_CMPINE_def of_CMPIS_def of_CMPIU_def
    by (rule sc; assumption)+
qed

lemma wild_sound: "sound of_CMPX ty_compare" "sound of_CMPZ ty_compare"
proof -
  have "sound (\<lambda>cp. wild_op differ) ty_compare" for differ
  proof (rule sound_two)
    fix cp :: vvp_code and thr r l vs ws
    assume h: "wf_thread thr" "stack_vec4 thr = r # l # vs" "ty_compare cp (vsize r # vsize l # map vsize vs) = Some ws"
    then have c: "vsize l = vsize r" "ws = map vsize vs" "list_all stackable vs" by (auto simp: wf_thread_def split: if_splits)
    obtain b where "wild_op differ thr = Some (set_flag 4 b (thr\<lparr>stack_vec4 := vs\<rparr>))" using wild_op_ok [OF h(2) c(1)] by blast
    moreover have "set_flag 4 b (thr\<lparr>stack_vec4 := vs\<rparr>) = (set_flag 4 b thr)\<lparr>stack_vec4 := vs\<rparr>" for b by (simp add: set_flag_def)
    ultimately show "executes thr ws (wild_op differ thr)" using executes_flags [OF h(1) flags_only_set c(3,2)] by simp
  qed simp_all
  then show "sound of_CMPX ty_compare" "sound of_CMPZ ty_compare" unfolding of_CMPX_def [abs_def] of_CMPZ_def [abs_def] by blast+
qed

lemma sound_flag:
  assumes "\<And>cp thr ws. wf_thread thr \<Longrightarrow> t cp (map vsize (stack_vec4 thr)) = Some ws \<Longrightarrow>
    \<exists>u vs. f cp thr = Some (u\<lparr>stack_vec4 := vs\<rparr>) \<and> flags_only thr u \<and> list_all stackable vs \<and> ws = map vsize vs"
  shows "sound f t"
  using assms executes_flags by (intro soundI) metis

lemma set_flag_stack: "(set_flag i b thr)\<lparr>stack_vec4 := stack_vec4 thr\<rparr> = set_flag i b thr"
  by (cases thr) (simp add: set_flag_def)

lemma flag_sound:
  "sound of_FLAG_INV ty_flag_inv" "sound of_FLAG_MOV ty_flag_two" "sound of_FLAG_OR ty_flag_two"
  "sound of_FLAG_SET_IMM ty_flag_imm" "sound of_FLAG_SET_VEC4 ty_flag_set" "sound of_CMPIX_SLT0 ty_ix_test"
proof -
  have same: "\<exists>u vs. Some (set_flag i b thr) = Some (u\<lparr>stack_vec4 := vs\<rparr>) \<and> flags_only thr u \<and> list_all stackable vs \<and>
      map vsize (stack_vec4 thr) = map vsize vs" if "wf_thread thr" for i b thr
    using that by (intro exI [of _ "set_flag i b thr"] exI [of _ "stack_vec4 thr"]) (simp add: wf_thread_def set_flag_stack)
  show "sound of_FLAG_INV ty_flag_inv" "sound of_FLAG_MOV ty_flag_two" "sound of_FLAG_OR ty_flag_two"
    "sound of_FLAG_SET_IMM ty_flag_imm" "sound of_CMPIX_SLT0 ty_ix_test"
    by (rule sound_flag; use same in \<open>force simp: of_FLAG_INV_def of_FLAG_MOV_def of_FLAG_OR_def of_FLAG_SET_IMM_def of_CMPIX_SLT0_def
        ty_flag_inv_def ty_flag_two_def ty_flag_imm_def ty_ix_test_def get_flag_def get_word_def Let_def split: if_splits\<close>)+
  show "sound of_FLAG_SET_VEC4 ty_flag_set"
  proof (rule sound_flag)
    fix cp thr ws assume h: "wf_thread thr" "ty_flag_set cp (map vsize (stack_vec4 thr)) = Some ws"
    then obtain v vs where st: "stack_vec4 thr = v # vs" by (cases "stack_vec4 thr") auto
    then have c: "cp_wid cp < FLAGS_COUNT" "ws = map vsize vs" "list_all stackable vs" using h by (auto simp: wf_thread_def split: if_splits)
    have "of_FLAG_SET_VEC4 cp thr = Some ((set_flag (cp_wid cp) (v4_value v 0) thr)\<lparr>stack_vec4 := vs\<rparr>)"
      using st c(1) by (simp add: of_FLAG_SET_VEC4_def peek_vec4_def pop_vec4_cnt_def set_flag_def)
    then show "\<exists>u vs. of_FLAG_SET_VEC4 cp thr = Some (u\<lparr>stack_vec4 := vs\<rparr>) \<and> flags_only thr u \<and> list_all stackable vs \<and> ws = map vsize vs"
      using c by (intro exI [of _ "set_flag (cp_wid cp) (v4_value v 0) thr"] exI [of _ vs]) simp
  qed
qed

lemma executes_word:
  assumes "wf_thread thr" "flags_only thr t" "list_all stackable vs" "ws = map vsize vs"
  shows "executes thr ws (Some (t\<lparr>words := (words thr)[i := w], stack_vec4 := vs\<rparr>))"
proof -
  obtain fl where "t = thr\<lparr>flags := fl\<rparr>" "length fl = FLAGS_COUNT" using assms(1,2) by (auto simp: flags_only_def wf_thread_def)
  then show ?thesis unfolding executes_def
    by (intro exI [of _ fl] exI [of _ "(words thr)[i := w]"] exI [of _ vs]) (use assms in \<open>auto simp: wf_thread_def\<close>)
qed

lemma index_sound:
  "sound of_IX_VEC4 ty_index" "sound of_IX_VEC4_S ty_index" "sound of_IX_LOAD ty_ix_load" "sound of_IX_MOV ty_ix_mov"
  "sound of_IX_ADD ty_untyped" "sound of_IX_SUB ty_untyped" "sound of_IX_MUL ty_untyped"
proof -
  have "sound (\<lambda>cp thr. do { (v, thr) \<leftarrow> vec4_to_index sg thr; set_word (cp_wid cp) v thr }) ty_index" for sg
  proof (rule soundI)
    fix cp thr ws assume h: "wf_thread thr" "ty_index cp (map vsize (stack_vec4 thr)) = Some ws"
    then obtain v vs where st: "stack_vec4 thr = v # vs" by (cases "stack_vec4 thr") auto
    then have c: "cp_wid cp < WORDS_COUNT" "ws = map vsize vs" "list_all stackable vs" using h by (auto simp: wf_thread_def split: if_splits)
    obtain w b where "vec4_to_index sg thr = Some (w, set_flag 4 b (thr\<lparr>stack_vec4 := vs\<rparr>))" using vec4_to_index_ok [OF h(1) st] by blast
    then have "do { (v, thr) \<leftarrow> vec4_to_index sg thr; set_word (cp_wid cp) v thr } =
        Some ((set_flag 4 b thr)\<lparr>words := (words thr)[cp_wid cp := w], stack_vec4 := vs\<rparr>)"
      using c(1) by (simp add: set_word_def set_flag_def)
    then show "executes thr ws (do { (v, thr) \<leftarrow> vec4_to_index sg thr; set_word (cp_wid cp) v thr })"
      using executes_word [OF h(1) flags_only_set c(3,2)] by simp
  qed
  then show "sound of_IX_VEC4 ty_index" "sound of_IX_VEC4_S ty_index" unfolding of_IX_VEC4_def [abs_def] of_IX_VEC4_S_def [abs_def] by blast+
  have same: "executes thr (map vsize (stack_vec4 thr)) (Some (thr\<lparr>words := (words thr)[i := w]\<rparr>))" if "wf_thread thr" for thr i w
  proof -
    have "flags_only thr thr" unfolding flags_only_def by (intro exI [of _ "flags thr"]) simp
    moreover have "thr\<lparr>words := ws, stack_vec4 := stack_vec4 thr\<rparr> = thr\<lparr>words := ws\<rparr>" for ws by (cases thr) simp
    ultimately show ?thesis using executes_word [OF that, of thr "stack_vec4 thr"] that by (simp add: wf_thread_def)
  qed
  show "sound of_IX_LOAD ty_ix_load" "sound of_IX_MOV ty_ix_mov"
    by (rule soundI; use same in \<open>force simp: of_IX_LOAD_def of_IX_MOV_def ty_ix_load_def ty_ix_mov_def get_word_def set_word_def split: if_splits\<close>)+
  show "sound of_IX_ADD ty_untyped" "sound of_IX_SUB ty_untyped" "sound of_IX_MUL ty_untyped"
    by (simp_all add: sound_def ty_untyped_def)
qed

lemma alu_sound: "list_all (\<lambda>(name, f, t). sound f t) alu_table"
  unfolding alu_table_def
  by (simp only: list.pred_inject simp_thms prod.case binary_sound unary_sound imm_sound parts_sound parti_sound concat_sound stack_sound
      compare_sound wild_sound flag_sound index_sound)

end
