(* ===== verification/Vthread_Run.thy ===== *)
theory Vthread_Run
  imports Vthread_Types
begin

text \<open>
  The fetch loop \<open>vthread_run\<close> over the instructions of the model, and the run of compiled code: a thread
  that meets well-typed straight code executes it, one instruction after the other, through the links
  of the chunks, to the instruction behind it.
\<close>

section \<open>The fetch loop\<close>

text \<open>A cell holds a pointer to the function that executes its instruction: here the name of the
  function and its definition. \<open>n\<close> is the fuel of the loops and \<open>run\<close> the fetch loop itself.\<close>

definition control_table :: "nat \<Rightarrow> (nat \<Rightarrow> machine \<Rightarrow> machine option) \<Rightarrow> (string \<times> instr) list" where
  "control_table n run =
    [(''of_JMP'', of_JMP), (''of_JMP0'', of_JMP0), (''of_JMP0XZ'', of_JMP0XZ), (''of_JMP1'', of_JMP1), (''of_JMP1XZ'', of_JMP1XZ),
     (''of_CHUNK_LINK'', of_CHUNK_LINK), (''of_FORK'', of_FORK run), (''of_JOIN'', of_JOIN), (''of_JOIN_DETACH'', of_JOIN_DETACH),
     (''of_END'', of_END), (''of_DISABLE'', of_DISABLE n), (''of_DISABLE_FLOW'', of_DISABLE_FLOW n),
     (''of_DISABLE_FORK'', of_DISABLE_FORK n), (''of_WAIT_FORK'', of_WAIT_FORK), (''of_ZOMBIE'', of_ZOMBIE),
     (''of_DELAY'', of_DELAY), (''of_DELAYX'', of_DELAYX), (''of_ALLOC'', of_ALLOC), (''of_FREE'', of_FREE)]"

definition alu_op :: "string \<Rightarrow> (vvp_code \<Rightarrow> vthread_s \<Rightarrow> vthread_s option) option" where
  "alu_op name = map_option fst (map_of alu_table name)"

definition exec :: "nat \<Rightarrow> (nat \<Rightarrow> machine \<Rightarrow> machine option) \<Rightarrow> instr" where
  "exec n run a cp m =
     (case alu_op (opcode cp) of
        Some f \<Rightarrow> do { thr \<leftarrow> thr_tab m a; thr \<leftarrow> f cp thr; Some (put_thr a thr m, True) }
      | None \<Rightarrow> (case map_of (control_table n run) (opcode cp) of Some f \<Rightarrow> f a cp m | None \<Rightarrow> None))"

fun run_loop :: "nat \<Rightarrow> nat \<Rightarrow> machine \<Rightarrow> machine option"
  and vthread_run :: "nat \<Rightarrow> nat option \<Rightarrow> machine \<Rightarrow> machine option" where
  "run_loop 0 a m = None"
| "run_loop (Suc n) a m = do {
     thr \<leftarrow> thr_tab m a;
     assert_opt (pc thr < length (code_cells m));
     (m, rc) \<leftarrow> exec n (\<lambda>child. vthread_run n (Some child)) a (code_cells m ! pc thr) (put_thr a (thr\<lparr>pc := pc thr + 1\<rparr>) m);
     (if rc then run_loop n a m else Some m) }"
| "vthread_run 0 thr m = None"
| "vthread_run (Suc n) None m = Some m"
| "vthread_run (Suc n) (Some a) m = do {
     thr \<leftarrow> thr_tab m a;
     assert_opt (is_scheduled thr);
     m \<leftarrow> run_loop n a (put_thr a (thr\<lparr>wait_next := None, is_scheduled := False\<rparr>) m);
     vthread_run n (wait_next thr) m }"

section \<open>Well-typed code runs\<close>

definition type_op :: "vvp_code \<Rightarrow> nat list \<Rightarrow> nat list option" where
  "type_op cp ws = (case map_of alu_table (opcode cp) of Some (f, t) \<Rightarrow> t cp ws | None \<Rightarrow> None)"

fun type_code :: "vvp_code list \<Rightarrow> nat list \<Rightarrow> nat list option" where
  "type_code [] ws = Some ws"
| "type_code (cp # cps) ws = (case type_op cp ws of None \<Rightarrow> None | Some ws' \<Rightarrow> type_code cps ws')"

definition widths :: "vthread_s \<Rightarrow> nat list" where
  "widths thr = map vsize (stack_vec4 thr)"

lemma type_op_sound:
  assumes "wf_thread thr" "type_op cp (widths thr) = Some ws"
  obtains f where "alu_op (opcode cp) = Some f" "executes thr ws (f cp thr)"
proof -
  obtain f t where ft: "map_of alu_table (opcode cp) = Some (f, t)" "t cp (widths thr) = Some ws"
    using assms(2) by (auto simp: type_op_def split: option.splits)
  then have "sound f t" using alu_sound map_of_SomeD [OF ft(1)] by (auto simp: list_all_iff)
  then show ?thesis using that [of f] ft assms(1) by (simp add: alu_op_def sound_def widths_def)
qed

text \<open>The cells from \<open>p\<close> hold the instructions, following the links, and the next one is at \<open>q\<close>.\<close>

fun code_at :: "codespace \<Rightarrow> nat \<Rightarrow> vvp_code list \<Rightarrow> nat \<Rightarrow> bool" where
  "code_at cs p [] q \<longleftrightarrow> p = q"
| "code_at cs p (cp # cps) q \<longleftrightarrow> p < length (cells cs) \<and> cells cs ! p = cp \<and> next_pc cs p \<noteq> 0 \<and> code_at cs (next_pc cs p) cps q"

text \<open>What the instructions do to the thread, one after the other.\<close>

fun seq_exec :: "codespace \<Rightarrow> vvp_code list \<Rightarrow> vthread_s \<Rightarrow> vthread_s option" where
  "seq_exec cs [] thr = Some thr"
| "seq_exec cs (cp # cps) thr =
     (case alu_op (opcode cp) of
        None \<Rightarrow> None
      | Some f \<Rightarrow> (case f cp (thr\<lparr>pc := pc thr + 1\<rparr>) of
                     None \<Rightarrow> None
                   | Some t \<Rightarrow> seq_exec cs cps (t\<lparr>pc := next_pc cs (pc thr)\<rparr>)))"

lemma put_thr_twice [simp]: "put_thr a t (put_thr a u m) = put_thr a t m" "thr_tab (put_thr a t m) a = Some t"
  "code_cells (put_thr a t m) = code_cells m"
  by (simp_all add: put_thr_def)

lemma chunk_link_control: "alu_op ''of_CHUNK_LINK'' = None" "map_of (control_table n run) ''of_CHUNK_LINK'' = Some of_CHUNK_LINK"
  by (simp_all add: alu_op_def alu_table_def control_table_def)

lemma run_one:
  assumes "thr_tab m a = Some thr" "code_cells m = cells cs" "pc thr < length (cells cs)" "next_pc cs (pc thr) \<noteq> 0"
    "wf_thread thr" "type_op (cells cs ! pc thr) (widths thr) = Some ws"
  shows "\<exists>f t k. alu_op (opcode (cells cs ! pc thr)) = Some f \<and> f (cells cs ! pc thr) (thr\<lparr>pc := pc thr + 1\<rparr>) = Some t \<and>
    wf_thread t \<and> widths t = ws \<and> k \<le> 2 \<and> (\<forall>n. run_loop (k + n) a m = run_loop n a (put_thr a (t\<lparr>pc := next_pc cs (pc thr)\<rparr>) m))"
proof -
  let ?cp = "cells cs ! pc thr" and ?thr = "thr\<lparr>pc := pc thr + 1\<rparr>"
  have "wf_thread ?thr" "type_op ?cp (widths ?thr) = Some ws" using assms(5,6) by (simp_all add: wf_thread_def widths_def)
  then obtain f where f: "alu_op (opcode ?cp) = Some f" "executes ?thr ws (f ?cp ?thr)" by (rule type_op_sound)
  then obtain t where t: "f ?cp ?thr = Some t" "wf_thread t" "widths t = ws" "pc t = pc thr + 1"
    by (auto simp: executes_def wf_thread_def widths_def)
  have step: "run_loop (Suc n) a m = run_loop n a (put_thr a t m)" for n
    using assms(1-3) f(1) t(1) by (simp add: exec_def)
  show ?thesis
  proof (cases "pc thr + 1 < length (cells cs) \<and> opcode (cells cs ! (pc thr + 1)) = ''of_CHUNK_LINK''")
    case True
    then have np: "next_pc cs (pc thr) = cp_cptr (cells cs ! (pc thr + 1))" by (simp add: next_pc_def cp_cptr_def)
    have "run_loop (Suc n) a (put_thr a t m) = run_loop n a (put_thr a (t\<lparr>pc := next_pc cs (pc thr)\<rparr>) m)" for n
      using True assms(2,4) t(4) np by (simp add: exec_def chunk_link_control of_CHUNK_LINK_def upd_thr_def)
    then have "\<forall>n. run_loop (2 + n) a m = run_loop n a (put_thr a (t\<lparr>pc := next_pc cs (pc thr)\<rparr>) m)"
      using step by (simp add: numeral_2_eq_2)
    then show ?thesis using f(1) t by (intro exI [of _ f] exI [of _ t] exI [of _ 2]) simp
  next
    case False
    then have "next_pc cs (pc thr) = pc t" using t(4) by (auto simp: next_pc_def)
    then have "t\<lparr>pc := next_pc cs (pc thr)\<rparr> = t" by (cases t) simp
    then have "\<forall>n. run_loop (1 + n) a m = run_loop n a (put_thr a (t\<lparr>pc := next_pc cs (pc thr)\<rparr>) m)"
      using step by simp
    then show ?thesis using f(1) t by (intro exI [of _ f] exI [of _ t] exI [of _ 1]) simp
  qed
qed

lemma run_code:
  "\<lbrakk>thr_tab m a = Some thr; code_cells m = cells cs; wf_thread thr; code_at cs (pc thr) cps q; type_code cps (widths thr) = Some ws\<rbrakk> \<Longrightarrow>
   \<exists>t k. seq_exec cs cps thr = Some t \<and> pc t = q \<and> wf_thread t \<and> widths t = ws \<and> k \<le> 2 * length cps \<and>
     (\<forall>n. run_loop (k + n) a m = run_loop n a (put_thr a t m))"
proof (induction cps arbitrary: m thr)
  case Nil
  have "put_thr a thr m = m" using Nil(1) by (simp add: put_thr_def fun_upd_idem)
  then show ?case using Nil by (intro exI [of _ thr] exI [of _ 0]) simp
next
  case (Cons cp cps)
  obtain ws1 where ws1: "type_op cp (widths thr) = Some ws1" "type_code cps ws1 = Some ws"
    using Cons.prems(5) by (auto split: option.splits)
  have c: "pc thr < length (cells cs)" "cells cs ! pc thr = cp" "next_pc cs (pc thr) \<noteq> 0" "code_at cs (next_pc cs (pc thr)) cps q"
    using Cons.prems(4) by auto
  obtain f t k where f: "alu_op (opcode cp) = Some f" "f cp (thr\<lparr>pc := pc thr + 1\<rparr>) = Some t" "wf_thread t" "widths t = ws1" "k \<le> 2"
      "\<forall>n. run_loop (k + n) a m = run_loop n a (put_thr a (t\<lparr>pc := next_pc cs (pc thr)\<rparr>) m)"
    using run_one [OF Cons.prems(1,2) c(1,3) Cons.prems(3)] ws1(1) c(2) by auto
  let ?t = "t\<lparr>pc := next_pc cs (pc thr)\<rparr>" and ?m = "put_thr a (t\<lparr>pc := next_pc cs (pc thr)\<rparr>) m"
  have "\<exists>u j. seq_exec cs cps ?t = Some u \<and> pc u = q \<and> wf_thread u \<and> widths u = ws \<and> j \<le> 2 * length cps \<and>
     (\<forall>n. run_loop (j + n) a ?m = run_loop n a (put_thr a u ?m))"
    by (rule Cons.IH) (use Cons.prems(2) c(4) f(3,4) ws1(2) in \<open>simp_all add: wf_thread_def widths_def\<close>)
  then obtain u j where u: "seq_exec cs cps ?t = Some u" "pc u = q" "wf_thread u" "widths u = ws" "j \<le> 2 * length cps"
      "\<forall>n. run_loop (j + n) a ?m = run_loop n a (put_thr a u m)" by auto
  have "run_loop (k + j + n) a m = run_loop n a (put_thr a u m)" for n
    using f(6) u(6) by (simp add: add.assoc)
  then show ?case using f u by (intro exI [of _ u] exI [of _ "k + j"]) simp
qed

end
