(* ===== verification/Vthread_Code.thy ===== *)
theory Vthread_Code
  imports Vthread_Run Compile_Claims
begin

text \<open>
  Code from the linker on the machine: instructions allocated one after the other in the code space
  stand where a thread that does not jump meets them, whatever chunk boundaries lie between.
\<close>

text \<open>Allocating the cells of a list of instructions and filling them.\<close>

fun emit :: "codespace \<Rightarrow> vvp_code list \<Rightarrow> codespace \<times> nat list" where
  "emit cs [] = (cs, [])"
| "emit cs (c # code) =
     (case codespace_allocate cs of
        (cs1, a) \<Rightarrow> (case emit (cs1\<lparr>cells := (cells cs1)[a := c]\<rparr>) code of (cs2, as) \<Rightarrow> (cs2, a # as)))"

lemma next_pc_wf:
  assumes "wf_space cs" "a mod 1024 \<noteq> 1023" "a + 2 < length (cells cs)" "length (cells cs) < 2 ^ 64"
  shows "next_pc cs a = (if a mod 1024 = 1022 then a + 2 else a + 1)"
proof -
  obtain k where k: "length (cells cs) = (k + 1) * 1024"
      "\<forall>i < length (cells cs). opcode (cells cs ! i) = link_op \<longleftrightarrow> i mod 1024 = 1023"
      "\<forall>j < k. word1 (cells cs ! (j * 1024 + 1023)) = code_ptr ((j + 1) * 1024)"
    using assms(1) unfolding wf_space_def by blast
  show ?thesis
  proof (cases "a mod 1024 = 1022")
    case True
    define j where "j = a div 1024"
    have a: "a = j * 1024 + 1022" using True unfolding j_def by (metis div_mult_mod_eq)
    then have "j < k" using assms(3) k(1) by simp
    then have "word1 (cells cs ! (a + 1)) = code_ptr (a + 2)" using k(3) a by (simp add: add.commute)
    moreover have "a + 2 < 2 ^ 64" using assms(3,4) by linarith
    then have "unat (code_ptr (a + 2)) = a + 2" unfolding code_ptr_def unat_of_nat by simp
    moreover have "opcode (cells cs ! (a + 1)) = link_op" using k(1,2) a \<open>j < k\<close> by simp
    ultimately show ?thesis using True assms(3) by (simp add: next_pc_def)
  next
    case False
    then have "(a + 1) mod 1024 \<noteq> 1023" using mod_Suc [of a 1024] by auto
    then show ?thesis using False k(2) assms(3) by (simp add: next_pc_def)
  qed
qed

lemma emit_ok:
  "\<lbrakk>wf_space cs; list_all (\<lambda>c. opcode c \<noteq> link_op) code; emit cs code = (cs', as)\<rbrakk> \<Longrightarrow>
   wf_space cs' \<and> length as = length code \<and> length (cells cs) \<le> length (cells cs') \<and> next_address cs \<le> next_address cs' \<and>
   (\<forall>i < next_address cs. i mod 1024 \<noteq> 1023 \<longrightarrow> cells cs' ! i = cells cs ! i) \<and>
   (\<forall>i < length as. cells cs' ! (as ! i) = code ! i \<and> as ! i mod 1024 \<noteq> 1023 \<and> as ! i + 1 < length (cells cs') \<and> 0 < as ! i) \<and>
   (\<forall>i. Suc i < length as \<longrightarrow> as ! Suc i = (if as ! i mod 1024 = 1022 then as ! i + 2 else as ! i + 1)) \<and>
   (as \<noteq> [] \<longrightarrow> hd as = (if current_within_chunk cs = 1023 then next_address cs + 1 else next_address cs))"
proof (induction code arbitrary: cs as)
  case Nil
  then show ?case by simp
next
  case (Cons c code)
  obtain cs1 a where al: "codespace_allocate cs = (cs1, a)" by (cases "codespace_allocate cs")
  define cs1' where "cs1' = cs1\<lparr>cells := (cells cs1)[a := c]\<rparr>"
  obtain bs where em: "emit cs1' code = (cs', bs)" "as = a # bs"
    using Cons.prems(3) al by (auto simp: cs1'_def split: prod.splits)
  note al' = codespace_allocate_ok [OF Cons.prems(1) al]
  have wf: "wf_space cs1'" unfolding cs1'_def using al' Cons.prems(2) by (intro wf_space_update) auto
  have fields: "next_address cs1' = a + 1" "current_within_chunk cs1' = current_within_chunk cs1" "length (cells cs1') = length (cells cs1)"
    using al' by (simp_all add: cs1'_def next_address_def)
  note IH = Cons.IH [OF wf _ em(1)]
  have ih: "wf_space cs'" "length bs = length code" "length (cells cs1') \<le> length (cells cs')" "a + 1 \<le> next_address cs'"
      "\<forall>i < a + 1. i mod 1024 \<noteq> 1023 \<longrightarrow> cells cs' ! i = cells cs1' ! i"
      "\<forall>i < length bs. cells cs' ! (bs ! i) = code ! i \<and> bs ! i mod 1024 \<noteq> 1023 \<and> bs ! i + 1 < length (cells cs') \<and> 0 < bs ! i"
      "\<forall>i. Suc i < length bs \<longrightarrow> bs ! Suc i = (if bs ! i mod 1024 = 1022 then bs ! i + 2 else bs ! i + 1)"
      "bs \<noteq> [] \<longrightarrow> hd bs = (if current_within_chunk cs1 = 1023 then a + 2 else a + 1)"
    using IH Cons.prems(2) unfolding fields by auto
  have le: "next_address cs \<le> a" "a + 1 < length (cells cs1)" "a mod 1024 \<noteq> 1023" "0 < a" using al' by auto
  have "next_address cs \<le> length (cells cs)"
    using Cons.prems(1) by (auto simp: wf_space_def next_address_def code_chunk_size_def)
  then have keep: "\<forall>i < next_address cs. i mod 1024 \<noteq> 1023 \<longrightarrow> cells cs' ! i = cells cs ! i"
    using ih(5) le al' by (auto simp: cs1'_def)
  have first: "cells cs' ! a = c" using ih(5) le by (simp add: cs1'_def)
  have nextb: "bs \<noteq> [] \<longrightarrow> hd bs = (if a mod 1024 = 1022 then a + 2 else a + 1)"
  proof -
    have "current_within_chunk cs1 = 1023 \<longleftrightarrow> a mod 1024 = 1022" using al' by auto
    then show ?thesis using ih(8) by simp
  qed
  have "as ! Suc i = (if as ! i mod 1024 = 1022 then as ! i + 2 else as ! i + 1)" if "Suc i < length as" for i
  proof (cases i)
    case 0
    then have "bs \<noteq> []" using that em(2) by auto
    then show ?thesis using nextb 0 em(2) by (simp add: hd_conv_nth)
  qed (use ih(7) em(2) that in auto)
  moreover have "cells cs' ! (as ! i) = (c # code) ! i \<and> as ! i mod 1024 \<noteq> 1023 \<and> as ! i + 1 < length (cells cs') \<and> 0 < as ! i"
    if "i < length as" for i
    using that ih(3,6) first le fields(3) em(2) by (cases i) auto
  ultimately show ?case using ih(1-4) keep le al' em(2) fields(3) by auto
qed

lemma emit_code_at:
  assumes "wf_space cs" "list_all (\<lambda>c. opcode c \<noteq> link_op) (code @ [c'])" "emit cs (code @ [c']) = (cs', as)"
    "length (cells cs') < 2 ^ 64"
  shows "code_at cs' (hd as) code (last as) \<and> cells cs' ! last as = c'"
proof -
  note e = emit_ok [OF assms(1-3)]
  let ?n = "length code"
  have len: "length as = Suc ?n" using e by simp
  then have "as \<noteq> []" by auto
  then have last: "last as = as ! ?n" "as \<noteq> []" using len by (simp_all add: last_conv_nth)
  have nx: "next_pc cs' (as ! i) = as ! Suc i" if "i < ?n" for i
  proof -
    have i: "as ! i mod 1024 \<noteq> 1023" "as ! Suc i + 1 < length (cells cs')" 
        "as ! Suc i = (if as ! i mod 1024 = 1022 then as ! i + 2 else as ! i + 1)"
      using e that len by auto
    then have "as ! i + 2 < length (cells cs')" by (auto split: if_splits)
    then show ?thesis using next_pc_wf [of cs' "as ! i"] e i assms(4) by simp
  qed
  have "code_at cs' (as ! (?n - k)) (drop (?n - k) code) (as ! ?n)" if "k \<le> ?n" for k
    using that
  proof (induction k)
    case (Suc k)
    then have i: "?n - Suc k < ?n" "Suc (?n - Suc k) = ?n - k" by auto
    have d: "drop (?n - Suc k) code = code ! (?n - Suc k) # drop (?n - k) code" using i by (metis Cons_nth_drop_Suc)
    have c: "cells cs' ! (as ! (?n - Suc k)) = (code @ [c']) ! (?n - Suc k)" "as ! (?n - Suc k) + 1 < length (cells cs')"
      "0 < as ! (?n - k)" using e i(1) len by auto
    have "code_at cs' (as ! (?n - k)) (drop (?n - k) code) (as ! ?n)" using Suc by simp
    then show ?case unfolding d using c nx [OF i(1)] i by (simp add: nth_append)
  qed simp
  from this [of ?n] have "code_at cs' (as ! 0) code (as ! ?n)" by simp
  moreover have "cells cs' ! last as = c'" using e len last by simp
  ultimately show ?thesis using last by (simp add: hd_conv_nth)
qed

end
