(* ===== verification/Vthread_Claims.thy ===== *)
theory Vthread_Claims
  imports Vthread_Code
begin

text \<open>
  What the interpreter of \<^verbatim>\<open>vvp/vthread.cc\<close> promises: its instructions compute the operators of the
  language on four-valued bits, they keep threads well formed and leave vectors of the sizes that
  the types give, and code that the linker wrote is executed to its end.
\<close>

unbundle bit_operations_syntax

declare add_back.simps [code]

section \<open>Threads for the examples\<close>

definition sample_thread :: "vvp_vector4 list \<Rightarrow> vthread_s" where
  "sample_thread st = \<lparr>pc = 0, flags = replicate FLAGS_COUNT BIT4_0, words = replicate WORDS_COUNT 0, args_vec4 = [], stack_vec4 = st,
     i_am_joining = False, i_am_detached = False, i_am_waiting = False, i_am_in_function = False, i_have_ended = False,
     i_was_disabled = False, waiting_for_event = False, is_scheduled = False, delay_delete = False, children = [],
     detached_children = [], parent = None, parent_scope = 0, wait_next = None, wt_context = None, rd_context = None\<rparr>"

definition known_words :: "nat \<Rightarrow> 64 word list \<Rightarrow> vvp_vector4" where
  "known_words n ws = \<lparr>vsize = n, abits = ws, bbits = map (\<lambda>_. 0) ws\<rparr>"

lemma sample_simps [simp]:
  "wf_thread (sample_thread st) = list_all stackable st" "stack_vec4 (sample_thread st) = st"
  "flags (sample_thread st) = replicate FLAGS_COUNT BIT4_0" "words (sample_thread st) = replicate WORDS_COUNT 0"
  "pc (sample_thread st) = 0"
  by (simp_all add: sample_thread_def wf_thread_def)

lemma known_words_simps [simp]:
  "vsize (known_words n ws) = n"
  "stackable (known_words n ws) = (0 < n \<and> n < 2 ^ 31 \<and> length ws = stored_words n)"
  by (auto simp: known_words_def stackable_def wf_vec_def)

lemma known_words_bits:
  "vec_bits (known_words n ws) = map (\<lambda>i. if bit (ws ! (i div 64)) (i mod 64) then BIT4_1 else BIT4_0) [0..<n]"
  if "n \<le> 64 * length ws"
proof (rule nth_equalityI)
  fix i assume "i < length (vec_bits (known_words n ws))"
  then have i: "i < n" by simp
  then have "i div 64 < length ws" using that by (simp add: div_less_iff_less_mult mult.commute)
  then show "vec_bits (known_words n ws) ! i = map (\<lambda>i. if bit (ws ! (i div 64)) (i mod 64) then BIT4_1 else BIT4_0) [0..<n] ! i"
    using i v4_value_bit [of i "known_words n ws"] by (simp add: vec_bits_nth known_words_def)
qed simp

lemma known_words_known: "n \<le> 64 * length ws \<Longrightarrow> known_bits (vec_bits (known_words n ws))"
  by (simp add: known_words_bits known_bits_def list_all_length)

section \<open>Operators\<close>

text \<open>C19. The logic instructions apply the operators of the language bit by bit, and the reductions
  fold them over all bits of the top vector, whatever the number of words; \<^verbatim>\<open>%blend\<close> keeps the bits
  that agree.\<close>

theorem vm_logic:
  assumes "wf_thread thr" "stack_vec4 thr = r # l # vs" "vsize l = vsize r"
  shows "yields thr vs (map2 bit4_and (vec_bits l) (vec_bits r)) (of_AND cp thr) \<and>
    yields thr vs (map2 bit4_or (vec_bits l) (vec_bits r)) (of_OR cp thr) \<and>
    yields thr vs (map2 bit4_xor (vec_bits l) (vec_bits r)) (of_XOR cp thr) \<and>
    yields thr vs (map2 (\<lambda>a b. bit4_not (bit4_and a b)) (vec_bits l) (vec_bits r)) (of_NAND cp thr) \<and>
    yields thr vs (map2 (\<lambda>a b. bit4_not (bit4_or a b)) (vec_bits l) (vec_bits r)) (of_NOR cp thr) \<and>
    yields thr vs (map2 (\<lambda>a b. bit4_not (bit4_xor a b)) (vec_bits l) (vec_bits r)) (of_XNOR cp thr) \<and>
    yields thr vs (map2 (\<lambda>a b. if a = b then a else BIT4_X) (vec_bits l) (vec_bits r)) (of_BLEND cp thr) \<and>
    yields thr (l # vs) (map bit4_not (vec_bits r)) (of_INV cp thr) \<and>
    yields thr (l # vs) [foldr bit4_and (vec_bits r) BIT4_1] (of_ANDR cp thr) \<and>
    yields thr (l # vs) [foldr bit4_or (vec_bits r) BIT4_0] (of_ORR cp thr) \<and>
    yields thr (l # vs) [foldr bit4_xor (vec_bits r) BIT4_0] (of_XORR cp thr) \<and>
    yields thr (l # vs) [bit4_not (foldr bit4_and (vec_bits r) BIT4_1)] (of_NANDR cp thr) \<and>
    yields thr (l # vs) [bit4_not (foldr bit4_or (vec_bits r) BIT4_0)] (of_NORR cp thr) \<and>
    yields thr (l # vs) [bit4_not (foldr bit4_xor (vec_bits r) BIT4_0)] (of_XNORR cp thr) \<and>
    yields thr (l # vs) (map (\<lambda>b. if bit4_is_xz b then BIT4_0 else b) (vec_bits r)) (of_CAST2 cp thr)"
  by (intro conjI logic_yields [OF assms] blend_yields [OF assms] unary_yields [OF assms(1,2)] cast2_yields [OF assms(1,2)])

theorem vm_logic_witness:
  "\<forall>cp. yields (sample_thread [known_words 3 [6], vector4_fill 3 BIT4_X]) []
     [BIT4_0, BIT4_X, BIT4_X] (of_AND cp (sample_thread [known_words 3 [6], vector4_fill 3 BIT4_X]))"
proof
  fix cp
  let ?r = "known_words 3 [6]" and ?l = "vector4_fill 3 BIT4_X"
  have "map2 bit4_and (vec_bits ?l) (vec_bits ?r) = [BIT4_0, BIT4_X, BIT4_X]" by code_simp
  moreover have "length [6 :: 64 word] = stored_words 3" by code_simp
  ultimately show "yields (sample_thread [?r, ?l]) [] [BIT4_0, BIT4_X, BIT4_X] (of_AND cp (sample_thread [?r, ?l]))"
    using vm_logic [of "sample_thread [?r, ?l]" ?r ?l "[]" cp] by simp
qed

text \<open>C15. Sum, difference and product of two vectors, and of a vector and an immediate operand,
  are taken modulo the size, and an unknown bit in either makes every bit x.\<close>

theorem vm_arith:
  assumes "wf_thread thr" "stack_vec4 thr = r # l # vs" "vsize l = vsize r" "cp_wid cpi = vsize r"
  shows "yields thr vs (arith (+) (vec_bits l) (vec_bits r)) (of_ADD cp thr) \<and>
    yields thr vs (arith (-) (vec_bits l) (vec_bits r)) (of_SUB cp thr) \<and>
    yields thr vs (arith (*) (vec_bits l) (vec_bits r)) (of_MUL cp thr) \<and>
    yields thr (l # vs) (arith (+) (vec_bits r) (imm_bits cpi)) (of_ADDI cpi thr) \<and>
    yields thr (l # vs) (arith (-) (vec_bits r) (imm_bits cpi)) (of_SUBI cpi thr) \<and>
    yields thr (l # vs) (arith (*) (vec_bits r) (imm_bits cpi)) (of_MULI cpi thr)"
  by (intro conjI arith_yields [OF assms(1-3)] arith_imm_yields [OF assms(1,2)] assms(4) [symmetric])

definition imm_code :: "nat \<Rightarrow> 32 word \<Rightarrow> 32 word \<Rightarrow> vvp_code" where
  "imm_code wid a b = blank_code\<lparr>word1 := of_nat wid, word2 := word_cat b a\<rparr>"

theorem vm_arith_witness:
  "yields (sample_thread [known_words 3 [6], vector4_fill 3 BIT4_X]) [vector4_fill 3 BIT4_X]
     [BIT4_1, BIT4_1, BIT4_0] (of_ADDI (imm_code 3 5 0) (sample_thread [known_words 3 [6], vector4_fill 3 BIT4_X]))"
proof -
  let ?r = "known_words 3 [6]" and ?l = "vector4_fill 3 BIT4_X" and ?c = "imm_code 3 5 0"
  have "arith (+) (vec_bits ?r) (imm_bits ?c) = [BIT4_1, BIT4_1, BIT4_0]" by code_simp
  moreover have "length [6 :: 64 word] = stored_words 3" "cp_wid ?c = 3" by code_simp+
  ultimately show ?thesis using vm_arith [of "sample_thread [?r, ?l]" ?r ?l "[]" ?c] by simp
qed

section \<open>Comparisons\<close>




section \<open>Sizes, parts and shifts\<close>

text \<open>C24. Concatenation, replication, splitting and padding rearrange the bits of the vectors and
  change no other; a signed pad repeats the last bit.\<close>

theorem vm_parts:
  assumes "wf_thread thr" "stack_vec4 thr = r # l # vs" "vsize l + vsize r < 2 ^ 31"
    "0 < cp_wid cp" "vsize r * cp_wid cp < 2 ^ 31" "vsize r + cp_wid cp < 2 ^ 31"
  shows "yields thr vs (vec_bits r @ vec_bits l) (of_CONCAT_VEC4 cp' thr) \<and>
    yields thr (l # vs) (imm_bits cp @ vec_bits r) (of_CONCATI_VEC4 cp thr) \<and>
    yields thr (l # vs) (concat (replicate (cp_wid cp) (vec_bits r))) (of_REPLICATE cp thr) \<and>
    yields thr (l # vs) (take (cp_wid cp) (vec_bits r) @ replicate (cp_wid cp - vsize r) (last (vec_bits r))) (of_PAD_S cp thr) \<and>
    yields thr (l # vs) (take (cp_wid cp) (vec_bits r) @ replicate (cp_wid cp - vsize r) BIT4_0) (of_PAD_U cp thr) \<and>
    (cp_wid cp < vsize r \<longrightarrow>
      (\<exists>lsb msb. of_SPLIT_VEC4 cp thr = Some (thr\<lparr>stack_vec4 := lsb # msb # l # vs\<rparr>) \<and> stackable lsb \<and> stackable msb \<and>
         vec_bits lsb = take (cp_wid cp) (vec_bits r) \<and> vec_bits msb = drop (cp_wid cp) (vec_bits r)))"
proof -
  have "cp_wid cp < 2 ^ 31" using assms(6) by simp
  then show ?thesis
    using assms by (intro conjI impI concat_yields concati_yields replicate_yields resize_yields split_ok; simp add: add.commute)
qed

theorem vm_parts_witness:
  "yields (sample_thread [known_words 3 [6], vector4_fill 2 BIT4_Z]) []
     [BIT4_0, BIT4_1, BIT4_1, BIT4_Z, BIT4_Z] (of_CONCAT_VEC4 (imm_code 2 1 0) (sample_thread [known_words 3 [6], vector4_fill 2 BIT4_Z])) \<and>
   (\<exists>lsb msb. of_SPLIT_VEC4 (imm_code 2 1 0) (sample_thread [known_words 3 [6], vector4_fill 2 BIT4_Z]) =
      Some ((sample_thread [known_words 3 [6], vector4_fill 2 BIT4_Z])\<lparr>stack_vec4 := [lsb, msb, vector4_fill 2 BIT4_Z]\<rparr>) \<and>
      vec_bits lsb = [BIT4_0, BIT4_1] \<and> vec_bits msb = [BIT4_1])"
proof -
  let ?r = "known_words 3 [6]" and ?l = "vector4_fill 2 BIT4_Z" and ?c = "imm_code 2 1 0"
  have "vec_bits ?r = [BIT4_0, BIT4_1, BIT4_1]" "vec_bits ?l = [BIT4_Z, BIT4_Z]" by code_simp+
  moreover have "stored_words 3 = 1" "cp_wid ?c = 2" by code_simp+
  moreover have "take 2 [a, b, c] = [a, b]" "drop 2 [a, b, c] = [c]" for a b c :: vvp_bit4 by simp_all
  ultimately show ?thesis using vm_parts [of "sample_thread [?r, ?l]" ?r ?l "[]" ?c ?c] by auto
qed

text \<open>C23. A shift by the value of an index register moves the bits, and one by at least the size
  leaves only fill bits. Flag 4, which the load of the register wrote, makes the result all x for an
  unknown amount (1) and all fill for one out of range (x).\<close>

theorem vm_shift:
  assumes "wf_thread thr" "stack_vec4 thr = val # vs" "cp_wid cp < WORDS_COUNT"
  defines "s \<equiv> unat (words thr ! cp_wid cp)" and "f4 \<equiv> flags thr ! 4"
  shows "yields thr vs (shl_bits f4 s (vec_bits val)) (of_SHIFTL cp thr) \<and>
    yields thr vs (shr_bits f4 s BIT4_0 (vec_bits val)) (of_SHIFTR cp thr) \<and>
    yields thr vs (shr_bits f4 s (last (vec_bits val)) (vec_bits val)) (of_SHIFTR_S cp thr)"
  unfolding s_def f4_def by (intro conjI shiftl_yields shiftr_yields assms(1-3))

theorem vm_shift_witness:
  "yields ((sample_thread [known_words 5 [19]])\<lparr>words := 2 # replicate 15 0\<rparr>) []
     [BIT4_0, BIT4_0, BIT4_1, BIT4_1, BIT4_1] (of_SHIFTR_S (imm_code 0 0 0) ((sample_thread [known_words 5 [19]])\<lparr>words := 2 # replicate 15 0\<rparr>))"
proof -
  let ?v = "known_words 5 [19]" and ?c = "imm_code 0 0 0"
  let ?t = "(sample_thread [?v])\<lparr>words := 2 # replicate 15 0\<rparr>"
  have st: "length [19 :: 64 word] = stored_words 5" "cp_wid ?c = 0" by code_simp+
  have "shr_bits (flags ?t ! 4) (unat (words ?t ! 0)) (last (vec_bits ?v)) (vec_bits ?v) =
      [BIT4_0, BIT4_0, BIT4_1, BIT4_1, BIT4_1]" by code_simp
  moreover have "wf_thread ?t" using st by (simp add: wf_thread_def WORDS_COUNT_def)
  ultimately show ?thesis using vm_shift [of ?t ?v "[]" ?c] st(2) by (simp add: WORDS_COUNT_def)
qed

section \<open>Part selects and index registers\<close>

text \<open>C22. A part select gives the bits of the vector at the positions from the base on, with x at the
  positions outside the vector on either side, and x everywhere for an unknown base. The base is
  taken as a 32-bit signed integer, so an unsigned base from \<open>2 ^ 31\<close> on selects below the vector,
  and bits of the base above the low 32 are not looked at.\<close>

theorem vm_select:
  assumes "wf_thread thr" "stack_vec4 thr = base4 # val # vs" "0 < cp_wid cp" "cp_wid cp < 2 ^ 30"
    "vsize val < 2 ^ 30" "vsize base4 < 2 ^ 30"
  defines "B \<equiv> vec_bits base4" and "V \<equiv> vec_bits val"
  shows "yields thr vs (if known_bits (take 32 B) then window (cp_wid cp) (signed_take_bit 31 (sbits_val B)) V
      else replicate (cp_wid cp) BIT4_X) (of_PART_S cp thr) \<and>
    yields thr vs (if known_bits (take 32 B) then window (cp_wid cp) (signed_take_bit 31 (bits_val B)) V
      else replicate (cp_wid cp) BIT4_X) (of_PART_U cp thr) \<and>
    yields thr (val # vs) (window (cp_wid cp) (sint (cp_bit_idx0 cp)) B) (of_PARTI_U cp thr)"
proof -
  have s: "sint (word_of_int x :: 32 word) = signed_take_bit 31 x" for x by (simp add: signed_of_int)
  have "parti_use_base False cp = Some (sint (cp_bit_idx0 cp))" by (simp add: parti_use_base_def)
  then show ?thesis
    using part_yields [OF assms(1-5), of True] part_yields [OF assms(1-5), of False]
      parti_yields [OF assms(1,2,3,4,6), of False]
    unfolding of_PART_S_def of_PART_U_def of_PARTI_U_def B_def V_def by (simp add: s num_val_def cong: if_cong)
qed

theorem vm_select_witness:
  "yields (sample_thread [known_words 32 [0xFFFFFFFF], known_words 3 [6]]) []
     [BIT4_X, BIT4_0] (of_PART_S (imm_code 2 1 0) (sample_thread [known_words 32 [0xFFFFFFFF], known_words 3 [6]])) \<and>
   yields (sample_thread [known_words 32 [0xFFFFFFFF], known_words 3 [6]]) []
     [BIT4_X, BIT4_0] (of_PART_U (imm_code 2 1 0) (sample_thread [known_words 32 [0xFFFFFFFF], known_words 3 [6]]))"
proof -
  let ?b = "known_words 32 [0xFFFFFFFF]" and ?v = "known_words 3 [6]" and ?c = "imm_code 2 1 0"
  have "known_bits (take 32 (vec_bits ?b))" "stored_words 32 = 1" "stored_words 3 = 1" "cp_wid ?c = 2" by code_simp+
  moreover have "window 2 (signed_take_bit 31 (sbits_val (vec_bits ?b))) (vec_bits ?v) = [BIT4_X, BIT4_0]"
    "window 2 (signed_take_bit 31 (bits_val (vec_bits ?b))) (vec_bits ?v) = [BIT4_X, BIT4_0]" by code_simp+
  ultimately show ?thesis using vm_select [of "sample_thread [?b, ?v]" ?b ?v "[]" ?c] by simp
qed

lemma index_flag_cases:
  "index_flag sg bs \<in> {BIT4_0, BIT4_1, BIT4_X}" "index_flag sg bs = BIT4_1 \<longleftrightarrow> \<not> known_bits bs"
  by (auto simp: index_flag_def)

lemma index_flag_unsigned: "index_flag False bs = BIT4_0 \<longleftrightarrow> known_bits bs \<and> bits_val bs < 2 ^ 64"
proof -
  have "bits_val bs < 2 ^ 64" if "length bs \<le> 64"
    using bits_val_range(2) [of bs] that power_increasing [of "length bs" 64 "2 :: int"] by linarith
  then show ?thesis by (auto simp: index_flag_def)
qed

lemma bits_val_top:
  assumes "bs \<noteq> []" "last bs = BIT4_1"
  shows "2 ^ (length bs - 1) \<le> bits_val bs"
proof -
  have "bit (bits_val bs) (length bs - 1)" using assms by (simp add: bit_bits_val last_conv_nth)
  then have "\<not> bits_val bs < 2 ^ (length bs - 1)"
    using bits_val_range(1) [of bs] by (metis bit_take_bit_iff less_irrefl take_bit_int_eq_self)
  then show ?thesis by simp
qed

lemma index_flag_signed:
  assumes "bs \<noteq> []"
  shows "index_flag True bs = BIT4_0 \<longleftrightarrow> known_bits bs \<and> in_signed 64 (sbits_val bs) \<and>
    (length bs \<le> 64 \<or> length bs mod 64 = 0 \<or> 0 \<le> sbits_val bs)"
proof (cases "length bs \<le> 64")
  case True
  have "(2 :: int) ^ (length bs - 1) \<le> 2 ^ 63" using True by (intro power_increasing) auto
  then have "in_signed 64 (sbits_val bs)" using sbits_val_range [OF assms] by (simp add: in_signed_def)
  then show ?thesis using True by (simp add: index_flag_def)
next
  case False
  then have p: "(2 :: int) ^ 64 \<le> 2 ^ (length bs - 1)" by (intro power_increasing) auto
  have neg: "sbits_val bs < 0 \<longleftrightarrow> last bs = BIT4_1" "last bs \<noteq> BIT4_1 \<Longrightarrow> sbits_val bs = bits_val bs"
    using bits_val_range [of bs] assms by (auto simp: sbits_val_def)
  show ?thesis
  proof (cases "length bs mod 64 = 0 \<or> last bs \<noteq> BIT4_1")
    case True
    then show ?thesis using False neg by (auto simp: index_flag_def)
  next
    case top: False
    then have "2 ^ 64 \<le> bits_val bs" using bits_val_top [OF assms] p by linarith
    then show ?thesis using top False neg by (auto simp: index_flag_def in_signed_def)
  qed
qed

lemma ix_load_ok:
  assumes "wf_thread thr" "stack_vec4 thr = val # vs" "cp_wid cp < WORDS_COUNT"
  defines "w \<equiv> \<lambda>sg. if known_bits (vec_bits val) then word_of_int (num_val sg (vec_bits val)) else 0"
  shows "of_IX_VEC4 cp thr = Some ((set_flag 4 (index_flag False (vec_bits val)) thr)\<lparr>stack_vec4 := vs, words := (words thr)[cp_wid cp := w False]\<rparr>)"
    "of_IX_VEC4_S cp thr = Some ((set_flag 4 (index_flag True (vec_bits val)) thr)\<lparr>stack_vec4 := vs, words := (words thr)[cp_wid cp := w True]\<rparr>)"
  using vec4_to_index_ok [OF assms(1,2)] assms(3)
  by (simp_all add: of_IX_VEC4_def of_IX_VEC4_S_def set_word_def set_flag_def w_def)

text \<open>C21. Loading an index register sets flag 4 to 1 for a vector with an unknown bit. It is 0 only
  when the value fits the register, and then the register holds exactly the value. An unsigned value
  that fits never gets another flag, nor does a signed one that is not negative, or whose
  size is at most 64 or a multiple of it.\<close>

theorem vm_index:
  assumes "wf_thread thr" "stack_vec4 thr = val # vs" "cp_wid cp < WORDS_COUNT"
  defines "V \<equiv> vec_bits val"
  shows "\<exists>f w g x.
    of_IX_VEC4 cp thr = Some ((set_flag 4 f thr)\<lparr>stack_vec4 := vs, words := (words thr)[cp_wid cp := w]\<rparr>) \<and>
    (f = BIT4_1 \<longleftrightarrow> \<not> known_bits V) \<and> (f = BIT4_0 \<longleftrightarrow> known_bits V \<and> bits_val V < 2 ^ 64) \<and> f \<noteq> BIT4_Z \<and>
    (f = BIT4_0 \<longrightarrow> uint w = bits_val V) \<and>
    of_IX_VEC4_S cp thr = Some ((set_flag 4 g thr)\<lparr>stack_vec4 := vs, words := (words thr)[cp_wid cp := x]\<rparr>) \<and>
    (g = BIT4_1 \<longleftrightarrow> \<not> known_bits V) \<and>
    (g = BIT4_0 \<longleftrightarrow> known_bits V \<and> in_signed 64 (sbits_val V) \<and> (length V \<le> 64 \<or> length V mod 64 = 0 \<or> 0 \<le> sbits_val V)) \<and>
    g \<noteq> BIT4_Z \<and> (g = BIT4_0 \<longrightarrow> sint x = sbits_val V)"
proof -
  have "0 < vsize val" using assms(1,2) by (simp add: wf_thread_def stackable_def)
  then have ne: "vec_bits val \<noteq> []" by (simp flip: length_0_conv)
  have u: "uint (word_of_int x :: 64 word) = x" if "0 \<le> x" "x < 2 ^ 64" for x
    using that by (simp add: unsigned_of_int take_bit_int_eq_self)
  have s: "sint (word_of_int x :: 64 word) = x" if "in_signed 64 x" for x
    using that sint_word_of by (simp add: in_signed_def)
  let ?w = "\<lambda>sg. if known_bits V then word_of_int (num_val sg V) else 0 :: 64 word"
  have w: "uint (?w False) = bits_val V" if "index_flag False V = BIT4_0"
    using that index_flag_unsigned [of V] u bits_val_range(1) [of V] by (simp add: num_val_def)
  have x: "sint (?w True) = sbits_val V" if "index_flag True V = BIT4_0"
    using that index_flag_signed [of V] ne s unfolding V_def by (simp add: num_val_def)
  have z: "index_flag sg V \<noteq> BIT4_Z" for sg by (simp add: index_flag_def)
  show ?thesis
    by (intro exI [of _ "index_flag False V"] exI [of _ "?w False"] exI [of _ "index_flag True V"] exI [of _ "?w True"]
        conjI impI w x z index_flag_cases(2) index_flag_unsigned index_flag_signed ix_load_ok [OF assms(1-3), folded V_def])
      (use ne in \<open>simp_all add: V_def\<close>)
qed

theorem vm_index_witness:
  "\<exists>g x. of_IX_VEC4_S (imm_code 0 0 0) (sample_thread [known_words 65 [- 1, 1]]) =
     Some ((set_flag 4 g (sample_thread [known_words 65 [- 1, 1]]))\<lparr>stack_vec4 := [], words := (replicate WORDS_COUNT 0)[0 := x]\<rparr>) \<and>
     g = BIT4_X \<and> sbits_val (vec_bits (known_words 65 [- 1, 1])) = - 1"
proof -
  let ?v = "known_words 65 [- 1, 1]"
  have "stored_words 65 = 2" "known_bits (vec_bits ?v)" "cp_wid (imm_code 0 0 0) = 0" by code_simp+
  moreover have "sbits_val (vec_bits ?v) = - 1" by code_simp
  moreover obtain g x where
    "of_IX_VEC4_S (imm_code 0 0 0) (sample_thread [?v]) =
      Some ((set_flag 4 g (sample_thread [?v]))\<lparr>stack_vec4 := [], words := (words (sample_thread [?v]))[cp_wid (imm_code 0 0 0) := x]\<rparr>)"
    "g = BIT4_1 \<longleftrightarrow> \<not> known_bits (vec_bits ?v)"
    "g = BIT4_0 \<longleftrightarrow> known_bits (vec_bits ?v) \<and> in_signed 64 (sbits_val (vec_bits ?v)) \<and>
       (length (vec_bits ?v) \<le> 64 \<or> length (vec_bits ?v) mod 64 = 0 \<or> 0 \<le> sbits_val (vec_bits ?v))" "g \<noteq> BIT4_Z"
    using vm_index [of "sample_thread [?v]" ?v "[]" "imm_code 0 0 0"] calculation by (auto simp: WORDS_COUNT_def)
  ultimately show ?thesis by (intro exI [of _ g] exI [of _ x]) (cases g; simp)
qed

section \<open>Division\<close>

text \<open>C16. The quotient of vectors of less than 128 bits, or by a divisor of one word, is exact and
  truncates towards zero; signed division is exact up to 128 bits. A zero divisor or an unknown bit
  makes every bit x, and the least number divided by -1 is taken modulo the size.\<close>

theorem vm_div:
  assumes "wf_thread thr" "stack_vec4 thr = r # l # vs" "vsize l = vsize r"
  shows "(vsize l < 128 \<or> bits_val (vec_bits r) < 2 ^ 64 \<longrightarrow>
      yields thr vs (quotient (div) False (vec_bits l) (vec_bits r)) (of_DIV cp thr)) \<and>
    (vsize l \<le> 128 \<or> \<bar>sbits_val (vec_bits r)\<bar> < 2 ^ 64 \<longrightarrow>
      yields thr vs (quotient (sdiv) True (vec_bits l) (vec_bits r)) (of_DIV_S cp thr))"
  by (intro conjI impI div_yields [OF assms] div_s_yields [OF assms])

theorem vm_div_witness:
  "\<forall>cp. yields (sample_thread [known_words 5 [30], known_words 5 [7]]) []
     [BIT4_1, BIT4_0, BIT4_1, BIT4_1, BIT4_1] (of_DIV_S cp (sample_thread [known_words 5 [30], known_words 5 [7]]))"
proof
  fix cp
  let ?r = "known_words 5 [30]" and ?l = "known_words 5 [7]"
  have "quotient (sdiv) True (vec_bits ?l) (vec_bits ?r) = [BIT4_1, BIT4_0, BIT4_1, BIT4_1, BIT4_1]" by code_simp
  moreover have "stored_words 5 = 1" by code_simp
  ultimately show "yields (sample_thread [?r, ?l]) [] [BIT4_1, BIT4_0, BIT4_1, BIT4_1, BIT4_1] (of_DIV_S cp (sample_thread [?r, ?l]))"
    using vm_div [of "sample_thread [?r, ?l]" ?r ?l "[]" cp] by simp
qed

text \<open>C20. Division of two vectors always returns: the correction of a guessed digit ends
  whatever the operands, and the result has the size of the operands.\<close>

theorem vm_div_returns:
  assumes "wf_thread thr" "stack_vec4 thr = r # l # vs" "vsize l = vsize r"
  shows "\<exists>x y. of_DIV cp thr = Some (thr\<lparr>stack_vec4 := x # vs\<rparr>) \<and> stackable x \<and> vsize x = vsize l \<and>
    of_DIV_S cp thr = Some (thr\<lparr>stack_vec4 := y # vs\<rparr>) \<and> stackable y \<and> vsize y = vsize l"
  using div_total [OF assms] by blast

theorem vm_div_returns_witness:
  "\<forall>cp. \<exists>x. of_DIV cp (sample_thread [known_words 192 [- 1, 1, 0], known_words 192 [- 1, - 2, 1]]) =
     Some ((sample_thread [known_words 192 [- 1, 1, 0], known_words 192 [- 1, - 2, 1]])\<lparr>stack_vec4 := [x]\<rparr>) \<and> vsize x = 192"
proof
  fix cp
  let ?r = "known_words 192 [- 1, 1, 0]" and ?l = "known_words 192 [- 1, - 2, 1]"
  have "stored_words 192 = 3" by code_simp
  then show "\<exists>x. of_DIV cp (sample_thread [?r, ?l]) = Some ((sample_thread [?r, ?l])\<lparr>stack_vec4 := [x]\<rparr>) \<and> vsize x = 192"
    using vm_div_returns [of "sample_thread [?r, ?l]" ?r ?l "[]" cp] by auto
qed

text \<open>The two digits of the quotient that a guess may get wrong. In 128 bits the guess for
  \<open>2 ^ 128 - 2 ^ 64\<close> by \<open>2 ^ 65 - 1\<close> is so large that its product with the divisor does not fit
  the array, so it is not seen to be too large: the result is \<open>2 ^ 64 - 1\<close>, not \<open>2 ^ 63 - 1\<close>. In
  192 bits the remainder has the same top word as the divisor, which the guess excludes, and
  \<open>2 ^ 129 - 2 ^ 64 - 1\<close> by \<open>2 ^ 65 - 1\<close> gives \<open>2 ^ 64 - 2\<close>, not \<open>2 ^ 64 - 1\<close>.\<close>

lemma vm_div_wrong:
  "divide_bits [0, 0xFFFFFFFFFFFFFFFF] [0xFFFFFFFFFFFFFFFF, 1] 128 =
     Some (Some ([0xFFFFFFFFFFFFFFFF, 0], [0xFFFFFFFFFFFFFFFF, 1])) \<and>
   words_val [0, 0xFFFFFFFFFFFFFFFF :: 64 word] div words_val [0xFFFFFFFFFFFFFFFF, 1 :: 64 word] = words_val [0x7FFFFFFFFFFFFFFF, 0 :: 64 word] \<and>
   divide_bits [0xFFFFFFFFFFFFFFFF, 0xFFFFFFFFFFFFFFFE, 1] [0xFFFFFFFFFFFFFFFF, 1, 0] 192 =
     Some (Some ([0xFFFFFFFFFFFFFFFE, 0, 0], [0xFFFFFFFFFFFFFFFD, 3, 0])) \<and>
   words_val [0xFFFFFFFFFFFFFFFF, 0xFFFFFFFFFFFFFFFE, 1 :: 64 word] div words_val [0xFFFFFFFFFFFFFFFF, 1, 0 :: 64 word] =
     words_val [0xFFFFFFFFFFFFFFFF, 0, 0 :: 64 word]"
proof (intro conjI)
  show "divide_bits [0, 0xFFFFFFFFFFFFFFFF] [0xFFFFFFFFFFFFFFFF, 1] 128 =
     Some (Some ([0xFFFFFFFFFFFFFFFF, 0], [0xFFFFFFFFFFFFFFFF, 1]))" by code_simp
  show "divide_bits [0xFFFFFFFFFFFFFFFF, 0xFFFFFFFFFFFFFFFE, 1] [0xFFFFFFFFFFFFFFFF, 1, 0] 192 =
     Some (Some ([0xFFFFFFFFFFFFFFFE, 0, 0], [0xFFFFFFFFFFFFFFFD, 3, 0]))" by code_simp
qed (simp_all add: words_val_def)

text \<open>C17. The remainder is exact at every size, signed or not, with the sign of the dividend.\<close>

theorem vm_mod:
  assumes "wf_thread thr" "stack_vec4 thr = r # l # vs" "vsize l = vsize r"
  shows "yields thr vs (quotient (smod) False (vec_bits l) (vec_bits r)) (of_MOD cp thr) \<and>
    yields thr vs (quotient (smod) True (vec_bits l) (vec_bits r)) (of_MOD_S cp thr)"
  by (intro conjI mod_yields [OF assms] mod_s_yields [OF assms])

theorem vm_mod_witness:
  "\<forall>cp. yields (sample_thread [known_words 70 [5, 0], known_words 70 [- 7, 63]]) []
     (quotient (smod) True (vec_bits (known_words 70 [- 7, 63])) (vec_bits (known_words 70 [5, 0])))
     (of_MOD_S cp (sample_thread [known_words 70 [5, 0], known_words 70 [- 7, 63]]))"
proof
  fix cp
  let ?r = "known_words 70 [5, 0]" and ?l = "known_words 70 [- 7, 63]"
  have "stored_words 70 = 2" by code_simp
  then show "yields (sample_thread [?r, ?l]) [] (quotient (smod) True (vec_bits ?l) (vec_bits ?r)) (of_MOD_S cp (sample_thread [?r, ?l]))"
    using vm_mod [of "sample_thread [?r, ?l]" ?r ?l "[]" cp] by simp
qed

section \<open>Code\<close>

text \<open>C14. Type soundness: an instruction that its type accepts for the sizes on the stack executes
  without an assertion failing, leaves vectors of the sizes the type gives and a well-formed thread, and
  changes nothing but flags, words and stack.\<close>

theorem vm_types:
  assumes "wf_thread thr" "type_op cp (widths thr) = Some ws"
  shows "\<exists>f t. alu_op (opcode cp) = Some f \<and> f cp thr = Some t \<and> wf_thread t \<and> widths t = ws \<and>
    t = thr\<lparr>flags := flags t, words := words t, stack_vec4 := stack_vec4 t\<rparr>"
proof -
  obtain f where "alu_op (opcode cp) = Some f" "executes thr ws (f cp thr)" by (rule type_op_sound [OF assms])
  then show ?thesis by (auto simp: executes_def widths_def wf_thread_def)
qed

theorem vm_types_witness:
  "\<exists>f t. alu_op ''of_MUL'' = Some f \<and> f (blank_code\<lparr>opcode := ''of_MUL''\<rparr>) (sample_thread [known_words 70 [5, 0], known_words 70 [- 7, 63]]) = Some t \<and>
     widths t = [70]"
proof -
  let ?t = "sample_thread [known_words 70 [5, 0], known_words 70 [- 7, 63]]" and ?c = "blank_code\<lparr>opcode := ''of_MUL''\<rparr>"
  have "stored_words 70 = 2" "type_op ?c [70, 70] = Some [70]" by code_simp+
  then show ?thesis using vm_types [of ?t ?c "[70]"] by (auto simp: widths_def)
qed

definition sample_machine :: "vvp_code list \<Rightarrow> vthread_s \<Rightarrow> machine" where
  "sample_machine code thr = \<lparr>code_cells = code, thr_tab = [0 \<mapsto> thr], scope_tab = (\<lambda>_. None), stacked = (\<lambda>_. None),
     thread_memory = [], context_memory = [], is_stopped = False, sched_calls = []\<rparr>"

definition sample_code :: "vvp_code list" where
  "sample_code = [(imm_code 3 5 0)\<lparr>opcode := ''of_PUSHI_VEC4''\<rparr>, (imm_code 3 6 0)\<lparr>opcode := ''of_PUSHI_VEC4''\<rparr>,
     blank_code\<lparr>opcode := ''of_ADD''\<rparr>]"

definition sample_space :: "codespace \<times> nat list" where
  "sample_space = emit codespace_init (sample_code @ [blank_code\<lparr>opcode := ''of_ZOMBIE''\<rparr>])"

lemma sample_space_values:
  "snd sample_space = [1, 2, 3, 4]" "length (cells (fst sample_space)) = 1024"
  by (simp_all add: sample_space_def sample_code_def codespace_init_def codespace_allocate_def codespace_next_def next_address_def
      new_chunk_def code_chunk_size_def)

text \<open>C9. Progress of compiled code: instructions that the linker wrote one after the other, of which
  types accept the first sizes, are all executed by a thread that stands at the first: it follows the
  links of the chunks, gets in at most two turns of the fetch loop per instruction to the
  instruction behind, and has then the sizes that the types give on its stack.\<close>

theorem vm_run:
  assumes "wf_space cs" "list_all (\<lambda>c. opcode c \<noteq> link_op) (code @ [c'])" "emit cs (code @ [c']) = (cs', as)"
    "length (cells cs') < 2 ^ 64" "thr_tab m a = Some thr" "code_cells m = cells cs'" "pc thr = hd as" "wf_thread thr"
    "type_code code (widths thr) = Some ws"
  shows "\<exists>t k. k \<le> 2 * length code \<and> seq_exec cs' code thr = Some t \<and> pc t = last as \<and> cells cs' ! pc t = c' \<and>
    wf_thread t \<and> widths t = ws \<and> (\<forall>n. run_loop (k + n) a m = run_loop n a (put_thr a t m))"
proof -
  note e = emit_code_at [OF assms(1-4)]
  then have "code_at cs' (pc thr) code (last as)" using assms(7) by simp
  then show ?thesis using run_code [OF assms(5,6,8) _ assms(9)] e by metis
qed

theorem vm_run_witness:
  "\<exists>t k. k \<le> 6 \<and> pc t = 4 \<and> widths t = [3] \<and>
     (\<forall>n. run_loop (k + n) 0 (sample_machine (cells (fst sample_space)) ((sample_thread [])\<lparr>pc := 1\<rparr>)) =
          run_loop n 0 (put_thr 0 t (sample_machine (cells (fst sample_space)) ((sample_thread [])\<lparr>pc := 1\<rparr>))))"
proof -
  let ?thr = "(sample_thread [])\<lparr>pc := 1\<rparr>" and ?c = "blank_code\<lparr>opcode := ''of_ZOMBIE''\<rparr>"
  have link: "list_all (\<lambda>c. opcode c \<noteq> link_op) (sample_code @ [?c])" by (simp add: sample_code_def)
  have em: "emit codespace_init (sample_code @ [?c]) = (fst sample_space, snd sample_space)" by (simp add: sample_space_def)
  have "cp_wid ((imm_code 3 a 0)\<lparr>opcode := name\<rparr>) = 3" for a name by (simp add: cp_wid_def cp_number_def imm_code_def)
  then have ty: "type_code sample_code [] = Some [3]" by (simp add: sample_code_def type_op_def alu_table_def ty_push_def)
  have th: "wf_thread ?thr" "widths ?thr = []" by (simp_all add: sample_thread_def wf_thread_def widths_def)
  have len: "length sample_code = 3" by (simp add: sample_code_def)
  let ?m = "sample_machine (cells (fst sample_space)) ?thr"
  have m: "thr_tab ?m 0 = Some ?thr" "code_cells ?m = cells (fst sample_space)" "pc ?thr = hd (snd sample_space)"
    by (simp_all add: sample_machine_def sample_space_values)
  have sz: "length (cells (fst sample_space)) < 2 ^ 64" unfolding sample_space_values by simp
  obtain t k where "k \<le> 2 * length sample_code" "pc t = last (snd sample_space)" "widths t = [3]"
      "\<forall>n. run_loop (k + n) 0 ?m = run_loop n 0 (put_thr 0 t ?m)"
    using vm_run [OF wf_space_init link em sz m th(1), of "[3]"] ty th(2) by auto
  then show ?thesis unfolding len sample_space_values by (intro exI [of _ t] exI [of _ k]) simp
qed

end
