(* ===== verification/Vthread_Life.thy ===== *)
theory Vthread_Life
  imports Main
begin

text \<open>
  The abstract life of the threads of \<^verbatim>\<open>vvp/vthread.cc\<close>: what forking, joining, detaching, waiting and
  ending do, on a map from threads to their state, their parent and whether they are detached from
  it. The sets of children are not stored here: they are the threads that name the parent.
\<close>

datatype mode = Running | Ready | Joining | Waiting | Zombie

type_synonym life = "nat \<Rightarrow> (mode \<times> nat option \<times> bool) option"

definition kids :: "life \<Rightarrow> nat \<Rightarrow> nat set" where
  "kids st p = {c. \<exists>md. st c = Some (md, Some p, False)}"

definition dets :: "life \<Rightarrow> nat \<Rightarrow> nat set" where
  "dets st p = {c. \<exists>md. st c = Some (md, Some p, True)}"

definition zombie :: "life \<Rightarrow> nat \<Rightarrow> bool" where
  "zombie st c \<longleftrightarrow> (\<exists>q. st c = Some (Zombie, q))"

text \<open>A thread that detaches its children, or frees its detached children when it ends, does it one by
  one: here each is a step.\<close>

inductive life_step :: "life \<Rightarrow> life \<Rightarrow> bool" where
  pick: "\<lbrakk>st a = Some (Ready, q); \<forall>c r. st c \<noteq> Some (Running, r)\<rbrakk> \<Longrightarrow> life_step st (st(a \<mapsto> (Running, q)))"
| fork: "\<lbrakk>st a = Some (Running, q); st c = None\<rbrakk> \<Longrightarrow> life_step st (st(c \<mapsto> (Ready, Some a, False)))"
| reap: "\<lbrakk>st a = Some (Running, q); st c = Some (Zombie, Some a, False)\<rbrakk> \<Longrightarrow> life_step st (st(c := None))"
| join: "\<lbrakk>st a = Some (Running, q); kids st a \<noteq> {}; \<forall>c \<in> kids st a. \<not> zombie st c\<rbrakk> \<Longrightarrow> life_step st (st(a \<mapsto> (Joining, q)))"
| detach: "\<lbrakk>st a = Some (Running, q); st c = Some (md, Some a, False); md \<noteq> Zombie\<rbrakk> \<Longrightarrow> life_step st (st(c \<mapsto> (md, Some a, True)))"
| free: "\<lbrakk>st a = Some (Running, q); st c = Some (md, Some a, True)\<rbrakk> \<Longrightarrow> life_step st (st(c \<mapsto> (md, None, False)))"
| wait: "\<lbrakk>st a = Some (Running, q); kids st a = {}; dets st a \<noteq> {}\<rbrakk> \<Longrightarrow> life_step st (st(a \<mapsto> (Waiting, q)))"
| delay: "st a = Some (Running, q) \<Longrightarrow> life_step st (st(a \<mapsto> (Ready, q)))"
| end_joined: "\<lbrakk>st a = Some (Running, Some p, False); kids st a = {}; dets st a = {}; st p = Some (Joining, q)\<rbrakk> \<Longrightarrow>
    life_step st (st(p \<mapsto> (Ready, q), a := None))"
| end_zombie: "\<lbrakk>st a = Some (Running, Some p, False); kids st a = {}; dets st a = {}; st p = Some (md, q); md \<noteq> Joining\<rbrakk> \<Longrightarrow>
    life_step st (st(a \<mapsto> (Zombie, Some p, False)))"
| end_detached: "\<lbrakk>st a = Some (Running, Some p, True); kids st a = {}; dets st a = {}; st p = Some (md, q)\<rbrakk> \<Longrightarrow>
    life_step st (st(p \<mapsto> (if md = Waiting \<and> dets st p = {a} then Ready else md, q), a := None))"
| end_free: "\<lbrakk>st a = Some (Running, None, d); kids st a = {}; dets st a = {}\<rbrakk> \<Longrightarrow> life_step st (st(a := None))"

section \<open>Invariant\<close>

definition linked :: "life \<Rightarrow> bool" where
  "linked st \<longleftrightarrow> (\<forall>p. st p = None \<or> zombie st p \<longrightarrow> kids st p = {} \<and> dets st p = {})"

definition detached_ok :: "life \<Rightarrow> bool" where
  "detached_ok st \<longleftrightarrow> (\<forall>c md q. st c \<noteq> Some (md, None, True) \<and> st c \<noteq> Some (Zombie, q, True))"

definition zombies_ok :: "life \<Rightarrow> bool" where
  "zombies_ok st \<longleftrightarrow> (\<forall>c d. st c \<noteq> Some (Zombie, None, d))"

definition joins_ok :: "life \<Rightarrow> bool" where
  "joins_ok st \<longleftrightarrow> (\<forall>a q. st a = Some (Joining, q) \<longrightarrow> kids st a \<noteq> {} \<and> (\<forall>c \<in> kids st a. \<not> zombie st c))"

definition waits_ok :: "life \<Rightarrow> bool" where
  "waits_ok st \<longleftrightarrow> (\<forall>a q. st a = Some (Waiting, q) \<longrightarrow> dets st a \<noteq> {})"

definition single :: "life \<Rightarrow> bool" where
  "single st \<longleftrightarrow> (\<forall>a b q r. st a = Some (Running, q) \<and> st b = Some (Running, r) \<longrightarrow> a = b)"

definition ranked :: "life \<Rightarrow> (nat \<Rightarrow> nat) \<Rightarrow> bool" where
  "ranked st rank \<longleftrightarrow> (\<forall>p. \<forall>c \<in> kids st p \<union> dets st p. rank p < rank c)"

definition life_inv :: "life \<Rightarrow> bool" where
  "life_inv st \<longleftrightarrow> finite (dom st) \<and> linked st \<and> detached_ok st \<and> zombies_ok st \<and> joins_ok st \<and> waits_ok st \<and> single st \<and> Ex (ranked st)"

lemma kin_upd [simp]:
  "kids (st(c \<mapsto> (md, q, d))) p = (if q = Some p \<and> \<not> d then insert c (kids st p) else kids st p - {c})"
  "dets (st(c \<mapsto> (md, q, d))) p = (if q = Some p \<and> d then insert c (dets st p) else dets st p - {c})"
  "kids (st(c := None)) p = kids st p - {c}" "dets (st(c := None)) p = dets st p - {c}"
  by (auto simp: kids_def dets_def split: if_splits)

lemma kin_iff [simp]:
  "st c = Some (md, q, d) \<Longrightarrow> c \<in> kids st p \<longleftrightarrow> q = Some p \<and> \<not> d" "st c = Some (md, q, d) \<Longrightarrow> c \<in> dets st p \<longleftrightarrow> q = Some p \<and> d"
  "st c = None \<Longrightarrow> c \<notin> kids st p" "st c = None \<Longrightarrow> c \<notin> dets st p"
  "st c = Some (md, q, False) \<Longrightarrow> c \<in> kids st p \<longleftrightarrow> q = Some p" "st c = Some (md, q, False) \<Longrightarrow> c \<notin> dets st p"
  "st c = Some (md, q, True) \<Longrightarrow> c \<notin> kids st p" "st c = Some (md, q, True) \<Longrightarrow> c \<in> dets st p \<longleftrightarrow> q = Some p"
  by (auto simp: kids_def dets_def)

lemma zombie_upd [simp]: "zombie (st(c \<mapsto> (md, q))) a \<longleftrightarrow> (if a = c then md = Zombie else zombie st a)"
  "zombie (st(c := None)) a \<longleftrightarrow> a \<noteq> c \<and> zombie st a" "st c = Some (md, q) \<Longrightarrow> zombie st c \<longleftrightarrow> md = Zombie" "st c = None \<Longrightarrow> \<not> zombie st c"
  by (auto simp: zombie_def)

lemma mode_kept [simp]:
  assumes "st a = Some (md, q)"
  shows "kids (st(a \<mapsto> (md', q))) = kids st" "dets (st(a \<mapsto> (md', q))) = dets st"
  using assms by (cases q; force simp: kids_def dets_def fun_eq_iff)+

lemma detached_step: "life_step st st' \<Longrightarrow> detached_ok st \<Longrightarrow> detached_ok st'"
  unfolding detached_ok_def by (erule life_step.cases) auto

lemma zombies_step: "life_step st st' \<Longrightarrow> detached_ok st \<Longrightarrow> zombies_ok st \<Longrightarrow> zombies_ok st'"
  unfolding zombies_ok_def detached_ok_def by (erule life_step.cases) (auto split: if_splits)

lemma single_step: "life_step st st' \<Longrightarrow> single st \<Longrightarrow> single st'"
  unfolding single_def by (erule life_step.cases) (auto split: if_splits)

lemma finite_step: "life_step st st' \<Longrightarrow> finite (dom st) \<Longrightarrow> finite (dom st')"
  by (erule life_step.cases) auto

lemma linked_step: 
  assumes "life_step st st'" "linked st"
  shows "linked st'"
  using assms(1)
proof cases
  case (fork a q c)
  then show ?thesis using assms(2) by (auto simp: linked_def split: if_splits)
next
  case (end_joined a p q)
  have "kids (st(p \<mapsto> (Ready, q))) = kids st" "dets (st(p \<mapsto> (Ready, q))) = dets st" using end_joined by simp_all
  then show ?thesis using end_joined assms(2) by (auto simp: linked_def)
next
  case (end_detached a p md q)
  let ?md = "if md = Waiting \<and> dets st p = {a} then Ready else md"
  have "kids (st(p \<mapsto> (?md, q))) = kids st" "dets (st(p \<mapsto> (?md, q))) = dets st" using end_detached by simp_all
  then show ?thesis using end_detached assms(2) by (auto simp: linked_def split: if_splits)
qed (use assms(2) in \<open>auto simp: linked_def\<close>)

lemma joins_step:
  assumes "life_step st st'" "joins_ok st" "linked st"
  shows "joins_ok st'"
  using assms(1)
proof cases
  case (end_joined a p q)
  have "kids (st(p \<mapsto> (Ready, q))) = kids st" using end_joined by simp
  moreover have "b \<noteq> p \<Longrightarrow> kids st b \<subseteq> {a} \<longleftrightarrow> kids st b = {}" for b using end_joined by auto
  ultimately show ?thesis using end_joined assms(2) by (auto simp: joins_ok_def)
next
  case (end_detached a p md q)
  let ?md = "if md = Waiting \<and> dets st p = {a} then Ready else md"
  have "kids (st(p \<mapsto> (?md, q))) = kids st" using end_detached by simp
  moreover have "a \<notin> kids st b" for b using end_detached by simp
  ultimately have k: "kids st' b = kids st b" for b using end_detached(1) by simp
  have z: "zombie st' c \<Longrightarrow> zombie st c" for c using end_detached(1,5) by (auto simp: zombie_def split: if_splits)
  have "\<exists>r. st b = Some (Joining, r)" if "st' b = Some (Joining, r)" for b r
    using that end_detached(1,5) by (auto split: if_splits)
  then show ?thesis using assms(2) k z unfolding joins_ok_def by metis
next
  case (fork a q c)
  then show ?thesis using assms(2) by (auto simp: joins_ok_def)
next
  case (reap a q c)
  have "b \<noteq> a \<Longrightarrow> c \<notin> kids st b" for b using reap(3) by (simp add: kids_def)
  then have "b \<noteq> a \<Longrightarrow> kids st' b = kids st b" for b using reap(1) by simp
  then show ?thesis using reap assms(2) by (fastforce simp: joins_ok_def)
next
  case (detach a q c md)
  have "b \<noteq> a \<Longrightarrow> c \<notin> kids st b" for b using detach(3) by (simp add: kids_def)
  then have k: "b \<noteq> a \<Longrightarrow> kids st' b = kids st b" for b using detach(1) by simp
  have z: "zombie st' b \<Longrightarrow> zombie st b" for b using detach by (auto simp: zombie_def split: if_splits)
  have "b \<noteq> a \<and> (\<exists>r. st b = Some (Joining, r))" if "st' b = Some (Joining, r)" for b r
    using that detach(1-3) by (auto split: if_splits)
  then show ?thesis using assms(2) k z unfolding joins_ok_def by metis
next
  case (end_zombie a p md q)
  then have "a \<in> kids st b \<Longrightarrow> b = p" for b by simp
  then show ?thesis using end_zombie assms(2) by (auto simp: joins_ok_def)
qed (use assms(2) in \<open>auto simp: joins_ok_def\<close>)

lemma waits_step:
  assumes "life_step st st'" "waits_ok st" "linked st" "detached_ok st"
  shows "waits_ok st'"
  using assms(1)
proof cases
  case (end_joined a p q)
  have "dets (st(p \<mapsto> (Ready, q))) = dets st" using end_joined by simp
  moreover have "dets st b \<subseteq> {a} \<longleftrightarrow> dets st b = {}" for b using kin_iff(2) [of st a _ _ False b] end_joined(2) by auto
  ultimately show ?thesis using end_joined assms(2) by (auto simp: waits_ok_def)
next
  case (end_detached a p md q)
  let ?md = "if md = Waiting \<and> dets st p = {a} then Ready else md"
  have e: "dets (st(p \<mapsto> (?md, q))) = dets st" using end_detached by simp
  have "dets st b - {a} \<noteq> {}" if "st' b = Some (Waiting, r)" for b r
  proof (cases "b = p")
    case True
    then have "md = Waiting" "dets st p \<noteq> {a}" using that end_detached by (auto split: if_splits)
    then show ?thesis using True end_detached assms(2) by (auto simp: waits_ok_def)
  next
    case False
    then have "a \<notin> dets st b" "st b = Some (Waiting, r)" using that end_detached by (auto split: if_splits)
    then show ?thesis using assms(2) by (auto simp: waits_ok_def)
  qed
  then show ?thesis unfolding waits_ok_def using end_detached(1) e by simp
next
  case (reap a q c)
  then have "c \<notin> dets st b" for b by (simp add: dets_def)
  then show ?thesis using reap assms(2) by (auto simp: waits_ok_def)
next
  case (free a q c md)
  have "b \<noteq> a \<Longrightarrow> c \<notin> dets st b" for b using free(3) by (simp add: dets_def)
  then have k: "b \<noteq> a \<Longrightarrow> dets st' b = dets st b" for b using free(1) by simp
  have "b \<noteq> a \<and> (\<exists>r. st b = Some (Waiting, r))" if "st' b = Some (Waiting, r)" for b r
    using that free(1-3) by (auto split: if_splits)
  then show ?thesis using assms(2) k unfolding waits_ok_def by metis
qed (use assms(2) in \<open>auto simp: waits_ok_def\<close>)

lemma kin_shrinks:
  assumes "life_step st st'"
  shows "(\<forall>p. kids st' p \<union> dets st' p \<subseteq> kids st p \<union> dets st p) \<or>
    (\<exists>a c. st c = None \<and> a \<noteq> c \<and> (\<forall>p. kids st' p \<union> dets st' p \<subseteq> kids st p \<union> dets st p \<union> (if p = a then {c} else {})))"
  using assms
proof cases
  case (fork a q c)
  then have "a \<noteq> c" by auto
  then show ?thesis using fork by (intro disjI2 exI [of _ a] exI [of _ c]) auto
next
  case (end_joined a p q)
  have "kids (st(p \<mapsto> (Ready, q))) = kids st" "dets (st(p \<mapsto> (Ready, q))) = dets st" using end_joined by simp_all
  then show ?thesis using end_joined by auto
next
  case (end_detached a p md q)
  let ?md = "if md = Waiting \<and> dets st p = {a} then Ready else md"
  have "kids (st(p \<mapsto> (?md, q))) = kids st" "dets (st(p \<mapsto> (?md, q))) = dets st" using end_detached by simp_all
  then show ?thesis unfolding end_detached(1) by auto
qed auto

lemma ranked_step:
  assumes "life_step st st'" "Ex (ranked st)" "linked st"
  shows "Ex (ranked st')"
proof -
  obtain rank where r: "ranked st rank" using assms(2) by blast
  show ?thesis using kin_shrinks [OF assms(1)]
  proof (elim disjE exE conjE)
    assume "\<forall>p. kids st' p \<union> dets st' p \<subseteq> kids st p \<union> dets st p"
    then have "ranked st' rank" using r unfolding ranked_def by blast
    then show ?thesis by blast
  next
    fix a c assume c: "st c = None" "a \<noteq> c" "\<forall>p. kids st' p \<union> dets st' p \<subseteq> kids st p \<union> dets st p \<union> (if p = a then {c} else {})"
    have none: "kids st c = {}" "dets st c = {}" "\<And>p. c \<notin> kids st p \<union> dets st p" using c(1) assms(3) by (auto simp: linked_def)
    have "ranked st' (rank(c := Suc (rank a)))" unfolding ranked_def
    proof (intro allI ballI)
      fix p b assume "b \<in> kids st' p \<union> dets st' p"
      then have "b \<in> kids st p \<union> dets st p \<or> (p = a \<and> b = c)" using c(3) by (auto split: if_splits)
      then show "(rank(c := Suc (rank a))) p < (rank(c := Suc (rank a))) b" using c(2) none r by (auto simp: ranked_def)
    qed
    then show ?thesis by blast
  qed
qed

theorem life_inv_step: "life_step st st' \<Longrightarrow> life_inv st \<Longrightarrow> life_inv st'"
  unfolding life_inv_def using finite_step linked_step detached_step zombies_step joins_step waits_step single_step ranked_step by metis

lemma life_inv_steps: "life_step\<^sup>*\<^sup>* st st' \<Longrightarrow> life_inv st \<Longrightarrow> life_inv st'"
  by (induction rule: rtranclp_induct) (auto intro: life_inv_step)

text \<open>As long as there is a thread, one can run.\<close>

lemma life_progress:
  assumes "life_inv st" "dom st \<noteq> {}"
  shows "\<exists>a q. st a = Some (Running, q) \<or> st a = Some (Ready, q)"
proof -
  note inv = assms(1) [unfolded life_inv_def]
  obtain rank where r: "ranked st rank" using inv by blast
  let ?L = "{c \<in> dom st. \<not> zombie st c}"
  have up: "st p \<noteq> None \<and> \<not> zombie st p" if "c \<in> kids st p \<union> dets st p" for c p
    using inv that unfolding linked_def by (metis Un_empty empty_iff)
  obtain c md q d where c: "st c = Some (md, q, d)" using assms(2) by (metis domIff ex_in_conv not_None_eq prod_cases3)
  have "?L \<noteq> {}"
  proof (cases "md = Zombie")
    case True
    then obtain p where "q = Some p" using inv c by (cases q) (auto simp: zombies_ok_def)
    then show ?thesis using up [of c p] c by auto
  qed (use c in auto)
  moreover have "finite ?L" using inv by (simp add: Collect_conj_eq)
  ultimately obtain a where "a \<in> ?L" "rank a = Max (rank ` ?L)"
    using Max_in [of "rank ` ?L"] by (metis (no_types, lifting) finite_imageI image_iff image_is_empty)
  then have a: "a \<in> ?L" "\<forall>b \<in> ?L. rank b \<le> rank a" using \<open>finite ?L\<close> by auto
  then obtain ma qa where st: "st a = Some (ma, qa)" "ma \<noteq> Zombie" by (auto simp: zombie_def)
  have leaf: "zombie st b" if "b \<in> kids st a \<union> dets st a" for b
  proof (rule ccontr)
    assume z: "\<not> zombie st b"
    have "b \<in> dom st" using that by (auto simp: kids_def dets_def)
    then have "rank b \<le> rank a" using a(2) z by blast
    then show False using r that unfolding ranked_def by (metis leD)
  qed
  have "ma \<noteq> Joining"
  proof
    assume "ma = Joining"
    then obtain b where "b \<in> kids st a" "\<not> zombie st b" using inv st unfolding joins_ok_def by blast
    then show False using leaf by blast
  qed
  moreover have "ma \<noteq> Waiting"
  proof
    assume "ma = Waiting"
    then obtain b where b: "b \<in> dets st a" using inv st unfolding waits_ok_def by blast
    then have "\<not> zombie st b" using inv by (auto simp: dets_def zombie_def detached_ok_def)
    then show False using leaf b by blast
  qed
  ultimately show ?thesis using st by (intro exI [of _ a] exI [of _ qa]) (cases ma; simp)
qed

section \<open>Simulation\<close>

text \<open>A detailed system follows an abstract one when each of its steps is matched by some steps of the
  abstract system. Then so is each of its runs, and every invariant of the abstract steps holds of what a
  reachable detailed state is matched with.\<close>

locale simulation =
  fixes step :: "'s \<Rightarrow> 's \<Rightarrow> bool" and abs_step :: "'t \<Rightarrow> 't \<Rightarrow> bool" and match :: "'s \<Rightarrow> 't \<Rightarrow> bool"
  assumes simulate: "match s t \<Longrightarrow> step s s' \<Longrightarrow> \<exists>t'. abs_step\<^sup>*\<^sup>* t t' \<and> match s' t'"
begin

lemma simulate_steps: "step\<^sup>*\<^sup>* s s' \<Longrightarrow> match s t \<Longrightarrow> \<exists>t'. abs_step\<^sup>*\<^sup>* t t' \<and> match s' t'"
proof (induction rule: rtranclp_induct)
  case (step s1 s2)
  then obtain t1 t2 where "abs_step\<^sup>*\<^sup>* t t1" "abs_step\<^sup>*\<^sup>* t1 t2" "match s2 t2" using simulate by blast
  then show ?case by (meson rtranclp_trans)
qed blast

lemma reachable_matched:
  assumes "step\<^sup>*\<^sup>* s s'" "match s t" "\<And>t t'. match s t \<Longrightarrow> I t" "\<And>t t'. abs_step t t' \<Longrightarrow> I t \<Longrightarrow> I t'"
  shows "\<exists>t'. match s' t' \<and> I t'"
proof -
  obtain t' where t': "abs_step\<^sup>*\<^sup>* t t'" "match s' t'" using simulate_steps [OF assms(1,2)] by blast
  have "I t'" using t'(1) by (induction rule: rtranclp_induct) (auto intro: assms)
  then show ?thesis using t'(2) by blast
qed

end

end
