(* ===== verification/Vthread_Family.thy ===== *)
theory Vthread_Family
  imports Vthread_Run Vthread_Life
begin

text \<open>
  The instructions that create, join, detach and end threads implement the abstract life of threads: the
  sets of children of a thread object are the threads that name it as their parent, and its flags
  encode its state. The relation covers threads that are not in a function, wait for no event, have
  not been disabled and, until they end, do not stand at the reserved first cell of the code.
\<close>

section \<open>The relation\<close>

definition in_mode :: "mode \<Rightarrow> vthread_s \<Rightarrow> bool" where
  "in_mode md t \<longleftrightarrow> i_have_ended t = (md = Zombie) \<and> i_am_joining t = (md = Joining) \<and> i_am_waiting t = (md = Waiting) \<and>
     is_scheduled t = (md = Ready) \<and> \<not> i_was_disabled t \<and> \<not> waiting_for_event t \<and> \<not> delay_delete t \<and>
     \<not> i_am_in_function t \<and> wait_next t = None \<and> (md = Zombie \<or> pc t \<noteq> codespace_null)"

definition family :: "life \<Rightarrow> nat \<Rightarrow> vthread_s \<Rightarrow> bool" where
  "family st c t \<longleftrightarrow> distinct (children t) \<and> set (children t) = kids st c \<and>
     distinct (detached_children t) \<and> set (detached_children t) = dets st c"

definition sim_at :: "vthread_s option \<Rightarrow> life \<Rightarrow> nat \<Rightarrow> bool" where
  "sim_at tab st c = (case tab of
     None \<Rightarrow> st c = None
   | Some t \<Rightarrow> family st c t \<and> (\<exists>md. st c = Some (md, parent t, i_am_detached t) \<and> in_mode md t))"

definition sim :: "machine \<Rightarrow> life \<Rightarrow> bool" where
  "sim m st \<longleftrightarrow> (\<forall>c. sim_at (thr_tab m c) st c)"

lemma simI: "(\<And>c. sim_at (thr_tab m c) st c) \<Longrightarrow> sim m st"
  by (simp add: sim_def)

lemma sim_atD: "sim m st \<Longrightarrow> sim_at (thr_tab m c) st c"
  by (simp add: sim_def)

lemma simD:
  assumes "sim m st" "thr_tab m c = Some t"
  obtains md where "st c = Some (md, parent t, i_am_detached t)" "in_mode md t" "family st c t"
  using sim_atD [OF assms(1), of c] assms(2) that by (auto simp: sim_at_def)

lemma sim_thread:
  assumes "sim m st" "st c = Some (md, q, d)"
  obtains t where "thr_tab m c = Some t" "parent t = q" "i_am_detached t = d" "in_mode md t" "family st c t"
proof -
  have "sim_at (thr_tab m c) st c" using assms(1) by (simp add: sim_def)
  then show ?thesis using that assms(2) by (auto simp: sim_at_def split: option.splits)
qed

lemma sim_none: "sim m st \<Longrightarrow> thr_tab m c = None \<longleftrightarrow> st c = None"
proof -
  assume "sim m st"
  then have "sim_at (thr_tab m c) st c" by (simp add: sim_def)
  then show ?thesis by (auto simp: sim_at_def split: option.splits)
qed

lemma sim_tab: "sim m st \<Longrightarrow> thr_tab m' = thr_tab m \<Longrightarrow> sim m' st"
  by (simp add: sim_def)

lemma put_thr_tab [simp]: "thr_tab (put_thr a t m) = (thr_tab m)(a \<mapsto> t)"
  by (simp add: put_thr_def)

text \<open>The part of a thread that the relation reads.\<close>

definition same_life :: "vthread_s \<Rightarrow> vthread_s \<Rightarrow> bool" where
  "same_life t u \<longleftrightarrow> parent u = parent t \<and> i_am_detached u = i_am_detached t \<and> children u = children t \<and>
     detached_children u = detached_children t \<and> (\<forall>md. in_mode md u = in_mode md t)"

lemma sim_same:
  assumes "sim m st" "thr_tab m a = Some t" "same_life t u"
  shows "sim (put_thr a u m) st"
proof (rule simI)
  fix c
  show "sim_at (thr_tab (put_thr a u m) c) st c"
    using sim_atD [OF assms(1), of c] assms(2,3) by (cases "c = a") (auto simp: sim_at_def family_def same_life_def)
qed

lemma sim_mode:
  assumes "sim m st" "thr_tab m a = Some t" "st a = Some (md, q)" "in_mode md' u"
    "parent u = parent t" "i_am_detached u = i_am_detached t" "children u = children t" "detached_children u = detached_children t"
  shows "sim (put_thr a u m) (st(a \<mapsto> (md', q)))"
proof (rule simI)
  fix c
  have "family (st(a \<mapsto> (md', q))) = family st" using mode_kept [of st a md q md'] assms(3) by (simp add: family_def fun_eq_iff)
  then show "sim_at (thr_tab (put_thr a u m) c) (st(a \<mapsto> (md', q))) c"
    using sim_atD [OF assms(1), of c] assms(2-)
    by (cases "c = a", simp add: sim_at_def family_def) (simp add: sim_at_def split: option.splits)
qed

text \<open>A new child, a child that is reaped, detached or freed.\<close>

lemma sim_fork:
  assumes "sim m st" "thr_tab m a = Some t" "st c = None" "linked st" "parent u = Some a" "\<not> i_am_detached u" "in_mode md u"
    "children u = []" "detached_children u = []" "thr_tab m' = (thr_tab m)(c \<mapsto> u, a \<mapsto> t\<lparr>children := set_insert c (children t)\<rparr>)"
  shows "sim m' (st(c \<mapsto> (md, Some a, False)))"
proof -
  let ?st = "st(c \<mapsto> (md, Some a, False))"
  have ac: "a \<noteq> c" using assms(2,3) sim_none [OF assms(1), of c] by auto
  have none: "kids st c = {}" "dets st c = {}" using assms(3,4) by (auto simp: linked_def)
  obtain ma where a: "st a = Some (ma, parent t, i_am_detached t)" "in_mode ma t" "family st a t" using simD [OF assms(1,2)] by blast
  have "c \<notin> set (children t)" using a(3) assms(3) by (simp add: family_def)
  then have fa: "family ?st a (t\<lparr>children := set_insert c (children t)\<rparr>)"
    using a(3) assms(3) by (auto simp: family_def set_insert_def set_insort_key distinct_insort)
  have fc: "family ?st c u" using none assms(8,9) ac by (simp add: family_def)
  have "family ?st b v" if "family st b v" "b \<noteq> a" "b \<noteq> c" for b v using that assms(3) by (simp add: family_def)
  then have "sim_at (thr_tab m b) ?st b" if "b \<noteq> a" "b \<noteq> c" for b
    using sim_atD [OF assms(1), of b] that by (auto simp: sim_at_def split: option.splits)
  moreover have "sim_at (Some u) ?st c" using fc assms(5-7) by (auto simp: sim_at_def)
  moreover have "sim_at (Some (t\<lparr>children := set_insert c (children t)\<rparr>)) ?st a"
    using fa a(1,2) ac by (auto simp: sim_at_def in_mode_def)
  ultimately show ?thesis using ac assms(10) by (intro simI) (metis fun_upd_apply)
qed

lemma sim_reap:
  assumes "sim m st" "st c = Some (md, q, d)" "kids st c = {}" "dets st c = {}"
    "thr_tab m' = (case q of None \<Rightarrow> (thr_tab m)(c := None)
       | Some p \<Rightarrow> ((thr_tab m)(p := map_option (\<lambda>u. if d then u\<lparr>detached_children := remove1 c (detached_children u)\<rparr>
                                                    else u\<lparr>children := remove1 c (children u)\<rparr>) (thr_tab m p)))(c := None))"
  shows "sim m' (st(c := None))"
proof (rule simI)
  fix b
  show "sim_at (thr_tab m' b) (st(c := None)) b"
  proof (cases "b = c")
    case True
    then show ?thesis using assms(5) by (simp add: sim_at_def split: option.splits)
  next
    case False
    note at = sim_atD [OF assms(1), of b]
    show ?thesis
    proof (cases "q = Some b")
      case True
      then show ?thesis using at False assms(2,5)
        by (auto simp: sim_at_def family_def in_mode_def set_remove1_eq split: option.splits)
    next
      case other: False
      then have "thr_tab m' b = thr_tab m b" using False assms(5) by (auto split: option.splits)
      then show ?thesis using at other False assms(2) by (auto simp: sim_at_def family_def split: option.splits)
    qed
  qed
qed

lemma sim_detach:
  assumes "sim m st" "thr_tab m a = Some t" "thr_tab m c = Some u" "a \<noteq> c" "st c = Some (md, Some a, False)"
    "thr_tab m' = (thr_tab m)(c \<mapsto> u\<lparr>i_am_detached := True\<rparr>,
       a \<mapsto> t\<lparr>children := remove1 c (children t), detached_children := set_insert c (detached_children t)\<rparr>)"
  shows "sim m' (st(c \<mapsto> (md, Some a, True)))"
proof (rule simI)
  fix b
  let ?st = "st(c \<mapsto> (md, Some a, True))"
  note at = sim_atD [OF assms(1), of b]
  consider "b = a" | "b = c" | "b \<noteq> a" "b \<noteq> c" by blast
  then show "sim_at (thr_tab m' b) ?st b"
  proof cases
    case 1
    then have "c \<notin> set (detached_children t)" using at assms(2,5) by (simp add: sim_at_def family_def)
    then show ?thesis using 1 at assms(2,4-6)
      by (auto simp: sim_at_def family_def in_mode_def set_remove1_eq set_insert_def set_insort_key distinct_insort)
  next
    case 2
    then show ?thesis using at assms(3-6) by (auto simp: sim_at_def family_def in_mode_def)
  next
    case 3
    have "family ?st b v = family st b v" for v using 3 assms(5) by (simp add: family_def)
    then show ?thesis using 3 at assms(6) by (simp add: sim_at_def split: option.splits)
  qed
qed

lemma sim_free:
  assumes "sim m st" "thr_tab m p = Some t" "thr_tab m c = Some u" "p \<noteq> c" "st c = Some (md, Some p, True)"
    "thr_tab m' = (thr_tab m)(c \<mapsto> u\<lparr>parent := None, i_am_detached := False\<rparr>,
       p \<mapsto> t\<lparr>detached_children := remove1 c (detached_children t)\<rparr>)"
  shows "sim m' (st(c \<mapsto> (md, None, False)))"
proof (rule simI)
  fix b
  let ?st = "st(c \<mapsto> (md, None, False))"
  note at = sim_atD [OF assms(1), of b]
  consider "b = p" | "b = c" | "b \<noteq> p" "b \<noteq> c" by blast
  then show "sim_at (thr_tab m' b) ?st b"
  proof cases
    case 1
    then show ?thesis using at assms(2,4-6) by (auto simp: sim_at_def family_def in_mode_def set_remove1_eq)
  next
    case 2
    then show ?thesis using at assms(3-6) by (auto simp: sim_at_def family_def in_mode_def)
  next
    case 3
    have "family ?st b v = family st b v" for v using 3 assms(5) by (simp add: family_def)
    then show ?thesis using 3 at assms(6) by (simp add: sim_at_def split: option.splits)
  qed
qed

section \<open>Effects of the operations\<close>

lemma upd_thr_tab: "upd_thr a f m = Some m' \<longleftrightarrow> (\<exists>t. thr_tab m a = Some t \<and> m' = put_thr a (f t) m)"
  by (auto simp: upd_thr_def)

lemma mark_one:
  assumes "thr_tab m a = Some t" "wait_next t = None"
  shows "vthread_mark_scheduled (Some a) m = (if is_scheduled t then None else Some (put_thr a (t\<lparr>is_scheduled := True\<rparr>) m))"
  using assms by (subst vthread_mark_scheduled.simps) (simp add: assert_opt_def vthread_mark_scheduled.simps [of None])

lemma vt_schedule_tab:
  assumes "vt_schedule a w b m = Some m'" "thr_tab m a = Some t" "wait_next t = None"
  shows "thr_tab m' = (thr_tab m)(a \<mapsto> t\<lparr>is_scheduled := True\<rparr>)" "\<not> is_scheduled t"
  using assms by (auto simp: vt_schedule_def mark_one sched_call_def split: if_splits)

lemma vt_schedule_inactive_tab:
  assumes "vt_schedule_inactive a m = Some m'" "thr_tab m a = Some t" "wait_next t = None"
  shows "thr_tab m' = (thr_tab m)(a \<mapsto> t\<lparr>is_scheduled := True\<rparr>)" "\<not> is_scheduled t"
  using assms by (auto simp: vt_schedule_inactive_def mark_one sched_call_def split: if_splits)

lemma upd_scope_tab: "upd_scope s f m = Some m' \<Longrightarrow> thr_tab m' = thr_tab m"
  by (auto simp: upd_scope_def)

lemma leave_scope_tab: "leave_scope a m = Some m' \<Longrightarrow> thr_tab m' = thr_tab m"
  by (auto simp: leave_scope_def upd_scope_tab split: bind_splits)

lemma delete_tab: "vthread_delete a m = Some m' \<Longrightarrow> thr_tab m' = (thr_tab m)(a := None)"
  by (auto simp: vthread_delete_def bind_eq_Some_conv Let_def)

lemma family_none: "family st c t \<Longrightarrow> kids st c = {} \<Longrightarrow> dets st c = {} \<Longrightarrow> children t = [] \<and> detached_children t = []"
  by (auto simp: family_def)

lemma leave_parent_tab:
  assumes "leave_parent c m = Some m'" "thr_tab m c = Some t" "parent t \<noteq> Some c"
  shows "thr_tab m' c = Some t \<and> thr_tab m' = (case parent t of None \<Rightarrow> thr_tab m
    | Some p \<Rightarrow> (thr_tab m)(p := map_option (\<lambda>u. if i_am_detached t then u\<lparr>detached_children := remove1 c (detached_children u)\<rparr>
                                              else u\<lparr>children := remove1 c (children u)\<rparr>) (thr_tab m p)))"
  using assms by (cases "parent t"; cases "i_am_detached t"; auto simp: leave_parent_def bind_eq_Some_conv)

lemma reap_sim:
  assumes "sim m st" "st c = Some (md, q, d)" "md \<noteq> Ready" "kids st c = {}" "dets st c = {}" "q \<noteq> Some c"
    "vthread_reap c m = Some m'"
  shows "sim m' (st(c := None))"
proof -
  obtain t where t: "thr_tab m c = Some t" "parent t = q" "i_am_detached t = d" "in_mode md t" "family st c t"
    using sim_thread [OF assms(1,2)] by blast
  have e: "children t = []" "detached_children t = []" using family_none [OF t(5) assms(4,5)] by auto
  obtain m1 where m1: "leave_parent c m = Some m1" using assms(7) t(1) e by (auto simp: vthread_reap_def bind_eq_Some_conv)
  note lp = leave_parent_tab [OF m1 t(1), unfolded t(2,3), OF assms(6)]
  note lp1 = lp [THEN conjunct1]
  obtain m2 where m2: "leave_scope c (put_thr c (t\<lparr>parent := None\<rparr>) m1) = Some m2"
    using assms(7) t(1) e m1 lp1 by (auto simp: vthread_reap_def bind_eq_Some_conv upd_thr_def)
  have t2: "thr_tab m2 = (thr_tab m1)(c \<mapsto> t\<lparr>parent := None\<rparr>)" using leave_scope_tab [OF m2] by simp
  have "vthread_delete c (put_thr c (t\<lparr>parent := None, pc := codespace_null\<rparr>) m2) = Some m'"
    using assms(3,7) t(1,4) e m1 lp1 m2 t2 by (auto simp: vthread_reap_def upd_thr_def in_mode_def bind_eq_Some_conv split: if_splits)
  then have "thr_tab m' = (thr_tab m1)(c := None)" using delete_tab t2 by (simp add: fun_eq_iff)
  then have "thr_tab m' = (case q of None \<Rightarrow> (thr_tab m)(c := None)
       | Some p \<Rightarrow> ((thr_tab m)(p := map_option (\<lambda>u. if d then u\<lparr>detached_children := remove1 c (detached_children u)\<rparr>
                                                    else u\<lparr>children := remove1 c (children u)\<rparr>) (thr_tab m p)))(c := None))"
    using lp [THEN conjunct2] by (simp split: option.splits)
  then show ?thesis by (rule sim_reap [OF assms(1,2,4,5)])
qed

section \<open>The instructions\<close>

lemma join_sim:
  assumes "sim m st" "st a = Some (ma, qa)" "st c = Some (md, Some a, d)" "md \<noteq> Ready" "kids st c = {}" "dets st c = {}" "a \<noteq> c"
    "do_join a c m = Some m'"
  shows "sim m' (st(c := None))"
proof -
  obtain t where t: "thr_tab m c = Some t" "parent t = Some a" using sim_thread [OF assms(1,3)] by blast
  obtain thr where thr: "thr_tab m a = Some thr" using sim_thread [of m st a ma "fst qa" "snd qa"] assms(1,2) by auto
  obtain m1 where m1: "vthread_reap c m1 = Some m'" "m1 = m \<or> (\<exists>x w r. m1 = put_thr a (thr\<lparr>wt_context := w, rd_context := r\<rparr>) (m\<lparr>stacked := x\<rparr>))"
    using assms(8) t thr by (auto simp: do_join_def bind_eq_Some_conv split: if_splits)
  have "sim m1 st" using m1(2)
  proof (elim disjE exE)
    fix x w r assume e: "m1 = put_thr a (thr\<lparr>wt_context := w, rd_context := r\<rparr>) (m\<lparr>stacked := x\<rparr>)"
    have "sim (m\<lparr>stacked := x\<rparr>) st" using sim_tab [OF assms(1)] by simp
    then show ?thesis unfolding e by (rule sim_same [where t = thr]) (simp_all add: thr same_life_def in_mode_def)
  qed (use assms(1) in simp)
  then show ?thesis using reap_sim [OF _ assms(3-6) _ m1(1)] assms(7) by simp
qed

text \<open>A new thread: everything is off but what the caller sets.\<close>

definition newborn :: "vthread_s \<Rightarrow> bool" where
  "newborn u \<longleftrightarrow> children u = [] \<and> detached_children u = [] \<and> \<not> i_am_detached u \<and> \<not> i_have_ended u \<and> \<not> i_am_joining u \<and>
     \<not> i_am_waiting u \<and> \<not> is_scheduled u \<and> \<not> i_was_disabled u \<and> \<not> waiting_for_event u \<and> \<not> delay_delete u \<and>
     \<not> i_am_in_function u \<and> wait_next u = None"

lemma vthread_new_tab:
  assumes "vthread_new p s m = Some (m', c)"
  shows "\<exists>u. thr_tab m' c = Some u \<and> newborn u \<and> pc u = p \<and> thr_tab m c = None \<and> thr_tab m' = (thr_tab m)(c \<mapsto> u)"
  using assms by (auto simp: vthread_new_def newborn_def bind_eq_Some_conv Let_def upd_scope_def split: list.splits prod.splits)

lemma fork_sim:
  assumes "sim m st" "linked st" "st a = Some (Running, q)" "of_FORK run a cp m = Some (m', rc)" "cp_cptr2 cp \<noteq> codespace_null"
  shows "rc \<and> (\<exists>c. st c = None \<and> sim m' (st(c \<mapsto> (Ready, Some a, False))))"
proof -
  obtain t where t: "thr_tab m a = Some t" "in_mode Running t" using sim_thread [of m st a Running "fst q" "snd q"] assms(1,3) by auto
  obtain m1 c where m1: "vthread_new (cp_cptr2 cp) (cp_scope cp) m = Some (m1, c)"
    using assms(4) by (auto simp: of_FORK_def bind_eq_Some_conv)
  obtain u where u: "newborn u" "thr_tab m c = None" "thr_tab m1 = (thr_tab m)(c \<mapsto> u)" "pc u = cp_cptr2 cp" using vthread_new_tab [OF m1] by blast
  have ac: "a \<noteq> c" using t(1) u(2) by auto
  let ?t = "t\<lparr>children := set_insert c (children t)\<rparr>"
  obtain s where s: "scope_tab m1 (cp_scope cp) = Some s" using assms(4) by (auto simp: of_FORK_def m1 bind_eq_Some_conv)
  define v where "v = (if is_automatic s then u\<lparr>wt_context := wt_context t, rd_context := wt_context t, parent := Some a\<rparr>
    else u\<lparr>parent := Some a\<rparr>)"
  have v: "newborn v" "parent v = Some a" "pc v \<noteq> codespace_null" using u(1,4) assms(5) by (auto simp: v_def newborn_def)
  obtain m2 where m2: "vt_schedule c 0 True m2 = Some m'" "thr_tab m2 = (thr_tab m)(c \<mapsto> v, a \<mapsto> ?t)" and rc
    using assms(4) t u(3) ac s by (auto simp: of_FORK_def m1 v_def bind_eq_Some_conv upd_thr_def in_mode_def split: if_splits)
  have c: "thr_tab m2 c = Some v" using m2(2) ac by simp
  have "sim m' (st(c \<mapsto> (Ready, Some a, False)))"
  proof (rule sim_fork [OF assms(1) t(1) _ assms(2), where u = "v\<lparr>is_scheduled := True\<rparr>"])
    show "thr_tab m' = (thr_tab m)(c \<mapsto> v\<lparr>is_scheduled := True\<rparr>, a \<mapsto> ?t)"
      using vt_schedule_tab(1) [OF m2(1) c] m2(2) ac v(1) by (simp add: newborn_def fun_upd_twist)
  qed (use u(2) v sim_none [OF assms(1)] in \<open>simp_all add: newborn_def in_mode_def\<close>)
  then show ?thesis using u(2) sim_none [OF assms(1)] \<open>rc\<close> by blast
qed

lemma join_opcode_sim:
  assumes "sim m st" "life_inv st" "st a = Some (Running, q)" "do_join_opcode a m = Some (m', rc)"
  shows "if rc then \<exists>c. st c = Some (Zombie, Some a, False) \<and> sim m' (st(c := None))
    else kids st a \<noteq> {} \<and> (\<forall>c \<in> kids st a. \<not> zombie st c) \<and> sim m' (st(a \<mapsto> (Joining, q)))"
proof -
  obtain t where t: "thr_tab m a = Some t" "in_mode Running t" "family st a t"
    using sim_thread [of m st a Running "fst q" "snd q"] assms(1,3) by auto
  have kid: "\<exists>md u. st c = Some (md, Some a, False) \<and> thr_tab m c = Some u \<and> in_mode md u" if "c \<in> set (children t)" for c
  proof -
    have "c \<in> kids st a" using that t(3) by (simp add: family_def)
    then obtain md where "st c = Some (md, Some a, False)" by (auto simp: kids_def)
    then show ?thesis using sim_thread [OF assms(1)] by metis
  qed
  have z: "has_ended m c \<longleftrightarrow> zombie st c" if "c \<in> set (children t)" for c
    using kid [OF that] by (auto simp: has_ended_def zombie_def in_mode_def)
  show ?thesis
  proof (cases "find (has_ended m) (children t)")
    case None
    then have no: "c \<in> set (children t) \<Longrightarrow> \<not> zombie st c" for c using z by (auto simp: find_None_iff)
    have "sim (put_thr a (t\<lparr>i_am_joining := True\<rparr>) m) (st(a \<mapsto> (Joining, q)))"
      by (rule sim_mode [OF assms(1) t(1) assms(3)]) (use t(2) in \<open>simp_all add: in_mode_def\<close>)
    then show ?thesis using assms(4) None no t(1,3)
      by (auto simp: do_join_opcode_def bind_eq_Some_conv family_def)
  next
    case (Some c)
    then have c: "c \<in> set (children t)" "zombie st c" using z by (auto simp: find_Some_iff)
    then have st: "st c = Some (Zombie, Some a, False)" using kid [OF c(1)] by (auto simp: zombie_def)
    then have k: "kids st c = {}" "dets st c = {}" using assms(2) c(2) by (auto simp: life_inv_def linked_def)
    have "rc" "do_join a c m = Some m'" using assms(4) Some t(1) by (auto simp: do_join_opcode_def bind_eq_Some_conv)
    moreover have "a \<noteq> c" using assms(3) st by auto
    ultimately show ?thesis using join_sim [OF assms(1,3) st _ k] st by auto
  qed
qed

end
