(* ===== verification/Vthread_End.thy ===== *)
theory Vthread_End
  imports Vthread_Family
begin

text \<open>
  Detaching, waiting and ending: the rest of the instructions of the life of a thread.
\<close>

lemma not_own_kin: "life_inv st \<Longrightarrow> a \<notin> kids st a \<and> a \<notin> dets st a"
  unfolding life_inv_def ranked_def by blast

lemma own_parent: "life_inv st \<Longrightarrow> st a \<noteq> Some (md, Some a, d)"
  using not_own_kin [of st a] by (cases d) (auto simp: kids_def dets_def)

lemma mode_thread:
  assumes "sim m st" "st a = Some (md, q)"
  obtains t where "thr_tab m a = Some t" "in_mode md t" "family st a t" "q = (parent t, i_am_detached t)"
proof -
  have "st a = Some (md, fst q, snd q)" using assms(2) by simp
  then obtain t where "thr_tab m a = Some t" "parent t = fst q" "i_am_detached t = snd q" "in_mode md t" "family st a t"
    by (rule sim_thread [OF assms(1)])
  then show ?thesis using that [of t] by simp
qed

section \<open>Detaching\<close>

lemma detach_loop_sim:
  "\<lbrakk>sim m st; life_inv st; st a = Some (Running, q); detach_loop a n m = Some m'\<rbrakk> \<Longrightarrow>
   \<exists>st'. life_step\<^sup>*\<^sup>* st st' \<and> sim m' st' \<and> st' a = Some (Running, q)"
proof (induction n arbitrary: m st)
  case (Suc n)
  obtain t where t: "thr_tab m a = Some t" "family st a t" using mode_thread [OF Suc.prems(1,3)] by metis
  show ?case
  proof (cases "children t")
    case Nil
    then show ?thesis using Suc.prems t(1) by (auto simp: detach_loop.simps)
  next
    case (Cons c cs)
    then have "c \<in> kids st a" using t(2) by (auto simp: family_def)
    then obtain md where st: "st c = Some (md, Some a, False)" by (auto simp: kids_def)
    then obtain u where u: "thr_tab m c = Some u" "in_mode md u" using sim_thread [OF Suc.prems(1)] by metis
    have ac: "a \<noteq> c" using own_parent [OF Suc.prems(2)] st by auto
    show ?thesis
    proof (cases "md = Zombie")
      case True
      then have k: "kids st c = {}" "dets st c = {}" using Suc.prems(2) st by (auto simp: life_inv_def linked_def)
      obtain m1 where m1: "vthread_reap c m = Some m1" "detach_loop a n m1 = Some m'"
        using Suc.prems(4) t(1) Cons u True by (auto simp: detach_loop.simps [of a "Suc n"] in_mode_def bind_eq_Some_conv)
      have "sim m1 (st(c := None))" using reap_sim [OF Suc.prems(1) st _ k _ m1(1)] ac True by simp
      moreover have step: "life_step st (st(c := None))" using life_step.reap [of st a q c] Suc.prems(3) st True by simp
      moreover have "life_inv (st(c := None))" using life_inv_step [OF step Suc.prems(2)] .
      ultimately show ?thesis using Suc.IH [of m1 "st(c := None)"] m1(2) Suc.prems(3) ac
        by (metis converse_rtranclp_into_rtranclp fun_upd_other)
    next
      case False
      let ?t = "t\<lparr>children := remove1 c (children t), detached_children := set_insert c (detached_children t)\<rparr>"
      obtain m1 where m1: "detach_loop a n m1 = Some m'" "thr_tab m1 = (thr_tab m)(c \<mapsto> u\<lparr>i_am_detached := True\<rparr>, a \<mapsto> ?t)"
        using Suc.prems(4) t(1) Cons u False ac
        by (auto simp: detach_loop.simps [of a "Suc n"] in_mode_def bind_eq_Some_conv upd_thr_def fun_upd_twist)
      have "sim m1 (st(c \<mapsto> (md, Some a, True)))" by (rule sim_detach [OF Suc.prems(1) t(1) u(1) ac st m1(2)])
      moreover have step: "life_step st (st(c \<mapsto> (md, Some a, True)))" using life_step.detach [of st a q c md] Suc.prems(3) st False by simp
      moreover have "life_inv (st(c \<mapsto> (md, Some a, True)))" using life_inv_step [OF step Suc.prems(2)] .
      ultimately show ?thesis using Suc.IH [of m1 "st(c \<mapsto> (md, Some a, True))"] m1(1) Suc.prems(3) ac
        by (metis converse_rtranclp_into_rtranclp fun_upd_other)
    qed
  qed
next
  case 0
  obtain t where t: "thr_tab m a = Some t" using mode_thread [OF 0(1,3)] by metis
  have "m' = m" using 0(4) t by (auto simp: detach_loop.simps [of a 0] bind_eq_Some_conv split: list.splits)
  then show ?case using 0 by blast
qed

section \<open>Freeing the detached children\<close>

fun freed :: "nat \<Rightarrow> mode \<times> nat option \<times> bool \<Rightarrow> mode \<times> nat option \<times> bool" where
  "freed a (md, q, d) = (if q = Some a \<and> d then (md, None, False) else (md, q, d))"

definition free_all :: "nat \<Rightarrow> life \<Rightarrow> life" where
  "free_all a st c = map_option (freed a) (st c)"

lemma free_all_upd: "free_all a (st(c \<mapsto> x)) = (free_all a st)(c \<mapsto> freed a x)"
  by (simp add: free_all_def fun_eq_iff)

lemma free_all_none: "dets st a = {} \<Longrightarrow> free_all a st = st"
proof
  fix c assume "dets st a = {}"
  then have "st c \<noteq> Some (md, Some a, True)" for md by (auto simp: dets_def)
  then show "free_all a st c = st c" by (cases "st c") (auto simp: free_all_def)
qed

lemma free_all_one: "st c = Some (md, Some a, True) \<Longrightarrow> free_all a (st(c \<mapsto> (md, None, False))) = free_all a st"
  by (simp add: free_all_def fun_eq_iff)

lemma free_all_iff: "free_all a st c = Some (md, Some p, d) \<longleftrightarrow> st c = Some (md, Some p, d) \<and> \<not> (p = a \<and> d)"
  by (cases "st c") (auto simp: free_all_def split: if_splits)

lemma free_all_kin: "kids (free_all a st) p = kids st p" "dets (free_all a st) p = (if p = a then {} else dets st p)"
  by (auto simp: kids_def dets_def free_all_iff)

lemma free_all_steps:
  assumes "finite (dets st a)" "st a = Some (Running, q)" "a \<notin> dets st a"
  shows "life_step\<^sup>*\<^sup>* st (free_all a st)"
  using assms
proof (induction "dets st a" arbitrary: st rule: finite_induct)
  case empty
  then show ?case using free_all_none [of st a] by simp
next
  case (insert c F)
  then obtain md where c: "st c = Some (md, Some a, True)" by (auto simp: dets_def)
  let ?st = "st(c \<mapsto> (md, None, False))"
  have ac: "a \<noteq> c" using insert by auto
  have "life_step st ?st" using life_step.free [of st a q c md] insert.prems(1) c by simp
  moreover have F: "F = dets ?st a" using insert(2,4) by auto
  then have "life_step\<^sup>*\<^sup>* ?st (free_all a ?st)" using insert.hyps(3) [OF F] insert.prems(1,2) ac by simp
  ultimately show ?case using free_all_one [of st c md a] c by (metis converse_rtranclp_into_rtranclp)
qed

lemma end_detached_sim:
  "\<lbrakk>sim m st; thr_tab m a = Some t; detached_children t = cs; a \<notin> dets st a; end_detached a cs m = Some m'\<rbrakk> \<Longrightarrow>
   sim m' (free_all a st)"
proof (induction cs arbitrary: m st t)
  case Nil
  then have "dets st a = {}" using simD [OF Nil(1,2)] by (auto simp: family_def)
  then show ?case using Nil free_all_none [of st a] by simp
next
  case (Cons c cs)
  have "c \<in> dets st a" using simD [OF Cons.prems(1,2)] Cons.prems(3) by (auto simp: family_def)
  then obtain md where st: "st c = Some (md, Some a, True)" by (auto simp: dets_def)
  obtain u where u: "thr_tab m c = Some u" using sim_thread [OF Cons.prems(1) st] by metis
  have ac: "a \<noteq> c" using Cons.prems(4) \<open>c \<in> dets st a\<close> by auto
  let ?t = "t\<lparr>detached_children := remove1 c (detached_children t)\<rparr>" and ?st = "st(c \<mapsto> (md, None, False))"
  define m1 where "m1 = put_thr a ?t (put_thr c (u\<lparr>parent := None, i_am_detached := False\<rparr>) m)"
  have m1: "thr_tab m1 = (thr_tab m)(c \<mapsto> u\<lparr>parent := None, i_am_detached := False\<rparr>, a \<mapsto> ?t)" "end_detached a cs m1 = Some m'"
    using Cons.prems(2,5) u ac by (auto simp: m1_def upd_thr_def bind_eq_Some_conv)
  have s: "sim m1 ?st" by (rule sim_free [OF Cons.prems(1,2) u ac st m1(1)])
  have na: "a \<notin> dets ?st a" using Cons.prems(4) by simp
  have "sim m' (free_all a ?st)"
    by (rule Cons.IH [OF s _ _ na m1(2), where t = ?t]) (use m1(1) Cons.prems(3) in simp_all)
  then show ?case using free_all_one [of st c md a] st by simp
qed

section \<open>Ending\<close>

text \<open>The thread that ends and the parent that it wakes.\<close>

lemma wake_sim:
  assumes "sim m st" "st p = Some (md, q)" "thr_tab m p = Some t" "vt_schedule p 0 True m1 = Some m'" "thr_tab m1 = (thr_tab m)(p \<mapsto> u)"
    "u = t\<lparr>i_am_joining := False, i_am_waiting := False\<rparr>" "md = Joining \<or> md = Waiting"
  shows "sim m' (st(p \<mapsto> (Ready, q)))"
proof -
  have md: "in_mode md t" using simD [OF assms(1,3)] assms(2) by auto
  have "thr_tab m' = (thr_tab m)(p \<mapsto> u\<lparr>is_scheduled := True\<rparr>)"
    using vt_schedule_tab(1) [OF assms(4), of u] assms(5,6) md by (simp add: in_mode_def)
  moreover have "sim (put_thr p (u\<lparr>is_scheduled := True\<rparr>) m) (st(p \<mapsto> (Ready, q)))"
    by (rule sim_mode [OF assms(1,3,2)]) (use assms(6,7) md in \<open>auto simp: in_mode_def\<close>)
  ultimately show ?thesis by (auto intro: sim_tab)
qed

lemma leave_detached_sim:
  assumes "sim m st" "st a = Some (Zombie, Some p, True)" "st p = Some (md, q)" "a \<noteq> p" "leave_detached a m = Some m'"
  shows "sim m' (st(p \<mapsto> (if md = Waiting \<and> dets st p = {a} then Ready else md, q), a \<mapsto> (Zombie, None, False)))"
proof -
  obtain u where u: "thr_tab m a = Some u" "parent u = Some p" "i_am_detached u" using sim_thread [OF assms(1,2)] by metis
  have "st p = Some (md, fst q, snd q)" using assms(3) by simp
  then obtain t where t: "thr_tab m p = Some t" "in_mode md t" "family st p t" using sim_thread [OF assms(1)] by metis
  let ?t = "t\<lparr>detached_children := remove1 a (detached_children t)\<rparr>"
  let ?u = "u\<lparr>parent := None, i_am_detached := False\<rparr>"
  define m1 where "m1 = put_thr p ?t (put_thr a ?u m)"
  have s1: "sim m1 (st(a \<mapsto> (Zombie, None, False)))"
    by (rule sim_free [OF assms(1) t(1) u(1) _ assms(2)]) (use assms(4) in \<open>auto simp: m1_def\<close>)
  have last: "detached_children ?t = [] \<longleftrightarrow> dets st p = {a}"
  proof -
    have a: "set (detached_children ?t) = dets st p - {a}" "a \<in> dets st p" using t(3) assms(2) by (auto simp: family_def)
    have "detached_children ?t = [] \<longleftrightarrow> dets st p - {a} = {}" unfolding a(1) [symmetric] by simp
    then show ?thesis using a(2) by blast
  qed
  show ?thesis
  proof (cases "md = Waiting \<and> dets st p = {a}")
    case True
    then obtain m2 where m2: "vt_schedule p 0 True (put_thr p (?t\<lparr>i_am_waiting := False\<rparr>) m) = Some m2" "upd_thr a (\<lambda>t. t\<lparr>i_am_detached := False, parent := None\<rparr>) m2 = Some m'"
      using assms(5) u t last by (auto simp: leave_detached_def Let_def bind_eq_Some_conv in_mode_def)
    have "thr_tab m2 = (thr_tab m)(p \<mapsto> ?t\<lparr>i_am_waiting := False, is_scheduled := True\<rparr>)"
      using vt_schedule_tab(1) [OF m2(1), of "?t\<lparr>i_am_waiting := False\<rparr>"] t(2) by (simp add: in_mode_def)
    then have "thr_tab m' = thr_tab (put_thr p (?t\<lparr>i_am_waiting := False, is_scheduled := True\<rparr>) m1)"
      using m2(2) u(1) assms(4) by (auto simp: upd_thr_def m1_def fun_upd_twist)
    moreover have "sim (put_thr p (?t\<lparr>i_am_waiting := False, is_scheduled := True\<rparr>) m1) (st(a \<mapsto> (Zombie, None, False), p \<mapsto> (Ready, q)))"
      by (rule sim_mode [OF s1, where t = ?t and md = md]) (use t(2) assms(3,4) True in \<open>auto simp: m1_def in_mode_def\<close>)
    ultimately show ?thesis using True assms(4) by (auto intro: sim_tab simp: fun_upd_twist)
  next
    case False
    then have "thr_tab m' = thr_tab m1"
      using assms(4,5) u t last by (auto simp: leave_detached_def Let_def bind_eq_Some_conv in_mode_def upd_thr_def m1_def fun_upd_twist split: if_splits)
    moreover have "st(p \<mapsto> (md, q), a \<mapsto> (Zombie, None, False)) = st(a \<mapsto> (Zombie, None, False))" using assms(3) by auto
    ultimately show ?thesis using False s1 by (auto intro: sim_tab)
  qed
qed

text \<open>What an instruction of thread \<open>a\<close> leaves: a state that the abstract steps reach, with \<open>a\<close> running on
  exactly when the fetch loop goes on.\<close>

definition refined :: "nat \<Rightarrow> life \<Rightarrow> machine \<Rightarrow> bool \<Rightarrow> bool" where
  "refined a st m' rc \<longleftrightarrow> (\<exists>st'. life_step\<^sup>*\<^sup>* st st' \<and> sim m' st' \<and>
     (if rc then \<exists>q. st' a = Some (Running, q) else \<forall>c q. st' c \<noteq> Some (Running, q)))"

lemma only_running: "life_inv st \<Longrightarrow> st a = Some (Running, q) \<Longrightarrow> st c = Some (Running, r) \<Longrightarrow> c = a"
  unfolding life_inv_def single_def by blast

lemma refined_stop:
  assumes "life_step\<^sup>*\<^sup>* st s1" "life_step s1 st'" "sim m' st'" "\<And>c q. st' c \<noteq> Some (Running, q)"
  shows "refined a st m' False"
  unfolding refined_def using assms by (intro exI [of _ st']) auto

lemma end_refines:
  assumes "sim m st" "life_inv st" "st a = Some (Running, q)" "of_END a cp m = Some (m', rc)"
  shows "\<not> rc \<and> refined a st m' False"
proof -
  obtain t where t: "thr_tab m a = Some t" "in_mode Running t" "family st a t" "q = (parent t, i_am_detached t)"
    using mode_thread [OF assms(1,3)] by blast
  define m1 where "m1 = put_thr a (t\<lparr>i_have_ended := True, pc := codespace_null\<rparr>) m"
  define s1 where "s1 = free_all a st"
  define s2 where "s2 = s1(a \<mapsto> (Zombie, q))"
  have na: "a \<notin> dets st a" using not_own_kin [OF assms(2)] by blast
  have z: "sim m1 (st(a \<mapsto> (Zombie, q)))"
    unfolding m1_def by (rule sim_mode [OF assms(1) t(1) assms(3)]) (use t(2) in \<open>auto simp: in_mode_def\<close>)
  have fa: "freed a (md, q) = (md, q)" for md using na assms(3) t(4) by auto
  have steps: "life_step\<^sup>*\<^sup>* st s1" unfolding s1_def
    by (rule free_all_steps [OF _ assms(3) na]) (use assms(2) in \<open>auto simp: life_inv_def dets_def dom_def intro: finite_subset [rotated]\<close>)
  have inv: "life_inv s1" by (rule life_inv_steps [OF steps assms(2)])
  have s1a: "s1 a = Some (Running, q)" using fa assms(3) by (simp add: s1_def free_all_def)
  obtain m2 where m2: "end_detached a (detached_children t) m1 = Some m2"
    using assms(4) t(1) by (auto simp: of_END_def m1_def bind_eq_Some_conv)
  have nz: "a \<notin> dets (st(a \<mapsto> (Zombie, q))) a" using mode_kept(2) [of st a Running q Zombie] assms(3) na by simp
  have "free_all a (st(a \<mapsto> (Zombie, q))) = s2" unfolding s2_def s1_def free_all_upd fa by (rule refl)
  then have sim2: "sim m2 s2"
    using end_detached_sim [OF z _ _ nz m2, of "t\<lparr>i_have_ended := True, pc := codespace_null\<rparr>"] by (simp add: m1_def)
  have s2a: "s2 a = Some (Zombie, q)" by (simp add: s2_def)
  obtain u where u: "thr_tab m2 a = Some u" "q = (parent u, i_am_detached u)" "family s2 a u" using mode_thread [OF sim2 s2a] by metis
  have kin: "kids s2 = kids s1" "dets s2 = dets s1" unfolding s2_def using mode_kept [of s1 a Running q Zombie] s1a by simp_all
  have nokids: "children u = []" using assms(4) t(1) m2 u(1) by (auto simp: of_END_def m1_def bind_eq_Some_conv)
  then have k: "kids s1 a = {}" "dets s1 a = {}" using u(3) kin by (auto simp: family_def s1_def free_all_kin)
  have run: "s1 c = Some (Running, r) \<Longrightarrow> c = a" for c r using only_running [OF inv s1a] by blast
  show ?thesis
  proof (cases "parent u")
    case None
    then have "vthread_reap a m2 = Some m'" "\<not> rc" "\<not> i_am_detached u"
      using assms(4) t(1) m2 u(1,2) nokids inv s1a
      by (auto simp: of_END_def m1_def bind_eq_Some_conv life_inv_def detached_ok_def split: if_splits)
    moreover have "sim m' (s2(a := None))"
      by (rule reap_sim [OF sim2, of a Zombie None "i_am_detached u"]) (use None u(2) kin k calculation in \<open>simp_all add: s2_def\<close>)
    moreover have "life_step s1 (s1(a := None))" using life_step.end_free [of s1 a "i_am_detached u"] s1a u(2) None k by simp
    moreover have "(s1(a := None)) c \<noteq> Some (Running, r)" for c r using run [of c r] by auto
    ultimately show ?thesis using refined_stop [OF steps, of "s1(a := None)" m' a] by (simp add: s2_def)
  next
    case (Some p)
    have ap: "a \<noteq> p" using own_parent [OF inv, of a Running "i_am_detached u"] s1a u(2) Some by auto
    have "a \<in> kids s1 p \<union> dets s1 p" using s1a u(2) Some by simp
    then obtain md qp where sp: "s1 p = Some (md, qp)" using inv unfolding life_inv_def linked_def by (metis (no_types, opaque_lifting) empty_iff sup_bot.right_neutral option.exhaust surj_pair)
    then have sp2: "s2 p = Some (md, qp)" using ap by (simp add: s2_def)
    obtain tp where tp: "thr_tab m2 p = Some tp" "in_mode md tp" using mode_thread [OF sim2 sp2] by metis
    have joined: "i_am_joining tp \<longleftrightarrow> md = Joining" using tp(2) by (simp add: in_mode_def)
    have runp: "md \<noteq> Running" using run sp ap by blast
    consider "i_am_detached u" | "\<not> i_am_detached u" "md = Joining" | "\<not> i_am_detached u" "md \<noteq> Joining" by blast
    then show ?thesis
    proof cases
      case 1
      then obtain m3 where m3: "leave_detached a m2 = Some m3"
        using assms(4) t(1) m2 u(1) nokids Some tp(1) by (auto simp: of_END_def m1_def bind_eq_Some_conv split: if_splits)
      let ?md = "if md = Waiting \<and> dets s2 p = {a} then Ready else md"
      let ?s3 = "s2(p \<mapsto> (?md, qp), a \<mapsto> (Zombie, None, False))"
      have s3: "sim m3 ?s3"
        by (rule leave_detached_sim [OF sim2 _ sp2 ap m3]) (use 1 u(2) Some in \<open>simp add: s2_def\<close>)
      then obtain v where v: "thr_tab m3 a = Some v" "parent v = None" using sim_thread [OF s3, of a Zombie None False] by auto
      have "vthread_reap a m3 = Some m'" "\<not> rc"
        using assms(4) t(1) m2 u(1) nokids Some tp(1) m3 v 1 by (auto simp: of_END_def m1_def bind_eq_Some_conv split: if_splits)
      moreover have "kids (s2(p \<mapsto> (?md, qp))) = kids s1" "dets (s2(p \<mapsto> (?md, qp))) = dets s1"
        using mode_kept [of s2 p md qp ?md] sp2 kin by simp_all
      then have "kids ?s3 a = {}" "dets ?s3 a = {}" using k by simp_all
      ultimately have "sim m' (?s3(a := None))" using reap_sim [OF s3, of a Zombie None False] by simp
      moreover have "life_step s1 (s1(p \<mapsto> (?md, qp), a := None))"
        using life_step.end_detached [of s1 a p md qp] s1a u(2) Some 1 k sp kin by simp
      moreover have "?s3(a := None) = s1(p \<mapsto> (?md, qp), a := None)" by (auto simp: s2_def fun_eq_iff)
      moreover have "(s1(p \<mapsto> (?md, qp), a := None)) c \<noteq> Some (Running, r)" for c r using run [of c r] runp by (auto split: if_splits)
      ultimately show ?thesis using refined_stop [OF steps, of "s1(p \<mapsto> (?md, qp), a := None)" m' a] \<open>\<not> rc\<close> by simp
    next
      case 2
      then obtain m3 where m3: "vt_schedule p 0 True (put_thr p (tp\<lparr>i_am_joining := False\<rparr>) m2) = Some m3" "do_join p a m3 = Some m'" "\<not> rc"
        using assms(4) t(1) m2 u(1) nokids Some tp(1) joined by (auto simp: of_END_def m1_def bind_eq_Some_conv upd_thr_def)
      have "tp\<lparr>i_am_joining := False\<rparr> = tp\<lparr>i_am_joining := False, i_am_waiting := False\<rparr>" using tp(2) 2 by (cases tp) (simp add: in_mode_def)
      then have s3: "sim m3 (s2(p \<mapsto> (Ready, qp)))"
        using wake_sim [OF sim2 sp2 tp(1) m3(1)] 2 by simp
      have k3: "kids (s2(p \<mapsto> (Ready, qp))) a = {}" "dets (s2(p \<mapsto> (Ready, qp))) a = {}"
        using mode_kept [of s2 p md qp Ready] sp2 kin k by simp_all
      have "sim m' (s2(p \<mapsto> (Ready, qp), a := None))"
        by (rule join_sim [OF s3 _ _ _ k3 _ m3(2), where ma = Ready and qa = qp and md = Zombie and d = False])
          (use ap u(2) 2 Some in \<open>auto simp: s2_def\<close>)
      moreover have "s2(p \<mapsto> (Ready, qp), a := None) = s1(p \<mapsto> (Ready, qp), a := None)" by (auto simp: s2_def fun_eq_iff)
      moreover have "life_step s1 (s1(p \<mapsto> (Ready, qp), a := None))"
        using life_step.end_joined [of s1 a p qp] s1a u(2) Some 2 k sp by simp
      moreover have "(s1(p \<mapsto> (Ready, qp), a := None)) c \<noteq> Some (Running, r)" for c r using run [of c r] by (auto split: if_splits)
      ultimately show ?thesis using refined_stop [OF steps, of "s1(p \<mapsto> (Ready, qp), a := None)" m' a] m3(3) by simp
    next
      case 3
      then have "m' = m2" "\<not> rc"
        using assms(4) t(1) m2 u(1) nokids Some tp(1) joined by (auto simp: of_END_def m1_def bind_eq_Some_conv)
      moreover have "life_step s1 s2"
        unfolding s2_def using life_step.end_zombie [of s1 a p md qp] s1a u(2) Some 3 k sp by simp
      moreover have "s2 c \<noteq> Some (Running, r)" for c r using run [of c r] by (auto simp: s2_def split: if_splits)
      ultimately show ?thesis using refined_stop [OF steps, of s2 m2 a] sim2 by simp
    qed
  qed
qed

end
