(* ===== verification/Vthread_Frame.thy ===== *)
theory Vthread_Frame
  imports Vthread_End
begin

text \<open>
  The instructions on vectors, flags and index registers change nothing of the life of a thread.
\<close>

definition frame :: "vthread_s \<Rightarrow> vthread_s \<Rightarrow> bool" where
  "frame t u \<longleftrightarrow> (\<exists>f w s. u = t\<lparr>flags := f, words := w, stack_vec4 := s\<rparr>)"

definition keeps_life :: "(vvp_code \<Rightarrow> vthread_s \<Rightarrow> vthread_s option) \<Rightarrow> bool" where
  "keeps_life f \<longleftrightarrow> (\<forall>cp t u. f cp t = Some u \<longrightarrow> frame t u)"

lemma frameI: "u = t\<lparr>flags := f, words := w, stack_vec4 := s\<rparr> \<Longrightarrow> frame t u"
  unfolding frame_def by blast

lemma frame_refl: "frame t t"
  by (rule frameI [where f = "flags t" and w = "words t" and s = "stack_vec4 t"]) simp

lemma frame_trans: "frame t u \<Longrightarrow> frame u v \<Longrightarrow> frame t v"
proof -
  assume "frame t u" "frame u v"
  then obtain f w s f' w' s' where "u = t\<lparr>flags := f, words := w, stack_vec4 := s\<rparr>" "v = u\<lparr>flags := f', words := w', stack_vec4 := s'\<rparr>"
    unfolding frame_def by blast
  then show ?thesis by (intro frameI [where f = f' and w = w' and s = s']) simp
qed

lemma frame_life: "frame t u \<Longrightarrow> same_life t u"
  by (auto simp: frame_def same_life_def in_mode_def)

lemma stack_frame:
  "pop_vec4 t = Some (v, u) \<Longrightarrow> frame t u" "frame t (push_vec4 v t)" "poke_vec4 d v t = Some u \<Longrightarrow> frame t u"
  "pop_vec4_cnt n t = Some u \<Longrightarrow> frame t u" "frame t (set_flag i b t)" "set_word i w t = Some u \<Longrightarrow> frame t u"
proof -
  have st: "frame t (t\<lparr>stack_vec4 := x\<rparr>)" for x by (rule frameI [where f = "flags t" and w = "words t" and s = x]) simp
  have fl: "frame t (t\<lparr>flags := x\<rparr>)" for x by (rule frameI [where f = x and w = "words t" and s = "stack_vec4 t"]) simp
  have wd: "frame t (t\<lparr>words := x\<rparr>)" for x by (rule frameI [where f = "flags t" and w = x and s = "stack_vec4 t"]) simp
  show "pop_vec4 t = Some (v, u) \<Longrightarrow> frame t u" "frame t (push_vec4 v t)" "poke_vec4 d v t = Some u \<Longrightarrow> frame t u"
    "pop_vec4_cnt n t = Some u \<Longrightarrow> frame t u" "frame t (set_flag i b t)" "set_word i w t = Some u \<Longrightarrow> frame t u"
    using st fl wd by (auto simp: pop_vec4_def push_vec4_def poke_vec4_def pop_vec4_cnt_def set_flag_def set_word_def split: list.splits if_splits)
qed

lemma frame_pop2: "pop_vec4 t = Some (v, u) \<Longrightarrow> pop_vec4 u = Some (w, x) \<Longrightarrow> frame x y \<Longrightarrow> frame t y"
  by (blast intro: frame_trans stack_frame)

lemmas frame_intros = frame_pop2 [OF _ _ stack_frame(2)] frame_pop2 [OF _ _ stack_frame(5)] stack_frame frame_trans [OF stack_frame(1)] frame_trans [OF stack_frame(3)] frame_trans [OF stack_frame(4)]
  frame_trans [OF stack_frame(5)] frame_refl

lemma binary_frame: "binary_op f t = Some u \<Longrightarrow> frame t u"
  by (auto simp: binary_op_def bind_eq_Some_conv intro: frame_trans stack_frame)

lemma unary_frame: "unary_op f t = Some u \<Longrightarrow> frame t u"
  by (auto simp: unary_op_def bind_eq_Some_conv intro: stack_frame)

lemma keepsI: "(\<And>cp t u. f cp t = Some u \<Longrightarrow> frame t u) \<Longrightarrow> keeps_life f"
  by (simp add: keeps_life_def)

lemma binary_keeps:
  "keeps_life of_AND" "keeps_life of_NAND" "keeps_life of_OR" "keeps_life of_NOR" "keeps_life of_XOR" "keeps_life of_XNOR" "keeps_life of_ADD" "keeps_life of_SUB" "keeps_life of_MUL"
  by (rule keepsI, simp only: of_AND_def of_NAND_def of_OR_def of_NOR_def of_XOR_def of_XNOR_def of_ADD_def of_SUB_def of_MUL_def, erule binary_frame)+

lemma unary_keeps:
  "keeps_life of_ADDI" "keeps_life of_SUBI" "keeps_life of_MULI" "keeps_life of_INV" "keeps_life of_CAST2" "keeps_life of_ANDR" "keeps_life of_NANDR" "keeps_life of_ORR"
  "keeps_life of_NORR" "keeps_life of_XORR" "keeps_life of_XNORR" "keeps_life of_CONCATI_VEC4" "keeps_life of_PAD_S" "keeps_life of_PAD_U"
  by (rule keepsI, simp only: of_ADDI_def of_SUBI_def of_MULI_def of_INV_def of_CAST2_def of_ANDR_def of_NANDR_def of_ORR_def
      of_NORR_def of_XORR_def of_XNORR_def of_CONCATI_VEC4_def of_PAD_S_def of_PAD_U_def, erule unary_frame)+

lemma stack_keeps:
  "keeps_life of_NOOP" "keeps_life of_PUSHI_VEC4" "keeps_life of_POP_VEC4" "keeps_life of_DUP_VEC4" "keeps_life of_BLEND" "keeps_life of_CONCAT_VEC4"
  "keeps_life of_REPLICATE" "keeps_life of_SPLIT_VEC4"
  by (rule keepsI; auto simp: of_NOOP_def of_PUSHI_VEC4_def of_POP_VEC4_def of_DUP_VEC4_def of_BLEND_def of_CONCAT_VEC4_def of_REPLICATE_def
      of_SPLIT_VEC4_def Let_def bind_eq_Some_conv intro: frame_intros)+

lemma div_keeps: "keeps_life of_DIV" "keeps_life of_DIV_S" "keeps_life of_MOD" "keeps_life of_MOD_S"
  by (rule keepsI; auto simp: of_DIV_def of_DIV_S_def of_MOD_def of_MOD_S_def Let_def bind_eq_Some_conv intro: frame_intros binary_frame)+

lemma shift_keeps: "keeps_life of_SHIFTL" "keeps_life of_SHIFTR" "keeps_life of_SHIFTR_S" "keeps_life of_PART_S" "keeps_life of_PART_U" "keeps_life of_PARTI_S" "keeps_life of_PARTI_U"
  by (rule keepsI; auto simp: of_SHIFTL_def of_SHIFTR_def of_SHIFTR_S_def of_PART_S_def of_PART_U_def of_PARTI_S_def of_PARTI_U_def
      of_PART_base_def of_PARTI_base_def Let_def bind_eq_Some_conv intro: frame_intros)+

section \<open>Comparisons and flags\<close>

lemma set_flags_frame: "frame t (set_flag i b (set_flag j c t))" "frame t (set_flag i b (set_flag j c (set_flag k d t)))"
  "frame t (invert_flag i t)"
  by (rule frame_trans [OF stack_frame(5) stack_frame(5)], rule frame_trans [OF frame_trans [OF stack_frame(5) stack_frame(5)] stack_frame(5)])
    (simp add: invert_flag_def stack_frame)

lemma do_compare_frame:
  "do_CMPE l r t = Some u \<Longrightarrow> frame t u" "do_CMPS l r t = Some u \<Longrightarrow> frame t u" "do_CMPU l r t = Some u \<Longrightarrow> frame t u"
  "do_CMPWE l r t = Some u \<Longrightarrow> frame t u" 
  by (auto simp: do_CMPE_def do_CMPS_def do_CMPU_def do_CMPWE_def of_CMPU_the_hard_way_def Let_def bind_eq_Some_conv
      split_beta intro: set_flags_frame stack_frame split: if_splits option.splits)

lemma do_CMPNE_frame: "do_CMPNE l r t = Some u \<Longrightarrow> frame t u"
  using do_compare_frame(1) frame_trans set_flags_frame(3) unfolding do_CMPNE_def by (auto simp: o_def) (metis frame_trans set_flags_frame(3) do_compare_frame(1))

lemma compare_frame:
  assumes "\<And>l r t u. f l r t = Some u \<Longrightarrow> frame t u"
  shows "compare_op f t = Some u \<Longrightarrow> frame t u" "compare_imm f cp t = Some u \<Longrightarrow> frame t u"
  using assms by (auto simp: compare_op_def compare_imm_def bind_eq_Some_conv) (metis frame_trans stack_frame(4))+

lemma compare_keeps:
  "keeps_life of_CMPE" "keeps_life of_CMPS" "keeps_life of_CMPU" "keeps_life of_CMPWE" "keeps_life of_CMPNE" "keeps_life of_CMPWNE"
  "keeps_life of_CMPIE" "keeps_life of_CMPIS" "keeps_life of_CMPIU" "keeps_life of_CMPINE" "keeps_life of_CMPX" "keeps_life of_CMPZ"
proof -
  have "map_option (invert_flag 4) (do_CMPWE l r t) = Some u \<Longrightarrow> frame t u" for l r t u
    by (auto intro: frame_trans set_flags_frame do_compare_frame)
  note d = do_compare_frame do_CMPNE_frame this
  show "keeps_life of_CMPE" "keeps_life of_CMPS" "keeps_life of_CMPU" "keeps_life of_CMPWE" "keeps_life of_CMPNE" "keeps_life of_CMPWNE"
    "keeps_life of_CMPIE" "keeps_life of_CMPIS" "keeps_life of_CMPIU" "keeps_life of_CMPINE"
    by (rule keepsI, simp only: of_CMPE_def of_CMPS_def of_CMPU_def of_CMPWE_def of_CMPNE_def of_CMPWNE_def of_CMPIE_def of_CMPIS_def
        of_CMPIU_def of_CMPINE_def, erule compare_frame [rotated], erule d)+
  show "keeps_life of_CMPX" "keeps_life of_CMPZ"
    by (rule keepsI; auto simp: of_CMPX_def of_CMPZ_def wild_op_def bind_eq_Some_conv intro: frame_intros)+
qed

lemma vec4_to_index_frame: "vec4_to_index sg t = Some (w, u) \<Longrightarrow> frame t u"
  by (auto simp: vec4_to_index_def Let_def bind_eq_Some_conv intro: frame_trans [OF stack_frame(4) stack_frame(5)] split: option.splits)

lemma vec4_to_word_frame: "vec4_to_index sg t = Some (w, u) \<Longrightarrow> set_word i w u = Some v \<Longrightarrow> frame t v"
  using vec4_to_index_frame stack_frame(6) frame_trans by blast

lemma index_keeps:
  "keeps_life of_FLAG_GET_VEC4" "keeps_life of_FLAG_INV" "keeps_life of_FLAG_MOV" "keeps_life of_FLAG_OR" "keeps_life of_FLAG_SET_IMM" "keeps_life of_FLAG_SET_VEC4"
  "keeps_life of_IX_LOAD" "keeps_life of_IX_MOV" "keeps_life of_CMPIX_SLT0" "keeps_life of_IX_VEC4" "keeps_life of_IX_VEC4_S" "keeps_life of_PUSH_IX_VEC4"
  "keeps_life of_IX_ADD" "keeps_life of_IX_SUB" "keeps_life of_IX_MUL"
  by (rule keepsI; auto simp: of_FLAG_GET_VEC4_def of_FLAG_INV_def of_FLAG_MOV_def of_FLAG_OR_def of_FLAG_SET_IMM_def of_FLAG_SET_VEC4_def
      of_IX_LOAD_def of_IX_MOV_def of_CMPIX_SLT0_def of_IX_VEC4_def of_IX_VEC4_S_def of_PUSH_IX_VEC4_def
      of_IX_ADD_def of_IX_SUB_def of_IX_MUL_def ix_arith_def Let_def bind_eq_Some_conv intro: frame_intros vec4_to_word_frame)+

lemma alu_keeps: "list_all (\<lambda>(name, f, t). keeps_life f) alu_table"
  unfolding alu_table_def
  by (simp only: list.pred_inject simp_thms prod.case binary_keeps unary_keeps stack_keeps div_keeps shift_keeps compare_keeps index_keeps)

lemma alu_op_frame: "alu_op name = Some f \<Longrightarrow> f cp t = Some u \<Longrightarrow> frame t u"
  using alu_keeps by (auto simp: alu_op_def list_all_iff keeps_life_def dest!: map_of_SomeD)

end
