(* ===== verification/Vthread_Progress.thy ===== *)
theory Vthread_Progress
  imports Vthread_Frame
begin

text \<open>
  The fetch loop as a step relation, for threads that do not disable others, and its simulation by the
  abstract life of threads: a step takes a scheduled thread, or executes the next instruction of the
  running one.
\<close>

section \<open>The remaining instructions\<close>

lemma refinedI:
  assumes "life_step\<^sup>*\<^sup>* st st'" "sim m' st'" "st' a = Some (Running, q)"
  shows "refined a st m' True"
  unfolding refined_def using assms by auto

lemma refined_same:
  assumes "sim m st" "st a = Some (Running, q)" "thr_tab m a = Some t" "same_life t u" "thr_tab m' = (thr_tab m)(a \<mapsto> u)"
  shows "refined a st m' True"
proof (rule refinedI [where st' = st and q = q])
  show "sim m' st" using sim_same [OF assms(1,3,4)] assms(5) by (auto intro: sim_tab)
qed (use assms(2) in simp_all)

lemma refined_park:
  assumes "sim m st" "life_inv st" "st a = Some (Running, q)" "life_step st (st(a \<mapsto> (md, q)))" "md \<noteq> Running" "sim m' (st(a \<mapsto> (md, q)))"
  shows "refined a st m' False"
proof (rule refined_stop [OF _ assms(4,6)])
  fix c r
  show "(st(a \<mapsto> (md, q))) c \<noteq> Some (Running, r)" using only_running [OF assms(2,3), of c r] assms(5) by auto
qed simp

lemma schedule_refines:
  assumes "sim m st" "life_inv st" "st a = Some (Running, q)" "thr_tab m a = Some t" "same_life t u"
    "thr_tab m' = (thr_tab m)(a \<mapsto> u\<lparr>is_scheduled := True\<rparr>)"
  shows "refined a st m' False"
proof (rule refined_park [OF assms(1-3)])
  have md: "in_mode Running u" "parent u = parent t" "i_am_detached u = i_am_detached t" "children u = children t" "detached_children u = detached_children t"
    using simD [OF assms(1,4)] assms(3,5) by (auto simp: same_life_def)
  have "sim (put_thr a (u\<lparr>is_scheduled := True\<rparr>) m) (st(a \<mapsto> (Ready, q)))"
    by (rule sim_mode [OF assms(1,4,3)]) (use md in \<open>simp_all add: in_mode_def\<close>)
  then show "sim m' (st(a \<mapsto> (Ready, q)))" using assms(6) by (auto intro: sim_tab)
qed (use assms(3) in \<open>auto intro: life_step.delay\<close>)

lemma fork_refines:
  assumes "sim m st" "life_inv st" "st a = Some (Running, q)" "of_FORK run a cp m = Some (m', rc)" "cp_cptr2 cp \<noteq> codespace_null"
  shows "refined a st m' rc"
proof -
  have "linked st" using assms(2) by (simp add: life_inv_def)
  then obtain c where c: "rc" "st c = None" "sim m' (st(c \<mapsto> (Ready, Some a, False)))" using fork_sim [OF assms(1) _ assms(3-5)] by blast
  have "life_step st (st(c \<mapsto> (Ready, Some a, False)))" using life_step.fork [of st a q c] assms(3) c(2) by simp
  then show ?thesis using c assms(3) by (auto intro!: refinedI [where q = q and st' = "st(c \<mapsto> (Ready, Some a, False))"])
qed

lemma join_refines:
  assumes "sim m st" "life_inv st" "st a = Some (Running, q)" "of_JOIN a cp m = Some (m', rc)"
  shows "refined a st m' rc"
proof (cases rc)
  case True
  then obtain c where c: "st c = Some (Zombie, Some a, False)" "sim m' (st(c := None))"
    using join_opcode_sim [OF assms(1-3)] assms(4) by (fastforce simp: of_JOIN_def)
  have "life_step st (st(c := None))" using life_step.reap [of st a q c] assms(3) c(1) by simp
  moreover have "a \<noteq> c" using assms(3) c(1) by auto
  ultimately show ?thesis using c(2) True assms(3) by (auto intro!: refinedI [where q = q and st' = "st(c := None)"])
next
  case False
  then have j: "kids st a \<noteq> {}" "\<forall>c \<in> kids st a. \<not> zombie st c" "sim m' (st(a \<mapsto> (Joining, q)))"
    using join_opcode_sim [OF assms(1-3)] assms(4) by (fastforce simp: of_JOIN_def)+
  have "life_step st (st(a \<mapsto> (Joining, q)))" using life_step.join [of st a q] assms(3) j(1,2) by simp
  then show ?thesis using refined_park [OF assms(1-3), of Joining m'] j(3) False by simp
qed

lemma join_detach_refines:
  assumes "sim m st" "life_inv st" "st a = Some (Running, q)" "of_JOIN_DETACH a cp m = Some (m', rc)"
  shows "refined a st m' rc"
proof -
  obtain n where "detach_loop a n m = Some m'" rc using assms(4) by (auto simp: of_JOIN_DETACH_def bind_eq_Some_conv)
  then show ?thesis using detach_loop_sim [OF assms(1-3)] by (fastforce intro: refinedI)
qed

lemma wait_fork_refines:
  assumes "sim m st" "life_inv st" "st a = Some (Running, q)" "of_WAIT_FORK a cp m = Some (m', rc)"
  shows "refined a st m' rc"
proof -
  obtain t where t: "thr_tab m a = Some t" "in_mode Running t" "family st a t" using mode_thread [OF assms(1,3)] by metis
  have k: "kids st a = {}" using assms(4) t(1,3) by (auto simp: of_WAIT_FORK_def bind_eq_Some_conv family_def)
  show ?thesis
  proof (cases "detached_children t = []")
    case True
    then have "m' = m" rc using assms(4) t(1) by (auto simp: of_WAIT_FORK_def bind_eq_Some_conv)
    then show ?thesis using refinedI [of st st m a q] assms(1,3) by simp
  next
    case False
    then have m': "m' = put_thr a (t\<lparr>i_am_waiting := True\<rparr>) m" "\<not> rc" using assms(4) t(1) by (auto simp: of_WAIT_FORK_def bind_eq_Some_conv)
    have d: "dets st a \<noteq> {}" using False t(3) by (auto simp: family_def)
    have "sim m' (st(a \<mapsto> (Waiting, q)))"
      unfolding m' by (rule sim_mode [OF assms(1) t(1) assms(3)]) (use t(2) in \<open>simp_all add: in_mode_def\<close>)
    moreover have "life_step st (st(a \<mapsto> (Waiting, q)))" using life_step.wait [of st a q] assms(3) k d by simp
    ultimately show ?thesis using refined_park [OF assms(1-3), of Waiting m'] m'(2) by simp
  qed
qed

text \<open>A delay, a jump, a link and the operations on the stacks and the contexts.\<close>

lemma delay_refines:
  assumes "sim m st" "life_inv st" "st a = Some (Running, q)" "do_delay a w m = Some (m', rc)"
  shows "refined a st m' rc"
proof -
  obtain t where t: "thr_tab m a = Some t" "in_mode Running t" using mode_thread [OF assms(1,3)] by metis
  then have n: "wait_next t = None" by (simp add: in_mode_def)
  have "thr_tab m' = (thr_tab m)(a \<mapsto> t\<lparr>is_scheduled := True\<rparr>)" "\<not> rc"
    using assms(4) vt_schedule_tab(1) [OF _ t(1) n] vt_schedule_inactive_tab(1) [OF _ t(1) n]
    by (auto simp: do_delay_def bind_eq_Some_conv split: if_splits)
  then show ?thesis using schedule_refines [OF assms(1-3) t(1), of t m'] by (simp add: same_life_def)
qed

lemma same_life_pc: "pc t \<noteq> codespace_null \<Longrightarrow> p \<noteq> codespace_null \<Longrightarrow> same_life t (t\<lparr>pc := p\<rparr>)" "same_life t t" "same_life t (t\<lparr>wt_context := c\<rparr>)" "same_life t (t\<lparr>rd_context := c\<rparr>)"
  by (simp_all add: same_life_def in_mode_def)

lemma resume_refines:
  assumes "sim m st" "life_inv st" "st a = Some (Running, q)" "thr_tab m a = Some t" "same_life t u" "thr_tab mj = (thr_tab m)(a \<mapsto> u)"
    "(if is_stopped mj then do { m2 \<leftarrow> vt_schedule a 0 False mj; Some (m2, False) } else Some (mj, True)) = Some (m', rc)"
  shows "refined a st m' rc"
proof (cases "is_stopped mj")
  case True
  have "in_mode Running t" using simD [OF assms(1,4)] assms(3) by auto
  then have "wait_next u = None" using assms(5) by (auto simp: same_life_def in_mode_def)
  then have "thr_tab m' = (thr_tab m)(a \<mapsto> u\<lparr>is_scheduled := True\<rparr>)" "\<not> rc"
    using True assms(6,7) vt_schedule_tab(1) [of a 0 False mj m' u] by (auto simp: bind_eq_Some_conv)
  then show ?thesis using schedule_refines [OF assms(1-5)] by simp
next
  case False
  then show ?thesis using refined_same [OF assms(1,3-5)] assms(6,7) by simp
qed

lemma jump_refines:
  assumes "sim m st" "life_inv st" "st a = Some (Running, q)" "cp_cptr cp \<noteq> codespace_null"
  shows "of_JMP a cp m = Some (m', rc) \<Longrightarrow> refined a st m' rc" "jump_if p a cp m = Some (m', rc) \<Longrightarrow> refined a st m' rc"
proof -
  obtain t where t: "thr_tab m a = Some t" "in_mode Running t" using mode_thread [OF assms(1,3)] by metis
  note resume = resume_refines [OF assms(1-3) t(1)]
  have same: "same_life t (t\<lparr>pc := cp_cptr cp\<rparr>)" using t(2) assms(4) by (simp add: same_life_pc(1) in_mode_def)
  show "of_JMP a cp m = Some (m', rc) \<Longrightarrow> refined a st m' rc"
    by (rule resume [OF same, where mj = "put_thr a (t\<lparr>pc := cp_cptr cp\<rparr>) m"]) (simp_all add: of_JMP_def upd_thr_def t)
  assume j: "jump_if p a cp m = Some (m', rc)"
  then obtain flag where flag: "get_flag (unat (cp_bit_idx0 cp)) t = Some flag" by (auto simp: jump_if_def t bind_eq_Some_conv)
  show "refined a st m' rc"
  proof (cases "p flag")
    case True
    then show ?thesis
      by (intro resume [OF same, where mj = "put_thr a (t\<lparr>pc := cp_cptr cp\<rparr>) m"]) (use j flag t in \<open>simp_all add: jump_if_def Let_def split: if_splits\<close>)
  next
    case False
    then show ?thesis
      by (intro resume [OF same_life_pc(2), where mj = m]) (use j flag t in \<open>simp_all add: jump_if_def fun_upd_idem\<close>)
  qed
qed

lemma context_tab:
  "vthread_alloc_context s m = Some (m', c) \<Longrightarrow> thr_tab m' = thr_tab m" "vthread_free_context x s m = Some m' \<Longrightarrow> thr_tab m' = thr_tab m"
proof -
  assume alloc: "vthread_alloc_context s m = Some (m', c)"
  then obtain sc where "scope_tab m s = Some sc" by (auto simp: vthread_alloc_context_def bind_eq_Some_conv)
  then show "thr_tab m' = thr_tab m" using alloc
    by (cases "free_contexts sc"; cases "context_memory m") (auto simp: vthread_alloc_context_def bind_eq_Some_conv)
qed (auto simp: vthread_free_context_def bind_eq_Some_conv)

lemma context_refines:
  assumes "sim m st" "st a = Some (Running, q)"
  shows "of_ALLOC a cp m = Some (m', rc) \<Longrightarrow> refined a st m' rc" "of_FREE a cp m = Some (m', rc) \<Longrightarrow> refined a st m' rc"
    "of_CHUNK_LINK a cp m = Some (m', rc) \<Longrightarrow> refined a st m' rc"
proof -
  obtain t where t: "thr_tab m a = Some t" "in_mode Running t" using mode_thread [OF assms] by metis
  note same = refined_same [OF assms t(1)]
  show "of_ALLOC a cp m = Some (m', rc) \<Longrightarrow> refined a st m' rc"
    using context_tab(1) by (auto simp: of_ALLOC_def bind_eq_Some_conv t intro!: same [OF same_life_pc(3)])
  show "of_FREE a cp m = Some (m', rc) \<Longrightarrow> refined a st m' rc"
    using context_tab(2) by (auto simp: of_FREE_def bind_eq_Some_conv t intro!: same [OF same_life_pc(4)])
  show "of_CHUNK_LINK a cp m = Some (m', rc) \<Longrightarrow> refined a st m' rc"
    using t(2) by (auto simp: of_CHUNK_LINK_def bind_eq_Some_conv upd_thr_def t(1) in_mode_def codespace_null_def
        intro!: same [OF same_life_pc(1), where p1 = "cp_cptr cp"])
qed

section \<open>An instruction\<close>

text \<open>All the instructions but those that disable threads, or run one that was disabled. A jump or a fork
  to the reserved cell would be such a run.\<close>

definition plain :: "vvp_code \<Rightarrow> bool" where
  "plain cp \<longleftrightarrow> opcode cp \<notin> {''of_DISABLE'', ''of_DISABLE_FLOW'', ''of_DISABLE_FORK'', ''of_ZOMBIE''} \<and>
     (opcode cp \<in> {''of_JMP'', ''of_JMP0'', ''of_JMP0XZ'', ''of_JMP1'', ''of_JMP1XZ''} \<longrightarrow> cp_cptr cp \<noteq> codespace_null) \<and>
     (opcode cp = ''of_FORK'' \<longrightarrow> cp_cptr2 cp \<noteq> codespace_null)"

lemma control_refines:
  assumes "sim m st" "life_inv st" "st a = Some (Running, q)" "plain cp"
    "map_of (control_table n run) (opcode cp) = Some f" "f a cp m = Some (m', rc)"
  shows "refined a st m' rc"
proof -
  have "f \<in> {of_CHUNK_LINK, of_JOIN, of_JOIN_DETACH, of_END, of_WAIT_FORK, of_DELAY, of_DELAYX, of_ALLOC, of_FREE} \<or>
      (f \<in> {of_JMP, of_JMP0, of_JMP0XZ, of_JMP1, of_JMP1XZ} \<and> cp_cptr cp \<noteq> codespace_null) \<or>
      (f = of_FORK run \<and> cp_cptr2 cp \<noteq> codespace_null)"
    using assms(4,5) unfolding control_table_def plain_def by (simp split: if_splits)
  moreover have "of_END a cp m = Some (m', rc) \<Longrightarrow> refined a st m' rc" using end_refines [OF assms(1-3), of cp m' rc] by auto
  ultimately show ?thesis
    using assms(6) jump_refines [OF assms(1-3)] context_refines [OF assms(1,3)] fork_refines [OF assms(1-3)] join_refines [OF assms(1-3)]
      join_detach_refines [OF assms(1-3)] wait_fork_refines [OF assms(1-3)] delay_refines [OF assms(1-3)]
    by (auto simp: of_JMP0_def of_JMP0XZ_def of_JMP1_def of_JMP1XZ_def of_DELAY_def of_DELAYX_def bind_eq_Some_conv)
qed

lemma exec_refines:
  assumes "sim m st" "life_inv st" "st a = Some (Running, q)" "plain cp" "exec n run a cp m = Some (m', rc)"
  shows "refined a st m' rc"
proof (cases "alu_op (opcode cp)")
  case None
  then show ?thesis using assms(5) control_refines [OF assms(1-4)] by (auto simp: exec_def split: option.splits)
next
  case (Some f)
  then obtain t u where "thr_tab m a = Some t" "f cp t = Some u" "m' = put_thr a u m" rc
    using assms(5) by (auto simp: exec_def bind_eq_Some_conv)
  then show ?thesis using refined_same [OF assms(1,3), of t u m'] frame_life [OF alu_op_frame [OF Some], of cp t u] by simp
qed

section \<open>The fetch loop as a step relation\<close>

text \<open>A configuration is a machine and the thread that is running, if any. Thread \<open>a\<close> that the scheduler
  calls is one that is marked as scheduled.\<close>

type_synonym config = "machine \<times> nat option"

inductive fetch_step :: "config \<Rightarrow> config \<Rightarrow> bool" where
  call: "\<lbrakk>thr_tab m a = Some thr; is_scheduled thr\<rbrakk> \<Longrightarrow>
    fetch_step (m, None) (put_thr a (thr\<lparr>wait_next := None, is_scheduled := False\<rparr>) m, Some a)"
| instr: "\<lbrakk>thr_tab m a = Some thr; pc thr < length (code_cells m); cp = code_cells m ! pc thr; plain cp;
     exec n run a cp (put_thr a (thr\<lparr>pc := pc thr + 1\<rparr>) m) = Some (m', rc)\<rbrakk> \<Longrightarrow>
    fetch_step (m, Some a) (m', if rc then Some a else None)"

definition cfg_sim :: "config \<Rightarrow> life \<Rightarrow> bool" where
  "cfg_sim c st \<longleftrightarrow> sim (fst c) st \<and> life_inv st \<and>
     (case snd c of None \<Rightarrow> \<forall>a q. st a \<noteq> Some (Running, q) | Some a \<Rightarrow> \<exists>q. st a = Some (Running, q))"

lemma call_sim:
  assumes "sim m st" "life_inv st" "\<forall>a q. st a \<noteq> Some (Running, q)" "thr_tab m a = Some t" "is_scheduled t"
  shows "\<exists>st'. life_step\<^sup>*\<^sup>* st st' \<and> cfg_sim (put_thr a (t\<lparr>wait_next := None, is_scheduled := False\<rparr>) m, Some a) st'"
proof -
  obtain md where md: "st a = Some (md, parent t, i_am_detached t)" "in_mode md t" using simD [OF assms(1,4)] by blast
  then have r: "md = Ready" using assms(5) by (simp add: in_mode_def)
  let ?st = "st(a \<mapsto> (Running, parent t, i_am_detached t))"
  have step: "life_step st ?st" using life_step.pick [of st a "(parent t, i_am_detached t)"] md(1) r assms(3) by simp
  moreover have "sim (put_thr a (t\<lparr>wait_next := None, is_scheduled := False\<rparr>) m) ?st"
    by (rule sim_mode [OF assms(1,4) md(1)]) (use md(2) r in \<open>simp_all add: in_mode_def\<close>)
  ultimately show ?thesis using life_inv_step [OF step assms(2)] by (intro exI [of _ ?st]) (auto simp: cfg_sim_def)
qed

lemma instr_sim:
  assumes "sim m st" "life_inv st" "st a = Some (Running, q)" "refined a st m' rc"
  shows "\<exists>st'. life_step\<^sup>*\<^sup>* st st' \<and> cfg_sim (m', if rc then Some a else None) st'"
proof -
  obtain st' where "life_step\<^sup>*\<^sup>* st st'" "sim m' st'" "if rc then \<exists>q. st' a = Some (Running, q) else \<forall>c q. st' c \<noteq> Some (Running, q)"
    using assms(4) unfolding refined_def by blast
  then show ?thesis using life_inv_steps [OF _ assms(2), of st'] by (intro exI [of _ st']) (auto simp: cfg_sim_def)
qed

interpretation life_sim: simulation fetch_step life_step cfg_sim
proof
  fix c st c' assume c: "cfg_sim c st" "fetch_step c c'"
  obtain m r where mr: "c = (m, r)" by (cases c)
  have s: "sim m st" "life_inv st" using c(1) mr by (auto simp: cfg_sim_def)
  show "\<exists>st'. life_step\<^sup>*\<^sup>* st st' \<and> cfg_sim c' st'"
    using c(2) [unfolded mr]
  proof cases
    case (call a thr)
    then show ?thesis using call_sim [OF s, of a thr] c(1) mr by (auto simp: cfg_sim_def)
  next
    case (instr a thr cp n run m' rc)
    then obtain q where q: "st a = Some (Running, q)" using c(1) mr by (auto simp: cfg_sim_def)
    have "in_mode Running thr" using simD [OF s(1) instr(3)] q by auto
    then have "same_life thr (thr\<lparr>pc := pc thr + 1\<rparr>)" by (simp add: same_life_pc(1) in_mode_def codespace_null_def)
    then have "sim (put_thr a (thr\<lparr>pc := pc thr + 1\<rparr>) m) st" by (rule sim_same [OF s(1) instr(3)])
    from instr_sim [OF s q exec_refines [OF this s(2) q instr(6,7)]] show ?thesis using instr(2) by simp
  qed
qed

end
