(* ===== verification/Vthread_Calls.thy ===== *)
theory Vthread_Calls
  imports Vthread_Progress
begin

text \<open>
  Calls of the fetch loop by the scheduler as runs of the step relation, and what the simulation gives
  for a program of threads.
\<close>

section \<open>A call of the fetch loop\<close>

text \<open>No instruction writes the code.\<close>

lemma upd_code:
  "upd_thr a f m = Some m' \<Longrightarrow> code_cells m' = code_cells m" "upd_scope s g m = Some m' \<Longrightarrow> code_cells m' = code_cells m"
  by (auto simp: upd_thr_def upd_scope_def)

lemma mark_code: "vthread_mark_scheduled r m = Some m' \<Longrightarrow> code_cells m' = code_cells m"
proof (rule vthread_mark_scheduled.raw_induct [where P = "\<lambda>r m m'. code_cells m' = code_cells m", rotated])
  fix f r m m'
  assume "\<And>r m m'. f r m = Some m' \<Longrightarrow> code_cells m' = code_cells m"
    "(case r of None \<Rightarrow> Some m | Some a \<Rightarrow> do { t \<leftarrow> thr_tab m a; assert_opt (\<not> is_scheduled t); f (wait_next t) (put_thr a (t\<lparr>is_scheduled := True\<rparr>) m) }) = Some m'"
  then show "code_cells m' = code_cells m" by (cases r) (force simp: bind_eq_Some_conv)+
qed

lemma schedule_code:
  "vt_schedule a w b m = Some m' \<Longrightarrow> code_cells m' = code_cells m" "vt_schedule_inactive a m = Some m' \<Longrightarrow> code_cells m' = code_cells m"
  by (auto simp: vt_schedule_def vt_schedule_inactive_def sched_call_def dest: mark_code)

lemma children_code:
  "pass_children a p cs m = Some m' \<Longrightarrow> code_cells m' = code_cells m" "free_children a cs m = Some m' \<Longrightarrow> code_cells m' = code_cells m"
  "end_detached a cs m = Some m' \<Longrightarrow> code_cells m' = code_cells m"
  by (induction cs arbitrary: m) (auto simp: bind_eq_Some_conv dest!: upd_code)

lemma reap_code:
  "leave_parent a m = Some m' \<Longrightarrow> code_cells m' = code_cells m" "leave_scope a m = Some m' \<Longrightarrow> code_cells m' = code_cells m"
  "vthread_delete a m = Some m' \<Longrightarrow> code_cells m' = code_cells m"
  by (auto simp: leave_parent_def leave_scope_def vthread_delete_def bind_eq_Some_conv split: option.splits if_splits dest: upd_code)

lemma vthread_reap_code: "vthread_reap a m = Some m' \<Longrightarrow> code_cells m' = code_cells m"
  by (auto simp: vthread_reap_def bind_eq_Some_conv sched_call_def split: if_splits dest!: upd_code children_code reap_code)

lemma join_code: "do_join a c m = Some m' \<Longrightarrow> code_cells m' = code_cells m"
  by (auto simp: do_join_def bind_eq_Some_conv split: if_splits dest!: vthread_reap_code)

lemma detach_code: "detach_loop a n m = Some m' \<Longrightarrow> code_cells m' = code_cells m"
proof (induction n arbitrary: m)
  case 0
  then obtain t where "thr_tab m a = Some t" by (auto simp: detach_loop.simps [of a 0] bind_eq_Some_conv)
  then show ?case using 0 by (cases "children t") (auto simp: detach_loop.simps [of a 0] bind_eq_Some_conv)
next
  case (Suc n)
  obtain t where t: "thr_tab m a = Some t" using Suc.prems by (auto simp: detach_loop.simps [of a "Suc n"] bind_eq_Some_conv)
  show ?case
  proof (cases "children t")
    case Nil
    then show ?thesis using Suc.prems t by (simp add: detach_loop.simps [of a "Suc n"])
  next
    case (Cons c cs)
    then obtain m1 where "detach_loop a n m1 = Some m'" "code_cells m1 = code_cells m"
      using Suc.prems t by (auto simp: detach_loop.simps [of a "Suc n"] bind_eq_Some_conv split: if_splits dest!: upd_code vthread_reap_code)
    then show ?thesis using Suc.IH by simp
  qed
qed

lemma family_code:
  "do_join_opcode a m = Some (m', rc) \<Longrightarrow> code_cells m' = code_cells m" "of_JOIN_DETACH a cp m = Some (m', rc) \<Longrightarrow> code_cells m' = code_cells m"
  "of_WAIT_FORK a cp m = Some (m', rc) \<Longrightarrow> code_cells m' = code_cells m" "leave_detached a m = Some m' \<Longrightarrow> code_cells m' = code_cells m"
  by (auto simp: do_join_opcode_def of_JOIN_DETACH_def of_WAIT_FORK_def leave_detached_def Let_def bind_eq_Some_conv
      split: option.splits if_splits dest!: join_code detach_code upd_code schedule_code)

lemma wake_code:
  assumes "do { m \<leftarrow> upd_thr p f m; m \<leftarrow> vt_schedule p w b m; m \<leftarrow> do_join p a m; Some (m, False) } = Some (m', rc)"
  shows "code_cells m' = code_cells m"
proof -
  obtain m1 m2 where "upd_thr p f m = Some m1" "vt_schedule p w b m1 = Some m2" "do_join p a m2 = Some m'" using assms by (auto simp: bind_eq_Some_conv)
  then show ?thesis using upd_code(1) schedule_code(1) join_code by metis
qed

lemma left_code:
  assumes "do { m \<leftarrow> (if d then leave_detached a m else Some m); thr \<leftarrow> thr_tab m a; m \<leftarrow> (if parent thr = None then vthread_reap a m else Some m); Some (m, False) } = Some (m', rc)"
  shows "code_cells m' = code_cells m"
proof -
  obtain m1 where m1: "(if d then leave_detached a m else Some m) = Some m1" "m' = m1 \<or> vthread_reap a m1 = Some m'"
    using assms unfolding bind_eq_Some_conv by (elim exE conjE) (rule that, assumption, simp split: if_splits)
  have "code_cells m1 = code_cells m" using m1(1) family_code(4) by (cases d) auto
  moreover have "code_cells m' = code_cells m1" using m1(2) vthread_reap_code by auto
  ultimately show ?thesis by simp
qed

lemma end_code: 
  assumes "of_END a cp m = Some (m', rc)"
  shows "code_cells m' = code_cells m"
proof -
  obtain thr m2 where m2: "thr_tab m a = Some thr" "end_detached a (detached_children thr) (put_thr a (thr\<lparr>i_have_ended := True, pc := codespace_null\<rparr>) m) = Some m2"
    using assms by (auto simp: of_END_def bind_eq_Some_conv)
  obtain u j where u: "thr_tab m2 a = Some u" "(if j then do { p \<leftarrow> parent u; m \<leftarrow> upd_thr p (\<lambda>t. t\<lparr>i_am_joining := False\<rparr>) m2; m \<leftarrow> vt_schedule p 0 True m; m \<leftarrow> do_join p a m; Some (m, False) }
      else do { m \<leftarrow> (if i_am_detached u then leave_detached a m2 else Some m2); thr \<leftarrow> thr_tab m a; m \<leftarrow> (if parent thr = None then vthread_reap a m else Some m); Some (m, False) }) = Some (m', rc)"
    using assms m2 unfolding of_END_def by (simp only: bind_eq_Some_conv) (auto simp only: option.inject)
  have "code_cells m' = code_cells m2"
  proof (cases j)
    case True
    then show ?thesis using u(2) wake_code by (cases "parent u") auto
  next
    case False
    show ?thesis by (rule left_code) (use u(2) False in simp)
  qed
  then show ?thesis using children_code(3) [OF m2(2)] by simp
qed

lemma new_code: "vthread_new p s m = Some (m', c) \<Longrightarrow> code_cells m' = code_cells m"
  by (auto simp: vthread_new_def bind_eq_Some_conv Let_def split: list.splits prod.splits dest!: upd_code)

lemma fork_code:
  assumes "of_FORK run a cp m = Some (m', rc)" "thr_tab m a = Some t" "\<not> i_am_in_function t"
  shows "code_cells m' = code_cells m"
proof -
  obtain m1 c where m1: "vthread_new (cp_cptr2 cp) (cp_scope cp) m = Some (m1, c)" using assms(1) by (auto simp: of_FORK_def bind_eq_Some_conv)
  have "thr_tab m1 a = Some t" using vthread_new_tab [OF m1] assms(2) by auto
  then show ?thesis using assms(1,3) new_code [OF m1]
    by (auto simp: of_FORK_def m1 bind_eq_Some_conv split: if_splits dest!: upd_code schedule_code)
qed

lemma context_code:
  "vthread_alloc_context s m = Some (m', c) \<Longrightarrow> code_cells m' = code_cells m" "vthread_free_context x s m = Some m' \<Longrightarrow> code_cells m' = code_cells m"
proof -
  assume alloc: "vthread_alloc_context s m = Some (m', c)"
  then obtain sc where "scope_tab m s = Some sc" by (auto simp: vthread_alloc_context_def bind_eq_Some_conv)
  then show "code_cells m' = code_cells m" using alloc
    by (cases "free_contexts sc"; cases "context_memory m") (auto simp: vthread_alloc_context_def bind_eq_Some_conv)
qed (auto simp: vthread_free_context_def bind_eq_Some_conv)

lemma jump_code:
  "of_JMP a cp m = Some (m', rc) \<Longrightarrow> code_cells m' = code_cells m" "jump_if p a cp m = Some (m', rc) \<Longrightarrow> code_cells m' = code_cells m"
  "of_CHUNK_LINK a cp m = Some (m', rc) \<Longrightarrow> code_cells m' = code_cells m" "do_delay a w m = Some (m', rc) \<Longrightarrow> code_cells m' = code_cells m"
  "of_ALLOC a cp m = Some (m', rc) \<Longrightarrow> code_cells m' = code_cells m" "of_FREE a cp m = Some (m', rc) \<Longrightarrow> code_cells m' = code_cells m"
  by (auto simp: of_JMP_def jump_if_def of_CHUNK_LINK_def do_delay_def of_ALLOC_def of_FREE_def Let_def bind_eq_Some_conv
      split: if_splits dest!: upd_code schedule_code context_code)

lemma exec_code:
  assumes "exec n run a cp m = Some (m', rc)" "plain cp" "thr_tab m a = Some t" "\<not> i_am_in_function t"
  shows "code_cells m' = code_cells m"
proof (cases "alu_op (opcode cp)")
  case None
  then obtain f where f: "map_of (control_table n run) (opcode cp) = Some f" "f a cp m = Some (m', rc)"
    using assms(1) by (auto simp: exec_def split: option.splits)
  then have "f \<in> {of_CHUNK_LINK, of_JOIN, of_JOIN_DETACH, of_END, of_WAIT_FORK, of_DELAY, of_DELAYX, of_ALLOC, of_FREE,
      of_JMP, of_JMP0, of_JMP0XZ, of_JMP1, of_JMP1XZ, of_FORK run}"
    using assms(2) unfolding control_table_def plain_def by (simp split: if_splits)
  then show ?thesis using f(2) jump_code family_code end_code fork_code [OF _ assms(3,4)]
    by (auto simp: of_JOIN_def of_JMP0_def of_JMP0XZ_def of_JMP1_def of_JMP1XZ_def of_DELAY_def of_DELAYX_def bind_eq_Some_conv)
qed (use assms(1) in \<open>auto simp: exec_def bind_eq_Some_conv\<close>)

section \<open>Runs of a program\<close>

text \<open>The first cell of the code is reserved; the others hold plain instructions.\<close>

definition plain_code :: "machine \<Rightarrow> bool" where
  "plain_code m \<longleftrightarrow> list_all plain (tl (code_cells m))"

lemma plain_cell: "plain_code m \<Longrightarrow> i < length (code_cells m) \<Longrightarrow> i \<noteq> codespace_null \<Longrightarrow> plain (code_cells m ! i)"
  by (cases "code_cells m"; cases i) (auto simp: plain_code_def codespace_null_def list_all_length)

lemma running_thread:
  assumes "cfg_sim (m, Some a) st"
  obtains t where "thr_tab m a = Some t" "in_mode Running t"
proof -
  obtain q where "sim m st" "st a = Some (Running, q)" using assms by (auto simp: cfg_sim_def)
  then show ?thesis using that mode_thread by metis
qed

lemma run_loop_steps:
  "\<lbrakk>run_loop n a m = Some m'; cfg_sim (m, Some a) st; plain_code m\<rbrakk> \<Longrightarrow>
   fetch_step\<^sup>*\<^sup>* (m, Some a) (m', None) \<and> code_cells m' = code_cells m"
proof (induction n arbitrary: m st)
  case (Suc n)
  obtain t where t: "thr_tab m a = Some t" "in_mode Running t" by (rule running_thread [OF Suc.prems(2)])
  let ?m = "put_thr a (t\<lparr>pc := pc t + 1\<rparr>) m" and ?run = "\<lambda>child. vthread_run n (Some child)"
  obtain m1 rc where x: "pc t < length (code_cells m)" "exec n ?run a (code_cells m ! pc t) ?m = Some (m1, rc)"
      "(if rc then run_loop n a m1 else Some m1) = Some m'"
    using Suc.prems(1) t(1) by (auto simp: bind_eq_Some_conv)
  have p: "plain (code_cells m ! pc t)" using plain_cell [OF Suc.prems(3) x(1)] t(2) by (simp add: in_mode_def)
  have step: "fetch_step (m, Some a) (m1, if rc then Some a else None)" by (rule fetch_step.instr [OF t(1) x(1) refl p x(2)])
  then obtain st1 where st1: "cfg_sim (m1, if rc then Some a else None) st1" using life_sim.simulate [OF Suc.prems(2)] by blast
  have cells: "code_cells m1 = code_cells m"
    using exec_code [OF x(2) p, of "t\<lparr>pc := pc t + 1\<rparr>"] t(2) by (simp add: in_mode_def)
  show ?case
  proof (cases rc)
    case True
    then have "fetch_step\<^sup>*\<^sup>* (m1, Some a) (m', None) \<and> code_cells m' = code_cells m1"
      using Suc.IH [of m1 st1] x(3) st1 Suc.prems(3) cells by (simp add: plain_code_def)
    moreover have "fetch_step (m, Some a) (m1, Some a)" using step True by simp
    ultimately show ?thesis using cells by (simp add: converse_rtranclp_into_rtranclp)
  qed (use step x(3) cells in auto)
qed simp

lemma vthread_run_steps:
  assumes "vthread_run n (Some a) m = Some m'" "cfg_sim (m, None) st" "plain_code m"
  shows "fetch_step\<^sup>*\<^sup>* (m, None) (m', None) \<and> code_cells m' = code_cells m"
proof -
  obtain k where n: "n = Suc k" using assms(1) by (cases n) auto
  obtain t m1 where t: "thr_tab m a = Some t" "is_scheduled t" "run_loop k a (put_thr a (t\<lparr>wait_next := None, is_scheduled := False\<rparr>) m) = Some m1"
      "vthread_run k (wait_next t) m1 = Some m'"
    using assms(1) n by (auto simp: bind_eq_Some_conv)
  have "sim m st" using assms(2) by (simp add: cfg_sim_def)
  then have "wait_next t = None" using simD [OF _ t(1)] by (metis in_mode_def)
  then have m1: "m1 = m'" using t(4) by (cases k) auto
  have step: "fetch_step (m, None) (put_thr a (t\<lparr>wait_next := None, is_scheduled := False\<rparr>) m, Some a)"
    by (rule fetch_step.call [OF t(1,2)])
  then obtain st1 where "cfg_sim (put_thr a (t\<lparr>wait_next := None, is_scheduled := False\<rparr>) m, Some a) st1"
    using life_sim.simulate [OF assms(2)] by blast
  from run_loop_steps [OF t(3) this] have "fetch_step\<^sup>*\<^sup>* (put_thr a (t\<lparr>wait_next := None, is_scheduled := False\<rparr>) m, Some a) (m', None) \<and> code_cells m' = code_cells m"
    using assms(3) m1 by (simp add: plain_code_def)
  then show ?thesis using step by (metis converse_rtranclp_into_rtranclp)
qed

text \<open>The scheduler calls one scheduled thread after the other, in any order.\<close>

inductive sched_step :: "machine \<Rightarrow> machine \<Rightarrow> bool" where
  "vthread_run n (Some a) m = Some m' \<Longrightarrow> sched_step m m'"

lemma sched_steps:
  assumes "sched_step\<^sup>*\<^sup>* m m'" "cfg_sim (m, None) st" "plain_code m"
  shows "fetch_step\<^sup>*\<^sup>* (m, None) (m', None) \<and> plain_code m'"
  using assms(1)
proof (induction rule: rtranclp_induct)
  case (step m1 m2)
  then obtain st1 where "cfg_sim (m1, None) st1" using life_sim.simulate_steps [OF _ assms(2)] by blast
  with step show ?case by (auto elim!: sched_step.cases dest!: vthread_run_steps simp: plain_code_def)
qed (use assms(3) in simp)

text \<open>At the start every thread is new, has no parent and is scheduled.\<close>

definition fresh_machine :: "machine \<Rightarrow> bool" where
  "fresh_machine m \<longleftrightarrow> finite (dom (thr_tab m)) \<and>
     (\<forall>t \<in> ran (thr_tab m). newborn (t\<lparr>is_scheduled := False\<rparr>) \<and> is_scheduled t \<and> parent t = None \<and> pc t \<noteq> codespace_null)"

definition born :: "machine \<Rightarrow> life" where
  "born m a = map_option (\<lambda>t. (Ready, None, False)) (thr_tab m a)"

lemma born_iff: "born m a = Some x \<longleftrightarrow> thr_tab m a \<noteq> None \<and> x = (Ready, None, False)"
  by (auto simp: born_def)

lemma born_kin: "kids (born m) = (\<lambda>p. {})" "dets (born m) = (\<lambda>p. {})" "\<not> zombie (born m) c"
  by (auto simp: kids_def dets_def zombie_def born_def)

lemma fresh_sim: "fresh_machine m \<Longrightarrow> cfg_sim (m, None) (born m)"
proof -
  assume f: "fresh_machine m"
  have "dom (born m) = dom (thr_tab m)" by (auto simp: born_def)
  moreover have "ranked (born m) (\<lambda>_. 0)" by (simp add: ranked_def born_kin)
  ultimately have "life_inv (born m)" using f born_iff [of m]
    by (auto simp: life_inv_def fresh_machine_def linked_def detached_ok_def zombies_ok_def joins_ok_def waits_ok_def single_def born_kin)
  moreover have "sim_at (thr_tab m c) (born m) c" for c
    using f ranI [of "thr_tab m" c] born_kin
    by (auto simp: sim_at_def family_def fresh_machine_def newborn_def in_mode_def born_def split: option.splits)
  ultimately show ?thesis by (simp add: cfg_sim_def simI born_iff)
qed

lemma run_matched:
  assumes "fresh_machine m" "plain_code m" "sched_step\<^sup>*\<^sup>* m m'"
  shows "\<exists>st. life_step\<^sup>*\<^sup>* (born m) st \<and> cfg_sim (m', None) st"
  using sched_steps [OF assms(3) fresh_sim [OF assms(1)] assms(2)] life_sim.simulate_steps [OF _ fresh_sim [OF assms(1)]] by blast

end
