(* ===== verification/Vthread_LifeClaims.thy ===== *)
theory Vthread_LifeClaims
  imports Vthread_Calls Vthread_Claims
begin

text \<open>
  Programs of threads: what holds in every state that calls of the fetch loop reach, and what disabling
  a thread does to a parent that waits.
\<close>

section \<open>A state that is matched\<close>

lemma matched_kin:
  assumes "sim m st" "life_inv st" "thr_tab m a = Some t"
  shows "c \<in> set (children t) \<longleftrightarrow> (\<exists>u. thr_tab m c = Some u \<and> parent u = Some a \<and> \<not> i_am_detached u)"
    "c \<in> set (detached_children t) \<longleftrightarrow> (\<exists>u. thr_tab m c = Some u \<and> parent u = Some a \<and> i_am_detached u)"
proof -
  have f: "family st a t" using simD [OF assms(1,3)] by blast
  have "c \<in> kids st a \<longleftrightarrow> (\<exists>u. thr_tab m c = Some u \<and> parent u = Some a \<and> \<not> i_am_detached u)"
    "c \<in> dets st a \<longleftrightarrow> (\<exists>u. thr_tab m c = Some u \<and> parent u = Some a \<and> i_am_detached u)"
    using sim_atD [OF assms(1), of c] by (auto simp: kids_def dets_def sim_at_def split: option.splits)
  then show "c \<in> set (children t) \<longleftrightarrow> (\<exists>u. thr_tab m c = Some u \<and> parent u = Some a \<and> \<not> i_am_detached u)"
    "c \<in> set (detached_children t) \<longleftrightarrow> (\<exists>u. thr_tab m c = Some u \<and> parent u = Some a \<and> i_am_detached u)"
    using f by (simp_all add: family_def)
qed

lemma matched_ended: "sim m st \<Longrightarrow> thr_tab m c = Some u \<Longrightarrow> i_have_ended u \<longleftrightarrow> zombie st c"
  by (erule simD, assumption) (auto simp: in_mode_def zombie_def)

lemma matched_waits:
  assumes "sim m st" "life_inv st" "thr_tab m a = Some t"
  shows "i_am_joining t \<Longrightarrow> \<not> is_scheduled t \<and> children t \<noteq> [] \<and> \<not> list_ex (has_ended m) (children t)"
    "i_am_waiting t \<Longrightarrow> \<not> is_scheduled t \<and> detached_children t \<noteq> [] \<and> \<not> list_ex (has_ended m) (detached_children t)"
proof -
  obtain md where md: "st a = Some (md, parent t, i_am_detached t)" "in_mode md t" "family st a t" using simD [OF assms(1,3)] by blast
  have ended: "has_ended m c \<longleftrightarrow> zombie st c" for c
    using matched_ended [OF assms(1), of c] sim_none [OF assms(1), of c] by (auto simp: has_ended_def split: option.splits)
  have dets: "\<not> zombie st c" if "c \<in> dets st a" for c
    using assms(2) that by (auto simp: life_inv_def detached_ok_def dets_def zombie_def)
  show "\<not> is_scheduled t \<and> children t \<noteq> [] \<and> \<not> list_ex (has_ended m) (children t)" if "i_am_joining t"
  proof -
    have j: "md = Joining" using that md(2) by (simp add: in_mode_def)
    then have "kids st a \<noteq> {}" "\<forall>c \<in> kids st a. \<not> zombie st c" using assms(2) md(1) unfolding life_inv_def joins_ok_def by blast+
    then show ?thesis using j md(2,3) ended by (auto simp: in_mode_def family_def list_ex_iff)
  qed
  show "\<not> is_scheduled t \<and> detached_children t \<noteq> [] \<and> \<not> list_ex (has_ended m) (detached_children t)" if "i_am_waiting t"
  proof -
    have j: "md = Waiting" using that md(2) by (simp add: in_mode_def)
    then have "dets st a \<noteq> {}" using assms(2) md(1) unfolding life_inv_def waits_ok_def by blast
    then show ?thesis using j md(2,3) ended dets by (auto simp: in_mode_def family_def list_ex_iff)
  qed
qed

lemma matched_parent:
  assumes "sim m st" "life_inv st" "thr_tab m a = Some t" "parent t = Some p"
  shows "\<exists>u. thr_tab m p = Some u \<and> \<not> i_have_ended u"
proof -
  have "a \<in> kids st p \<union> dets st p" using simD [OF assms(1,3)] assms(4) by (metis UnI1 UnI2 kin_iff(1,2))
  then have "st p \<noteq> None" "\<not> zombie st p" using assms(2) unfolding life_inv_def linked_def by (metis Un_iff empty_iff)+
  then show ?thesis using sim_none [OF assms(1), of p] matched_ended [OF assms(1), of p] by (cases "thr_tab m p") auto
qed

lemma matched_live:
  assumes "cfg_sim (m, None) st" "thr_tab m a = Some t"
  shows "\<exists>b u. thr_tab m b = Some u \<and> is_scheduled u"
proof -
  have s: "sim m st" "life_inv st" "\<forall>b q. st b \<noteq> Some (Running, q)" using assms(1) by (auto simp: cfg_sim_def)
  have "dom st \<noteq> {}" using sim_none [OF s(1), of a] assms(2) by (metis domIff empty_iff option.distinct(1))
  then obtain b q where "st b = Some (Ready, q)" using life_progress [OF s(2)] s(3) by blast
  then obtain u where "thr_tab m b = Some u" "in_mode Ready u" using mode_thread [OF s(1)] by metis
  then show ?thesis by (auto simp: in_mode_def)
qed

section \<open>Sample programs\<close>

declare vthread_mark_scheduled.simps [code] flow_target.simps [code]

definition control_cell :: "string \<Rightarrow> 64 word \<Rightarrow> 64 word \<Rightarrow> vvp_code" where
  "control_cell name a b = \<lparr>opcode = name, word1 = a, word2 = b\<rparr>"

text \<open>A thread forks a child in scope 1, detaches it and waits for it; the child delays and ends.
  Behind it is the code of a thread that executes \<open>name\<close> on the scope of the child.\<close>

definition fork_code :: "string \<Rightarrow> vvp_code list" where
  "fork_code name = [control_cell ''of_ZOMBIE'' 0 0, control_cell ''of_FORK'' 1 5, control_cell ''of_JOIN_DETACH'' 1 0,
     control_cell ''of_WAIT_FORK'' 0 0, control_cell ''of_END'' 0 0, control_cell ''of_DELAY'' 0 3, control_cell ''of_END'' 0 0,
     control_cell name 1 0, control_cell ''of_END'' 0 0]"

definition fork_machine :: "string \<Rightarrow> machine" where
  "fork_machine name = \<lparr>code_cells = fork_code name,
     thr_tab = [1 \<mapsto> (sample_thread [])\<lparr>pc := 1, is_scheduled := True\<rparr>, 2 \<mapsto> (sample_thread [])\<lparr>pc := 7, is_scheduled := True\<rparr>],
     scope_tab = (\<lambda>s. if s = 0 then Some \<lparr>is_automatic = False, scope_threads = [1, 2], live_contexts = [], free_contexts = []\<rparr>
       else Some \<lparr>is_automatic = False, scope_threads = [], live_contexts = [], free_contexts = []\<rparr>),
     stacked = (\<lambda>_. None), thread_memory = [(3, replicate FLAGS_COUNT BIT4_0, replicate WORDS_COUNT 0)], context_memory = [],
     is_stopped = False, sched_calls = []\<rparr>"

fun call_all :: "nat list \<Rightarrow> machine \<Rightarrow> machine option" where
  "call_all [] m = Some m"
| "call_all (a # as) m = Option.bind (vthread_run 20 (Some a) m) (call_all as)"

lemma call_all_steps: "call_all as m = Some m' \<Longrightarrow> sched_step\<^sup>*\<^sup>* m m'"
  by (induction as arbitrary: m) (auto simp: bind_eq_Some_conv intro: sched_step.intros converse_rtranclp_into_rtranclp)

lemma fork_machine_fresh: "fresh_machine (fork_machine name)"
  by (auto simp: fresh_machine_def fork_machine_def sample_thread_def newborn_def codespace_null_def ran_def split: if_splits)

lemma fork_machine_plain: "plain_code (fork_machine ''of_DELAY'')"
  by code_simp

text \<open>The forking thread waits, the child is scheduled.\<close>

lemma fork_machine_waits:
  "\<exists>m t. sched_step\<^sup>*\<^sup>* (fork_machine ''of_DELAY'') m \<and> thr_tab m 1 = Some t \<and> i_am_waiting t \<and> parent t = None"
proof -
  have "(case call_all [1] (fork_machine ''of_DELAY'') of None \<Rightarrow> False
      | Some m \<Rightarrow> (case thr_tab m 1 of None \<Rightarrow> False | Some t \<Rightarrow> i_am_waiting t \<and> parent t = None))" by code_simp
  then obtain m t where "call_all [1] (fork_machine ''of_DELAY'') = Some m" "thr_tab m 1 = Some t" "i_am_waiting t" "parent t = None"
    by (auto split: option.splits)
  then show ?thesis using call_all_steps by blast
qed

section \<open>Every run\<close>

text \<open>C10. Every run of plain threads is a run of the abstract life of threads: from threads that are
  new, whatever threads the scheduler calls and in whatever order, the fork, join, detach, wait and end
  instructions of \<^verbatim>\<open>vvp/vthread.cc\<close> do to the sets of children, the parent pointers and the flags what the
  abstract steps do.\<close>

theorem life_refines:
  assumes "fresh_machine m" "plain_code m" "sched_step\<^sup>*\<^sup>* m m'"
  shows "\<exists>st. life_step\<^sup>*\<^sup>* (born m) st \<and> cfg_sim (m', None) st"
  by (rule run_matched [OF assms])

theorem life_refines_witness:
  "\<exists>m st. sched_step\<^sup>*\<^sup>* (fork_machine ''of_DELAY'') m \<and> life_step\<^sup>*\<^sup>* (born (fork_machine ''of_DELAY'')) st \<and> cfg_sim (m, None) st"
proof -
  obtain m where "sched_step\<^sup>*\<^sup>* (fork_machine ''of_DELAY'') m" using fork_machine_waits by blast
  then show ?thesis using life_refines [OF fork_machine_fresh fork_machine_plain, of m] by blast
qed

text \<open>C11. In every state that a program of plain threads reaches, the sets of children and of detached
  children of a thread are exactly the threads that point to it as their parent, so no set holds a
  deleted thread; a parent pointer leads to a thread that has not ended; a thread in a join has
  children, none of which has ended, and a thread in a wait for its detached children has some, none of
  which has ended; neither of the two is scheduled. Plain code has no instruction that disables a
  thread, no event wait and no jump to the reserved cell, and threads run outside functions. The
  children are a set, as in the code: a join takes any child that has ended, where the manual of the
  instruction describes a stack of children of which a join waits for the top one.\<close>

theorem life_safe:
  assumes "fresh_machine m" "plain_code m" "sched_step\<^sup>*\<^sup>* m m'" "thr_tab m' a = Some t"
  shows "(\<forall>c. c \<in> set (children t) \<longleftrightarrow> (\<exists>u. thr_tab m' c = Some u \<and> parent u = Some a \<and> \<not> i_am_detached u)) \<and>
    (\<forall>c. c \<in> set (detached_children t) \<longleftrightarrow> (\<exists>u. thr_tab m' c = Some u \<and> parent u = Some a \<and> i_am_detached u)) \<and>
    (\<forall>p. parent t = Some p \<longrightarrow> (\<exists>u. thr_tab m' p = Some u \<and> \<not> i_have_ended u)) \<and>
    (i_am_joining t \<longrightarrow> \<not> is_scheduled t \<and> children t \<noteq> [] \<and> \<not> list_ex (has_ended m') (children t)) \<and>
    (i_am_waiting t \<longrightarrow> \<not> is_scheduled t \<and> detached_children t \<noteq> [] \<and> \<not> list_ex (has_ended m') (detached_children t))"
proof -
  obtain st where "cfg_sim (m', None) st" using run_matched [OF assms(1-3)] by blast
  then have s: "sim m' st" "life_inv st" by (simp_all add: cfg_sim_def)
  show ?thesis
    using matched_kin [OF s assms(4)] matched_parent [OF s assms(4)] matched_waits [OF s assms(4)] by (intro conjI allI impI) blast+
qed

theorem life_safe_witness:
  "\<exists>m t. sched_step\<^sup>*\<^sup>* (fork_machine ''of_DELAY'') m \<and> thr_tab m 1 = Some t \<and> i_am_waiting t \<and> \<not> is_scheduled t \<and>
     detached_children t \<noteq> [] \<and> \<not> list_ex (has_ended m) (detached_children t)"
proof -
  obtain m t where m: "sched_step\<^sup>*\<^sup>* (fork_machine ''of_DELAY'') m" "thr_tab m 1 = Some t" "i_am_waiting t" using fork_machine_waits by blast
  then show ?thesis using life_safe [OF fork_machine_fresh fork_machine_plain m(1,2)] by blast
qed

text \<open>C12. A program of plain threads does not come to a halt in a join or a wait: whenever the scheduler
  gets control and a thread is left, some thread is scheduled.\<close>

theorem life_live:
  assumes "fresh_machine m" "plain_code m" "sched_step\<^sup>*\<^sup>* m m'" "thr_tab m' a = Some t"
  shows "\<exists>b u. thr_tab m' b = Some u \<and> is_scheduled u"
proof -
  obtain st where "cfg_sim (m', None) st" using run_matched [OF assms(1-3)] by blast
  then show ?thesis by (rule matched_live [OF _ assms(4)])
qed

theorem life_live_witness:
  "\<exists>m t b u. sched_step\<^sup>*\<^sup>* (fork_machine ''of_DELAY'') m \<and> thr_tab m 1 = Some t \<and> i_am_waiting t \<and> thr_tab m b = Some u \<and> is_scheduled u"
proof -
  obtain m t where m: "sched_step\<^sup>*\<^sup>* (fork_machine ''of_DELAY'') m" "thr_tab m 1 = Some t" "i_am_waiting t" using fork_machine_waits by blast
  then show ?thesis using life_live [OF fork_machine_fresh fork_machine_plain m(1,2)] by blast
qed

text \<open>C13. A disable does not wake a parent that waits for its detached children, while the end of the last of
  them does. Whatever the machine: when a thread executes a disable of a scope that runs one thread, a detached
  child without children of its own of a parent that waits for it alone, the child is marked as ended, but
  \<open>do_disable\<close> looks only at a parent that joins: the parent is left as it was, waiting and with the ended child
  among its detached children, and no thread is scheduled. When the child then runs to its reserved instruction,
  it stays and the parent is again left as it was.\<close>

theorem life_disable_wrong:
  assumes "thr_tab m c = Some t" "parent t = Some p" "children t = []"
    "scope_tab m (parent_scope t) = Some s" "scope_threads s = [c]" "cp_scope cp = parent_scope t"
    "a \<noteq> c" "p \<noteq> c" "thr_tab m p = Some q" "i_am_waiting q" "\<not> i_am_joining q" "detached_children q = [c]"
  shows "\<exists>m' t' m''. of_DISABLE (n + 4) a cp m = Some (m', True) \<and> thr_tab m' p = Some q \<and> sched_calls m' = sched_calls m \<and>
    thr_tab m' c = Some t' \<and> i_have_ended t' \<and> pc t' = codespace_null \<and>
    of_ZOMBIE c cp' m' = Some (m'', False) \<and> thr_tab m'' p = Some q \<and> sched_calls m'' = sched_calls m \<and>
    thr_tab m'' c = Some t'"
proof -
  let ?t = "t\<lparr>pc := codespace_null, i_was_disabled := True, i_have_ended := True\<rparr>"
  let ?m = "m\<lparr>scope_tab := (scope_tab m)(parent_scope t \<mapsto> s\<lparr>scope_threads := []\<rparr>), thr_tab := (thr_tab m)(c \<mapsto> ?t)\<rparr>"
  have e: "n + 4 = Suc (Suc (Suc (Suc n)))" by simp
  have "do_disable (Suc (Suc k)) c a m = Some (?m, False)" for k
    using assms by (simp add: leave_scope_def upd_scope_def upd_thr_def put_thr_def finish_disable_def)
  then have d: "of_DISABLE (n + 4) a cp m = Some (?m, True)"
    using assms unfolding e by (simp add: of_DISABLE_def del: do_disable.simps)
  have o: "t\<lparr>i_was_disabled := True, i_have_ended := True, pc := codespace_null\<rparr> = ?t" by (cases t) simp
  have z: "of_ZOMBIE c cp' ?m = Some (?m\<lparr>thr_tab := (thr_tab ?m)(c \<mapsto> ?t)\<rparr>, False)"
    using assms by (simp add: of_ZOMBIE_def upd_thr_def put_thr_def o)
  show ?thesis
    by (rule exI [of _ ?m], rule exI [of _ ?t], rule exI [of _ "?m\<lparr>thr_tab := (thr_tab ?m)(c \<mapsto> ?t)\<rparr>"])
      (use d z assms in simp)
qed

text \<open>The machine of the samples, after the forking thread has detached its child and waits: the other thread
  disables the child.\<close>

lemma fork_machine_disables:
  "\<exists>m t q. call_all [1, 3] (fork_machine ''of_DISABLE'') = Some m \<and> thr_tab m 3 = Some t \<and> parent t = Some 1 \<and> children t = [] \<and>
     parent_scope t = 1 \<and> map_option scope_threads (scope_tab m 1) = Some [3] \<and>
     thr_tab m 1 = Some q \<and> i_am_waiting q \<and> \<not> i_am_joining q \<and> detached_children q = [3]"
proof -
  have "(case call_all [1, 3] (fork_machine ''of_DISABLE'') of None \<Rightarrow> False | Some m \<Rightarrow>
      (case (thr_tab m 3, thr_tab m 1) of
         (Some t, Some q) \<Rightarrow> parent t = Some 1 \<and> children t = [] \<and> parent_scope t = 1 \<and>
           map_option scope_threads (scope_tab m 1) = Some [3] \<and> i_am_waiting q \<and> \<not> i_am_joining q \<and> detached_children q = [3]
       | _ \<Rightarrow> False))"
    by code_simp
  then show ?thesis by (auto split: option.splits)
qed

theorem life_disable_wrong_witness:
  "\<exists>m m' m'' q. sched_step\<^sup>*\<^sup>* (fork_machine ''of_DISABLE'') m \<and>
     of_DISABLE 4 2 (control_cell ''of_DISABLE'' 1 0) m = Some (m', True) \<and>
     of_ZOMBIE 3 (control_cell ''of_ZOMBIE'' 0 0) m' = Some (m'', False) \<and>
     thr_tab m'' 1 = Some q \<and> i_am_waiting q \<and> detached_children q = [3]"
proof -
  obtain m t q where m: "call_all [1, 3] (fork_machine ''of_DISABLE'') = Some m" "thr_tab m 3 = Some t" "parent t = Some 1"
      "children t = []" "parent_scope t = 1" "map_option scope_threads (scope_tab m 1) = Some [3]"
      "thr_tab m 1 = Some q" "i_am_waiting q" "\<not> i_am_joining q" "detached_children q = [3]"
    using fork_machine_disables by blast
  then obtain s where s: "scope_tab m (parent_scope t) = Some s" "scope_threads s = [3]" by auto
  have c: "cp_scope (control_cell ''of_DISABLE'' 1 0) = parent_scope t" unfolding m(5) by code_simp
  obtain m' m'' where "of_DISABLE 4 2 (control_cell ''of_DISABLE'' 1 0) m = Some (m', True)"
      "of_ZOMBIE 3 (control_cell ''of_ZOMBIE'' 0 0) m' = Some (m'', False)" "thr_tab m'' 1 = Some q"
    using life_disable_wrong [OF m(2-4) s c, of 2 q 0 "control_cell ''of_ZOMBIE'' 0 0"] m by auto
  then show ?thesis using call_all_steps [OF m(1)] m by blast
qed

end
