(* ===== verification/Vvp_Strength.thy ===== *)
theory Vvp_Strength
  imports Vvp_Reduce
begin

text \<open>
  Values with drive strengths (\<^verbatim>\<open>vvp/vvp_net.h\<close>, \<^verbatim>\<open>vvp/vvp_net.cc\<close>): the scalar \<^verbatim>\<open>vvp_scalar_t\<close>, a byte of two
  nibbles \<open>VSSS\<close>, each the value and the strength of one end of a range; the resolution of two drivers;
  and the vector \<^verbatim>\<open>vvp_vector8_t\<close> of such bytes, held in place when there are at most eight.
\<close>

unbundle bit_operations_syntax

section \<open>Scalars\<close>

type_synonym vvp_scalar = "8 word"

definition scalar_hiz :: vvp_scalar where
  "scalar_hiz = 0"

definition scalar_make :: "vvp_bit4 \<Rightarrow> nat \<Rightarrow> nat \<Rightarrow> vvp_scalar option" where
  "scalar_make val str0 str1 = do {
     assert_opt (str0 \<le> 7);
     assert_opt (str1 \<le> 7);
     Some (if str0 = 0 \<and> str1 = 0 then 0
       else case val of
         BIT4_0 \<Rightarrow> of_nat str0 OR push_bit 4 (of_nat str0)
       | BIT4_1 \<Rightarrow> of_nat str1 OR push_bit 4 (of_nat str1) OR 0x88
       | BIT4_X \<Rightarrow> of_nat str0 OR push_bit 4 (of_nat str1) OR 0x80
       | BIT4_Z \<Rightarrow> 0) }"

definition is_hiz :: "vvp_scalar \<Rightarrow> bool" where
  "is_hiz v \<longleftrightarrow> v AND 0x77 = 0"

definition scalar_value :: "vvp_scalar \<Rightarrow> vvp_bit4" where
  "scalar_value v = (if v AND 0x77 = 0 then BIT4_Z
     else if v AND 0x88 = 0 then BIT4_0 else if v AND 0x88 = 0x88 then BIT4_1 else BIT4_X)"

definition UNAMBIG :: "vvp_scalar \<Rightarrow> bool" where
  "UNAMBIG v \<longleftrightarrow> v AND 0x0f = drop_bit 4 v AND 0x0f"

definition strength1 :: "vvp_scalar \<Rightarrow> nat" where
  "strength1 v = unat (drop_bit 4 (v AND 0x70))"

definition strength0 :: "vvp_scalar \<Rightarrow> nat" where
  "strength0 v = unat (v AND 0x07)"

text \<open>The signed strengths of the two ends of an ambiguous value, and the byte of a range of them.\<close>

definition signed1 :: "vvp_scalar \<Rightarrow> int" where
  "signed1 v = (if v AND 0x80 \<noteq> 0 then int (strength1 v) else - int (strength1 v))"

definition signed0 :: "vvp_scalar \<Rightarrow> int" where
  "signed0 v = (if v AND 0x08 \<noteq> 0 then int (strength0 v) else - int (strength0 v))"

definition widen :: "vvp_scalar \<Rightarrow> vvp_scalar \<Rightarrow> vvp_scalar" where
  "widen a b = (let
     sv1 = max (max (max (signed1 a) (signed0 a)) (signed1 b)) (signed0 b);
     sv0 = min (min (min (signed0 a) (signed1 a)) (signed1 b)) (signed0 b);
     hi = (if sv1 > 0 then 0x80 OR push_bit 4 (word_of_int sv1) else (a AND b AND 0x80) OR push_bit 4 (word_of_int (- sv1)));
     lo = (if sv0 > 0 then 0x08 OR word_of_int sv0 else word_of_int (- sv0));
     res = hi OR lo
   in if res AND 0x77 = 0 then 0 else res)"

definition fully_featured_resolv :: "vvp_scalar \<Rightarrow> vvp_scalar \<Rightarrow> vvp_scalar" where
  "fully_featured_resolv a b =
     (if UNAMBIG a \<and> UNAMBIG b
      then if b AND 0x07 > a AND 0x07 then b
        else if b AND 0x77 = a AND 0x77 then (a AND 0x77) OR 0x80
        else a
      else if UNAMBIG a
      then (if a AND 0x70 > b AND 0x70 then a AND 0xf0 else b AND 0xf0) OR
           (if a AND 0x07 > b AND 0x07 then a AND 0x0f else b AND 0x0f)
      else if UNAMBIG b
      then (if b AND 0x70 > a AND 0x70 then b AND 0xf0 else a AND 0xf0) OR
           (if b AND 0x07 > a AND 0x07 then b AND 0x0f else a AND 0x0f)
      else widen a b)"

definition resolve_scalar :: "vvp_scalar \<Rightarrow> vvp_scalar \<Rightarrow> vvp_scalar" where
  "resolve_scalar a b = (if is_hiz a then b else if is_hiz b then a else if a = b then a else fully_featured_resolv a b)"

section \<open>Vectors\<close>

text \<open>The bytes are the eight of the object when the size is at most eight, the allocated array
  otherwise. A vector of size zero may have bytes that were never written: here it has none.\<close>

record vvp_vector8 =
  size8 :: nat
  bytes8 :: "8 word list"

definition inline8 :: nat where
  "inline8 = 8"

definition vector8_new :: "nat \<Rightarrow> vvp_vector8" where
  "vector8_new n = \<lparr>size8 = n, bytes8 = replicate (if n \<le> inline8 then inline8 else n) 0\<rparr>"

fun scalars_make :: "vvp_bit4 list \<Rightarrow> nat \<Rightarrow> nat \<Rightarrow> vvp_scalar list option" where
  "scalars_make [] str0 str1 = Some []"
| "scalars_make (b # bs) str0 str1 = do { v \<leftarrow> scalar_make b str0 str1; vs \<leftarrow> scalars_make bs str0 str1; Some (v # vs) }"

definition vector8_from4 :: "vvp_vector4 \<Rightarrow> nat \<Rightarrow> nat \<Rightarrow> vvp_vector8 option" where
  "vector8_from4 that str0 str1 =
     (if vsize that = 0 then Some \<lparr>size8 = 0, bytes8 = []\<rparr>
      else do {
        vs \<leftarrow> scalars_make (map (v4_value that) [0..<vsize that]) str0 str1;
        Some \<lparr>size8 = vsize that, bytes8 = (if vsize that \<le> inline8 then vs @ replicate (inline8 - vsize that) 0 else vs)\<rparr> })"

definition v8_value :: "vvp_vector8 \<Rightarrow> nat \<Rightarrow> vvp_scalar option" where
  "v8_value v idx = (if idx < size8 v then Some (bytes8 v ! idx) else None)"

definition v8_set_bit :: "vvp_vector8 \<Rightarrow> nat \<Rightarrow> vvp_scalar \<Rightarrow> vvp_vector8 option" where
  "v8_set_bit v idx val = (if idx < size8 v then Some (v\<lparr>bytes8 := (bytes8 v)[idx := val]\<rparr>) else None)"

definition v8_eeq :: "vvp_vector8 \<Rightarrow> vvp_vector8 \<Rightarrow> bool" where
  "v8_eeq v that \<longleftrightarrow>
     (if size8 v \<noteq> size8 that then False
      else if size8 v = 0 then True
      else if size8 v \<le> inline8 then bytes8 v = bytes8 that
      else take (size8 v) (bytes8 v) = take (size8 v) (bytes8 that))"

definition v8_assign :: "vvp_vector8 \<Rightarrow> vvp_vector8 \<Rightarrow> vvp_vector8" where
  "v8_assign v that = (if size8 that = 0 then v\<lparr>size8 := 0\<rparr> else \<lparr>size8 = size8 that, bytes8 = bytes8 that\<rparr>)"

text \<open>Loops that write the bits of a new vector one by one: \<open>n\<close> bits from \<open>idx\<close> on.\<close>

fun v8_write :: "(nat \<Rightarrow> vvp_scalar option) \<Rightarrow> nat \<Rightarrow> nat \<Rightarrow> vvp_vector8 \<Rightarrow> vvp_vector8 option" where
  "v8_write f idx 0 v = Some v"
| "v8_write f idx (Suc n) v = do { b \<leftarrow> f idx; v \<leftarrow> v8_set_bit v idx b; v8_write f (Suc idx) n v }"

definition v8_subvalue :: "vvp_vector8 \<Rightarrow> nat \<Rightarrow> nat \<Rightarrow> vvp_vector8 option" where
  "v8_subvalue v base wid = v8_write (\<lambda>idx. v8_value v (base + idx)) 0 (min wid (size8 v - base)) (vector8_new wid)"

definition v8_set_vec :: "vvp_vector8 \<Rightarrow> nat \<Rightarrow> vvp_vector8 \<Rightarrow> vvp_vector8 option" where
  "v8_set_vec v base that = do {
     assert_opt (base + size8 that \<le> size8 v);
     v8_write (\<lambda>idx. v8_value that (idx - base)) base (size8 that) v }"

definition v8_part_expand :: "vvp_vector8 \<Rightarrow> nat \<Rightarrow> nat \<Rightarrow> vvp_vector8 option" where
  "v8_part_expand that wid off = do {
     assert_opt (off < wid);
     v8_write (\<lambda>idx. v8_value that (idx - off)) off (min (wid - off) (size8 that)) (vector8_new wid) }"

definition resolve_vec8 :: "vvp_vector8 \<Rightarrow> vvp_vector8 \<Rightarrow> vvp_vector8 option" where
  "resolve_vec8 a b = do {
     assert_opt (size8 a = size8 b);
     v8_write (\<lambda>idx. do { x \<leftarrow> v8_value a idx; y \<leftarrow> v8_value b idx; Some (resolve_scalar x y) }) 0 (size8 a) (vector8_new (size8 a)) }"

fun reduce4_loop :: "vvp_vector8 \<Rightarrow> nat \<Rightarrow> nat \<Rightarrow> vvp_vector4 \<Rightarrow> vvp_vector4 option" where
  "reduce4_loop that idx 0 out = Some out"
| "reduce4_loop that idx (Suc n) out = do {
     s \<leftarrow> v8_value that idx;
     out \<leftarrow> v4_set_bit out idx (scalar_value s);
     reduce4_loop that (Suc idx) n out }"

definition reduce4 :: "vvp_vector8 \<Rightarrow> vvp_vector4 option" where
  "reduce4 that = reduce4_loop that 0 (size8 that) (vector4_fill (size8 that) BIT4_X)"

section \<open>Strings of scalars\<close>

definition c8string_header_test :: "string \<Rightarrow> bool" where
  "c8string_header_test str \<longleftrightarrow> (case str of
     a # b # c # _ \<Rightarrow> (a = CHR ''C'' \<or> a = CHR ''c'') \<and> b = CHR ''8'' \<and> c = CHR ''<''
   | _ \<Rightarrow> False)"

fun c8string_loop :: "string \<Rightarrow> bool" where
  "c8string_loop [] = False"
| "c8string_loop (c # cp) = (if c = CHR ''>'' \<and> cp = [] then True
     else if of_char c \<ge> (48 :: nat) \<and> of_char c \<le> (57 :: nat) then c8string_loop cp
     else if c = CHR ''x'' then c8string_loop cp
     else if c = CHR ''z'' then c8string_loop cp
     else False)"

definition c8string_test :: "string \<Rightarrow> bool" where
  "c8string_test str \<longleftrightarrow> c8string_header_test str \<and> c8string_loop (drop 3 str)"

text \<open>A strength that is no digit makes the constructor of the scalar stop.\<close>

definition c8_digit :: "char \<Rightarrow> nat option" where
  "c8_digit c = (if of_char c \<ge> (48 :: nat) then Some (of_char c - 48) else None)"

fun c8string_bits :: "string \<Rightarrow> nat \<Rightarrow> vvp_vector8 \<Rightarrow> vvp_vector8 option" where
  "c8string_bits cp 0 tmp = Some tmp"
| "c8string_bits cp (Suc n) tmp = (case cp of
     c0 # c1 # c2 # rest \<Rightarrow> do {
       let bit = (if c2 = CHR ''0'' then BIT4_0 else if c2 = CHR ''1'' then BIT4_1
                  else if c2 = CHR ''x'' then BIT4_X else if c2 = CHR ''z'' then BIT4_Z else BIT4_X);
       dr0 \<leftarrow> c8_digit c0;
       dr1 \<leftarrow> c8_digit c1;
       s \<leftarrow> scalar_make bit dr0 dr1;
       tmp \<leftarrow> v8_set_bit tmp n s;
       c8string_bits rest n tmp }
   | _ \<Rightarrow> None)"

definition c8string_to_vector8 :: "string \<Rightarrow> vvp_vector8 option" where
  "c8string_to_vector8 str = do {
     assert_opt (c8string_header_test str);
     assert_opt (length str \<ge> 4 \<and> (length str - 4) mod 3 = 0);
     let vsz = (length str - 4) div 3;
     c8string_bits (drop 3 str) vsz (vector8_new vsz) }"

end
