(* ===== verification/Vvp_Resolve.thy ===== *)
theory Vvp_Resolve
  imports Vvp_Strength
begin

text \<open>
  What resolution does: the stronger driver wins, two drivers of the same strength and different values
  give an unknown; and what the operations on vectors of strengths do to the list of their scalars.
\<close>

unbundle bit_operations_syntax

section \<open>Drivers with one strength\<close>

text \<open>What a driver drives that has the same strength for both values.\<close>

definition standard :: "vvp_scalar \<Rightarrow> bool" where
  "standard v \<longleftrightarrow> (\<exists>b s. scalar_make b s s = Some v)"

definition drive :: "vvp_scalar \<Rightarrow> nat \<times> vvp_bit4" where
  "drive v = (strength0 v, scalar_value v)"

fun stronger :: "nat \<times> vvp_bit4 \<Rightarrow> nat \<times> vvp_bit4 \<Rightarrow> nat \<times> vvp_bit4" where
  "stronger (s, v) (t, w) = (if t < s then (s, v) else if s < t then (t, w) else (s, if v = w then v else BIT4_X))"

lemma stronger_laws:
  "stronger (stronger d e) g = stronger d (stronger e g)" "stronger d e = stronger e d" "stronger d d = d"
  by (cases d; cases e; cases g; auto)+

text \<open>The byte of a value with one strength that is not zero.\<close>

fun enc :: "vvp_bit4 \<Rightarrow> nat \<Rightarrow> vvp_scalar" where
  "enc BIT4_0 n = of_nat n OR push_bit 4 (of_nat n)"
| "enc BIT4_1 n = of_nat n OR push_bit 4 (of_nat n) OR 0x88"
| "enc BIT4_X n = of_nat n OR push_bit 4 (of_nat n) OR 0x80"
| "enc BIT4_Z n = 0"

lemma strength_cases:
  assumes "0 < n" "n < 8" "P 1" "P 2" "P 3" "P 4" "P 5" "P 6" "P 7"
  shows "P (n :: nat)"
proof -
  have "n \<in> {1, 2, 3, 4, 5, 6, 7}" using assms(1,2) by auto
  then show ?thesis using assms(3-9) by blast
qed

lemma standard_iff: "standard v \<longleftrightarrow> v = 0 \<or> (\<exists>k n. k \<noteq> BIT4_Z \<and> 0 < n \<and> n < 8 \<and> v = enc k n)"
proof
  assume "standard v"
  then obtain b s where bs: "scalar_make b s s = Some v" by (auto simp: standard_def)
  then have "s \<le> 7" "v = (if s = 0 \<or> b = BIT4_Z then 0 else enc b s)"
    by (auto simp: scalar_make_def bind_eq_Some_conv split: vvp_bit4.splits if_splits)
  then show "v = 0 \<or> (\<exists>k n. k \<noteq> BIT4_Z \<and> 0 < n \<and> n < 8 \<and> v = enc k n)"
    by (cases "s = 0 \<or> b = BIT4_Z") (auto intro!: exI [of _ b] exI [of _ s])
next
  assume v: "v = 0 \<or> (\<exists>k n. k \<noteq> BIT4_Z \<and> 0 < n \<and> n < 8 \<and> v = enc k n)"
  have "scalar_make BIT4_Z 0 0 = Some 0" by (simp add: scalar_make_def)
  moreover have "scalar_make k n n = Some (enc k n)" if "k \<noteq> BIT4_Z" "0 < n" "n < 8" for k n
    using that by (cases k) (auto simp: scalar_make_def)
  ultimately show "standard v" using v unfolding standard_def by metis
qed

lemma enc_masks:
  assumes "0 < n" "n < 8"
  shows "k \<noteq> BIT4_Z \<Longrightarrow> enc k n AND 0x07 = of_nat n" "k \<noteq> BIT4_Z \<Longrightarrow> enc k n AND 0x70 = of_nat (16 * n)"
    "k \<noteq> BIT4_Z \<Longrightarrow> enc k n AND 0x77 = of_nat (17 * n)" "k \<noteq> BIT4_Z \<Longrightarrow> scalar_value (enc k n) = k"
    "k \<noteq> BIT4_Z \<Longrightarrow> UNAMBIG (enc k n) \<longleftrightarrow> k \<noteq> BIT4_X" "k \<noteq> BIT4_Z \<Longrightarrow> strength0 (enc k n) = n"
    "of_nat (17 * n) OR 0x80 = enc BIT4_X n" "signed1 (enc BIT4_X n) = int n" "signed0 (enc BIT4_X n) = - int n"
    "0x80 OR push_bit 4 (word_of_int (int n)) OR word_of_int (int n) = enc BIT4_X n"
  by (rule strength_cases [OF assms]; cases k; simp add: scalar_value_def UNAMBIG_def strength0_def strength1_def signed1_def signed0_def)+

lemma nibbles: "(v AND 0xf0) OR (v AND 0x0f) = (v :: 8 word)"
proof -
  have "(v AND 0xf0) OR (v AND 0x0f) = v AND (0xf0 OR 0x0f)" by (simp only: bit.conj_disj_distrib)
  also have "(0xf0 OR 0x0f :: 8 word) = - 1" by simp
  finally show ?thesis by simp
qed

lemma of_nat_scalar: "0 < n \<Longrightarrow> n < 8 \<Longrightarrow> (of_nat (17 * n) :: 8 word) \<noteq> 0"
  by (rule strength_cases) simp_all

lemma of_nat_less8: "n < 8 \<Longrightarrow> m < 8 \<Longrightarrow> (of_nat n :: 8 word) < of_nat m \<longleftrightarrow> n < m"
  "n < 8 \<Longrightarrow> m < 8 \<Longrightarrow> (of_nat (16 * n) :: 8 word) < of_nat (16 * m) \<longleftrightarrow> n < m"
  "n < 8 \<Longrightarrow> m < 8 \<Longrightarrow> (of_nat (17 * n) :: 8 word) = of_nat (17 * m) \<longleftrightarrow> n = m"
proof -
  assume n: "n < 8" and m: "m < 8"
  have u: "unat (of_nat x :: 8 word) = x" if "x < 256" for x using that by (simp add: unat_of_nat)
  have "unat (of_nat n :: 8 word) = n" "unat (of_nat m :: 8 word) = m" "unat (of_nat (16 * n) :: 8 word) = 16 * n"
    "unat (of_nat (16 * m) :: 8 word) = 16 * m" "unat (of_nat (17 * n) :: 8 word) = 17 * n" "unat (of_nat (17 * m) :: 8 word) = 17 * m"
    using n m by (intro u; simp)+
  then show "(of_nat n :: 8 word) < of_nat m \<longleftrightarrow> n < m" "(of_nat (16 * n) :: 8 word) < of_nat (16 * m) \<longleftrightarrow> n < m"
    "(of_nat (17 * n) :: 8 word) = of_nat (17 * m) \<longleftrightarrow> n = m"
    unfolding word_less_nat_alt word_unat_eq_iff by auto
qed

lemma enc_hiz: "k \<noteq> BIT4_Z \<Longrightarrow> 0 < n \<Longrightarrow> n < 8 \<Longrightarrow> \<not> is_hiz (enc k n)"
  by (simp only: is_hiz_def enc_masks of_nat_scalar not_False_eq_True)

lemma enc_eq: "k \<noteq> BIT4_Z \<Longrightarrow> 0 < n \<Longrightarrow> n < 8 \<Longrightarrow> l \<noteq> BIT4_Z \<Longrightarrow> 0 < m \<Longrightarrow> m < 8 \<Longrightarrow> enc k n = enc l m \<longleftrightarrow> k = l \<and> n = m"
  using enc_masks(4,6) by metis

lemma enc_widen:
  assumes "0 < n" "n < 8" "0 < m" "m < 8"
  shows "widen (enc BIT4_X n) (enc BIT4_X m) = enc BIT4_X (max n m)"
proof -
  have x: "0 < max n m" "max n m < 8" using assms by auto
  have "max (max (max (int n) (- int n)) (int m)) (- int m) = int (max n m)" "min (min (min (- int n) (int n)) (int m)) (- int m) = - int (max n m)"
    by auto
  then have "widen (enc BIT4_X n) (enc BIT4_X m) = (let res = (0x80 OR push_bit 4 (word_of_int (int (max n m)))) OR word_of_int (int (max n m)) in if res AND 0x77 = 0 then 0 else res)"
    using x(1) by (simp only: widen_def enc_masks [OF assms(1,2)] enc_masks [OF assms(3,4)] Let_def) (simp del: of_nat_max)
  also have "\<dots> = enc BIT4_X (max n m)"
    using enc_masks(10) [OF x] enc_masks(3) [OF x, of BIT4_X] of_nat_scalar [OF x] by (simp only: Let_def or.assoc vvp_bit4.distinct if_False simp_thms)
  finally show ?thesis .
qed

lemma enc_resolve:
  assumes "k \<noteq> BIT4_Z" "0 < n" "n < 8" "l \<noteq> BIT4_Z" "0 < m" "m < 8"
  shows "resolve_scalar (enc k n) (enc l m) = (if m < n then enc k n else if n < m then enc l m else enc (if k = l then k else BIT4_X) n)"
proof -
  note masks = enc_masks [OF assms(2,3)] enc_masks [OF assms(5,6)] of_nat_less8 [OF assms(3,6)] of_nat_less8 [OF assms(6,3)]
  have r: "resolve_scalar (enc k n) (enc l m) = (if k = l \<and> n = m then enc k n else fully_featured_resolv (enc k n) (enc l m))"
    using enc_hiz [OF assms(1-3)] enc_hiz [OF assms(4-6)] enc_eq [OF assms] by (simp add: resolve_scalar_def)
  have u: "UNAMBIG (enc k n) \<longleftrightarrow> k \<noteq> BIT4_X" "UNAMBIG (enc l m) \<longleftrightarrow> l \<noteq> BIT4_X" by (rule enc_masks(5) [OF assms(2,3,1)], rule enc_masks(5) [OF assms(5,6,4)])
  have order: "m < n \<or> n < m \<or> n = m" by auto
  have "fully_featured_resolv (enc k n) (enc l m) = (if m < n then enc k n else if n < m then enc l m else enc BIT4_X n)" if "\<not> (k = l \<and> n = m)"
  proof (cases "k = BIT4_X \<and> l = BIT4_X")
    case True
    then show ?thesis using enc_widen [OF assms(2,3,5,6)] that unfolding fully_featured_resolv_def u by (auto simp: max_def)
  next
    case False
    then show ?thesis using order that unfolding fully_featured_resolv_def u
      by (elim disjE; simp only: masks assms nibbles if_True if_False simp_thms less_irrefl) (auto simp: nibbles simp del: enc.simps)
  qed
  then show ?thesis unfolding r by auto
qed

lemma zero_resolve [simp]: "resolve_scalar 0 b = b" "resolve_scalar a 0 = (if is_hiz a then 0 else a)" "drive 0 = (0, BIT4_Z)" "is_hiz 0"
  by (simp_all add: resolve_scalar_def is_hiz_def drive_def strength0_def scalar_value_def)

lemma drive_enc: "k \<noteq> BIT4_Z \<Longrightarrow> 0 < n \<Longrightarrow> n < 8 \<Longrightarrow> drive (enc k n) = (n, k)"
  by (simp add: drive_def enc_masks del: enc.simps)

lemma standard_resolve:
  assumes "standard a" "standard b"
  shows "standard (resolve_scalar a b)" "drive (resolve_scalar a b) = stronger (drive a) (drive b)"
proof -
  consider "a = 0" | "b = 0" | k n l m where "k \<noteq> BIT4_Z" "0 < n" "n < 8" "a = enc k n" "l \<noteq> BIT4_Z" "0 < m" "m < 8" "b = enc l m"
    using assms unfolding standard_iff by metis
  then have "standard (resolve_scalar a b) \<and> drive (resolve_scalar a b) = stronger (drive a) (drive b)"
  proof cases
    case 1
    then show ?thesis using assms(2) by (auto simp: standard_iff drive_enc simp del: enc.simps)
  next
    case 2
    then show ?thesis using assms(1) by (auto simp: standard_iff drive_enc enc_hiz simp del: enc.simps)
  next
    case (3 k n l m)
    then have "resolve_scalar a b = enc (snd (stronger (n, k) (m, l))) (fst (stronger (n, k) (m, l)))" by (simp add: enc_resolve del: enc.simps)
    moreover have "snd (stronger (n, k) (m, l)) \<noteq> BIT4_Z" "0 < fst (stronger (n, k) (m, l))" "fst (stronger (n, k) (m, l)) < 8" using 3 by auto
    ultimately show ?thesis using 3 unfolding standard_iff by (metis drive_enc prod.collapse)
  qed
  then show "standard (resolve_scalar a b)" "drive (resolve_scalar a b) = stronger (drive a) (drive b)" by blast+
qed

lemma standard_inj:
  assumes "standard a" "standard b" "drive a = drive b"
  shows "a = b"
proof -
  have "v = (if snd (drive v) = BIT4_Z then 0 else enc (snd (drive v)) (fst (drive v)))" if "standard v" for v
    using that unfolding standard_iff by (auto simp: drive_enc simp del: enc.simps)
  then show ?thesis using assms by metis
qed

lemma standard_laws:
  assumes "standard a" "standard b"
  shows "standard c \<Longrightarrow> resolve_scalar (resolve_scalar a b) c = resolve_scalar a (resolve_scalar b c)"
    "resolve_scalar a b = resolve_scalar b a"
  by (rule standard_inj; use assms in \<open>simp add: standard_resolve stronger_laws(1)\<close>)
    (rule standard_inj; use assms stronger_laws(2) in \<open>simp add: standard_resolve\<close>)

section \<open>Any drivers\<close>

text \<open>Resolution commutes whatever the strengths, unless both drive nothing: a driver that drives nothing has
  two bytes, 0x00 and 0x88, and the second of two such drivers is the result.\<close>

lemma unambig_mask: "UNAMBIG v \<Longrightarrow> v AND 0x77 = (v AND 0x07) OR push_bit 4 (v AND 0x07)"
proof -
  assume u: "UNAMBIG v"
  have m: "bit (0x0f :: 8 word) i \<longleftrightarrow> i < 4" "bit (0x07 :: 8 word) i \<longleftrightarrow> i < 3" for i
    using bit_mask_iff [of 4 i, where 'a = "8 word"] bit_mask_iff [of 3 i, where 'a = "8 word"] by (auto simp: mask_eq_exp_minus_1)
  have "(0x77 :: 8 word) = 0x07 OR push_bit 4 0x07" by simp
  then have m77: "bit (0x77 :: 8 word) i \<longleftrightarrow> i < 3 \<or> 4 \<le> i \<and> i < 7" for i
    by (simp only: bit_or_iff bit_push_bit_iff m) (auto simp: exp_eq_zero_iff)
  have v: "bit v i \<longleftrightarrow> bit v (4 + i)" if "i < 4" for i
  proof -
    have "bit (v AND 0x0f) i \<longleftrightarrow> bit (drop_bit 4 v AND 0x0f) i" using u by (simp only: UNAMBIG_def)
    then show ?thesis using that by (simp only: bit_and_iff bit_drop_bit_eq m o_apply simp_thms)
  qed
  show ?thesis
  proof (rule bit_eqI)
    fix i
    show "bit (v AND 0x77) i \<longleftrightarrow> bit ((v AND 0x07) OR push_bit 4 (v AND 0x07)) i"
      using v [of "i - 4"] by (simp only: bit_and_iff bit_or_iff bit_push_bit_iff m m77; cases "4 \<le> i") auto
  qed
qed

lemma unambig_same: "UNAMBIG a \<Longrightarrow> UNAMBIG b \<Longrightarrow> a AND 0x77 = b AND 0x77 \<longleftrightarrow> a AND 0x07 = b AND 0x07"
proof
  assume "a AND 0x77 = b AND 0x77"
  then have "(a AND 0x77) AND 0x07 = (b AND 0x77) AND 0x07" by (simp only:)
  then show "a AND 0x07 = b AND 0x07" by (simp add: and.assoc)
qed (simp only: unambig_mask)

lemma widen_commutes: "widen a b = widen b a"
proof -
  have "max (max (max (signed1 b) (signed0 b)) (signed1 a)) (signed0 a) = max (max (max (signed1 a) (signed0 a)) (signed1 b)) (signed0 b)"
    "min (min (min (signed0 b) (signed1 b)) (signed1 a)) (signed0 a) = min (min (min (signed0 a) (signed1 a)) (signed1 b)) (signed0 b)"
    by linarith+
  then show ?thesis unfolding widen_def by (simp only: and.left_commute [of b a])
qed

lemma fully_featured_commutes: "fully_featured_resolv a b = fully_featured_resolv b a"
proof -
  consider "UNAMBIG a" "UNAMBIG b" | "UNAMBIG a" "\<not> UNAMBIG b" | "\<not> UNAMBIG a" "UNAMBIG b" | "\<not> UNAMBIG a" "\<not> UNAMBIG b" by blast
  then show ?thesis
  proof cases
    case 1
    show ?thesis unfolding fully_featured_resolv_def unambig_same [OF 1] unambig_same [OF 1(2,1)]
      by (cases "a AND 0x07" "b AND 0x07" rule: linorder_cases) (use 1 unambig_same [OF 1] in \<open>simp_all only: simp_thms if_True if_False less_irrefl less_not_sym less_imp_neq less_imp_neq [symmetric] not_False_eq_True\<close>)
  qed (simp_all only: fully_featured_resolv_def simp_thms if_True if_False widen_commutes)
qed

lemma resolve_commutes: "\<not> (is_hiz a \<and> is_hiz b) \<Longrightarrow> resolve_scalar a b = resolve_scalar b a"
  using fully_featured_commutes [of a b] by (auto simp: resolve_scalar_def)

lemma is_hiz_strengths: "is_hiz v \<Longrightarrow> scalar_value v = BIT4_Z \<and> strength0 v = 0 \<and> strength1 v = 0"
proof -
  assume h: "is_hiz v"
  have "v AND 0x07 = (v AND 0x77) AND 0x07" "v AND 0x70 = (v AND 0x77) AND 0x70" by (simp_all add: and.assoc)
  then have "v AND 0x07 = 0" "v AND 0x70 = 0" using h by (simp_all add: is_hiz_def)
  then show ?thesis using h by (simp add: is_hiz_def scalar_value_def strength0_def strength1_def)
qed

lemma resolve_nothing: "is_hiz a \<Longrightarrow> is_hiz b \<Longrightarrow> is_hiz (resolve_scalar a b)"
  by (simp add: resolve_scalar_def)

section \<open>Vectors\<close>

definition v8_bits :: "vvp_vector8 \<Rightarrow> vvp_scalar list" where
  "v8_bits v = take (size8 v) (bytes8 v)"

definition wf8 :: "vvp_vector8 \<Rightarrow> bool" where
  "wf8 v \<longleftrightarrow> size8 v \<le> length (bytes8 v) \<and> (size8 v = 0 \<or> bytes8 v = v8_bits v @ replicate (inline8 - size8 v) 0)"

lemma v8_bits_length: "wf8 v \<Longrightarrow> length (v8_bits v) = size8 v"
  by (simp add: v8_bits_def wf8_def)

lemma v8_bits_nth: "i < size8 v \<Longrightarrow> v8_bits v ! i = bytes8 v ! i"
  by (simp add: v8_bits_def)

lemma vector8_new_bits: "wf8 (vector8_new n)" "v8_bits (vector8_new n) = replicate n 0" "size8 (vector8_new n) = n"
  by (auto simp: wf8_def v8_bits_def vector8_new_def inline8_def replicate_add [symmetric])

lemma v8_eeq_bits: "wf8 v \<Longrightarrow> wf8 w \<Longrightarrow> v8_eeq v w \<longleftrightarrow> v8_bits v = v8_bits w"
proof -
  assume w: "wf8 v" "wf8 w"
  have "v8_bits v = v8_bits w \<Longrightarrow> size8 v = size8 w" using v8_bits_length w by metis
  moreover have "size8 v = size8 w \<Longrightarrow> size8 v \<noteq> 0 \<Longrightarrow> bytes8 v = bytes8 w \<longleftrightarrow> v8_bits v = v8_bits w"
    using w unfolding wf8_def by (metis append_same_eq)
  ultimately show ?thesis by (auto simp: v8_eeq_def v8_bits_def)
qed

lemma v8_assign_bits: "wf8 w \<Longrightarrow> wf8 (v8_assign v w) \<and> v8_bits (v8_assign v w) = v8_bits w"
  by (auto simp: v8_assign_def wf8_def v8_bits_def)

lemma v8_set_bit_bits:
  assumes "wf8 v" "i < size8 v"
  shows "\<exists>w. v8_set_bit v i b = Some w \<and> wf8 w \<and> size8 w = size8 v \<and> v8_bits w = (v8_bits v)[i := b]"
proof -
  have "bytes8 v = v8_bits v @ replicate (inline8 - size8 v) 0" "length (v8_bits v) = size8 v" using assms by (auto simp: wf8_def v8_bits_def)
  then have "(bytes8 v)[i := b] = (v8_bits v)[i := b] @ replicate (inline8 - size8 v) 0" using assms(2) by (metis list_update_append1)
  then show ?thesis using assms by (auto simp: v8_set_bit_def wf8_def v8_bits_def take_update_swap)
qed

lemma v8_write_bits:
  "\<lbrakk>wf8 v; idx + n \<le> size8 v; \<And>i. idx \<le> i \<Longrightarrow> i < idx + n \<Longrightarrow> f i = Some (g i)\<rbrakk> \<Longrightarrow>
   \<exists>w. v8_write f idx n v = Some w \<and> wf8 w \<and> size8 w = size8 v \<and> v8_bits w = take idx (v8_bits v) @ map g [idx..<idx + n] @ drop (idx + n) (v8_bits v)"
proof (induction n arbitrary: idx v)
  case (Suc n)
  obtain u where u: "v8_set_bit v idx (g idx) = Some u" "wf8 u" "size8 u = size8 v" "v8_bits u = (v8_bits v)[idx := g idx]"
    using v8_set_bit_bits [OF Suc.prems(1), of idx "g idx"] Suc.prems(2) by auto
  obtain w where w: "v8_write f (Suc idx) n u = Some w" "wf8 w" "size8 w = size8 u"
      "v8_bits w = take (Suc idx) (v8_bits u) @ map g [Suc idx..<Suc idx + n] @ drop (Suc idx + n) (v8_bits u)"
    using Suc.IH [OF u(2), of "Suc idx"] Suc.prems(2,3) u(3) by auto
  have l: "idx < length (v8_bits v)" using v8_bits_length [OF Suc.prems(1)] Suc.prems(2) by simp
  have "v8_bits w = take idx (v8_bits v) @ map g [idx..<idx + Suc n] @ drop (idx + Suc n) (v8_bits v)"
    using w(4) u(4) l take_Suc_update [OF l, of "g idx"] by (simp add: upt_conv_Cons del: upt_Suc)
  then show ?case using Suc.prems(3) u w by auto
qed auto

lemma v8_value_bits: "i < size8 v \<Longrightarrow> v8_value v i = Some (v8_bits v ! i)"
  by (simp add: v8_value_def v8_bits_def)

lemma resolve_vec8_bits:
  assumes "wf8 a" "wf8 b" "size8 a = size8 b"
  shows "\<exists>w. resolve_vec8 a b = Some w \<and> wf8 w \<and> v8_bits w = map2 resolve_scalar (v8_bits a) (v8_bits b)"
proof -
  let ?g = "\<lambda>i. resolve_scalar (v8_bits a ! i) (v8_bits b ! i)"
  obtain w where w: "resolve_vec8 a b = Some w" "wf8 w" "v8_bits w = map ?g [0..<size8 a]"
    using v8_write_bits [OF vector8_new_bits(1), of 0 "size8 a" "size8 a" "\<lambda>idx. do { x \<leftarrow> v8_value a idx; y \<leftarrow> v8_value b idx; Some (resolve_scalar x y) }" ?g] assms(3)
    by (auto simp: resolve_vec8_def vector8_new_bits v8_value_bits)
  have "v8_bits w = map2 resolve_scalar (v8_bits a) (v8_bits b)"
    unfolding w(3) using v8_bits_length [OF assms(1)] v8_bits_length [OF assms(2)] assms(3) by (intro nth_equalityI) simp_all
  then show ?thesis using w(1,2) by blast
qed

lemma scalars_make_map:
  assumes "str0 \<le> 7" "str1 \<le> 7"
  shows "scalars_make bs str0 str1 = Some (map (\<lambda>b. the (scalar_make b str0 str1)) bs)"
  using assms by (induction bs) (auto simp: scalar_make_def)

lemma vector8_from4_bits:
  assumes "str0 \<le> 7" "str1 \<le> 7"
  shows "\<exists>w. vector8_from4 v str0 str1 = Some w \<and> wf8 w \<and> v8_bits w = map (\<lambda>b. the (scalar_make b str0 str1)) (vec_bits v)"
  unfolding vector8_from4_def vec_bits_def [symmetric] scalars_make_map [OF assms]
  by (auto simp: wf8_def v8_bits_def inline8_def vec_bits_def)

lemma reduce4_loop_bits:
  "\<lbrakk>idx + n = size8 v; wf_vec out; vsize out = size8 v; wf8 v\<rbrakk> \<Longrightarrow>
   \<exists>w. reduce4_loop v idx n out = Some w \<and> wf_vec w \<and> vsize w = size8 v \<and> vec_bits w = take idx (vec_bits out) @ map scalar_value (drop idx (v8_bits v))"
proof (induction n arbitrary: idx out)
  case 0
  then show ?case using v8_bits_length [OF 0(4)] by simp
next
  case (Suc n)
  have l: "idx < length (v8_bits v)" "idx < length (vec_bits out)" using v8_bits_length [OF Suc.prems(4)] Suc.prems(1,3) by auto
  obtain u where u: "v4_set_bit out idx (scalar_value (v8_bits v ! idx)) = Some u" "wf_vec u" "vec_bits u = (vec_bits out)[idx := scalar_value (v8_bits v ! idx)]"
    using v4_set_bit_bits [OF Suc.prems(2), of idx "scalar_value (v8_bits v ! idx)"] l(2) by auto
  have "vsize u = size8 v" using u(3) Suc.prems(3) by (metis length_list_update vec_bits_length)
  then obtain w where w: "reduce4_loop v (Suc idx) n u = Some w" "wf_vec w" "vsize w = size8 v"
      "vec_bits w = take (Suc idx) (vec_bits u) @ map scalar_value (drop (Suc idx) (v8_bits v))"
    using Suc.IH [of "Suc idx" u] Suc.prems u(2) by auto
  have "vec_bits w = take idx (vec_bits out) @ map scalar_value (drop idx (v8_bits v))"
    using w(4) u(3) l take_Suc_update [OF l(2), of "scalar_value (v8_bits v ! idx)"] by (simp add: Cons_nth_drop_Suc [symmetric])
  then show ?case using u w l v8_bits_length [OF Suc.prems(4)] by (auto simp: v8_value_bits)
qed

lemma reduce4_bits: "wf8 v \<Longrightarrow> \<exists>w. reduce4 v = Some w \<and> wf_vec w \<and> vec_bits w = map scalar_value (v8_bits v)"
  using reduce4_loop_bits [of 0 "size8 v" v "vector4_fill (size8 v) BIT4_X"] by (auto simp: reduce4_def vector4_fill_def)

lemma write_part_bits:
  assumes "wf8 v" "wf8 src" "at + n \<le> size8 v" "off + n \<le> size8 src"
  shows "\<exists>w. v8_write (\<lambda>i. v8_value src (i - at + off)) at n v = Some w \<and> wf8 w \<and> size8 w = size8 v \<and>
    v8_bits w = take at (v8_bits v) @ take n (drop off (v8_bits src)) @ drop (at + n) (v8_bits v)"
proof -
  have "map (\<lambda>i. v8_bits src ! (i - at + off)) [at..<at + n] = take n (drop off (v8_bits src))"
    using v8_bits_length [OF assms(2)] assms(4) by (intro nth_equalityI) (auto simp: add.commute)
  then show ?thesis
    using v8_write_bits [OF assms(1,3), of "\<lambda>i. v8_value src (i - at + off)" "\<lambda>i. v8_bits src ! (i - at + off)"] assms(4)
    by (auto simp: v8_value_bits)
qed

text \<open>A part select reads nothing outside the vector, an expansion drops what does not fit.\<close>

lemma v8_parts_bits:
  assumes "wf8 v"
  shows "\<exists>w. v8_subvalue v base wid = Some w \<and> wf8 w \<and>
      v8_bits w = take wid (drop base (v8_bits v)) @ replicate (wid - min wid (size8 v - base)) scalar_hiz"
    and "wf8 that \<Longrightarrow> base + size8 that \<le> size8 v \<Longrightarrow> \<exists>w. v8_set_vec v base that = Some w \<and> wf8 w \<and>
      v8_bits w = take base (v8_bits v) @ v8_bits that @ drop (base + size8 that) (v8_bits v)"
    and "off < wid \<Longrightarrow> \<exists>w. v8_part_expand v wid off = Some w \<and> wf8 w \<and>
      v8_bits w = take wid (replicate off scalar_hiz @ v8_bits v @ replicate (wid - (off + size8 v)) scalar_hiz)"
proof -
  note l = v8_bits_length [OF assms]
  let ?n = "min wid (size8 v - base)"
  have "take ?n (drop base (v8_bits v)) = take wid (drop base (v8_bits v))" using l by (simp add: min_def)
  then show "\<exists>w. v8_subvalue v base wid = Some w \<and> wf8 w \<and>
      v8_bits w = take wid (drop base (v8_bits v)) @ replicate (wid - ?n) scalar_hiz"
    using write_part_bits [OF vector8_new_bits(1) assms, of 0 ?n wid base]
    by (cases "base \<le> size8 v") (force simp: v8_subvalue_def vector8_new_bits scalar_hiz_def add.commute)+
  show "\<exists>w. v8_set_vec v base that = Some w \<and> wf8 w \<and> v8_bits w = take base (v8_bits v) @ v8_bits that @ drop (base + size8 that) (v8_bits v)"
    if "wf8 that" "base + size8 that \<le> size8 v"
    using write_part_bits [OF assms that(1,2), of 0] v8_bits_length [OF that(1)] that(2) by (auto simp: v8_set_vec_def)
  show "\<exists>w. v8_part_expand v wid off = Some w \<and> wf8 w \<and>
      v8_bits w = take wid (replicate off scalar_hiz @ v8_bits v @ replicate (wid - (off + size8 v)) scalar_hiz)" if "off < wid"
    using write_part_bits [OF vector8_new_bits(1) assms, of off "min (wid - off) (size8 v)" wid 0] that l
    by (cases "wid - off \<le> size8 v") (force simp: v8_part_expand_def vector8_new_bits scalar_hiz_def min_def)+
qed

end
