(* ===== verification/Resolv.thy ===== *)
theory Resolv
  imports Vvp_Resolve
begin

text \<open>
  The resolver nodes of \<^verbatim>\<open>vvp/resolv.cc\<close>: a net with several drivers keeps the value of each of them and
  the resolved values of a tree with four branches per node, flattened into one array. A new value of a
  driver is resolved up the tree until nothing changes any more. \<open>resolv_tri\<close> resolves by strength and
  adds a pull, \<open>resolv_wired_logic\<close> is the wired and and the wired or.
\<close>

section \<open>The tree\<close>

text \<open>The two classes share the walk, which they spell out for their two types of vectors: it is written
  here once, over the size, the comparison, the assignment and the resolution of a type.\<close>

record 'v vec_ops =
  op_size :: "'v \<Rightarrow> nat"
  op_eeq :: "'v \<Rightarrow> 'v \<Rightarrow> bool"
  op_assign :: "'v \<Rightarrow> 'v \<Rightarrow> 'v"
  op_resolve :: "'v \<Rightarrow> 'v \<Rightarrow> 'v option"

fun resolv_nodes :: "nat \<Rightarrow> nat \<Rightarrow> nat" where
  "resolv_nodes nports nnodes = (if nports > 4 then resolv_nodes ((nports + 3) div 4) (nnodes + (nports + 3) div 4) else nnodes)"

declare resolv_nodes.simps [simp del]

definition resolv_node_count :: "nat \<Rightarrow> nat" where
  "resolv_node_count nports = (let nnodes = resolv_nodes nports nports in if nnodes > 1 then nnodes + 1 else nnodes)"

fun resolv_group :: "'v vec_ops \<Rightarrow> 'v \<Rightarrow> 'v list \<Rightarrow> 'v option" where
  "resolv_group k out [] = Some out"
| "resolv_group k out (v # vs) =
     (if op_size k v = 0 then resolv_group k out vs
      else if op_size k out = 0 then resolv_group k v vs
      else do { out \<leftarrow> op_resolve k out v; resolv_group k out vs })"

text \<open>The walk from the node \<open>port\<close> of the level at \<open>base\<close>: the position of the output when it is to be sent.\<close>

function resolv_walk :: "'v vec_ops \<Rightarrow> nat \<Rightarrow> nat \<Rightarrow> nat \<Rightarrow> 'v list \<Rightarrow> ('v list \<times> nat option) option" where
  "resolv_walk k base span port val =
     (if span > 1
      then do {
        let next_base = base + span;
        let ip = base + 4 * (port div 4);
        let oq = next_base + port div 4;
        let ll = min (ip + 4) next_base;
        assert_opt (ip < length val \<and> ll \<le> length val \<and> oq < length val);
        out \<leftarrow> resolv_group k (val ! ip) (take (ll - Suc ip) (drop (Suc ip) val));
        (if op_eeq k (val ! oq) out then Some (val, None)
         else resolv_walk k next_base ((span + 3) div 4) (port div 4) (val[oq := op_assign k (val ! oq) out])) }
      else Some (val, Some base))"
  by pat_completeness auto
termination
  by (relation "measure (\<lambda>(k, base, span, port, val). span)") auto

declare resolv_walk.simps [simp del]

definition resolv_recv :: "'v vec_ops \<Rightarrow> nat \<Rightarrow> 'v list \<Rightarrow> nat \<Rightarrow> 'v \<Rightarrow> ('v list \<times> nat option) option" where
  "resolv_recv k nports val port drv = do {
     assert_opt (port < nports);
     assert_opt (port < length val);
     (if op_eeq k (val ! port) drv then Some (val, None)
      else resolv_walk k 0 nports port (val[port := op_assign k (val ! port) drv])) }"

section \<open>Resolution by strength\<close>

record resolv_tri =
  tri_nports :: nat
  hiz_value :: vvp_scalar
  tri_val :: "vvp_vector8 list"

definition vec8_ops :: "vvp_vector8 vec_ops" where
  "vec8_ops = \<lparr>op_size = size8, op_eeq = v8_eeq, op_assign = v8_assign, op_resolve = resolve_vec8\<rparr>"

definition resolv_tri_new :: "nat \<Rightarrow> vvp_scalar \<Rightarrow> resolv_tri" where
  "resolv_tri_new nports hiz = \<lparr>tri_nports = nports, hiz_value = hiz, tri_val = replicate (resolv_node_count nports) (vector8_new 0)\<rparr>"

definition pull_vec8 :: "vvp_scalar \<Rightarrow> vvp_vector8 \<Rightarrow> vvp_vector8 option" where
  "pull_vec8 hiz v = (if is_hiz hiz then Some v
     else v8_write (\<lambda>idx. do { b \<leftarrow> v8_value v idx; Some (resolve_scalar b hiz) }) 0 (size8 v) v)"

text \<open>The second result is the value that is sent to the net.\<close>

definition tri_recv_vec8 :: "resolv_tri \<Rightarrow> nat \<Rightarrow> vvp_vector8 \<Rightarrow> (resolv_tri \<times> vvp_vector8 option) option" where
  "tri_recv_vec8 r port drv = do {
     (val, res) \<leftarrow> resolv_recv vec8_ops (tri_nports r) (tri_val r) port drv;
     (case res of
        None \<Rightarrow> Some (r\<lparr>tri_val := val\<rparr>, None)
      | Some base \<Rightarrow> do {
          assert_opt (base < length val);
          v \<leftarrow> pull_vec8 (hiz_value r) (val ! base);
          Some (r\<lparr>tri_val := val[base := v]\<rparr>, Some v) }) }"

definition tri_recv_vec4 :: "resolv_tri \<Rightarrow> nat \<Rightarrow> vvp_vector4 \<Rightarrow> (resolv_tri \<times> vvp_vector8 option) option" where
  "tri_recv_vec4 r port drv = do { v \<leftarrow> vector8_from4 drv 6 6; tri_recv_vec8 r port v }"

definition update_driver_counts :: "vvp_bit4 \<Rightarrow> nat \<times> nat \<times> nat \<Rightarrow> nat \<times> nat \<times> nat" where
  "update_driver_counts b counts = (case counts of (c0, c1, c2) \<Rightarrow>
     (case b of BIT4_0 \<Rightarrow> (c0 + 1, c1, c2) | BIT4_1 \<Rightarrow> (c0, c1 + 1, c2) | BIT4_X \<Rightarrow> (c0, c1, c2 + 1) | BIT4_Z \<Rightarrow> (c0, c1, c2)))"

fun tri_count :: "nat \<Rightarrow> vvp_vector8 list \<Rightarrow> nat \<times> nat \<times> nat \<Rightarrow> (nat \<times> nat \<times> nat) option" where
  "tri_count idx [] counts = Some counts"
| "tri_count idx (v # vs) counts =
     (if size8 v = 0 then tri_count idx vs counts
      else do { s \<leftarrow> v8_value v idx; tri_count idx vs (update_driver_counts (scalar_value s) counts) })"

definition tri_count_drivers :: "resolv_tri \<Rightarrow> nat \<Rightarrow> nat \<times> nat \<times> nat \<Rightarrow> (nat \<times> nat \<times> nat) option" where
  "tri_count_drivers r idx counts = tri_count idx (take (tri_nports r) (tri_val r)) counts"

section \<open>Wired logic\<close>

record resolv_wired =
  wired_nports :: nat
  wired_val :: "vvp_vector4 list"

definition triand_bit :: "vvp_bit4 \<Rightarrow> vvp_bit4 \<Rightarrow> vvp_bit4" where
  "triand_bit abit bbit =
     (if abit = BIT4_Z then bbit else if bbit = BIT4_Z then abit
      else if abit = BIT4_0 \<or> bbit = BIT4_0 then BIT4_0
      else if abit = BIT4_X \<or> bbit = BIT4_X then BIT4_X
      else BIT4_1)"

definition trior_bit :: "vvp_bit4 \<Rightarrow> vvp_bit4 \<Rightarrow> vvp_bit4" where
  "trior_bit abit bbit =
     (if abit = BIT4_Z then bbit else if bbit = BIT4_Z then abit
      else if abit = BIT4_1 \<or> bbit = BIT4_1 then BIT4_1
      else if abit = BIT4_X \<or> bbit = BIT4_X then BIT4_X
      else BIT4_0)"

fun wired_loop :: "(vvp_bit4 \<Rightarrow> vvp_bit4 \<Rightarrow> vvp_bit4) \<Rightarrow> vvp_vector4 \<Rightarrow> vvp_vector4 \<Rightarrow> nat \<Rightarrow> nat \<Rightarrow> vvp_vector4 \<Rightarrow> vvp_vector4 option" where
  "wired_loop f a b idx 0 out = Some out"
| "wired_loop f a b idx (Suc n) out = do {
     out \<leftarrow> v4_set_bit out idx (f (v4_value a idx) (v4_value b idx));
     wired_loop f a b (Suc idx) n out }"

definition wired_logic_math :: "(vvp_bit4 \<Rightarrow> vvp_bit4 \<Rightarrow> vvp_bit4) \<Rightarrow> vvp_vector4 \<Rightarrow> vvp_vector4 \<Rightarrow> vvp_vector4 option" where
  "wired_logic_math f a b = do {
     assert_opt (vsize a = vsize b);
     wired_loop f a b 0 (vsize a) (vector4_fill (vsize a) BIT4_X) }"

definition vec4_ops :: "(vvp_bit4 \<Rightarrow> vvp_bit4 \<Rightarrow> vvp_bit4) \<Rightarrow> vvp_vector4 vec_ops" where
  "vec4_ops f = \<lparr>op_size = vsize, op_eeq = eeq, op_assign = (\<lambda>v that. copy_from that), op_resolve = wired_logic_math f\<rparr>"

definition resolv_wired_new :: "nat \<Rightarrow> resolv_wired" where
  "resolv_wired_new nports = \<lparr>wired_nports = nports, wired_val = replicate (resolv_node_count nports) (vector4_fill 0 BIT4_X)\<rparr>"

definition wired_recv_vec4 :: "(vvp_bit4 \<Rightarrow> vvp_bit4 \<Rightarrow> vvp_bit4) \<Rightarrow> resolv_wired \<Rightarrow> nat \<Rightarrow> vvp_vector4 \<Rightarrow> (resolv_wired \<times> vvp_vector4 option) option" where
  "wired_recv_vec4 f r port drv = do {
     (val, res) \<leftarrow> resolv_recv (vec4_ops f) (wired_nports r) (wired_val r) port drv;
     (case res of
        None \<Rightarrow> Some (r\<lparr>wired_val := val\<rparr>, None)
      | Some base \<Rightarrow> do { assert_opt (base < length val); Some (r\<lparr>wired_val := val\<rparr>, Some (val ! base)) }) }"

definition wired_recv_vec8 :: "(vvp_bit4 \<Rightarrow> vvp_bit4 \<Rightarrow> vvp_bit4) \<Rightarrow> resolv_wired \<Rightarrow> nat \<Rightarrow> vvp_vector8 \<Rightarrow> (resolv_wired \<times> vvp_vector4 option) option" where
  "wired_recv_vec8 f r port drv = do { v \<leftarrow> reduce4 drv; wired_recv_vec4 f r port v }"

fun wired_count :: "nat \<Rightarrow> vvp_vector4 list \<Rightarrow> nat \<times> nat \<times> nat \<Rightarrow> nat \<times> nat \<times> nat" where
  "wired_count idx [] counts = counts"
| "wired_count idx (v # vs) counts =
     (if vsize v = 0 then wired_count idx vs counts
      else wired_count idx vs (update_driver_counts (v4_value v idx) counts))"

definition wired_count_drivers :: "resolv_wired \<Rightarrow> nat \<Rightarrow> nat \<times> nat \<times> nat \<Rightarrow> nat \<times> nat \<times> nat" where
  "wired_count_drivers r idx counts = wired_count idx (take (wired_nports r) (wired_val r)) counts"

section \<open>Part values\<close>

text \<open>A part is widened with undriven bits before it is received.\<close>

fun part_bits4 :: "vvp_vector4 \<Rightarrow> nat \<Rightarrow> nat \<Rightarrow> nat \<Rightarrow> vvp_vector4 \<Rightarrow> vvp_vector4 option" where
  "part_bits4 drv base idx 0 res = Some res"
| "part_bits4 drv base idx (Suc n) res = do {
     res \<leftarrow> v4_set_bit res (idx + base) (v4_value drv idx);
     part_bits4 drv base (Suc idx) n res }"

fun fill_z4 :: "nat \<Rightarrow> nat \<Rightarrow> vvp_vector4 \<Rightarrow> vvp_vector4 option" where
  "fill_z4 idx 0 res = Some res"
| "fill_z4 idx (Suc n) res = do { res \<leftarrow> v4_set_bit res idx BIT4_Z; fill_z4 (Suc idx) n res }"

definition widen_part4 :: "vvp_vector4 \<Rightarrow> nat \<Rightarrow> nat \<Rightarrow> vvp_vector4 option" where
  "widen_part4 drv base vwid = do {
     let wid = vsize drv;
     res \<leftarrow> fill_z4 0 base (vector4_fill vwid BIT4_X);
     res \<leftarrow> part_bits4 drv base 0 (min wid (vwid - base)) res;
     fill_z4 (base + wid) (vwid - (base + wid)) res }"

definition widen_part8 :: "vvp_vector8 \<Rightarrow> nat \<Rightarrow> nat \<Rightarrow> vvp_vector8 option" where
  "widen_part8 drv base vwid = do {
     let wid = size8 drv;
     res \<leftarrow> v8_write (\<lambda>idx. Some scalar_hiz) 0 base (vector8_new vwid);
     res \<leftarrow> v8_write (\<lambda>idx. v8_value drv (idx - base)) base (min wid (vwid - base)) res;
     v8_write (\<lambda>idx. Some scalar_hiz) (base + wid) (vwid - (base + wid)) res }"

definition tri_recv_vec4_pv :: "resolv_tri \<Rightarrow> nat \<Rightarrow> vvp_vector4 \<Rightarrow> nat \<Rightarrow> nat \<Rightarrow> (resolv_tri \<times> vvp_vector8 option) option" where
  "tri_recv_vec4_pv r port drv base vwid = do { res \<leftarrow> widen_part4 drv base vwid; tri_recv_vec4 r port res }"

definition tri_recv_vec8_pv :: "resolv_tri \<Rightarrow> nat \<Rightarrow> vvp_vector8 \<Rightarrow> nat \<Rightarrow> nat \<Rightarrow> (resolv_tri \<times> vvp_vector8 option) option" where
  "tri_recv_vec8_pv r port drv base vwid = do { res \<leftarrow> widen_part8 drv base vwid; tri_recv_vec8 r port res }"

definition wired_recv_vec4_pv ::
  "(vvp_bit4 \<Rightarrow> vvp_bit4 \<Rightarrow> vvp_bit4) \<Rightarrow> resolv_wired \<Rightarrow> nat \<Rightarrow> vvp_vector4 \<Rightarrow> nat \<Rightarrow> nat \<Rightarrow> (resolv_wired \<times> vvp_vector4 option) option" where
  "wired_recv_vec4_pv f r port drv base vwid = do { res \<leftarrow> widen_part4 drv base vwid; wired_recv_vec4 f r port res }"

definition wired_recv_vec8_pv ::
  "(vvp_bit4 \<Rightarrow> vvp_bit4 \<Rightarrow> vvp_bit4) \<Rightarrow> resolv_wired \<Rightarrow> nat \<Rightarrow> vvp_vector8 \<Rightarrow> nat \<Rightarrow> nat \<Rightarrow> (resolv_wired \<times> vvp_vector4 option) option" where
  "wired_recv_vec8_pv f r port drv base vwid = do { res \<leftarrow> widen_part8 drv base vwid; wired_recv_vec8 f r port res }"

end
