(* ===== verification/Resolv_Tree.thy ===== *)
theory Resolv_Tree
  imports Resolv
begin

text \<open>
  The tree of a resolver: after every value that is received, each node holds the resolution of its four
  branches, and the output that of all the drivers, in the order of the ports, with the pull. Locale
  \<open>vec_resolver\<close> is what the walk needs of a type of vectors and its resolution.
\<close>

section \<open>Lists of bits\<close>

text \<open>An empty list is a driver that has sent nothing yet.\<close>

definition comb :: "('c \<Rightarrow> 'c \<Rightarrow> 'c) \<Rightarrow> 'c list \<Rightarrow> 'c list \<Rightarrow> 'c list" where
  "comb f x y = (if y = [] then x else if x = [] then y else map2 f x y)"

definition vec_fits :: "('c \<Rightarrow> bool) \<Rightarrow> nat \<Rightarrow> 'c list \<Rightarrow> bool" where
  "vec_fits good w x \<longleftrightarrow> x = [] \<or> (length x = w \<and> list_all good x)"

definition branch :: "nat \<Rightarrow> nat \<Rightarrow> 'a list \<Rightarrow> nat \<Rightarrow> 'a list" where
  "branch base span B j = take 4 (drop (4 * j) (take span (drop base B)))"

lemma groups_concat: "concat (map (\<lambda>j. take 4 (drop (4 * j) xs)) [0..<m]) = take (4 * m) xs"
proof (induction m)
  case (Suc m)
  have "4 * Suc m = 4 * m + 4" by simp
  then have "take (4 * Suc m) xs = take (4 * m) xs @ take 4 (drop (4 * m) xs)" by (simp only: take_add)
  then show ?case using Suc by simp
qed simp

lemma branch_map: "branch base span (map g B) j = map g (branch base span B j)"
  by (simp add: branch_def take_map drop_map)

lemma branch_cong: "\<lbrakk>length B' = length B; \<And>i. base \<le> i \<Longrightarrow> i < base + span \<Longrightarrow> B' ! i = B ! i\<rbrakk> \<Longrightarrow> branch base span B' j = branch base span B j"
proof -
  assume a: "length B' = length B" "\<And>i. base \<le> i \<Longrightarrow> i < base + span \<Longrightarrow> B' ! i = B ! i"
  have "take span (drop base B') = take span (drop base B)" using a by (intro nth_equalityI) auto
  then show ?thesis by (simp add: branch_def)
qed

lemma branch_update: "i div 4 \<noteq> j \<Longrightarrow> branch base span (B[base + i := x]) j = branch base span B j"
proof (rule nth_equalityI)
  fix q assume ij: "i div 4 \<noteq> j" and q: "q < length (branch base span (B[base + i := x]) j)"
  then have "q < 4" by (simp add: branch_def)
  then have "4 * j + q \<noteq> i" using ij by auto
  moreover have "4 * j \<le> length (take span (drop base B))" "base \<le> length B" "4 * j + q < span" using q by (auto simp: branch_def)
  ultimately show "branch base span (B[base + i := x]) j ! q = branch base span B j ! q" using \<open>q < 4\<close> by (simp add: branch_def)
qed (simp add: branch_def)

function tree_root :: "nat \<Rightarrow> nat \<Rightarrow> nat" where
  "tree_root base span = (if span > 1 then tree_root (base + span) ((span + 3) div 4) else base)"
  by pat_completeness auto
termination
  by (relation "measure (\<lambda>(base, span). span)") auto

declare tree_root.simps [simp del]

lemma tree_root_ge: "span > 1 \<Longrightarrow> base + span \<le> tree_root base span"
proof (induction base span rule: tree_root.induct)
  case (1 base span)
  show ?case
  proof (cases "(span + 3) div 4 > 1")
    case True
    then show ?thesis using 1 by (simp add: tree_root.simps [of base span])
  next
    case False
    then show ?thesis using 1(2) by (simp add: tree_root.simps [of base span] tree_root.simps [of "base + span"])
  qed
qed

lemma root_count: "n > 0 \<Longrightarrow> tree_root a n + 1 = resolv_nodes n (a + n) + (if n > 1 then 1 else 0)"
proof (induction a n rule: tree_root.induct)
  case (1 a n)
  show ?case
  proof (cases "n > 4")
    case True
    then have "(n + 3) div 4 > 1" "n > 1" by auto
    then show ?thesis using 1(1) True by (simp add: tree_root.simps [of a n] resolv_nodes.simps [of n])
  next
    case False
    then have "n > 1 \<Longrightarrow> (n + 3) div 4 = 1" by auto
    then show ?thesis using False 1(2) by (cases "n > 1") (simp_all add: tree_root.simps [of a n] tree_root.simps [of "a + n" "Suc 0"] resolv_nodes.simps [of n])
  qed
qed

lemma root_node: "n > 0 \<Longrightarrow> resolv_node_count n = tree_root 0 n + 1"
proof -
  assume n: "n > 0"
  have "resolv_nodes m k \<ge> k" for m k by (induction m k rule: resolv_nodes.induct) (subst resolv_nodes.simps, auto)
  then have "n > 1 \<Longrightarrow> resolv_nodes n n > 1" by (metis le_less_trans not_le order.strict_trans2)
  moreover have "\<not> n > 1 \<Longrightarrow> resolv_nodes n n = n" by (simp add: resolv_nodes.simps [of n])
  ultimately show ?thesis using root_count [OF n, of 0] n by (cases "n > 1") (auto simp: resolv_node_count_def Let_def)
qed

section \<open>Trees\<close>

definition node_value :: "('c \<Rightarrow> 'c \<Rightarrow> 'c) \<Rightarrow> ('c \<Rightarrow> 'c) \<Rightarrow> nat \<Rightarrow> nat \<Rightarrow> 'c list list \<Rightarrow> nat \<Rightarrow> 'c list" where
  "node_value f p base span B j = (let x = foldl (comb f) [] (branch base span B j) in if span \<le> 4 then map p x else x)"

function tree_ok :: "('c \<Rightarrow> 'c \<Rightarrow> 'c) \<Rightarrow> ('c \<Rightarrow> 'c) \<Rightarrow> nat \<Rightarrow> nat \<Rightarrow> 'c list list \<Rightarrow> bool" where
  "tree_ok f p base span B = (span > 1 \<longrightarrow>
     (\<forall>j < (span + 3) div 4. B ! (base + span + j) = node_value f p base span B j) \<and> tree_ok f p (base + span) ((span + 3) div 4) B)"
  by pat_completeness auto
termination
  by (relation "measure (\<lambda>(f, p, base, span, B). span)") auto

declare tree_ok.simps [simp del]

text \<open>A tree whose nodes above node \<open>e\<close> of the level at \<open>base\<close> may be out of date.\<close>

definition tree_but :: "('c \<Rightarrow> 'c \<Rightarrow> 'c) \<Rightarrow> ('c \<Rightarrow> 'c) \<Rightarrow> nat \<Rightarrow> nat \<Rightarrow> nat \<Rightarrow> 'c list list \<Rightarrow> bool" where
  "tree_but f p base span e B \<longleftrightarrow> (span > 1 \<longrightarrow>
     (\<forall>j < (span + 3) div 4. j \<noteq> e \<longrightarrow> B ! (base + span + j) = node_value f p base span B j) \<and> tree_ok f p (base + span) ((span + 3) div 4) B)"

lemma node_value_cong:
  "\<lbrakk>length B' = length B; \<And>i. base \<le> i \<Longrightarrow> i < base + span \<Longrightarrow> B' ! i = B ! i\<rbrakk> \<Longrightarrow> node_value f p base span B' j = node_value f p base span B j"
  unfolding node_value_def using branch_cong [of B' B base span j] by simp

lemma tree_ok_cong:
  "\<lbrakk>tree_ok f p base span B; length B' = length B; \<And>i. base \<le> i \<Longrightarrow> B' ! i = B ! i\<rbrakk> \<Longrightarrow> tree_ok f p base span B'"
proof (induction f p base span B rule: tree_ok.induct)
  case (1 f p base span B)
  show ?case
  proof (cases "span > 1")
    case True
    have "node_value f p base span B' j = node_value f p base span B j" for j by (rule node_value_cong) (use 1 in auto)
    moreover have "tree_ok f p (base + span) ((span + 3) div 4) B'" by (rule 1(1)) (use 1 True tree_ok.simps [of f p base span B] in auto)
    ultimately show ?thesis using 1 True tree_ok.simps [of f p base span B] tree_ok.simps [of f p base span B'] by auto
  qed (simp add: tree_ok.simps [of f p base span])
qed

lemma tree_but_update:
  assumes "tree_ok f p base span B" "i < span"
  shows "tree_but f p base span (i div 4) (B[base + i := x])"
proof (cases "span > 1")
  case True
  have "tree_ok f p (base + span) ((span + 3) div 4) (B[base + i := x])"
    by (rule tree_ok_cong [where B = B]) (use assms True tree_ok.simps [of f p base span B] in auto)
  moreover have "node_value f p base span (B[base + i := x]) j = node_value f p base span B j" if "j \<noteq> i div 4" for j
    using branch_update [of i j base span B x] that by (simp add: node_value_def)
  ultimately show ?thesis using assms True tree_ok.simps [of f p base span B] by (auto simp: tree_but_def)
qed (simp add: tree_but_def)

lemma tree_ok_empty: "set B \<subseteq> {[]} \<Longrightarrow> tree_root base span < length B \<Longrightarrow> tree_ok f p base span B"
proof (induction f p base span B rule: tree_ok.induct)
  case (1 f p base span B)
  show ?case
  proof (cases "span > 1")
    case True
    have "set xs \<subseteq> {[]} \<Longrightarrow> foldl (comb f) [] xs = []" for xs by (induction xs) (auto simp: comb_def)
    moreover have "set (branch base span B j) \<subseteq> {[]}" for j
      using 1(2) by (auto simp: branch_def dest!: in_set_takeD in_set_dropD)
    ultimately have v: "node_value f p base span B j = []" for j by (simp add: node_value_def)
    have r: "tree_root (base + span) ((span + 3) div 4) < length B" using 1(3) True by (simp add: tree_root.simps [of base span])
    have "base + span + j < length B" if "j < (span + 3) div 4" for j
      using that r tree_root_ge [of "(span + 3) div 4" "base + span"] by (cases "(span + 3) div 4 > 1") (auto simp: tree_root.simps [of "base + span"])
    then have "B ! (base + span + j) = []" if "j < (span + 3) div 4" for j using that 1(2) nth_mem by blast
    then show ?thesis using 1 True r v tree_ok.simps [of f p base span B] by auto
  qed (simp add: tree_ok.simps [of f p base span])
qed

text \<open>The positions that the walk visits.\<close>

lemma walk_positions:
  assumes "span > 1" "port < span" "tree_root base span < n"
  shows "port div 4 < (span + 3) div 4" "4 * (port div 4) < span" "tree_root base span = tree_root (base + span) ((span + 3) div 4)"
    "span > 4 \<Longrightarrow> base + span + (span + 3) div 4 \<le> tree_root base span"
    "span \<le> 4 \<Longrightarrow> tree_root base span = base + span \<and> port div 4 = 0 \<and> (span + 3) div 4 = 1"
    "i < base + span + (span + 3) div 4 \<Longrightarrow> i < n"
proof -
  show root: "tree_root base span = tree_root (base + span) ((span + 3) div 4)" using assms(1) by (simp add: tree_root.simps [of base span])
  have up: "base + span + (span + 3) div 4 \<le> tree_root base span" if "span > 4"
    using that tree_root_ge [of "(span + 3) div 4" "base + span"] root by simp
  have one: "tree_root base span = base + span \<and> port div 4 = 0 \<and> (span + 3) div 4 = 1" if "span \<le> 4"
  proof -
    have "(span + 3) div 4 = 1" using that assms(1) by auto
    then show ?thesis using root that assms(2) by (simp add: tree_root.simps [of "base + span"])
  qed
  show "span > 4 \<Longrightarrow> base + span + (span + 3) div 4 \<le> tree_root base span" by (rule up)
  show "span \<le> 4 \<Longrightarrow> tree_root base span = base + span \<and> port div 4 = 0 \<and> (span + 3) div 4 = 1" by (rule one)
  show "i < base + span + (span + 3) div 4 \<Longrightarrow> i < n" using up one assms(3) by (cases "span > 4") auto
qed (use assms(2) in auto)

text \<open>A tree in which the node that was out of date has its value.\<close>

lemma tree_level:
  assumes "tree_but f p base span e B" "span > 1" "length C = length B" "\<And>i. i < base + span \<Longrightarrow> C ! i = B ! i"
    "tree_ok f p (base + span) ((span + 3) div 4) C" "C ! (base + span + e) = node_value f p base span B e"
    "\<And>j. j < (span + 3) div 4 \<Longrightarrow> j \<noteq> e \<Longrightarrow> C ! (base + span + j) = B ! (base + span + j)"
  shows "tree_ok f p base span C"
proof -
  have n: "node_value f p base span C j = node_value f p base span B j" for j by (rule node_value_cong) (use assms(3,4) in auto)
  have "C ! (base + span + j) = node_value f p base span C j" if "j < (span + 3) div 4" for j
    using that assms(1,2,6,7) n by (cases "j = e") (auto simp: tree_but_def)
  then show ?thesis using assms(5) tree_ok.simps [of f p base span C] by auto
qed

lemma branch_slice:
  assumes "4 * e < span" "base + span \<le> length val"
  shows "branch base span val e = val ! (base + 4 * e) # take (min (base + 4 * e + 4) (base + span) - Suc (base + 4 * e)) (drop (Suc (base + 4 * e)) val)"
proof -
  let ?ip = "base + 4 * e"
  have "branch base span val e = take (min 4 (span - 4 * e)) (drop ?ip val)" by (simp add: branch_def drop_take add.commute)
  also have "drop ?ip val = val ! ?ip # drop (Suc ?ip) val" using assms by (simp add: Cons_nth_drop_Suc)
  also have "min 4 (span - 4 * e) = Suc (min (?ip + 4) (base + span) - Suc ?ip)" using assms(1) by auto
  finally show ?thesis by simp
qed

text \<open>The state of a resolver: what it keeps of the drivers \<open>D\<close>. With one port the output is kept in the place
  of the driver.\<close>

definition net_inv :: "('v \<Rightarrow> 'c list) \<Rightarrow> ('v \<Rightarrow> bool) \<Rightarrow> ('c \<Rightarrow> 'c \<Rightarrow> 'c) \<Rightarrow> ('c \<Rightarrow> 'c) \<Rightarrow> ('c \<Rightarrow> bool) \<Rightarrow> nat \<Rightarrow> nat \<Rightarrow> 'c list list \<Rightarrow> 'v list \<Rightarrow> bool" where
  "net_inv bits ok f p good w n D val \<longleftrightarrow> length val = resolv_node_count n \<and> list_all (\<lambda>v. ok v \<and> vec_fits good w (bits v)) val \<and>
     length D = n \<and> list_all (vec_fits good w) D \<and>
     (if n > 1 then take n (map bits val) = D \<and> tree_ok f p 0 n (map bits val) else map bits val = [map p (D ! 0)])"

section \<open>Resolvers\<close>

locale vec_resolver =
  fixes k :: "'v vec_ops" and bits :: "'v \<Rightarrow> 'c list" and ok :: "'v \<Rightarrow> bool" and f :: "'c \<Rightarrow> 'c \<Rightarrow> 'c" and p :: "'c \<Rightarrow> 'c" and good :: "'c \<Rightarrow> bool"
  assumes size: "ok v \<Longrightarrow> op_size k v = length (bits v)"
    and eeq: "ok v \<Longrightarrow> ok w \<Longrightarrow> op_eeq k v w \<longleftrightarrow> bits v = bits w"
    and assign: "ok w \<Longrightarrow> ok (op_assign k v w) \<and> bits (op_assign k v w) = bits w"
    and resolve: "ok v \<Longrightarrow> ok w \<Longrightarrow> length (bits v) = length (bits w) \<Longrightarrow>
      \<exists>u. op_resolve k v w = Some u \<and> ok u \<and> bits u = map2 f (bits v) (bits w)"
    and closed: "good a \<Longrightarrow> good b \<Longrightarrow> good (f a b)"
    and assoc: "good a \<Longrightarrow> good b \<Longrightarrow> good c \<Longrightarrow> f (f a b) c = f a (f b c)"
    and pulled: "good a \<Longrightarrow> good (p a) \<and> p (p a) = p a"
begin

abbreviation vec :: "nat \<Rightarrow> 'v \<Rightarrow> bool" where
  "vec w v \<equiv> ok v \<and> vec_fits good w (bits v)"

lemma comb_fits: "vec_fits good w x \<Longrightarrow> vec_fits good w y \<Longrightarrow> vec_fits good w (comb f x y)"
  by (auto simp: vec_fits_def comb_def list_all_length closed)

lemma comb_assoc:
  assumes "vec_fits good w x" "vec_fits good w y" "vec_fits good w z"
  shows "comb f (comb f x y) z = comb f x (comb f y z)"
proof (cases "x = [] \<or> y = [] \<or> z = []")
  case True
  then show ?thesis by (auto simp: comb_def)
next
  case False
  then have "length x = w" "length y = w" "length z = w" "list_all good x" "list_all good y" "list_all good z" using assms by (auto simp: vec_fits_def)
  moreover then have "map2 f (map2 f x y) z = map2 f x (map2 f y z)" by (intro nth_equalityI) (auto simp: list_all_length assoc)
  moreover have "map2 f x y \<noteq> []" "map2 f y z \<noteq> []" using False calculation(1-3) by (auto simp: zip_eq_Nil_iff)
  ultimately show ?thesis using False by (simp add: comb_def)
qed

lemma fold_fits: "vec_fits good w x \<Longrightarrow> list_all (vec_fits good w) xs \<Longrightarrow> vec_fits good w (foldl (comb f) x xs)"
  by (induction xs arbitrary: x) (auto simp: comb_fits)

lemma fold_start: "vec_fits good w x \<Longrightarrow> list_all (vec_fits good w) xs \<Longrightarrow> foldl (comb f) x xs = comb f x (foldl (comb f) [] xs)"
proof (induction xs arbitrary: x)
  case (Cons y ys)
  have y: "comb f [] y = y" by (simp add: comb_def)
  have "foldl (comb f) (comb f x y) ys = comb f (comb f x y) (foldl (comb f) [] ys)" using Cons comb_fits by auto
  also have "\<dots> = comb f x (comb f y (foldl (comb f) [] ys))"
    by (rule comb_assoc [of w]) (use Cons.prems fold_fits [of w "[]" ys] in \<open>auto simp: vec_fits_def [of _ _ "[]"]\<close>)
  also have "comb f y (foldl (comb f) [] ys) = foldl (comb f) y ys" using Cons.IH [of y] Cons.prems by simp
  finally show ?case using y by simp
qed (simp add: comb_def)

lemma fold_concat:
  "list_all (list_all (vec_fits good w)) xss \<Longrightarrow> foldl (comb f) [] (concat xss) = foldl (comb f) [] (map (foldl (comb f) []) xss)"
proof (induction xss)
  case (Cons xs xss)
  have e: "vec_fits good w []" by (simp add: vec_fits_def)
  have a: "list_all (vec_fits good w) (concat xss)" "list_all (vec_fits good w) (map (foldl (comb f) []) xss)"
    using Cons.prems fold_fits [OF e] by (auto simp: list_all_iff)
  have c: "comb f [] (foldl (comb f) [] xs) = foldl (comb f) [] xs" by (simp add: comb_def)
  have b: "vec_fits good w (foldl (comb f) [] xs)" using fold_fits [OF e] Cons.prems by simp
  show ?case using Cons fold_start [OF b a(1)] fold_start [OF b a(2)] c by simp
qed simp

lemma resolv_group_bits:
  "\<lbrakk>vec w v; list_all (vec w) vs\<rbrakk> \<Longrightarrow> \<exists>u. resolv_group k v vs = Some u \<and> vec w u \<and> bits u = foldl (comb f) (bits v) (map bits vs)"
proof (induction vs arbitrary: v)
  case (Cons x vs)
  consider "bits x = []" | "bits x \<noteq> []" "bits v = []" | "bits x \<noteq> []" "bits v \<noteq> []" by blast
  then show ?case
  proof cases
    case 3
    then have "length (bits v) = length (bits x)" using Cons.prems by (auto simp: vec_fits_def)
    then obtain u where u: "op_resolve k v x = Some u" "ok u" "bits u = map2 f (bits v) (bits x)" using resolve [of v x] Cons.prems by auto
    then have "bits u = comb f (bits v) (bits x)" using 3 by (simp add: comb_def)
    moreover then have "vec w u" using u(2) comb_fits Cons.prems by simp
    ultimately show ?thesis using Cons.IH [of u] Cons.prems u(1) 3 by (simp add: size)
  qed (use Cons in \<open>auto simp: size comb_def\<close>)
qed simp

lemma tree_value:
  "\<lbrakk>tree_ok f p base span B; span > 1; list_all (vec_fits good w) B; tree_root base span < length B\<rbrakk> \<Longrightarrow>
   B ! tree_root base span = map p (foldl (comb f) [] (take span (drop base B)))"
proof (induction base span rule: tree_root.induct)
  case (1 base span)
  let ?s = "(span + 3) div 4" and ?xs = "take span (drop base B)"
  have nodes: "B ! (base + span + j) = node_value f p base span B j" if "j < ?s" for j
    using 1(2,3) that tree_ok.simps [of f p base span B] by auto
  have root: "tree_root base span = tree_root (base + span) ?s" using 1(3) by (simp add: tree_root.simps [of base span])
  show ?case
  proof (cases "span \<le> 4")
    case True
    then have s: "?s = 1" using 1(3) by auto
    have "branch base span B 0 = ?xs" using True by (simp add: branch_def min_def)
    then show ?thesis using nodes [of 0] s root True by (simp add: node_value_def tree_root.simps [of "base + span"])
  next
    case False
    then have s: "?s > 1" by auto
    have len: "base + span + ?s < length B" using tree_root_ge [OF s, of "base + span"] root 1(5) by simp
    have ok: "tree_ok f p (base + span) ?s B" using 1(2,3) tree_ok.simps [of f p base span B] by auto
    let ?g = "map (branch base span B) [0..<?s]"
    have "take ?s (drop (base + span) B) = map (foldl (comb f) []) ?g"
      using len nodes False by (intro nth_equalityI) (simp_all add: node_value_def)
    moreover have "concat ?g = ?xs" using groups_concat [of ?xs ?s] by (simp add: branch_def [abs_def])
    moreover have "list_all (list_all (vec_fits good w)) ?g"
      using 1(4) by (auto simp: list_all_iff branch_def dest!: in_set_takeD in_set_dropD)
    ultimately have "foldl (comb f) [] (take ?s (drop (base + span) B)) = foldl (comb f) [] ?xs" using fold_concat [of w ?g] by simp
    then show ?thesis using 1(1) [OF 1(3) ok s 1(4)] 1(5) root by simp
  qed
qed

lemma walk_unfold:
  assumes "list_all (vec w) val" "span > 1" "port < span" "tree_root base span < length val"
  obtains u where "vec w u" "bits u = foldl (comb f) [] (branch base span (map bits val) (port div 4))"
    "resolv_walk k base span port val = (if bits (val ! (base + span + port div 4)) = bits u then Some (val, None)
       else resolv_walk k (base + span) ((span + 3) div 4) (port div 4)
              (val[base + span + port div 4 := op_assign k (val ! (base + span + port div 4)) u]))"
proof -
  note pos = walk_positions [OF assms(2-4)]
  let ?e = "port div 4" and ?oq = "base + span + port div 4"
  let ?ip = "base + 4 * ?e" let ?ll = "min (?ip + 4) (base + span)"
  have oq: "?oq < length val" using pos(1,6) by simp
  define v vs where "v = val ! ?ip" and "vs = take (?ll - Suc ?ip) (drop (Suc ?ip) val)"
  have g: "branch base span val ?e = v # vs" using branch_slice [OF pos(2), of base val] oq by (simp add: v_def vs_def)
  have "list_all (vec w) (branch base span val ?e)"
    using assms(1) by (auto simp: list_all_iff branch_def dest!: in_set_takeD in_set_dropD)
  then have "list_all (vec w) (v # vs)" unfolding g .
  then obtain u where u: "resolv_group k v vs = Some u" "vec w u" "bits u = foldl (comb f) (bits v) (map bits vs)"
    using resolv_group_bits [where w = w and v = v and vs = vs] by auto
  have b: "?ip < length val \<and> ?ll \<le> length val \<and> ?oq < length val" using oq pos(2) by auto
  have "ok (val ! ?oq)" using assms(1) oq by (simp add: list_all_length)
  then have q: "op_eeq k (val ! ?oq) u \<longleftrightarrow> bits (val ! ?oq) = bits u" using eeq u(2) by blast
  have "resolv_walk k base span port val = (if bits (val ! ?oq) = bits u then Some (val, None)
      else resolv_walk k (base + span) ((span + 3) div 4) ?e (val[?oq := op_assign k (val ! ?oq) u]))"
    unfolding resolv_walk.simps [of k base span] Let_def v_def [symmetric] vs_def [symmetric] using assms(2) b u(1) q by simp
  moreover have "bits u = foldl (comb f) [] (branch base span (map bits val) ?e)" using u(3) by (simp add: branch_map g comb_def [of f "[]"])
  ultimately show ?thesis using that u(2) by blast
qed

lemma walk_stops:
  assumes "tree_but f p base span (port div 4) (map bits val)" "span > 1" "port < span" "tree_root base span < length val"
    "map p (bits (val ! tree_root base span)) = bits (val ! tree_root base span)"
    "bits (val ! (base + span + port div 4)) = foldl (comb f) [] (branch base span (map bits val) (port div 4))"
  shows "tree_ok f p base span (map bits val)"
proof (rule tree_level [OF assms(1,2)])
  note pos = walk_positions [OF assms(2-4)]
  show "map bits val ! (base + span + port div 4) = node_value f p base span (map bits val) (port div 4)"
    using assms(5,6) pos by (cases "span \<le> 4") (auto simp: node_value_def Let_def)
qed (use assms(1,2) in \<open>auto simp: tree_but_def\<close>)

lemma walk_settles:
  assumes "tree_but f p base span (port div 4) (map bits val)" "span > 1" "port < span" "tree_root base span < length val"
    "bits a = foldl (comb f) [] (branch base span (map bits val) (port div 4))" "length val' = length val"
    "\<forall>i < base + span + (span + 3) div 4. val' ! i = val[base + span + port div 4 := a] ! i"
  shows "span > 4 \<Longrightarrow> tree_ok f p (base + span) ((span + 3) div 4) (map bits val') \<Longrightarrow> tree_ok f p base span (map bits val')"
    and "r = tree_root base span \<Longrightarrow> tree_ok f p (base + span) ((span + 3) div 4) ((map bits val')[r := map p (bits (val' ! r))]) \<Longrightarrow>
      tree_ok f p base span ((map bits val')[r := map p (bits (val' ! r))])"
proof -
  note pos = walk_positions [OF assms(2-4)]
  let ?e = "port div 4" and ?oq = "base + span + port div 4" and ?s = "(span + 3) div 4" and ?B = "map bits val"
  have nv: "node_value f p base span ?B ?e = (if span \<le> 4 then map p (bits a) else bits a)" by (simp add: node_value_def Let_def assms(5))
  have keep: "val' ! i = val ! i" if "i < base + span" for i using assms(7) that by simp
  have other: "val' ! (base + span + j) = val ! (base + span + j)" if "j < ?s" "j \<noteq> ?e" for j using assms(7) that by simp
  have here: "bits (val' ! ?oq) = bits a" "?oq < length val" using assms(7) pos(1,6) by simp_all
  have len: "i < base + span + ?s \<Longrightarrow> i < length val" for i by (rule pos(6))
  show "tree_ok f p base span (map bits val')" if "span > 4" "tree_ok f p (base + span) ?s (map bits val')"
    by (rule tree_level [OF assms(1,2)]) (use assms(6) that keep other here len nv in auto)
  show "tree_ok f p base span ((map bits val')[r := map p (bits (val' ! r))])"
    if r: "r = tree_root base span" "tree_ok f p (base + span) ?s ((map bits val')[r := map p (bits (val' ! r))])"
  proof (rule tree_level [OF assms(1,2)])
    show "(map bits val')[r := map p (bits (val' ! r))] ! ?oq = node_value f p base span ?B ?e"
    proof (cases "span > 4")
      case True
      then have "r \<noteq> ?oq" using pos(1,4) r(1) by auto
      then show ?thesis using here nv True assms(6) by simp
    qed (use pos(5) r(1) here nv assms(6) in simp)
    show "(map bits val')[r := map p (bits (val' ! r))] ! (base + span + j) = ?B ! (base + span + j)" if j: "j < ?s" "j \<noteq> ?e" for j
    proof -
      have "r \<noteq> base + span + j" using r(1) pos(4,5) j by (cases "span > 4") auto
      then show ?thesis using other [OF j] j len assms(6) by simp
    qed
    show "(map bits val')[r := map p (bits (val' ! r))] ! i = ?B ! i" if "i < base + span" for i
      using that keep len assms(6) tree_root_ge [OF assms(2), of base] r(1) by simp
  qed (use r assms(6) in auto)
qed

lemma walk:
  "\<lbrakk>list_all (vec w) val; tree_but f p base span (port div 4) (map bits val); port < span; tree_root base span < length val;
    span > 1 \<Longrightarrow> map p (bits (val ! tree_root base span)) = bits (val ! tree_root base span)\<rbrakk> \<Longrightarrow>
   \<exists>val' res. resolv_walk k base span port val = Some (val', res) \<and> length val' = length val \<and> list_all (vec w) val' \<and>
     (\<forall>i < base + span. val' ! i = val ! i) \<and>
     (case res of None \<Rightarrow> span > 1 \<and> tree_ok f p base span (map bits val') \<and> bits (val' ! tree_root base span) = bits (val ! tree_root base span)
      | Some r \<Rightarrow> r = tree_root base span \<and> tree_ok f p base span ((map bits val')[r := map p (bits (val' ! r))]))"
proof (induction span arbitrary: base port val rule: less_induct)
  case (less span)
  show ?case
  proof (cases "span > 1")
    case False
    then show ?thesis using less.prems by (simp add: resolv_walk.simps [of k base span] tree_root.simps [of base span] tree_ok.simps [of f p base span])
  next
    case True
    note pos = walk_positions [OF True less.prems(3,4)]
    let ?s = "(span + 3) div 4" and ?e = "port div 4" and ?r = "tree_root base span" and ?oq = "base + span + port div 4"
    obtain u where u: "vec w u" "bits u = foldl (comb f) [] (branch base span (map bits val) ?e)"
        "resolv_walk k base span port val = (if bits (val ! ?oq) = bits u then Some (val, None)
           else resolv_walk k (base + span) ?s ?e (val[?oq := op_assign k (val ! ?oq) u]))"
      by (rule walk_unfold [OF less.prems(1) True less.prems(3,4)])
    show ?thesis
    proof (cases "bits (val ! ?oq) = bits u")
      case same: True
      then have "tree_ok f p base span (map bits val)" using walk_stops [OF less.prems(2) True less.prems(3,4)] less.prems(5) True u(2) by simp
      then show ?thesis using u(3) same less.prems(1) True by simp
    next
      case new: False
      define v1 where "v1 = val[?oq := op_assign k (val ! ?oq) u]"
      have oq: "?oq < length val" using pos(1,6) by simp
      have vx: "ok (op_assign k (val ! ?oq) u)" "bits (op_assign k (val ! ?oq) u) = bits u" using assign [of u] u(1) by auto
      have B: "map bits v1 = (map bits val)[?oq := bits u]" using vx by (simp add: v1_def map_update)
      have all: "list_all (vec w) v1" unfolding v1_def using less.prems(1) vx u(1) by (auto intro: list_all_update)
      have lt: "?s < span" using True by auto
      have up: "tree_ok f p (base + span) ?s (map bits val)" using less.prems(2) True by (simp add: tree_but_def)
      have bt: "tree_but f p (base + span) ?s (?e div 4) (map bits v1)" unfolding B by (rule tree_but_update [OF up pos(1)])
      have pr: "map p (bits (v1 ! ?r)) = bits (v1 ! ?r)" if "?s > 1"
      proof -
        have "span > 4" using that by auto
        then have "?r \<noteq> ?oq" using pos(1,4) by auto
        then show ?thesis using less.prems(5) True by (simp add: v1_def)
      qed
      have ln: "length v1 = length val" by (simp add: v1_def)
      then have rl: "tree_root (base + span) ?s < length v1" using less.prems(4) pos(3) by simp
      obtain val' res where IH: "resolv_walk k (base + span) ?s ?e v1 = Some (val', res)" "length val' = length val" "list_all (vec w) val'"
          "\<forall>i < base + span + ?s. val' ! i = v1 ! i"
          "case res of None \<Rightarrow> ?s > 1 \<and> tree_ok f p (base + span) ?s (map bits val') \<and> bits (val' ! ?r) = bits (v1 ! ?r)
           | Some r \<Rightarrow> r = ?r \<and> tree_ok f p (base + span) ?s ((map bits val')[r := map p (bits (val' ! r))])"
        using less.IH [OF lt all bt pos(1) rl pr [unfolded pos(3)]] unfolding pos(3) ln by blast
      note settles = walk_settles [OF less.prems(2) True less.prems(3,4) vx(2) [unfolded u(2)] IH(2) IH(4) [unfolded v1_def]]
      have keep: "\<forall>i < base + span. val' ! i = val ! i" using IH(4) by (simp add: v1_def)
      show ?thesis
      proof (cases res)
        case None
        then have "span > 4" "tree_ok f p (base + span) ?s (map bits val')" "bits (val' ! ?r) = bits (v1 ! ?r)" using IH(5) by auto
        moreover have "?r \<noteq> ?oq" using pos(1,4) calculation(1) by auto
        ultimately show ?thesis using settles(1) u(3) new IH(1-3) keep None True by (simp add: v1_def)
      next
        case (Some r)
        then have r: "r = ?r" "tree_ok f p (base + span) ?s ((map bits val')[r := map p (bits (val' ! r))])" using IH(5) by auto
        show ?thesis using settles(2) [OF r] r(1) Some u(3) new IH(1-3) keep by (simp add: v1_def)
      qed
    qed
  qed
qed

lemma pulled_list: "vec_fits good w x \<Longrightarrow> map p (map p x) = map p x \<and> vec_fits good w (map p x)"
  using pulled by (auto simp: vec_fits_def list_all_iff)

lemma net_value:
  assumes "net_inv bits ok f p good w n D val" "n > 0"
  shows "bits (val ! tree_root 0 n) = map p (foldl (comb f) [] D)"
proof (cases "n > 1")
  case True
  have l: "tree_root 0 n < length val" using assms root_node [of n] by (simp add: net_inv_def)
  have "map bits val ! tree_root 0 n = map p (foldl (comb f) [] (take n (drop 0 (map bits val))))"
    by (rule tree_value [of 0 n "map bits val" w]) (use assms True l in \<open>auto simp: net_inv_def list_all_iff\<close>)
  then show ?thesis using assms True l by (simp add: net_inv_def)
next
  case False
  then have n: "n = 1" using assms(2) by simp
  then obtain d where d: "D = [d]" using assms(1) by (cases D) (auto simp: net_inv_def)
  then have "map bits val = [map p d]" using assms(1) n by (simp add: net_inv_def)
  then show ?thesis using d n by (cases val) (auto simp: tree_root.simps comb_def)
qed

lemma recv_same:
  assumes "net_inv bits ok f p good w n D val" "port < n" "bits (val ! port) = bits drv" "vec_fits good w (bits drv)"
  shows "net_inv bits ok f p good w n (D[port := bits drv]) val"
proof (cases "n > 1")
  case True
  then have "n \<le> length val" using assms(1) root_node [of n] tree_root_ge [of n 0] by (simp add: net_inv_def)
  then have "take n (map bits val) ! port = bits drv" using assms(2,3) by simp
  then have "D ! port = bits drv" using assms(1) True by (simp add: net_inv_def)
  then show ?thesis using assms(1,2) by (metis list_update_id)
next
  case False
  then have n: "n = 1" "port = 0" using assms(2) by auto
  then obtain d where d: "D = [d]" using assms(1) by (cases D) (auto simp: net_inv_def)
  have m: "map bits val = [map p d]" "vec_fits good w d" using assms(1) n d by (auto simp: net_inv_def)
  then have "bits drv = map p d" using assms(3) n by (cases val) auto
  then have "map p (bits drv) = map p d" using pulled_list [OF m(2)] by simp
  then show ?thesis using assms m d n by (simp add: net_inv_def)
qed

lemma recv_new:
  assumes "net_inv bits ok f p good w n D val" "port < n" "ok drv" "vec_fits good w (bits drv)"
  shows "\<exists>val' res. resolv_walk k 0 n port (val[port := op_assign k (val ! port) drv]) = Some (val', res) \<and>
    (case res of None \<Rightarrow> net_inv bits ok f p good w n (D[port := bits drv]) val' \<and> bits (val' ! tree_root 0 n) = bits (val ! tree_root 0 n)
     | Some r \<Rightarrow> r < length val' \<and> r = tree_root 0 n \<and> vec w (val' ! r) \<and>
         (\<forall>v. ok v \<and> bits v = map p (bits (val' ! r)) \<longrightarrow> net_inv bits ok f p good w n (D[port := bits drv]) (val'[r := v])))"
proof -
  let ?v = "val[port := op_assign k (val ! port) drv]" and ?r = "tree_root 0 n"
  have root: "?r < length val" "length val = resolv_node_count n" "port < length val" "n > 1 \<Longrightarrow> n \<le> ?r"
    using assms(1,2) root_node [of n] tree_root_ge [of n 0] by (cases "n > 1"; simp add: net_inv_def tree_root.simps [of 0 1])+
  have a: "ok (op_assign k (val ! port) drv)" "bits (op_assign k (val ! port) drv) = bits drv" using assign [OF assms(3)] by blast+
  have all: "list_all (vec w) ?v" using assms(1,4) a by (auto simp: net_inv_def intro: list_all_update)
  have B: "map bits ?v = (map bits val)[0 + port := bits drv]" using a by (simp add: map_update)
  have D: "list_all (vec_fits good w) (D[port := bits drv])" using assms(1,4) by (auto simp: net_inv_def intro: list_all_update)
  have but: "tree_but f p 0 n (port div 4) (map bits ?v)"
  proof (cases "n > 1")
    case True
    then show ?thesis unfolding B using tree_but_update [of f p 0 n "map bits val" port] assms(1,2) by (simp add: net_inv_def)
  qed (simp add: tree_but_def)
  have "vec_fits good w (foldl (comb f) [] D)" using fold_fits [of w "[]" D] assms(1) by (simp add: net_inv_def vec_fits_def [of _ _ "[]"])
  then have "map p (bits (?v ! ?r)) = bits (?v ! ?r)" if "n > 1"
    using net_value [OF assms(1)] pulled_list root that assms(2) by simp
  then obtain val' res where w: "resolv_walk k 0 n port ?v = Some (val', res)" "length val' = length val" "list_all (vec w) val'"
      "\<forall>i < n. val' ! i = ?v ! i"
      "case res of None \<Rightarrow> n > 1 \<and> tree_ok f p 0 n (map bits val') \<and> bits (val' ! ?r) = bits (?v ! ?r)
       | Some r \<Rightarrow> r = ?r \<and> tree_ok f p 0 n ((map bits val')[r := map p (bits (val' ! r))])"
    using walk [OF all but assms(2)] root by auto
  have leaves: "take n (map bits val') = D[port := bits drv]" if "n > 1"
  proof -
    have "take n (map bits val') = take n (map bits ?v)" using w(2,4) root(1,4) that by (intro nth_equalityI) auto
    then show ?thesis unfolding B using assms(1) that by (simp add: net_inv_def take_update_swap)
  qed
  show ?thesis
  proof (cases res)
    case None
    then have "n > 1" "tree_ok f p 0 n (map bits val')" "bits (val' ! ?r) = bits (val ! ?r)" using w(5) root assms(2) by auto
    then show ?thesis using w(1-3) None leaves D assms(1,2) root by (simp add: net_inv_def)
  next
    case (Some r)
    then have r: "r = ?r" "tree_ok f p 0 n ((map bits val')[r := map p (bits (val' ! r))])" using w(5) by auto
    have rl: "r < length val'" "vec w (val' ! r)" using r root w(2,3) by (auto simp: list_all_length)
    have "net_inv bits ok f p good w n (D[port := bits drv]) (val'[r := v])" if v: "ok v" "bits v = map p (bits (val' ! r))" for v
    proof -
      have "vec w v" using v pulled_list rl by simp
      then have "list_all (vec w) (val'[r := v])" using w(3) by (auto intro: list_all_update)
      moreover have "map bits (val'[r := v]) = (map bits val')[r := map p (bits (val' ! r))]" using v by (simp add: map_update)
      moreover have "take n (map bits (val'[r := v])) = D[port := bits drv]" if "n > 1"
        using leaves [OF that] r(1) root(4) [OF that] by (simp add: take_map)
      moreover have "map bits (val'[r := v]) = [map p (bits drv)]" if "\<not> n > 1"
      proof -
        have n: "n = 1" "port = 0" "r = 0" using that assms(2) r(1) by (auto simp: tree_root.simps)
        have "length val = 1" "val' ! 0 = op_assign k (val ! 0) drv" using w(4) n root root_node [of n] by (simp_all add: tree_root.simps [of 0 "Suc 0"])
        then show ?thesis using a v n w(2) by (cases val') auto
      qed
      moreover have "D[port := bits drv] ! 0 = bits drv" if "\<not> n > 1" using that assms(1,2) by (cases D) (auto simp: net_inv_def)
      ultimately show ?thesis using D assms(1,2) w(2) r(2) by (auto simp: net_inv_def)
    qed
    then show ?thesis using w(1) Some r(1) rl by simp
  qed
qed

lemma recv_ok:
  assumes "net_inv bits ok f p good w n D val" "port < n" "ok drv" "vec_fits good w (bits drv)"
  shows "\<exists>val' res. resolv_recv k n val port drv = Some (val', res) \<and>
    (case res of None \<Rightarrow> net_inv bits ok f p good w n (D[port := bits drv]) val' \<and> bits (val' ! tree_root 0 n) = bits (val ! tree_root 0 n)
     | Some r \<Rightarrow> r < length val' \<and> r = tree_root 0 n \<and> vec w (val' ! r) \<and>
         (\<forall>v. ok v \<and> bits v = map p (bits (val' ! r)) \<longrightarrow> net_inv bits ok f p good w n (D[port := bits drv]) (val'[r := v])))"
proof -
  have pl: "port < length val" using assms(1,2) root_node [of n] tree_root_ge [of n 0] by (cases "n > 1") (auto simp: net_inv_def tree_root.simps [of 0 "Suc 0"])
  then have "ok (val ! port)" using assms(1) by (auto simp: net_inv_def list_all_length)
  then have q: "op_eeq k (val ! port) drv \<longleftrightarrow> bits (val ! port) = bits drv" using eeq assms(3) by blast
  show ?thesis
  proof (cases "bits (val ! port) = bits drv")
    case True
    then show ?thesis using recv_same [OF assms(1,2) _ assms(4)] assms(2) pl q by (simp add: resolv_recv_def)
  next
    case False
    then show ?thesis using recv_new [OF assms] assms(2) pl q by (simp add: resolv_recv_def)
  qed
qed

end

end
