(* ===== verification/Resolv_Claims.thy ===== *)
theory Resolv_Claims
  imports Resolv_Tree
begin

text \<open>
  The two resolvers are instances of the tree, and the value of their net is the resolution of the last
  values of all their drivers.
\<close>

section \<open>Bit by bit\<close>

lemma comb_bits:
  "\<lbrakk>length x = w; \<forall>d \<in> set D. d = [] \<or> length d = w; w > 0\<rbrakk> \<Longrightarrow>
   foldl (comb f) x D = map (\<lambda>i. foldl f (x ! i) (map (\<lambda>d. d ! i) (filter (\<lambda>d. d \<noteq> []) D))) [0..<w]"
proof (induction D arbitrary: x)
  case Nil
  then show ?case by (auto intro: nth_equalityI)
next
  case (Cons d D)
  show ?case
  proof (cases "d = []")
    case False
    then have "comb f x d = map2 f x d" "length (map2 f x d) = w" using Cons.prems by (auto simp: comb_def)
    then show ?thesis using False Cons.IH [of "map2 f x d"] Cons.prems by simp
  qed (use Cons in \<open>simp add: comb_def\<close>)
qed

text \<open>\<open>z\<close> is what an undriven bit has.\<close>

definition by_bits :: "('c \<Rightarrow> 'c \<Rightarrow> 'c) \<Rightarrow> 'c \<Rightarrow> nat \<Rightarrow> 'c list list \<Rightarrow> 'c list" where
  "by_bits f z w D = map (\<lambda>i. foldl f z (map (\<lambda>d. d ! i) (filter (\<lambda>d. d \<noteq> []) D))) [0..<w]"

lemma by_bits_comb:
  assumes "list_all (vec_fits good w) D" "w > 0" "\<exists>d \<in> set D. d \<noteq> []" "\<And>a. good a \<Longrightarrow> f z a = a"
  shows "foldl (comb f) [] D = by_bits f z w D"
  using assms(1,3)
proof (induction D)
  case (Cons d D)
  show ?case
  proof (cases "d = []")
    case True
    then show ?thesis using Cons by (simp add: comb_def by_bits_def)
  next
    case False
    then have d: "length d = w" "list_all good d" using Cons.prems by (auto simp: vec_fits_def)
    have "\<forall>d \<in> set D. d = [] \<or> length d = w" using Cons.prems by (auto simp: list_all_iff vec_fits_def)
    then have "foldl (comb f) d D = map (\<lambda>i. foldl f (d ! i) (map (\<lambda>d. d ! i) (filter (\<lambda>d. d \<noteq> []) D))) [0..<w]"
      using comb_bits [OF d(1)] assms(2) by blast
    then show ?thesis using False d assms(4) by (simp add: comb_def [of f "[]"] by_bits_def list_all_length)
  qed
qed simp

text \<open>The last value of each driver.\<close>

definition driven :: "('v \<Rightarrow> 'c list) \<Rightarrow> nat \<Rightarrow> (nat \<times> 'v) list \<Rightarrow> 'c list list" where
  "driven bits n rs = foldl (\<lambda>D (port, v). D[port := bits v]) (replicate n []) rs"

lemma driven_some:
  assumes "\<forall>(port, v) \<in> set rs. port < n \<and> bits v \<noteq> []" "rs \<noteq> []"
  shows "\<exists>d \<in> set (driven bits n rs). d \<noteq> []"
proof -
  obtain rs' port v where rs: "rs = rs' @ [(port, v)]" using assms(2) by (metis prod.exhaust rev_exhaust)
  have l: "length (driven bits n xs) = n" for xs unfolding driven_def by (induction xs rule: rev_induct) auto
  have "bits v \<in> set (driven bits n rs)" using l [of rs'] assms(1) rs by (auto simp: driven_def intro: set_update_memI)
  then show ?thesis using assms(1) rs by auto
qed

section \<open>By strength\<close>

definition pull_by :: "vvp_scalar \<Rightarrow> vvp_scalar \<Rightarrow> vvp_scalar" where
  "pull_by h x = (if standard h then resolve_scalar x h else x)"

lemma pull_by_standard: "standard a \<Longrightarrow> standard (pull_by h a) \<and> pull_by h (pull_by h a) = pull_by h a"
  using standard_resolve(1) [of a h] standard_laws(1) [of a h h] by (auto simp: pull_by_def resolve_scalar_def [of h h])

interpretation tri: vec_resolver vec8_ops v8_bits wf8 resolve_scalar "pull_by h" standard for h
proof
  show "wf8 v \<Longrightarrow> wf8 w \<Longrightarrow> length (v8_bits v) = length (v8_bits w) \<Longrightarrow>
      \<exists>u. op_resolve vec8_ops v w = Some u \<and> wf8 u \<and> v8_bits u = map2 resolve_scalar (v8_bits v) (v8_bits w)" for v w
    using resolve_vec8_bits by (simp add: vec8_ops_def v8_bits_length)
qed (use v8_eeq_bits v8_assign_bits standard_resolve(1) standard_laws(1) pull_by_standard in \<open>auto simp: vec8_ops_def v8_bits_length\<close>)

lemma pull_vec8_bits:
  assumes "wf8 v" "standard h" "list_all standard (v8_bits v)"
  shows "\<exists>u. pull_vec8 h v = Some u \<and> wf8 u \<and> v8_bits u = map (pull_by h) (v8_bits v)"
proof (cases "is_hiz h")
  case True
  then have "h = 0" using assms(2) enc_hiz unfolding standard_iff by blast
  moreover have "resolve_scalar a 0 = a" if "standard a" for a using that enc_hiz unfolding standard_iff by (auto simp del: enc.simps)
  then have "map (pull_by 0) (v8_bits v) = v8_bits v"
    using assms(2,3) calculation by (intro map_idI) (simp add: pull_by_def list_all_iff)
  ultimately show ?thesis using assms(1) True by (simp add: pull_vec8_def)
next
  case False
  let ?g = "\<lambda>i. resolve_scalar (v8_bits v ! i) h"
  obtain u where u: "pull_vec8 h v = Some u" "wf8 u" "v8_bits u = map ?g [0..<size8 v]"
    using v8_write_bits [OF assms(1), of 0 "size8 v" "\<lambda>idx. do { b \<leftarrow> v8_value v idx; Some (resolve_scalar b h) }" ?g] False v8_bits_length [OF assms(1)]
    by (auto simp: pull_vec8_def v8_value_bits)
  moreover have "map ?g [0..<size8 v] = map (pull_by h) (v8_bits v)"
    using v8_bits_length [OF assms(1)] assms(2) by (intro nth_equalityI) (simp_all add: pull_by_def)
  ultimately show ?thesis by simp
qed

text \<open>A sequence of values that a resolver receives, and the value of its net: the last one that was sent.\<close>

fun tri_run :: "resolv_tri \<Rightarrow> vvp_vector8 \<Rightarrow> (nat \<times> vvp_vector8) list \<Rightarrow> (resolv_tri \<times> vvp_vector8) option" where
  "tri_run r net [] = Some (r, net)"
| "tri_run r net ((port, v) # rs) = do {
     (r, out) \<leftarrow> tri_recv_vec8 r port v;
     tri_run r (case out of None \<Rightarrow> net | Some v \<Rightarrow> v) rs }"

definition tri_ok :: "nat \<Rightarrow> vvp_scalar \<Rightarrow> nat \<Rightarrow> vvp_scalar list list \<Rightarrow> resolv_tri \<Rightarrow> vvp_vector8 \<Rightarrow> bool" where
  "tri_ok n h w D r net \<longleftrightarrow> tri_nports r = n \<and> hiz_value r = h \<and> net_inv v8_bits wf8 resolve_scalar (pull_by h) standard w n D (tri_val r) \<and>
     v8_bits net = v8_bits (tri_val r ! tree_root 0 n)"

lemma tri_recv_ok:
  assumes "tri_ok n h w D r net" "standard h" "port < n" "wf8 v" "vec_fits standard w (v8_bits v)"
  shows "\<exists>r' out. tri_recv_vec8 r port v = Some (r', out) \<and> tri_ok n h w (D[port := v8_bits v]) r' (case out of None \<Rightarrow> net | Some v \<Rightarrow> v)"
proof -
  have inv: "net_inv v8_bits wf8 resolve_scalar (pull_by h) standard w n D (tri_val r)" "tri_nports r = n" "hiz_value r = h" using assms(1) by (auto simp: tri_ok_def)
  obtain val res where recv: "resolv_recv vec8_ops n (tri_val r) port v = Some (val, res)"
      "case res of None \<Rightarrow> net_inv v8_bits wf8 resolve_scalar (pull_by h) standard w n (D[port := v8_bits v]) val \<and>
          v8_bits (val ! tree_root 0 n) = v8_bits (tri_val r ! tree_root 0 n)
       | Some b \<Rightarrow> b < length val \<and> b = tree_root 0 n \<and> (wf8 (val ! b) \<and> vec_fits standard w (v8_bits (val ! b))) \<and>
          (\<forall>u. wf8 u \<and> v8_bits u = map (pull_by h) (v8_bits (val ! b)) \<longrightarrow>
             net_inv v8_bits wf8 resolve_scalar (pull_by h) standard w n (D[port := v8_bits v]) (val[b := u]))"
    using tri.recv_ok [OF inv(1) assms(3-5)] by auto
  show ?thesis
  proof (cases res)
    case None
    then show ?thesis using recv inv assms(1) by (auto simp: tri_recv_vec8_def tri_ok_def)
  next
    case (Some b)
    then have b: "b < length val" "b = tree_root 0 n" "wf8 (val ! b)" "list_all standard (v8_bits (val ! b))" using recv(2) by (auto simp: vec_fits_def)
    then obtain u where "pull_vec8 h (val ! b) = Some u" "wf8 u" "v8_bits u = map (pull_by h) (v8_bits (val ! b))"
      using pull_vec8_bits assms(2) by blast
    then show ?thesis using recv inv Some b by (auto simp: tri_recv_vec8_def tri_ok_def)
  qed
qed

lemma tri_run_ok:
  "\<lbrakk>tri_ok n h w D r net; standard h; \<forall>(port, v) \<in> set rs. port < n \<and> wf8 v \<and> vec_fits standard w (v8_bits v)\<rbrakk> \<Longrightarrow>
   \<exists>r' net'. tri_run r net rs = Some (r', net') \<and> tri_ok n h w (foldl (\<lambda>D (port, v). D[port := v8_bits v]) D rs) r' net'"
proof (induction rs arbitrary: D r net)
  case (Cons x rs)
  obtain port v where x: "x = (port, v)" by (cases x)
  then obtain r' out where "tri_recv_vec8 r port v = Some (r', out)" "tri_ok n h w (D[port := v8_bits v]) r' (case out of None \<Rightarrow> net | Some v \<Rightarrow> v)"
    using tri_recv_ok [OF Cons.prems(1,2)] Cons.prems(3) by (metis (no_types, lifting) case_prodD list.set_intros(1))
  then show ?case using Cons x by auto
qed auto

lemma net_start:
  assumes "n > 0" "bits v = []" "ok v"
  shows "net_inv bits ok f p good w n (replicate n []) (replicate (resolv_node_count n) v)"
proof -
  have "tree_ok f p 0 n (map bits (replicate (resolv_node_count n) v))"
    by (rule tree_ok_empty) (use assms root_node in auto)
  moreover have "n \<le> resolv_node_count n" using assms(1) root_node [of n] tree_root_ge [of n 0] by (cases "n > 1") auto
  moreover have "\<not> n > 1 \<Longrightarrow> resolv_node_count n = 1" using root_node [of n] assms(1) by (simp add: tree_root.simps)
  ultimately show ?thesis using assms by (auto simp: net_inv_def vec_fits_def list_all_iff min_def)
qed

lemma root_below: "n > 0 \<Longrightarrow> tree_root 0 n < resolv_node_count n"
  by (simp add: root_node)

lemma tri_net:
  assumes "n > 0" "w > 0" "standard h" "rs \<noteq> []" "\<forall>(port, v) \<in> set rs. port < n \<and> wf8 v \<and> size8 v = w \<and> list_all standard (v8_bits v)"
  shows "\<exists>r net. tri_run (resolv_tri_new n h) (vector8_new 0) rs = Some (r, net) \<and>
    v8_bits net = map (\<lambda>x. resolve_scalar x h) (by_bits resolve_scalar scalar_hiz w (driven v8_bits n rs))"
proof -
  have start: "tri_ok n h w (replicate n []) (resolv_tri_new n h) (vector8_new 0)"
    using net_start [OF assms(1), of v8_bits "vector8_new 0" wf8] root_below [OF assms(1)] by (simp add: tri_ok_def resolv_tri_new_def vector8_new_bits)
  have ok: "\<forall>(port, v) \<in> set rs. port < n \<and> wf8 v \<and> vec_fits standard w (v8_bits v)"
    using assms(5) by (auto simp: vec_fits_def v8_bits_length)
  obtain r net where run: "tri_run (resolv_tri_new n h) (vector8_new 0) rs = Some (r, net)" "tri_ok n h w (driven v8_bits n rs) r net"
    using tri_run_ok [OF start assms(3) ok] by (auto simp: driven_def)
  then have inv: "net_inv v8_bits wf8 resolve_scalar (pull_by h) standard w n (driven v8_bits n rs) (tri_val r)" by (simp add: tri_ok_def)
  have "v8_bits net = map (pull_by h) (foldl (comb resolve_scalar) [] (driven v8_bits n rs))"
    using run(2) tri.net_value [OF inv assms(1)] by (simp add: tri_ok_def)
  moreover have "foldl (comb resolve_scalar) [] (driven v8_bits n rs) = by_bits resolve_scalar scalar_hiz w (driven v8_bits n rs)"
  proof (rule by_bits_comb [where good = standard])
    have "\<forall>(port, v) \<in> set rs. port < n \<and> v8_bits v \<noteq> []" using assms(2,5) v8_bits_length by fastforce
    then show "\<exists>d \<in> set (driven v8_bits n rs). d \<noteq> []" by (rule driven_some [OF _ assms(4)])
  qed (use run(2) assms(2) in \<open>auto simp: tri_ok_def net_inv_def scalar_hiz_def\<close>)
  ultimately show ?thesis using run(1) assms(3) by (simp add: pull_by_def [abs_def])
qed

section \<open>Wired logic\<close>

lemma wired_loop_bits:
  "\<lbrakk>idx + n = vsize out; wf_vec out; vsize a = vsize out; vsize b = vsize out\<rbrakk> \<Longrightarrow>
   \<exists>w. wired_loop f a b idx n out = Some w \<and> wf_vec w \<and> vec_bits w = take idx (vec_bits out) @ drop idx (map2 f (vec_bits a) (vec_bits b))"
proof (induction n arbitrary: idx out)
  case (Suc n)
  let ?x = "f (v4_value a idx) (v4_value b idx)"
  have l: "idx < length (vec_bits out)" "idx < vsize out" using Suc.prems(1) by auto
  obtain u where u: "v4_set_bit out idx ?x = Some u" "wf_vec u" "vec_bits u = (vec_bits out)[idx := ?x]"
    using v4_set_bit_bits [OF Suc.prems(2) l(2)] by blast
  have sz: "vsize u = vsize out" using u(3) by (metis length_list_update vec_bits_length)
  then obtain w where w: "wired_loop f a b (Suc idx) n u = Some w" "wf_vec w"
      "vec_bits w = take (Suc idx) (vec_bits u) @ drop (Suc idx) (map2 f (vec_bits a) (vec_bits b))"
    using Suc.IH [of "Suc idx" u] Suc.prems u(2) by auto
  have "drop idx (map2 f (vec_bits a) (vec_bits b)) = ?x # drop (Suc idx) (map2 f (vec_bits a) (vec_bits b))"
    using Suc.prems(3,4) l(2) by (subst Cons_nth_drop_Suc [symmetric]) (simp_all add: vec_bits_nth)
  then have "vec_bits w = take idx (vec_bits out) @ drop idx (map2 f (vec_bits a) (vec_bits b))"
    using w(3) u(3) take_Suc_update [OF l(1), of ?x] by simp
  then show ?case using u w by simp
qed simp

lemma wired_math_bits:
  "vsize a = vsize b \<Longrightarrow> \<exists>w. wired_logic_math f a b = Some w \<and> wf_vec w \<and> vec_bits w = map2 f (vec_bits a) (vec_bits b)"
proof -
  assume e: "vsize a = vsize b"
  have "wf_vec (vector4_fill (vsize b) BIT4_X)" "vsize (vector4_fill (vsize b) BIT4_X) = vsize b" by (simp_all add: vector4_fill_def)
  then show ?thesis using wired_loop_bits [of 0 "vsize b" "vector4_fill (vsize b) BIT4_X" a b f] e by (simp add: wired_logic_math_def)
qed

lemma wired_resolver:
  assumes "\<And>a b c. f (f a b) c = f a (f b c)"
  shows "vec_resolver (vec4_ops f) vec_bits wf_vec f (\<lambda>x. x) (\<lambda>_. True)"
proof
  show "op_eeq (vec4_ops f) v w \<longleftrightarrow> vec_bits v = vec_bits w" for v w by (simp only: vec4_ops_def vec_ops.simps eeq_bits)
  show "wf_vec (op_assign (vec4_ops f) v w) \<and> vec_bits (op_assign (vec4_ops f) v w) = vec_bits w" for v w
    using copy_from_bits [of w] by (simp add: vec4_ops_def)
  show "length (vec_bits v) = length (vec_bits w) \<Longrightarrow> \<exists>u. op_resolve (vec4_ops f) v w = Some u \<and> wf_vec u \<and> vec_bits u = map2 f (vec_bits v) (vec_bits w)" for v w
    using wired_math_bits [of v w f] by (simp add: vec4_ops_def)
  show "f (f a b) c = f a (f b c)" for a b c by (rule assms)
qed (simp_all add: vec4_ops_def)

lemma wired_assoc: "triand_bit (triand_bit a b) c = triand_bit a (triand_bit b c)" "trior_bit (trior_bit a b) c = trior_bit a (trior_bit b c)"
  by (cases a; cases b; cases c; simp add: triand_bit_def trior_bit_def)+

interpretation wired_and: vec_resolver "vec4_ops triand_bit" vec_bits wf_vec triand_bit "\<lambda>x. x" "\<lambda>_. True"
  by (rule wired_resolver) (rule wired_assoc)

interpretation wired_or: vec_resolver "vec4_ops trior_bit" vec_bits wf_vec trior_bit "\<lambda>x. x" "\<lambda>_. True"
  by (rule wired_resolver) (rule wired_assoc)

fun wired_run :: "(vvp_bit4 \<Rightarrow> vvp_bit4 \<Rightarrow> vvp_bit4) \<Rightarrow> resolv_wired \<Rightarrow> vvp_vector4 \<Rightarrow> (nat \<times> vvp_vector4) list \<Rightarrow> (resolv_wired \<times> vvp_vector4) option" where
  "wired_run f r net [] = Some (r, net)"
| "wired_run f r net ((port, v) # rs) = do {
     (r, out) \<leftarrow> wired_recv_vec4 f r port v;
     wired_run f r (case out of None \<Rightarrow> net | Some v \<Rightarrow> v) rs }"

definition wired_ok :: "(vvp_bit4 \<Rightarrow> vvp_bit4 \<Rightarrow> vvp_bit4) \<Rightarrow> nat \<Rightarrow> nat \<Rightarrow> vvp_bit4 list list \<Rightarrow> resolv_wired \<Rightarrow> vvp_vector4 \<Rightarrow> bool" where
  "wired_ok f n w D r net \<longleftrightarrow> wired_nports r = n \<and> net_inv vec_bits wf_vec f (\<lambda>x. x) (\<lambda>_. True) w n D (wired_val r) \<and>
     vec_bits net = vec_bits (wired_val r ! tree_root 0 n)"

lemma wired_recv_ok:
  assumes res: "vec_resolver (vec4_ops f) vec_bits wf_vec f (\<lambda>x. x) (\<lambda>_. True)"
    and "wired_ok f n w D r net" "port < n" "wf_vec v" "vec_fits (\<lambda>_. True) w (vec_bits v)"
  shows "\<exists>r' out. wired_recv_vec4 f r port v = Some (r', out) \<and> wired_ok f n w (D[port := vec_bits v]) r' (case out of None \<Rightarrow> net | Some v \<Rightarrow> v)"
proof -
  have inv: "net_inv vec_bits wf_vec f (\<lambda>x. x) (\<lambda>_. True) w n D (wired_val r)" "wired_nports r = n" using assms(2) by (auto simp: wired_ok_def)
  obtain val res where recv: "resolv_recv (vec4_ops f) n (wired_val r) port v = Some (val, res)"
      "case res of None \<Rightarrow> net_inv vec_bits wf_vec f (\<lambda>x. x) (\<lambda>_. True) w n (D[port := vec_bits v]) val \<and>
          vec_bits (val ! tree_root 0 n) = vec_bits (wired_val r ! tree_root 0 n)
       | Some b \<Rightarrow> b < length val \<and> b = tree_root 0 n \<and> (wf_vec (val ! b) \<and> vec_fits (\<lambda>_. True) w (vec_bits (val ! b))) \<and>
          (\<forall>u. wf_vec u \<and> vec_bits u = map (\<lambda>x. x) (vec_bits (val ! b)) \<longrightarrow>
             net_inv vec_bits wf_vec f (\<lambda>x. x) (\<lambda>_. True) w n (D[port := vec_bits v]) (val[b := u]))"
    using vec_resolver.recv_ok [OF res inv(1) assms(3-5)] by auto
  show ?thesis
  proof (cases res)
    case None
    then show ?thesis using recv inv assms(2) by (auto simp: wired_recv_vec4_def wired_ok_def)
  next
    case (Some b)
    then have "net_inv vec_bits wf_vec f (\<lambda>x. x) (\<lambda>_. True) w n (D[port := vec_bits v]) (val[b := val ! b])" "b < length val" "b = tree_root 0 n"
      using recv(2) by auto
    then show ?thesis using recv(1) inv Some by (auto simp: wired_recv_vec4_def wired_ok_def)
  qed
qed

lemma wired_run_ok:
  assumes res: "vec_resolver (vec4_ops f) vec_bits wf_vec f (\<lambda>x. x) (\<lambda>_. True)"
  shows "\<lbrakk>wired_ok f n w D r net; \<forall>(port, v) \<in> set rs. port < n \<and> wf_vec v \<and> vec_fits (\<lambda>_. True) w (vec_bits v)\<rbrakk> \<Longrightarrow>
   \<exists>r' net'. wired_run f r net rs = Some (r', net') \<and> wired_ok f n w (foldl (\<lambda>D (port, v). D[port := vec_bits v]) D rs) r' net'"
proof (induction rs arbitrary: D r net)
  case (Cons x rs)
  obtain port v where x: "x = (port, v)" by (cases x)
  then obtain r' out where "wired_recv_vec4 f r port v = Some (r', out)" "wired_ok f n w (D[port := vec_bits v]) r' (case out of None \<Rightarrow> net | Some v \<Rightarrow> v)"
    using wired_recv_ok [OF res Cons.prems(1)] Cons.prems(2) by (metis (no_types, lifting) case_prodD list.set_intros(1))
  then show ?case using Cons x by auto
qed auto

lemma wired_net:
  assumes "vec_resolver (vec4_ops f) vec_bits wf_vec f (\<lambda>x. x) (\<lambda>_. True)" "\<And>a. f BIT4_Z a = a"
    and "n > 0" "w > 0" "rs \<noteq> []" "\<forall>(port, v) \<in> set rs. port < n \<and> wf_vec v \<and> vsize v = w"
  shows "\<exists>r net. wired_run f (resolv_wired_new n) (vector4_fill 0 BIT4_X) rs = Some (r, net) \<and>
    vec_bits net = by_bits f BIT4_Z w (driven vec_bits n rs)"
proof -
  have e: "vec_bits (vector4_fill 0 BIT4_X) = []" "wf_vec (vector4_fill 0 BIT4_X)" by (simp add: vector4_fill_bits) (simp add: vector4_fill_def)
  have start: "wired_ok f n w (replicate n []) (resolv_wired_new n) (vector4_fill 0 BIT4_X)"
    using net_start [OF assms(3), of vec_bits "vector4_fill 0 BIT4_X" wf_vec] e root_below [OF assms(3)] by (simp add: wired_ok_def resolv_wired_new_def)
  have ok: "\<forall>(port, v) \<in> set rs. port < n \<and> wf_vec v \<and> vec_fits (\<lambda>_. True) w (vec_bits v)"
    using assms(6) by (auto simp: vec_fits_def list_all_iff)
  obtain r net where run: "wired_run f (resolv_wired_new n) (vector4_fill 0 BIT4_X) rs = Some (r, net)" "wired_ok f n w (driven vec_bits n rs) r net"
    using wired_run_ok [OF assms(1) start ok] by (auto simp: driven_def)
  then have inv: "net_inv vec_bits wf_vec f (\<lambda>x. x) (\<lambda>_. True) w n (driven vec_bits n rs) (wired_val r)" by (simp add: wired_ok_def)
  have "vec_bits net = foldl (comb f) [] (driven vec_bits n rs)"
    using run(2) vec_resolver.net_value [OF assms(1) inv assms(3)] by (simp add: wired_ok_def)
  moreover have "foldl (comb f) [] (driven vec_bits n rs) = by_bits f BIT4_Z w (driven vec_bits n rs)"
  proof (rule by_bits_comb [where good = "\<lambda>_. True"])
    have "\<forall>(port, v) \<in> set rs. port < n \<and> vec_bits v \<noteq> []" using assms(4,6) by (auto simp: vec_bits_def)
    then show "\<exists>d \<in> set (driven vec_bits n rs). d \<noteq> []" by (rule driven_some [OF _ assms(5)])
  qed (use run(2) assms(2,4) in \<open>auto simp: wired_ok_def net_inv_def\<close>)
  ultimately show ?thesis using run(1) by simp
qed

section \<open>Properties\<close>

lemma standard_samples: "standard 0" "standard 0x66" "standard 0xdd"
proof -
  have "scalar_make BIT4_Z 0 0 = Some 0" "scalar_make BIT4_0 6 6 = Some 0x66" "scalar_make BIT4_1 5 5 = Some 0xdd" by code_simp+
  then show "standard 0" "standard 0x66" "standard 0xdd" unfolding standard_def by blast+
qed

definition sample_vec8 :: "vvp_scalar \<Rightarrow> vvp_vector8" where
  "sample_vec8 s = \<lparr>size8 = 1, bytes8 = [s, 0, 0, 0, 0, 0, 0, 0]\<rparr>"

lemma sample_vec8_bits [simp]: "wf8 (sample_vec8 s)" "size8 (sample_vec8 s) = 1" "v8_bits (sample_vec8 s) = [s]"
  by (auto simp: sample_vec8_def wf8_def v8_bits_def inline8_def numeral_eq_Suc)

text \<open>C28. Resolving two drivers that have one strength each gives the stronger one, an unknown of the common
  strength when the values differ at the same strength, and the other one when one drives nothing. For any two
  drivers at all, also ones with two strengths, value and strengths do not depend on the order of the two; the byte
  does not either, unless both drive nothing, which has two encodings.\<close>

theorem resolve_laws:
  assumes "standard a" "standard b"
  shows "standard (resolve_scalar a b) \<and> drive (resolve_scalar a b) = stronger (drive a) (drive b) \<and>
    (\<forall>c d. scalar_value (resolve_scalar c d) = scalar_value (resolve_scalar d c) \<and>
       strength0 (resolve_scalar c d) = strength0 (resolve_scalar d c) \<and>
       strength1 (resolve_scalar c d) = strength1 (resolve_scalar d c) \<and>
       (resolve_scalar c d = resolve_scalar d c \<or> is_hiz c \<and> is_hiz d))"
  using standard_resolve [OF assms] resolve_commutes resolve_nothing is_hiz_strengths by metis

theorem resolve_laws_witness: "drive (resolve_scalar 0x66 0xdd) = (6, BIT4_0) \<and> resolve_scalar 0x86 0xd5 = resolve_scalar 0xd5 0x86"
proof -
  have "\<not> is_hiz 0x86" "drive 0x66 = (6, BIT4_0)" "drive 0xdd = (5, BIT4_1)" by code_simp+
  then show ?thesis using resolve_laws [OF standard_samples(2,3)] by fastforce
qed

text \<open>C26. A net with drivers that have one strength each: whatever values the drivers send and in whatever
  order, no assertion of the resolver fails, and the last value it sent to the net is, in each bit, the
  resolution of the last values of all drivers in the order of the ports, resolved with the pull. The
  values that the tree keeps and does not compute again are never out of date.\<close>

theorem tri_net_value:
  assumes "n > 0" "w > 0" "standard h" "rs \<noteq> []" "\<forall>(port, v) \<in> set rs. port < n \<and> wf8 v \<and> size8 v = w \<and> list_all standard (v8_bits v)"
  shows "\<exists>r net. tri_run (resolv_tri_new n h) (vector8_new 0) rs = Some (r, net) \<and>
    v8_bits net = map (\<lambda>x. resolve_scalar x h) (by_bits resolve_scalar scalar_hiz w (driven v8_bits n rs))"
  by (rule tri_net [OF assms])

theorem tri_net_value_witness:
  "\<exists>r net. tri_run (resolv_tri_new 6 0xdd) (vector8_new 0) [(5, sample_vec8 0), (0, sample_vec8 0x66)] = Some (r, net) \<and> v8_bits net = [0x66]"
proof -
  let ?rs = "[(5 :: nat, sample_vec8 0), (0, sample_vec8 0x66)]"
  have "\<forall>(port, v) \<in> set ?rs. port < 6 \<and> wf8 v \<and> size8 v = 1 \<and> list_all standard (v8_bits v)" using standard_samples by simp
  then obtain r net where "tri_run (resolv_tri_new 6 0xdd) (vector8_new 0) ?rs = Some (r, net)"
      "v8_bits net = map (\<lambda>x. resolve_scalar x 0xdd) (by_bits resolve_scalar scalar_hiz 1 (driven v8_bits 6 ?rs))"
    using tri_net_value [of 6 1 "0xdd" ?rs] standard_samples(3) by auto
  moreover have "driven v8_bits 6 ?rs = [[0x66], [], [], [], [], [0]]" by (simp add: driven_def numeral_eq_Suc)
  moreover have "resolve_scalar (resolve_scalar 0 0x66) 0xdd = 0x66" "\<not> is_hiz 0x66" by code_simp+
  ultimately show ?thesis by (simp add: by_bits_def scalar_hiz_def)
qed

text \<open>C27. The same for the wired and and the wired or: in each bit the net has the logical combination of the
  last values of the drivers that drive it.\<close>

theorem wired_net_value:
  assumes "f = triand_bit \<or> f = trior_bit" "n > 0" "w > 0" "rs \<noteq> []" "\<forall>(port, v) \<in> set rs. port < n \<and> wf_vec v \<and> vsize v = w"
  shows "\<exists>r net. wired_run f (resolv_wired_new n) (vector4_fill 0 BIT4_X) rs = Some (r, net) \<and>
    vec_bits net = by_bits f BIT4_Z w (driven vec_bits n rs)"
  using assms(1)
proof
  assume "f = triand_bit"
  then show ?thesis using wired_net [OF wired_and.vec_resolver_axioms _ assms(2-5)] by (simp add: triand_bit_def)
next
  assume "f = trior_bit"
  then show ?thesis using wired_net [OF wired_or.vec_resolver_axioms _ assms(2-5)] by (simp add: trior_bit_def)
qed

theorem wired_net_value_witness:
  "\<exists>r net. wired_run triand_bit (resolv_wired_new 5) (vector4_fill 0 BIT4_X) [(4, vector4_fill 2 BIT4_0), (1, vector4_fill 2 BIT4_1)] = Some (r, net) \<and>
     vec_bits net = [BIT4_0, BIT4_0]"
proof -
  let ?rs = "[(4 :: nat, vector4_fill 2 BIT4_0), (1, vector4_fill 2 BIT4_1)]"
  have "\<forall>(port, v) \<in> set ?rs. port < 5 \<and> wf_vec v \<and> vsize v = 2" by (simp add: vector4_fill_def)
  then obtain r net where "wired_run triand_bit (resolv_wired_new 5) (vector4_fill 0 BIT4_X) ?rs = Some (r, net)"
      "vec_bits net = by_bits triand_bit BIT4_Z 2 (driven vec_bits 5 ?rs)"
    using wired_net_value [of triand_bit 5 2 ?rs] by auto
  moreover have "driven vec_bits 5 ?rs = [[], [BIT4_1, BIT4_1], [], [], [BIT4_0, BIT4_0]]"
    by (simp add: driven_def vector4_fill_bits numeral_eq_Suc)
  ultimately show ?thesis by (simp add: by_bits_def triand_bit_def upt_rec)
qed

text \<open>The second encoding of a driver that drives nothing: an open drain that drives 1.\<close>

lemma two_hiz_bytes:
  "0 < n \<Longrightarrow> n \<le> 7 \<Longrightarrow> scalar_make BIT4_1 n 0 = Some 0x88"
  "is_hiz 0x88" "resolve_scalar 0x88 scalar_hiz = 0" "resolve_scalar scalar_hiz 0x88 = 0x88"
  by (simp add: scalar_make_def) (code_simp+)

section \<open>The order of the ports\<close>

text \<open>The net of three drivers that send their values in the order of their ports.\<close>

definition three_drivers :: "vvp_scalar \<Rightarrow> vvp_scalar \<Rightarrow> vvp_scalar \<Rightarrow> vvp_bit4 list option" where
  "three_drivers a b c = map_option (\<lambda>(r, net). map scalar_value (v8_bits net))
     (tri_run (resolv_tri_new 3 scalar_hiz) (vector8_new 0) [(0, sample_vec8 a), (1, sample_vec8 b), (2, sample_vec8 c)])"

definition order_matters :: "nat \<Rightarrow> nat \<Rightarrow> bool" where
  "order_matters s t = (case (scalar_make BIT4_X t 0, scalar_make BIT4_0 s s, scalar_make BIT4_1 s s) of
     (Some drain, Some pull0, Some pull1) \<Rightarrow>
       three_drivers drain pull0 pull1 = Some [BIT4_0] \<and> three_drivers pull0 pull1 drain = Some [BIT4_X]
   | _ \<Rightarrow> False)"

lemma order_matters_table: "list_all (\<lambda>t. list_all (\<lambda>s. order_matters s t) [1..<t]) [2..<8]"
  by code_simp

lemma order_matters: "0 < s \<Longrightarrow> s < t \<Longrightarrow> t \<le> 7 \<Longrightarrow> order_matters s t"
proof -
  assume "0 < s" "s < t" "t \<le> 7"
  then have "t \<in> set [2..<8]" "s \<in> set [1..<t]" by auto
  then show ?thesis using order_matters_table unfolding list_all_iff by blast
qed

text \<open>C29. With a driver that has two strengths the resolved value depends on the order of the ports. Three
  drivers: an open drain whose input is unknown, of any strength t for 0 and nothing for 1, and two weaker drivers of
  one strength s that drive 0 and 1. On the ports in this order the net is 0, with the open drain on the last port it
  is unknown: resolving an ambiguous 0 with a 1 that is as strong as its weakest part keeps the 0.\<close>

theorem resolve_order_wrong:
  assumes "0 < s" "s < t" "t \<le> 7"
    "scalar_make BIT4_X t 0 = Some drain" "scalar_make BIT4_0 s s = Some pull0" "scalar_make BIT4_1 s s = Some pull1"
  shows "map_option (\<lambda>(r, net). map scalar_value (v8_bits net)) (tri_run (resolv_tri_new 3 scalar_hiz) (vector8_new 0)
      [(0, sample_vec8 drain), (1, sample_vec8 pull0), (2, sample_vec8 pull1)]) = Some [BIT4_0] \<and>
    map_option (\<lambda>(r, net). map scalar_value (v8_bits net)) (tri_run (resolv_tri_new 3 scalar_hiz) (vector8_new 0)
      [(0, sample_vec8 pull0), (1, sample_vec8 pull1), (2, sample_vec8 drain)]) = Some [BIT4_X]"
  using order_matters [OF assms(1-3)] assms(4-6) unfolding order_matters_def three_drivers_def by simp

theorem resolve_order_wrong_witness:
  "map_option (\<lambda>(r, net). map scalar_value (v8_bits net)) (tri_run (resolv_tri_new 3 scalar_hiz) (vector8_new 0)
      [(0, sample_vec8 0x86), (1, sample_vec8 0x55), (2, sample_vec8 0xdd)]) = Some [BIT4_0]"
proof -
  have "scalar_make BIT4_X 6 0 = Some 0x86" "scalar_make BIT4_0 5 5 = Some 0x55" "scalar_make BIT4_1 5 5 = Some 0xdd" by code_simp+
  then show ?thesis using resolve_order_wrong [of 5 6 "0x86" "0x55" "0xdd"] by simp
qed

text \<open>A resolver with one port and a pull keeps the pulled value in the place of the driver, so that a driver
  that drives nothing is counted.\<close>

lemma count_pulled:
  "Option.bind (tri_run (resolv_tri_new 1 0xdd) (vector8_new 0) [(0, sample_vec8 0)]) (\<lambda>(r, net). tri_count_drivers r 0 (0, 0, 0)) = Some (0, 1, 0)"
  "Option.bind (tri_run (resolv_tri_new 2 0xdd) (vector8_new 0) [(0, sample_vec8 0)]) (\<lambda>(r, net). tri_count_drivers r 0 (0, 0, 0)) = Some (0, 0, 0)"
  by code_simp+

end
