(* ===== verification/Spec2Isabelle.thy ===== *)
theory Spec2Isabelle
  imports Verinum_Claims Schedule_Claims Vvp_Claims Compile_Claims Vthread_Claims Vthread_LifeClaims Resolv_Claims
begin

text \<open>
  A verification development for Icarus Verilog.

  The program. \<^verbatim>\<open>ivl\<close> compiles Verilog: it parses (\<^verbatim>\<open>parse.y\<close>, \<^verbatim>\<open>pform*.cc\<close>), elaborates
  (\<^verbatim>\<open>elab*.cc\<close>, \<^verbatim>\<open>net*.cc\<close>), evaluates constants with the number class \<^verbatim>\<open>verinum\<close> and writes
  code through a target (\<^verbatim>\<open>tgt-*\<close>). \<^verbatim>\<open>vvp\<close> runs the code: threads (\<^verbatim>\<open>vthread.cc\<close>) and nets
  (\<^verbatim>\<open>vvp_net.cc\<close>) compute on packed four-valued vectors and ask the scheduler (\<^verbatim>\<open>schedule.cc\<close>) for
  events; the scheduler orders them into the regions of a time step and runs them, and VPI
  callbacks hang off both.

  Convention. A result of type \<open>'a option\<close> is \<open>None\<close> exactly where the C++ code stops or leaves
  defined behaviour: a failed assert, an access out of range, a division by zero, a shift by the
  word width. Machine words are \<open>64 word\<close> (the model is that of a 64 bit long), times wrap. Sizes,
  addresses and widths of vectors, 32 bit unsigned in the code, are natural numbers whose sums do not
  wrap: the model is that of vectors well below \<open>2 ^ 32 - 64\<close> bits, where the sums of the code do not
  wrap either. A wrap that a vector of ordinary size can reach (the mask of a force, the base of a part
  select) is written out.

  The theories.

  \<^item> \<open>Prelude\<close>: option-valued code, list update, two's complement ranges, the carry-ripple loop over
    digit strings with the contract of a digit adder as locale \<open>digit_adder\<close>, and the four-valued
    logic as locale \<open>four_valued\<close>.

  \<^item> \<open>Verinum\<close>, \<open>Verinum_String\<close>, \<open>Verinum_Arith\<close>, \<open>Verinum_Div\<close>, \<open>Verinum_Pow\<close>,
    \<open>Verinum_Claims\<close>: the class \<^verbatim>\<open>verinum\<close> of \<^verbatim>\<open>verinum.h\<close> and \<^verbatim>\<open>verinum.cc\<close>. The record
    \<open>verinum\<close> holds the bits (least significant first) and the four flags; every constructor,
    operator and function of the two files has a definition, except the ones that involve
    doubles and the stream output. \<open>vval\<close> is the integer a number denotes by its own sign flag;
    the theorems state every operator as an operation on that integer, modulo the width when the
    widths are fixed and exactly when they are not, and what happens with unknown bits. The
    compiler's bit adder interprets \<open>digit_adder\<close>, its bit operators interpret \<open>four_valued\<close>.

  \<^item> \<open>Vvp_Bits\<close>, \<open>Vvp_Vector4\<close>, \<open>Vvp_Reduce\<close>, \<open>Vvp_Arith4\<close>, \<open>Vvp_Slice\<close>, \<open>Vvp_Transfer\<close>,
    \<open>Vvp_Claims\<close>: the scalar
    \<^verbatim>\<open>vvp_bit4_t\<close> and the packed vector \<^verbatim>\<open>vvp_vector4_t\<close> of \<^verbatim>\<open>vvp/vvp_net.h\<close> and
    \<^verbatim>\<open>vvp/vvp_net.cc\<close>. The record \<open>vvp_vector4\<close> is the pair of word arrays; \<open>vec_bits\<close> is the
    abstraction, the list of the bits that count. The theorems are functional refinements: what
    each packed operation does to \<open>vec_bits\<close>, whatever the left-over bits of the last word.
    The word adder interprets \<open>digit_adder\<close>, the bit operators interpret \<open>four_valued\<close>.

  \<^item> \<open>Vvp_Strength\<close>, \<open>Vvp_Resolve\<close>, \<open>Resolv\<close>, \<open>Resolv_Tree\<close>, \<open>Resolv_Claims\<close>: values with strengths,
    \<^verbatim>\<open>vvp_scalar_t\<close> and \<^verbatim>\<open>vvp_vector8_t\<close>, and the resolver nodes of \<^verbatim>\<open>vvp/resolv.cc\<close>. \<open>drive\<close> reads a byte as a
    strength and a value, \<open>stronger\<close> is what resolution means for drivers with one strength.
    \<open>resolv_walk\<close> is the walk up the tree of resolved values, \<open>tree_ok\<close> its invariant. Locale \<open>vec_resolver\<close> is what the
    walk needs of a type of vectors; resolution by strength, the wired and and the wired or interpret it.

  \<^item> \<open>Symbols\<close>, \<open>Symbols_Tree\<close>: the symbol table \<^verbatim>\<open>vvp/symbols.cc\<close>. The datatype \<open>tree_node\<close> is the
    B-tree, a list of frames the chain of parents that a split climbs, \<open>key_store\<close> the chunks of key
    strings. \<open>lookup\<close> is the map a table denotes, \<open>wf_table\<close> its invariant (sorted, balanced, half
    full, keys in the store). Locale \<open>symbol_map\<close> is the contract of a symbol table.

  \<^item> \<open>Net_Link\<close>: the fan-out lists of \<^verbatim>\<open>vvp/vvp_net.cc\<close>, threaded through the input ports of the
    receivers in one shared store. \<open>fan_out\<close> reads a list off the store; linking and unlinking are
    stated with the lists they leave alone.

  \<^item> \<open>Opcode\<close>, \<open>Compile\<close>, \<open>Compile_Link\<close>, \<open>Compile_Claims\<close>: the linker \<^verbatim>\<open>vvp/compile.cc\<close> with the
    code space \<^verbatim>\<open>vvp/codes.cc\<close>. \<open>opcode_table\<close> is the instruction table, \<open>link_state\<close> the static state:
    chunks of cells, the symbol tables, the open references. \<open>compile_code\<close> compiles an instruction,
    \<open>resolve\<close> is the virtual method of the references, \<open>compile_cleanup\<close> the final passes. Locale
    \<open>resolver\<close> is the contract of the method (it succeeds exactly when its label is defined, keeps
    what is bound, and defines nothing when it fails); the methods of the model interpret it. The
    objects that other files make (VPI handles, nets) are pointers given by the record \<open>makers\<close>,
    required to be new and not null.

  \<^item> \<open>Vthread\<close>, \<open>Vthread_Ops\<close>, \<open>Vthread_Index\<close>, \<open>Vthread_Div\<close>: the interpreter \<^verbatim>\<open>vvp/vthread.cc\<close>. The
    record \<open>vthread_s\<close> is a thread, and each instruction on vectors, flags and index registers is a
    definition with the name of its function, \<open>of_ADD\<close> to \<open>of_XORR\<close>, on the operand cell and the thread.
    \<open>Vthread_Stack\<close>, \<open>Vthread_Alu\<close>, \<open>Vthread_Parts\<close>, \<open>Vthread_Select\<close>, \<open>Vthread_Compare\<close>,
    \<open>Vthread_Quotient\<close>, \<open>Vthread_DivOk\<close>, \<open>Vthread_Mod\<close>: what the instructions compute, as functions on
    lists of bits; \<open>yields\<close> says that an instruction leaves given bits on the stack and changes nothing
    else. The long division guesses a digit from the top words and corrects the guess; the lemmas
    give the sizes for which the guess is good and that the correction ends for all operands. The bit
    adder of the long remainder interprets \<open>digit_adder\<close>.

  \<^item> \<open>Vthread_Machine\<close>, \<open>Vthread_Run\<close>: threads together, in the record \<open>machine\<close>: creation and reaping,
    contexts, fork, join, detach, disable, end, delays and jumps, and the fetch loop \<open>run_loop\<close> and
    \<open>vthread_run\<close> with fuel. The addresses that the allocator hands out are a list in the state, and
    the calls to the scheduler are collected in their order. \<open>Vthread_Types\<close> gives each instruction
    a type, a function on the sizes of the stack, and shows that every type is sound. \<open>Vthread_Code\<close>
    connects the linker with the fetch loop: code that is allocated cell by cell is met in that order.
    Fuel: typed code needs two turns per instruction. \<open>Vthread_Claims\<close> states the properties.

  \<^item> \<open>Vthread_Life\<close>, \<open>Vthread_Family\<close>, \<open>Vthread_End\<close>, \<open>Vthread_Frame\<close>, \<open>Vthread_Progress\<close>,
    \<open>Vthread_Calls\<close>, \<open>Vthread_LifeClaims\<close>: the life of threads. \<open>life_step\<close> is an abstract system of
    threads that fork, join, detach, wait and end, with its invariant \<open>life_inv\<close>, under which some thread
    can always run. \<open>sim\<close> relates it to the thread objects, \<open>fetch_step\<close> is the fetch loop as a step relation,
    and locale \<open>simulation\<close>, interpreted on the two, carries the runs of the one to the other; \<open>sched_step\<close>
    is a call of \<open>vthread_run\<close>. The theorems are about plain code: no instruction that disables a thread,
    no jump to the reserved cell, threads outside functions and not waiting for events. What a disable
    does to a parent that waits is stated for any machine.

  \<^item> \<open>Schedule\<close>, \<open>Schedule_Queue\<close>, \<open>Schedule_Run\<close>, \<open>Schedule_Drain\<close>, \<open>Schedule_Claims\<close>: the
    scheduler \<^verbatim>\<open>vvp/schedule.cc\<close>. The record \<open>sched\<close> is its static state, \<open>do_call\<close> its interface,
    \<open>sim_step\<close> one iteration of the loops of \<^verbatim>\<open>schedule_simulate\<close> and \<^verbatim>\<open>run_rosync\<close>, with the
    position in the loop nest as a program counter; \<open>sim_run\<close> is the run relation with its trace of
    executed events and \<open>schedule_simulate\<close> the loop with fuel. An iteration that aborts is \<open>None\<close>: a force
    that does not fit its net, or the single-step display of a generic event without an object. Locale \<open>agenda_queue\<close> is the contract
    of a time-ordered queue (\<open>agenda\<close>: what is pending at which delay in which region); the cell list
    interprets it. What an event does outside (threads, nets, VPI) is the parameter
    \<open>environment\<close>: any function from an action and the state to a new outside state and a list of
    scheduler calls. Fuel: \<open>simulate_drains\<close> shows that some fuel is enough whenever the events
    schedule nothing new; a simulation that keeps scheduling need not end.

  What is not modelled: doubles (\<^verbatim>\<open>as_double\<close>, the constructors from double, real-valued nets) are
  bit patterns at most; slab allocation, counters' reports and debug output; the parser,
  elaboration and code generation; two-valued vectors, the other functors and VPI. The scheduler sees threads as opaque
  actions, and the interpreter collects its calls to the scheduler. Of the interpreter, instructions on
  reals, strings, objects, queues, arrays and nets, event waits and system calls are left out.
\<close>

end
